(* ===== verification/Spa_Prelude.thy ===== *)
theory Spa_Prelude
  imports Main "HOL-Library.Word"
begin

text \<open>
  Shared vocabulary of the SocketPro development.

  \<^item> The results of fallible code (\<open>fault + 'a\<close>) and their sequencing.
  \<^item> 32-bit unsigned arithmetic written out on \<open>nat\<close>, as the C++ code has it in
    \<^verbatim>\<open>unsigned int\<close>.
  \<^item> Heap blocks: a block from \<^verbatim>\<open>malloc\<close> is a list of cells, \<open>None\<close> for a cell
    that was never written. Reads and writes outside a block are the fault
    \<open>Out_Of_Bounds\<close>, so that memory safety is a theorem and not an assumption.
  \<^item> The predicate \<open>holds m off xs\<close> (the cells of \<open>m\<close> from \<open>off\<close> on are initialised with
    \<open>xs\<close>) and the collection \<open>mem_simps\<close> with which the component proofs reason about blocks.
\<close>

section \<open>Faults and sequencing\<close>

text \<open>
  \<open>Assertion\<close> is a failed \<^verbatim>\<open>assert\<close>, \<open>Signed_Overflow\<close> an overflow of a signed
  integer, \<open>Undefined_Conversion\<close> a floating-point number that the integer type it is converted to cannot
  hold, \<open>Invalid_Argument\<close> the standard exception of that name; \<open>Out_Of_Fuel\<close> is not a fault of the
  program but the end of the fuel of a recursive model; the last two are the
  \<^verbatim>\<open>CUException\<close> codes of \<^verbatim>\<open>include/definebase.h\<close> that the modelled code raises.
\<close>

datatype fault =
    Out_Of_Bounds
  | Uninitialised_Read
  | Assertion
  | Signed_Overflow
  | Undefined_Conversion
  | Invalid_Argument
  | Out_Of_Fuel
  | MB_BAD_DESERIALIZATION
  | MB_SERIALIZATION_NOT_SUPPORTED

definition bindr :: "'e + 'a \<Rightarrow> ('a \<Rightarrow> 'e + 'b) \<Rightarrow> 'e + 'b" where
  "bindr r f = (case r of Inl e \<Rightarrow> Inl e | Inr x \<Rightarrow> f x)"

lemma bindr_simps [simp]:
  "bindr (Inl e) f = Inl e"
  "bindr (Inr x) f = f x"
  by (simp_all add: bindr_def)

lemma bindr_assoc: "bindr (bindr r f) g = bindr r (\<lambda>x. bindr (f x) g)"
  by (cases r) auto

lemma bindr_Inr_iff: "bindr r f = Inr y \<longleftrightarrow> (\<exists>x. r = Inr x \<and> f x = Inr y)"
  by (cases r) auto

lemma bindr_Inl_iff: "bindr r f = Inl e \<longleftrightarrow> r = Inl e \<or> (\<exists>x. r = Inr x \<and> f x = Inl e)"
  by (cases r) auto

definition require :: "bool \<Rightarrow> fault + unit" where
  "require b = (if b then Inr () else Inl Assertion)"

lemma require_True [simp]: "b \<Longrightarrow> require b = Inr ()"
  by (simp add: require_def)

section \<open>Unsigned 32-bit arithmetic\<close>

definition max32 :: nat where
  "max32 = 4294967295"

definition add32 :: "nat \<Rightarrow> nat \<Rightarrow> nat" where
  "add32 a b = (a + b) mod 4294967296"

definition sub32 :: "nat \<Rightarrow> nat \<Rightarrow> nat" where
  "sub32 a b = (a + (4294967296 - b mod 4294967296)) mod 4294967296"

definition mul32 :: "nat \<Rightarrow> nat \<Rightarrow> nat" where
  "mul32 a b = (a * b) mod 4294967296"

named_theorems arith32 \<open>32-bit arithmetic that does not wrap is plain arithmetic\<close>

lemma add32_exact [arith32]: "a + b \<le> max32 \<Longrightarrow> add32 a b = a + b"
  by (simp add: add32_def max32_def)

lemma sub32_exact [arith32]:
  assumes "b \<le> a" and "a \<le> max32"
  shows "sub32 a b = a - b"
proof -
  have "b < 4294967296" and d: "a - b < 4294967296"
    using assms by (simp_all add: max32_def)
  then have "a + (4294967296 - b mod 4294967296) = (a - b) + 4294967296"
    using assms(1) by (simp add: mod_less)
  with d show ?thesis by (simp add: sub32_def)
qed

lemma mul32_exact [arith32]: "a * b \<le> max32 \<Longrightarrow> mul32 a b = a * b"
  by (simp add: mul32_def max32_def)

lemma add32_le [simp]: "add32 a b \<le> max32"
  using mod_less_divisor [of 4294967296 "a + b"] by (simp add: add32_def max32_def)

lemma mul32_le [simp]: "mul32 a b \<le> max32"
  using mod_less_divisor [of 4294967296 "a * b"] by (simp add: mul32_def max32_def)

section \<open>Heap blocks\<close>

type_synonym byte = "8 word"
type_synonym 'a mem = "'a option list"

definition mem_alloc :: "nat \<Rightarrow> 'a mem" where
  "mem_alloc n = replicate n None"

definition mem_put :: "'a list \<Rightarrow> nat \<Rightarrow> 'a list \<Rightarrow> 'a list" where
  "mem_put m off xs = take off m @ xs @ drop (off + length xs) m"

definition mem_read :: "'a list \<Rightarrow> nat \<Rightarrow> nat \<Rightarrow> fault + 'a list" where
  "mem_read m off n = (if off + n \<le> length m then Inr (take n (drop off m)) else Inl Out_Of_Bounds)"

definition mem_write :: "'a list \<Rightarrow> nat \<Rightarrow> 'a list \<Rightarrow> fault + 'a list" where
  "mem_write m off xs = (if off + length xs \<le> length m then Inr (mem_put m off xs) else Inl Out_Of_Bounds)"

text \<open>\<^verbatim>\<open>memmove(p + dst, p + src, n)\<close> inside one block.\<close>

definition mem_move :: "'a list \<Rightarrow> nat \<Rightarrow> nat \<Rightarrow> nat \<Rightarrow> fault + 'a list" where
  "mem_move m dst src n = bindr (mem_read m src n) (mem_write m dst)"

definition holds :: "'a mem \<Rightarrow> nat \<Rightarrow> 'a list \<Rightarrow> bool" where
  "holds m off xs \<longleftrightarrow> off + length xs \<le> length m \<and> take (length xs) (drop off m) = map Some xs"

named_theorems mem_simps \<open>rewriting of block reads, writes and contents\<close>

lemma length_mem_alloc [simp]: "length (mem_alloc n) = n"
  by (simp add: mem_alloc_def)

lemma length_mem_put [simp]: "off + length xs \<le> length m \<Longrightarrow> length (mem_put m off xs) = length m"
  by (simp add: mem_put_def)

lemma mem_put_Nil [simp]: "mem_put m off [] = m"
  by (simp add: mem_put_def)

lemma nth_mem_put:
  assumes "off + length xs \<le> length m" and "i < length m"
  shows "mem_put m off xs ! i = (if off \<le> i \<and> i < off + length xs then xs ! (i - off) else m ! i)"
  using assms by (auto simp: mem_put_def nth_append min_def)

lemma holds_nth:
  "holds m off xs \<longleftrightarrow> off + length xs \<le> length m \<and> (\<forall>i < length xs. m ! (off + i) = Some (xs ! i))"
  by (auto simp: holds_def list_eq_iff_nth_eq)

lemma holds_Nil [simp]: "holds m off [] \<longleftrightarrow> off \<le> length m"
  by (simp add: holds_def)

lemma holds_length: "holds m off xs \<Longrightarrow> off + length xs \<le> length m"
  by (simp add: holds_def)

lemma holds_append:
  "holds m off (xs @ ys) \<longleftrightarrow> holds m off xs \<and> holds m (off + length xs) ys"
proof
  assume h: "holds m off (xs @ ys)"
  have "m ! (off + i) = Some (xs ! i)" if "i < length xs" for i
    using h that by (auto simp: holds_nth nth_append dest: spec [where x = i])
  moreover have "m ! (off + length xs + i) = Some (ys ! i)" if "i < length ys" for i
    using h that by (auto simp: holds_nth nth_append add.assoc dest: spec [where x = "length xs + i"])
  ultimately show "holds m off xs \<and> holds m (off + length xs) ys"
    using h by (auto simp: holds_nth)
next
  assume h: "holds m off xs \<and> holds m (off + length xs) ys"
  have "m ! (off + i) = Some ((xs @ ys) ! i)" if "i < length xs + length ys" for i
  proof (cases "i < length xs")
    case True
    with h show ?thesis by (auto simp: holds_nth nth_append)
  next
    case False
    with that obtain j where "i = length xs + j" and "j < length ys"
      by (metis add_less_cancel_left le_Suc_ex not_less)
    with h show ?thesis by (auto simp: holds_nth nth_append add.assoc)
  qed
  with h show "holds m off (xs @ ys)" by (auto simp: holds_nth add.assoc)
qed

lemma holds_mem_put_same [mem_simps]:
  "off + length xs \<le> length m \<Longrightarrow> holds (mem_put m off (map Some xs)) off xs"
  by (auto simp: holds_nth nth_mem_put)

lemma holds_mem_put_other [mem_simps]:
  "holds m o' ys \<Longrightarrow> off + length xs \<le> length m \<Longrightarrow> o' + length ys \<le> off \<or> off + length xs \<le> o' \<Longrightarrow>
   holds (mem_put m off xs) o' ys"
  by (auto simp: holds_nth nth_mem_put)

lemma holds_read: "holds m off xs \<Longrightarrow> n = length xs \<Longrightarrow> mem_read m off n = Inr (map Some xs)"
  by (simp add: holds_def mem_read_def)

lemma mem_write_ok: "off + length xs \<le> length m \<Longrightarrow> mem_write m off xs = Inr (mem_put m off xs)"
  by (simp add: mem_write_def)

lemma mem_move_holds:
  "holds m src xs \<Longrightarrow> n = length xs \<Longrightarrow> dst + n \<le> length m \<Longrightarrow>
   mem_move m dst src n = Inr (mem_put m dst (map Some xs))"
  by (simp add: mem_move_def holds_read mem_write_ok)

lemma holds_unique: "holds m off xs \<Longrightarrow> holds m off ys \<Longrightarrow> length xs = length ys \<Longrightarrow> xs = ys"
  by (auto simp: holds_def inj_on_def dest: map_injective)

lemma holds_cells: "holds m off xs \<Longrightarrow> map the (take (length xs) (drop off m)) = xs"
  by (simp add: holds_def comp_def)

text \<open>Reading initialised cells as values; an indeterminate cell is a fault.\<close>

definition cells :: "'a mem \<Rightarrow> fault + 'a list" where
  "cells cs = (if None \<in> set cs then Inl Uninitialised_Read else Inr (map the cs))"

lemma cells_map_Some [simp]: "cells (map Some xs) = Inr xs"
  by (auto simp: cells_def comp_def)

lemma cells_Nil [simp]: "cells [] = Inr []"
  by (simp add: cells_def)

lemma cells_single [simp]: "cells [Some x] = Inr [x]"
  by (simp add: cells_def)

lemma map_Some_the: "None \<notin> set cs \<Longrightarrow> map Some (map the cs) = cs"
  by (induction cs) auto

end
