(* ===== verification/Membuffer.thy ===== *)
theory Membuffer
  imports Spa_Prelude
begin

text \<open>
  \<^verbatim>\<open>CUQueue\<close> of \<^verbatim>\<open>include/membuffer.h\<close>: the growable byte buffer that every SocketPro
  message is packed into and unpacked from.

  \<^item> The state \<open>uqueue\<close> has the class's fields. \<open>m_pBuffer\<close> is the heap block the pointer
    refers to (\<open>[]\<close> for \<^verbatim>\<open>nullptr\<close>), cells that \<^verbatim>\<open>malloc\<close> left
    uninitialised are \<open>None\<close>. Sizes are 32-bit unsigned numbers. A Linux build
    is modelled: little endian, 4-byte \<^verbatim>\<open>wchar_t\<close>, asserts enabled.
  \<^item> \<open>uq_inv\<close> is the class invariant, \<open>content\<close> the abstract value (the unread bytes).
  \<^item> Every operation has a lemma \<open><operation>_ok\<close> that gives its result in terms of \<open>content\<close>
    and shows that it stays inside the block.
\<close>

section \<open>Platform constants and the state\<close>

datatype tagOperationSystem = osWin | osApple | osUnix | osAndroid | osWinCE

definition GetOS :: tagOperationSystem where
  "GetOS = osUnix"

definition IsBigEndian :: bool where
  "IsBigEndian = False"

definition sizeof_wchar_t :: nat where
  "sizeof_wchar_t = 4"

definition DEFAULT_MEMORY_BUFFER_BLOCK_SIZE :: nat where
  "DEFAULT_MEMORY_BUFFER_BLOCK_SIZE = 4 * 1024"

definition UQUEUE_END_POSTION :: nat where
  "UQUEUE_END_POSTION = max32"

definition UQUEUE_NULL_LENGTH :: nat where
  "UQUEUE_NULL_LENGTH = max32"

record uqueue =
  m_nMaxBuffer :: nat
  m_nSize :: nat
  m_nHeadPos :: nat
  m_os :: tagOperationSystem
  m_bSameEndian :: bool
  m_nBlockSize :: nat
  m_pBuffer :: "byte mem"
  m_8ToW :: bool
  m_ToUtf8 :: bool

section \<open>The operations\<close>

definition CUQueue_new :: "nat \<Rightarrow> nat \<Rightarrow> tagOperationSystem \<Rightarrow> bool \<Rightarrow> uqueue" where
  "CUQueue_new maxLen blockSize os bigEndian =
     \<lparr>m_nMaxBuffer = maxLen, m_nSize = 0, m_nHeadPos = 0, m_os = os,
      m_bSameEndian = (bigEndian = IsBigEndian),
      m_nBlockSize = (if blockSize = 0 then DEFAULT_MEMORY_BUFFER_BLOCK_SIZE else blockSize),
      m_pBuffer = (if maxLen \<noteq> 0 then mem_alloc maxLen else []),
      m_8ToW = False, m_ToUtf8 = False\<rparr>"

text \<open>\<^verbatim>\<open>GetBuffer(offset)\<close> as the index into the block that the pointer refers to.\<close>

definition GetBuffer :: "uqueue \<Rightarrow> nat \<Rightarrow> nat" where
  "GetBuffer q offset =
     (let offset = (if offset > m_nSize q then m_nSize q else offset) in offset + m_nHeadPos q)"

definition GetTailSize :: "uqueue \<Rightarrow> nat" where
  "GetTailSize q = sub32 (sub32 (m_nMaxBuffer q) (m_nSize q)) (m_nHeadPos q)"

definition GetIdleSize :: "uqueue \<Rightarrow> nat" where
  "GetIdleSize q = sub32 (m_nMaxBuffer q) (m_nSize q)"

definition SetEndian :: "uqueue \<Rightarrow> bool \<Rightarrow> uqueue" where
  "SetEndian q bigEndian = q\<lparr>m_bSameEndian := (bigEndian = IsBigEndian)\<rparr>"

definition GetEndian :: "uqueue \<Rightarrow> bool" where
  "GetEndian q = (m_bSameEndian q \<noteq> IsBigEndian)"

definition Empty :: "uqueue \<Rightarrow> uqueue" where
  "Empty q = (if m_pBuffer q \<noteq> []
     then q\<lparr>m_pBuffer := [], m_nMaxBuffer := 0, m_nSize := 0, m_nHeadPos := 0\<rparr> else q)"

definition SetBlockSize :: "uqueue \<Rightarrow> nat \<Rightarrow> uqueue" where
  "SetBlockSize q blockSize =
     q\<lparr>m_nBlockSize := (if blockSize = 0 then DEFAULT_MEMORY_BUFFER_BLOCK_SIZE else blockSize)\<rparr>"

definition Swap :: "uqueue \<Rightarrow> uqueue \<Rightarrow> uqueue \<times> uqueue" where
  "Swap q r =
     (q\<lparr>m_bSameEndian := m_bSameEndian r, m_nBlockSize := m_nBlockSize r, m_nHeadPos := m_nHeadPos r,
        m_nMaxBuffer := m_nMaxBuffer r, m_nSize := m_nSize r, m_os := m_os r,
        m_pBuffer := m_pBuffer r, m_8ToW := m_8ToW r, m_ToUtf8 := m_ToUtf8 r\<rparr>,
      r\<lparr>m_bSameEndian := m_bSameEndian q, m_nBlockSize := m_nBlockSize q, m_nHeadPos := m_nHeadPos q,
        m_nMaxBuffer := m_nMaxBuffer q, m_nSize := m_nSize q, m_os := m_os q,
        m_pBuffer := m_pBuffer q, m_8ToW := m_8ToW q, m_ToUtf8 := m_ToUtf8 q\<rparr>)"

text \<open>The move constructor: the new object, and what is left of the source.\<close>

definition CUQueue_move :: "uqueue \<Rightarrow> uqueue \<times> uqueue" where
  "CUQueue_move q =
     (q, \<lparr>m_nMaxBuffer = 0, m_nSize = 0, m_nHeadPos = 0, m_os = GetOS, m_bSameEndian = True,
          m_nBlockSize = DEFAULT_MEMORY_BUFFER_BLOCK_SIZE, m_pBuffer = [],
          m_8ToW = False, m_ToUtf8 = False\<rparr>)"

text \<open>\<^verbatim>\<open>SetHeadPosition()\<close>: move the content to the start of the block.\<close>

definition SetHeadPosition0 :: "uqueue \<Rightarrow> fault + uqueue" where
  "SetHeadPosition0 q =
     (if m_nHeadPos q \<noteq> 0
      then bindr (if m_nSize q \<noteq> 0 then mem_move (m_pBuffer q) 0 (m_nHeadPos q) (m_nSize q)
                  else Inr (m_pBuffer q))
             (\<lambda>p. Inr (q\<lparr>m_pBuffer := p, m_nHeadPos := 0\<rparr>))
      else Inr q)"

definition SetHeadPosition :: "uqueue \<Rightarrow> nat \<Rightarrow> fault + uqueue" where
  "SetHeadPosition q headPos =
     bindr (require (headPos \<le> m_nHeadPos q)) (\<lambda>_.
     if headPos \<ge> m_nHeadPos q then Inr q
     else Inr (q\<lparr>m_nSize := add32 (m_nSize q) (sub32 (m_nHeadPos q) headPos), m_nHeadPos := headPos\<rparr>))"

definition SetSize :: "uqueue \<Rightarrow> nat \<Rightarrow> bool \<Rightarrow> fault + uqueue" where
  "SetSize q newSize adjustHeadPos =
     bindr (require (m_nMaxBuffer q \<ge> add32 newSize (m_nHeadPos q))) (\<lambda>_.
     if adjustHeadPos \<and> m_nHeadPos q \<noteq> 0
     then bindr (if newSize \<noteq> 0 then mem_move (m_pBuffer q) 0 (m_nHeadPos q) newSize else Inr (m_pBuffer q))
            (\<lambda>p. Inr (q\<lparr>m_nSize := newSize, m_pBuffer := p, m_nHeadPos := 0\<rparr>))
     else Inr (q\<lparr>m_nSize := newSize, m_nHeadPos := (if newSize = 0 then 0 else m_nHeadPos q)\<rparr>))"

definition CleanTrack :: "uqueue \<Rightarrow> fault + uqueue" where
  "CleanTrack q =
     bindr (require (m_nMaxBuffer q \<ge> add32 (m_nHeadPos q) (m_nSize q))) (\<lambda>_.
     if m_pBuffer q \<noteq> [] \<and> m_nMaxBuffer q > 0
     then bindr (if m_nHeadPos q > 0
                 then mem_write (m_pBuffer q) 0 (replicate (m_nHeadPos q) (Some 0))
                 else Inr (m_pBuffer q)) (\<lambda>p.
          let position = add32 (m_nHeadPos q) (m_nSize q); ulLen = sub32 (m_nMaxBuffer q) position in
          bindr (if ulLen > 0 then mem_write p position (replicate ulLen (Some 0)) else Inr p)
            (\<lambda>p. Inr (q\<lparr>m_pBuffer := p\<rparr>)))
     else Inr q)"

definition ReallocBuffer :: "uqueue \<Rightarrow> nat \<Rightarrow> fault + uqueue" where
  "ReallocBuffer q newSize =
     (let newMax = (if newSize = 0 then m_nBlockSize q else newSize);
          sz = (if m_nSize q > newMax then newMax else m_nSize q);
          pBuffer = mem_alloc newMax in
      bindr (if sz \<noteq> 0
             then bindr (mem_read (m_pBuffer q) (m_nHeadPos q) sz) (mem_write pBuffer 0)
             else Inr pBuffer)
        (\<lambda>p. Inr (q\<lparr>m_nSize := sz, m_nMaxBuffer := newMax, m_pBuffer := p, m_nHeadPos := 0\<rparr>)))"

text \<open>The new capacity that \<^verbatim>\<open>Insert\<close> computes when the block is too small.\<close>

definition grown_max :: "uqueue \<Rightarrow> nat \<Rightarrow> nat" where
  "grown_max q len =
     (if len + m_nSize q \<ge> 0xf0000000 then UQUEUE_END_POSTION
      else add32 (m_nMaxBuffer q)
             (mul32 (m_nBlockSize q) (add32 1 (add32 len (m_nSize q) div m_nBlockSize q))))"

text \<open>The last part of \<^verbatim>\<open>Insert\<close>: move everything into a bigger block.\<close>

definition Insert_grow :: "uqueue \<Rightarrow> byte mem \<Rightarrow> nat \<Rightarrow> fault + uqueue" where
  "Insert_grow q buf position =
     (let len = length buf; newMax = grown_max q len; temp = mem_alloc newMax in
      bindr (if position \<noteq> 0
             then bindr (mem_read (m_pBuffer q) 0 position) (mem_write temp 0) else Inr temp) (\<lambda>temp.
      bindr (mem_write temp position buf) (\<lambda>temp.
      bindr (if m_nSize q > position
             then bindr (mem_read (m_pBuffer q) position (m_nSize q - position))
                    (mem_write temp (position + len))
             else bindr (require (m_nSize q = position)) (\<lambda>_. Inr temp)) (\<lambda>temp.
      Inr (q\<lparr>m_nMaxBuffer := newMax, m_pBuffer := temp, m_nSize := add32 (m_nSize q) len\<rparr>)))))"

text \<open>
  \<^verbatim>\<open>Insert(buffer, len, position)\<close>: \<open>buffer\<close> is \<open>None\<close> for \<^verbatim>\<open>nullptr\<close>, otherwise the
  \<open>len\<close> cells the pointer refers to.
\<close>

definition Insert :: "uqueue \<Rightarrow> byte mem option \<Rightarrow> nat \<Rightarrow> fault + uqueue" where
  "Insert q buffer position =
     (case buffer of None \<Rightarrow> Inr q
      | Some buf \<Rightarrow>
        let len = length buf in
        if len = 0 then Inr q
        else if \<not> position > m_nSize q \<and> position = 0 \<and> m_nHeadPos q \<ge> len
        then bindr (mem_write (m_pBuffer q) (sub32 (m_nHeadPos q) len) buf) (\<lambda>p.
               Inr (q\<lparr>m_nHeadPos := sub32 (m_nHeadPos q) len, m_pBuffer := p,
                      m_nSize := add32 (m_nSize q) len\<rparr>))
        else let position = (if position > m_nSize q then m_nSize q else position) in
        if sub32 (sub32 (m_nMaxBuffer q) (m_nHeadPos q)) (m_nSize q) \<ge> len \<and> position = m_nSize q
        then bindr (mem_write (m_pBuffer q) (m_nHeadPos q + m_nSize q) buf) (\<lambda>p.
               Inr (q\<lparr>m_pBuffer := p, m_nSize := add32 (m_nSize q) len\<rparr>))
        else bindr (SetHeadPosition0 q) (\<lambda>q.
        if sub32 (m_nMaxBuffer q) (m_nSize q) \<ge> len
        then bindr (mem_move (m_pBuffer q) (position + len) position (m_nSize q - position)) (\<lambda>p.
             bindr (mem_write p position buf) (\<lambda>p.
               Inr (q\<lparr>m_pBuffer := p, m_nSize := add32 (m_nSize q) len\<rparr>)))
        else Insert_grow q buf position))"

definition Push :: "uqueue \<Rightarrow> byte mem option \<Rightarrow> fault + uqueue" where
  "Push q buffer = Insert q buffer UQUEUE_END_POSTION"

text \<open>\<^verbatim>\<open>Pop(len, position)\<close>: discard; the number of bytes discarded and the new state.\<close>

definition Pop_discard :: "uqueue \<Rightarrow> nat \<Rightarrow> nat \<Rightarrow> fault + (nat \<times> uqueue)" where
  "Pop_discard q len position =
     (if len = 0 then Inr (0, q)
      else if m_nSize q \<le> position then Inr (0, q)
      else let len = (if len > sub32 (m_nSize q) position then sub32 (m_nSize q) position else len);
               sz = sub32 (m_nSize q) len in
        if sz \<noteq> 0
        then if position = 0 then Inr (len, q\<lparr>m_nSize := sz, m_nHeadPos := add32 (m_nHeadPos q) len\<rparr>)
             else bindr (mem_move (m_pBuffer q) (position + m_nHeadPos q) (len + position + m_nHeadPos q)
                          (sub32 sz position)) (\<lambda>p.
                    Inr (len, q\<lparr>m_nSize := sz, m_pBuffer := p\<rparr>))
        else Inr (len, q\<lparr>m_nSize := sz, m_nHeadPos := 0\<rparr>))"

text \<open>\<^verbatim>\<open>Pop(buffer, len, position)\<close>: the cells copied into the caller's buffer.\<close>

definition Pop_read :: "uqueue \<Rightarrow> nat \<Rightarrow> nat \<Rightarrow> fault + (byte mem \<times> uqueue)" where
  "Pop_read q len position =
     (if m_nSize q < add32 len position then Inl MB_BAD_DESERIALIZATION
      else let src = position + m_nHeadPos q; sz = sub32 (m_nSize q) len in
        bindr (mem_read (m_pBuffer q) src len) (\<lambda>out.
        if sz \<noteq> 0
        then if position \<noteq> 0
             then bindr (mem_move (m_pBuffer q) src (src + len) (sub32 sz position)) (\<lambda>p.
                    Inr (out, q\<lparr>m_nSize := sz, m_pBuffer := p\<rparr>))
             else Inr (out, q\<lparr>m_nSize := sz, m_nHeadPos := add32 (m_nHeadPos q) len\<rparr>)
        else Inr (out, q\<lparr>m_nSize := sz, m_nHeadPos := 0\<rparr>)))"

definition Replace :: "uqueue \<Rightarrow> nat \<Rightarrow> nat \<Rightarrow> byte mem option \<Rightarrow> fault + uqueue" where
  "Replace q pos len buffer =
     bindr (require (pos \<le> m_nSize q)) (\<lambda>_.
     bindr (require (len \<le> m_nSize q)) (\<lambda>_.
     bindr (require (add32 pos len \<le> m_nSize q)) (\<lambda>_.
     let p = GetBuffer q pos; buf = (case buffer of None \<Rightarrow> [] | Some b \<Rightarrow> b); n = length buf in
     if len > n
     then bindr (mem_write (m_pBuffer q) p buf) (\<lambda>m.
          bindr (Pop_discard (q\<lparr>m_pBuffer := m\<rparr>) (sub32 len n) (add32 pos n)) (\<lambda>(_, q). Inr q))
     else if len = n
     then bindr (mem_write (m_pBuffer q) p buf) (\<lambda>m. Inr (q\<lparr>m_pBuffer := m\<rparr>))
     else bindr (mem_write (m_pBuffer q) p (take len buf)) (\<lambda>m.
          Insert (q\<lparr>m_pBuffer := m\<rparr>) (Some (drop len buf)) (add32 pos len)))))"

definition SetNull :: "uqueue \<Rightarrow> fault + uqueue" where
  "SetNull q =
     (let pos = add32 (m_nHeadPos q) (m_nSize q) in
      if m_nMaxBuffer q \<ge> pos + sizeof_wchar_t
      then bindr (mem_write (m_pBuffer q) pos (replicate sizeof_wchar_t (Some 0)))
             (\<lambda>p. Inr (q\<lparr>m_pBuffer := p\<rparr>))
      else bindr (Push q (Some (replicate sizeof_wchar_t (Some 0))))
             (\<lambda>q. Inr (q\<lparr>m_nSize := sub32 (m_nSize q) sizeof_wchar_t\<rparr>)))"

section \<open>Invariant and abstract value\<close>

definition content :: "uqueue \<Rightarrow> byte list" where
  "content q = map the (take (m_nSize q) (drop (m_nHeadPos q) (m_pBuffer q)))"

definition uq_inv :: "uqueue \<Rightarrow> bool" where
  "uq_inv q \<longleftrightarrow>
     length (m_pBuffer q) = m_nMaxBuffer q \<and> m_nHeadPos q + m_nSize q \<le> m_nMaxBuffer q \<and>
     m_nMaxBuffer q \<le> max32 \<and> 0 < m_nBlockSize q \<and> m_nBlockSize q \<le> max32 \<and>
     (m_nSize q = 0 \<longrightarrow> m_nHeadPos q = 0) \<and>
     None \<notin> set (take (m_nHeadPos q + m_nSize q) (m_pBuffer q))"

text \<open>
  The same with the bytes named: \<open>pre\<close> are the bytes before the head, \<open>xs\<close> the content.
  The operations are verified on this form.
\<close>

definition uq_rep :: "uqueue \<Rightarrow> byte list \<Rightarrow> byte list \<Rightarrow> bool" where
  "uq_rep q pre xs \<longleftrightarrow>
     length (m_pBuffer q) = m_nMaxBuffer q \<and> holds (m_pBuffer q) 0 (pre @ xs) \<and>
     length pre = m_nHeadPos q \<and> length xs = m_nSize q \<and>
     m_nMaxBuffer q \<le> max32 \<and> 0 < m_nBlockSize q \<and> m_nBlockSize q \<le> max32 \<and>
     (m_nSize q = 0 \<longrightarrow> m_nHeadPos q = 0)"

lemma uq_repD:
  assumes "uq_rep q pre xs"
  shows "length pre = m_nHeadPos q" "length xs = m_nSize q"
    "length (m_pBuffer q) = m_nMaxBuffer q" "m_nMaxBuffer q \<le> max32"
    "m_nHeadPos q + m_nSize q \<le> m_nMaxBuffer q" "0 < m_nBlockSize q" "m_nBlockSize q \<le> max32"
    "m_nSize q = 0 \<Longrightarrow> m_nHeadPos q = 0"
    "holds (m_pBuffer q) 0 pre" "holds (m_pBuffer q) (m_nHeadPos q) xs"
  using assms by (auto simp: uq_rep_def holds_append dest: holds_length)

lemma uq_rep_content: "uq_rep q pre xs \<Longrightarrow> content q = xs"
  using holds_cells [of "m_pBuffer q" "m_nHeadPos q" xs]
  by (simp add: content_def uq_repD)

lemma uq_rep_inv: "uq_rep q pre xs \<Longrightarrow> uq_inv q"
proof -
  assume r: "uq_rep q pre xs"
  then have "take (m_nHeadPos q + m_nSize q) (m_pBuffer q) = map Some (pre @ xs)"
    using uq_repD [OF r] by (auto simp: uq_rep_def holds_def)
  then show ?thesis
    using uq_repD [OF r] by (auto simp: uq_inv_def)
qed

lemma uq_inv_rep:
  assumes "uq_inv q"
  obtains pre where "uq_rep q pre (content q)"
proof -
  let ?n = "m_nHeadPos q" and ?m = "m_pBuffer q"
  let ?pre = "map the (take ?n ?m)"
  have live: "take (?n + m_nSize q) ?m = map Some (map the (take (?n + m_nSize q) ?m))"
    using assms by (simp add: uq_inv_def map_Some_the del: map_map)
  have "?pre @ content q = map the (take (?n + m_nSize q) ?m)"
    by (simp add: content_def take_add)
  with live have "holds ?m 0 (?pre @ content q)"
    using assms by (auto simp: holds_def uq_inv_def)
  then have "uq_rep q ?pre (content q)"
    using assms by (auto simp: uq_rep_def uq_inv_def content_def)
  then show thesis by (rule that)
qed

lemma uq_invD:
  assumes "uq_inv q"
  shows "length (content q) = m_nSize q" "m_nSize q + m_nHeadPos q \<le> m_nMaxBuffer q"
    "m_nMaxBuffer q \<le> max32" "length (m_pBuffer q) = m_nMaxBuffer q"
    "0 < m_nBlockSize q" "m_nBlockSize q \<le> max32" "m_nSize q = 0 \<Longrightarrow> m_nHeadPos q = 0"
    "holds (m_pBuffer q) (m_nHeadPos q) (content q)"
proof -
  obtain pre where r: "uq_rep q pre (content q)" using assms by (rule uq_inv_rep)
  show "length (content q) = m_nSize q" "m_nSize q + m_nHeadPos q \<le> m_nMaxBuffer q"
    "m_nMaxBuffer q \<le> max32" "length (m_pBuffer q) = m_nMaxBuffer q"
    "0 < m_nBlockSize q" "m_nBlockSize q \<le> max32" "m_nSize q = 0 \<Longrightarrow> m_nHeadPos q = 0"
    "holds (m_pBuffer q) (m_nHeadPos q) (content q)"
    using uq_repD [OF r] by auto
qed

text \<open>The fields that hold settings, which the operations on bytes never change.\<close>

definition same_settings :: "uqueue \<Rightarrow> uqueue \<Rightarrow> bool" where
  "same_settings q r \<longleftrightarrow> m_os q = m_os r \<and> m_bSameEndian q = m_bSameEndian r \<and>
     m_nBlockSize q = m_nBlockSize r \<and> m_8ToW q = m_8ToW r \<and> m_ToUtf8 q = m_ToUtf8 r"

lemma same_settings_refl [simp]: "same_settings q q"
  by (simp add: same_settings_def)

lemma same_settings_buffer [simp]: "same_settings (q\<lparr>m_pBuffer := m\<rparr>) r = same_settings q r"
  by (simp add: same_settings_def)

lemma same_settings_trans [trans]: "same_settings p q \<Longrightarrow> same_settings q r \<Longrightarrow> same_settings p r"
  by (simp add: same_settings_def)

text \<open>
  The sizes for which \<^verbatim>\<open>Insert\<close> computes a new capacity without wrapping around:
  contents up to about 2 GB. It depends on the content and the block size only.
\<close>

definition room :: "uqueue \<Rightarrow> nat \<Rightarrow> bool" where
  "room q n \<longleftrightarrow> 2 * (m_nSize q + n) + m_nBlockSize q \<le> max32"

section \<open>The operations keep the invariant and do what they mean to do\<close>

lemma default_block [simp]:
  "0 < DEFAULT_MEMORY_BUFFER_BLOCK_SIZE" "DEFAULT_MEMORY_BUFFER_BLOCK_SIZE \<le> max32"
  by (simp_all add: DEFAULT_MEMORY_BUFFER_BLOCK_SIZE_def max32_def)

lemma CUQueue_new_ok:
  assumes "maxLen \<le> max32" and "blockSize \<le> max32"
  shows "uq_inv (CUQueue_new maxLen blockSize os be)"
    and "content (CUQueue_new maxLen blockSize os be) = []"
proof -
  show "content (CUQueue_new maxLen blockSize os be) = []"
    by (simp add: content_def CUQueue_new_def)
  show "uq_inv (CUQueue_new maxLen blockSize os be)"
    using assms by (auto simp add: uq_inv_def CUQueue_new_def)
qed

lemma SetHeadPosition0_rep:
  assumes "uq_rep q pre xs"
  shows "\<exists>q'. SetHeadPosition0 q = Inr q' \<and> uq_rep q' [] xs \<and> same_settings q q' \<and>
    m_nMaxBuffer q' = m_nMaxBuffer q"
proof (cases "m_nHeadPos q = 0")
  case True
  with assms show ?thesis by (auto simp: SetHeadPosition0_def uq_rep_def)
next
  case False
  note d = uq_repD [OF assms]
  let ?p = "mem_put (m_pBuffer q) 0 (map Some xs)"
  have mv: "mem_move (m_pBuffer q) 0 (m_nHeadPos q) (m_nSize q) = Inr ?p"
    using d by (intro mem_move_holds) auto
  have "uq_rep (q\<lparr>m_pBuffer := ?p, m_nHeadPos := 0\<rparr>) [] xs"
    using d by (simp add: uq_rep_def mem_simps)
  with mv False d(8) show ?thesis
    by (auto simp: SetHeadPosition0_def same_settings_def)
qed

text \<open>The three ways in which \<^verbatim>\<open>Insert\<close> stores bytes.\<close>

lemma mem_put_split:
  assumes "holds m 0 (as @ bs)" and "length as + length ys + length bs \<le> length m"
  shows "holds (mem_put (mem_put m (length as + length ys) (map Some bs)) (length as) (map Some ys))
           0 (as @ ys @ bs)"
  using assms by (simp add: holds_append mem_simps)

lemma Insert_shift_rep:
  assumes r: "uq_rep q [] xs" and p: "p \<le> m_nSize q" and l: "length ys \<le> m_nMaxBuffer q - m_nSize q"
  shows "\<exists>m. bindr (mem_move (m_pBuffer q) (p + length ys) p (m_nSize q - p)) (\<lambda>m.
           mem_write m p (map Some ys)) = Inr m \<and>
           uq_rep (q\<lparr>m_pBuffer := m, m_nSize := m_nSize q + length ys\<rparr>) [] (take p xs @ ys @ drop p xs)"
proof -
  note d = uq_repD [OF r]
  let ?m = "mem_put (m_pBuffer q) (p + length ys) (map Some (drop p xs))"
  have h: "holds (m_pBuffer q) 0 (take p xs @ drop p xs)"
    using d by simp
  have lp: "length (take p xs) = p" using d p by simp
  have "holds (m_pBuffer q) p (drop p xs)"
    using h lp unfolding holds_append by simp
  then have mv: "mem_move (m_pBuffer q) (p + length ys) p (m_nSize q - p) = Inr ?m"
    using d p l by (intro mem_move_holds) auto
  have "mem_write ?m p (map Some ys) = Inr (mem_put ?m p (map Some ys))"
    using d p l by (intro mem_write_ok) simp
  moreover have "holds (mem_put ?m p (map Some ys)) 0 (take p xs @ ys @ drop p xs)"
    using mem_put_split [OF h, of ys] d p l lp by simp
  ultimately show ?thesis
    using mv d p l by (simp add: uq_rep_def)
qed

lemma grown_max_ok:
  assumes "uq_inv q" and "room q len" and "m_nMaxBuffer q - m_nSize q < len" and "m_nHeadPos q = 0"
  shows "m_nSize q + len \<le> grown_max q len" and "grown_max q len \<le> max32"
proof -
  let ?b = "m_nBlockSize q" and ?n = "m_nSize q"
  note d = uq_invD [OF assms(1)]
  show "grown_max q len \<le> max32"
    by (simp add: grown_max_def UQUEUE_END_POSTION_def)
  show "?n + len \<le> grown_max q len"
  proof (cases "len + ?n \<ge> 0xf0000000")
    case True
    with assms(2) show ?thesis by (simp add: grown_max_def UQUEUE_END_POSTION_def room_def)
  next
    case False
    define k where "k = (len + ?n) div ?b"
    define g where "g = ?b * (1 + k)"
    have "?b * k \<le> len + ?n" and kl: "k \<le> len + ?n"
      by (simp_all add: k_def)
    then have up: "g \<le> ?b + (len + ?n)"
      by (simp add: g_def)
    have lo: "len + ?n < g"
      using d(5) unfolding g_def k_def
      by (metis dividend_less_times_div plus_1_eq_Suc mult.commute mult_Suc_right)
    have mx: "m_nMaxBuffer q < len + ?n"
      using assms(3) d(2) by simp
    have r: "2 * (?n + len) + ?b \<le> max32"
      using assms(2) by (simp add: room_def)
    have "mul32 ?b (1 + k) = g"
      using r up unfolding g_def by (intro mul32_exact) simp
    moreover have "add32 len ?n = len + ?n" "add32 1 k = 1 + k"
      "add32 (m_nMaxBuffer q) g = m_nMaxBuffer q + g"
      using r up mx kl d(5) by (simp_all add: add32_exact)
    ultimately show ?thesis using False lo by (simp add: grown_max_def flip: k_def)
  qed
qed

lemma Insert_grow_rep:
  assumes r: "uq_rep q [] xs" and p: "p \<le> m_nSize q" and rm: "room q (length ys)"
    and big: "m_nMaxBuffer q - m_nSize q < length ys"
  shows "\<exists>q'. Insert_grow q (map Some ys) p = Inr q' \<and> uq_rep q' [] (take p xs @ ys @ drop p xs) \<and>
    same_settings q q'"
proof -
  note d = uq_repD [OF r]
  define M where "M = grown_max q (length ys)"
  have M: "m_nSize q + length ys \<le> M" "M \<le> max32"
    using grown_max_ok [OF uq_rep_inv [OF r] rm big] d unfolding M_def by auto
  let ?t0 = "mem_put (mem_alloc M) 0 (map Some (take p xs))"
  let ?t1 = "mem_put ?t0 p (map Some ys)"
  let ?t2 = "mem_put ?t1 (p + length ys) (map Some (drop p xs))"
  have lp: "length (take p xs) = p" using d p by simp
  have h: "holds (m_pBuffer q) 0 (take p xs @ drop p xs)"
    using d by simp
  then have h1: "holds (m_pBuffer q) 0 (take p xs)" and h2: "holds (m_pBuffer q) p (drop p xs)"
    unfolding holds_append using lp by simp_all
  have r1: "mem_read (m_pBuffer q) 0 p = Inr (map Some (take p xs))"
    using h1 lp by (intro holds_read) auto
  have r2: "mem_read (m_pBuffer q) p (m_nSize q - p) = Inr (map Some (drop p xs))"
    using h2 d by (intro holds_read) auto
  have l0: "length ?t0 = M" "length ?t1 = M" "length ?t2 = M"
    using M p d lp by simp_all
  have w0: "mem_write (mem_alloc M) 0 (map Some (take p xs)) = Inr ?t0"
    using M p lp by (intro mem_write_ok) simp
  have w1: "mem_write ?t0 p (map Some ys) = Inr ?t1"
    using M p l0 by (intro mem_write_ok) simp
  have w2: "mem_write ?t1 (p + length ys) (map Some (drop p xs)) = Inr ?t2"
    using M p d l0 by (intro mem_write_ok) simp
  have z0: "p = 0 \<Longrightarrow> ?t0 = mem_alloc M" and z2: "p = m_nSize q \<Longrightarrow> ?t2 = ?t1"
    using d by simp_all
  have "holds ?t0 0 (take p xs)"
    using M p lp holds_mem_put_same [of 0 "take p xs" "mem_alloc M"] by simp
  then have "holds ?t1 0 (take p xs)" and "holds ?t1 p ys"
    using M p lp l0 by (auto intro!: mem_simps)
  then have hs: "holds ?t2 0 (take p xs @ ys @ drop p xs)"
    using M p d lp l0 by (auto simp: holds_append intro!: mem_simps)
  have len: "add32 (m_nSize q) (length ys) = m_nSize q + length ys"
    using M by (intro arith32) simp
  have "Insert_grow q (map Some ys) p =
    Inr (q\<lparr>m_nMaxBuffer := M, m_pBuffer := ?t2, m_nSize := m_nSize q + length ys\<rparr>)"
    using p r1 r2 w0 w1 w2 z0 z2 by (auto simp: Insert_grow_def Let_def len M_def [symmetric])
  moreover have "uq_rep (q\<lparr>m_nMaxBuffer := M, m_pBuffer := ?t2, m_nSize := m_nSize q + length ys\<rparr>) []
      (take p xs @ ys @ drop p xs)"
    using hs M p d l0 by (simp add: uq_rep_def)
  ultimately show ?thesis by (simp add: same_settings_def)
qed

lemma Insert_rep:
  assumes r: "uq_rep q pre xs" and rm: "room q (length ys)"
  shows "\<exists>q' pre'. Insert q (Some (map Some ys)) pos = Inr q' \<and>
    uq_rep q' pre' (take pos xs @ ys @ drop pos xs) \<and> same_settings q q' \<and>
    (m_nSize q = 0 \<longrightarrow> pre' = [])"
proof (cases "length ys = 0")
  case True
  have "m_nSize q = 0 \<longrightarrow> pre = []" using uq_repD(1,8) [OF r] by auto
  with True r show ?thesis by (auto simp: Insert_def)
next
  case ne: False
  note d = uq_repD [OF r]
  let ?len = "length ys" and ?p = "if pos > m_nSize q then m_nSize q else pos"
  have tp: "take ?p xs = take pos xs" "drop ?p xs = drop pos xs" and pn: "?p \<le> m_nSize q"
    using d by auto
  have n32: "add32 (m_nSize q) ?len = m_nSize q + ?len"
    using rm by (intro add32_exact) (simp add: room_def)
  show ?thesis
  proof (cases "\<not> pos > m_nSize q \<and> pos = 0 \<and> m_nHeadPos q \<ge> ?len")
    case True
    let ?h = "m_nHeadPos q - ?len"
    let ?m = "mem_put (m_pBuffer q) ?h (map Some ys)"
    have h32: "sub32 (m_nHeadPos q) ?len = ?h"
      using True d by (intro sub32_exact) auto
    have w: "mem_write (m_pBuffer q) ?h (map Some ys) = Inr ?m"
      using True d by (intro mem_write_ok) simp
    have "holds (m_pBuffer q) 0 (take ?h pre)"
      using d(9) holds_append [of "m_pBuffer q" 0 "take ?h pre" "drop ?h pre"] by simp
    then have "holds ?m 0 (take ?h pre @ ys @ xs)"
      using True d by (auto simp: holds_append intro!: mem_simps)
    then have "uq_rep (q\<lparr>m_nHeadPos := ?h, m_pBuffer := ?m, m_nSize := m_nSize q + ?len\<rparr>)
        (take ?h pre) (ys @ xs)"
      using True d ne by (auto simp: uq_rep_def)
    moreover have "Insert q (Some (map Some ys)) pos =
        Inr (q\<lparr>m_nHeadPos := ?h, m_pBuffer := ?m, m_nSize := m_nSize q + ?len\<rparr>)"
      using True ne w by (simp add: Insert_def h32 n32 Let_def)
    moreover have "m_nSize q \<noteq> 0"
      using True ne d(8) by (cases "m_nSize q = 0") auto
    ultimately show ?thesis using True by (auto simp: same_settings_def)
  next
    case nf: False
    show ?thesis
    proof (cases "sub32 (sub32 (m_nMaxBuffer q) (m_nHeadPos q)) (m_nSize q) \<ge> ?len \<and> ?p = m_nSize q")
      case True
      let ?m = "mem_put (m_pBuffer q) (m_nHeadPos q + m_nSize q) (map Some ys)"
      have "sub32 (sub32 (m_nMaxBuffer q) (m_nHeadPos q)) (m_nSize q) = m_nMaxBuffer q - m_nHeadPos q - m_nSize q"
        using d by (simp add: sub32_exact)
      then have fit: "m_nHeadPos q + m_nSize q + ?len \<le> m_nMaxBuffer q"
        using True d(5) by linarith
      then have "mem_write (m_pBuffer q) (m_nHeadPos q + m_nSize q) (map Some ys) = Inr ?m"
        using d by (intro mem_write_ok) simp
      with True ne nf have "Insert q (Some (map Some ys)) pos =
          Inr (q\<lparr>m_pBuffer := ?m, m_nSize := m_nSize q + ?len\<rparr>)"
        by (auto simp: Insert_def n32 Let_def)
      moreover have "uq_rep (q\<lparr>m_pBuffer := ?m, m_nSize := m_nSize q + ?len\<rparr>) pre (xs @ ys)"
        using d fit ne by (auto simp: uq_rep_def holds_append intro!: mem_simps)
      moreover have "take pos xs @ ys @ drop pos xs = xs @ ys"
        using True d by (simp split: if_splits)
      moreover have "m_nSize q = 0 \<longrightarrow> pre = []"
        using d(1,8) by auto
      ultimately show ?thesis by (auto simp: same_settings_def)
    next
      case nt: False
      obtain q1 where q1: "SetHeadPosition0 q = Inr q1" "uq_rep q1 [] xs" "same_settings q q1"
        "m_nMaxBuffer q1 = m_nMaxBuffer q"
        using SetHeadPosition0_rep [OF r] by auto
      have sz: "m_nSize q1 = m_nSize q"
        using uq_repD(2) [OF q1(2)] d by simp
      have blk: "m_nBlockSize q1 = m_nBlockSize q"
        using q1(3) by (simp add: same_settings_def)
      have fit: "sub32 (m_nMaxBuffer q1) (m_nSize q) = m_nMaxBuffer q - m_nSize q"
        using d q1(4) by (simp add: sub32_exact)
      have step: "Insert q (Some (map Some ys)) pos =
          (if ?len \<le> m_nMaxBuffer q - m_nSize q
           then bindr (mem_move (m_pBuffer q1) (?p + ?len) ?p (m_nSize q1 - ?p)) (\<lambda>p.
                bindr (mem_write p ?p (map Some ys)) (\<lambda>p.
                Inr (q1\<lparr>m_pBuffer := p, m_nSize := m_nSize q + ?len\<rparr>)))
           else Insert_grow q1 (map Some ys) ?p)"
        unfolding Insert_def option.case Let_def length_map if_not_P [OF ne] if_not_P [OF nf]
          if_not_P [OF nt] q1(1) bindr_simps n32 sz fit ..
      show ?thesis
      proof (cases "?len \<le> m_nMaxBuffer q - m_nSize q")
        case True
        then show ?thesis
          using Insert_shift_rep [OF q1(2), of ?p ys] pn sz q1(3,4) tp step
          by (fastforce simp: bindr_Inr_iff same_settings_def)
      next
        case False
        then show ?thesis
          using Insert_grow_rep [OF q1(2), of ?p ys] pn sz blk q1(3,4) tp step rm
          by (auto simp: room_def intro!: exI [of _ "[]"] intro: same_settings_trans)
      qed
    qed
  qed
qed

lemma Insert_ok:
  assumes "uq_inv q" and "room q (length ys)"
  shows "\<exists>q'. Insert q (Some (map Some ys)) pos = Inr q' \<and> uq_inv q' \<and> same_settings q q' \<and>
    content q' = take pos (content q) @ ys @ drop pos (content q)"
proof -
  obtain pre where "uq_rep q pre (content q)" using assms(1) by (rule uq_inv_rep)
  from Insert_rep [OF this assms(2), of pos] show ?thesis
    by (auto dest: uq_rep_content uq_rep_inv)
qed

lemma Push_ok:
  assumes "uq_inv q" and "room q (length ys)"
  shows "\<exists>q'. Push q (Some (map Some ys)) = Inr q' \<and> uq_inv q' \<and> same_settings q q' \<and>
    content q' = content q @ ys"
proof -
  have "length (content q) \<le> UQUEUE_END_POSTION"
    using uq_invD [OF assms(1)] by (simp add: UQUEUE_END_POSTION_def)
  then show ?thesis
    using Insert_ok [OF assms, of UQUEUE_END_POSTION] by (simp add: Push_def)
qed

text \<open>Removing \<open>n\<close> bytes at \<open>p\<close>, shared by the two \<^verbatim>\<open>Pop\<close> overloads.\<close>

lemma remove_front_rep:
  assumes r: "uq_rep q pre xs" and n: "n < m_nSize q"
  shows "uq_rep (q\<lparr>m_nSize := m_nSize q - n, m_nHeadPos := m_nHeadPos q + n\<rparr>)
    (pre @ take n xs) (drop n xs)"
  using uq_repD [OF r] r n by (auto simp: uq_rep_def)

lemma remove_all_rep:
  assumes "uq_rep q pre xs"
  shows "uq_rep (q\<lparr>m_nSize := 0, m_nHeadPos := 0\<rparr>) [] []"
  using uq_repD [OF assms] by (simp add: uq_rep_def)

lemma remove_mid_rep:
  assumes r: "uq_rep q pre xs" and pn: "p + n \<le> m_nSize q" and n: "n < m_nSize q"
  shows "\<exists>m. mem_move (m_pBuffer q) (p + m_nHeadPos q) (n + p + m_nHeadPos q) (m_nSize q - n - p) = Inr m \<and>
    uq_rep (q\<lparr>m_nSize := m_nSize q - n, m_pBuffer := m\<rparr>) pre (take p xs @ drop (p + n) xs)"
proof -
  note d = uq_repD [OF r]
  let ?h = "m_nHeadPos q" and ?tl = "drop (p + n) xs"
  let ?m = "mem_put (m_pBuffer q) (p + ?h) (map Some ?tl)"
  have "holds (m_pBuffer q) ?h (take (p + n) xs @ ?tl)"
    using d(10) by simp
  then have tl: "holds (m_pBuffer q) (?h + (p + n)) ?tl"
    unfolding holds_append using d pn by simp
  then have mv: "mem_move (m_pBuffer q) (p + ?h) (n + p + ?h) (m_nSize q - n - p) = Inr ?m"
    using d pn by (intro mem_move_holds) (auto simp: ac_simps)
  have "holds (m_pBuffer q) ?h (take p xs @ drop p xs)"
    using d(10) by simp
  then have "holds (m_pBuffer q) ?h (take p xs)"
    unfolding holds_append by simp
  then have "holds ?m 0 (pre @ take p xs @ ?tl)"
    using d pn by (auto simp: holds_append ac_simps intro!: mem_simps)
  then show ?thesis
    using mv d pn n by (simp add: uq_rep_def)
qed

lemma Pop_discard_ok:
  assumes "uq_inv q"
  shows "\<exists>q'. Pop_discard q len pos =
      Inr (if m_nSize q \<le> pos then 0 else min len (m_nSize q - pos), q') \<and>
    uq_inv q' \<and> same_settings q q' \<and>
    content q' = take pos (content q) @ drop (pos + len) (content q)"
proof -
  obtain pre where r: "uq_rep q pre (content q)" using assms by (rule uq_inv_rep)
  note d = uq_repD [OF r]
  consider (none) "len = 0 \<or> m_nSize q \<le> pos"
    | (some) "len \<noteq> 0" "pos < m_nSize q" by linarith
  then show ?thesis
  proof cases
    case none
    with assms d show ?thesis by (auto simp: Pop_discard_def)
  next
    case some
    define n where "n = min len (m_nSize q - pos)"
    have n: "(if len > sub32 (m_nSize q) pos then sub32 (m_nSize q) pos else len) = n"
      using some d by (simp add: sub32_exact n_def)
    have nn: "0 < n" "pos + n \<le> m_nSize q" "sub32 (m_nSize q) n = m_nSize q - n"
      using some d by (auto simp: n_def intro!: sub32_exact)
    have step: "Pop_discard q len pos =
        (if m_nSize q - n \<noteq> 0
         then if pos = 0
              then Inr (n, q\<lparr>m_nSize := m_nSize q - n, m_nHeadPos := add32 (m_nHeadPos q) n\<rparr>)
              else bindr (mem_move (m_pBuffer q) (pos + m_nHeadPos q) (n + pos + m_nHeadPos q)
                           (sub32 (m_nSize q - n) pos)) (\<lambda>p.
                     Inr (n, q\<lparr>m_nSize := m_nSize q - n, m_pBuffer := p\<rparr>))
         else Inr (n, q\<lparr>m_nSize := m_nSize q - n, m_nHeadPos := 0\<rparr>))"
      using some unfolding Pop_discard_def Let_def n nn(3) by simp
    have dr: "drop (pos + n) (content q) = drop (pos + len) (content q)"
      using d some by (auto simp: n_def min_def)
    show ?thesis
    proof (cases "n = m_nSize q")
      case True
      then have "pos = 0" and "m_nSize q \<le> len" using nn some by (auto simp: n_def min_def split: if_splits)
      with True remove_all_rep [OF r] show ?thesis
        using some d step
        by (auto simp: same_settings_def dest: uq_rep_content uq_rep_inv)
    next
      case False
      then have lt: "n < m_nSize q" and sz: "m_nSize q - n \<noteq> 0"
        using nn by auto
      show ?thesis
      proof (cases "pos = 0")
        case True
        have "add32 (m_nHeadPos q) n = m_nHeadPos q + n"
          using d lt by (intro add32_exact) simp
        then have "Pop_discard q len pos =
            Inr (n, q\<lparr>m_nSize := m_nSize q - n, m_nHeadPos := m_nHeadPos q + n\<rparr>)"
          using True sz step by simp
        moreover have "min len (m_nSize q) = n"
          using True by (simp add: n_def)
        ultimately show ?thesis
          using remove_front_rep [OF r lt] True some dr
          by (auto simp: same_settings_def n_def [symmetric] dest: uq_rep_content uq_rep_inv)
      next
        case False
        obtain m where m: "mem_move (m_pBuffer q) (pos + m_nHeadPos q) (n + pos + m_nHeadPos q)
            (m_nSize q - n - pos) = Inr m"
          and rep: "uq_rep (q\<lparr>m_nSize := m_nSize q - n, m_pBuffer := m\<rparr>) pre
            (take pos (content q) @ drop (pos + n) (content q))"
          using remove_mid_rep [OF r nn(2) lt] by auto
        have "sub32 (m_nSize q - n) pos = m_nSize q - n - pos"
          using nn d by (intro sub32_exact) auto
        then have "Pop_discard q len pos = Inr (n, q\<lparr>m_nSize := m_nSize q - n, m_pBuffer := m\<rparr>)"
          using False sz m step by simp
        with rep some dr show ?thesis
          by (auto simp: same_settings_def n_def [symmetric] dest: uq_rep_content uq_rep_inv)
      qed
    qed
  qed
qed

lemma Pop_read_ok:
  assumes "uq_inv q" and "len + pos \<le> m_nSize q"
  shows "\<exists>q'. Pop_read q len pos = Inr (map Some (take len (drop pos (content q))), q') \<and>
    uq_inv q' \<and> same_settings q q' \<and>
    content q' = take pos (content q) @ drop (pos + len) (content q)"
proof -
  obtain pre where r: "uq_rep q pre (content q)" using assms(1) by (rule uq_inv_rep)
  note d = uq_repD [OF r]
  let ?out = "map Some (take len (drop pos (content q)))" and ?h = "m_nHeadPos q"
  have "holds (m_pBuffer q) ?h (take pos (content q) @ take len (drop pos (content q)) @
      drop len (drop pos (content q)))"
    using d(10) by (simp only: append_take_drop_id)
  then have "holds (m_pBuffer q) (?h + pos) (take len (drop pos (content q)))"
    unfolding holds_append using assms(2) d by simp
  then have rd: "mem_read (m_pBuffer q) (pos + ?h) len = Inr ?out"
    using assms(2) d by (intro holds_read) (auto simp: ac_simps)
  have a: "add32 len pos = len + pos" and sz: "sub32 (m_nSize q) len = m_nSize q - len"
    using assms(2) d by (auto intro!: add32_exact sub32_exact)
  have step: "Pop_read q len pos =
      (if m_nSize q - len \<noteq> 0
       then if pos \<noteq> 0
            then bindr (mem_move (m_pBuffer q) (pos + ?h) (pos + ?h + len) (sub32 (m_nSize q - len) pos))
                   (\<lambda>p. Inr (?out, q\<lparr>m_nSize := m_nSize q - len, m_pBuffer := p\<rparr>))
            else Inr (?out, q\<lparr>m_nSize := m_nSize q - len, m_nHeadPos := add32 ?h len\<rparr>)
       else Inr (?out, q\<lparr>m_nSize := m_nSize q - len, m_nHeadPos := 0\<rparr>))"
    unfolding Pop_read_def Let_def a sz rd bindr_simps using assms(2) by simp
  show ?thesis
  proof (cases "m_nSize q - len = 0")
    case True
    then have "pos = 0" and "len = m_nSize q" using assms(2) by auto
    with remove_all_rep [OF r] step d show ?thesis
      by (auto simp: same_settings_def dest: uq_rep_content uq_rep_inv)
  next
    case nz: False
    then have lt: "len < m_nSize q" by simp
    show ?thesis
    proof (cases "pos = 0")
      case True
      have "add32 ?h len = ?h + len"
        using d lt by (intro add32_exact) simp
      with remove_front_rep [OF r lt] True step nz show ?thesis
        by (auto simp: same_settings_def dest: uq_rep_content uq_rep_inv)
    next
      case False
      have "sub32 (m_nSize q - len) pos = m_nSize q - len - pos"
        using assms(2) d by (intro sub32_exact) auto
      moreover obtain m where "mem_move (m_pBuffer q) (pos + ?h) (len + pos + ?h) (m_nSize q - len - pos) = Inr m"
        and rep: "uq_rep (q\<lparr>m_nSize := m_nSize q - len, m_pBuffer := m\<rparr>) pre
            (take pos (content q) @ drop (pos + len) (content q))"
        using remove_mid_rep [OF r _ lt, of pos] assms(2) by (auto simp: add.commute)
      moreover have "len + pos + ?h = pos + ?h + len"
        by simp
      ultimately have "Pop_read q len pos = Inr (?out, q\<lparr>m_nSize := m_nSize q - len, m_pBuffer := m\<rparr>)"
        using step False nz by (simp del: diff_is_0_eq)
      with uq_rep_inv [OF rep] uq_rep_content [OF rep] show ?thesis
        by (simp add: same_settings_def)
    qed
  qed
qed

lemma SetSize_ok:
  assumes "uq_inv q" and "n \<le> m_nSize q"
  shows "\<exists>q'. SetSize q n adj = Inr q' \<and> uq_inv q' \<and> same_settings q q' \<and>
    content q' = take n (content q) \<and> m_nMaxBuffer q' = m_nMaxBuffer q"
proof -
  obtain pre where r: "uq_rep q pre (content q)" using assms(1) by (rule uq_inv_rep)
  note d = uq_repD [OF r]
  let ?h = "m_nHeadPos q" and ?xs = "take n (content q)"
  have xs: "holds (m_pBuffer q) ?h ?xs" "length ?xs = n"
    using d assms(2) holds_append [of "m_pBuffer q" ?h ?xs "drop n (content q)"] by auto
  have req: "require (m_nMaxBuffer q \<ge> add32 n ?h) = Inr ()"
    using d assms(2) by (simp add: add32_exact)
  show ?thesis
  proof (cases "n = 0")
    case True
    with remove_all_rep [OF r] req show ?thesis
      by (auto simp: SetSize_def same_settings_def dest: uq_rep_content uq_rep_inv)
  next
    case nz: False
    show ?thesis
    proof (cases "adj \<and> ?h \<noteq> 0")
      case True
      let ?m = "mem_put (m_pBuffer q) 0 (map Some ?xs)"
      have mv: "mem_move (m_pBuffer q) 0 ?h n = Inr ?m"
        using xs d assms(2) by (intro mem_move_holds) auto
      have "uq_rep (q\<lparr>m_nSize := n, m_pBuffer := ?m, m_nHeadPos := 0\<rparr>) [] ?xs"
        using d xs assms(2) by (simp add: uq_rep_def mem_simps)
      with True nz mv req show ?thesis
        by (auto simp: SetSize_def same_settings_def dest: uq_rep_content uq_rep_inv)
    next
      case False
      have "uq_rep (q\<lparr>m_nSize := n\<rparr>) pre ?xs"
        using d xs assms(2) nz by (auto simp: uq_rep_def holds_append)
      moreover have "SetSize q n adj = Inr (q\<lparr>m_nSize := n\<rparr>)"
        using False nz req by (auto simp: SetSize_def)
      ultimately show ?thesis
        by (auto simp: same_settings_def dest: uq_rep_content uq_rep_inv)
    qed
  qed
qed

lemma ReallocBuffer_ok:
  assumes "uq_inv q" and "n \<le> max32"
  shows "\<exists>q'. ReallocBuffer q n = Inr q' \<and> uq_inv q' \<and> same_settings q q' \<and>
    content q' = take (m_nMaxBuffer q') (content q) \<and>
    m_nMaxBuffer q' = (if n = 0 then m_nBlockSize q else n)"
proof -
  obtain pre where r: "uq_rep q pre (content q)" using assms(1) by (rule uq_inv_rep)
  note d = uq_repD [OF r]
  define M where "M = (if n = 0 then m_nBlockSize q else n)"
  define sz where "sz = (if m_nSize q > M then M else m_nSize q)"
  let ?xs = "take sz (content q)" and ?h = "m_nHeadPos q"
  have M: "M \<le> max32" "sz \<le> M" "sz \<le> m_nSize q" using assms(2) d by (auto simp: M_def sz_def)
  have xs: "holds (m_pBuffer q) ?h ?xs" "length ?xs = sz"
    using d M holds_append [of "m_pBuffer q" ?h ?xs "drop sz (content q)"] by auto
  have "mem_read (m_pBuffer q) ?h sz = Inr (map Some ?xs)"
    using xs by (intro holds_read) auto
  moreover have "mem_write (mem_alloc M) 0 (map Some ?xs) = Inr (mem_put (mem_alloc M) 0 (map Some ?xs))"
    using xs M by (intro mem_write_ok) simp
  moreover have "sz = 0 \<Longrightarrow> mem_put (mem_alloc M) 0 (map Some ?xs) = mem_alloc M"
    by simp
  ultimately have "ReallocBuffer q n = Inr (q\<lparr>m_nSize := sz, m_nMaxBuffer := M,
      m_pBuffer := mem_put (mem_alloc M) 0 (map Some ?xs), m_nHeadPos := 0\<rparr>)" (is "_ = Inr ?q'")
    by (auto simp: ReallocBuffer_def Let_def M_def [symmetric] sz_def [symmetric])
  moreover have "uq_rep ?q' [] ?xs"
    using d xs M holds_mem_put_same [of 0 ?xs "mem_alloc M"] by (simp add: uq_rep_def)
  moreover have "?xs = take M (content q)"
    using d by (auto simp: sz_def)
  ultimately show ?thesis
    by (auto simp: same_settings_def M_def [symmetric] dest: uq_rep_content uq_rep_inv)
qed

lemma Pop_read_short:
  assumes "m_nSize q < len + pos" and "len + pos \<le> max32"
  shows "Pop_read q len pos = Inl MB_BAD_DESERIALIZATION"
  using assms by (simp add: Pop_read_def add32_exact)

lemma SetHeadPosition_ok:
  assumes "uq_inv q" and "h \<le> m_nHeadPos q"
  shows "\<exists>q' back. SetHeadPosition q h = Inr q' \<and> uq_inv q' \<and> same_settings q q' \<and>
    content q' = back @ content q \<and> length back = m_nHeadPos q - h"
proof -
  obtain pre where r: "uq_rep q pre (content q)" using assms(1) by (rule uq_inv_rep)
  note d = uq_repD [OF r]
  have m: "add32 (m_nSize q) (sub32 (m_nHeadPos q) h) = m_nSize q + (m_nHeadPos q - h)"
    using d assms(2) by (simp add: add32_exact sub32_exact)
  show ?thesis
  proof (cases "h = m_nHeadPos q")
    case True
    with assms(1) show ?thesis by (auto simp: SetHeadPosition_def)
  next
    case False
    have "uq_rep (q\<lparr>m_nSize := m_nSize q + (m_nHeadPos q - h), m_nHeadPos := h\<rparr>)
        (take h pre) (drop h pre @ content q)"
    proof -
      have "holds (m_pBuffer q) 0 ((take h pre @ drop h pre) @ content q)"
        using r by (simp add: uq_rep_def)
      then have "holds (m_pBuffer q) 0 (take h pre @ drop h pre @ content q)"
        unfolding append_assoc .
      moreover have "length (drop h pre @ content q) = m_nSize q + (m_nHeadPos q - h)"
        using d by simp
      ultimately show ?thesis
        using d assms(2) False by (simp add: uq_rep_def)
    qed
    with False assms(2) m show ?thesis
      using d by (auto simp: SetHeadPosition_def same_settings_def dest: uq_rep_content uq_rep_inv)
  qed
qed

text \<open>\<^verbatim>\<open>CleanTrack\<close> wipes every byte outside the content and leaves the content alone.\<close>

lemma CleanTrack_ok:
  assumes "uq_inv q"
  shows "\<exists>q'. CleanTrack q = Inr q' \<and> uq_inv q' \<and> same_settings q q' \<and> content q' = content q \<and>
    m_nSize q' = m_nSize q \<and> m_nHeadPos q' = m_nHeadPos q \<and>
    m_pBuffer q' = replicate (m_nHeadPos q) (Some 0) @ map Some (content q) @
      replicate (m_nMaxBuffer q - m_nHeadPos q - m_nSize q) (Some 0)"
proof -
  let ?h = "m_nHeadPos q" and ?n = "m_nSize q" and ?M = "m_nMaxBuffer q"
  note d = uq_invD [OF assms]
  let ?zero = "\<lambda>k. replicate k (Some (0 :: byte))"
  let ?b = "?zero ?h @ map Some (content q) @ ?zero (?M - ?h - ?n)"
  have a: "add32 ?h ?n = ?h + ?n" and s: "sub32 ?M (?h + ?n) = ?M - ?h - ?n"
    using d by (simp_all add: add32_exact sub32_exact)
  have cells: "take ?n (drop ?h (m_pBuffer q)) = map Some (content q)"
    using d(8,1) by (simp add: holds_def)
  define p where "p = mem_put (m_pBuffer q) 0 (?zero ?h)"
  have p1: "(if ?h > 0 then mem_write (m_pBuffer q) 0 (?zero ?h) else Inr (m_pBuffer q)) = Inr p"
    using d by (simp add: p_def mem_write_ok)
  have lp: "length p = ?M" using d by (simp add: p_def)
  have p2: "(if ?M - ?h - ?n > 0 then mem_write p (?h + ?n) (?zero (?M - ?h - ?n)) else Inr p)
      = Inr (mem_put p (?h + ?n) (?zero (?M - ?h - ?n)))"
    using d lp by (simp add: mem_write_ok)
  have b: "mem_put p (?h + ?n) (?zero (?M - ?h - ?n)) = ?b"
    using d cells by (simp add: p_def mem_put_def take_add)
  have "CleanTrack q = Inr (q\<lparr>m_pBuffer := ?b\<rparr>)"
  proof (cases "?M = 0")
    case True
    with d have z: "?h = 0" "?n = 0" "m_pBuffer q = []" "content q = []" by auto
    moreover have "q\<lparr>m_pBuffer := []\<rparr> = q" using z by (cases q) simp
    ultimately show ?thesis using True by (simp add: CleanTrack_def add32_exact)
  next
    case False
    then have "m_pBuffer q \<noteq> []" using d(4) by auto
    then show ?thesis
      using False d p1 p2 unfolding CleanTrack_def Let_def a s b by (simp add: add.commute)
  qed
  moreover have "uq_rep (q\<lparr>m_pBuffer := ?b\<rparr>) (replicate ?h 0) (content q)"
    using d by (simp add: uq_rep_def holds_append) (simp add: holds_def)
  ultimately show ?thesis
    by (auto simp: same_settings_def dest: uq_rep_content uq_rep_inv)
qed

text \<open>
  \<^verbatim>\<open>SetNull\<close> puts a null character behind the content, so that the buffer can be read as
  a C string, without making it part of the content.
\<close>

lemma SetNull_ok:
  assumes "uq_inv q" and "room q sizeof_wchar_t"
  shows "\<exists>q'. SetNull q = Inr q' \<and> uq_inv q' \<and> same_settings q q' \<and> content q' = content q \<and>
    holds (m_pBuffer q') (m_nHeadPos q' + m_nSize q') (replicate sizeof_wchar_t 0)"
proof -
  obtain pre where r: "uq_rep q pre (content q)" using assms(1) by (rule uq_inv_rep)
  note d = uq_repD [OF r]
  let ?z = "replicate sizeof_wchar_t (0 :: byte)" and ?pos = "m_nHeadPos q + m_nSize q"
  have zs: "replicate sizeof_wchar_t (Some 0) = map Some ?z" by simp
  have a: "add32 (m_nHeadPos q) (m_nSize q) = ?pos" using d by (intro add32_exact) simp
  show ?thesis
  proof (cases "m_nMaxBuffer q \<ge> ?pos + sizeof_wchar_t")
    case True
    let ?m = "mem_put (m_pBuffer q) ?pos (map Some ?z)"
    have "SetNull q = Inr (q\<lparr>m_pBuffer := ?m\<rparr>)"
      using True d unfolding SetNull_def Let_def a zs by (simp add: mem_write_ok del: map_replicate)
    moreover have "uq_rep (q\<lparr>m_pBuffer := ?m\<rparr>) pre (content q)"
      using True r d by (auto simp: uq_rep_def intro!: mem_simps)
    moreover have "holds ?m ?pos ?z"
      using True d by (intro mem_simps) simp
    ultimately show ?thesis
      by (auto simp: same_settings_def dest: uq_rep_content uq_rep_inv)
  next
    case False
    obtain q1 pre1 where q1: "Push q (Some (map Some ?z)) = Inr q1" "same_settings q q1"
        and rep: "uq_rep q1 pre1 (take UQUEUE_END_POSTION (content q) @ ?z @ drop UQUEUE_END_POSTION (content q))"
        and e: "m_nSize q = 0 \<longrightarrow> pre1 = []"
      using Insert_rep [OF r, of ?z UQUEUE_END_POSTION] assms(2) unfolding Push_def by auto
    have rep: "uq_rep q1 pre1 (content q @ ?z)"
      using rep d by (simp add: UQUEUE_END_POSTION_def)
    note d1 = uq_repD [OF rep]
    have sz: "sub32 (m_nSize q1) sizeof_wchar_t = m_nSize q" and n1: "m_nSize q1 = m_nSize q + sizeof_wchar_t"
      using d d1 by (auto simp: sub32_exact)
    have "SetNull q = Inr (q1\<lparr>m_nSize := m_nSize q\<rparr>)"
      using False q1(1) unfolding SetNull_def Let_def a zs by (simp add: sz del: map_replicate)
    moreover have "uq_rep (q1\<lparr>m_nSize := m_nSize q\<rparr>) pre1 (content q)"
      using d d1 e rep by (auto simp: uq_rep_def holds_append)
    moreover have "holds (m_pBuffer q1) (m_nHeadPos q1 + m_nSize q) ?z"
      using d d1(10) unfolding holds_append by simp
    ultimately show ?thesis
      using q1(2) by (auto simp: same_settings_def dest: uq_rep_content uq_rep_inv)
  qed
qed

lemma overwrite_rep:
  assumes r: "uq_rep q pre xs" and p: "p + length ys \<le> m_nSize q"
  shows "uq_rep (q\<lparr>m_pBuffer := mem_put (m_pBuffer q) (p + m_nHeadPos q) (map Some ys)\<rparr>)
    pre (take p xs @ ys @ drop (p + length ys) xs)"
proof -
  note d = uq_repD [OF r]
  let ?h = "m_nHeadPos q"
  have "holds (m_pBuffer q) ?h (take p xs @ take (length ys) (drop p xs) @ drop (length ys) (drop p xs))"
    using d(10) by (simp only: append_take_drop_id)
  then have "holds (m_pBuffer q) ?h (take p xs)" "holds (m_pBuffer q) (?h + p + length ys) (drop (p + length ys) xs)"
    unfolding holds_append using d p by (simp_all add: ac_simps)
  then show ?thesis
    using d p by (auto simp: uq_rep_def holds_append ac_simps intro!: mem_simps)
qed

lemma Replace_ok:
  assumes "uq_inv q" and pl: "pos + len \<le> m_nSize q" and rm: "room q (length ys)"
  shows "\<exists>q'. Replace q pos len (Some (map Some ys)) = Inr q' \<and> uq_inv q' \<and> same_settings q q' \<and>
    content q' = take pos (content q) @ ys @ drop (pos + len) (content q)"
proof -
  obtain pre where r: "uq_rep q pre (content q)" using assms(1) by (rule uq_inv_rep)
  note d = uq_repD [OF r]
  let ?k = "min len (length ys)"
  let ?m = "mem_put (m_pBuffer q) (pos + m_nHeadPos q) (map Some (take ?k ys))"
  let ?q1 = "q\<lparr>m_pBuffer := ?m\<rparr>"
  have a: "add32 pos len = pos + len" and g: "GetBuffer q pos = pos + m_nHeadPos q"
    using pl d by (auto simp: GetBuffer_def intro!: add32_exact)
  have rq: "require (pos \<le> m_nSize q) = Inr ()" "require (len \<le> m_nSize q) = Inr ()"
    "require (pos + len \<le> m_nSize q) = Inr ()"
    using pl by simp_all
  have w: "mem_write (m_pBuffer q) (pos + m_nHeadPos q) (map Some (take ?k ys)) = Inr ?m"
    using pl d by (intro mem_write_ok) simp
  have rep: "uq_rep ?q1 pre (take pos (content q) @ take ?k ys @ drop (pos + ?k) (content q))"
  proof -
    have "length (take ?k ys) = ?k" by simp
    with overwrite_rep [OF r, of pos "take ?k ys"] pl show ?thesis by simp
  qed
  note c1 = uq_rep_content [OF rep] and i1 = uq_rep_inv [OF rep]
  note unf = Replace_def a rq bindr_simps g Let_def option.case length_map
  consider (shrink) "length ys < len" | (same) "len = length ys" | (widen) "len < length ys" by linarith
  then show ?thesis
  proof cases
    case shrink
    have s: "sub32 len (length ys) = len - length ys" "add32 pos (length ys) = pos + length ys"
      using shrink pl d by (auto intro!: sub32_exact add32_exact)
    have "Replace q pos len (Some (map Some ys)) =
        bindr (Pop_discard ?q1 (len - length ys) (pos + length ys)) (\<lambda>(_, q). Inr q)"
      using shrink w unfolding unf s by (simp add: take_map)
    with Pop_discard_ok [OF i1, of "len - length ys" "pos + length ys"] c1 shrink pl d show ?thesis
      by (auto simp: add.commute)
  next
    case same
    then have "Replace q pos len (Some (map Some ys)) = Inr ?q1"
      using w unfolding unf by simp
    with i1 c1 same show ?thesis by (simp add: same_settings_def)
  next
    case widen
    have "Replace q pos len (Some (map Some ys)) =
        Insert ?q1 (Some (map Some (drop len ys))) (pos + len)"
      using widen w unfolding unf by (simp add: take_map drop_map)
    moreover have "room ?q1 (length (drop len ys))"
      using rm by (simp add: room_def)
    ultimately show ?thesis
      using Insert_ok [OF i1, of "drop len ys" "pos + len"] c1 widen pl d
      by (auto simp: add.commute)
  qed
qed

lemma Swap_ok: "Swap q r = (r, q)"
  by (cases q; cases r) (simp add: Swap_def)

lemma CUQueue_move_ok:
  assumes "uq_inv q"
  shows "fst (CUQueue_move q) = q" "uq_inv (snd (CUQueue_move q))" "content (snd (CUQueue_move q)) = []"
  by (simp_all add: CUQueue_move_def uq_inv_def content_def)

lemma Empty_ok: "uq_inv q \<Longrightarrow> uq_inv (Empty q) \<and> content (Empty q) = []"
  by (auto simp: Empty_def uq_inv_def content_def)

lemma SetBlockSize_ok:
  "uq_inv q \<Longrightarrow> n \<le> max32 \<Longrightarrow> uq_inv (SetBlockSize q n) \<and> content (SetBlockSize q n) = content q"
  by (auto simp: SetBlockSize_def uq_inv_def content_def)

lemma GetTailSize_ok:
  "uq_inv q \<Longrightarrow> m_nHeadPos q + m_nSize q + GetTailSize q = m_nMaxBuffer q"
  by (auto simp: GetTailSize_def uq_inv_def sub32_exact)

text \<open>\<^verbatim>\<open>GetEndian\<close> answers the opposite of what \<^verbatim>\<open>SetEndian\<close> stored, on every host.\<close>

lemma GetEndian_SetEndian: "GetEndian (SetEndian q b) = (\<not> b)"
  by (simp add: GetEndian_def SetEndian_def IsBigEndian_def)

section \<open>Any sequence of operations\<close>

text \<open>
  The calls a client can make, with their arguments, and a driver that performs them one after
  another; a call that returns bytes hands the caller's cells out.
\<close>

datatype uq_op =
    Op_Insert "byte list" nat
  | Op_Push "byte list"
  | Op_Pop nat nat
  | Op_Discard nat nat
  | Op_Replace nat nat "byte list"
  | Op_Realloc nat
  | Op_SetNull
  | Op_CleanTrack
  | Op_Empty

fun run_op :: "uqueue \<Rightarrow> uq_op \<Rightarrow> fault + (byte mem \<times> uqueue)" where
  "run_op q (Op_Insert ys pos) = bindr (Insert q (Some (map Some ys)) pos) (\<lambda>q. Inr ([], q))"
| "run_op q (Op_Push ys) = bindr (Push q (Some (map Some ys))) (\<lambda>q. Inr ([], q))"
| "run_op q (Op_Pop len pos) = Pop_read q len pos"
| "run_op q (Op_Discard len pos) = bindr (Pop_discard q len pos) (\<lambda>(_, q). Inr ([], q))"
| "run_op q (Op_Replace pos len ys) = bindr (Replace q pos len (Some (map Some ys))) (\<lambda>q. Inr ([], q))"
| "run_op q (Op_Realloc n) = bindr (ReallocBuffer q n) (\<lambda>q. Inr ([], q))"
| "run_op q Op_SetNull = bindr (SetNull q) (\<lambda>q. Inr ([], q))"
| "run_op q Op_CleanTrack = bindr (CleanTrack q) (\<lambda>q. Inr ([], q))"
| "run_op q Op_Empty = Inr ([], Empty q)"

fun run_ops :: "uqueue \<Rightarrow> uq_op list \<Rightarrow> fault + (byte mem list \<times> uqueue)" where
  "run_ops q [] = Inr ([], q)"
| "run_ops q (c # cs) =
     bindr (run_op q c) (\<lambda>(out, q). bindr (run_ops q cs) (\<lambda>(outs, q). Inr (out # outs, q)))"

text \<open>
  The same calls on a list of bytes; \<open>blk\<close> is the block size, which a reallocation to zero uses.
\<close>

fun spec_op :: "nat \<Rightarrow> byte list \<Rightarrow> uq_op \<Rightarrow> fault + (byte list \<times> byte list)" where
  "spec_op blk xs (Op_Insert ys pos) = Inr ([], take pos xs @ ys @ drop pos xs)"
| "spec_op blk xs (Op_Push ys) = Inr ([], xs @ ys)"
| "spec_op blk xs (Op_Pop len pos) =
     (if length xs < len + pos then Inl MB_BAD_DESERIALIZATION
      else Inr (take len (drop pos xs), take pos xs @ drop (pos + len) xs))"
| "spec_op blk xs (Op_Discard len pos) = Inr ([], take pos xs @ drop (pos + len) xs)"
| "spec_op blk xs (Op_Replace pos len ys) =
     (if pos + len \<le> length xs then Inr ([], take pos xs @ ys @ drop (pos + len) xs) else Inl Assertion)"
| "spec_op blk xs (Op_Realloc n) = Inr ([], take (if n = 0 then blk else n) xs)"
| "spec_op blk xs Op_Empty = Inr ([], [])"
| "spec_op blk xs Op_SetNull = Inr ([], xs)"
| "spec_op blk xs Op_CleanTrack = Inr ([], xs)"

fun spec_ops :: "nat \<Rightarrow> byte list \<Rightarrow> uq_op list \<Rightarrow> fault + (byte list list \<times> byte list)" where
  "spec_ops blk xs [] = Inr ([], xs)"
| "spec_ops blk xs (c # cs) =
     bindr (spec_op blk xs c) (\<lambda>(out, xs). bindr (spec_ops blk xs cs) (\<lambda>(outs, xs). Inr (out # outs, xs)))"

text \<open>How many bytes a call may add, and which arguments are 32-bit numbers.\<close>

fun op_need :: "uq_op \<Rightarrow> nat" where
  "op_need (Op_Insert ys pos) = length ys"
| "op_need (Op_Push ys) = length ys"
| "op_need (Op_Replace pos len ys) = length ys"
| "op_need Op_SetNull = sizeof_wchar_t"
| "op_need _ = 0"

fun op_args :: "uq_op \<Rightarrow> bool" where
  "op_args (Op_Pop len pos) \<longleftrightarrow> len + pos \<le> max32"
| "op_args (Op_Replace pos len ys) \<longleftrightarrow> pos + len \<le> max32"
| "op_args (Op_Realloc n) \<longleftrightarrow> n \<le> max32"
| "op_args _ \<longleftrightarrow> True"

definition op_result :: "uqueue \<Rightarrow> fault + (byte list \<times> byte list) \<Rightarrow> fault + (byte mem \<times> uqueue) \<Rightarrow> bool" where
  "op_result q spec r \<longleftrightarrow>
     (case spec of Inl e \<Rightarrow> r = Inl e
      | Inr (out, xs) \<Rightarrow> (case r of Inl _ \<Rightarrow> False
          | Inr (out', q') \<Rightarrow> out' = map Some out \<and> uq_inv q' \<and> content q' = xs \<and>
              m_nBlockSize q' = m_nBlockSize q))"

lemma op_resultI:
  "r = Inr (map Some out, q') \<Longrightarrow> uq_inv q' \<Longrightarrow> same_settings q q' \<Longrightarrow> content q' = xs \<Longrightarrow>
   op_result q (Inr (out, xs)) r"
  by (simp add: op_result_def same_settings_def)

lemma Replace_assert:
  assumes "uq_inv q" and "m_nSize q < pos + len" and "pos + len \<le> max32"
  shows "Replace q pos len buf = Inl Assertion"
  using assms by (simp add: Replace_def require_def add32_exact)

lemma run_op_ok:
  assumes q: "uq_inv q" and room: "room q (op_need c)" and args: "op_args c"
  shows "op_result q (spec_op (m_nBlockSize q) (content q) c) (run_op q c)"
proof (cases c)
  case (Op_Insert ys pos)
  with Insert_ok [OF q, of ys pos] room show ?thesis by (auto intro!: op_resultI)
next
  case (Op_Push ys)
  with Push_ok [OF q, of ys] room show ?thesis by (auto intro!: op_resultI)
next
  case (Op_Pop len pos)
  show ?thesis
  proof (cases "len + pos \<le> m_nSize q")
    case True
    with Op_Pop Pop_read_ok [OF q True] uq_invD(1) [OF q] show ?thesis
      by (auto intro!: op_resultI simp del: take_map)
  next
    case False
    with Op_Pop args Pop_read_short [of q len pos] uq_invD(1) [OF q] show ?thesis
      by (auto simp: op_result_def)
  qed
next
  case (Op_Discard len pos)
  with Pop_discard_ok [OF q, of len pos] show ?thesis by (auto intro!: op_resultI)
next
  case (Op_Replace pos len ys)
  show ?thesis
  proof (cases "pos + len \<le> m_nSize q")
    case True
    with Op_Replace Replace_ok [OF q True, of ys] room uq_invD(1) [OF q] show ?thesis
      by (auto intro!: op_resultI)
  next
    case False
    with Op_Replace args Replace_assert [OF q, of pos len] uq_invD(1) [OF q] show ?thesis
      by (auto simp: op_result_def)
  qed
next
  case (Op_Realloc n)
  with ReallocBuffer_ok [OF q, of n] args show ?thesis by (auto intro!: op_resultI)
next
  case Op_SetNull
  with SetNull_ok [OF q] room show ?thesis by (auto intro!: op_resultI)
next
  case Op_CleanTrack
  with CleanTrack_ok [OF q] show ?thesis by (auto intro!: op_resultI)
next
  case Op_Empty
  with Empty_ok [OF q] show ?thesis by (auto simp: op_result_def Empty_def)
qed

lemma spec_op_length:
  "spec_op blk xs c = Inr (out, ys) \<Longrightarrow> length ys \<le> length xs + op_need c"
  by (cases c) (auto split: if_splits)

lemma run_ops_ok:
  "uq_inv q \<Longrightarrow> list_all op_args cs \<Longrightarrow> room q (sum_list (map op_need cs)) \<Longrightarrow>
   (case spec_ops (m_nBlockSize q) (content q) cs of
      Inl e \<Rightarrow> run_ops q cs = Inl e
    | Inr (outs, xs) \<Rightarrow> \<exists>q'. run_ops q cs = Inr (map (map Some) outs, q') \<and> uq_inv q' \<and> content q' = xs)"
proof (induction cs arbitrary: q)
  case Nil
  then show ?case by simp
next
  case (Cons c cs)
  let ?b = "m_nBlockSize q"
  have "room q (op_need c)" using Cons.prems(3) by (simp add: room_def)
  with Cons.prems have c: "op_result q (spec_op ?b (content q) c) (run_op q c)"
    by (intro run_op_ok) auto
  show ?case
  proof (cases "spec_op ?b (content q) c")
    case (Inl e)
    with c show ?thesis by (simp add: op_result_def)
  next
    case (Inr p)
    obtain out xs where p: "p = (out, xs)" by (cases p)
    with Inr c obtain q1 where q1: "run_op q c = Inr (map Some out, q1)" "uq_inv q1"
      "content q1 = xs" "m_nBlockSize q1 = ?b"
      by (auto simp: op_result_def split: sum.splits)
    have "m_nSize q1 \<le> m_nSize q + op_need c"
      using spec_op_length Inr p q1(3) uq_invD(1) [OF q1(2)] uq_invD(1) [OF Cons.prems(1)] by metis
    then have "room q1 (sum_list (map op_need cs))"
      using Cons.prems(3) q1(4) by (simp add: room_def)
    with Cons.IH [OF q1(2)] Cons.prems(2) show ?thesis
      using q1 Inr p by (cases "spec_ops ?b xs cs") auto
  qed
qed

section \<open>Properties\<close>



text \<open>
  Inserting at any position splices the bytes into the content there (at the end, when the
  position lies beyond it), keeps the class invariant and the settings and writes nothing
  outside the block, whichever of the four ways the code takes (into the space before the
  head, into the tail, by shifting, into a bigger block).
\<close>

theorem Insert_splices:
  assumes "uq_inv q" and "2 * (m_nSize q + length ys) + m_nBlockSize q \<le> max32"
  shows "\<exists>q'. Insert q (Some (map Some ys)) pos = Inr q' \<and> uq_inv q' \<and> same_settings q q' \<and>
    content q' = take pos (content q) @ ys @ drop pos (content q)"
  using Insert_ok [OF assms(1)] assms(2) by (simp add: room_def)

theorem Insert_splices_witness:
  "\<exists>q'. Insert (CUQueue_new 3 8 osUnix False) (Some (map Some [1, 2, 3, 4])) 5 = Inr q' \<and> uq_inv q' \<and>
     same_settings (CUQueue_new 3 8 osUnix False) q' \<and>
     content q' = take 5 (content (CUQueue_new 3 8 osUnix False)) @ [1, 2, 3, 4] @
       drop 5 (content (CUQueue_new 3 8 osUnix False))"
  by (rule Insert_splices) (simp_all add: CUQueue_new_ok CUQueue_new_def max32_def uq_inv_def)

text \<open>
  C37: Above that size the capacity that Insert computes wraps around in 32 bits. Whenever it
  comes out smaller than the bytes already stored, the copy into the new block runs out of
  its bounds: for a full buffer of 0x88000000 bytes and 4 KB more, for instance.
\<close>

theorem Push_capacity_wraps:
  assumes "uq_inv q" and "m_nHeadPos q = 0" and "ys \<noteq> []"
    and "m_nMaxBuffer q - m_nSize q < length ys" and "grown_max q (length ys) < m_nSize q"
  shows "Push q (Some (map Some ys)) = Inl Out_Of_Bounds"
proof -
  let ?n = "m_nSize q" and ?l = "length ys" and ?xs = "map Some (content q)"
  note d = uq_invD [OF assms(1)]
  have s: "sub32 (m_nMaxBuffer q) ?n = m_nMaxBuffer q - ?n"
    "sub32 (sub32 (m_nMaxBuffer q) (m_nHeadPos q)) ?n = m_nMaxBuffer q - ?n"
    using d assms(2) by (simp_all add: sub32_exact)
  have h: "SetHeadPosition0 q = Inr q"
    using assms(2) by (simp add: SetHeadPosition0_def)
  have rd: "mem_read (m_pBuffer q) 0 ?n = Inr ?xs"
    using d assms(2) holds_read [of "m_pBuffer q" 0 "content q"] by simp
  have wr: "mem_write (mem_alloc (grown_max q ?l)) 0 ?xs = Inl Out_Of_Bounds"
    using d(1) assms(5) by (simp add: mem_write_def)
  have p: "(if UQUEUE_END_POSTION > ?n then ?n else UQUEUE_END_POSTION) = ?n"
    using d by (simp add: UQUEUE_END_POSTION_def)
  have g: "Insert_grow q (map Some ys) ?n = Inl Out_Of_Bounds"
    using assms(5) rd wr by (simp add: Insert_grow_def Let_def)
  have c: "\<not> ?l \<le> m_nMaxBuffer q - ?n" "?l \<noteq> 0" "UQUEUE_END_POSTION \<noteq> 0"
    using assms(3,4) by (simp_all add: UQUEUE_END_POSTION_def max32_def)
  show ?thesis
    unfolding Push_def Insert_def option.case Let_def length_map s h bindr_simps p g
    using c by simp
qed

text \<open>A full buffer of 0x88000000 bytes: doubling it and a bit more passes 2 ^ 32.\<close>

definition full_2gb :: uqueue where
  "full_2gb = \<lparr>m_nMaxBuffer = 0x88000000, m_nSize = 0x88000000, m_nHeadPos = 0, m_os = osUnix,
     m_bSameEndian = True, m_nBlockSize = 4096, m_pBuffer = replicate 0x88000000 (Some 0),
     m_8ToW = False, m_ToUtf8 = False\<rparr>"

lemma full_2gb_inv: "uq_inv full_2gb"
  unfolding uq_inv_def full_2gb_def uqueue.select_convs length_replicate take_replicate
  by (auto simp: max32_def)

lemma full_2gb_fields:
  "m_nMaxBuffer full_2gb = 0x88000000" "m_nSize full_2gb = 0x88000000" "m_nHeadPos full_2gb = 0"
  "m_nBlockSize full_2gb = 4096"
  by (simp_all only: full_2gb_def uqueue.select_convs)

lemma full_2gb_grown: "grown_max full_2gb 4096 = 0x10002000"
  by (simp add: grown_max_def full_2gb_fields add32_def mul32_def)

theorem Push_capacity_wraps_witness:
  "Push full_2gb (Some (map Some (replicate 4096 7))) = Inl Out_Of_Bounds"
proof (rule Push_capacity_wraps [OF full_2gb_inv full_2gb_fields(3)])
  show "replicate 4096 (7 :: byte) \<noteq> []" by (simp only: replicate_empty)
  show "m_nMaxBuffer full_2gb - m_nSize full_2gb < length (replicate 4096 (7 :: byte))"
    unfolding full_2gb_fields length_replicate by simp
  show "grown_max full_2gb (length (replicate 4096 (7 :: byte))) < m_nSize full_2gb"
    unfolding full_2gb_fields length_replicate full_2gb_grown by simp
qed

text \<open>
  Reading a prefix out of a buffer and setting the head back to where it was restores the
  whole state, so a reader can peek into a message and rewind.
\<close>

theorem Pop_then_rewind:
  assumes "uq_inv q" and "len < m_nSize q"
  shows "\<exists>q'. Pop_read q len 0 = Inr (map Some (take len (content q)), q') \<and>
    content q' = drop len (content q) \<and> SetHeadPosition q' (m_nHeadPos q) = Inr q"
proof -
  note d = uq_invD [OF assms(1)]
  obtain q' where q': "Pop_read q len 0 = Inr (map Some (take len (content q)), q')"
    "content q' = drop len (content q)"
    using Pop_read_ok [OF assms(1), of len 0] assms(2) by auto
  have "mem_read (m_pBuffer q) (m_nHeadPos q) len = Inr (map Some (take len (content q)))"
    using d(8) assms(2) d(1) holds_append [of _ _ "take len (content q)" "drop len (content q)"]
    by (intro holds_read) auto
  then have "q' = q\<lparr>m_nSize := m_nSize q - len, m_nHeadPos := m_nHeadPos q + len\<rparr>"
    using q'(1) assms(2) d by (simp add: Pop_read_def Let_def add32_exact sub32_exact)
  moreover have "SetHeadPosition (q\<lparr>m_nSize := m_nSize q - len, m_nHeadPos := m_nHeadPos q + len\<rparr>)
      (m_nHeadPos q) = Inr q"
    using assms(2) d by (simp add: SetHeadPosition_def require_def add32_exact sub32_exact)
  ultimately show ?thesis using q' by blast
qed

definition sample_queue :: uqueue where
  "sample_queue = \<lparr>m_nMaxBuffer = 6, m_nSize = 3, m_nHeadPos = 1, m_os = osUnix, m_bSameEndian = True,
     m_nBlockSize = 8, m_pBuffer = [Some 5, Some 6, Some 7, Some 8, Some 9, None],
     m_8ToW = False, m_ToUtf8 = False\<rparr>"

lemma sample_queue_inv: "uq_inv sample_queue"
  by (simp add: uq_inv_def sample_queue_def max32_def)

theorem Pop_then_rewind_witness:
  "\<exists>q'. Pop_read sample_queue 2 0 = Inr (map Some (take 2 (content sample_queue)), q') \<and>
     content q' = drop 2 (content sample_queue) \<and>
     SetHeadPosition q' (m_nHeadPos sample_queue) = Inr sample_queue"
  by (rule Pop_then_rewind [OF sample_queue_inv]) (simp add: sample_queue_def)

text \<open>
  CleanTrack wipes every byte of the block that is not content: the bytes already read and
  the tail are zero afterwards, and the content, the positions and the settings are
  unchanged.
\<close>

theorem CleanTrack_wipes:
  assumes "uq_inv q"
  shows "\<exists>q'. CleanTrack q = Inr q' \<and> uq_inv q' \<and> content q' = content q \<and> same_settings q q' \<and>
    m_pBuffer q' = replicate (m_nHeadPos q) (Some 0) @ map Some (content q) @
      replicate (m_nMaxBuffer q - m_nHeadPos q - m_nSize q) (Some 0)"
  using CleanTrack_ok [OF assms] by blast

theorem CleanTrack_wipes_witness:
  "\<exists>q'. CleanTrack sample_queue = Inr q' \<and> uq_inv q' \<and> content q' = content sample_queue \<and>
     same_settings sample_queue q' \<and>
     m_pBuffer q' = replicate (m_nHeadPos sample_queue) (Some 0) @ map Some (content sample_queue) @
       replicate (m_nMaxBuffer sample_queue - m_nHeadPos sample_queue - m_nSize sample_queue) (Some 0)"
  by (rule CleanTrack_wipes [OF sample_queue_inv])

text \<open>
  SetNull writes a wide null character right behind the content, growing the block when the
  tail is too short, and leaves the content as it was.
\<close>

theorem SetNull_terminates_text:
  assumes "uq_inv q" and "2 * (m_nSize q + sizeof_wchar_t) + m_nBlockSize q \<le> max32"
  shows "\<exists>q'. SetNull q = Inr q' \<and> uq_inv q' \<and> content q' = content q \<and>
    take sizeof_wchar_t (drop (m_nHeadPos q' + m_nSize q') (m_pBuffer q')) = replicate sizeof_wchar_t (Some 0)"
  using SetNull_ok [OF assms(1)] assms(2) by (auto simp: room_def holds_def)

theorem SetNull_terminates_text_witness:
  "\<exists>q'. SetNull sample_queue = Inr q' \<and> uq_inv q' \<and> content q' = content sample_queue \<and>
     take sizeof_wchar_t (drop (m_nHeadPos q' + m_nSize q') (m_pBuffer q')) = replicate sizeof_wchar_t (Some 0)"
  by (rule SetNull_terminates_text [OF sample_queue_inv])
    (simp add: sample_queue_def sizeof_wchar_t_def max32_def)

end
