(* ===== verification/Safequeue.thy ===== *)
theory Safequeue
  imports Spa_Prelude
begin

text \<open>
  \<^verbatim>\<open>CSafeDeque<T>\<close> of \<^verbatim>\<open>include/safequeue.h\<close>, the array deque behind SocketPro's
  object pools, and the spin lock \<^verbatim>\<open>CSpinLock\<close> of \<^verbatim>\<open>include/commutil.h\<close> that guards it.

  \<^item> \<open>deque\<close> has the class's fields; an operation takes a flag that says whether the spin lock was
    acquired within the caller's number of cycles.
  \<^item> \<open>spin\<close> is the compare-and-exchange loop over the values of the lock word that it observes.
  \<^item> The locale \<open>fifo_store\<close> is the contract of a store that is filled at the back and emptied at
    the front; \<open>deque_inv\<close> and \<open>elems\<close> give the deque's meaning as a list.
\<close>

section \<open>The spin lock\<close>

text \<open>
  \<open>spin obs max_cycle\<close>: \<open>obs\<close> are the successive outcomes of the compare-and-exchange (\<open>True\<close>:
  the lock is held by somebody). \<open>None\<close> is a thread that is still spinning when the
  observations end.
\<close>

fun spin :: "bool list \<Rightarrow> nat \<Rightarrow> bool option" where
  "spin [] max_cycle = None"
| "spin (busy # obs) max_cycle =
     (if \<not> busy then Some True
      else if max_cycle > 1 then spin obs (max_cycle - 1)
      else Some False)"

definition try_lock :: "bool list \<Rightarrow> bool option" where
  "try_lock obs = spin obs 1"

lemma spin_char:
  "spin obs n =
     (let k = length (takeWhile (\<lambda>b. b) obs) in
      if k < length obs \<and> k < max 1 n then Some True
      else if max 1 n \<le> k then Some False else None)"
proof (induction obs n rule: spin.induct)
  case (1 n)
  then show ?case by simp
next
  case (2 busy obs n)
  then show ?case by (auto simp: Let_def max_def)
qed

section \<open>The deque\<close>

definition INITIAL_CAPACITY :: nat where
  "INITIAL_CAPACITY = 128"

record 'a deque =
  m_capacity :: nat
  m_header :: nat
  m_count :: nat
  m_p :: "'a mem"

definition CSafeDeque_new :: "nat \<Rightarrow> 'a deque" where
  "CSafeDeque_new initailCapacity =
     (let cap = (if initailCapacity = 0 then INITIAL_CAPACITY else initailCapacity) in
      \<lparr>m_capacity = cap, m_header = 0, m_count = 0, m_p = mem_alloc cap\<rparr>)"

text \<open>The constructor from an array (\<open>None\<close> for a null pointer).\<close>

definition CSafeDeque_from :: "'a mem option \<Rightarrow> nat \<Rightarrow> fault + 'a deque" where
  "CSafeDeque_from p initailCapacity =
     (let src = (case p of None \<Rightarrow> [] | Some xs \<Rightarrow> xs); count = length src;
          cap = (if initailCapacity = 0 then INITIAL_CAPACITY else initailCapacity);
          cap = (if count > cap then count else cap) in
      if count \<noteq> 0
      then bindr (mem_write (mem_alloc cap) 0 src) (\<lambda>m.
             Inr \<lparr>m_capacity = cap, m_header = 0, m_count = count, m_p = m\<rparr>)
      else Inr \<lparr>m_capacity = cap, m_header = 0, m_count = 0, m_p = mem_alloc cap\<rparr>)"

definition CSafeDeque_move :: "'a deque \<Rightarrow> 'a deque \<times> 'a deque" where
  "CSafeDeque_move sd =
     (sd, \<lparr>m_capacity = INITIAL_CAPACITY, m_header = 0, m_count = 0, m_p = mem_alloc INITIAL_CAPACITY\<rparr>)"

definition CSafeDeque_copy :: "'a deque \<Rightarrow> fault + 'a deque" where
  "CSafeDeque_copy sd =
     bindr (mem_read (m_p sd) (m_header sd) (m_count sd)) (\<lambda>xs.
     bindr (mem_write (mem_alloc (m_capacity sd)) (m_header sd) xs) (\<lambda>m.
     Inr \<lparr>m_capacity = m_capacity sd, m_header = m_header sd, m_count = m_count sd, m_p = m\<rparr>))"

definition shrink_to_fit :: "'a deque \<Rightarrow> fault + 'a deque" where
  "shrink_to_fit d =
     bindr (mem_read (m_p d) (m_header d) (m_count d)) (\<lambda>xs.
     bindr (mem_write (mem_alloc (m_count d)) 0 xs) (\<lambda>m.
     Inr (d\<lparr>m_p := m, m_header := 0, m_capacity := m_count d\<rparr>)))"

definition deque_clear :: "'a deque \<Rightarrow> 'a deque" where
  "deque_clear d = d\<lparr>m_count := 0, m_header := 0\<rparr>"

definition deque_swap :: "'a deque \<Rightarrow> 'a deque \<Rightarrow> 'a deque \<times> 'a deque" where
  "deque_swap d sd =
     (d\<lparr>m_p := m_p sd, m_count := m_count sd, m_header := m_header sd, m_capacity := m_capacity sd\<rparr>,
      sd\<lparr>m_p := m_p d, m_count := m_count d, m_header := m_header d, m_capacity := m_capacity d\<rparr>)"

text \<open>The private workers; \<open>acquired\<close> is what \<^verbatim>\<open>m_sl.lock(cycle)\<close> returned.\<close>

definition popfront :: "bool \<Rightarrow> 'a deque \<Rightarrow> nat \<Rightarrow> fault + ('a mem \<times> 'a deque)" where
  "popfront acquired d count =
     (if \<not> acquired then Inr ([], d)
      else if m_count d = 0 then Inr ([], d)
      else let count = (if count > m_count d then m_count d else count) in
        bindr (mem_read (m_p d) (m_header d) count) (\<lambda>xs.
        let n = m_count d - count in
        Inr (xs, d\<lparr>m_count := n, m_header := (if n = 0 then 0 else m_header d + count)\<rparr>)))"

definition popback :: "bool \<Rightarrow> 'a deque \<Rightarrow> nat \<Rightarrow> fault + ('a mem \<times> 'a deque)" where
  "popback acquired d count =
     (if \<not> acquired then Inr ([], d)
      else if m_count d = 0 then Inr ([], d)
      else let count = (if count > m_count d then m_count d else count); n = m_count d - count in
        bindr (mem_read (m_p d) (m_header d + n) count) (\<lambda>xs.
        Inr (xs, d\<lparr>m_count := n, m_header := (if n = 0 then 0 else m_header d)\<rparr>)))"

definition pushback :: "bool \<Rightarrow> 'a deque \<Rightarrow> 'a mem \<Rightarrow> fault + (nat \<times> 'a deque)" where
  "pushback acquired d p =
     (if \<not> acquired then Inr (0, d)
      else let count = length p; tail = m_capacity d - (m_header d + m_count d) in
        bindr
          (if tail \<ge> count
           then bindr (mem_write (m_p d) (m_header d + m_count d) p) (\<lambda>m. Inr (d\<lparr>m_p := m\<rparr>))
           else if tail + m_header d > m_count d + count
           then bindr (mem_move (m_p d) 0 (m_header d) (m_count d)) (\<lambda>m.
                bindr (mem_write m (m_count d) p) (\<lambda>m.
                Inr (d\<lparr>m_header := 0, m_p := m\<rparr>)))
           else let newCap = count + m_capacity d * 2 in
                bindr (mem_read (m_p d) (m_header d) (m_count d)) (\<lambda>xs.
                bindr (mem_write (mem_alloc newCap) 0 xs) (\<lambda>m.
                bindr (mem_write m (m_count d) p) (\<lambda>m.
                Inr (d\<lparr>m_header := 0, m_p := m, m_capacity := newCap\<rparr>)))))
          (\<lambda>d. Inr (count, d\<lparr>m_count := m_count d + count\<rparr>)))"

definition pushfront :: "bool \<Rightarrow> 'a deque \<Rightarrow> 'a mem \<Rightarrow> fault + (nat \<times> 'a deque)" where
  "pushfront acquired d p =
     (if \<not> acquired then Inr (0, d)
      else let count = length p in
        bindr
          (if m_header d \<ge> count
           then bindr (mem_write (m_p d) (m_header d - count) p) (\<lambda>m.
                Inr (d\<lparr>m_header := m_header d - count, m_p := m\<rparr>))
           else let space = m_capacity d - m_count d in
             if space > count \<and> m_count d < m_capacity d div 2
             then bindr (mem_move (m_p d) space (m_header d) (m_count d)) (\<lambda>m.
                  bindr (mem_write m (space - count) p) (\<lambda>m.
                  Inr (d\<lparr>m_header := space - count, m_p := m\<rparr>)))
             else let newCap = count + m_capacity d * 2; header = newCap - m_count d - count in
                  bindr (mem_read (m_p d) (m_header d) (m_count d)) (\<lambda>xs.
                  bindr (mem_write (mem_alloc newCap) (header + count) xs) (\<lambda>m.
                  bindr (mem_write m header p) (\<lambda>m.
                  Inr (d\<lparr>m_header := header, m_p := m, m_capacity := newCap\<rparr>)))))
          (\<lambda>d. Inr (count, d\<lparr>m_count := m_count d + count\<rparr>)))"

text \<open>The public overloads on arrays and on single elements.\<close>

definition push_back :: "bool \<Rightarrow> 'a deque \<Rightarrow> 'a mem option \<Rightarrow> fault + (nat \<times> 'a deque)" where
  "push_back acquired d p =
     (case p of None \<Rightarrow> Inr (0, d)
      | Some xs \<Rightarrow> if length xs = 0 then Inr (0, d) else pushback acquired d xs)"

definition push_front :: "bool \<Rightarrow> 'a deque \<Rightarrow> 'a mem option \<Rightarrow> fault + (nat \<times> 'a deque)" where
  "push_front acquired d p =
     (case p of None \<Rightarrow> Inr (0, d)
      | Some xs \<Rightarrow> if length xs = 0 then Inr (0, d) else pushfront acquired d xs)"

definition pop_front :: "bool \<Rightarrow> 'a deque \<Rightarrow> nat \<Rightarrow> fault + ('a mem \<times> 'a deque)" where
  "pop_front acquired d count = (if count = 0 then Inr ([], d) else popfront acquired d count)"

definition pop_back :: "bool \<Rightarrow> 'a deque \<Rightarrow> nat \<Rightarrow> fault + ('a mem \<times> 'a deque)" where
  "pop_back acquired d count = (if count = 0 then Inr ([], d) else popback acquired d count)"

text \<open>Pushing a whole other deque, whose own lock is \<open>al\<close>.\<close>

definition push_back_deque :: "bool \<Rightarrow> bool \<Rightarrow> 'a deque \<Rightarrow> 'a deque \<Rightarrow> fault + (nat \<times> 'a deque)" where
  "push_back_deque al acquired d sd =
     (if \<not> al \<or> m_count sd = 0 then Inr (0, d)
      else bindr (mem_read (m_p sd) (m_header sd) (m_count sd)) (pushback acquired d))"

definition push_front_deque :: "bool \<Rightarrow> bool \<Rightarrow> 'a deque \<Rightarrow> 'a deque \<Rightarrow> fault + (nat \<times> 'a deque)" where
  "push_front_deque al acquired d sd =
     (if \<not> al \<or> m_count sd = 0 then Inr (0, d)
      else bindr (mem_read (m_p sd) (m_header sd) (m_count sd)) (pushfront acquired d))"

section \<open>Invariant and meaning\<close>

definition elems :: "'a deque \<Rightarrow> 'a list" where
  "elems d = map the (take (m_count d) (drop (m_header d) (m_p d)))"

definition deque_inv :: "'a deque \<Rightarrow> bool" where
  "deque_inv d \<longleftrightarrow> length (m_p d) = m_capacity d \<and> m_header d + m_count d \<le> m_capacity d \<and>
     None \<notin> set (take (m_count d) (drop (m_header d) (m_p d)))"

lemma deque_invD:
  assumes "deque_inv d"
  shows "length (m_p d) = m_capacity d" "m_header d + m_count d \<le> m_capacity d"
    "holds (m_p d) (m_header d) (elems d)" "length (elems d) = m_count d"
proof -
  show "length (m_p d) = m_capacity d" "m_header d + m_count d \<le> m_capacity d"
    using assms by (simp_all add: deque_inv_def)
  show l: "length (elems d) = m_count d"
    using assms by (auto simp: deque_inv_def elems_def)
  show "holds (m_p d) (m_header d) (elems d)"
    unfolding holds_def l using assms
    by (simp add: elems_def deque_inv_def map_Some_the del: map_map)
qed

lemma deque_repI:
  assumes "holds m h xs" and "length m = c" and "length xs = n"
  shows "deque_inv \<lparr>m_capacity = c, m_header = h, m_count = n, m_p = m\<rparr>"
    and "elems \<lparr>m_capacity = c, m_header = h, m_count = n, m_p = m\<rparr> = xs"
  using assms holds_cells [OF assms(1)]
  by (auto simp: deque_inv_def elems_def holds_def)

lemma deque_eq: "d = \<lparr>m_capacity = m_capacity d, m_header = m_header d, m_count = m_count d, m_p = m_p d\<rparr>"
  by simp

lemma deque_new_ok: "deque_inv (CSafeDeque_new n)" "elems (CSafeDeque_new n) = []"
  by (simp_all add: CSafeDeque_new_def Let_def deque_inv_def elems_def)

lemma deque_clear_ok: "deque_inv d \<Longrightarrow> deque_inv (deque_clear d) \<and> elems (deque_clear d) = []"
  by (simp add: deque_inv_def deque_clear_def elems_def)

section \<open>The workers refine list operations\<close>

lemma deque_upd_ok:
  assumes "holds m h xs" and "length m = c" and "length xs = n"
  shows "deque_inv (d\<lparr>m_capacity := c, m_header := h, m_count := n, m_p := m\<rparr>)"
    and "elems (d\<lparr>m_capacity := c, m_header := h, m_count := n, m_p := m\<rparr>) = xs"
  using deque_repI [OF assms] by (simp_all add: deque_inv_def elems_def)

lemma pushback_ok:
  assumes "deque_inv d"
  shows "\<exists>d'. pushback True d (map Some ys) = Inr (length ys, d') \<and> deque_inv d' \<and> elems d' = elems d @ ys"
proof -
  let ?h = "m_header d" and ?n = "m_count d" and ?c = "m_capacity d" and ?k = "length ys"
  note d = deque_invD [OF assms]
  have res: "\<exists>d'. pushback True d (map Some ys) = Inr (?k, d') \<and> deque_inv d' \<and> elems d' = elems d @ ys"
    if "pushback True d (map Some ys) = Inr (?k, d\<lparr>m_capacity := c, m_header := h, m_count := ?n + ?k, m_p := m\<rparr>)"
      and "holds m h (elems d @ ys)" and "length m = c" for c h m
    using that deque_upd_ok [OF that(2,3), of "?n + ?k"] d by auto
  consider (tail) "?k \<le> ?c - (?h + ?n)"
    | (shift) "\<not> ?k \<le> ?c - (?h + ?n)" "?c - (?h + ?n) + ?h > ?n + ?k"
    | (grow) "\<not> ?k \<le> ?c - (?h + ?n)" "\<not> ?c - (?h + ?n) + ?h > ?n + ?k"
    by linarith
  then show ?thesis
  proof cases
    case tail
    let ?m = "mem_put (m_p d) (?h + ?n) (map Some ys)"
    have "mem_write (m_p d) (?h + ?n) (map Some ys) = Inr ?m"
      using tail d by (intro mem_write_ok) simp
    with tail have "pushback True d (map Some ys) =
        Inr (?k, d\<lparr>m_capacity := ?c, m_header := ?h, m_count := ?n + ?k, m_p := ?m\<rparr>)"
      by (simp add: pushback_def Let_def)
    moreover have "holds ?m ?h (elems d @ ys)" "length ?m = ?c"
      using tail d by (auto simp: holds_append intro!: mem_simps)
    ultimately show ?thesis by (rule res)
  next
    case shift
    let ?m1 = "mem_put (m_p d) 0 (map Some (elems d))"
    let ?m = "mem_put ?m1 ?n (map Some ys)"
    have mv: "mem_move (m_p d) 0 ?h ?n = Inr ?m1"
      using d by (intro mem_move_holds) auto
    have l: "length ?m1 = ?c" using d by simp
    have w: "mem_write ?m1 ?n (map Some ys) = Inr ?m"
      using shift d l by (intro mem_write_ok) simp
    have "pushback True d (map Some ys) =
        Inr (?k, d\<lparr>m_capacity := ?c, m_header := 0, m_count := ?n + ?k, m_p := ?m\<rparr>)"
      unfolding pushback_def Let_def length_map if_not_P [OF shift(1)] if_P [OF shift(2)] mv bindr_simps w
      by simp
    moreover have "holds ?m1 0 (elems d)"
      using d by (intro mem_simps) simp
    then have "holds ?m 0 (elems d @ ys)" "length ?m = ?c"
      using shift d l by (auto simp: holds_append intro!: mem_simps)
    ultimately show ?thesis by (rule res)
  next
    case grow
    let ?M = "?k + ?c * 2"
    let ?m1 = "mem_put (mem_alloc ?M) 0 (map Some (elems d))"
    let ?m = "mem_put ?m1 ?n (map Some ys)"
    have rd: "mem_read (m_p d) ?h ?n = Inr (map Some (elems d))"
      using d by (intro holds_read) auto
    have w1: "mem_write (mem_alloc ?M) 0 (map Some (elems d)) = Inr ?m1"
      using d by (intro mem_write_ok) simp
    have l: "length ?m1 = ?M" using d by simp
    have w2: "mem_write ?m1 ?n (map Some ys) = Inr ?m"
      using d l by (intro mem_write_ok) simp
    have "pushback True d (map Some ys) =
        Inr (?k, d\<lparr>m_capacity := ?M, m_header := 0, m_count := ?n + ?k, m_p := ?m\<rparr>)"
      unfolding pushback_def Let_def length_map if_not_P [OF grow(1)] if_not_P [OF grow(2)] rd bindr_simps w1 w2
      by simp
    moreover have "holds ?m1 0 (elems d)"
      using d holds_mem_put_same [of 0 "elems d" "mem_alloc ?M"] by simp
    then have "holds ?m 0 (elems d @ ys)" "length ?m = ?M"
      using d l by (auto simp: holds_append intro!: mem_simps)
    ultimately show ?thesis by (rule res)
  qed
qed

lemma pushfront_ok:
  assumes "deque_inv d"
  shows "\<exists>d'. pushfront True d (map Some ys) = Inr (length ys, d') \<and> deque_inv d' \<and> elems d' = ys @ elems d"
proof -
  let ?h = "m_header d" and ?n = "m_count d" and ?c = "m_capacity d" and ?k = "length ys"
  note d = deque_invD [OF assms]
  have res: "\<exists>d'. pushfront True d (map Some ys) = Inr (?k, d') \<and> deque_inv d' \<and> elems d' = ys @ elems d"
    if "pushfront True d (map Some ys) = Inr (?k, d\<lparr>m_capacity := c, m_header := h, m_count := ?n + ?k, m_p := m\<rparr>)"
      and "holds m h (ys @ elems d)" and "length m = c" for c h m
    using that deque_upd_ok [OF that(2,3), of "?n + ?k"] d by auto
  let ?room = "?c - ?n > ?k \<and> ?n < ?c div 2"
  consider (head) "?h \<ge> ?k" | (shift) "\<not> ?h \<ge> ?k" ?room | (grow) "\<not> ?h \<ge> ?k" "\<not> ?room"
    by blast
  then show ?thesis
  proof cases
    case head
    let ?m = "mem_put (m_p d) (?h - ?k) (map Some ys)"
    have "mem_write (m_p d) (?h - ?k) (map Some ys) = Inr ?m"
      using head d by (intro mem_write_ok) simp
    with head have "pushfront True d (map Some ys) =
        Inr (?k, d\<lparr>m_capacity := ?c, m_header := ?h - ?k, m_count := ?n + ?k, m_p := ?m\<rparr>)"
      by (simp add: pushfront_def Let_def)
    moreover have "holds ?m (?h - ?k) (ys @ elems d)" "length ?m = ?c"
      using head d by (auto simp: holds_append intro!: mem_simps)
    ultimately show ?thesis by (rule res)
  next
    case shift
    let ?s = "?c - ?n"
    let ?m1 = "mem_put (m_p d) ?s (map Some (elems d))"
    let ?m = "mem_put ?m1 (?s - ?k) (map Some ys)"
    have mv: "mem_move (m_p d) ?s ?h ?n = Inr ?m1"
      using d by (intro mem_move_holds) auto
    have l: "length ?m1 = ?c" using d by simp
    have w: "mem_write ?m1 (?s - ?k) (map Some ys) = Inr ?m"
      using shift(2) d(1) l by (intro mem_write_ok) auto
    have "pushfront True d (map Some ys) =
        Inr (?k, d\<lparr>m_capacity := ?c, m_header := ?s - ?k, m_count := ?n + ?k, m_p := ?m\<rparr>)"
      unfolding pushfront_def Let_def length_map if_not_P [OF shift(1)] if_P [OF shift(2)] mv bindr_simps w
      by simp
    moreover have h1: "holds ?m1 ?s (elems d)"
      using d by (intro mem_simps) simp
    from h1 have h2: "holds ?m ?s (elems d)"
    proof (rule holds_mem_put_other)
      show "?s - ?k + length (map Some ys) \<le> length ?m1" using shift(2) unfolding l by auto
      show "?s + length (elems d) \<le> ?s - ?k \<or> ?s - ?k + length (map Some ys) \<le> ?s"
        using shift(2) by auto
    qed
    have h3: "holds ?m (?s - ?k) ys"
      using shift(2) d l by (intro holds_mem_put_same) auto
    have "holds ?m (?s - ?k) (ys @ elems d)" "length ?m = ?c"
      using shift(2) l h2 h3 by (auto simp: holds_append)
    ultimately show ?thesis by (rule res)
  next
    case grow
    let ?M = "?k + ?c * 2"
    let ?hd = "?M - ?n - ?k"
    let ?m1 = "mem_put (mem_alloc ?M) (?hd + ?k) (map Some (elems d))"
    let ?m = "mem_put ?m1 ?hd (map Some ys)"
    have hd: "?hd + ?k + ?n = ?M" using d by simp
    have rd: "mem_read (m_p d) ?h ?n = Inr (map Some (elems d))"
      using d by (intro holds_read) auto
    have w1: "mem_write (mem_alloc ?M) (?hd + ?k) (map Some (elems d)) = Inr ?m1"
      using d hd by (intro mem_write_ok) simp
    have l: "length ?m1 = ?M" using d hd by simp
    have w2: "mem_write ?m1 ?hd (map Some ys) = Inr ?m"
      using d hd l by (intro mem_write_ok) simp
    have "pushfront True d (map Some ys) =
        Inr (?k, d\<lparr>m_capacity := ?M, m_header := ?hd, m_count := ?n + ?k, m_p := ?m\<rparr>)"
      unfolding pushfront_def Let_def length_map if_not_P [OF grow(1)] if_not_P [OF grow(2)] rd bindr_simps w1 w2
      by simp
    moreover have "holds ?m1 (?hd + ?k) (elems d)"
      using d hd holds_mem_put_same [of "?hd + ?k" "elems d" "mem_alloc ?M"] by simp
    then have "holds ?m ?hd (ys @ elems d)" "length ?m = ?M"
      using d hd l by (auto simp: holds_append intro!: mem_simps)
    ultimately show ?thesis by (rule res)
  qed
qed

lemma popfront_ok:
  assumes "deque_inv d"
  shows "\<exists>d'. popfront True d n = Inr (map Some (take n (elems d)), d') \<and> deque_inv d' \<and> elems d' = drop n (elems d)"
proof (cases "m_count d = 0")
  case True
  with deque_invD(4) [OF assms] assms show ?thesis by (simp add: popfront_def)
next
  case False
  note d = deque_invD [OF assms]
  let ?k = "if n > m_count d then m_count d else n" and ?h = "m_header d"
  let ?r = "m_count d - ?k"
  have h: "holds (m_p d) ?h (take ?k (elems d) @ drop ?k (elems d))"
    using d by simp
  then have hr: "holds (m_p d) ?h (take ?k (elems d))" "holds (m_p d) (?h + ?k) (drop ?k (elems d))"
    unfolding holds_append using d by (simp_all split: if_splits)
  have td: "take ?k (elems d) = take n (elems d)" "drop ?k (elems d) = drop n (elems d)"
    using d by auto
  have "mem_read (m_p d) ?h ?k = Inr (map Some (take ?k (elems d)))"
    using hr(1) d by (intro holds_read) auto
  with False have "popfront True d n = Inr (map Some (take ?k (elems d)),
      d\<lparr>m_capacity := m_capacity d, m_header := (if ?r = 0 then 0 else ?h + ?k), m_count := ?r, m_p := m_p d\<rparr>)"
    by (simp add: popfront_def Let_def)
  moreover have "holds (m_p d) (if ?r = 0 then 0 else ?h + ?k) (drop ?k (elems d))"
    using hr(2) d by (auto split: if_splits)
  note deque_upd_ok [OF this d(1), of ?r d]
  ultimately show ?thesis using d td by auto
qed

lemma popback_ok:
  assumes "deque_inv d"
  shows "\<exists>d'. popback True d n = Inr (map Some (drop (m_count d - n) (elems d)), d') \<and>
    deque_inv d' \<and> elems d' = take (m_count d - n) (elems d)"
proof (cases "m_count d = 0")
  case True
  with deque_invD(4) [OF assms] assms show ?thesis by (simp add: popback_def)
next
  case False
  note d = deque_invD [OF assms]
  let ?k = "if n > m_count d then m_count d else n" and ?h = "m_header d"
  let ?r = "m_count d - ?k"
  have h: "holds (m_p d) ?h (take ?r (elems d) @ drop ?r (elems d))"
    using d by simp
  then have hr: "holds (m_p d) ?h (take ?r (elems d))" "holds (m_p d) (?h + ?r) (drop ?r (elems d))"
    unfolding holds_append using d by simp_all
  have r: "?r = m_count d - n" by simp
  have "mem_read (m_p d) (?h + ?r) ?k = Inr (map Some (drop ?r (elems d)))"
    using hr(2) d by (intro holds_read) auto
  with False have "popback True d n = Inr (map Some (drop ?r (elems d)),
      d\<lparr>m_capacity := m_capacity d, m_header := (if ?r = 0 then 0 else ?h), m_count := ?r, m_p := m_p d\<rparr>)"
    by (simp add: popback_def Let_def)
  moreover have "holds (m_p d) (if ?r = 0 then 0 else ?h) (take ?r (elems d))"
    using hr(1) by (auto split: if_splits)
  note deque_upd_ok [OF this d(1), of ?r d]
  ultimately show ?thesis using d unfolding r by auto
qed

text \<open>A worker that did not get the lock reports 0 elements and changes nothing.\<close>

lemma worker_unlocked [simp]:
  "popfront False d n = Inr ([], d)" "popback False d n = Inr ([], d)"
  "pushback False d xs = Inr (0, d)" "pushfront False d xs = Inr (0, d)"
  by (simp_all add: popfront_def popback_def pushback_def pushfront_def)

lemma copy_ok:
  assumes "deque_inv d"
  shows "\<exists>d'. CSafeDeque_copy d = Inr d' \<and> deque_inv d' \<and> elems d' = elems d"
proof -
  note d = deque_invD [OF assms]
  let ?m = "mem_put (mem_alloc (m_capacity d)) (m_header d) (map Some (elems d))"
  have "mem_read (m_p d) (m_header d) (m_count d) = Inr (map Some (elems d))"
    using d by (intro holds_read) auto
  moreover have "mem_write (mem_alloc (m_capacity d)) (m_header d) (map Some (elems d)) = Inr ?m"
    using d by (intro mem_write_ok) simp
  moreover have "holds ?m (m_header d) (elems d)" "length ?m = m_capacity d"
    using d holds_mem_put_same [of "m_header d" "elems d" "mem_alloc (m_capacity d)"] by simp_all
  ultimately show ?thesis
    using deque_repI [of ?m "m_header d" "elems d"] d by (simp add: CSafeDeque_copy_def)
qed

lemma shrink_to_fit_ok:
  assumes "deque_inv d"
  shows "\<exists>d'. shrink_to_fit d = Inr d' \<and> deque_inv d' \<and> elems d' = elems d \<and> m_capacity d' = length (elems d)"
proof -
  note d = deque_invD [OF assms]
  let ?m = "mem_put (mem_alloc (m_count d)) 0 (map Some (elems d))"
  have "mem_read (m_p d) (m_header d) (m_count d) = Inr (map Some (elems d))"
    using d by (intro holds_read) auto
  moreover have "mem_write (mem_alloc (m_count d)) 0 (map Some (elems d)) = Inr ?m"
    using d by (intro mem_write_ok) simp
  moreover have "holds ?m 0 (elems d)" "length ?m = m_count d"
    using d holds_mem_put_same [of 0 "elems d" "mem_alloc (m_count d)"] by simp_all
  ultimately show ?thesis
    using deque_upd_ok [of ?m 0 "elems d" "m_count d" "m_count d" d] d
    by (simp add: shrink_to_fit_def deque_inv_def elems_def)
qed

lemma from_ok:
  "\<exists>d. CSafeDeque_from (Some (map Some xs)) n = Inr d \<and> deque_inv d \<and> elems d = xs"
proof -
  let ?c0 = "if n = 0 then INITIAL_CAPACITY else n"
  let ?c = "if length xs > ?c0 then length xs else ?c0"
  let ?m = "mem_put (mem_alloc ?c) 0 (map Some xs)"
  have w: "mem_write (mem_alloc ?c) 0 (map Some xs) = Inr ?m"
    by (intro mem_write_ok) simp
  have h: "holds ?m 0 xs" "length ?m = ?c"
    using holds_mem_put_same [of 0 xs "mem_alloc ?c"] by simp_all
  show ?thesis
  proof (cases "xs = []")
    case True
    then show ?thesis
      by (simp add: CSafeDeque_from_def Let_def deque_inv_def elems_def)
  next
    case False
    then have "CSafeDeque_from (Some (map Some xs)) n =
        Inr \<lparr>m_capacity = ?c, m_header = 0, m_count = length xs, m_p = ?m\<rparr>"
      unfolding CSafeDeque_from_def Let_def option.case length_map w by simp
    then show ?thesis
      using deque_repI [OF h, of "length xs"] by simp
  qed
qed

lemma deque_swap_ok: "deque_swap d sd = (sd, d)"
  by (cases d; cases sd) (simp add: deque_swap_def)

section \<open>The contract of a FIFO store\<close>

text \<open>
  What the clients of a pool or a byte stream rely on: \<open>push\<close> appends where there is room,
  \<open>pop\<close> removes from the front, nothing faults.
\<close>

locale fifo_store =
  fixes vals :: "'s \<Rightarrow> 'a list"
    and good :: "'s \<Rightarrow> bool"
    and space :: "'s \<Rightarrow> nat \<Rightarrow> bool"
    and push :: "'s \<Rightarrow> 'a list \<Rightarrow> fault + 's"
    and pop :: "'s \<Rightarrow> nat \<Rightarrow> fault + ('a list \<times> 's)"
  assumes push_ok: "good s \<Longrightarrow> space s (length xs) \<Longrightarrow>
      \<exists>s'. push s xs = Inr s' \<and> good s' \<and> vals s' = vals s @ xs"
    and push_space: "good s \<Longrightarrow> space s (length xs + n) \<Longrightarrow> push s xs = Inr s' \<Longrightarrow> space s' n"
    and space_mono: "space s n \<Longrightarrow> m \<le> n \<Longrightarrow> space s m"
    and pop_ok: "good s \<Longrightarrow> n \<le> length (vals s) \<Longrightarrow>
      \<exists>s'. pop s n = Inr (take n (vals s), s') \<and> good s' \<and> vals s' = drop n (vals s)"
begin

lemma push_pop:
  assumes "good s" "vals s = []" "space s (length xs)"
  shows "\<exists>s1 s2. push s xs = Inr s1 \<and> pop s1 (length xs) = Inr (xs, s2) \<and> good s2 \<and> vals s2 = []"
proof -
  obtain s1 where s1: "push s xs = Inr s1" "good s1" "vals s1 = xs"
    using push_ok [OF assms(1,3)] assms(2) by auto
  with pop_ok [OF s1(2), of "length xs"] show ?thesis by auto
qed

text \<open>Pushing block after block and popping the blocks gives them back in order.\<close>

primrec push_blocks :: "'s \<Rightarrow> 'a list list \<Rightarrow> fault + 's" where
  "push_blocks s [] = Inr s"
| "push_blocks s (b # bs) = bindr (push s b) (\<lambda>s. push_blocks s bs)"

primrec pop_blocks :: "'s \<Rightarrow> nat list \<Rightarrow> fault + ('a list list \<times> 's)" where
  "pop_blocks s [] = Inr ([], s)"
| "pop_blocks s (n # ns) = bindr (pop s n) (\<lambda>(b, s). bindr (pop_blocks s ns) (\<lambda>(bs, s). Inr (b # bs, s)))"

lemma push_blocks_ok:
  "good s \<Longrightarrow> space s (length (concat bs)) \<Longrightarrow>
   \<exists>s'. push_blocks s bs = Inr s' \<and> good s' \<and> vals s' = vals s @ concat bs"
proof (induction bs arbitrary: s)
  case Nil
  then show ?case by simp
next
  case (Cons b bs)
  then have sp: "space s (length b + length (concat bs))" by simp
  then have "space s (length b)" by (rule space_mono) simp
  then obtain s1 where s1: "push s b = Inr s1" "good s1" "vals s1 = vals s @ b"
    using push_ok Cons.prems(1) by blast
  with Cons.IH [OF s1(2) push_space [OF Cons.prems(1) sp s1(1)]] show ?case by auto
qed

lemma pop_blocks_ok:
  "good s \<Longrightarrow> vals s = concat bs @ rest \<Longrightarrow>
   \<exists>s'. pop_blocks s (map length bs) = Inr (bs, s') \<and> good s' \<and> vals s' = rest"
proof (induction bs arbitrary: s)
  case Nil
  then show ?case by simp
next
  case (Cons b bs)
  then have "length b \<le> length (vals s)" by simp
  with pop_ok [OF Cons.prems(1) this] Cons.prems(2) obtain s1 where
    "pop s (length b) = Inr (b, s1)" "good s1" "vals s1 = concat bs @ rest"
    by auto
  with Cons.IH [of s1] show ?case by auto
qed

end

text \<open>The deque as its clients use it: whole values, the lock always acquired.\<close>

definition deque_push :: "'a deque \<Rightarrow> 'a list \<Rightarrow> fault + 'a deque" where
  "deque_push d xs = bindr (push_back True d (Some (map Some xs))) (\<lambda>(_, d). Inr d)"

definition deque_pop :: "'a deque \<Rightarrow> nat \<Rightarrow> fault + ('a list \<times> 'a deque)" where
  "deque_pop d n = bindr (pop_front True d n) (\<lambda>(cs, d). bindr (cells cs) (\<lambda>xs. Inr (xs, d)))"

lemma deque_push_ok:
  "deque_inv d \<Longrightarrow> \<exists>d'. deque_push d xs = Inr d' \<and> deque_inv d' \<and> elems d' = elems d @ xs"
  using pushback_ok [of d xs] by (auto simp: deque_push_def push_back_def)

lemma deque_pop_ok:
  "deque_inv d \<Longrightarrow> \<exists>d'. deque_pop d n = Inr (take n (elems d), d') \<and> deque_inv d' \<and> elems d' = drop n (elems d)"
  using popfront_ok [of d n] by (auto simp: deque_pop_def pop_front_def)

interpretation dq: fifo_store elems deque_inv "\<lambda>_ _. True" deque_push deque_pop
  by unfold_locales (simp_all add: deque_push_ok deque_pop_ok)

section \<open>Any sequence of calls\<close>

text \<open>
  The public calls; the flag of a call is what the spin lock answered, a call that did not get
  the lock does nothing and returns 0.
\<close>

datatype 'a dq_op =
    Dq_push_back bool "'a list"
  | Dq_push_front bool "'a list"
  | Dq_pop_front bool nat
  | Dq_pop_back bool nat
  | Dq_clear
  | Dq_shrink_to_fit

fun run_dq :: "'a deque \<Rightarrow> 'a dq_op \<Rightarrow> fault + ('a mem \<times> 'a deque)" where
  "run_dq d (Dq_push_back al xs) = bindr (push_back al d (Some (map Some xs))) (\<lambda>(_, d). Inr ([], d))"
| "run_dq d (Dq_push_front al xs) = bindr (push_front al d (Some (map Some xs))) (\<lambda>(_, d). Inr ([], d))"
| "run_dq d (Dq_pop_front al n) = pop_front al d n"
| "run_dq d (Dq_pop_back al n) = pop_back al d n"
| "run_dq d Dq_clear = Inr ([], deque_clear d)"
| "run_dq d Dq_shrink_to_fit = bindr (shrink_to_fit d) (\<lambda>d. Inr ([], d))"

fun run_dqs :: "'a deque \<Rightarrow> 'a dq_op list \<Rightarrow> fault + ('a mem list \<times> 'a deque)" where
  "run_dqs d [] = Inr ([], d)"
| "run_dqs d (c # cs) =
     bindr (run_dq d c) (\<lambda>(out, d). bindr (run_dqs d cs) (\<lambda>(outs, d). Inr (out # outs, d)))"

fun spec_dq :: "'a list \<Rightarrow> 'a dq_op \<Rightarrow> 'a list \<times> 'a list" where
  "spec_dq xs (Dq_push_back al ys) = ([], if al then xs @ ys else xs)"
| "spec_dq xs (Dq_push_front al ys) = ([], if al then ys @ xs else xs)"
| "spec_dq xs (Dq_pop_front al n) = (if al then (take n xs, drop n xs) else ([], xs))"
| "spec_dq xs (Dq_pop_back al n) =
     (if al then (drop (length xs - n) xs, take (length xs - n) xs) else ([], xs))"
| "spec_dq xs Dq_clear = ([], [])"
| "spec_dq xs Dq_shrink_to_fit = ([], xs)"

fun spec_dqs :: "'a list \<Rightarrow> 'a dq_op list \<Rightarrow> 'a list list \<times> 'a list" where
  "spec_dqs xs [] = ([], xs)"
| "spec_dqs xs (c # cs) =
     (let (out, xs) = spec_dq xs c; (outs, xs) = spec_dqs xs cs in (out # outs, xs))"

lemma run_dq_ok:
  assumes "deque_inv d"
  shows "\<exists>d'. run_dq d c = Inr (map Some (fst (spec_dq (elems d) c)), d') \<and> deque_inv d' \<and>
    elems d' = snd (spec_dq (elems d) c)"
proof (cases c)
  case (Dq_push_back al ys)
  with pushback_ok [OF assms, of ys] assms show ?thesis
    by (cases al) (auto simp: push_back_def)
next
  case (Dq_push_front al ys)
  with pushfront_ok [OF assms, of ys] assms show ?thesis
    by (cases al) (auto simp: push_front_def)
next
  case (Dq_pop_front al n)
  with popfront_ok [OF assms, of n] assms show ?thesis
    by (cases al; cases "n = 0") (auto simp: pop_front_def)
next
  case (Dq_pop_back al n)
  with popback_ok [OF assms, of n] deque_invD(4) [OF assms] assms show ?thesis
    by (cases al; cases "n = 0") (auto simp: pop_back_def)
next
  case Dq_clear
  with deque_clear_ok [OF assms] show ?thesis by simp
next
  case Dq_shrink_to_fit
  with shrink_to_fit_ok [OF assms] show ?thesis by auto
qed

lemma run_dqs_ok:
  "deque_inv d \<Longrightarrow> \<exists>d'. run_dqs d cs = Inr (map (map Some) (fst (spec_dqs (elems d) cs)), d') \<and>
     deque_inv d' \<and> elems d' = snd (spec_dqs (elems d) cs)"
proof (induction cs arbitrary: d)
  case Nil
  then show ?case by simp
next
  case (Cons c cs)
  obtain d1 where d1: "run_dq d c = Inr (map Some (fst (spec_dq (elems d) c)), d1)" "deque_inv d1"
    "elems d1 = snd (spec_dq (elems d) c)"
    using run_dq_ok [OF Cons.prems] by blast
  from Cons.IH [OF d1(2)] d1 show ?case
    by (auto simp: case_prod_beta Let_def)
qed

section \<open>Properties\<close>

text \<open>
  C36: Any sequence of calls on a fresh deque, whichever of them get the spin lock, stays inside
  its heap blocks, never reads a cell that was not written, and behaves like a list with both
  ends: what comes out and what remains are those of the list operations.
\<close>

theorem deque_refines_list:
  "\<exists>d. run_dqs (CSafeDeque_new capacity) cs = Inr (map (map Some) (fst (spec_dqs [] cs)), d) \<and>
     deque_inv d \<and> elems d = snd (spec_dqs [] cs)"
  using run_dqs_ok [OF deque_new_ok(1)] by (simp add: deque_new_ok)

text \<open>
  The spin lock: with a budget of n cycles (at least one attempt is made) a thread gets the
  lock exactly if it finds it free at one of its first max 1 n attempts, gives up exactly
  after max 1 n attempts that found it taken, and otherwise is still trying.
\<close>

theorem spin_lock_attempts:
  "spin (replicate k True @ False # obs) n = (if k < max 1 n then Some True else Some False) \<and>
   spin (replicate k True) n = (if k < max 1 n then None else Some False)"
proof -
  have "takeWhile (\<lambda>b. b) (replicate k True @ False # obs) = replicate k True"
    by (induction k) auto
  then show ?thesis
    by (simp add: spin_char Let_def max_def)
qed

text \<open>
  Blocks of elements that are pushed one after another on a deque come out of it in the
  order in which they went in, each block whole.
\<close>

theorem deque_fifo_blocks:
  assumes "deque_inv d" and "elems d = []"
  shows "\<exists>d1 d2. dq.push_blocks d bs = Inr d1 \<and> dq.pop_blocks d1 (map length bs) = Inr (bs, d2) \<and>
    elems d2 = []"
proof -
  obtain d1 where "dq.push_blocks d bs = Inr d1" "deque_inv d1" "elems d1 = concat bs"
    using dq.push_blocks_ok [OF assms(1)] assms(2) by auto
  with dq.pop_blocks_ok [of d1 bs "[]"] show ?thesis by auto
qed

theorem deque_fifo_blocks_witness:
  "\<exists>d1 d2. dq.push_blocks (CSafeDeque_new 2) [''ab'', ''cde''] = Inr d1 \<and>
     dq.pop_blocks d1 (map length [''ab'', ''cde'']) = Inr ([''ab'', ''cde''], d2) \<and> elems d2 = []"
  by (rule deque_fifo_blocks [OF deque_new_ok])

end
