(* ===== verification/Serialize.thy ===== *)
theory Serialize
  imports Membuffer Safequeue
begin

text \<open>
  The stream operators of \<^verbatim>\<open>CUQueue\<close> (\<^verbatim>\<open>operator<<\<close> and
  \<^verbatim>\<open>operator>>\<close> in \<^verbatim>\<open>include/membuffer.h\<close>): the wire format of SocketPro.

  \<^item> A primitive of \<open>n\<close> bytes is its little-endian byte image; strings, UTF-16 strings,
    vectors and nested buffers carry a 32-bit length ahead, \<open>UQUEUE_NULL_LENGTH\<close> for a null
    pointer.
  \<^item> The locale \<open>wire_codec\<close> (and \<open>wire_format\<close>, for readers that depend on settings of the buffer
    and may have other faults on hostile bytes) states what a pair of operators promises (append the image,
    read it back, raise nothing but \<^verbatim>\<open>MB_BAD_DESERIALIZATION\<close> on hostile bytes). Every
    pair is an interpretation, and messages of mixed fields are verified from the contract.
\<close>

section \<open>Byte images of primitives\<close>

fun le_bytes :: "nat \<Rightarrow> nat \<Rightarrow> byte list" where
  "le_bytes 0 v = []"
| "le_bytes (Suc n) v = word_of_nat v # le_bytes n (v div 256)"

fun le_value :: "byte list \<Rightarrow> nat" where
  "le_value [] = 0"
| "le_value (b # bs) = unat b + 256 * le_value bs"

lemma length_le_bytes [simp]: "length (le_bytes n v) = n"
  by (induction n arbitrary: v) auto

lemma unat_byte_of_nat: "unat (word_of_nat v :: byte) = v mod 256"
  by (simp add: unat_of_nat)

lemma le_value_le_bytes: "v < 256 ^ n \<Longrightarrow> le_value (le_bytes n v) = v"
proof (induction n arbitrary: v)
  case 0
  then show ?case by simp
next
  case (Suc n)
  then have "v div 256 < 256 ^ n"
    by (simp add: less_mult_imp_div_less mult.commute)
  then show ?case
    using Suc.IH by (simp add: unat_byte_of_nat)
qed

lemma le_value_bound: "le_value bs < 256 ^ length bs"
proof (induction bs)
  case (Cons b bs)
  have "unat b < 256" using unsigned_less [of b] by simp
  with Cons show ?case by simp
qed simp

lemma le_bytes_le_value: "le_bytes (length bs) (le_value bs) = bs"
proof (induction bs)
  case (Cons b bs)
  have "unat b < 256" using unsigned_less [of b] by simp
  moreover have "word_of_nat (unat b + 256 * le_value bs) = b"
    by (simp add: word_unat_eq_iff unat_byte_of_nat \<open>unat b < 256\<close> del: of_nat_add of_nat_mult)
  ultimately show ?case using Cons by simp
qed simp

text \<open>
  The image of a vector of \<open>k\<close>-byte elements, and how a byte image is read as elements.
\<close>

definition vec_bytes :: "nat \<Rightarrow> nat list \<Rightarrow> byte list" where
  "vec_bytes k vs = concat (map (le_bytes k) vs)"

fun vec_elems :: "nat \<Rightarrow> nat \<Rightarrow> byte list \<Rightarrow> nat list" where
  "vec_elems k 0 bs = []"
| "vec_elems k (Suc n) bs = le_value (take k bs) # vec_elems k n (drop k bs)"

lemma vec_bytes_Nil [simp]: "vec_bytes k [] = []"
  by (simp add: vec_bytes_def)

lemma length_vec_bytes [simp]: "length (vec_bytes k vs) = length vs * k"
  by (induction vs) (simp_all add: vec_bytes_def)

lemma length_vec_elems [simp]: "length (vec_elems k n bs) = n"
  by (induction n arbitrary: bs) auto

lemma vec_elems_bytes: "list_all (\<lambda>v. v < 256 ^ k) vs \<Longrightarrow> vec_elems k (length vs) (vec_bytes k vs) = vs"
  by (induction vs) (simp_all add: vec_bytes_def le_value_le_bytes)

section \<open>The stream operators\<close>

text \<open>\<^verbatim>\<open>operator<<(const PrimitiveType &)\<close> and \<^verbatim>\<open>operator>>(PrimitiveType &)\<close>.\<close>

definition put_pod :: "nat \<Rightarrow> uqueue \<Rightarrow> nat \<Rightarrow> fault + uqueue" where
  "put_pod n q v = Push q (Some (map Some (le_bytes n v)))"

definition pop_bytes :: "uqueue \<Rightarrow> nat \<Rightarrow> fault + (byte list \<times> uqueue)" where
  "pop_bytes q n = bindr (Pop_read q n 0) (\<lambda>(cs, q). bindr (cells cs) (\<lambda>bs. Inr (bs, q)))"

definition get_pod :: "nat \<Rightarrow> uqueue \<Rightarrow> fault + (nat \<times> uqueue)" where
  "get_pod n q = bindr (pop_bytes q n) (\<lambda>(bs, q). Inr (le_value bs, q))"

text \<open>
  \<^verbatim>\<open>Insert(const char *str, chars, position)\<close>: \<open>None\<close> for a null pointer, otherwise the
  characters up to the terminating null.
\<close>

definition Insert_chars :: "uqueue \<Rightarrow> byte list option \<Rightarrow> nat \<Rightarrow> nat \<Rightarrow> fault + uqueue" where
  "Insert_chars q str chars position =
     (case str of None \<Rightarrow> Inr q
      | Some s \<Rightarrow>
        let chars = (if chars = UQUEUE_NULL_LENGTH then length (takeWhile (\<lambda>c. c \<noteq> 0) s) else chars) in
        bindr (mem_read (map Some s) 0 chars) (\<lambda>buf. Insert q (Some buf) position))"

text \<open>\<^verbatim>\<open>operator<<(const char *)\<close>: the argument is the text before the null character.\<close>

definition put_cstr :: "uqueue \<Rightarrow> byte list option \<Rightarrow> fault + uqueue" where
  "put_cstr q str =
     (let sz = (case str of None \<Rightarrow> UQUEUE_NULL_LENGTH | Some s \<Rightarrow> length s mod 4294967296) in
      bindr (put_pod 4 q sz) (\<lambda>q.
      if str \<noteq> None \<and> sz \<noteq> 0 then Insert_chars q str sz UQUEUE_END_POSTION else Inr q))"

definition put_string :: "uqueue \<Rightarrow> byte list \<Rightarrow> fault + uqueue" where
  "put_string q str =
     (let sz = length str mod 4294967296 in
      bindr (put_pod 4 q sz) (\<lambda>q.
      if sz \<noteq> 0 then Insert_chars q (Some str) sz UQUEUE_END_POSTION else Inr q))"

definition get_string :: "uqueue \<Rightarrow> fault + (byte list \<times> uqueue)" where
  "get_string q =
     bindr (get_pod 4 q) (\<lambda>(sz, q).
     if sz = UQUEUE_NULL_LENGTH \<or> sz = 0 then Inr ([], q)
     else if sz > m_nSize q then Inl MB_BAD_DESERIALIZATION
     else bindr (mem_read (m_pBuffer q) (GetBuffer q 0) sz) (\<lambda>cs.
          bindr (cells cs) (\<lambda>str.
          bindr (Pop_discard q sz 0) (\<lambda>(_, q). Inr (str, q)))))"

text \<open>\<^verbatim>\<open>operator<<(const std::u16string &)\<close>: a string of 16-bit units, the length in bytes.\<close>

definition put_u16string :: "uqueue \<Rightarrow> nat list \<Rightarrow> fault + uqueue" where
  "put_u16string q str =
     (let sz = mul32 (length str mod 4294967296) 2 in
      bindr (put_pod 4 q sz) (\<lambda>q.
      if sz \<noteq> 0
      then bindr (mem_read (map Some (vec_bytes 2 str)) 0 sz) (\<lambda>buf. Push q (Some buf))
      else Inr q))"

definition get_u16string :: "uqueue \<Rightarrow> fault + (nat list \<times> uqueue)" where
  "get_u16string q =
     bindr (get_pod 4 q) (\<lambda>(sz, q).
     if sz = UQUEUE_NULL_LENGTH \<or> sz = 0 then Inr ([], q)
     else if sz > m_nSize q then Inl MB_BAD_DESERIALIZATION
     else bindr (mem_read (m_pBuffer q) (GetBuffer q 0) (2 * (sz div 2))) (\<lambda>cs.
          bindr (cells cs) (\<lambda>bs.
          bindr (Pop_discard q sz 0) (\<lambda>(_, q). Inr (vec_elems 2 (sz div 2) bs, q)))))"

text \<open>\<^verbatim>\<open>operator<<(const CUQueue &mc)\<close> and \<^verbatim>\<open>operator>>(CUQueue &mc)\<close>, which appends to \<open>mc\<close>.\<close>

definition put_queue :: "uqueue \<Rightarrow> uqueue \<Rightarrow> fault + uqueue" where
  "put_queue q mc =
     (let sz = m_nSize mc in
      bindr (put_pod 4 q sz) (\<lambda>q.
      bindr (mem_read (m_pBuffer mc) (GetBuffer mc 0) sz) (\<lambda>buf. Push q (Some buf))))"

definition get_queue :: "uqueue \<Rightarrow> uqueue \<Rightarrow> fault + (uqueue \<times> uqueue)" where
  "get_queue mc q =
     bindr (get_pod 4 q) (\<lambda>(sz, q).
     if sz \<noteq> UQUEUE_NULL_LENGTH \<and> sz \<noteq> 0
     then if sz > m_nSize q then Inl MB_BAD_DESERIALIZATION
          else bindr (mem_read (m_pBuffer q) (GetBuffer q 0) sz) (\<lambda>buf.
               bindr (Push mc (Some buf)) (\<lambda>mc.
               bindr (Pop_discard q sz 0) (\<lambda>(_, q). Inr (mc, q))))
     else Inr (mc, q))"

text \<open>
  \<^verbatim>\<open>operator<<(const std::vector<PrimitiveType> &)\<close> and its reader, for elements of \<open>k\<close>
  bytes. The reader resizes the vector (new elements are zero) and then copies \<open>bytes\<close> bytes,
  a 32-bit product, over its storage.
\<close>

definition put_vector :: "nat \<Rightarrow> uqueue \<Rightarrow> nat list \<Rightarrow> fault + uqueue" where
  "put_vector k q data =
     (let count = length data mod 4294967296 in
      bindr (put_pod 4 q count) (\<lambda>q.
      if count \<noteq> 0
      then bindr (mem_read (map Some (vec_bytes k data)) 0 (mul32 count k)) (\<lambda>buf. Push q (Some buf))
      else Inr q))"

definition get_vector :: "nat \<Rightarrow> uqueue \<Rightarrow> fault + (nat list \<times> uqueue)" where
  "get_vector k q =
     bindr (get_pod 4 q) (\<lambda>(count, q).
     if count \<noteq> 0
     then let bytes = mul32 count k in
          if bytes > m_nSize q then Inl MB_BAD_DESERIALIZATION
          else bindr (pop_bytes q bytes) (\<lambda>(bs, q).
               bindr (mem_write (replicate (count * k) 0) 0 bs) (\<lambda>storage.
               Inr (vec_elems k count storage, q)))
     else Inr ([], q))"

section \<open>The operators on the abstract value\<close>

lemma room_mono: "room q n \<Longrightarrow> m \<le> n \<Longrightarrow> room q m"
  by (simp add: room_def)

lemma room_after:
  assumes "room q (n + m)" and "uq_inv q" and "uq_inv q'" and "same_settings q q'"
    and "length (content q') = length (content q) + n"
  shows "room q' m"
  using assms uq_invD(1) [OF assms(2)] uq_invD(1) [OF assms(3)]
  by (simp add: room_def same_settings_def)

lemma put_pod_ok:
  assumes "uq_inv q" and "room q n"
  shows "\<exists>q'. put_pod n q v = Inr q' \<and> uq_inv q' \<and> same_settings q q' \<and>
    content q' = content q @ le_bytes n v"
  using Push_ok [OF assms(1), of "le_bytes n v"] assms(2) by (simp add: put_pod_def)

lemma pop_bytes_ok:
  assumes "uq_inv q" and "content q = bs @ rest"
  shows "\<exists>q'. pop_bytes q (length bs) = Inr (bs, q') \<and> uq_inv q' \<and> same_settings q q' \<and> content q' = rest"
proof -
  have "length bs + 0 \<le> m_nSize q"
    using uq_invD(1) [OF assms(1)] assms(2) by simp
  from Pop_read_ok [OF assms(1) this] show ?thesis
    using assms(2) by (auto simp: pop_bytes_def)
qed

text \<open>What any read does, on any bytes: enough bytes and a value, or the deserialisation error.\<close>

lemma pop_bytes_cases:
  assumes "uq_inv q" and "n \<le> max32"
  shows "(\<exists>bs q'. pop_bytes q n = Inr (bs, q') \<and> length bs = n \<and> uq_inv q' \<and> same_settings q q' \<and>
      content q = bs @ content q') \<or>
    (pop_bytes q n = Inl MB_BAD_DESERIALIZATION \<and> m_nSize q < n)"
proof (cases "n \<le> m_nSize q")
  case True
  then have "content q = take n (content q) @ drop n (content q)" "length (take n (content q)) = n"
    using uq_invD(1) [OF assms(1)] by simp_all
  with pop_bytes_ok [OF assms(1) this(1)] show ?thesis by force
next
  case False
  with assms(2) show ?thesis by (simp add: pop_bytes_def Pop_read_short)
qed

lemma get_pod_ok:
  assumes "uq_inv q" and "v < 256 ^ n" and "content q = le_bytes n v @ rest"
  shows "\<exists>q'. get_pod n q = Inr (v, q') \<and> uq_inv q' \<and> same_settings q q' \<and> content q' = rest"
  using pop_bytes_ok [OF assms(1,3)] assms(2) by (auto simp: get_pod_def le_value_le_bytes)

lemma get_pod_cases:
  assumes "uq_inv q" and "n \<le> max32"
  shows "(\<exists>v q'. get_pod n q = Inr (v, q') \<and> v < 256 ^ n \<and> uq_inv q' \<and> same_settings q q' \<and>
      content q = le_bytes n v @ content q') \<or>
    (get_pod n q = Inl MB_BAD_DESERIALIZATION \<and> m_nSize q < n)"
  using pop_bytes_cases [OF assms]
  by (auto simp: get_pod_def le_bytes_le_value intro!: le_value_bound)

lemma take_front_ok:
  assumes "uq_inv q" and "content q = bs @ rest"
  shows "mem_read (m_pBuffer q) (GetBuffer q 0) (length bs) = Inr (map Some bs)"
    and "\<exists>k q'. Pop_discard q (length bs) 0 = Inr (k, q') \<and> uq_inv q' \<and> same_settings q q' \<and> content q' = rest"
proof -
  have "holds (m_pBuffer q) (m_nHeadPos q) bs"
    using uq_invD(8) [OF assms(1)] assms(2) by (simp add: holds_append)
  then show "mem_read (m_pBuffer q) (GetBuffer q 0) (length bs) = Inr (map Some bs)"
    by (simp add: GetBuffer_def holds_read)
  show "\<exists>k q'. Pop_discard q (length bs) 0 = Inr (k, q') \<and> uq_inv q' \<and> same_settings q q' \<and> content q' = rest"
    using Pop_discard_ok [OF assms(1), of "length bs" 0] assms(2) by auto
qed

lemma split_content:
  assumes "uq_inv q" and "n \<le> m_nSize q"
  obtains bs where "content q = bs @ drop n (content q)" "length bs = n"
  using assms uq_invD(1) [OF assms(1)] by (metis append_take_drop_id length_take min.absorb2)

section \<open>The contract of a pair of operators\<close>

locale wire_format =
  fixes put :: "uqueue \<Rightarrow> 'v \<Rightarrow> fault + uqueue"
    and get :: "uqueue \<Rightarrow> fault + ('v \<times> uqueue)"
    and wire :: "'v \<Rightarrow> byte list"
    and valid :: "'v \<Rightarrow> bool"
    and mode :: "uqueue \<Rightarrow> bool"
  assumes put_ok: "uq_inv q \<Longrightarrow> valid v \<Longrightarrow> room q (length (wire v)) \<Longrightarrow>
      \<exists>q'. put q v = Inr q' \<and> uq_inv q' \<and> same_settings q q' \<and> content q' = content q @ wire v"
    and get_ok: "uq_inv q \<Longrightarrow> mode q \<Longrightarrow> valid v \<Longrightarrow> content q = wire v @ rest \<Longrightarrow>
      \<exists>q'. get q = Inr (v, q') \<and> uq_inv q' \<and> same_settings q q' \<and> content q' = rest"
    and get_inv: "uq_inv q \<Longrightarrow> get q = Inr (v, q') \<Longrightarrow>
      uq_inv q' \<and> same_settings q q' \<and> (\<exists>used. content q = used @ content q')"
    and mode_settings: "same_settings q q' \<Longrightarrow> mode q \<Longrightarrow> mode q'"
begin

lemma put_then_get:
  assumes "uq_inv q" and "mode q" and "valid v" and "content q = []" and "room q (length (wire v))"
  shows "\<exists>q' q''. put q v = Inr q' \<and> get q' = Inr (v, q'') \<and> uq_inv q'' \<and> content q'' = []"
proof -
  obtain q' where q': "put q v = Inr q'" "uq_inv q'" "same_settings q q'" "content q' = wire v"
    using put_ok [OF assms(1,3,5)] assms(4) by auto
  then show ?thesis using get_ok [of q' v "[]"] mode_settings [OF q'(3) assms(2)] assms(3) by auto
qed

end

text \<open>A codec whose reader, on arbitrary bytes, has no fault but the deserialisation error.\<close>

locale wire_codec = wire_format put get wire valid "\<lambda>_. True"
  for put :: "uqueue \<Rightarrow> 'v \<Rightarrow> fault + uqueue"
    and get :: "uqueue \<Rightarrow> fault + ('v \<times> uqueue)" and wire valid +
  assumes get_safe: "uq_inv q \<Longrightarrow> get q = Inl e \<Longrightarrow> e = MB_BAD_DESERIALIZATION"
begin

lemma get_total:
  assumes "uq_inv q"
  shows "(\<exists>v q' used. get q = Inr (v, q') \<and> uq_inv q' \<and> content q = used @ content q') \<or>
    get q = Inl MB_BAD_DESERIALIZATION"
proof (cases "get q")
  case (Inl e)
  with get_safe [OF assms] show ?thesis by auto
next
  case (Inr p)
  obtain v q' where "p = (v, q')" by (cases p)
  with Inr show ?thesis using get_inv [OF assms, of v q'] by auto
qed

end

lemma wire_codec_pod:
  assumes "n \<le> max32"
  shows "wire_codec (put_pod n) (get_pod n) (le_bytes n) (\<lambda>v. v < 256 ^ n)"
proof
  fix q e assume "uq_inv q" and "get_pod n q = Inl e"
  then show "e = MB_BAD_DESERIALIZATION"
    using get_pod_cases [OF _ assms, of q] by auto
next
  fix q v q' assume "uq_inv q" and "get_pod n q = Inr (v, q')"
  then show "uq_inv q' \<and> same_settings q q' \<and> (\<exists>used. content q = used @ content q')"
    using get_pod_cases [OF _ assms, of q] by auto
next
  fix q v assume "uq_inv q" and "room q (length (le_bytes n v))"
  then show "\<exists>q'. put_pod n q v = Inr q' \<and> uq_inv q' \<and> same_settings q q' \<and> content q' = content q @ le_bytes n v"
    using put_pod_ok [of q n v] by simp
next
  fix q v rest assume "uq_inv q" "v < 256 ^ n" "content q = le_bytes n v @ rest"
  then show "\<exists>q'. get_pod n q = Inr (v, q') \<and> uq_inv q' \<and> same_settings q q' \<and> content q' = rest"
    by (rule get_pod_ok)
qed

interpretation pod1: wire_codec "put_pod 1" "get_pod 1" "le_bytes 1" "\<lambda>v. v < 256 ^ 1"
  by (rule wire_codec_pod) (simp add: max32_def)

interpretation pod2: wire_codec "put_pod 2" "get_pod 2" "le_bytes 2" "\<lambda>v. v < 256 ^ 2"
  by (rule wire_codec_pod) (simp add: max32_def)

interpretation pod4: wire_codec "put_pod 4" "get_pod 4" "le_bytes 4" "\<lambda>v. v < 256 ^ 4"
  by (rule wire_codec_pod) (simp add: max32_def)

interpretation pod8: wire_codec "put_pod 8" "get_pod 8" "le_bytes 8" "\<lambda>v. v < 256 ^ 8"
  by (rule wire_codec_pod) (simp add: max32_def)

text \<open>Strings: the length ahead, then the characters.\<close>

definition lwire :: "byte list \<Rightarrow> byte list" where
  "lwire bs = le_bytes 4 (length bs) @ bs"

lemma length_lwire [simp]: "length (lwire bs) = 4 + length bs"
  by (simp add: lwire_def)

lemma lwire_Nil [simp]: "lwire [] = le_bytes 4 0"
  by (simp add: lwire_def)

lemma room_len32: "room q (4 + n) \<Longrightarrow> n mod 4294967296 = n \<and> n < UQUEUE_NULL_LENGTH \<and> n < 256 ^ 4"
  by (simp add: room_def max32_def UQUEUE_NULL_LENGTH_def)

text \<open>Length ahead and then bytes, shared by all the operators that write a length.\<close>

lemma put_len_push_ok:
  assumes "uq_inv q" and "room q (4 + length bs)"
  shows "\<exists>q1. put_pod 4 q (length bs) = Inr q1 \<and> uq_inv q1 \<and> same_settings q q1 \<and>
    content q1 = content q @ le_bytes 4 (length bs) \<and> room q1 (length bs) \<and>
    (\<exists>q2. Push q1 (Some (map Some bs)) = Inr q2 \<and> uq_inv q2 \<and> same_settings q q2 \<and>
      content q2 = content q @ lwire bs)"
proof -
  obtain q1 where q1: "put_pod 4 q (length bs) = Inr q1" "uq_inv q1" "same_settings q q1"
    "content q1 = content q @ le_bytes 4 (length bs)"
    using put_pod_ok [of q 4 "length bs"] room_mono [OF assms(2), of 4] assms(1) by auto
  moreover have "room q1 (length bs)"
    using room_after [OF assms(2) assms(1) q1(2,3)] q1(4) by simp
  ultimately show ?thesis
    using Push_ok [OF q1(2), of bs] by (auto simp: lwire_def intro: same_settings_trans)
qed

lemma get_len_ok:
  assumes "uq_inv q" and "content q = lwire bs @ rest" and "length bs < UQUEUE_NULL_LENGTH"
  shows "\<exists>q1. get_pod 4 q = Inr (length bs, q1) \<and> uq_inv q1 \<and> same_settings q q1 \<and>
    content q1 = bs @ rest \<and> length bs \<le> m_nSize q1"
proof -
  have "length bs < 256 ^ 4"
    using assms(3) by (simp add: UQUEUE_NULL_LENGTH_def max32_def)
  moreover have "content q = le_bytes 4 (length bs) @ bs @ rest"
    using assms(2) by (simp add: lwire_def)
  ultimately obtain q1 where "get_pod 4 q = Inr (length bs, q1)" "uq_inv q1" "same_settings q q1"
    "content q1 = bs @ rest"
    using get_pod_ok [OF assms(1)] by blast
  moreover from this have "length bs \<le> m_nSize q1"
    using uq_invD(1) [of q1] by simp
  ultimately show ?thesis by blast
qed

lemma Insert_chars_push: "n = length s \<Longrightarrow> n \<noteq> UQUEUE_NULL_LENGTH \<Longrightarrow>
    Insert_chars q (Some s) n UQUEUE_END_POSTION = Push q (Some (map Some s))"
  by (simp add: Insert_chars_def Push_def mem_read_def)

lemma put_string_ok:
  assumes "uq_inv q" and "room q (length (lwire s))"
  shows "\<exists>q'. put_string q s = Inr q' \<and> uq_inv q' \<and> same_settings q q' \<and> content q' = content q @ lwire s"
proof -
  have r: "room q (4 + length s)" using assms(2) by simp
  note n = room_len32 [OF r]
  have "Insert_chars q1 (Some s) (length s) UQUEUE_END_POSTION = Push q1 (Some (map Some s))" for q1
    using n by (intro Insert_chars_push) auto
  then show ?thesis
    using put_len_push_ok [OF assms(1) r] n by (auto simp: put_string_def)
qed

lemma get_string_ok:
  assumes "uq_inv q" and "length s < UQUEUE_NULL_LENGTH" and "content q = lwire s @ rest"
  shows "\<exists>q'. get_string q = Inr (s, q') \<and> uq_inv q' \<and> same_settings q q' \<and> content q' = rest"
proof -
  obtain q1 where q1: "get_pod 4 q = Inr (length s, q1)" "uq_inv q1" "same_settings q q1"
    "content q1 = s @ rest" "length s \<le> m_nSize q1"
    using get_len_ok [OF assms(1,3,2)] by auto
  with take_front_ok [OF q1(2,4)] assms(2) show ?thesis
    by (auto simp: get_string_def intro: same_settings_trans)
qed

text \<open>
  Hostile bytes: a length is read, then either the whole announced run is there and removed,
  or the reader raises the deserialisation error.
\<close>

lemma get_len_cases:
  assumes "uq_inv q"
  shows "(\<exists>v q1. get_pod 4 q = Inr (v, q1) \<and> v \<le> max32 \<and> uq_inv q1 \<and> same_settings q q1 \<and>
      (\<exists>used. content q = used @ content q1)) \<or> get_pod 4 q = Inl MB_BAD_DESERIALIZATION"
  using get_pod_cases [OF assms, of 4] by (force simp: max32_def)

lemma take_front_cases:
  assumes "uq_inv q" and "n \<le> m_nSize q"
  obtains bs k q' where "length bs = n" "mem_read (m_pBuffer q) (GetBuffer q 0) n = Inr (map Some bs)"
    "Pop_discard q n 0 = Inr (k, q')" "uq_inv q'" "same_settings q q'" "content q = bs @ content q'"
proof -
  obtain bs where "content q = bs @ drop n (content q)" and l: "length bs = n"
    using split_content [OF assms] .
  then obtain rest where c: "content q = bs @ rest" by blast
  from take_front_ok [OF assms(1) c] c l that show thesis by auto
qed

lemma get_string_cases:
  assumes "uq_inv q"
  shows "(\<exists>s q'. get_string q = Inr (s, q') \<and> uq_inv q' \<and> same_settings q q' \<and>
      (\<exists>used. content q = used @ content q')) \<or> get_string q = Inl MB_BAD_DESERIALIZATION"
proof (cases "get_pod 4 q = Inl MB_BAD_DESERIALIZATION")
  case True
  then show ?thesis by (simp add: get_string_def)
next
  case False
  then obtain v q1 used where q1: "get_pod 4 q = Inr (v, q1)" "uq_inv q1" "same_settings q q1"
    "content q = used @ content q1"
    using get_len_cases [OF assms] by auto
  show ?thesis
  proof (cases "v = UQUEUE_NULL_LENGTH \<or> v = 0 \<or> v > m_nSize q1")
    case True
    with q1 show ?thesis by (auto simp: get_string_def)
  next
    case False
    then have "v \<le> m_nSize q1" by simp
    then obtain bs k q' where c: "mem_read (m_pBuffer q1) (GetBuffer q1 0) v = Inr (map Some bs)"
      "Pop_discard q1 v 0 = Inr (k, q')" "uq_inv q'" "same_settings q1 q'" "content q1 = bs @ content q'"
      using take_front_cases [OF q1(2)] by metis
    with q1 False have "get_string q = Inr (bs, q')"
      by (simp add: get_string_def)
    moreover have "content q = (used @ bs) @ content q'"
      using q1(4) c(5) by simp
    ultimately show ?thesis
      using c(3) same_settings_trans [OF q1(3) c(4)] by blast
  qed
qed

lemma wire_codec_cases:
  assumes "\<And>q. uq_inv q \<Longrightarrow> (\<exists>v q'. get q = Inr (v, q') \<and> uq_inv q' \<and> same_settings q q' \<and>
      (\<exists>used. content q = used @ content q')) \<or> get q = Inl MB_BAD_DESERIALIZATION"
    and "\<And>q v. uq_inv q \<Longrightarrow> valid v \<Longrightarrow> room q (length (wire v)) \<Longrightarrow>
      \<exists>q'. put q v = Inr q' \<and> uq_inv q' \<and> same_settings q q' \<and> content q' = content q @ wire v"
    and "\<And>q v rest. uq_inv q \<Longrightarrow> valid v \<Longrightarrow> content q = wire v @ rest \<Longrightarrow>
      \<exists>q'. get q = Inr (v, q') \<and> uq_inv q' \<and> same_settings q q' \<and> content q' = rest"
  shows "wire_codec put get wire valid"
proof (unfold_locales, goal_cases)
  case (1 q v) then show ?case by (intro assms(2))
next
  case (2 q v rest) then show ?case by (intro assms(3))
next
  case (3 q v q') with assms(1) [of q] show ?case by auto
next
  case (5 q e) with assms(1) [of q] show ?case by auto
qed auto

interpretation str: wire_codec put_string get_string lwire "\<lambda>s. length s < UQUEUE_NULL_LENGTH"
  by (rule wire_codec_cases) (simp_all only: get_string_cases put_string_ok get_string_ok)

text \<open>UTF-16 strings: units of two bytes, the length counted in bytes.\<close>

lemma put_u16string_ok:
  assumes "uq_inv q" and "room q (length (lwire (vec_bytes 2 s)))"
  shows "\<exists>q'. put_u16string q s = Inr q' \<and> uq_inv q' \<and> same_settings q q' \<and>
    content q' = content q @ lwire (vec_bytes 2 s)"
proof -
  have r: "room q (4 + length (vec_bytes 2 s))" using assms(2) by simp
  have sz: "mul32 (length s mod 4294967296) 2 = length (vec_bytes 2 s)"
    using room_len32 [OF r] by (simp add: mul32_exact UQUEUE_NULL_LENGTH_def max32_def)
  have "mem_read (map Some (vec_bytes 2 s)) 0 (length (vec_bytes 2 s)) = Inr (map Some (vec_bytes 2 s))"
    by (simp add: mem_read_def)
  then show ?thesis
    using put_len_push_ok [OF assms(1) r] by (auto simp: put_u16string_def sz simp del: length_vec_bytes)
qed

lemma get_u16string_ok:
  assumes "uq_inv q" and "list_all (\<lambda>c. c < 256 ^ 2) s \<and> 2 * length s < UQUEUE_NULL_LENGTH"
    and "content q = lwire (vec_bytes 2 s) @ rest"
  shows "\<exists>q'. get_u16string q = Inr (s, q') \<and> uq_inv q' \<and> same_settings q q' \<and> content q' = rest"
proof -
  have l: "length (vec_bytes 2 s) = 2 * length s" by simp
  obtain q1 where q1: "get_pod 4 q = Inr (2 * length s, q1)" "uq_inv q1" "same_settings q q1"
    "content q1 = vec_bytes 2 s @ rest" "2 * length s \<le> m_nSize q1"
    using get_len_ok [OF assms(1,3)] assms(2) unfolding l by auto
  have v: "vec_elems 2 (length s) (vec_bytes 2 s) = s"
    using vec_elems_bytes assms(2) by blast
  show ?thesis
    using take_front_ok [OF q1(2,4)] q1 assms(2) v
    unfolding l by (auto simp: get_u16string_def intro: same_settings_trans)
qed

lemma get_u16string_cases:
  assumes "uq_inv q"
  shows "(\<exists>s q'. get_u16string q = Inr (s, q') \<and> uq_inv q' \<and> same_settings q q' \<and>
      (\<exists>used. content q = used @ content q')) \<or> get_u16string q = Inl MB_BAD_DESERIALIZATION"
proof (cases "get_pod 4 q = Inl MB_BAD_DESERIALIZATION")
  case True
  then show ?thesis by (simp add: get_u16string_def)
next
  case False
  then obtain v q1 used where q1: "get_pod 4 q = Inr (v, q1)" "uq_inv q1" "same_settings q q1"
    "content q = used @ content q1"
    using get_len_cases [OF assms] by auto
  show ?thesis
  proof (cases "v = UQUEUE_NULL_LENGTH \<or> v = 0 \<or> v > m_nSize q1")
    case True
    with q1 show ?thesis by (auto simp: get_u16string_def)
  next
    case False
    then have v: "v \<le> m_nSize q1" by simp
    then obtain bs k q' where c: "Pop_discard q1 v 0 = Inr (k, q')" "uq_inv q'" "same_settings q1 q'"
      "content q1 = bs @ content q'"
      using take_front_cases [OF q1(2)] by metis
    have "2 * (v div 2) \<le> m_nSize q1" using v by simp
    then obtain cs where "mem_read (m_pBuffer q1) (GetBuffer q1 0) (2 * (v div 2)) = Inr (map Some cs)"
      using take_front_cases [OF q1(2)] by metis
    with q1 False c have "\<exists>s. get_u16string q = Inr (s, q')"
      by (auto simp: get_u16string_def)
    moreover have "content q = (used @ bs) @ content q'"
      using q1(4) c(4) by simp
    ultimately show ?thesis
      using c(2) same_settings_trans [OF q1(3) c(3)] by blast
  qed
qed

interpretation u16str: wire_codec put_u16string get_u16string "\<lambda>s. lwire (vec_bytes 2 s)"
    "\<lambda>s. list_all (\<lambda>c. c < 256 ^ 2) s \<and> 2 * length s < UQUEUE_NULL_LENGTH"
  by (rule wire_codec_cases) (simp_all only: get_u16string_cases put_u16string_ok get_u16string_ok)

text \<open>Vectors: the number of elements, then their images.\<close>

definition vwire :: "nat \<Rightarrow> nat list \<Rightarrow> byte list" where
  "vwire k vs = le_bytes 4 (length vs) @ vec_bytes k vs"

definition vec_valid :: "nat \<Rightarrow> nat list \<Rightarrow> bool" where
  "vec_valid k vs \<longleftrightarrow> list_all (\<lambda>v. v < 256 ^ k) vs \<and> length vs * k \<le> max32 \<and> length vs \<le> max32"

lemma put_vector_ok:
  assumes "uq_inv q" and "vec_valid k vs" and "room q (length (vwire k vs))"
  shows "\<exists>q'. put_vector k q vs = Inr q' \<and> uq_inv q' \<and> same_settings q q' \<and> content q' = content q @ vwire k vs"
proof -
  let ?n = "length vs"
  have r: "room q (4 + ?n * k)" using assms(3) by (simp add: vwire_def)
  have n: "?n mod 4294967296 = ?n" "mul32 ?n k = ?n * k"
    using assms(2) by (simp_all add: vec_valid_def max32_def mul32_def)
  obtain q1 where q1: "put_pod 4 q ?n = Inr q1" "uq_inv q1" "same_settings q q1"
    "content q1 = content q @ le_bytes 4 ?n"
    using put_pod_ok [of q 4 ?n] room_mono [OF r, of 4] assms(1) by auto
  have "room q1 (length (vec_bytes k vs))"
    using room_after [OF r assms(1) q1(2,3)] q1(4) by simp
  then obtain q2 where "Push q1 (Some (map Some (vec_bytes k vs))) = Inr q2" "uq_inv q2"
    "same_settings q1 q2" "content q2 = content q1 @ vec_bytes k vs"
    using Push_ok [OF q1(2)] by blast
  then show ?thesis
    using q1 n by (auto simp: put_vector_def vwire_def mem_read_def intro: same_settings_trans)
qed

lemma get_vector_ok:
  assumes "uq_inv q" and "vec_valid k vs" and "content q = vwire k vs @ rest"
  shows "\<exists>q'. get_vector k q = Inr (vs, q') \<and> uq_inv q' \<and> same_settings q q' \<and> content q' = rest"
proof -
  let ?n = "length vs"
  have "?n < 256 ^ 4" and c: "content q = le_bytes 4 ?n @ vec_bytes k vs @ rest"
    and m: "mul32 ?n k = ?n * k"
    using assms(2,3) by (simp_all add: vwire_def vec_valid_def max32_def mul32_def)
  then obtain q1 where q1: "get_pod 4 q = Inr (?n, q1)" "uq_inv q1" "same_settings q q1"
    "content q1 = vec_bytes k vs @ rest"
    using get_pod_ok [OF assms(1)] by blast
  have l: "length (vec_bytes k vs) = ?n * k" by simp
  have sz: "?n * k \<le> m_nSize q1"
    using uq_invD(1) [OF q1(2)] q1(4) by simp
  obtain q2 where "pop_bytes q1 (?n * k) = Inr (vec_bytes k vs, q2)" "uq_inv q2" "same_settings q1 q2"
    "content q2 = rest"
    using pop_bytes_ok [OF q1(2,4)] unfolding l by auto
  moreover have "mem_write (replicate (?n * k) 0) 0 (vec_bytes k vs) = Inr (vec_bytes k vs)"
    by (simp add: mem_write_def mem_put_def)
  moreover have "vec_elems k ?n (vec_bytes k vs) = vs"
    using assms(2) by (intro vec_elems_bytes) (simp add: vec_valid_def)
  ultimately show ?thesis
    using q1 sz m by (auto simp: get_vector_def intro: same_settings_trans)
qed

lemma get_vector_cases:
  assumes "uq_inv q"
  shows "(\<exists>s q'. get_vector k q = Inr (s, q') \<and> uq_inv q' \<and> same_settings q q' \<and>
      (\<exists>used. content q = used @ content q')) \<or> get_vector k q = Inl MB_BAD_DESERIALIZATION"
proof (cases "get_pod 4 q = Inl MB_BAD_DESERIALIZATION")
  case True
  then show ?thesis by (simp add: get_vector_def)
next
  case False
  then obtain v q1 used where q1: "get_pod 4 q = Inr (v, q1)" "uq_inv q1" "same_settings q q1"
    "content q = used @ content q1"
    using get_len_cases [OF assms] by auto
  show ?thesis
  proof (cases "v = 0 \<or> mul32 v k > m_nSize q1")
    case True
    with q1 show ?thesis by (auto simp: get_vector_def)
  next
    case False
    then obtain bs q' where c: "pop_bytes q1 (mul32 v k) = Inr (bs, q')" "length bs = mul32 v k"
      "uq_inv q'" "same_settings q1 q'" "content q1 = bs @ content q'"
      using pop_bytes_cases [OF q1(2), of "mul32 v k"] by auto
    have "mul32 v k \<le> v * k" by (simp add: mul32_def)
    with c(2) have "mem_write (replicate (v * k) 0) 0 bs = Inr (mem_put (replicate (v * k) 0) 0 bs)"
      by (intro mem_write_ok) simp
    with q1 False c have "\<exists>s. get_vector k q = Inr (s, q')"
      by (auto simp: get_vector_def)
    moreover have "content q = (used @ bs) @ content q'"
      using q1(4) c(5) by simp
    ultimately show ?thesis
      using c(3) same_settings_trans [OF q1(3) c(4)] by blast
  qed
qed

lemma wire_codec_vector: "wire_codec (put_vector k) (get_vector k) (vwire k) (vec_valid k)"
  by (rule wire_codec_cases) (simp_all only: get_vector_cases put_vector_ok get_vector_ok)

interpretation vec: wire_codec "put_vector k" "get_vector k" "vwire k" "vec_valid k" for k
  by (rule wire_codec_vector)

text \<open>Nested buffers.\<close>

lemma put_queue_ok:
  assumes "uq_inv q" and "uq_inv mc" and "room q (length (lwire (content mc)))"
  shows "\<exists>q'. put_queue q mc = Inr q' \<and> uq_inv q' \<and> same_settings q q' \<and>
    content q' = content q @ lwire (content mc)"
proof -
  have r: "room q (4 + length (content mc))" using assms(3) by simp
  have "mem_read (m_pBuffer mc) (GetBuffer mc 0) (length (content mc)) = Inr (map Some (content mc))"
    using take_front_ok(1) [OF assms(2), of "content mc" "[]"] by simp
  then show ?thesis
    using put_len_push_ok [OF assms(1) r] uq_invD(1) [OF assms(2)]
    by (auto simp: put_queue_def)
qed

lemma get_queue_ok:
  assumes "uq_inv q" and "uq_inv mc" and "room mc (length bs)" and "length bs < UQUEUE_NULL_LENGTH"
    and "content q = lwire bs @ rest"
  shows "\<exists>mc' q'. get_queue mc q = Inr (mc', q') \<and> uq_inv q' \<and> content q' = rest \<and>
    uq_inv mc' \<and> content mc' = content mc @ bs"
proof -
  obtain q1 where q1: "get_pod 4 q = Inr (length bs, q1)" "uq_inv q1"
    "content q1 = bs @ rest" "length bs \<le> m_nSize q1"
    using get_len_ok [OF assms(1,5,4)] by auto
  with take_front_ok [OF q1(2,3)] Push_ok [OF assms(2,3)] assms(2,4) show ?thesis
    by (auto simp: get_queue_def)
qed

section \<open>Messages of mixed fields\<close>

text \<open>
  \<^verbatim>\<open>Save(data, others ...)\<close> writes its arguments one after another; the receiver
  reads them back with \<^verbatim>\<open>Load\<close> in the same order, by their static types.
\<close>

datatype wire_type = T_pod nat | T_string | T_u16string | T_vector nat

datatype wire_value =
    V_pod nat nat
  | V_string "byte list"
  | V_u16string "nat list"
  | V_vector nat "nat list"

fun type_of :: "wire_value \<Rightarrow> wire_type" where
  "type_of (V_pod n v) = T_pod n"
| "type_of (V_string s) = T_string"
| "type_of (V_u16string s) = T_u16string"
| "type_of (V_vector k vs) = T_vector k"

fun Save :: "uqueue \<Rightarrow> wire_value \<Rightarrow> fault + uqueue" where
  "Save q (V_pod n v) = put_pod n q v"
| "Save q (V_string s) = put_string q s"
| "Save q (V_u16string s) = put_u16string q s"
| "Save q (V_vector k vs) = put_vector k q vs"

fun Load :: "wire_type \<Rightarrow> uqueue \<Rightarrow> fault + (wire_value \<times> uqueue)" where
  "Load (T_pod n) q = bindr (get_pod n q) (\<lambda>(v, q). Inr (V_pod n v, q))"
| "Load T_string q = bindr (get_string q) (\<lambda>(s, q). Inr (V_string s, q))"
| "Load T_u16string q = bindr (get_u16string q) (\<lambda>(s, q). Inr (V_u16string s, q))"
| "Load (T_vector k) q = bindr (get_vector k q) (\<lambda>(vs, q). Inr (V_vector k vs, q))"

fun Save_all :: "uqueue \<Rightarrow> wire_value list \<Rightarrow> fault + uqueue" where
  "Save_all q [] = Inr q"
| "Save_all q (v # vs) = bindr (Save q v) (\<lambda>q. Save_all q vs)"

fun Load_all :: "wire_type list \<Rightarrow> uqueue \<Rightarrow> fault + (wire_value list \<times> uqueue)" where
  "Load_all [] q = Inr ([], q)"
| "Load_all (t # ts) q =
     bindr (Load t q) (\<lambda>(v, q). bindr (Load_all ts q) (\<lambda>(vs, q). Inr (v # vs, q)))"

fun wire_of :: "wire_value \<Rightarrow> byte list" where
  "wire_of (V_pod n v) = le_bytes n v"
| "wire_of (V_string s) = lwire s"
| "wire_of (V_u16string s) = lwire (vec_bytes 2 s)"
| "wire_of (V_vector k vs) = vwire k vs"

fun value_ok :: "wire_value \<Rightarrow> bool" where
  "value_ok (V_pod n v) \<longleftrightarrow> v < 256 ^ n"
| "value_ok (V_string s) \<longleftrightarrow> length s < UQUEUE_NULL_LENGTH"
| "value_ok (V_u16string s) \<longleftrightarrow> list_all (\<lambda>c. c < 256 ^ 2) s \<and> 2 * length s < UQUEUE_NULL_LENGTH"
| "value_ok (V_vector k vs) \<longleftrightarrow> vec_valid k vs"

definition type_ok :: "wire_type \<Rightarrow> bool" where
  "type_ok t \<longleftrightarrow> (case t of T_pod n \<Rightarrow> n \<le> max32 | _ \<Rightarrow> True)"

lemma Save_ok:
  assumes "uq_inv q" "value_ok v" "room q (length (wire_of v))"
  shows "\<exists>q'. Save q v = Inr q' \<and> uq_inv q' \<and> same_settings q q' \<and> content q' = content q @ wire_of v"
  using assms by (cases v) (simp_all add: put_pod_ok str.put_ok u16str.put_ok vec.put_ok del: length_lwire)

lemma Load_ok:
  assumes "uq_inv q" "value_ok v" "content q = wire_of v @ rest"
  shows "\<exists>q'. Load (type_of v) q = Inr (v, q') \<and> uq_inv q' \<and> same_settings q q' \<and> content q' = rest"
proof (cases v)
  case (V_pod n x)
  with assms get_pod_ok [of q x n rest] show ?thesis by auto
next
  case (V_string s)
  with assms str.get_ok [of q s rest] show ?thesis by auto
next
  case (V_u16string s)
  with assms u16str.get_ok [of q s rest] show ?thesis by auto
next
  case (V_vector k vs)
  with assms vec.get_ok [of q k vs rest] show ?thesis by auto
qed

lemma Load_cases:
  assumes "uq_inv q" "type_ok t"
  shows "(\<exists>v q' used. Load t q = Inr (v, q') \<and> uq_inv q' \<and> content q = used @ content q') \<or>
    Load t q = Inl MB_BAD_DESERIALIZATION"
proof (cases t)
  case (T_pod n)
  with get_pod_cases [OF assms(1), of n] assms(2) show ?thesis by (auto simp: type_ok_def)
next
  case T_string
  with str.get_total [OF assms(1)] show ?thesis by auto
next
  case T_u16string
  with u16str.get_total [OF assms(1)] show ?thesis by auto
next
  case (T_vector k)
  with vec.get_total [OF assms(1), of k] show ?thesis by auto
qed

lemma Save_all_ok:
  "uq_inv q \<Longrightarrow> list_all value_ok vs \<Longrightarrow> room q (length (concat (map wire_of vs))) \<Longrightarrow>
   \<exists>q'. Save_all q vs = Inr q' \<and> uq_inv q' \<and> same_settings q q' \<and>
     content q' = content q @ concat (map wire_of vs)"
proof (induction vs arbitrary: q)
  case Nil
  then show ?case by simp
next
  case (Cons v vs)
  then have r: "room q (length (wire_of v) + length (concat (map wire_of vs)))" by simp
  then have "room q (length (wire_of v))" by (rule room_mono) simp
  then obtain q1 where q1: "Save q v = Inr q1" "uq_inv q1" "same_settings q q1"
    "content q1 = content q @ wire_of v"
    using Save_ok Cons.prems by fastforce
  then have "room q1 (length (concat (map wire_of vs)))"
    using room_after [OF r Cons.prems(1) q1(2,3)] by simp
  from Cons.IH [OF q1(2) _ this] q1 Cons.prems(2) show ?case
    by (auto intro: same_settings_trans)
qed

lemma Load_all_ok:
  "uq_inv q \<Longrightarrow> list_all value_ok vs \<Longrightarrow> content q = concat (map wire_of vs) @ rest \<Longrightarrow>
   \<exists>q'. Load_all (map type_of vs) q = Inr (vs, q') \<and> uq_inv q' \<and> content q' = rest"
proof (induction vs arbitrary: q)
  case Nil
  then show ?case by simp
next
  case (Cons v vs)
  then obtain q1 where q1: "Load (type_of v) q = Inr (v, q1)" "uq_inv q1"
    "content q1 = concat (map wire_of vs) @ rest"
    using Load_ok [of q v] by auto
  with Cons.IH [OF q1(2)] Cons.prems(2) show ?case by auto
qed

lemma Load_all_cases:
  "uq_inv q \<Longrightarrow> list_all type_ok ts \<Longrightarrow>
   (\<exists>vs q' used. Load_all ts q = Inr (vs, q') \<and> uq_inv q' \<and> content q = used @ content q') \<or>
   Load_all ts q = Inl MB_BAD_DESERIALIZATION"
proof (induction ts arbitrary: q)
  case Nil
  then show ?case by simp
next
  case (Cons t ts)
  then consider (ok) v q1 used where "Load t q = Inr (v, q1)" "uq_inv q1" "content q = used @ content q1"
    | (bad) "Load t q = Inl MB_BAD_DESERIALIZATION"
    using Load_cases [of q t] by auto
  then show ?case
  proof cases
    case ok
    with Cons.IH [OF ok(2)] Cons.prems(2) show ?thesis by fastforce
  next
    case bad
    then show ?thesis by simp
  qed
qed

section \<open>The buffer as a FIFO store of bytes\<close>

definition push_bytes :: "uqueue \<Rightarrow> byte list \<Rightarrow> fault + uqueue" where
  "push_bytes q bs = Push q (Some (map Some bs))"

lemma push_bytes_space:
  assumes "uq_inv q" and "room q (length bs + n)" and "push_bytes q bs = Inr q'"
  shows "room q' n"
proof -
  have "room q (length bs)" using assms(2) by (rule room_mono) simp
  then have "uq_inv q'" "same_settings q q'" "content q' = content q @ bs"
    using Push_ok [OF assms(1), of bs] assms(3) by (auto simp: push_bytes_def)
  then show ?thesis using room_after [OF assms(2,1)] by simp
qed

lemma pop_bytes_prefix:
  assumes "uq_inv q" and "n \<le> length (content q)"
  shows "\<exists>q'. pop_bytes q n = Inr (take n (content q), q') \<and> uq_inv q' \<and> content q' = drop n (content q)"
  using pop_bytes_ok [OF assms(1), of "take n (content q)" "drop n (content q)"] assms(2) by auto

interpretation uq: fifo_store content uq_inv room push_bytes pop_bytes
proof
  show "uq_inv q \<Longrightarrow> room q (length bs) \<Longrightarrow>
      \<exists>q'. push_bytes q bs = Inr q' \<and> uq_inv q' \<and> content q' = content q @ bs" for q bs
    using Push_ok by (auto simp: push_bytes_def)
  show "room s n \<Longrightarrow> m \<le> n \<Longrightarrow> room s m" for s n m
    by (rule room_mono)
qed (blast intro: push_bytes_space, blast intro: pop_bytes_prefix)

section \<open>Properties\<close>

text \<open>A new buffer is the starting point of every message; so much fits in.\<close>

definition new_buffer :: uqueue where
  "new_buffer = CUQueue_new 0 DEFAULT_MEMORY_BUFFER_BLOCK_SIZE GetOS IsBigEndian"

lemma new_buffer_ok [simp]: "uq_inv new_buffer" "content new_buffer = []"
  by (simp_all add: new_buffer_def CUQueue_new_ok)

lemma room_new_buffer: "room new_buffer n \<longleftrightarrow> 2 * n + 4096 \<le> max32"
  by (simp add: room_def new_buffer_def CUQueue_new_def DEFAULT_MEMORY_BUFFER_BLOCK_SIZE_def)

text \<open>
  C2: A message of any fields that one side saves into a buffer is what the other side loads,
  given the types: every field comes back with its value, and nothing is left over.
\<close>

theorem message_roundtrip:
  assumes "list_all value_ok vs" and "2 * length (concat (map wire_of vs)) + 4096 \<le> max32"
  shows "\<exists>q q'. Save_all new_buffer vs = Inr q \<and> content q = concat (map wire_of vs) \<and>
    Load_all (map type_of vs) q = Inr (vs, q') \<and> content q' = []"
proof -
  obtain q where q: "Save_all new_buffer vs = Inr q" "uq_inv q" "content q = concat (map wire_of vs)"
    using Save_all_ok [of new_buffer vs] assms by (auto simp: room_new_buffer simp del: length_concat)
  with Load_all_ok [OF q(2) assms(1), of "[]"] show ?thesis by auto
qed

theorem message_roundtrip_witness:
  "\<exists>q q'. Save_all new_buffer [V_pod 4 70000, V_string [104, 105], V_u16string [955], V_vector 2 [1, 65535]] = Inr q \<and>
     content q = concat (map wire_of [V_pod 4 70000, V_string [104, 105], V_u16string [955], V_vector 2 [1, 65535]]) \<and>
     Load_all (map type_of [V_pod 4 70000, V_string [104, 105], V_u16string [955], V_vector 2 [1, 65535]]) q =
       Inr ([V_pod 4 70000, V_string [104, 105], V_u16string [955], V_vector 2 [1, 65535]], q') \<and> content q' = []"
  by (rule message_roundtrip)
    (simp_all add: vec_valid_def UQUEUE_NULL_LENGTH_def max32_def vwire_def lwire_def)

text \<open>
  C9: Whatever bytes a buffer holds, loading any sequence of fields from it either gives values
  and consumes a prefix of the bytes or raises the deserialisation exception. No read leaves
  the block and no other failure is possible.
\<close>

theorem hostile_bytes_are_safe:
  assumes "uq_inv q" and "list_all type_ok ts"
  shows "(\<exists>vs q' used. Load_all ts q = Inr (vs, q') \<and> uq_inv q' \<and> content q = used @ content q') \<or>
    Load_all ts q = Inl MB_BAD_DESERIALIZATION"
  using assms by (rule Load_all_cases)

theorem hostile_bytes_are_safe_witness:
  "(\<exists>vs q' used. Load_all [T_pod 1, T_string] sample_queue = Inr (vs, q') \<and> uq_inv q' \<and>
      content sample_queue = used @ content q') \<or>
    Load_all [T_pod 1, T_string] sample_queue = Inl MB_BAD_DESERIALIZATION"
  by (rule hostile_bytes_are_safe [OF sample_queue_inv]) (simp add: type_ok_def max32_def)

text \<open>
  The reader of a vector multiplies the count by the element size in 32 bits. A count whose
  product wraps around to what the message really holds is accepted: the vector gets count
  elements although the message carried fewer (0x40000001 elements of 4 bytes from 4 bytes,
  for instance).
\<close>

theorem vector_count_wraps:
  assumes "uq_inv q" and "content q = le_bytes 4 count @ bs @ rest" and "count < 2 ^ 32" and "0 < count"
    and "length bs = count * k mod 2 ^ 32"
  shows "\<exists>vs q'. get_vector k q = Inr (vs, q') \<and> length vs = count \<and> content q' = rest"
proof -
  obtain q1 where q1: "get_pod 4 q = Inr (count, q1)" "uq_inv q1" "content q1 = bs @ rest"
    using get_pod_ok [OF assms(1) _ assms(2)] assms(3) by auto
  have m: "mul32 count k = length bs"
    using assms(5) by (simp add: mul32_def)
  obtain q2 where q2: "pop_bytes q1 (length bs) = Inr (bs, q2)" "content q2 = rest"
    using pop_bytes_ok [OF q1(2,3)] by auto
  have "length bs \<le> count * k"
    unfolding assms(5) by (rule mod_less_eq_dividend)
  then have "mem_write (replicate (count * k) 0) 0 bs = Inr (mem_put (replicate (count * k) 0) 0 bs)"
    by (intro mem_write_ok) simp
  moreover have "\<not> length bs > m_nSize q1"
    using uq_invD(1) [OF q1(2)] q1(3) by simp
  ultimately show ?thesis
    using q1(1) q2 m assms(4) by (simp add: get_vector_def Let_def)
qed

definition short_message :: uqueue where
  "short_message = \<lparr>m_nMaxBuffer = 8, m_nSize = 8, m_nHeadPos = 0, m_os = osUnix, m_bSameEndian = True,
     m_nBlockSize = 8, m_pBuffer = map Some [1, 0, 0, 0x40, 9, 9, 9, 9],
     m_8ToW = False, m_ToUtf8 = False\<rparr>"

lemma le_bytes_4: "le_bytes 4 v =
  [word_of_nat v, word_of_nat (v div 256), word_of_nat (v div 256 div 256), word_of_nat (v div 256 div 256 div 256)]"
proof -
  have e: "(4 :: nat) = Suc (Suc (Suc (Suc 0)))" by simp
  show ?thesis unfolding e le_bytes.simps ..
qed

lemma short_message_ok:
  "uq_inv short_message" "content short_message = le_bytes 4 0x40000001 @ [9, 9, 9, 9] @ []"
  by (simp_all add: uq_inv_def content_def short_message_def max32_def le_bytes_4)

theorem vector_count_wraps_witness:
  "\<exists>vs q'. get_vector 4 short_message = Inr (vs, q') \<and> length vs = 0x40000001 \<and> content q' = []"
  by (rule vector_count_wraps [OF short_message_ok]) simp_all

text \<open>
  A null C string is distinguished from an empty one on the wire, but reading either back
  gives the empty string; any other C string comes back as it is.
\<close>

theorem cstr_roundtrip:
  assumes "case str of None \<Rightarrow> True | Some s \<Rightarrow> 2 * length s + 4104 \<le> max32"
  shows "\<exists>q q'. put_cstr new_buffer str = Inr q \<and>
    content q = le_bytes 4 (case str of None \<Rightarrow> UQUEUE_NULL_LENGTH | Some s \<Rightarrow> length s) @ (case str of None \<Rightarrow> [] | Some s \<Rightarrow> s) \<and>
    get_string q = Inr (case str of None \<Rightarrow> [] | Some s \<Rightarrow> s, q') \<and> content q' = []"
proof (cases str)
  case None
  obtain q where q: "put_pod 4 new_buffer UQUEUE_NULL_LENGTH = Inr q" "uq_inv q"
    "content q = le_bytes 4 UQUEUE_NULL_LENGTH"
    using put_pod_ok [of new_buffer 4 UQUEUE_NULL_LENGTH] by (auto simp: room_new_buffer max32_def)
  have "UQUEUE_NULL_LENGTH < 256 ^ 4" by (simp add: UQUEUE_NULL_LENGTH_def max32_def)
  from get_pod_ok [OF q(2) this, of "[]"] q None show ?thesis
    by (auto simp: put_cstr_def get_string_def)
next
  case (Some s)
  have l: "length s < UQUEUE_NULL_LENGTH"
    using assms Some by (simp add: UQUEUE_NULL_LENGTH_def)
  have e: "put_cstr new_buffer (Some s) = put_string new_buffer s"
    by (simp add: put_cstr_def put_string_def)
  obtain q where q: "put_string new_buffer s = Inr q" "uq_inv q" "content q = lwire s @ []"
    using put_string_ok [of new_buffer s] assms Some by (auto simp: room_new_buffer)
  from get_string_ok [OF q(2) l q(3)] q(1,3) Some e show ?thesis
    by (auto simp: lwire_def)
qed

theorem cstr_roundtrip_witness:
  "\<exists>q q'. put_cstr new_buffer (Some [104, 105]) = Inr q \<and> content q = le_bytes 4 2 @ [104, 105] \<and>
     get_string q = Inr ([104, 105], q') \<and> content q' = []"
  using cstr_roundtrip [of "Some [104, 105]"] by (simp add: max32_def numeral_2_eq_2)

text \<open>
  A buffer that is saved inside another one, as SocketPro nests messages, comes out of it
  with its bytes, appended to whatever the receiving buffer held, and the rest of the outer
  message stays in place.
\<close>

theorem nested_buffer_roundtrip:
  assumes "uq_inv mc" and "uq_inv target" and "room target (length (content mc))"
    and "2 * (length (content mc) + 4) + 4096 \<le> max32"
  shows "\<exists>q target' q'. put_queue new_buffer mc = Inr q \<and> get_queue target q = Inr (target', q') \<and>
    content target' = content target @ content mc \<and> content q' = []"
proof -
  have l: "length (content mc) < UQUEUE_NULL_LENGTH"
    using assms(4) by (simp add: UQUEUE_NULL_LENGTH_def)
  obtain q where q: "put_queue new_buffer mc = Inr q" "uq_inv q" "content q = lwire (content mc) @ []"
    using put_queue_ok [of new_buffer mc] assms(1,4) by (auto simp: room_new_buffer)
  from get_queue_ok [OF q(2) assms(2,3) l q(3)] q(1) show ?thesis by auto
qed

theorem nested_buffer_roundtrip_witness:
  "\<exists>q target' q'. put_queue new_buffer sample_queue = Inr q \<and>
     get_queue new_buffer q = Inr (target', q') \<and>
     content target' = content new_buffer @ content sample_queue \<and> content q' = []"
proof (rule nested_buffer_roundtrip [OF sample_queue_inv])
  have "length (content sample_queue) = 3"
    using uq_invD(1) [OF sample_queue_inv] by (simp add: sample_queue_def)
  then show "room new_buffer (length (content sample_queue))"
    "2 * (length (content sample_queue) + 4) + 4096 \<le> max32"
    by (simp_all add: room_new_buffer max32_def)
qed simp

end
