(* ===== verification/Pool.thy ===== *)
theory Pool
  imports Serialize
begin

text \<open>
  The pool of reusable message buffers: \<^verbatim>\<open>CScopeUQueueEx\<close> and its
  \<^verbatim>\<open>CQPool\<close>, a deque of buffer pointers (\<^verbatim>\<open>include/membuffer.h\<close>).

  \<^item> \<open>uqueue_pool\<close> holds the heap of buffer objects (an address refers to at most one), the
    deque of the addresses that wait for reuse and the next address \<^verbatim>\<open>new\<close> returns.
  \<^item> \<open>pool_step\<close> is the system of a pool and the threads that hold buffers: they lock, use and
    unlock buffers, the pool is reset, cleaned or destroyed, in any order. Its invariant says that
    a buffer is pooled or held by one holder, never both; pooled ones are empty.
\<close>

section \<open>State and operations\<close>

record uqueue_pool =
  p_heap :: "nat \<Rightarrow> uqueue option"
  p_next :: nat
  p_deque :: "nat deque"

definition pool_new :: uqueue_pool where
  "pool_new = \<lparr>p_heap = (\<lambda>_. None), p_next = 0, p_deque = CSafeDeque_new INITIAL_CAPACITY\<rparr>"

definition pool_deref :: "uqueue_pool \<Rightarrow> nat \<Rightarrow> fault + uqueue" where
  "pool_deref s p = (case p_heap s p of None \<Rightarrow> Inl Out_Of_Bounds | Some q \<Rightarrow> Inr q)"

definition pool_store :: "uqueue_pool \<Rightarrow> nat \<Rightarrow> uqueue \<Rightarrow> uqueue_pool" where
  "pool_store s p q = s\<lparr>p_heap := (p_heap s)(p \<mapsto> q)\<rparr>"

text \<open>What \<^verbatim>\<open>Lock\<close> does to a buffer that comes out of the pool.\<close>

definition refresh :: "tagOperationSystem \<Rightarrow> bool \<Rightarrow> nat \<Rightarrow> nat \<Rightarrow> uqueue \<Rightarrow> fault + uqueue" where
  "refresh os bigEndian initSize blockSize q =
     (let q = SetBlockSize ((SetEndian q bigEndian)\<lparr>m_os := os\<rparr>) blockSize in
      bindr (if m_nMaxBuffer q < initSize then ReallocBuffer q initSize else Inr q)
        (\<lambda>q. Inr (q\<lparr>m_8ToW := False, m_ToUtf8 := False\<rparr>)))"

definition pool_Lock :: "tagOperationSystem \<Rightarrow> bool \<Rightarrow> nat \<Rightarrow> nat \<Rightarrow> uqueue_pool \<Rightarrow> fault + (nat \<times> uqueue_pool)" where
  "pool_Lock os bigEndian initSize blockSize s =
     bindr (popfront True (p_deque s) 1) (\<lambda>(out, dq).
     bindr (cells out) (\<lambda>ps.
     let s = s\<lparr>p_deque := dq\<rparr> in
     case ps of
       p # _ \<Rightarrow> bindr (pool_deref s p) (\<lambda>q.
                bindr (refresh os bigEndian initSize blockSize q) (\<lambda>q. Inr (p, pool_store s p q)))
     | [] \<Rightarrow> Inr (p_next s, (pool_store s (p_next s) (CUQueue_new initSize blockSize os bigEndian))
                            \<lparr>p_next := p_next s + 1\<rparr>)))"

definition pool_Unlock :: "nat option \<Rightarrow> uqueue_pool \<Rightarrow> fault + uqueue_pool" where
  "pool_Unlock memoryChunk s =
     (case memoryChunk of None \<Rightarrow> Inr s
      | Some p \<Rightarrow>
        bindr (pool_deref s p) (\<lambda>q.
        bindr (SetSize q 0 True) (\<lambda>q.
        bindr (pushfront True (p_deque s) [Some p]) (\<lambda>(_, dq).
        Inr ((pool_store s p q)\<lparr>p_deque := dq\<rparr>)))))"

text \<open>
  The loops over \<^verbatim>\<open>m_p[m_header + n]\<close>: a method of every pooled buffer, from the
  \<open>n\<close>-th of the \<open>count\<close> elements on.
\<close>

fun pool_for :: "(uqueue \<Rightarrow> fault + uqueue) \<Rightarrow> nat list \<Rightarrow> uqueue_pool \<Rightarrow> fault + uqueue_pool" where
  "pool_for f [] s = Inr s"
| "pool_for f (p # ps) s =
     bindr (pool_deref s p) (\<lambda>q. bindr (f q) (\<lambda>q. pool_for f ps (pool_store s p q)))"

definition pooled :: "uqueue_pool \<Rightarrow> fault + nat list" where
  "pooled s = (let d = p_deque s in bindr (mem_read (m_p d) (m_header d) (m_count d)) cells)"

definition CleanUQueuePool :: "uqueue_pool \<Rightarrow> fault + uqueue_pool" where
  "CleanUQueuePool s = bindr (pooled s) (\<lambda>ps. pool_for CleanTrack ps s)"

definition ResetSize :: "nat \<Rightarrow> uqueue_pool \<Rightarrow> fault + uqueue_pool" where
  "ResetSize newSize s =
     bindr (pooled s) (\<lambda>ps.
       pool_for (\<lambda>q. if m_nMaxBuffer q > newSize then ReallocBuffer q newSize else Inr q) ps s)"

fun GetMemoryConsumed_loop :: "nat list \<Rightarrow> uqueue_pool \<Rightarrow> nat \<Rightarrow> fault + nat" where
  "GetMemoryConsumed_loop [] s sz = Inr sz"
| "GetMemoryConsumed_loop (p # ps) s sz =
     bindr (pool_deref s p) (\<lambda>q. GetMemoryConsumed_loop ps s (sz + m_nMaxBuffer q))"

definition GetMemoryConsumed :: "uqueue_pool \<Rightarrow> fault + nat" where
  "GetMemoryConsumed s = bindr (pooled s) (\<lambda>ps. GetMemoryConsumed_loop ps s 0)"

definition DestroyUQueuePool :: "uqueue_pool \<Rightarrow> fault + uqueue_pool" where
  "DestroyUQueuePool s =
     bindr (pooled s) (\<lambda>ps.
       Inr (s\<lparr>p_heap := (\<lambda>p. if p \<in> set ps then None else p_heap s p), p_deque := deque_clear (p_deque s)\<rparr>))"

text \<open>The smart pointer: its pointer is \<open>None\<close> when no buffer is attached.\<close>

definition scope_Attach :: "nat option \<Rightarrow> nat option \<Rightarrow> uqueue_pool \<Rightarrow> fault + (nat option \<times> uqueue_pool)" where
  "scope_Attach m_pUQueue p s = bindr (pool_Unlock m_pUQueue s) (\<lambda>s. Inr (p, s))"

definition scope_Detach :: "nat option \<Rightarrow> nat option \<times> nat option" where
  "scope_Detach m_pUQueue = (m_pUQueue, None)"

definition scope_Swap :: "nat option \<Rightarrow> nat option \<Rightarrow> nat option \<times> nat option" where
  "scope_Swap m_pUQueue sb = (sb, m_pUQueue)"

text \<open>\<^verbatim>\<open>operator<<(const mb &q)\<close>, for default size and block size.\<close>

definition scope_put_queue :: "nat option \<Rightarrow> uqueue \<Rightarrow> uqueue_pool \<Rightarrow> fault + (nat \<times> uqueue_pool)" where
  "scope_put_queue m_pUQueue q s =
     bindr (case m_pUQueue of
              None \<Rightarrow> pool_Lock (m_os q) (GetEndian q) DEFAULT_MEMORY_BUFFER_BLOCK_SIZE DEFAULT_MEMORY_BUFFER_BLOCK_SIZE s
            | Some p \<Rightarrow> Inr (p, s)) (\<lambda>(p, s).
     bindr (pool_deref s p) (\<lambda>b. bindr (put_queue b q) (\<lambda>b. Inr (p, pool_store s p b))))"

section \<open>The system of a pool and its users\<close>

inductive pool_step :: "uqueue_pool \<times> nat list \<Rightarrow> uqueue_pool \<times> nat list \<Rightarrow> bool" where
  step_lock: "initSize \<le> max32 \<Longrightarrow> blockSize \<le> max32 \<Longrightarrow> pool_Lock os be initSize blockSize s = Inr (p, s') \<Longrightarrow>
    pool_step (s, held) (s', p # held)"
| step_unlock: "p \<in> set held \<Longrightarrow> pool_Unlock (Some p) s = Inr s' \<Longrightarrow> pool_step (s, held) (s', remove1 p held)"
| step_use: "p \<in> set held \<Longrightarrow> uq_inv q \<Longrightarrow> pool_step (s, held) (pool_store s p q, held)"
| step_clean: "CleanUQueuePool s = Inr s' \<Longrightarrow> pool_step (s, held) (s', held)"
| step_reset: "n \<le> max32 \<Longrightarrow> ResetSize n s = Inr s' \<Longrightarrow> pool_step (s, held) (s', held)"
| step_destroy: "DestroyUQueuePool s = Inr s' \<Longrightarrow> pool_step (s, held) (s', held)"

inductive_cases pool_stepE: "pool_step (s, held) (s', held')"

inductive pool_reachable :: "uqueue_pool \<times> nat list \<Rightarrow> bool" where
  reach_init: "pool_reachable (pool_new, [])"
| reach_step: "pool_reachable c \<Longrightarrow> pool_step c c' \<Longrightarrow> pool_reachable c'"

definition idle :: "uqueue \<Rightarrow> bool" where
  "idle q \<longleftrightarrow> uq_inv q \<and> m_nSize q = 0"

definition pool_inv :: "uqueue_pool \<times> nat list \<Rightarrow> bool" where
  "pool_inv = (\<lambda>(s, held).
     deque_inv (p_deque s) \<and> distinct (elems (p_deque s) @ held) \<and>
     (\<forall>p \<in> set (elems (p_deque s)). \<exists>q. p_heap s p = Some q \<and> idle q) \<and>
     (\<forall>p \<in> set held. \<exists>q. p_heap s p = Some q \<and> uq_inv q) \<and>
     (\<forall>p. p_heap s p \<noteq> None \<longrightarrow> p < p_next s))"

section \<open>The operations keep the invariant\<close>

lemma pooled_ok: "deque_inv (p_deque s) \<Longrightarrow> pooled s = Inr (elems (p_deque s))"
  using deque_invD [of "p_deque s"] by (simp add: pooled_def Let_def holds_read)

lemma idle_iff: "idle q \<longleftrightarrow> uq_inv q \<and> content q = []"
  using uq_invD(1) [of q] by (auto simp: idle_def)

lemma refresh_ok:
  assumes "idle q" and "i \<le> max32" and "b \<le> max32"
  shows "\<exists>q'. refresh os be i b q = Inr q' \<and> idle q' \<and> m_os q' = os \<and>
    m_bSameEndian q' = (be = IsBigEndian) \<and> i \<le> m_nMaxBuffer q' \<and> \<not> m_8ToW q' \<and> \<not> m_ToUtf8 q' \<and>
    m_nBlockSize q' = (if b = 0 then DEFAULT_MEMORY_BUFFER_BLOCK_SIZE else b)"
proof -
  define r where "r = SetBlockSize ((SetEndian q be)\<lparr>m_os := os\<rparr>) b"
  have r: "uq_inv r" "m_nSize r = 0" "m_os r = os" "m_bSameEndian r = (be = IsBigEndian)"
    "m_nBlockSize r = (if b = 0 then DEFAULT_MEMORY_BUFFER_BLOCK_SIZE else b)"
    using assms by (auto simp: r_def idle_def uq_inv_def SetBlockSize_def SetEndian_def)
  have rf: "refresh os be i b q = bindr (if m_nMaxBuffer r < i then ReallocBuffer r i else Inr r)
      (\<lambda>q. Inr (q\<lparr>m_8ToW := False, m_ToUtf8 := False\<rparr>))"
    by (simp add: refresh_def Let_def r_def)
  have upd: "uq_inv (x\<lparr>m_8ToW := a, m_ToUtf8 := c\<rparr>) = uq_inv x" for x a c
    by (simp add: uq_inv_def)
  show ?thesis
  proof (cases "m_nMaxBuffer r < i")
    case True
    then obtain r' where r': "ReallocBuffer r i = Inr r'" "uq_inv r'" "same_settings r r'"
      "content r' = take (m_nMaxBuffer r') (content r)" "m_nMaxBuffer r' = i"
      using ReallocBuffer_ok [OF r(1) assms(2)] by auto
    have "content r = []" using r(1,2) uq_invD(1) [OF r(1)] by simp
    then have "idle r'" using r'(2,4) by (simp add: idle_iff)
    moreover have "refresh os be i b q = Inr (r'\<lparr>m_8ToW := False, m_ToUtf8 := False\<rparr>)"
      using True r'(1) by (simp add: rf)
    moreover have "m_os r' = os" "m_bSameEndian r' = (be = IsBigEndian)"
      "m_nBlockSize r' = (if b = 0 then DEFAULT_MEMORY_BUFFER_BLOCK_SIZE else b)"
      using r r'(3) by (simp_all add: same_settings_def)
    ultimately show ?thesis
      using r'(5) by (simp add: idle_def upd)
  next
    case False
    with r show ?thesis
      by (simp add: rf idle_def upd)
  qed
qed

lemma pool_invD:
  assumes "pool_inv (s, held)"
  shows "deque_inv (p_deque s)" "distinct (elems (p_deque s))" "distinct held"
    "set (elems (p_deque s)) \<inter> set held = {}"
    "p \<in> set (elems (p_deque s)) \<Longrightarrow> \<exists>q. p_heap s p = Some q \<and> idle q"
    "p \<in> set held \<Longrightarrow> \<exists>q. p_heap s p = Some q \<and> uq_inv q"
    "p_heap s p = Some q \<Longrightarrow> p < p_next s"
  using assms by (auto simp: pool_inv_def)

lemma pool_invI:
  assumes "deque_inv (p_deque s)" "distinct (elems (p_deque s))" "distinct held"
    "set (elems (p_deque s)) \<inter> set held = {}"
    "\<And>p. p \<in> set (elems (p_deque s)) \<Longrightarrow> \<exists>q. p_heap s p = Some q \<and> idle q"
    "\<And>p. p \<in> set held \<Longrightarrow> \<exists>q. p_heap s p = Some q \<and> uq_inv q"
    "\<And>p q. p_heap s p = Some q \<Longrightarrow> p < p_next s"
  shows "pool_inv (s, held)"
  using assms by (auto simp: pool_inv_def)

lemma pool_Lock_ok:
  assumes "pool_inv (s, held)" and "i \<le> max32" and "b \<le> max32"
  shows "\<exists>p s' q. pool_Lock os be i b s = Inr (p, s') \<and> pool_inv (s', p # held) \<and> p \<notin> set held \<and>
    p_heap s' p = Some q \<and> idle q \<and> m_os q = os \<and> m_bSameEndian q = (be = IsBigEndian) \<and>
    i \<le> m_nMaxBuffer q \<and> m_nBlockSize q = (if b = 0 then DEFAULT_MEMORY_BUFFER_BLOCK_SIZE else b)"
proof -
  let ?d = "p_deque s"
  note inv = pool_invD [OF assms(1)]
  obtain d' where d': "popfront True ?d 1 = Inr (map Some (take 1 (elems ?d)), d')" "deque_inv d'"
    "elems d' = drop 1 (elems ?d)"
    using popfront_ok [OF inv(1), of 1] by blast
  show ?thesis
  proof (cases "elems ?d")
    case Nil
    let ?q = "CUQueue_new i b os be"
    define s' where "s' = (pool_store (s\<lparr>p_deque := d'\<rparr>) (p_next s) ?q)\<lparr>p_next := p_next s + 1\<rparr>"
    have q: "idle ?q" using CUQueue_new_ok [OF assms(2,3)] by (simp add: idle_iff)
    have set: "i \<le> m_nMaxBuffer ?q" "m_os ?q = os" "m_bSameEndian ?q = (be = IsBigEndian)"
      "m_nBlockSize ?q = (if b = 0 then DEFAULT_MEMORY_BUFFER_BLOCK_SIZE else b)"
      by (simp_all add: CUQueue_new_def)
    have lk: "pool_Lock os be i b s = Inr (p_next s, s')"
      using Nil d'(1) by (simp add: pool_Lock_def s'_def)
    have free: "p_next s \<notin> set held" using inv(6,7) by blast
    have s': "p_deque s' = d'" "p_next s' = p_next s + 1" "p_heap s' = (p_heap s)(p_next s \<mapsto> ?q)"
      by (simp_all add: s'_def pool_store_def)
    have "pool_inv (s', p_next s # held)"
    proof (rule pool_invI)
      show "p \<in> set (p_next s # held) \<Longrightarrow> \<exists>q. p_heap s' p = Some q \<and> uq_inv q" for p
        using inv(6) q by (auto simp: s' idle_def)
      show "p_heap s' p = Some r \<Longrightarrow> p < p_next s'" for p r
        using inv(7) by (auto simp: s' split: if_splits dest: less_SucI)
    qed (use s' d' Nil inv(3) free in simp_all)
    with lk set q free show ?thesis by (auto simp: s')
  next
    case (Cons p ps)
    then obtain q where q: "p_heap s p = Some q" "idle q" using inv(5) by fastforce
    obtain q' where q': "refresh os be i b q = Inr q'" "idle q'" "m_os q' = os"
      "m_bSameEndian q' = (be = IsBigEndian)" "i \<le> m_nMaxBuffer q'"
      "m_nBlockSize q' = (if b = 0 then DEFAULT_MEMORY_BUFFER_BLOCK_SIZE else b)"
      using refresh_ok [OF q(2) assms(2,3)] by blast
    define s' where "s' = pool_store (s\<lparr>p_deque := d'\<rparr>) p q'"
    have s': "p_deque s' = d'" "p_next s' = p_next s" "p_heap s' = (p_heap s)(p \<mapsto> q')"
      by (simp_all add: s'_def pool_store_def)
    have lk: "pool_Lock os be i b s = Inr (p, s')"
      using d'(1) Cons q q' by (simp add: pool_Lock_def pool_deref_def s'_def)
    have free: "p \<notin> set held" using inv(4) Cons by auto
    have "pool_inv (s', p # held)"
    proof (rule pool_invI)
      show "r \<in> set (elems (p_deque s')) \<Longrightarrow> \<exists>q. p_heap s' r = Some q \<and> idle q" for r
        using inv(5) q' d'(3) Cons by (auto simp: s')
      show "r \<in> set (p # held) \<Longrightarrow> \<exists>q. p_heap s' r = Some q \<and> uq_inv q" for r
        using inv(6) q' by (auto simp: s' idle_def)
      show "p_heap s' r = Some x \<Longrightarrow> r < p_next s'" for r x
        using inv(7) q(1) by (auto simp: s' split: if_splits)
    qed (use s' d' Cons inv(2-4) in auto)
    with lk q' free show ?thesis by (auto simp: s')
  qed
qed

lemma pool_Unlock_ok:
  assumes "pool_inv (s, held)" and "p \<in> set held"
  shows "\<exists>s'. pool_Unlock (Some p) s = Inr s' \<and> pool_inv (s', remove1 p held)"
proof -
  note inv = assms(1) [unfolded pool_inv_def, simplified]
  obtain q where q: "p_heap s p = Some q" "uq_inv q" using inv assms(2) by blast
  obtain q' where q': "SetSize q 0 True = Inr q'" "idle q'"
    using SetSize_ok [OF q(2), of 0 True] by (auto simp: idle_iff)
  obtain d' where d': "pushfront True (p_deque s) (map Some [p]) = Inr (length [p], d')" "deque_inv d'"
    "elems d' = [p] @ elems (p_deque s)"
    using pushfront_ok [of "p_deque s" "[p]"] inv by blast
  have "pool_Unlock (Some p) s = Inr ((pool_store s p q')\<lparr>p_deque := d'\<rparr>)"
    using q q' d' by (simp add: pool_Unlock_def pool_deref_def)
  moreover have "pool_inv ((pool_store s p q')\<lparr>p_deque := d'\<rparr>, remove1 p held)"
    using inv d'(2,3) q' assms(2) by (auto simp: pool_inv_def pool_store_def)
  ultimately show ?thesis by blast
qed

lemma pool_for_ok:
  assumes "\<And>q. idle q \<Longrightarrow> \<exists>q'. f q = Inr q' \<and> idle q'"
  shows "\<forall>p \<in> set ps. \<exists>q. p_heap s p = Some q \<and> idle q \<Longrightarrow>
    \<exists>s'. pool_for f ps s = Inr s' \<and> p_deque s' = p_deque s \<and> p_next s' = p_next s \<and>
      (\<forall>p. p \<notin> set ps \<longrightarrow> p_heap s' p = p_heap s p) \<and>
      (\<forall>p \<in> set ps. \<exists>q. p_heap s' p = Some q \<and> idle q)"
proof (induction ps arbitrary: s)
  case Nil
  then show ?case by simp
next
  case (Cons p ps)
  then obtain q where q: "p_heap s p = Some q" "idle q" by auto
  then obtain q' where q': "f q = Inr q'" "idle q'" using assms by blast
  let ?s = "pool_store s p q'"
  have "\<forall>r \<in> set ps. \<exists>q. p_heap ?s r = Some q \<and> idle q"
    using Cons.prems q'(2) by (auto simp: pool_store_def)
  from Cons.IH [OF this] obtain s' where s': "pool_for f ps ?s = Inr s'" "p_deque s' = p_deque s"
    "p_next s' = p_next s" "\<forall>r. r \<notin> set ps \<longrightarrow> p_heap s' r = p_heap ?s r"
    "\<forall>r \<in> set ps. \<exists>q. p_heap s' r = Some q \<and> idle q"
    by (auto simp: pool_store_def)
  have "\<forall>r \<in> set (p # ps). \<exists>q. p_heap s' r = Some q \<and> idle q"
    using s'(4,5) q'(2) by (auto simp: pool_store_def)
  moreover have "\<forall>r. r \<notin> set (p # ps) \<longrightarrow> p_heap s' r = p_heap s r"
    using s'(4) by (auto simp: pool_store_def)
  ultimately show ?case using s'(1-3) q(1) q'(1) by (auto simp: pool_deref_def)
qed

lemma pool_for_inv:
  assumes "\<And>q. idle q \<Longrightarrow> \<exists>q'. f q = Inr q' \<and> idle q'" and "pool_inv (s, held)"
  shows "\<exists>s'. pool_for f (elems (p_deque s)) s = Inr s' \<and> pool_inv (s', held)"
proof -
  let ?ps = "elems (p_deque s)"
  note inv = pool_invD [OF assms(2)]
  obtain s' where s': "pool_for f ?ps s = Inr s'" "p_deque s' = p_deque s" "p_next s' = p_next s"
    "\<forall>p. p \<notin> set ?ps \<longrightarrow> p_heap s' p = p_heap s p"
    "\<forall>p \<in> set ?ps. \<exists>q. p_heap s' p = Some q \<and> idle q"
    using pool_for_ok [where f = f and ps = ?ps and s = s, OF assms(1)] inv(5) by blast
  have "pool_inv (s', held)"
  proof (rule pool_invI)
    show "p \<in> set held \<Longrightarrow> \<exists>q. p_heap s' p = Some q \<and> uq_inv q" for p
      using s'(4) inv(4,6) by fastforce
    show "p_heap s' p = Some q \<Longrightarrow> p < p_next s'" for p q
      using s'(3,4) inv(5,7) by (cases "p \<in> set ?ps") fastforce+
  qed (use s' inv in auto)
  with s'(1) show ?thesis by blast
qed

lemma CleanUQueuePool_ok:
  assumes "pool_inv (s, held)"
  shows "\<exists>s'. CleanUQueuePool s = Inr s' \<and> pool_inv (s', held)"
proof -
  have "idle q \<Longrightarrow> \<exists>q'. CleanTrack q = Inr q' \<and> idle q'" for q
    using CleanTrack_ok [of q] by (auto simp: idle_iff)
  from pool_for_inv [OF this assms] show ?thesis
    using assms by (auto simp: CleanUQueuePool_def pooled_ok pool_inv_def)
qed

lemma ResetSize_ok:
  assumes "pool_inv (s, held)" and "n \<le> max32"
  shows "\<exists>s'. ResetSize n s = Inr s' \<and> pool_inv (s', held)"
proof -
  have "idle q \<Longrightarrow> \<exists>q'. (if m_nMaxBuffer q > n then ReallocBuffer q n else Inr q) = Inr q' \<and> idle q'" for q
    using ReallocBuffer_ok [OF _ assms(2), of q] by (auto simp: idle_iff)
  from pool_for_inv [OF this assms(1)] show ?thesis
    using assms(1) by (auto simp: ResetSize_def pooled_ok pool_inv_def)
qed

lemma DestroyUQueuePool_ok:
  assumes "pool_inv (s, held)"
  shows "\<exists>s'. DestroyUQueuePool s = Inr s' \<and> pool_inv (s', held) \<and> elems (p_deque s') = []"
  using assms deque_clear_ok [of "p_deque s"]
  by (auto simp: DestroyUQueuePool_def pooled_ok pool_inv_def)

lemma GetMemoryConsumed_loop_ok:
  "\<forall>p \<in> set ps. p_heap s p \<noteq> None \<Longrightarrow>
   GetMemoryConsumed_loop ps s n = Inr (n + sum_list (map (\<lambda>p. m_nMaxBuffer (the (p_heap s p))) ps))"
  by (induction ps arbitrary: n) (auto simp: pool_deref_def split: option.splits)

lemma pool_step_inv:
  assumes "pool_step c c'" and "pool_inv c"
  shows "pool_inv c'"
  using assms
proof (cases rule: pool_step.cases)
  case (step_lock i b os be s p s' held)
  with pool_Lock_ok [of s held i b os be] assms(2) show ?thesis by auto
next
  case (step_unlock p held s s')
  with pool_Unlock_ok [of s held p] assms(2) show ?thesis by auto
next
  case (step_use p held q s)
  then show ?thesis using assms(2) by (auto simp: pool_inv_def pool_store_def)
next
  case (step_clean s s' held)
  with CleanUQueuePool_ok [of s held] assms(2) show ?thesis by auto
next
  case (step_reset n s s' held)
  with ResetSize_ok [of s held n] assms(2) show ?thesis by auto
next
  case (step_destroy s s' held)
  with DestroyUQueuePool_ok [of s held] assms(2) show ?thesis by auto
qed

lemma pool_reachable_inv: "pool_reachable c \<Longrightarrow> pool_inv c"
proof (induction rule: pool_reachable.induct)
  case reach_init
  then show ?case by (simp add: pool_inv_def pool_new_def deque_new_ok)
next
  case (reach_step c c')
  then show ?case by (blast intro: pool_step_inv)
qed

lemma pool_step_progress:
  assumes "pool_inv (s, held)"
  shows "\<exists>s'. CleanUQueuePool s = Inr s'" "n \<le> max32 \<Longrightarrow> \<exists>s'. ResetSize n s = Inr s'"
    "\<exists>s'. DestroyUQueuePool s = Inr s'" "p \<in> set held \<Longrightarrow> \<exists>s'. pool_Unlock (Some p) s = Inr s'"
  using CleanUQueuePool_ok [OF assms] ResetSize_ok [OF assms] DestroyUQueuePool_ok [OF assms]
    pool_Unlock_ok [OF assms] by blast+

section \<open>Properties\<close>

text \<open>
  In every state that a pool and its users can reach, locking a buffer succeeds and gives
  one that nobody holds: it is empty, has the requested system, byte order, block size and at
  least the requested capacity, whether it was reused or new.
\<close>

theorem pool_lock_exclusive:
  assumes "pool_reachable (s, held)" and "initSize \<le> max32" and "blockSize \<le> max32"
  shows "\<exists>p s' q. pool_Lock os be initSize blockSize s = Inr (p, s') \<and> p \<notin> set held \<and>
    p_heap s' p = Some q \<and> uq_inv q \<and> content q = [] \<and> m_os q = os \<and>
    m_bSameEndian q = (be = IsBigEndian) \<and> initSize \<le> m_nMaxBuffer q \<and>
    m_nBlockSize q = (if blockSize = 0 then DEFAULT_MEMORY_BUFFER_BLOCK_SIZE else blockSize)"
proof -
  from pool_Lock_ok [OF pool_reachable_inv [OF assms(1)] assms(2,3), of os be]
  obtain p s' q where "pool_Lock os be initSize blockSize s = Inr (p, s')" "p \<notin> set held"
    "p_heap s' p = Some q" "idle q" "m_os q = os" "m_bSameEndian q = (be = IsBigEndian)"
    "initSize \<le> m_nMaxBuffer q"
    "m_nBlockSize q = (if blockSize = 0 then DEFAULT_MEMORY_BUFFER_BLOCK_SIZE else blockSize)"
    by blast
  then show ?thesis by (auto simp: idle_iff)
qed

theorem pool_lock_exclusive_witness:
  "\<exists>p s' q. pool_Lock osWin False 64 0 pool_new = Inr (p, s') \<and> p \<notin> set [] \<and>
    p_heap s' p = Some q \<and> uq_inv q \<and> content q = [] \<and> m_os q = osWin \<and>
    m_bSameEndian q = (False = IsBigEndian) \<and> 64 \<le> m_nMaxBuffer q \<and>
    m_nBlockSize q = (if (0 :: nat) = 0 then DEFAULT_MEMORY_BUFFER_BLOCK_SIZE else 0)"
  by (rule pool_lock_exclusive [OF reach_init]) (simp_all add: max32_def)

text \<open>
  C10: No two holders ever share a buffer and no buffer waits in the pool while somebody holds
  it; every buffer that waits is alive and empty, and every operation on the pool runs without a
  fault: locking with any 32-bit sizes, which gives an empty buffer that nobody holds, unlocking a held
  buffer, cleaning, resetting to any 32-bit size, destroying and measuring.
\<close>

theorem pool_no_sharing:
  assumes "pool_reachable (s, held)"
  shows "distinct (elems (p_deque s) @ held) \<and>
    (\<forall>p \<in> set (elems (p_deque s)). \<exists>q. p_heap s p = Some q \<and> uq_inv q \<and> content q = []) \<and>
    (\<forall>os be. \<forall>initSize \<le> max32. \<forall>blockSize \<le> max32. \<exists>p s' q. pool_Lock os be initSize blockSize s = Inr (p, s') \<and>
       p \<notin> set held \<and> p_heap s' p = Some q \<and> uq_inv q \<and> content q = [] \<and> initSize \<le> m_nMaxBuffer q) \<and>
    (\<forall>p \<in> set held. \<exists>s'. pool_Unlock (Some p) s = Inr s') \<and>
    (\<exists>s'. CleanUQueuePool s = Inr s') \<and> (\<forall>n \<le> max32. \<exists>s'. ResetSize n s = Inr s') \<and>
    (\<exists>s'. DestroyUQueuePool s = Inr s') \<and>
    GetMemoryConsumed s = Inr (sum_list (map (\<lambda>p. m_nMaxBuffer (the (p_heap s p))) (elems (p_deque s))))"
proof -
  have i: "pool_inv (s, held)" using assms by (rule pool_reachable_inv)
  note inv = pool_invD [OF i]
  have "GetMemoryConsumed s = Inr (sum_list (map (\<lambda>p. m_nMaxBuffer (the (p_heap s p))) (elems (p_deque s))))"
    using GetMemoryConsumed_loop_ok [of "elems (p_deque s)" s 0] inv(1,5)
    by (fastforce simp: GetMemoryConsumed_def pooled_ok)
  moreover have "\<forall>p \<in> set (elems (p_deque s)). \<exists>q. p_heap s p = Some q \<and> uq_inv q \<and> content q = []"
    using inv(5) by (simp add: idle_iff)
  moreover have "\<exists>p s' q. pool_Lock os be initSize blockSize s = Inr (p, s') \<and> p \<notin> set held \<and> p_heap s' p = Some q \<and>
      uq_inv q \<and> content q = [] \<and> initSize \<le> m_nMaxBuffer q"
    if "initSize \<le> max32" "blockSize \<le> max32" for os be initSize blockSize
    using pool_Lock_ok [OF i that, of os be] by (fastforce simp: idle_iff)
  ultimately show ?thesis
    using inv(2-4) pool_step_progress [OF i] by simp
qed

lemma pool_reachable_lock2: "\<exists>s. pool_reachable (s, [1, 0])"
proof -
  obtain s1 where s1: "pool_Lock GetOS False 8 8 pool_new = Inr (0, s1)" "p_next s1 = 1"
      "p_deque s1 = CSafeDeque_new INITIAL_CAPACITY"
    by (simp add: pool_Lock_def pool_new_def popfront_def CSafeDeque_new_def INITIAL_CAPACITY_def pool_store_def)
  then obtain s2 where s2: "pool_Lock GetOS False 8 8 s1 = Inr (1, s2)"
    by (simp add: pool_Lock_def popfront_def CSafeDeque_new_def INITIAL_CAPACITY_def)
  have "pool_reachable (s1, [0])"
    by (rule reach_step [OF reach_init step_lock [OF _ _ s1(1)]]) (simp_all add: max32_def)
  then have "pool_reachable (s2, [1, 0])"
    by (rule reach_step [OF _ step_lock [OF _ _ s2]]) (simp_all add: max32_def)
  then show ?thesis by auto
qed

theorem pool_no_sharing_witness:
  "\<exists>s. distinct (elems (p_deque s) @ [1, 0]) \<and> (\<forall>p \<in> set [1, 0]. \<exists>s'. pool_Unlock (Some p) s = Inr s') \<and>
    (\<exists>p s' q. pool_Lock osWin True 4096 512 s = Inr (p, s') \<and> p \<notin> {0, 1} \<and> content q = [] \<and> p_heap s' p = Some q) \<and>
    (\<exists>s'. ResetSize 0 s = Inr s')"
proof -
  obtain s where "pool_reachable (s, [1, 0])" using pool_reachable_lock2 by blast
  note all = pool_no_sharing [OF this]
  have "\<exists>p s' q. pool_Lock osWin True 4096 512 s = Inr (p, s') \<and> p \<notin> {0, 1} \<and> content q = [] \<and> p_heap s' p = Some q"
    using all [THEN conjunct2, THEN conjunct2, THEN conjunct1, rule_format, of 4096 512 osWin True]
    by (auto simp: max32_def)
  with all show ?thesis by blast
qed

text \<open>
  Streaming a buffer into a smart pointer that has none attaches a buffer from the pool and
  packs the bytes with their length; but the new buffer is told the opposite of the byte order
  of the source, because GetEndian answers the opposite of what SetEndian stored.
\<close>

theorem scope_put_inverts_endian:
  assumes "pool_reachable (s, held)" and "uq_inv q" and "2 * (length (content q) + 4) + 4096 \<le> max32"
  shows "\<exists>p s' b. scope_put_queue None q s = Inr (p, s') \<and> p \<notin> set held \<and> p_heap s' p = Some b \<and>
    content b = le_bytes 4 (length (content q)) @ content q \<and> m_os b = m_os q \<and>
    m_bSameEndian b = (\<not> m_bSameEndian q)"
proof -
  let ?B = DEFAULT_MEMORY_BUFFER_BLOCK_SIZE
  obtain p s1 b where b: "pool_Lock (m_os q) (GetEndian q) ?B ?B s = Inr (p, s1)" "p \<notin> set held"
    "p_heap s1 p = Some b" "idle b" "m_os b = m_os q" "m_bSameEndian b = (GetEndian q = IsBigEndian)"
    "m_nBlockSize b = ?B"
    using pool_Lock_ok [OF pool_reachable_inv [OF assms(1)], of ?B ?B "m_os q" "GetEndian q"] by auto
  have "m_nSize b = 0" using b(4) by (simp add: idle_def)
  then have "uq_inv b" "content b = []" "room b (length (lwire (content q)))"
    using assms(3) b(4,7) by (simp_all add: idle_iff room_def DEFAULT_MEMORY_BUFFER_BLOCK_SIZE_def)
  then obtain b' where b': "put_queue b q = Inr b'" "same_settings b b'" "content b' = lwire (content q)"
    using put_queue_ok [of b q] assms(2) by auto
  have "scope_put_queue None q s = Inr (p, pool_store s1 p b')"
    using b(1,3) b'(1) by (simp add: scope_put_queue_def pool_deref_def)
  moreover have "m_os b' = m_os q" "m_bSameEndian b' = (\<not> m_bSameEndian q)"
    using b b'(2) by (simp_all add: same_settings_def GetEndian_def IsBigEndian_def)
  ultimately show ?thesis
    using b(2) b'(3) by (auto simp: pool_store_def lwire_def)
qed

theorem scope_put_inverts_endian_witness:
  "\<exists>p s' b. scope_put_queue None sample_queue pool_new = Inr (p, s') \<and> p \<notin> set [] \<and> p_heap s' p = Some b \<and>
    content b = le_bytes 4 (length (content sample_queue)) @ content sample_queue \<and> m_os b = m_os sample_queue \<and>
    m_bSameEndian b = (\<not> m_bSameEndian sample_queue)"
  by (rule scope_put_inverts_endian [OF reach_init sample_queue_inv])
    (simp add: sample_queue_def content_def max32_def)

end
