(* ===== verification/Numtext.thy ===== *)
theory Numtext
  imports Spa_Prelude
begin

text \<open>
  Numbers as text: \<^verbatim>\<open>atoi\<close> and its siblings and the
  \<^verbatim>\<open>ToString\<close> functions of \<^verbatim>\<open>include/definebase.h\<close>, and the decimals of
  \<^verbatim>\<open>include/commutil.h\<close>.

  \<^item> A C string is the list of its characters before the terminating null; a pointer into it is
    the rest of the list, and the null is the end of the list.
  \<^item> Unsigned arithmetic is on machine words, where it wraps; signed overflow, which C++ leaves
    undefined, is the fault \<open>Signed_Overflow\<close>.
  \<^item> \<open>dec_text\<close> is the mathematical decimal notation that the functions are compared with.
\<close>

section \<open>Decimal notation\<close>

definition is_digit :: "char \<Rightarrow> bool" where
  "is_digit c \<longleftrightarrow> 48 \<le> (of_char c :: nat) \<and> (of_char c :: nat) \<le> 57"

definition digit_val :: "char \<Rightarrow> nat" where
  "digit_val c = of_char c - 48"

definition digit_char :: "nat \<Rightarrow> char" where
  "digit_char d = char_of (48 + d)"

fun dec_text :: "nat \<Rightarrow> string" where
  "dec_text n = (if n < 10 then [digit_char n] else dec_text (n div 10) @ [digit_char (n mod 10)])"

declare dec_text.simps [simp del]

definition dec_value :: "nat \<Rightarrow> string \<Rightarrow> nat" where
  "dec_value n ds = foldl (\<lambda>x c. x * 10 + digit_val c) n ds"

definition int_text :: "int \<Rightarrow> string" where
  "int_text x = (if x < 0 then CHR ''-'' # dec_text (nat (- x)) else dec_text (nat x))"

text \<open>Where a run of digits ends.\<close>

definition no_digit :: "string \<Rightarrow> bool" where
  "no_digit s \<longleftrightarrow> (case s of [] \<Rightarrow> True | c # _ \<Rightarrow> \<not> is_digit c)"

lemma digit_char_ok: "d < 10 \<Longrightarrow> is_digit (digit_char d) \<and> digit_val (digit_char d) = d"
  by (simp add: digit_char_def is_digit_def digit_val_def)

lemma dec_value_simps [simp]:
  "dec_value n [] = n"
  "dec_value n (c # ds) = dec_value (n * 10 + digit_val c) ds"
  "dec_value n (ds @ es) = dec_value (dec_value n ds) es"
  by (simp_all add: dec_value_def)

lemma dec_text_digits: "list_all is_digit (dec_text n)"
proof (induction n rule: dec_text.induct)
  case (1 n)
  then show ?case
    using digit_char_ok [of n] digit_char_ok [of "n mod 10"] by (subst dec_text.simps) auto
qed

lemma dec_text_value: "dec_value 0 (dec_text n) = n"
proof (induction n rule: dec_text.induct)
  case (1 n)
  then show ?case
    using digit_char_ok [of n] digit_char_ok [of "n mod 10"] by (subst dec_text.simps) auto
qed

lemma dec_text_not_Nil [simp]: "dec_text n \<noteq> []"
  by (subst dec_text.simps) simp

lemma length_dec_text: "0 < k \<Longrightarrow> n < 10 ^ k \<Longrightarrow> length (dec_text n) \<le> k"
proof (induction n arbitrary: k rule: dec_text.induct)
  case (1 n)
  show ?case
  proof (cases "n < 10")
    case True
    with 1(2) show ?thesis by (subst dec_text.simps) simp
  next
    case False
    with 1(3) have "k \<noteq> 1" by auto
    with 1(2) obtain j where j: "k = Suc j" "0 < j" by (cases k) auto
    with 1(3) have "n div 10 < 10 ^ j"
      by (simp add: div_less_iff_less_mult mult.commute)
    with 1(1) [OF False j(2)] False j show ?thesis by (subst dec_text.simps) simp
  qed
qed

lemma dec_text_hd: "is_digit (hd (dec_text n))"
  using dec_text_digits [of n] by (cases "dec_text n") auto

lemma digit_not: "is_digit c \<Longrightarrow> c \<noteq> CHR ''-'' \<and> c \<noteq> CHR '' '' \<and> c \<noteq> CHR ''.''"
  by (auto simp: is_digit_def)

lemma digit_val_le: "is_digit c \<Longrightarrow> digit_val c \<le> 9"
  unfolding is_digit_def digit_val_def by arith

lemma dec_value_bound: "list_all is_digit ds \<Longrightarrow> dec_value n ds < (n + 1) * 10 ^ length ds"
proof (induction ds arbitrary: n)
  case Nil
  then show ?case by simp
next
  case (Cons c ds)
  have "digit_val c \<le> 9" using Cons.prems digit_val_le by simp
  then have "n * 10 + digit_val c + 1 \<le> (n + 1) * 10" by simp
  then have "(n * 10 + digit_val c + 1) * 10 ^ length ds \<le> (n + 1) * 10 * 10 ^ length ds"
    by (rule mult_right_mono) simp
  moreover have "dec_value (n * 10 + digit_val c) ds < (n * 10 + digit_val c + 1) * 10 ^ length ds"
    using Cons by simp
  moreover have "(n + 1) * 10 * 10 ^ length ds = (n + 1) * 10 ^ length (c # ds)"
    by (simp only: list.size add_0_right add_Suc_right power_Suc mult.assoc)
  ultimately show ?case unfolding dec_value_simps by linarith
qed

lemma dec_value_shift: "dec_value n ds = n * 10 ^ length ds + dec_value 0 ds"
proof (induction ds rule: rev_induct)
  case (snoc c ds)
  then show ?case by simp
qed simp

section \<open>Text to number\<close>

text \<open>The loop of \<^verbatim>\<open>atoui\<close> and \<^verbatim>\<open>atoull\<close>.\<close>

fun atou_loop :: "'w::len word \<Rightarrow> string \<Rightarrow> 'w word \<times> string" where
  "atou_loop x [] = (x, [])"
| "atou_loop x (c # p) =
     (if is_digit c then atou_loop (push_bit 3 x + push_bit 1 x + word_of_nat (digit_val c)) p
      else (x, c # p))"

definition not_space :: "string \<Rightarrow> bool" where
  "not_space p \<longleftrightarrow> p = [] \<or> hd p \<noteq> CHR '' ''"

definition atoui :: "string \<Rightarrow> fault + (32 word \<times> string)" where
  "atoui p = bindr (require (not_space p)) (\<lambda>_. Inr (atou_loop 0 p))"

definition atoull :: "string \<Rightarrow> fault + (64 word \<times> string)" where
  "atoull p = bindr (require (not_space p)) (\<lambda>_. Inr (atou_loop 0 p))"

text \<open>The loop of \<^verbatim>\<open>atoi\<close> and \<^verbatim>\<open>atoll\<close>; \<open>lim\<close> is the greatest value of the type.\<close>

fun atos_loop :: "nat \<Rightarrow> nat \<Rightarrow> string \<Rightarrow> fault + (nat \<times> string)" where
  "atos_loop lim x [] = Inr (x, [])"
| "atos_loop lim x (c # p) =
     (if is_digit c
      then if x * 10 > lim \<or> x * 10 + digit_val c > lim then Inl Signed_Overflow
           else atos_loop lim (x * 10 + digit_val c) p
      else Inr (x, c # p))"

definition ato_signed :: "nat \<Rightarrow> string \<Rightarrow> fault + (int \<times> string)" where
  "ato_signed lim p =
     bindr (require (not_space p)) (\<lambda>_.
     let neg = (p \<noteq> [] \<and> hd p = CHR ''-''); p = (if neg then tl p else p) in
     bindr (atos_loop lim 0 p) (\<lambda>(x, end'). Inr (if neg then - int x else int x, end')))"

definition atoi :: "string \<Rightarrow> fault + (int \<times> string)" where
  "atoi = ato_signed 2147483647"

definition atoll :: "string \<Rightarrow> fault + (int \<times> string)" where
  "atoll = ato_signed 9223372036854775807"

lemma atou_loop_digits:
  "list_all is_digit ds \<Longrightarrow> no_digit rest \<Longrightarrow>
   atou_loop (word_of_nat n) (ds @ rest) = (word_of_nat (dec_value n ds), rest)"
proof (induction ds arbitrary: n)
  case Nil
  then show ?case by (cases rest) (simp_all add: no_digit_def)
next
  case (Cons c ds)
  have "push_bit 3 (word_of_nat n :: 'a word) + push_bit 1 (word_of_nat n) + word_of_nat (digit_val c) =
      word_of_nat (n * 10 + digit_val c)"
    by (simp add: push_bit_eq_mult algebra_simps)
  with Cons show ?case by (simp del: of_nat_add of_nat_mult)
qed

lemma atos_loop_digits:
  "list_all is_digit ds \<Longrightarrow> no_digit rest \<Longrightarrow> n \<le> lim \<Longrightarrow>
   atos_loop lim n (ds @ rest) =
     (if dec_value n ds \<le> lim then Inr (dec_value n ds, rest) else Inl Signed_Overflow)"
proof (induction ds arbitrary: n)
  case Nil
  then show ?case by (cases rest) (simp_all add: no_digit_def)
next
  case (Cons c ds)
  let ?m = "n * 10 + digit_val c"
  show ?case
  proof (cases "?m \<le> lim")
    case True
    with Cons show ?thesis by simp
  next
    case False
    have "?m \<le> ?m * 10 ^ length ds" by simp
    then have "?m \<le> dec_value ?m ds"
      using dec_value_shift [of ?m ds] by linarith
    with False Cons.prems(1) show ?thesis by simp
  qed
qed

lemma dec_not_space: "ds \<noteq> [] \<Longrightarrow> list_all is_digit ds \<Longrightarrow> not_space (ds @ rest)"
  using digit_not by (cases ds) (auto simp: not_space_def)

lemma atoull_digits:
  assumes "list_all is_digit ds" and "ds \<noteq> []" and "no_digit rest"
  shows "atoull (ds @ rest) = Inr (word_of_nat (dec_value 0 ds), rest)"
  using atou_loop_digits [OF assms(1,3), of 0, where 'a = 64] dec_not_space [OF assms(2,1)]
  by (simp add: atoull_def require_def)

lemma atoui_digits:
  assumes "list_all is_digit ds" and "ds \<noteq> []" and "no_digit rest"
  shows "atoui (ds @ rest) = Inr (word_of_nat (dec_value 0 ds), rest)"
  using atou_loop_digits [OF assms(1,3), of 0, where 'a = 32] dec_not_space [OF assms(2,1)]
  by (simp add: atoui_def require_def)

lemma ato_signed_digits:
  assumes "list_all is_digit ds" and "ds \<noteq> []" and "no_digit rest"
  shows "ato_signed lim (ds @ rest) =
      (if dec_value 0 ds \<le> lim then Inr (int (dec_value 0 ds), rest) else Inl Signed_Overflow)"
    and "ato_signed lim (CHR ''-'' # ds @ rest) =
      (if dec_value 0 ds \<le> lim then Inr (- int (dec_value 0 ds), rest) else Inl Signed_Overflow)"
proof -
  note l = atos_loop_digits [OF assms(1,3), of 0 lim]
  have h: "hd (ds @ rest) \<noteq> CHR ''-''"
    using assms(1,2) digit_not by (cases ds) auto
  show "ato_signed lim (ds @ rest) =
      (if dec_value 0 ds \<le> lim then Inr (int (dec_value 0 ds), rest) else Inl Signed_Overflow)"
    using l h dec_not_space [OF assms(2,1), of rest] by (simp add: ato_signed_def require_def)
  show "ato_signed lim (CHR ''-'' # ds @ rest) =
      (if dec_value 0 ds \<le> lim then Inr (- int (dec_value 0 ds), rest) else Inl Signed_Overflow)"
    using l by (simp add: ato_signed_def require_def not_space_def)
qed

lemma ato_signed_int_text:
  assumes "\<bar>x\<bar> \<le> int lim" and "no_digit rest"
  shows "ato_signed lim (int_text x @ rest) = Inr (x, rest)"
  using ato_signed_digits [OF dec_text_digits dec_text_not_Nil assms(2)] assms(1)
  by (auto simp: int_text_def dec_text_value)

section \<open>Number to text\<close>

definition sub8 :: "nat \<Rightarrow> nat \<Rightarrow> nat" where
  "sub8 a b = (a + 256 - b mod 256) mod 256"

definition add8 :: "nat \<Rightarrow> nat \<Rightarrow> nat" where
  "add8 a b = (a + b) mod 256"

lemma sub8_le: "b \<le> a \<Longrightarrow> a < 256 \<Longrightarrow> sub8 a b = a - b"
proof -
  assume "b \<le> a" "a < 256"
  then have "a + 256 - b mod 256 = (a - b) + 256" by simp
  with \<open>a < 256\<close> show ?thesis unfolding sub8_def by simp
qed

lemma sub8_wrap: "a < 256 \<Longrightarrow> sub8 a (Suc a) = 255"
  by (cases "a = 255") (simp_all add: sub8_def)

text \<open>The loop that writes digits from the end; \<open>start\<close> is an \<^verbatim>\<open>unsigned char\<close>.\<close>

function ToString_loop :: "nat \<Rightarrow> nat \<Rightarrow> char mem \<Rightarrow> fault + (nat \<times> char mem)" where
  "ToString_loop x start buff =
     (if x = 0 then Inr (start, buff)
      else bindr (mem_write buff start [Some (digit_char (x mod 10))]) (\<lambda>buff.
           ToString_loop (x div 10) (sub8 start 1) buff))"
  by auto
termination by (relation "measure (\<lambda>(x, _, _). x)") auto

declare ToString_loop.simps [simp del]

text \<open>
  The four integer versions differ in the index \<open>eos\<close> of the terminating null. The result is the
  index of the first character, the number of characters and the buffer.
\<close>

definition ToString_signed :: "nat \<Rightarrow> int \<Rightarrow> int \<Rightarrow> char mem \<Rightarrow> nat \<Rightarrow> fault + (nat \<times> nat \<times> char mem)" where
  "ToString_signed eos lim x buff chars =
     bindr (require (chars > eos)) (\<lambda>_.
     if x = 0
     then bindr (mem_write buff 0 [Some CHR ''0'', Some (CHR 0x00)]) (\<lambda>buff. Inr (0, 1, buff))
     else bindr (mem_write buff eos [Some (CHR 0x00)]) (\<lambda>buff.
          let neg = x < 0 in
          if neg \<and> x < - lim then Inl Signed_Overflow
          else bindr (ToString_loop (nat \<bar>x\<bar>) (eos - 1) buff) (\<lambda>(start, buff).
               let chars = sub8 (eos - 1) start in
               if neg then bindr (mem_write buff start [Some CHR ''-'']) (\<lambda>buff. Inr (start, add8 chars 1, buff))
               else Inr (add8 start 1, chars, buff))))"

definition ToString_unsigned :: "nat \<Rightarrow> nat \<Rightarrow> char mem \<Rightarrow> nat \<Rightarrow> fault + (nat \<times> nat \<times> char mem)" where
  "ToString_unsigned eos x buff chars =
     bindr (require (chars > eos)) (\<lambda>_.
     if x = 0
     then bindr (mem_write buff 0 [Some CHR ''0'', Some (CHR 0x00)]) (\<lambda>buff. Inr (0, 1, buff))
     else bindr (mem_write buff eos [Some (CHR 0x00)]) (\<lambda>buff.
          bindr (ToString_loop x (eos - 1) buff) (\<lambda>(start, buff).
          Inr (add8 start 1, sub8 (eos - 1) start, buff))))"

definition ToString_int :: "int \<Rightarrow> char mem \<Rightarrow> nat \<Rightarrow> fault + (nat \<times> nat \<times> char mem)" where
  "ToString_int = ToString_signed 11 2147483647"

definition ToString_uint :: "nat \<Rightarrow> char mem \<Rightarrow> nat \<Rightarrow> fault + (nat \<times> nat \<times> char mem)" where
  "ToString_uint = ToString_unsigned 10"

definition ToString_INT64 :: "int \<Rightarrow> char mem \<Rightarrow> nat \<Rightarrow> fault + (nat \<times> nat \<times> char mem)" where
  "ToString_INT64 = ToString_signed 20 9223372036854775807"

definition ToString_UINT64 :: "nat \<Rightarrow> char mem \<Rightarrow> nat \<Rightarrow> fault + (nat \<times> nat \<times> char mem)" where
  "ToString_UINT64 = ToString_unsigned 20"

lemma ToString_loop_ok:
  "0 < x \<Longrightarrow> length (dec_text x) \<le> start + 1 \<Longrightarrow> start < length buff \<Longrightarrow> start < 256 \<Longrightarrow>
   holds buff (start + 1) rest \<Longrightarrow>
   \<exists>buff'. ToString_loop x start buff = Inr (sub8 start (length (dec_text x)), buff') \<and>
     holds buff' (start + 1 - length (dec_text x)) (dec_text x @ rest) \<and> length buff' = length buff"
proof (induction x arbitrary: start buff rest rule: dec_text.induct)
  case (1 x)
  let ?c = "digit_char (x mod 10)" and ?s = "sub8 start 1"
  let ?b = "mem_put buff start (map Some [?c])"
  have w: "mem_write buff start [Some ?c] = Inr ?b"
    using 1(4) mem_write_ok [of start "[Some ?c]" buff] by simp
  have r: "holds ?b (start + 1) rest"
    using 1(4,6) by (intro holds_mem_put_other) auto
  have c: "holds ?b start [?c]"
    using 1(4) by (intro holds_mem_put_same) simp
  have h: "holds ?b start (?c # rest)"
    using c r holds_append [of ?b start "[?c]" rest] by simp
  have l: "length ?b = length buff" using 1(4) by simp
  show ?case
  proof (cases "x < 10")
    case True
    then have "dec_text x = [?c]" by (subst dec_text.simps) simp
    moreover have "ToString_loop x start buff = Inr (?s, ?b)"
      using 1(2) w True by (subst ToString_loop.simps) (simp add: ToString_loop.simps)
    ultimately show ?thesis using h l by simp
  next
    case False
    let ?y = "x div 10"
    have e: "dec_text x = dec_text ?y @ [?c]" using False by (subst dec_text.simps) simp
    have "length (dec_text ?y) \<ge> 1" using dec_text_not_Nil [of ?y] by (cases "dec_text ?y") auto
    with e 1(3) have s: "0 < start" "length (dec_text ?y) \<le> start" by auto
    then have s1: "?s = start - 1" using 1(5) by (simp add: sub8_le)
    have "0 < ?y" "?s < length ?b" "?s < 256" using False s s1 1(4,5) l by auto
    moreover have "holds ?b (?s + 1) (?c # rest)" using h s s1 by simp
    ultimately obtain b' where b': "ToString_loop ?y ?s ?b = Inr (sub8 ?s (length (dec_text ?y)), b')"
      "holds b' (?s + 1 - length (dec_text ?y)) (dec_text ?y @ ?c # rest)" "length b' = length ?b"
      using 1(1) [OF False, of ?s ?b "?c # rest"] s s1 by auto
    have "ToString_loop x start buff = Inr (sub8 ?s (length (dec_text ?y)), b')"
      using 1(2) w b'(1) by (subst ToString_loop.simps) simp
    moreover have "sub8 ?s (length (dec_text ?y)) = sub8 start (length (dec_text x))"
      using s s1 1(5) e sub8_wrap [of "start - 1"] sub8_wrap [of start]
      by (cases "length (dec_text ?y) = start") (simp_all add: sub8_le)
    ultimately show ?thesis using b'(2,3) l e s s1 by simp
  qed
qed

text \<open>What all four promise: the decimal notation, terminated by a null, inside the buffer.\<close>

definition wrote :: "fault + (nat \<times> nat \<times> char mem) \<Rightarrow> string \<Rightarrow> bool" where
  "wrote r t \<longleftrightarrow> (\<exists>start buff. r = Inr (start, length t, buff) \<and> holds buff start (t @ [CHR 0x00]))"

lemma ToString_zero:
  assumes "2 \<le> length buff"
  shows "\<exists>b. mem_write buff 0 [Some CHR ''0'', Some (CHR 0x00)] = Inr b \<and> holds b 0 (''0'' @ [CHR 0x00])"
proof -
  have "mem_write buff 0 (map Some (''0'' @ [CHR 0x00])) = Inr (mem_put buff 0 (map Some (''0'' @ [CHR 0x00])))"
    using assms by (intro mem_write_ok) simp
  moreover have "holds (mem_put buff 0 (map Some (''0'' @ [CHR 0x00]))) 0 (''0'' @ [CHR 0x00])"
    using assms by (intro holds_mem_put_same) simp
  ultimately show ?thesis by simp
qed

lemma dec_text_0 [simp]: "dec_text 0 = ''0''"
  by (subst dec_text.simps) (simp add: digit_char_def, code_simp)

lemma ToString_unsigned_ok:
  assumes "x < 10 ^ eos" and "0 < eos" and "eos < 256" and "eos < chars" and "eos < length buff"
  shows "wrote (ToString_unsigned eos x buff chars) (dec_text x)"
proof (cases "x = 0")
  case True
  with ToString_zero [of buff] assms show ?thesis
    by (auto simp: wrote_def ToString_unsigned_def require_def)
next
  case False
  let ?b = "mem_put buff eos (map Some [CHR 0x00])" and ?n = "length (dec_text x)"
  have n: "?n \<le> eos" "0 < ?n" using length_dec_text [OF assms(2,1)] by simp_all
  have eos: "eos - 1 < length buff" "eos - 1 < 256" "?n \<le> eos - 1 + 1" "eos - 1 + 1 = eos"
    using n assms(2,3,5) by auto
  have w: "mem_write buff eos [Some (CHR 0x00)] = Inr ?b"
    using assms(5) mem_write_ok [of eos "[Some (CHR 0x00)]" buff] by simp
  have "holds ?b (eos - 1 + 1) [CHR 0x00]"
    using assms holds_mem_put_same [of eos "[CHR 0x00]" buff] by simp
  then obtain b' where b': "ToString_loop x (eos - 1) ?b = Inr (sub8 (eos - 1) ?n, b')"
    "holds b' (eos - ?n) (dec_text x @ [CHR 0x00])"
    using ToString_loop_ok [of x "eos - 1" ?b "[CHR 0x00]"] n False assms(2,3,5) eos by auto
  have "add8 (sub8 (eos - 1) ?n) 1 = eos - ?n \<and> sub8 (eos - 1) (sub8 (eos - 1) ?n) = ?n"
  proof (cases "?n = eos")
    case True
    with assms(2,3) sub8_wrap [of "eos - 1"] show ?thesis
      by (simp add: add8_def) (simp add: sub8_def)
  next
    case False
    with n assms(3) show ?thesis by (simp add: sub8_le add8_def)
  qed
  with b' w False assms(4) show ?thesis
    by (auto simp: wrote_def ToString_unsigned_def require_def)
qed

lemma ToString_signed_step:
  assumes "chars > eos" and "x \<noteq> 0" and "\<not> (x < 0 \<and> x < - lim)" and "mem_write buff eos [Some (CHR 0x00)] = Inr b"
    and "ToString_loop (nat \<bar>x\<bar>) (eos - 1) b = Inr (start, b')"
  shows "ToString_signed eos lim x buff chars =
    (if x < 0
     then bindr (mem_write b' start [Some CHR ''-'']) (\<lambda>b. Inr (start, add8 (sub8 (eos - 1) start) 1, b))
     else Inr (add8 start 1, sub8 (eos - 1) start, b'))"
  unfolding ToString_signed_def Let_def assms(4) bindr_simps assms(5) prod.case
  using assms(1-3) by (simp add: require_def)

lemma ToString_signed_ok:
  assumes "nat \<bar>x\<bar> < 10 ^ (eos - 1)" and "- lim \<le> x" and "1 < eos" and "eos < 256" and "eos < chars"
    and "eos < length buff"
  shows "wrote (ToString_signed eos lim x buff chars) (int_text x)"
proof (cases "x = 0")
  case True
  with ToString_zero [of buff] assms show ?thesis
    by (auto simp: wrote_def ToString_signed_def require_def int_text_def)
next
  case False
  let ?b = "mem_put buff eos (map Some [CHR 0x00])" and ?m = "nat \<bar>x\<bar>" and ?n = "length (dec_text (nat \<bar>x\<bar>))"
  have n: "?n \<le> eos - 1" "0 < ?n" using length_dec_text [OF _ assms(1)] assms(3) by simp_all
  have lim: "\<not> (x < 0 \<and> x < - lim)" using assms(2) by simp
  have w: "mem_write buff eos [Some (CHR 0x00)] = Inr ?b"
    using assms(6) mem_write_ok [of eos "[Some (CHR 0x00)]" buff] by simp
  have eos: "eos - 1 < length ?b" "eos - 1 < 256" "?n \<le> eos - 1 + 1" "eos - 1 + 1 = eos" "0 < ?m"
    using n assms(3,4,6) False by auto
  have "holds ?b (eos - 1 + 1) [CHR 0x00]"
    using assms holds_mem_put_same [of eos "[CHR 0x00]" buff] by simp
  then obtain b' where b': "ToString_loop ?m (eos - 1) ?b = Inr (sub8 (eos - 1) ?n, b')"
    "holds b' (eos - ?n) (dec_text ?m @ [CHR 0x00])" "length b' = length ?b"
    using ToString_loop_ok [OF eos(5,3,1,2), of "[CHR 0x00]"] eos(4) by auto
  have st: "sub8 (eos - 1) ?n = eos - 1 - ?n" "sub8 (eos - 1) (eos - 1 - ?n) = ?n"
    "add8 (eos - 1 - ?n) 1 = eos - ?n" "add8 ?n 1 = ?n + 1"
    using n assms(3,4) by (auto simp add: sub8_le add8_def)
  note step = ToString_signed_step [OF assms(5) False lim w b'(1), unfolded st]
  show ?thesis
  proof (cases "x < 0")
    case True
    let ?s = "eos - 1 - ?n"
    let ?b2 = "mem_put b' ?s (map Some [CHR ''-''])"
    have "?n < eos" using n(1) assms(3) by linarith
    then have s: "?s + 1 = eos - ?n" by (simp add: Suc_diff_Suc)
    then have s2: "?s + 1 \<le> length b'" using eos(1) b'(3) by linarith
    have w2: "mem_write b' ?s [Some CHR ''-''] = Inr ?b2"
      using s2 mem_write_ok [of ?s "[Some CHR ''-'']" b'] by simp
    have m: "nat (- x) = ?m" using True by simp
    have h1: "holds ?b2 ?s [CHR ''-'']" using s2 by (intro holds_mem_put_same) simp
    have h2: "holds ?b2 (?s + 1) (dec_text ?m @ [CHR 0x00])"
      using s s2 b'(2) by (intro holds_mem_put_other) auto
    have "holds ?b2 ?s ([CHR ''-''] @ dec_text ?m @ [CHR 0x00])"
      using h1 h2 unfolding holds_append [of ?b2 ?s "[CHR ''-'']"] by simp
    moreover have "ToString_signed eos lim x buff chars = Inr (?s, ?n + 1, ?b2)"
      unfolding step if_P [OF True] w2 bindr_simps by (rule refl)
    moreover have "int_text x = CHR ''-'' # dec_text ?m" using True m by (simp add: int_text_def)
    ultimately show ?thesis unfolding wrote_def by auto
  next
    case neg: False
    then have m: "nat x = ?m" by simp
    have "ToString_signed eos lim x buff chars = Inr (eos - ?n, ?n, b')"
      unfolding step if_not_P [OF neg] by (rule refl)
    moreover have "int_text x = dec_text ?m" using neg m by (simp add: int_text_def)
    ultimately show ?thesis using b'(2) unfolding wrote_def by auto
  qed
qed

section \<open>Decimals\<close>

record DECIMAL =
  dec_scale :: nat
  dec_sign :: nat
  dec_Hi32 :: "32 word"
  dec_Lo64 :: "64 word"

text \<open>Multiplication by a power of ten, as the loops write it.\<close>

fun times10 :: "nat \<Rightarrow> 64 word \<Rightarrow> 64 word" where
  "times10 0 temp = temp"
| "times10 (Suc scale) temp = times10 scale (push_bit 3 temp + push_bit 1 temp)"

definition ParseDec :: "string \<Rightarrow> fault + DECIMAL" where
  "ParseDec data =
     (let posNegative = dropWhile (\<lambda>c. c \<noteq> CHR ''-'') data;
          sign = (if posNegative \<noteq> [] then 0x80 else 0);
          data = (if posNegative \<noteq> [] then posNegative else data) in
      bindr (atoull data) (\<lambda>(temp, end').
      if end' \<noteq> [] \<and> hd end' = CHR ''.''
      then let start = tl end' in
           bindr (atoull start) (\<lambda>(dot, end').
           let scale = (length start - length end') mod 256 in
           Inr \<lparr>dec_scale = scale, dec_sign = sign, dec_Hi32 = 0, dec_Lo64 = times10 scale temp + dot\<rparr>)
      else Inr \<lparr>dec_scale = 0, dec_sign = sign, dec_Hi32 = 0, dec_Lo64 = temp\<rparr>))"

definition insert_at :: "nat \<Rightarrow> string \<Rightarrow> string \<Rightarrow> string" where
  "insert_at pos t s = take pos s @ t @ drop pos s"

definition ToString_DECIMAL :: "DECIMAL \<Rightarrow> string" where
  "ToString_DECIMAL decVal =
     (let s = dec_text (unat (dec_Lo64 decVal)); len = length s mod 256;
          s = (if len \<le> dec_scale decVal then insert_at 0 (replicate (dec_scale decVal - len + 1) CHR ''0'') s else s);
          s = (if dec_sign decVal \<noteq> 0 \<and> dec_Lo64 decVal \<noteq> 0 then insert_at 0 ''-'' s else s) in
      if dec_scale decVal \<noteq> 0 then insert_at (length s - dec_scale decVal) ''.'' s else s)"

definition ToDecimal_INT64 :: "int \<Rightarrow> fault + DECIMAL" where
  "ToDecimal_INT64 n =
     (if n < 0
      then if n < - 9223372036854775807 then Inl Signed_Overflow
           else Inr \<lparr>dec_scale = 0, dec_sign = 0x80, dec_Hi32 = 0, dec_Lo64 = word_of_int (- n)\<rparr>
      else Inr \<lparr>dec_scale = 0, dec_sign = 0, dec_Hi32 = 0, dec_Lo64 = word_of_int n\<rparr>)"

lemma times10_word: "times10 k (word_of_nat n) = word_of_nat (n * 10 ^ k)"
proof (induction k arbitrary: n)
  case (Suc k)
  have "push_bit 3 (word_of_nat n :: 64 word) + push_bit 1 (word_of_nat n) = word_of_nat (n * 10)"
    by (simp add: push_bit_eq_mult algebra_simps)
  with Suc [of "n * 10"] show ?case by (simp del: of_nat_mult add: mult.assoc)
qed simp

text \<open>The digits that \<^verbatim>\<open>ToString\<close> splits at the point: padded in front to more than \<open>scale\<close>.\<close>

definition padded :: "nat \<Rightarrow> nat \<Rightarrow> string" where
  "padded scale n =
     (let s = dec_text n in if length s \<le> scale then replicate (scale - length s + 1) CHR ''0'' @ s else s)"

lemma padded_ok: "list_all is_digit (padded k n)" "dec_value 0 (padded k n) = n" "k < length (padded k n)"
proof -
  have z: "dec_value 0 (replicate m CHR ''0'') = 0" for m
    by (induction m) (simp_all add: digit_val_def)
  have "is_digit CHR ''0''" by (simp add: is_digit_def)
  with dec_text_digits [of n] show "list_all is_digit (padded k n)"
    by (auto simp: padded_def Let_def list_all_iff)
  show "dec_value 0 (padded k n) = n"
    by (simp add: padded_def Let_def dec_text_value z digit_val_def)
  show "k < length (padded k n)" by (simp add: padded_def Let_def)
qed

lemma ToString_DECIMAL_padded:
  assumes "dec_sign d = 0"
  shows "ToString_DECIMAL d =
    (let s = padded (dec_scale d) (unat (dec_Lo64 d)) in
     if dec_scale d = 0 then s
     else take (length s - dec_scale d) s @ ''.'' @ drop (length s - dec_scale d) s)"
proof -
  have "unat (dec_Lo64 d) < 10 ^ 20"
    by (rule order.strict_trans2 [OF unsigned_less]) simp
  then have "length (dec_text (unat (dec_Lo64 d))) \<le> 20"
    by (intro length_dec_text) simp_all
  then have "length (dec_text (unat (dec_Lo64 d))) mod 256 = length (dec_text (unat (dec_Lo64 d)))"
    by simp
  with assms show ?thesis
    by (simp add: ToString_DECIMAL_def padded_def insert_at_def Let_def)
qed

lemma ParseDec_digits:
  assumes "list_all is_digit as" "as \<noteq> []"
  shows "ParseDec as = Inr \<lparr>dec_scale = 0, dec_sign = 0, dec_Hi32 = 0, dec_Lo64 = word_of_nat (dec_value 0 as)\<rparr>"
proof -
  have "dropWhile (\<lambda>c. c \<noteq> CHR ''-'') as = []"
    using assms(1) digit_not by (auto simp: dropWhile_eq_Nil_conv list_all_iff)
  with atoull_digits [OF assms, of "[]"] show ?thesis
    by (simp add: ParseDec_def no_digit_def)
qed

lemma ParseDec_point:
  assumes "list_all is_digit as" "as \<noteq> []" "list_all is_digit bs" "bs \<noteq> []" "length bs < 256"
  shows "ParseDec (as @ ''.'' @ bs) = Inr \<lparr>dec_scale = length bs, dec_sign = 0, dec_Hi32 = 0,
    dec_Lo64 = word_of_nat (dec_value 0 (as @ bs))\<rparr>"
proof -
  have "dropWhile (\<lambda>c. c \<noteq> CHR ''-'') (as @ ''.'' @ bs) = []"
    using assms(1,3) digit_not by (auto simp: dropWhile_eq_Nil_conv list_all_iff)
  moreover have "no_digit (''.'' @ bs)" by (simp add: no_digit_def is_digit_def)
  moreover have "times10 (length bs) (word_of_nat (dec_value 0 as)) + word_of_nat (dec_value 0 bs) =
      word_of_nat (dec_value 0 (as @ bs))"
    by (simp add: times10_word dec_value_shift [of "dec_value 0 as"])
  moreover have "atoull bs = Inr (word_of_nat (dec_value 0 bs), [])"
    using atoull_digits [OF assms(3,4), of "[]"] by (simp add: no_digit_def)
  ultimately show ?thesis
    using atoull_digits [OF assms(1,2), of "''.'' @ bs"] assms(5)
    by (simp add: ParseDec_def Let_def del: dec_value_simps)
qed

lemma ParseDec_ToString:
  assumes "dec_sign d = 0" and "dec_Hi32 d = 0" and "dec_scale d < 256"
  shows "ParseDec (ToString_DECIMAL d) = Inr d"
proof -
  let ?s = "padded (dec_scale d) (unat (dec_Lo64 d))"
  let ?k = "length ?s - dec_scale d"
  note p = padded_ok [where k = "dec_scale d" and n = "unat (dec_Lo64 d)"]
  show ?thesis
  proof (cases "dec_scale d = 0")
    case True
    with ParseDec_digits [OF p(1)] p(2,3) assms show ?thesis
      by (cases d) (auto simp: ToString_DECIMAL_padded Let_def)
  next
    case False
    have "list_all is_digit (take ?k ?s)" "list_all is_digit (drop ?k ?s)"
      using p(1) by (auto simp: list_all_iff dest: in_set_takeD in_set_dropD)
    moreover have "take ?k ?s \<noteq> []" "drop ?k ?s \<noteq> []" "length (drop ?k ?s) = dec_scale d"
      using p(3) False by auto
    ultimately have "ParseDec (take ?k ?s @ ''.'' @ drop ?k ?s) = Inr \<lparr>dec_scale = dec_scale d, dec_sign = 0,
        dec_Hi32 = 0, dec_Lo64 = word_of_nat (dec_value 0 (take ?k ?s @ drop ?k ?s))\<rparr>"
      using ParseDec_point assms(3) by metis
    then have "ParseDec (take ?k ?s @ ''.'' @ drop ?k ?s) = Inr \<lparr>dec_scale = dec_scale d, dec_sign = 0,
        dec_Hi32 = 0, dec_Lo64 = word_of_nat (unat (dec_Lo64 d))\<rparr>"
      unfolding append_take_drop_id p(2) .
    with False assms show ?thesis by (cases d) (simp add: ToString_DECIMAL_padded Let_def)
  qed
qed

lemma ParseDec_negative: "ParseDec (CHR ''-'' # s) = Inr \<lparr>dec_scale = 0, dec_sign = 0x80, dec_Hi32 = 0, dec_Lo64 = 0\<rparr>"
  by (simp add: ParseDec_def atoull_def require_def not_space_def is_digit_def)

section \<open>Comparing strings\<close>

text \<open>
  \<^verbatim>\<open>UCompare\<close>: strings of non-zero code units, the end of the list reads as the
  terminating 0; \<open>None\<close> is a null pointer.
\<close>

definition unit_at :: "int list \<Rightarrow> int" where
  "unit_at s = (case s of [] \<Rightarrow> 0 | c # _ \<Rightarrow> c)"

fun UCompare_loop :: "int list \<Rightarrow> int list \<Rightarrow> int" where
  "UCompare_loop s1 s2 =
     (let res = unit_at s1 - unit_at s2 in
      if res = 0 \<and> s1 \<noteq> [] \<and> s2 \<noteq> [] then UCompare_loop (tl s1) (tl s2) else res)"

declare UCompare_loop.simps [simp del]

definition UCompare :: "int list option \<Rightarrow> int list option \<Rightarrow> int" where
  "UCompare s1 s2 =
     (case s1 of
        None \<Rightarrow> (case s2 of None \<Rightarrow> 0 | Some _ \<Rightarrow> -1)
      | Some a \<Rightarrow> (case s2 of None \<Rightarrow> 1
          | Some b \<Rightarrow> let res = UCompare_loop a b in if res < 0 then -1 else if res > 0 then 1 else 0))"

lemma UCompare_loop_simps [simp]:
  "UCompare_loop [] s2 = - unit_at s2"
  "UCompare_loop s1 [] = unit_at s1"
  "UCompare_loop (a # s1) (b # s2) = (if a = b then UCompare_loop s1 s2 else a - b)"
  by (subst UCompare_loop.simps, simp add: unit_at_def)+

definition c_string :: "int list \<Rightarrow> bool" where
  "c_string s \<longleftrightarrow> list_all (\<lambda>c. 0 < c) s"

lemma UCompare_loop_lexord:
  "c_string a \<Longrightarrow> c_string b \<Longrightarrow>
   (UCompare_loop a b < 0 \<longleftrightarrow> (a, b) \<in> lexord {(x, y). x < y}) \<and> (UCompare_loop a b = 0 \<longleftrightarrow> a = b)"
proof (induction a b rule: list_induct2')
  case 1
  then show ?case by (simp add: unit_at_def)
next
  case (2 x xs)
  then show ?case by (simp add: unit_at_def c_string_def)
next
  case (3 y ys)
  then show ?case by (simp add: unit_at_def c_string_def)
next
  case (4 x xs y ys)
  then show ?case by (auto simp: c_string_def)
qed

section \<open>Properties\<close>

text \<open>
  Printing a 64-bit signed integer other than the least one, or an unsigned one, stays
  inside the caller's buffer, leaves its decimal notation terminated by a null there, and the
  matching parser reads the number back and stops behind it.
\<close>

theorem integer_text_roundtrip:
  assumes "20 < chars" and "20 < length buff" and "\<bar>x\<bar> \<le> 9223372036854775807" and "no_digit rest"
  shows "wrote (ToString_INT64 x buff chars) (int_text x) \<and> atoll (int_text x @ rest) = Inr (x, rest) \<and>
    wrote (ToString_UINT64 (unat u) buff chars) (dec_text (unat u)) \<and>
    atoull (dec_text (unat u) @ rest) = Inr (u, rest)"
proof -
  have "nat \<bar>x\<bar> < 10 ^ 19" using assms(3) by simp
  then have "wrote (ToString_INT64 x buff chars) (int_text x)"
    unfolding ToString_INT64_def using assms by (intro ToString_signed_ok) simp_all
  moreover have "atoll (int_text x @ rest) = Inr (x, rest)"
    unfolding atoll_def using assms(3,4) by (intro ato_signed_int_text) simp_all
  moreover have "unat u < 10 ^ 20"
    by (rule order.strict_trans2 [OF unsigned_less]) simp
  then have "wrote (ToString_UINT64 (unat u) buff chars) (dec_text (unat u))"
    unfolding ToString_UINT64_def using assms by (intro ToString_unsigned_ok) simp_all
  moreover have "atoull (dec_text (unat u) @ rest) = Inr (u, rest)"
    using atoull_digits [OF dec_text_digits dec_text_not_Nil assms(4)] by (simp add: dec_text_value)
  ultimately show ?thesis by blast
qed

theorem integer_text_roundtrip_witness:
  "wrote (ToString_INT64 (-907) (replicate 21 None) 21) (int_text (-907)) \<and>
   atoll (int_text (-907) @ '', 5'') = Inr (-907, '', 5'') \<and>
   wrote (ToString_UINT64 (unat (0xffffffffffffffff :: 64 word)) (replicate 21 None) 21)
     (dec_text (unat (0xffffffffffffffff :: 64 word))) \<and>
   atoull (dec_text (unat (0xffffffffffffffff :: 64 word)) @ '', 5'') = Inr (0xffffffffffffffff, '', 5'')"
  by (rule integer_text_roundtrip) (simp_all add: no_digit_def is_digit_def)

text \<open>
  The least signed 64-bit integer is where both directions leave the type: printing it
  negates it, and parsing its notation accumulates its absolute value first.
\<close>

theorem least_integer_overflows:
  assumes "20 < chars" and "20 < length buff"
  shows "ToString_INT64 (-9223372036854775808) buff chars = Inl Signed_Overflow \<and>
    atoll (int_text (-9223372036854775808)) = Inl Signed_Overflow"
proof
  have "mem_write buff 20 [Some (CHR 0x00)] = Inr (mem_put buff 20 [Some (CHR 0x00)])"
    using assms(2) mem_write_ok [of 20 "[Some (CHR 0x00)]" buff] by simp
  then show "ToString_INT64 (-9223372036854775808) buff chars = Inl Signed_Overflow"
    using assms(1) by (simp add: ToString_INT64_def ToString_signed_def require_def)
  show "atoll (int_text (-9223372036854775808)) = Inl Signed_Overflow"
    using ato_signed_digits(2) [OF dec_text_digits dec_text_not_Nil, of "[]"]
    by (simp add: atoll_def int_text_def no_digit_def dec_text_value)
qed

theorem least_integer_overflows_witness:
  "ToString_INT64 (-9223372036854775808) (replicate 24 None) 24 = Inl Signed_Overflow \<and>
   atoll (int_text (-9223372036854775808)) = Inl Signed_Overflow"
  by (rule least_integer_overflows) simp_all

text \<open>
  A decimal without a sign and with no more than 64 bits is the one that parsing its text
  gives, for every scale; a text with a minus sign loses all its digits and its scale, because the
  parser starts at the sign.
\<close>

theorem decimal_text:
  "(dec_sign d = 0 \<and> dec_Hi32 d = 0 \<and> dec_scale d < 256 \<longrightarrow> ParseDec (ToString_DECIMAL d) = Inr d) \<and>
   ParseDec (CHR ''-'' # s) = Inr \<lparr>dec_scale = 0, dec_sign = 0x80, dec_Hi32 = 0, dec_Lo64 = 0\<rparr>"
  using ParseDec_ToString ParseDec_negative by blast

theorem decimal_text_witness:
  "ParseDec (ToString_DECIMAL \<lparr>dec_scale = 4, dec_sign = 0, dec_Hi32 = 0, dec_Lo64 = 17\<rparr>) =
     Inr \<lparr>dec_scale = 4, dec_sign = 0, dec_Hi32 = 0, dec_Lo64 = 17\<rparr> \<and>
   ParseDec ''-12.5'' = Inr \<lparr>dec_scale = 0, dec_sign = 0x80, dec_Hi32 = 0, dec_Lo64 = 0\<rparr>"
  using decimal_text [of "\<lparr>dec_scale = 4, dec_sign = 0, dec_Hi32 = 0, dec_Lo64 = 17\<rparr>" "''12.5''"] by simp

text \<open>
  String comparison decides the lexicographic order of the code units and equality, with
  null pointers below every string.
\<close>

theorem UCompare_lexicographic:
  assumes "c_string a" and "c_string b"
  shows "UCompare (Some a) (Some b) =
      (if a = b then 0 else if (a, b) \<in> lexord {(x, y). x < y} then -1 else 1) \<and>
    UCompare None (Some a) = -1 \<and> UCompare (Some a) None = 1"
  using UCompare_loop_lexord [OF assms] by (auto simp: UCompare_def Let_def)

theorem UCompare_lexicographic_witness:
  "UCompare (Some [97, 98]) (Some [97, 99]) =
      (if [97, 98] = [97, 99 :: int] then 0 else if ([97, 98], [97, 99 :: int]) \<in> lexord {(x, y). x < y} then -1 else 1) \<and>
    UCompare None (Some [97, 98]) = -1 \<and> UCompare (Some [97, 98]) None = 1"
  by (rule UCompare_lexicographic) (simp_all add: c_string_def)

end
