(* ===== verification/Datetime.thy ===== *)
theory Datetime
  imports Complex_Main Numtext
begin

text \<open>
  \<^verbatim>\<open>UDateTime\<close> of \<^verbatim>\<open>include/definebase.h\<close>: a date and time packed into
  64 bits, its text forms for databases and for the web, and their parser.

  \<^item> \<open>UDateTime\<close> has the bit fields; an assignment to a field keeps its low bits.
  \<^item> Fractions of a second go through \<^verbatim>\<open>double\<close>. Floating point is a parameter: the
    record \<open>dbl\<close> of the operations used, and \<open>dbl_exact\<close> says that a seven-digit fraction of a
    second rounds to the right number of nanoseconds.
  \<^item> \<^verbatim>\<open>std::tm\<close> is a record of integers; \<open>fmt0\<close> is the conversion
    \<^verbatim>\<open>%0Nd\<close>.
\<close>

section \<open>Floating point as a parameter\<close>

record 'd dbl =
  d_of_u64 :: "64 word \<Rightarrow> 'd"
  d_add :: "'d \<Rightarrow> 'd \<Rightarrow> 'd"
  d_mul :: "'d \<Rightarrow> 'd \<Rightarrow> 'd"
  d_div :: "'d \<Rightarrow> 'd \<Rightarrow> 'd"
  d_neg :: "'d \<Rightarrow> 'd"
  d_half :: 'd
  d_to_u32 :: "'d \<Rightarrow> nat"

definition atof :: "'d dbl \<Rightarrow> string \<Rightarrow> fault + ('d \<times> string)" where
  "atof D p =
     bindr (require (not_space p)) (\<lambda>_.
     let neg = (p \<noteq> [] \<and> hd p = CHR ''-''); p = (if neg then tl p else p) in
     bindr (atoull p) (\<lambda>(u, end').
     let r = d_of_u64 D u in
     bindr (if end' \<noteq> [] \<and> hd end' = CHR ''.''
            then let start = tl end' in
                 bindr (atoull start) (\<lambda>(dot, end').
                 let n = length start - length end'; temp = times10 n 1 in
                 Inr (d_add D r (d_div D (d_of_u64 D dot) (d_of_u64 D temp)), end'))
            else Inr (r, end')) (\<lambda>(r, end').
     Inr (if neg then d_neg D r else r, end'))))"

section \<open>The packed date\<close>

record UDateTime =
  Ns100 :: nat
  Second :: nat
  Minute :: nat
  Hour :: nat
  Day :: nat
  Month :: nat
  Year :: nat
  Neg :: nat

text \<open>The bit fields in one 64-bit word, the first one in the lowest bits.\<close>

definition UDateTime_Value :: "UDateTime \<Rightarrow> nat" where
  "UDateTime_Value t =
     Ns100 t + 2 ^ 24 * (Second t + 2 ^ 6 * (Minute t + 2 ^ 6 * (Hour t + 2 ^ 5 * (Day t + 2 ^ 5 *
       (Month t + 2 ^ 4 * (Year t + 2 ^ 13 * Neg t))))))"

definition UDateTime_of :: "nat \<Rightarrow> UDateTime" where
  "UDateTime_of v =
     \<lparr>Ns100 = v mod 2 ^ 24, Second = v div 2 ^ 24 mod 2 ^ 6, Minute = v div 2 ^ 30 mod 2 ^ 6,
      Hour = v div 2 ^ 36 mod 2 ^ 5, Day = v div 2 ^ 41 mod 2 ^ 5, Month = v div 2 ^ 46 mod 2 ^ 4,
      Year = v div 2 ^ 50 mod 2 ^ 13, Neg = v div 2 ^ 63 mod 2\<rparr>"

definition fields_ok :: "UDateTime \<Rightarrow> bool" where
  "fields_ok t \<longleftrightarrow> Ns100 t < 2 ^ 24 \<and> Second t < 2 ^ 6 \<and> Minute t < 2 ^ 6 \<and> Hour t < 2 ^ 5 \<and>
     Day t < 2 ^ 5 \<and> Month t < 2 ^ 4 \<and> Year t < 2 ^ 13 \<and> Neg t < 2"

definition HasMicrosecond :: "UDateTime \<Rightarrow> nat" where
  "HasMicrosecond t = Ns100 t div 10"

definition HasHanosecond :: "UDateTime \<Rightarrow> nat" where
  "HasHanosecond t = Ns100 t * 100"

definition HasDate :: "UDateTime \<Rightarrow> nat" where
  "HasDate t = Day t"

definition HasTime :: "UDateTime \<Rightarrow> nat" where
  "HasTime t = Hour t * 3600 + Minute t * 60 + Second t"

record ctm =
  tm_year :: int
  tm_mon :: int
  tm_mday :: int
  tm_hour :: int
  tm_min :: int
  tm_sec :: int

definition GetCTime :: "UDateTime \<Rightarrow> ctm \<times> nat" where
  "GetCTime t =
     (\<lparr>tm_year = (if Neg t \<noteq> 0 then - int (Year t) else int (Year t)), tm_mon = int (Month t),
       tm_mday = int (Day t), tm_hour = int (Hour t), tm_min = int (Minute t), tm_sec = int (Second t)\<rparr>,
      Ns100 t * 100)"

definition MAX_NANO_SECONDS :: nat where
  "MAX_NANO_SECONDS = 999999999"

text \<open>An assignment to a bit field of \<open>n\<close> bits.\<close>

definition bits :: "nat \<Rightarrow> int \<Rightarrow> nat" where
  "bits n v = nat (v mod 2 ^ n)"

definition UDateTime_Set :: "ctm \<Rightarrow> nat \<Rightarrow> fault + UDateTime" where
  "UDateTime_Set dt ns =
     bindr (require (ns \<le> MAX_NANO_SECONDS)) (\<lambda>_.
     let ns = (if ns > MAX_NANO_SECONDS then MAX_NANO_SECONDS else ns) in
     bindr (require (0 \<le> tm_hour dt \<and> tm_hour dt < 24)) (\<lambda>_.
     bindr (require (0 \<le> tm_min dt \<and> tm_min dt < 60)) (\<lambda>_.
     bindr (require (0 \<le> tm_sec dt \<and> tm_sec dt < 60)) (\<lambda>_.
     bindr (if tm_mday dt \<noteq> 0
            then bindr (require (-8191 \<le> tm_year dt \<and> tm_year dt \<le> 8191)) (\<lambda>_.
                 bindr (require (0 \<le> tm_mon dt \<and> tm_mon dt \<le> 11)) (\<lambda>_.
                 bindr (require (tm_mday dt < 32)) (\<lambda>_.
                 Inr (if tm_year dt < 0 then (1, bits 13 (- tm_year dt)) else (0, bits 13 (tm_year dt)),
                      bits 4 (tm_mon dt), bits 5 (tm_mday dt)))))
            else Inr ((0, 0), 0, 0)) (\<lambda>((neg, year), mon, day).
     Inr \<lparr>Ns100 = bits 24 (int (ns div 100)), Second = bits 6 (tm_sec dt), Minute = bits 6 (tm_min dt),
          Hour = bits 5 (tm_hour dt), Day = day, Month = mon, Year = year, Neg = neg\<rparr>)))))"

text \<open>\<^verbatim>\<open>Set(const timeval &)\<close>: the broken-down time and the microseconds.\<close>

definition UDateTime_Set_timeval :: "ctm \<Rightarrow> nat \<Rightarrow> fault + UDateTime" where
  "UDateTime_Set_timeval tm us = UDateTime_Set tm (us * 10 mod 2 ^ 32)"

section \<open>Printing\<close>

definition zero_pad :: "nat \<Rightarrow> nat \<Rightarrow> string" where
  "zero_pad w n = replicate (w - length (dec_text n)) CHR ''0'' @ dec_text n"

definition fmt0 :: "nat \<Rightarrow> int \<Rightarrow> string" where
  "fmt0 w v = (if v < 0 then CHR ''-'' # zero_pad (w - 1) (nat (- v)) else zero_pad w (nat v))"

definition date_text :: "ctm \<Rightarrow> string" where
  "date_text tm = fmt0 4 (tm_year tm + 1900) @ ''-'' @ fmt0 2 (tm_mon tm + 1) @ ''-'' @ fmt0 2 (tm_mday tm)"

definition time_text :: "ctm \<Rightarrow> string" where
  "time_text tm = fmt0 2 (tm_hour tm) @ '':'' @ fmt0 2 (tm_min tm) @ '':'' @ fmt0 2 (tm_sec tm)"

text \<open>\<^verbatim>\<open>sprintf\<close> into the caller's buffer: the text and its terminating null.\<close>

definition sprintf :: "char mem \<Rightarrow> string \<Rightarrow> fault + char mem" where
  "sprintf str t = mem_write str 0 (map Some (t @ [CHR 0x00]))"

definition DBText :: "UDateTime \<Rightarrow> string" where
  "DBText t =
     (let ns = Ns100 t; tm = fst (GetCTime t) in
      if ns \<noteq> 0
      then if tm_mday tm \<noteq> 0 then date_text tm @ '' '' @ time_text tm @ ''.'' @ fmt0 7 (int ns)
           else time_text tm @ ''.'' @ fmt0 7 (int ns)
      else if tm_hour tm \<noteq> 0 \<or> tm_min tm \<noteq> 0 \<or> tm_sec tm \<noteq> 0
      then if tm_mday tm \<noteq> 0 then date_text tm @ '' '' @ time_text tm else time_text tm
      else date_text tm)"

definition ToDBString :: "UDateTime \<Rightarrow> char mem \<Rightarrow> fault + char mem" where
  "ToDBString t str = bindr (require (length str > 27)) (\<lambda>_. sprintf str (DBText t))"

definition WebText :: "UDateTime \<Rightarrow> string" where
  "WebText t =
     (let tm = fst (GetCTime t); ms = (Ns100 t + 5000) div 10000 in
      if ms \<noteq> 0
      then if tm_mday tm \<noteq> 0 then date_text tm @ ''T'' @ time_text tm @ ''.'' @ fmt0 3 (int ms) @ ''Z''
           else time_text tm @ ''.'' @ fmt0 3 (int ms) @ ''Z''
      else if tm_hour tm \<noteq> 0 \<or> tm_min tm \<noteq> 0 \<or> tm_sec tm \<noteq> 0
      then if tm_mday tm \<noteq> 0 then date_text tm @ ''T'' @ time_text tm @ ''Z'' else time_text tm @ ''Z''
      else date_text tm @ ''Z'')"

definition ToWebString :: "UDateTime \<Rightarrow> char mem \<Rightarrow> fault + char mem" where
  "ToWebString t str = bindr (require (length str > 24)) (\<lambda>_. sprintf str (WebText t))"

text \<open>The versions that return a string use a local buffer of 32 characters.\<close>

definition ToDBString_str :: "UDateTime \<Rightarrow> fault + string" where
  "ToDBString_str t =
     bindr (ToDBString t (replicate 32 (Some (CHR 0x00)))) (\<lambda>str.
     bindr (cells str) (\<lambda>s. Inr (takeWhile (\<lambda>c. c \<noteq> CHR 0x00) s)))"

definition ToWebString_str :: "UDateTime \<Rightarrow> fault + string" where
  "ToWebString_str t =
     bindr (ToWebString t (replicate 32 (Some (CHR 0x00)))) (\<lambda>str.
     bindr (cells str) (\<lambda>s. Inr (takeWhile (\<lambda>c. c \<noteq> CHR 0x00) s)))"

section \<open>Parsing\<close>

text \<open>\<^verbatim>\<open>++end\<close>: beyond the terminating null there is nothing to read.\<close>

definition advance :: "string \<Rightarrow> fault + string" where
  "advance p = (case p of [] \<Rightarrow> Inl Out_Of_Bounds | _ # r \<Rightarrow> Inr r)"

definition ParseTime :: "'d dbl \<Rightarrow> string \<Rightarrow> fault + (int \<times> int \<times> int \<times> nat)" where
  "ParseTime D str =
     bindr (atoi str) (\<lambda>(hour, end').
     bindr (advance end') (\<lambda>end'.
     bindr (atoi end') (\<lambda>(min, end').
     bindr (advance end') (\<lambda>end'.
     bindr (atoi end') (\<lambda>(second, end').
     if end' \<noteq> [] \<and> hd end' = CHR ''.''
     then bindr (atof D end') (\<lambda>(r, _).
          Inr (hour, min, second, d_to_u32 D (d_add D (d_mul D r (d_of_u64 D 1000000000)) (d_half D))))
     else Inr (hour, min, second, 0))))))"

definition ParseDateTime :: "'d dbl \<Rightarrow> string \<Rightarrow> fault + ((int \<times> int \<times> int) \<times> (int \<times> int \<times> int \<times> nat))" where
  "ParseDateTime D str =
     bindr (atoi str) (\<lambda>(year, end').
     bindr (advance end') (\<lambda>end'.
     bindr (atoi end') (\<lambda>(month, end').
     bindr (advance end') (\<lambda>end'.
     bindr (atoi end') (\<lambda>(day, end').
     if end' \<noteq> [] \<and> hd end' = CHR '' ''
     then bindr (advance end') (\<lambda>end'. bindr (ParseTime D end') (\<lambda>time. Inr ((year, month, day), time)))
     else Inr ((year, month, day), (0, 0, 0, 0)))))))"

definition ParseFromDBString :: "'d dbl \<Rightarrow> string \<Rightarrow> fault + UDateTime" where
  "ParseFromDBString D str =
     (if CHR '' '' \<notin> set str \<and> CHR '':'' \<in> set str
      then bindr (ParseTime D str) (\<lambda>(hour, min, second, ns).
           UDateTime_Set \<lparr>tm_year = 0, tm_mon = 0, tm_mday = 0, tm_hour = hour, tm_min = min, tm_sec = second\<rparr> ns)
      else bindr (ParseDateTime D str) (\<lambda>((year, month, day), (hour, min, second, ns)).
           UDateTime_Set \<lparr>tm_year = year - 1900, tm_mon = month - 1, tm_mday = day, tm_hour = hour,
                          tm_min = min, tm_sec = second\<rparr> ns))"

section \<open>Packing\<close>

lemma UDateTime_of_ok: "fields_ok (UDateTime_of v)"
  by (simp add: fields_ok_def UDateTime_of_def)

lemma split_step: "(v :: nat) mod a + a * (v div a) = v"
  by simp

lemma Value_of: "v < 2 ^ 64 \<Longrightarrow> UDateTime_Value (UDateTime_of v) = v"
proof -
  assume v: "v < 2 ^ 64"
  have d: "v div 2 ^ 30 = v div 2 ^ 24 div 2 ^ 6" "v div 2 ^ 36 = v div 2 ^ 30 div 2 ^ 6"
    "v div 2 ^ 41 = v div 2 ^ 36 div 2 ^ 5" "v div 2 ^ 46 = v div 2 ^ 41 div 2 ^ 5"
    "v div 2 ^ 50 = v div 2 ^ 46 div 2 ^ 4" "v div 2 ^ 63 = v div 2 ^ 50 div 2 ^ 13"
    by (simp_all add: div_mult2_eq [symmetric])
  have "v div 2 ^ 63 < 2" using v by (simp add: div_less_iff_less_mult)
  then have "v div 2 ^ 63 mod 2 = v div 2 ^ 63" by simp
  then have "UDateTime_Value (UDateTime_of v) =
      v mod 2 ^ 24 + 2 ^ 24 * (v div 2 ^ 24 mod 2 ^ 6 + 2 ^ 6 * (v div 2 ^ 30 mod 2 ^ 6 + 2 ^ 6 *
      (v div 2 ^ 36 mod 2 ^ 5 + 2 ^ 5 * (v div 2 ^ 41 mod 2 ^ 5 + 2 ^ 5 * (v div 2 ^ 46 mod 2 ^ 4 + 2 ^ 4 *
      (v div 2 ^ 50 mod 2 ^ 13 + 2 ^ 13 * (v div 2 ^ 63)))))))"
    unfolding UDateTime_Value_def UDateTime_of_def UDateTime.select_convs by (rule arg_cong)
  then show ?thesis unfolding d split_step .
qed

lemma field_out: "a < m \<Longrightarrow> (a + m * b) mod m = a" "a < m \<Longrightarrow> (a + m * b) div m = b" for a m b :: nat
  by simp_all

lemma of_Value: "fields_ok t \<Longrightarrow> UDateTime_of (UDateTime_Value t) = t"
proof -
  assume f: "fields_ok t"
  let ?v = "UDateTime_Value t"
  have d: "?v div 2 ^ 30 = ?v div 2 ^ 24 div 2 ^ 6" "?v div 2 ^ 36 = ?v div 2 ^ 24 div 2 ^ 6 div 2 ^ 6"
    "?v div 2 ^ 41 = ?v div 2 ^ 24 div 2 ^ 6 div 2 ^ 6 div 2 ^ 5"
    "?v div 2 ^ 46 = ?v div 2 ^ 24 div 2 ^ 6 div 2 ^ 6 div 2 ^ 5 div 2 ^ 5"
    "?v div 2 ^ 50 = ?v div 2 ^ 24 div 2 ^ 6 div 2 ^ 6 div 2 ^ 5 div 2 ^ 5 div 2 ^ 4"
    "?v div 2 ^ 63 = ?v div 2 ^ 24 div 2 ^ 6 div 2 ^ 6 div 2 ^ 5 div 2 ^ 5 div 2 ^ 4 div 2 ^ 13"
    by (simp_all add: div_mult2_eq [symmetric])
  note b = f [unfolded fields_ok_def]
  have n: "Neg t mod 2 = Neg t" using b by simp
  show ?thesis
    unfolding UDateTime_of_def d
    unfolding UDateTime_Value_def
    by (simp only: field_out b n) simp
qed

section \<open>Reading back what was printed\<close>

lemma zero_pad_ok: "list_all is_digit (zero_pad w n)" "dec_value 0 (zero_pad w n) = n" "zero_pad w n \<noteq> []"
proof -
  have "is_digit CHR ''0''" by (simp add: is_digit_def)
  with dec_text_digits [of n] show "list_all is_digit (zero_pad w n)"
    by (auto simp: zero_pad_def list_all_iff)
  have "dec_value 0 (replicate m CHR ''0'') = 0" for m
    by (induction m) (simp_all add: digit_val_def)
  then show "dec_value 0 (zero_pad w n) = n" by (simp add: zero_pad_def dec_text_value)
qed (simp add: zero_pad_def)

lemma length_zero_pad: "0 < w \<Longrightarrow> n < 10 ^ k \<Longrightarrow> w \<le> k \<Longrightarrow> w \<le> length (zero_pad w n) \<and> length (zero_pad w n) \<le> k"
  using length_dec_text [of k n] unfolding zero_pad_def length_append length_replicate by linarith

lemma atoi_fmt0:
  assumes "\<bar>v\<bar> \<le> 2147483647" and "no_digit rest"
  shows "atoi (fmt0 w v @ rest) = Inr (v, rest)"
  using ato_signed_digits [OF zero_pad_ok(1,3) assms(2)] assms(1)
  by (auto simp: atoi_def fmt0_def zero_pad_ok(2))

lemma fmt0_chars: "CHR '' '' \<notin> set (fmt0 w v)" "CHR '':'' \<notin> set (fmt0 w v)"
proof -
  have "c \<in> set (zero_pad k n) \<Longrightarrow> is_digit c" for c k n
    using zero_pad_ok(1) [of k n] by (auto simp: list_all_iff)
  moreover have "\<not> is_digit CHR '' ''" "\<not> is_digit CHR '':''"
    by (simp_all add: is_digit_def)
  ultimately show "CHR '' '' \<notin> set (fmt0 w v)" "CHR '':'' \<notin> set (fmt0 w v)"
    by (auto simp: fmt0_def)
qed

lemma no_digit_simps [simp]:
  "no_digit []" "no_digit (CHR ''-'' # r)" "no_digit (CHR '':'' # r)" "no_digit (CHR '' '' # r)"
  "no_digit (CHR ''.'' # r)"
  by (simp_all add: no_digit_def is_digit_def)

definition time_ok :: "ctm \<Rightarrow> bool" where
  "time_ok tm \<longleftrightarrow> 0 \<le> tm_hour tm \<and> tm_hour tm < 24 \<and> 0 \<le> tm_min tm \<and> tm_min tm < 60 \<and>
     0 \<le> tm_sec tm \<and> tm_sec tm < 60"

definition dbl_exact :: "'d dbl \<Rightarrow> bool" where
  "dbl_exact D \<longleftrightarrow>
     (\<forall>n < 10000000. d_to_u32 D (d_add D (d_mul D (d_add D (d_of_u64 D 0)
        (d_div D (d_of_u64 D (word_of_nat n)) (d_of_u64 D 10000000))) (d_of_u64 D 1000000000)) (d_half D)) = n * 100)"

lemma atof_fraction:
  assumes "n < 10000000"
  shows "atof D (''.'' @ fmt0 7 (int n)) =
    Inr (d_add D (d_of_u64 D 0) (d_div D (d_of_u64 D (word_of_nat n)) (d_of_u64 D 10000000)), [])"
proof -
  have l: "length (zero_pad 7 n) = 7"
    using length_zero_pad [of 7 n 7] assms by simp
  have "atoull (zero_pad 7 n) = Inr (word_of_nat n, [])"
    using atoull_digits [OF zero_pad_ok(1,3), of "[]"] by (simp add: zero_pad_ok(2))
  moreover have "atoull (CHR ''.'' # s) = Inr (0, CHR ''.'' # s)" for s
    by (simp add: atoull_def require_def not_space_def is_digit_def)
  moreover have "times10 7 1 = 10000000"
    using times10_word [of 7 1] by simp
  ultimately show ?thesis
    using l by (simp add: atof_def fmt0_def require_def not_space_def Let_def)
qed

lemma ParseTime_text:
  assumes "time_ok tm"
  shows "ParseTime D (time_text tm) = Inr (tm_hour tm, tm_min tm, tm_sec tm, 0)"
    and "dbl_exact D \<Longrightarrow> n < 10000000 \<Longrightarrow>
      ParseTime D (time_text tm @ ''.'' @ fmt0 7 (int n)) = Inr (tm_hour tm, tm_min tm, tm_sec tm, n * 100)"
proof -
  have b: "\<bar>tm_hour tm\<bar> \<le> 2147483647" "\<bar>tm_min tm\<bar> \<le> 2147483647" "\<bar>tm_sec tm\<bar> \<le> 2147483647"
    using assms by (auto simp: time_ok_def)
  show "ParseTime D (time_text tm) = Inr (tm_hour tm, tm_min tm, tm_sec tm, 0)"
    using atoi_fmt0 [OF b(1), of "'':'' @ fmt0 2 (tm_min tm) @ '':'' @ fmt0 2 (tm_sec tm)" 2]
      atoi_fmt0 [OF b(2), of "'':'' @ fmt0 2 (tm_sec tm)" 2] atoi_fmt0 [OF b(3), of "[]" 2]
    by (simp add: ParseTime_def time_text_def advance_def)
  assume D: "dbl_exact D" "n < 10000000"
  let ?f = "''.'' @ fmt0 7 (int n)"
  have "atof D (CHR ''.'' # fmt0 7 (int n)) =
      Inr (d_add D (d_of_u64 D 0) (d_div D (d_of_u64 D (word_of_nat n)) (d_of_u64 D 10000000)), [])"
    using atof_fraction [OF D(2), of D] by simp
  with D show "ParseTime D (time_text tm @ ?f) = Inr (tm_hour tm, tm_min tm, tm_sec tm, n * 100)"
    using atoi_fmt0 [OF b(1), of "'':'' @ fmt0 2 (tm_min tm) @ '':'' @ fmt0 2 (tm_sec tm) @ ?f" 2]
      atoi_fmt0 [OF b(2), of "'':'' @ fmt0 2 (tm_sec tm) @ ?f" 2] atoi_fmt0 [OF b(3), of "?f" 2]
    by (simp add: ParseTime_def time_text_def advance_def dbl_exact_def)
qed

lemma ParseDateTime_text:
  assumes "\<bar>tm_year tm\<bar> \<le> 8191" and "\<bar>tm_mon tm\<bar> \<le> 15" and "\<bar>tm_mday tm\<bar> \<le> 31"
  shows "ParseDateTime D (date_text tm) = Inr ((tm_year tm + 1900, tm_mon tm + 1, tm_mday tm), (0, 0, 0, 0))"
    and "ParseDateTime D (date_text tm @ '' '' @ s) =
      bindr (ParseTime D s) (\<lambda>time. Inr ((tm_year tm + 1900, tm_mon tm + 1, tm_mday tm), time))"
proof -
  have b: "\<bar>tm_year tm + 1900\<bar> \<le> 2147483647" "\<bar>tm_mon tm + 1\<bar> \<le> 2147483647" "\<bar>tm_mday tm\<bar> \<le> 2147483647"
    using assms by auto
  show "ParseDateTime D (date_text tm) = Inr ((tm_year tm + 1900, tm_mon tm + 1, tm_mday tm), (0, 0, 0, 0))"
    using atoi_fmt0 [OF b(1), of "''-'' @ fmt0 2 (tm_mon tm + 1) @ ''-'' @ fmt0 2 (tm_mday tm)" 4]
      atoi_fmt0 [OF b(2), of "''-'' @ fmt0 2 (tm_mday tm)" 2] atoi_fmt0 [OF b(3), of "[]" 2]
    by (simp add: ParseDateTime_def date_text_def advance_def)
  show "ParseDateTime D (date_text tm @ '' '' @ s) =
      bindr (ParseTime D s) (\<lambda>time. Inr ((tm_year tm + 1900, tm_mon tm + 1, tm_mday tm), time))"
    using atoi_fmt0 [OF b(1), of "''-'' @ fmt0 2 (tm_mon tm + 1) @ ''-'' @ fmt0 2 (tm_mday tm) @ '' '' @ s" 4]
      atoi_fmt0 [OF b(2), of "''-'' @ fmt0 2 (tm_mday tm) @ '' '' @ s" 2]
      atoi_fmt0 [OF b(3), of "'' '' @ s" 2]
    by (simp add: ParseDateTime_def date_text_def advance_def)
qed

lemma text_chars:
  "CHR '' '' \<notin> set (time_text tm)" "CHR '':'' \<in> set (time_text tm)" "CHR '':'' \<notin> set (date_text tm)"
  using fmt0_chars by (auto simp: time_text_def date_text_def)

text \<open>The dates and times that the setters produce.\<close>

definition datetime_ok :: "UDateTime \<Rightarrow> bool" where
  "datetime_ok t \<longleftrightarrow> Ns100 t < 10000000 \<and> Second t < 60 \<and> Minute t < 60 \<and> Hour t < 24 \<and>
     Day t < 32 \<and> Month t < 12 \<and> Year t < 8192 \<and> Neg t < 2 \<and> (Neg t = 1 \<longrightarrow> 0 < Year t) \<and>
     (Day t = 0 \<longrightarrow> Month t = 0 \<and> Year t = 0 \<and> Neg t = 0)"

lemma bits_nat: "v < 2 ^ n \<Longrightarrow> bits n (int v) = v"
  by (simp add: bits_def nat_mod_as_int [symmetric] zmod_int [symmetric] flip: of_nat_power)

lemma Set_GetCTime:
  assumes "datetime_ok t"
  shows "UDateTime_Set (fst (GetCTime t)) (Ns100 t * 100) = Inr t"
proof -
  note b = assms [unfolded datetime_ok_def]
  have "bits 24 (int (Ns100 t)) = Ns100 t" "bits 6 (int (Second t)) = Second t"
    "bits 6 (int (Minute t)) = Minute t" "bits 5 (int (Hour t)) = Hour t" "bits 5 (int (Day t)) = Day t"
    "bits 4 (int (Month t)) = Month t" "bits 13 (int (Year t)) = Year t"
    using b by (auto intro!: bits_nat)
  moreover have "Neg t = 0 \<or> Neg t = 1" using b by auto
  ultimately show ?thesis
    using b by (cases t) (auto simp: UDateTime_Set_def GetCTime_def require_def MAX_NANO_SECONDS_def)
qed

lemma GetCTime_ok:
  assumes "datetime_ok t"
  shows "time_ok (fst (GetCTime t))" "\<bar>tm_year (fst (GetCTime t))\<bar> \<le> 8191" "\<bar>tm_mon (fst (GetCTime t))\<bar> \<le> 15"
    "\<bar>tm_mday (fst (GetCTime t))\<bar> \<le> 31"
  using assms by (auto simp: datetime_ok_def time_ok_def GetCTime_def)

lemma Parse_time_only:
  assumes "ParseTime D s = Inr (tm_hour tm, tm_min tm, tm_sec tm, ns)" and "CHR '' '' \<notin> set s" and "CHR '':'' \<in> set s"
    and "tm_mday tm = 0" and "UDateTime_Set tm ns = Inr t"
  shows "ParseFromDBString D s = Inr t"
  using assms by (simp add: ParseFromDBString_def UDateTime_Set_def)

lemma Parse_with_date:
  assumes "ParseDateTime D s = Inr ((tm_year tm + 1900, tm_mon tm + 1, tm_mday tm), (tm_hour tm, tm_min tm, tm_sec tm, ns))"
    and "CHR '' '' \<in> set s \<or> CHR '':'' \<notin> set s" and "UDateTime_Set tm ns = Inr t"
  shows "ParseFromDBString D s = Inr t"
  using assms by (cases tm) (auto simp: ParseFromDBString_def)

lemma Parse_DBText:
  assumes t: "datetime_ok t" and D: "dbl_exact D"
  shows "ParseFromDBString D (DBText t) = Inr t"
proof -
  let ?tm = "fst (GetCTime t)" and ?n = "Ns100 t"
  note ok = GetCTime_ok [OF t]
  note time = ParseTime_text [OF ok(1), of D] and date = ParseDateTime_text [OF ok(2-4), of D]
  have S: "UDateTime_Set ?tm (?n * 100) = Inr t" using t by (rule Set_GetCTime)
  have n: "?n < 10000000" using t by (simp add: datetime_ok_def)
  have dot: "CHR '' '' \<notin> set (''.'' @ fmt0 7 (int ?n))" using fmt0_chars by simp
  consider (frac_date) "?n \<noteq> 0" "tm_mday ?tm \<noteq> 0" | (frac_time) "?n \<noteq> 0" "tm_mday ?tm = 0"
    | (date_time) "?n = 0" "tm_hour ?tm \<noteq> 0 \<or> tm_min ?tm \<noteq> 0 \<or> tm_sec ?tm \<noteq> 0" "tm_mday ?tm \<noteq> 0"
    | (time) "?n = 0" "tm_hour ?tm \<noteq> 0 \<or> tm_min ?tm \<noteq> 0 \<or> tm_sec ?tm \<noteq> 0" "tm_mday ?tm = 0"
    | (date) "?n = 0" "tm_hour ?tm = 0" "tm_min ?tm = 0" "tm_sec ?tm = 0"
    by blast
  then show ?thesis
  proof cases
    case frac_date
    let ?s = "time_text ?tm @ ''.'' @ fmt0 7 (int ?n)"
    have "DBText t = date_text ?tm @ '' '' @ ?s" using frac_date by (simp add: DBText_def Let_def)
    moreover have "ParseFromDBString D (date_text ?tm @ '' '' @ ?s) = Inr t"
      by (rule Parse_with_date [OF _ _ S]) (use date(2) [of ?s] time(2) [OF D n] in auto)
    ultimately show ?thesis by (simp only:)
  next
    case frac_time
    let ?s = "time_text ?tm @ ''.'' @ fmt0 7 (int ?n)"
    have "DBText t = ?s" using frac_time by (simp add: DBText_def Let_def)
    moreover have "ParseFromDBString D ?s = Inr t"
      by (rule Parse_time_only [OF time(2) [OF D n] _ _ frac_time(2) S]) (use dot text_chars in auto)
    ultimately show ?thesis by (simp only:)
  next
    case date_time
    then have "DBText t = date_text ?tm @ '' '' @ time_text ?tm" by (simp add: DBText_def Let_def)
    moreover have "ParseFromDBString D (date_text ?tm @ '' '' @ time_text ?tm) = Inr t"
      by (rule Parse_with_date [OF _ _ S]) (use date(2) time(1) date_time in auto)
    ultimately show ?thesis by (simp only:)
  next
    case time
    then have "DBText t = time_text ?tm" by (simp add: DBText_def Let_def)
    moreover have "ParseFromDBString D (time_text ?tm) = Inr t"
      by (rule Parse_time_only [OF _ _ _ time(3) S]) (use \<open>?n = 0\<close> ParseTime_text(1) [OF ok(1)] text_chars in auto)
    ultimately show ?thesis by (simp only:)
  next
    case date
    then have "DBText t = date_text ?tm" by (simp add: DBText_def Let_def)
    moreover have "ParseFromDBString D (date_text ?tm) = Inr t"
      by (rule Parse_with_date [OF _ _ S]) (use date ParseDateTime_text(1) [OF ok(2-4)] text_chars in auto)
    ultimately show ?thesis by (simp only:)
  qed
qed

section \<open>Lengths of the texts\<close>

lemma length_fmt0:
  "0 \<le> v \<Longrightarrow> v < 10 ^ k \<Longrightarrow> 0 < w \<Longrightarrow> w \<le> k \<Longrightarrow> length (fmt0 w v) \<le> k"
  using length_zero_pad [of w "nat v" k] by (simp add: fmt0_def nat_less_iff)

lemma length_fmt0_year: "\<bar>v\<bar> < 100000 \<Longrightarrow> - 10000 < v \<Longrightarrow> length (fmt0 4 v) \<le> 5"
  using length_zero_pad [of 3 "nat (- v)" 4] length_zero_pad [of 4 "nat v" 5]
  by (auto simp: fmt0_def)

lemma length_date_time:
  assumes "fields_ok t"
  shows "length (date_text (fst (GetCTime t))) \<le> 11" "length (time_text (fst (GetCTime t))) \<le> 8"
proof -
  note b = assms [unfolded fields_ok_def]
  have "length (fmt0 4 (tm_year (fst (GetCTime t)) + 1900)) \<le> 5"
    using b by (intro length_fmt0_year) (auto simp: GetCTime_def)
  moreover have "length (fmt0 2 (tm_mon (fst (GetCTime t)) + 1)) \<le> 2" "length (fmt0 2 (tm_mday (fst (GetCTime t)))) \<le> 2"
    "length (fmt0 2 (tm_hour (fst (GetCTime t)))) \<le> 2" "length (fmt0 2 (tm_min (fst (GetCTime t)))) \<le> 2"
    "length (fmt0 2 (tm_sec (fst (GetCTime t)))) \<le> 2"
    using b by (auto simp: GetCTime_def intro!: length_fmt0)
  ultimately show "length (date_text (fst (GetCTime t))) \<le> 11" "length (time_text (fst (GetCTime t))) \<le> 8"
    by (simp_all add: date_text_def time_text_def)
qed

lemma length_DBText: "fields_ok t \<Longrightarrow> length (DBText t) \<le> 29"
proof -
  assume f: "fields_ok t"
  have "length (fmt0 7 (int (Ns100 t))) \<le> 8"
    using f by (intro length_fmt0) (auto simp: fields_ok_def)
  with length_date_time [OF f] show ?thesis by (simp add: DBText_def Let_def)
qed

lemma length_WebText: "fields_ok t \<Longrightarrow> length (WebText t) \<le> 26"
proof -
  assume f: "fields_ok t"
  have "(Ns100 t + 5000) div 10000 < 10 ^ 4"
    using f by (simp add: fields_ok_def div_less_iff_less_mult)
  then have "length (fmt0 3 (int ((Ns100 t + 5000) div 10000))) \<le> 4"
    by (intro length_fmt0) auto
  with length_date_time [OF f] show ?thesis by (simp add: WebText_def Let_def)
qed

lemma fmt0_no_null: "CHR 0x00 \<notin> set (fmt0 w v)"
proof -
  have "c \<in> set (zero_pad k n) \<Longrightarrow> is_digit c" for c k n
    using zero_pad_ok(1) [of k n] by (auto simp: list_all_iff)
  moreover have "\<not> is_digit (CHR 0x00)" by (simp add: is_digit_def)
  ultimately show ?thesis by (auto simp: fmt0_def)
qed

lemma text_no_null: "CHR 0x00 \<notin> set (DBText t)" "CHR 0x00 \<notin> set (WebText t)"
  using fmt0_no_null by (auto simp: DBText_def WebText_def Let_def date_text_def time_text_def)

lemma sprintf_str:
  assumes "length s \<le> 31" and "CHR 0x00 \<notin> set s"
  shows "bindr (sprintf (replicate 32 (Some (CHR 0x00))) s) (\<lambda>str. bindr (cells str) (\<lambda>s. Inr (takeWhile (\<lambda>c. c \<noteq> CHR 0x00) s))) = Inr s"
proof -
  let ?z = "replicate 32 (Some (CHR 0x00))"
  have p: "mem_put ?z 0 (map Some (s @ [CHR 0x00])) = map Some (s @ [CHR 0x00] @ replicate (31 - length s) (CHR 0x00))"
    using assms(1) by (simp add: mem_put_def map_replicate)
  have "sprintf ?z s = Inr (map Some (s @ [CHR 0x00] @ replicate (31 - length s) (CHR 0x00)))"
    unfolding sprintf_def p [symmetric] by (rule mem_write_ok) (use assms(1) in simp)
  moreover have "takeWhile (\<lambda>c. c \<noteq> CHR 0x00) (s @ [CHR 0x00] @ r) = s" for r
    using assms(2) by (induction s) auto
  ultimately show ?thesis by (simp del: map_append)
qed

section \<open>Properties\<close>

text \<open>Exact arithmetic satisfies what is assumed of floating point.\<close>

definition dbl_real :: "real dbl" where
  "dbl_real = \<lparr>d_of_u64 = (\<lambda>w. real (unat w)), d_add = (+), d_mul = (*), d_div = (/), d_neg = uminus,
     d_half = 1 / 2, d_to_u32 = (\<lambda>r. nat \<lfloor>r\<rfloor>)\<rparr>"

lemma dbl_real_exact: "dbl_exact dbl_real"
proof -
  have "nat \<lfloor>100 * real n + 1 / 2\<rfloor> = n * 100" for n
  proof -
    have "\<lfloor>100 * real n + 1 / 2\<rfloor> = int (n * 100)"
      by (rule floor_unique) simp_all
    then show ?thesis by simp
  qed
  moreover have "(unsigned (word_of_nat n :: 64 word) :: real) = real n" if "n < 10000000" for n
  proof -
    have "unat (word_of_nat n :: 64 word) = n" using that by (simp add: unat_of_nat)
    then show ?thesis by (metis of_nat_unat)
  qed
  ultimately show ?thesis by (simp add: dbl_exact_def dbl_real_def)
qed

lemma To_str:
  assumes "fields_ok t"
  shows "ToDBString_str t = Inr (DBText t)" "ToWebString_str t = Inr (WebText t)"
  using sprintf_str [of "DBText t"] sprintf_str [of "WebText t"] length_DBText [OF assms]
    length_WebText [OF assms] text_no_null [of t]
  by (simp_all add: ToDBString_str_def ToDBString_def ToWebString_str_def ToWebString_def require_def)

text \<open>
  C38: A date and time that is printed for a database and parsed again is the same date and
  time, down to its 100-nanosecond units, negative years and time-only values included; the
  double arithmetic is assumed to be exact enough for seven-digit fractions.
\<close>

theorem datetime_text_roundtrip:
  assumes "datetime_ok t" and "dbl_exact D"
  shows "bindr (ToDBString_str t) (ParseFromDBString D) = Inr t"
proof -
  have "fields_ok t" using assms(1) by (auto simp: datetime_ok_def fields_ok_def)
  from To_str(1) [OF this] Parse_DBText [OF assms] show ?thesis by simp
qed

definition sample_time :: UDateTime where
  "sample_time = \<lparr>Ns100 = 1234567, Second = 59, Minute = 3, Hour = 22, Day = 15, Month = 1, Year = 2116, Neg = 1\<rparr>"

theorem datetime_text_roundtrip_witness:
  "bindr (ToDBString_str sample_time) (ParseFromDBString dbl_real) = Inr sample_time"
  by (rule datetime_text_roundtrip [OF _ dbl_real_exact]) (simp add: sample_time_def datetime_ok_def)

text \<open>
  The eight fields and the 64-bit value determine each other: every 64-bit number is the
  packing of its fields, fields in range come back from the packed number, and the broken-down
  time of a valid date sets the same date again.
\<close>

theorem datetime_packing:
  "(v < 2 ^ 64 \<longrightarrow> UDateTime_Value (UDateTime_of v) = v) \<and>
   (fields_ok t \<longrightarrow> UDateTime_of (UDateTime_Value t) = t) \<and>
   (datetime_ok t \<longrightarrow> UDateTime_Set (fst (GetCTime t)) (snd (GetCTime t)) = Inr t)"
  using Value_of [of v] of_Value [of t] Set_GetCTime [of t] by (simp add: GetCTime_def)

theorem datetime_packing_witness:
  "UDateTime_Value (UDateTime_of 0x87bc12345678abcd) = 0x87bc12345678abcd \<and>
   UDateTime_of (UDateTime_Value sample_time) = sample_time \<and>
   UDateTime_Set (fst (GetCTime sample_time)) (snd (GetCTime sample_time)) = Inr sample_time"
proof -
  have "(0x87bc12345678abcd :: nat) < 2 ^ 64" by simp
  moreover have "fields_ok sample_time" "datetime_ok sample_time"
    by (simp_all add: sample_time_def fields_ok_def datetime_ok_def)
  ultimately show ?thesis
    using datetime_packing [of "0x87bc12345678abcd" sample_time] by blast
qed

text \<open>
  The versions that print into a string object never overrun their 32-character buffer,
  whatever 64-bit value a date was received as, and return the whole text.
\<close>

theorem datetime_text_fits:
  "ToDBString_str (UDateTime_of v) = Inr (DBText (UDateTime_of v)) \<and>
   ToWebString_str (UDateTime_of v) = Inr (WebText (UDateTime_of v))"
  using To_str [OF UDateTime_of_ok] by simp

lemma length_fmt0_exact: "0 \<le> v \<Longrightarrow> v < 10 ^ w \<Longrightarrow> 0 < w \<Longrightarrow> length (fmt0 w v) = w"
  using length_zero_pad [of w "nat v" w] by (simp add: fmt0_def nat_less_iff)

lemma length_dec_text_5: "10000 \<le> n \<Longrightarrow> 5 \<le> length (dec_text n)"
proof -
  assume "10000 \<le> n"
  moreover have "n < 10 ^ length (dec_text n)"
    using dec_value_bound [OF dec_text_digits, of 0 n] by (simp add: dec_text_value)
  ultimately have "(10 :: nat) ^ 4 < 10 ^ length (dec_text n)" by simp
  then show ?thesis by (simp only: power_strict_increasing_iff)
qed

text \<open>
  The buffer size that the assertion of ToDBString accepts is one short: a valid date of
  the year 10000 or later with a fraction of a second needs 29 characters, and in a buffer of
  28 the terminating null is written outside.
\<close>

theorem ToDBString_assert_too_weak:
  assumes "datetime_ok t" and "Day t \<noteq> 0" and "Ns100 t \<noteq> 0" and "Neg t = 0" and "8100 \<le> Year t"
    and "length str = 28"
  shows "ToDBString t str = Inl Out_Of_Bounds"
proof -
  let ?tm = "fst (GetCTime t)"
  note b = assms(1) [unfolded datetime_ok_def]
  have "0 \<le> tm_year ?tm + 1900" "10000 \<le> nat (tm_year ?tm + 1900)"
    using assms(4,5) by (simp_all add: GetCTime_def)
  then have "5 \<le> length (fmt0 4 (tm_year ?tm + 1900))"
    using length_dec_text_5 [of "nat (tm_year ?tm + 1900)"]
    unfolding fmt0_def zero_pad_def by simp
  moreover have "length (fmt0 2 (tm_mon ?tm + 1)) = 2" "length (fmt0 2 (tm_mday ?tm)) = 2"
    "length (fmt0 2 (tm_hour ?tm)) = 2" "length (fmt0 2 (tm_min ?tm)) = 2" "length (fmt0 2 (tm_sec ?tm)) = 2"
    "length (fmt0 7 (int (Ns100 t))) = 7"
    using b by (auto simp: GetCTime_def intro!: length_fmt0_exact)
  ultimately have "28 \<le> length (date_text ?tm @ '' '' @ time_text ?tm @ ''.'' @ fmt0 7 (int (Ns100 t)))"
    by (simp add: date_text_def time_text_def)
  moreover have "DBText t = date_text ?tm @ '' '' @ time_text ?tm @ ''.'' @ fmt0 7 (int (Ns100 t))"
    using assms(2,3) by (simp add: DBText_def Let_def GetCTime_def)
  ultimately have "28 \<le> length (DBText t)" by (simp only:)
  with assms(6) show ?thesis
    by (simp add: ToDBString_def require_def sprintf_def mem_write_def)
qed

theorem ToDBString_assert_too_weak_witness:
  "ToDBString (sample_time\<lparr>Neg := 0, Year := 8100\<rparr>) (replicate 28 None) = Inl Out_Of_Bounds"
  by (rule ToDBString_assert_too_weak) (simp_all add: sample_time_def datetime_ok_def)

text \<open>
  The web form rounds to milliseconds without carrying into the second: in the last half
  millisecond of a second it prints the four-digit fraction 1000.
\<close>

theorem ToWebString_no_carry:
  assumes "datetime_ok t" and "9995000 \<le> Ns100 t"
  shows "\<exists>s. ToWebString_str t = Inr (s @ ''.1000Z'')"
proof -
  have "fields_ok t" using assms(1) by (auto simp: datetime_ok_def fields_ok_def)
  from To_str(2) [OF this] have w: "ToWebString_str t = Inr (WebText t)" .
  have "(Ns100 t + 5000) div 10000 < 1001" "1000 \<le> (Ns100 t + 5000) div 10000"
    using assms by (simp_all add: datetime_ok_def div_less_iff_less_mult less_eq_div_iff_mult_less_eq)
  then have ms: "(Ns100 t + 5000) div 10000 = 1000" by simp
  have "fmt0 3 1000 = ''1000''" by code_simp
  then have "\<exists>s. WebText t = s @ ''.1000Z''"
    using ms by (auto simp: WebText_def Let_def)
  with w show ?thesis by auto
qed

theorem ToWebString_no_carry_witness:
  "\<exists>s. ToWebString_str (sample_time\<lparr>Ns100 := 9999999\<rparr>) = Inr (s @ ''.1000Z'')"
  by (rule ToWebString_no_carry) (simp_all add: sample_time_def datetime_ok_def)

text \<open>
  Setting a date from a timeval scales the microseconds by ten instead of a thousand, so
  that the stored time reports a hundredth of the microseconds it was given.
\<close>

theorem timeval_microseconds_scaled:
  assumes "time_ok tm" and "tm_mday tm = 0" and "us < 1000000"
  shows "\<exists>t. UDateTime_Set_timeval tm us = Inr t \<and> HasMicrosecond t = us div 100"
proof -
  have "us * 10 mod 2 ^ 32 = us * 10" using assms(3) by simp
  moreover have "bits 24 (int (us * 10 div 100)) = us * 10 div 100"
    using assms(3) by (intro bits_nat) simp
  moreover have "us * 10 div 100 div 10 = us div 100"
    by (simp add: div_mult2_eq [symmetric])
  ultimately show ?thesis
    using assms
    by (simp add: UDateTime_Set_timeval_def UDateTime_Set_def require_def MAX_NANO_SECONDS_def time_ok_def
        HasMicrosecond_def)
qed

theorem timeval_microseconds_scaled_witness:
  "\<exists>t. UDateTime_Set_timeval \<lparr>tm_year = 0, tm_mon = 0, tm_mday = 0, tm_hour = 1, tm_min = 2, tm_sec = 3\<rparr> 123456 =
     Inr t \<and> HasMicrosecond t = 123456 div 100"
  by (rule timeval_microseconds_scaled) (simp_all add: time_ok_def)

text \<open>
  The parser of times skips two separators without looking for them: a text that holds only
  hours and minutes makes it read behind its terminating null.
\<close>

theorem ParseTime_reads_past_end:
  assumes "\<bar>h\<bar> \<le> 2147483647" and "\<bar>m\<bar> \<le> 2147483647"
  shows "ParseTime D (fmt0 2 h @ '':'' @ fmt0 2 m) = Inl Out_Of_Bounds"
  using atoi_fmt0 [OF assms(1), of "'':'' @ fmt0 2 m" 2] atoi_fmt0 [OF assms(2), of "[]" 2]
  by (simp add: ParseTime_def advance_def)

theorem ParseTime_reads_past_end_witness:
  "ParseTime dbl_real (fmt0 2 12 @ '':'' @ fmt0 2 30) = Inl Out_Of_Bounds"
  by (rule ParseTime_reads_past_end) simp_all

end
