(* ===== verification/Json.thy ===== *)
theory Json
  imports Datetime "HOL-Library.Char_ord" "HOL-Library.List_Lexorder"
begin

text \<open>
  JSON values: \<^verbatim>\<open>SPA::JSON::JValue<char>\<close> of \<^verbatim>\<open>include/jsonvalue.h\<close>.

  \<^item> A text is the list of its characters before the terminating null (\<open>peek\<close> reads the null at
    the end). Parsing returns a value and the rest of the text, or fails: \<open>J_fail\<close> is the
    \<^verbatim>\<open>nullptr\<close> of the code, \<open>J_fault\<close> undefined behaviour, \<open>J_fuel\<close> the end of the fuel
    of the mutually recursive parser; twice the length of the text and one is enough
    (\<open>ParseStr_fuel\<close>).
  \<^item> An object is a \<^verbatim>\<open>std::map\<close>, a list sorted by distinct keys. Strings are kept in
    the escaped form in which they are parsed and printed.
  \<^item> Floating point is the parameter record \<open>jdbl\<close>, which extends the operations of
    \<open>Datetime\<close>.
\<close>

section \<open>Values\<close>

datatype 'd jvalue =
    JNull
  | JString string
  | JBool bool
  | JNumber 'd
  | JArray "'d jvalue list"
  | JObject "(string \<times> 'd jvalue) list"
  | JInt64 int
  | JUint64 "64 word"

datatype jerr = J_fail | J_fault fault | J_fuel

record 'd jdbl = "'d dbl" +
  d_of_s64 :: "int \<Rightarrow> 'd"
  d_to_s64 :: "'d \<Rightarrow> int"
  d_to_u64 :: "'d \<Rightarrow> 64 word"
  d_of_int :: "int \<Rightarrow> 'd"
  d_tenth :: 'd
  d_finite :: "'d \<Rightarrow> bool"
  d_nonzero :: "'d \<Rightarrow> bool"
  d_text :: "'d \<Rightarrow> nat \<Rightarrow> string"

definition lift_fault :: "fault + 'a \<Rightarrow> jerr + 'a" where
  "lift_fault r = (case r of Inl f \<Rightarrow> Inl (J_fault f) | Inr x \<Rightarrow> Inr x)"

lemma lift_fault_simps [simp]: "lift_fault (Inr x) = Inr x" "lift_fault (Inl f) = Inl (J_fault f)"
  by (simp_all add: lift_fault_def)

section \<open>Escaping\<close>

definition escaped_chars :: string where
  "escaped_chars = [CHR 0x5C, CHR 0x08, CHR 0x0C, CHR 0x22, CHR 0x09, CHR 0x0D, CHR 0x0A]"

fun Escape :: "bool \<Rightarrow> string \<Rightarrow> string" where
  "Escape escape_fowardslash [] = []"
| "Escape escape_fowardslash (c # str) =
     (if c \<in> set escaped_chars \<or> (c = CHR ''/'' \<and> escape_fowardslash)
      then CHR 0x5C # c # Escape escape_fowardslash str
      else c # Escape escape_fowardslash str)"

text \<open>The loop of \<^verbatim>\<open>Unescape\<close>: the characters before the position, and those from it on.\<close>

fun Unescape_loop :: "char \<Rightarrow> string \<Rightarrow> string \<Rightarrow> string" where
  "Unescape_loop prev before [] = before"
| "Unescape_loop prev before (c # str) =
     (if prev = CHR 0x5C \<and> (c \<in> set escaped_chars \<or> c = CHR ''/'')
      then Unescape_loop c (butlast before @ [c]) str
      else Unescape_loop c (before @ [c]) str)"

definition Unescape :: "string \<Rightarrow> string" where
  "Unescape str = Unescape_loop (CHR 0x00) [] str"

section \<open>Construction and access\<close>

definition JValue_string :: "string \<Rightarrow> bool \<Rightarrow> bool \<Rightarrow> 'd jvalue" where
  "JValue_string str escape escape_fowardslash =
     JString (if escape then Escape escape_fowardslash str else str)"

definition JValue_cstr :: "string option \<Rightarrow> bool \<Rightarrow> bool \<Rightarrow> 'd jvalue" where
  "JValue_cstr str escape escape_fowardslash =
     (case str of None \<Rightarrow> JNull | Some s \<Rightarrow> JValue_string s escape escape_fowardslash)"

definition JValue_INT64 :: "int \<Rightarrow> 'd jvalue" where
  "JValue_INT64 n = (if n < 0 then JInt64 n else JUint64 (word_of_int n))"

text \<open>\<^verbatim>\<open>object[key] = value\<close> on the sorted list.\<close>

fun obj_insert :: "string \<Rightarrow> 'd jvalue \<Rightarrow> (string \<times> 'd jvalue) list \<Rightarrow> (string \<times> 'd jvalue) list" where
  "obj_insert k v [] = [(k, v)]"
| "obj_insert k v ((k', v') # obj) =
     (if k < k' then (k, v) # (k', v') # obj
      else if k = k' then (k, v) # obj
      else (k', v') # obj_insert k v obj)"

definition JValue_list :: "(string \<times> 'd jvalue) list \<Rightarrow> 'd jvalue" where
  "JValue_list init = JObject (foldl (\<lambda>obj (k, v). obj_insert k v obj) [] init)"

definition AsString :: "'d jvalue \<Rightarrow> jerr + string" where
  "AsString v = (case v of JString s \<Rightarrow> Inr s | _ \<Rightarrow> Inl J_fail)"

definition AsBool :: "'d jdbl \<Rightarrow> 'd jvalue \<Rightarrow> bool" where
  "AsBool D v =
     (case v of
        JBool b \<Rightarrow> b
      | JNumber d \<Rightarrow> d_nonzero D d
      | JInt64 n \<Rightarrow> n \<noteq> 0
      | JUint64 n \<Rightarrow> n \<noteq> 0
      | JArray arr \<Rightarrow> length arr \<noteq> 0
      | JObject obj \<Rightarrow> length obj \<noteq> 0
      | JString s \<Rightarrow> length s \<noteq> 0
      | JNull \<Rightarrow> False)"

definition AsNumber :: "'d jdbl \<Rightarrow> 'd jvalue \<Rightarrow> jerr + 'd" where
  "AsNumber D v =
     (case v of
        JBool b \<Rightarrow> Inr (d_of_int D (if b then 1 else 0))
      | JNumber d \<Rightarrow> Inr d
      | JInt64 n \<Rightarrow> Inr (d_of_s64 D n)
      | JUint64 n \<Rightarrow> Inr (d_of_u64 D n)
      | _ \<Rightarrow> Inl J_fail)"

definition AsInt64 :: "'d jdbl \<Rightarrow> 'd jvalue \<Rightarrow> jerr + int" where
  "AsInt64 D v =
     (case v of
        JBool b \<Rightarrow> Inr (if b then 1 else 0)
      | JNumber d \<Rightarrow> Inr (d_to_s64 D d)
      | JInt64 n \<Rightarrow> Inr n
      | JUint64 n \<Rightarrow> Inr (sint n)
      | _ \<Rightarrow> Inl J_fail)"

definition AsUint64 :: "'d jdbl \<Rightarrow> 'd jvalue \<Rightarrow> jerr + 64 word" where
  "AsUint64 D v =
     (case v of
        JBool b \<Rightarrow> Inr (if b then 1 else 0)
      | JNumber d \<Rightarrow> Inr (d_to_u64 D d)
      | JInt64 n \<Rightarrow> Inr (word_of_int n)
      | JUint64 n \<Rightarrow> Inr n
      | _ \<Rightarrow> Inl J_fail)"

definition AsArray :: "'d jvalue \<Rightarrow> jerr + 'd jvalue list" where
  "AsArray v = (case v of JArray arr \<Rightarrow> Inr arr | _ \<Rightarrow> Inl J_fail)"

definition AsObject :: "'d jvalue \<Rightarrow> jerr + (string \<times> 'd jvalue) list" where
  "AsObject v = (case v of JObject obj \<Rightarrow> Inr obj | _ \<Rightarrow> Inl J_fail)"

definition Size :: "'d jvalue \<Rightarrow> nat" where
  "Size v = (case v of JArray arr \<Rightarrow> length arr | JObject obj \<Rightarrow> length obj | _ \<Rightarrow> 0)"

definition Child_index :: "'d jvalue \<Rightarrow> nat \<Rightarrow> 'd jvalue option" where
  "Child_index v index =
     (case v of JArray arr \<Rightarrow> if index < length arr then Some (arr ! index) else None | _ \<Rightarrow> None)"

definition Child_name :: "'d jvalue \<Rightarrow> string \<Rightarrow> 'd jvalue option" where
  "Child_name v name = (case v of JObject obj \<Rightarrow> map_of obj name | _ \<Rightarrow> None)"

definition ObjKeys :: "'d jvalue \<Rightarrow> string list" where
  "ObjKeys v = (case v of JObject obj \<Rightarrow> map fst obj | _ \<Rightarrow> [])"

section \<open>Parsing\<close>

definition peek :: "string \<Rightarrow> char" where
  "peek data = (case data of [] \<Rightarrow> CHR 0x00 | c # _ \<Rightarrow> c)"

definition is_white :: "char \<Rightarrow> bool" where
  "is_white c \<longleftrightarrow> c = CHR '' '' \<or> c = CHR 0x0A \<or> c = CHR 0x0D \<or> c = CHR 0x09"

text \<open>\<^verbatim>\<open>SkipWhitespace\<close>; the code's result says whether the rest is non-empty.\<close>

definition SkipWhitespace :: "string \<Rightarrow> string" where
  "SkipWhitespace data = dropWhile is_white data"

definition need :: "string \<Rightarrow> jerr + string" where
  "need data = (let data = SkipWhitespace data in if data = [] then Inl J_fail else Inr data)"

definition is_hex :: "char \<Rightarrow> bool" where
  "is_hex c \<longleftrightarrow> is_digit c \<or> (65 \<le> (of_char c :: nat) \<and> (of_char c :: nat) \<le> 70) \<or>
     (97 \<le> (of_char c :: nat) \<and> (of_char c :: nat) \<le> 102)"

definition is_control :: "char \<Rightarrow> bool" where
  "is_control c \<longleftrightarrow> 0 < (of_char c :: nat) \<and> (of_char c :: nat) < 32 \<and> c \<noteq> CHR 0x09"

definition simple_escapes :: string where
  "simple_escapes = [CHR 0x22, CHR 0x5C, CHR ''b'', CHR ''f'', CHR ''n'', CHR ''r'', CHR ''t'', CHR ''/'']"

definition prefixed :: "string \<Rightarrow> (string \<times> string) option \<Rightarrow> (string \<times> string) option" where
  "prefixed pre r = (case r of None \<Rightarrow> None | Some (str, rest) \<Rightarrow> Some (pre @ str, rest))"

function ExtractString :: "string \<Rightarrow> (string \<times> string) option" where
  "ExtractString [] = None"
| "ExtractString (c # data) =
     (if c = CHR 0x5C
      then (case data of
              [] \<Rightarrow> None
            | e # data' \<Rightarrow>
              if e \<in> set simple_escapes then prefixed [c, e] (ExtractString data')
              else if e = CHR ''u''
              then if 4 \<le> length data' \<and> list_all is_hex (take 4 data')
                   then prefixed (c # e # take 4 data') (ExtractString (drop 4 data'))
                   else None
              else None)
      else if c = CHR 0x22 then Some ([], data)
      else if is_control c then None
      else prefixed [c] (ExtractString data))"
  by pat_completeness auto
termination by (relation "measure length") auto

fun ParseDecimal :: "'d jdbl \<Rightarrow> 'd \<Rightarrow> 'd \<Rightarrow> string \<Rightarrow> 'd \<times> string" where
  "ParseDecimal D decimal factor [] = (decimal, [])"
| "ParseDecimal D decimal factor (c # data) =
     (if is_digit c
      then ParseDecimal D (d_add D decimal (d_mul D (d_of_int D (int (digit_val c))) factor))
             (d_mul D factor (d_tenth D)) data
      else (decimal, c # data))"

fun expo_loop :: "'d jdbl \<Rightarrow> bool \<Rightarrow> nat \<Rightarrow> 'd \<Rightarrow> 'd" where
  "expo_loop D neg_expo 0 number = number"
| "expo_loop D neg_expo (Suc i) number =
     expo_loop D neg_expo i
       (if neg_expo then d_div D number (d_of_int D 10) else d_mul D number (d_of_int D 10))"

text \<open>
  The branch of \<^verbatim>\<open>ParseStr\<close> for numbers: the integer part behind the sign, the
  fraction, the exponent.
\<close>

definition ParseNumber_int :: "bool \<Rightarrow> string \<Rightarrow> jerr + ((int \<times> 64 word) \<times> string)" where
  "ParseNumber_int neg data =
     (if peek data = CHR ''0'' then Inr ((0, 0), tl data)
      else if is_digit (peek data)
      then if neg then bindr (lift_fault (atoll data)) (\<lambda>(int64, data). Inr ((int64, 0), data))
           else bindr (lift_fault (atoull data)) (\<lambda>(uint64, data). Inr ((0, uint64), data))
      else Inl J_fail)"

definition ParseNumber_frac :: "'d jdbl \<Rightarrow> 'd \<Rightarrow> string \<Rightarrow> jerr + ('d \<times> string)" where
  "ParseNumber_frac D number data =
     (if peek data = CHR ''.''
      then let data = tl data in
           if \<not> is_digit (peek data) then Inl J_fail
           else let (decimal, data) = ParseDecimal D (d_of_int D 0) (d_tenth D) data in
                Inr (d_add D number decimal, data)
      else Inr (number, data))"

definition ParseNumber_expo :: "'d jdbl \<Rightarrow> 'd \<Rightarrow> string \<Rightarrow> jerr + ('d \<times> string)" where
  "ParseNumber_expo D number data =
     (if peek data = CHR ''E'' \<or> peek data = CHR ''e''
      then let data = tl data;
               neg_expo = (peek data = CHR ''-'');
               data = (if peek data = CHR ''-'' \<or> peek data = CHR ''+'' then tl data else data) in
           if \<not> is_digit (peek data) then Inl J_fail
           else bindr (lift_fault (atoll data)) (\<lambda>(expo, data).
                Inr (expo_loop D neg_expo (nat expo) number, data))
      else Inr (number, data))"

definition ParseNumber :: "'d jdbl \<Rightarrow> string \<Rightarrow> jerr + ('d jvalue \<times> string)" where
  "ParseNumber D data =
     (let neg = (peek data = CHR ''-'') in
      bindr (ParseNumber_int neg (if neg then tl data else data)) (\<lambda>((int64, uint64), data).
      if peek data \<noteq> CHR ''.'' \<and> peek data \<noteq> CHR ''e'' \<and> peek data \<noteq> CHR ''E''
      then Inr (if neg then JValue_INT64 (- int64) else JUint64 uint64, data)
      else bindr (ParseNumber_frac D (if neg then d_of_s64 D int64 else d_of_u64 D uint64) data)
             (\<lambda>(number, data).
           bindr (ParseNumber_expo D number data) (\<lambda>(number, data).
           Inr (JNumber (if neg then d_neg D number else number), data)))))"

text \<open>
  One pass of \<^verbatim>\<open>ParseStr\<close> and of its two loops, given the recursive calls; the
  recursion ties them together, each level one unit of fuel further down.
\<close>

type_synonym 'd jparser = "string \<Rightarrow> jerr + ('d jvalue \<times> string)"

definition ParseStr_step ::
    "'d jdbl \<Rightarrow> 'd jparser \<Rightarrow> 'd jparser \<Rightarrow> 'd jparser" where
  "ParseStr_step D objects arrays data =
     (if peek data = CHR 0x22
      then (case ExtractString (tl data) of None \<Rightarrow> Inl J_fail | Some (str, data) \<Rightarrow> Inr (JString str, data))
      else if take 5 data = ''false'' then Inr (JBool False, drop 5 data)
      else if take 4 data = ''true'' then Inr (JBool True, drop 4 data)
      else if take 4 data = ''null'' then Inr (JNull, drop 4 data)
      else if peek data = CHR ''-'' \<or> is_digit (peek data) then ParseNumber D data
      else if peek data = CHR ''{'' then objects (tl data)
      else if peek data = CHR ''['' then arrays (tl data)
      else Inl J_fail)"

definition ParseObject_step ::
    "'d jparser \<Rightarrow> ((string \<times> 'd jvalue) list \<Rightarrow> 'd jparser) \<Rightarrow> (string \<times> 'd jvalue) list \<Rightarrow> 'd jparser" where
  "ParseObject_step parse again obj data =
     (if data = [] then Inl J_fail
      else bindr (need data) (\<lambda>data.
      if length obj = 0 \<and> peek data = CHR ''}'' then Inr (JObject obj, tl data)
      else if peek data \<noteq> CHR 0x22 then Inl J_fail
      else case ExtractString (tl data) of
        None \<Rightarrow> Inl J_fail
      | Some (name, data) \<Rightarrow>
        bindr (need data) (\<lambda>data.
        if peek data \<noteq> CHR '':'' then Inl J_fail
        else bindr (need (tl data)) (\<lambda>data.
        bindr (parse data) (\<lambda>(value, data).
        let obj = obj_insert name value obj in
        bindr (need data) (\<lambda>data.
        if peek data = CHR ''}'' then Inr (JObject obj, tl data)
        else if peek data \<noteq> CHR '','' then Inl J_fail
        else again obj (tl data)))))))"

definition ParseArray_step ::
    "'d jparser \<Rightarrow> ('d jvalue list \<Rightarrow> 'd jparser) \<Rightarrow> 'd jvalue list \<Rightarrow> 'd jparser" where
  "ParseArray_step parse again arr data =
     (if data = [] then Inl J_fail
      else bindr (need data) (\<lambda>data.
      if length arr = 0 \<and> peek data = CHR '']'' then Inr (JArray arr, tl data)
      else bindr (parse data) (\<lambda>(value, data).
      let arr = arr @ [value] in
      bindr (need data) (\<lambda>data.
      if peek data = CHR '']'' then Inr (JArray arr, tl data)
      else if peek data \<noteq> CHR '','' then Inl J_fail
      else again arr (tl data)))))"

fun ParseStr :: "'d jdbl \<Rightarrow> nat \<Rightarrow> 'd jparser"
  and ParseObject :: "'d jdbl \<Rightarrow> nat \<Rightarrow> (string \<times> 'd jvalue) list \<Rightarrow> 'd jparser"
  and ParseArray :: "'d jdbl \<Rightarrow> nat \<Rightarrow> 'd jvalue list \<Rightarrow> 'd jparser" where
  "ParseStr D 0 data = Inl J_fuel"
| "ParseStr D (Suc fuel) data = ParseStr_step D (ParseObject D fuel []) (ParseArray D fuel []) data"
| "ParseObject D 0 obj data = Inl J_fuel"
| "ParseObject D (Suc fuel) obj data = ParseObject_step (ParseStr D fuel) (ParseObject D fuel) obj data"
| "ParseArray D 0 arr data = Inl J_fuel"
| "ParseArray D (Suc fuel) arr data = ParseArray_step (ParseStr D fuel) (ParseArray D fuel) arr data"

definition parse_fuel :: "string \<Rightarrow> nat" where
  "parse_fuel data = 2 * length data + 1"

definition Parse :: "'d jdbl \<Rightarrow> string option \<Rightarrow> jerr + 'd jvalue" where
  "Parse D data =
     (case data of None \<Rightarrow> Inl J_fail
      | Some data \<Rightarrow>
        bindr (need data) (\<lambda>data.
        bindr (ParseStr D (parse_fuel data) data) (\<lambda>(value, data).
        if SkipWhitespace data \<noteq> [] then Inl J_fail else Inr value)))"

section \<open>Printing\<close>

text \<open>The characters that a call of \<^verbatim>\<open>ToString\<close> left in its buffer.\<close>

definition printed :: "fault + (nat \<times> nat \<times> char mem) \<Rightarrow> fault + string" where
  "printed r = bindr r (\<lambda>(head, chars, temp). bindr (mem_read temp head chars) cells)"

definition quoted :: "string \<Rightarrow> string" where
  "quoted s = [CHR 0x22] @ s @ [CHR 0x22]"

definition newline :: "bool \<Rightarrow> string" where
  "newline pretty = (if pretty then [CHR 0x0A] else [])"

definition margin :: "bool \<Rightarrow> nat \<Rightarrow> nat \<Rightarrow> string" where
  "margin pretty indent indent_chars = (if pretty then replicate (indent * indent_chars) CHR '' '' else [])"

fun Stringify :: "'d jdbl \<Rightarrow> nat \<Rightarrow> nat \<Rightarrow> bool \<Rightarrow> nat \<Rightarrow> 'd jvalue \<Rightarrow> fault + string"
  and Stringify_array :: "'d jdbl \<Rightarrow> nat \<Rightarrow> nat \<Rightarrow> bool \<Rightarrow> nat \<Rightarrow> 'd jvalue list \<Rightarrow> fault + string"
  and Stringify_object :: "'d jdbl \<Rightarrow> nat \<Rightarrow> nat \<Rightarrow> bool \<Rightarrow> nat \<Rightarrow> (string \<times> 'd jvalue) list \<Rightarrow> fault + string" where
  "Stringify D indent precision pretty ic (JInt64 n) = printed (ToString_INT64 n (replicate 22 None) 22)"
| "Stringify D indent precision pretty ic (JUint64 n) =
     printed (ToString_UINT64 (unat n) (replicate 22 None) 22)"
| "Stringify D indent precision pretty ic (JString s) = Inr (quoted s)"
| "Stringify D indent precision pretty ic (JBool b) = Inr (if b then ''true'' else ''false'')"
| "Stringify D indent precision pretty ic (JNumber d) =
     Inr (if d_finite D d then take 63 (d_text D d precision) else ''null'')"
| "Stringify D indent precision pretty ic (JArray arr) =
     bindr (Stringify_array D (indent + 1) precision pretty ic arr) (\<lambda>s.
     Inr (''['' @ newline pretty @ s @ newline pretty @ margin pretty indent ic @ '']''))"
| "Stringify D indent precision pretty ic (JObject obj) =
     bindr (Stringify_object D (indent + 1) precision pretty ic obj) (\<lambda>s.
     Inr (''{'' @ newline pretty @ s @ newline pretty @ margin pretty indent ic @ ''}''))"
| "Stringify D indent precision pretty ic JNull = Inr ''null''"
| "Stringify_array D indent precision pretty ic [] = Inr []"
| "Stringify_array D indent precision pretty ic (v # arr) =
     bindr (Stringify D indent precision pretty ic v) (\<lambda>s.
     bindr (Stringify_array D indent precision pretty ic arr) (\<lambda>rest.
     Inr (margin pretty indent ic @ s @ (if arr \<noteq> [] then '','' @ newline pretty else []) @ rest)))"
| "Stringify_object D indent precision pretty ic [] = Inr []"
| "Stringify_object D indent precision pretty ic ((k, v) # obj) =
     bindr (Stringify D indent precision pretty ic v) (\<lambda>s.
     bindr (Stringify_object D indent precision pretty ic obj) (\<lambda>rest.
     Inr (margin pretty indent ic @ quoted k @ '':'' @ s @
       (if obj \<noteq> [] then '','' @ newline pretty else []) @ rest)))"

section \<open>The fuel is enough\<close>

text \<open>A call of the parser that does not run out of fuel and consumes something.\<close>

definition jsane :: "nat \<Rightarrow> jerr + ('a \<times> string) \<Rightarrow> bool" where
  "jsane n r \<longleftrightarrow> r \<noteq> Inl J_fuel \<and> (\<forall>x d. r = Inr (x, d) \<longrightarrow> length d < n)"

lemma jsane_simps [simp]:
  "jsane n (Inl J_fail)" "jsane n (Inl (J_fault f))" "jsane n (Inr (x, d)) \<longleftrightarrow> length d < n"
  by (simp_all add: jsane_def)

lemma jsane_bindr:
  "jsane m r \<Longrightarrow> (\<And>x d. length d < m \<Longrightarrow> jsane n (f (x, d))) \<Longrightarrow> jsane n (bindr r f)"
  by (cases r) (auto simp: jsane_def)

lemma jsane_mono: "jsane m r \<Longrightarrow> m \<le> n \<Longrightarrow> jsane n r"
  by (auto simp: jsane_def)

lemma jsane_need:
  "(\<And>d. d \<noteq> [] \<Longrightarrow> length d \<le> length data \<Longrightarrow> jsane n (f d)) \<Longrightarrow> jsane n (bindr (need data) f)"
  by (auto simp: need_def Let_def SkipWhitespace_def length_dropWhile_le)

lemma jsane_lift:
  "(\<And>x d. r = Inr (x, d) \<Longrightarrow> length d < n) \<Longrightarrow> jsane n (lift_fault r)"
  by (cases r) (auto simp: jsane_def)

lemma atou_loop_length: "atou_loop x p = (y, d) \<Longrightarrow> length d \<le> length p"
proof (induction p arbitrary: x)
  case (Cons c p)
  show ?case
  proof (cases "is_digit c")
    case True
    with Cons show ?thesis by (auto intro: le_SucI)
  next
    case False
    with Cons.prems show ?thesis by auto
  qed
qed auto

lemma atos_loop_length: "atos_loop m x p = Inr (y, d) \<Longrightarrow> length d \<le> length p"
proof (induction p arbitrary: x)
  case (Cons c p)
  show ?case
  proof (cases "is_digit c")
    case True
    with Cons show ?thesis by (auto intro: le_SucI split: if_splits)
  next
    case False
    with Cons.prems show ?thesis by auto
  qed
qed auto

lemma peek_digit: "is_digit (peek p) \<Longrightarrow> \<exists>c r. p = c # r \<and> is_digit c"
  by (cases p) (auto simp: peek_def is_digit_def)

lemma ato_length:
  assumes "is_digit (peek p)"
  shows "atoull p = Inr (u, d) \<Longrightarrow> length d < length p" and "atoll p = Inr (x, d) \<Longrightarrow> length d < length p"
proof -
  obtain c r where p: "p = c # r" "is_digit c" using peek_digit [OF assms] by auto
  then have c: "c \<noteq> CHR ''-''" using digit_not by auto
  show "atoull p = Inr (u, d) \<Longrightarrow> length d < length p"
    using p by (auto simp: atoull_def require_def split: if_splits dest!: atou_loop_length)
  show "atoll p = Inr (x, d) \<Longrightarrow> length d < length p"
    using p c
    by (auto simp: atoll_def ato_signed_def require_def bindr_Inr_iff split: if_splits dest!: atos_loop_length)
qed

lemma ParseDecimal_length: "ParseDecimal D x f p = (y, d) \<Longrightarrow> length d \<le> length p"
  by (induction D x f p rule: ParseDecimal.induct) (auto intro: le_SucI split: if_splits)

lemma peek_tl: "peek p = c \<Longrightarrow> c \<noteq> CHR 0x00 \<Longrightarrow> length (tl p) < length p"
  by (cases p) (auto simp: peek_def)

lemma ParseNumber_int_sane: "jsane (length p) (ParseNumber_int neg p)"
proof -
  have "jsane (length p) (bindr (lift_fault (atoll p)) (\<lambda>(int64, d). Inr ((int64, 0 :: 64 word), d)))"
    "jsane (length p) (bindr (lift_fault (atoull p)) (\<lambda>(uint64, d). Inr ((0 :: int, uint64), d)))"
    if "is_digit (peek p)"
    using ato_length [OF that] by (auto intro!: jsane_bindr [of "length p"] jsane_lift)
  then show ?thesis
    using peek_tl [of p "CHR ''0''"] by (simp add: ParseNumber_int_def)
qed

lemma ParseNumber_frac_sane: "jsane (Suc (length d)) (ParseNumber_frac D number d)"
proof (cases "ParseDecimal D (d_of_int D 0) (d_tenth D) (tl d)")
  case (Pair x r)
  with ParseDecimal_length [OF this] show ?thesis by (auto simp: ParseNumber_frac_def Let_def)
qed

lemma ParseNumber_expo_sane: "jsane (Suc (length d)) (ParseNumber_expo D number d)"
proof -
  define t where "t = (if peek (tl d) = CHR ''-'' \<or> peek (tl d) = CHR ''+'' then tl (tl d) else tl d)"
  have "length t \<le> length d" by (simp add: t_def)
  then have "jsane (Suc (length d)) (bindr (lift_fault (atoll t)) (\<lambda>(expo, data). Inr (expo_loop D n (nat expo) number, data)))"
    if "is_digit (peek t)" for n
    using ato_length(2) [OF that] by (intro jsane_bindr [of "length t"] jsane_lift) auto
  then show ?thesis by (simp add: ParseNumber_expo_def Let_def flip: t_def)
qed

lemma ParseNumber_sane: "jsane (length data) (ParseNumber D data)"
proof -
  define neg where "neg = (peek data = CHR ''-'')"
  define K where "K = (\<lambda>x d. bindr (ParseNumber_frac D x d) (\<lambda>(number, data).
      bindr (ParseNumber_expo D number data) (\<lambda>(number, data).
      Inr (JNumber (if neg then d_neg D number else number), data))))"
  have K: "jsane (length data) (K x d)" if "length d < length data" for x d
    unfolding K_def
    by (rule jsane_bindr [OF ParseNumber_frac_sane], clarsimp,
        rule jsane_bindr [OF ParseNumber_expo_sane]) (use that in auto)
  have step: "jsane (length data) (if c then Inr (v, d) else K x d)" if "length d < length data" for c v x d
    using that K by simp
  have "length (if neg then tl data else data) \<le> length data" by simp
  from jsane_mono [OF ParseNumber_int_sane this] show ?thesis
    unfolding ParseNumber_def Let_def neg_def [symmetric]
    by (rule jsane_bindr) (clarsimp split del: if_split, rule step [unfolded K_def])
qed

lemma prefixed_Some: "prefixed pre r = Some (s, d) \<Longrightarrow> \<exists>t. r = Some (t, d) \<and> s = pre @ t"
  by (auto simp: prefixed_def split: option.splits)

lemma ExtractString_length: "ExtractString p = Some (s, d) \<Longrightarrow> length d < length p"
proof (induction p arbitrary: s rule: ExtractString.induct)
  case 1
  then show ?case by simp
next
  case (2 c p)
  show ?case
  proof (cases "c = CHR 0x5C")
    case True
    with 2(4) obtain e p' where p: "p = e # p'" by (cases p) auto
    show ?thesis
    proof (cases "e \<in> set simple_escapes")
      case True
      with 2(4) \<open>c = CHR 0x5C\<close> p obtain t where "ExtractString p' = Some (t, d)"
        by (auto dest!: prefixed_Some)
      with 2(1) [OF \<open>c = CHR 0x5C\<close> p True] p show ?thesis by fastforce
    next
      case False
      with 2(4) \<open>c = CHR 0x5C\<close> p have u: "e = CHR ''u''" "4 \<le> length p' \<and> list_all is_hex (take 4 p')"
        by (auto split: if_splits)
      with False 2(4) \<open>c = CHR 0x5C\<close> p obtain t where "ExtractString (drop 4 p') = Some (t, d)"
        by (auto dest!: prefixed_Some)
      with 2(2) [OF \<open>c = CHR 0x5C\<close> p False u] p show ?thesis by fastforce
    qed
  next
    case False
    show ?thesis
    proof (cases "c = CHR 0x22")
      case True
      with 2(4) show ?thesis by simp
    next
      case q: False
      with False 2(4) have "\<not> is_control c" by (auto split: if_splits)
      with q False 2(4) obtain t where "ExtractString p = Some (t, d)"
        by (auto dest!: prefixed_Some)
      with 2(3) [OF False q \<open>\<not> is_control c\<close>] show ?thesis by fastforce
    qed
  qed
qed

lemma jsane_if: "(c \<Longrightarrow> jsane n a) \<Longrightarrow> (\<not> c \<Longrightarrow> jsane n b) \<Longrightarrow> jsane n (if c then a else b)"
  by simp

lemma ParseStr_step_sane:
  assumes "\<And>d. length d < length data \<Longrightarrow> jsane (length data) (objects d) \<and> jsane (length data) (arrays d)"
  shows "jsane (length data) (ParseStr_step D objects arrays data)"
proof (cases data)
  case Nil
  then show ?thesis by (simp add: ParseStr_step_def peek_def is_digit_def)
next
  case (Cons c r)
  have str: "jsane (length data) (case ExtractString r of None \<Rightarrow> Inl J_fail | Some (str, d) \<Rightarrow> Inr (JString str, d))"
    using Cons by (auto split: option.splits dest: ExtractString_length)
  have drop: "jsane (length data) (Inr (v, drop (Suc n) data))" for v :: "'a jvalue" and n
    using Cons by simp
  have "jsane (length data) (Inr (v, drop 5 data))" "jsane (length data) (Inr (v, drop 4 data))" for v :: "'a jvalue"
    using drop [of v 4] drop [of v 3] by simp_all
  moreover have "jsane (length data) (objects (tl data))" "jsane (length data) (arrays (tl data))"
    using assms [of r] Cons by simp_all
  ultimately show ?thesis
    using str ParseNumber_sane [of data D] unfolding ParseStr_step_def
    by (intro jsane_if) (simp_all add: Cons)
qed

lemma ParseArray_step_sane:
  assumes "\<And>d. length d \<le> length data \<Longrightarrow> jsane (length d) (parse d)"
    and "\<And>a d. length d < length data \<Longrightarrow> jsane (length data) (again a d)"
  shows "jsane (length data) (ParseArray_step parse again arr data)"
proof (cases "data = []")
  case True
  then show ?thesis by (simp add: ParseArray_step_def)
next
  case False
  have fin: "jsane (length data) (bindr (need d) (\<lambda>d. if peek d = CHR '']'' then Inr (x, tl d)
      else if peek d \<noteq> CHR '','' then Inl J_fail else again a (tl d)))" if "length d < length data" for d x a
    using that assms(2) by (intro jsane_need) auto
  have "jsane (length data) (if length arr = 0 \<and> peek d = CHR '']'' then Inr (JArray arr, tl d)
      else bindr (parse d) (\<lambda>(value, data).
        let arr = arr @ [value] in bindr (need data) (\<lambda>data. if peek data = CHR '']'' then Inr (JArray arr, tl data)
        else if peek data \<noteq> CHR '','' then Inl J_fail else again arr (tl data))))"
    if "d \<noteq> []" "length d \<le> length data" for d
  proof -
    have "length (tl d) < length data" using that by (cases d) auto
    moreover have "jsane (length data) (bindr (parse d) (\<lambda>(value, data).
        let arr = arr @ [value] in bindr (need data) (\<lambda>data. if peek data = CHR '']'' then Inr (JArray arr, tl data)
        else if peek data \<noteq> CHR '','' then Inl J_fail else again arr (tl data))))"
      using assms(1) [OF that(2)] that(2) fin by (intro jsane_bindr [of "length d"]) (auto simp: Let_def)
    ultimately show ?thesis by simp
  qed
  then show ?thesis
    using False unfolding ParseArray_step_def by (auto intro!: jsane_need)
qed

lemma ParseObject_step_sane:
  assumes "\<And>d. length d \<le> length data \<Longrightarrow> jsane (length d) (parse d)"
    and "\<And>a d. length d < length data \<Longrightarrow> jsane (length data) (again a d)"
  shows "jsane (length data) (ParseObject_step parse again obj data)"
proof (cases "data = []")
  case True
  then show ?thesis by (simp add: ParseObject_step_def)
next
  case False
  define body where "body = (\<lambda>name (value, data). let obj = obj_insert name value obj in
      bindr (need data) (\<lambda>data. if peek data = CHR ''}'' then Inr (JObject obj, tl data)
        else if peek data \<noteq> CHR '','' then Inl J_fail else again obj (tl data)))"
  have fin: "jsane (length data) (body name (v, d))" if "length d < length data" for name v d
    using that assms(2) by (auto simp: body_def Let_def intro!: jsane_need)
  have val: "jsane (length data) (bindr (need (tl d)) (\<lambda>d. bindr (parse d) (body name)))"
    if "length d < length data" for d name
  proof (rule jsane_need)
    fix e :: string assume "length e \<le> length (tl d)"
    then have "length e < length data" using that by simp
    then show "jsane (length data) (bindr (parse e) (body name))"
      using assms(1) fin by (intro jsane_bindr [of "length e"]) auto
  qed
  have key: "jsane (length data) (case ExtractString (tl d) of None \<Rightarrow> Inl J_fail
      | Some (name, d) \<Rightarrow> bindr (need d) (\<lambda>d. if peek d \<noteq> CHR '':'' then Inl J_fail
          else bindr (need (tl d)) (\<lambda>d. bindr (parse d) (body name))))"
    if "d \<noteq> []" "length d \<le> length data" for d
    using that val by (auto split: option.splits dest!: ExtractString_length intro!: jsane_need)
  have "jsane (length data) (if length obj = 0 \<and> peek d = CHR ''}'' then Inr (JObject obj, tl d)
      else if peek d \<noteq> CHR 0x22 then Inl J_fail
      else case ExtractString (tl d) of None \<Rightarrow> Inl J_fail
      | Some (name, d) \<Rightarrow> bindr (need d) (\<lambda>d. if peek d \<noteq> CHR '':'' then Inl J_fail
          else bindr (need (tl d)) (\<lambda>d. bindr (parse d) (body name))))"
    if "d \<noteq> []" "length d \<le> length data" for d
  proof -
    have "length (tl d) < length data" using that by (cases d) auto
    with key [OF that] show ?thesis by simp
  qed
  then show ?thesis
    using False unfolding ParseObject_step_def body_def by (auto intro!: jsane_need)
qed

lemma parser_sane:
  "(\<forall>data. 2 * length data + 1 \<le> fuel \<longrightarrow> jsane (length data) (ParseStr D fuel data)) \<and>
   (\<forall>obj data. 2 * length data + 2 \<le> fuel \<longrightarrow> jsane (length data) (ParseObject D fuel obj data)) \<and>
   (\<forall>arr data. 2 * length data + 2 \<le> fuel \<longrightarrow> jsane (length data) (ParseArray D fuel arr data))"
proof (induction fuel)
  case 0
  then show ?case by simp
next
  case (Suc fuel)
  have obj: "jsane (length data) (ParseObject D fuel a d)"
    and arr: "jsane (length data) (ParseArray D fuel b d)"
    if "length d < length data" "2 * length data \<le> fuel" for d data :: string and a b
    using that Suc.IH by (auto intro: jsane_mono [of "length d"])
  have str: "jsane (length d) (ParseStr D fuel d)"
    if "length d \<le> length data" "2 * length data + 1 \<le> fuel" for d data :: string
    using that Suc.IH by auto
  have "jsane (length data) (ParseStr D (Suc fuel) data)" if "2 * length data + 1 \<le> Suc fuel" for data
    unfolding ParseStr.simps by (rule ParseStr_step_sane) (use that obj arr in simp)
  moreover have "jsane (length data) (ParseObject D (Suc fuel) obj data)" if "2 * length data + 2 \<le> Suc fuel" for obj data
    unfolding ParseObject.simps by (rule ParseObject_step_sane) (use that str [of _ data] obj in simp_all)
  moreover have "jsane (length data) (ParseArray D (Suc fuel) arr data)" if "2 * length data + 2 \<le> Suc fuel" for arr data
    unfolding ParseArray.simps by (rule ParseArray_step_sane) (use that str [of _ data] arr in simp_all)
  ultimately show ?case by blast
qed

lemma ParseStr_fuel: "jsane (length data) (ParseStr D (parse_fuel data) data)"
  using parser_sane [of "parse_fuel data" D] unfolding parse_fuel_def by blast

section \<open>Texts that the parser takes as they are\<close>

text \<open>The inside of a string literal: what \<^verbatim>\<open>ExtractString\<close> accepts up to the quote.\<close>

function raw_ok :: "string \<Rightarrow> bool" where
  "raw_ok [] = True"
| "raw_ok (c # s) =
     (if c = CHR 0x5C
      then (case s of [] \<Rightarrow> False
            | e # s' \<Rightarrow>
              if e \<in> set simple_escapes then raw_ok s'
              else e = CHR ''u'' \<and> 4 \<le> length s' \<and> list_all is_hex (take 4 s') \<and> raw_ok (drop 4 s'))
      else c \<noteq> CHR 0x22 \<and> c \<noteq> CHR 0x00 \<and> \<not> is_control c \<and> raw_ok s)"
  by pat_completeness auto
termination by (relation "measure length") auto

lemma raw_ok_extract: "raw_ok s \<Longrightarrow> ExtractString (s @ CHR 0x22 # rest) = Some (s, rest)"
proof (induction s rule: raw_ok.induct)
  case 1
  then show ?case by simp
next
  case (2 c s)
  show ?case
  proof (cases "c = CHR 0x5C")
    case True
    with 2(4) obtain e s' where s: "s = e # s'" by (cases s) auto
    show ?thesis
    proof (cases "e \<in> set simple_escapes")
      case e: True
      with 2(4) True s have "raw_ok s'" by simp
      from 2(1) [OF True s e this] e True s show ?thesis by (simp add: prefixed_def)
    next
      case e: False
      with 2(4) True s have u: "e = CHR ''u''" "4 \<le> length s'" "list_all is_hex (take 4 s')" "raw_ok (drop 4 s')"
        by auto
      have h: "ExtractString (drop 4 s' @ CHR 0x22 # rest) = Some (drop 4 s', rest)"
        using 2(2) [OF True s e] u by simp
      have nu: "CHR ''u'' \<notin> set simple_escapes" by (simp add: simple_escapes_def)
      have "take 4 (s' @ CHR 0x22 # rest) = take 4 s'" "drop 4 (s' @ CHR 0x22 # rest) = drop 4 s' @ CHR 0x22 # rest"
        using u(2) by simp_all
      with u h nu True s show ?thesis by (simp add: prefixed_def)
    qed
  next
    case False
    with 2(4) have "c \<noteq> CHR 0x22" "\<not> is_control c" "raw_ok s" by auto
    with 2(3) [OF False] False show ?thesis by (simp add: prefixed_def)
  qed
qed

text \<open>Characters from the blank on: the others are the ones JSON wants escaped as letters.\<close>

definition printable :: "char \<Rightarrow> bool" where
  "printable c \<longleftrightarrow> 32 \<le> (of_char c :: nat)"

lemma printable_cases:
  assumes "printable c"
  shows "\<not> is_control c" "c \<noteq> CHR 0x00" "c \<in> set escaped_chars \<Longrightarrow> c = CHR 0x5C \<or> c = CHR 0x22"
  using assms by (auto simp: printable_def is_control_def escaped_chars_def)

lemma Escape_raw_ok: "list_all printable s \<Longrightarrow> raw_ok (Escape b s)"
proof (induction s)
  case Nil
  then show ?case by simp
next
  case (Cons c s)
  then have c: "printable c" "raw_ok (Escape b s)" by simp_all
  have bs: "CHR 0x5C \<in> set escaped_chars" "CHR 0x22 \<in> set escaped_chars"
    by (simp_all add: escaped_chars_def)
  show ?case
  proof (cases "c \<in> set escaped_chars \<or> (c = CHR ''/'' \<and> b)")
    case True
    with printable_cases(3) [OF c(1)] have "c \<in> set simple_escapes"
      by (auto simp: simple_escapes_def)
    with True c show ?thesis by simp
  next
    case False
    with bs have "c \<noteq> CHR 0x5C" "c \<noteq> CHR 0x22" by auto
    with False c printable_cases(1,2) [OF c(1)] show ?thesis by auto
  qed
qed

lemma Escape_unreadable:
  "list_all (\<lambda>c. c \<noteq> CHR 0x00) s \<Longrightarrow> \<not> list_all printable s \<Longrightarrow>
   ExtractString (Escape b s @ CHR 0x22 # rest) = None"
proof (induction s)
  case Nil
  then show ?case by simp
next
  case (Cons c s)
  show ?case
  proof (cases "printable c")
    case True
    with Cons have IH: "ExtractString (Escape b s @ CHR 0x22 # rest) = None" by simp
    have bs: "CHR 0x5C \<in> set escaped_chars" "CHR 0x22 \<in> set escaped_chars"
      by (simp_all add: escaped_chars_def)
    show ?thesis
    proof (cases "c \<in> set escaped_chars \<or> (c = CHR ''/'' \<and> b)")
      case t: True
      with printable_cases(3) [OF True] have "c \<in> set simple_escapes" by (auto simp: simple_escapes_def)
      with t IH show ?thesis by (simp add: prefixed_def)
    next
      case f: False
      with bs have "c \<noteq> CHR 0x5C" "c \<noteq> CHR 0x22" by auto
      with f IH printable_cases(1) [OF True] show ?thesis by (auto simp: prefixed_def)
    qed
  next
    case False
    have np: "c \<notin> set simple_escapes" "c \<noteq> CHR ''u''" "c \<noteq> CHR 0x5C" "c \<noteq> CHR 0x22" "c \<noteq> CHR ''/''"
      using False by (auto simp: printable_def simple_escapes_def)
    show ?thesis
    proof (cases "c \<in> set escaped_chars")
      case True
      with np show ?thesis by simp
    next
      case e: False
      have "0 < (of_char c :: nat)"
        using Cons.prems(1) of_char_eq_iff [of c "CHR 0x00", where 'a = nat] by simp
      moreover have "c \<noteq> CHR 0x09" using e by (auto simp: escaped_chars_def)
      ultimately have "is_control c" using False by (simp add: printable_def is_control_def)
      with e np show ?thesis by simp
    qed
  qed
qed

section \<open>Reading back what was printed\<close>

text \<open>Values that are printed without floating point.\<close>

fun json_ok :: "'d jvalue \<Rightarrow> bool" where
  "json_ok JNull = True"
| "json_ok (JString s) = raw_ok s"
| "json_ok (JBool b) = True"
| "json_ok (JNumber d) = False"
| "json_ok (JArray arr) = (\<forall>v \<in> set arr. json_ok v)"
| "json_ok (JObject obj) =
     (sorted_wrt (<) (map fst obj) \<and> (\<forall>kv \<in> set obj. raw_ok (fst kv) \<and> json_ok (snd kv)))"
| "json_ok (JInt64 n) = (-9223372036854775808 < n \<and> n < 0)"
| "json_ok (JUint64 n) = True"

definition ends_number :: "string \<Rightarrow> bool" where
  "ends_number s \<longleftrightarrow> \<not> is_digit (peek s) \<and> peek s \<noteq> CHR ''.'' \<and> peek s \<noteq> CHR ''e'' \<and> peek s \<noteq> CHR ''E''"

lemma peek_simps [simp]: "peek (c # s) = c" "peek [] = CHR 0x00"
  by (simp_all add: peek_def)

lemma ends_number_no_digit: "ends_number s \<Longrightarrow> no_digit s"
  by (cases s) (simp_all add: ends_number_def no_digit_def)

lemma digit_ne:
  "is_digit c \<Longrightarrow> c \<noteq> CHR 0x22 \<and> c \<noteq> CHR ''f'' \<and> c \<noteq> CHR ''t'' \<and> c \<noteq> CHR ''n'' \<and> c \<noteq> CHR ''-'' \<and>
     c \<noteq> CHR ''{'' \<and> c \<noteq> CHR ''['' \<and> c \<noteq> CHR '']'' \<and> c \<noteq> CHR ''}'' \<and> \<not> is_white c"
  by (auto simp: is_digit_def is_white_def)

lemma printed_wrote: "wrote r t \<Longrightarrow> printed r = Inr t"
  using holds_append holds_read [of _ _ t] by (fastforce simp: wrote_def printed_def)

lemma print_INT64: "-9223372036854775808 < n \<Longrightarrow> n < 0 \<Longrightarrow>
    printed (ToString_INT64 n (replicate 22 None) 22) = Inr (CHR ''-'' # dec_text (nat (- n)))"
proof -
  assume n: "-9223372036854775808 < n" "n < 0"
  have "wrote (ToString_INT64 n (replicate 22 None) 22) (int_text n)"
    unfolding ToString_INT64_def by (rule ToString_signed_ok) (use n in simp_all)
  with n show ?thesis by (simp add: printed_wrote int_text_def)
qed

lemma print_UINT64: "printed (ToString_UINT64 (unat u) (replicate 22 None) 22) = Inr (dec_text (unat u))"
  for u :: "64 word"
proof -
  have "unat u < 10 ^ 20" by (rule order.strict_trans2 [OF unsigned_less]) simp
  then have "wrote (ToString_UINT64 (unat u) (replicate 22 None) 22) (dec_text (unat u))"
    unfolding ToString_UINT64_def by (intro ToString_unsigned_ok) simp_all
  then show ?thesis by (rule printed_wrote)
qed

lemma dec_text_hd_zero: "peek (dec_text n @ rest) = CHR ''0'' \<longleftrightarrow> n = 0"
proof (induction n arbitrary: rest rule: dec_text.induct)
  case (1 n)
  show ?case
  proof (cases "n < 10")
    case True
    then have "digit_char n = CHR ''0'' \<longleftrightarrow> n = 0"
    proof -
      have "digit_val CHR ''0'' = 0" by (simp add: digit_val_def)
      moreover have "digit_char 0 = CHR ''0''" using dec_text_0 dec_text.simps [of 0] by simp
      ultimately show ?thesis using digit_char_ok [OF True] by auto
    qed
    with True show ?thesis by (subst dec_text.simps) simp
  next
    case False
    with 1 [OF False, of "[digit_char (n mod 10)] @ rest"] show ?thesis by (subst dec_text.simps) simp
  qed
qed

lemma dec_text_peek: "is_digit (peek (dec_text n @ rest))"
  using dec_text_digits [of n] by (cases "dec_text n") auto

lemma parse_uint: "ends_number rest \<Longrightarrow> ParseNumber D (dec_text (unat u) @ rest) = Inr (JUint64 u, rest)"
proof -
  assume r: "ends_number rest"
  note d = dec_text_peek [of "unat u" rest]
  have "ParseNumber_int False (dec_text (unat u) @ rest) = Inr ((0, u), rest)"
  proof (cases "unat u = 0")
    case True
    then have "u = 0" by (simp add: unat_eq_0)
    then show ?thesis by (simp add: ParseNumber_int_def)
  next
    case False
    with d atoull_digits [OF dec_text_digits dec_text_not_Nil ends_number_no_digit [OF r], of "unat u"]
    show ?thesis by (simp add: ParseNumber_int_def dec_text_hd_zero dec_text_value)
  qed
  moreover have "peek (dec_text (unat u) @ rest) \<noteq> CHR ''-''" using digit_ne [OF d] by simp
  ultimately show ?thesis using r by (simp add: ParseNumber_def ends_number_def)
qed

lemma parse_int:
  assumes "-9223372036854775808 < n" "n < 0" "ends_number rest"
  shows "ParseNumber D (CHR ''-'' # dec_text (nat (- n)) @ rest) = Inr (JInt64 n, rest)"
proof -
  let ?t = "dec_text (nat (- n))"
  have "atoll (?t @ rest) = Inr (- n, rest)"
    unfolding atoll_def
    using ato_signed_digits(1) [OF dec_text_digits dec_text_not_Nil ends_number_no_digit [OF assms(3)], of 9223372036854775807 "nat (- n)"]
      assms(1,2) by (simp add: dec_text_value)
  moreover have "peek (?t @ rest) \<noteq> CHR ''0''" "is_digit (peek (?t @ rest))"
    using assms(2) dec_text_peek by (simp_all add: dec_text_hd_zero)
  ultimately have "ParseNumber_int True (?t @ rest) = Inr ((- n, 0), rest)"
    by (simp add: ParseNumber_int_def)
  then show ?thesis
    using assms by (simp add: ParseNumber_def ends_number_def JValue_INT64_def)
qed

text \<open>White space between the parts, and what a printed value begins with.\<close>

definition white :: "string \<Rightarrow> bool" where
  "white s \<longleftrightarrow> list_all is_white s"

lemma white_simps [simp]: "white []" "white (a @ b) \<longleftrightarrow> white a \<and> white b"
  by (simp_all add: white_def)

lemma white_layout [simp]: "white (newline pretty)" "white (margin pretty indent ic)"
  by (auto simp: white_def newline_def margin_def is_white_def list_all_iff)

lemma need_white: "white w \<Longrightarrow> \<not> is_white c \<Longrightarrow> need (w @ c # s) = Inr (c # s)"
  by (simp add: need_def SkipWhitespace_def white_def list_all_iff dropWhile_append2)

definition starts :: "string \<Rightarrow> bool" where
  "starts s \<longleftrightarrow> s \<noteq> [] \<and> \<not> is_white (hd s) \<and> hd s \<noteq> CHR '']'' \<and> hd s \<noteq> CHR ''}''"

lemma Stringify_starts: "json_ok v \<Longrightarrow> Stringify D i p pretty ic v = Inr s \<Longrightarrow> starts s"
proof (cases v)
  case (JUint64 u)
  assume "Stringify D i p pretty ic v = Inr s"
  with JUint64 have "s = dec_text (unat u)" by (simp add: print_UINT64)
  then show ?thesis using digit_ne [OF dec_text_hd, of "unat u"] by (simp add: starts_def)
qed (auto simp: starts_def is_white_def quoted_def print_INT64 bindr_Inr_iff split: if_splits)

lemma starts_Cons: "starts s \<Longrightarrow> \<exists>c t. s = c # t \<and> \<not> is_white c \<and> c \<noteq> CHR '']'' \<and> c \<noteq> CHR ''}''"
  by (cases s) (auto simp: starts_def)

lemma ends_number_simps [simp]:
  "ends_number (CHR '','' # s)" "ends_number (CHR '']'' # s)" "ends_number (CHR ''}'' # s)" "ends_number []"
  by (simp_all add: ends_number_def is_digit_def)

lemma ends_number_white: "white w \<Longrightarrow> ends_number s \<Longrightarrow> ends_number (w @ s)"
  by (cases w) (auto simp: white_def ends_number_def is_white_def is_digit_def)

lemma obj_insert_last:
  "\<forall>k' \<in> set (map fst obj). k' < k \<Longrightarrow> obj_insert k v obj = obj @ [(k, v)]"
  by (induction obj) auto

lemma ParseStr_number:
  assumes "peek s = CHR ''-'' \<or> is_digit (peek s)"
  shows "ParseStr_step D objects arrays s = ParseNumber D s"
proof -
  obtain c t where "s = c # t" "c = CHR ''-'' \<or> is_digit c"
    using assms by (cases s) (auto simp: is_digit_def)
  then show ?thesis using digit_ne [of c] by (auto simp: ParseStr_step_def)
qed

text \<open>The parser gives back a value, the elements of an array, the members of an object.\<close>

definition reads :: "'d jdbl \<Rightarrow> 'd jvalue \<Rightarrow> string \<Rightarrow> bool" where
  "reads D v s \<longleftrightarrow> (\<forall>rest fuel. ends_number rest \<longrightarrow> 2 * length s + 1 \<le> fuel \<longrightarrow>
     ParseStr D fuel (s @ rest) = Inr (v, rest))"

definition reads_array :: "'d jdbl \<Rightarrow> 'd jvalue list \<Rightarrow> string \<Rightarrow> bool" where
  "reads_array D arr s \<longleftrightarrow> (\<forall>acc w w' rest fuel. white w \<longrightarrow> white w' \<longrightarrow> 2 * length s + 2 \<le> fuel \<longrightarrow>
     ParseArray D fuel acc (w @ s @ w' @ CHR '']'' # rest) = Inr (JArray (acc @ arr), rest))"

definition reads_object :: "'d jdbl \<Rightarrow> (string \<times> 'd jvalue) list \<Rightarrow> string \<Rightarrow> bool" where
  "reads_object D obj s \<longleftrightarrow> (\<forall>acc w w' rest fuel. white w \<longrightarrow> white w' \<longrightarrow> 2 * length s + 2 \<le> fuel \<longrightarrow>
     sorted_wrt (<) (map fst (acc @ obj)) \<longrightarrow>
     ParseObject D fuel acc (w @ s @ w' @ CHR ''}'' # rest) = Inr (JObject (acc @ obj), rest))"

lemma readsI:
  assumes "\<And>rest objects arrays. ends_number rest \<Longrightarrow> ParseStr_step D objects arrays (s @ rest) = Inr (v, rest)"
  shows "reads D v s"
  unfolding reads_def
proof (intro allI impI)
  fix rest :: string and fuel
  assume r: "ends_number rest" and "2 * length s + 1 \<le> fuel"
  then obtain f where "fuel = Suc f" by (cases fuel) auto
  with assms [OF r] show "ParseStr D fuel (s @ rest) = Inr (v, rest)" by simp
qed

lemma reads_string: "raw_ok s \<Longrightarrow> reads D (JString s) (quoted s)"
  by (rule readsI) (simp add: ParseStr_step_def quoted_def raw_ok_extract)

lemma reads_literals: "reads D (JBool True) ''true''" "reads D (JBool False) ''false''" "reads D JNull ''null''"
  by (rule readsI, simp add: ParseStr_step_def)+

lemma reads_UINT64: "reads D (JUint64 u) (dec_text (unat u))"
  by (rule readsI) (simp add: ParseStr_number dec_text_peek parse_uint)

lemma reads_INT64:
  "-9223372036854775808 < n \<Longrightarrow> n < 0 \<Longrightarrow> reads D (JInt64 n) (CHR ''-'' # dec_text (nat (- n)))"
  by (rule readsI) (simp add: ParseStr_number parse_int)

lemma reads_JArray:
  assumes "arr = [] \<and> s = [] \<or> reads_array D arr s" and "white w" and "white w'"
  shows "reads D (JArray arr) (''['' @ w @ s @ w' @ '']'')"
  unfolding reads_def
proof (intro allI impI)
  fix rest :: string and fuel
  let ?t = "''['' @ w @ s @ w' @ '']''"
  assume fuel: "2 * length ?t + 1 \<le> fuel"
  then obtain f where f: "fuel = Suc f" "2 * length s + 2 \<le> f" by (cases fuel) auto
  have "ParseArray D f [] (w @ s @ w' @ CHR '']'' # rest) = Inr (JArray arr, rest)"
  proof (cases "arr = [] \<and> s = []")
    case True
    obtain g where g: "f = Suc g" using f(2) by (cases f) auto
    have "need ((w @ w') @ CHR '']'' # rest) = Inr (CHR '']'' # rest)"
      using assms(2,3) by (intro need_white) (simp_all add: is_white_def)
    with True g show ?thesis by (simp add: ParseArray_step_def)
  next
    case False
    with assms f(2) show ?thesis by (auto simp: reads_array_def)
  qed
  moreover have "ParseStr_step D objects arrays (?t @ rest) = arrays (w @ s @ w' @ CHR '']'' # rest)" for objects arrays
    by (simp add: ParseStr_step_def is_digit_def)
  ultimately show "ParseStr D fuel (?t @ rest) = Inr (JArray arr, rest)"
    using f(1) by (simp only: ParseStr.simps)
qed

lemma reads_JObject:
  assumes "obj = [] \<and> s = [] \<or> reads_object D obj s" and "white w" and "white w'" and "sorted_wrt (<) (map fst obj)"
  shows "reads D (JObject obj) (''{'' @ w @ s @ w' @ ''}'')"
  unfolding reads_def
proof (intro allI impI)
  fix rest :: string and fuel
  let ?t = "''{'' @ w @ s @ w' @ ''}''"
  assume fuel: "2 * length ?t + 1 \<le> fuel"
  then obtain f where f: "fuel = Suc f" "2 * length s + 2 \<le> f" by (cases fuel) auto
  have "ParseObject D f [] (w @ s @ w' @ CHR ''}'' # rest) = Inr (JObject obj, rest)"
  proof (cases "obj = [] \<and> s = []")
    case True
    obtain g where g: "f = Suc g" using f(2) by (cases f) auto
    have "need ((w @ w') @ CHR ''}'' # rest) = Inr (CHR ''}'' # rest)"
      using assms(2,3) by (intro need_white) (simp_all add: is_white_def)
    with True g show ?thesis by (simp add: ParseObject_step_def)
  next
    case False
    with assms f(2) show ?thesis by (auto simp: reads_object_def)
  qed
  moreover have "ParseStr_step D objects arrays (?t @ rest) = objects (w @ s @ w' @ CHR ''}'' # rest)" for objects arrays
    by (simp add: ParseStr_step_def is_digit_def)
  ultimately show "ParseStr D fuel (?t @ rest) = Inr (JObject obj, rest)"
    using f(1) by (simp only: ParseStr.simps)
qed

lemma reads_array_Cons:
  assumes "reads D v s" and "starts s" and "white m" and "white n"
    and "if arr = [] then t = [] else reads_array D arr u \<and> t = '','' @ n @ u"
  shows "reads_array D (v # arr) (m @ s @ t)"
  unfolding reads_array_def
proof (intro allI impI)
  fix acc w w' and rest :: string and fuel
  assume w: "white w" "white w'" and fuel: "2 * length (m @ s @ t) + 2 \<le> fuel"
  then obtain f where f: "fuel = Suc f" "2 * length s + 1 \<le> f" by (cases fuel) auto
  obtain c r where s: "s = c # r" "\<not> is_white c" "c \<noteq> CHR '']''" using starts_Cons [OF assms(2)] by auto
  let ?T = "t @ w' @ CHR '']'' # rest"
  have n1: "need (w @ (m @ s @ t) @ w' @ CHR '']'' # rest) = Inr (s @ ?T)"
    using need_white [of "w @ m" c "r @ ?T"] w assms(3) s by simp
  have "ends_number ?T"
    using assms(5) w(2) by (cases "arr = []") (auto intro: ends_number_white)
  with assms(1) f(2) have p: "ParseStr D f (s @ ?T) = Inr (v, ?T)"
    by (simp add: reads_def)
  have hd: "peek (s @ ?T) \<noteq> CHR '']''" using s by simp
  show "ParseArray D fuel acc (w @ (m @ s @ t) @ w' @ CHR '']'' # rest) = Inr (JArray (acc @ v # arr), rest)"
  proof (cases "arr = []")
    case True
    then have "need ?T = Inr (CHR '']'' # rest)"
      using assms(5) need_white [OF w(2), of "CHR '']''" rest] by (simp add: is_white_def)
    then show ?thesis
      unfolding f(1) ParseArray.simps ParseArray_step_def n1 bindr_simps
      using hd p True by simp
  next
    case False
    then have t: "reads_array D arr u" "t = '','' @ n @ u" using assms(5) by auto
    have "need ?T = Inr ?T"
      using t(2) need_white [of "[]" "CHR '',''" "n @ u @ w' @ CHR '']'' # rest"] by (simp add: is_white_def)
    moreover have "2 * length u + 2 \<le> f" using fuel f(1) t(2) s(1) by simp
    then have "ParseArray D f (acc @ [v]) (n @ u @ w' @ CHR '']'' # rest) = Inr (JArray (acc @ v # arr), rest)"
      using t(1) assms(4) w(2) by (simp add: reads_array_def)
    ultimately show ?thesis
      unfolding f(1) ParseArray.simps ParseArray_step_def n1 bindr_simps
      using hd p t(2) by simp
  qed
qed

lemma reads_object_Cons:
  assumes "reads D v s" and "starts s" and "raw_ok k" and "white m" and "white n"
    and "if obj = [] then t = [] else reads_object D obj u \<and> t = '','' @ n @ u"
  shows "reads_object D ((k, v) # obj) (m @ quoted k @ '':'' @ s @ t)"
  unfolding reads_object_def
proof (intro allI impI)
  fix acc w w' and rest :: string and fuel
  let ?U = "m @ quoted k @ '':'' @ s @ t"
  assume w: "white w" "white w'" and fuel: "2 * length ?U + 2 \<le> fuel"
    and sort: "sorted_wrt (<) (map fst (acc @ (k, v) # obj))"
  then obtain f where f: "fuel = Suc f" "2 * length s + 1 \<le> f" by (cases fuel) auto
  obtain c r where s: "s = c # r" "\<not> is_white c" using starts_Cons [OF assms(2)] by auto
  let ?T = "t @ w' @ CHR ''}'' # rest"
  have n1: "need (w @ ?U @ w' @ CHR ''}'' # rest) = Inr (CHR 0x22 # k @ CHR 0x22 # '':'' @ s @ ?T)"
    using need_white [of "w @ m" "CHR 0x22" "k @ CHR 0x22 # '':'' @ s @ ?T"] w assms(4)
    by (simp add: quoted_def is_white_def)
  have n2: "need ('':'' @ s @ ?T) = Inr ('':'' @ s @ ?T)" "need (s @ ?T) = Inr (s @ ?T)"
    using need_white [of "[]" "CHR '':''" "s @ ?T"] need_white [of "[]" c "r @ ?T"] s by (simp_all add: is_white_def)
  have "ends_number ?T"
    using assms(6) w(2) by (cases "obj = []") (auto intro: ends_number_white)
  with assms(1) f(2) have p: "ParseStr D f (s @ ?T) = Inr (v, ?T)"
    by (simp add: reads_def)
  have ins: "obj_insert k v acc = acc @ [(k, v)]"
    using sort by (intro obj_insert_last) (auto simp: sorted_wrt_append)
  note step = f(1) ParseObject.simps ParseObject_step_def n1 bindr_simps
  show "ParseObject D fuel acc (w @ ?U @ w' @ CHR ''}'' # rest) = Inr (JObject (acc @ (k, v) # obj), rest)"
  proof (cases "obj = []")
    case True
    then have "need ?T = Inr (CHR ''}'' # rest)"
      using assms(6) need_white [OF w(2), of "CHR ''}''" rest] by (simp add: is_white_def)
    then show ?thesis
      unfolding step using raw_ok_extract [OF assms(3)] n2 p ins True by (simp add: quoted_def)
  next
    case False
    then have t: "reads_object D obj u" "t = '','' @ n @ u" using assms(6) by auto
    have "need ?T = Inr ?T"
      using t(2) need_white [of "[]" "CHR '',''" "n @ u @ w' @ CHR ''}'' # rest"] by (simp add: is_white_def)
    moreover have "2 * length u + 2 \<le> f" using fuel f(1) t(2) s(1) by simp
    then have "ParseObject D f (acc @ [(k, v)]) (n @ u @ w' @ CHR ''}'' # rest) = Inr (JObject (acc @ (k, v) # obj), rest)"
      using t(1) assms(5) w(2) sort by (simp add: reads_object_def)
    ultimately show ?thesis
      unfolding step using raw_ok_extract [OF assms(3)] n2 p ins t(2) by (simp add: quoted_def)
  qed
qed

lemma Stringify_reads:
  fixes v :: "'d jvalue"
  shows "json_ok v \<Longrightarrow> \<exists>s. Stringify D i p pretty ic v = Inr s \<and> reads D v s"
    and "json_ok (JArray arr) \<Longrightarrow> \<exists>s. Stringify_array D i p pretty ic arr = Inr s \<and>
      (arr = [] \<and> s = [] \<or> reads_array D arr s)"
    and "json_ok (JObject obj) \<Longrightarrow> \<exists>s. Stringify_object D i p pretty ic obj = Inr s \<and>
      (obj = [] \<and> s = [] \<or> reads_object D obj s)"
proof (induction D i p pretty ic v and D i p pretty ic arr and D i p pretty ic obj
    rule: Stringify_Stringify_array_Stringify_object.induct)
  case (1 D i p pretty ic n)
  then show ?case by (simp add: print_INT64 reads_INT64)
next
  case (2 D i p pretty ic n)
  then show ?case by (simp add: print_UINT64 reads_UINT64)
next
  case (3 D i p pretty ic s)
  then show ?case by (simp add: reads_string)
next
  case (4 D i p pretty ic b)
  then show ?case by (cases b) (simp_all add: reads_literals)
next
  case (5 D i p pretty ic d)
  then show ?case by simp
next
  case (6 D i p pretty ic arr)
  then obtain s where "Stringify_array D (i + 1) p pretty ic arr = Inr s" "arr = [] \<and> s = [] \<or> reads_array D arr s"
    by blast
  then show ?case
    using reads_JArray [of arr s D "newline pretty" "newline pretty @ margin pretty i ic"] by auto
next
  case (7 D i p pretty ic obj)
  then obtain s where s: "Stringify_object D (i + 1) p pretty ic obj = Inr s" "obj = [] \<and> s = [] \<or> reads_object D obj s"
    by blast
  have "sorted_wrt (<) (map fst obj)" using 7(2) by simp
  with reads_JObject [OF s(2), of "newline pretty" "newline pretty @ margin pretty i ic"] s(1)
  show ?case by simp
next
  case (8 D i p pretty ic)
  then show ?case by (simp add: reads_literals)
next
  case (9 D i p pretty ic)
  then show ?case by simp
next
  case (10 D i p pretty ic v arr)
  obtain s where s: "Stringify D i p pretty ic v = Inr s" "reads D v s" using 10(1,3) by auto
  obtain u where u: "Stringify_array D i p pretty ic arr = Inr u" "arr = [] \<and> u = [] \<or> reads_array D arr u"
    using 10(2,3) s(1) by auto
  have st: "starts s" using Stringify_starts s(1) 10(3) by auto
  have "reads_array D (v # arr) (margin pretty i ic @ s @ (if arr \<noteq> [] then '','' @ newline pretty else []) @ u)"
    by (rule reads_array_Cons [OF s(2) st, where n = "newline pretty" and u = u]) (use u in auto)
  then show ?case using s(1) u(1) by simp
next
  case (11 D i p pretty ic)
  then show ?case by simp
next
  case (12 D i p pretty ic k v obj)
  obtain s where s: "Stringify D i p pretty ic v = Inr s" "reads D v s" using 12(1,3) by auto
  obtain u where u: "Stringify_object D i p pretty ic obj = Inr u" "obj = [] \<and> u = [] \<or> reads_object D obj u"
    using 12(2,3) s(1) by auto
  have st: "starts s" "raw_ok k" using Stringify_starts s(1) 12(3) by auto
  have "reads_object D ((k, v) # obj)
      (margin pretty i ic @ quoted k @ '':'' @ s @ (if obj \<noteq> [] then '','' @ newline pretty else []) @ u)"
    by (rule reads_object_Cons [OF s(2) st, where n = "newline pretty" and u = u]) (use u in auto)
  then show ?case using s(1) u(1) by simp
qed

section \<open>Objects are maps\<close>

lemma obj_insert_keys: "set (map fst (obj_insert k v obj)) = insert k (set (map fst obj))"
  by (induction k v obj rule: obj_insert.induct) auto

lemma obj_insert_sorted:
  "sorted_wrt (<) (map fst obj) \<Longrightarrow> sorted_wrt (<) (map fst (obj_insert k v obj))"
proof (induction k v obj rule: obj_insert.induct)
  case (1 k v)
  then show ?case by simp
next
  case (2 k v k' v' obj)
  consider "k < k'" | "k = k'" | "k' < k" "\<not> k < k'" "k \<noteq> k'" by (cases k k' rule: linorder_cases) auto
  then show ?case
  proof cases
    case 3
    have "k' < x" if "x \<in> set (map fst (obj_insert k v obj))" for x
      using that obj_insert_keys [of k v obj] 2(2) 3(1) by auto
    with 2 3 show ?thesis by simp
  qed (use 2(2) in \<open>auto dest: order.strict_trans\<close>)
qed

lemma obj_insert_map: "map_of (obj_insert k v obj) x = (if x = k then Some v else map_of obj x)"
  if "sorted_wrt (<) (map fst obj)"
  using that by (induction k v obj rule: obj_insert.induct) auto

lemma obj_inserts:
  "sorted_wrt (<) (map fst obj) \<Longrightarrow>
   sorted_wrt (<) (map fst (foldl (\<lambda>obj (k, v). obj_insert k v obj) obj init)) \<and>
   map_of (foldl (\<lambda>obj (k, v). obj_insert k v obj) obj init) x = (map_of obj ++ map_of (rev init)) x"
proof (induction init arbitrary: obj)
  case Nil
  then show ?case by simp
next
  case (Cons kv init)
  obtain k v where kv: "kv = (k, v)" by (cases kv)
  have s: "sorted_wrt (<) (map fst (obj_insert k v obj))" using Cons.prems by (rule obj_insert_sorted)
  from Cons.IH [OF s] kv show ?case
    by (auto simp: obj_insert_map [OF Cons.prems] map_add_def split: option.splits)
qed

section \<open>Properties\<close>

text \<open>
  C39: A JSON value that satisfies \<open>json_ok\<close> is printed, compactly or with any indentation, as a
  text that parses to the same value: nested arrays and objects, booleans, null, unsigned 64-bit integers, negative ones
  but the least, and strings and keys that are stored the way they stand in a text: every quote and backslash escaped, no
  raw zero and no raw control character but the tab. Outside of that there are floating-point numbers, whose
  text is rounded, the least integer, which overflows, and strings with other control characters, which print but
  do not parse back (\<open>json_string_value\<close>).
\<close>

theorem json_roundtrip:
  assumes "json_ok v"
  shows "\<exists>s. Stringify D 0 precision pretty indent_chars v = Inr s \<and> Parse D (Some s) = Inr v"
proof -
  obtain s where s: "Stringify D 0 precision pretty indent_chars v = Inr s" "reads D v s"
    using Stringify_reads(1) [OF assms] by blast
  obtain c t where "s = c # t" "\<not> is_white c"
    using starts_Cons [OF Stringify_starts [OF assms s(1)]] by auto
  then have "need s = Inr s" using need_white [of "[]" c t] by simp
  moreover have "ParseStr D (parse_fuel s) s = Inr (v, [])"
    using s(2) [unfolded reads_def, rule_format, of "[]" "parse_fuel s"] by (simp add: parse_fuel_def)
  ultimately show ?thesis
    using s(1) by (simp add: Parse_def SkipWhitespace_def)
qed

text \<open>Floating point instantiated by exact reals, with numbers printed by their integer part.\<close>

definition jdbl_real :: "real jdbl" where
  "jdbl_real = dbl.extend dbl_real \<lparr> d_of_s64 = real_of_int, d_to_s64 = (\<lambda>x. \<lfloor>x\<rfloor>),
     d_to_u64 = (\<lambda>x. word_of_int \<lfloor>x\<rfloor>), d_of_int = real_of_int, d_tenth = 1 / 10,
     d_finite = (\<lambda>_. True), d_nonzero = (\<lambda>x. x \<noteq> 0),
     d_text = (\<lambda>x _. int_text \<lfloor>x\<rfloor>) \<rparr>"

definition sample_json :: "real jvalue" where
  "sample_json = JObject [(''a'', JArray [JInt64 (-5), JNull, JUint64 70]), (''b'', JString ''x'')]"

theorem json_roundtrip_witness:
  "\<exists>s. Stringify jdbl_real 0 16 True 2 sample_json = Inr s \<and> Parse jdbl_real (Some s) = Inr sample_json"
  by (rule json_roundtrip) (simp add: sample_json_def is_control_def)

text \<open>
  The parser ends on every text: with fuel for twice its length plus one it gives a value
  and a shorter rest, fails, or hits an arithmetic overflow, but never runs out of fuel.
\<close>

theorem json_parser_terminates:
  assumes "2 * length data + 1 \<le> fuel"
  shows "ParseStr D fuel data \<noteq> Inl J_fuel \<and>
    (\<forall>v rest. ParseStr D fuel data = Inr (v, rest) \<longrightarrow> length rest < length data)"
  using parser_sane [of fuel D] assms by (auto simp: jsane_def)

theorem json_parser_terminates_witness:
  "ParseStr jdbl_real 9 ''[[1,'' \<noteq> Inl J_fuel"
  by (rule json_parser_terminates [THEN conjunct1]) simp

text \<open>
  A string that is put into a value and printed parses back, in its escaped form, exactly if
  it has no character below the blank: a tab, a line break or any other control character is
  kept raw behind a backslash, and the parser rejects the whole text.
\<close>

theorem json_string_value:
  assumes "list_all (\<lambda>c. c \<noteq> CHR 0x00) s"
  shows "\<exists>t. Stringify D 0 precision pretty indent_chars (JValue_string s True b) = Inr t \<and>
    Parse D (Some t) = (if list_all printable s then Inr (JString (Escape b s)) else Inl J_fail)"
proof -
  let ?t = "quoted (Escape b s)"
  have n: "need ?t = Inr ?t"
    using need_white [of "[]" "CHR 0x22" "Escape b s @ [CHR 0x22]"] by (simp add: quoted_def is_white_def)
  have f: "parse_fuel ?t = Suc (2 * length ?t)" by (simp add: parse_fuel_def)
  have "Parse D (Some ?t) = (if list_all printable s then Inr (JString (Escape b s)) else Inl J_fail)"
  proof (cases "list_all printable s")
    case True
    then have "ExtractString (Escape b s @ [CHR 0x22]) = Some (Escape b s, [])"
      using raw_ok_extract [OF Escape_raw_ok] by blast
    with True n f show ?thesis
      by (simp add: Parse_def ParseStr_step_def quoted_def SkipWhitespace_def)
  next
    case False
    then have "ExtractString (Escape b s @ [CHR 0x22]) = None"
      using Escape_unreadable [OF assms] by blast
    with False n f show ?thesis
      by (auto simp: Parse_def ParseStr_step_def quoted_def)
  qed
  then show ?thesis by (simp add: JValue_string_def)
qed

theorem json_string_value_witness:
  "\<exists>t. Stringify jdbl_real 0 16 False 2 (JValue_string [CHR ''a'', CHR 0x0A] True False) = Inr t \<and>
    Parse jdbl_real (Some t) = Inl J_fail"
  using json_string_value [of "[CHR ''a'', CHR 0x0A]" jdbl_real 16 False 2 False] by (simp add: printable_def)

lemma Unescape_plain:
  "CHR 0x5C \<notin> set s \<Longrightarrow> prev \<noteq> CHR 0x5C \<Longrightarrow> Unescape_loop prev before (Escape b s) = before @ s"
proof (induction s arbitrary: prev before)
  case Nil
  then show ?case by simp
next
  case (Cons c s)
  then have c: "c \<noteq> CHR 0x5C" "CHR 0x5C \<notin> set s" by auto
  show ?case
  proof (cases "c \<in> set escaped_chars \<or> (c = CHR ''/'' \<and> b)")
    case True
    then have "Unescape_loop prev before (Escape b (c # s)) = Unescape_loop c (before @ [c]) (Escape b s)"
      using Cons.prems(2) by (cases "c \<in> set escaped_chars") simp_all
    with Cons.IH [OF c(2,1)] show ?thesis by simp
  next
    case False
    then have "Unescape_loop prev before (Escape b (c # s)) = Unescape_loop c (before @ [c]) (Escape b s)"
      using Cons.prems(2) by simp
    with Cons.IH [OF c(2,1)] show ?thesis by simp
  qed
qed

lemma Unescape_run:
  "Unescape_loop (CHR 0x5C) (before @ [CHR 0x5C]) (replicate m (CHR 0x5C)) = before @ [CHR 0x5C]"
  by (induction m) (simp_all add: escaped_chars_def)

text \<open>
  Unescaping undoes escaping for strings without a backslash, but not for strings that
  have several in a row: it compares every character with the one it kept last, and a run of
  any number of backslashes comes back as one.
\<close>

theorem unescape_escape:
  "(CHR 0x5C \<notin> set s \<longrightarrow> Unescape (Escape b s) = s) \<and>
   Unescape (Escape b (replicate (Suc n) (CHR 0x5C))) = [CHR 0x5C]"
proof -
  have e: "Escape b (replicate (Suc n) (CHR 0x5C)) = CHR 0x5C # replicate (2 * n + 1) (CHR 0x5C)"
    by (induction n) (simp_all add: escaped_chars_def)
  have "Unescape (CHR 0x5C # replicate (2 * n + 1) (CHR 0x5C)) = [CHR 0x5C]"
    using Unescape_run [of "[]" "2 * n + 1"] by (simp add: Unescape_def)
  with e Unescape_plain [of s "CHR 0x00" "[]" b] show ?thesis by (simp add: Unescape_def)
qed

theorem unescape_escape_witness:
  "Unescape (Escape False ''a/b'') = ''a/b'' \<and>
   Unescape (Escape False (replicate (Suc 1) (CHR 0x5C))) = [CHR 0x5C]"
  using unescape_escape [of "''a/b''" False 1] by simp

text \<open>
  An object built from a list of members, as the parser and the initialiser do it, has its
  keys in strictly ascending order and finds under each key the last value given for it.
\<close>

theorem json_object_is_map:
  "sorted_wrt (<) (ObjKeys (JValue_list init)) \<and> Child_name (JValue_list init) k = map_of (rev init) k"
  using obj_inserts [of "[]" init k] by (simp add: ObjKeys_def Child_name_def JValue_list_def)

end
