(* ===== verification/Client.thy ===== *)
theory Client
  imports Serialize "HOL-Library.Multiset"
begin

text \<open>
  The client side of requests: \<^verbatim>\<open>CAsyncServiceHandler\<close> of
  \<^verbatim>\<open>include/aclientw.h\<close> and \<^verbatim>\<open>include/aclientw.cpp\<close>.

  A request that wants to hear about its outcome puts a pair of its id and three callbacks at the
  end of a queue; results, exceptions, cancellation and a closed socket take pairs out. Pairs are
  heap objects that all handlers recycle through one stack.

  \<^item> The queues of pointers are lists of addresses: \<open>Membuffer\<close> shows that
    \<^verbatim>\<open>CUQueue\<close> implements lists of bytes and \<open>Safequeue\<close> that the stack, a
    \<^verbatim>\<open>CSafeDeque\<close>, implements a list of its elements.
  \<^item> A callback is a number, \<open>None\<close> for an empty \<^verbatim>\<open>std::function\<close>. The calls an
    operation makes are the list of \<open>event\<close>s it returns.
  \<^item> What the client core (a closed library) answers is an argument: whether the socket is
    batching, whether the request was sent.
  \<^item> \<open>handler_rep\<close> relates the heap and the queues to the requests they stand for; \<open>client_step\<close>
    interleaves the critical sections of any number of threads and handlers.
\<close>

section \<open>Pairs and the stack they are recycled through\<close>

record CResultCb =
  AsyncResultHandler :: "nat option"
  Discarded :: "nat option"
  ExceptionFromServer :: "nat option"

type_synonym PRR_PAIR = nat

text \<open>The heap: the pair at each address, \<open>None\<close> once it is deleted.\<close>

record CRR =
  pairs :: "(16 word \<times> CResultCb) option list"
  m_rrStack :: "PRR_PAIR list"

record CAsyncServiceHandler =
  m_vCallback :: "PRR_PAIR list"
  m_vBatching :: "PRR_PAIR list"
  IsRandom :: bool

datatype event =
    Result_cb nat "16 word"
  | Discarded_cb nat bool
  | Exception_cb nat "16 word"
  | Interrupted nat
  | Result_delegate nat "16 word"
  | Result_virtual "16 word"
  | Exception_virtual "16 word"
  | Exception_delegate nat "16 word"

definition deref :: "CRR \<Rightarrow> PRR_PAIR \<Rightarrow> fault + (16 word \<times> CResultCb)" where
  "deref c p =
     (if p < length (pairs c)
      then case pairs c ! p of Some x \<Rightarrow> Inr x | None \<Rightarrow> Inl Out_Of_Bounds
      else Inl Out_Of_Bounds)"

definition Reuse :: "CRR \<Rightarrow> PRR_PAIR option \<times> CRR" where
  "Reuse c = (case m_rrStack c of [] \<Rightarrow> (None, c) | p # st \<Rightarrow> (Some p, c\<lparr>m_rrStack := st\<rparr>))"

definition Recycle :: "PRR_PAIR \<Rightarrow> CRR \<Rightarrow> CRR" where
  "Recycle p c = c\<lparr>m_rrStack := p # m_rrStack c\<rparr>"

text \<open>Deleting a pair and its callbacks; a second time is a fault.\<close>

fun delete_pairs :: "CRR \<Rightarrow> PRR_PAIR list \<Rightarrow> fault + CRR" where
  "delete_pairs c [] = Inr c"
| "delete_pairs c (p # ps) =
     bindr (deref c p) (\<lambda>_. delete_pairs (c\<lparr>pairs := (pairs c)[p := None]\<rparr>) ps)"

definition ClearResultCallbackPool :: "nat \<Rightarrow> CRR \<Rightarrow> fault + CRR" where
  "ClearResultCallbackPool remaining c =
     (let remaining = min remaining (length (m_rrStack c)) in
      bindr (delete_pairs c (drop remaining (m_rrStack c))) (\<lambda>c.
      Inr (c\<lparr>m_rrStack := take remaining (m_rrStack c)\<rparr>)))"

text \<open>\<^verbatim>\<open>CleanQueue\<close> gives all pairs of a queue back to the stack.\<close>

definition CleanQueue :: "PRR_PAIR list \<Rightarrow> CRR \<Rightarrow> CRR" where
  "CleanQueue q c = c\<lparr>m_rrStack := m_rrStack c @ q\<rparr>"

section \<open>Sending\<close>

text \<open>The pair of a new request: recycled from the stack, or allocated.\<close>

definition new_pair :: "16 word \<Rightarrow> CResultCb \<Rightarrow> CRR \<Rightarrow> fault + (PRR_PAIR \<times> CRR)" where
  "new_pair reqId cb c =
     (case Reuse c of
        (Some p, c) \<Rightarrow> bindr (deref c p) (\<lambda>_. Inr (p, c\<lparr>pairs := (pairs c)[p := Some (reqId, cb)]\<rparr>))
      | (None, c) \<Rightarrow> Inr (length (pairs c), c\<lparr>pairs := pairs c @ [Some (reqId, cb)]\<rparr>))"

definition enqueue :: "bool \<Rightarrow> PRR_PAIR \<Rightarrow> CAsyncServiceHandler \<Rightarrow> CAsyncServiceHandler" where
  "enqueue batching p h =
     (if batching then h\<lparr>m_vBatching := m_vBatching h @ [p]\<rparr>
      else h\<lparr>m_vCallback := m_vCallback h @ [p]\<rparr>)"

text \<open>\<^verbatim>\<open>Remove\<close> searches from the end.\<close>

fun Remove_loop :: "PRR_PAIR list \<Rightarrow> PRR_PAIR \<Rightarrow> nat \<Rightarrow> bool \<times> PRR_PAIR list" where
  "Remove_loop q p 0 = (False, q)"
| "Remove_loop q p (Suc n) = (if q ! n = p then (True, take n q @ drop (Suc n) q) else Remove_loop q p n)"

definition Remove :: "PRR_PAIR list \<Rightarrow> PRR_PAIR \<Rightarrow> bool \<times> PRR_PAIR list" where
  "Remove q p = Remove_loop q p (length q)"

text \<open>After a failed send the pair is taken back out of the queue it was put into.\<close>

definition unsend :: "bool \<Rightarrow> PRR_PAIR \<Rightarrow> CAsyncServiceHandler \<Rightarrow> bool \<times> CAsyncServiceHandler" where
  "unsend batching p h =
     (if batching then let (ok, q) = Remove (m_vBatching h) p in (ok, h\<lparr>m_vBatching := q\<rparr>)
      else let (ok, q) = Remove (m_vCallback h) p in (ok, h\<lparr>m_vCallback := q\<rparr>))"

definition idInterrupt :: "16 word" where "idInterrupt = 29"
definition idReservedTwo :: "16 word" where "idReservedTwo = 0x2001"

definition has_callback :: "CResultCb \<Rightarrow> bool" where
  "has_callback cb \<longleftrightarrow> AsyncResultHandler cb \<noteq> None \<or> Discarded cb \<noteq> None \<or> ExceptionFromServer cb \<noteq> None"

definition SendRequest ::
  "16 word \<Rightarrow> CResultCb \<Rightarrow> bool \<Rightarrow> bool \<Rightarrow> CAsyncServiceHandler \<Rightarrow> CRR \<Rightarrow> fault + (bool \<times> CAsyncServiceHandler \<times> CRR)"
where
  "SendRequest reqId cb batching sent h c =
     (if reqId \<le> idReservedTwo then Inl Invalid_Argument
      else if has_callback cb
      then bindr (new_pair reqId cb c) (\<lambda>(p, c).
           let h = enqueue batching p h in
           if \<not> sent
           then let (ok, h) = unsend batching p h in Inr (False, h, if ok then Recycle p c else c)
           else Inr (True, h, c))
      else Inr (sent, h, c))"

definition CommitBatching :: "CAsyncServiceHandler \<Rightarrow> CAsyncServiceHandler" where
  "CommitBatching h = h\<lparr>m_vCallback := m_vCallback h @ m_vBatching h, m_vBatching := []\<rparr>"

definition AbortBatching :: "CAsyncServiceHandler \<Rightarrow> CRR \<Rightarrow> CAsyncServiceHandler \<times> CRR" where
  "AbortBatching h c = (h\<lparr>m_vBatching := []\<rparr>, CleanQueue (m_vBatching h) c)"

text \<open>\<^verbatim>\<open>AppendTo\<close>: the pairs of a queue that was merged go to the other handler.\<close>

definition AppendTo :: "CAsyncServiceHandler \<Rightarrow> CAsyncServiceHandler \<Rightarrow> CAsyncServiceHandler \<times> CAsyncServiceHandler" where
  "AppendTo h to = (h\<lparr>m_vCallback := []\<rparr>, to\<lparr>m_vCallback := m_vCallback to @ m_vCallback h\<rparr>)"

definition GetRequestsQueued :: "CAsyncServiceHandler \<Rightarrow> nat" where
  "GetRequestsQueued h = length (m_vCallback h)"

section \<open>Results, exceptions, cancellation\<close>

text \<open>The pair a result belongs to: the first with its id if the service answers in any order, else the front.\<close>

fun Find_random :: "CRR \<Rightarrow> 16 word \<Rightarrow> PRR_PAIR list \<Rightarrow> PRR_PAIR list \<Rightarrow> fault + (PRR_PAIR option \<times> PRR_PAIR list)" where
  "Find_random c usReqId before [] = Inr (None, before)"
| "Find_random c usReqId before (p # pp) =
     bindr (deref c p) (\<lambda>(r, _).
     if r = usReqId then Inr (Some p, before @ pp) else Find_random c usReqId (before @ [p]) pp)"

definition GetAsyncResultHandler ::
  "CRR \<Rightarrow> 16 word \<Rightarrow> CAsyncServiceHandler \<Rightarrow> fault + (PRR_PAIR option \<times> CAsyncServiceHandler)"
where
  "GetAsyncResultHandler c usReqId h =
     (if IsRandom h
      then bindr (Find_random c usReqId [] (m_vCallback h)) (\<lambda>(p, q). Inr (p, h\<lparr>m_vCallback := q\<rparr>))
      else case m_vCallback h of
             [] \<Rightarrow> Inr (None, h)
           | p # pp \<Rightarrow> bindr (deref c p) (\<lambda>(r, _).
               if r = usReqId then Inr (Some p, h\<lparr>m_vCallback := pp\<rparr>) else Inr (None, h)))"

text \<open>The delegates of \<^verbatim>\<open>ResultReturned\<close>, each of which may accept the result.\<close>

fun CRRImpl_Invoke :: "(nat \<times> bool) list \<Rightarrow> 16 word \<Rightarrow> event list \<times> bool" where
  "CRRImpl_Invoke [] reqId = ([], False)"
| "CRRImpl_Invoke ((d, accepts) # vD) reqId =
     (if accepts then ([Result_delegate d reqId], True)
      else let (evs, ok) = CRRImpl_Invoke vD reqId in (Result_delegate d reqId # evs, ok))"

text \<open>What a result does once its pair, if it has one, is found.\<close>

definition result_events :: "(nat \<times> bool) list \<Rightarrow> 16 word \<Rightarrow> CResultCb option \<Rightarrow> event list" where
  "result_events vD reqId rcb =
     (case (case rcb of None \<Rightarrow> None | Some cb \<Rightarrow> AsyncResultHandler cb) of
        Some f \<Rightarrow> [Result_cb f reqId]
      | None \<Rightarrow> let (evs, ok) = CRRImpl_Invoke vD reqId in if ok then evs else evs @ [Result_virtual reqId])"

definition OnRR ::
  "(nat \<times> bool) list \<Rightarrow> 16 word \<Rightarrow> uqueue \<Rightarrow> CAsyncServiceHandler \<Rightarrow> CRR \<Rightarrow>
   fault + (event list \<times> CAsyncServiceHandler \<times> CRR)"
where
  "OnRR vD reqId mc h c =
     (if reqId = idInterrupt
      then bindr (get_pod 8 mc) (\<lambda>(options, _). Inr ([Interrupted options], h, c))
      else bindr (GetAsyncResultHandler c reqId h) (\<lambda>(p, h).
           case p of
             None \<Rightarrow> Inr (result_events vD reqId None, h, c)
           | Some p \<Rightarrow> bindr (deref c p) (\<lambda>(_, rcb). Inr (result_events vD reqId (Some rcb), h, Recycle p c))))"

definition exception_events :: "nat list \<Rightarrow> 16 word \<Rightarrow> CResultCb option \<Rightarrow> event list" where
  "exception_events vD reqId rcb =
     Exception_virtual reqId #
     (case (case rcb of None \<Rightarrow> None | Some cb \<Rightarrow> ExceptionFromServer cb) of
        Some f \<Rightarrow> [Exception_cb f reqId] | None \<Rightarrow> []) @ map (\<lambda>d. Exception_delegate d reqId) vD"

definition OnSE ::
  "nat list \<Rightarrow> 16 word \<Rightarrow> CAsyncServiceHandler \<Rightarrow> CRR \<Rightarrow> fault + (event list \<times> CAsyncServiceHandler \<times> CRR)"
where
  "OnSE vD reqId h c =
     bindr (GetAsyncResultHandler c reqId h) (\<lambda>(p, h).
     case p of
       None \<Rightarrow> Inr (exception_events vD reqId None, h, c)
     | Some p \<Rightarrow> bindr (deref c p) (\<lambda>(_, rcb). Inr (exception_events vD reqId (Some rcb), h, Recycle p c)))"

definition discard_event :: "bool \<Rightarrow> CResultCb \<Rightarrow> event list" where
  "discard_event canceled rcb = (case Discarded rcb of Some f \<Rightarrow> [Discarded_cb f canceled] | None \<Rightarrow> [])"

fun discard_all :: "bool \<Rightarrow> CRR \<Rightarrow> PRR_PAIR list \<Rightarrow> fault + event list" where
  "discard_all canceled c [] = Inr []"
| "discard_all canceled c (p # pp) =
     bindr (deref c p) (\<lambda>(_, rcb).
     bindr (discard_all canceled c pp) (\<lambda>evs. Inr (discard_event canceled rcb @ evs)))"

text \<open>\<^verbatim>\<open>CleanCallbacks\<close> discards every request; \<open>canceled\<close> tells a cancellation from a closed socket.\<close>

definition CleanCallbacks ::
  "bool \<Rightarrow> CAsyncServiceHandler \<Rightarrow> CRR \<Rightarrow> fault + (event list \<times> nat \<times> CAsyncServiceHandler \<times> CRR)"
where
  "CleanCallbacks canceled h c =
     (let vBatching = m_vBatching h; vCallback = m_vCallback h; h = h\<lparr>m_vBatching := [], m_vCallback := []\<rparr> in
      bindr (discard_all canceled c vBatching) (\<lambda>ev0.
      let c = CleanQueue vBatching c in
      bindr (discard_all canceled c vCallback) (\<lambda>ev1.
      Inr (ev0 @ ev1, length vBatching + length vCallback, h, CleanQueue vCallback c))))"

section \<open>Jobs of the persistent queue\<close>

text \<open>
  \<^verbatim>\<open>CQueueImpl\<close> remembers how many requests wait when a job starts; aborting the job drops
  the requests queued since then with \<^verbatim>\<open>EraseBack\<close>.
\<close>

function EraseBack_loop ::
  "CRR \<Rightarrow> PRR_PAIR list \<Rightarrow> nat \<Rightarrow> nat \<Rightarrow> fault + (event list \<times> CRR)"
where
  "EraseBack_loop c pp cnt start =
     (if start = cnt then Inr ([], c)
      else if length pp \<le> start then Inl Out_Of_Bounds
      else bindr (deref c (pp ! start)) (\<lambda>(_, rcb).
           bindr (EraseBack_loop (Recycle (pp ! start) c) pp cnt (start + 1)) (\<lambda>(evs, c).
           Inr (discard_event True rcb @ evs, c))))"
  by auto
termination by (relation "measure (\<lambda>(c, pp, cnt, start). length pp - start)") auto

declare EraseBack_loop.simps [simp del]

definition EraseBack ::
  "nat \<Rightarrow> CAsyncServiceHandler \<Rightarrow> CRR \<Rightarrow> fault + (event list \<times> CAsyncServiceHandler \<times> CRR)"
where
  "EraseBack cnt h c =
     (let total = length (m_vCallback h); cnt = (if cnt > total then total else cnt) in
      bindr (EraseBack_loop c (m_vCallback h) cnt (total - cnt)) (\<lambda>(evs, c).
      Inr (evs, h\<lparr>m_vCallback := take (total - cnt) (m_vCallback h)\<rparr>, c)))"

definition StartJob :: "CAsyncServiceHandler \<Rightarrow> nat" where
  "StartJob h = length (m_vCallback h)"

definition AbortJob ::
  "nat \<Rightarrow> bool \<Rightarrow> CAsyncServiceHandler \<Rightarrow> CRR \<Rightarrow> fault + (bool \<times> event list \<times> CAsyncServiceHandler \<times> CRR)"
where
  "AbortJob nQIndex aborted h c =
     (if aborted
      then bindr (EraseBack (sub32 (length (m_vCallback h)) nQIndex) h c) (\<lambda>(evs, h, c). Inr (True, evs, h, c))
      else Inr (False, [], h, c))"

section \<open>The requests that queues of pairs stand for\<close>

type_synonym request = "16 word \<times> CResultCb"

definition queue_rep :: "CRR \<Rightarrow> PRR_PAIR list \<Rightarrow> request list \<Rightarrow> bool" where
  "queue_rep c q rs \<longleftrightarrow> map (deref c) q = map Inr rs"

definition handler_rep :: "CAsyncServiceHandler \<Rightarrow> CRR \<Rightarrow> request list \<Rightarrow> request list \<Rightarrow> bool" where
  "handler_rep h c P B \<longleftrightarrow>
     distinct (m_rrStack c @ m_vCallback h @ m_vBatching h) \<and>
     (\<forall>p \<in> set (m_rrStack c). \<exists>x. deref c p = Inr x) \<and>
     queue_rep c (m_vCallback h) P \<and> queue_rep c (m_vBatching h) B"

named_theorems client_simps

lemma deref_stack [client_simps]: "deref (c\<lparr>m_rrStack := st\<rparr>) = deref c"
  by (intro ext) (simp add: deref_def)

lemma deref_Inr: "deref c p = Inr x \<Longrightarrow> p < length (pairs c)"
  by (simp add: deref_def split: if_splits)

lemma deref_update [client_simps]:
  "p < length (pairs c) \<Longrightarrow>
   deref (c\<lparr>m_rrStack := st, pairs := (pairs c)[p := Some x]\<rparr>) q = (if q = p then Inr x else deref c q)"
  by (simp add: deref_def)

lemma deref_append [client_simps]:
  "deref (c\<lparr>pairs := pairs c @ [Some x]\<rparr>) q = (if q = length (pairs c) then Inr x else deref c q)"
  by (simp add: deref_def nth_append)

lemma queue_rep_simps [client_simps]:
  "queue_rep c [] rs \<longleftrightarrow> rs = []"
  "queue_rep c (p # q) rs \<longleftrightarrow> (\<exists>r rs'. rs = r # rs' \<and> deref c p = Inr r \<and> queue_rep c q rs')"
  by (auto simp: queue_rep_def map_eq_Cons_conv)

lemma queue_rep_append:
  "queue_rep c q rs \<Longrightarrow> queue_rep c q' rs' \<Longrightarrow> queue_rep c (q @ q') (rs @ rs')"
  by (simp add: queue_rep_def)

lemma queue_rep_cong: "queue_rep c q rs \<Longrightarrow> (\<And>p. p \<in> set q \<Longrightarrow> deref c' p = deref c p) \<Longrightarrow> queue_rep c' q rs"
  unfolding queue_rep_def by (metis (no_types, lifting) map_eq_conv)

lemma queue_rep_live: "queue_rep c q rs \<Longrightarrow> p \<in> set q \<Longrightarrow> \<exists>x. deref c p = Inr x"
  unfolding queue_rep_def by (metis in_set_conv_nth length_map nth_map)

lemma queue_rep_length: "queue_rep c q rs \<Longrightarrow> length rs = length q"
  unfolding queue_rep_def by (metis length_map)

lemma queue_rep_stack [client_simps]: "queue_rep (c\<lparr>m_rrStack := st\<rparr>) q rs = queue_rep c q rs"
  by (simp add: queue_rep_def client_simps)

text \<open>A new pair is not in any queue, and the other pairs stay as they are.\<close>

lemma new_pair_ok:
  assumes "handler_rep h c P B"
  obtains p c' where "new_pair reqId cb c = Inr (p, c')" "deref c' p = Inr (reqId, cb)"
    "handler_rep h c' P B" "p \<notin> set (m_rrStack c' @ m_vCallback h @ m_vBatching h)"
proof (cases "m_rrStack c")
  case Nil
  let ?c = "c\<lparr>pairs := pairs c @ [Some (reqId, cb)]\<rparr>"
  have new: "p \<noteq> length (pairs c)" if "p \<in> set (m_vCallback h @ m_vBatching h)" for p
    using that assms queue_rep_live deref_Inr unfolding handler_rep_def by (metis UnE nless_le set_append)
  have "handler_rep h ?c P B"
    using assms new Nil unfolding handler_rep_def
    by (auto simp: client_simps elim!: queue_rep_cong)
  then show thesis
    using new Nil by (intro that [of "length (pairs c)" ?c]) (auto simp: new_pair_def Reuse_def client_simps)
next
  case (Cons p st)
  let ?c = "c\<lparr>m_rrStack := st, pairs := (pairs c)[p := Some (reqId, cb)]\<rparr>"
  from assms Cons obtain x where x: "deref c p = Inr x" unfolding handler_rep_def by auto
  then have p: "p < length (pairs c)" by (rule deref_Inr)
  have new: "p \<notin> set (st @ m_vCallback h @ m_vBatching h)"
    using assms Cons unfolding handler_rep_def by auto
  then have "q \<in> set (st @ m_vCallback h @ m_vBatching h) \<Longrightarrow> deref ?c q = deref c q" for q
    using p by (auto simp: client_simps)
  moreover have "distinct (st @ m_vCallback h @ m_vBatching h)" "\<forall>q\<in>set st. \<exists>x. deref c q = Inr x"
    "queue_rep c (m_vCallback h) P" "queue_rep c (m_vBatching h) B"
    using assms Cons unfolding handler_rep_def by auto
  ultimately have "handler_rep h ?c P B"
    unfolding handler_rep_def by (auto elim!: queue_rep_cong)
  then show thesis
    using new p x Cons
    by (intro that [of p ?c]) (auto simp: new_pair_def Reuse_def client_simps)
qed

lemma Remove_last [simp]: "Remove (q @ [p]) p = (True, q)"
  by (simp add: Remove_def)

lemma Recycle_rep:
  "handler_rep h c P B \<Longrightarrow> deref c p = Inr x \<Longrightarrow> p \<notin> set (m_rrStack c @ m_vCallback h @ m_vBatching h) \<Longrightarrow>
   handler_rep h (Recycle p c) P B"
  by (simp add: handler_rep_def Recycle_def client_simps)

lemma enqueue_rep:
  assumes "handler_rep h c P B" "deref c p = Inr r" "p \<notin> set (m_rrStack c @ m_vCallback h @ m_vBatching h)"
  shows "handler_rep (enqueue b p h) c (if b then P else P @ [r]) (if b then B @ [r] else B)"
  using assms unfolding handler_rep_def enqueue_def
  by (auto intro!: queue_rep_append simp: client_simps)

lemma unsend_enqueue: "unsend b p (enqueue b p h) = (True, h)"
  by (simp add: unsend_def enqueue_def)

lemma SendRequest_ok:
  assumes "handler_rep h c P B" "\<not> reqId \<le> idReservedTwo"
  obtains h' c' where "SendRequest reqId cb batching sent h c = Inr (sent, h', c')"
    "handler_rep h' c' (if sent \<and> has_callback cb \<and> \<not> batching then P @ [(reqId, cb)] else P)
      (if sent \<and> has_callback cb \<and> batching then B @ [(reqId, cb)] else B)"
proof (cases "has_callback cb")
  case True
  obtain p c' where p: "new_pair reqId cb c = Inr (p, c')" "deref c' p = Inr (reqId, cb)"
    "handler_rep h c' P B" "p \<notin> set (m_rrStack c' @ m_vCallback h @ m_vBatching h)"
    using new_pair_ok [OF assms(1)] .
  show thesis
  proof (cases sent)
    case sent: True
    show thesis
      by (rule that [of "enqueue batching p h" c'])
        (use p True sent assms(2) enqueue_rep [OF p(3,2,4), of batching] in \<open>auto simp: SendRequest_def\<close>)
  next
    case False
    show thesis
      by (rule that [of h "Recycle p c'"])
        (use p True False assms(2) Recycle_rep [OF p(3,2,4)] in \<open>simp_all add: SendRequest_def unsend_enqueue\<close>)
  qed
next
  case False
  with assms show thesis by (intro that [of h c]) (auto simp: SendRequest_def)
qed

section \<open>What the operations do to the requests\<close>

fun take_first :: "16 word \<Rightarrow> request list \<Rightarrow> CResultCb option \<times> request list" where
  "take_first reqId [] = (None, [])"
| "take_first reqId (r # P) =
     (if fst r = reqId then (Some (snd r), P) else let (cb, Q) = take_first reqId P in (cb, r # Q))"

definition spec_take :: "bool \<Rightarrow> 16 word \<Rightarrow> request list \<Rightarrow> CResultCb option \<times> request list" where
  "spec_take random reqId P =
     (if random then take_first reqId P
      else case P of [] \<Rightarrow> (None, []) | r # Q \<Rightarrow> if fst r = reqId then (Some (snd r), Q) else (None, P))"

lemma Find_random_ok:
  assumes "queue_rep c q P" "distinct q" "take_first reqId P = (cb, P')"
  shows "\<exists>p q'. Find_random c reqId before q = Inr (p, before @ q') \<and> queue_rep c q' P' \<and>
    set q' \<subseteq> set q \<and> distinct q' \<and>
    (case p of None \<Rightarrow> cb = None \<and> q' = q
     | Some p \<Rightarrow> cb \<noteq> None \<and> deref c p = Inr (reqId, the cb) \<and> p \<in> set q - set q')"
  using assms
proof (induction q arbitrary: P P' before)
  case Nil
  then show ?case by (auto simp: client_simps)
next
  case (Cons p q)
  then obtain r Q where P: "P = r # Q" "deref c p = Inr r" "queue_rep c q Q" by (auto simp: client_simps)
  show ?case
  proof (cases "fst r = reqId")
    case True
    then have "cb = Some (snd r)" "P' = Q" "r = (reqId, snd r)" using Cons.prems(3) P(1) by auto
    then show ?thesis using P Cons.prems(2)
      by (intro exI [of _ "Some p"] exI [of _ q]) (auto simp: client_simps split: prod.splits)
  next
    case False
    then obtain Q' where Q': "take_first reqId Q = (cb, Q')" "P' = r # Q'"
      using Cons.prems(3) P(1) by (auto split: prod.splits)
    obtain p' q' where IH: "Find_random c reqId (before @ [p]) q = Inr (p', (before @ [p]) @ q')"
      "queue_rep c q' Q'" "set q' \<subseteq> set q" "distinct q'"
      "case p' of None \<Rightarrow> cb = None \<and> q' = q
       | Some p \<Rightarrow> cb \<noteq> None \<and> deref c p = Inr (reqId, the cb) \<and> p \<in> set q - set q'"
      using Cons.IH [OF P(3) _ Q'(1), of "before @ [p]"] Cons.prems(2) by auto
    have "Find_random c reqId before (p # q) = Inr (p', before @ p # q')"
      using False P(2) IH(1) by (cases r) simp
    moreover have "queue_rep c (p # q') P'" using P(2) IH(2) Q'(2) by (simp add: client_simps)
    ultimately show ?thesis
      using IH(3-5) Cons.prems(2) by (intro exI [of _ p'] exI [of _ "p # q'"]) (auto split: option.splits)
  qed
qed

lemma GetAsyncResultHandler_ok:
  assumes "handler_rep h c P B" "spec_take (IsRandom h) reqId P = (cb, P')"
  obtains p h' where "GetAsyncResultHandler c reqId h = Inr (p, h')" "handler_rep h' c P' B"
    "IsRandom h' = IsRandom h"
    "case p of None \<Rightarrow> cb = None \<and> h' = h
     | Some p \<Rightarrow> cb \<noteq> None \<and> deref c p = Inr (reqId, the cb) \<and>
        p \<notin> set (m_rrStack c @ m_vCallback h' @ m_vBatching h')"
proof (cases "IsRandom h")
  case True
  have q: "queue_rep c (m_vCallback h) P" "distinct (m_vCallback h)"
    using assms(1) by (simp_all add: handler_rep_def)
  have "take_first reqId P = (cb, P')" using assms(2) True by (simp add: spec_take_def)
  from Find_random_ok [OF q this, of "[]"] obtain p q' where
    f: "Find_random c reqId [] (m_vCallback h) = Inr (p, q')" "queue_rep c q' P'" "set q' \<subseteq> set (m_vCallback h)"
    "distinct q'"
    "case p of None \<Rightarrow> cb = None \<and> q' = m_vCallback h
     | Some p \<Rightarrow> cb \<noteq> None \<and> deref c p = Inr (reqId, the cb) \<and> p \<in> set (m_vCallback h) - set q'" by auto
  have "handler_rep (h\<lparr>m_vCallback := q'\<rparr>) c P' B"
    using assms(1) f(2-4) unfolding handler_rep_def by auto
  then show thesis
    using f(1,5) True assms(1)
    by (intro that [of p "h\<lparr>m_vCallback := q'\<rparr>"])
      (auto simp: GetAsyncResultHandler_def handler_rep_def split: option.splits)
next
  case False
  show thesis
  proof (cases "m_vCallback h")
    case Nil
    then have "P = []" using assms(1) by (simp add: handler_rep_def client_simps)
    with assms Nil False show thesis
      by (intro that [of None h]) (auto simp: GetAsyncResultHandler_def spec_take_def)
  next
    case (Cons p q)
    then obtain r Q where P: "P = r # Q" "deref c p = Inr r" "queue_rep c q Q"
      using assms(1) by (auto simp: handler_rep_def client_simps)
    show thesis
    proof (cases "fst r = reqId")
      case True
      then have "cb = Some (snd r)" "P' = Q" using assms(2) P(1) False by (auto simp: spec_take_def)
      with True show thesis
        using assms(1) P Cons False
        by (intro that [of "Some p" "h\<lparr>m_vCallback := q\<rparr>"])
          (auto simp: GetAsyncResultHandler_def handler_rep_def split: prod.splits)
    next
      case no: False
      then have "cb = None" "P' = P" using assms(2) P(1) False by (auto simp: spec_take_def)
      with no show thesis
        using assms(1) P Cons False
        by (intro that [of None h]) (auto simp: GetAsyncResultHandler_def split: prod.splits)
    qed
  qed
qed

lemma OnRR_ok:
  assumes "handler_rep h c P B" "spec_take (IsRandom h) reqId P = (cb, P')" "reqId \<noteq> idInterrupt"
  obtains h' c' where "OnRR vD reqId mc h c = Inr (result_events vD reqId cb, h', c')" "handler_rep h' c' P' B"
    "IsRandom h' = IsRandom h"
proof -
  obtain p h' where g: "GetAsyncResultHandler c reqId h = Inr (p, h')" "handler_rep h' c P' B"
    "IsRandom h' = IsRandom h"
    "case p of None \<Rightarrow> cb = None \<and> h' = h
     | Some p \<Rightarrow> cb \<noteq> None \<and> deref c p = Inr (reqId, the cb) \<and>
        p \<notin> set (m_rrStack c @ m_vCallback h' @ m_vBatching h')"
    using GetAsyncResultHandler_ok [OF assms(1,2)] .
  show thesis
  proof (cases p)
    case None
    with g assms(3) show thesis by (intro that [of h' c]) (simp_all add: OnRR_def)
  next
    case (Some a)
    with g assms(3) Recycle_rep [OF g(2), of a] show thesis
      by (intro that [of h' "Recycle a c"]) (auto simp: OnRR_def)
  qed
qed

lemma OnSE_ok:
  assumes "handler_rep h c P B" "spec_take (IsRandom h) reqId P = (cb, P')"
  obtains h' c' where "OnSE vD reqId h c = Inr (exception_events vD reqId cb, h', c')" "handler_rep h' c' P' B"
    "IsRandom h' = IsRandom h"
proof -
  obtain p h' where g: "GetAsyncResultHandler c reqId h = Inr (p, h')" "handler_rep h' c P' B"
    "IsRandom h' = IsRandom h"
    "case p of None \<Rightarrow> cb = None \<and> h' = h
     | Some p \<Rightarrow> cb \<noteq> None \<and> deref c p = Inr (reqId, the cb) \<and>
        p \<notin> set (m_rrStack c @ m_vCallback h' @ m_vBatching h')"
    using GetAsyncResultHandler_ok [OF assms] .
  show thesis
  proof (cases p)
    case None
    with g show thesis by (intro that [of h' c]) (simp_all add: OnSE_def)
  next
    case (Some a)
    with g Recycle_rep [OF g(2), of a] show thesis
      by (intro that [of h' "Recycle a c"]) (auto simp: OnSE_def)
  qed
qed

lemma CommitBatching_ok: "handler_rep h c P B \<Longrightarrow> handler_rep (CommitBatching h) c (P @ B) []"
  by (auto simp: CommitBatching_def handler_rep_def client_simps intro: queue_rep_append)

lemma AbortBatching_ok:
  "handler_rep h c P B \<Longrightarrow> handler_rep (fst (AbortBatching h c)) (snd (AbortBatching h c)) P []"
  using queue_rep_live [of c "m_vBatching h" B]
  by (auto simp: AbortBatching_def CleanQueue_def handler_rep_def client_simps)

lemma discard_all_ok:
  "queue_rep c q rs \<Longrightarrow> discard_all canceled c q = Inr (concat (map (discard_event canceled \<circ> snd) rs))"
  by (induction q arbitrary: rs) (auto simp: client_simps)

lemma CleanCallbacks_ok:
  assumes "handler_rep h c P B"
  obtains h' c' where "CleanCallbacks canceled h c =
      Inr (concat (map (discard_event canceled \<circ> snd) (B @ P)), length P + length B, h', c')"
    "handler_rep h' c' [] []" "IsRandom h' = IsRandom h"
proof -
  let ?c = "c\<lparr>m_rrStack := (m_rrStack c @ m_vBatching h) @ m_vCallback h\<rparr>"
  let ?h = "h\<lparr>m_vBatching := [], m_vCallback := []\<rparr>"
  have q: "queue_rep c (m_vBatching h) B" "queue_rep c (m_vCallback h) P"
    using assms by (simp_all add: handler_rep_def)
  have "handler_rep ?h ?c [] []"
    using assms queue_rep_live [OF q(1)] queue_rep_live [OF q(2)]
    by (auto simp: handler_rep_def client_simps)
  moreover have "CleanCallbacks canceled h c =
      Inr (concat (map (discard_event canceled \<circ> snd) (B @ P)), length P + length B, ?h, ?c)"
    using discard_all_ok [OF q(1)] discard_all_ok [of ?c, unfolded client_simps, OF q(2)] queue_rep_length [OF q(1)]
      queue_rep_length [OF q(2)]
      discard_all_ok [of "CleanQueue (m_vBatching h) c" "m_vCallback h" P canceled] q(2)
    by (simp add: CleanCallbacks_def CleanQueue_def client_simps Let_def add.commute)
  ultimately show thesis by (intro that [of ?h ?c]) auto
qed

lemma delete_pairs_ok:
  assumes "distinct ps" "\<forall>p\<in>set ps. \<exists>x. deref c p = Inr x"
  shows "\<exists>c'. delete_pairs c ps = Inr c' \<and> m_rrStack c' = m_rrStack c \<and>
    (\<forall>p. p \<notin> set ps \<longrightarrow> deref c' p = deref c p)"
  using assms
proof (induction ps arbitrary: c)
  case (Cons p ps)
  let ?c = "c\<lparr>pairs := (pairs c)[p := None]\<rparr>"
  from Cons.prems obtain x where x: "deref c p = Inr x" by auto
  then have p: "p < length (pairs c)" by (rule deref_Inr)
  then have other: "deref ?c q = deref c q" if "q \<noteq> p" for q
    using that by (simp add: deref_def)
  have "\<exists>x. deref ?c q = Inr x" if "q \<in> set ps" for q
  proof -
    from that Cons.prems have "q \<noteq> p" "\<exists>x. deref c q = Inr x" by auto
    with other show ?thesis by metis
  qed
  then have "\<forall>q\<in>set ps. \<exists>x. deref ?c q = Inr x" ..
  from Cons.IH [OF _ this] Cons.prems(1) obtain c' where
    "delete_pairs ?c ps = Inr c'" "m_rrStack c' = m_rrStack c"
    "\<forall>p. p \<notin> set ps \<longrightarrow> deref c' p = deref ?c p" by auto
  with x other show ?case by (intro exI [of _ c']) auto
qed simp

lemma ClearResultCallbackPool_ok:
  assumes "handler_rep h c P B"
  obtains c' where "ClearResultCallbackPool n c = Inr c'" "handler_rep h c' P B"
proof -
  let ?n = "min n (length (m_rrStack c))" and ?st = "m_rrStack c"
  have d: "distinct (?st @ m_vCallback h @ m_vBatching h)" "\<forall>p\<in>set ?st. \<exists>x. deref c p = Inr x"
    using assms by (simp_all add: handler_rep_def)
  then have "distinct (drop ?n ?st)" "\<forall>p\<in>set (drop ?n ?st). \<exists>x. deref c p = Inr x"
    by (auto dest: in_set_dropD)
  from delete_pairs_ok [OF this] obtain c' where
    c': "delete_pairs c (drop ?n ?st) = Inr c'" "m_rrStack c' = ?st"
    "\<forall>p. p \<notin> set (drop ?n ?st) \<longrightarrow> deref c' p = deref c p" by blast
  have t: "set (take ?n ?st) \<inter> set (drop ?n ?st) = {}"
    using d(1) by (intro set_take_disj_set_drop_if_distinct) auto
  have "deref c' p = deref c p" if "p \<in> set (take ?n ?st @ m_vCallback h @ m_vBatching h)" for p
  proof -
    have "set (drop ?n ?st) \<subseteq> set ?st" by (rule set_drop_subset)
    then have "p \<notin> set (drop ?n ?st)" using that t d(1) by auto
    with c'(3) show ?thesis by blast
  qed
  with assms d have "handler_rep h (c'\<lparr>m_rrStack := take ?n ?st\<rparr>) P B"
    unfolding handler_rep_def
    by (auto simp: client_simps elim!: queue_rep_cong dest: in_set_takeD)
  then show thesis using c'(1,2) by (intro that) (simp_all add: ClearResultCallbackPool_def)
qed

section \<open>Any sequence of operations\<close>

datatype client_op =
    Send "16 word" CResultCb bool bool
  | Commit
  | Abort
  | Result "(nat \<times> bool) list" "16 word" uqueue
  | Server_exception "nat list" "16 word"
  | Clean bool
  | Clear_pool nat
  | Abort_job nat bool
  | Append_to CAsyncServiceHandler

fun run_client_op ::
  "client_op \<Rightarrow> CAsyncServiceHandler \<times> CRR \<Rightarrow> fault + (event list \<times> CAsyncServiceHandler \<times> CRR)"
where
  "run_client_op (Send reqId cb batching sent) (h, c) =
     bindr (SendRequest reqId cb batching sent h c) (\<lambda>(_, h, c). Inr ([], h, c))"
| "run_client_op Commit (h, c) = Inr ([], CommitBatching h, c)"
| "run_client_op Abort (h, c) = Inr ([], AbortBatching h c)"
| "run_client_op (Result vD reqId mc) (h, c) = OnRR vD reqId mc h c"
| "run_client_op (Server_exception vD reqId) (h, c) = OnSE vD reqId h c"
| "run_client_op (Clean canceled) (h, c) =
     bindr (CleanCallbacks canceled h c) (\<lambda>(evs, _, h, c). Inr (evs, h, c))"
| "run_client_op (Clear_pool n) (h, c) = bindr (ClearResultCallbackPool n c) (\<lambda>c. Inr ([], h, c))"
| "run_client_op (Abort_job nQIndex aborted) (h, c) =
     bindr (AbortJob nQIndex aborted h c) (\<lambda>(_, evs, h, c). Inr (evs, h, c))"
| "run_client_op (Append_to other) (h, c) = Inr ([], fst (AppendTo h other), c)"

text \<open>
  The specification works on the waiting requests \<open>P\<close> and the batched ones \<open>B\<close>; there are no
  pairs, no heap and no stack.
\<close>

text \<open>
  What \<^verbatim>\<open>EraseBack\<close> does to the waiting requests: of the last \<open>k\<close> it takes out all, but it discards only
  those before the \<open>k\<close>-th of all requests; if the last \<open>k\<close> begin behind that, it runs out of the queue.
\<close>

definition spec_erase_back :: "nat \<Rightarrow> request list \<Rightarrow> fault + (event list \<times> request list)" where
  "spec_erase_back cnt P =
     (let k = min cnt (length P); n = length P - k in
      if k < n then Inl Out_Of_Bounds
      else Inr (concat (map (discard_event True \<circ> snd) (take (k - n) (drop n P))), take n P))"

fun spec_client_op ::
  "bool \<Rightarrow> client_op \<Rightarrow> request list \<times> request list \<Rightarrow> fault + (event list \<times> request list \<times> request list)"
where
  "spec_client_op random (Send reqId cb batching sent) (P, B) =
     (if reqId \<le> idReservedTwo then Inl Invalid_Argument
      else if \<not> (sent \<and> has_callback cb) then Inr ([], P, B)
      else if batching then Inr ([], P, B @ [(reqId, cb)])
      else Inr ([], P @ [(reqId, cb)], B))"
| "spec_client_op random Commit (P, B) = Inr ([], P @ B, [])"
| "spec_client_op random Abort (P, B) = Inr ([], P, [])"
| "spec_client_op random (Result vD reqId mc) (P, B) =
     (if reqId = idInterrupt then bindr (get_pod 8 mc) (\<lambda>(options, _). Inr ([Interrupted options], P, B))
      else let (cb, P) = spec_take random reqId P in Inr (result_events vD reqId cb, P, B))"
| "spec_client_op random (Server_exception vD reqId) (P, B) =
     (let (cb, P) = spec_take random reqId P in Inr (exception_events vD reqId cb, P, B))"
| "spec_client_op random (Clean canceled) (P, B) =
     Inr (concat (map (discard_event canceled \<circ> snd) (B @ P)), [], [])"
| "spec_client_op random (Clear_pool n) (P, B) = Inr ([], P, B)"
| "spec_client_op random (Abort_job nQIndex aborted) (P, B) =
     (if aborted then bindr (spec_erase_back (sub32 (length P) nQIndex) P) (\<lambda>(evs, P). Inr (evs, P, B))
      else Inr ([], P, B))"
| "spec_client_op random (Append_to other) (P, B) = Inr ([], [], B)"

fun run_client :: "('s \<Rightarrow> client_op \<Rightarrow> fault + (event list \<times> 's)) \<Rightarrow> client_op list \<Rightarrow> 's \<Rightarrow> fault + (event list \<times> 's)" where
  "run_client step [] s = Inr ([], s)"
| "run_client step (opn # ops) s =
     bindr (step s opn) (\<lambda>(evs, s).
     bindr (run_client step ops s) (\<lambda>(evs', s). Inr (evs @ evs', s)))"

definition client_rel ::
  "bool \<Rightarrow> fault + (event list \<times> CAsyncServiceHandler \<times> CRR) \<Rightarrow> fault + (event list \<times> request list \<times> request list) \<Rightarrow> bool"
where
  "client_rel random r s \<longleftrightarrow>
     (case s of
        Inl e \<Rightarrow> r = Inl e
      | Inr (evs, P, B) \<Rightarrow> \<exists>h c. r = Inr (evs, h, c) \<and> handler_rep h c P B \<and> IsRandom h = random)"

lemma client_relI:
  "r = Inr (evs, h, c) \<Longrightarrow> handler_rep h c P B \<Longrightarrow> IsRandom h = random \<Longrightarrow> client_rel random r (Inr (evs, P, B))"
  by (simp add: client_rel_def)

lemma enqueue_random: "IsRandom (enqueue batching p h) = IsRandom h"
  by (simp add: enqueue_def)

lemma SendRequest_random: "SendRequest reqId cb batching sent h c = Inr (ok, h', c') \<Longrightarrow> IsRandom h' = IsRandom h"
  by (auto simp: SendRequest_def enqueue_random unsend_enqueue Let_def bindr_Inr_iff split: if_splits)

lemma queue_rep_nth: "queue_rep c q rs \<Longrightarrow> i < length q \<Longrightarrow> deref c (q ! i) = Inr (rs ! i)"
  unfolding queue_rep_def by (metis length_map nth_map)

lemma EraseBack_loop_ok:
  "queue_rep c pp rs \<Longrightarrow> start \<le> n \<Longrightarrow> n \<le> length pp \<Longrightarrow>
   EraseBack_loop c pp n start =
     Inr (concat (map (discard_event True \<circ> snd) (take (n - start) (drop start rs))),
          c\<lparr>m_rrStack := rev (take (n - start) (drop start pp)) @ m_rrStack c\<rparr>)"
proof (induction "n - start" arbitrary: start c)
  case 0
  then show ?case by (subst EraseBack_loop.simps) simp
next
  case (Suc k)
  have len: "start < length pp" "start < length rs"
    using Suc.hyps(2) Suc.prems queue_rep_length [OF Suc.prems(1)] by simp_all
  have s: "n - start = Suc (n - Suc start)" "drop start rs = rs ! start # drop (Suc start) rs"
    "drop start pp = pp ! start # drop (Suc start) pp"
    using Suc.hyps(2) Cons_nth_drop_Suc [OF len(1)] Cons_nth_drop_Suc [OF len(2)] by simp_all
  have "deref c (pp ! start) = Inr (rs ! start)" by (rule queue_rep_nth [OF Suc.prems(1) len(1)])
  moreover have "queue_rep (Recycle (pp ! start) c) pp rs" using Suc.prems(1) by (simp add: Recycle_def client_simps)
  ultimately show ?case
    using Suc.hyps(1) [of "Suc start" "Recycle (pp ! start) c"] Suc.hyps(2) Suc.prems(2,3) len s
    by (subst EraseBack_loop.simps) (auto simp: Recycle_def split: prod.splits)
qed

lemma EraseBack_loop_overrun:
  "queue_rep c pp rs \<Longrightarrow> n < start \<Longrightarrow> EraseBack_loop c pp n start = Inl Out_Of_Bounds"
proof (induction "length pp - start" arbitrary: start c)
  case 0
  then show ?case by (subst EraseBack_loop.simps) simp
next
  case (Suc k)
  then have "deref c (pp ! start) = Inr (rs ! start)" by (intro queue_rep_nth) auto
  moreover have "queue_rep (Recycle (pp ! start) c) pp rs" using Suc.prems(1) by (simp add: Recycle_def client_simps)
  ultimately show ?case
    using Suc.hyps(1) [of "Suc start" "Recycle (pp ! start) c"] Suc.hyps(2) Suc.prems(2)
    by (subst EraseBack_loop.simps) (auto split: prod.splits)
qed

lemma EraseBack_ok:
  assumes "handler_rep h c P B"
  shows "case spec_erase_back cnt P of
      Inl e \<Rightarrow> EraseBack cnt h c = Inl e
    | Inr (evs, P') \<Rightarrow> \<exists>h' c'. EraseBack cnt h c = Inr (evs, h', c') \<and> handler_rep h' c' P' B \<and> IsRandom h' = IsRandom h"
proof -
  have q: "queue_rep c (m_vCallback h) P" using assms by (simp add: handler_rep_def)
  have len: "length (m_vCallback h) = length P" using queue_rep_length [OF q] by simp
  define k where "k = min cnt (length P)"
  define n where "n = length P - k"
  have kn: "(if length P < cnt then length P else cnt) = k" "k \<le> length P" by (auto simp: k_def)
  have e: "EraseBack cnt h c =
      bindr (EraseBack_loop c (m_vCallback h) k n) (\<lambda>(evs, c). Inr (evs, h\<lparr>m_vCallback := take n (m_vCallback h)\<rparr>, c))"
    using len kn(1) by (auto simp: EraseBack_def Let_def n_def)
  show ?thesis
  proof (cases "k < n")
    case True
    then show ?thesis
      using EraseBack_loop_overrun [OF q True] e by (simp add: spec_erase_back_def Let_def flip: k_def n_def)
  next
    case False
    let ?c = "c\<lparr>m_rrStack := rev (take (k - n) (drop n (m_vCallback h))) @ m_rrStack c\<rparr>"
    let ?h = "h\<lparr>m_vCallback := take n (m_vCallback h)\<rparr>"
    have l: "EraseBack_loop c (m_vCallback h) k n =
        Inr (concat (map (discard_event True \<circ> snd) (take (k - n) (drop n P))), ?c)"
      using EraseBack_loop_ok [OF q, of n k] False kn(2) len by simp
    have d: "distinct (m_rrStack c @ m_vCallback h @ m_vBatching h)" using assms by (simp add: handler_rep_def)
    have sub: "set (take (k - n) (drop n (m_vCallback h))) \<subseteq> set (m_vCallback h)" "set (take n (m_vCallback h)) \<subseteq> set (m_vCallback h)"
      by (meson set_drop_subset set_take_subset subset_trans)+
    have disj: "set (take n (m_vCallback h)) \<inter> set (take (k - n) (drop n (m_vCallback h))) = {}"
      using set_take_disj_set_drop_if_distinct [of "m_vCallback h" n n] d by (auto dest: in_set_takeD)
    have "queue_rep c (take n (m_vCallback h)) (take n P)" using q unfolding queue_rep_def by (simp flip: take_map)
    with assms d sub disj queue_rep_live [OF q] have "handler_rep ?h ?c (take n P) B"
      unfolding handler_rep_def by (auto simp: client_simps)
    then show ?thesis using False e l by (simp add: spec_erase_back_def Let_def flip: k_def n_def)
  qed
qed

lemma run_client_op_ok:
  assumes "handler_rep h c P B"
  shows "client_rel (IsRandom h) (run_client_op opn (h, c)) (spec_client_op (IsRandom h) opn (P, B))"
proof (cases opn)
  case (Send reqId cb batching sent)
  show ?thesis
  proof (cases "reqId \<le> idReservedTwo")
    case True
    with Send show ?thesis by (simp add: client_rel_def SendRequest_def)
  next
    case False
    from SendRequest_ok [OF assms this] obtain h' c' where
      s: "SendRequest reqId cb batching sent h c = Inr (sent, h', c')"
      "handler_rep h' c' (if sent \<and> has_callback cb \<and> \<not> batching then P @ [(reqId, cb)] else P)
        (if sent \<and> has_callback cb \<and> batching then B @ [(reqId, cb)] else B)" .
    with False Send SendRequest_random [OF s(1)] show ?thesis
      by (auto simp: client_rel_def)
  qed
next
  case Commit
  with assms CommitBatching_ok [OF assms] show ?thesis by (simp add: client_rel_def CommitBatching_def)
next
  case Abort
  with AbortBatching_ok [OF assms] show ?thesis by (simp add: client_rel_def AbortBatching_def)
next
  case (Result vD reqId mc)
  obtain cb P' where t: "spec_take (IsRandom h) reqId P = (cb, P')" by fastforce
  show ?thesis
  proof (cases "reqId = idInterrupt")
    case True
    with Result assms show ?thesis
      by (cases "get_pod 8 mc") (auto simp: client_rel_def OnRR_def)
  next
    case False
    from OnRR_ok [OF assms t this] obtain h' c' where
      "OnRR vD reqId mc h c = Inr (result_events vD reqId cb, h', c')" "handler_rep h' c' P' B"
      "IsRandom h' = IsRandom h" .
    with Result False t show ?thesis by (simp add: client_rel_def)
  qed
next
  case (Server_exception vD reqId)
  obtain cb P' where t: "spec_take (IsRandom h) reqId P = (cb, P')" by fastforce
  from OnSE_ok [OF assms t] obtain h' c' where
    "OnSE vD reqId h c = Inr (exception_events vD reqId cb, h', c')" "handler_rep h' c' P' B"
    "IsRandom h' = IsRandom h" .
  with Server_exception t show ?thesis by (simp add: client_rel_def)
next
  case (Clean canceled)
  from CleanCallbacks_ok [OF assms] obtain h' c' where
    "CleanCallbacks canceled h c =
      Inr (concat (map (discard_event canceled \<circ> snd) (B @ P)), length P + length B, h', c')"
    "handler_rep h' c' [] []" "IsRandom h' = IsRandom h" .
  with Clean show ?thesis by (simp add: client_rel_def)
next
  case (Clear_pool n)
  from ClearResultCallbackPool_ok [OF assms] obtain c' where
    "ClearResultCallbackPool n c = Inr c'" "handler_rep h c' P B" .
  with Clear_pool show ?thesis by (simp add: client_rel_def)
next
  case (Abort_job nQIndex aborted)
  have "length (m_vCallback h) = length P" using assms queue_rep_length by (auto simp: handler_rep_def)
  then show ?thesis
    using EraseBack_ok [OF assms, of "sub32 (length P) nQIndex"] Abort_job assms
    by (cases "spec_erase_back (sub32 (length P) nQIndex) P") (auto simp: client_rel_def AbortJob_def)
next
  case (Append_to other)
  then show ?thesis using assms by (auto simp: client_rel_def AppendTo_def handler_rep_def queue_rep_def)
qed

lemma run_client_ok:
  assumes "handler_rep h c P B" "IsRandom h = random"
  shows "client_rel random (run_client (\<lambda>s opn. run_client_op opn s) ops (h, c))
    (run_client (\<lambda>s opn. spec_client_op random opn s) ops (P, B))"
  using assms
proof (induction ops arbitrary: h c P B)
  case Nil
  then show ?case by (simp add: client_rel_def)
next
  case (Cons opn ops)
  note op = run_client_op_ok [OF Cons.prems(1), of opn, unfolded Cons.prems(2)]
  show ?case
  proof (cases "spec_client_op random opn (P, B)")
    case (Inl e)
    with op show ?thesis by (simp add: client_rel_def)
  next
    case (Inr x)
    obtain evs P' B' where x: "x = (evs, P', B')" by (cases x)
    with op Inr obtain h' c' where
      h': "run_client_op opn (h, c) = Inr (evs, h', c')" "handler_rep h' c' P' B'" "IsRandom h' = random"
      by (auto simp: client_rel_def)
    have "client_rel random (run_client (\<lambda>s opn. run_client_op opn s) ops (h', c'))
      (run_client (\<lambda>s opn. spec_client_op random opn s) ops (P', B'))"
      using Cons.IH h'(2,3) by blast
    with h' Inr x show ?thesis
      by (cases "run_client (\<lambda>s opn. spec_client_op random opn s) ops (P', B')")
        (auto simp: client_rel_def)
  qed
qed

section \<open>Answers in order, and out of order\<close>

definition answered :: "request \<Rightarrow> event" where
  "answered r = Result_cb (the (AsyncResultHandler (snd r))) (fst r)"

definition wants_result :: "request \<Rightarrow> bool" where
  "wants_result r \<longleftrightarrow> fst r > idReservedTwo \<and> AsyncResultHandler (snd r) \<noteq> None"

definition send_op :: "request \<Rightarrow> client_op" where
  "send_op r = Send (fst r) (snd r) False True"

definition result_op :: "uqueue \<Rightarrow> request \<Rightarrow> client_op" where
  "result_op mc r = Result [] (fst r) mc"

lemma wants_result_ids: "wants_result r \<Longrightarrow> fst r \<noteq> idInterrupt \<and> \<not> fst r \<le> idReservedTwo"
  by (auto simp: wants_result_def idInterrupt_def idReservedTwo_def)

lemma spec_send: "wants_result r \<Longrightarrow> spec_client_op random (send_op r) (P, B) = Inr ([], P @ [r], B)"
  using wants_result_ids [of r] by (cases r) (auto simp: send_op_def wants_result_def has_callback_def)

lemma run_client_append:
  "run_client step (ops @ ops') s =
     bindr (run_client step ops s) (\<lambda>(evs, s). bindr (run_client step ops' s) (\<lambda>(evs', s). Inr (evs @ evs', s)))"
proof (induction ops arbitrary: s)
  case Nil
  show ?case by (cases "run_client step ops' s") auto
next
  case (Cons opn ops)
  show ?case
  proof (cases "step s opn")
    case (Inr x)
    obtain evs s' where x: "x = (evs, s')" by (cases x)
    show ?thesis
    proof (cases "run_client step ops s'")
      case inner: (Inr y)
      obtain evs' s'' where "y = (evs', s'')" by (cases y)
      with Inr x inner Cons.IH [of s'] show ?thesis
        by (cases "run_client step ops' s''") auto
    qed (use Inr x Cons.IH [of s'] in simp)
  qed simp
qed

lemma spec_sends:
  "list_all wants_result rs \<Longrightarrow>
   run_client (\<lambda>s opn. spec_client_op random opn s) (map send_op rs) (P, B) = Inr ([], P @ rs, B)"
  by (induction rs arbitrary: P) (simp_all add: spec_send)

lemma result_events_wanted: "wants_result r \<Longrightarrow> result_events vD (fst r) (Some (snd r)) = [answered r]"
  by (auto simp: wants_result_def result_events_def answered_def)

lemma spec_result:
  "wants_result r \<Longrightarrow> spec_take random (fst r) P = (Some (snd r), P') \<Longrightarrow>
   spec_client_op random (result_op mc r) (P, B) = Inr ([answered r], P', B)"
  using wants_result_ids [of r] result_events_wanted [of r "[]"] by (simp add: result_op_def)

lemma spec_results_fifo:
  "list_all wants_result rs \<Longrightarrow>
   run_client (\<lambda>s opn. spec_client_op False opn s) (map (result_op mc) rs) (rs @ P, B) = Inr (map answered rs, P, B)"
proof (induction rs)
  case (Cons r rs)
  then show ?case
    using spec_result [of r False "(r # rs) @ P" "rs @ P" mc B] by (simp add: spec_take_def)
qed simp

lemma take_first_remove1:
  "distinct (map fst P) \<Longrightarrow> r \<in> set P \<Longrightarrow> take_first (fst r) P = (Some (snd r), remove1 r P)"
proof (induction P)
  case (Cons s P)
  show ?case
  proof (cases "s = r")
    case False
    then have "r \<in> set P" using Cons.prems by simp
    moreover from this have "fst s \<noteq> fst r" using Cons.prems(1) by force
    ultimately show ?thesis using Cons False by simp
  qed simp
qed simp

lemma spec_results_random:
  "list_all wants_result rs \<Longrightarrow> distinct (map fst P) \<Longrightarrow> mset rs = mset P \<Longrightarrow>
   run_client (\<lambda>s opn. spec_client_op True opn s) (map (result_op mc) rs) (P, B) = Inr (map answered rs, [], B)"
proof (induction rs arbitrary: P)
  case (Cons r rs)
  have r: "r \<in> set P" using mset_eq_setD [OF Cons.prems(3)] by auto
  have "distinct (map fst (remove1 r P))" using Cons.prems(2) set_remove1_subset [of r P]
    by (auto simp: distinct_map intro: inj_on_subset)
  moreover have "mset rs = mset (remove1 r P)" using Cons.prems(3) by (metis add_mset_remove_trivial mset.simps(2) mset_remove1)
  ultimately have "run_client (\<lambda>s opn. spec_client_op True opn s) (map (result_op mc) rs) (remove1 r P, B) =
      Inr (map answered rs, [], B)"
    using Cons.IH Cons.prems(1) by simp
  with Cons.prems(1) take_first_remove1 [OF Cons.prems(2) r] show ?case
    using spec_result [of r True P "remove1 r P" mc B] by (simp add: spec_take_def)
qed simp

section \<open>Aborted jobs\<close>

section \<open>Properties\<close>

definition new_handler :: "bool \<Rightarrow> CAsyncServiceHandler" where
  "new_handler random = \<lparr>m_vCallback = [], m_vBatching = [], IsRandom = random\<rparr>"

text \<open>All pairs of the recycling stack exist and none is there twice.\<close>

definition stack_ok :: "CRR \<Rightarrow> bool" where
  "stack_ok c \<longleftrightarrow> distinct (m_rrStack c) \<and> (\<forall>p \<in> set (m_rrStack c). \<exists>x. deref c p = Inr x)"

lemma new_handler_rep: "stack_ok c \<Longrightarrow> handler_rep (new_handler random) c [] []"
  by (simp add: stack_ok_def handler_rep_def new_handler_def client_simps)

text \<open>
  C33: Any sequence of sends, batch commits and aborts, results, server exceptions, cancellations, pool cleanings,
  aborted jobs and mergers into another handler, on one new handler, makes the same callbacks in the same order, or
  ends with the same exception or fault, as the specification that only keeps the lists of waiting and of batched
  requests. In that, no pair is read after it was deleted and none is deleted or recycled twice, and the only
  memory fault is that of a job that is aborted when more requests were waiting before it than it has: then
  \<^verbatim>\<open>EraseBack\<close> runs out of the queue.
\<close>

theorem client_refines_requests:
  assumes "stack_ok c"
  shows "client_rel random (run_client (\<lambda>s opn. run_client_op opn s) ops (new_handler random, c))
    (run_client (\<lambda>s opn. spec_client_op random opn s) ops ([], []))"
  by (rule run_client_ok [OF new_handler_rep [OF assms]]) (simp add: new_handler_def)

definition sample_cb :: "nat \<Rightarrow> CResultCb" where
  "sample_cb f = \<lparr>AsyncResultHandler = Some f, Discarded = Some (f + 1), ExceptionFromServer = None\<rparr>"

definition one_pair :: CRR where
  "one_pair = \<lparr>pairs = [Some (0, sample_cb 0)], m_rrStack = [0]\<rparr>"

lemma one_pair_ok: "stack_ok one_pair"
  by (simp add: stack_ok_def one_pair_def deref_def)

theorem client_refines_requests_witness:
  "(\<exists>h c. run_client (\<lambda>s opn. run_client_op opn s)
     [Send 0x2002 (sample_cb 5) True True, Send 0x2003 (sample_cb 7) False True, Commit,
      Result [] 0x2003 sample_queue, Send 0x2004 (sample_cb 9) False True, Abort_job 1 True, Clean False] (new_handler False, one_pair) =
   Inr ([Result_cb 7 0x2003, Discarded_cb 6 False], h, c)) \<and>
   run_client (\<lambda>s opn. run_client_op opn s)
     [Send 0x2002 (sample_cb 5) False True, Send 0x2003 (sample_cb 7) False True, Send 0x2004 (sample_cb 9) False True,
      Abort_job 2 True] (new_handler False, one_pair) = Inl Out_Of_Bounds"
  using client_refines_requests [OF one_pair_ok, of False
    "[Send 0x2002 (sample_cb 5) True True, Send 0x2003 (sample_cb 7) False True, Commit,
      Result [] 0x2003 sample_queue, Send 0x2004 (sample_cb 9) False True, Abort_job 1 True, Clean False]"]
    client_refines_requests [OF one_pair_ok, of False
    "[Send 0x2002 (sample_cb 5) False True, Send 0x2003 (sample_cb 7) False True, Send 0x2004 (sample_cb 9) False True,
      Abort_job 2 True]"]
  by (auto simp: client_rel_def sample_cb_def has_callback_def idReservedTwo_def idInterrupt_def spec_take_def
    result_events_def discard_event_def spec_erase_back_def sub32_def)

text \<open>
  C35: On a service that answers in order the callbacks of a sequence of requests are called in the
  order of the requests; on a service that answers in any order every request is answered through
  its own callback, in the order of the answers, provided their ids differ.
\<close>

theorem results_reach_their_requests:
  assumes "stack_ok c" "list_all wants_result reqs"
    and "if random then distinct (map fst reqs) \<and> mset answers = mset reqs else answers = reqs"
  shows "\<exists>h' c'. run_client (\<lambda>s opn. run_client_op opn s) (map send_op reqs @ map (result_op mc) answers)
      (new_handler random, c) = Inr (map answered answers, h', c') \<and> handler_rep h' c' [] []"
proof -
  have "list_all wants_result answers"
    using assms(2,3) by (auto simp: list_all_iff dest: mset_eq_setD split: if_splits)
  then have "run_client (\<lambda>s opn. spec_client_op random opn s) (map send_op reqs @ map (result_op mc) answers) ([], []) =
      Inr (map answered answers, [], [])"
    using assms(2,3) spec_results_fifo [of answers mc "[]" "[]"] spec_results_random [of answers reqs mc "[]"]
    by (auto simp: run_client_append spec_sends split: if_splits)
  with run_client_ok [OF new_handler_rep [OF assms(1)], of random random
      "map send_op reqs @ map (result_op mc) answers"] show ?thesis
    by (auto simp: client_rel_def new_handler_def)
qed

theorem results_reach_their_requests_witness:
  "\<exists>h' c'. run_client (\<lambda>s opn. run_client_op opn s)
     (map send_op [(0x2002, sample_cb 5), (0x2003, sample_cb 7)] @
      map (result_op sample_queue) [(0x2003, sample_cb 7), (0x2002, sample_cb 5)]) (new_handler True, one_pair) =
   Inr ([Result_cb 7 0x2003, Result_cb 5 0x2002], h', c') \<and> handler_rep h' c' [] []"
  using results_reach_their_requests [OF one_pair_ok, of "[(0x2002, sample_cb 5), (0x2003, sample_cb 7)]" True
    "[(0x2003, sample_cb 7), (0x2002, sample_cb 5)]" sample_queue]
  by (simp add: wants_result_def idReservedTwo_def sample_cb_def answered_def)

text \<open>
  Aborting a job of the persistent queue discards exactly the requests of the job if no other
  request was waiting when the job started. If some were, the loop of \<^verbatim>\<open>EraseBack\<close>, which
  runs until its index equals the number of requests to erase, leaves as many requests of the job
  without a callback, or runs behind the end of the queue.
\<close>

theorem AbortJob_discards_job:
  assumes "handler_rep h c (P @ J) B" "length (P @ J) < 2 ^ 32" "n = length P"
  shows "if n \<le> length J
    then \<exists>h' c'. AbortJob n True h c =
        Inr (True, concat (map (discard_event True \<circ> snd) (take (length J - n) J)), h', c') \<and> handler_rep h' c' P B
    else AbortJob n True h c = Inl Out_Of_Bounds"
proof -
  have "length (m_vCallback h) = length P + length J" using queue_rep_length assms(1) by (fastforce simp: handler_rep_def)
  then have m: "sub32 (length (m_vCallback h)) n = length J" using assms(2,3) by (simp add: sub32_exact max32_def)
  then have e: "AbortJob n True h c = bindr (EraseBack (length J) h c) (\<lambda>(evs, h, c). Inr (True, evs, h, c))"
    by (simp add: AbortJob_def)
  show ?thesis
    unfolding e using EraseBack_ok [OF assms(1), of "length J"] assms(3)
    by (auto simp: spec_erase_back_def Let_def min_absorb1 split: if_splits)
qed

definition sample_job :: "CAsyncServiceHandler \<times> CRR" where
  "sample_job = (\<lparr>m_vCallback = [0, 1, 2], m_vBatching = [], IsRandom = False\<rparr>,
     \<lparr>pairs = [Some (0x2002, sample_cb 1), Some (0x2003, sample_cb 3), Some (0x2004, sample_cb 5)], m_rrStack = []\<rparr>)"

theorem AbortJob_discards_job_witness:
  "\<exists>h' c'. AbortJob 1 True (fst sample_job) (snd sample_job) = Inr (True, [Discarded_cb 4 True], h', c') \<and>
     handler_rep h' c' [(0x2002, sample_cb 1)] []"
  using AbortJob_discards_job [of "fst sample_job" "snd sample_job" "[(0x2002, sample_cb 1)]"
      "[(0x2003, sample_cb 3), (0x2004, sample_cb 5)]" "[]" 1]
  by (simp add: sample_job_def handler_rep_def queue_rep_def deref_def discard_event_def sample_cb_def)

end
