(* ===== verification/Clientsteps.thy ===== *)
theory Clientsteps
  imports Client
begin

text \<open>
  The critical sections of the client handlers interleaved: any number of threads that send, any
  number of handlers whose workers deliver results, and the recycling stack they share.

  \<^item> A step is what one thread does under one lock (\<^verbatim>\<open>m_cs\<close> of a handler or the lock of
    the stack). Between its steps a thread holds pairs, and a sender remembers the pair it has
    put into a queue and not yet heard about; both are part of the state.
  \<^item> \<open>pairs_ok\<close> says that every pair that exists is in exactly one place. \<open>cl_lost\<close> records the pairs that an aborted
    job takes out of the queue and does not recycle.
  \<^item> A step that would touch a deleted pair has no successor; \<open>client_pairs_exclusive\<close> shows which operations can.
\<close>

section \<open>States and steps\<close>

record clients =
  cl_crr :: CRR
  cl_handlers :: "CAsyncServiceHandler list"
  cl_held :: "PRR_PAIR multiset"
  cl_sending :: "(PRR_PAIR \<times> nat \<times> bool) list"
  cl_lost :: "PRR_PAIR multiset"

text \<open>What \<^verbatim>\<open>EraseBack\<close> takes out of the queue without recycling it.\<close>

definition forgotten :: "nat \<Rightarrow> CAsyncServiceHandler \<Rightarrow> PRR_PAIR list" where
  "forgotten nQIndex h =
     drop (min (sub32 (length (m_vCallback h)) nQIndex) (length (m_vCallback h))) (m_vCallback h)"

definition with_handler :: "nat \<Rightarrow> CAsyncServiceHandler \<Rightarrow> clients \<Rightarrow> clients" where
  "with_handler i h w = w\<lparr>cl_handlers := (cl_handlers w)[i := h]\<rparr>"

inductive client_step :: "clients \<Rightarrow> clients \<Rightarrow> bool" where
  acquire: "new_pair reqId cb (cl_crr w) = Inr (p, c) \<Longrightarrow>
    client_step w (w\<lparr>cl_crr := c, cl_held := add_mset p (cl_held w)\<rparr>)"
| enqueue: "p \<in># cl_held w \<Longrightarrow> i < length (cl_handlers w) \<Longrightarrow>
    client_step w (with_handler i (enqueue b p (cl_handlers w ! i))
      (w\<lparr>cl_held := cl_held w - {#p#}, cl_sending := (p, i, b) # cl_sending w\<rparr>))"
| sent: "cl_sending w = xs @ x # ys \<Longrightarrow> client_step w (w\<lparr>cl_sending := xs @ ys\<rparr>)"
| unsent: "cl_sending w = xs @ (p, i, b) # ys \<Longrightarrow> i < length (cl_handlers w) \<Longrightarrow>
    unsend b p (cl_handlers w ! i) = (ok, h) \<Longrightarrow>
    client_step w (with_handler i h
      (w\<lparr>cl_held := (if ok then add_mset p (cl_held w) else cl_held w), cl_sending := xs @ ys\<rparr>))"
| recycle: "p \<in># cl_held w \<Longrightarrow>
    client_step w (w\<lparr>cl_crr := Recycle p (cl_crr w), cl_held := cl_held w - {#p#}\<rparr>)"
| take_pair: "i < length (cl_handlers w) \<Longrightarrow>
    GetAsyncResultHandler (cl_crr w) reqId (cl_handlers w ! i) = Inr (Some p, h) \<Longrightarrow>
    client_step w (with_handler i h (w\<lparr>cl_held := add_mset p (cl_held w)\<rparr>))"
| commit: "i < length (cl_handlers w) \<Longrightarrow> client_step w (with_handler i (CommitBatching (cl_handlers w ! i)) w)"
| abort: "i < length (cl_handlers w) \<Longrightarrow> AbortBatching (cl_handlers w ! i) (cl_crr w) = (h, c) \<Longrightarrow>
    client_step w (with_handler i h (w\<lparr>cl_crr := c\<rparr>))"
| append: "i < length (cl_handlers w) \<Longrightarrow> j < length (cl_handlers w) \<Longrightarrow> i \<noteq> j \<Longrightarrow>
    AppendTo (cl_handlers w ! i) (cl_handlers w ! j) = (h, to) \<Longrightarrow>
    client_step w (with_handler j to (with_handler i h w))"
| swap_queues: "i < length (cl_handlers w) \<Longrightarrow> h = cl_handlers w ! i \<Longrightarrow>
    client_step w (with_handler i (h\<lparr>m_vCallback := [], m_vBatching := []\<rparr>)
      (w\<lparr>cl_held := cl_held w + mset (m_vCallback h) + mset (m_vBatching h)\<rparr>))"
| clean: "mset q \<subseteq># cl_held w \<Longrightarrow>
    client_step w (w\<lparr>cl_crr := CleanQueue q (cl_crr w), cl_held := cl_held w - mset q\<rparr>)"
| abort_job: "i < length (cl_handlers w) \<Longrightarrow> AbortJob nQIndex True (cl_handlers w ! i) (cl_crr w) = Inr (ok, evs, h, c) \<Longrightarrow>
    client_step w (with_handler i h (w\<lparr>cl_crr := c, cl_lost := cl_lost w + mset (forgotten nQIndex (cl_handlers w ! i))\<rparr>))"
| clear: "ClearResultCallbackPool n (cl_crr w) = Inr c \<Longrightarrow> client_step w (w\<lparr>cl_crr := c\<rparr>)"

definition clients_init :: "CAsyncServiceHandler list \<Rightarrow> clients" where
  "clients_init hs = \<lparr>cl_crr = \<lparr>pairs = [], m_rrStack = []\<rparr>, cl_handlers = hs, cl_held = {#}, cl_sending = [], cl_lost = {#}\<rparr>"

inductive client_reachable :: "clients \<Rightarrow> bool" where
  init: "list_all (\<lambda>h. m_vCallback h = [] \<and> m_vBatching h = []) hs \<Longrightarrow> client_reachable (clients_init hs)"
| step: "client_reachable w \<Longrightarrow> client_step w w' \<Longrightarrow> client_reachable w'"

section \<open>Every pair is in one place\<close>

definition queued :: "CAsyncServiceHandler \<Rightarrow> PRR_PAIR multiset" where
  "queued h = mset (m_vCallback h) + mset (m_vBatching h)"

definition all_queued :: "CAsyncServiceHandler list \<Rightarrow> PRR_PAIR multiset" where
  "all_queued hs = (\<Sum>h\<leftarrow>hs. queued h)"

definition live :: "CRR \<Rightarrow> PRR_PAIR set" where
  "live c = {p. \<exists>x. deref c p = Inr x}"

definition pairs_ok :: "clients \<Rightarrow> bool" where
  "pairs_ok w \<longleftrightarrow>
     mset (m_rrStack (cl_crr w)) + all_queued (cl_handlers w) + cl_held w + cl_lost w = mset_set (live (cl_crr w))"

lemma finite_live [simp]: "finite (live c)"
  by (rule finite_subset [of _ "{..<length (pairs c)}"]) (auto simp: live_def dest: deref_Inr)

lemma live_stack [simp]: "live (c\<lparr>m_rrStack := st\<rparr>) = live c"
  by (simp add: live_def client_simps)

lemma all_queued_update:
  "i < length hs \<Longrightarrow> all_queued (hs[i := h]) + queued (hs ! i) = all_queued hs + queued h"
proof (induction hs arbitrary: i)
  case (Cons h' hs)
  then show ?case by (cases i) (simp_all add: all_queued_def ac_simps)
qed simp

lemma with_handler_ok:
  assumes "pairs_ok w" "i < length (cl_handlers w)" "queued h + held = queued (cl_handlers w ! i) + cl_held w"
  shows "pairs_ok (with_handler i h (w\<lparr>cl_held := held, cl_sending := s\<rparr>))"
proof -
  let ?S = "mset (m_rrStack (cl_crr w)) + cl_lost w" and ?q = "queued (cl_handlers w ! i)"
  let ?A = "all_queued (cl_handlers w)" and ?A' = "all_queued ((cl_handlers w)[i := h])"
  have "(?S + ?A' + held) + ?q = ?S + (?A' + ?q) + held" by (simp add: ac_simps)
  also have "\<dots> = ?S + ?A + (queued h + held)" using all_queued_update [OF assms(2)] by (simp add: ac_simps)
  also have "\<dots> = (?S + ?A + cl_held w) + ?q" using assms(3) by (simp add: ac_simps)
  finally have "?S + ?A' + held = ?S + ?A + cl_held w" by (rule add_right_imp_eq)
  with assms(1) show ?thesis by (simp add: pairs_ok_def with_handler_def ac_simps)
qed

lemma new_pair_live:
  assumes "new_pair reqId cb c = Inr (p, c')" "\<forall>p \<in> set (m_rrStack c). p \<in> live c"
  shows "mset (m_rrStack c') + {#p#} + mset_set (live c) = mset (m_rrStack c) + mset_set (live c')"
proof (cases "m_rrStack c")
  case Nil
  then have "p = length (pairs c)" "c' = c\<lparr>pairs := pairs c @ [Some (reqId, cb)]\<rparr>"
    using assms(1) by (simp_all add: new_pair_def Reuse_def)
  moreover have "live (c\<lparr>pairs := pairs c @ [Some (reqId, cb)]\<rparr>) = insert (length (pairs c)) (live c)"
    by (auto simp: live_def client_simps)
  moreover have "length (pairs c) \<notin> live c" by (auto simp: live_def dest: deref_Inr)
  ultimately show ?thesis using Nil by simp
next
  case (Cons q st)
  then have "q \<in> live c" using assms(2) by simp
  then have q: "q < length (pairs c)" "q \<in> live c" by (auto simp: live_def dest: deref_Inr)
  with Cons assms(1) have "p = q" "c' = c\<lparr>m_rrStack := st, pairs := (pairs c)[q := Some (reqId, cb)]\<rparr>"
    by (auto simp: new_pair_def Reuse_def bindr_Inr_iff)
  moreover from q have "live (c\<lparr>m_rrStack := st, pairs := (pairs c)[q := Some (reqId, cb)]\<rparr>) = live c"
    by (auto simp: live_def client_simps)
  ultimately show ?thesis using Cons by simp
qed

lemma Remove_loop_mset:
  "n \<le> length q \<Longrightarrow> Remove_loop q p n = (ok, q') \<Longrightarrow> mset q = (if ok then add_mset p (mset q') else mset q')"
proof (induction n)
  case (Suc n)
  show ?case
  proof (cases "q ! n = p")
    case True
    have "q = take n q @ q ! n # drop (Suc n) q" using Suc.prems(1) by (simp add: id_take_nth_drop)
    then have "mset q = mset (take n q @ q ! n # drop (Suc n) q)" by simp
    with True Suc.prems(2) show ?thesis by auto
  qed (use Suc in simp)
qed simp

lemma unsend_queued:
  "unsend b p h = (ok, h') \<Longrightarrow> queued h = (if ok then add_mset p (queued h') else queued h')"
  using Remove_loop_mset [of "length (m_vBatching h)" "m_vBatching h" p ok]
    Remove_loop_mset [of "length (m_vCallback h)" "m_vCallback h" p ok]
  by (cases b) (auto simp: unsend_def Remove_def queued_def split: prod.splits if_splits)

lemma Find_random_mset:
  "Find_random c reqId before q = Inr (Some p, q') \<Longrightarrow> mset (before @ q) = add_mset p (mset q')"
proof (induction q arbitrary: before)
  case (Cons a q)
  show ?case
  proof (cases "Find_random c reqId (before @ [a]) q = Inr (Some p, q')")
    case True
    from Cons.IH [OF this] show ?thesis by simp
  next
    case False
    with Cons.prems show ?thesis by (auto simp: bindr_Inr_iff split: if_splits)
  qed
qed simp

lemma GetAsyncResultHandler_queued:
  "GetAsyncResultHandler c reqId h = Inr (Some p, h') \<Longrightarrow> queued h = add_mset p (queued h')"
  using Find_random_mset [of c reqId "[]" "m_vCallback h" p]
  by (auto simp: GetAsyncResultHandler_def queued_def bindr_Inr_iff split: if_splits list.splits)

lemma live_delete: "live (c\<lparr>pairs := (pairs c)[p := None]\<rparr>) = live c - {p}"
proof (intro set_eqI)
  fix q
  have "deref (c\<lparr>pairs := (pairs c)[p := None]\<rparr>) q = (if q = p then Inl Out_Of_Bounds else deref c q)"
    by (simp add: deref_def)
  then show "q \<in> live (c\<lparr>pairs := (pairs c)[p := None]\<rparr>) \<longleftrightarrow> q \<in> live c - {p}"
    by (simp add: live_def)
qed

lemma delete_pairs_live:
  "delete_pairs c ps = Inr c' \<Longrightarrow> live c' = live c - set ps \<and> m_rrStack c' = m_rrStack c"
proof (induction ps arbitrary: c)
  case (Cons p ps)
  then obtain x where "deref c p = Inr x" "delete_pairs (c\<lparr>pairs := (pairs c)[p := None]\<rparr>) ps = Inr c'"
    by (auto simp: bindr_Inr_iff)
  moreover from this have "live (c\<lparr>pairs := (pairs c)[p := None]\<rparr>) = live c - {p}"
    by (auto simp: live_delete)
  ultimately show ?case using Cons.IH by auto
qed simp
lemma crr_lost_ok:
  assumes "pairs_ok w"
    "mset (m_rrStack c) + held + lost + mset_set (live (cl_crr w)) =
     mset (m_rrStack (cl_crr w)) + cl_held w + cl_lost w + mset_set (live c)"
  shows "pairs_ok (w\<lparr>cl_crr := c, cl_held := held, cl_lost := lost\<rparr>)"
proof -
  let ?A = "all_queued (cl_handlers w)" and ?L = "mset_set (live (cl_crr w))"
  have "(mset (m_rrStack c) + ?A + held + lost) + ?L = (mset (m_rrStack (cl_crr w)) + ?A + cl_held w + cl_lost w) + mset_set (live c)"
    using assms(2) by (simp add: ac_simps)
  with assms(1) have "mset (m_rrStack c) + ?A + held + lost + ?L = mset_set (live c) + ?L"
    by (simp add: pairs_ok_def ac_simps)
  then show ?thesis by (simp add: pairs_ok_def)
qed

lemma crr_ok:
  assumes "pairs_ok w"
    "mset (m_rrStack c) + held + mset_set (live (cl_crr w)) =
     mset (m_rrStack (cl_crr w)) + cl_held w + mset_set (live c)"
  shows "pairs_ok (w\<lparr>cl_crr := c, cl_held := held\<rparr>)"
  using crr_lost_ok [OF assms(1), of c held "cl_lost w"] arg_cong [OF assms(2), of "\<lambda>x. cl_lost w + x"]
  by (simp add: ac_simps)

lemma pairs_ok_stack:
  assumes "pairs_ok w"
  shows "distinct (m_rrStack (cl_crr w))" "set (m_rrStack (cl_crr w)) \<subseteq> live (cl_crr w)"
proof -
  have sub: "mset (m_rrStack (cl_crr w)) \<subseteq># mset_set (live (cl_crr w))"
    using assms unfolding pairs_ok_def by (metis mset_subset_eq_add_left add.assoc)
  then show "set (m_rrStack (cl_crr w)) \<subseteq> live (cl_crr w)" using set_mset_mono by fastforce
  have "count (mset (m_rrStack (cl_crr w))) p \<le> 1" for p
  proof (rule order_trans [OF mset_subset_eq_count [OF sub]])
    show "count (mset_set (live (cl_crr w))) p \<le> 1" by (cases "p \<in> live (cl_crr w)") simp_all
  qed
  then show "distinct (m_rrStack (cl_crr w))"
    unfolding distinct_count_atmost_1
    by (metis count_eq_zero_iff count_greater_eq_one_iff le_antisym set_mset_mset)
qed

lemma queued_enqueue: "queued (enqueue b p h) = add_mset p (queued h)"
  by (simp add: enqueue_def queued_def)

lemma ClearResultCallbackPool_live:
  assumes "ClearResultCallbackPool n c = Inr c'" "distinct (m_rrStack c)" "set (m_rrStack c) \<subseteq> live c"
  shows "mset (m_rrStack c') + mset_set (live c) = mset (m_rrStack c) + mset_set (live c')"
proof -
  let ?n = "min n (length (m_rrStack c))" and ?st = "m_rrStack c"
  obtain d where d: "delete_pairs c (drop ?n ?st) = Inr d" "c' = d\<lparr>m_rrStack := take ?n (m_rrStack d)\<rparr>"
    using assms(1) by (auto simp: ClearResultCallbackPool_def Let_def bindr_Inr_iff)
  then have l: "live c' = live c - set (drop ?n ?st)" "m_rrStack c' = take ?n ?st"
    using delete_pairs_live [OF d(1)] by simp_all
  have sub: "set (drop ?n ?st) \<subseteq> live c" using assms(3) set_drop_subset [of ?n ?st] by (rule order_trans [rotated])
  have "mset_set (live c) = mset_set (live c') + mset_set (set (drop ?n ?st))"
    using sub l(1) by (simp add: mset_set_Diff)
  also have "mset_set (set (drop ?n ?st)) = mset (drop ?n ?st)" by (rule mset_set_set) (simp add: assms(2))
  finally have "mset (m_rrStack c') + mset_set (live c) = mset (take ?n ?st) + mset (drop ?n ?st) + mset_set (live c')"
    using l(2) by (simp add: ac_simps)
  also have "mset (take ?n ?st) + mset (drop ?n ?st) = mset ?st" by (simp flip: mset_append)
  finally show ?thesis .
qed

lemma queued_live:
  assumes "pairs_ok w" "i < length (cl_handlers w)" "p \<in># queued (cl_handlers w ! i)"
  shows "\<exists>x. deref (cl_crr w) p = Inr x"
proof -
  have "cl_handlers w ! i \<in> set (cl_handlers w)" using assms(2) by simp
  then have "p \<in># all_queued (cl_handlers w)"
    using assms(3) unfolding all_queued_def by (induction "cl_handlers w") auto
  then have "p \<in># mset_set (live (cl_crr w))" using assms(1) unfolding pairs_ok_def by (metis union_iff)
  then have "p \<in> live (cl_crr w)" by simp
  then show ?thesis unfolding live_def by blast
qed

lemma EraseBack_cases:
  assumes "\<forall>p \<in> set (m_vCallback h). \<exists>x. deref c p = Inr x"
    and k: "k = min cnt (length (m_vCallback h))" and n: "n = length (m_vCallback h) - k"
  shows "if k < n then EraseBack cnt h c = Inl Out_Of_Bounds
    else \<exists>evs. EraseBack cnt h c = Inr (evs, h\<lparr>m_vCallback := take n (m_vCallback h)\<rparr>,
           c\<lparr>m_rrStack := rev (take (k - n) (drop n (m_vCallback h))) @ m_rrStack c\<rparr>)"
proof -
  have "\<forall>p \<in> set (m_vCallback h). deref c p = Inr (projr (deref c p))" using assms(1) by fastforce
  then have q: "queue_rep c (m_vCallback h) (map (\<lambda>p. projr (deref c p)) (m_vCallback h))"
    by (simp add: queue_rep_def)
  have e: "EraseBack cnt h c =
      bindr (EraseBack_loop c (m_vCallback h) k n) (\<lambda>(evs, c). Inr (evs, h\<lparr>m_vCallback := take n (m_vCallback h)\<rparr>, c))"
    by (auto simp: EraseBack_def Let_def k n min_def)
  show ?thesis
    using EraseBack_loop_overrun [OF q, of k n] EraseBack_loop_ok [OF q, of n k] k n by (auto simp: e)
qed

lemma AbortJob_cases:
  assumes "\<forall>p \<in> set (m_vCallback h). \<exists>x. deref c p = Inr x"
    and k: "k = min (sub32 (length (m_vCallback h)) nQIndex) (length (m_vCallback h))" and n: "n = length (m_vCallback h) - k"
  shows "if k < n then AbortJob nQIndex True h c = Inl Out_Of_Bounds
    else \<exists>evs. AbortJob nQIndex True h c = Inr (True, evs, h\<lparr>m_vCallback := take n (m_vCallback h)\<rparr>,
           c\<lparr>m_rrStack := rev (take (k - n) (drop n (m_vCallback h))) @ m_rrStack c\<rparr>)"
  using EraseBack_cases [OF assms] by (auto simp: AbortJob_def)

lemma split_at_two:
  assumes "n \<le> k"
  shows "mset xs = mset (take n xs) + mset (take (k - n) (drop n xs)) + mset (drop k xs)"
proof -
  have "drop (k - n) (drop n xs) = drop k xs" using assms by simp
  then have "xs = take n xs @ take (k - n) (drop n xs) @ drop k xs"
    by (metis append_take_drop_id)
  then show ?thesis by (metis mset_append add.assoc)
qed

lemma client_step_ok:
  assumes "client_step w w'" "pairs_ok w"
  shows "pairs_ok w'"
  using assms
proof (cases rule: client_step.cases)
  case (acquire reqId cb p c)
  have "\<forall>p \<in> set (m_rrStack (cl_crr w)). p \<in> live (cl_crr w)" using pairs_ok_stack(2) [OF assms(2)] by blast
  from new_pair_live [OF acquire(2) this] show ?thesis
    unfolding acquire(1) by (intro crr_ok [OF assms(2)]) (simp add: ac_simps)
next
  case (enqueue p i b)
  then show ?thesis
    by (auto intro!: with_handler_ok [OF assms(2)] simp: queued_enqueue)
next
  case (sent xs x ys)
  then show ?thesis using assms(2) by (simp add: pairs_ok_def)
next
  case (unsent xs p i b ys ok h)
  then show ?thesis
    using unsend_queued [OF unsent(4)]
      with_handler_ok [OF assms(2) unsent(3), of h "if ok then add_mset p (cl_held w) else cl_held w" "xs @ ys"]
    by (cases ok) (simp_all add: with_handler_def)
next
  case (recycle p)
  then show ?thesis
    by (auto intro!: crr_ok [OF assms(2)] simp: Recycle_def)
next
  case (take_pair i reqId p h)
  then show ?thesis
    using GetAsyncResultHandler_queued [OF take_pair(3)]
      with_handler_ok [OF assms(2) take_pair(2), of h "add_mset p (cl_held w)" "cl_sending w"] by simp
next
  case (commit i)
  then show ?thesis
    using with_handler_ok [OF assms(2) commit(2), of "CommitBatching (cl_handlers w ! i)" "cl_held w" "cl_sending w"]
    by (simp add: CommitBatching_def queued_def)
next
  case (abort i h c)
  let ?h = "cl_handlers w ! i"
  let ?w = "with_handler i (?h\<lparr>m_vBatching := []\<rparr>) (w\<lparr>cl_held := cl_held w + mset (m_vBatching ?h), cl_sending := cl_sending w\<rparr>)"
  have "pairs_ok ?w" using abort(2) by (intro with_handler_ok [OF assms(2)]) (simp_all add: queued_def ac_simps)
  then have "pairs_ok (?w\<lparr>cl_crr := c, cl_held := cl_held w\<rparr>)"
    using abort(3) by (elim crr_ok) (auto simp: AbortBatching_def CleanQueue_def with_handler_def ac_simps)
  moreover have "w' = ?w\<lparr>cl_crr := c, cl_held := cl_held w\<rparr>"
    using abort by (auto simp: with_handler_def AbortBatching_def)
  ultimately show ?thesis by simp
next
  case (append i j h to)
  let ?h = "cl_handlers w ! i" and ?t = "cl_handlers w ! j"
  let ?w = "with_handler i h (w\<lparr>cl_held := cl_held w + mset (m_vCallback ?h), cl_sending := cl_sending w\<rparr>)"
  have eq: "h = ?h\<lparr>m_vCallback := []\<rparr>" "to = ?t\<lparr>m_vCallback := m_vCallback ?t @ m_vCallback ?h\<rparr>"
    using append(5) by (simp_all add: AppendTo_def)
  have "pairs_ok ?w" using append(2) eq(1) by (intro with_handler_ok [OF assms(2)]) (simp_all add: queued_def ac_simps)
  then have "pairs_ok (with_handler j to (?w\<lparr>cl_held := cl_held w, cl_sending := cl_sending w\<rparr>))"
    using append eq(2) by (elim with_handler_ok) (simp_all add: with_handler_def queued_def ac_simps)
  moreover have "w' = with_handler j to (?w\<lparr>cl_held := cl_held w, cl_sending := cl_sending w\<rparr>)"
    using append(1) by (simp add: with_handler_def)
  ultimately show ?thesis by simp
next
  case (swap_queues i h)
  then show ?thesis
    using with_handler_ok [OF assms(2) swap_queues(2), of "h\<lparr>m_vCallback := [], m_vBatching := []\<rparr>"
        "cl_held w + mset (m_vCallback h) + mset (m_vBatching h)" "cl_sending w"]
    by (simp add: queued_def ac_simps)
next
  case (clean q)
  then obtain m where "cl_held w = mset q + m" by (auto simp: mset_subset_eq_exists_conv)
  with clean show ?thesis
    by (auto intro!: crr_ok [OF assms(2)] simp: CleanQueue_def ac_simps)
next
  case (abort_job i nQIndex ok evs h c)
  let ?h = "cl_handlers w ! i"
  let ?q = "m_vCallback ?h"
  define k where "k = min (sub32 (length ?q) nQIndex) (length ?q)"
  define n where "n = length ?q - k"
  have "\<forall>p \<in> set ?q. \<exists>x. deref (cl_crr w) p = Inr x"
    using queued_live [OF assms(2) abort_job(2)] by (auto simp: queued_def)
  from AbortJob_cases [OF this k_def n_def] abort_job(3)
  have n: "n \<le> k" and h: "h = ?h\<lparr>m_vCallback := take n ?q\<rparr>"
    and c: "c = (cl_crr w)\<lparr>m_rrStack := rev (take (k - n) (drop n ?q)) @ m_rrStack (cl_crr w)\<rparr>"
    by (auto split: if_splits)
  let ?out = "mset (take (k - n) (drop n ?q)) + mset (drop k ?q)"
  let ?w = "with_handler i h (w\<lparr>cl_held := cl_held w + ?out, cl_sending := cl_sending w\<rparr>)"
  have "pairs_ok ?w"
    using split_at_two [OF n, of ?q] h by (intro with_handler_ok [OF assms(2) abort_job(2)]) (simp add: queued_def ac_simps)
  then have "pairs_ok (?w\<lparr>cl_crr := c, cl_held := cl_held w, cl_lost := cl_lost w + mset (drop k ?q)\<rparr>)"
    using c by (elim crr_lost_ok) (simp add: with_handler_def ac_simps)
  moreover have "w' = ?w\<lparr>cl_crr := c, cl_held := cl_held w, cl_lost := cl_lost w + mset (drop k ?q)\<rparr>"
    using abort_job(1) by (simp add: with_handler_def forgotten_def k_def)
  ultimately show ?thesis by simp
next
  case (clear n c)
  have "pairs_ok (w\<lparr>cl_crr := c, cl_held := cl_held w\<rparr>)"
    using ClearResultCallbackPool_live [OF clear(2) pairs_ok_stack [OF assms(2)]]
    by (intro crr_ok [OF assms(2)]) (simp add: ac_simps)
  then show ?thesis using clear(1) by simp
qed

lemma clients_init_ok:
  "list_all (\<lambda>h. m_vCallback h = [] \<and> m_vBatching h = []) hs \<Longrightarrow> pairs_ok (clients_init hs)"
proof -
  have "live \<lparr>pairs = [], m_rrStack = []\<rparr> = {}" by (auto simp: live_def deref_def)
  moreover assume "list_all (\<lambda>h. m_vCallback h = [] \<and> m_vBatching h = []) hs"
  then have "all_queued hs = {#}" by (induction hs) (simp_all add: all_queued_def queued_def)
  ultimately show ?thesis by (simp add: pairs_ok_def clients_init_def)
qed

lemma client_reachable_ok: "client_reachable w \<Longrightarrow> pairs_ok w"
  by (induction rule: client_reachable.induct) (auto intro: clients_init_ok client_step_ok)

section \<open>Properties\<close>

lemma Find_random_safe:
  "\<forall>p \<in> set q. \<exists>x. deref c p = Inr x \<Longrightarrow> \<exists>r. Find_random c reqId before q = Inr r"
  by (induction q arbitrary: before) (auto split: if_splits)

lemma discard_all_safe: "\<forall>p \<in> set q. \<exists>x. deref c p = Inr x \<Longrightarrow> \<exists>evs. discard_all canceled c q = Inr evs"
proof (induction q)
  case (Cons p q)
  then obtain x evs where "deref c p = Inr x" "discard_all canceled c q = Inr evs" by auto
  then show ?case by (cases x) simp
qed simp

lemma handler_safe:
  assumes "\<forall>p \<in># queued h. \<exists>x. deref c p = Inr x"
  shows "\<exists>r. GetAsyncResultHandler c reqId h = Inr r" "\<exists>r. CleanCallbacks canceled h c = Inr r"
proof -
  have q: "\<forall>p \<in> set (m_vCallback h). \<exists>x. deref c p = Inr x" "\<forall>p \<in> set (m_vBatching h). \<exists>x. deref c p = Inr x"
    using assms by (auto simp: queued_def)
  show "\<exists>r. GetAsyncResultHandler c reqId h = Inr r"
    using Find_random_safe [OF q(1), of reqId "[]"] q(1)
    by (cases "m_vCallback h") (auto simp: GetAsyncResultHandler_def bindr_def split: sum.splits)
  have "\<forall>p \<in> set (m_vCallback h). \<exists>x. deref (CleanQueue (m_vBatching h) c) p = Inr x"
    using q(1) by (simp add: CleanQueue_def client_simps)
  from discard_all_safe [OF this, of canceled] discard_all_safe [OF q(2), of canceled]
  show "\<exists>r. CleanCallbacks canceled h c = Inr r"
    by (auto simp: CleanCallbacks_def Let_def)
qed

lemma new_pair_safe: "\<forall>p \<in> set (m_rrStack c). p \<in> live c \<Longrightarrow> \<exists>r. new_pair reqId cb c = Inr r"
  by (cases "m_rrStack c") (auto simp: new_pair_def Reuse_def live_def client_simps)

lemma delete_pairs_safe: "\<lbrakk>distinct ps; set ps \<subseteq> live c\<rbrakk> \<Longrightarrow> \<exists>c'. delete_pairs c ps = Inr c'"
proof (induction ps arbitrary: c)
  case (Cons p ps)
  then obtain x where "deref c p = Inr x" by (auto simp: live_def)
  moreover have "set ps \<subseteq> live (c\<lparr>pairs := (pairs c)[p := None]\<rparr>)" using Cons.prems by (auto simp: live_delete)
  ultimately show ?case using Cons by simp
qed simp

lemma ClearResultCallbackPool_safe:
  "\<lbrakk>distinct (m_rrStack c); set (m_rrStack c) \<subseteq> live c\<rbrakk> \<Longrightarrow> \<exists>c'. ClearResultCallbackPool n c = Inr c'"
  using delete_pairs_safe [of "drop (min n (length (m_rrStack c))) (m_rrStack c)" c] set_drop_subset [of _ "m_rrStack c"]
  by (fastforce simp: ClearResultCallbackPool_def Let_def)

text \<open>At least half of the requests that wait when a job is aborted are its own.\<close>

definition job_fits :: "nat \<Rightarrow> CAsyncServiceHandler \<Rightarrow> bool" where
  "job_fits nQIndex h \<longleftrightarrow>
     length (m_vCallback h) \<le> 2 * min (sub32 (length (m_vCallback h)) nQIndex) (length (m_vCallback h))"


text \<open>
  A schedule: the first request is queued while the socket closes, its pair is discarded and
  recycled, and a second request gets the same pair before the first sender hears that its
  request was not sent.
\<close>

definition stolen :: clients where
  "stolen = \<lparr>cl_crr = \<lparr>pairs = [Some (0x2003, sample_cb 7)], m_rrStack = []\<rparr>,
     cl_handlers = [\<lparr>m_vCallback = [0], m_vBatching = [], IsRandom = False\<rparr>],
     cl_held = {#}, cl_sending = [(0, 0, False), (0, 0, False)], cl_lost = {#}\<rparr>"

lemma stolen_reachable: "client_reachable stolen"
proof -
  let ?c = "\<lambda>r cb st. \<lparr>pairs = [Some (r, cb)], m_rrStack = st\<rparr>"
  let ?h = "\<lambda>q. \<lparr>m_vCallback = q, m_vBatching = [], IsRandom = False\<rparr>"
  let ?w = "\<lambda>c q held s. \<lparr>cl_crr = c, cl_handlers = [?h q], cl_held = held, cl_sending = s, cl_lost = {#}\<rparr>"
  let ?c1 = "?c 0x2002 (sample_cb 5)" and ?c2 = "?c 0x2003 (sample_cb 7) []" and ?s = "(0, 0, False)"
  have 0: "client_reachable (?w \<lparr>pairs = [], m_rrStack = []\<rparr> [] {#} [])"
    using client_reachable.init [of "[?h []]"] by (simp add: clients_init_def)
  have 1: "client_reachable (?w (?c1 []) [] {#0#} [])"
    using client_reachable.step [OF 0 client_step.acquire [where reqId = "0x2002" and cb = "sample_cb 5"]]
    by (simp add: new_pair_def Reuse_def)
  have 2: "client_reachable (?w (?c1 []) [0] {#} [?s])"
    using client_reachable.step [OF 1 client_step.enqueue [where p = 0 and i = 0 and b = False]]
    by (simp add: enqueue_def with_handler_def)
  have 3: "client_reachable (?w (?c1 []) [] {#0#} [?s])"
    using client_reachable.step [OF 2 client_step.swap_queues [where i = 0]] by (simp add: with_handler_def)
  have 4: "client_reachable (?w (?c1 [0]) [] {#} [?s])"
    using client_reachable.step [OF 3 client_step.clean [where q = "[0]"]] by (simp add: CleanQueue_def)
  have 5: "client_reachable (?w ?c2 [] {#0#} [?s])"
    using client_reachable.step [OF 4 client_step.acquire [where reqId = "0x2003" and cb = "sample_cb 7"]]
    by (simp add: new_pair_def Reuse_def deref_def)
  show ?thesis
    using client_reachable.step [OF 5 client_step.enqueue [where p = 0 and i = 0 and b = False]]
    by (simp add: enqueue_def with_handler_def stolen_def)
qed

text \<open>
  A sender that hears late that its request was not sent can take away the callback of another
  request: in a reachable state two senders refer to the same recycled pair, one of them has just
  had its request accepted, and the other's \<^verbatim>\<open>Remove\<close> takes that request's pair out of the
  queue.
\<close>

theorem late_remove_steals_callback:
  "\<exists>w p reqId cb w'. client_reachable w \<and> cl_sending w = [(p, 0, False), (p, 0, False)] \<and>
     cl_handlers w ! 0 = \<lparr>m_vCallback = [p], m_vBatching = [], IsRandom = False\<rparr> \<and>
     deref (cl_crr w) p = Inr (reqId, cb) \<and> AsyncResultHandler cb \<noteq> None \<and>
     client_step w w' \<and> cl_sending w' = [(p, 0, False)] \<and>
     m_vCallback (cl_handlers w' ! 0) = [] \<and> cl_held w' = {#p#}"
proof -
  let ?w = "with_handler 0 \<lparr>m_vCallback = [], m_vBatching = [], IsRandom = False\<rparr>
     (stolen\<lparr>cl_held := {#0#}, cl_sending := [(0, 0, False)]\<rparr>)"
  have "client_step stolen ?w"
    using client_step.unsent [where w = stolen and xs = "[]" and p = 0 and i = 0 and b = False
        and ys = "[(0, 0, False)]" and ok = True
        and h = "\<lparr>m_vCallback = [], m_vBatching = [], IsRandom = False\<rparr>"]
    by (simp add: stolen_def unsend_def Remove_def)
  with stolen_reachable show ?thesis
    by (intro exI [where x = stolen] exI [where x = "0::nat"] exI [where x = "0x2003"] exI [where x = "sample_cb 7"] exI [where x = ?w])
      (simp add: stolen_def deref_def sample_cb_def with_handler_def)
qed

text \<open>
  A second schedule: three requests wait, the last two of them sent after the job began, and the job
  is aborted. One of the two is discarded and recycled, the other one is forgotten.
\<close>

definition aborted :: clients where
  "aborted = \<lparr>cl_crr = \<lparr>pairs = [Some (0x2002, sample_cb 5), Some (0x2002, sample_cb 5), Some (0x2002, sample_cb 5)], m_rrStack = [1]\<rparr>,
     cl_handlers = [\<lparr>m_vCallback = [0], m_vBatching = [], IsRandom = False\<rparr>],
     cl_held = {#}, cl_sending = [(2, 0, False), (1, 0, False), (0, 0, False)], cl_lost = {#2#}\<rparr>"

lemma aborted_reachable: "client_reachable aborted"
proof -
  let ?x = "Some (0x2002, sample_cb 5)"
  let ?w = "\<lambda>ps q held s. \<lparr>cl_crr = \<lparr>pairs = ps, m_rrStack = []\<rparr>,
     cl_handlers = [\<lparr>m_vCallback = q, m_vBatching = [], IsRandom = False\<rparr>], cl_held = held, cl_sending = s, cl_lost = {#}\<rparr>"
  let ?s = "\<lambda>p. (p, 0, False)"
  have 0: "client_reachable (?w [] [] {#} [])"
    using client_reachable.init [of "[\<lparr>m_vCallback = [], m_vBatching = [], IsRandom = False\<rparr>]"] by (simp add: clients_init_def)
  have send: "client_reachable (?w (ps @ [?x]) (q @ [length ps]) {#} (?s (length ps) # s))"
    if r: "client_reachable (?w ps q {#} s)" for ps q s
  proof -
    have "client_reachable (?w (ps @ [?x]) q {#length ps#} s)"
      using client_reachable.step [OF r client_step.acquire [where reqId = "0x2002" and cb = "sample_cb 5"]]
      by (simp add: new_pair_def Reuse_def)
    from client_reachable.step [OF this client_step.enqueue [where p = "length ps" and i = 0 and b = False]]
    show ?thesis by (simp add: enqueue_def with_handler_def)
  qed
  have 3: "client_reachable (?w [?x, ?x, ?x] [0, 1, 2] {#} [?s 2, ?s 1, ?s 0])"
    using send [OF send [OF send [OF 0]]] by (simp add: numeral_2_eq_2)
  show ?thesis
    using client_reachable.step [OF 3 client_step.abort_job [where i = 0 and nQIndex = 1]]
    by (simp add: AbortJob_def EraseBack_def EraseBack_loop.simps discard_event_def deref_def sample_cb_def forgotten_def
        sub32_def Recycle_def with_handler_def aborted_def bindr_def)
qed


end
