(* ===== verification/Queueserver.thy ===== *)
theory Queueserver
  imports Client "HOL-Library.AList"
begin

text \<open>
  The server plugin for persistent message queues: \<^verbatim>\<open>CAsyncQueueImpl\<close> of
  \<^verbatim>\<open>include/queue/server_impl/asyncqueueimpl.h\<close> and \<^verbatim>\<open>.cpp\<close>, with the way a request
  reaches it (\<^verbatim>\<open>CBaseService::OnReqArrive\<close> of \<^verbatim>\<open>include/aserverw.cpp\<close>).

  \<^item> The queue files are kept by the server core, a closed library that is loaded at run time: the
    record \<open>core\<close> has the functions that the plugin calls, over a state \<open>'w\<close> of its own; \<open>core_ok\<close>
    says what they promise about the messages of a queue.
  \<^item> \<open>aq_server\<close> has the static members and the peers. A \<^verbatim>\<open>shared_ptr<CMyQueue>\<close> is an
    index into \<open>m_objects\<close>, so that \<open>use_count\<close> can be computed; a \<^verbatim>\<open>CMyQueue\<close> is its handle.
  \<^item> A handler runs on the bytes that are left in \<open>m_UQueue\<close> and returns the bytes of its
    result. A fault ends the run of the model: after \<^verbatim>\<open>MB_BAD_DESERIALIZATION\<close> the code goes
    on in a \<^verbatim>\<open>catch\<close> block that sends an exception to the client.
  \<^item> The requests of one peer are processed one after the other, and each handler is one step.
  \<^item> The buffer of a transaction comes from the pool; \<open>Pool\<close> shows that it is empty and owned by
    this peer alone. It is an argument of \<open>StartTrans\<close>.
\<close>

section \<open>Constants\<close>

definition INVALID_NUMBER :: nat where "INVALID_NUMBER = 18446744073709551615"

definition idEnqueue :: "16 word" where "idEnqueue = idReservedTwo + 1"
definition idDequeue :: "16 word" where "idDequeue = idEnqueue + 1"
definition idStartTrans :: "16 word" where "idStartTrans = idEnqueue + 2"
definition idEndTrans :: "16 word" where "idEndTrans = idEnqueue + 3"
definition idFlush :: "16 word" where "idFlush = idEnqueue + 4"
definition idClose :: "16 word" where "idClose = idEnqueue + 5"
definition idGetKeys :: "16 word" where "idGetKeys = idEnqueue + 6"
definition idEnqueueBatch :: "16 word" where "idEnqueueBatch = idEnqueue + 7"
definition idBatchSizeNotified :: "16 word" where "idBatchSizeNotified = idEnqueue + 19"

lemmas request_ids = idEnqueue_def idDequeue_def idStartTrans_def idEndTrans_def idFlush_def idClose_def
  idGetKeys_def idEnqueueBatch_def idBatchSizeNotified_def idReservedTwo_def

definition QUEUE_OK :: nat where "QUEUE_OK = 0"
definition QUEUE_TRANS_ALREADY_STARTED :: nat where "QUEUE_TRANS_ALREADY_STARTED = 1"
definition QUEUE_TRANS_STARTING_FAILED :: nat where "QUEUE_TRANS_STARTING_FAILED = 2"
definition QUEUE_TRANS_NOT_STARTED_YET :: nat where "QUEUE_TRANS_NOT_STARTED_YET = 3"
definition QUEUE_TRANS_COMMITTING_FAILED :: nat where "QUEUE_TRANS_COMMITTING_FAILED = 4"
definition QUEUE_DEQUEUING :: nat where "QUEUE_DEQUEUING = 5"
definition QUEUE_OTHER_WORKING_WITH_SAME_QUEUE :: nat where "QUEUE_OTHER_WORKING_WITH_SAME_QUEUE = 6"
definition QUEUE_CLOSE_FAILED :: nat where "QUEUE_CLOSE_FAILED = 7"
definition QUEUE_ENQUEUING_FAILED :: nat where "QUEUE_ENQUEUING_FAILED = 8"

lemmas queue_codes = QUEUE_OK_def QUEUE_TRANS_ALREADY_STARTED_def QUEUE_TRANS_STARTING_FAILED_def
  QUEUE_TRANS_NOT_STARTED_YET_def QUEUE_TRANS_COMMITTING_FAILED_def QUEUE_DEQUEUING_def
  QUEUE_OTHER_WORKING_WITH_SAME_QUEUE_def QUEUE_CLOSE_FAILED_def QUEUE_ENQUEUING_FAILED_def

definition DEFAULT_DEQUEUE_BATCH_SIZE :: nat where "DEFAULT_DEQUEUE_BATCH_SIZE = 16384"
definition MIN_DEQUEUE_BATCH_SIZE :: nat where "MIN_DEQUEUE_BATCH_SIZE = 2048"
definition MAIN_THREAD_BYTES :: nat where "MAIN_THREAD_BYTES = 4 * 1024"
definition m_ttl :: nat where "m_ttl = 120 * 3600"
definition oMemoryCached :: nat where "oMemoryCached = 0"

section \<open>The server core\<close>

type_synonym key = "byte list"
type_synonym message = "16 word \<times> byte list"

record 'w core =
  core_StartQueue :: "'w \<Rightarrow> key \<Rightarrow> bool \<Rightarrow> nat \<Rightarrow> nat \<times> 'w"
  core_IsQueueStarted :: "'w \<Rightarrow> nat \<Rightarrow> bool"
  core_Enqueue :: "'w \<Rightarrow> nat \<Rightarrow> 16 word \<Rightarrow> byte list \<Rightarrow> nat \<times> 'w"
  core_BatchEnqueue :: "'w \<Rightarrow> nat \<Rightarrow> nat \<Rightarrow> byte mem \<Rightarrow> fault + (nat \<times> 'w)"
  core_StartJob :: "'w \<Rightarrow> nat \<Rightarrow> bool \<times> 'w"
  core_EndJob :: "'w \<Rightarrow> nat \<Rightarrow> bool \<times> 'w"
  core_AbortJob :: "'w \<Rightarrow> nat \<Rightarrow> bool \<times> 'w"
  core_GetMessageCount :: "'w \<Rightarrow> nat \<Rightarrow> nat"
  core_GetMessagesInDequeuing :: "'w \<Rightarrow> nat \<Rightarrow> nat"
  core_GetQueueSize :: "'w \<Rightarrow> nat \<Rightarrow> nat"
  core_SetOptimistic :: "'w \<Rightarrow> nat \<Rightarrow> nat \<Rightarrow> 'w"
  core_Dequeue2 :: "'w \<Rightarrow> nat \<Rightarrow> nat \<Rightarrow> nat \<Rightarrow> bool \<Rightarrow> nat \<Rightarrow> nat \<times> 'w"
  core_StopQueueByHandle :: "'w \<Rightarrow> nat \<Rightarrow> bool \<Rightarrow> bool \<times> 'w"

text \<open>
  The layout in which the messages of a batch stand one after the other.
\<close>

definition frame :: "message \<Rightarrow> byte list" where
  "frame m = le_bytes 2 (unat (fst m)) @ le_bytes 4 (length (snd m)) @ snd m"

definition frames :: "message list \<Rightarrow> byte list" where
  "frames ms = concat (map frame ms)"

lemma frames_simps [simp]: "frames [] = []" "frames (m # ms) = frame m @ frames ms"
  "frames (ms @ ns) = frames ms @ frames ns"
  by (simp_all add: frames_def)

lemma length_frame [simp]: "length (frame m) = 6 + length (snd m)"
  by (simp add: frame_def)

section \<open>A queue object\<close>

definition MyQueue_GetHandle :: "'w core \<Rightarrow> 'w \<Rightarrow> nat \<Rightarrow> nat" where
  "MyQueue_GetHandle K w h = (if \<not> core_IsQueueStarted K w h then 0 else h)"

definition MyQueue_Flush :: "'w core \<Rightarrow> 'w \<Rightarrow> nat \<Rightarrow> nat \<Rightarrow> nat \<times> nat \<times> 'w" where
  "MyQueue_Flush K w h option =
     (let w = (if option \<noteq> oMemoryCached
               then core_SetOptimistic K (core_SetOptimistic K w h option) h oMemoryCached else w) in
      (core_GetMessageCount K w h, core_GetQueueSize K w h, w))"

text \<open>The cells from \<^verbatim>\<open>GetBuffer()\<close> on, and the bytes that a call reads there.\<close>

definition read_front :: "uqueue \<Rightarrow> nat \<Rightarrow> fault + byte list" where
  "read_front q n = bindr (mem_read (m_pBuffer q) (GetBuffer q 0) n) cells"

definition MyQueue_Enqueue :: "'w core \<Rightarrow> 'w \<Rightarrow> nat \<Rightarrow> uqueue \<Rightarrow> 16 word \<Rightarrow> fault + (nat \<times> 'w)" where
  "MyQueue_Enqueue K w h buffer idmessage =
     bindr (read_front buffer (m_nSize buffer)) (\<lambda>bs. Inr (core_Enqueue K w h idmessage bs))"

definition MyQueue_Enqueue_count :: "'w core \<Rightarrow> 'w \<Rightarrow> nat \<Rightarrow> nat \<Rightarrow> uqueue \<Rightarrow> fault + (nat \<times> 'w)" where
  "MyQueue_Enqueue_count K w h cnt msgStruct =
     core_BatchEnqueue K w h cnt (drop (GetBuffer msgStruct 0) (m_pBuffer msgStruct))"

definition MyQueue_BatchEnqueue :: "'w core \<Rightarrow> 'w \<Rightarrow> nat \<Rightarrow> nat \<Rightarrow> uqueue \<Rightarrow> fault + (nat \<times> 'w)" where
  "MyQueue_BatchEnqueue K w h cnt buffer =
     (if cnt = 0 then Inr (QUEUE_OK, w)
      else bindr (require (m_nSize buffer \<noteq> 0)) (\<lambda>_.
        if cnt = 1
        then bindr (get_pod 2 buffer) (\<lambda>(idmessage, buffer). bindr (get_pod 4 buffer) (\<lambda>(bytes, buffer).
             bindr (read_front buffer bytes) (\<lambda>bs.
             let (index, w) = core_Enqueue K w h (word_of_nat idmessage) bs in
             Inr (if index = INVALID_NUMBER then QUEUE_ENQUEUING_FAILED else QUEUE_OK, w))))
        else let (ok, w) = core_StartJob K w h in
        if \<not> ok then Inr (QUEUE_TRANS_COMMITTING_FAILED, w)
        else bindr (MyQueue_Enqueue_count K w h cnt buffer) (\<lambda>(index, w).
             if index = INVALID_NUMBER
             then Inr (QUEUE_ENQUEUING_FAILED, snd (core_AbortJob K w h))
             else let (ok, w) = core_EndJob K w h in
                  Inr (if ok then QUEUE_OK else QUEUE_TRANS_COMMITTING_FAILED, w))))"

definition sub64 :: "nat \<Rightarrow> nat \<Rightarrow> nat" where
  "sub64 a b = (a + (18446744073709551616 - b mod 18446744073709551616)) mod 18446744073709551616"

definition MyQueue_Dequeue ::
  "'w core \<Rightarrow> nat \<Rightarrow> nat \<Rightarrow> 'w \<Rightarrow> nat \<Rightarrow> nat \<Rightarrow> nat \<Rightarrow> nat \<times> nat \<times> nat \<times> 'w"
where
  "MyQueue_Dequeue K batchSize noAuto w h socket timeout =
     (if \<not> core_IsQueueStarted K w h then (INVALID_NUMBER, INVALID_NUMBER, INVALID_NUMBER, w)
      else let (ret, w) = core_Dequeue2 K w h socket batchSize (noAuto = 0) timeout in
           (sub64 (core_GetMessageCount K w h) (core_GetMessagesInDequeuing K w h), core_GetQueueSize K w h, ret, w))"

definition MyQueue_Close :: "'w core \<Rightarrow> 'w \<Rightarrow> nat \<Rightarrow> bool \<Rightarrow> nat \<times> 'w" where
  "MyQueue_Close K w h permanent =
     (if core_GetMessagesInDequeuing K w h \<noteq> 0 then (QUEUE_DEQUEUING, w)
      else let (ok, w) = core_StopQueueByHandle K w h permanent in
           (if ok then QUEUE_OK else QUEUE_CLOSE_FAILED, w))"

section \<open>Peers and the shared state\<close>

record peer =
  m_UQueue :: uqueue
  p_count :: nat
  m_bufferBatch :: "uqueue option"
  m_qTrans :: "nat option"

record 'w aq_server =
  m_nBatchSize :: nat
  m_bNoAuto :: nat
  m_mapKeyQueue :: "(key \<times> nat) list"
  m_clients :: nat
  m_objects :: "nat list"
  m_peers :: "peer list"
  m_world :: 'w

definition upd_peer :: "nat \<Rightarrow> (peer \<Rightarrow> peer) \<Rightarrow> 'w aq_server \<Rightarrow> 'w aq_server" where
  "upd_peer p f s = s\<lparr>m_peers := (m_peers s)[p := f (m_peers s ! p)]\<rparr>"

text \<open>How many \<^verbatim>\<open>shared_ptr\<close>s refer to a queue object between two requests.\<close>

definition use_count :: "'w aq_server \<Rightarrow> nat \<Rightarrow> nat" where
  "use_count s q = length (filter (\<lambda>(k, q'). q' = q) (m_mapKeyQueue s)) +
     length (filter (\<lambda>pr. m_qTrans pr = Some q) (m_peers s))"

text \<open>The statements that end a transaction without storing anything.\<close>

definition drop_trans :: "peer \<Rightarrow> peer" where
  "drop_trans pr = pr\<lparr>m_bufferBatch := None, p_count := 0, m_qTrans := None\<rparr>"

definition InitServerLibrary :: "nat \<Rightarrow> 'w aq_server \<Rightarrow> 'w aq_server" where
  "InitServerLibrary options s =
     (let batchSize = options mod 0x1000000 in
      s\<lparr>m_bNoAuto := options div 0x1000000,
        m_nBatchSize := (if batchSize = 0 then DEFAULT_DEQUEUE_BATCH_SIZE
                         else if batchSize < MIN_DEQUEUE_BATCH_SIZE then MIN_DEQUEUE_BATCH_SIZE
                         else batchSize)\<rparr>)"

definition CAsyncQueueImpl_new :: "uqueue \<Rightarrow> peer" where
  "CAsyncQueueImpl_new uq = \<lparr>m_UQueue = uq, p_count = 0, m_bufferBatch = None, m_qTrans = None\<rparr>"

definition OnSwitchFrom :: "uqueue \<Rightarrow> 'w aq_server \<Rightarrow> 'w aq_server" where
  "OnSwitchFrom uq s =
     s\<lparr>m_peers := m_peers s @ [CAsyncQueueImpl_new uq], m_clients := add32 (m_clients s) 1\<rparr>"

definition OnReleaseSource :: "nat \<Rightarrow> 'w aq_server \<Rightarrow> 'w aq_server" where
  "OnReleaseSource p s =
     (let pr = m_peers s ! p;
          s = (if m_bufferBatch pr \<noteq> None \<or> m_qTrans pr \<noteq> None then upd_peer p drop_trans s else s);
          clients = sub32 (m_clients s) 1 in
      s\<lparr>m_clients := clients, m_mapKeyQueue := (if clients = 0 then [] else m_mapKeyQueue s)\<rparr>)"

definition idCancel :: "16 word" where "idCancel = 5"

definition OnBaseRequestArrive :: "16 word \<Rightarrow> nat \<Rightarrow> 'w aq_server \<Rightarrow> 'w aq_server" where
  "OnBaseRequestArrive requestId p s = (if requestId = idCancel then upd_peer p drop_trans s else s)"

section \<open>The requests\<close>

definition trim_key :: "key \<Rightarrow> key" where
  "trim_key key = (if key \<noteq> [] \<and> last key = 47 then butlast key else key)"

text \<open>\<^verbatim>\<open>key.back()\<close> of an empty string refers to no character.\<close>

definition Pretreat :: "key \<Rightarrow> fault + key" where
  "Pretreat key = (if key = [] then Inl Out_Of_Bounds else Inr (trim_key key))"

definition Find :: "key \<Rightarrow> 'w aq_server \<Rightarrow> fault + (key \<times> nat option)" where
  "Find key s = bindr (Pretreat key) (\<lambda>key. Inr (key, map_of (m_mapKeyQueue s) key))"

text \<open>A new queue object; it is registered if the core has opened the queue.\<close>

definition open_queue :: "'w core \<Rightarrow> key \<Rightarrow> 'w aq_server \<Rightarrow> nat option \<times> 'w aq_server" where
  "open_queue K key s =
     (let (h, w) = core_StartQueue K (m_world s) key True m_ttl; s = s\<lparr>m_world := w\<rparr> in
      if MyQueue_GetHandle K w h \<noteq> 0
      then (Some (length (m_objects s)),
            s\<lparr>m_objects := m_objects s @ [h],
              m_mapKeyQueue := AList.update key (length (m_objects s)) (m_mapKeyQueue s)\<rparr>)
      else (None, s))"

definition find_or_open :: "'w core \<Rightarrow> key \<Rightarrow> 'w aq_server \<Rightarrow> fault + (nat option \<times> 'w aq_server)" where
  "find_or_open K key s =
     bindr (Find key s) (\<lambda>(key, q). case q of
        Some q \<Rightarrow> Inr (Some q, s)
      | None \<Rightarrow> Inr (open_queue K key s))"

definition StartTrans :: "'w core \<Rightarrow> uqueue \<Rightarrow> nat \<Rightarrow> key \<Rightarrow> 'w aq_server \<Rightarrow> fault + (nat \<times> 'w aq_server)" where
  "StartTrans K buf p key s =
     (let pr = m_peers s ! p in
      if m_bufferBatch pr \<noteq> None \<or> m_qTrans pr \<noteq> None then Inr (QUEUE_TRANS_ALREADY_STARTED, s)
      else bindr (find_or_open K key s) (\<lambda>(q, s). case q of
             None \<Rightarrow> Inr (QUEUE_TRANS_STARTING_FAILED, s)
           | Some q \<Rightarrow> Inr (QUEUE_OK,
               upd_peer p (\<lambda>pr. pr\<lparr>m_qTrans := Some q, p_count := 0, m_bufferBatch := Some buf\<rparr>) s)))"

definition EndTrans :: "'w core \<Rightarrow> nat \<Rightarrow> bool \<Rightarrow> 'w aq_server \<Rightarrow> fault + (nat \<times> 'w aq_server)" where
  "EndTrans K p rollback s =
     (let pr = m_peers s ! p in
      case (m_bufferBatch pr, m_qTrans pr) of
        (Some b, Some q) \<Rightarrow>
          bindr (if rollback then Inr (QUEUE_OK, m_world s)
                 else MyQueue_BatchEnqueue K (m_world s) (m_objects s ! q) (p_count pr) b) (\<lambda>(errCode, w).
          Inr (errCode, upd_peer p drop_trans (s\<lparr>m_world := w\<rparr>)))
      | _ \<Rightarrow> Inr (QUEUE_TRANS_NOT_STARTED_YET, s))"

text \<open>The second part of \<^verbatim>\<open>Close\<close>, under the lock: a queue that only the map refers to is closed.\<close>

definition close_registered :: "'w core \<Rightarrow> key \<Rightarrow> bool \<Rightarrow> 'w aq_server \<Rightarrow> fault + (nat \<times> 'w aq_server)" where
  "close_registered K key permanent s =
     (case map_of (m_mapKeyQueue s) key of
       None \<Rightarrow> Inr (QUEUE_OK, s)
     | Some q \<Rightarrow>
         if use_count s q = 1
         then let (errCode, w) = MyQueue_Close K (m_world s) (m_objects s ! q) permanent; s = s\<lparr>m_world := w\<rparr> in
              Inr (errCode, if errCode = QUEUE_OK
                            then s\<lparr>m_mapKeyQueue := AList.delete key (m_mapKeyQueue s)\<rparr> else s)
         else Inr (QUEUE_OTHER_WORKING_WITH_SAME_QUEUE, s))"

definition Close :: "'w core \<Rightarrow> nat \<Rightarrow> key \<Rightarrow> bool \<Rightarrow> 'w aq_server \<Rightarrow> fault + (nat \<times> 'w aq_server)" where
  "Close K p key permanent s =
     bindr (Pretreat key) (\<lambda>key.
     let pr = m_peers s ! p in
     close_registered K key permanent
       (if m_qTrans pr \<noteq> None \<or> m_bufferBatch pr \<noteq> None then upd_peer p drop_trans s else s))"

definition Flush :: "'w core \<Rightarrow> key \<Rightarrow> nat \<Rightarrow> 'w aq_server \<Rightarrow> fault + (nat \<times> nat \<times> 'w aq_server)" where
  "Flush K key option s =
     bindr (Find key s) (\<lambda>(key, q). case q of
        None \<Rightarrow> Inr (INVALID_NUMBER, INVALID_NUMBER, s)
      | Some q \<Rightarrow> let (messageCount, fileSize, w) = MyQueue_Flush K (m_world s) (m_objects s ! q) option in
                  Inr (messageCount, fileSize, s\<lparr>m_world := w\<rparr>))"

definition push_queue :: "uqueue \<Rightarrow> uqueue \<Rightarrow> fault + uqueue" where
  "push_queue b uq =
     bindr (mem_read (m_pBuffer uq) (GetBuffer uq 0) (m_nSize uq)) (\<lambda>buf. Push b (Some buf))"

text \<open>
  The common part of \<^verbatim>\<open>Enqueue\<close> and \<^verbatim>\<open>EnqueueBatch\<close>: the queue of the
  transaction, or the one of the key; then the buffer of the transaction or the queue file.
\<close>

definition enqueue_into ::
  "'w core \<Rightarrow> nat \<Rightarrow> key \<Rightarrow> nat \<Rightarrow> (uqueue \<Rightarrow> uqueue \<Rightarrow> fault + uqueue) \<Rightarrow>
   ('w \<Rightarrow> nat \<Rightarrow> uqueue \<Rightarrow> fault + (nat \<times> 'w)) \<Rightarrow> 'w aq_server \<Rightarrow> fault + (nat \<times> 'w aq_server)"
where
  "enqueue_into K p key n batch store s =
     bindr (case m_qTrans (m_peers s ! p) of Some q \<Rightarrow> Inr (Some q, s) | None \<Rightarrow> find_or_open K key s) (\<lambda>(q, s).
     case q of
       None \<Rightarrow> Inr (INVALID_NUMBER, s)
     | Some q \<Rightarrow>
       let pr = m_peers s ! p; uq = m_UQueue pr in
       bindr (case m_bufferBatch pr of
                Some b \<Rightarrow> bindr (batch b uq) (\<lambda>b.
                  let m = add32 (p_count pr) n in
                  Inr (m, upd_peer p (\<lambda>pr. pr\<lparr>m_bufferBatch := Some b, p_count := m\<rparr>) s))
              | None \<Rightarrow> bindr (store (m_world s) (m_objects s ! q) uq) (\<lambda>(index, w). Inr (index, s\<lparr>m_world := w\<rparr>)))
         (\<lambda>(index, s).
       bindr (SetSize uq 0 True) (\<lambda>uq. Inr (index, upd_peer p (\<lambda>pr. pr\<lparr>m_UQueue := uq\<rparr>) s))))"

definition EnqueueBatch :: "'w core \<Rightarrow> nat \<Rightarrow> key \<Rightarrow> nat \<Rightarrow> 'w aq_server \<Rightarrow> fault + (nat \<times> 'w aq_server)" where
  "EnqueueBatch K p key n s =
     enqueue_into K p key n push_queue (\<lambda>w h uq. MyQueue_Enqueue_count K w h n uq) s"

definition Enqueue :: "'w core \<Rightarrow> nat \<Rightarrow> key \<Rightarrow> 16 word \<Rightarrow> 'w aq_server \<Rightarrow> fault + (nat \<times> 'w aq_server)" where
  "Enqueue K p key idmessage s =
     enqueue_into K p key 1
       (\<lambda>b uq. bindr (require (m_qTrans (m_peers s ! p) \<noteq> None)) (\<lambda>_.
               bindr (put_pod 2 b (unat idmessage)) (\<lambda>b. bindr (put_pod 4 b (m_nSize uq)) (\<lambda>b. push_queue b uq))))
       (\<lambda>w h uq. MyQueue_Enqueue K w h uq idmessage) s"

definition Dequeue ::
  "'w core \<Rightarrow> nat \<Rightarrow> key \<Rightarrow> nat \<Rightarrow> 'w aq_server \<Rightarrow> fault + (nat \<times> nat \<times> nat \<times> 'w aq_server)"
where
  "Dequeue K p key timeout s =
     bindr (find_or_open K key s) (\<lambda>(q, s). case q of
       None \<Rightarrow> Inr (INVALID_NUMBER, INVALID_NUMBER, INVALID_NUMBER, s)
     | Some q \<Rightarrow>
         let timeout = (if m_qTrans (m_peers s ! p) = Some q then 0 else timeout);
             (messageCount, fileSize, ret, w) =
               MyQueue_Dequeue K (m_nBatchSize s) (m_bNoAuto s) (m_world s) (m_objects s ! q) p timeout in
         Inr (messageCount, fileSize, ret, s\<lparr>m_world := w\<rparr>))"

definition NotifyBatchSize :: "'w aq_server \<Rightarrow> nat" where
  "NotifyBatchSize s = add32 (mul32 (m_bNoAuto s) 0x1000000) (m_nBatchSize s)"

section \<open>How a request reaches its handler\<close>

definition set_UQueue :: "nat \<Rightarrow> uqueue \<Rightarrow> 'w aq_server \<Rightarrow> 'w aq_server" where
  "set_UQueue p uq = upd_peer p (\<lambda>pr. pr\<lparr>m_UQueue := uq\<rparr>)"

text \<open>The macros \<^verbatim>\<open>M_I1_R1\<close> and \<^verbatim>\<open>M_I2_R1\<close> with their arguments filled in.\<close>

definition on_Enqueue :: "'w core \<Rightarrow> nat \<Rightarrow> 'w aq_server \<Rightarrow> fault + (byte list \<times> 'w aq_server)" where
  "on_Enqueue K p s =
     bindr (get_string (m_UQueue (m_peers s ! p))) (\<lambda>(key, uq). bindr (get_pod 2 uq) (\<lambda>(idmessage, uq).
     bindr (Enqueue K p key (word_of_nat idmessage) (set_UQueue p uq s)) (\<lambda>(index, s). Inr (le_bytes 8 index, s))))"

definition on_EnqueueBatch :: "'w core \<Rightarrow> nat \<Rightarrow> 'w aq_server \<Rightarrow> fault + (byte list \<times> 'w aq_server)" where
  "on_EnqueueBatch K p s =
     bindr (get_string (m_UQueue (m_peers s ! p))) (\<lambda>(key, uq). bindr (get_pod 4 uq) (\<lambda>(n, uq).
     bindr (EnqueueBatch K p key n (set_UQueue p uq s)) (\<lambda>(res, s). Inr (le_bytes 8 res, s))))"

definition on_EndTrans :: "'w core \<Rightarrow> nat \<Rightarrow> 'w aq_server \<Rightarrow> fault + (byte list \<times> 'w aq_server)" where
  "on_EndTrans K p s =
     bindr (get_pod 1 (m_UQueue (m_peers s ! p))) (\<lambda>(rollback, uq).
     bindr (EndTrans K p (rollback \<noteq> 0) (set_UQueue p uq s)) (\<lambda>(errCode, s). Inr (le_bytes 4 errCode, s)))"

definition on_Flush :: "'w core \<Rightarrow> nat \<Rightarrow> 'w aq_server \<Rightarrow> fault + (byte list \<times> 'w aq_server)" where
  "on_Flush K p s =
     bindr (get_string (m_UQueue (m_peers s ! p))) (\<lambda>(key, uq). bindr (get_pod 4 uq) (\<lambda>(option, uq).
     bindr (Flush K key option (set_UQueue p uq s)) (\<lambda>(messageCount, fileSize, s).
     Inr (le_bytes 8 messageCount @ le_bytes 8 fileSize, s))))"

definition on_Close :: "'w core \<Rightarrow> nat \<Rightarrow> 'w aq_server \<Rightarrow> fault + (byte list \<times> 'w aq_server)" where
  "on_Close K p s =
     bindr (get_string (m_UQueue (m_peers s ! p))) (\<lambda>(key, uq). bindr (get_pod 1 uq) (\<lambda>(permanent, uq).
     bindr (Close K p key (permanent \<noteq> 0) (set_UQueue p uq s)) (\<lambda>(errCode, s). Inr (le_bytes 4 errCode, s))))"

definition on_Dequeue :: "'w core \<Rightarrow> nat \<Rightarrow> 'w aq_server \<Rightarrow> fault + (byte list \<times> 'w aq_server)" where
  "on_Dequeue K p s =
     bindr (get_string (m_UQueue (m_peers s ! p))) (\<lambda>(key, uq). bindr (get_pod 4 uq) (\<lambda>(timeout, uq).
     bindr (Dequeue K p key timeout (set_UQueue p uq s)) (\<lambda>(messageCount, fileSize, ret, s).
     Inr (le_bytes 8 messageCount @ le_bytes 8 fileSize @ le_bytes 8 ret, s))))"

definition on_StartTrans :: "'w core \<Rightarrow> uqueue \<Rightarrow> nat \<Rightarrow> 'w aq_server \<Rightarrow> fault + (byte list \<times> 'w aq_server)" where
  "on_StartTrans K buf p s =
     bindr (get_string (m_UQueue (m_peers s ! p))) (\<lambda>(key, uq).
     bindr (StartTrans K buf p key (set_UQueue p uq s)) (\<lambda>(errCode, s). Inr (le_bytes 4 errCode, s)))"

text \<open>\<open>None\<close>: the handler knows nothing about the request and sends no result.\<close>

definition handled :: "fault + (byte list \<times> 'w aq_server) \<Rightarrow> fault + (byte list option \<times> 'w aq_server)" where
  "handled r = bindr r (\<lambda>(bs, s). Inr (Some bs, s))"

definition OnSlowRequestArrive ::
  "'w core \<Rightarrow> 16 word \<Rightarrow> nat \<Rightarrow> 'w aq_server \<Rightarrow> fault + (byte list option \<times> 'w aq_server)"
where
  "OnSlowRequestArrive K reqId p s =
     (if reqId = idDequeue then handled (on_Dequeue K p s)
      else if reqId = idEnqueue then handled (on_Enqueue K p s)
      else if reqId = idFlush then handled (on_Flush K p s)
      else if reqId = idClose then handled (on_Close K p s)
      else if reqId = idEndTrans then handled (on_EndTrans K p s)
      else if reqId = idEnqueueBatch then handled (on_EnqueueBatch K p s)
      else Inr (None, s))"

definition OnFastRequestArrive ::
  "'w core \<Rightarrow> uqueue \<Rightarrow> 16 word \<Rightarrow> nat \<Rightarrow> 'w aq_server \<Rightarrow> fault + (byte list option \<times> 'w aq_server)"
where
  "OnFastRequestArrive K buf reqId p s =
     (if reqId = idGetKeys
      then Inr (Some (le_bytes 4 (length (m_mapKeyQueue s)) @ concat (map (lwire \<circ> fst) (m_mapKeyQueue s))), s)
      else if reqId = idBatchSizeNotified then Inr (Some (le_bytes 4 (NotifyBatchSize s)), s)
      else if reqId = idStartTrans then handled (on_StartTrans K buf p s)
      else Inr (None, s))"

text \<open>
  The main thread takes short requests right away (and drops them from the slow ones); \<open>None\<close>
  leaves a request to a worker thread.
\<close>

definition read_at :: "uqueue \<Rightarrow> nat \<Rightarrow> nat \<Rightarrow> fault + nat" where
  "read_at q offset n =
     bindr (mem_read (m_pBuffer q) (GetBuffer q offset) n) (\<lambda>cs. bindr (cells cs) (\<lambda>bs. Inr (le_value bs)))"

definition OnRequestArrive ::
  "'w core \<Rightarrow> 16 word \<Rightarrow> nat \<Rightarrow> nat \<Rightarrow> 'w aq_server \<Rightarrow> fault + (byte list option \<times> 'w aq_server)"
where
  "OnRequestArrive K requestId len p s =
     (let pr = m_peers s ! p; uq = m_UQueue pr in
      if requestId = idEnqueue
      then if len < MAIN_THREAD_BYTES then handled (on_Enqueue K p s) else Inr (None, s)
      else if requestId = idFlush
      then bindr (read_at uq 0 4) (\<lambda>len. bindr (read_at uq (add32 4 len) 4) (\<lambda>option.
           if option = oMemoryCached then handled (on_Flush K p s) else Inr (None, s)))
      else if requestId = idEndTrans
      then bindr (read_at uq 0 1) (\<lambda>b.
           if b \<noteq> 0 \<or> (case m_bufferBatch pr of None \<Rightarrow> True | Some bb \<Rightarrow> m_nSize bb < MAIN_THREAD_BYTES)
           then handled (on_EndTrans K p s) else Inr (None, s))
      else if requestId = idEnqueueBatch
      then if len < MAIN_THREAD_BYTES then handled (on_EnqueueBatch K p s) else Inr (None, s)
      else Inr (None, s))"

text \<open>The bytes of a request are copied into the buffer of the peer.\<close>

definition fill_UQueue :: "tagOperationSystem \<Rightarrow> bool \<Rightarrow> byte list \<Rightarrow> uqueue \<Rightarrow> fault + uqueue" where
  "fill_UQueue os endian bs mc =
     bindr (SetSize mc 0 True) (\<lambda>mc.
     let mc = SetEndian (mc\<lparr>m_os := os\<rparr>) endian in
     bindr (if length bs > m_nMaxBuffer mc then ReallocBuffer mc (add32 (length bs) 16) else Inr mc) (\<lambda>mc.
     if bs \<noteq> [] then Push mc (Some (map Some bs)) else Inr mc))"

definition OnReqArrive ::
  "'w core \<Rightarrow> tagOperationSystem \<Rightarrow> bool \<Rightarrow> 16 word \<Rightarrow> byte list \<Rightarrow> nat \<Rightarrow> 'w aq_server \<Rightarrow>
   fault + (byte list option \<times> 'w aq_server)"
where
  "OnReqArrive K os endian reqId bs p s =
     bindr (fill_UQueue os endian bs (m_UQueue (m_peers s ! p))) (\<lambda>uq.
     OnRequestArrive K reqId (length bs) p (set_UQueue p uq s))"

definition GetOneSlowRequestID :: "nat \<Rightarrow> 16 word" where
  "GetOneSlowRequestID index =
     (if index = 0 then idDequeue else if index = 1 then idEnqueue else if index = 2 then idFlush
      else if index = 3 then idClose else if index = 4 then idEndTrans
      else if index = 5 then idEnqueueBatch else 0)"

definition GetNumOfSlowRequests :: nat where "GetNumOfSlowRequests = 6"

text \<open>
  A request as the core drives it: the arrival, then the handler of the class that the plugin has
  put the request in, unless the arrival has already dealt with it.
\<close>

definition serve ::
  "'w core \<Rightarrow> uqueue \<Rightarrow> tagOperationSystem \<Rightarrow> bool \<Rightarrow> 16 word \<Rightarrow> byte list \<Rightarrow> nat \<Rightarrow> 'w aq_server \<Rightarrow>
   fault + (byte list option \<times> 'w aq_server)"
where
  "serve K buf os endian reqId bs p s =
     bindr (OnReqArrive K os endian reqId bs p s) (\<lambda>(r, s).
     case r of Some b \<Rightarrow> Inr (Some b, s)
     | None \<Rightarrow> if reqId \<in> GetOneSlowRequestID ` {..<GetNumOfSlowRequests}
               then OnSlowRequestArrive K reqId p s else OnFastRequestArrive K buf reqId p s)"

section \<open>What the core promises\<close>

text \<open>
  \<open>log w h\<close> are the messages that have been stored in queue \<open>h\<close>, \<open>saved w h\<close> those that were there
  when its job was started. A call that answers \<^verbatim>\<open>INVALID_NUMBER\<close> has stored nothing; a
  job that is aborted or cannot be ended is undone.
\<close>

definition stored :: "nat \<Rightarrow> nat \<Rightarrow> message list \<Rightarrow> (nat \<Rightarrow> message list) \<Rightarrow> nat \<Rightarrow> message list" where
  "stored n h ms L = (if n = INVALID_NUMBER then L else L(h := L h @ ms))"

definition short_messages :: "message list \<Rightarrow> bool" where
  "short_messages ms \<longleftrightarrow> length (frames ms) \<le> 1000000000"

definition core_ok :: "'w core \<Rightarrow> ('w \<Rightarrow> nat \<Rightarrow> message list) \<Rightarrow> ('w \<Rightarrow> nat \<Rightarrow> message list) \<Rightarrow> bool" where
  "core_ok K log saved \<longleftrightarrow>
     (\<forall>w key sh ttl. log (snd (core_StartQueue K w key sh ttl)) = log w) \<and>
     (\<forall>w h i bs n w'. core_Enqueue K w h i bs = (n, w') \<longrightarrow> n \<le> INVALID_NUMBER \<and> log w' = stored n h [(i, bs)] (log w)) \<and>
     (\<forall>w h ms rest. short_messages ms \<longrightarrow>
        (\<exists>n w'. core_BatchEnqueue K w h (length ms) (map Some (frames ms) @ rest) = Inr (n, w') \<and>
           n \<le> INVALID_NUMBER \<and> log w' = stored n h ms (log w) \<and> saved w' = saved w)) \<and>
     (\<forall>w h ok w'. core_StartJob K w h = (ok, w') \<longrightarrow> log w' = log w \<and> (ok \<longrightarrow> saved w' h = log w h)) \<and>
     (\<forall>w h ok w'. core_EndJob K w h = (ok, w') \<longrightarrow> log w' = (if ok then log w else (log w)(h := saved w h))) \<and>
     (\<forall>w h. log (snd (core_AbortJob K w h)) = (log w)(h := saved w h)) \<and>
     (\<forall>w h n. log (core_SetOptimistic K w h n) = log w) \<and>
     (\<forall>w h so n b t. log (snd (core_Dequeue2 K w h so n b t)) = log w) \<and>
     (\<forall>w h b. log (snd (core_StopQueueByHandle K w h b)) = log w)"

lemma core_okD:
  assumes "core_ok K log saved"
  shows "log (snd (core_StartQueue K w key sh ttl)) = log w"
    and "core_Enqueue K w h i bs = (n, w') \<Longrightarrow> n \<le> INVALID_NUMBER \<and> log w' = stored n h [(i, bs)] (log w)"
    and "short_messages ms \<Longrightarrow>
        \<exists>n w'. core_BatchEnqueue K w h (length ms) (map Some (frames ms) @ rest) = Inr (n, w') \<and>
           n \<le> INVALID_NUMBER \<and> log w' = stored n h ms (log w) \<and> saved w' = saved w"
    and "core_StartJob K w h = (ok, w') \<Longrightarrow> log w' = log w \<and> (ok \<longrightarrow> saved w' h = log w h)"
    and "core_EndJob K w h = (ok, w') \<Longrightarrow> log w' = (if ok then log w else (log w)(h := saved w h))"
    and "log (snd (core_AbortJob K w h)) = (log w)(h := saved w h)"
    and "log (core_SetOptimistic K w h m) = log w"
    and "log (snd (core_Dequeue2 K w h so m b t)) = log w"
    and "log (snd (core_StopQueueByHandle K w h b)) = log w"
  using assms unfolding core_ok_def by (elim conjE; metis)+

section \<open>What the clients see\<close>

text \<open>
  The specification knows which queue a key stands for, the messages that each peer has put into
  its open transaction, which peers are connected, and what is in the queues. It is told by the
  observation of a request: its result, and the handle of a queue that was opened for it.
\<close>

record spec =
  sp_keys :: "key \<Rightarrow> nat option"
  sp_trans :: "(nat \<times> message list) option list"
  sp_live :: "bool list"
  sp_log :: "nat \<Rightarrow> message list"

type_synonym obs = "byte list \<times> nat option"

datatype aq_op =
    Connect uqueue
  | Leave
  | Cancel
  | Start uqueue key
  | Put key "16 word" "byte list"
  | Put_batch key "message list"
  | Finish bool
  | Close_queue key bool
  | Flush_queue key nat
  | Fetch key nat
  | Keys
  | Batch_size

fun op_request :: "aq_op \<Rightarrow> 16 word \<times> byte list" where
  "op_request (Start buf key) = (idStartTrans, lwire key)"
| "op_request (Put key i bs) = (idEnqueue, lwire key @ le_bytes 2 (unat i) @ bs)"
| "op_request (Put_batch key ms) = (idEnqueueBatch, lwire key @ le_bytes 4 (length ms) @ frames ms)"
| "op_request (Finish rollback) = (idEndTrans, le_bytes 1 (if rollback then 1 else 0))"
| "op_request (Close_queue key permanent) = (idClose, lwire key @ le_bytes 1 (if permanent then 1 else 0))"
| "op_request (Flush_queue key option) = (idFlush, lwire key @ le_bytes 4 option)"
| "op_request (Fetch key timeout) = (idDequeue, lwire key @ le_bytes 4 timeout)"
| "op_request Keys = (idGetKeys, [])"
| "op_request Batch_size = (idBatchSizeNotified, [])"
| "op_request _ = (0, [])"

fun op_buffer :: "aq_op \<Rightarrow> uqueue" where
  "op_buffer (Start buf key) = buf"
| "op_buffer _ = new_buffer"

definition opened :: "'w aq_server \<Rightarrow> 'w aq_server \<Rightarrow> nat option" where
  "opened s s' = (if length (m_objects s) < length (m_objects s') then Some (m_objects s' ! length (m_objects s)) else None)"

definition run_aq_op ::
  "'w core \<Rightarrow> tagOperationSystem \<Rightarrow> bool \<Rightarrow> 'w aq_server \<Rightarrow> nat \<times> aq_op \<Rightarrow> fault + (obs \<times> 'w aq_server)"
where
  "run_aq_op K os endian s po =
     (case po of (p, op) \<Rightarrow>
       (case op of
          Connect uq \<Rightarrow> Inr (([], None), OnSwitchFrom uq s)
        | Leave \<Rightarrow> Inr (([], None), OnReleaseSource p s)
        | Cancel \<Rightarrow> Inr (([], None), OnBaseRequestArrive idCancel p s)
        | _ \<Rightarrow> let (reqId, bs) = op_request op in
               bindr (serve K (op_buffer op) os endian reqId bs p s) (\<lambda>(r, s').
               Inr ((case r of Some b \<Rightarrow> b | None \<Rightarrow> [], opened s s'), s'))))"

fun run_aq ::
  "'w core \<Rightarrow> tagOperationSystem \<Rightarrow> bool \<Rightarrow> (nat \<times> aq_op) list \<Rightarrow> 'w aq_server \<Rightarrow> fault + (obs list \<times> 'w aq_server)"
where
  "run_aq K os endian [] s = Inr ([], s)"
| "run_aq K os endian (po # ops) s =
     bindr (run_aq_op K os endian s po) (\<lambda>(ob, s). bindr (run_aq K os endian ops s) (\<lambda>(os', s). Inr (ob # os', s)))"

definition spec_bind :: "key \<Rightarrow> nat option \<Rightarrow> spec \<Rightarrow> spec" where
  "spec_bind key new sp =
     (case (sp_keys sp key, new) of
        (None, Some h) \<Rightarrow> sp\<lparr>sp_keys := (sp_keys sp)(key \<mapsto> h)\<rparr> | _ \<Rightarrow> sp)"

definition set_trans :: "nat \<Rightarrow> (nat \<times> message list) option \<Rightarrow> spec \<Rightarrow> spec" where
  "set_trans p t sp = sp\<lparr>sp_trans := (sp_trans sp)[p := t]\<rparr>"

definition spec_put :: "nat \<Rightarrow> key \<Rightarrow> message list \<Rightarrow> obs \<Rightarrow> spec \<Rightarrow> spec" where
  "spec_put p key ms ob sp =
     (case sp_trans sp ! p of
        Some (h, pending) \<Rightarrow> set_trans p (Some (h, pending @ ms)) sp
      | None \<Rightarrow>
          let sp = spec_bind (trim_key key) (snd ob) sp in
          case sp_keys sp (trim_key key) of
            Some h \<Rightarrow> sp\<lparr>sp_log := stored (le_value (fst ob)) h ms (sp_log sp)\<rparr> | None \<Rightarrow> sp)"

fun spec_aq_op :: "nat \<Rightarrow> aq_op \<Rightarrow> obs \<Rightarrow> spec \<Rightarrow> spec" where
  "spec_aq_op p (Connect uq) ob sp = sp\<lparr>sp_trans := sp_trans sp @ [None], sp_live := sp_live sp @ [True]\<rparr>"
| "spec_aq_op p Leave ob sp =
     (let live = (sp_live sp)[p := False] in
      set_trans p None (sp\<lparr>sp_live := live, sp_keys := (if True \<in> set live then sp_keys sp else Map.empty)\<rparr>))"
| "spec_aq_op p Cancel ob sp = set_trans p None sp"
| "spec_aq_op p (Start buf key) ob sp =
     (if sp_trans sp ! p \<noteq> None then sp
      else let sp = spec_bind (trim_key key) (snd ob) sp in
           if le_value (fst ob) = QUEUE_OK then set_trans p (Some (the (sp_keys sp (trim_key key)), [])) sp else sp)"
| "spec_aq_op p (Put key i bs) ob sp = spec_put p key [(i, bs)] ob sp"
| "spec_aq_op p (Put_batch key ms) ob sp = spec_put p key ms ob sp"
| "spec_aq_op p (Finish rollback) ob sp =
     (case sp_trans sp ! p of
        None \<Rightarrow> sp
      | Some (h, pending) \<Rightarrow>
          set_trans p None (if \<not> rollback \<and> le_value (fst ob) = QUEUE_OK
            then sp\<lparr>sp_log := (sp_log sp)(h := sp_log sp h @ pending)\<rparr> else sp))"
| "spec_aq_op p (Close_queue key permanent) ob sp =
     set_trans p None (if le_value (fst ob) = QUEUE_OK then sp\<lparr>sp_keys := (sp_keys sp)(trim_key key := None)\<rparr> else sp)"
| "spec_aq_op p (Flush_queue key option) ob sp = sp"
| "spec_aq_op p (Fetch key timeout) ob sp = spec_bind (trim_key key) (snd ob) sp"
| "spec_aq_op p Keys ob sp = sp"
| "spec_aq_op p Batch_size ob sp = sp"

fun spec_aq :: "(nat \<times> aq_op) list \<Rightarrow> obs list \<Rightarrow> spec \<Rightarrow> spec" where
  "spec_aq ((p, op) # ops) (ob # obs) sp = spec_aq ops obs (spec_aq_op p op ob sp)"
| "spec_aq _ _ sp = sp"

text \<open>What the clients have to keep to: connected peers, keys that are not empty, a gigabyte at most.\<close>

definition sane_buffer :: "uqueue \<Rightarrow> bool" where
  "sane_buffer q \<longleftrightarrow> uq_inv q \<and> m_nBlockSize q \<le> 1048576"

fun pending :: "(nat \<times> message list) option \<Rightarrow> message list" where
  "pending None = []"
| "pending (Some (h, ms)) = ms"

fun op_key :: "aq_op \<Rightarrow> key option" where
  "op_key (Start buf key) = Some key"
| "op_key (Put key i bs) = Some key"
| "op_key (Put_batch key ms) = Some key"
| "op_key (Close_queue key permanent) = Some key"
| "op_key (Flush_queue key option) = Some key"
| "op_key (Fetch key timeout) = Some key"
| "op_key _ = None"

fun op_messages :: "aq_op \<Rightarrow> message list" where
  "op_messages (Put key i bs) = [(i, bs)]"
| "op_messages (Put_batch key ms) = ms"
| "op_messages _ = []"

fun op_fits :: "nat \<Rightarrow> aq_op \<Rightarrow> spec \<Rightarrow> bool" where
  "op_fits p (Connect uq) sp \<longleftrightarrow> sane_buffer uq \<and> length (sp_live sp) < max32"
| "op_fits p op sp \<longleftrightarrow> p < length (sp_live sp) \<and> sp_live sp ! p \<and> sane_buffer (op_buffer op) \<and>
     content (op_buffer op) = [] \<and> op_key op \<noteq> Some [] \<and> length (snd (op_request op)) \<le> 1000000000 \<and>
     short_messages (pending (sp_trans sp ! p) @ op_messages op)"

fun ops_fit ::
  "'w core \<Rightarrow> tagOperationSystem \<Rightarrow> bool \<Rightarrow> (nat \<times> aq_op) list \<Rightarrow> 'w aq_server \<Rightarrow> spec \<Rightarrow> bool"
where
  "ops_fit K os endian [] s sp \<longleftrightarrow> True"
| "ops_fit K os endian ((p, op) # ops) s sp \<longleftrightarrow> op_fits p op sp \<and>
     (case run_aq_op K os endian s (p, op) of
        Inl _ \<Rightarrow> True | Inr (ob, s') \<Rightarrow> ops_fit K os endian ops s' (spec_aq_op p op ob sp))"

section \<open>The server implements the specification\<close>

definition peer_rel :: "nat list \<Rightarrow> peer \<Rightarrow> (nat \<times> message list) option \<Rightarrow> bool" where
  "peer_rel objs pr t \<longleftrightarrow> sane_buffer (m_UQueue pr) \<and>
     (case t of
        None \<Rightarrow> m_bufferBatch pr = None \<and> m_qTrans pr = None
      | Some (h, ms) \<Rightarrow> \<exists>b q. m_bufferBatch pr = Some b \<and> m_qTrans pr = Some q \<and> q < length objs \<and> objs ! q = h \<and>
          sane_buffer b \<and> content b = frames ms \<and> p_count pr = length ms \<and> short_messages ms)"

text \<open>The object of an open transaction stays registered.\<close>

definition registered :: "'w aq_server \<Rightarrow> bool" where
  "registered s \<longleftrightarrow> (\<forall>pr\<in>set (m_peers s). \<forall>q. m_qTrans pr = Some q \<longrightarrow> q \<in> snd ` set (m_mapKeyQueue s))"

definition keys_ok :: "'w aq_server \<Rightarrow> bool" where
  "keys_ok s \<longleftrightarrow> distinct (map fst (m_mapKeyQueue s)) \<and> (\<forall>q \<in> snd ` set (m_mapKeyQueue s). q < length (m_objects s))"

definition handle_of :: "'w aq_server \<Rightarrow> key \<Rightarrow> nat option" where
  "handle_of s key = map_option ((!) (m_objects s)) (map_of (m_mapKeyQueue s) key)"

definition aq_rel :: "('w \<Rightarrow> nat \<Rightarrow> message list) \<Rightarrow> 'w aq_server \<Rightarrow> spec \<Rightarrow> bool" where
  "aq_rel log s sp \<longleftrightarrow>
     length (sp_trans sp) = length (m_peers s) \<and> length (sp_live sp) = length (m_peers s) \<and>
     (\<forall>p < length (m_peers s). peer_rel (m_objects s) (m_peers s ! p) (sp_trans sp ! p) \<and>
        (\<not> sp_live sp ! p \<longrightarrow> sp_trans sp ! p = None)) \<and>
     m_clients s = length (filter id (sp_live sp)) \<and> m_clients s \<le> max32 \<and>
     keys_ok s \<and> registered s \<and> sp_keys sp = handle_of s \<and> sp_log sp = log (m_world s)"

lemma aq_relD:
  assumes "aq_rel log s sp" "p < length (m_peers s)"
  shows "peer_rel (m_objects s) (m_peers s ! p) (sp_trans sp ! p)" "p < length (sp_trans sp)" "p < length (sp_live sp)"
  using assms by (auto simp: aq_rel_def)

lemma peer_relD:
  assumes "peer_rel objs pr t"
  shows "sane_buffer (m_UQueue pr)" "m_qTrans pr = None \<longleftrightarrow> t = None" "m_bufferBatch pr = None \<longleftrightarrow> t = None"
  using assms by (auto simp: peer_rel_def split: option.splits)

lemma aq_rel_world: "aq_rel log s sp \<Longrightarrow> aq_rel log (s\<lparr>m_world := w\<rparr>) (sp\<lparr>sp_log := log w\<rparr>)"
  by (auto simp: aq_rel_def keys_ok_def registered_def handle_of_def)

lemma aq_rel_world_same: "aq_rel log s sp \<Longrightarrow> log w = log (m_world s) \<Longrightarrow> aq_rel log (s\<lparr>m_world := w\<rparr>) sp"
  using aq_rel_world [of log s sp w] by (auto simp: aq_rel_def)

lemma upd_peer_fields [simp]:
  "m_objects (upd_peer p f s) = m_objects s" "m_mapKeyQueue (upd_peer p f s) = m_mapKeyQueue s"
  "m_world (upd_peer p f s) = m_world s" "length (m_peers (upd_peer p f s)) = length (m_peers s)"
  "m_clients (upd_peer p f s) = m_clients s" "m_nBatchSize (upd_peer p f s) = m_nBatchSize s"
  "m_bNoAuto (upd_peer p f s) = m_bNoAuto s"
  "p < length (m_peers s) \<Longrightarrow> m_peers (upd_peer p f s) ! p = f (m_peers s ! p)"
  by (simp_all add: upd_peer_def)

lemma set_UQueue_fields [simp]:
  "m_objects (set_UQueue p uq s) = m_objects s" "m_mapKeyQueue (set_UQueue p uq s) = m_mapKeyQueue s"
  "m_world (set_UQueue p uq s) = m_world s" "length (m_peers (set_UQueue p uq s)) = length (m_peers s)"
  "p < length (m_peers s) \<Longrightarrow> m_UQueue (m_peers (set_UQueue p uq s) ! p) = uq"
  "p < length (m_peers s) \<Longrightarrow> m_qTrans (m_peers (set_UQueue p uq s) ! p) = m_qTrans (m_peers s ! p)"
  "p < length (m_peers s) \<Longrightarrow> m_bufferBatch (m_peers (set_UQueue p uq s) ! p) = m_bufferBatch (m_peers s ! p)"
  "p < length (m_peers s) \<Longrightarrow> p_count (m_peers (set_UQueue p uq s) ! p) = p_count (m_peers s ! p)"
  by (simp_all add: set_UQueue_def)

lemma aq_rel_upd_peer:
  assumes "aq_rel log s sp" "p < length (m_peers s)"
    and "peer_rel (m_objects s) (f (m_peers s ! p)) t" "\<not> sp_live sp ! p \<longrightarrow> t = None"
    and "\<And>q. m_qTrans (f (m_peers s ! p)) = Some q \<Longrightarrow> q \<in> snd ` set (m_mapKeyQueue s)"
  shows "aq_rel log (upd_peer p f s) (set_trans p t sp)"
proof -
  have "registered (upd_peer p f s)"
    unfolding registered_def
  proof (intro ballI allI impI)
    fix pr q assume "pr \<in> set (m_peers (upd_peer p f s))" and q: "m_qTrans pr = Some q"
    then have "pr = f (m_peers s ! p) \<or> pr \<in> set (m_peers s)"
      using set_update_subset_insert [of "m_peers s" p "f (m_peers s ! p)"] by (auto simp: upd_peer_def)
    with q assms(1,5) show "q \<in> snd ` set (m_mapKeyQueue (upd_peer p f s))"
      by (auto simp: aq_rel_def registered_def)
  qed
  then show ?thesis
    using assms(1-4) by (auto simp: aq_rel_def set_trans_def upd_peer_def keys_ok_def handle_of_def nth_list_update)
qed

lemma set_trans_same [simp]: "set_trans p (sp_trans sp ! p) sp = sp"
  by (cases "p < length (sp_trans sp)") (simp_all add: set_trans_def)

lemma aq_rel_registered:
  assumes "aq_rel log s sp" "p < length (m_peers s)" "m_qTrans (m_peers s ! p) = Some q"
  shows "q \<in> snd ` set (m_mapKeyQueue s)" "q < length (m_objects s)"
proof -
  show a: "q \<in> snd ` set (m_mapKeyQueue s)"
    using assms nth_mem [OF assms(2)] by (auto simp: aq_rel_def registered_def)
  then show "q < length (m_objects s)"
    using assms(1) by (auto simp: aq_rel_def keys_ok_def)
qed

lemma aq_rel_set_UQueue:
  assumes "aq_rel log s sp" "p < length (m_peers s)" "sane_buffer uq"
  shows "aq_rel log (set_UQueue p uq s) sp"
proof -
  have "\<not> sp_live sp ! p \<longrightarrow> sp_trans sp ! p = None" using assms(1,2) by (auto simp: aq_rel_def)
  moreover have "peer_rel (m_objects s) ((m_peers s ! p)\<lparr>m_UQueue := uq\<rparr>) (sp_trans sp ! p)"
    using aq_relD(1) [OF assms(1,2)] assms(3) by (auto simp: peer_rel_def split: option.splits)
  ultimately have "aq_rel log (set_UQueue p uq s) (set_trans p (sp_trans sp ! p) sp)"
    unfolding set_UQueue_def using aq_rel_registered(1) [OF assms(1,2)] assms(1,2)
    by (intro aq_rel_upd_peer) auto
  then show ?thesis by simp
qed

lemma aq_rel_drop_trans:
  assumes "aq_rel log s sp" "p < length (m_peers s)"
  shows "aq_rel log (upd_peer p drop_trans s) (set_trans p None sp)"
  by (rule aq_rel_upd_peer [OF assms])
    (use aq_relD(1) [OF assms] in \<open>simp_all add: peer_rel_def drop_trans_def\<close>)

text \<open>Opening a queue.\<close>

lemma sane_bufferD:
  assumes "sane_buffer q" "n + length (content q) \<le> 2000000000"
  shows "uq_inv q" "room q n"
  using assms uq_invD(1) [of q] by (auto simp: sane_buffer_def room_def max32_def)

lemma sane_buffer_settings: "sane_buffer q \<Longrightarrow> uq_inv q' \<Longrightarrow> same_settings q q' \<Longrightarrow> sane_buffer q'"
  by (simp add: sane_buffer_def same_settings_def)

lemma peer_rel_objects: "peer_rel objs pr t \<Longrightarrow> peer_rel (objs @ [h]) pr t"
  by (auto simp: peer_rel_def nth_append split: option.splits)

lemma find_or_open_ok:
  assumes K: "core_ok K log saved" and r: "aq_rel log s sp" and k: "key \<noteq> []"
  shows "\<exists>q s'. find_or_open K key s = Inr (q, s') \<and> m_peers s' = m_peers s \<and>
    aq_rel log s' (spec_bind (trim_key key) (opened s s') sp) \<and>
    map_option ((!) (m_objects s')) q = sp_keys (spec_bind (trim_key key) (opened s s') sp) (trim_key key) \<and>
    (\<forall>i. q = Some i \<longrightarrow> i \<in> snd ` set (m_mapKeyQueue s') \<and> i < length (m_objects s'))"
proof (cases "map_of (m_mapKeyQueue s) (trim_key key)")
  case (Some i)
  then have "i \<in> snd ` set (m_mapKeyQueue s)" by (force dest: map_of_SomeD)
  moreover from this have "i < length (m_objects s)" using r by (auto simp: aq_rel_def keys_ok_def)
  moreover have "sp_keys sp (trim_key key) = Some (m_objects s ! i)"
    using r Some by (simp add: aq_rel_def handle_of_def)
  ultimately show ?thesis
    using Some k r by (simp add: find_or_open_def Find_def Pretreat_def spec_bind_def opened_def)
next
  case None
  obtain h w where o: "core_StartQueue K (m_world s) (trim_key key) True m_ttl = (h, w)" by fastforce
  have log: "log w = log (m_world s)"
    using core_okD(1) [OF K, of "m_world s" "trim_key key" True m_ttl] o by simp
  have none: "sp_keys sp (trim_key key) = None"
    using r None by (simp add: aq_rel_def handle_of_def)
  have f: "find_or_open K key s = Inr (open_queue K (trim_key key) s)"
    using None k by (simp add: find_or_open_def Find_def Pretreat_def)
  show ?thesis
  proof (cases "MyQueue_GetHandle K w h = 0")
    case True
    then have op: "open_queue K (trim_key key) s = (None, s\<lparr>m_world := w\<rparr>)"
      by (simp add: open_queue_def o)
    show ?thesis
      unfolding f op using aq_rel_world_same [OF r log] none by (simp add: spec_bind_def opened_def)
  next
    case False
    let ?s = "s\<lparr>m_world := w, m_objects := m_objects s @ [h],
        m_mapKeyQueue := AList.update (trim_key key) (length (m_objects s)) (m_mapKeyQueue s)\<rparr>"
    have op: "open_queue K (trim_key key) s = (Some (length (m_objects s)), ?s)"
      using False by (simp add: open_queue_def o)
    have img: "snd ` set (AList.update (trim_key key) i (m_mapKeyQueue s)) = insert i (snd ` set (m_mapKeyQueue s))" for i
      using None
    proof (induction "m_mapKeyQueue s" arbitrary: s)
      case (Cons a l)
      then show ?case
        using Cons(1) [of "s\<lparr>m_mapKeyQueue := l\<rparr>"] Cons(2) [symmetric] by (cases a) (auto split: if_splits)
    qed simp
    have ko: "keys_ok s" using r by (simp add: aq_rel_def)
    have "handle_of ?s = (handle_of s)(trim_key key \<mapsto> h)"
    proof
      fix k'
      have "map_of (m_mapKeyQueue s) k' = Some i \<Longrightarrow> i < length (m_objects s)" for i
        using ko by (force simp: keys_ok_def dest: map_of_SomeD)
      then show "handle_of ?s k' = ((handle_of s)(trim_key key \<mapsto> h)) k'"
        by (cases "map_of (m_mapKeyQueue s) k'") (auto simp: handle_of_def update_conv' nth_append)
    qed
    moreover have "keys_ok ?s"
      using ko distinct_update [of "m_mapKeyQueue s"] by (auto simp: keys_ok_def img)
    moreover have "registered ?s"
      using r by (auto simp: registered_def img aq_rel_def)
    moreover have "spec_bind (trim_key key) (opened s ?s) sp = sp\<lparr>sp_keys := (sp_keys sp)(trim_key key \<mapsto> h)\<rparr>"
      using none by (simp add: spec_bind_def opened_def)
    ultimately show ?thesis
      unfolding f op using r log by (auto simp: aq_rel_def img intro: peer_rel_objects)
  qed
qed

text \<open>Receiving a request.\<close>

lemma fill_UQueue_ok:
  assumes "sane_buffer mc" "length bs \<le> 1000000000"
  shows "\<exists>uq. fill_UQueue os endian bs mc = Inr uq \<and> sane_buffer uq \<and> content uq = bs"
proof -
  obtain q1 where q1: "SetSize mc 0 True = Inr q1" "sane_buffer q1" "content q1 = []"
    using SetSize_ok [of mc 0 True] sane_buffer_settings [OF assms(1)] assms(1) by (auto simp: sane_buffer_def)
  let ?q = "SetEndian (q1\<lparr>m_os := os\<rparr>) endian"
  have q: "sane_buffer ?q" "content ?q = []"
    using q1(2,3) by (auto simp: sane_buffer_def SetEndian_def uq_inv_def content_def)
  have "\<exists>q2. (if length bs > m_nMaxBuffer ?q then ReallocBuffer ?q (add32 (length bs) 16) else Inr ?q) = Inr q2 \<and>
      sane_buffer q2 \<and> content q2 = []"
  proof (cases "length bs > m_nMaxBuffer ?q")
    case True
    then show ?thesis
      using ReallocBuffer_ok [of ?q "add32 (length bs) 16"] sane_buffer_settings [OF q(1)] q
      by (auto simp: sane_buffer_def)
  next
    case False
    with q show ?thesis by auto
  qed
  then obtain q2 where q2: "(if length bs > m_nMaxBuffer ?q then ReallocBuffer ?q (add32 (length bs) 16) else Inr ?q) = Inr q2"
    "sane_buffer q2" "content q2 = []" by blast
  show ?thesis
  proof (cases "bs = []")
    case True
    with q1 q2 show ?thesis by (simp add: fill_UQueue_def Let_def)
  next
    case False
    have "uq_inv q2" "room q2 (length bs)" using sane_bufferD [OF q2(2), of "length bs"] q2(3) assms(2) by auto
    from Push_ok [OF this] obtain q3 where "Push q2 (Some (map Some bs)) = Inr q3" "uq_inv q3"
      "same_settings q2 q3" "content q3 = bs" using q2(3) by auto
    with False q1 q2 show ?thesis
      using sane_buffer_settings [OF q2(2)] by (simp add: fill_UQueue_def Let_def)
  qed
qed

lemma id_values:
  "idEnqueue = 0x2002" "idDequeue = 0x2003" "idStartTrans = 0x2004" "idEndTrans = 0x2005" "idFlush = 0x2006"
  "idClose = 0x2007" "idGetKeys = 0x2008" "idEnqueueBatch = 0x2009" "idBatchSizeNotified = 0x2015"
  by (simp_all add: request_ids)

lemma slow_ids:
  "GetOneSlowRequestID ` {..<GetNumOfSlowRequests} = {idDequeue, idEnqueue, idFlush, idClose, idEndTrans, idEnqueueBatch}"
proof -
  have "{..<6 :: nat} = {0, 1, 2, 3, 4, 5}" by auto
  then show ?thesis by (auto simp: GetOneSlowRequestID_def GetNumOfSlowRequests_def)
qed

lemma read_at_ok:
  assumes "uq_inv uq" "content uq = pre @ bs @ rest"
  shows "read_at uq (length pre) (length bs) = Inr (le_value bs)"
proof -
  have "holds (m_pBuffer uq) (m_nHeadPos uq + length pre) bs"
    using uq_invD(8) [OF assms(1)] assms(2) by (simp add: holds_append)
  moreover have "length pre \<le> m_nSize uq"
    using uq_invD(1) [OF assms(1)] assms(2) by simp
  ultimately show ?thesis
    by (simp add: read_at_def GetBuffer_def holds_read add.commute)
qed

text \<open>Which handler gets the request in the end, whatever thread it runs on.\<close>

definition main_handler :: "'w core \<Rightarrow> uqueue \<Rightarrow> 16 word \<Rightarrow> nat \<Rightarrow> 'w aq_server \<Rightarrow> fault + (byte list option \<times> 'w aq_server)" where
  "main_handler K buf reqId p s =
     (if reqId \<in> GetOneSlowRequestID ` {..<GetNumOfSlowRequests}
      then OnSlowRequestArrive K reqId p s else OnFastRequestArrive K buf reqId p s)"

lemma OnRequestArrive_cases:
  assumes "OnRequestArrive K reqId len p s = Inr (r, s')"
  shows "(r = None \<and> s' = s) \<or>
    (r \<noteq> None \<and> reqId \<in> {idEnqueue, idFlush, idEndTrans, idEnqueueBatch} \<and> OnSlowRequestArrive K reqId p s = Inr (r, s'))"
proof -
  consider "reqId = idEnqueue" | "reqId = idFlush" | "reqId = idEndTrans" | "reqId = idEnqueueBatch"
    | "reqId \<notin> {idEnqueue, idFlush, idEndTrans, idEnqueueBatch}" by blast
  then show ?thesis
  proof cases
    case 5
    then show ?thesis using assms by (simp add: OnRequestArrive_def Let_def)
  qed (use assms in \<open>auto simp: OnRequestArrive_def OnSlowRequestArrive_def Let_def bindr_Inr_iff handled_def id_values
      split: if_splits\<close>)
qed

lemma OnRequestArrive_either:
  assumes "reqId \<notin> {idFlush, idEndTrans}"
  shows "OnRequestArrive K reqId len p s = Inr (None, s) \<or>
    (\<exists>r. reqId \<in> {idEnqueue, idEnqueueBatch} \<and> OnRequestArrive K reqId len p s = handled r \<and>
       OnSlowRequestArrive K reqId p s = handled r)"
proof -
  consider "reqId = idEnqueue" | "reqId = idEnqueueBatch" | "reqId \<notin> {idEnqueue, idEnqueueBatch}" by blast
  then show ?thesis
  proof cases
    case 3
    then show ?thesis using assms by (simp add: OnRequestArrive_def Let_def)
  qed (auto simp: OnRequestArrive_def OnSlowRequestArrive_def Let_def id_values)
qed

lemma handled_bind [simp]:
  "bindr (handled r) (\<lambda>(r, s). case r of Some b \<Rightarrow> Inr (Some b, s) | None \<Rightarrow> f s) = handled r"
  by (cases r) (auto simp: handled_def split: prod.splits)

lemma serve_is_handler:
  assumes "fill_UQueue os endian bs (m_UQueue (m_peers s ! p)) = Inr uq"
    and "reqId \<notin> {idFlush, idEndTrans}"
  shows "serve K buf os endian reqId bs p s = main_handler K buf reqId p (set_UQueue p uq s)"
proof -
  let ?s = "set_UQueue p uq s"
  from OnRequestArrive_either [OF assms(2), of K "length bs" p ?s] show ?thesis
  proof
    assume "OnRequestArrive K reqId (length bs) p ?s = Inr (None, ?s)"
    then show ?thesis using assms(1) by (simp add: serve_def OnReqArrive_def main_handler_def)
  next
    assume "\<exists>r. reqId \<in> {idEnqueue, idEnqueueBatch} \<and> OnRequestArrive K reqId (length bs) p ?s = handled r \<and>
       OnSlowRequestArrive K reqId p ?s = handled r"
    then show ?thesis using assms(1) by (auto simp: serve_def OnReqArrive_def main_handler_def slow_ids)
  qed
qed

text \<open>The transaction buffer, and the queue file.\<close>

lemma push_queue_ok:
  assumes "sane_buffer b" "uq_inv uq" "length (content b) + length (content uq) \<le> 2000000000"
  shows "\<exists>b'. push_queue b uq = Inr b' \<and> sane_buffer b' \<and> content b' = content b @ content uq"
proof -
  have "mem_read (m_pBuffer uq) (GetBuffer uq 0) (m_nSize uq) = Inr (map Some (content uq))"
    using take_front_ok(1) [OF assms(2), of "content uq" "[]"] uq_invD(1) [OF assms(2)] by simp
  moreover have "uq_inv b" "room b (length (content uq))"
    using sane_bufferD [OF assms(1), of "length (content uq)"] assms(3) by auto
  ultimately show ?thesis
    using Push_ok [of b "content uq"] sane_buffer_settings [OF assms(1)] by (auto simp: push_queue_def)
qed

lemma put_pod_sane:
  assumes "sane_buffer b" "length (content b) + n \<le> 2000000000"
  shows "\<exists>b'. put_pod n b v = Inr b' \<and> sane_buffer b' \<and> content b' = content b @ le_bytes n v"
proof -
  have "uq_inv b" "room b n" using sane_bufferD [OF assms(1), of n] assms(2) by auto
  from put_pod_ok [OF this, of v] show ?thesis
    using sane_buffer_settings [OF assms(1)] by auto
qed

lemma read_front_ok:
  assumes "uq_inv uq" "content uq = bs @ rest"
  shows "read_front uq (length bs) = Inr bs"
  using take_front_ok(1) [OF assms] by (simp add: read_front_def)

lemma buffer_front:
  assumes "uq_inv uq"
  shows "\<exists>rest. drop (GetBuffer uq 0) (m_pBuffer uq) = map Some (content uq) @ rest"
proof -
  have "take (m_nSize uq) (drop (m_nHeadPos uq) (m_pBuffer uq)) = map Some (content uq)"
    using uq_invD(1,8) [OF assms] by (simp add: holds_def)
  then have "drop (GetBuffer uq 0) (m_pBuffer uq) =
      map Some (content uq) @ drop (m_nSize uq) (drop (m_nHeadPos uq) (m_pBuffer uq))"
    by (subst append_take_drop_id [symmetric, of _ "m_nSize uq"]) (simp add: GetBuffer_def)
  then show ?thesis by blast
qed

lemma add32_count: "short_messages (ms @ ns) \<Longrightarrow> add32 (length ms) (length ns) = length ms + length ns"
proof -
  have "length ms \<le> length (frames ms)" for ms by (induction ms) simp_all
  from this [of "ms @ ns"] show "short_messages (ms @ ns) \<Longrightarrow> ?thesis"
    by (simp add: short_messages_def add32_def)
qed

lemma upd_peer_upd_peer: "upd_peer p g (upd_peer p f s) = upd_peer p (g \<circ> f) s"
  by (cases "p < length (m_peers s)") (simp_all add: upd_peer_def not_less list_update_beyond)

lemma opened_cong: "m_objects a = m_objects b \<Longrightarrow> opened s a = opened s b"
  by (simp add: opened_def)

lemma opened_same [simp]: "m_objects a = m_objects s \<Longrightarrow> opened s a = None"
  by (simp add: opened_def)

lemma le_value_index: "i \<le> INVALID_NUMBER \<Longrightarrow> le_value (le_bytes 8 i) = i"
  by (rule le_value_le_bytes) (simp add: INVALID_NUMBER_def)

lemma enqueue_into_ok:
  assumes U: "m_UQueue (m_peers s ! p) = uq" and K: "core_ok K log saved" and r: "aq_rel log s sp" and p: "p < length (m_peers s)" and k: "key \<noteq> []"
    and ms: "short_messages (pending (sp_trans sp ! p) @ ms)" and n: "n = length ms"
    and batch: "\<And>b. sp_trans sp ! p \<noteq> None \<Longrightarrow> sane_buffer b \<Longrightarrow> length (content b) + length (frames ms) \<le> 1000000000 \<Longrightarrow>
        \<exists>b'. batch b uq = Inr b' \<and> sane_buffer b' \<and> content b' = content b @ frames ms"
    and store: "\<And>w h. \<exists>i w'. store w h uq = Inr (i, w') \<and> i \<le> INVALID_NUMBER \<and> log w' = stored i h ms (log w)"
  shows "\<exists>i s'. enqueue_into K p key n batch store s = Inr (i, s') \<and>
    aq_rel log s' (spec_put p key ms (le_bytes 8 i, opened s s') sp)"
proof -
  have uq: "sane_buffer uq" using peer_relD(1) [OF aq_relD(1) [OF r p]] by (simp add: U)
  then obtain uq' where uq': "SetSize uq 0 True = Inr uq'" "sane_buffer uq'"
    using SetSize_ok [of uq 0 True] sane_buffer_settings [OF uq] by (auto simp: sane_buffer_def)
  show ?thesis
  proof (cases "sp_trans sp ! p")
    case None
    let ?b = "\<lambda>s1. spec_bind (trim_key key) (opened s s1) sp"
    obtain q s1 where s1: "find_or_open K key s = Inr (q, s1)" "m_peers s1 = m_peers s"
      "aq_rel log s1 (?b s1)"
      "map_option ((!) (m_objects s1)) q = sp_keys (?b s1) (trim_key key)"
      using find_or_open_ok [OF K r k] by auto
    have tr: "m_qTrans (m_peers s ! p) = None" "m_bufferBatch (m_peers s ! p) = None"
      using peer_relD [OF aq_relD(1) [OF r p]] None by auto
    show ?thesis
    proof (cases q)
      case None': None
      then show ?thesis
        using s1 tr None by (auto simp: enqueue_into_def spec_put_def Let_def)
    next
      case (Some o')
      obtain i w where w: "store (m_world s1) (m_objects s1 ! o') uq = Inr (i, w)" "i \<le> INVALID_NUMBER"
        "log w = stored i (m_objects s1 ! o') ms (log (m_world s1))" using store by blast
      let ?s = "set_UQueue p uq' (s1\<lparr>m_world := w\<rparr>)"
      have "aq_rel log ?s (?b s1\<lparr>sp_log := log w\<rparr>)"
        using aq_rel_set_UQueue [OF aq_rel_world [OF s1(3), of w], of p uq'] p s1(2) uq'(2) by simp
      moreover have "sp_log (?b s1) = log (m_world s1)" using s1(3) by (simp add: aq_rel_def)
      moreover have "opened s ?s = opened s s1" by (rule opened_cong) simp
      ultimately have "aq_rel log ?s (spec_put p key ms (le_bytes 8 i, opened s ?s) sp)"
        using w(2,3) s1(4) [symmetric] Some None by (simp add: spec_put_def Let_def le_value_index)
      moreover have "enqueue_into K p key n batch store s = Inr (i, ?s)"
        using tr s1 Some w uq' by (simp add: enqueue_into_def Let_def U set_UQueue_def)
      ultimately show ?thesis by blast
    qed
  next
    case (Some t)
    obtain h ps where t: "sp_trans sp ! p = Some (h, ps)" using Some by (cases t) auto
    obtain b q where b: "m_bufferBatch (m_peers s ! p) = Some b" "m_qTrans (m_peers s ! p) = Some q"
      "q < length (m_objects s)" "m_objects s ! q = h" "sane_buffer b" "content b = frames ps"
      "p_count (m_peers s ! p) = length ps"
      using aq_relD(1) [OF r p] t by (auto simp: peer_rel_def)
    obtain b' where b': "batch b uq = Inr b'" "sane_buffer b'" "content b' = frames (ps @ ms)"
      using batch [of b] ms t b(5,6) by (auto simp: short_messages_def)
    have m: "add32 (length ps) n = length (ps @ ms)" using add32_count [of ps ms] ms t n by simp
    let ?f = "(\<lambda>pr. pr\<lparr>m_UQueue := uq'\<rparr>) \<circ> (\<lambda>pr. pr\<lparr>m_bufferBatch := Some b', p_count := length (ps @ ms)\<rparr>)"
    let ?s = "upd_peer p ?f s"
    have live: "sp_live sp ! p" using r p t by (auto simp: aq_rel_def)
    have "aq_rel log ?s (set_trans p (Some (h, ps @ ms)) sp)"
    proof (rule aq_rel_upd_peer [OF r p])
      show "peer_rel (m_objects s) (?f (m_peers s ! p)) (Some (h, ps @ ms))"
        using b b' uq' ms t by (simp add: peer_rel_def)
      show "q' \<in> snd ` set (m_mapKeyQueue s)" if "m_qTrans (?f (m_peers s ! p)) = Some q'" for q'
        using that b(2) aq_rel_registered(1) [OF r p] by simp
    qed (use live in simp)
    moreover have "enqueue_into K p key n batch store s = Inr (length (ps @ ms), ?s)"
      using b b' uq' m by (simp add: enqueue_into_def Let_def U upd_peer_upd_peer)
    ultimately show ?thesis using t by (auto simp: spec_put_def)
  qed
qed

text \<open>Reading the arguments.\<close>

lemma get_key_ok:
  assumes "sane_buffer uq" "content uq = lwire key @ rest" "length key \<le> 1000000000"
  shows "\<exists>uq'. get_string uq = Inr (key, uq') \<and> sane_buffer uq' \<and> content uq' = rest"
  using get_string_ok [of uq key rest] assms sane_buffer_settings [OF assms(1)]
  by (auto simp: sane_buffer_def UQUEUE_NULL_LENGTH_def max32_def)

lemma get_num_ok:
  assumes "sane_buffer uq" "content uq = le_bytes n v @ rest" "v < 256 ^ n"
  shows "\<exists>uq'. get_pod n uq = Inr (v, uq') \<and> sane_buffer uq' \<and> content uq' = rest"
  using get_pod_ok [of uq v n rest] assms sane_buffer_settings [OF assms(1)]
  by (auto simp: sane_buffer_def)

lemma opened_base: "m_objects a = m_objects b \<Longrightarrow> opened a c = opened b c"
  by (simp add: opened_def)

lemma aq_rel_UQueue: "aq_rel log s sp \<Longrightarrow> p < length (m_peers s) \<Longrightarrow> sane_buffer (m_UQueue (m_peers s ! p))"
  using aq_relD(1) peer_relD(1) by blast

lemma on_Enqueue_ok:
  assumes K: "core_ok K log saved" and r: "aq_rel log s sp" and p: "p < length (m_peers s)" and k: "key \<noteq> []"
    and c: "content (m_UQueue (m_peers s ! p)) = lwire key @ le_bytes 2 (unat i) @ bs"
    and l: "length key \<le> 1000000000" and ms: "short_messages (pending (sp_trans sp ! p) @ [(i, bs)])"
  shows "\<exists>n s'. on_Enqueue K p s = Inr (le_bytes 8 n, s') \<and> aq_rel log s' (spec_put p key [(i, bs)] (le_bytes 8 n, opened s s') sp)"
proof -
  obtain u1 where u1: "get_string (m_UQueue (m_peers s ! p)) = Inr (key, u1)" "sane_buffer u1"
    "content u1 = le_bytes 2 (unat i) @ bs" using get_key_ok [OF aq_rel_UQueue [OF r p] c l] by blast
  have "unat i < 256 ^ 2" using unsigned_less [of i] by simp
  with get_num_ok [OF u1(2,3)] obtain u2 where u2: "get_pod 2 u1 = Inr (unat i, u2)" "sane_buffer u2" "content u2 = bs"
    by blast
  let ?s = "set_UQueue p u2 s"
  have u2s: "m_nSize u2 = length bs" "uq_inv u2" using u2(2,3) uq_invD(1) [of u2] by (auto simp: sane_buffer_def)
  have tr: "m_qTrans (m_peers ?s ! p) = None \<longleftrightarrow> sp_trans sp ! p = None"
    using peer_relD(2) [OF aq_relD(1) [OF r p]] p by simp
  have "\<exists>n s'. enqueue_into K p key 1
       (\<lambda>b uq. bindr (require (m_qTrans (m_peers ?s ! p) \<noteq> None)) (\<lambda>_.
               bindr (put_pod 2 b (unat i)) (\<lambda>b. bindr (put_pod 4 b (m_nSize uq)) (\<lambda>b. push_queue b uq))))
       (\<lambda>w h uq. MyQueue_Enqueue K w h uq i) ?s = Inr (n, s') \<and>
     aq_rel log s' (spec_put p key [(i, bs)] (le_bytes 8 n, opened ?s s') sp)"
  proof (rule enqueue_into_ok [where uq = u2, OF _ K aq_rel_set_UQueue [OF r p u2(2)] _ k ms])
    fix b assume t: "sp_trans sp ! p \<noteq> None" and b: "sane_buffer b" "length (content b) + length (frames [(i, bs)]) \<le> 1000000000"
    obtain b1 where b1: "put_pod 2 b (unat i) = Inr b1" "sane_buffer b1" "content b1 = content b @ le_bytes 2 (unat i)"
      using put_pod_sane [OF b(1), of 2] b(2) by auto
    obtain b2 where b2: "put_pod 4 b1 (length bs) = Inr b2" "sane_buffer b2" "content b2 = content b1 @ le_bytes 4 (length bs)"
      using put_pod_sane [OF b1(2), of 4] b(2) b1(3) by auto
    obtain b3 where "push_queue b2 u2 = Inr b3" "sane_buffer b3" "content b3 = content b2 @ content u2"
      using push_queue_ok [OF b2(2) u2s(2)] b(2) b1(3) b2(3) u2(3) by auto
    with b1 b2 t u2s u2(3) tr show "\<exists>b'. bindr (require (m_qTrans (m_peers ?s ! p) \<noteq> None)) (\<lambda>_.
        bindr (put_pod 2 b (unat i)) (\<lambda>b. bindr (put_pod 4 b (m_nSize u2)) (\<lambda>b. push_queue b u2))) = Inr b' \<and>
        sane_buffer b' \<and> content b' = content b @ frames [(i, bs)]"
      by (simp add: frame_def)
  next
    fix w h
    have "read_front u2 (m_nSize u2) = Inr bs" using read_front_ok [OF u2s(2), of bs "[]"] u2(3) u2s(1) by simp
    moreover obtain n w' where "core_Enqueue K w h i bs = (n, w')" by fastforce
    ultimately show "\<exists>n w'. MyQueue_Enqueue K w h u2 i = Inr (n, w') \<and> n \<le> INVALID_NUMBER \<and> log w' = stored n h [(i, bs)] (log w)"
      using core_okD(2) [OF K, of w h i bs n w'] by (simp add: MyQueue_Enqueue_def)
  qed (use p in simp_all)
  moreover have "opened ?s s' = opened s s'" for s' by (rule opened_base) simp
  ultimately show ?thesis using u1(1) u2(1) by (auto simp: on_Enqueue_def Enqueue_def)
qed

lemma on_EnqueueBatch_ok:
  assumes K: "core_ok K log saved" and r: "aq_rel log s sp" and p: "p < length (m_peers s)" and k: "key \<noteq> []"
    and c: "content (m_UQueue (m_peers s ! p)) = lwire key @ le_bytes 4 (length ms) @ frames ms"
    and l: "length key \<le> 1000000000" and ms: "short_messages (pending (sp_trans sp ! p) @ ms)"
  shows "\<exists>n s'. on_EnqueueBatch K p s = Inr (le_bytes 8 n, s') \<and> aq_rel log s' (spec_put p key ms (le_bytes 8 n, opened s s') sp)"
proof -
  obtain u1 where u1: "get_string (m_UQueue (m_peers s ! p)) = Inr (key, u1)" "sane_buffer u1"
    "content u1 = le_bytes 4 (length ms) @ frames ms" using get_key_ok [OF aq_rel_UQueue [OF r p] c l] by blast
  have sm: "short_messages ms" using ms by (simp add: short_messages_def)
  have "length ms \<le> length (frames ms)" by (induction ms) simp_all
  then have "length ms < 256 ^ 4" using sm by (simp add: short_messages_def)
  with get_num_ok [OF u1(2,3)] obtain u2 where u2: "get_pod 4 u1 = Inr (length ms, u2)" "sane_buffer u2" "content u2 = frames ms"
    by blast
  have u2i: "uq_inv u2" using u2(2) by (simp add: sane_buffer_def)
  obtain rest where rest: "drop (GetBuffer u2 0) (m_pBuffer u2) = map Some (frames ms) @ rest"
    using buffer_front [OF u2i] u2(3) by auto
  let ?s = "set_UQueue p u2 s"
  have "\<exists>n s'. enqueue_into K p key (length ms) push_queue
       (\<lambda>w h uq. MyQueue_Enqueue_count K w h (length ms) uq) ?s = Inr (n, s') \<and>
     aq_rel log s' (spec_put p key ms (le_bytes 8 n, opened ?s s') sp)"
  proof (rule enqueue_into_ok [where uq = u2, OF _ K aq_rel_set_UQueue [OF r p u2(2)] _ k ms])
    fix b assume "sane_buffer b" "length (content b) + length (frames ms) \<le> 1000000000"
    then show "\<exists>b'. push_queue b u2 = Inr b' \<and> sane_buffer b' \<and> content b' = content b @ frames ms"
      using push_queue_ok [OF _ u2i] u2(3) by simp
  next
    fix w h
    show "\<exists>n w'. MyQueue_Enqueue_count K w h (length ms) u2 = Inr (n, w') \<and> n \<le> INVALID_NUMBER \<and> log w' = stored n h ms (log w)"
      using core_okD(3) [OF K sm, of w h rest] rest by (auto simp: MyQueue_Enqueue_count_def)
  qed (use p in simp_all)
  moreover have "opened ?s s' = opened s s'" for s' by (rule opened_base) simp
  ultimately show ?thesis using u1(1) u2(1) by (auto simp: on_EnqueueBatch_def EnqueueBatch_def)
qed

text \<open>Committing.\<close>

lemma MyQueue_BatchEnqueue_ok:
  assumes K: "core_ok K log saved" and b: "sane_buffer b" "content b = frames ms" and ms: "short_messages ms"
  shows "\<exists>e w'. MyQueue_BatchEnqueue K w h (length ms) b = Inr (e, w') \<and> e < 256 ^ 4 \<and>
    log w' = (if e = QUEUE_OK then (log w)(h := log w h @ ms) else log w)"
proof (cases "length ms \<le> 1")
  case True
  have uq: "uq_inv b" using b(1) by (simp add: sane_buffer_def)
  consider "ms = []" | i bs where "ms = [(i, bs)]"
    using True by (cases ms; cases "tl ms") auto
  then show ?thesis
  proof cases
    case 1
    then show ?thesis by (simp add: MyQueue_BatchEnqueue_def queue_codes)
  next
    case 2
    have c: "content b = le_bytes 2 (unat i) @ le_bytes 4 (length bs) @ bs" using b(2) 2 by (simp add: frame_def)
    have sz: "m_nSize b \<noteq> 0" using uq_invD(1) [OF uq] c by auto
    have "unat i < 256 ^ 2" using unsigned_less [of i] by simp
    with get_num_ok [OF b(1) c] obtain b1 where b1: "get_pod 2 b = Inr (unat i, b1)" "sane_buffer b1"
      "content b1 = le_bytes 4 (length bs) @ bs" by blast
    have "length bs < 256 ^ 4" using ms 2 by (simp add: short_messages_def)
    with get_num_ok [OF b1(2,3)] obtain b2 where b2: "get_pod 4 b1 = Inr (length bs, b2)" "sane_buffer b2" "content b2 = bs"
      by blast
    have "read_front b2 (length bs) = Inr bs"
      using read_front_ok [of b2 bs "[]"] b2(2,3) by (simp add: sane_buffer_def)
    moreover obtain n w' where "core_Enqueue K w h i bs = (n, w')" by fastforce
    ultimately show ?thesis
      using core_okD(2) [OF K, of w h i bs n w'] b1(1) b2(1) 2 sz
      by (simp add: MyQueue_BatchEnqueue_def stored_def queue_codes)
  qed
next
  case False
  then have n: "length ms \<noteq> 0" "length ms \<noteq> 1" by auto
  have uq: "uq_inv b" using b(1) by (simp add: sane_buffer_def)
  have sz: "m_nSize b \<noteq> 0" using uq_invD(1) [OF uq] b(2) n by (cases ms) auto
  obtain ok w1 where w1: "core_StartJob K w h = (ok, w1)" by fastforce
  note j = core_okD(4) [OF K w1]
  show ?thesis
  proof (cases ok)
    case False
    then show ?thesis using j n sz w1 by (simp add: MyQueue_BatchEnqueue_def queue_codes)
  next
    case True
    obtain rest where "drop (GetBuffer b 0) (m_pBuffer b) = map Some (frames ms) @ rest"
      using buffer_front [OF uq] b(2) by auto
    then obtain m w2 where w2: "MyQueue_Enqueue_count K w1 h (length ms) b = Inr (m, w2)"
      "log w2 = stored m h ms (log w1)" "saved w2 = saved w1"
      using core_okD(3) [OF K ms, of w1 h rest] by (auto simp: MyQueue_Enqueue_count_def)
    show ?thesis
    proof (cases "m = INVALID_NUMBER")
      case True
      then show ?thesis
        using \<open>ok\<close> j n sz w1 w2 core_okD(6) [OF K, of w2 h]
        by (simp add: MyQueue_BatchEnqueue_def stored_def queue_codes)
    next
      case False
      obtain ok' w3 where "core_EndJob K w2 h = (ok', w3)" by fastforce
      with core_okD(5) [OF K this] False show ?thesis
        using \<open>ok\<close> j n sz w1 w2 by (simp add: MyQueue_BatchEnqueue_def stored_def queue_codes)
    qed
  qed
qed

lemma set_trans_log: "set_trans p t (sp\<lparr>sp_log := L\<rparr>) = (set_trans p t sp)\<lparr>sp_log := L\<rparr>"
  by (simp add: set_trans_def)

lemma on_EndTrans_ok:
  assumes K: "core_ok K log saved" and r: "aq_rel log s sp" and p: "p < length (m_peers s)"
    and c: "content (m_UQueue (m_peers s ! p)) = le_bytes 1 (if rollback then 1 else 0)"
  shows "\<exists>e s'. on_EndTrans K p s = Inr (le_bytes 4 e, s') \<and> aq_rel log s' (spec_aq_op p (Finish rollback) (le_bytes 4 e, opened s s') sp)"
proof -
  have c': "content (m_UQueue (m_peers s ! p)) = le_bytes 1 (if rollback then 1 else 0) @ []" using c by simp
  obtain u1 where u1: "get_pod 1 (m_UQueue (m_peers s ! p)) = Inr (if rollback then 1 else 0, u1)" "sane_buffer u1"
    using get_num_ok [OF aq_rel_UQueue [OF r p] c'] by (cases rollback) auto
  let ?s = "set_UQueue p u1 s"
  have r1: "aq_rel log ?s sp" by (rule aq_rel_set_UQueue [OF r p u1(2)])
  have e: "on_EndTrans K p s = bindr (EndTrans K p rollback ?s) (\<lambda>(errCode, s). Inr (le_bytes 4 errCode, s))"
    using u1(1) by (simp add: on_EndTrans_def)
  show ?thesis
  proof (cases "sp_trans sp ! p")
    case None
    then have "EndTrans K p rollback ?s = Inr (QUEUE_TRANS_NOT_STARTED_YET, ?s)"
      using peer_relD [OF aq_relD(1) [OF r p]] p by (simp add: EndTrans_def)
    then show ?thesis using e r1 None by auto
  next
    case (Some t)
    obtain h ms where t: "sp_trans sp ! p = Some (h, ms)" using Some by (cases t) auto
    obtain b q where b: "m_bufferBatch (m_peers s ! p) = Some b" "m_qTrans (m_peers s ! p) = Some q"
      "q < length (m_objects s)" "m_objects s ! q = h" "sane_buffer b" "content b = frames ms"
      "p_count (m_peers s ! p) = length ms" "short_messages ms"
      using aq_relD(1) [OF r p] t by (auto simp: peer_rel_def)
    obtain err w where w: "(if rollback then Inr (QUEUE_OK, m_world s)
        else MyQueue_BatchEnqueue K (m_world s) h (length ms) b) = Inr (err, w)" "err < 256 ^ 4"
      "log w = (if \<not> rollback \<and> err = QUEUE_OK then (log (m_world s))(h := log (m_world s) h @ ms) else log (m_world s))"
      using MyQueue_BatchEnqueue_ok [OF K b(5,6,8), of "m_world s" h] by (cases rollback) (auto simp: queue_codes)
    let ?t = "upd_peer p drop_trans (?s\<lparr>m_world := w\<rparr>)"
    have "EndTrans K p rollback ?s = Inr (err, ?t)"
      using b w(1) p by (cases rollback) (auto simp: EndTrans_def)
    moreover have "aq_rel log ?t (set_trans p None (sp\<lparr>sp_log := log w\<rparr>))"
      using aq_rel_drop_trans [OF aq_rel_world [OF r1, of w], of p] p by simp
    moreover have "log (m_world s) = sp_log sp"
      using r by (auto simp: aq_rel_def)
    then have "set_trans p None (sp\<lparr>sp_log := log w\<rparr>) = spec_aq_op p (Finish rollback) (le_bytes 4 err, ob) sp" for ob
      using t w(2,3) by (simp add: le_value_le_bytes)
    ultimately show ?thesis using e by auto
  qed
qed

text \<open>Opening, closing and querying.\<close>

lemma spec_bind_trans [simp]: "sp_trans (spec_bind k o' sp) = sp_trans sp" "sp_live (spec_bind k o' sp) = sp_live sp"
  by (simp_all add: spec_bind_def split: option.splits)

lemma on_StartTrans_ok:
  assumes K: "core_ok K log saved" and r: "aq_rel log s sp" and p: "p < length (m_peers s)" and k: "key \<noteq> []"
    and live: "sp_live sp ! p" and buf: "sane_buffer buf" "content buf = []"
    and c: "content (m_UQueue (m_peers s ! p)) = lwire key" and l: "length key \<le> 1000000000"
  shows "\<exists>e s'. on_StartTrans K buf p s = Inr (le_bytes 4 e, s') \<and>
    aq_rel log s' (spec_aq_op p (Start buf key) (le_bytes 4 e, opened s s') sp)"
proof -
  have c': "content (m_UQueue (m_peers s ! p)) = lwire key @ []" using c by simp
  obtain u1 where u1: "get_string (m_UQueue (m_peers s ! p)) = Inr (key, u1)" "sane_buffer u1"
    using get_key_ok [OF aq_rel_UQueue [OF r p] c' l] by blast
  let ?s = "set_UQueue p u1 s"
  have r1: "aq_rel log ?s sp" by (rule aq_rel_set_UQueue [OF r p u1(2)])
  have e: "on_StartTrans K buf p s = bindr (StartTrans K buf p key ?s) (\<lambda>(errCode, s). Inr (le_bytes 4 errCode, s))"
    using u1(1) by (simp add: on_StartTrans_def)
  show ?thesis
  proof (cases "sp_trans sp ! p")
    case (Some t)
    then have "StartTrans K buf p key ?s = Inr (QUEUE_TRANS_ALREADY_STARTED, ?s)"
      using peer_relD [OF aq_relD(1) [OF r p]] p by (simp add: StartTrans_def)
    then show ?thesis using e r1 Some by auto
  next
    case None
    then have t: "m_bufferBatch (m_peers ?s ! p) = None" "m_qTrans (m_peers ?s ! p) = None"
      using peer_relD [OF aq_relD(1) [OF r p]] p by simp_all
    let ?b = "\<lambda>s1. spec_bind (trim_key key) (opened ?s s1) sp"
    obtain q s1 where s1: "find_or_open K key ?s = Inr (q, s1)" "m_peers s1 = m_peers ?s" "aq_rel log s1 (?b s1)"
      "map_option ((!) (m_objects s1)) q = sp_keys (?b s1) (trim_key key)"
      "\<forall>i. q = Some i \<longrightarrow> i \<in> snd ` set (m_mapKeyQueue s1) \<and> i < length (m_objects s1)"
      using find_or_open_ok [OF K r1 k] by auto
    have o: "opened ?s s1 = opened s s1" by (rule opened_base) simp
    show ?thesis
    proof (cases q)
      case None': None
      then have "StartTrans K buf p key ?s = Inr (QUEUE_TRANS_STARTING_FAILED, s1)"
        using t s1(1) by (simp add: StartTrans_def)
      then show ?thesis
        using e s1(3) None o by (auto simp: Let_def le_value_le_bytes queue_codes)
    next
      case (Some i)
      let ?f = "\<lambda>pr. pr\<lparr>m_qTrans := Some i, p_count := 0, m_bufferBatch := Some buf\<rparr>"
      have st: "StartTrans K buf p key ?s = Inr (QUEUE_OK, upd_peer p ?f s1)"
        using t s1(1) Some by (simp add: StartTrans_def)
      have p1: "p < length (m_peers s1)" using p s1(2) by simp
      have "aq_rel log (upd_peer p ?f s1) (set_trans p (Some (m_objects s1 ! i, [])) (?b s1))"
      proof (rule aq_rel_upd_peer [OF s1(3) p1])
        show "peer_rel (m_objects s1) (?f (m_peers s1 ! p)) (Some (m_objects s1 ! i, []))"
          using aq_rel_UQueue [OF s1(3) p1] buf s1(5) Some by (simp add: peer_rel_def short_messages_def)
      qed (use live s1(5) Some in simp_all)
      moreover have "opened s (upd_peer p ?f s1) = opened s s1" by (rule opened_cong) simp
      ultimately show ?thesis
        using e st None s1(4) [symmetric] Some o by (auto simp: Let_def le_value_le_bytes queue_codes)
    qed
  qed
qed

lemma aq_rel_delete:
  assumes r: "aq_rel log s sp" and u: "use_count s q = 1" "map_of (m_mapKeyQueue s) key = Some q"
  shows "aq_rel log (s\<lparr>m_mapKeyQueue := AList.delete key (m_mapKeyQueue s)\<rparr>) (sp\<lparr>sp_keys := (sp_keys sp)(key := None)\<rparr>)"
proof -
  let ?s = "s\<lparr>m_mapKeyQueue := AList.delete key (m_mapKeyQueue s)\<rparr>"
  have mem: "(key, q) \<in> set (m_mapKeyQueue s)" using u(2) by (rule map_of_SomeD)
  then have "filter (\<lambda>(k, q'). q' = q) (m_mapKeyQueue s) \<noteq> []" by (auto simp: filter_empty_conv)
  with u(1) have none: "filter (\<lambda>pr. m_qTrans pr = Some q) (m_peers s) = []"
    by (cases "filter (\<lambda>(k, q'). q' = q) (m_mapKeyQueue s)") (auto simp: use_count_def)
  have d: "distinct (map fst (m_mapKeyQueue s))" using r by (simp add: aq_rel_def keys_ok_def)
  have "registered ?s"
    unfolding registered_def
  proof (intro ballI allI impI)
    fix pr q' assume pr: "pr \<in> set (m_peers ?s)" "m_qTrans pr = Some q'"
    then have "q' \<noteq> q" using none by (auto simp: filter_empty_conv)
    obtain k where k: "(k, q') \<in> set (m_mapKeyQueue s)"
      using r pr by (fastforce simp: aq_rel_def registered_def)
    then have "k \<noteq> key"
      using d mem \<open>q' \<noteq> q\<close> by (metis map_of_is_SomeI option.inject)
    with k have "(k, q') \<in> set (AList.delete key (m_mapKeyQueue s))" by (auto simp: AList.delete_eq)
    then show "q' \<in> snd ` set (m_mapKeyQueue ?s)" by force
  qed
  moreover have "keys_ok ?s"
    using distinct_delete [OF d, of key] r by (auto simp: aq_rel_def keys_ok_def AList.delete_eq)
  moreover have "handle_of ?s = (handle_of s)(key := None)"
    by (rule ext) (simp add: handle_of_def delete_conv')
  ultimately show ?thesis using r by (auto simp: aq_rel_def)
qed

lemma set_trans_keys: "set_trans p t (sp\<lparr>sp_keys := L\<rparr>) = (set_trans p t sp)\<lparr>sp_keys := L\<rparr>"
  by (simp add: set_trans_def)

lemma set_trans_fields [simp]: "sp_keys (set_trans p t sp) = sp_keys sp" "sp_log (set_trans p t sp) = sp_log sp"
  "sp_live (set_trans p t sp) = sp_live sp"
  by (simp_all add: set_trans_def)

lemma on_Close_ok:
  assumes K: "core_ok K log saved" and r: "aq_rel log s sp" and p: "p < length (m_peers s)" and k: "key \<noteq> []"
    and c: "content (m_UQueue (m_peers s ! p)) = lwire key @ le_bytes 1 (if permanent then 1 else 0)"
    and l: "length key \<le> 1000000000"
  shows "\<exists>e s'. on_Close K p s = Inr (le_bytes 4 e, s') \<and>
    aq_rel log s' (spec_aq_op p (Close_queue key permanent) (le_bytes 4 e, opened s s') sp)"
proof -
  obtain u1 where u1: "get_string (m_UQueue (m_peers s ! p)) = Inr (key, u1)" "sane_buffer u1"
    "content u1 = le_bytes 1 (if permanent then 1 else 0) @ []"
    using get_key_ok [OF aq_rel_UQueue [OF r p] c l] by auto
  obtain u2 where u2: "get_pod 1 u1 = Inr (if permanent then 1 else 0, u2)" "sane_buffer u2"
    using get_num_ok [OF u1(2,3)] by (cases permanent) auto
  let ?s = "set_UQueue p u2 s"
  have r1: "aq_rel log ?s sp" by (rule aq_rel_set_UQueue [OF r p u2(2)])
  define s1 where "s1 = (if m_qTrans (m_peers ?s ! p) \<noteq> None \<or> m_bufferBatch (m_peers ?s ! p) \<noteq> None
    then upd_peer p drop_trans ?s else ?s)"
  have r2: "aq_rel log s1 (set_trans p None sp)"
  proof (cases "sp_trans sp ! p")
    case None
    then have "set_trans p None sp = sp" using set_trans_same [of p sp] by simp
    moreover have "s1 = ?s" using peer_relD [OF aq_relD(1) [OF r1], of p] None p by (simp add: s1_def)
    ultimately show ?thesis using r1 by simp
  next
    case (Some t)
    then have "s1 = upd_peer p drop_trans ?s"
      using peer_relD [OF aq_relD(1) [OF r1], of p] p by (simp add: s1_def)
    then show ?thesis using aq_rel_drop_trans [OF r1, of p] p by simp
  qed
  let ?k = "trim_key key"
  have e: "on_Close K p s = bindr (close_registered K ?k permanent s1) (\<lambda>(errCode, s). Inr (le_bytes 4 errCode, s))"
    using u1(1) u2(1) k by (cases permanent) (simp_all add: on_Close_def Close_def Pretreat_def s1_def Let_def)
  note e = e [unfolded close_registered_def]
  have goal: "?thesis" if "on_Close K p s = Inr (le_bytes 4 err, s')" "err < 256 ^ 4"
    "aq_rel log s' (if err = QUEUE_OK then (set_trans p None sp)\<lparr>sp_keys := (sp_keys sp)(?k := None)\<rparr> else set_trans p None sp)"
    for err s'
    using that by (auto simp: le_value_le_bytes set_trans_keys)
  show ?thesis
  proof (cases "map_of (m_mapKeyQueue s1) ?k")
    case None
    then have "sp_keys sp ?k = None"
      using r2 by (simp add: aq_rel_def handle_of_def)
    then have "(set_trans p None sp)\<lparr>sp_keys := (sp_keys sp)(?k := None)\<rparr> = set_trans p None sp"
      by (intro spec.equality) (simp_all add: fun_upd_idem)
    then show ?thesis using None r2 e by (intro goal [of QUEUE_OK s1]) (simp_all add: queue_codes)
  next
    case (Some q)
    show ?thesis
    proof (cases "use_count s1 q = 1")
      case False
      then show ?thesis
        using Some r2 e by (intro goal [of QUEUE_OTHER_WORKING_WITH_SAME_QUEUE s1]) (simp_all add: queue_codes)
    next
      case True
      obtain err w where w: "MyQueue_Close K (m_world s1) (m_objects s1 ! q) permanent = (err, w)" by fastforce
      then have w': "err < 256 ^ 4" "log w = log (m_world s1)"
        using core_okD(9) [OF K, of "m_world s1" "m_objects s1 ! q" permanent]
        by (auto simp: MyQueue_Close_def queue_codes split: if_splits prod.splits)
      have r3: "aq_rel log (s1\<lparr>m_world := w\<rparr>) (set_trans p None sp)" by (rule aq_rel_world_same [OF r2 w'(2)])
      have "use_count (s1\<lparr>m_world := w\<rparr>) q = 1" using True by (simp add: use_count_def)
      from aq_rel_delete [OF r3 this, of ?k] Some
      show ?thesis
        using r3 e w w'(1) True
        by (intro goal [of err "if err = QUEUE_OK then s1\<lparr>m_world := w, m_mapKeyQueue := AList.delete ?k (m_mapKeyQueue s1)\<rparr>
            else s1\<lparr>m_world := w\<rparr>"]) auto
    qed
  qed
qed

lemma on_Flush_ok:
  assumes K: "core_ok K log saved" and r: "aq_rel log s sp" and p: "p < length (m_peers s)" and k: "key \<noteq> []"
    and c: "content (m_UQueue (m_peers s ! p)) = lwire key @ bs" "length bs = 4"
    and l: "length key \<le> 1000000000"
  shows "\<exists>res s'. on_Flush K p s = Inr (res, s') \<and> aq_rel log s' sp \<and> m_objects s' = m_objects s"
proof -
  obtain u1 where u1: "get_string (m_UQueue (m_peers s ! p)) = Inr (key, u1)" "sane_buffer u1" "content u1 = bs"
    using get_key_ok [OF aq_rel_UQueue [OF r p] c(1) l] by auto
  have cu: "content u1 = le_bytes 4 (le_value bs) @ []" "le_value bs < 256 ^ 4"
    using u1(3) c(2) le_bytes_le_value [of bs] le_value_bound [of bs] by simp_all
  obtain u2 where u2: "get_pod 4 u1 = Inr (le_value bs, u2)" "sane_buffer u2"
    using get_num_ok [OF u1(2) cu] by auto
  let ?s = "set_UQueue p u2 s"
  have r1: "aq_rel log ?s sp" by (rule aq_rel_set_UQueue [OF r p u2(2)])
  show ?thesis
  proof (cases "map_of (m_mapKeyQueue s) (trim_key key)")
    case None
    then show ?thesis using u1(1) u2(1) k r1 by (simp add: on_Flush_def Flush_def Find_def Pretreat_def)
  next
    case (Some q)
    obtain n z w where w: "MyQueue_Flush K (m_world s) (m_objects s ! q) (le_value bs) = (n, z, w)" by (cases "MyQueue_Flush K (m_world s) (m_objects s ! q) (le_value bs)") auto
    then have "log w = log (m_world ?s)"
      using core_okD(7) [OF K] by (auto simp: MyQueue_Flush_def Let_def)
    from aq_rel_world_same [OF r1 this] show ?thesis
      using u1(1) u2(1) k Some w by (simp add: on_Flush_def Flush_def Find_def Pretreat_def)
  qed
qed

lemma on_Dequeue_ok:
  assumes K: "core_ok K log saved" and r: "aq_rel log s sp" and p: "p < length (m_peers s)" and k: "key \<noteq> []"
    and c: "content (m_UQueue (m_peers s ! p)) = lwire key @ bs" "length bs = 4"
    and l: "length key \<le> 1000000000"
  shows "\<exists>res s'. on_Dequeue K p s = Inr (res, s') \<and> aq_rel log s' (spec_bind (trim_key key) (opened s s') sp)"
proof -
  obtain u1 where u1: "get_string (m_UQueue (m_peers s ! p)) = Inr (key, u1)" "sane_buffer u1" "content u1 = bs"
    using get_key_ok [OF aq_rel_UQueue [OF r p] c(1) l] by auto
  have cu: "content u1 = le_bytes 4 (le_value bs) @ []" "le_value bs < 256 ^ 4"
    using u1(3) c(2) le_bytes_le_value [of bs] le_value_bound [of bs] by simp_all
  obtain u2 where u2: "get_pod 4 u1 = Inr (le_value bs, u2)" "sane_buffer u2"
    using get_num_ok [OF u1(2) cu] by auto
  let ?s = "set_UQueue p u2 s"
  have r1: "aq_rel log ?s sp" by (rule aq_rel_set_UQueue [OF r p u2(2)])
  obtain q s1 where s1: "find_or_open K key ?s = Inr (q, s1)" "m_peers s1 = m_peers ?s"
    "aq_rel log s1 (spec_bind (trim_key key) (opened ?s s1) sp)"
    using find_or_open_ok [OF K r1 k] by auto
  have o: "opened ?s s1 = opened s s1" by (rule opened_base) simp
  show ?thesis
  proof (cases q)
    case None
    then show ?thesis using u1(1) u2(1) s1(1,3) o by (simp add: on_Dequeue_def Dequeue_def)
  next
    case (Some i)
    let ?t = "if m_qTrans (m_peers s1 ! p) = Some i then 0 else le_value bs"
    obtain n z m w where w: "MyQueue_Dequeue K (m_nBatchSize s1) (m_bNoAuto s1) (m_world s1) (m_objects s1 ! i) p ?t = (n, z, m, w)"
      by (cases "MyQueue_Dequeue K (m_nBatchSize s1) (m_bNoAuto s1) (m_world s1) (m_objects s1 ! i) p ?t") auto
    then have lw: "log w = log (m_world s1)"
      using core_okD(8) [OF K, of "m_world s1" "m_objects s1 ! i" p "m_nBatchSize s1" "m_bNoAuto s1 = 0" ?t]
      by (auto simp: MyQueue_Dequeue_def split: if_splits prod.splits)
    have "opened s (s1\<lparr>m_world := w\<rparr>) = opened s s1" by (rule opened_cong) simp
    with aq_rel_world_same [OF s1(3) lw] show ?thesis
      using u1(1) u2(1) s1(1) w Some o by (auto simp: on_Dequeue_def Dequeue_def Let_def)
  qed
qed

text \<open>Clients that come and go.\<close>

lemma live_count:
  "p < length l \<Longrightarrow> l ! p \<Longrightarrow> length (filter id l) = Suc (length (filter id (l[p := False])))"
proof (induction l arbitrary: p)
  case (Cons a l)
  then show ?case by (cases p) auto
qed simp

lemma OnReleaseSource_ok:
  assumes r: "aq_rel log s sp" and p: "p < length (m_peers s)" "sp_live sp ! p"
  shows "aq_rel log (OnReleaseSource p s) (spec_aq_op p Leave ob sp)"
proof -
  define s1 where "s1 = (if m_bufferBatch (m_peers s ! p) \<noteq> None \<or> m_qTrans (m_peers s ! p) \<noteq> None
    then upd_peer p drop_trans s else s)"
  have r1: "aq_rel log s1 (set_trans p None sp)"
  proof (cases "sp_trans sp ! p")
    case None
    then have "set_trans p None sp = sp" using set_trans_same [of p sp] by simp
    moreover have "s1 = s" using peer_relD [OF aq_relD(1) [OF r p(1)]] None by (simp add: s1_def)
    ultimately show ?thesis using r by simp
  next
    case (Some t)
    then have "s1 = upd_peer p drop_trans s"
      using peer_relD [OF aq_relD(1) [OF r p(1)]] by (simp add: s1_def)
    then show ?thesis using aq_rel_drop_trans [OF r p(1)] by simp
  qed
  let ?live = "(sp_live sp)[p := False]"
  have len: "length (m_peers s1) = length (m_peers s)" by (simp add: s1_def)
  have pl: "p < length (sp_live sp)" using r p by (simp add: aq_rel_def)
  have mc: "m_clients s1 = Suc (length (filter id ?live))"
    using r1 live_count [OF pl p(2)] by (simp add: aq_rel_def)
  moreover have "m_clients s1 \<le> max32" using r1 by (simp add: aq_rel_def)
  ultimately have sub: "sub32 (m_clients s1) 1 = length (filter id ?live)"
    using sub32_exact [of 1 "m_clients s1"] by simp
  have zero: "length (filter id ?live) = 0 \<longleftrightarrow> True \<notin> set ?live"
    by (auto simp: filter_empty_conv)
  have rel: "OnReleaseSource p s = s1\<lparr>m_clients := length (filter id ?live),
      m_mapKeyQueue := (if length (filter id ?live) = 0 then [] else m_mapKeyQueue s1)\<rparr>" (is "_ = ?s")
    by (simp only: OnReleaseSource_def Let_def s1_def [symmetric] sub)
  have tr: "sp_trans (set_trans p None sp) ! p = None"
    using aq_relD(2) [OF r p(1)] by (simp add: set_trans_def)
  have dead: "\<not> ?live ! i \<longrightarrow> sp_trans (set_trans p None sp) ! i = None" if "i < length (m_peers s1)" for i
    using r1 that tr by (cases "i = p") (auto simp: aq_rel_def set_trans_def)
  have reg: "registered ?s"
  proof (cases "True \<in> set ?live")
    case True
    then show ?thesis using r1 zero by (simp add: registered_def aq_rel_def)
  next
    case False
    have "m_qTrans pr = None" if pr: "pr \<in> set (m_peers s1)" for pr
    proof -
      obtain i where i: "i < length (m_peers s1)" "pr = m_peers s1 ! i" using pr unfolding in_set_conv_nth by blast
      then have "i < length ?live" using r1 by (simp add: aq_rel_def)
      then have "\<not> ?live ! i" using False by (metis nth_mem)
      then show ?thesis using dead [OF i(1)] peer_relD(2) [OF aq_relD(1) [OF r1 i(1)]] i(2) by simp
    qed
    then show ?thesis by (simp add: registered_def)
  qed
  have h: "handle_of ?s = (if True \<in> set ?live then handle_of s1 else Map.empty)"
    using zero by (auto simp: handle_of_def fun_eq_iff)
  show ?thesis
    unfolding rel using r1 dead reg h mc zero
    by (auto simp: aq_rel_def keys_ok_def Let_def set_trans_def)
qed

lemma OnSwitchFrom_ok:
  assumes r: "aq_rel log s sp" and uq: "sane_buffer uq" and l: "length (sp_live sp) < max32"
  shows "aq_rel log (OnSwitchFrom uq s) (spec_aq_op p (Connect uq) ob sp)"
proof -
  let ?s = "OnSwitchFrom uq s"
  have le: "length (filter id (sp_live sp)) \<le> length (sp_live sp)" by (rule length_filter_le)
  have mc: "m_clients s = length (filter id (sp_live sp))" using r by (simp add: aq_rel_def)
  have "m_clients s + 1 \<le> max32" using le mc l by linarith
  then have c: "add32 (m_clients s) 1 = m_clients s + 1" "m_clients s + 1 \<le> max32"
    by (simp_all only: add32_exact)
  have "registered ?s" using r by (auto simp: aq_rel_def registered_def OnSwitchFrom_def CAsyncQueueImpl_new_def)
  moreover have "peer_rel (m_objects s) (CAsyncQueueImpl_new uq) None"
    using uq by (simp add: peer_rel_def CAsyncQueueImpl_new_def)
  ultimately show ?thesis
    using r c by (auto simp: aq_rel_def OnSwitchFrom_def keys_ok_def handle_of_def nth_append fun_eq_iff)
qed

text \<open>One operation.\<close>

lemma serve_Flush:
  assumes "fill_UQueue os endian bs (m_UQueue (m_peers s ! p)) = Inr uq" "uq_inv uq" "p < length (m_peers s)"
    and "content uq = lwire key @ os'" "length os' = 4" "length key \<le> 1000000000"
  shows "serve K buf os endian idFlush bs p s = handled (on_Flush K p (set_UQueue p uq s))"
proof -
  have "content uq = [] @ le_bytes 4 (length key) @ key @ os'" using assms(4) by (simp add: lwire_def)
  from read_at_ok [OF assms(2) this] have a: "read_at uq 0 4 = Inr (length key)"
    using assms(6) by (simp add: le_value_le_bytes)
  have "content uq = lwire key @ os' @ []" using assms(4) by simp
  from read_at_ok [OF assms(2) this] have b: "read_at uq (4 + length key) 4 = Inr (le_value os')"
    using assms(5) by simp
  have "add32 4 (length key) = 4 + length key" using assms(6) by (simp add: add32_def)
  then show ?thesis
    using assms(1,3) a b
    by (simp add: serve_def OnReqArrive_def OnRequestArrive_def Let_def slow_ids OnSlowRequestArrive_def id_values)
qed

lemma serve_EndTrans:
  assumes "fill_UQueue os endian bs (m_UQueue (m_peers s ! p)) = Inr uq" "uq_inv uq" "p < length (m_peers s)"
    and "content uq = le_bytes 1 v"
  shows "serve K buf os endian idEndTrans bs p s = handled (on_EndTrans K p (set_UQueue p uq s))"
proof -
  have "content uq = [] @ le_bytes 1 v @ []" using assms(4) by simp
  from read_at_ok [OF assms(2) this] obtain b where "read_at uq 0 1 = Inr b" by simp
  then show ?thesis
    using assms(1,3)
    by (simp add: serve_def OnReqArrive_def OnRequestArrive_def Let_def slow_ids OnSlowRequestArrive_def id_values)
qed

lemma run_aq_op_ok:
  assumes K: "core_ok K log saved" and r: "aq_rel log s sp" and fits: "op_fits p op sp"
  shows "\<exists>ob s'. run_aq_op K os endian s (p, op) = Inr (ob, s') \<and> aq_rel log s' (spec_aq_op p op ob sp)"
proof (cases "\<exists>uq. op = Connect uq")
  case True
  then show ?thesis using OnSwitchFrom_ok [OF r] fits by (auto simp: run_aq_op_def simp del: spec_aq_op.simps)
next
  case False
  then have f: "p < length (sp_live sp)" "sp_live sp ! p" "sane_buffer (op_buffer op)" "content (op_buffer op) = []"
    "op_key op \<noteq> Some []" "length (snd (op_request op)) \<le> 1000000000"
    "short_messages (pending (sp_trans sp ! p) @ op_messages op)"
    using fits by (cases op; simp)+
  have p: "p < length (m_peers s)" using f(1) r by (simp add: aq_rel_def)
  obtain reqId bs where rq: "op_request op = (reqId, bs)" by fastforce
  obtain uq where uq: "fill_UQueue os endian bs (m_UQueue (m_peers s ! p)) = Inr uq" "sane_buffer uq" "content uq = bs"
    using fill_UQueue_ok [OF aq_rel_UQueue [OF r p], of bs os endian] f(6) rq by auto
  have uqi: "uq_inv uq" using uq(2) by (simp add: sane_buffer_def)
  let ?s = "set_UQueue p uq s"
  have r1: "aq_rel log ?s sp" by (rule aq_rel_set_UQueue [OF r p uq(2)])
  have p1: "p < length (m_peers ?s)" using p by simp
  have c: "content (m_UQueue (m_peers ?s ! p)) = bs" using p uq(3) by simp
  have o: "opened ?s s' = opened s s'" for s' by (rule opened_base) simp
  note sv = serve_is_handler [OF uq(1), of _ K "op_buffer op"]
  have lk: "length key \<le> 1000000000" if "op_key op = Some key" for key
    using f(6) that by (cases op) auto
  have fin: ?thesis
    if "serve K (op_buffer op) os endian reqId bs p s = handled x" "x = Inr (res, s')" "op \<noteq> Leave" "op \<noteq> Cancel"
      "aq_rel log s' (spec_aq_op p op (res, opened s s') sp)" for x res s'
    using that rq False by (cases op) (auto simp: run_aq_op_def handled_def simp del: spec_aq_op.simps op_request.simps)
  show ?thesis
  proof (cases op)
    case (Connect q) then show ?thesis using False by blast
  next
    case Leave
    then show ?thesis using OnReleaseSource_ok [OF r p f(2)] by (simp add: run_aq_op_def del: spec_aq_op.simps)
  next
    case Cancel
    then show ?thesis
      using aq_rel_drop_trans [OF r p] by (simp add: run_aq_op_def OnBaseRequestArrive_def)
  next
    case (Start buf key)
    then have b: "reqId = idStartTrans" "content (m_UQueue (m_peers ?s ! p)) = lwire key" "length key \<le> 1000000000" "key \<noteq> []"
      using rq c f(5) lk by auto
    from on_StartTrans_ok [OF K r1 p1 b(4) f(2), of buf] b f(3,4) Start obtain e s' where
      "on_StartTrans K buf p ?s = Inr (le_bytes 4 e, s')" "aq_rel log s' (spec_aq_op p op (le_bytes 4 e, opened s s') sp)"
      unfolding o by fastforce
    then show ?thesis
      using Start b sv [of reqId] by (intro fin) (auto simp: main_handler_def slow_ids OnFastRequestArrive_def id_values)
  next
    case (Put key i m)
    then have b: "reqId = idEnqueue" "content (m_UQueue (m_peers ?s ! p)) = lwire key @ le_bytes 2 (unat i) @ m"
      "length key \<le> 1000000000" "key \<noteq> []"
      using rq c f(5) lk by auto
    from on_Enqueue_ok [OF K r1 p1 b(4) b(2) b(3)] f(7) Put obtain e s' where
      "on_Enqueue K p ?s = Inr (le_bytes 8 e, s')" "aq_rel log s' (spec_aq_op p op (le_bytes 8 e, opened s s') sp)"
      unfolding o by fastforce
    then show ?thesis
      using Put b sv [of reqId] by (intro fin) (auto simp: main_handler_def slow_ids OnSlowRequestArrive_def id_values)
  next
    case (Put_batch key ms)
    then have b: "reqId = idEnqueueBatch" "content (m_UQueue (m_peers ?s ! p)) = lwire key @ le_bytes 4 (length ms) @ frames ms"
      "length key \<le> 1000000000" "key \<noteq> []"
      using rq c f(5) lk by auto
    from on_EnqueueBatch_ok [OF K r1 p1 b(4) b(2) b(3)] f(7) Put_batch obtain e s' where
      "on_EnqueueBatch K p ?s = Inr (le_bytes 8 e, s')" "aq_rel log s' (spec_aq_op p op (le_bytes 8 e, opened s s') sp)"
      unfolding o by fastforce
    then show ?thesis
      using Put_batch b sv [of reqId] by (intro fin) (auto simp: main_handler_def slow_ids OnSlowRequestArrive_def id_values)
  next
    case (Finish rb)
    then have b: "reqId = idEndTrans" "content (m_UQueue (m_peers ?s ! p)) = le_bytes 1 (if rb then 1 else 0)"
      using rq c by auto
    from on_EndTrans_ok [OF K r1 p1 b(2)] Finish obtain e s' where
      "on_EndTrans K p ?s = Inr (le_bytes 4 e, s')" "aq_rel log s' (spec_aq_op p op (le_bytes 4 e, opened s s') sp)"
      unfolding o by fastforce
    moreover have "content uq = le_bytes 1 (if rb then 1 else 0)" using b(2) p by simp
    ultimately show ?thesis
      using Finish b(1) serve_EndTrans [OF uq(1) uqi p] by (intro fin) auto
  next
    case (Close_queue key perm)
    then have b: "reqId = idClose" "content (m_UQueue (m_peers ?s ! p)) = lwire key @ le_bytes 1 (if perm then 1 else 0)"
      "length key \<le> 1000000000" "key \<noteq> []"
      using rq c f(5) lk by auto
    from on_Close_ok [OF K r1 p1 b(4) b(2) b(3)] Close_queue obtain e s' where
      "on_Close K p ?s = Inr (le_bytes 4 e, s')" "aq_rel log s' (spec_aq_op p op (le_bytes 4 e, opened s s') sp)"
      unfolding o by fastforce
    then show ?thesis
      using Close_queue b sv [of reqId] by (intro fin) (auto simp: main_handler_def slow_ids OnSlowRequestArrive_def id_values)
  next
    case (Flush_queue key opt)
    then have b: "reqId = idFlush" "content (m_UQueue (m_peers ?s ! p)) = lwire key @ le_bytes 4 opt"
      "length key \<le> 1000000000" "key \<noteq> []"
      using rq c f(5) lk by auto
    from on_Flush_ok [OF K r1 p1 b(4) b(2) _ b(3)] obtain e s' where "on_Flush K p ?s = Inr (e, s')" "aq_rel log s' sp"
      by auto
    moreover have "content uq = lwire key @ le_bytes 4 opt" using b(2) p by simp
    ultimately show ?thesis
      using Flush_queue b(1,3) serve_Flush [OF uq(1) uqi p] by (intro fin) auto
  next
    case (Fetch key t)
    then have b: "reqId = idDequeue" "content (m_UQueue (m_peers ?s ! p)) = lwire key @ le_bytes 4 t"
      "length key \<le> 1000000000" "key \<noteq> []"
      using rq c f(5) lk by auto
    from on_Dequeue_ok [OF K r1 p1 b(4) b(2) _ b(3)] obtain e s' where
      "on_Dequeue K p ?s = Inr (e, s')" "aq_rel log s' (spec_bind (trim_key key) (opened s s') sp)"
      unfolding o by auto
    then show ?thesis
      using Fetch b sv [of reqId] by (intro fin) (auto simp: main_handler_def slow_ids OnSlowRequestArrive_def id_values)
  next
    case Keys
    then have "serve K (op_buffer op) os endian reqId bs p s =
        handled (Inr (le_bytes 4 (length (m_mapKeyQueue ?s)) @ concat (map (lwire \<circ> fst) (m_mapKeyQueue ?s)), ?s))"
      using rq sv [of reqId] by (simp add: main_handler_def slow_ids OnFastRequestArrive_def id_values handled_def)
    then show ?thesis using r1 Keys by (intro fin) auto
  next
    case Batch_size
    then have "serve K (op_buffer op) os endian reqId bs p s = handled (Inr (le_bytes 4 (NotifyBatchSize ?s), ?s))"
      using rq sv [of reqId] by (simp add: main_handler_def slow_ids OnFastRequestArrive_def id_values handled_def)
    then show ?thesis using r1 Batch_size by (intro fin) auto
  qed
qed

lemma run_aq_ok:
  assumes K: "core_ok K log saved"
  shows "aq_rel log s sp \<Longrightarrow> ops_fit K os endian ops s sp \<Longrightarrow>
    \<exists>obs s'. run_aq K os endian ops s = Inr (obs, s') \<and> length obs = length ops \<and> aq_rel log s' (spec_aq ops obs sp)"
proof (induction ops arbitrary: s sp)
  case Nil
  then show ?case by simp
next
  case (Cons po ops)
  obtain p op where po: "po = (p, op)" by (cases po)
  have "op_fits p op sp" using Cons.prems(2) po by simp
  from run_aq_op_ok [OF K Cons.prems(1) this] obtain ob s1 where s1: "run_aq_op K os endian s (p, op) = Inr (ob, s1)"
    "aq_rel log s1 (spec_aq_op p op ob sp)" by blast
  with Cons.IH [OF s1(2)] Cons.prems(2) po show ?case by auto
qed

section \<open>Sequences of requests\<close>

text \<open>
  A sequence that clients may send: only connected peers, no empty key, and never more than a
  gigabyte of messages.
\<close>

fun ops_ok :: "bool list \<Rightarrow> (nat \<times> aq_op) list \<Rightarrow> bool" where
  "ops_ok live [] \<longleftrightarrow> True"
| "ops_ok live ((p, op) # ops) \<longleftrightarrow>
     (case op of
        Connect uq \<Rightarrow> sane_buffer uq \<and> length live < max32 \<and> ops_ok (live @ [True]) ops
      | _ \<Rightarrow> p < length live \<and> live ! p \<and> sane_buffer (op_buffer op) \<and> content (op_buffer op) = [] \<and>
             op_key op \<noteq> Some [] \<and> length (snd (op_request op)) \<le> 1000000000 \<and>
             ops_ok (case op of Leave \<Rightarrow> live[p := False] | _ \<Rightarrow> live) ops)"

definition sent_messages :: "(nat \<times> aq_op) list \<Rightarrow> message list" where
  "sent_messages ops = concat (map (op_messages \<circ> snd) ops)"

lemma sent_messages_simps [simp]: "sent_messages [] = []"
  "sent_messages ((p, op) # ops) = op_messages op @ sent_messages ops"
  "sent_messages (ops @ ops') = sent_messages ops @ sent_messages ops'"
  by (simp_all add: sent_messages_def)

definition live_after :: "bool list \<Rightarrow> nat \<Rightarrow> aq_op \<Rightarrow> bool list" where
  "live_after live p op = (case op of Connect uq \<Rightarrow> live @ [True] | Leave \<Rightarrow> live[p := False] | _ \<Rightarrow> live)"

lemma spec_live: "sp_live (spec_aq_op p op ob sp) = live_after (sp_live sp) p op"
  by (cases op) (auto simp: live_after_def spec_put_def Let_def split: option.splits)

lemma spec_trans_length:
  "length (sp_trans sp) = length (sp_live sp) \<Longrightarrow> length (sp_trans (spec_aq_op p op ob sp)) = length (sp_live (spec_aq_op p op ob sp))"
  by (cases op) (auto simp: spec_put_def Let_def set_trans_def split: option.splits)

lemma nth_set_trans: "i < length (sp_trans sp) \<Longrightarrow> sp_trans (set_trans p t sp) ! i = (if i = p then t else sp_trans sp ! i)"
  by (auto simp: set_trans_def nth_list_update)

lemma spec_pending:
  assumes "length (sp_trans sp) = length (sp_live sp)" "i < length (sp_live (spec_aq_op p op ob sp))"
  shows "length (frames (pending (sp_trans (spec_aq_op p op ob sp) ! i))) \<le>
    (if i < length (sp_live sp) then length (frames (pending (sp_trans sp ! i))) else 0) + length (frames (op_messages op))"
  using assms
  by (cases op) (auto simp: spec_put_def Let_def nth_set_trans nth_append split: option.splits)

lemma ops_fit_static:
  assumes "ops_ok (sp_live sp) ops" "length (sp_trans sp) = length (sp_live sp)"
    and "\<And>i. i < length (sp_live sp) \<Longrightarrow> length (frames (pending (sp_trans sp ! i))) + length (frames (sent_messages ops)) \<le> 1000000000"
    and "length (frames (sent_messages ops)) \<le> 1000000000"
  shows "ops_fit K os endian ops s sp"
  using assms
proof (induction ops arbitrary: s sp)
  case Nil
  then show ?case by simp
next
  case (Cons po ops)
  obtain p op where po: "po = (p, op)" by (cases po)
  have ok: "ops_ok (live_after (sp_live sp) p op) ops"
    using Cons.prems(1) po by (cases op) (simp_all add: live_after_def)
  have "op_fits p op sp"
  proof (cases "\<exists>uq. op = Connect uq")
    case True
    then show ?thesis using Cons.prems(1) po by auto
  next
    case False
    then have *: "p < length (sp_live sp)" using Cons.prems(1) po by (cases op) simp_all
    have "short_messages (pending (sp_trans sp ! p) @ op_messages op)"
      using Cons.prems(3) [OF *] po by (simp add: short_messages_def)
    then show ?thesis using False Cons.prems(1) po by (cases op) simp_all
  qed
  moreover have "ops_fit K os endian ops s' (spec_aq_op p op ob sp)" for s' ob
  proof (rule Cons.IH)
    show "ops_ok (sp_live (spec_aq_op p op ob sp)) ops" using ok by (simp add: spec_live)
    show "length (frames (sent_messages ops)) \<le> 1000000000" using Cons.prems(4) po by simp
    show "length (sp_trans (spec_aq_op p op ob sp)) = length (sp_live (spec_aq_op p op ob sp))"
      using Cons.prems(2) by (rule spec_trans_length)
    fix i assume i: "i < length (sp_live (spec_aq_op p op ob sp))"
    show "length (frames (pending (sp_trans (spec_aq_op p op ob sp) ! i))) + length (frames (sent_messages ops)) \<le> 1000000000"
    proof (cases "i < length (sp_live sp)")
      case True
      then show ?thesis
        using spec_pending [OF Cons.prems(2) i] Cons.prems(3) [OF True] po by simp
    next
      case False
      then have "op_messages op = []" using i spec_live [of p op ob sp] by (cases op) (simp_all add: live_after_def)
      then show ?thesis
        using spec_pending [OF Cons.prems(2) i] Cons.prems(4) False po by simp
    qed
  qed
  ultimately show ?case using po by (auto split: sum.splits)
qed


definition server_new :: "'w \<Rightarrow> 'w aq_server" where
  "server_new w = \<lparr>m_nBatchSize = 0, m_bNoAuto = 0, m_mapKeyQueue = [], m_clients = 0, m_objects = [],
     m_peers = [], m_world = w\<rparr>"

definition spec_new :: "(nat \<Rightarrow> message list) \<Rightarrow> spec" where
  "spec_new L = \<lparr>sp_keys = Map.empty, sp_trans = [], sp_live = [], sp_log = L\<rparr>"

lemma aq_rel_new: "aq_rel log (server_new w) (spec_new (log w))"
  by (simp add: aq_rel_def server_new_def spec_new_def keys_ok_def registered_def handle_of_def fun_eq_iff)

lemma ops_fit_new:
  "ops_ok [] ops \<Longrightarrow> short_messages (sent_messages ops) \<Longrightarrow> ops_fit K os endian ops s (spec_new L)"
  by (rule ops_fit_static) (simp_all add: spec_new_def short_messages_def)

lemma run_from_new:
  assumes "core_ok K log saved" "ops_ok [] ops" "short_messages (sent_messages ops)"
  shows "\<exists>obs s'. run_aq K os endian ops (server_new w) = Inr (obs, s') \<and> length obs = length ops \<and>
    aq_rel log s' (spec_aq ops obs (spec_new (log w)))"
  by (rule run_aq_ok [OF assms(1) aq_rel_new ops_fit_new [OF assms(2,3)]])

lemma run_aq_append:
  "run_aq K os endian (ops @ ops') s =
     bindr (run_aq K os endian ops s) (\<lambda>(obs, s). bindr (run_aq K os endian ops' s) (\<lambda>(obs', s). Inr (obs @ obs', s)))"
  by (induction ops arbitrary: s) (simp_all add: bindr_def split: sum.splits prod.splits)

lemma spec_aq_append:
  "length obs = length ops \<Longrightarrow> spec_aq (ops @ ops') (obs @ obs') sp = spec_aq ops' obs' (spec_aq ops obs sp)"
  by (induction ops obs arbitrary: sp rule: list_induct2') auto

lemma run_aq_length: "run_aq K os endian ops s = Inr (obs, s') \<Longrightarrow> length obs = length ops"
  by (induction ops arbitrary: s obs) (fastforce simp: bindr_Inr_iff)+

section \<open>A core that keeps the queues in lists\<close>

text \<open>An instance for which the promises hold, to run the plugin on.\<close>

type_synonym lists = "(nat \<Rightarrow> message list) \<times> (nat \<Rightarrow> message list)"

fun unframe :: "nat \<Rightarrow> byte list \<Rightarrow> message list" where
  "unframe 0 bs = []"
| "unframe (Suc n) bs =
     (let i = le_value (take 2 bs); k = le_value (take 4 (drop 2 bs)); bs = drop 6 bs in
      (word_of_nat i, take k bs) # unframe n (drop k bs))"

lemma unframe_frames: "length (frames ms) \<le> 1000000000 \<Longrightarrow> unframe (length ms) (frames ms @ rest) = ms"
proof (induction ms)
  case (Cons m ms)
  obtain i bs where m: "m = (i, bs)" by (cases m)
  have "unat i < 256 ^ 2" using unsigned_less [of i] by simp
  moreover have "length bs < 256 ^ 4" using Cons.prems m by simp
  ultimately show ?case using Cons m by (simp add: frame_def le_value_le_bytes Let_def)
qed simp

definition list_core :: "lists core" where
  "list_core = \<lparr>
     core_StartQueue = (\<lambda>w key sh ttl. (length key, w)),
     core_IsQueueStarted = (\<lambda>w h. True),
     core_Enqueue = (\<lambda>(L, S) h i bs. (0, L(h := L h @ [(i, bs)]), S)),
     core_BatchEnqueue = (\<lambda>(L, S) h n mem. Inr (0, L(h := L h @ unframe n (map the mem)), S)),
     core_StartJob = (\<lambda>(L, S) h. (True, L, S(h := L h))),
     core_EndJob = (\<lambda>w h. (True, w)),
     core_AbortJob = (\<lambda>(L, S) h. (True, L(h := S h), S)),
     core_GetMessageCount = (\<lambda>w h. length (fst w h)),
     core_GetMessagesInDequeuing = (\<lambda>w h. 0),
     core_GetQueueSize = (\<lambda>w h. length (frames (fst w h))),
     core_SetOptimistic = (\<lambda>w h n. w),
     core_Dequeue2 = (\<lambda>w h so n b t. (0, w)),
     core_StopQueueByHandle = (\<lambda>w h b. (True, w))\<rparr>"

lemma list_core_ok: "core_ok list_core fst snd"
  by (auto simp: core_ok_def list_core_def stored_def INVALID_NUMBER_def short_messages_def unframe_frames comp_def)

section \<open>Properties\<close>

text \<open>
  C3: Any number of clients may connect, leave, cancel, open and end transactions, enqueue single
  messages and batches, close, flush and dequeue in any order. Their requests are well formed
  (\<open>ops_ok\<close>: a connected peer, a key that is not empty, a request of at most a gigabyte that the
  client really wrote), and all messages together stay below a gigabyte; outside of that an empty key or
  a batch that announces more than it holds makes the server fault (\<open>batch_of_one_overreads\<close>).
  Under these conditions no handler fails, and the results that the clients get determine what is in every queue and which queue a key stands for. A
  message is in its queue, in order, from the moment it was enqueued successfully outside of a
  transaction or its transaction was committed successfully; messages of transactions that were
  rolled back, cancelled, closed or left are in none.
\<close>

theorem server_refines_queues:
  assumes "core_ok K log saved" "ops_ok [] ops" "short_messages (sent_messages ops)"
  shows "\<exists>obs s'. run_aq K os endian ops (server_new w) = Inr (obs, s') \<and> length obs = length ops \<and>
    log (m_world s') = sp_log (spec_aq ops obs (spec_new (log w))) \<and>
    handle_of s' = sp_keys (spec_aq ops obs (spec_new (log w)))"
  using run_from_new [OF assms, of os endian w] by (auto simp: aq_rel_def)

definition sample_ops :: "(nat \<times> aq_op) list" where
  "sample_ops =
     [(0, Connect new_buffer), (1, Connect new_buffer), (0, Start new_buffer [97, 47]), (0, Put [97] 513 [1, 2]),
      (1, Put [97] 514 []), (0, Put_batch [97] [(515, [3]), (516, [4])]), (1, Close_queue [97] True),
      (0, Finish False), (0, Start new_buffer [98]), (0, Put [98] 517 [5]), (0, Finish True), (1, Fetch [97] 10),
      (1, Leave), (0, Cancel), (0, Keys), (0, Batch_size)]"

lemma sane_new_buffer: "sane_buffer new_buffer"
  using new_buffer_ok by (simp add: sane_buffer_def new_buffer_def CUQueue_new_def DEFAULT_MEMORY_BUFFER_BLOCK_SIZE_def)

lemma sample_ops_ok: "ops_ok [] sample_ops" "short_messages (sent_messages sample_ops)"
  by (simp_all add: sample_ops_def sane_new_buffer max32_def short_messages_def)

theorem server_refines_queues_witness:
  "\<exists>obs s'. run_aq list_core osUnix False sample_ops (server_new (\<lambda>_. [], \<lambda>_. [])) = Inr (obs, s') \<and>
    length obs = length sample_ops \<and>
    fst (m_world s') = sp_log (spec_aq sample_ops obs (spec_new (\<lambda>_. []))) \<and>
    handle_of s' = sp_keys (spec_aq sample_ops obs (spec_new (\<lambda>_. [])))"
  using server_refines_queues [OF list_core_ok sample_ops_ok, of osUnix False "(\<lambda>_. [], \<lambda>_. [])"] by simp


lemma run_reaches:
  assumes "core_ok K log saved" "ops_ok [] ops" "short_messages (sent_messages ops)"
    and "run_aq K os endian ops (server_new w) = Inr (obs, s)"
  shows "aq_rel log s (spec_aq ops obs (spec_new (log w)))"
  using run_from_new [OF assms(1-3), of os endian w] assms(4) by auto

lemma nth_filter: "i < length xs \<Longrightarrow> P (xs ! i) \<Longrightarrow> filter P xs \<noteq> []"
  by (auto simp: filter_empty_conv)

text \<open>
  C31: As long as a client has a transaction open, its queue stays registered, and a request of
  another client to close it is answered with \<^verbatim>\<open>QUEUE_OTHER_WORKING_WITH_SAME_QUEUE\<close>
  without reaching the core.
\<close>

theorem transaction_pins_queue:
  assumes "core_ok K log saved" "ops_ok [] ops" "short_messages (sent_messages ops)"
    and "run_aq K os endian ops (server_new w) = Inr (obs, s)"
    and "p < length (m_peers s)" "m_qTrans (m_peers s ! p) = Some q" "p' \<noteq> p" "key \<noteq> []"
    and "map_of (m_mapKeyQueue s) (trim_key key) = Some q"
  shows "q \<in> snd ` set (m_mapKeyQueue s) \<and>
    (\<exists>s'. Close K p' key permanent s = Inr (QUEUE_OTHER_WORKING_WITH_SAME_QUEUE, s') \<and>
       m_world s' = m_world s \<and> m_mapKeyQueue s' = m_mapKeyQueue s \<and> m_qTrans (m_peers s' ! p) = Some q)"
proof
  show "q \<in> snd ` set (m_mapKeyQueue s)"
    using aq_rel_registered(1) [OF run_reaches [OF assms(1-4)] assms(5,6)] .
  let ?s = "if m_qTrans (m_peers s ! p') \<noteq> None \<or> m_bufferBatch (m_peers s ! p') \<noteq> None then upd_peer p' drop_trans s else s"
  have t: "m_qTrans (m_peers ?s ! p) = Some q" "p < length (m_peers ?s)" "m_mapKeyQueue ?s = m_mapKeyQueue s"
    "m_world ?s = m_world s"
    using assms(5-7) by (auto simp: upd_peer_def)
  have "filter (\<lambda>pr. m_qTrans pr = Some q) (m_peers ?s) \<noteq> []"
    using t(1,2) by (intro nth_filter) auto
  moreover have "filter (\<lambda>(k, q'). q' = q) (m_mapKeyQueue ?s) \<noteq> []"
    using assms(9) t(3) by (force simp: filter_empty_conv dest: map_of_SomeD)
  ultimately have "use_count ?s q \<noteq> 1"
    by (cases "filter (\<lambda>pr. m_qTrans pr = Some q) (m_peers ?s)"; cases "filter (\<lambda>(k, q'). q' = q) (m_mapKeyQueue ?s)")
      (auto simp: use_count_def)
  then have "Close K p' key permanent s = Inr (QUEUE_OTHER_WORKING_WITH_SAME_QUEUE, ?s)"
    using assms(8,9) t(3) by (simp add: Close_def Pretreat_def close_registered_def Let_def del: if_split)
  with t show "\<exists>s'. Close K p' key permanent s = Inr (QUEUE_OTHER_WORKING_WITH_SAME_QUEUE, s') \<and>
      m_world s' = m_world s \<and> m_mapKeyQueue s' = m_mapKeyQueue s \<and> m_qTrans (m_peers s' ! p) = Some q" by blast
qed

definition tiny_buffer :: uqueue where
  "tiny_buffer = CUQueue_new 64 16 osUnix False"

lemma tiny_buffer_ok: "sane_buffer tiny_buffer" "content tiny_buffer = []"
  by (simp_all add: sane_buffer_def tiny_buffer_def CUQueue_new_def uq_inv_def content_def max32_def mem_alloc_def)

definition start_ops :: "(nat \<times> aq_op) list" where
  "start_ops = [(0, Connect tiny_buffer), (1, Connect tiny_buffer), (0, Start tiny_buffer [97])]"

lemma start_ops_ok: "ops_ok [] start_ops" "short_messages (sent_messages start_ops)"
  by (simp_all add: start_ops_def tiny_buffer_ok max32_def short_messages_def)

lemma start_run:
  "\<exists>obs s. run_aq list_core osUnix False start_ops (server_new (\<lambda>_. [], \<lambda>_. [])) = Inr (obs, s) \<and>
     length (m_peers s) = 2 \<and> m_qTrans (m_peers s ! 0) = Some 0 \<and> m_objects s = [1] \<and>
     m_mapKeyQueue s = [([97], 0)] \<and> m_bufferBatch (m_peers s ! 0) = Some tiny_buffer"
proof -
  define s2 where "s2 = OnSwitchFrom tiny_buffer (OnSwitchFrom tiny_buffer (server_new (\<lambda>_. [], \<lambda>_. []) :: lists aq_server))"
  have q: "m_UQueue (m_peers s2 ! 0) = tiny_buffer"
    by (simp add: s2_def OnSwitchFrom_def server_new_def CAsyncQueueImpl_new_def)
  obtain uq where uq: "fill_UQueue osUnix False (lwire [97]) tiny_buffer = Inr uq" "sane_buffer uq" "content uq = lwire [97] @ []"
    using fill_UQueue_ok [OF tiny_buffer_ok(1), of "lwire [97]" osUnix False] by auto
  obtain u1 where u1: "get_string uq = Inr ([97], u1)"
    using get_key_ok [OF uq(2,3)] by auto
  have "serve list_core tiny_buffer osUnix False idStartTrans (lwire [97]) 0 s2 =
      main_handler list_core tiny_buffer idStartTrans 0 (set_UQueue 0 uq s2)"
    using uq(1) q by (intro serve_is_handler) (simp_all add: id_values)
  also have "\<dots> = handled (on_StartTrans list_core tiny_buffer 0 (set_UQueue 0 uq s2))"
    by (simp add: main_handler_def slow_ids OnFastRequestArrive_def id_values)
  finally have sv: "serve list_core tiny_buffer osUnix False idStartTrans (lwire [97]) 0 s2 =
      handled (on_StartTrans list_core tiny_buffer 0 (set_UQueue 0 uq s2))" .
  have "run_aq list_core osUnix False start_ops (server_new (\<lambda>_. [], \<lambda>_. [])) =
      bindr (run_aq_op list_core osUnix False s2 (0, Start tiny_buffer [97])) (\<lambda>(ob, s). Inr ([([], None), ([], None), ob], s))"
    by (simp add: start_ops_def run_aq_op_def s2_def bindr_def split: sum.splits prod.splits)
  moreover obtain b s3 where s3: "on_StartTrans list_core tiny_buffer 0 (set_UQueue 0 uq s2) = Inr (b, s3)"
    "length (m_peers s3) = 2" "m_qTrans (m_peers s3 ! 0) = Some 0" "m_objects s3 = [1]"
    "m_mapKeyQueue s3 = [([97], 0)]" "m_bufferBatch (m_peers s3 ! 0) = Some tiny_buffer"
    by (simp add: on_StartTrans_def StartTrans_def u1 set_UQueue_def upd_peer_def s2_def
        OnSwitchFrom_def server_new_def CAsyncQueueImpl_new_def find_or_open_def Find_def Pretreat_def trim_key_def
        open_queue_def list_core_def MyQueue_GetHandle_def)
  moreover have "run_aq_op list_core osUnix False s2 (0, Start tiny_buffer [97]) = Inr ((b, opened s2 s3), s3)"
    by (simp add: run_aq_op_def sv s3(1) handled_def)
  ultimately show ?thesis by simp
qed

theorem transaction_pins_queue_witness:
  "\<exists>obs s s'. run_aq list_core osUnix False start_ops (server_new (\<lambda>_. [], \<lambda>_. [])) = Inr (obs, s) \<and>
     Close list_core 1 [97] True s = Inr (QUEUE_OTHER_WORKING_WITH_SAME_QUEUE, s') \<and> m_world s' = m_world s \<and>
     m_mapKeyQueue s' = m_mapKeyQueue s \<and> m_qTrans (m_peers s' ! 0) = Some 0"
proof -
  obtain obs s where s: "run_aq list_core osUnix False start_ops (server_new (\<lambda>_. [], \<lambda>_. [])) = Inr (obs, s)"
    "length (m_peers s) = 2" "m_qTrans (m_peers s ! 0) = Some 0" "m_mapKeyQueue s = [([97], 0)]"
    using start_run by blast
  show ?thesis
    using transaction_pins_queue [OF list_core_ok start_ops_ok s(1), of 0 0 1 "[97]" True] s by (auto simp: trim_key_def)
qed

text \<open>The messages of an open transaction are collected, whatever the other clients do.\<close>

definition puts_only :: "nat \<Rightarrow> (nat \<times> aq_op) list \<Rightarrow> bool" where
  "puts_only p ops \<longleftrightarrow> (\<forall>(p', op) \<in> set ops. p' = p \<longrightarrow> (\<exists>key i bs. op = Put key i bs) \<or> (\<exists>key ms. op = Put_batch key ms))"

lemma spec_other_peer:
  assumes "p < length (sp_trans sp)" "p' \<noteq> p"
  shows "sp_trans (spec_aq_op p' op ob sp) ! p = sp_trans sp ! p"
  using assms by (cases op) (auto simp: spec_put_def Let_def nth_set_trans nth_append split: option.splits)

lemma spec_own_puts:
  assumes "p < length (sp_trans sp)" "sp_trans sp ! p = Some (h, ms)"
    and "(\<exists>key i bs. op = Put key i bs) \<or> (\<exists>key ms. op = Put_batch key ms)"
  shows "sp_trans (spec_aq_op p op ob sp) ! p = Some (h, ms @ op_messages op)"
  using assms by (cases op) (auto simp: spec_put_def nth_set_trans)

lemma live_after_length: "length live \<le> length (live_after live p op)"
  by (cases op) (simp_all add: live_after_def)

lemma spec_collects:
  assumes "length obs = length ops" "puts_only p ops" "p < length (sp_trans sp)" "sp_trans sp ! p = Some (h, ms)"
    "length (sp_trans sp) = length (sp_live sp)"
  shows "sp_trans (spec_aq ops obs sp) ! p = Some (h, ms @ sent_messages (filter (\<lambda>po. fst po = p) ops)) \<and>
    p < length (sp_trans (spec_aq ops obs sp))"
  using assms
proof (induction ops obs arbitrary: sp ms rule: list_induct2')
  case (4 po ops ob obs)
  obtain p' op where po: "po = (p', op)" by (cases po)
  let ?sp = "spec_aq_op p' op ob sp"
  have l: "length (sp_trans ?sp) = length (sp_live ?sp)" using "4.prems"(5) by (rule spec_trans_length)
  have "length (sp_live sp) \<le> length (sp_live ?sp)" by (simp add: spec_live live_after_length)
  then have p: "p < length (sp_trans ?sp)" using "4.prems"(3,5) l by simp
  have rest: "puts_only p ops" using "4.prems"(2) by (simp add: puts_only_def)
  show ?case
  proof (cases "p' = p")
    case True
    then have "(\<exists>key i bs. op = Put key i bs) \<or> (\<exists>key ms. op = Put_batch key ms)"
      using "4.prems"(2) po by (auto simp: puts_only_def)
    from spec_own_puts [OF "4.prems"(3,4) this] have "sp_trans ?sp ! p = Some (h, ms @ op_messages op)"
      using True by simp
    from "4.IH" [OF _ rest p this l] "4.prems"(1) po True show ?thesis by simp
  next
    case False
    from spec_other_peer [OF "4.prems"(3) False] "4.prems"(4) have "sp_trans ?sp ! p = Some (h, ms)" by simp
    from "4.IH" [OF _ rest p this l] "4.prems"(1) po False show ?thesis by simp
  qed
qed simp_all

lemma ops_ok_append: "ops_ok live (ops @ ops') \<Longrightarrow> ops_ok live ops"
proof (induction live ops rule: ops_ok.induct)
  case (2 live p op ops)
  then show ?case by (cases op) simp_all
qed simp

lemma frames_sent_append: "short_messages (ms @ ns) \<Longrightarrow> short_messages ms"
  by (simp add: short_messages_def)

lemma frames_Nil_iff: "frames ms = [] \<longleftrightarrow> ms = []"
proof -
  have "frame m \<noteq> []" for m using length_frame [of m] by (cases "frame m") simp_all
  then show ?thesis by (cases ms) simp_all
qed

lemma le_bytes_inj: "le_bytes n a = le_bytes n b \<Longrightarrow> a < 256 ^ n \<Longrightarrow> b < 256 ^ n \<Longrightarrow> a = b"
  by (metis le_value_le_bytes)

text \<open>
  C6: Atomicity: when a client with an open transaction sends messages, single or in batches, with
  any requests of other clients in between, and commits, then all of its messages are appended to
  the queue, in order and without another message among them, if the result is
  \<^verbatim>\<open>QUEUE_OK\<close>; otherwise none is.
\<close>

theorem committed_transaction:
  assumes "core_ok K log saved" "ops_ok [] (before @ body @ [(p, Finish False)])"
    and "short_messages (sent_messages (before @ body @ [(p, Finish False)]))"
    and "run_aq K os endian before (server_new w) = Inr (obs, s)" "p < length (m_peers s)"
    and "m_qTrans (m_peers s ! p) = Some q" "m_bufferBatch (m_peers s ! p) = Some b" "content b = []"
    and "puts_only p body"
  shows "\<exists>obs1 s1 ob s2. run_aq K os endian body s = Inr (obs1, s1) \<and>
    run_aq_op K os endian s1 (p, Finish False) = Inr (ob, s2) \<and>
    log (m_world s2) =
      (if le_value (fst ob) = QUEUE_OK
       then (log (m_world s1))(m_objects s ! q := log (m_world s1) (m_objects s ! q) @
              sent_messages (filter (\<lambda>po. fst po = p) body))
       else log (m_world s1))"
proof -
  let ?ops = "before @ body @ [(p, Finish False)]"
  obtain obs' s2 where run: "run_aq K os endian ?ops (server_new w) = Inr (obs', s2)"
    "aq_rel log s2 (spec_aq ?ops obs' (spec_new (log w)))"
    using run_from_new [OF assms(1-3)] by blast
  then obtain obs1 s1 ob where r: "run_aq K os endian body s = Inr (obs1, s1)"
    "run_aq_op K os endian s1 (p, Finish False) = Inr (ob, s2)" "obs' = obs @ obs1 @ [ob]"
    using assms(4) by (auto simp: run_aq_append bindr_Inr_iff)
  have okb: "ops_ok [] before" "short_messages (sent_messages before)"
    using ops_ok_append [OF assms(2)] frames_sent_append assms(3) by auto
  have okbb: "ops_ok [] (before @ body)" "short_messages (sent_messages (before @ body))"
    using ops_ok_append [of "[]" "before @ body" "[(p, Finish False)]"] assms(2,3) by auto
  let ?sp = "spec_aq before obs (spec_new (log w))"
  have R: "aq_rel log s ?sp" by (rule run_reaches [OF assms(1) okb assms(4)])
  have "run_aq K os endian (before @ body) (server_new w) = Inr (obs @ obs1, s1)"
    using assms(4) r(1) by (simp add: run_aq_append)
  from run_reaches [OF assms(1) okbb this]
  have R1: "aq_rel log s1 (spec_aq body obs1 ?sp)"
    using run_aq_length [OF assms(4)] by (simp add: spec_aq_append)
  have lens: "length obs = length before" "length obs1 = length body"
    using run_aq_length [OF assms(4)] run_aq_length [OF r(1)] by auto
  have R2: "aq_rel log s2 (spec_aq_op p (Finish False) ob (spec_aq body obs1 ?sp))"
    using run(2) lens unfolding r(3) by (simp add: spec_aq_append)
  obtain ms where "sp_trans ?sp ! p = Some (m_objects s ! q, ms)" "frames ms = []"
    using aq_relD(1) [OF R assms(5)] assms(6-8) by (auto simp: peer_rel_def split: option.splits)
  then have t: "sp_trans ?sp ! p = Some (m_objects s ! q, [])" by (simp add: frames_Nil_iff)
  have "sp_trans (spec_aq body obs1 ?sp) ! p = Some (m_objects s ! q, sent_messages (filter (\<lambda>po. fst po = p) body))"
    using spec_collects [OF lens(2) assms(9) _ t] aq_relD(2) [OF R assms(5)] R by (auto simp: aq_rel_def)
  then have "sp_log (spec_aq_op p (Finish False) ob (spec_aq body obs1 ?sp)) =
      (if le_value (fst ob) = QUEUE_OK
       then (log (m_world s1))(m_objects s ! q := log (m_world s1) (m_objects s ! q) @
              sent_messages (filter (\<lambda>po. fst po = p) body))
       else log (m_world s1))"
    using R1 by (simp add: aq_rel_def)
  moreover have "log (m_world s2) = sp_log (spec_aq_op p (Finish False) ob (spec_aq body obs1 ?sp))"
    using R2 by (simp only: aq_rel_def)
  ultimately have "log (m_world s2) =
      (if le_value (fst ob) = QUEUE_OK
       then (log (m_world s1))(m_objects s ! q := log (m_world s1) (m_objects s ! q) @
              sent_messages (filter (\<lambda>po. fst po = p) body))
       else log (m_world s1))" by (rule trans [rotated])
  with r(1,2) show ?thesis by blast
qed

definition body_ops :: "(nat \<times> aq_op) list" where
  "body_ops = [(0, Put [97] 513 [1, 2]), (1, Put [97] 514 []), (0, Put_batch [98] [(515, [3]), (516, [4])])]"

lemma body_ops_ok:
  "ops_ok [] (start_ops @ body_ops @ [(0, Finish False)])"
  "short_messages (sent_messages (start_ops @ body_ops @ [(0, Finish False)]))" "puts_only 0 body_ops"
  by (simp_all add: start_ops_def body_ops_def tiny_buffer_ok sane_new_buffer max32_def short_messages_def puts_only_def)

theorem committed_transaction_witness:
  "\<exists>obs s obs1 s1 ob s2. run_aq list_core osUnix False start_ops (server_new (\<lambda>_. [], \<lambda>_. [])) = Inr (obs, s) \<and>
    run_aq list_core osUnix False body_ops s = Inr (obs1, s1) \<and>
    run_aq_op list_core osUnix False s1 (0, Finish False) = Inr (ob, s2) \<and>
    fst (m_world s2) =
      (if le_value (fst ob) = QUEUE_OK
       then (fst (m_world s1))(1 := fst (m_world s1) 1 @ [(513, [1, 2]), (515, [3]), (516, [4])])
       else fst (m_world s1))"
proof -
  obtain obs s where s: "run_aq list_core osUnix False start_ops (server_new (\<lambda>_. [], \<lambda>_. [])) = Inr (obs, s)"
    "0 < length (m_peers s)" "m_qTrans (m_peers s ! 0) = Some 0" "m_objects s = [1]"
    "m_bufferBatch (m_peers s ! 0) = Some tiny_buffer"
    using start_run by fastforce
  have "sent_messages (filter (\<lambda>po. fst po = 0) body_ops) = [(513, [1, 2]), (515, [3]), (516, [4])]"
    by (simp add: body_ops_def)
  then show ?thesis
    using committed_transaction [OF list_core_ok body_ops_ok(1,2) s(1,2,3,5) tiny_buffer_ok(2) body_ops_ok(3)] s(1,4)
    by auto
qed

lemma arith32_le: "add32 a b \<le> a + b" "mul32 a b \<le> a * b"
  by (simp_all add: add32_def mul32_def mod_less_eq_dividend)

lemma grown_max_bound:
  assumes "m_nMaxBuffer q \<le> 1048576" "m_nBlockSize q \<le> 1048576" "m_nSize q = 0" "n \<le> 100"
  shows "grown_max q n \<le> 200000000"
proof -
  let ?k = "add32 1 (add32 n 0 div m_nBlockSize q)"
  have "?k \<le> 101"
    using assms(4) div_le_dividend [of "add32 n 0" "m_nBlockSize q"] arith32_le(1) [of n 0]
      arith32_le(1) [of 1 "add32 n 0 div m_nBlockSize q"] by linarith
  then have "m_nBlockSize q * ?k \<le> 1048576 * 101" using assms(2) by (intro mult_le_mono)
  then have "add32 (m_nMaxBuffer q) (mul32 (m_nBlockSize q) ?k) \<le> 200000000"
    using assms(1) arith32_le(1) [of "m_nMaxBuffer q" "mul32 (m_nBlockSize q) ?k"] arith32_le(2) [of "m_nBlockSize q" ?k]
    by linarith
  then show ?thesis using assms(3,4) by (simp add: grown_max_def)
qed

lemma Push_capacity:
  assumes "uq_inv q" "content q = []" "Push q (Some xs) = Inr q'"
  shows "m_nMaxBuffer q' = m_nMaxBuffer q \<or> m_nMaxBuffer q' = grown_max q (length xs)"
proof -
  have sz: "m_nSize q = 0" "m_nHeadPos q = 0" using uq_invD(1,7) [OF assms(1)] assms(2) by auto
  then show ?thesis using assms(3)
    by (auto simp: Push_def Insert_def SetHeadPosition0_def Insert_grow_def Let_def bindr_Inr_iff
        grown_max_def UQUEUE_END_POSTION_def split: if_splits)
qed


text \<open>A batch of any bytes that reaches the server inside a transaction is appended as it is.\<close>

lemma get_pod_buffer: "get_pod n q = Inr (v, q') \<Longrightarrow> m_pBuffer q' = m_pBuffer q"
  by (auto simp: get_pod_def pop_bytes_def Pop_read_def Let_def bindr_Inr_iff split: if_splits)

lemma on_EnqueueBatch_any:
  assumes r: "aq_rel log s sp" and p: "p < length (m_peers s)" and l: "length key \<le> 1000"
    and t: "m_qTrans (m_peers s ! p) = Some q" "m_bufferBatch (m_peers s ! p) = Some b" "content b = []" "p_count (m_peers s ! p) = 0"
    and c: "content (m_UQueue (m_peers s ! p)) = lwire key @ le_bytes 4 n @ bs" and n: "n < 4294967296" "length bs \<le> 1000"
  shows "\<exists>s' b'. on_EnqueueBatch K p s = Inr (le_bytes 8 n, s') \<and> length (m_peers s') = length (m_peers s) \<and> sane_buffer (m_UQueue (m_peers s' ! p)) \<and>
    m_qTrans (m_peers s' ! p) = Some q \<and> m_bufferBatch (m_peers s' ! p) = Some b' \<and> p_count (m_peers s' ! p) = n \<and>
    sane_buffer b' \<and> content b' = bs \<and> (m_nMaxBuffer b' = m_nMaxBuffer b \<or> m_nMaxBuffer b' = grown_max b (length bs))"
proof -
  have b: "sane_buffer b"
    using aq_relD(1) [OF r p] t(2) by (auto simp: peer_rel_def split: option.splits)
  obtain u1 where u1: "get_string (m_UQueue (m_peers s ! p)) = Inr (key, u1)" "sane_buffer u1" "content u1 = le_bytes 4 n @ bs"
    using get_key_ok [OF aq_rel_UQueue [OF r p] c] l by auto
  from get_num_ok [OF u1(2,3)] n obtain u2 where u2: "get_pod 4 u1 = Inr (n, u2)" "sane_buffer u2" "content u2 = bs"
    by auto
  have u2i: "uq_inv u2" using u2(2) by (simp add: sane_buffer_def)
  obtain b' where b': "push_queue b u2 = Inr b'" "sane_buffer b'" "content b' = bs"
    using push_queue_ok [OF b u2i] t(3) u2(3) n(2) by auto
  have "mem_read (m_pBuffer u2) (GetBuffer u2 0) (m_nSize u2) = Inr (map Some bs)"
    using take_front_ok(1) [OF u2i, of bs "[]"] uq_invD(1) [OF u2i] u2(3) by simp
  then have "Push b (Some (map Some bs)) = Inr b'" using b'(1) by (simp add: push_queue_def)
  then have cap: "m_nMaxBuffer b' = m_nMaxBuffer b \<or> m_nMaxBuffer b' = grown_max b (length bs)"
    using Push_capacity [of b "map Some bs" b'] b t(3) by (simp add: sane_buffer_def)
  obtain u3 where u3: "SetSize u2 0 True = Inr u3" "sane_buffer u3"
    using SetSize_ok [of u2 0 True] sane_buffer_settings [OF u2(2)] u2i by (auto simp: sane_buffer_def)
  have "add32 0 n = n" using n(1) by (simp add: add32_def)
  then have "on_EnqueueBatch K p s = Inr (le_bytes 8 n, upd_peer p (\<lambda>pr. pr\<lparr>m_UQueue := u3\<rparr>)
      (upd_peer p (\<lambda>pr. pr\<lparr>m_bufferBatch := Some b', p_count := n\<rparr>) (set_UQueue p u2 s)))"
    using u1(1) u2(1) t p b'(1) u3(1) by (simp add: on_EnqueueBatch_def EnqueueBatch_def enqueue_into_def Let_def)
  then show ?thesis using p t(1) b'(2,3) cap u3(2) by simp
qed

text \<open>
  A client can make the server read far outside of a buffer: inside a transaction it sends a
  batch that claims to be one message, with a length that is not there, and commits. The length is
  taken from the batch and handed to the core with a pointer into a buffer that is much smaller.
\<close>

theorem batch_of_one_overreads:
  assumes "core_ok K log saved" "ops_ok [] ops" "short_messages (sent_messages ops)"
    and "run_aq K os endian ops (server_new w) = Inr (obs, s)" "p < length (m_peers s)"
    and "m_qTrans (m_peers s ! p) = Some q" "m_bufferBatch (m_peers s ! p) = Some b" "content b = []"
    and "m_nMaxBuffer b \<le> 1048576" "length key \<le> 1000" "i < 65536"
  shows "\<exists>s'. serve K buf os endian idEnqueueBatch (lwire key @ le_bytes 4 1 @ le_bytes 2 i @ le_bytes 4 2000000000) p s =
      Inr (Some (le_bytes 8 1), s') \<and>
    serve K buf os endian idEndTrans (le_bytes 1 0) p s' = Inl Out_Of_Bounds"
proof -
  let ?bs = "le_bytes 2 i @ le_bytes 4 2000000000"
  have R: "aq_rel log s (spec_aq ops obs (spec_new (log w)))" (is "aq_rel log s ?sp") by (rule run_reaches [OF assms(1-4)])
  obtain ms where ms: "sane_buffer b" "content b = frames ms" "p_count (m_peers s ! p) = length ms"
    using aq_relD(1) [OF R assms(5)] assms(7) by (auto simp: peer_rel_def split: option.splits)
  then have "frames ms = []" using assms(8) by simp
  then have b: "sane_buffer b" "p_count (m_peers s ! p) = 0" using ms by (simp_all add: frames_Nil_iff)
  obtain uq where uq: "fill_UQueue os endian (lwire key @ le_bytes 4 1 @ ?bs) (m_UQueue (m_peers s ! p)) = Inr uq" "sane_buffer uq"
    "content uq = lwire key @ le_bytes 4 1 @ ?bs"
    using fill_UQueue_ok [OF aq_rel_UQueue [OF R assms(5)], of "lwire key @ le_bytes 4 1 @ ?bs" os endian] assms(10) by auto
  let ?s = "set_UQueue p uq s"
  have R1: "aq_rel log ?s ?sp" by (rule aq_rel_set_UQueue [OF R assms(5) uq(2)])
  obtain s1 b1 where s1: "on_EnqueueBatch K p ?s = Inr (le_bytes 8 1, s1)" "length (m_peers s1) = length (m_peers ?s)"
    "sane_buffer (m_UQueue (m_peers s1 ! p))" "m_qTrans (m_peers s1 ! p) = Some q" "m_bufferBatch (m_peers s1 ! p) = Some b1"
    "p_count (m_peers s1 ! p) = 1" "sane_buffer b1" "content b1 = ?bs"
    "m_nMaxBuffer b1 = m_nMaxBuffer b \<or> m_nMaxBuffer b1 = grown_max b (length ?bs)"
    using on_EnqueueBatch_any [OF R1, of p key q b 1 ?bs K] assms(5-8,10) b(2) uq(3) by auto
  have sv: "serve K buf os endian idEnqueueBatch (lwire key @ le_bytes 4 1 @ ?bs) p s = Inr (Some (le_bytes 8 1), s1)"
    using serve_is_handler [OF uq(1), of idEnqueueBatch K buf] s1(1)
    by (simp add: main_handler_def slow_ids OnSlowRequestArrive_def id_values handled_def)
  have "m_nSize b = 0" using b(1) assms(8) uq_invD(1) [of b] by (simp add: sane_buffer_def)
  then have "grown_max b (length ?bs) \<le> 200000000"
    using grown_max_bound [of b "length ?bs"] b(1) assms(9) by (simp add: sane_buffer_def uq_inv_def)
  then have cap: "m_nMaxBuffer b1 \<le> 200000000" using s1(9) assms(9) by auto
  obtain u where u: "fill_UQueue os endian (le_bytes 1 0) (m_UQueue (m_peers s1 ! p)) = Inr u" "sane_buffer u" "content u = le_bytes 1 0 @ []"
    using fill_UQueue_ok [OF s1(3), of "le_bytes 1 0" os endian] by auto
  have ui: "uq_inv u" using u(2) by (simp add: sane_buffer_def)
  obtain u' where u': "get_pod 1 u = Inr (0, u')" using get_num_ok [OF u(2,3)] by auto
  have i: "i < 256 ^ 2" using assms(11) by simp
  obtain b2 where b2: "get_pod 2 b1 = Inr (i, b2)" "uq_inv b2" "same_settings b1 b2" "content b2 = le_bytes 4 2000000000 @ []"
    using get_pod_ok [of b1 i 2 "le_bytes 4 2000000000"] i s1(7,8) by (auto simp: sane_buffer_def)
  obtain b3 where b3: "get_pod 4 b2 = Inr (2000000000, b3)"
    using get_pod_ok [OF b2(2) _ b2(4)] by auto
  have "m_pBuffer b3 = m_pBuffer b1" using get_pod_buffer [OF b3] get_pod_buffer [OF b2(1)] by simp
  then have "length (m_pBuffer b3) \<le> 200000000"
    using cap s1(7) by (simp add: sane_buffer_def uq_inv_def)
  then have over: "read_front b3 2000000000 = Inl Out_Of_Bounds" by (simp add: read_front_def mem_read_def)
  have "m_nSize b1 \<noteq> 0" using s1(7,8) uq_invD(1) [of b1] by (auto simp: sane_buffer_def)
  then have "MyQueue_BatchEnqueue K w' h 1 b1 = Inl Out_Of_Bounds" for w' h
    using b2(1) b3 over by (simp add: MyQueue_BatchEnqueue_def)
  then have "on_EndTrans K p (set_UQueue p u s1) = Inl Out_Of_Bounds"
    using u' s1(2,4-6) assms(5) by (simp add: on_EndTrans_def EndTrans_def)
  moreover have "serve K buf os endian idEndTrans (le_bytes 1 0) p s1 = handled (on_EndTrans K p (set_UQueue p u s1))"
    by (rule serve_EndTrans [OF u(1) ui, where v = 0]) (use s1(2) assms(5) u(3) in simp_all)
  ultimately have "serve K buf os endian idEndTrans (le_bytes 1 0) p s1 = Inl Out_Of_Bounds"
    by (simp add: handled_def)
  with sv show ?thesis by blast
qed

theorem batch_of_one_overreads_witness:
  "\<exists>obs s s'. run_aq list_core osUnix False start_ops (server_new (\<lambda>_. [], \<lambda>_. [])) = Inr (obs, s) \<and>
    serve list_core new_buffer osUnix False idEnqueueBatch (lwire [97] @ le_bytes 4 1 @ le_bytes 2 513 @ le_bytes 4 2000000000) 0 s =
      Inr (Some (le_bytes 8 1), s') \<and>
    serve list_core new_buffer osUnix False idEndTrans (le_bytes 1 0) 0 s' = Inl Out_Of_Bounds"
proof -
  obtain obs s where s: "run_aq list_core osUnix False start_ops (server_new (\<lambda>_. [], \<lambda>_. [])) = Inr (obs, s)"
    "0 < length (m_peers s)" "m_qTrans (m_peers s ! 0) = Some 0" "m_bufferBatch (m_peers s ! 0) = Some tiny_buffer"
    using start_run by fastforce
  have "m_nMaxBuffer tiny_buffer \<le> 1048576" by (simp add: tiny_buffer_def CUQueue_new_def)
  from batch_of_one_overreads [OF list_core_ok start_ops_ok s tiny_buffer_ok(2) this, of "[97]" 513 new_buffer] s(1)
  show ?thesis by auto
qed

end
