(* ===== verification/Queueclient.thy ===== *)
theory Queueclient
  imports Queueserver
begin

text \<open>
  The client of the persistent message queues: \<^verbatim>\<open>CAsyncQueue\<close> of \<^verbatim>\<open>include/aqhandler.h\<close>,
  and the lists of delegates (\<^verbatim>\<open>IUDelImpl\<close> of \<^verbatim>\<open>include/aclientw.h\<close>) that it keeps.

  \<^item> A request returns its \<^verbatim>\<open>bool\<close> and the calls that it makes, in their order: \<^verbatim>\<open>SendRequest\<close>
    of the base class with the bytes of the request and the handler of its result, and the jobs of
    the client queue of the socket. \<open>Client\<close> models what \<^verbatim>\<open>SendRequest\<close> does with the handler.
  \<^item> \<open>send_env\<close> has the answers of the socket. The buffer of a request comes from the pool and is an
    argument. The functions are those of the build without the Node.js and PHP adapters.
  \<^item> A handler of a result is a value of \<open>result_handler\<close> that has the callback of the application,
    a number, in it; \<open>AsyncResultHandler_run\<close> is what it reads and what it calls.
  \<^item> The last section puts the clients and the server plugin together: the bytes of a request are
    those that the plugin reads, and the callbacks are told what the plugin has done.
\<close>

section \<open>Delegates\<close>

definition IUDelImpl_add :: "'d option \<Rightarrow> 'd list \<Rightarrow> 'd list" where
  "IUDelImpl_add d vD = (case d of None \<Rightarrow> vD | Some d \<Rightarrow> vD @ [d])"

definition IUDelImpl_subtract :: "'d option \<Rightarrow> 'd list \<Rightarrow> 'd list" where
  "IUDelImpl_subtract d vD = (case d of None \<Rightarrow> vD | Some d \<Rightarrow> vD @ [d])"

definition IUDelImpl_assign :: "'d option \<Rightarrow> 'd list \<Rightarrow> 'd list" where
  "IUDelImpl_assign d vD = (case d of None \<Rightarrow> [] | Some d \<Rightarrow> [d])"

definition IUDelImpl_Count :: "'d list \<Rightarrow> nat" where
  "IUDelImpl_Count vD = length vD"

definition IUDelImpl_bool :: "'d list \<Rightarrow> bool" where
  "IUDelImpl_bool vD \<longleftrightarrow> length vD > 0"

fun IUDelImpl_Invoke :: "('d \<Rightarrow> 'e list) \<Rightarrow> 'd list \<Rightarrow> 'e list" where
  "IUDelImpl_Invoke call [] = []"
| "IUDelImpl_Invoke call (d # vD) = call d @ IUDelImpl_Invoke call vD"

text \<open>Taking a delegate away calls it once more from then on.\<close>

lemma subtract_adds:
  "IUDelImpl_Invoke call (IUDelImpl_subtract (Some d) (IUDelImpl_add (Some d) vD)) =
     IUDelImpl_Invoke call vD @ call d @ call d"
proof -
  have "IUDelImpl_Invoke call (xs @ ys) = IUDelImpl_Invoke call xs @ IUDelImpl_Invoke call ys" for xs ys
    by (induction xs) simp_all
  then show ?thesis by (simp add: IUDelImpl_subtract_def IUDelImpl_add_def)
qed

section \<open>The handler and its calls\<close>

datatype result_handler =
    H_code nat
  | H_keys nat
  | H_flush nat
  | H_dequeue nat
  | H_enqueue nat

datatype client_call =
    Call_SendRequest "16 word" "byte list" "result_handler option"
  | Call_StartJob
  | Call_EndJob
  | Call_AbortJob
  | Call_MessageQueued nat

record send_env =
  send_ok :: bool
  cq_IsAvailable :: bool
  cq_ok :: bool

record aq_client =
  c_nBatchSize :: nat
  m_keyDequeue :: key
  m_dDequeue :: "nat option"
  m_mq :: "nat list"

definition CAsyncQueue_new :: aq_client where
  "CAsyncQueue_new = \<lparr>c_nBatchSize = 0, m_keyDequeue = [], m_dDequeue = None, m_mq = []\<rparr>"

definition GetDequeueBatchSize :: "aq_client \<Rightarrow> nat" where
  "GetDequeueBatchSize c = c_nBatchSize c mod 0x1000000"

definition GetEnqueueNotified :: "aq_client \<Rightarrow> bool" where
  "GetEnqueueNotified c \<longleftrightarrow> c_nBatchSize c div 0x1000000 = 0"

definition GetLastDequeueCallback :: "aq_client \<Rightarrow> nat option" where
  "GetLastDequeueCallback c = m_dDequeue c"

definition SetLastDequeueCallback :: "nat option \<Rightarrow> aq_client \<Rightarrow> aq_client" where
  "SetLastDequeueCallback deq c = c\<lparr>m_dDequeue := deq\<rparr>"

section \<open>The requests of a client\<close>

text \<open>\<^verbatim>\<open>SendRequest(reqId, sb->GetBuffer(), sb->GetSize(), ...)\<close>.\<close>

definition send_buffer ::
  "send_env \<Rightarrow> 16 word \<Rightarrow> uqueue \<Rightarrow> result_handler option \<Rightarrow> fault + (bool \<times> client_call list)"
where
  "send_buffer E reqId sb rh =
     bindr (read_front sb (m_nSize sb)) (\<lambda>bs. Inr (send_ok E, [Call_SendRequest reqId bs rh]))"

definition cq_job :: "send_env \<Rightarrow> client_call \<Rightarrow> fault + client_call list" where
  "cq_job E job = (if cq_IsAvailable E then bindr (require (cq_ok E)) (\<lambda>_. Inr [job]) else Inr [])"

definition GetKeys :: "send_env \<Rightarrow> nat option \<Rightarrow> fault + (bool \<times> client_call list)" where
  "GetKeys E gk = Inr (send_ok E, [Call_SendRequest idGetKeys [] (map_option H_keys gk)])"

definition StartQueueTrans ::
  "send_env \<Rightarrow> uqueue \<Rightarrow> byte list option \<Rightarrow> nat option \<Rightarrow> fault + (bool \<times> client_call list)"
where
  "StartQueueTrans E sb key qt =
     bindr (cq_job E Call_StartJob) (\<lambda>job.
     bindr (put_cstr sb key) (\<lambda>sb.
     bindr (send_buffer E idStartTrans sb (map_option H_code qt)) (\<lambda>(ok, calls). Inr (ok, job @ calls))))"

definition EndQueueTrans ::
  "send_env \<Rightarrow> uqueue \<Rightarrow> bool \<Rightarrow> nat option \<Rightarrow> fault + (bool \<times> client_call list)"
where
  "EndQueueTrans E sb rollback qt =
     bindr (put_pod 1 sb (if rollback then 1 else 0)) (\<lambda>sb.
     bindr (send_buffer E idEndTrans sb (map_option H_code qt)) (\<lambda>(ok, calls).
     bindr (cq_job E (if rollback then Call_AbortJob else Call_EndJob)) (\<lambda>job. Inr (ok, calls @ job))))"

definition CloseQueue ::
  "send_env \<Rightarrow> uqueue \<Rightarrow> byte list option \<Rightarrow> nat option \<Rightarrow> bool \<Rightarrow> fault + (bool \<times> client_call list)"
where
  "CloseQueue E sb key c permanent =
     bindr (put_cstr sb key) (\<lambda>sb. bindr (put_pod 1 sb (if permanent then 1 else 0)) (\<lambda>sb.
     send_buffer E idClose sb (map_option H_code c)))"

definition FlushQueue ::
  "send_env \<Rightarrow> uqueue \<Rightarrow> byte list option \<Rightarrow> nat option \<Rightarrow> nat \<Rightarrow> fault + (bool \<times> client_call list)"
where
  "FlushQueue E sb key f option =
     bindr (put_cstr sb key) (\<lambda>sb. bindr (put_pod 4 sb option) (\<lambda>sb.
     send_buffer E idFlush sb (map_option H_flush f)))"

definition client_Dequeue ::
  "send_env \<Rightarrow> uqueue \<Rightarrow> byte list option \<Rightarrow> nat option \<Rightarrow> nat \<Rightarrow> aq_client \<Rightarrow>
   fault + ((bool \<times> client_call list) \<times> aq_client)"
where
  "client_Dequeue E sb key d timeout c =
     (let c = c\<lparr>m_keyDequeue := (case key of None \<Rightarrow> [] | Some k \<Rightarrow> k), m_dDequeue := d\<rparr> in
      bindr (put_cstr sb key) (\<lambda>sb. bindr (put_pod 4 sb timeout) (\<lambda>sb.
      bindr (send_buffer E idDequeue sb (map_option H_dequeue d)) (\<lambda>r. Inr (r, c)))))"

section \<open>Batches\<close>

text \<open>
  A batch starts with the number of its messages, which is increased in place. The bytes of a
  message are read from the memory behind the pointer \<open>buffer\<close>.
\<close>

definition push_memory :: "byte mem option \<Rightarrow> nat \<Rightarrow> uqueue \<Rightarrow> fault + uqueue" where
  "push_memory buffer n q =
     (case buffer of None \<Rightarrow> Push q None
      | Some mem \<Rightarrow> bindr (mem_read mem 0 n) (\<lambda>cs. Push q (Some cs)))"

definition BatchMessage :: "16 word \<Rightarrow> byte mem option \<Rightarrow> nat \<Rightarrow> uqueue \<Rightarrow> fault + uqueue" where
  "BatchMessage idMessage buffer n q =
     bindr (require (buffer \<noteq> None \<or> n = 0)) (\<lambda>_.
     bindr (if m_nSize q = 0 then put_pod 4 q 1
            else bindr (read_at q 0 4) (\<lambda>cnt.
                 bindr (mem_write (m_pBuffer q) (GetBuffer q 0) (map Some (le_bytes 4 (add32 cnt 1)))) (\<lambda>p.
                 Inr (q\<lparr>m_pBuffer := p\<rparr>)))) (\<lambda>q.
     bindr (put_pod 2 q (unat idMessage)) (\<lambda>q.
     bindr (put_pod 4 q n) (\<lambda>q. push_memory buffer n q))))"

definition BatchMessage_empty :: "16 word \<Rightarrow> uqueue \<Rightarrow> fault + uqueue" where
  "BatchMessage_empty idMessage q = BatchMessage idMessage None 0 q"

definition BatchMessage_values :: "uqueue \<Rightarrow> 16 word \<Rightarrow> wire_value list \<Rightarrow> uqueue \<Rightarrow> fault + uqueue" where
  "BatchMessage_values sb idMessage ts q =
     bindr (Save_all sb ts) (\<lambda>sb.
     BatchMessage idMessage (Some (drop (GetBuffer sb 0) (m_pBuffer sb))) (m_nSize sb) q)"

definition client_EnqueueBatch ::
  "send_env \<Rightarrow> uqueue \<Rightarrow> byte list option \<Rightarrow> byte mem option \<Rightarrow> nat \<Rightarrow> nat option \<Rightarrow>
   fault + (bool \<times> client_call list)"
where
  "client_EnqueueBatch E sb key buffer n e =
     (if buffer = None \<or> n < 2 * 4 + 2 then Inl Assertion
      else bindr (put_cstr sb key) (\<lambda>sb. bindr (push_memory buffer n sb) (\<lambda>sb.
           send_buffer E idEnqueueBatch sb (map_option H_enqueue e))))"

definition client_EnqueueBatch_queue ::
  "send_env \<Rightarrow> uqueue \<Rightarrow> byte list option \<Rightarrow> uqueue \<Rightarrow> nat option \<Rightarrow>
   fault + ((bool \<times> client_call list) \<times> uqueue)"
where
  "client_EnqueueBatch_queue E sb key q e =
     bindr (client_EnqueueBatch E sb key (Some (drop (GetBuffer q 0) (m_pBuffer q))) (m_nSize q) e) (\<lambda>(ok, calls).
     if ok then bindr (SetSize q 0 True) (\<lambda>q. Inr ((True, calls), q)) else Inr ((False, calls), q))"

definition client_Enqueue ::
  "send_env \<Rightarrow> uqueue \<Rightarrow> byte list option \<Rightarrow> 16 word \<Rightarrow> byte mem option \<Rightarrow> nat \<Rightarrow> nat option \<Rightarrow>
   fault + (bool \<times> client_call list)"
where
  "client_Enqueue E sb key idMessage buffer n e =
     bindr (put_cstr sb key) (\<lambda>sb. bindr (put_pod 2 sb (unat idMessage)) (\<lambda>sb.
     bindr (push_memory buffer n sb) (\<lambda>sb. send_buffer E idEnqueue sb (map_option H_enqueue e))))"

definition client_Enqueue_empty ::
  "send_env \<Rightarrow> uqueue \<Rightarrow> byte list option \<Rightarrow> 16 word \<Rightarrow> nat option \<Rightarrow> fault + (bool \<times> client_call list)"
where
  "client_Enqueue_empty E sb key idMessage e =
     bindr (put_cstr sb key) (\<lambda>sb. bindr (put_pod 2 sb (unat idMessage)) (\<lambda>sb.
     send_buffer E idEnqueue sb (map_option H_enqueue e)))"

definition client_Enqueue_values ::
  "send_env \<Rightarrow> uqueue \<Rightarrow> byte list option \<Rightarrow> 16 word \<Rightarrow> wire_value list \<Rightarrow> nat option \<Rightarrow>
   fault + (bool \<times> client_call list)"
where
  "client_Enqueue_values E sb key idMessage ts e =
     bindr (put_cstr sb key) (\<lambda>sb. bindr (put_pod 2 sb (unat idMessage)) (\<lambda>sb.
     bindr (Save_all sb ts) (\<lambda>sb. send_buffer E idEnqueue sb (map_option H_enqueue e))))"

section \<open>Results and notifications\<close>

text \<open>What a callback of the application is told. An \<^verbatim>\<open>int\<close> is read from 32 bits.\<close>

datatype aq_answer =
    Got_code nat int
  | Got_keys nat "key list"
  | Got_flush nat nat nat
  | Got_dequeue nat nat nat nat nat
  | Got_index nat nat

fun get_strings :: "nat \<Rightarrow> uqueue \<Rightarrow> fault + (key list \<times> uqueue)" where
  "get_strings 0 q = Inr ([], q)"
| "get_strings (Suc n) q =
     bindr (get_string q) (\<lambda>(s, q). bindr (get_strings n q) (\<lambda>(v, q). Inr (s # v, q)))"

fun AsyncResultHandler_run :: "result_handler \<Rightarrow> uqueue \<Rightarrow> fault + (aq_answer \<times> uqueue)" where
  "AsyncResultHandler_run (H_code qt) ar =
     bindr (get_pod 4 ar) (\<lambda>(errCode, ar). Inr (Got_code qt (signed_take_bit 31 (int errCode)), ar))"
| "AsyncResultHandler_run (H_keys gk) ar =
     bindr (get_pod 4 ar) (\<lambda>(n, ar). bindr (get_strings n ar) (\<lambda>(v, ar). Inr (Got_keys gk v, ar)))"
| "AsyncResultHandler_run (H_flush f) ar =
     bindr (get_pod 8 ar) (\<lambda>(messageCount, ar). bindr (get_pod 8 ar) (\<lambda>(fileSize, ar).
     Inr (Got_flush f messageCount fileSize, ar)))"
| "AsyncResultHandler_run (H_dequeue d) ar =
     bindr (get_pod 8 ar) (\<lambda>(messageCount, ar). bindr (get_pod 8 ar) (\<lambda>(fileSize, ar).
     bindr (get_pod 8 ar) (\<lambda>(ret, ar).
     Inr (Got_dequeue d messageCount fileSize (ret mod 4294967296) (ret div 4294967296), ar))))"
| "AsyncResultHandler_run (H_enqueue e) ar =
     bindr (get_pod 8 ar) (\<lambda>(index, ar). Inr (Got_index e index, ar))"

definition idMessageQueued :: "16 word" where "idMessageQueued = 24"

text \<open>A notification that a message is in a queue makes the client ask for it with the last callback.\<close>

definition client_OnBaseRequestprocessed ::
  "send_env \<Rightarrow> uqueue \<Rightarrow> 16 word \<Rightarrow> aq_client \<Rightarrow> fault + (client_call list \<times> aq_client)"
where
  "client_OnBaseRequestprocessed E sb reqId c =
     (if reqId = idMessageQueued
      then bindr (case m_dDequeue c of
                    None \<Rightarrow> Inr ([], c)
                  | Some d \<Rightarrow> bindr (client_Dequeue E sb (Some (m_keyDequeue c)) (Some d) 0 c) (\<lambda>((_, calls), c). Inr (calls, c)))
             (\<lambda>(calls, c). Inr (calls @ IUDelImpl_Invoke (\<lambda>d. [Call_MessageQueued d]) (m_mq c), c))
      else Inr ([], c))"

definition client_OnResultReturned :: "16 word \<Rightarrow> uqueue \<Rightarrow> aq_client \<Rightarrow> fault + (uqueue \<times> aq_client)" where
  "client_OnResultReturned reqId mc c =
     (if reqId = idClose \<or> reqId = idEnqueue then bindr (SetSize mc 0 True) (\<lambda>mc. Inr (mc, c))
      else if reqId = idBatchSizeNotified
      then bindr (get_pod 4 mc) (\<lambda>(n, mc). Inr (mc, c\<lparr>c_nBatchSize := n\<rparr>))
      else Inr (mc, c))"

section \<open>Batches hold the messages\<close>

definition batch :: "message list \<Rightarrow> byte list" where
  "batch ms = (if ms = [] then [] else le_bytes 4 (length ms) @ frames ms)"

text \<open>The memory behind a pointer starts with the bytes that are meant.\<close>

definition points_to :: "byte mem option \<Rightarrow> nat \<Rightarrow> byte list \<Rightarrow> bool" where
  "points_to buffer n bs \<longleftrightarrow> n = length bs \<and>
     (case buffer of None \<Rightarrow> bs = [] | Some mem \<Rightarrow> \<exists>rest. mem = map Some bs @ rest)"

lemma points_to_queue:
  "uq_inv q \<Longrightarrow> points_to (Some (drop (GetBuffer q 0) (m_pBuffer q))) (m_nSize q) (content q)"
  using buffer_front [of q] uq_invD(1) by (simp add: points_to_def)

lemma push_memory_ok:
  assumes "sane_buffer q" "points_to buffer n bs" "length (content q) + length bs \<le> 2000000000"
  shows "\<exists>q'. push_memory buffer n q = Inr q' \<and> sane_buffer q' \<and> content q' = content q @ bs"
proof -
  have i: "uq_inv q" "room q (length bs)" using sane_bufferD [OF assms(1), of "length bs"] assms(3) by auto
  show ?thesis
  proof (cases buffer)
    case None
    with assms show ?thesis by (simp add: push_memory_def points_to_def Push_def Insert_def)
  next
    case (Some mem)
    then have "push_memory buffer n q = Push q (Some (map Some bs))"
      using assms(2) by (auto simp: push_memory_def points_to_def mem_read_def)
    with Push_ok [OF i] sane_buffer_settings [OF assms(1)] show ?thesis by auto
  qed
qed

lemma count_in_place:
  assumes "sane_buffer q" "content q = le_bytes 4 v @ rest" "v < 256 ^ 4"
  shows "\<exists>p. bindr (read_at q 0 4) (\<lambda>cnt.
      bindr (mem_write (m_pBuffer q) (GetBuffer q 0) (map Some (le_bytes 4 (add32 cnt 1)))) (\<lambda>p.
      Inr (q\<lparr>m_pBuffer := p\<rparr>))) = Inr (q\<lparr>m_pBuffer := p\<rparr>) \<and>
    sane_buffer (q\<lparr>m_pBuffer := p\<rparr>) \<and> content (q\<lparr>m_pBuffer := p\<rparr>) = le_bytes 4 (add32 v 1) @ rest"
proof -
  have i: "uq_inv q" using assms(1) by (simp add: sane_buffer_def)
  let ?new = "le_bytes 4 (add32 v 1)"
  let ?p = "mem_put (m_pBuffer q) (0 + m_nHeadPos q) (map Some ?new)"
  obtain pre where r: "uq_rep q pre (content q)" using i by (rule uq_inv_rep)
  note d = uq_repD [OF r]
  have n: "4 \<le> m_nSize q" using uq_invD(1) [OF i] assms(2) by simp
  have "uq_rep (q\<lparr>m_pBuffer := ?p\<rparr>) pre (take 0 (content q) @ ?new @ drop (0 + length ?new) (content q))"
    by (rule overwrite_rep [OF r]) (use n in simp)
  then have o: "uq_inv (q\<lparr>m_pBuffer := ?p\<rparr>)" "content (q\<lparr>m_pBuffer := ?p\<rparr>) = ?new @ rest"
    using assms(2) by (auto dest: uq_rep_inv uq_rep_content)
  have "read_at q 0 4 = Inr v"
    using read_at_ok [OF i, of "[]" "le_bytes 4 v" rest] assms(2,3) by (simp add: le_value_le_bytes)
  moreover have "mem_write (m_pBuffer q) (GetBuffer q 0) (map Some ?new) = Inr ?p"
    using n d by (simp add: GetBuffer_def mem_write_ok)
  ultimately show ?thesis
    using o assms(1) by (intro exI [of _ ?p]) (simp add: sane_buffer_def)
qed

lemma BatchMessage_ok:
  assumes "sane_buffer q" "content q = batch ms" "points_to buffer n bs"
    and "length (frames (ms @ [(i, bs)])) \<le> 1000000000"
  shows "\<exists>q'. BatchMessage i buffer n q = Inr q' \<and> sane_buffer q' \<and> content q' = batch (ms @ [(i, bs)])"
proof -
  have len: "length ms \<le> length (frames ms)" by (induction ms) simp_all
  have n: "n = length bs" "buffer \<noteq> None \<or> n = 0"
    using assms(3) by (auto simp: points_to_def split: option.splits)
  have "\<exists>q1. (if m_nSize q = 0 then put_pod 4 q 1
            else bindr (read_at q 0 4) (\<lambda>cnt.
                 bindr (mem_write (m_pBuffer q) (GetBuffer q 0) (map Some (le_bytes 4 (add32 cnt 1)))) (\<lambda>p.
                 Inr (q\<lparr>m_pBuffer := p\<rparr>)))) = Inr q1 \<and>
      sane_buffer q1 \<and> content q1 = le_bytes 4 (Suc (length ms)) @ frames ms"
  proof (cases "ms = []")
    case True
    then have "content q = []" "m_nSize q = 0"
      using assms(1,2) uq_invD(1) [of q] by (auto simp: batch_def sane_buffer_def)
    then show ?thesis using True put_pod_sane [OF assms(1), of 4 1] by simp
  next
    case False
    then have c: "content q = le_bytes 4 (length ms) @ frames ms" using assms(2) by (simp add: batch_def)
    then have "m_nSize q \<noteq> 0" using assms(1) uq_invD(1) [of q] by (auto simp: sane_buffer_def)
    moreover have "add32 (length ms) 1 = Suc (length ms)" using assms(4) len by (simp add: add32_def)
    ultimately show ?thesis
      using count_in_place [OF assms(1) c] assms(4) len by auto
  qed
  then obtain q1 where q1: "(if m_nSize q = 0 then put_pod 4 q 1
            else bindr (read_at q 0 4) (\<lambda>cnt.
                 bindr (mem_write (m_pBuffer q) (GetBuffer q 0) (map Some (le_bytes 4 (add32 cnt 1)))) (\<lambda>p.
                 Inr (q\<lparr>m_pBuffer := p\<rparr>)))) = Inr q1"
      "sane_buffer q1" "content q1 = le_bytes 4 (Suc (length ms)) @ frames ms" by blast
  obtain q2 where q2: "put_pod 2 q1 (unat i) = Inr q2" "sane_buffer q2" "content q2 = content q1 @ le_bytes 2 (unat i)"
    using put_pod_sane [OF q1(2), of 2] q1(3) assms(4) by auto
  obtain q3 where q3: "put_pod 4 q2 n = Inr q3" "sane_buffer q3" "content q3 = content q2 @ le_bytes 4 n"
    using put_pod_sane [OF q2(2), of 4] q1(3) q2(3) assms(4) by auto
  obtain q4 where q4: "push_memory buffer n q3 = Inr q4" "sane_buffer q4" "content q4 = content q3 @ bs"
    using push_memory_ok [OF q3(2) assms(3)] q1(3) q2(3) q3(3) assms(4) by auto
  show ?thesis
    unfolding BatchMessage_def using n q1 q2 q3 q4 by (simp add: batch_def frame_def)
qed

fun BatchMessages :: "message list \<Rightarrow> uqueue \<Rightarrow> fault + uqueue" where
  "BatchMessages [] q = Inr q"
| "BatchMessages ((i, bs) # ms) q =
     bindr (BatchMessage i (Some (map Some bs)) (length bs) q) (\<lambda>q. BatchMessages ms q)"

lemma BatchMessages_ok:
  assumes "sane_buffer q" "content q = batch ns" "length (frames (ns @ ms)) \<le> 1000000000"
  shows "\<exists>q'. BatchMessages ms q = Inr q' \<and> sane_buffer q' \<and> content q' = batch (ns @ ms)"
  using assms
proof (induction ms arbitrary: q ns)
  case (Cons m ms)
  obtain i bs where m: "m = (i, bs)" by (cases m)
  have "points_to (Some (map Some bs)) (length bs) bs" by (simp add: points_to_def)
  from BatchMessage_ok [OF Cons.prems(1,2) this, of i] Cons.prems(3) m obtain q1 where
    q1: "BatchMessage i (Some (map Some bs)) (length bs) q = Inr q1" "sane_buffer q1" "content q1 = batch (ns @ [(i, bs)])"
    by auto
  with Cons.IH [OF q1(2,3)] Cons.prems(3) m show ?case by auto
qed simp

section \<open>The bytes of the requests\<close>

lemma put_cstr_sane:
  assumes "sane_buffer sb" "length (content sb) + 4 + length key \<le> 2000000000"
  shows "\<exists>q. put_cstr sb (Some key) = Inr q \<and> sane_buffer q \<and> content q = content sb @ lwire key"
proof -
  have "uq_inv sb" "room sb (4 + length key)" using sane_bufferD [OF assms(1), of "4 + length key"] assms(2) by auto
  then obtain q where "put_string sb key = Inr q" "uq_inv q" "same_settings sb q" "content q = content sb @ lwire key"
    using put_string_ok [of sb key] by auto
  moreover have "put_cstr sb (Some key) = put_string sb key" by (simp add: put_cstr_def put_string_def)
  ultimately show ?thesis using sane_buffer_settings [OF assms(1)] by auto
qed

lemma send_buffer_ok:
  "uq_inv sb \<Longrightarrow> send_buffer E reqId sb rh = Inr (send_ok E, [Call_SendRequest reqId (content sb) rh])"
  using read_front_ok [of sb "content sb" "[]"] uq_invD(1) by (simp add: send_buffer_def)

text \<open>The requests that a client sends, as operations of the server.\<close>

fun op_handler :: "nat \<Rightarrow> aq_op \<Rightarrow> result_handler" where
  "op_handler cb (Put key i bs) = H_enqueue cb"
| "op_handler cb (Put_batch key ms) = H_enqueue cb"
| "op_handler cb (Flush_queue key option) = H_flush cb"
| "op_handler cb (Fetch key timeout) = H_dequeue cb"
| "op_handler cb Keys = H_keys cb"
| "op_handler cb _ = H_code cb"

fun client_request ::
  "send_env \<Rightarrow> uqueue \<Rightarrow> nat \<Rightarrow> aq_op \<Rightarrow> aq_client \<Rightarrow> fault + ((bool \<times> client_call list) \<times> aq_client)"
where
  "client_request E sb cb (Start buf key) c = bindr (StartQueueTrans E sb (Some key) (Some cb)) (\<lambda>r. Inr (r, c))"
| "client_request E sb cb (Put key i bs) c =
     bindr (client_Enqueue E sb (Some key) i (Some (map Some bs)) (length bs) (Some cb)) (\<lambda>r. Inr (r, c))"
| "client_request E sb cb (Put_batch key ms) c =
     bindr (BatchMessages ms new_buffer) (\<lambda>q.
     bindr (client_EnqueueBatch_queue E sb (Some key) q (Some cb)) (\<lambda>(r, q). Inr (r, c)))"
| "client_request E sb cb (Finish rollback) c = bindr (EndQueueTrans E sb rollback (Some cb)) (\<lambda>r. Inr (r, c))"
| "client_request E sb cb (Close_queue key permanent) c =
     bindr (CloseQueue E sb (Some key) (Some cb) permanent) (\<lambda>r. Inr (r, c))"
| "client_request E sb cb (Flush_queue key option) c =
     bindr (FlushQueue E sb (Some key) (Some cb) option) (\<lambda>r. Inr (r, c))"
| "client_request E sb cb (Fetch key timeout) c = client_Dequeue E sb (Some key) (Some cb) timeout c"
| "client_request E sb cb Keys c = bindr (GetKeys E (Some cb)) (\<lambda>r. Inr (r, c))"
| "client_request E sb cb _ c = Inr ((False, []), c)"

fun is_request :: "aq_op \<Rightarrow> bool" where
  "is_request (Connect uq) = False"
| "is_request Leave = False"
| "is_request Cancel = False"
| "is_request Batch_size = False"
| "is_request (Put_batch key ms) = (ms \<noteq> [])"
| "is_request _ = True"

fun sends :: "client_call list \<Rightarrow> (16 word \<times> byte list \<times> result_handler option) list" where
  "sends [] = []"
| "sends (Call_SendRequest reqId bs rh # calls) = (reqId, bs, rh) # sends calls"
| "sends (_ # calls) = sends calls"

lemma sends_append [simp]: "sends (xs @ ys) = sends xs @ sends ys"
  by (induction xs rule: sends.induct) simp_all

lemma sends_job: "\<exists>job. cq_job E c = Inr job \<and> (c \<in> {Call_StartJob, Call_EndJob, Call_AbortJob} \<longrightarrow> sends job = [])"
  if "cq_IsAvailable E \<Longrightarrow> cq_ok E"
  using that by (auto simp: cq_job_def)

lemma EnqueueBatch_sends:
  assumes "sane_buffer sb" "content sb = []" "sane_buffer q" "content q = batch ms" "ms \<noteq> []"
    and "4 + length key + length (content q) \<le> 2000000000"
  shows "\<exists>q'. client_EnqueueBatch_queue E sb (Some key) q cb =
      Inr ((send_ok E, [Call_SendRequest idEnqueueBatch (lwire key @ le_bytes 4 (length ms) @ frames ms) (map_option H_enqueue cb)]), q') \<and>
    sane_buffer q' \<and> content q' = (if send_ok E then [] else content q)"
proof -
  have i: "uq_inv q" using assms(3) by (simp add: sane_buffer_def)
  let ?buffer = "Some (drop (GetBuffer q 0) (m_pBuffer q))"
  have p: "points_to ?buffer (m_nSize q) (content q)" using points_to_queue [OF i] .
  obtain m ns where "ms = m # ns" using assms(5) by (cases ms) auto
  then have "10 \<le> m_nSize q" using uq_invD(1) [OF i] assms(4) by (simp add: batch_def)
  moreover obtain s1 where s1: "put_cstr sb (Some key) = Inr s1" "sane_buffer s1" "content s1 = lwire key"
    using put_cstr_sane [OF assms(1), of key] assms(2,6) by auto
  moreover obtain s2 where s2: "push_memory ?buffer (m_nSize q) s1 = Inr s2" "sane_buffer s2" "content s2 = lwire key @ content q"
    using push_memory_ok [OF s1(2) p] s1(3) assms(6) by auto
  moreover have "uq_inv s2" using s2(2) by (simp add: sane_buffer_def)
  ultimately have "client_EnqueueBatch E sb (Some key) ?buffer (m_nSize q) cb =
      Inr (send_ok E, [Call_SendRequest idEnqueueBatch (lwire key @ content q) (map_option H_enqueue cb)])"
    by (simp add: client_EnqueueBatch_def send_buffer_ok)
  moreover have "\<exists>q'. SetSize q 0 True = Inr q' \<and> sane_buffer q' \<and> content q' = []"
    using SetSize_ok [OF i, of 0 True] sane_buffer_settings [OF assms(3)] by auto
  ultimately show ?thesis
    using assms(3-5) by (auto simp: client_EnqueueBatch_queue_def batch_def)
qed

lemma client_request_ok:
  assumes "sane_buffer sb" "content sb = []" "is_request op" "length (snd (op_request op)) \<le> 1000000000"
    and "cq_IsAvailable E \<Longrightarrow> cq_ok E"
  shows "\<exists>calls c'. client_request E sb cb op c = Inr ((send_ok E, calls), c') \<and>
    sends calls = [(fst (op_request op), snd (op_request op), Some (op_handler cb op))]"
proof -
  have I: "uq_inv q" if "sane_buffer q" for q using that by (simp add: sane_buffer_def)
  have key: "\<exists>q. put_cstr sb (Some key) = Inr q \<and> sane_buffer q \<and> content q = lwire key" if "length key \<le> 1000000000" for key
    using put_cstr_sane [OF assms(1), of key] assms(2) that by simp
  have num: "\<exists>q'. put_pod n q v = Inr q' \<and> sane_buffer q' \<and> content q' = content q @ le_bytes n v"
    if "sane_buffer q" "length (content q) \<le> 1000000000" "n \<le> 8" for n v q
    using put_pod_sane [OF that(1), of n v] that(2,3) by simp
  note job = sends_job [of E, OF assms(5)]
  show ?thesis
  proof (cases op)
    case (Start buf key)
    then obtain q where "put_cstr sb (Some key) = Inr q" "uq_inv q" "content q = lwire key" using key [of key] assms(4) I by auto
    with Start job [of Call_StartJob] show ?thesis by (auto simp: StartQueueTrans_def send_buffer_ok)
  next
    case (Put key i bs)
    then obtain q where q: "put_cstr sb (Some key) = Inr q" "sane_buffer q" "content q = lwire key" using key [of key] assms(4) by auto
    then obtain q1 where q1: "put_pod 2 q (unat i) = Inr q1" "sane_buffer q1" "content q1 = lwire key @ le_bytes 2 (unat i)"
      using num [of q 2] assms(4) Put by auto
    have "points_to (Some (map Some bs)) (length bs) bs" by (simp add: points_to_def)
    from push_memory_ok [OF q1(2) this] q1(3) assms(4) Put obtain q2 where
      "push_memory (Some (map Some bs)) (length bs) q1 = Inr q2" "sane_buffer q2" "content q2 = lwire key @ le_bytes 2 (unat i) @ bs"
      by auto
    with Put q q1 I show ?thesis by (simp add: client_Enqueue_def send_buffer_ok)
  next
    case (Put_batch key ms)
    then have ms: "ms \<noteq> []" "length (frames ms) + 8 + length key \<le> 1000000000" using assms(3,4) by simp_all
    then obtain q where q: "BatchMessages ms new_buffer = Inr q" "sane_buffer q" "content q = batch ms"
      using BatchMessages_ok [OF sane_new_buffer, of "[]" ms] by (auto simp: batch_def)
    have "4 + length key + length (content q) \<le> 2000000000" using q(3) ms by (simp add: batch_def)
    from EnqueueBatch_sends [OF assms(1,2) q(2,3) ms(1) this, of E "Some cb"] q(1) Put_batch show ?thesis by auto
  next
    case (Finish rb)
    obtain q where "put_pod 1 sb (if rb then 1 else 0) = Inr q" "uq_inv q" "content q = le_bytes 1 (if rb then 1 else 0)"
      using num [OF assms(1), of 1 "if rb then 1 else 0"] assms(2) I by auto
    with Finish job [of "if rb then Call_AbortJob else Call_EndJob"] show ?thesis
      by (auto simp: EndQueueTrans_def send_buffer_ok)
  next
    case (Close_queue key perm)
    then obtain q where q: "put_cstr sb (Some key) = Inr q" "sane_buffer q" "content q = lwire key" using key [of key] assms(4) by auto
    then obtain q1 where "put_pod 1 q (if perm then 1 else 0) = Inr q1" "uq_inv q1"
      "content q1 = lwire key @ le_bytes 1 (if perm then 1 else 0)"
      using num [of q 1 "if perm then 1 else 0"] assms(4) Close_queue I by auto
    with Close_queue q show ?thesis by (simp add: CloseQueue_def send_buffer_ok)
  next
    case (Flush_queue key opt)
    then obtain q where q: "put_cstr sb (Some key) = Inr q" "sane_buffer q" "content q = lwire key" using key [of key] assms(4) by auto
    then obtain q1 where "put_pod 4 q opt = Inr q1" "uq_inv q1" "content q1 = lwire key @ le_bytes 4 opt"
      using num [of q 4 opt] assms(4) Flush_queue I by auto
    with Flush_queue q show ?thesis by (simp add: FlushQueue_def send_buffer_ok)
  next
    case (Fetch key t)
    then obtain q where q: "put_cstr sb (Some key) = Inr q" "sane_buffer q" "content q = lwire key" using key [of key] assms(4) by auto
    then obtain q1 where "put_pod 4 q t = Inr q1" "uq_inv q1" "content q1 = lwire key @ le_bytes 4 t"
      using num [of q 4 t] assms(4) Fetch I by auto
    with Fetch q show ?thesis by (simp add: client_Dequeue_def send_buffer_ok)
  next
    case Keys
    then show ?thesis by (simp add: GetKeys_def)
  qed (use assms(3) in simp_all)
qed

section \<open>The results that the callbacks see\<close>

fun answer_bytes :: "aq_answer \<Rightarrow> byte list" where
  "answer_bytes (Got_code cb e) = le_bytes 4 (nat (e mod 4294967296))"
| "answer_bytes (Got_keys cb v) = le_bytes 4 (length v) @ concat (map lwire v)"
| "answer_bytes (Got_flush cb n m) = le_bytes 8 n @ le_bytes 8 m"
| "answer_bytes (Got_dequeue cb n m msgs bytes) = le_bytes 8 n @ le_bytes 8 m @ le_bytes 8 (msgs + 4294967296 * bytes)"
| "answer_bytes (Got_index cb i) = le_bytes 8 i"

fun reply_size :: "result_handler \<Rightarrow> nat" where
  "reply_size (H_code cb) = 4"
| "reply_size (H_keys cb) = 4"
| "reply_size (H_flush cb) = 16"
| "reply_size (H_dequeue cb) = 24"
| "reply_size (H_enqueue cb) = 8"

lemma get_pod_prefix:
  assumes "uq_inv q" "n \<le> length (content q)" "n \<le> max32"
  shows "\<exists>v q'. get_pod n q = Inr (v, q') \<and> uq_inv q' \<and> content q = le_bytes n v @ content q'"
  using get_pod_cases [OF assms(1,3)] uq_invD(1) [OF assms(1)] assms(2) by auto

lemma signed_code: "nat (signed_take_bit 31 (int v) mod 4294967296) = v" if "v < 4294967296"
proof -
  have "signed_take_bit 31 (int v) mod 4294967296 = int v mod 4294967296"
    using take_bit_signed_take_bit [of 32 31 "int v"] by (simp add: take_bit_eq_mod)
  with that show ?thesis by simp
qed

lemma AsyncResultHandler_reads:
  assumes "uq_inv mc" "length (content mc) = reply_size h" "\<And>cb. h \<noteq> H_keys cb"
  shows "\<exists>a mc'. AsyncResultHandler_run h mc = Inr (a, mc') \<and> answer_bytes a = content mc"
proof -
  have m: "n \<le> 8 \<Longrightarrow> n \<le> max32" for n by (simp add: max32_def)
  show ?thesis
  proof (cases h)
    case (H_code cb)
    obtain v q where g: "get_pod 4 mc = Inr (v, q)" "uq_inv q" "content mc = le_bytes 4 v @ content q"
      using get_pod_prefix [OF assms(1), of 4] assms(2) H_code m by auto
    then have "v < 4294967296" "content q = []"
      using get_pod_cases [OF assms(1), of 4] assms(2) H_code m by auto
    with g H_code show ?thesis by (simp add: signed_code)
  next
    case (H_keys cb) then show ?thesis using assms(3) by blast
  next
    case (H_flush cb)
    obtain v q where g: "get_pod 8 mc = Inr (v, q)" "uq_inv q" "content mc = le_bytes 8 v @ content q"
      using get_pod_prefix [OF assms(1), of 8] assms(2) H_flush m by auto
    obtain v' q' where g': "get_pod 8 q = Inr (v', q')" "uq_inv q'" "content q = le_bytes 8 v' @ content q'"
      using get_pod_prefix [OF g(2), of 8] g(3) assms(2) H_flush m by auto
    from g g' assms(2) H_flush show ?thesis by auto
  next
    case (H_dequeue cb)
    obtain v q where g: "get_pod 8 mc = Inr (v, q)" "uq_inv q" "content mc = le_bytes 8 v @ content q"
      using get_pod_prefix [OF assms(1), of 8] assms(2) H_dequeue m by auto
    obtain v' q' where g': "get_pod 8 q = Inr (v', q')" "uq_inv q'" "content q = le_bytes 8 v' @ content q'"
      using get_pod_prefix [OF g(2), of 8] g(3) assms(2) H_dequeue m by auto
    obtain v'' q'' where g'': "get_pod 8 q' = Inr (v'', q'')" "uq_inv q''" "content q' = le_bytes 8 v'' @ content q''"
      using get_pod_prefix [OF g'(2), of 8] g(3) g'(3) assms(2) H_dequeue m by auto
    from g g' g'' assms(2) H_dequeue show ?thesis by auto
  next
    case (H_enqueue cb)
    obtain v q where g: "get_pod 8 mc = Inr (v, q)" "uq_inv q" "content mc = le_bytes 8 v @ content q"
      using get_pod_prefix [OF assms(1), of 8] assms(2) H_enqueue m by auto
    then show ?thesis using assms(2) H_enqueue by auto
  qed
qed

lemma get_strings_ok:
  "uq_inv q \<Longrightarrow> content q = concat (map lwire v) @ rest \<Longrightarrow>
   \<exists>q'. get_strings (length v) q = Inr (v, q') \<and> uq_inv q' \<and> content q' = rest"
proof (induction v arbitrary: q)
  case (Cons s v)
  have "length (content q) \<le> max32"
    using uq_invD(1) [OF Cons.prems(1)] Cons.prems(1) by (simp add: uq_inv_def max32_def)
  then have "length s < UQUEUE_NULL_LENGTH" using Cons.prems(2) by (simp add: UQUEUE_NULL_LENGTH_def max32_def lwire_def)
  with get_string_ok [OF Cons.prems(1), of s] Cons.prems(2) obtain q1 where
    "get_string q = Inr (s, q1)" "uq_inv q1" "content q1 = concat (map lwire v) @ rest" by auto
  with Cons.IH [of q1] show ?case by auto
qed simp

lemma keys_decode:
  assumes "uq_inv mc" "content mc = le_bytes 4 (length v) @ concat (map lwire v)"
  shows "\<exists>mc'. AsyncResultHandler_run (H_keys cb) mc = Inr (Got_keys cb v, mc') \<and> content mc' = []"
proof -
  have "length v \<le> length (concat (map lwire v))" by (induction v) (simp_all add: lwire_def)
  moreover have "length (content mc) < 4294967296"
    using uq_invD(1) [OF assms(1)] assms(1) by (simp add: uq_inv_def max32_def)
  ultimately have n: "length v < 256 ^ 4" using assms(2) by (simp del: length_concat)
  obtain q where "get_pod 4 mc = Inr (length v, q)" "uq_inv q" "content q = concat (map lwire v)"
    using get_pod_ok [OF assms(1) n assms(2)] by auto
  then show ?thesis using get_strings_ok [of q v "[]"] by auto
qed

text \<open>The plugin answers a request with as many bytes as the handler of the client reads.\<close>

lemma serve_reply:
  assumes "serve K buf os endian reqId bs p s = Inr (r, s')"
  shows "\<exists>s1. main_handler K buf reqId p s1 = Inr (r, s')"
proof -
  obtain uq r1 s1 where r1: "OnRequestArrive K reqId (length bs) p (set_UQueue p uq s) = Inr (r1, s1)"
    "(case r1 of Some b \<Rightarrow> Inr (Some b, s1)
     | None \<Rightarrow> if reqId \<in> GetOneSlowRequestID ` {..<GetNumOfSlowRequests}
               then OnSlowRequestArrive K reqId p s1 else OnFastRequestArrive K buf reqId p s1) = Inr (r, s')"
    using assms by (auto simp: serve_def OnReqArrive_def bindr_Inr_iff)
  from OnRequestArrive_cases [OF r1(1)] r1(2) show ?thesis
    by (auto simp: main_handler_def slow_ids split: option.splits)
qed

lemma reply_has_size:
  assumes "run_aq_op K os endian s (p, op) = Inr (ob, s')" "is_request op" "op \<noteq> Keys"
  shows "length (fst ob) = reply_size (op_handler cb op)"
proof -
  obtain reqId bs where rq: "op_request op = (reqId, bs)" by fastforce
  have "run_aq_op K os endian s (p, op) = bindr (serve K (op_buffer op) os endian reqId bs p s) (\<lambda>(r, s').
      Inr ((case r of Some b \<Rightarrow> b | None \<Rightarrow> [], opened s s'), s'))"
    using assms(2) rq by (cases op) (simp_all add: run_aq_op_def)
  then obtain r where "serve K (op_buffer op) os endian reqId bs p s = Inr (r, s')" "fst ob = (case r of Some b \<Rightarrow> b | None \<Rightarrow> [])"
    using assms(1) by (cases "serve K (op_buffer op) os endian reqId bs p s") auto
  with serve_reply obtain s1 where s1: "main_handler K (op_buffer op) reqId p s1 = Inr (r, s')"
    "fst ob = (case r of Some b \<Rightarrow> b | None \<Rightarrow> [])" by blast
  show ?thesis
    using s1 rq assms(2,3)
    by (cases op) (auto simp: main_handler_def slow_ids OnSlowRequestArrive_def OnFastRequestArrive_def id_values handled_def
        bindr_Inr_iff on_StartTrans_def on_Enqueue_def on_EnqueueBatch_def on_EndTrans_def on_Close_def on_Flush_def on_Dequeue_def)
qed

section \<open>Clients and server together\<close>

text \<open>
  The bytes of a request reach the server as they were sent, the result reaches the buffer \<open>mc\<close>
  of the client and from there its handler. The server is told by the core that a client has
  come, has gone or has cancelled. It requests its batch size from itself when a client has
  come, and the result goes to the client without a handler.
\<close>

definition aq_obs :: "aq_answer option \<times> nat option \<Rightarrow> obs" where
  "aq_obs a = (case fst a of None \<Rightarrow> [] | Some a \<Rightarrow> answer_bytes a, snd a)"

definition exchange ::
  "'w core \<Rightarrow> tagOperationSystem \<Rightarrow> bool \<Rightarrow> send_env \<Rightarrow> uqueue \<Rightarrow> uqueue \<Rightarrow> nat \<times> aq_op \<Rightarrow>
   (nat \<Rightarrow> aq_client) \<times> 'w aq_server \<Rightarrow>
   fault + ((aq_answer option \<times> nat option) \<times> (nat \<Rightarrow> aq_client) \<times> 'w aq_server)"
where
  "exchange K os endian E sb mc po st =
     (case po of (p, op) \<Rightarrow> case st of (cs, s) \<Rightarrow>
        if is_request op
        then bindr (client_request E sb p op (cs p)) (\<lambda>((ok, calls), c).
             case sends calls of
               [(reqId, bs, Some h)] \<Rightarrow>
                 bindr (serve K (op_buffer op) os endian reqId bs p s) (\<lambda>(r, s').
                 bindr (push_bytes mc (case r of Some b \<Rightarrow> b | None \<Rightarrow> [])) (\<lambda>mc.
                 bindr (AsyncResultHandler_run h mc) (\<lambda>(a, _).
                 Inr ((Some a, opened s s'), cs(p := c), s'))))
             | _ \<Rightarrow> Inr ((None, None), cs(p := c), s))
        else bindr (run_aq_op K os endian s (p, op)) (\<lambda>(ob, s').
             if op = Batch_size
             then bindr (push_bytes mc (fst ob)) (\<lambda>mc.
                  bindr (client_OnResultReturned idBatchSizeNotified mc (cs p)) (\<lambda>(_, c).
                  Inr ((None, snd ob), cs(p := c), s')))
             else Inr ((None, snd ob), cs, s')))"

fun run_session ::
  "'w core \<Rightarrow> tagOperationSystem \<Rightarrow> bool \<Rightarrow> send_env \<Rightarrow> uqueue \<Rightarrow> uqueue \<Rightarrow> (nat \<times> aq_op) list \<Rightarrow>
   (nat \<Rightarrow> aq_client) \<times> 'w aq_server \<Rightarrow>
   fault + ((aq_answer option \<times> nat option) list \<times> (nat \<Rightarrow> aq_client) \<times> 'w aq_server)"
where
  "run_session K os endian E sb mc [] st = Inr ([], st)"
| "run_session K os endian E sb mc (po # ops) st =
     bindr (exchange K os endian E sb mc po st) (\<lambda>(a, st).
     bindr (run_session K os endian E sb mc ops st) (\<lambda>(as, st). Inr (a # as, st)))"

definition session_op :: "nat \<times> aq_op \<Rightarrow> bool" where
  "session_op po \<longleftrightarrow> snd po \<noteq> Keys \<and> (\<forall>key. snd po \<noteq> Put_batch key []) \<and>
     length (snd (op_request (snd po))) \<le> 1000000000"

lemma push_mc:
  assumes "sane_buffer mc" "content mc = []" "length bs \<le> 1000000000"
  shows "\<exists>q. push_bytes mc bs = Inr q \<and> uq_inv q \<and> content q = bs"
  using sane_bufferD [OF assms(1), of "length bs"] assms(2,3) Push_ok [of mc bs] by (auto simp: push_bytes_def)

lemma run_aq_op_serves:
  assumes "is_request op"
  shows "run_aq_op K os endian s (p, op) =
    bindr (serve K (op_buffer op) os endian (fst (op_request op)) (snd (op_request op)) p s) (\<lambda>(r, s').
      Inr ((case r of Some b \<Rightarrow> b | None \<Rightarrow> [], opened s s'), s'))"
  using assms by (cases op) (simp_all add: run_aq_op_def)

lemma no_request_spec: "\<not> is_request op \<Longrightarrow> (\<And>key. op \<noteq> Put_batch key []) \<Longrightarrow> spec_aq_op p op (bs, o') sp = spec_aq_op p op (bs', o') sp"
  by (cases op) auto

lemma batch_size_reply:
  "run_aq_op K os endian s (p, Batch_size) = Inr (ob, s') \<Longrightarrow> fst ob = le_bytes 4 (NotifyBatchSize s')"
proof -
  assume a: "run_aq_op K os endian s (p, Batch_size) = Inr (ob, s')"
  have "run_aq_op K os endian s (p, Batch_size) =
    bindr (serve K new_buffer os endian idBatchSizeNotified [] p s) (\<lambda>(r, s').
      Inr ((case r of Some b \<Rightarrow> b | None \<Rightarrow> [], opened s s'), s'))"
    by (simp add: run_aq_op_def)
  then obtain r where "serve K new_buffer os endian idBatchSizeNotified [] p s = Inr (r, s')"
    "fst ob = (case r of Some b \<Rightarrow> b | None \<Rightarrow> [])"
    using a by (cases "serve K new_buffer os endian idBatchSizeNotified [] p s") auto
  with serve_reply obtain s1 where "main_handler K new_buffer idBatchSizeNotified p s1 = Inr (r, s')"
    "fst ob = (case r of Some b \<Rightarrow> b | None \<Rightarrow> [])" by blast
  then show ?thesis by (auto simp: main_handler_def slow_ids OnFastRequestArrive_def id_values)
qed

lemma batch_size_delivered:
  assumes "uq_inv mc" "content mc = le_bytes 4 n" "n < 256 ^ 4"
  shows "\<exists>mc'. client_OnResultReturned idBatchSizeNotified mc c = Inr (mc', c\<lparr>c_nBatchSize := n\<rparr>)"
  using get_pod_ok [OF assms(1,3), of "[]"] assms(2) by (auto simp: client_OnResultReturned_def id_values)

lemma NotifyBatchSize_bound: "NotifyBatchSize s < 256 ^ 4"
  by (simp add: NotifyBatchSize_def add32_def)

lemma exchange_ok:
  assumes sb: "sane_buffer sb" "content sb = []" and mc: "sane_buffer mc" "content mc = []"
    and E: "cq_IsAvailable E \<Longrightarrow> cq_ok E" and op: "session_op (p, op)"
    and r: "run_aq_op K os endian s (p, op) = Inr (ob, s')"
  shows "\<exists>a cs'. exchange K os endian E sb mc (p, op) (cs, s) = Inr (a, cs', s') \<and>
    spec_aq_op p op (aq_obs a) sp = spec_aq_op p op ob sp"
proof (cases "is_request op")
  case True
  obtain calls c' where c: "client_request E sb p op (cs p) = Inr ((send_ok E, calls), c')"
    "sends calls = [(fst (op_request op), snd (op_request op), Some (op_handler p op))]"
    using client_request_ok [OF sb True _ E, of p "cs p"] op by (auto simp: session_op_def)
  obtain rep where rep: "serve K (op_buffer op) os endian (fst (op_request op)) (snd (op_request op)) p s = Inr (rep, s')"
    "ob = (case rep of Some b \<Rightarrow> b | None \<Rightarrow> [], opened s s')"
    using r unfolding run_aq_op_serves [OF True]
    by (cases "serve K (op_buffer op) os endian (fst (op_request op)) (snd (op_request op)) p s") auto
  have k: "op \<noteq> Keys" using op by (simp add: session_op_def)
  have len: "length (fst ob) = reply_size (op_handler p op)" using reply_has_size [OF r True k] .
  have "reply_size (op_handler p op) \<le> 24" by (cases op) simp_all
  with push_mc [OF mc, of "fst ob"] len obtain q where q: "push_bytes mc (fst ob) = Inr q" "uq_inv q" "content q = fst ob"
    by auto
  moreover have "\<And>cb. op_handler p op \<noteq> H_keys cb" using k by (cases op) simp_all
  ultimately obtain a mc' where "AsyncResultHandler_run (op_handler p op) q = Inr (a, mc')" "answer_bytes a = fst ob"
    using AsyncResultHandler_reads [of q "op_handler p op"] len by auto
  with True c rep q show ?thesis by (auto simp: exchange_def aq_obs_def)
next
  case False
  have b: "\<And>key. op \<noteq> Put_batch key []" using op by (simp add: session_op_def)
  show ?thesis
  proof (cases "op = Batch_size")
    case True
    have f: "fst ob = le_bytes 4 (NotifyBatchSize s')" using batch_size_reply r True by blast
    with push_mc [OF mc, of "fst ob"] obtain q where q: "push_bytes mc (fst ob) = Inr q" "uq_inv q" "content q = fst ob" by auto
    with batch_size_delivered [OF q(2) _ NotifyBatchSize_bound, of s'] f obtain mc' where
      "client_OnResultReturned idBatchSizeNotified q (cs p) = Inr (mc', (cs p)\<lparr>c_nBatchSize := NotifyBatchSize s'\<rparr>)" by auto
    with True r q show ?thesis by (auto simp: exchange_def)
  next
    case nb: False
    with False r no_request_spec [OF False b, of p _ "snd ob" sp "fst ob"] show ?thesis
      by (auto simp: exchange_def aq_obs_def)
  qed
qed

lemma run_session_ok:
  assumes sb: "sane_buffer sb" "content sb = []" and mc: "sane_buffer mc" "content mc = []"
    and E: "cq_IsAvailable E \<Longrightarrow> cq_ok E"
  shows "list_all session_op ops \<Longrightarrow> run_aq K os endian ops s = Inr (obs, s') \<Longrightarrow>
    \<exists>as cs'. run_session K os endian E sb mc ops (cs, s) = Inr (as, cs', s') \<and> length as = length ops \<and>
      spec_aq ops (map aq_obs as) sp = spec_aq ops obs sp"
proof (induction ops arbitrary: s obs cs sp)
  case Nil
  then show ?case by simp
next
  case (Cons po ops)
  obtain p op where po: "po = (p, op)" by (cases po)
  obtain ob s1 obs1 where r: "run_aq_op K os endian s (p, op) = Inr (ob, s1)"
    "run_aq K os endian ops s1 = Inr (obs1, s')" "obs = ob # obs1"
    using Cons.prems(2) po by (auto simp: bindr_Inr_iff)
  have "session_op (p, op)" "list_all session_op ops" using Cons.prems(1) po by simp_all
  from exchange_ok [OF sb mc E this(1) r(1), of cs sp] obtain a cs1 where
    a: "exchange K os endian E sb mc (p, op) (cs, s) = Inr (a, cs1, s1)"
      "spec_aq_op p op (aq_obs a) sp = spec_aq_op p op ob sp" by blast
  from Cons.IH [OF \<open>list_all session_op ops\<close> r(2), of cs1 "spec_aq_op p op ob sp"] obtain as cs' where
    "run_session K os endian E sb mc ops (cs1, s1) = Inr (as, cs', s')" "length as = length ops"
    "spec_aq ops (map aq_obs as) (spec_aq_op p op ob sp) = spec_aq ops obs1 (spec_aq_op p op ob sp)" by blast
  with a r(3) po show ?case by simp
qed

section \<open>Properties\<close>

text \<open>
  C4: Any number of clients and the server plugin, with any sequence of requests of the clients:
  every request is sent as bytes that the plugin understands, every result is read by the
  handler that waits for it, nothing fails, and what the callbacks of the applications are told
  determines the contents of all queues. A batch may be put together from any messages.
\<close>

theorem clients_and_server_keep_queues:
  assumes "core_ok K log saved" "ops_ok [] ops" "short_messages (sent_messages ops)" "list_all session_op ops"
    and "sane_buffer sb" "content sb = []" "sane_buffer mc" "content mc = []" "cq_IsAvailable E \<Longrightarrow> cq_ok E"
  shows "\<exists>as cs s'. run_session K os endian E sb mc ops (\<lambda>_. CAsyncQueue_new, server_new w) = Inr (as, cs, s') \<and>
    length as = length ops \<and>
    log (m_world s') = sp_log (spec_aq ops (map aq_obs as) (spec_new (log w))) \<and>
    handle_of s' = sp_keys (spec_aq ops (map aq_obs as) (spec_new (log w)))"
proof -
  obtain obs s' where r: "run_aq K os endian ops (server_new w) = Inr (obs, s')"
    "aq_rel log s' (spec_aq ops obs (spec_new (log w)))"
    using run_from_new [OF assms(1-3), of os endian w] by blast
  from run_session_ok [OF assms(5-9,4) r(1), of "\<lambda>_. CAsyncQueue_new" "spec_new (log w)"] r(2) show ?thesis
    by (fastforce simp: aq_rel_def)
qed

definition session_ops :: "(nat \<times> aq_op) list" where
  "session_ops =
     [(0, Connect new_buffer), (0, Batch_size), (1, Connect new_buffer), (0, Start new_buffer [97]), (0, Put [97] 513 [1, 2]),
      (1, Put [98] 514 []), (0, Put_batch [97] [(515, [3]), (516, [4, 5])]), (1, Close_queue [97] False),
      (0, Flush_queue [98] 0), (0, Finish False), (1, Fetch [97] 10), (1, Leave)]"

lemma session_ops_ok: "ops_ok [] session_ops" "short_messages (sent_messages session_ops)" "list_all session_op session_ops"
  by (simp_all add: session_ops_def sane_new_buffer max32_def short_messages_def session_op_def)

theorem clients_and_server_keep_queues_witness:
  "\<exists>as cs s'. run_session list_core osUnix False \<lparr>send_ok = True, cq_IsAvailable = False, cq_ok = False\<rparr> new_buffer new_buffer
      session_ops (\<lambda>_. CAsyncQueue_new, server_new (\<lambda>_. [], \<lambda>_. [])) = Inr (as, cs, s') \<and>
    length as = length session_ops \<and>
    fst (m_world s') = sp_log (spec_aq session_ops (map aq_obs as) (spec_new (\<lambda>_. []))) \<and>
    handle_of s' = sp_keys (spec_aq session_ops (map aq_obs as) (spec_new (\<lambda>_. [])))"
  using clients_and_server_keep_queues [OF list_core_ok session_ops_ok sane_new_buffer new_buffer_ok(2) sane_new_buffer
      new_buffer_ok(2), of "\<lparr>send_ok = True, cq_IsAvailable = False, cq_ok = False\<rparr>" osUnix False "(\<lambda>_. [], \<lambda>_. [])"]
  by simp

text \<open>
  The options that the plugin was loaded with are what a connected client sees: the batch
  size, with its default and its least value, and whether the server notifies the client of new messages.
\<close>

theorem batch_size_reaches_client:
  assumes "options < 4294967296" "p < length (m_peers s)" "sane_buffer (m_UQueue (m_peers s ! p))"
    and "sane_buffer mc" "content mc = []"
  shows "\<exists>cs' s'. exchange K os endian E sb mc (p, Batch_size) (cs, InitServerLibrary options s) = Inr ((None, None), cs', s') \<and>
    GetDequeueBatchSize (cs' p) = (if options mod 16777216 = 0 then 16384 else max 2048 (options mod 16777216)) \<and>
    (GetEnqueueNotified (cs' p) \<longleftrightarrow> options < 16777216)"
proof -
  let ?s = "InitServerLibrary options s"
  have peers: "m_peers ?s = m_peers s" by (simp add: InitServerLibrary_def Let_def)
  obtain uq where uq: "fill_UQueue os endian [] (m_UQueue (m_peers ?s ! p)) = Inr uq"
    using fill_UQueue_ok [OF assms(3), of "[]"] peers by auto
  let ?t = "set_UQueue p uq ?s"
  have sv: "serve K new_buffer os endian idBatchSizeNotified [] p ?s = Inr (Some (le_bytes 4 (NotifyBatchSize ?t)), ?t)"
    using serve_is_handler [OF uq, of idBatchSizeNotified K new_buffer]
    by (simp add: main_handler_def slow_ids OnFastRequestArrive_def id_values)
  obtain q where q: "push_bytes mc (le_bytes 4 (NotifyBatchSize ?t)) = Inr q" "uq_inv q" "content q = le_bytes 4 (NotifyBatchSize ?t)"
    using push_mc [OF assms(4,5), of "le_bytes 4 (NotifyBatchSize ?t)"] by auto
  from batch_size_delivered [OF q(2,3) NotifyBatchSize_bound] obtain mc' where
    mc': "client_OnResultReturned idBatchSizeNotified q (cs p) = Inr (mc', (cs p)\<lparr>c_nBatchSize := NotifyBatchSize ?t\<rparr>)" by blast
  let ?cs = "cs(p := (cs p)\<lparr>c_nBatchSize := NotifyBatchSize ?t\<rparr>)"
  have ex: "exchange K os endian E sb mc (p, Batch_size) (cs, ?s) = Inr ((None, None), ?cs, ?t)"
    using sv q(1) mc' by (simp add: exchange_def run_aq_op_def)
  let ?b = "if options mod 16777216 = 0 then 16384 else max 2048 (options mod 16777216)"
  have b: "m_nBatchSize ?t = ?b" "m_bNoAuto ?t = options div 16777216" "?b < 16777216"
    by (auto simp: InitServerLibrary_def Let_def set_UQueue_def upd_peer_def DEFAULT_DEQUEUE_BATCH_SIZE_def
        MIN_DEQUEUE_BATCH_SIZE_def max_def)
  have hi: "options div 16777216 \<le> 255" using assms(1) by auto
  then have n: "NotifyBatchSize ?t = options div 16777216 * 16777216 + ?b"
    using b by (simp add: NotifyBatchSize_def add32_def mul32_def)
  have "NotifyBatchSize ?t mod 16777216 = ?b" "NotifyBatchSize ?t div 16777216 = options div 16777216"
    using b(3) unfolding n by (simp_all add: mult.commute)
  moreover have "options div 16777216 = 0 \<longleftrightarrow> options < 16777216" by (auto simp: div_eq_0_iff)
  ultimately show ?thesis
    using ex by (intro exI [of _ ?cs] exI [of _ ?t]) (simp add: GetDequeueBatchSize_def GetEnqueueNotified_def)
qed

theorem batch_size_reaches_client_witness:
  "\<exists>cs' s'. exchange list_core osUnix False \<lparr>send_ok = True, cq_IsAvailable = False, cq_ok = False\<rparr> new_buffer new_buffer
      (0, Batch_size) (\<lambda>_. CAsyncQueue_new, InitServerLibrary 0x1000010 (OnSwitchFrom new_buffer (server_new (\<lambda>_. [], \<lambda>_. [])))) =
        Inr ((None, None), cs', s') \<and>
    GetDequeueBatchSize (cs' 0) = 2048 \<and> \<not> GetEnqueueNotified (cs' 0)"
  using batch_size_reaches_client [where options = "0x1000010" and p = 0 and mc = new_buffer and sb = new_buffer and K = list_core
      and s = "OnSwitchFrom new_buffer (server_new (\<lambda>_. [], \<lambda>_. []))" and os = osUnix and endian = False
      and E = "\<lparr>send_ok = True, cq_IsAvailable = False, cq_ok = False\<rparr>" and cs = "\<lambda>_. CAsyncQueue_new"] sane_new_buffer
  by (simp add: OnSwitchFrom_def server_new_def CAsyncQueueImpl_new_def)

text \<open>
  After a client has asked for messages with a callback, every notification of the server makes
  it send the same request again, with the same key and callback and no time-out, before the
  delegates of the application are called; without a callback it sends nothing.
\<close>

theorem notification_fetches_again:
  assumes "client_Dequeue E sb (Some key) d timeout c = Inr (r, c1)"
    and "sane_buffer sb'" "content sb' = []" "length key \<le> 1000000000"
  shows "client_OnBaseRequestprocessed E' sb' idMessageQueued c1 =
    Inr ((case d of None \<Rightarrow> [] | Some cb \<Rightarrow> [Call_SendRequest idDequeue (lwire key @ le_bytes 4 0) (Some (H_dequeue cb))]) @
         map Call_MessageQueued (m_mq c), c1)"
proof -
  have c1: "m_keyDequeue c1 = key" "m_dDequeue c1 = d" "m_mq c1 = m_mq c"
    using assms(1) by (auto simp: client_Dequeue_def Let_def bindr_Inr_iff)
  have inv: "IUDelImpl_Invoke (\<lambda>d. [Call_MessageQueued d]) vD = map Call_MessageQueued vD" for vD
    by (induction vD) simp_all
  obtain q where q: "put_cstr sb' (Some key) = Inr q" "sane_buffer q" "content q = lwire key"
    using put_cstr_sane [OF assms(2), of key] assms(3,4) by auto
  moreover obtain q1 where "put_pod 4 q 0 = Inr q1" "sane_buffer q1" "content q1 = lwire key @ le_bytes 4 0"
    using put_pod_sane [OF q(2), of 4 0] q(3) assms(4) by auto
  moreover have "c1\<lparr>m_keyDequeue := key, m_dDequeue := d\<rparr> = c1" using c1(1,2) by (cases c1) simp
  ultimately show ?thesis
    using c1 inv by (auto simp: client_OnBaseRequestprocessed_def client_Dequeue_def send_buffer_ok sane_buffer_def split: option.split)
qed

theorem notification_fetches_again_witness:
  "\<exists>r c1. client_Dequeue \<lparr>send_ok = True, cq_IsAvailable = False, cq_ok = False\<rparr> new_buffer (Some [97]) (Some 7) 10 CAsyncQueue_new = Inr (r, c1) \<and>
    client_OnBaseRequestprocessed \<lparr>send_ok = True, cq_IsAvailable = False, cq_ok = False\<rparr> new_buffer idMessageQueued c1 =
      Inr ([Call_SendRequest idDequeue (lwire [97] @ le_bytes 4 0) (Some (H_dequeue 7))], c1)"
proof -
  let ?E = "\<lparr>send_ok = True, cq_IsAvailable = False, cq_ok = False\<rparr>"
  obtain calls c1 where c1: "client_Dequeue ?E new_buffer (Some [97]) (Some 7) 10 CAsyncQueue_new = Inr ((True, calls), c1)"
    using client_request_ok [OF sane_new_buffer, of "Fetch [97] 10" ?E 7 CAsyncQueue_new] by auto
  have "m_mq CAsyncQueue_new = []" by (simp add: CAsyncQueue_new_def)
  with notification_fetches_again [OF c1 sane_new_buffer, of ?E]
  have "client_OnBaseRequestprocessed ?E new_buffer idMessageQueued c1 =
      Inr ([Call_SendRequest idDequeue (lwire [97] @ le_bytes 4 0) (Some (H_dequeue 7))], c1)" by simp
  with c1 show ?thesis by blast
qed

end
