(* ===== verification/Posixfile.thy ===== *)
theory Posixfile
  imports Spa_Prelude
begin

text \<open>
  The file calls of the C library that the file streaming code makes on Linux, as POSIX documents
  them: files with their bytes, and the open file descriptions behind the descriptors with an
  offset each. A description that was opened with \<^verbatim>\<open>O_APPEND\<close> writes at the end of the
  file whatever its offset is.

  Which files cannot be opened or locked, whether input and output succeed, and the texts of
  \<^verbatim>\<open>strerror\<close> are given by the state and never change. \<open>None\<close> is the descriptor or the result
  \<open>-1\<close>. Descriptors are not reused; advisory locks of other processes are the field \<open>lock_errno\<close>.
\<close>

type_synonym path = "nat list"
type_synonym wtext = "nat list"

record open_file =
  of_path :: path
  of_pos :: nat
  of_append :: bool

record posix =
  files :: "path \<Rightarrow> byte list option"
  descriptors :: "open_file option list"
  open_errno :: "path \<Rightarrow> int"
  lock_errno :: "path \<Rightarrow> int"
  io_errno :: int
  strerror :: "int \<Rightarrow> wtext"

definition descr :: "posix \<Rightarrow> nat \<Rightarrow> open_file option" where
  "descr w fd = (if fd < length (descriptors w) then descriptors w ! fd else None)"

definition set_descr :: "nat \<Rightarrow> open_file option \<Rightarrow> posix \<Rightarrow> posix" where
  "set_descr fd f w = w\<lparr>descriptors := (descriptors w)[fd := f]\<rparr>"

definition EEXIST :: int where "EEXIST = 17"
definition ENOENT :: int where "ENOENT = 2"
definition EBADF :: int where "EBADF = 9"

text \<open>\<^verbatim>\<open>open\<close> with the flags \<^verbatim>\<open>O_CREAT\<close>, \<^verbatim>\<open>O_EXCL\<close>, \<^verbatim>\<open>O_TRUNC\<close>, \<^verbatim>\<open>O_APPEND\<close>; the error number or the descriptor.\<close>

definition sys_open :: "path \<Rightarrow> bool \<Rightarrow> bool \<Rightarrow> bool \<Rightarrow> bool \<Rightarrow> posix \<Rightarrow> (int + nat) \<times> posix" where
  "sys_open p creat excl trunc app w =
     (if open_errno w p \<noteq> 0 then (Inl (open_errno w p), w)
      else case files w p of
        None \<Rightarrow>
          if creat
          then (Inr (length (descriptors w)),
                w\<lparr>files := (files w)(p \<mapsto> []), descriptors := descriptors w @ [Some \<lparr>of_path = p, of_pos = 0, of_append = app\<rparr>]\<rparr>)
          else (Inl ENOENT, w)
      | Some bs \<Rightarrow>
          if creat \<and> excl then (Inl EEXIST, w)
          else (Inr (length (descriptors w)),
                w\<lparr>files := (if trunc then (files w)(p \<mapsto> []) else files w),
                  descriptors := descriptors w @ [Some \<lparr>of_path = p, of_pos = 0, of_append = app\<rparr>]\<rparr>))"

definition sys_close :: "nat \<Rightarrow> posix \<Rightarrow> posix" where
  "sys_close fd w = set_descr fd None w"

definition file_of :: "posix \<Rightarrow> nat \<Rightarrow> (open_file \<times> byte list) option" where
  "file_of w fd =
     (case descr w fd of None \<Rightarrow> None
      | Some f \<Rightarrow> (case files w (of_path f) of None \<Rightarrow> None | Some bs \<Rightarrow> Some (f, bs)))"

definition sys_read :: "nat \<Rightarrow> nat \<Rightarrow> posix \<Rightarrow> byte list option \<times> posix" where
  "sys_read fd n w =
     (case file_of w fd of
        None \<Rightarrow> (None, w)
      | Some (f, bs) \<Rightarrow>
          if io_errno w \<noteq> 0 then (None, w)
          else let r = take n (drop (of_pos f) bs) in
               (Some r, set_descr fd (Some (f\<lparr>of_pos := of_pos f + length r\<rparr>)) w))"

text \<open>Writing behind the end fills the gap with zeros.\<close>

definition write_at :: "nat \<Rightarrow> byte list \<Rightarrow> byte list \<Rightarrow> byte list" where
  "write_at pos new bs = take pos bs @ replicate (pos - length bs) 0 @ new @ drop (pos + length new) bs"

definition sys_write :: "nat \<Rightarrow> byte list \<Rightarrow> posix \<Rightarrow> nat option \<times> posix" where
  "sys_write fd new w =
     (case file_of w fd of
        None \<Rightarrow> (None, w)
      | Some (f, bs) \<Rightarrow>
          if io_errno w \<noteq> 0 then (None, w)
          else let pos = (if of_append f then length bs else of_pos f) in
               (Some (length new),
                set_descr fd (Some (f\<lparr>of_pos := pos + length new\<rparr>))
                  (w\<lparr>files := (files w)(of_path f \<mapsto> write_at pos new bs)\<rparr>)))"

datatype whence = SEEK_SET | SEEK_CUR | SEEK_END

definition sys_lseek :: "nat \<Rightarrow> int \<Rightarrow> whence \<Rightarrow> posix \<Rightarrow> int \<times> posix" where
  "sys_lseek fd off wh w =
     (case file_of w fd of
        None \<Rightarrow> (-1, w)
      | Some (f, bs) \<Rightarrow>
          let base = (case wh of SEEK_SET \<Rightarrow> 0 | SEEK_CUR \<Rightarrow> int (of_pos f) | SEEK_END \<Rightarrow> int (length bs));
              pos = base + off in
          if pos < 0 then (-1, w) else (pos, set_descr fd (Some (f\<lparr>of_pos := nat pos\<rparr>)) w))"

definition sys_ftruncate :: "nat \<Rightarrow> int \<Rightarrow> posix \<Rightarrow> bool \<times> posix" where
  "sys_ftruncate fd n w =
     (case file_of w fd of
        None \<Rightarrow> (False, w)
      | Some (f, bs) \<Rightarrow>
          if n < 0 then (False, w)
          else (True, w\<lparr>files := (files w)(of_path f \<mapsto> take (nat n) bs @ replicate (nat n - length bs) 0)\<rparr>))"

definition sys_fsync :: "nat \<Rightarrow> posix \<Rightarrow> bool" where
  "sys_fsync fd w \<longleftrightarrow> descr w fd \<noteq> None"

definition sys_remove :: "path \<Rightarrow> posix \<Rightarrow> bool \<times> posix" where
  "sys_remove p w = (if files w p = None then (False, w) else (True, w\<lparr>files := (files w)(p := None)\<rparr>))"

text \<open>The size that \<^verbatim>\<open>fstat\<close> gives, and the error of \<^verbatim>\<open>fcntl(F_SETLKW)\<close>, 0 for none.\<close>

definition sys_fstat :: "nat \<Rightarrow> posix \<Rightarrow> int + nat" where
  "sys_fstat fd w = (case file_of w fd of None \<Rightarrow> Inl EBADF | Some (f, bs) \<Rightarrow> Inr (length bs))"

definition sys_lock :: "nat \<Rightarrow> posix \<Rightarrow> int" where
  "sys_lock fd w = (case descr w fd of None \<Rightarrow> EBADF | Some f \<Rightarrow> lock_errno w (of_path f))"

section \<open>What the calls do to a file that is open\<close>

text \<open>The rest of the state, which no call changes.\<close>

definition same_env :: "posix \<Rightarrow> posix \<Rightarrow> bool" where
  "same_env w w' \<longleftrightarrow> open_errno w' = open_errno w \<and> lock_errno w' = lock_errno w \<and> io_errno w' = io_errno w \<and>
     strerror w' = strerror w"

lemma same_env_refl [simp]: "same_env w w"
  by (simp add: same_env_def)

lemma same_env_trans [trans]: "same_env w w' \<Longrightarrow> same_env w' w'' \<Longrightarrow> same_env w w''"
  by (simp add: same_env_def)

lemma same_envD: "same_env w w' \<Longrightarrow> io_errno w' = io_errno w" "same_env w w' \<Longrightarrow> open_errno w' = open_errno w"
  "same_env w w' \<Longrightarrow> lock_errno w' = lock_errno w" "same_env w w' \<Longrightarrow> strerror w' = strerror w"
  by (simp_all add: same_env_def)

text \<open>Descriptor \<open>fd\<close> is at \<open>pos\<close> in the file \<open>p\<close> that has the bytes \<open>bs\<close>.\<close>

definition at :: "posix \<Rightarrow> nat \<Rightarrow> path \<Rightarrow> nat \<Rightarrow> bool \<Rightarrow> byte list \<Rightarrow> bool" where
  "at w fd p pos app bs \<longleftrightarrow> descr w fd = Some \<lparr>of_path = p, of_pos = pos, of_append = app\<rparr> \<and> files w p = Some bs"

lemma at_file_of: "at w fd p pos app bs \<Longrightarrow> file_of w fd = Some (\<lparr>of_path = p, of_pos = pos, of_append = app\<rparr>, bs)"
  by (simp add: at_def file_of_def)

lemma descr_set [simp]: "fd < length (descriptors w) \<Longrightarrow> descr (set_descr fd f w) fd = f"
  by (simp add: descr_def set_descr_def)

lemma at_length: "at w fd p pos app bs \<Longrightarrow> fd < length (descriptors w)"
  by (simp add: at_def descr_def split: if_splits)

lemma files_set_descr [simp]: "files (set_descr fd f w) = files w" "same_env w (set_descr fd f w)"
  by (simp_all add: set_descr_def same_env_def)

lemma sys_open_new:
  assumes "open_errno w p = 0" "files w p = None"
  shows "\<exists>fd w'. sys_open p True excl trunc app w = (Inr fd, w') \<and> at w' fd p 0 app [] \<and> files w' = (files w)(p \<mapsto> []) \<and> same_env w w'"
  using assms by (simp add: sys_open_def at_def descr_def same_env_def)

lemma sys_open_old:
  assumes "open_errno w p = 0" "files w p = Some bs"
  shows "\<exists>fd w'. sys_open p creat False trunc app w = (Inr fd, w') \<and> at w' fd p 0 app (if trunc then [] else bs) \<and>
    files w' = (files w)(p \<mapsto> (if trunc then [] else bs)) \<and> same_env w w'"
  using assms by (auto simp: sys_open_def at_def descr_def same_env_def)

lemma sys_read_ok:
  assumes "at w fd p pos app bs" "io_errno w = 0"
  shows "\<exists>w'. sys_read fd n w = (Some (take n (drop pos bs)), w') \<and>
    at w' fd p (pos + length (take n (drop pos bs))) app bs \<and> files w' = files w \<and> same_env w w'"
  using assms at_length [OF assms(1)] by (simp add: sys_read_def at_file_of) (simp add: at_def)

lemma sys_write_ok:
  assumes "at w fd p pos app bs" "io_errno w = 0"
  shows "\<exists>w'. sys_write fd new w = (Some (length new), w') \<and>
    at w' fd p ((if app then length bs else pos) + length new) app (write_at (if app then length bs else pos) new bs) \<and>
    files w' = (files w)(p \<mapsto> write_at (if app then length bs else pos) new bs) \<and> same_env w w'"
  using assms at_length [OF assms(1)]
  by (simp add: sys_write_def at_file_of Let_def) (simp add: at_def descr_def set_descr_def same_env_def)

lemma sys_lseek_cur:
  "at w fd p pos app bs \<Longrightarrow> \<exists>w'. sys_lseek fd 0 SEEK_CUR w = (int pos, w') \<and> at w' fd p pos app bs \<and> files w' = files w \<and> same_env w w'"
  using at_length [of w fd p pos app bs] by (simp add: sys_lseek_def at_file_of) (simp add: at_def)

lemma sys_lseek_end:
  "at w fd p pos app bs \<Longrightarrow>
    \<exists>w'. sys_lseek fd 0 SEEK_END w = (int (length bs), w') \<and> at w' fd p (length bs) app bs \<and> files w' = files w \<and> same_env w w'"
  using at_length [of w fd p pos app bs] by (simp add: sys_lseek_def at_file_of) (simp add: at_def)

lemma sys_lseek_set:
  "at w fd p pos app bs \<Longrightarrow>
    \<exists>w'. sys_lseek fd (int n) SEEK_SET w = (int n, w') \<and> at w' fd p n app bs \<and> files w' = files w \<and> same_env w w'"
  using at_length [of w fd p pos app bs] by (simp add: sys_lseek_def at_file_of) (simp add: at_def)

lemma sys_ftruncate_ok:
  "at w fd p pos app bs \<Longrightarrow>
    \<exists>w'. sys_ftruncate fd (int n) w = (True, w') \<and> files w' = (files w)(p \<mapsto> take n bs @ replicate (n - length bs) 0) \<and> same_env w w'"
  by (simp add: sys_ftruncate_def at_file_of same_env_def)

lemma sys_close_fields [simp]: "files (sys_close fd w) = files w" "same_env w (sys_close fd w)"
  by (simp_all add: sys_close_def)

lemma at_open_now: "at w fd p pos app bs \<Longrightarrow> sys_fsync fd w" "at w fd p pos app bs \<Longrightarrow> sys_lock fd w = lock_errno w p"
  "at w fd p pos app bs \<Longrightarrow> sys_fstat fd w = Inr (length bs)" "at w fd p pos app bs \<Longrightarrow> files w p = Some bs"
  by (simp_all add: at_def sys_fsync_def sys_lock_def sys_fstat_def file_of_def)

text \<open>What a file becomes when \<open>new\<close> is written into it piece by piece from its start or at its end.\<close>

definition merged :: "bool \<Rightarrow> byte list \<Rightarrow> byte list \<Rightarrow> byte list" where
  "merged app old new = (if app then old @ new else new @ drop (length new) old)"

lemma merged_Nil [simp]: "merged app old [] = old"
  by (simp add: merged_def)

lemma merged_empty [simp]: "merged app [] new = new"
  by (simp add: merged_def)

lemma write_merged:
  "write_at (if app then length (merged app old sent) else length sent) new (merged app old sent) = merged app old (sent @ new)"
  by (auto simp: write_at_def merged_def add.commute)

end
