(* ===== verification/Fileserver.thy ===== *)
theory Fileserver
  imports Posixfile
begin

text \<open>
  The server of the file streaming service: \<^verbatim>\<open>CSFileImpl\<close> of
  \<^verbatim>\<open>include/file/server_impl/sfileimpl.cpp\<close>, Linux build.

  \<^item> \<open>sfile\<close> has the members of one peer; the files of the server are a \<open>posix\<close>. The shared root
    directory is an argument.
  \<^item> Requests and results are values of \<open>sf_request\<close> and \<open>sf_result\<close>: their fields go through the
    stream operators of \<open>Serialize\<close>, and names through a conversion of wide text by iconv that is
    left out, so that a file is named by its wide text.
  \<^item> The answers of the socket during a download are the functions \<open>alive\<close> and \<open>interrupted\<close> of the
    number of blocks that have been sent.
\<close>

section \<open>Constants\<close>

definition STREAM_CHUNK_SIZE :: nat where "STREAM_CHUNK_SIZE = 10240"

definition FILE_OPEN_TRUNCACTED :: nat where "FILE_OPEN_TRUNCACTED = 1"
definition FILE_OPEN_APPENDED :: nat where "FILE_OPEN_APPENDED = 2"
definition FILE_OPEN_SHARE_READ :: nat where "FILE_OPEN_SHARE_READ = 4"
definition FILE_OPEN_SHARE_WRITE :: nat where "FILE_OPEN_SHARE_WRITE = 8"

definition CANNOT_OPEN_LOCAL_FILE_FOR_WRITING :: int where "CANNOT_OPEN_LOCAL_FILE_FOR_WRITING = -1"
definition CANNOT_OPEN_LOCAL_FILE_FOR_READING :: int where "CANNOT_OPEN_LOCAL_FILE_FOR_READING = -2"
definition FILE_BAD_OPERATION :: int where "FILE_BAD_OPERATION = -3"
definition FILE_DOWNLOADING_INTERRUPTED :: int where "FILE_DOWNLOADING_INTERRUPTED = -4"

lemmas file_flags = FILE_OPEN_TRUNCACTED_def FILE_OPEN_APPENDED_def FILE_OPEN_SHARE_READ_def FILE_OPEN_SHARE_WRITE_def

text \<open>\<^verbatim>\<open>(flags & flag) == flag\<close> for one of the flags.\<close>

definition has_flag :: "nat \<Rightarrow> nat \<Rightarrow> bool" where
  "has_flag flags flag \<longleftrightarrow> flags div flag mod 2 = 1"

section \<open>Messages\<close>

datatype sf_request =
    Req_Download path path nat int
  | Req_Upload path nat nat
  | Req_UploadBackup path nat nat int
  | Req_Uploading "byte list"
  | Req_UploadCompleted

datatype sf_result =
    Res_StartDownloading nat path path nat int
  | Res_Downloading "byte list"
  | Res_Download int wtext
  | Res_Upload int wtext int
  | Res_UploadBackup
  | Res_Uploading nat int wtext
  | Res_UploadCompleted

section \<open>The state of a peer\<close>

record sfile =
  m_oFileSize :: nat
  m_oFilePath :: path
  m_oPos :: nat
  sf_InitSize :: int
  m_of :: "nat option"

definition CSFileImpl_new :: sfile where
  "CSFileImpl_new = \<lparr>m_oFileSize = 0, m_oFilePath = [], m_oPos = 0, sf_InitSize = -1, m_of = None\<rparr>"

definition SetRootDirectory :: "path option \<Rightarrow> path \<Rightarrow> fault + path" where
  "SetRootDirectory pathRoot root =
     (let root = (case pathRoot of Some p \<Rightarrow> if p \<noteq> [] then p else root | None \<Rightarrow> root) in
      if root = [] then Inl Out_Of_Bounds
      else Inr (if List.last root \<noteq> 47 then root @ [47] else root))"

text \<open>Closing a file that is not complete: a new file goes, an old one gets its old size.\<close>

definition restore_file :: "nat \<Rightarrow> path \<Rightarrow> int \<Rightarrow> posix \<Rightarrow> fault + posix" where
  "restore_file fd p initSize w =
     (if initSize = -1
      then let (ok, w) = sys_remove p (sys_close fd w) in bindr (require ok) (\<lambda>_. Inr w)
      else bindr (require (sys_fsync fd w)) (\<lambda>_.
           let (newPos, w) = sys_lseek fd initSize SEEK_SET w in
           bindr (require (newPos \<noteq> -1)) (\<lambda>_.
           let (ok, w) = sys_ftruncate fd newPos w in
           bindr (require ok) (\<lambda>_. Inr (sys_close fd w)))))"

definition CleanOF :: "sfile \<Rightarrow> posix \<Rightarrow> fault + (sfile \<times> posix)" where
  "CleanOF s w =
     bindr (case m_of s of None \<Rightarrow> Inr w | Some fd \<Rightarrow> restore_file fd (m_oFilePath s) (sf_InitSize s) w) (\<lambda>w.
     Inr (CSFileImpl_new, w))"

definition sf_OnBaseRequestArrive :: "bool \<Rightarrow> sfile \<Rightarrow> posix \<Rightarrow> fault + (sfile \<times> posix)" where
  "sf_OnBaseRequestArrive cancel s w = (if cancel then CleanOF s w else Inr (s, w))"

definition sf_OnReleaseSource :: "sfile \<Rightarrow> posix \<Rightarrow> fault + (sfile \<times> posix)" where
  "sf_OnReleaseSource s w = CleanOF s w"

section \<open>Uploading\<close>

definition Uploading :: "byte list \<Rightarrow> sfile \<Rightarrow> posix \<Rightarrow> fault + ((nat \<times> int \<times> wtext) \<times> sfile \<times> posix)" where
  "Uploading bs s w =
     (case m_of s of
        Some fd \<Rightarrow>
          let (ret, w) = sys_write fd bs w; ok = (ret = Some (length bs)) in
          bindr (require ok) (\<lambda>_.
          let pos = m_oPos s + length bs in Inr ((pos, 0, []), s\<lparr>m_oPos := pos\<rparr>, w))
      | None \<Rightarrow> Inr ((18446744073709551615, FILE_BAD_OPERATION, map of_char ''Bad file operation''), s, w))"

definition UploadCompleted :: "sfile \<Rightarrow> posix \<Rightarrow> sfile \<times> posix" where
  "UploadCompleted s w = (CSFileImpl_new, case m_of s of None \<Rightarrow> w | Some fd \<Rightarrow> sys_close fd w)"

definition full_path :: "path \<Rightarrow> path \<Rightarrow> fault + path" where
  "full_path root filePath =
     (case filePath of [] \<Rightarrow> Inl Out_Of_Bounds
      | c # _ \<Rightarrow> Inr (if c = 47 then filePath else root @ filePath))"

text \<open>A new file, or else an old one: truncated, appended to or overwritten.\<close>

definition open_write :: "path \<Rightarrow> nat \<Rightarrow> posix \<Rightarrow> bool \<times> (int + nat) \<times> posix" where
  "open_write p flags w =
     (case sys_open p True True False False w of
        (Inr fd, w) \<Rightarrow> (False, Inr fd, w)
      | (Inl _, w) \<Rightarrow>
          (True, sys_open p True False (has_flag flags FILE_OPEN_TRUNCACTED)
             (\<not> has_flag flags FILE_OPEN_TRUNCACTED \<and> has_flag flags FILE_OPEN_APPENDED) w))"

definition Upload ::
  "path \<Rightarrow> path \<Rightarrow> nat \<Rightarrow> nat \<Rightarrow> sfile \<Rightarrow> posix \<Rightarrow> fault + ((int \<times> wtext \<times> int) \<times> sfile \<times> posix)"
where
  "Upload root filePath flags fileSize s w =
     bindr (require (m_of s = None)) (\<lambda>_.
     bindr (CleanOF s w) (\<lambda>(s, w).
     bindr (full_path root filePath) (\<lambda>p.
     let s = s\<lparr>m_oFileSize := fileSize, m_oFilePath := p\<rparr> in
     case open_write p flags w of
       (existing, Inl e, w) \<Rightarrow> Inr ((e, strerror w e, -1), s, w)
     | (existing, Inr fd, w) \<Rightarrow>
         let s = s\<lparr>m_of := Some fd\<rparr>;
             (s, initPos, w) =
               (if existing
                then let (n, w) = (if has_flag flags FILE_OPEN_APPENDED then sys_lseek fd 0 SEEK_END w else (0, w)) in
                     (s\<lparr>sf_InitSize := n\<rparr>, n, w)
                else (s, -1, w));
             e = (if \<not> has_flag flags FILE_OPEN_SHARE_WRITE then sys_lock fd w else 0) in
         Inr ((e, if e \<noteq> 0 then strerror w e else [], initPos), s, w))))"

definition UploadBackup ::
  "bool \<Rightarrow> path \<Rightarrow> path \<Rightarrow> nat \<Rightarrow> nat \<Rightarrow> int \<Rightarrow> sfile \<Rightarrow> posix \<Rightarrow> fault + (sfile \<times> posix)"
where
  "UploadBackup dequeue root filePath flags fileSize initSize s w =
     bindr (require dequeue) (\<lambda>_.
      if m_of s \<noteq> None then Inr (s, w)
      else bindr (full_path root filePath) (\<lambda>p.
        let s = s\<lparr>m_oFileSize := fileSize, m_oPos := 0, sf_InitSize := -1, m_oFilePath := p\<rparr> in
        case open_write p flags w of
          (existing, Inl e, w) \<Rightarrow> Inr (s, w)
        | (existing, Inr fd, w) \<Rightarrow>
            let s = s\<lparr>m_of := Some fd\<rparr> in
            if existing
            then let s = s\<lparr>sf_InitSize := initSize\<rparr>; initSize = (if initSize = -1 then 0 else initSize) in
                 if has_flag flags FILE_OPEN_APPENDED
                 then let (isize, w) = sys_lseek fd 0 SEEK_END w in
                      Inr (s, if isize \<noteq> 0 \<and> isize > initSize then snd (sys_lseek fd initSize SEEK_SET w) else w)
                 else Inr (s, w)
            else Inr (s, w)))"

section \<open>Downloading\<close>

text \<open>
  The blocks of a file. The loop ends because every round reads at least one byte of the
  \<open>StreamSize\<close> bytes that are still to be sent. \<open>None\<close>: the socket is gone; otherwise whether the
  last call of \<^verbatim>\<open>read\<close> was successful.
\<close>

lemma sys_read_length: "(Some r, w') = sys_read fd n w \<Longrightarrow> length r \<le> n"
  by (auto simp: sys_read_def Let_def split: option.splits if_splits prod.splits)

definition interrupted_error :: "int \<times> wtext" where
  "interrupted_error = (FILE_DOWNLOADING_INTERRUPTED, map of_char ''File downloading interrupted'')"

function Download_loop ::
  "(nat \<Rightarrow> bool) \<Rightarrow> (nat \<Rightarrow> bool) \<Rightarrow> nat \<Rightarrow> nat \<Rightarrow> nat \<Rightarrow> int \<times> wtext \<Rightarrow> posix \<Rightarrow>
   sf_result list \<times> bool option \<times> (int \<times> wtext) \<times> posix"
where
  "Download_loop alive interrupted fd n StreamSize err w =
     (case sys_read fd (min STREAM_CHUNK_SIZE StreamSize) w of
        (None, w) \<Rightarrow> ([], Some False, err, w)
      | (Some bs, w) \<Rightarrow>
          if bs = [] then ([], Some True, err, w)
          else let err = (if interrupted n then interrupted_error else err) in
            if \<not> alive n then ([], None, err, w)
            else let (rs, fin, err, w) = Download_loop alive interrupted fd (Suc n) (StreamSize - length bs) err w in
                 (Res_Downloading bs # rs, fin, err, w))"
  by pat_completeness auto
termination
  by (relation "measure (\<lambda>(alive, interrupted, fd, n, StreamSize, err, w). StreamSize)")
    (auto dest: sys_read_length simp flip: length_greater_0_conv)

declare Download_loop.simps [simp del]

definition Download ::
  "(nat \<Rightarrow> bool) \<Rightarrow> (nat \<Rightarrow> bool) \<Rightarrow> bool \<Rightarrow> path \<Rightarrow> path \<Rightarrow> path \<Rightarrow> nat \<Rightarrow> int \<Rightarrow> sfile \<Rightarrow> posix \<Rightarrow>
   fault + (sf_result list \<times> (int \<times> wtext) \<times> sfile \<times> posix)"
where
  "Download alive interrupted start_ok root localFile filePath flags initSize s w =
     bindr (CleanOF s w) (\<lambda>(s, w).
     bindr (full_path root filePath) (\<lambda>p.
     case sys_open p False False False False w of
       (Inl e, w) \<Rightarrow> Inr ([], (e, strerror w e), s, w)
     | (Inr h, w) \<Rightarrow>
         let e = (if \<not> has_flag flags FILE_OPEN_SHARE_READ then sys_lock h w else 0) in
         if e \<noteq> 0 then Inr ([], (e, strerror w e), s, sys_close h w)
         else case sys_fstat h w of
           Inl e \<Rightarrow> Inr ([], (e, strerror w e), s, sys_close h w)
         | Inr StreamSize \<Rightarrow>
             if \<not> start_ok then Inr ([], (0, []), s, sys_close h w)
             else let (rs, fin, err, w) = Download_loop alive interrupted h 0 StreamSize (0, []) w in
             Inr (Res_StartDownloading StreamSize localFile filePath flags initSize # rs,
               if fin = Some False then (io_errno w, strerror w (io_errno w)) else err, s, sys_close h w)))"

section \<open>The requests\<close>

record sf_env =
  sf_alive :: "nat \<Rightarrow> bool"
  sf_interrupted :: "nat \<Rightarrow> bool"
  sf_start_ok :: bool
  sf_IsDequeueRequest :: bool

definition OnSlowRequestArrive_file ::
  "sf_env \<Rightarrow> path \<Rightarrow> sf_request \<Rightarrow> sfile \<Rightarrow> posix \<Rightarrow> fault + (sf_result list \<times> sfile \<times> posix)"
where
  "OnSlowRequestArrive_file E root req s w =
     (case req of
        Req_Download localFile filePath flags initSize \<Rightarrow>
          bindr (Download (sf_alive E) (sf_interrupted E) (sf_start_ok E) root localFile filePath flags initSize s w)
            (\<lambda>(rs, (res, errMsg), s, w). Inr (rs @ [Res_Download res errMsg], s, w))
      | Req_Upload filePath flags fileSize \<Rightarrow>
          bindr (Upload root filePath flags fileSize s w) (\<lambda>((res, errMsg, initPos), s, w). Inr ([Res_Upload res errMsg initPos], s, w))
      | Req_UploadBackup filePath flags fileSize initSize \<Rightarrow>
          bindr (UploadBackup (sf_IsDequeueRequest E) root filePath flags fileSize initSize s w) (\<lambda>(s, w). Inr ([Res_UploadBackup], s, w))
      | Req_Uploading bs \<Rightarrow>
          bindr (Uploading bs s w) (\<lambda>((pos, res, errMsg), s, w). Inr ([Res_Uploading pos res errMsg], s, w))
      | Req_UploadCompleted \<Rightarrow> let (s, w) = UploadCompleted s w in Inr ([Res_UploadCompleted], s, w))"

definition GetNumOfSlowRequests_file :: nat where "GetNumOfSlowRequests_file = 5"

text \<open>The number of the request, as the plugin declares its slow requests.\<close>

definition GetOneSlowRequestID_file :: "nat \<Rightarrow> nat" where
  "GetOneSlowRequestID_file index =
     (if index = 0 then 0x7F70 else if index = 1 then 0x7F73 else if index = 2 then 0x7F75
      else if index = 3 then 0x7F74 else if index = 4 then 0x7F76 else 0)"

end
