(* ===== verification/Fileclient.thy ===== *)
theory Fileclient
  imports Fileserver
begin

text \<open>
  The client of the file streaming service: \<^verbatim>\<open>CStreamingFile\<close> of \<^verbatim>\<open>include/streamingfile.h\<close>,
  Linux build without the adapters and without futures.

  \<^item> \<open>fcontext\<close> is one file of the list \<^verbatim>\<open>m_vContext\<close>; a callback is a number. A handler
    returns the calls that it makes, in their order.
  \<^item> \<open>fc_env\<close> has the answers of the socket during one call: whether the \<open>n\<close>-th request was sent,
    whether the sending buffer is full when it is looked at for the \<open>n\<close>-th time, the client queue.
  \<^item> The list is protected by a lock that is released around callbacks; the model has no other
    thread at that moment.
\<close>

section \<open>Contexts\<close>

record fcontext =
  x_Uploading :: bool
  x_FileSize :: nat
  x_Flags :: nat
  x_LocalFile :: path
  x_FilePath :: path
  x_Download :: "nat option"
  x_Transferring :: "nat option"
  x_Discarded :: "nat option"
  x_QueueOk :: bool
  x_ErrorCode :: int
  x_Sent :: bool
  x_InitSize :: int
  x_ErrMsg :: wtext
  x_Se :: "nat option"
  x_File :: "nat option"

definition CContext_new :: "bool \<Rightarrow> nat \<Rightarrow> fcontext" where
  "CContext_new up flags =
     \<lparr>x_Uploading = up, x_FileSize = 18446744073709551615, x_Flags = flags, x_LocalFile = [], x_FilePath = [],
      x_Download = None, x_Transferring = None, x_Discarded = None, x_QueueOk = False, x_ErrorCode = 0, x_Sent = False,
      x_InitSize = -1, x_ErrMsg = [], x_Se = None, x_File = None\<rparr>"

definition IsOpen :: "fcontext \<Rightarrow> bool" where
  "IsOpen c \<longleftrightarrow> x_File c \<noteq> None"

definition HasError :: "fcontext \<Rightarrow> bool" where
  "HasError c \<longleftrightarrow> x_ErrorCode c \<noteq> 0 \<or> x_ErrMsg c \<noteq> []"

definition GetFilePos :: "fcontext \<Rightarrow> posix \<Rightarrow> fault + (int \<times> posix)" where
  "GetFilePos c w =
     (case x_File c of None \<Rightarrow> Inl Assertion
      | Some fd \<Rightarrow> let (newPos, w) = sys_lseek fd 0 SEEK_CUR w in bindr (require (newPos \<noteq> -1)) (\<lambda>_. Inr (newPos, w)))"

definition CloseFile :: "fcontext \<Rightarrow> posix \<Rightarrow> fault + (fcontext \<times> posix)" where
  "CloseFile c w =
     (case x_File c of None \<Rightarrow> Inr (c, w)
      | Some fd \<Rightarrow>
          bindr (if \<not> x_Uploading c \<and> HasError c then restore_file fd (x_LocalFile c) (x_InitSize c) w
                 else Inr (sys_close fd w)) (\<lambda>w. Inr (c\<lparr>x_File := None\<rparr>, w)))"

definition OpenLocalWrite :: "fcontext \<Rightarrow> posix \<Rightarrow> fault + (fcontext \<times> posix)" where
  "OpenLocalWrite c w =
     (case open_write (x_LocalFile c) (x_Flags c) w of
        (existing, Inl e, w) \<Rightarrow> Inr (c\<lparr>x_ErrorCode := CANNOT_OPEN_LOCAL_FILE_FOR_WRITING, x_ErrMsg := strerror w e\<rparr>, w)
      | (existing, Inr fd, w) \<Rightarrow>
          let c = c\<lparr>x_File := Some fd\<rparr> in
          bindr (if existing then bindr (GetFilePos c w) (\<lambda>(pos, w). Inr (c\<lparr>x_InitSize := pos\<rparr>, w)) else Inr (c, w)) (\<lambda>(c, w).
          let e = (if \<not> has_flag (x_Flags c) FILE_OPEN_SHARE_WRITE then sys_lock fd w else 0) in
          Inr (if e \<noteq> 0 then c\<lparr>x_ErrorCode := e, x_ErrMsg := strerror w e\<rparr> else c, w)))"

definition OpenLocalRead :: "fcontext \<Rightarrow> posix \<Rightarrow> fcontext \<times> posix" where
  "OpenLocalRead c w =
     (case sys_open (x_LocalFile c) False False False False w of
        (Inl e, w) \<Rightarrow> (c\<lparr>x_ErrorCode := CANNOT_OPEN_LOCAL_FILE_FOR_READING, x_ErrMsg := strerror w e\<rparr>, w)
      | (Inr fd, w) \<Rightarrow>
          let c = c\<lparr>x_File := Some fd\<rparr>;
              e = (if \<not> has_flag (x_Flags c) FILE_OPEN_SHARE_READ then sys_lock fd w else 0) in
          if e \<noteq> 0 then (c\<lparr>x_ErrorCode := e, x_ErrMsg := strerror w e\<rparr>, w)
          else case sys_fstat fd w of
            Inl e \<Rightarrow> (c\<lparr>x_ErrorCode := e, x_ErrMsg := strerror w e\<rparr>, w)
          | Inr n \<Rightarrow> (c\<lparr>x_FileSize := n\<rparr>, w))"

section \<open>The handler\<close>

datatype file_call =
    F_Send sf_request
  | F_Done nat int wtext
  | F_Transferring nat nat
  | F_Discarded nat bool
  | F_PostProcessing
  | F_DoEcho
  | F_Interrupt
  | F_StartJob
  | F_EndJob
  | F_AbortJob

record file_client =
  m_vContext :: "fcontext list"
  m_MaxDownloading :: nat

record fc_env =
  fc_send :: "nat \<Rightarrow> bool"
  fc_error :: "int \<times> wtext"
  fc_StartJob :: bool
  fc_IsAvailable :: bool
  fc_full :: "nat \<Rightarrow> bool"
  fc_errno :: int
  fc_cancel :: bool

definition SESSION_CLOSED_BEFORE :: int where "SESSION_CLOSED_BEFORE = -1001"

definition MAX_FILES_STREAMED :: nat where "MAX_FILES_STREAMED = 32"

definition CStreamingFile_new :: file_client where
  "CStreamingFile_new = \<lparr>m_vContext = [], m_MaxDownloading = 1\<rparr>"

definition SetFilesStreamed :: "nat \<Rightarrow> file_client \<Rightarrow> file_client" where
  "SetFilesStreamed n c =
     c\<lparr>m_MaxDownloading := (if n = 0 then 1 else if n > MAX_FILES_STREAMED then MAX_FILES_STREAMED else n)\<rparr>"

definition GetFilesStreamed :: "file_client \<Rightarrow> nat" where
  "GetFilesStreamed c = m_MaxDownloading c"

definition GetFilesQueued :: "file_client \<Rightarrow> nat" where
  "GetFilesQueued c = length (m_vContext c)"

definition GetFileSize :: "file_client \<Rightarrow> nat" where
  "GetFileSize c = (case m_vContext c of [] \<Rightarrow> 18446744073709551615 | x # _ \<Rightarrow> x_FileSize x)"

definition callback :: "nat option \<Rightarrow> (nat \<Rightarrow> file_call) \<Rightarrow> file_call list" where
  "callback cb f = (case cb of None \<Rightarrow> [] | Some d \<Rightarrow> [f d])"

fun GetFilesOpened :: "fcontext list \<Rightarrow> nat" where
  "GetFilesOpened [] = 0"
| "GetFilesOpened (x # xs) =
     (if IsOpen x then Suc (GetFilesOpened xs) else if \<not> HasError x then 0 else GetFilesOpened xs)"

definition PostProcess ::
  "fcontext \<Rightarrow> path \<Rightarrow> path \<Rightarrow> nat option \<Rightarrow> nat option \<Rightarrow> nat option \<Rightarrow> nat option \<Rightarrow> file_client \<Rightarrow> file_call list \<times> file_client"
where
  "PostProcess x localFile remoteFile dl progress aborted se c =
     (let x = x\<lparr>x_LocalFile := localFile, x_FilePath := remoteFile, x_Download := dl, x_Transferring := progress,
                x_Discarded := aborted, x_Se := se\<rparr>;
          c = c\<lparr>m_vContext := m_vContext c @ [x]\<rparr>;
          filesOpened = GetFilesOpened (m_vContext c) in
      (if m_MaxDownloading c > filesOpened then F_PostProcessing # (if filesOpened = 0 then [F_DoEcho] else []) else [], c))"

definition OkFiles :: "path \<Rightarrow> path \<Rightarrow> bool" where
  "OkFiles localFile remoteFile \<longleftrightarrow> localFile \<noteq> [] \<and> remoteFile \<noteq> []"

definition client_Upload ::
  "path \<Rightarrow> path \<Rightarrow> nat option \<Rightarrow> nat option \<Rightarrow> nat option \<Rightarrow> nat \<Rightarrow> nat option \<Rightarrow> file_client \<Rightarrow> (bool \<times> file_call list) \<times> file_client"
where
  "client_Upload localFile remoteFile up progress aborted flags se c =
     (if \<not> OkFiles localFile remoteFile then ((False, []), c)
      else let (calls, c) = PostProcess (CContext_new True flags) localFile remoteFile up progress aborted se c in
           ((True, calls), c))"

definition client_Download ::
  "path \<Rightarrow> path \<Rightarrow> nat option \<Rightarrow> nat option \<Rightarrow> nat option \<Rightarrow> nat \<Rightarrow> nat option \<Rightarrow> file_client \<Rightarrow> (bool \<times> file_call list) \<times> file_client"
where
  "client_Download localFile remoteFile dl progress aborted flags se c =
     (if \<not> OkFiles localFile remoteFile then ((False, []), c)
      else let (calls, c) = PostProcess (CContext_new False flags) localFile remoteFile dl progress aborted se c in
           ((True, calls), c))"

section \<open>Starting the files that wait\<close>

text \<open>A request that was not sent leaves its error in the context.\<close>

definition SESSION_CLOSED_BEFORE_ERR_MSG :: wtext where
  "SESSION_CLOSED_BEFORE_ERR_MSG = map of_char ''Session already closed before sending the request''"

definition send_failed :: "fc_env \<Rightarrow> fcontext \<Rightarrow> fcontext" where
  "send_failed E x =
     (if fst (fc_error E) \<noteq> 0 then x\<lparr>x_ErrorCode := fst (fc_error E), x_ErrMsg := snd (fc_error E)\<rparr>
      else x\<lparr>x_ErrorCode := SESSION_CLOSED_BEFORE, x_ErrMsg := SESSION_CLOSED_BEFORE_ERR_MSG\<rparr>)"

text \<open>The first loop: \<open>d\<close> downloads are open, \<open>n\<close> requests have been tried.\<close>

fun OnPostProcessing_start ::
  "fc_env \<Rightarrow> nat \<Rightarrow> nat \<Rightarrow> nat \<Rightarrow> fcontext list \<Rightarrow> posix \<Rightarrow> fault + (file_call list \<times> fcontext list \<times> posix)"
where
  "OnPostProcessing_start E m d n [] w = Inr ([], [], w)"
| "OnPostProcessing_start E m d n (x # xs) w =
     (if d \<ge> m then Inr ([], x # xs, w)
      else if IsOpen x
      then if x_Uploading x then Inr ([], x # xs, w)
           else bindr (OnPostProcessing_start E m (Suc d) n xs w) (\<lambda>(calls, xs, w). Inr (calls, x # xs, w))
      else if HasError x
      then bindr (OnPostProcessing_start E m d n xs w) (\<lambda>(calls, xs, w). Inr (calls, x # xs, w))
      else if x_Uploading x
      then let (x, w) = OpenLocalRead x w in
           if HasError x
           then bindr (OnPostProcessing_start E m d n xs w) (\<lambda>(calls, xs, w). Inr (calls, x # xs, w))
           else if \<not> fc_send E n
           then bindr (OnPostProcessing_start E m d (Suc n) xs w) (\<lambda>(calls, xs, w). Inr (calls, send_failed E x # xs, w))
           else Inr ([F_Send (Req_Upload (x_FilePath x) (x_Flags x) (x_FileSize x))], x # xs, w)
      else bindr (OpenLocalWrite x w) (\<lambda>(x, w).
           if HasError x
           then bindr (OnPostProcessing_start E m d n xs w) (\<lambda>(calls, xs, w). Inr (calls, x # xs, w))
           else if \<not> fc_send E n
           then bindr (OnPostProcessing_start E m d (Suc n) xs w) (\<lambda>(calls, xs, w). Inr (calls, send_failed E x # xs, w))
           else bindr (OnPostProcessing_start E m (Suc d) (Suc n) xs w) (\<lambda>(calls, xs, w).
                Inr (F_Send (Req_Download (x_LocalFile x) (x_FilePath x) (x_Flags x) (x_InitSize x)) # calls, x # xs, w))))"

text \<open>The second loop: files with errors at the front are given up.\<close>

fun OnPostProcessing_drop :: "fcontext list \<Rightarrow> posix \<Rightarrow> fault + (file_call list \<times> fcontext list \<times> posix)" where
  "OnPostProcessing_drop [] w = Inr ([], [], w)"
| "OnPostProcessing_drop (x # xs) w =
     (if HasError x
      then bindr (CloseFile x w) (\<lambda>(x, w). bindr (OnPostProcessing_drop xs w) (\<lambda>(calls, xs, w).
           Inr (callback (x_Download x) (\<lambda>cb. F_Done cb (x_ErrorCode x) (x_ErrMsg x)) @ calls, xs, w)))
      else Inr ([], x # xs, w))"

definition OnPostProcessing :: "fc_env \<Rightarrow> file_client \<Rightarrow> posix \<Rightarrow> fault + (file_call list \<times> file_client \<times> posix)" where
  "OnPostProcessing E c w =
     bindr (OnPostProcessing_start E (m_MaxDownloading c) 0 0 (m_vContext c) w) (\<lambda>(sends, xs, w).
     bindr (OnPostProcessing_drop xs w) (\<lambda>(calls, xs, w). Inr (sends @ calls, c\<lparr>m_vContext := xs\<rparr>, w)))"

section \<open>Cancelling and merging\<close>

text \<open>The contexts from the back of the list on, until one that is open.\<close>

fun Cancel_loop :: "fcontext list \<Rightarrow> file_call list \<times> nat \<times> fcontext list" where
  "Cancel_loop [] = ([], 0, [])"
| "Cancel_loop (x # xs) =
     (if IsOpen x then ([F_Interrupt], 0, x # xs)
      else let (calls, n, xs) = Cancel_loop xs in (callback (x_Discarded x) (\<lambda>cb. F_Discarded cb True) @ calls, Suc n, xs))"

definition Cancel :: "file_client \<Rightarrow> file_call list \<times> nat \<times> file_client" where
  "Cancel c = (let (calls, n, xs) = Cancel_loop (rev (m_vContext c)) in (calls, n, c\<lparr>m_vContext := rev xs\<rparr>))"

fun CleanCallbacks_loop :: "bool \<Rightarrow> fcontext list \<Rightarrow> posix \<Rightarrow> fault + (file_call list \<times> posix)" where
  "CleanCallbacks_loop cancel [] w = Inr ([], w)"
| "CleanCallbacks_loop cancel (x # xs) w =
     bindr (if IsOpen x then CloseFile x w else Inr (x, w)) (\<lambda>(x, w).
     bindr (CleanCallbacks_loop cancel xs w) (\<lambda>(calls, w).
     Inr (callback (x_Discarded x) (\<lambda>cb. F_Discarded cb cancel) @ calls, w)))"

definition CleanCallbacks_file :: "fc_env \<Rightarrow> file_client \<Rightarrow> posix \<Rightarrow> fault + (file_call list \<times> file_client \<times> posix)" where
  "CleanCallbacks_file E c w =
     bindr (CleanCallbacks_loop (fc_cancel E) (m_vContext c) w) (\<lambda>(calls, w). Inr (calls, c\<lparr>m_vContext := []\<rparr>, w))"

definition waiting :: "fcontext \<Rightarrow> bool" where
  "waiting x \<longleftrightarrow> \<not> IsOpen x \<and> \<not> HasError x"

text \<open>The files of \<open>c\<close> go to \<open>to\<close>, in front of those that wait there.\<close>

definition OnMergeTo :: "file_client \<Rightarrow> file_client \<Rightarrow> file_call list \<times> file_client \<times> file_client" where
  "OnMergeTo c to =
     (let xs = m_vContext to;
          to' = to\<lparr>m_vContext := takeWhile (\<lambda>x. \<not> waiting x) xs @ m_vContext c @ dropWhile (\<lambda>x. \<not> waiting x) xs\<rparr> in
      (if xs = [] \<and> m_vContext to' \<noteq> [] then [F_PostProcessing, F_DoEcho] else [], c\<lparr>m_vContext := []\<rparr>, to'))"

section \<open>Results\<close>

text \<open>
  The sending loop of an upload: it reads and sends whole blocks until a shorter one has been read,
  a request was not sent, or the sending buffer is full. The result is \<open>ok\<close>, the block that was read last and
  has not been sent, the requests and the number of requests tried. The loop ends with the file.
\<close>

definition bytes_left :: "nat \<Rightarrow> posix \<Rightarrow> nat" where
  "bytes_left fd w = (case file_of w fd of None \<Rightarrow> 0 | Some (f, bs) \<Rightarrow> length bs - of_pos f)"

lemma sys_read_left:
  assumes "(Some r, w') = sys_read fd n w" "r \<noteq> []"
  shows "bytes_left fd w' < bytes_left fd w"
proof -
  obtain f bs where f: "file_of w fd = Some (f, bs)" "r = take n (drop (of_pos f) bs)"
    "w' = set_descr fd (Some (f\<lparr>of_pos := of_pos f + length r\<rparr>)) w"
    using assms(1) by (auto simp: sys_read_def Let_def split: option.splits if_splits prod.splits)
  from f(1) have "fd < length (descriptors w)" "files w (of_path f) = Some bs"
    by (auto simp: file_of_def descr_def split: option.splits if_splits)
  then have "file_of w' fd = Some (f\<lparr>of_pos := of_pos f + length r\<rparr>, bs)"
    using f(3) by (simp add: file_of_def descr_def set_descr_def)
  moreover have "0 < length r" "length r \<le> length bs - of_pos f" using f(2) assms(2) by auto
  then have "length bs - (of_pos f + length r) < length bs - of_pos f" by linarith
  ultimately show ?thesis using f(1) by (simp add: bytes_left_def)
qed

function upload_loop ::
  "fc_env \<Rightarrow> nat \<Rightarrow> nat \<Rightarrow> posix \<Rightarrow> bool \<times> byte list option \<times> file_call list \<times> nat \<times> posix"
where
  "upload_loop E fd n w =
     (case sys_read fd STREAM_CHUNK_SIZE w of
        (None, w) \<Rightarrow> (False, None, [], n, w)
      | (Some bs, w) \<Rightarrow>
          if length bs \<noteq> STREAM_CHUNK_SIZE \<or> (n > 0 \<and> \<not> fc_IsAvailable E \<and> fc_full E n) then (True, Some bs, [], n, w)
          else if \<not> fc_send E n then (False, Some bs, [], Suc n, w)
          else let (ok, ret, calls, m, w) = upload_loop E fd (Suc n) w in (ok, ret, F_Send (Req_Uploading bs) # calls, m, w))"
  by pat_completeness auto
termination
  by (relation "measure (\<lambda>(E, fd, n, w). bytes_left fd w)") (auto intro!: sys_read_left simp: STREAM_CHUNK_SIZE_def)

declare upload_loop.simps [simp del]

text \<open>The last block and the end of the file, where a job of the client queue ends; then the error of the system if something failed.\<close>

definition upload_end ::
  "fc_env \<Rightarrow> bool \<Rightarrow> bool \<Rightarrow> byte list option \<Rightarrow> nat \<Rightarrow> fcontext \<Rightarrow> bool \<times> file_call list \<times> fcontext"
where
  "upload_end E job ok ret n x =
     (let bs = (case ret of None \<Rightarrow> [] | Some bs \<Rightarrow> bs);
          (ok, calls, n) = (if \<not> ok then (False, [], n)
             else if bs \<noteq> [] then if fc_send E n then (True, [F_Send (Req_Uploading bs)], Suc n) else (False, [], Suc n)
             else (True, [], n)) in
      if ok \<and> length bs < STREAM_CHUNK_SIZE
      then let x = x\<lparr>x_Sent := True\<rparr>; end_job = (if job then [F_EndJob] else []) in
           if fc_send E n then (True, calls @ F_Send Req_UploadCompleted # end_job, x) else (False, calls @ end_job, x)
      else (ok, calls, x))"

definition system_error :: "fc_env \<Rightarrow> posix \<Rightarrow> fcontext \<Rightarrow> fcontext" where
  "system_error E w x =
     (let e = (if x_File x = None then EBADF else if io_errno w \<noteq> 0 then io_errno w else fc_errno E) in x\<lparr>x_ErrorCode := e, x_ErrMsg := strerror w e\<rparr>)"

text \<open>What is left to do when a file has failed: \<open>x\<close> is a copy of its context.\<close>

definition give_up ::
  "fc_env \<Rightarrow> fcontext \<Rightarrow> bool \<Rightarrow> file_client \<Rightarrow> posix \<Rightarrow> fault + (file_call list \<times> file_client \<times> posix)"
where
  "give_up E x abort c w =
     bindr (CloseFile x w) (\<lambda>(x, w).
     bindr (OnPostProcessing E (c\<lparr>m_vContext := tl (m_vContext c)\<rparr>) w) (\<lambda>(calls, c, w).
     Inr (callback (x_Download x) (\<lambda>cb. F_Done cb (x_ErrorCode x) (x_ErrMsg x)) @ (if abort then [F_AbortJob] else []) @ calls, c, w)))"

definition on_Download_result ::
  "fc_env \<Rightarrow> int \<Rightarrow> wtext \<Rightarrow> file_client \<Rightarrow> posix \<Rightarrow> fault + (file_call list \<times> file_client \<times> posix)"
where
  "on_Download_result E res errMsg c w =
     (case m_vContext c of
        [] \<Rightarrow> OnPostProcessing E c w
      | x # xs \<Rightarrow>
          bindr (CloseFile (x\<lparr>x_ErrorCode := res, x_ErrMsg := errMsg\<rparr>) w) (\<lambda>(x, w).
          bindr (OnPostProcessing E (c\<lparr>m_vContext := xs\<rparr>) w) (\<lambda>(calls, c, w).
          Inr (callback (x_Download x) (\<lambda>cb. F_Done cb res errMsg) @ calls, c, w))))"

definition on_StartDownloading ::
  "nat \<Rightarrow> path \<Rightarrow> path \<Rightarrow> nat \<Rightarrow> int \<Rightarrow> file_client \<Rightarrow> posix \<Rightarrow> fault + (file_call list \<times> file_client \<times> posix)"
where
  "on_StartDownloading fileSize localFile remoteFile flags initSize c w =
     bindr (case m_vContext c of
         [] \<Rightarrow> bindr (OpenLocalWrite ((CContext_new False flags)\<lparr>x_LocalFile := localFile, x_FilePath := remoteFile\<rparr>) w)
                 (\<lambda>(x, w). Inr (x\<lparr>x_InitSize := initSize\<rparr>, [], w))
       | x # xs \<Rightarrow> Inr (x, xs, w)) (\<lambda>(x, xs, w).
     bindr (require (x_LocalFile x = localFile \<and> x_FilePath x = remoteFile \<and> x_Flags x = flags \<and> x_InitSize x = initSize)) (\<lambda>_.
     let x = x\<lparr>x_FileSize := fileSize\<rparr> in
     bindr (require (\<not> x_Uploading x)) (\<lambda>_.
     let initSize = (if x_InitSize x > 0 then x_InitSize x else 0) in
     bindr (GetFilePos x w) (\<lambda>(pos, w).
     bindr (if pos > initSize
            then case x_File x of None \<Rightarrow> Inl Assertion
              | Some fd \<Rightarrow>
                  bindr (require (sys_fsync fd w)) (\<lambda>_.
                  let (newPos, w) = sys_lseek fd initSize SEEK_SET w in bindr (require (newPos \<noteq> -1)) (\<lambda>_. Inr w))
            else Inr w) (\<lambda>w.
     Inr ([], c\<lparr>m_vContext := x # xs\<rparr>, w))))))"

definition on_Downloading :: "byte list \<Rightarrow> file_client \<Rightarrow> posix \<Rightarrow> fault + (file_call list \<times> file_client \<times> posix)" where
  "on_Downloading bs c w =
     (case m_vContext c of
        [] \<Rightarrow> Inr ([], c, w)
      | x # xs \<Rightarrow>
          bindr (require (\<not> x_Uploading x)) (\<lambda>_.
          case x_File x of None \<Rightarrow> Inl Assertion
          | Some fd \<Rightarrow>
              let (ret, w) = sys_write fd bs w in
              bindr (require (ret = Some (length bs))) (\<lambda>_.
              bindr (GetFilePos x w) (\<lambda>(downloaded, w).
              Inr (callback (x_Transferring x) (\<lambda>cb. F_Transferring cb (nat downloaded)), c, w)))))"

definition on_Upload_result ::
  "fc_env \<Rightarrow> int \<Rightarrow> wtext \<Rightarrow> int \<Rightarrow> file_client \<Rightarrow> posix \<Rightarrow> fault + (file_call list \<times> file_client \<times> posix)"
where
  "on_Upload_result E res errMsg initSize c w =
     (case m_vContext c of
        [] \<Rightarrow> Inr ([], c, w)
      | x # xs \<Rightarrow>
          if res \<noteq> 0 \<or> errMsg \<noteq> []
          then let x = x\<lparr>x_InitSize := initSize\<rparr> in
               bindr (require (x_Uploading x)) (\<lambda>_.
               give_up E (x\<lparr>x_ErrMsg := errMsg, x_ErrorCode := res\<rparr>) (x_QueueOk x) (c\<lparr>m_vContext := x # xs\<rparr>) w)
          else let x = x\<lparr>x_InitSize := initSize, x_QueueOk := fc_StartJob E\<rparr>;
                   (backup, n) = (if fc_IsAvailable E
                     then (if fc_send E 0 then [F_Send (Req_UploadBackup (x_FilePath x) (x_Flags x) (x_FileSize x) (x_InitSize x))] else [], 1)
                     else ([], 0)) in
               let (ok, ret, blocks, n, w) = (case x_File x of None \<Rightarrow> (False, None, [], n, w) | Some fd \<Rightarrow> upload_loop E fd n w);
                   (ok, last_block, x) = upload_end E (x_QueueOk x) ok ret n x;
                   calls = F_StartJob # backup @ blocks @ last_block in
               if ok then Inr (calls, c\<lparr>m_vContext := x # xs\<rparr>, w)
               else let x = system_error E w x in
                 if HasError x
                 then bindr (give_up E x (x_QueueOk x) (c\<lparr>m_vContext := x # xs\<rparr>) w) (\<lambda>(calls', c, w). Inr (calls @ calls', c, w))
                 else Inr (calls, c\<lparr>m_vContext := x # xs\<rparr>, w))"

definition on_Uploading_result ::
  "fc_env \<Rightarrow> int \<Rightarrow> int \<Rightarrow> wtext \<Rightarrow> file_client \<Rightarrow> posix \<Rightarrow> fault + (file_call list \<times> file_client \<times> posix)"
where
  "on_Uploading_result E uploaded res errMsg c w =
     (case m_vContext c of
        [] \<Rightarrow> Inr ([], c, w)
      | x # xs \<Rightarrow>
          bindr (require (x_Uploading x)) (\<lambda>_.
          let progress = callback (x_Transferring x) (\<lambda>cb. F_Transferring cb (nat (uploaded mod 18446744073709551616))) in
          if uploaded < 0 \<or> res \<noteq> 0 \<or> errMsg \<noteq> []
          then bindr (require (x_QueueOk x)) (\<lambda>_.
               let x = x\<lparr>x_ErrorCode := res, x_ErrMsg := errMsg\<rparr>; c = c\<lparr>m_vContext := x # xs\<rparr> in
               if HasError x then give_up E x False c w else Inr (progress, c, w))
          else if \<not> x_Sent x
          then case x_File x of
                 None \<Rightarrow> Inl Assertion
               | Some fd \<Rightarrow>
                   let (ret, w) = sys_read fd STREAM_CHUNK_SIZE w in
                   bindr (require (ret \<noteq> None)) (\<lambda>_.
                   let (ok, calls, x) = upload_end E False True ret 0 x in
                   if ok then Inr (calls @ progress, c\<lparr>m_vContext := x # xs\<rparr>, w)
                   else let x = system_error E w x; c = c\<lparr>m_vContext := x # xs\<rparr> in
                     if HasError x
                     then bindr (give_up E x False c w) (\<lambda>(calls', c, w). Inr (calls @ calls', c, w))
                     else Inr (calls @ progress, c, w))
          else Inr (progress, c, w)))"

definition on_UploadCompleted_result ::
  "fc_env \<Rightarrow> file_client \<Rightarrow> posix \<Rightarrow> fault + (file_call list \<times> file_client \<times> posix)"
where
  "on_UploadCompleted_result E c w =
     (case m_vContext c of
        [] \<Rightarrow> OnPostProcessing E c w
      | x # xs \<Rightarrow>
          if IsOpen x
          then bindr (require (x_Uploading x)) (\<lambda>_.
               bindr (CloseFile x w) (\<lambda>(x', w).
               bindr (OnPostProcessing E (c\<lparr>m_vContext := xs\<rparr>) w) (\<lambda>(calls, c, w).
               Inr (callback (x_Download x) (\<lambda>cb. F_Done cb 0 []) @ calls, c, w))))
          else bindr (require (x_QueueOk x)) (\<lambda>_.
               OnPostProcessing E (c\<lparr>m_vContext := x\<lparr>x_Sent := False, x_QueueOk := False\<rparr> # xs\<rparr>) w))"

text \<open>A 64-bit position is read into a signed variable.\<close>

fun file_OnResultReturned :: "fc_env \<Rightarrow> sf_result \<Rightarrow> file_client \<Rightarrow> posix \<Rightarrow> fault + (file_call list \<times> file_client \<times> posix)" where
  "file_OnResultReturned E (Res_Download res errMsg) c w = on_Download_result E res errMsg c w"
| "file_OnResultReturned E (Res_StartDownloading fileSize localFile remoteFile flags initSize) c w =
     on_StartDownloading fileSize localFile remoteFile flags initSize c w"
| "file_OnResultReturned E (Res_Downloading bs) c w = on_Downloading bs c w"
| "file_OnResultReturned E (Res_Upload res errMsg initPos) c w = on_Upload_result E res errMsg initPos c w"
| "file_OnResultReturned E Res_UploadBackup c w = Inr ([], c, w)"
| "file_OnResultReturned E (Res_Uploading pos res errMsg) c w =
     on_Uploading_result E (signed_take_bit 63 (int pos)) res errMsg c w"
| "file_OnResultReturned E Res_UploadCompleted c w = on_UploadCompleted_result E c w"

end
