(* ===== verification/Filestream.thy ===== *)
theory Filestream
  imports Fileclient
begin

text \<open>
  The file streaming client and server together. A download is one call of the server, whose
  results the client handles in their order. Uploads are in \<open>Fileupload\<close>.
\<close>

section \<open>Opening for writing\<close>

definition old_bytes :: "nat \<Rightarrow> posix \<Rightarrow> path \<Rightarrow> byte list" where
  "old_bytes flags w p = (case files w p of None \<Rightarrow> [] | Some bs \<Rightarrow> if has_flag flags FILE_OPEN_TRUNCACTED then [] else bs)"

definition appends :: "nat \<Rightarrow> posix \<Rightarrow> path \<Rightarrow> bool" where
  "appends flags w p \<longleftrightarrow> files w p \<noteq> None \<and> \<not> has_flag flags FILE_OPEN_TRUNCACTED \<and> has_flag flags FILE_OPEN_APPENDED"

text \<open>A file that received \<open>new\<close>: new, truncated, appended to, or overwritten from its start.\<close>

definition received :: "nat \<Rightarrow> posix \<Rightarrow> path \<Rightarrow> byte list \<Rightarrow> byte list" where
  "received flags w p new = merged (appends flags w p) (old_bytes flags w p) new"

lemma received_cases:
  "received flags w p new =
     (case files w p of None \<Rightarrow> new
      | Some old \<Rightarrow> if has_flag flags FILE_OPEN_TRUNCACTED then new
                    else if has_flag flags FILE_OPEN_APPENDED then old @ new else new @ drop (length new) old)"
  by (auto simp: received_def appends_def old_bytes_def merged_def split: option.splits)

lemma open_write_ok:
  assumes "open_errno w p = 0"
  shows "\<exists>fd w'. open_write p flags w = (files w p \<noteq> None, Inr fd, w') \<and>
    at w' fd p 0 (appends flags w p) (old_bytes flags w p) \<and> files w' = (files w)(p \<mapsto> old_bytes flags w p) \<and> same_env w w'"
proof (cases "files w p")
  case None
  obtain fd w' where "sys_open p True True False False w = (Inr fd, w')" "at w' fd p 0 False []"
    "files w' = (files w)(p \<mapsto> [])" "same_env w w'"
    using sys_open_new [OF assms None, of True False False] by blast
  with None show ?thesis by (simp add: open_write_def old_bytes_def appends_def)
next
  case (Some bs)
  then have "sys_open p True True False False w = (Inl EEXIST, w)"
    using assms by (simp add: sys_open_def)
  with sys_open_old [OF assms Some, of True "has_flag flags FILE_OPEN_TRUNCACTED"
      "\<not> has_flag flags FILE_OPEN_TRUNCACTED \<and> has_flag flags FILE_OPEN_APPENDED"] Some
  show ?thesis by (auto simp: open_write_def old_bytes_def appends_def)
qed

definition usable :: "posix \<Rightarrow> path \<Rightarrow> bool" where
  "usable w p \<longleftrightarrow> open_errno w p = 0 \<and> lock_errno w p = 0 \<and> io_errno w = 0"

lemma usable_env: "usable w p \<Longrightarrow> same_env w w' \<Longrightarrow> usable w' p"
  by (simp add: usable_def same_env_def)

lemma OpenLocalWrite_ok:
  assumes "usable w (x_LocalFile x)"
  shows "\<exists>fd w'. OpenLocalWrite x w =
      Inr (x\<lparr>x_File := Some fd, x_InitSize := (if files w (x_LocalFile x) = None then x_InitSize x else 0)\<rparr>, w') \<and>
    at w' fd (x_LocalFile x) 0 (appends (x_Flags x) w (x_LocalFile x)) (old_bytes (x_Flags x) w (x_LocalFile x)) \<and>
    files w' = (files w)(x_LocalFile x \<mapsto> old_bytes (x_Flags x) w (x_LocalFile x)) \<and> same_env w w'"
proof -
  let ?p = "x_LocalFile x" and ?e = "files w (x_LocalFile x) \<noteq> None"
  obtain fd w1 where w1: "open_write ?p (x_Flags x) w = (?e, Inr fd, w1)" 
    "at w1 fd ?p 0 (appends (x_Flags x) w ?p) (old_bytes (x_Flags x) w ?p)"
    "files w1 = (files w)(?p \<mapsto> old_bytes (x_Flags x) w ?p)" "same_env w w1"
    using open_write_ok assms unfolding usable_def by blast
  obtain w2 where w2: "sys_lseek fd 0 SEEK_CUR w1 = (0, w2)" "at w2 fd ?p 0 (appends (x_Flags x) w ?p) (old_bytes (x_Flags x) w ?p)"
    "files w2 = files w1" "same_env w1 w2"
    using sys_lseek_cur [OF w1(2)] by auto
  have lock: "sys_lock fd w1 = 0" "sys_lock fd w2 = 0"
    using at_open_now(2) [OF w1(2)] at_open_now(2) [OF w2(2)] same_envD(3) [OF w1(4)] same_envD(3) [OF w2(4)] assms
    by (simp_all add: usable_def)
  show ?thesis
  proof (cases ?e)
    case True
    then have "OpenLocalWrite x w = Inr (x\<lparr>x_File := Some fd, x_InitSize := 0\<rparr>, w2)"
      using w1(1) w2(1) lock(2) by (simp add: OpenLocalWrite_def GetFilePos_def)
    moreover have "same_env w w2" using w1(4) w2(4) by (rule same_env_trans)
    ultimately show ?thesis using True w1(3) w2(2,3) by (intro exI [of _ fd] exI [of _ w2]) auto
  next
    case False
    then have "OpenLocalWrite x w = Inr (x\<lparr>x_File := Some fd\<rparr>, w1)"
      using w1(1) lock(1) by (simp add: OpenLocalWrite_def)
    then show ?thesis using False w1 by (intro exI [of _ fd] exI [of _ w1]) simp
  qed
qed

section \<open>A download\<close>

lemma take_rest: "take n xs @ drop (length (take n xs)) xs = xs"
  by (cases "n \<le> length xs") auto

lemma Download_loop_ok:
  assumes "at w fd p pos app bs" "io_errno w = 0" "\<And>i. alive i"
  shows "\<exists>blocks w'. Download_loop alive interrupted fd n (length bs - pos) err w =
      (map Res_Downloading blocks, Some True, if \<exists>i<length blocks. interrupted (n + i) then interrupted_error else err, w') \<and>
    concat blocks = drop pos bs \<and> (\<forall>b\<in>set blocks. b \<noteq> [] \<and> length b \<le> STREAM_CHUNK_SIZE) \<and> files w' = files w \<and> same_env w w'"
  using assms(1,2)
proof (induction "length bs - pos" arbitrary: w pos n err rule: less_induct)
  case less
  let ?n = "min STREAM_CHUNK_SIZE (length bs - pos)"
  let ?b = "take ?n (drop pos bs)"
  obtain w1 where w1: "sys_read fd ?n w = (Some ?b, w1)" "at w1 fd p (pos + length ?b) app bs" "files w1 = files w" "same_env w w1"
    using sys_read_ok [OF less.prems, of ?n] by blast
  show ?case
  proof (cases "?b = []")
    case True
    then have "drop pos bs = []" by (auto simp: STREAM_CHUNK_SIZE_def)
    with w1 True show ?thesis
      by (subst Download_loop.simps) (intro exI [of _ "[]"] exI [of _ w1], simp)
  next
    case False
    then have lt: "length bs - (pos + length ?b) < length bs - pos"
      by (cases "pos < length bs") (auto simp: STREAM_CHUNK_SIZE_def)
    have io: "io_errno w1 = 0" using same_envD(1) [OF w1(4)] less.prems(2) by simp
    let ?err = "if interrupted n then interrupted_error else err"
    obtain blocks w2 where IH: "Download_loop alive interrupted fd (Suc n) (length bs - (pos + length ?b)) ?err w1 =
      (map Res_Downloading blocks, Some True, if \<exists>i<length blocks. interrupted (Suc n + i) then interrupted_error else ?err, w2)"
      "concat blocks = drop (pos + length ?b) bs" "\<forall>b\<in>set blocks. b \<noteq> [] \<and> length b \<le> STREAM_CHUNK_SIZE"
      "files w2 = files w1" "same_env w1 w2"
      using less.hyps [OF lt w1(2) io, of "Suc n" ?err] by blast
    have len: "length bs - pos - length ?b = length bs - (pos + length ?b)" by simp
    have ex: "(\<exists>i<length (?b # blocks). interrupted (n + i)) \<longleftrightarrow> interrupted n \<or> (\<exists>i<length blocks. interrupted (Suc n + i))"
      by (auto simp: less_Suc_eq_0_disj)
    have err: "(if \<exists>i<length blocks. interrupted (Suc n + i) then interrupted_error else ?err) =
        (if \<exists>i<length (?b # blocks). interrupted (n + i) then interrupted_error else err)"
      unfolding ex by auto
    have "?b @ drop (length ?b) (drop pos bs) = drop pos bs" by (rule take_rest)
    then have cat: "concat (?b # blocks) = drop pos bs"
      by (simp only: concat.simps IH(2) drop_drop add.commute [of pos "length ?b"])
    have "Download_loop alive interrupted fd n (length bs - pos) err w =
        (map Res_Downloading (?b # blocks), Some True,
         if \<exists>i<length (?b # blocks). interrupted (n + i) then interrupted_error else err, w2)"
      unfolding err [symmetric]
      by (subst Download_loop.simps) (use w1(1) False assms(3) IH(1) in \<open>simp only: len prod.case option.case if_False Let_def simp_thms list.map\<close>)
    moreover have "same_env w w2" using w1(4) IH(5) by (rule same_env_trans)
    ultimately show ?thesis
      using cat IH(3,4) w1(3) False
      by (intro exI [of _ "?b # blocks"] exI [of _ w2]) (simp only: list.set ball_simps length_take min.cobounded1 simp_thms, auto)
  qed
qed

text \<open>A file of which \<open>sent\<close> has been written so far.\<close>

definition writing :: "posix \<Rightarrow> nat \<Rightarrow> path \<Rightarrow> bool \<Rightarrow> byte list \<Rightarrow> byte list \<Rightarrow> bool" where
  "writing w fd p app old sent \<longleftrightarrow> (\<exists>pos. at w fd p pos app (merged app old sent) \<and> (app \<or> pos = length sent))"

lemma writing_start: "at w fd p 0 app old \<Longrightarrow> writing w fd p app old []"
  by (auto simp: writing_def)

lemma writing_files: "writing w fd p app old sent \<Longrightarrow> files w p = Some (merged app old sent)"
  by (auto simp: writing_def at_def)

lemma writing_write:
  assumes "writing w fd p app old sent" "io_errno w = 0"
  shows "\<exists>w'. sys_write fd new w = (Some (length new), w') \<and> writing w' fd p app old (sent @ new) \<and>
    files w' = (files w)(p \<mapsto> merged app old (sent @ new)) \<and> same_env w w'"
proof -
  obtain pos where at: "at w fd p pos app (merged app old sent)" "app \<or> pos = length sent"
    using assms(1) by (auto simp: writing_def)
  have pos: "(if app then length (merged app old sent) else pos) = (if app then length (merged app old sent) else length sent)"
    using at(2) by auto
  from sys_write_ok [OF at(1) assms(2), of new, unfolded pos write_merged] obtain w' where w':
    "sys_write fd new w = (Some (length new), w')"
    "at w' fd p ((if app then length (merged app old sent) else length sent) + length new) app (merged app old (sent @ new))"
    "files w' = (files w)(p \<mapsto> merged app old (sent @ new))" "same_env w w'" by blast
  have "writing w' fd p app old (sent @ new)"
    unfolding writing_def by (rule exI, rule conjI, rule w'(2)) simp
  with w' show ?thesis by blast
qed

lemma writing_pos:
  assumes "writing w fd p app old sent"
  shows "\<exists>pos w'. sys_lseek fd 0 SEEK_CUR w = (int pos, w') \<and> writing w' fd p app old sent \<and> files w' = files w \<and> same_env w w'"
  using assms sys_lseek_cur unfolding writing_def by metis

lemma writing_open: "writing w fd p app old sent \<Longrightarrow> sys_fsync fd w"
  by (auto simp: writing_def intro: at_open_now)

text \<open>The results of one call, in their order.\<close>

fun handle_results ::
  "fc_env \<Rightarrow> sf_result list \<Rightarrow> file_client \<Rightarrow> posix \<Rightarrow> fault + (file_call list \<times> file_client \<times> posix)"
where
  "handle_results E [] c w = Inr ([], c, w)"
| "handle_results E (r # rs) c w =
     bindr (file_OnResultReturned E r c w) (\<lambda>(calls, c, w).
     bindr (handle_results E rs c w) (\<lambda>(calls', c, w). Inr (calls @ calls', c, w)))"

lemma handle_results_append:
  "handle_results E (rs @ rs') c w =
     bindr (handle_results E rs c w) (\<lambda>(calls, c, w).
     bindr (handle_results E rs' c w) (\<lambda>(calls', c, w). Inr (calls @ calls', c, w)))"
  by (induction rs arbitrary: c w) (simp_all add: bindr_def split: sum.splits prod.splits)

definition is_progress :: "nat option \<Rightarrow> file_call \<Rightarrow> bool" where
  "is_progress cb call \<longleftrightarrow> (\<exists>d n. cb = Some d \<and> call = F_Transferring d n)"

lemma on_Downloading_ok:
  assumes "m_vContext c = x # xs" "\<not> x_Uploading x" "x_File x = Some fd" "writing w fd p app old sent" "io_errno w = 0"
  shows "\<exists>calls w'. on_Downloading bs c w = Inr (calls, c, w') \<and> list_all (is_progress (x_Transferring x)) calls \<and>
    writing w' fd p app old (sent @ bs) \<and> files w' = (files w)(p \<mapsto> merged app old (sent @ bs)) \<and> same_env w w'"
proof -
  obtain w1 where w1: "sys_write fd bs w = (Some (length bs), w1)" "writing w1 fd p app old (sent @ bs)"
    "files w1 = (files w)(p \<mapsto> merged app old (sent @ bs))" "same_env w w1"
    using writing_write [OF assms(4,5)] by blast
  obtain pos w2 where w2: "sys_lseek fd 0 SEEK_CUR w1 = (int pos, w2)" "writing w2 fd p app old (sent @ bs)" "files w2 = files w1"
    "same_env w1 w2"
    using writing_pos [OF w1(2)] by blast
  have "on_Downloading bs c w = Inr (callback (x_Transferring x) (\<lambda>cb. F_Transferring cb pos), c, w2)"
    using assms(1-3) w1(1) w2(1) by (simp add: on_Downloading_def GetFilePos_def)
  moreover have "list_all (is_progress (x_Transferring x)) (callback (x_Transferring x) (\<lambda>cb. F_Transferring cb pos))"
    by (simp add: callback_def is_progress_def split: option.split)
  moreover have "same_env w w2" using w1(4) w2(4) by (rule same_env_trans)
  ultimately show ?thesis using w1(3) w2(2,3) by auto
qed

lemma blocks_received:
  assumes "m_vContext c = x # xs" "\<not> x_Uploading x" "x_File x = Some fd"
  shows "writing w fd p app old sent \<Longrightarrow> io_errno w = 0 \<Longrightarrow>
    \<exists>calls w'. handle_results E (map Res_Downloading blocks) c w = Inr (calls, c, w') \<and>
      list_all (is_progress (x_Transferring x)) calls \<and> writing w' fd p app old (sent @ concat blocks) \<and>
      files w' = (files w)(p \<mapsto> merged app old (sent @ concat blocks)) \<and> same_env w w'"
proof (induction blocks arbitrary: w sent)
  case Nil
  then show ?case using writing_files [OF Nil(1)] by auto
next
  case (Cons b blocks)
  obtain calls w1 where w1: "on_Downloading b c w = Inr (calls, c, w1)" "list_all (is_progress (x_Transferring x)) calls"
    "writing w1 fd p app old (sent @ b)" "files w1 = (files w)(p \<mapsto> merged app old (sent @ b))" "same_env w w1"
    using on_Downloading_ok [OF assms Cons.prems] by blast
  have "io_errno w1 = 0" using same_envD(1) [OF w1(5)] Cons.prems(2) by simp
  from Cons.IH [OF w1(3) this] obtain calls' w2 where w2: "handle_results E (map Res_Downloading blocks) c w1 = Inr (calls', c, w2)"
    "list_all (is_progress (x_Transferring x)) calls'" "writing w2 fd p app old ((sent @ b) @ concat blocks)"
    "files w2 = (files w1)(p \<mapsto> merged app old ((sent @ b) @ concat blocks))" "same_env w1 w2" by blast
  have "same_env w w2" using w1(5) w2(5) by (rule same_env_trans)
  with w1 w2 show ?case by (auto simp: fun_eq_iff)
qed

lemma restore_new:
  assumes "writing w fd p app old sent"
  shows "\<exists>w'. restore_file fd p (-1) w = Inr w' \<and> files w' = (files w)(p := None) \<and> same_env w w'"
  using writing_files [OF assms] by (auto simp: restore_file_def sys_remove_def same_env_def sys_close_def set_descr_def)

lemma restore_old:
  assumes "writing w fd p app old sent"
  shows "\<exists>w'. restore_file fd p (int n) w = Inr w' \<and>
    files w' = (files w)(p \<mapsto> take n (merged app old sent) @ replicate (n - length (merged app old sent)) 0) \<and> same_env w w'"
proof -
  obtain pos where at: "at w fd p pos app (merged app old sent)" using assms by (auto simp: writing_def)
  obtain w1 where w1: "sys_lseek fd (int n) SEEK_SET w = (int n, w1)" "at w1 fd p n app (merged app old sent)"
    "files w1 = files w" "same_env w w1"
    using sys_lseek_set [OF at, of n] by blast
  obtain w2 where w2: "sys_ftruncate fd (int n) w1 = (True, w2)" "same_env w1 w2"
    "files w2 = (files w1)(p \<mapsto> take n (merged app old sent) @ replicate (n - length (merged app old sent)) 0)"
    using sys_ftruncate_ok [OF w1(2), of n] by blast
  have "restore_file fd p (int n) w = Inr (sys_close fd w2)"
    using at_open_now(1) [OF at] w1(1) w2(1) by (simp add: restore_file_def)
  moreover have "same_env w (sys_close fd w2)"
    using same_env_trans [OF same_env_trans [OF w1(4) w2(2)] sys_close_fields(2)] .
  ultimately show ?thesis using w1(3) w2(3) by simp
qed

lemma full_path_ok: "p \<noteq> [] \<Longrightarrow> \<exists>q. full_path root p = Inr q"
  by (simp add: full_path_def split: list.split)

lemma open_read_ok:
  assumes "usable w p" "files w p = Some bs"
  shows "\<exists>fd w'. sys_open p False False False False w = (Inr fd, w') \<and> at w' fd p 0 False bs \<and> files w' = files w \<and>
    same_env w w' \<and> sys_lock fd w' = 0 \<and> io_errno w' = 0"
proof -
  obtain fd w1 where w1: "sys_open p False False False False w = (Inr fd, w1)" "at w1 fd p 0 False bs"
    "files w1 = (files w)(p \<mapsto> bs)" "same_env w w1"
    using sys_open_old [of w p bs False False False] assms by (auto simp: usable_def)
  moreover have "(files w)(p \<mapsto> bs) = files w" using assms(2) by (simp add: fun_upd_idem)
  moreover have "sys_lock fd w1 = 0" using at_open_now(2) [OF w1(2)] same_envD(3) [OF w1(4)] assms(1) by (simp add: usable_def)
  moreover have "io_errno w1 = 0" using same_envD(1) [OF w1(4)] assms(1) by (simp add: usable_def)
  ultimately show ?thesis by auto
qed

text \<open>What the server sends.\<close>

lemma Download_request_ok:
  assumes "m_of s = None" "full_path root remote = Inr p" "files w p = Some bs" "usable w p"
    and "sf_start_ok E" "\<And>i. sf_alive E i"
  shows "\<exists>blocks w'. OnSlowRequestArrive_file E root (Req_Download localFile remote flags initSize) s w =
      Inr (Res_StartDownloading (length bs) localFile remote flags initSize # map Res_Downloading blocks @
           [case if \<exists>i<length blocks. sf_interrupted E i then interrupted_error else (0, []) of (e, m) \<Rightarrow> Res_Download e m],
         CSFileImpl_new, w') \<and>
    concat blocks = bs \<and> (\<forall>b\<in>set blocks. b \<noteq> [] \<and> length b \<le> STREAM_CHUNK_SIZE) \<and> files w' = files w"
proof -
  obtain fd w1 where w1: "sys_open p False False False False w = (Inr fd, w1)" "at w1 fd p 0 False bs" "files w1 = files w"
    "sys_lock fd w1 = 0" "io_errno w1 = 0"
    using open_read_ok [OF assms(4,3)] by blast
  obtain blocks w2 where w2: "Download_loop (sf_alive E) (sf_interrupted E) fd 0 (length bs) (0, []) w1 =
      (map Res_Downloading blocks, Some True, if \<exists>i<length blocks. sf_interrupted E i then interrupted_error else (0, []), w2)"
    "concat blocks = bs" "\<forall>b\<in>set blocks. b \<noteq> [] \<and> length b \<le> STREAM_CHUNK_SIZE" "files w2 = files w1"
    using Download_loop_ok [OF w1(2,5), of "sf_alive E" "sf_interrupted E" 0 "(0, [])"] assms(6) by auto
  obtain e m where em: "(if \<exists>i<length blocks. sf_interrupted E i then interrupted_error else (0, [])) = (e, m)"
    by (meson surj_pair)
  have "CleanOF s w = Inr (CSFileImpl_new, w)" using assms(1) by (simp add: CleanOF_def)
  then have "OnSlowRequestArrive_file E root (Req_Download localFile remote flags initSize) s w =
      Inr (Res_StartDownloading (length bs) localFile remote flags initSize # map Res_Downloading blocks @
           [case if \<exists>i<length blocks. sf_interrupted E i then interrupted_error else (0, []) of (e, m) \<Rightarrow> Res_Download e m],
         CSFileImpl_new, sys_close fd w2)"
    using assms(2,5) w1(1,4) w2(1) at_open_now(3) [OF w1(2)]
    unfolding em by (simp add: OnSlowRequestArrive_file_def Download_def Let_def)
  with w1(3) w2 show ?thesis by auto
qed

lemma Download_request_fails:
  assumes "m_of s = None" "full_path root remote = Inr p" "files w p = None"
  shows "\<exists>e. e \<noteq> 0 \<and> OnSlowRequestArrive_file E root (Req_Download localFile remote flags initSize) s w =
      Inr ([Res_Download e (strerror w e)], CSFileImpl_new, w)"
  using assms
  by (auto simp: OnSlowRequestArrive_file_def Download_def CleanOF_def sys_open_def ENOENT_def split: prod.split)

text \<open>A download that is open, with nothing behind it in the list.\<close>

definition downloading :: "nat \<Rightarrow> path \<Rightarrow> path \<Rightarrow> nat \<Rightarrow> nat \<Rightarrow> int \<Rightarrow> file_client \<Rightarrow> fcontext \<Rightarrow> bool" where
  "downloading fd localFile remoteFile flags cb init c x \<longleftrightarrow> m_vContext c = [x] \<and> x_File x = Some fd \<and> \<not> x_Uploading x \<and>
     x_LocalFile x = localFile \<and> x_FilePath x = remoteFile \<and> x_Flags x = flags \<and> x_Download x = Some cb \<and> x_InitSize x = init \<and>
     \<not> HasError x"

lemma start_download:
  assumes "localFile \<noteq> []" "remoteFile \<noteq> []" "usable w localFile" "fc_send E 0"
    and "c = snd (client_Download localFile remoteFile (Some cb) progress aborted flags se CStreamingFile_new)"
  shows "\<exists>x c1 w1 fd. OnPostProcessing E c w =
      Inr ([F_Send (Req_Download localFile remoteFile flags (if files w localFile = None then -1 else 0))], c1, w1) \<and>
    downloading fd localFile remoteFile flags cb (if files w localFile = None then -1 else 0) c1 x \<and> x_Transferring x = progress \<and>
    m_MaxDownloading c1 = 1 \<and>
    at w1 fd localFile 0 (appends flags w localFile) (old_bytes flags w localFile) \<and>
    files w1 = (files w)(localFile \<mapsto> old_bytes flags w localFile) \<and> same_env w w1"
proof -
  let ?x = "(CContext_new False flags)\<lparr>x_LocalFile := localFile, x_FilePath := remoteFile, x_Download := Some cb,
    x_Transferring := progress, x_Discarded := aborted, x_Se := se\<rparr>"
  have c: "m_vContext c = [?x]" "m_MaxDownloading c = 1"
    using assms(1,2,5) by (simp_all add: client_Download_def OkFiles_def PostProcess_def CStreamingFile_new_def Let_def)
  have x: "x_LocalFile ?x = localFile" "x_Flags ?x = flags" "x_InitSize ?x = -1" "\<not> IsOpen ?x" "\<not> HasError ?x" "\<not> x_Uploading ?x"
    by (simp_all add: CContext_new_def IsOpen_def HasError_def)
  obtain fd w1 where w1: "OpenLocalWrite ?x w =
      Inr (?x\<lparr>x_File := Some fd, x_InitSize := (if files w localFile = None then -1 else 0)\<rparr>, w1)"
    "at w1 fd localFile 0 (appends flags w localFile) (old_bytes flags w localFile)"
    "files w1 = (files w)(localFile \<mapsto> old_bytes flags w localFile)" "same_env w w1"
    using OpenLocalWrite_ok [of w ?x] assms(3) unfolding x by blast
  let ?y = "?x\<lparr>x_File := Some fd, x_InitSize := (if files w localFile = None then -1 else 0)\<rparr>"
  have y: "\<not> HasError ?y" "x_LocalFile ?y = localFile" "x_FilePath ?y = remoteFile" "x_Flags ?y = flags"
    "x_InitSize ?y = (if files w localFile = None then -1 else 0)" "x_Download ?y = Some cb" "x_Transferring ?y = progress"
    "x_File ?y = Some fd" "\<not> x_Uploading ?y"
    by (simp_all add: CContext_new_def HasError_def)
  have "OnPostProcessing E c w =
      Inr ([F_Send (Req_Download localFile remoteFile flags (if files w localFile = None then -1 else 0))], c\<lparr>m_vContext := [?y]\<rparr>, w1)"
    unfolding OnPostProcessing_def c OnPostProcessing_start.simps w1(1) bindr_simps prod.case
    using x(4-6) y assms(4) by simp
  moreover have "downloading fd localFile remoteFile flags cb (if files w localFile = None then -1 else 0) (c\<lparr>m_vContext := [?y]\<rparr>) ?y"
    using y by (simp add: downloading_def)
  ultimately show ?thesis
    using w1 y(7) c(2) by (intro exI [of _ ?y] exI [of _ "c\<lparr>m_vContext := [?y]\<rparr>"] exI [of _ w1] exI [of _ fd]) simp
qed

lemma on_StartDownloading_ok:
  assumes "downloading fd localFile remoteFile flags cb init c x" "init \<in> {-1, 0}" "at w fd localFile 0 app old"
  shows "\<exists>c' w'. on_StartDownloading n localFile remoteFile flags init c w = Inr ([], c', w') \<and>
    downloading fd localFile remoteFile flags cb init c' (x\<lparr>x_FileSize := n\<rparr>) \<and> m_MaxDownloading c' = m_MaxDownloading c \<and>
    at w' fd localFile 0 app old \<and> files w' = files w \<and> same_env w w'"
proof -
  obtain w1 where w1: "sys_lseek fd 0 SEEK_CUR w = (0, w1)" "at w1 fd localFile 0 app old" "files w1 = files w" "same_env w w1"
    using sys_lseek_cur [OF assms(3)] by auto
  have init: "\<not> 0 < init" "(if 0 < init then init else 0) = 0" using assms(2) by auto
  have "on_StartDownloading n localFile remoteFile flags init c w = Inr ([], c\<lparr>m_vContext := [x\<lparr>x_FileSize := n\<rparr>]\<rparr>, w1)"
    using assms(1) w1(1) init unfolding downloading_def by (simp add: on_StartDownloading_def GetFilePos_def Let_def)
  moreover have "downloading fd localFile remoteFile flags cb init (c\<lparr>m_vContext := [x\<lparr>x_FileSize := n\<rparr>]\<rparr>) (x\<lparr>x_FileSize := n\<rparr>)"
    using assms(1) by (simp add: downloading_def HasError_def)
  ultimately show ?thesis using w1 by auto
qed

lemma on_Download_result_ok:
  assumes "downloading fd localFile remoteFile flags cb init c x" "writing w fd localFile app old sent"
  shows "\<exists>c' w'. on_Download_result E 0 [] c w = Inr ([F_Done cb 0 []], c', w') \<and> m_vContext c' = [] \<and>
    files w' = files w \<and> same_env w w'"
proof -
  have "on_Download_result E 0 [] c w = Inr ([F_Done cb 0 []], c\<lparr>m_vContext := []\<rparr>, sys_close fd w)"
    using assms(1) unfolding downloading_def
    by (simp add: on_Download_result_def CloseFile_def HasError_def OnPostProcessing_def callback_def)
  then show ?thesis by simp
qed

lemma on_Download_result_error:
  assumes "downloading fd localFile remoteFile flags cb init c x" "writing w fd localFile app old sent" "init \<in> {-1, 0}" "e \<noteq> 0"
  shows "\<exists>c' w'. on_Download_result E e m c w = Inr ([F_Done cb e m], c', w') \<and> m_vContext c' = [] \<and>
    files w' = (files w)(localFile := if init = -1 then None else Some []) \<and> same_env w w'"
proof -
  have "\<exists>w'. restore_file fd localFile init w = Inr w' \<and> files w' = (files w)(localFile := if init = -1 then None else Some []) \<and> same_env w w'"
    using restore_new [OF assms(2)] restore_old [OF assms(2), of 0] assms(3) by auto
  then obtain w' where w': "restore_file fd localFile init w = Inr w'"
    "files w' = (files w)(localFile := if init = -1 then None else Some [])" "same_env w w'" by blast
  have "on_Download_result E e m c w = Inr ([F_Done cb e m], c\<lparr>m_vContext := []\<rparr>, w')"
    using assms(1,4) w'(1) unfolding downloading_def
    by (simp add: on_Download_result_def CloseFile_def HasError_def OnPostProcessing_def callback_def)
  with w' show ?thesis by auto
qed

text \<open>A download from its start to the last result: the client posts it, the server answers.\<close>

definition download_file ::
  "fc_env \<Rightarrow> sf_env \<Rightarrow> path \<Rightarrow> path \<Rightarrow> path \<Rightarrow> nat \<Rightarrow> nat option \<Rightarrow> nat \<Rightarrow> posix \<Rightarrow> sfile \<Rightarrow> posix \<Rightarrow>
   fault + (sf_result list \<times> file_call list \<times> file_client \<times> posix \<times> posix)"
where
  "download_file E SE root localFile remoteFile cb progress flags wl s ws =
     (let ((ok, calls), c) = client_Download localFile remoteFile (Some cb) progress None flags None CStreamingFile_new in
      bindr (OnPostProcessing E c wl) (\<lambda>(calls, c, wl).
      case calls of
        [F_Send req] \<Rightarrow>
          bindr (OnSlowRequestArrive_file SE root req s ws) (\<lambda>(rs, s, ws).
          bindr (handle_results E rs c wl) (\<lambda>(calls, c, wl). Inr (rs, calls, c, wl, ws)))
      | _ \<Rightarrow> Inr ([], calls, c, wl, ws)))"

lemma download_file_runs:
  assumes "localFile \<noteq> []" "remoteFile \<noteq> []" "usable wl localFile" "fc_send E 0"
  shows "\<exists>x c1 w1 fd. download_file E SE root localFile remoteFile cb progress flags wl s ws =
      bindr (OnSlowRequestArrive_file SE root (Req_Download localFile remoteFile flags (if files wl localFile = None then -1 else 0)) s ws)
        (\<lambda>(rs, s, ws). bindr (handle_results E rs c1 w1) (\<lambda>(calls, c, wl). Inr (rs, calls, c, wl, ws))) \<and>
    downloading fd localFile remoteFile flags cb (if files wl localFile = None then -1 else 0) c1 x \<and> x_Transferring x = progress \<and>
    at w1 fd localFile 0 (appends flags wl localFile) (old_bytes flags wl localFile) \<and>
    files w1 = (files wl)(localFile \<mapsto> old_bytes flags wl localFile) \<and> same_env wl w1"
proof -
  let ?c = "snd (client_Download localFile remoteFile (Some cb) progress None flags None CStreamingFile_new)"
  obtain x c1 w1 fd where x: "OnPostProcessing E ?c wl =
      Inr ([F_Send (Req_Download localFile remoteFile flags (if files wl localFile = None then -1 else 0))], c1, w1)"
    "downloading fd localFile remoteFile flags cb (if files wl localFile = None then -1 else 0) c1 x" "x_Transferring x = progress"
    "at w1 fd localFile 0 (appends flags wl localFile) (old_bytes flags wl localFile)"
    "files w1 = (files wl)(localFile \<mapsto> old_bytes flags wl localFile)" "same_env wl w1"
    using start_download [OF assms refl] by blast
  have "download_file E SE root localFile remoteFile cb progress flags wl s ws =
      bindr (OnSlowRequestArrive_file SE root (Req_Download localFile remoteFile flags (if files wl localFile = None then -1 else 0)) s ws)
        (\<lambda>(rs, s, ws). bindr (handle_results E rs c1 w1) (\<lambda>(calls, c, wl). Inr (rs, calls, c, wl, ws)))"
    unfolding download_file_def Let_def split_beta x(1) bindr_simps fst_conv snd_conv by simp
  with x show ?thesis by blast
qed

text \<open>All results of a download that the server answers with \<open>blocks\<close>.\<close>

lemma handle_download:
  assumes "downloading fd localFile remoteFile flags cb init c x" "init \<in> {-1, 0}" "at w fd localFile 0 app old" "io_errno w = 0"
  shows "\<exists>calls c' x' w'. handle_results E (Res_StartDownloading n localFile remoteFile flags init # map Res_Downloading blocks) c w =
      Inr (calls, c', w') \<and> list_all (is_progress (x_Transferring x)) calls \<and>
    downloading fd localFile remoteFile flags cb init c' x' \<and> writing w' fd localFile app old (concat blocks) \<and>
    files w' = (files w)(localFile \<mapsto> merged app old (concat blocks)) \<and> same_env w w'"
proof -
  let ?x = "x\<lparr>x_FileSize := n\<rparr>"
  obtain c1 w1 where c1: "on_StartDownloading n localFile remoteFile flags init c w = Inr ([], c1, w1)"
    "downloading fd localFile remoteFile flags cb init c1 ?x" "at w1 fd localFile 0 app old" "files w1 = files w" "same_env w w1"
    using on_StartDownloading_ok [OF assms(1-3), of n] by blast
  have x: "m_vContext c1 = [?x]" "\<not> x_Uploading ?x" "x_File ?x = Some fd" "io_errno w1 = 0"
    using c1(2) same_envD(1) [OF c1(5)] assms(4) by (simp_all add: downloading_def)
  obtain calls w2 where w2: "handle_results E (map Res_Downloading blocks) c1 w1 = Inr (calls, c1, w2)"
    "list_all (is_progress (x_Transferring ?x)) calls" "writing w2 fd localFile app old (concat blocks)"
    "files w2 = (files w1)(localFile \<mapsto> merged app old (concat blocks))" "same_env w1 w2"
    using blocks_received [OF x(1-3) writing_start [OF c1(3)] x(4), of E blocks] by auto
  have "same_env w w2" using c1(5) w2(5) by (rule same_env_trans)
  with c1 w2 show ?thesis
    by (intro exI [of _ calls] exI [of _ c1] exI [of _ ?x] exI [of _ w2]) simp
qed

text \<open>Everything but the last result, of a download that the server can serve.\<close>

lemma download_served:
  assumes "localFile \<noteq> []" "remoteFile \<noteq> []" "usable wl localFile" "fc_send E 0"
    and "m_of s = None" "full_path root remoteFile = Inr p" "files ws p = Some bs" "usable ws p"
    and "sf_start_ok SE" "\<And>i. sf_alive SE i"
  obtains blocks calls c2 x2 w2 fd ws' e m where
    "download_file E SE root localFile remoteFile cb progress flags wl s ws =
      bindr (on_Download_result E e m c2 w2) (\<lambda>(calls', c, w').
        Inr (Res_StartDownloading (length bs) localFile remoteFile flags (if files wl localFile = None then -1 else 0) #
             map Res_Downloading blocks @ [Res_Download e m], calls @ calls', c, w', ws'))"
    "(if \<exists>i<length blocks. sf_interrupted SE i then interrupted_error else (0, [])) = (e, m)" "concat blocks = bs"
    "list_all (is_progress progress) calls"
    "downloading fd localFile remoteFile flags cb (if files wl localFile = None then -1 else 0) c2 x2"
    "writing w2 fd localFile (appends flags wl localFile) (old_bytes flags wl localFile) bs"
    "files w2 = (files wl)(localFile \<mapsto> received flags wl localFile bs)" "files ws' = files ws"
proof -
  define init where "init = (if files wl localFile = None then -1 else 0 :: int)"
  have init: "init \<in> {-1, 0}" by (simp add: init_def)
  obtain x c1 w1 fd where run: "download_file E SE root localFile remoteFile cb progress flags wl s ws =
      bindr (OnSlowRequestArrive_file SE root (Req_Download localFile remoteFile flags init) s ws)
        (\<lambda>(rs, s, ws). bindr (handle_results E rs c1 w1) (\<lambda>(calls, c, wl). Inr (rs, calls, c, wl, ws)))"
    and x: "downloading fd localFile remoteFile flags cb init c1 x" "x_Transferring x = progress"
    and w1: "at w1 fd localFile 0 (appends flags wl localFile) (old_bytes flags wl localFile)"
      "files w1 = (files wl)(localFile \<mapsto> old_bytes flags wl localFile)" "same_env wl w1"
    using download_file_runs [OF assms(1-4)] unfolding init_def by blast
  obtain blocks ws' where sv: "OnSlowRequestArrive_file SE root (Req_Download localFile remoteFile flags init) s ws =
      Inr (Res_StartDownloading (length bs) localFile remoteFile flags init # map Res_Downloading blocks @
           [case if \<exists>i<length blocks. sf_interrupted SE i then interrupted_error else (0, []) of (e, m) \<Rightarrow> Res_Download e m],
         CSFileImpl_new, ws')" "concat blocks = bs" "files ws' = files ws"
    using Download_request_ok [OF assms(5-10)] by blast
  obtain e m where em: "(if \<exists>i<length blocks. sf_interrupted SE i then interrupted_error else (0, [])) = (e, m)"
    by (meson surj_pair)
  have "io_errno w1 = 0" using same_envD(1) [OF w1(3)] assms(3) by (simp add: usable_def)
  from handle_download [OF x(1) init w1(1) this] obtain calls c2 x2 w2 where w2:
    "handle_results E (Res_StartDownloading (length bs) localFile remoteFile flags init # map Res_Downloading blocks) c1 w1 = Inr (calls, c2, w2)"
    "list_all (is_progress progress) calls" "downloading fd localFile remoteFile flags cb init c2 x2"
    "writing w2 fd localFile (appends flags wl localFile) (old_bytes flags wl localFile) bs"
    "files w2 = (files w1)(localFile \<mapsto> received flags wl localFile bs)"
    unfolding x(2) received_def sv(2) [symmetric] by blast
  have "handle_results E ((Res_StartDownloading (length bs) localFile remoteFile flags init # map Res_Downloading blocks) @ [Res_Download e m]) c1 w1 =
      bindr (on_Download_result E e m c2 w2) (\<lambda>(calls', c, w). Inr (calls @ calls', c, w))"
    unfolding handle_results_append w2(1) by (simp add: bindr_def split: sum.split prod.split)
  then have df: "download_file E SE root localFile remoteFile cb progress flags wl s ws =
      bindr (on_Download_result E e m c2 w2) (\<lambda>(calls', c, w').
        Inr (Res_StartDownloading (length bs) localFile remoteFile flags init #
             map Res_Downloading blocks @ [Res_Download e m], calls @ calls', c, w', ws'))"
    unfolding run sv(1) em by (simp add: bindr_def split: sum.split prod.split)
  have fs: "files w2 = (files wl)(localFile \<mapsto> received flags wl localFile bs)" using w2(5) w1(2) by simp
  show thesis
    by (rule that [OF df [unfolded init_def] em sv(2) w2(2) w2(3) [unfolded init_def] w2(4) fs sv(3)])
qed

text \<open>Files and sockets where nothing fails.\<close>

definition no_faults :: "(path \<Rightarrow> byte list option) \<Rightarrow> posix" where
  "no_faults fs = \<lparr>files = fs, descriptors = [], open_errno = \<lambda>_. 0, lock_errno = \<lambda>_. 0, io_errno = 0, strerror = \<lambda>_. []\<rparr>"

definition undisturbed_env :: fc_env where
  "undisturbed_env = \<lparr>fc_send = \<lambda>_. True, fc_error = (0, []), fc_StartJob = False, fc_IsAvailable = False, fc_full = \<lambda>_. True,
     fc_errno = 0, fc_cancel = False\<rparr>"

definition sample_server_env :: "bool \<Rightarrow> sf_env" where
  "sample_server_env interrupt = \<lparr>sf_alive = \<lambda>_. True, sf_interrupted = \<lambda>_. interrupt, sf_start_ok = True, sf_IsDequeueRequest = True\<rparr>"

lemmas sample_simps = no_faults_def undisturbed_env_def sample_server_env_def usable_def CSFileImpl_new_def full_path_def

section \<open>Properties of downloads\<close>

text \<open>
  C29: A download that nothing disturbs gives the client exactly the bytes of the file on the
  server: as a new file, instead of the old one, behind it or over it as the flags say, whatever
  the sizes are. The callback is called once, at the end and without an error.
\<close>

theorem download_delivers:
  assumes "localFile \<noteq> []" "remoteFile \<noteq> []" "usable wl localFile" "fc_send E 0"
    and "m_of s = None" "full_path root remoteFile = Inr p" "files ws p = Some bs" "usable ws p"
    and "sf_start_ok SE" "\<And>i. sf_alive SE i" "\<And>i. \<not> sf_interrupted SE i"
  shows "\<exists>rs calls c' wl' ws'. download_file E SE root localFile remoteFile cb progress flags wl s ws =
      Inr (rs, calls @ [F_Done cb 0 []], c', wl', ws') \<and> list_all (is_progress progress) calls \<and> m_vContext c' = [] \<and>
    files wl' = (files wl)(localFile \<mapsto> received flags wl localFile bs) \<and> files ws' = files ws"
proof -
  obtain blocks calls c2 x2 w2 fd ws' e m where run: "download_file E SE root localFile remoteFile cb progress flags wl s ws =
      bindr (on_Download_result E e m c2 w2) (\<lambda>(calls', c, w').
        Inr (Res_StartDownloading (length bs) localFile remoteFile flags (if files wl localFile = None then -1 else 0) #
             map Res_Downloading blocks @ [Res_Download e m], calls @ calls', c, w', ws'))"
    and em: "(if \<exists>i<length blocks. sf_interrupted SE i then interrupted_error else (0, [])) = (e, m)"
    and d: "list_all (is_progress progress) calls" "downloading fd localFile remoteFile flags cb (if files wl localFile = None then -1 else 0) c2 x2"
      "writing w2 fd localFile (appends flags wl localFile) (old_bytes flags wl localFile) bs"
      "files w2 = (files wl)(localFile \<mapsto> received flags wl localFile bs)" "files ws' = files ws"
    by (rule download_served [OF assms(1-10), where cb = cb and progress = progress and flags = flags])
  have "e = 0" "m = []" using em assms(11) by simp_all
  moreover obtain c3 w3 where "on_Download_result E 0 [] c2 w2 = Inr ([F_Done cb 0 []], c3, w3)" "m_vContext c3 = []" "files w3 = files w2"
    using on_Download_result_ok [OF d(2,3)] by blast
  ultimately show ?thesis using run d(1,4,5) by simp
qed

theorem download_delivers_witness:
  "\<exists>rs calls c' wl' ws'. download_file undisturbed_env (sample_server_env False) [47] [97] [98] 1 None 2
      (no_faults [[97] \<mapsto> [7]]) CSFileImpl_new (no_faults [[47, 98] \<mapsto> [1, 2]]) = Inr (rs, calls @ [F_Done 1 0 []], c', wl', ws') \<and>
    files wl' [97] = Some [7, 1, 2]"
  using download_delivers [where localFile = "[97]" and remoteFile = "[98]" and E = undisturbed_env and s = CSFileImpl_new and root = "[47]" and
      p = "[47, 98]" and cb = 1 and progress = None and wl = "no_faults [[97] \<mapsto> [7]]"
      and SE = "sample_server_env False" and ws = "no_faults [[47, 98] \<mapsto> [1, 2]]" and bs = "[1, 2]" and flags = 2]
  by (fastforce simp: sample_simps received_cases file_flags has_flag_def)

text \<open>
  A request of the client to interrupt a download does not stop it: the server sends every block
  of the file all the same and reports the interruption afterwards, and the client then takes away
  what it has received: a new file is removed, and an old file is empty, whatever the flags were.
\<close>

theorem interrupt_does_not_stop:
  assumes "localFile \<noteq> []" "remoteFile \<noteq> []" "usable wl localFile" "fc_send E 0"
    and "m_of s = None" "full_path root remoteFile = Inr p" "files ws p = Some bs" "usable ws p"
    and "sf_start_ok SE" "\<And>i. sf_alive SE i" "sf_interrupted SE 0" "bs \<noteq> []"
  shows "\<exists>blocks init calls c' wl' ws'. download_file E SE root localFile remoteFile cb progress flags wl s ws =
      Inr (Res_StartDownloading (length bs) localFile remoteFile flags init # map Res_Downloading blocks @
             [Res_Download FILE_DOWNLOADING_INTERRUPTED (snd interrupted_error)],
           calls @ [F_Done cb FILE_DOWNLOADING_INTERRUPTED (snd interrupted_error)], c', wl', ws') \<and>
    concat blocks = bs \<and> files wl' = (files wl)(localFile := map_option (\<lambda>_. []) (files wl localFile))"
proof -
  obtain blocks calls c2 x2 w2 fd ws' e m where run: "download_file E SE root localFile remoteFile cb progress flags wl s ws =
      bindr (on_Download_result E e m c2 w2) (\<lambda>(calls', c, w').
        Inr (Res_StartDownloading (length bs) localFile remoteFile flags (if files wl localFile = None then -1 else 0) #
             map Res_Downloading blocks @ [Res_Download e m], calls @ calls', c, w', ws'))"
    and em: "(if \<exists>i<length blocks. sf_interrupted SE i then interrupted_error else (0, [])) = (e, m)" "concat blocks = bs"
    and d: "downloading fd localFile remoteFile flags cb (if files wl localFile = None then -1 else 0) c2 x2"
      "writing w2 fd localFile (appends flags wl localFile) (old_bytes flags wl localFile) bs"
      "files w2 = (files wl)(localFile \<mapsto> received flags wl localFile bs)"
    by (rule download_served [OF assms(1-10), where cb = cb and progress = progress and flags = flags])
  have "blocks \<noteq> []" using em(2) assms(12) by auto
  then have "\<exists>i<length blocks. sf_interrupted SE i" using assms(11) by (intro exI [of _ 0]) simp
  then have "(e, m) = interrupted_error" using em(1) by simp
  then have e: "e = FILE_DOWNLOADING_INTERRUPTED" "m = snd interrupted_error" "e \<noteq> 0"
    by (auto simp: interrupted_error_def FILE_DOWNLOADING_INTERRUPTED_def)
  obtain c3 w3 where w3: "on_Download_result E e m c2 w2 = Inr ([F_Done cb e m], c3, w3)"
    "files w3 = (files w2)(localFile := if (if files wl localFile = None then -1 else 0 :: int) = -1 then None else Some [])"
    using on_Download_result_error [OF d(1,2) _ e(3)] by (metis insertCI)
  have "files w3 = (files wl)(localFile := map_option (\<lambda>_. []) (files wl localFile))"
    using w3(2) d(3) by auto
  with run w3(1) em(2) e(1,2) show ?thesis by auto
qed

theorem interrupt_does_not_stop_witness:
  "\<exists>rs calls c' wl' ws'. download_file undisturbed_env (sample_server_env True) [47] [97] [98] 1 None 2
      (no_faults [[97] \<mapsto> [7]]) CSFileImpl_new (no_faults [[47, 98] \<mapsto> [1, 2]]) =
        Inr (rs, calls @ [F_Done 1 FILE_DOWNLOADING_INTERRUPTED (snd interrupted_error)], c', wl', ws') \<and>
    files wl' [97] = Some []"
  using interrupt_does_not_stop [where localFile = "[97]" and remoteFile = "[98]" and E = undisturbed_env and s = CSFileImpl_new and root = "[47]" and
      p = "[47, 98]" and cb = 1 and progress = None and wl = "no_faults [[97] \<mapsto> [7]]"
      and SE = "sample_server_env True" and ws = "no_faults [[47, 98] \<mapsto> [1, 2]]" and bs = "[1, 2]" and flags = 2]
  by (fastforce simp: sample_simps)

text \<open>
  When the server cannot open the file that a client asks for, the local file that was there
  already is empty afterwards, also when the client wanted the bytes to be appended to it.
\<close>

theorem refused_download_empties_file:
  assumes "localFile \<noteq> []" "remoteFile \<noteq> []" "usable wl localFile" "fc_send E 0" "files wl localFile = Some old"
    and "m_of s = None" "full_path root remoteFile = Inr p" "files ws p = None"
  shows "\<exists>rs e m c' wl' ws'. download_file E SE root localFile remoteFile cb progress flags wl s ws =
      Inr (rs, [F_Done cb e m], c', wl', ws') \<and> e \<noteq> 0 \<and> files wl' = (files wl)(localFile \<mapsto> [])"
proof -
  obtain x c1 w1 fd where run: "download_file E SE root localFile remoteFile cb progress flags wl s ws =
      bindr (OnSlowRequestArrive_file SE root (Req_Download localFile remoteFile flags 0) s ws)
        (\<lambda>(rs, s, ws). bindr (handle_results E rs c1 w1) (\<lambda>(calls, c, wl). Inr (rs, calls, c, wl, ws)))"
    and x: "downloading fd localFile remoteFile flags cb 0 c1 x"
    and w1: "at w1 fd localFile 0 (appends flags wl localFile) (old_bytes flags wl localFile)"
      "files w1 = (files wl)(localFile \<mapsto> old_bytes flags wl localFile)"
    using download_file_runs [OF assms(1-4), of SE root cb progress flags s ws] assms(5) by auto
  obtain e where e: "e \<noteq> 0" "OnSlowRequestArrive_file SE root (Req_Download localFile remoteFile flags 0) s ws =
      Inr ([Res_Download e (strerror ws e)], CSFileImpl_new, ws)"
    using Download_request_fails [OF assms(6-8)] by blast
  from on_Download_result_error [OF x writing_start [OF w1(1)] _ e(1), of E "strerror ws e"] obtain c2 w2 where
    "on_Download_result E e (strerror ws e) c1 w1 = Inr ([F_Done cb e (strerror ws e)], c2, w2)" "files w2 = (files w1)(localFile := Some [])"
    by auto
  with run e w1(2) show ?thesis by auto
qed

theorem refused_download_empties_file_witness:
  "\<exists>rs e m c' wl' ws'. download_file undisturbed_env (sample_server_env False) [47] [97] [98] 1 None 2
      (no_faults [[97] \<mapsto> [7]]) CSFileImpl_new (no_faults Map.empty) = Inr (rs, [F_Done 1 e m], c', wl', ws') \<and>
    files wl' [97] = Some []"
  using refused_download_empties_file [where localFile = "[97]" and remoteFile = "[98]" and E = undisturbed_env and s = CSFileImpl_new and root = "[47]" and
      p = "[47, 98]" and cb = 1 and progress = None and wl = "no_faults [[97] \<mapsto> [7]]"
      and SE = "sample_server_env False" and ws = "no_faults Map.empty" and flags = 2]
  by (fastforce simp: sample_simps)

end
