(* ===== verification/Fileupload.thy ===== *)
theory Fileupload
  imports Filestream
begin

text \<open>
  An upload as a step relation. The client sends blocks ahead until the sending buffer is full, then
  one more block for every block that the server has written; the server and the client take
  their steps in any order, and when the buffer is full is up to each step.
\<close>

section \<open>The server's steps\<close>

lemma Upload_request_ok:
  assumes "m_of s = None" "full_path root remoteFile = Inr p" "usable w p"
  shows "\<exists>fd n s' w'. OnSlowRequestArrive_file SE root (Req_Upload remoteFile flags fsize) s w = Inr ([Res_Upload 0 [] n], s', w') \<and>
    m_of s' = Some fd \<and> m_oPos s' = 0 \<and> m_oFilePath s' = p \<and> writing w' fd p (appends flags w p) (old_bytes flags w p) [] \<and>
    files w' = (files w)(p \<mapsto> old_bytes flags w p) \<and> same_env w w'"
proof -
  let ?e = "files w p \<noteq> None" and ?old = "old_bytes flags w p" and ?app = "appends flags w p"
  obtain fd w1 where w1: "open_write p flags w = (?e, Inr fd, w1)" "at w1 fd p 0 ?app ?old"
    "files w1 = (files w)(p \<mapsto> ?old)" "same_env w w1"
    using open_write_ok assms(3) unfolding usable_def by blast
  obtain w2 where w2: "sys_lseek fd 0 SEEK_END w1 = (int (length ?old), w2)" "at w2 fd p (length ?old) ?app ?old"
    "files w2 = files w1" "same_env w1 w2"
    using sys_lseek_end [OF w1(2)] by blast
  let ?seek = "?e \<and> has_flag flags FILE_OPEN_APPENDED"
  have lock: "sys_lock fd w1 = 0" "sys_lock fd w2 = 0"
    using at_open_now(2) [OF w1(2)] at_open_now(2) [OF w2(2)] same_envD(3) [OF w1(4)] same_envD(3) [OF w2(4)] assms(3)
    by (simp_all add: usable_def)
  have app: "?app \<or> length ?old = 0" if ?seek
    using that by (auto simp: appends_def old_bytes_def split: option.splits)
  have "writing w2 fd p ?app ?old []" if ?seek
    unfolding writing_def using w2(2) app [OF that] by auto
  moreover have "same_env w w2" using w1(4) w2(4) by (rule same_env_trans)
  moreover note writing_start [OF w1(2)]
  moreover have "CleanOF s w = Inr (CSFileImpl_new, w)" using assms(1) by (simp add: CleanOF_def)
  ultimately show ?thesis
  proof (cases ?seek)
    case True
    with \<open>CleanOF s w = Inr (CSFileImpl_new, w)\<close> have
      "OnSlowRequestArrive_file SE root (Req_Upload remoteFile flags fsize) s w =
        Inr ([Res_Upload 0 [] (int (length ?old))], CSFileImpl_new\<lparr>m_oFileSize := fsize, m_oFilePath := p, m_of := Some fd,
          sf_InitSize := int (length ?old)\<rparr>, w2)"
      using assms(1,2) w1(1) w2(1) lock by (auto simp: OnSlowRequestArrive_file_def Upload_def Let_def)
    with True \<open>?seek \<Longrightarrow> writing w2 fd p ?app ?old []\<close> \<open>same_env w w2\<close> w1(3) w2(3) show ?thesis
      by (auto simp: CSFileImpl_new_def)
  next
    case False
    let ?n = "if ?e then 0 else -1 :: int"
    from False \<open>CleanOF s w = Inr (CSFileImpl_new, w)\<close> have
      "OnSlowRequestArrive_file SE root (Req_Upload remoteFile flags fsize) s w =
        Inr ([Res_Upload 0 [] ?n], CSFileImpl_new\<lparr>m_oFileSize := fsize, m_oFilePath := p, m_of := Some fd, sf_InitSize := ?n\<rparr>, w1)"
      using assms(1,2) w1(1) lock by (auto simp: OnSlowRequestArrive_file_def Upload_def Let_def CSFileImpl_new_def)
    with writing_start [OF w1(2)] w1(3,4) show ?thesis
      by (auto simp: CSFileImpl_new_def)
  qed
qed

lemma Uploading_request_ok:
  assumes "m_of s = Some fd" "writing w fd p app old sent" "io_errno w = 0"
  shows "\<exists>w'. OnSlowRequestArrive_file SE root (Req_Uploading bs) s w =
      Inr ([Res_Uploading (m_oPos s + length bs) 0 []], s\<lparr>m_oPos := m_oPos s + length bs\<rparr>, w') \<and>
    writing w' fd p app old (sent @ bs) \<and> files w' = (files w)(p \<mapsto> merged app old (sent @ bs)) \<and> io_errno w' = 0"
proof -
  obtain w1 where "sys_write fd bs w = (Some (length bs), w1)" "writing w1 fd p app old (sent @ bs)"
    "files w1 = (files w)(p \<mapsto> merged app old (sent @ bs))" "same_env w w1"
    using writing_write [OF assms(2,3)] by blast
  then show ?thesis using assms(1,3) by (simp add: OnSlowRequestArrive_file_def Uploading_def Let_def same_env_def)
qed

lemma UploadCompleted_request_ok:
  "OnSlowRequestArrive_file SE root Req_UploadCompleted s w =
     Inr ([Res_UploadCompleted], CSFileImpl_new, case m_of s of None \<Rightarrow> w | Some fd \<Rightarrow> sys_close fd w)"
  by (simp add: OnSlowRequestArrive_file_def UploadCompleted_def)

section \<open>The client's steps\<close>

fun requests :: "file_call list \<Rightarrow> sf_request list" where
  "requests [] = []"
| "requests (F_Send req # calls) = req # requests calls"
| "requests (_ # calls) = requests calls"

fun done_calls :: "file_call list \<Rightarrow> (nat \<times> int \<times> wtext) list" where
  "done_calls [] = []"
| "done_calls (F_Done cb e m # calls) = (cb, e, m) # done_calls calls"
| "done_calls (_ # calls) = done_calls calls"

lemma requests_append [simp]: "requests (xs @ ys) = requests xs @ requests ys"
  by (induction xs rule: requests.induct) simp_all

lemma done_calls_append [simp]: "done_calls (xs @ ys) = done_calls xs @ done_calls ys"
  by (induction xs rule: done_calls.induct) simp_all

abbreviation send_block :: "byte list \<Rightarrow> file_call" where
  "send_block bs \<equiv> F_Send (Req_Uploading bs)"

lemma send_blocks [simp]: "requests (map send_block blocks) = map Req_Uploading blocks" "done_calls (map send_block blocks) = []"
  by (induction blocks) simp_all

text \<open>Reading blocks from position \<open>k\<close> to position \<open>k'\<close>; with a block that is not whole the file has ended.\<close>

lemma read_block:
  assumes "at w fd p k app L" "io_errno w = 0" "k \<le> length L"
  shows "\<exists>ret w'. sys_read fd STREAM_CHUNK_SIZE w = (Some ret, w') \<and> at w' fd p (k + length ret) app L \<and> io_errno w' = 0 \<and>
    files w' = files w \<and> take k L @ ret = take (k + length ret) L \<and> k + length ret \<le> length L \<and> length ret \<le> STREAM_CHUNK_SIZE \<and>
    (length ret < STREAM_CHUNK_SIZE \<longrightarrow> k + length ret = length L)"
proof -
  let ?r = "take STREAM_CHUNK_SIZE (drop k L)"
  obtain w1 where w1: "sys_read fd STREAM_CHUNK_SIZE w = (Some ?r, w1)" "at w1 fd p (k + length ?r) app L" "files w1 = files w" "same_env w w1"
    using sys_read_ok [OF assms(1,2)] by blast
  moreover have "io_errno w1 = 0" using same_envD(1) [OF w1(4)] assms(2) by simp
  moreover have "take k L @ ?r = take (k + length ?r) L" by (cases "k + STREAM_CHUNK_SIZE \<le> length L") (use assms(3) in \<open>simp_all add: take_add\<close>)
  ultimately show ?thesis using assms(3) by (intro exI [of _ ?r] exI [of _ w1]) auto
qed

lemma upload_loop_ok:
  assumes "\<And>i. fc_send E i" "\<not> fc_IsAvailable E"
  shows "at w fd p k app L \<Longrightarrow> io_errno w = 0 \<Longrightarrow> k \<le> length L \<Longrightarrow>
    \<exists>blocks ret m w' k'. upload_loop E fd n w = (True, Some ret, map send_block blocks, m, w') \<and> at w' fd p k' app L \<and>
      io_errno w' = 0 \<and> files w' = files w \<and> take k L @ concat blocks @ ret = take k' L \<and> k \<le> k' \<and> k' \<le> length L \<and>
      [] \<notin> set blocks \<and> length ret \<le> STREAM_CHUNK_SIZE \<and> (length ret < STREAM_CHUNK_SIZE \<longrightarrow> k' = length L) \<and>
      length blocks + length ret \<le> k' - k"
proof (induction "length L - k" arbitrary: w k n rule: less_induct)
  case less
  obtain ret w1 where w1: "sys_read fd STREAM_CHUNK_SIZE w = (Some ret, w1)" "at w1 fd p (k + length ret) app L" "io_errno w1 = 0"
    "files w1 = files w" "take k L @ ret = take (k + length ret) L" "k + length ret \<le> length L" "length ret \<le> STREAM_CHUNK_SIZE"
    "length ret < STREAM_CHUNK_SIZE \<longrightarrow> k + length ret = length L"
    using read_block [OF less.prems] by blast
  show ?case
  proof (cases "length ret \<noteq> STREAM_CHUNK_SIZE \<or> (n > 0 \<and> fc_full E n)")
    case True
    then have "upload_loop E fd n w = (True, Some ret, [], n, w1)"
      using w1(1) assms(2) by (subst upload_loop.simps) auto
    with w1 show ?thesis by (intro exI [of _ "[]"] exI [of _ ret] exI [of _ n] exI [of _ w1] exI [of _ "k + length ret"]) simp
  next
    case False
    then have "0 < length ret" by (auto simp: STREAM_CHUNK_SIZE_def)
    then have lt: "length L - (k + length ret) < length L - k" using w1(6) by linarith
    from less.hyps [OF lt w1(2,3,6), of "Suc n"] obtain blocks ret' m w' k' where IH:
      "upload_loop E fd (Suc n) w1 = (True, Some ret', map send_block blocks, m, w')" "at w' fd p k' app L"
      "io_errno w' = 0" "files w' = files w1" "take (k + length ret) L @ concat blocks @ ret' = take k' L" "k + length ret \<le> k'" "k' \<le> length L"
      "[] \<notin> set blocks" "length ret' \<le> STREAM_CHUNK_SIZE" "length ret' < STREAM_CHUNK_SIZE \<longrightarrow> k' = length L"
      "length blocks + length ret' \<le> k' - (k + length ret)" by blast
    have "upload_loop E fd n w = (True, Some ret', map send_block (ret # blocks), m, w')"
      using False w1(1) assms IH(1) by (subst upload_loop.simps) auto
    moreover have "take k L @ concat (ret # blocks) @ ret' = take k' L" using IH(5) unfolding w1(5) [symmetric] by simp
    moreover have "[] \<notin> set (ret # blocks)" using IH(8) \<open>0 < length ret\<close> by auto
    moreover have "length (ret # blocks) + length ret' \<le> k' - k" using IH(6,11) \<open>0 < length ret\<close> by (simp only: list.size)
    ultimately show ?thesis
      using IH(2-4,6,7,9,10) w1(4) by (intro exI [of _ "ret # blocks"] exI [of _ ret'] exI [of _ m] exI [of _ w'] exI [of _ k']) simp
  qed
qed

lemma upload_end_ok:
  assumes "\<And>i. fc_send E i"
  shows "\<exists>calls. upload_end E job True (Some ret) n x = (True, calls, if length ret < STREAM_CHUNK_SIZE then x\<lparr>x_Sent := True\<rparr> else x) \<and>
    requests calls = map Req_Uploading (filter (\<lambda>b. b \<noteq> []) [ret]) @ (if length ret < STREAM_CHUNK_SIZE then [Req_UploadCompleted] else []) \<and>
    done_calls calls = []"
  using assms by (simp add: upload_end_def Let_def)

text \<open>The front of the list while it is uploaded, \<open>k\<close> bytes of it read; blocks read from \<open>k\<close> to \<open>k'\<close>.\<close>

definition up_client :: "nat \<Rightarrow> path \<Rightarrow> byte list \<Rightarrow> nat \<Rightarrow> nat \<Rightarrow> bool \<Rightarrow> file_client \<Rightarrow> posix \<Rightarrow> bool" where
  "up_client fd p L cb k b c w \<longleftrightarrow> (\<exists>x. m_vContext c = [x] \<and> x_File x = Some fd \<and> x_Uploading x \<and> \<not> HasError x \<and>
     x_Download x = Some cb \<and> x_Sent x = b) \<and> at w fd p k False L \<and> io_errno w = 0 \<and> k \<le> length L"

definition read_more :: "byte list \<Rightarrow> nat \<Rightarrow> nat \<Rightarrow> byte list list \<Rightarrow> bool \<Rightarrow> bool" where
  "read_more L k k' blocks b \<longleftrightarrow> take k L @ concat blocks = take k' L \<and> [] \<notin> set blocks \<and> k \<le> k' \<and> k' \<le> length L \<and>
     length blocks \<le> k' - k \<and> (b \<longrightarrow> k' = length L) \<and> (\<not> b \<longrightarrow> blocks \<noteq> [])"

definition up_requests :: "byte list list \<Rightarrow> bool \<Rightarrow> sf_request list" where
  "up_requests blocks b = map Req_Uploading blocks @ (if b then [Req_UploadCompleted] else [])"

lemma up_requests_filter: "map Req_Uploading blocks @ map Req_Uploading (filter (\<lambda>b. b \<noteq> []) [ret]) @ (if b then [Req_UploadCompleted] else []) =
    up_requests (blocks @ filter (\<lambda>b. b \<noteq> []) [ret]) b"
  by (simp add: up_requests_def)

lemma read_more_end:
  assumes "take k L @ concat blocks @ ret = take k' L" "[] \<notin> set blocks" "k \<le> k'" "k' \<le> length L"
    and "length blocks + length ret \<le> k' - k" "length ret < STREAM_CHUNK_SIZE \<longrightarrow> k' = length L" "length ret \<le> STREAM_CHUNK_SIZE"
  shows "read_more L k k' (blocks @ filter (\<lambda>b. b \<noteq> []) [ret]) (length ret < STREAM_CHUNK_SIZE)"
proof -
  have "ret \<noteq> [] \<Longrightarrow> 1 \<le> length ret" by (cases ret) simp_all
  moreover have "\<not> length ret < STREAM_CHUNK_SIZE \<Longrightarrow> ret \<noteq> []" by (auto simp: STREAM_CHUNK_SIZE_def)
  ultimately show ?thesis using assms by (auto simp: read_more_def)
qed

lemma on_Upload_result_ok:
  assumes "up_client fd p L cb k False c w" "\<And>i. fc_send E i" "\<not> fc_IsAvailable E"
  shows "\<exists>calls c' w' k' blocks b. on_Upload_result E 0 [] n c w = Inr (calls, c', w') \<and> up_client fd p L cb k' b c' w' \<and>
    requests calls = up_requests blocks b \<and> done_calls calls = [] \<and> read_more L k k' blocks b \<and> files w' = files w"
proof -
  obtain x where x: "m_vContext c = [x]" "x_File x = Some fd" "x_Uploading x" "\<not> HasError x" "x_Download x = Some cb" "\<not> x_Sent x"
    and w: "at w fd p k False L" "io_errno w = 0" "k \<le> length L"
    using assms(1) by (auto simp: up_client_def)
  obtain blocks ret m w' k' where l: "upload_loop E fd 0 w = (True, Some ret, map send_block blocks, m, w')" "at w' fd p k' False L"
    "io_errno w' = 0" "files w' = files w" "take k L @ concat blocks @ ret = take k' L" "k \<le> k'" "k' \<le> length L" "[] \<notin> set blocks"
    "length ret \<le> STREAM_CHUNK_SIZE" "length ret < STREAM_CHUNK_SIZE \<longrightarrow> k' = length L" "length blocks + length ret \<le> k' - k"
    using upload_loop_ok [OF assms(2,3) w] by blast
  let ?x = "x\<lparr>x_InitSize := n, x_QueueOk := fc_StartJob E\<rparr>"
  let ?b = "length ret < STREAM_CHUNK_SIZE"
  let ?y = "if ?b then ?x\<lparr>x_Sent := True\<rparr> else ?x"
  obtain calls where e: "upload_end E (fc_StartJob E) True (Some ret) m ?x = (True, calls, ?y)"
    "requests calls = map Req_Uploading (filter (\<lambda>b. b \<noteq> []) [ret]) @ (if ?b then [Req_UploadCompleted] else [])" "done_calls calls = []"
    using upload_end_ok [OF assms(2)] by blast
  let ?calls = "F_StartJob # map send_block blocks @ calls"
  have "on_Upload_result E 0 [] n c w = Inr (?calls, c\<lparr>m_vContext := [?y]\<rparr>, w')"
    using x(1,2) assms(3) l(1) e(1) by (simp add: on_Upload_result_def Let_def)
  moreover have "up_client fd p L cb k' ?b (c\<lparr>m_vContext := [?y]\<rparr>) w'"
    using x l(2,3,7) by (simp add: up_client_def HasError_def)
  moreover have "requests ?calls = up_requests (blocks @ filter (\<lambda>b. b \<noteq> []) [ret]) ?b"
    unfolding up_requests_filter [symmetric] using e(2) by simp
  moreover have "done_calls ?calls = []" using e(3) by simp
  ultimately show ?thesis
    using read_more_end [OF l(5,8,6,7,11,10,9)] l(4) by blast
qed

lemma on_Uploading_result_ok:
  assumes "up_client fd p L cb k b c w" "\<And>i. fc_send E i" "0 \<le> n"
  shows "\<exists>calls c' w' k' blocks b'. on_Uploading_result E n 0 [] c w = Inr (calls, c', w') \<and> up_client fd p L cb k' b' c' w' \<and>
    requests calls = (if b then [] else up_requests blocks b') \<and> done_calls calls = [] \<and>
    (if b then k' = k \<and> b' else read_more L k k' blocks b') \<and> files w' = files w"
proof -
  obtain x where x: "m_vContext c = [x]" "x_File x = Some fd" "x_Uploading x" "\<not> HasError x" "x_Download x = Some cb" "x_Sent x = b"
    and w: "at w fd p k False L" "io_errno w = 0" "k \<le> length L"
    using assms(1) by (auto simp: up_client_def)
  let ?progress = "callback (x_Transferring x) (\<lambda>cb. F_Transferring cb (nat (n mod 18446744073709551616)))"
  have pr: "requests ?progress = []" "done_calls ?progress = []" by (simp_all add: callback_def split: option.split)
  show ?thesis
  proof (cases b)
    case True
    then have "on_Uploading_result E n 0 [] c w = Inr (?progress, c, w)"
      using x assms(3) by (simp add: on_Uploading_result_def Let_def)
    with True pr assms(1) show ?thesis by auto
  next
    case False
    obtain ret w' where r: "sys_read fd STREAM_CHUNK_SIZE w = (Some ret, w')" "at w' fd p (k + length ret) False L" "io_errno w' = 0"
      "files w' = files w" "take k L @ ret = take (k + length ret) L" "k + length ret \<le> length L" "length ret \<le> STREAM_CHUNK_SIZE"
      "length ret < STREAM_CHUNK_SIZE \<longrightarrow> k + length ret = length L"
      using read_block [OF w] by blast
    let ?b = "length ret < STREAM_CHUNK_SIZE"
    let ?y = "if ?b then x\<lparr>x_Sent := True\<rparr> else x"
    obtain calls where e: "upload_end E False True (Some ret) 0 x = (True, calls, ?y)"
      "requests calls = map Req_Uploading (filter (\<lambda>b. b \<noteq> []) [ret]) @ (if ?b then [Req_UploadCompleted] else [])" "done_calls calls = []"
      using upload_end_ok [OF assms(2)] by blast
    have "on_Uploading_result E n 0 [] c w = Inr (calls @ ?progress, c\<lparr>m_vContext := [?y]\<rparr>, w')"
      using x False assms(3) r(1) e(1) by (simp add: on_Uploading_result_def Let_def)
    moreover have "up_client fd p L cb (k + length ret) ?b (c\<lparr>m_vContext := [?y]\<rparr>) w'"
      using x False r(2,3,6) by (simp add: up_client_def HasError_def)
    moreover have "requests (calls @ ?progress) = up_requests (filter (\<lambda>b. b \<noteq> []) [ret]) ?b"
      using e(2) pr(1) by (simp add: up_requests_def)
    moreover have "read_more L k (k + length ret) (filter (\<lambda>b. b \<noteq> []) [ret]) ?b"
      using read_more_end [of k L "[]" ret "k + length ret"] r(5-8) by simp
    ultimately show ?thesis using False e(3) pr(2) r(4) by (metis append_Nil done_calls_append)
  qed
qed

lemma on_UploadCompleted_result_ok:
  assumes "up_client fd p L cb k b c w"
  shows "\<exists>c' w'. on_UploadCompleted_result E c w = Inr ([F_Done cb 0 []], c', w') \<and> m_vContext c' = [] \<and> files w' = files w"
proof -
  obtain x where x: "m_vContext c = [x]" "x_File x = Some fd" "x_Uploading x" "\<not> HasError x" "x_Download x = Some cb"
    using assms by (auto simp: up_client_def)
  then have "on_UploadCompleted_result E c w = Inr ([F_Done cb 0 []], c\<lparr>m_vContext := []\<rparr>, sys_close fd w)"
    by (simp add: on_UploadCompleted_result_def IsOpen_def CloseFile_def OnPostProcessing_def callback_def)
  then show ?thesis by simp
qed

section \<open>The steps of an upload\<close>

record up_state =
  u_client :: file_client
  u_local :: posix
  u_server :: sfile
  u_remote :: posix
  u_reqs :: "sf_request list"
  u_results :: "sf_result list"
  u_calls :: "file_call list"

definition undisturbed :: "fc_env \<Rightarrow> bool" where
  "undisturbed E \<longleftrightarrow> (\<forall>i. fc_send E i) \<and> \<not> fc_IsAvailable E"

text \<open>The server takes the first request, or the client the first result.\<close>

inductive up_step :: "path \<Rightarrow> up_state \<Rightarrow> up_state \<Rightarrow> bool" for root where
  server: "u_reqs u = req # reqs \<Longrightarrow>
    OnSlowRequestArrive_file SE root req (u_server u) (u_remote u) = Inr (rs, s, w) \<Longrightarrow>
    up_step root u (u\<lparr>u_reqs := reqs, u_results := u_results u @ rs, u_server := s, u_remote := w\<rparr>)"
| client: "u_results u = r # rs \<Longrightarrow> undisturbed E \<Longrightarrow>
    file_OnResultReturned E r (u_client u) (u_local u) = Inr (calls, c, w) \<Longrightarrow>
    up_step root u (u\<lparr>u_results := rs, u_client := c, u_local := w, u_reqs := u_reqs u @ requests calls, u_calls := u_calls u @ calls\<rparr>)"

inductive_cases up_stepE: "up_step root u u'"

text \<open>The job: its files, the bytes to be sent and the callback.\<close>

record up_job =
  j_root :: path
  j_local :: path
  j_remote :: path
  j_flags :: nat
  j_cb :: nat
  j_path :: path
  j_lfiles :: "path \<Rightarrow> byte list option"
  j_remote0 :: posix
  j_bytes :: "byte list"

definition j_written :: "up_job \<Rightarrow> byte list \<Rightarrow> byte list" where
  "j_written j sent = received (j_flags j) (j_remote0 j) (j_path j) sent"

definition client_at :: "up_job \<Rightarrow> nat \<Rightarrow> bool \<Rightarrow> up_state \<Rightarrow> bool" where
  "client_at j k b u \<longleftrightarrow> (\<exists>fd. up_client fd (j_local j) (j_bytes j) (j_cb j) k b (u_client u) (u_local u)) \<and>
     files (u_local u) = j_lfiles j \<and> done_calls (u_calls u) = []"

definition server_at :: "up_job \<Rightarrow> byte list \<Rightarrow> up_state \<Rightarrow> bool" where
  "server_at j sent u \<longleftrightarrow> (\<exists>fd. m_of (u_server u) = Some fd \<and> m_oPos (u_server u) = length sent \<and>
     writing (u_remote u) fd (j_path j) (appends (j_flags j) (j_remote0 j) (j_path j)) (old_bytes (j_flags j) (j_remote0 j) (j_path j)) sent \<and>
     io_errno (u_remote u) = 0 \<and> files (u_remote u) = (files (j_remote0 j))(j_path j \<mapsto> j_written j sent))"

definition is_written :: "sf_result \<Rightarrow> bool" where
  "is_written r \<longleftrightarrow> (\<exists>pos. r = Res_Uploading pos 0 [] \<and> pos < 9223372036854775808)"

text \<open>The phases of an upload; the number bounds the steps that are left.\<close>

inductive up_inv :: "up_job \<Rightarrow> nat \<Rightarrow> up_state \<Rightarrow> bool" for j where
  requested: "client_at j 0 False u \<Longrightarrow> u_reqs u = [Req_Upload (j_remote j) (j_flags j) (length (j_bytes j))] \<Longrightarrow> u_results u = [] \<Longrightarrow>
    m_of (u_server u) = None \<Longrightarrow> u_remote u = j_remote0 j \<Longrightarrow> up_inv j (3 * length (j_bytes j) + 5) u"
| accepted: "client_at j 0 False u \<Longrightarrow> u_reqs u = [] \<Longrightarrow> u_results u = [Res_Upload 0 [] n] \<Longrightarrow> server_at j [] u \<Longrightarrow>
    up_inv j (3 * length (j_bytes j) + 4) u"
| streaming: "client_at j k b u \<Longrightarrow> u_reqs u = up_requests blocks b \<Longrightarrow> list_all is_written (u_results u) \<Longrightarrow> server_at j sent u \<Longrightarrow>
    sent @ concat blocks = take k (j_bytes j) \<Longrightarrow> (b \<longrightarrow> k = length (j_bytes j)) \<Longrightarrow> (\<not> b \<longrightarrow> blocks \<noteq> [] \<or> u_results u \<noteq> []) \<Longrightarrow>
    up_inv j (3 * (length (j_bytes j) - k) + (if b then 0 else 3) + 2 * length (u_reqs u) + length (u_results u)) u"
| completing: "client_at j k True u \<Longrightarrow> u_reqs u = [] \<Longrightarrow> u_results u = rs @ [Res_UploadCompleted] \<Longrightarrow> list_all is_written rs \<Longrightarrow>
    files (u_remote u) = (files (j_remote0 j))(j_path j \<mapsto> j_written j (j_bytes j)) \<Longrightarrow> up_inv j (length (u_results u)) u"
| finished: "m_vContext (u_client u) = [] \<Longrightarrow> u_reqs u = [] \<Longrightarrow> u_results u = [] \<Longrightarrow> done_calls (u_calls u) = [(j_cb j, 0, [])] \<Longrightarrow>
    files (u_local u) = j_lfiles j \<Longrightarrow> files (u_remote u) = (files (j_remote0 j))(j_path j \<mapsto> j_written j (j_bytes j)) \<Longrightarrow> up_inv j 0 u"

lemma up_inv_server:
  assumes "up_inv j m u" "u_reqs u = req # reqs" "full_path (j_root j) (j_remote j) = Inr (j_path j)"
    and "usable (j_remote0 j) (j_path j)" "length (j_bytes j) < 9223372036854775808"
  shows "\<exists>rs s w m'. OnSlowRequestArrive_file SE (j_root j) req (u_server u) (u_remote u) = Inr (rs, s, w) \<and> m' < m \<and>
    up_inv j m' (u\<lparr>u_reqs := reqs, u_results := u_results u @ rs, u_server := s, u_remote := w\<rparr>)"
  using assms(1)
proof cases
  case requested
  obtain fd n s w where s: "OnSlowRequestArrive_file SE (j_root j) (Req_Upload (j_remote j) (j_flags j) (length (j_bytes j)))
      (u_server u) (j_remote0 j) = Inr ([Res_Upload 0 [] n], s, w)" "m_of s = Some fd" "m_oPos s = 0"
    "writing w fd (j_path j) (appends (j_flags j) (j_remote0 j) (j_path j)) (old_bytes (j_flags j) (j_remote0 j) (j_path j)) []"
    "files w = (files (j_remote0 j))(j_path j \<mapsto> old_bytes (j_flags j) (j_remote0 j) (j_path j))" "same_env (j_remote0 j) w"
    using Upload_request_ok [OF requested(5) assms(3,4)] by blast
  have "io_errno w = 0" using same_envD(1) [OF s(6)] assms(4) by (simp add: usable_def)
  let ?u = "u\<lparr>u_reqs := [], u_results := u_results u @ [Res_Upload 0 [] n], u_server := s, u_remote := w\<rparr>"
  have "up_inv j (3 * length (j_bytes j) + 4) ?u"
    using requested(2,4) s \<open>io_errno w = 0\<close>
    by (intro up_inv.accepted [of j ?u n]) (simp_all add: client_at_def server_at_def j_written_def received_def)
  then show ?thesis using requested(1,3,6) assms(2) s(1) by (intro exI [of _ "[Res_Upload 0 [] n]"] exI [of _ s] exI [of _ w] exI [of _ "3 * length (j_bytes j) + 4"]) auto
next
  case (streaming k b blocks sent)
  obtain fd where fd: "m_of (u_server u) = Some fd" "m_oPos (u_server u) = length sent"
    "writing (u_remote u) fd (j_path j) (appends (j_flags j) (j_remote0 j) (j_path j)) (old_bytes (j_flags j) (j_remote0 j) (j_path j)) sent"
    "io_errno (u_remote u) = 0" "files (u_remote u) = (files (j_remote0 j))(j_path j \<mapsto> j_written j sent)"
    using streaming(5) by (auto simp: server_at_def)
  show ?thesis
  proof (cases blocks)
    case Nil
    then have b: "b" "req = Req_UploadCompleted" "reqs = []" "sent = j_bytes j"
      using streaming(3,6,7) assms(2) by (auto simp: up_requests_def split: if_splits)
    let ?u = "u\<lparr>u_reqs := [], u_results := u_results u @ [Res_UploadCompleted], u_server := CSFileImpl_new, u_remote := sys_close fd (u_remote u)\<rparr>"
    have "up_inv j (length (u_results ?u)) ?u"
      using streaming(2,4) b fd(5) by (intro up_inv.completing [of j k]) (simp_all add: client_at_def)
    then show ?thesis
      using b(2,3) fd(1) streaming(1) assms(2) UploadCompleted_request_ok
      by (intro exI [of _ "[Res_UploadCompleted]"] exI [of _ CSFileImpl_new] exI [of _ "sys_close fd (u_remote u)"] exI [of _ "length (u_results ?u)"]) simp
  next
    case (Cons bs rest)
    then have req: "req = Req_Uploading bs" "reqs = up_requests rest b"
      using streaming(3) assms(2) by (simp_all add: up_requests_def)
    let ?s = "(u_server u)\<lparr>m_oPos := length sent + length bs\<rparr>" and ?r = "Res_Uploading (length sent + length bs) 0 []"
    obtain w where w: "OnSlowRequestArrive_file SE (j_root j) (Req_Uploading bs) (u_server u) (u_remote u) = Inr ([?r], ?s, w)"
      "writing w fd (j_path j) (appends (j_flags j) (j_remote0 j) (j_path j)) (old_bytes (j_flags j) (j_remote0 j) (j_path j)) (sent @ bs)"
      "files w = (files (u_remote u))(j_path j \<mapsto> merged (appends (j_flags j) (j_remote0 j) (j_path j)) (old_bytes (j_flags j) (j_remote0 j) (j_path j)) (sent @ bs))"
      "io_errno w = 0"
      using Uploading_request_ok [OF fd(1,3,4), of SE "j_root j" bs] unfolding fd(2) by blast
    let ?u = "u\<lparr>u_reqs := reqs, u_results := u_results u @ [?r], u_server := ?s, u_remote := w\<rparr>"
    have "length (sent @ bs) \<le> length (j_bytes j)"
      using arg_cong [OF streaming(6), of length] Cons by simp
    then have "is_written ?r" using assms(5) by (simp add: is_written_def)
    let ?m = "3 * (length (j_bytes j) - k) + (if b then 0 else 3) + 2 * length (u_reqs ?u) + length (u_results ?u)"
    from \<open>is_written ?r\<close> have "up_inv j ?m ?u"
      using streaming(2,4,6-8) Cons req(2) w(2-4) fd(1,5)
      by (intro up_inv.streaming [of j k b ?u rest "sent @ bs"]) (simp_all add: client_at_def server_at_def j_written_def received_def)
    moreover have "?m < m" using streaming(1) assms(2) by simp
    ultimately show ?thesis using req(1) w(1) by blast
  qed
qed (use assms(2) in simp_all)

lemma signed_position: "n < 9223372036854775808 \<Longrightarrow> signed_take_bit 63 (int n) = int n"
  by (rule signed_take_bit_int_eq_self) simp_all

lemma read_more_inv:
  assumes "read_more L k k' blocks b'" "sent @ concat bs = take k L"
  shows "sent @ concat (bs @ blocks) = take k' L" "b' \<longrightarrow> k' = length L" "\<not> b' \<longrightarrow> bs @ blocks \<noteq> []"
    and "3 * (length L - k') + (if b' then 0 else 3) + 2 * length (up_requests blocks b') \<le> 3 * (length L - k) + 3"
proof -
  show "sent @ concat (bs @ blocks) = take k' L"
    using assms(1) unfolding concat_append append_assoc [symmetric] assms(2) by (simp add: read_more_def)
  have "length blocks \<le> k' - k" "k' \<le> length L" "k \<le> k'" using assms(1) by (simp_all add: read_more_def)
  moreover have "length (up_requests blocks b') = length blocks + (if b' then 1 else 0)" by (simp add: up_requests_def)
  ultimately show "3 * (length L - k') + (if b' then 0 else 3) + 2 * length (up_requests blocks b') \<le> 3 * (length L - k) + 3"
    by (cases b') simp_all
qed (use assms(1) in \<open>simp_all add: read_more_def\<close>)

lemma up_inv_client:
  assumes "up_inv j m u" "u_results u = r # rs" "undisturbed E"
  shows "\<exists>calls c w m'. file_OnResultReturned E r (u_client u) (u_local u) = Inr (calls, c, w) \<and> m' < m \<and>
    up_inv j m' (u\<lparr>u_results := rs, u_client := c, u_local := w, u_reqs := u_reqs u @ requests calls, u_calls := u_calls u @ calls\<rparr>)"
proof -
  have E: "\<And>i. fc_send E i" "\<not> fc_IsAvailable E" using assms(3) by (simp_all add: undisturbed_def)
  let ?next = "\<lambda>calls c w. u\<lparr>u_results := rs, u_client := c, u_local := w, u_reqs := u_reqs u @ requests calls, u_calls := u_calls u @ calls\<rparr>"
  from assms(1) show ?thesis
  proof cases
    case (accepted n)
    obtain fd where fd: "up_client fd (j_local j) (j_bytes j) (j_cb j) 0 False (u_client u) (u_local u)"
      using accepted(2) by (auto simp: client_at_def)
    obtain calls c w k blocks b where n: "on_Upload_result E 0 [] n (u_client u) (u_local u) = Inr (calls, c, w)"
      "up_client fd (j_local j) (j_bytes j) (j_cb j) k b c w" "requests calls = up_requests blocks b" "done_calls calls = []"
      "read_more (j_bytes j) 0 k blocks b" "files w = files (u_local u)"
      using on_Upload_result_ok [OF fd E] by blast
    note r = read_more_inv [OF n(5), of "[]" "[]"]
    have "up_inv j (3 * (length (j_bytes j) - k) + (if b then 0 else 3) + 2 * length (u_reqs (?next calls c w)) + length (u_results (?next calls c w)))
        (?next calls c w)"
      by (rule up_inv.streaming [of j k b _ blocks "[]"])
        (use accepted(2-5) assms(2) n r(1-3) in \<open>auto simp: client_at_def server_at_def\<close>)
    moreover have "3 * (length (j_bytes j) - k) + (if b then 0 else 3) + 2 * length (u_reqs (?next calls c w)) + length (u_results (?next calls c w)) < m"
      using accepted(1,3,4) assms(2) n(3) r(4) by simp
    moreover have "r = Res_Upload 0 [] n" using accepted(4) assms(2) by simp
    ultimately show ?thesis using n(1) by (metis file_OnResultReturned.simps(4))
  next
    case (streaming k b blocks sent)
    obtain fd where fd: "up_client fd (j_local j) (j_bytes j) (j_cb j) k b (u_client u) (u_local u)"
      using streaming(2) by (auto simp: client_at_def)
    obtain pos where pos: "r = Res_Uploading pos 0 []" "pos < 9223372036854775808"
      using streaming(4) assms(2) by (auto simp: is_written_def)
    obtain calls c w k' new b' where n: "on_Uploading_result E (int pos) 0 [] (u_client u) (u_local u) = Inr (calls, c, w)"
      "up_client fd (j_local j) (j_bytes j) (j_cb j) k' b' c w" "requests calls = (if b then [] else up_requests new b')" "done_calls calls = []"
      "if b then k' = k \<and> b' else read_more (j_bytes j) k k' new b'" "files w = files (u_local u)"
      using on_Uploading_result_ok [OF fd E(1)] by (metis of_nat_0_le_iff)
    have run: "file_OnResultReturned E r (u_client u) (u_local u) = Inr (calls, c, w)"
      using n(1) pos by (simp add: signed_position)
    let ?blocks = "if b then blocks else blocks @ new"
    let ?m = "3 * (length (j_bytes j) - k') + (if b' then 0 else 3) + 2 * length (u_reqs (?next calls c w)) + length (u_results (?next calls c w))"
    have r: "sent @ concat ?blocks = take k' (j_bytes j) \<and> (b' \<longrightarrow> k' = length (j_bytes j)) \<and> (\<not> b' \<longrightarrow> ?blocks \<noteq> []) \<and> ?m < m \<and>
      u_reqs u @ requests calls = up_requests ?blocks b'"
    proof (cases b)
      case True
      then show ?thesis using n(3,5) streaming(1,3,6,7) assms(2) by simp
    next
      case False
      then have "read_more (j_bytes j) k k' new b'" using n(5) by simp
      note r = read_more_inv [OF this streaming(6)]
      have "?m < m" using False n(3) r(4) streaming(1) assms(2) by simp
      moreover have "u_reqs u @ requests calls = up_requests (blocks @ new) b'"
        using False n(3) streaming(3) by (simp add: up_requests_def)
      ultimately show ?thesis using False r(1-3) by simp
    qed
    have "up_inv j ?m (?next calls c w)"
      by (rule up_inv.streaming [of j k' b' _ ?blocks sent])
        (use streaming(2,4,5) assms(2) n(2,4,6) r in \<open>auto simp: client_at_def server_at_def\<close>)
    with run r show ?thesis by blast
  next
    case (completing k res)
    obtain fd where fd: "up_client fd (j_local j) (j_bytes j) (j_cb j) k True (u_client u) (u_local u)"
      using completing(2) by (auto simp: client_at_def)
    show ?thesis
    proof (cases res)
      case Nil
      obtain c w where n: "on_UploadCompleted_result E (u_client u) (u_local u) = Inr ([F_Done (j_cb j) 0 []], c, w)"
        "m_vContext c = []" "files w = files (u_local u)"
        using on_UploadCompleted_result_ok [OF fd] by blast
      have "up_inv j 0 (?next [F_Done (j_cb j) 0 []] c w)"
        by (rule up_inv.finished) (use Nil completing n(2,3) assms(2) in \<open>simp_all add: client_at_def\<close>)
      moreover have "r = Res_UploadCompleted" "0 < m" using Nil completing(1,4) assms(2) by simp_all
      ultimately show ?thesis using n(1) by (metis file_OnResultReturned.simps(7))
    next
      case (Cons q qs)
      then obtain pos where pos: "r = Res_Uploading pos 0 []" "pos < 9223372036854775808" "rs = qs @ [Res_UploadCompleted]"
        using completing(4,5) assms(2) by (auto simp: is_written_def)
      obtain calls c w k' new b' where n: "on_Uploading_result E (int pos) 0 [] (u_client u) (u_local u) = Inr (calls, c, w)"
        "up_client fd (j_local j) (j_bytes j) (j_cb j) k' b' c w" "requests calls = []" "done_calls calls = []" "b'" "files w = files (u_local u)"
        using on_Uploading_result_ok [OF fd E(1), of "int pos"] by auto
      have "up_inv j (length (u_results (?next calls c w))) (?next calls c w)"
        by (rule up_inv.completing [of j k' _ qs])
          (use completing(2,3,5,6) Cons pos(3) n(2-6) in \<open>auto simp: client_at_def\<close>)
      moreover have "length (u_results (?next calls c w)) < m" using completing(1) assms(2) by simp
      ultimately show ?thesis using n(1) pos(1,2) by (metis file_OnResultReturned.simps(6) signed_position)
    qed
  qed (use assms(2) in simp_all)
qed

lemma up_inv_progress: "up_inv j m u \<Longrightarrow> (u_reqs u \<noteq> [] \<or> u_results u \<noteq> []) \<or> done_calls (u_calls u) \<noteq> []"
  by (erule up_inv.cases) (auto simp: up_requests_def)

section \<open>From the start on\<close>

text \<open>The client posts the file and opens it; nothing else is in its list.\<close>

definition upload_start ::
  "fc_env \<Rightarrow> path \<Rightarrow> path \<Rightarrow> nat \<Rightarrow> nat option \<Rightarrow> nat \<Rightarrow> posix \<Rightarrow> sfile \<Rightarrow> posix \<Rightarrow> fault + up_state"
where
  "upload_start E localFile remoteFile cb progress flags wl s ws =
     (let ((ok, calls), c) = client_Upload localFile remoteFile (Some cb) progress None flags None CStreamingFile_new in
      bindr (OnPostProcessing E c wl) (\<lambda>(calls, c, wl).
      Inr \<lparr>u_client = c, u_local = wl, u_server = s, u_remote = ws, u_reqs = requests calls, u_results = [], u_calls = calls\<rparr>))"

definition upload_job :: "path \<Rightarrow> path \<Rightarrow> path \<Rightarrow> nat \<Rightarrow> nat \<Rightarrow> path \<Rightarrow> posix \<Rightarrow> posix \<Rightarrow> byte list \<Rightarrow> up_job" where
  "upload_job root localFile remoteFile flags cb p wl ws bs =
     \<lparr>j_root = root, j_local = localFile, j_remote = remoteFile, j_flags = flags, j_cb = cb, j_path = p, j_lfiles = files wl,
      j_remote0 = ws, j_bytes = bs\<rparr>"

lemma upload_job_fields [simp]:
  "j_root (upload_job root localFile remoteFile flags cb p wl ws bs) = root"
  "j_local (upload_job root localFile remoteFile flags cb p wl ws bs) = localFile"
  "j_remote (upload_job root localFile remoteFile flags cb p wl ws bs) = remoteFile"
  "j_flags (upload_job root localFile remoteFile flags cb p wl ws bs) = flags"
  "j_cb (upload_job root localFile remoteFile flags cb p wl ws bs) = cb"
  "j_path (upload_job root localFile remoteFile flags cb p wl ws bs) = p"
  "j_lfiles (upload_job root localFile remoteFile flags cb p wl ws bs) = files wl"
  "j_remote0 (upload_job root localFile remoteFile flags cb p wl ws bs) = ws"
  "j_bytes (upload_job root localFile remoteFile flags cb p wl ws bs) = bs"
  by (simp_all add: upload_job_def)

lemma upload_start_inv:
  assumes "localFile \<noteq> []" "remoteFile \<noteq> []" "usable wl localFile" "files wl localFile = Some bs" "fc_send E 0" "m_of s = None"
  shows "\<exists>u. upload_start E localFile remoteFile cb progress flags wl s ws = Inr u \<and>
    up_inv (upload_job root localFile remoteFile flags cb p wl ws bs) (3 * length bs + 5) u"
proof -
  let ?j = "upload_job root localFile remoteFile flags cb p wl ws bs"
  let ?x = "(CContext_new True flags)\<lparr>x_LocalFile := localFile, x_FilePath := remoteFile, x_Download := Some cb,
    x_Transferring := progress, x_Discarded := None, x_Se := None\<rparr>"
  let ?c = "snd (client_Upload localFile remoteFile (Some cb) progress None flags None CStreamingFile_new)"
  obtain fd w where w: "sys_open localFile False False False False wl = (Inr fd, w)" "at w fd localFile 0 False bs" "files w = files wl"
    "sys_lock fd w = 0" "io_errno w = 0"
    using open_read_ok [OF assms(3,4)] by blast
  let ?y = "?x\<lparr>x_File := Some fd, x_FileSize := length bs\<rparr>"
  have c: "m_vContext ?c = [?x]" "m_MaxDownloading ?c = 1"
    using assms(1,2) by (simp_all add: client_Upload_def OkFiles_def PostProcess_def CStreamingFile_new_def Let_def)
  have x: "x_LocalFile ?x = localFile" "\<not> IsOpen ?x" "\<not> HasError ?x" "x_Uploading ?x"
    by (simp_all add: CContext_new_def IsOpen_def HasError_def)
  have y: "\<not> HasError ?y" "x_FilePath ?y = remoteFile" "x_Flags ?y = flags" "x_FileSize ?y = length bs" "x_Uploading ?y"
    "x_Download ?y = Some cb" "x_File ?y = Some fd" "\<not> x_Sent ?y"
    by (simp_all add: CContext_new_def HasError_def)
  have "OpenLocalRead ?x wl = (?y, w)"
    unfolding OpenLocalRead_def x(1) w(1) prod.case sum.case using w(4) at_open_now(3) [OF w(2)] by (simp add: Let_def)
  then have op: "OnPostProcessing E ?c wl = Inr ([F_Send (Req_Upload remoteFile flags (length bs))], ?c\<lparr>m_vContext := [?y]\<rparr>, w)"
    unfolding OnPostProcessing_def c OnPostProcessing_start.simps using x(2-4) y assms(5) by simp
  let ?u = "\<lparr>u_client = ?c\<lparr>m_vContext := [?y]\<rparr>, u_local = w, u_server = s, u_remote = ws,
    u_reqs = [Req_Upload remoteFile flags (length bs)], u_results = [], u_calls = [F_Send (Req_Upload remoteFile flags (length bs))]\<rparr>"
  have "upload_start E localFile remoteFile cb progress flags wl s ws = Inr ?u"
    unfolding upload_start_def Let_def split_beta op bindr_simps fst_conv snd_conv by simp
  moreover have "client_at ?j 0 False ?u"
    using y w(2,3,5) unfolding client_at_def up_client_def by (simp add: CContext_new_def)
  then have "up_inv ?j (3 * length (j_bytes ?j) + 5) ?u"
    using assms(6) by (intro up_inv.requested) simp_all
  ultimately show ?thesis by auto
qed

lemma up_inv_step:
  assumes "up_inv j m u" "up_step (j_root j) u u'" "full_path (j_root j) (j_remote j) = Inr (j_path j)"
    and "usable (j_remote0 j) (j_path j)" "length (j_bytes j) < 9223372036854775808"
  shows "\<exists>m'<m. up_inv j m' u'"
  using assms(2)
proof cases
  case (server req reqs SE rs s w)
  with up_inv_server [OF assms(1) server(2) assms(3-5), of SE] show ?thesis by auto
next
  case (client r rs E calls c w)
  with up_inv_client [OF assms(1) client(2,3)] show ?thesis by auto
qed

lemma up_inv_steps:
  assumes "full_path (j_root j) (j_remote j) = Inr (j_path j)" "usable (j_remote0 j) (j_path j)" "length (j_bytes j) < 9223372036854775808"
  shows "up_inv j m u \<Longrightarrow> (up_step (j_root j) ^^ n) u u' \<Longrightarrow> \<exists>m'. m' + n \<le> m \<and> up_inv j m' u'"
proof (induction n arbitrary: u')
  case (Suc n)
  then obtain v where "(up_step (j_root j) ^^ n) u v" "up_step (j_root j) v u'" by auto
  with Suc.IH [OF Suc.prems(1)] obtain m' where "m' + n \<le> m" "up_inv j m' v" by blast
  moreover from up_inv_step [OF this(2) \<open>up_step (j_root j) v u'\<close> assms] obtain m'' where "m'' < m'" "up_inv j m'' u'" by blast
  ultimately show ?case by (intro exI [of _ m'']) simp
qed auto

lemma up_inv_stuck:
  assumes "up_inv j m u" "\<not> (\<exists>u'. up_step (j_root j) u u')" "full_path (j_root j) (j_remote j) = Inr (j_path j)"
    and "usable (j_remote0 j) (j_path j)" "length (j_bytes j) < 9223372036854775808"
  shows "done_calls (u_calls u) \<noteq> []"
proof -
  have "u_reqs u = []"
    using up_inv_server [OF assms(1) _ assms(3-5)] up_step.server assms(2) by (metis neq_Nil_conv)
  moreover have "undisturbed undisturbed_env" by (simp add: undisturbed_def undisturbed_env_def)
  then have "u_results u = []"
    using up_inv_client [OF assms(1)] up_step.client assms(2) by (metis neq_Nil_conv)
  ultimately show ?thesis using up_inv_progress [OF assms(1)] by simp
qed

lemma up_inv_done:
  assumes "up_inv j m u"
  shows "done_calls (u_calls u) = [] \<or> done_calls (u_calls u) = [(j_cb j, 0, [])] \<and>
    files (u_local u) = j_lfiles j \<and> files (u_remote u) = (files (j_remote0 j))(j_path j \<mapsto> j_written j (j_bytes j))"
  using assms by cases (simp_all add: client_at_def)

lemma up_inv_ends:
  assumes "full_path (j_root j) (j_remote j) = Inr (j_path j)" "usable (j_remote0 j) (j_path j)" "length (j_bytes j) < 9223372036854775808"
  shows "up_inv j m u \<Longrightarrow> \<exists>u' n. (up_step (j_root j) ^^ n) u u' \<and> \<not> (\<exists>u''. up_step (j_root j) u' u'')"
proof (induction m arbitrary: u rule: less_induct)
  case (less m)
  show ?case
  proof (cases "\<exists>u'. up_step (j_root j) u u'")
    case True
    then obtain v where v: "up_step (j_root j) u v" by blast
    obtain m' where "m' < m" "up_inv j m' v" using up_inv_step [OF less.prems v assms] by blast
    from less.IH [OF this] obtain u' n where "(up_step (j_root j) ^^ n) v u'" "\<not> (\<exists>u''. up_step (j_root j) u' u'')" by blast
    from relpowp_Suc_I2 [where P = "up_step (j_root j)", OF v this(1)] this(2) show ?thesis by blast
  next
    case False
    then show ?thesis by (intro exI [of _ u] exI [of _ 0]) simp
  qed
qed

lemma upload_reached:
  assumes "localFile \<noteq> []" "remoteFile \<noteq> []" "usable wl localFile" "files wl localFile = Some bs" "fc_send E 0" "m_of s = None"
    and "full_path root remoteFile = Inr p" "usable ws p" "length bs < 2 ^ 63"
    and "upload_start E localFile remoteFile cb progress flags wl s ws = Inr u" "(up_step root ^^ n) u u'"
  shows "\<exists>m. m + n \<le> 3 * length bs + 5 \<and> up_inv (upload_job root localFile remoteFile flags cb p wl ws bs) m u'"
proof -
  let ?j = "upload_job root localFile remoteFile flags cb p wl ws bs"
  have "up_inv ?j (3 * length bs + 5) u"
    using upload_start_inv [OF assms(1-6), of cb progress flags ws root p] assms(10) by simp
  from up_inv_steps [OF _ _ _ this] show ?thesis using assms(7-9,11) by simp
qed

text \<open>A concrete upload: two bytes into a new file.\<close>

definition sample_upload :: "fault + up_state" where
  "sample_upload = upload_start undisturbed_env [97] [98] 1 None 0 (no_faults [[97] \<mapsto> [1, 2]]) CSFileImpl_new (no_faults Map.empty)"

lemma sample_conditions: "usable (no_faults fs) p" "full_path [47] [98] = Inr [47, 98]" "fc_send undisturbed_env n" "m_of CSFileImpl_new = None"
  "files (no_faults fs) = fs"
  by (simp_all add: sample_simps)

lemma sample_upload_ends:
  "\<exists>u u'. sample_upload = Inr u \<and> (up_step [47])\<^sup>*\<^sup>* u u' \<and> \<not> (\<exists>u''. up_step [47] u' u'') \<and> done_calls (u_calls u') \<noteq> []"
proof -
  let ?j = "upload_job [47] [97] [98] 0 1 [47, 98] (no_faults [[97] \<mapsto> [1, 2]]) (no_faults Map.empty) [1, 2]"
  have j: "full_path (j_root ?j) (j_remote ?j) = Inr (j_path ?j)" "usable (j_remote0 ?j) (j_path ?j)" "length (j_bytes ?j) < 9223372036854775808"
    by (simp_all add: sample_conditions)
  obtain u where u: "sample_upload = Inr u" "up_inv ?j (3 * length (j_bytes ?j) + 5) u"
    using upload_start_inv [where localFile = "[97]" and remoteFile = "[98]" and wl = "no_faults [[97] \<mapsto> [1, 2]]" and bs = "[1, 2]" and
      s = CSFileImpl_new and root = "[47]" and p = "[47, 98]" and ws = "no_faults Map.empty" and E = undisturbed_env and cb = 1 and
      progress = None and flags = 0]
    by (auto simp: sample_conditions sample_upload_def)
  obtain u' n where u': "(up_step (j_root ?j) ^^ n) u u'" "\<not> (\<exists>u''. up_step (j_root ?j) u' u'')"
    using up_inv_ends [OF j u(2)] by blast
  obtain m where "up_inv ?j m u'" using up_inv_steps [OF j u(2) u'(1)] by blast
  from up_inv_stuck [OF this u'(2) j] u(1) u' show ?thesis by (auto dest: relpowp_imp_rtranclp)
qed

section \<open>Properties of uploads\<close>

text \<open>
  C23: An upload that nothing disturbs: the local file and the path on the server can be opened and read or
  written, every request and every answer is sent, and the client keeps no queue of requests. Whenever
  the callback has been called, whatever the order of the steps of the client and the server was and
  whenever the sending buffer was full, it has been called once and without an error, and the file on the server has
  every byte of the local file: as a new file, instead of the old one, behind it or over it as the
  flags say. No other file has changed. (A file that cannot be opened and a send that fails take the error
  paths of the handlers, and with a client queue an upload that appends can write bytes twice:
  \<open>queued_append_repeats\<close>.)
\<close>

theorem upload_delivers:
  assumes "localFile \<noteq> []" "remoteFile \<noteq> []" "usable wl localFile" "files wl localFile = Some bs" "fc_send E 0" "m_of s = None"
    and "full_path root remoteFile = Inr p" "usable ws p" "length bs < 2 ^ 63"
    and "upload_start E localFile remoteFile cb progress flags wl s ws = Inr u" "(up_step root)\<^sup>*\<^sup>* u u'"
  shows "done_calls (u_calls u') = [] \<or> done_calls (u_calls u') = [(cb, 0, [])] \<and>
    files (u_local u') = files wl \<and> files (u_remote u') = (files ws)(p \<mapsto> received flags ws p bs)"
proof -
  let ?j = "upload_job root localFile remoteFile flags cb p wl ws bs"
  obtain n where n: "(up_step root ^^ n) u u'" using assms(11) by (auto dest: rtranclp_imp_relpowp)
  obtain m where "up_inv ?j m u'" using upload_reached [OF assms(1-10) n] by blast
  from up_inv_done [OF this] show ?thesis by (simp add: j_written_def)
qed

theorem upload_delivers_witness:
  "\<exists>u u'. sample_upload = Inr u \<and> (up_step [47])\<^sup>*\<^sup>* u u' \<and> done_calls (u_calls u') = [(1, 0, [])] \<and>
    files (u_remote u') [47, 98] = Some [1, 2]"
proof -
  obtain u u' where "sample_upload = Inr u" "(up_step [47])\<^sup>*\<^sup>* u u'" "done_calls (u_calls u') \<noteq> []"
    using sample_upload_ends by blast
  with upload_delivers [where localFile = "[97]" and remoteFile = "[98]" and wl = "no_faults [[97] \<mapsto> [1, 2]]" and bs = "[1, 2]" and
      s = CSFileImpl_new and root = "[47]" and p = "[47, 98]" and ws = "no_faults Map.empty" and E = undisturbed_env and cb = 1 and
      progress = None and flags = 0 and u = u and u' = u'] show ?thesis
    by (auto simp: sample_conditions sample_upload_def received_cases)
qed

text \<open>
  C24: An upload that nothing disturbs (both files usable, every request and answer sent, no client queue)
  cannot get stuck: as long as its callback has not been called there is a request that the server
  can serve or a result that the client can take.
\<close>

theorem upload_completes:
  assumes "localFile \<noteq> []" "remoteFile \<noteq> []" "usable wl localFile" "files wl localFile = Some bs" "fc_send E 0" "m_of s = None"
    and "full_path root remoteFile = Inr p" "usable ws p" "length bs < 2 ^ 63"
    and "upload_start E localFile remoteFile cb progress flags wl s ws = Inr u" "(up_step root)\<^sup>*\<^sup>* u u'"
    and "\<not> (\<exists>u''. up_step root u' u'')"
  shows "done_calls (u_calls u') = [(cb, 0, [])]"
proof -
  let ?j = "upload_job root localFile remoteFile flags cb p wl ws bs"
  obtain n where n: "(up_step root ^^ n) u u'" using assms(11) by (auto dest: rtranclp_imp_relpowp)
  obtain m where m: "up_inv ?j m u'" using upload_reached [OF assms(1-10) n] by blast
  have "done_calls (u_calls u') \<noteq> []"
    by (rule up_inv_stuck [OF m]) (use assms(7-9,12) in simp_all)
  with up_inv_done [OF m] show ?thesis by simp
qed

theorem upload_completes_witness:
  "\<exists>u u'. sample_upload = Inr u \<and> (up_step [47])\<^sup>*\<^sup>* u u' \<and> \<not> (\<exists>u''. up_step [47] u' u'') \<and> done_calls (u_calls u') = [(1, 0, [])]"
proof -
  obtain u u' where "sample_upload = Inr u" "(up_step [47])\<^sup>*\<^sup>* u u'" "\<not> (\<exists>u''. up_step [47] u' u'')"
    using sample_upload_ends by blast
  with upload_completes [where localFile = "[97]" and remoteFile = "[98]" and wl = "no_faults [[97] \<mapsto> [1, 2]]" and bs = "[1, 2]" and
      s = CSFileImpl_new and root = "[47]" and p = "[47, 98]" and ws = "no_faults Map.empty" and E = undisturbed_env and cb = 1 and
      progress = None and flags = 0 and u = u and u' = u'] show ?thesis
    by (auto simp: sample_conditions sample_upload_def)
qed

text \<open>
  An upload ends: whatever the order of the steps is, there are at most three steps for every
  byte and five more.
\<close>

theorem upload_steps_bounded:
  assumes "localFile \<noteq> []" "remoteFile \<noteq> []" "usable wl localFile" "files wl localFile = Some bs" "fc_send E 0" "m_of s = None"
    and "full_path root remoteFile = Inr p" "usable ws p" "length bs < 2 ^ 63"
    and "upload_start E localFile remoteFile cb progress flags wl s ws = Inr u" "(up_step root ^^ n) u u'"
  shows "n \<le> 3 * length bs + 5"
  using upload_reached [OF assms] by auto

theorem upload_steps_bounded_witness:
  "\<exists>u u' n. sample_upload = Inr u \<and> (up_step [47] ^^ n) u u' \<and> \<not> (\<exists>u''. up_step [47] u' u'') \<and> n \<le> 11"
proof -
  obtain u u' where u: "sample_upload = Inr u" "(up_step [47])\<^sup>*\<^sup>* u u'" "\<not> (\<exists>u''. up_step [47] u' u'')"
    using sample_upload_ends by blast
  then obtain n where "(up_step [47] ^^ n) u u'" by (auto dest: rtranclp_imp_relpowp)
  with u upload_steps_bounded [where localFile = "[97]" and remoteFile = "[98]" and wl = "no_faults [[97] \<mapsto> [1, 2]]" and bs = "[1, 2]" and
      s = CSFileImpl_new and root = "[47]" and p = "[47, 98]" and ws = "no_faults Map.empty" and E = undisturbed_env and cb = 1 and
      progress = None and flags = 0 and u = u and u' = u' and n = n] show ?thesis
    by (auto simp: sample_conditions sample_upload_def)
qed

text \<open>
  An upload that appends to a file repeats what it has sent when it is taken up again: the
  backup request moves the position to the old end, but a file that is opened for appending
  writes at its end, so that the bytes of the first attempt stay and all bytes come once more.
\<close>

theorem queued_append_repeats:
  assumes "m_of s = None" "full_path root remoteFile = Inr p" "files w p = Some (old @ part)" "usable w p"
    and "has_flag flags FILE_OPEN_APPENDED" "\<not> has_flag flags FILE_OPEN_TRUNCACTED" "sf_IsDequeueRequest SE"
  shows "\<exists>s1 w1 r s2 w2. OnSlowRequestArrive_file SE root (Req_UploadBackup remoteFile flags n (int (length old))) s w = Inr ([Res_UploadBackup], s1, w1) \<and>
    OnSlowRequestArrive_file SE root (Req_Uploading bs) s1 w1 = Inr ([r], s2, w2) \<and> files w2 p = Some (old @ part @ bs)"
proof -
  have app: "appends flags w p" "old_bytes flags w p = old @ part" using assms(3,5,6) by (simp_all add: appends_def old_bytes_def)
  obtain fd w1 where w1: "open_write p flags w = (True, Inr fd, w1)" "at w1 fd p 0 True (old @ part)" "same_env w w1"
    using open_write_ok [of w p flags] assms(3,4) app by (auto simp: usable_def)
  obtain w2 where w2: "sys_lseek fd 0 SEEK_END w1 = (int (length (old @ part)), w2)" "at w2 fd p (length (old @ part)) True (old @ part)" "same_env w1 w2"
    using sys_lseek_end [OF w1(2)] by blast
  obtain w3 where w3: "sys_lseek fd (int (length old)) SEEK_SET w2 = (int (length old), w3)" "at w3 fd p (length old) True (old @ part)" "same_env w2 w3"
    using sys_lseek_set [OF w2(2)] by blast
  let ?b = "part \<noteq> []"
  have b: "(int (length (old @ part)) \<noteq> 0 \<and> int (length (old @ part)) > int (length old)) = ?b" by (cases part) simp_all
  let ?w = "if ?b then w3 else w2" and ?s = "s\<lparr>m_oFileSize := n, m_oPos := 0, m_oFilePath := p, m_of := Some fd, sf_InitSize := int (length old)\<rparr>"
  have bk: "OnSlowRequestArrive_file SE root (Req_UploadBackup remoteFile flags n (int (length old))) s w = Inr ([Res_UploadBackup], ?s, ?w)"
    using assms(1,2,5,7) w1(1) w2(1) w3(1) b
    by (simp add: OnSlowRequestArrive_file_def UploadBackup_def Let_def del: length_append of_nat_add of_nat_eq_0_iff of_nat_less_iff)
  have "writing ?w fd p True (old @ part) []"
    using w2(2) w3(2) unfolding writing_def by auto
  moreover have "io_errno ?w = 0" using w1(3) w2(3) w3(3) assms(4) by (simp add: same_env_def usable_def)
  ultimately obtain w4 where "OnSlowRequestArrive_file SE root (Req_Uploading bs) ?s ?w =
      Inr ([Res_Uploading (m_oPos ?s + length bs) 0 []], ?s\<lparr>m_oPos := m_oPos ?s + length bs\<rparr>, w4)" "writing w4 fd p True (old @ part) ([] @ bs)"
    using Uploading_request_ok [of ?s fd ?w p True "old @ part" "[]" SE root bs] by auto
  moreover from writing_files [OF this(2)] have "files w4 p = Some (old @ part @ bs)" by (simp add: merged_def)
  ultimately show ?thesis using bk by blast
qed

theorem queued_append_repeats_witness:
  "\<exists>s1 w1 r s2 w2. OnSlowRequestArrive_file (sample_server_env False) [47] (Req_UploadBackup [98] 2 2 1) CSFileImpl_new
      (no_faults [[47, 98] \<mapsto> [7, 1]]) = Inr ([Res_UploadBackup], s1, w1) \<and>
    OnSlowRequestArrive_file (sample_server_env False) [47] (Req_Uploading [1, 2]) s1 w1 = Inr ([r], s2, w2) \<and> files w2 [47, 98] = Some [7, 1, 1, 2]"
  using queued_append_repeats [where s = CSFileImpl_new and root = "[47]" and remoteFile = "[98]" and p = "[47, 98]" and old = "[7]" and
      part = "[1]" and flags = 2 and bs = "[1, 2]" and SE = "sample_server_env False" and n = 2 and w = "no_faults [[47, 98] \<mapsto> [7, 1]]"]
  by (simp add: sample_simps file_flags has_flag_def)

end
