(* ===== verification/Variant.thy ===== *)
theory Variant
  imports Serialize
begin

text \<open>
  Variants on the wire: the \<^verbatim>\<open>VARIANT\<close> and \<^verbatim>\<open>SAFEARRAY\<close> emulation of
  \<^verbatim>\<open>include/linux_win.h\<close> and the members \<^verbatim>\<open>Insert(const VARIANT &)\<close> and
  \<^verbatim>\<open>Pop(VARIANT &)\<close> of \<^verbatim>\<open>CUQueue\<close> in \<^verbatim>\<open>include/membuffer.cpp\<close>.

  \<^item> A variant is its type tag with the bytes of the union member, a string, or an array. Arrays
    keep the element count that the \<^verbatim>\<open>SAFEARRAY\<close> claims apart from the data it has:
    \<^verbatim>\<open>SafeArrayCreate\<close> computes the size of the block in 32 bits.
  \<^item> The conversions between UTF-8 and UTF-16 (iconv) are the record \<open>text_conv\<close>.
  \<^item> \<^verbatim>\<open>SysAllocStringLen\<close> asserts that the string is null-terminated at its end or later,
    which bytes inside a buffer are not; \<open>ndebug\<close> says whether this one assertion is compiled out.
    It is an argument, and all others stay in, as in the rest of the development.
  \<^item> Reading is recursive in the arrays of variants; fuel above the size of the buffer is enough
    (\<open>Pop_VARIANT_sane\<close>, \<open>variant_parser_safe\<close>).
\<close>

section \<open>Variants and arrays\<close>

datatype VARIANT =
    Scalar nat "byte list"
  | Vt_bstr "nat list option"
  | Fixed_array nat nat "byte list"
  | Bstr_array "nat list option list"
  | Variant_array "VARIANT list"

definition VT_EMPTY :: nat where "VT_EMPTY = 0"
definition VT_NULL :: nat where "VT_NULL = 1"
definition VT_I2 :: nat where "VT_I2 = 2"
definition VT_I4 :: nat where "VT_I4 = 3"
definition VT_R4 :: nat where "VT_R4 = 4"
definition VT_R8 :: nat where "VT_R8 = 5"
definition VT_CY :: nat where "VT_CY = 6"
definition VT_DATE :: nat where "VT_DATE = 7"
definition VT_BSTR :: nat where "VT_BSTR = 8"
definition VT_BOOL :: nat where "VT_BOOL = 11"
definition VT_VARIANT :: nat where "VT_VARIANT = 12"
definition VT_DECIMAL :: nat where "VT_DECIMAL = 14"
definition VT_I1 :: nat where "VT_I1 = 16"
definition VT_UI1 :: nat where "VT_UI1 = 17"
definition VT_UI2 :: nat where "VT_UI2 = 18"
definition VT_UI4 :: nat where "VT_UI4 = 19"
definition VT_I8 :: nat where "VT_I8 = 20"
definition VT_UI8 :: nat where "VT_UI8 = 21"
definition VT_INT :: nat where "VT_INT = 22"
definition VT_UINT :: nat where "VT_UINT = 23"
definition VT_CLSID :: nat where "VT_CLSID = 72"
definition VT_ARRAY :: nat where "VT_ARRAY = 0x2000"

lemmas vt_defs =
  VT_EMPTY_def VT_NULL_def VT_I2_def VT_I4_def VT_R4_def VT_R8_def VT_CY_def VT_DATE_def VT_BSTR_def
  VT_BOOL_def VT_VARIANT_def VT_DECIMAL_def VT_I1_def VT_UI1_def VT_UI2_def VT_UI4_def VT_I8_def
  VT_UI8_def VT_INT_def VT_UINT_def VT_CLSID_def VT_ARRAY_def

text \<open>The size of the union member of each scalar type that can be serialised.\<close>

definition scalar_width :: "nat \<Rightarrow> nat option" where
  "scalar_width vt =
     (if vt = VT_NULL \<or> vt = VT_EMPTY then Some 0
      else if vt = VT_I1 \<or> vt = VT_UI1 then Some 1
      else if vt = VT_I2 \<or> vt = VT_UI2 \<or> vt = VT_BOOL then Some 2
      else if vt = VT_I4 \<or> vt = VT_UI4 \<or> vt = VT_R4 \<or> vt = VT_INT \<or> vt = VT_UINT then Some 4
      else if vt = VT_R8 \<or> vt = VT_CY \<or> vt = VT_DATE \<or> vt = VT_I8 \<or> vt = VT_UI8 then Some 8
      else if vt = VT_DECIMAL then Some 16
      else None)"

text \<open>The size of an element of an array of fixed-size elements (\<^verbatim>\<open>cbElements\<close>).\<close>

definition elem_width :: "nat \<Rightarrow> nat option" where
  "elem_width vt =
     (if vt = VT_I1 \<or> vt = VT_UI1 then Some 1
      else if vt = VT_I2 \<or> vt = VT_UI2 \<or> vt = VT_BOOL then Some 2
      else if vt = VT_I4 \<or> vt = VT_UI4 \<or> vt = VT_INT \<or> vt = VT_UINT \<or> vt = VT_R4 then Some 4
      else if vt = VT_DATE \<or> vt = VT_R8 \<or> vt = VT_I8 \<or> vt = VT_UI8 then Some 8
      else if vt = VT_DECIMAL then Some 16
      else if vt = VT_CY then Some 8
      else None)"

fun variant_type :: "VARIANT \<Rightarrow> nat" where
  "variant_type (Scalar vt _) = vt"
| "variant_type (Vt_bstr _) = VT_BSTR"
| "variant_type (Fixed_array t _ _) = VT_ARRAY + t"
| "variant_type (Bstr_array _) = VT_ARRAY + VT_BSTR"
| "variant_type (Variant_array _) = VT_ARRAY + VT_VARIANT"

text \<open>
  The data block of a new array, all zero: the header of 32 bytes, the elements and one more byte,
  added up in 32 bits. A sum below the header makes \<^verbatim>\<open>memset\<close> run off.
\<close>

definition SafeArrayCreate :: "nat \<Rightarrow> nat \<Rightarrow> fault + byte mem" where
  "SafeArrayCreate cbElements cElements =
     (let bytes = (32 + mul32 cbElements cElements + 1) mod 4294967296 in
      if bytes < 32 then Inl Out_Of_Bounds else Inr (replicate (bytes - 32) (Some 0)))"

section \<open>Writing\<close>

definition Insert_bytes :: "uqueue \<Rightarrow> byte list \<Rightarrow> nat \<Rightarrow> fault + uqueue" where
  "Insert_bytes q bs position = Insert q (Some (map Some bs)) position"

text \<open>\<^verbatim>\<open>operator<<(const char16_t *)\<close>: up to the terminating null, the length in bytes.\<close>

definition put_bstr :: "uqueue \<Rightarrow> nat list option \<Rightarrow> fault + uqueue" where
  "put_bstr q str =
     (case str of
        None \<Rightarrow> put_pod 4 q UQUEUE_NULL_LENGTH
      | Some s \<Rightarrow>
          let s = takeWhile (\<lambda>c. c \<noteq> 0) s; sz = mul32 (length s mod 4294967296) 2 in
          bindr (put_pod 4 q sz) (\<lambda>q.
          if sz \<noteq> 0 then bindr (mem_read (map Some (vec_bytes 2 s)) 0 sz) (\<lambda>buf. Push q (Some buf)) else Inr q))"

fun put_bstrs :: "uqueue \<Rightarrow> nat list option list \<Rightarrow> fault + uqueue" where
  "put_bstrs q [] = Inr q"
| "put_bstrs q (s # ss) = bindr (put_bstr q s) (\<lambda>q. put_bstrs q ss)"

text \<open>A buffer of the pool, in which elements are collected that go into the middle of another.\<close>

definition scratch :: "uqueue \<Rightarrow> uqueue" where
  "scratch q = CUQueue_new 4096 DEFAULT_MEMORY_BUFFER_BLOCK_SIZE (m_os q) IsBigEndian"

definition insert_scratch :: "uqueue \<Rightarrow> nat \<Rightarrow> (uqueue \<Rightarrow> fault + uqueue) \<Rightarrow> fault + uqueue" where
  "insert_scratch q position fill =
     (if position \<ge> m_nSize q then fill q
      else bindr (fill (scratch q)) (\<lambda>su.
           bindr (mem_read (m_pBuffer su) (GetBuffer su 0) (m_nSize su)) (\<lambda>buf.
           Insert q (Some buf) position)))"

text \<open>The body of \<^verbatim>\<open>Insert\<close>; \<open>push_all\<close> appends the elements of an array of variants.\<close>

definition Insert_sized ::
  "uqueue \<Rightarrow> nat \<Rightarrow> nat \<Rightarrow> (uqueue \<Rightarrow> nat \<Rightarrow> fault + uqueue) \<Rightarrow> fault + uqueue"
where
  "Insert_sized q n position body =
     bindr (Insert_bytes q (le_bytes 4 n) position) (\<lambda>q.
     if n \<noteq> 0 then body q (add32 position 4) else Inr q)"

definition Insert_VARIANT_body ::
  "(uqueue \<Rightarrow> fault + uqueue) \<Rightarrow> VARIANT \<Rightarrow> uqueue \<Rightarrow> nat \<Rightarrow> fault + uqueue"
where
  "Insert_VARIANT_body push_all v q position =
     (case v of
        Scalar vt bs \<Rightarrow>
          (case scalar_width vt of
             None \<Rightarrow> Inl MB_SERIALIZATION_NOT_SUPPORTED
           | Some w \<Rightarrow> if w = 0 then Inr q
                       else bindr (mem_read (map Some bs) 0 w) (\<lambda>buf. Insert q (Some buf) position))
      | Vt_bstr s \<Rightarrow> put_bstr q s
      | Fixed_array t n pvData \<Rightarrow>
          Insert_sized q n position (\<lambda>q position.
            case elem_width t of
              None \<Rightarrow> Inl MB_SERIALIZATION_NOT_SUPPORTED
            | Some k \<Rightarrow> bindr (mem_read (map Some pvData) 0 (mul32 n k)) (\<lambda>buf. Insert q (Some buf) position))
      | Bstr_array ss \<Rightarrow>
          Insert_sized q (length ss) position (\<lambda>q position. insert_scratch q position (\<lambda>q. put_bstrs q ss))
      | Variant_array vs \<Rightarrow>
          Insert_sized q (length vs) position (\<lambda>q position. insert_scratch q position push_all))"

definition Insert_VARIANT_step ::
  "(uqueue \<Rightarrow> fault + uqueue) \<Rightarrow> uqueue \<Rightarrow> VARIANT \<Rightarrow> nat \<Rightarrow> fault + uqueue"
where
  "Insert_VARIANT_step push_all q v position =
     (let position = (if position > m_nSize q then m_nSize q else position) in
      bindr (Insert_bytes q (le_bytes 2 (variant_type v)) position) (\<lambda>q.
      Insert_VARIANT_body push_all v q (add32 position 2)))"

fun Insert_VARIANT :: "uqueue \<Rightarrow> VARIANT \<Rightarrow> nat \<Rightarrow> fault + uqueue"
  and Push_VARIANTs :: "VARIANT list \<Rightarrow> uqueue \<Rightarrow> fault + uqueue" where
  "Insert_VARIANT q (Variant_array vs) position =
     Insert_VARIANT_step (Push_VARIANTs vs) q (Variant_array vs) position"
| "Insert_VARIANT q (Scalar vt bs) position = Insert_VARIANT_step Inr q (Scalar vt bs) position"
| "Insert_VARIANT q (Vt_bstr s) position = Insert_VARIANT_step Inr q (Vt_bstr s) position"
| "Insert_VARIANT q (Fixed_array t n d) position = Insert_VARIANT_step Inr q (Fixed_array t n d) position"
| "Insert_VARIANT q (Bstr_array ss) position = Insert_VARIANT_step Inr q (Bstr_array ss) position"
| "Push_VARIANTs [] q = Inr q"
| "Push_VARIANTs (v # vs) q =
     bindr (Insert_VARIANT q v UQUEUE_END_POSTION) (\<lambda>q. Push_VARIANTs vs q)"

definition put_VARIANT :: "uqueue \<Rightarrow> VARIANT \<Rightarrow> fault + uqueue" where
  "put_VARIANT q v = Insert_VARIANT q v UQUEUE_END_POSTION"
section \<open>Reading\<close>

record text_conv =
  to_utf8 :: "nat list \<Rightarrow> byte list"
  of_utf8 :: "byte list \<Rightarrow> nat list"

definition pop_at :: "uqueue \<Rightarrow> nat \<Rightarrow> nat \<Rightarrow> fault + (byte list \<times> uqueue)" where
  "pop_at q n position = bindr (Pop_read q n position) (\<lambda>(cs, q). bindr (cells cs) (\<lambda>bs. Inr (bs, q)))"

text \<open>\<^verbatim>\<open>GetLen\<close> of a UTF-16 string that starts inside a block.\<close>

function GetLen16 :: "byte mem \<Rightarrow> nat \<Rightarrow> fault + nat" where
  "GetLen16 m off =
     (if length m < off + 2 then Inl Out_Of_Bounds
      else bindr (mem_read m off 2) (\<lambda>cs. bindr (cells cs) (\<lambda>bs.
           if le_value bs = 0 then Inr 0 else bindr (GetLen16 m (off + 2)) (\<lambda>n. Inr (n + 1)))))"
  by auto
termination by (relation "measure (\<lambda>(m, off). length m - off)") auto

declare GetLen16.simps [simp del]

definition SysAllocStringLen :: "bool \<Rightarrow> byte mem \<Rightarrow> nat \<Rightarrow> nat \<Rightarrow> fault + nat list" where
  "SysAllocStringLen ndebug m off chars =
     bindr (if ndebug then Inr () else bindr (GetLen16 m off) (\<lambda>n. require (chars \<le> n))) (\<lambda>_.
     bindr (mem_read m off (2 * chars)) (\<lambda>cs. bindr (cells cs) (\<lambda>bs. Inr (vec_elems 2 chars bs))))"

definition pop_bstr :: "bool \<Rightarrow> uqueue \<Rightarrow> nat \<Rightarrow> fault + (nat list option \<times> nat \<times> uqueue)" where
  "pop_bstr ndebug q position =
     (let ulLen = m_nSize q in
      bindr (pop_at q 4 position) (\<lambda>(bs, q).
      let len = le_value bs in
      if len = 4294967295 then Inr (None, ulLen - m_nSize q, q)
      else if add32 len position > m_nSize q then Inl MB_BAD_DESERIALIZATION
      else bindr (SysAllocStringLen ndebug (m_pBuffer q) (GetBuffer q position) (len div 2)) (\<lambda>s.
           bindr (Pop_discard q len position) (\<lambda>(_, q). Inr (Some s, ulLen - m_nSize q, q)))))"

text \<open>A string that is handed on as UTF-8 bytes (\<^verbatim>\<open>m_ToUtf8\<close>).\<close>

definition pop_bstr_utf8 :: "text_conv \<Rightarrow> uqueue \<Rightarrow> nat \<Rightarrow> fault + (VARIANT \<times> nat \<times> uqueue)" where
  "pop_bstr_utf8 C q position =
     bindr (pop_at q 4 position) (\<lambda>(bs, q).
     let len = le_value bs in
     if len = UQUEUE_NULL_LENGTH then Inr (Scalar VT_NULL [], 4, q)
     else bindr (require (len mod 2 = 0)) (\<lambda>_.
          if add32 len position > m_nSize q then Inl MB_BAD_DESERIALIZATION
          else bindr (mem_read (m_pBuffer q) (GetBuffer q position) len) (\<lambda>cs. bindr (cells cs) (\<lambda>bs.
               let sb = to_utf8 C (vec_elems 2 (len div 2) bs) in
               bindr (Pop_discard q len position) (\<lambda>(_, q).
               bindr (SafeArrayCreate 1 (length sb)) (\<lambda>blk.
               bindr (mem_write blk 0 (map Some sb)) (\<lambda>_.
               Inr (Fixed_array VT_I1 (length sb) sb, 4 + len, q))))))))"

text \<open>The loops over the elements; \<open>blk\<close> is the size of the data block they are stored in.\<close>

fun pop_bstrs :: "bool \<Rightarrow> nat \<Rightarrow> nat \<Rightarrow> nat \<Rightarrow> nat \<Rightarrow> uqueue \<Rightarrow> fault + (nat list option list \<times> nat \<times> uqueue)" where
  "pop_bstrs ndebug position blk ulIndex 0 q = Inr ([], 0, q)"
| "pop_bstrs ndebug position blk ulIndex (Suc n) q =
     bindr (pop_bstr ndebug q position) (\<lambda>(s, t, q).
     if blk < 8 * (ulIndex + 1) then Inl Out_Of_Bounds
     else bindr (pop_bstrs ndebug position blk (ulIndex + 1) n q) (\<lambda>(ss, t', q). Inr (s # ss, t + t', q)))"

fun pop_variants ::
  "(uqueue \<Rightarrow> fault + (VARIANT \<times> nat \<times> uqueue)) \<Rightarrow> nat \<Rightarrow> nat \<Rightarrow> nat \<Rightarrow> uqueue \<Rightarrow>
   fault + (VARIANT list \<times> nat \<times> uqueue)"
where
  "pop_variants pop blk ul 0 q = Inr ([], 0, q)"
| "pop_variants pop blk ul (Suc n) q =
     (if blk < 24 * (ul + 1) then Inl Out_Of_Bounds
      else bindr (pop q) (\<lambda>(v, t, q).
           bindr (pop_variants pop blk (ul + 1) n q) (\<lambda>(vs, t', q). Inr (v # vs, t + t', q))))"

definition pop_fixed :: "nat \<Rightarrow> nat \<Rightarrow> nat \<Rightarrow> uqueue \<Rightarrow> nat \<Rightarrow> fault + (VARIANT \<times> nat \<times> uqueue)" where
  "pop_fixed t k n q position =
     bindr (SafeArrayCreate k n) (\<lambda>blk.
     bindr (pop_at q (mul32 n k) position) (\<lambda>(bs, q).
     bindr (mem_write blk 0 (map Some bs)) (\<lambda>_. Inr (Fixed_array t n bs, length bs, q))))"

definition pop_array ::
  "text_conv \<Rightarrow> bool \<Rightarrow> (uqueue \<Rightarrow> fault + (VARIANT \<times> nat \<times> uqueue)) \<Rightarrow> nat \<Rightarrow> nat \<Rightarrow> uqueue \<Rightarrow> nat \<Rightarrow>
   fault + (VARIANT \<times> nat \<times> uqueue)"
where
  "pop_array C ndebug pop vt ulSize q position =
     (let t = vt - VT_ARRAY in
      if vt = VT_ARRAY + VT_I1 \<and> m_8ToW q
      then bindr (mem_read (m_pBuffer q) (GetBuffer q position) ulSize) (\<lambda>cs. bindr (cells cs) (\<lambda>utf8.
           bindr (Pop_discard q ulSize position) (\<lambda>(_, q). Inr (Vt_bstr (Some (of_utf8 C utf8)), ulSize, q))))
      else if t = VT_VARIANT
      then bindr (SafeArrayCreate 24 ulSize) (\<lambda>blk.
           bindr (pop_variants pop (length blk) 0 ulSize q) (\<lambda>(vs, total, q). Inr (Variant_array vs, total, q)))
      else if t = VT_BSTR
      then bindr (SafeArrayCreate 8 ulSize) (\<lambda>blk.
           bindr (pop_bstrs ndebug position (length blk) 0 ulSize q) (\<lambda>(ss, total, q). Inr (Bstr_array ss, total, q)))
      else case elem_width t of
             None \<Rightarrow> Inl MB_BAD_DESERIALIZATION
           | Some k \<Rightarrow> pop_fixed t k ulSize q position)"

text \<open>The switch over the type.\<close>

definition Pop_VARIANT_body ::
  "text_conv \<Rightarrow> bool \<Rightarrow> (uqueue \<Rightarrow> fault + (VARIANT \<times> nat \<times> uqueue)) \<Rightarrow> nat \<Rightarrow> uqueue \<Rightarrow> nat \<Rightarrow>
   fault + (VARIANT \<times> nat \<times> uqueue)"
where
  "Pop_VARIANT_body C ndebug pop vt q position =
     (case scalar_width vt of
       Some w \<Rightarrow>
         if w = 0 then Inr (Scalar vt [], 0, q)
         else bindr (pop_at q w position) (\<lambda>(bs, q). Inr (Scalar vt bs, w, q))
     | None \<Rightarrow>
         if vt = VT_BSTR
         then if m_ToUtf8 q then pop_bstr_utf8 C q position
              else bindr (pop_bstr ndebug q position) (\<lambda>(s, t, q). Inr (Vt_bstr s, t, q))
         else if vt = VT_CLSID
         then bindr (SafeArrayCreate 1 16) (\<lambda>_. bindr (pop_at q 16 position) (\<lambda>(bs, q).
              Inr (Fixed_array VT_UI1 16 bs, 16, q)))
         else if odd (vt div VT_ARRAY)
         then bindr (pop_at q 4 position) (\<lambda>(bs, q).
              bindr (pop_array C ndebug pop vt (le_value bs) q position) (\<lambda>(v, t, q). Inr (v, 4 + t, q)))
         else Inl MB_BAD_DESERIALIZATION)"

definition Pop_VARIANT_step ::
  "text_conv \<Rightarrow> bool \<Rightarrow> (uqueue \<Rightarrow> fault + (VARIANT \<times> nat \<times> uqueue)) \<Rightarrow> uqueue \<Rightarrow> nat \<Rightarrow>
   fault + (VARIANT \<times> nat \<times> uqueue)"
where
  "Pop_VARIANT_step C ndebug pop q position =
     bindr (pop_at q 2 position) (\<lambda>(bs, q).
     bindr (Pop_VARIANT_body C ndebug pop (le_value bs) q position) (\<lambda>(v, t, q). Inr (v, 2 + t, q)))"

fun Pop_VARIANT :: "text_conv \<Rightarrow> bool \<Rightarrow> nat \<Rightarrow> uqueue \<Rightarrow> nat \<Rightarrow> fault + (VARIANT \<times> nat \<times> uqueue)" where
  "Pop_VARIANT C ndebug 0 q position = Inl Out_Of_Fuel"
| "Pop_VARIANT C ndebug (Suc fuel) q position =
     Pop_VARIANT_step C ndebug (\<lambda>q. Pop_VARIANT C ndebug fuel q position) q position"

definition get_VARIANT :: "text_conv \<Rightarrow> bool \<Rightarrow> uqueue \<Rightarrow> fault + (VARIANT \<times> uqueue)" where
  "get_VARIANT C ndebug q =
     bindr (Pop_VARIANT C ndebug (m_nSize q + 1) q 0) (\<lambda>(v, _, q). Inr (v, q))"

section \<open>The image of a variant on the wire\<close>

definition bstr_wire :: "nat list option \<Rightarrow> byte list" where
  "bstr_wire s = (case s of None \<Rightarrow> le_bytes 4 UQUEUE_NULL_LENGTH | Some u \<Rightarrow> lwire (vec_bytes 2 u))"

fun variant_data :: "VARIANT \<Rightarrow> byte list" where
  "variant_data (Scalar vt bs) = bs"
| "variant_data (Vt_bstr s) = bstr_wire s"
| "variant_data (Fixed_array t n d) = le_bytes 4 n @ d"
| "variant_data (Bstr_array ss) = le_bytes 4 (length ss) @ concat (map bstr_wire ss)"
| "variant_data (Variant_array vs) =
     le_bytes 4 (length vs) @ concat (map (\<lambda>v. le_bytes 2 (variant_type v) @ variant_data v) vs)"

definition variant_wire :: "VARIANT \<Rightarrow> byte list" where
  "variant_wire v = le_bytes 2 (variant_type v) @ variant_data v"

text \<open>Well-formed variants: the data has the size its type says, the blocks fit into 32 bits.\<close>

definition bstr_ok :: "nat list option \<Rightarrow> bool" where
  "bstr_ok s \<longleftrightarrow>
     (case s of None \<Rightarrow> True
      | Some u \<Rightarrow> list_all (\<lambda>c. 0 < c \<and> c < 65536) u \<and> 2 * length u < UQUEUE_NULL_LENGTH)"

definition block_ok :: "nat \<Rightarrow> bool" where
  "block_ok n \<longleftrightarrow> n + 33 < 4294967296"

fun variant_ok :: "VARIANT \<Rightarrow> bool" where
  "variant_ok (Scalar vt bs) \<longleftrightarrow> scalar_width vt = Some (length bs)"
| "variant_ok (Vt_bstr s) \<longleftrightarrow> bstr_ok s"
| "variant_ok (Fixed_array t n d) \<longleftrightarrow>
     (case elem_width t of None \<Rightarrow> False | Some k \<Rightarrow> length d = n * k) \<and> block_ok (length d)"
| "variant_ok (Bstr_array ss) \<longleftrightarrow> list_all bstr_ok ss \<and> block_ok (8 * length ss)"
| "variant_ok (Variant_array vs) \<longleftrightarrow> list_all variant_ok vs \<and> block_ok (24 * length vs)"

section \<open>What is written\<close>

definition appended :: "uqueue \<Rightarrow> byte list \<Rightarrow> uqueue \<Rightarrow> bool" where
  "appended q bs q' \<longleftrightarrow> uq_inv q' \<and> same_settings q q' \<and> content q' = content q @ bs"

lemma appended_Nil: "uq_inv q \<Longrightarrow> appended q [] q"
  by (simp add: appended_def)

lemma appended_trans: "appended q bs q1 \<Longrightarrow> appended q1 cs q2 \<Longrightarrow> appended q (bs @ cs) q2"
  unfolding appended_def using same_settings_trans by auto

lemma appended_room: "room q (length bs + n) \<Longrightarrow> uq_inv q \<Longrightarrow> appended q bs q' \<Longrightarrow> room q' n"
  using room_after [of q "length bs" n q'] by (simp add: appended_def)

lemma appended_size: "uq_inv q \<Longrightarrow> appended q bs q' \<Longrightarrow> m_nSize q' = m_nSize q + length bs"
  using uq_invD(1) [of q] uq_invD(1) [of q'] by (simp add: appended_def)

lemma Insert_end:
  assumes "uq_inv q" "room q (length bs)" "m_nSize q \<le> pos"
  shows "\<exists>q'. Insert q (Some (map Some bs)) pos = Inr q' \<and> appended q bs q'"
  using Insert_ok [OF assms(1,2), of pos] uq_invD(1) [OF assms(1)] assms(3) by (auto simp: appended_def)

lemma Push_appends:
  "uq_inv q \<Longrightarrow> room q (length bs) \<Longrightarrow> \<exists>q'. Push q (Some (map Some bs)) = Inr q' \<and> appended q bs q'"
  using Push_ok by (simp add: appended_def)

lemma position_after:
  assumes "uq_inv q" "appended q bs q'" "room q (length bs)"
  shows "add32 (m_nSize q) (length bs) = m_nSize q'"
proof -
  have "m_nSize q + length bs \<le> max32" using assms(3) by (simp add: room_def)
  then show ?thesis using appended_size [OF assms(1,2)] by (simp add: add32_exact)
qed

lemma put_bstr_ok:
  assumes "uq_inv q" "bstr_ok s" "room q (length (bstr_wire s))"
  shows "\<exists>q'. put_bstr q s = Inr q' \<and> appended q (bstr_wire s) q'"
proof (cases s)
  case None
  then show ?thesis using assms put_pod_ok [of q 4] by (auto simp: put_bstr_def bstr_wire_def appended_def)
next
  case (Some u)
  have w: "takeWhile (\<lambda>c. c \<noteq> 0) u = u"
    using assms(2) Some by (auto simp: takeWhile_eq_all_conv bstr_ok_def list_all_iff)
  have n: "mul32 (length u mod 4294967296) 2 = length (vec_bytes 2 u)"
    using assms(2) Some by (simp add: bstr_ok_def UQUEUE_NULL_LENGTH_def mul32_exact max32_def)
  have "mem_read (map Some (vec_bytes 2 u)) 0 (length (vec_bytes 2 u)) = Inr (map Some (vec_bytes 2 u))"
    by (simp add: mem_read_def)
  moreover have "room q (4 + length (vec_bytes 2 u))" using assms(3) Some by (simp add: bstr_wire_def)
  moreover have "put_bstr q s = bindr (put_pod 4 q (length (vec_bytes 2 u))) (\<lambda>q.
      if length (vec_bytes 2 u) \<noteq> 0
      then bindr (mem_read (map Some (vec_bytes 2 u)) 0 (length (vec_bytes 2 u))) (\<lambda>buf. Push q (Some buf))
      else Inr q)"
    unfolding put_bstr_def Some option.case Let_def w n ..
  ultimately show ?thesis
    using put_len_push_ok [OF assms(1), of "vec_bytes 2 u"] Some
    by (auto simp: bstr_wire_def appended_def lwire_def simp del: length_vec_bytes)
qed

lemma put_bstrs_ok:
  "uq_inv q \<Longrightarrow> list_all bstr_ok ss \<Longrightarrow> room q (length (concat (map bstr_wire ss))) \<Longrightarrow>
   \<exists>q'. put_bstrs q ss = Inr q' \<and> appended q (concat (map bstr_wire ss)) q'"
proof (induction ss arbitrary: q)
  case Nil
  then show ?case by (simp add: appended_Nil)
next
  case (Cons s ss)
  have "room q (length (bstr_wire s))" using Cons.prems(3) by (rule room_mono) simp
  with Cons.prems obtain q1 where q1: "put_bstr q s = Inr q1" "appended q (bstr_wire s) q1"
    using put_bstr_ok [of q s] by auto
  moreover have "room q1 (length (concat (map bstr_wire ss)))"
    by (rule appended_room [OF _ Cons.prems(1) q1(2)]) (use Cons.prems(3) in simp)
  ultimately obtain q2 where "put_bstrs q1 ss = Inr q2" "appended q1 (concat (map bstr_wire ss)) q2"
    using Cons.IH [of q1] Cons.prems(2) by (auto simp: appended_def)
  with q1 appended_trans [OF q1(2) this(2)] show ?case by simp
qed

lemma Insert_sized_ok:
  assumes "uq_inv q" "room q (4 + length bs)" "n = 0 \<longrightarrow> bs = []"
    and "\<And>q1. uq_inv q1 \<Longrightarrow> room q1 (length bs) \<Longrightarrow> \<exists>q'. body q1 (m_nSize q1) = Inr q' \<and> appended q1 bs q'"
  shows "\<exists>q'. Insert_sized q n (m_nSize q) body = Inr q' \<and> appended q (le_bytes 4 n @ bs) q'"
proof -
  have r: "room q (length (le_bytes 4 n))" using assms(2) by (rule room_mono) simp
  obtain q1 where q1: "Insert_bytes q (le_bytes 4 n) (m_nSize q) = Inr q1" "appended q (le_bytes 4 n) q1"
    using Insert_end [OF assms(1) r] by (auto simp: Insert_bytes_def)
  have "add32 (m_nSize q) 4 = m_nSize q1" using position_after [OF assms(1) q1(2) r] by simp
  moreover have "uq_inv q1" "room q1 (length bs)"
    using q1(2) appended_room [OF _ assms(1) q1(2), of "length bs"] assms(2) by (simp_all add: appended_def)
  ultimately show ?thesis
    using q1 assms(3) assms(4) [of q1] appended_trans [OF q1(2)] by (auto simp: Insert_sized_def)
qed

lemma insert_scratch_end: "m_nSize q \<le> position \<Longrightarrow> insert_scratch q position fill = fill q"
  by (simp add: insert_scratch_def)

lemma mem_read_all: "n = length bs \<Longrightarrow> mem_read (map Some bs) 0 n = Inr (map Some bs)"
  by (simp add: mem_read_def)

lemma elem_width_bound: "elem_width t = Some k \<Longrightarrow> 0 < k \<and> k \<le> 16"
  by (auto simp: elem_width_def split: if_splits)

lemma block_ok_mul: "block_ok (n * k) \<Longrightarrow> mul32 n k = n * k \<and> mul32 k n = n * k"
  by (simp add: block_ok_def mul32_exact max32_def mult.commute)

lemma Insert_VARIANT_body_ok:
  assumes "uq_inv q" "variant_ok v" "room q (length (variant_data v))"
    and push: "\<And>vs q. v = Variant_array vs \<Longrightarrow> uq_inv q \<Longrightarrow> room q (length (concat (map variant_wire vs))) \<Longrightarrow>
      \<exists>q'. push_all q = Inr q' \<and> appended q (concat (map variant_wire vs)) q'"
  shows "\<exists>q'. Insert_VARIANT_body push_all v q (m_nSize q) = Inr q' \<and> appended q (variant_data v) q'"
proof (cases v)
  case (Scalar vt bs)
  then have w: "scalar_width vt = Some (length bs)" using assms(2) by simp
  show ?thesis
  proof (cases "bs = []")
    case True
    with Scalar w appended_Nil [OF assms(1)] show ?thesis by (simp add: Insert_VARIANT_body_def)
  next
    case False
    with Scalar w assms(3) Insert_end [OF assms(1), of bs "m_nSize q"] show ?thesis
      by (simp add: Insert_VARIANT_body_def mem_read_all)
  qed
next
  case (Vt_bstr s)
  with assms put_bstr_ok [OF assms(1), of s] show ?thesis by (simp add: Insert_VARIANT_body_def)
next
  case (Fixed_array t n d)
  then obtain k where k: "elem_width t = Some k" "length d = n * k" "block_ok (n * k)"
    using assms(2) by (auto split: option.splits)
  have "\<exists>q'. Insert_sized q n (m_nSize q) (\<lambda>q position. case elem_width t of
        None \<Rightarrow> Inl MB_SERIALIZATION_NOT_SUPPORTED
      | Some k \<Rightarrow> bindr (mem_read (map Some d) 0 (mul32 n k)) (\<lambda>buf. Insert q (Some buf) position)) = Inr q' \<and>
    appended q (le_bytes 4 n @ d) q'"
  proof (rule Insert_sized_ok [OF assms(1)])
    show "room q (4 + length d)" using assms(3) Fixed_array by simp
    show "n = 0 \<longrightarrow> d = []" using k(2) by (cases "n = 0") auto
    fix q1 assume "uq_inv q1" "room q1 (length d)"
    then show "\<exists>q'. (case elem_width t of None \<Rightarrow> Inl MB_SERIALIZATION_NOT_SUPPORTED
      | Some k \<Rightarrow> bindr (mem_read (map Some d) 0 (mul32 n k)) (\<lambda>buf. Insert q1 (Some buf) (m_nSize q1))) = Inr q' \<and>
      appended q1 d q'"
      using Insert_end [of q1 d "m_nSize q1"] k block_ok_mul [OF k(3)] by (simp add: mem_read_all)
  qed
  with Fixed_array show ?thesis by (simp add: Insert_VARIANT_body_def)
next
  case (Bstr_array ss)
  have "\<exists>q'. Insert_sized q (length ss) (m_nSize q)
      (\<lambda>q position. insert_scratch q position (\<lambda>q. put_bstrs q ss)) = Inr q' \<and>
    appended q (le_bytes 4 (length ss) @ concat (map bstr_wire ss)) q'"
    using assms(2,3) Bstr_array by (intro Insert_sized_ok [OF assms(1)]) (auto simp: insert_scratch_end put_bstrs_ok)
  with Bstr_array show ?thesis by (simp add: Insert_VARIANT_body_def)
next
  case (Variant_array vs)
  have "\<exists>q'. Insert_sized q (length vs) (m_nSize q) (\<lambda>q position. insert_scratch q position push_all) = Inr q' \<and>
    appended q (le_bytes 4 (length vs) @ concat (map variant_wire vs)) q'"
    using assms(3) Variant_array push [OF Variant_array]
    by (intro Insert_sized_ok [OF assms(1)]) (auto simp: insert_scratch_end variant_wire_def [abs_def])
  with Variant_array show ?thesis by (simp add: Insert_VARIANT_body_def variant_wire_def [abs_def])
qed

lemma Insert_VARIANT_step_ok:
  assumes "uq_inv q" "variant_ok v" "room q (length (variant_wire v))"
    and push: "\<And>vs q. v = Variant_array vs \<Longrightarrow> uq_inv q \<Longrightarrow> room q (length (concat (map variant_wire vs))) \<Longrightarrow>
      \<exists>q'. push_all q = Inr q' \<and> appended q (concat (map variant_wire vs)) q'"
  shows "\<exists>q'. Insert_VARIANT_step push_all q v UQUEUE_END_POSTION = Inr q' \<and> appended q (variant_wire v) q'"
proof -
  have "m_nSize q \<le> UQUEUE_END_POSTION" using uq_invD [OF assms(1)] by (simp add: UQUEUE_END_POSTION_def)
  then have pos: "(if UQUEUE_END_POSTION > m_nSize q then m_nSize q else UQUEUE_END_POSTION) = m_nSize q" by auto
  have r: "room q (length (le_bytes 2 (variant_type v)))"
    using assms(3) by (rule room_mono) (simp add: variant_wire_def)
  obtain q1 where q1: "Insert_bytes q (le_bytes 2 (variant_type v)) (m_nSize q) = Inr q1"
    "appended q (le_bytes 2 (variant_type v)) q1"
    using Insert_end [OF assms(1) r] by (auto simp: Insert_bytes_def)
  have p1: "add32 (m_nSize q) 2 = m_nSize q1" using position_after [OF assms(1) q1(2) r] by simp
  have "uq_inv q1" using q1(2) by (simp add: appended_def)
  moreover have "room q1 (length (variant_data v))"
    by (rule appended_room [OF _ assms(1) q1(2)]) (use assms(3) in \<open>simp add: variant_wire_def\<close>)
  ultimately obtain q2 where "Insert_VARIANT_body push_all v q1 (m_nSize q1) = Inr q2"
    "appended q1 (variant_data v) q2"
    using Insert_VARIANT_body_ok [of q1 v push_all] assms(2) push by blast
  with q1 p1 pos appended_trans [OF q1(2)] show ?thesis
    by (auto simp: Insert_VARIANT_step_def Let_def variant_wire_def)
qed

lemma Push_VARIANTs_ok:
  assumes "\<And>v q. v \<in> set vs \<Longrightarrow> uq_inv q \<Longrightarrow> room q (length (variant_wire v)) \<Longrightarrow>
    \<exists>q'. put_VARIANT q v = Inr q' \<and> appended q (variant_wire v) q'"
  shows "uq_inv q \<Longrightarrow> room q (length (concat (map variant_wire vs))) \<Longrightarrow>
    \<exists>q'. Push_VARIANTs vs q = Inr q' \<and> appended q (concat (map variant_wire vs)) q'"
  using assms
proof (induction vs arbitrary: q)
  case Nil
  then show ?case by (simp add: appended_Nil)
next
  case (Cons v vs)
  have "room q (length (variant_wire v))" using Cons.prems(2) by (rule room_mono) simp
  with Cons.prems obtain q1 where q1: "put_VARIANT q v = Inr q1" "appended q (variant_wire v) q1"
    by (meson list.set_intros(1))
  moreover have "room q1 (length (concat (map variant_wire vs)))"
    by (rule appended_room [OF _ Cons.prems(1) q1(2)]) (use Cons.prems(2) in simp)
  ultimately obtain q2 where "Push_VARIANTs vs q1 = Inr q2" "appended q1 (concat (map variant_wire vs)) q2"
    using Cons.IH [of q1] Cons.prems(3) by (auto simp: appended_def)
  with q1 appended_trans [OF q1(2) this(2)] show ?case by (simp add: put_VARIANT_def)
qed

lemma put_VARIANT_ok:
  "variant_ok v \<Longrightarrow> uq_inv q \<Longrightarrow> room q (length (variant_wire v)) \<Longrightarrow>
   \<exists>q'. put_VARIANT q v = Inr q' \<and> appended q (variant_wire v) q'"
proof (induction v arbitrary: q)
  case (Variant_array vs)
  have "\<exists>q'. put_VARIANT q v = Inr q' \<and> appended q (variant_wire v) q'"
    if "v \<in> set vs" "uq_inv q" "room q (length (variant_wire v))" for v q
    using Variant_array.IH [of v q] Variant_array.prems(1) that by (simp add: list_all_iff)
  from Push_VARIANTs_ok [OF this] Variant_array.prems show ?case
    unfolding put_VARIANT_def Insert_VARIANT.simps by (intro Insert_VARIANT_step_ok) auto
qed (unfold put_VARIANT_def Insert_VARIANT.simps, (rule Insert_VARIANT_step_ok; simp)+)

section \<open>What is read back\<close>

lemma pop_at_0: "pop_at q n 0 = pop_bytes q n"
  by (simp add: pop_at_def pop_bytes_def)

definition plain_mode :: "uqueue \<Rightarrow> bool" where
  "plain_mode q \<longleftrightarrow> \<not> m_8ToW q \<and> \<not> m_ToUtf8 q"

lemma plain_mode_settings: "same_settings q q' \<Longrightarrow> plain_mode q \<Longrightarrow> plain_mode q'"
  by (simp add: plain_mode_def same_settings_def)

text \<open>
  The two modes of a buffer that matter to a reader: \<open>w\<close> says whether texts of bytes come back as
  strings (\<^verbatim>\<open>Utf8ToW\<close>), which the handlers of the database clients switch on.
\<close>

definition reader_mode :: "bool \<Rightarrow> uqueue \<Rightarrow> bool" where
  "reader_mode w q \<longleftrightarrow> m_8ToW q = w \<and> \<not> m_ToUtf8 q"

lemma reader_mode_settings: "same_settings q q' \<Longrightarrow> reader_mode w q \<Longrightarrow> reader_mode w q'"
  by (simp add: reader_mode_def same_settings_def)

lemma plain_mode_reader: "plain_mode q \<longleftrightarrow> reader_mode False q"
  by (auto simp: plain_mode_def reader_mode_def)

text \<open>What comes back for a variant.\<close>

fun loaded :: "text_conv \<Rightarrow> bool \<Rightarrow> VARIANT \<Rightarrow> VARIANT" where
  "loaded C w (Fixed_array t n d) =
     (if w \<and> t = VT_I1 then Vt_bstr (Some (of_utf8 C d)) else Fixed_array t n d)"
| "loaded C w (Variant_array vs) = Variant_array (map (loaded C w) vs)"
| "loaded C w v = v"

lemma loaded_plain [simp]: "loaded C False v = v"
  by (induction v) (simp_all add: map_idI)

definition reads_as :: "bool \<Rightarrow> (uqueue \<Rightarrow> fault + ('v \<times> nat \<times> uqueue)) \<Rightarrow> 'v \<Rightarrow> byte list \<Rightarrow> bool" where
  "reads_as w get v bs \<longleftrightarrow>
     (\<forall>q rest. uq_inv q \<longrightarrow> reader_mode w q \<longrightarrow> content q = bs @ rest \<longrightarrow>
       (\<exists>q'. get q = Inr (v, length bs, q') \<and> uq_inv q' \<and> same_settings q q' \<and> content q' = rest))"

lemma reads_asD:
  assumes "reads_as w get v bs" "uq_inv q" "reader_mode w q" "content q = bs @ rest"
  obtains q' where "get q = Inr (v, length bs, q')" "uq_inv q'" "same_settings q q'" "reader_mode w q'" "content q' = rest"
  using assms reader_mode_settings unfolding reads_as_def by metis

lemma pop_at_ok:
  assumes "uq_inv q" "reader_mode w q" "content q = bs @ rest" "n = length bs"
  obtains q' where "pop_at q n 0 = Inr (bs, q')" "uq_inv q'" "same_settings q q'" "reader_mode w q'" "content q' = rest"
  using pop_bytes_ok [OF assms(1,3)] assms(2,4) reader_mode_settings unfolding pop_at_0 by metis

lemma le_value_at: "v < 256 ^ n \<Longrightarrow> le_value (le_bytes n v) = v"
  by (rule le_value_le_bytes)

lemma SysAllocStringLen_ok:
  assumes "uq_inv q" "content q = vec_bytes 2 u @ rest" "list_all (\<lambda>c. c < 256 ^ 2) u"
  shows "SysAllocStringLen True (m_pBuffer q) (GetBuffer q 0) (length u) = Inr u"
  using take_front_ok(1) [OF assms(1,2)] vec_elems_bytes [of 2 u] assms(3)
  by (simp add: SysAllocStringLen_def mult.commute)

lemma pop_bstr_ok:
  assumes "bstr_ok s"
  shows "reads_as w (\<lambda>q. pop_bstr True q 0) s (bstr_wire s)"
  unfolding reads_as_def
proof (intro allI impI)
  fix q rest assume q: "uq_inv q" "reader_mode w q" "content q = bstr_wire s @ rest"
  show "\<exists>q'. pop_bstr True q 0 = Inr (s, length (bstr_wire s), q') \<and> uq_inv q' \<and> same_settings q q' \<and> content q' = rest"
  proof (cases s)
    case None
    then have "content q = le_bytes 4 UQUEUE_NULL_LENGTH @ rest" using q(3) by (simp add: bstr_wire_def)
    then obtain q' where q': "pop_at q 4 0 = Inr (le_bytes 4 UQUEUE_NULL_LENGTH, q')" "uq_inv q'"
      "same_settings q q'" "content q' = rest"
      using pop_at_ok [OF q(1,2), of "le_bytes 4 UQUEUE_NULL_LENGTH" rest 4] by auto
    moreover have "le_value (le_bytes 4 UQUEUE_NULL_LENGTH) = 4294967295"
      by (subst le_value_at) (simp_all add: UQUEUE_NULL_LENGTH_def max32_def)
    moreover have "m_nSize q - m_nSize q' = 4"
      using uq_invD(1) [OF q(1)] uq_invD(1) [OF q'(2)] q(3) q'(4) None by (simp add: bstr_wire_def)
    ultimately show ?thesis using None by (simp add: pop_bstr_def bstr_wire_def)
  next
    case (Some u)
    let ?b = "vec_bytes 2 u"
    have u: "list_all (\<lambda>c. c < 256 ^ 2) u" "2 * length u < UQUEUE_NULL_LENGTH"
      using assms Some by (auto simp: bstr_ok_def list_all_iff)
    have c: "content q = le_bytes 4 (length ?b) @ ?b @ rest" using q(3) Some by (simp add: bstr_wire_def lwire_def)
    obtain q1 where q1: "pop_at q 4 0 = Inr (le_bytes 4 (length ?b), q1)" "uq_inv q1" "same_settings q q1"
      "content q1 = ?b @ rest"
      using pop_at_ok [OF q(1,2) c, of 4] by auto
    have len: "le_value (le_bytes 4 (length ?b)) = 2 * length u" "2 * length u \<noteq> 4294967295"
      using u(2) by (simp_all add: le_value_at UQUEUE_NULL_LENGTH_def max32_def)
    have sz: "2 * length u \<le> m_nSize q1" using uq_invD(1) [OF q1(2)] q1(4) by simp
    have a: "add32 (2 * length u) 0 = 2 * length u"
      using u(2) by (simp add: add32_exact UQUEUE_NULL_LENGTH_def max32_def)
    obtain k q2 where q2: "Pop_discard q1 (2 * length u) 0 = Inr (k, q2)" "uq_inv q2" "same_settings q1 q2" "content q2 = rest"
      using take_front_ok(2) [OF q1(2,4)] by (auto simp: mult.commute)
    have "m_nSize q - m_nSize q2 = length (bstr_wire s)"
      using uq_invD(1) [OF q(1)] uq_invD(1) [OF q2(2)] q(3) q2(4) by simp
    with q1 q2 len sz a SysAllocStringLen_ok [OF q1(2,4) u(1)] Some same_settings_trans [OF q1(3) q2(3)]
    show ?thesis by (simp add: pop_bstr_def Let_def)
  qed
qed

lemma reads_as_Cons:
  assumes "reads_as w get x bs" "reads_as w gets xs cs"
  shows "reads_as w (\<lambda>q. bindr (get q) (\<lambda>(x, t, q). bindr (gets q) (\<lambda>(xs, t', q). Inr (x # xs, t + t', q))))
    (x # xs) (bs @ cs)"
  unfolding reads_as_def
proof (intro allI impI)
  fix q rest assume q: "uq_inv q" "reader_mode w q" "content q = (bs @ cs) @ rest"
  obtain q1 where q1: "get q = Inr (x, length bs, q1)" "uq_inv q1" "same_settings q q1" "reader_mode w q1"
    "content q1 = cs @ rest"
    using reads_asD [OF assms(1) q(1,2), of "cs @ rest"] q(3) by auto
  obtain q2 where "gets q1 = Inr (xs, length cs, q2)" "uq_inv q2" "same_settings q1 q2" "content q2 = rest"
    using reads_asD [OF assms(2) q1(2,4,5)] by blast
  with q1 same_settings_trans show
    "\<exists>q'. bindr (get q) (\<lambda>(x, t, q). bindr (gets q) (\<lambda>(xs, t', q). Inr (x # xs, t + t', q))) =
        Inr (x # xs, length (bs @ cs), q') \<and> uq_inv q' \<and> same_settings q q' \<and> content q' = rest"
    by auto
qed

lemma pop_bstrs_ok:
  "list_all bstr_ok ss \<Longrightarrow> 8 * (i + length ss) \<le> blk \<Longrightarrow>
   reads_as w (pop_bstrs True 0 blk i (length ss)) ss (concat (map bstr_wire ss))"
proof (induction ss arbitrary: i)
  case Nil
  then show ?case by (auto simp: reads_as_def)
next
  case (Cons s ss)
  then have "pop_bstrs True 0 blk i (length (s # ss)) = (\<lambda>q. bindr (pop_bstr True q 0) (\<lambda>(s, t, q).
      bindr (pop_bstrs True 0 blk (i + 1) (length ss) q) (\<lambda>(ss, t', q). Inr (s # ss, t + t', q))))"
    by (intro ext) simp
  with reads_as_Cons [OF pop_bstr_ok Cons.IH] Cons.prems show ?case by simp
qed

lemma pop_variants_ok:
  "(\<And>v. v \<in> set vs \<Longrightarrow> reads_as w pop (f v) (variant_wire v)) \<Longrightarrow> 24 * (i + length vs) \<le> blk \<Longrightarrow>
   reads_as w (pop_variants pop blk i (length vs)) (map f vs) (concat (map variant_wire vs))"
proof (induction vs arbitrary: i)
  case Nil
  then show ?case by (auto simp: reads_as_def)
next
  case (Cons v vs)
  then have "pop_variants pop blk i (length (v # vs)) = (\<lambda>q. bindr (pop q) (\<lambda>(v, t, q).
      bindr (pop_variants pop blk (i + 1) (length vs) q) (\<lambda>(vs, t', q). Inr (v # vs, t + t', q))))"
    by (intro ext) simp
  with reads_as_Cons [OF Cons.prems(1) Cons.IH] Cons.prems show ?case by simp
qed

lemma reads_as_prefix:
  assumes "reads_as w (get bs) v cs" "length bs = n"
  shows "reads_as w (\<lambda>q. bindr (pop_at q n 0) (\<lambda>(bs, q). bindr (get bs q) (\<lambda>(v, t, q). Inr (v, n + t, q)))) v (bs @ cs)"
  unfolding reads_as_def
proof (intro allI impI)
  fix q rest assume q: "uq_inv q" "reader_mode w q" "content q = (bs @ cs) @ rest"
  obtain q1 where q1: "pop_at q n 0 = Inr (bs, q1)" "uq_inv q1" "same_settings q q1" "reader_mode w q1"
    "content q1 = cs @ rest"
    using pop_at_ok [OF q(1,2), of bs "cs @ rest" n] q(3) assms(2) by auto
  obtain q2 where "get bs q1 = Inr (v, length cs, q2)" "uq_inv q2" "same_settings q1 q2" "content q2 = rest"
    using reads_asD [OF assms(1) q1(2,4,5)] by blast
  with q1 same_settings_trans assms(2) show
    "\<exists>q'. bindr (pop_at q n 0) (\<lambda>(bs, q). bindr (get bs q) (\<lambda>(v, t, q). Inr (v, n + t, q))) =
        Inr (v, length (bs @ cs), q') \<and> uq_inv q' \<and> same_settings q q' \<and> content q' = rest"
    by auto
qed

lemma reads_as_map:
  "reads_as w get x bs \<Longrightarrow> reads_as w (\<lambda>q. bindr (get q) (\<lambda>(x, t, q). Inr (f x, t, q))) (f x) bs"
  unfolding reads_as_def by fastforce

lemma reads_as_cong: "reads_as w get x bs \<Longrightarrow> (\<And>q. reader_mode w q \<Longrightarrow> get' q = get q) \<Longrightarrow> reads_as w get' x bs"
  unfolding reads_as_def by metis

lemma SafeArrayCreate_ok:
  "block_ok (k * n) \<Longrightarrow> \<exists>blk. SafeArrayCreate k n = Inr blk \<and> length blk = k * n + 1"
  by (auto simp: SafeArrayCreate_def block_ok_def mul32_exact max32_def)

lemma reads_pop_at:
  assumes "length bs = n"
  shows "reads_as w (\<lambda>q. bindr (pop_at q n 0) (\<lambda>(bs, q). Inr (f bs, n, q))) (f bs) bs"
  unfolding reads_as_def
proof (intro allI impI)
  fix q rest assume "uq_inv q" "reader_mode w q" "content q = bs @ rest"
  then obtain q' where "pop_at q n 0 = Inr (bs, q')" "uq_inv q'" "same_settings q q'" "content q' = rest"
    using pop_at_ok [of q w bs rest n] assms by auto
  then show "\<exists>q'. bindr (pop_at q n 0) (\<lambda>(bs, q). Inr (f bs, n, q)) = Inr (f bs, length bs, q') \<and>
      uq_inv q' \<and> same_settings q q' \<and> content q' = rest"
    using assms by simp
qed

lemma pop_fixed_ok:
  assumes "length d = n * k" "block_ok (n * k)"
  shows "reads_as w (\<lambda>q. pop_fixed t k n q 0) (Fixed_array t n d) d"
  unfolding reads_as_def
proof (intro allI impI)
  fix q rest assume "uq_inv q" "reader_mode w q" "content q = d @ rest"
  then obtain q' where "pop_at q (n * k) 0 = Inr (d, q')" "uq_inv q'" "same_settings q q'" "content q' = rest"
    using pop_at_ok [of q w d rest "n * k"] assms(1) by auto
  moreover obtain blk where "SafeArrayCreate k n = Inr blk" "length blk = k * n + 1"
    using SafeArrayCreate_ok [of k n] assms(2) by (auto simp: mult.commute)
  moreover from this have "mem_write blk 0 (map Some d) = Inr (mem_put blk 0 (map Some d))"
    using assms(1) by (intro mem_write_ok) (simp add: mult.commute)
  ultimately show "\<exists>q'. pop_fixed t k n q 0 = Inr (Fixed_array t n d, length d, q') \<and>
      uq_inv q' \<and> same_settings q q' \<and> content q' = rest"
    using block_ok_mul [OF assms(2)] by (simp add: pop_fixed_def)
qed

lemma array_bit: "t < 24 \<Longrightarrow> (8192 + t) div 8192 = (1 :: nat)"
  by (rule div_nat_eqI) simp_all

lemma vt_numbers:
  "scalar_width vt = Some w \<Longrightarrow> vt < 24" "elem_width vt = Some w \<Longrightarrow> vt < 24"
  "elem_width VT_BSTR = None" "elem_width VT_VARIANT = None"
  "scalar_width VT_BSTR = None" "t < 24 \<Longrightarrow> scalar_width (VT_ARRAY + t) = None"
  "t < 24 \<Longrightarrow> VT_ARRAY + t \<noteq> VT_BSTR" "t < 24 \<Longrightarrow> VT_ARRAY + t \<noteq> VT_CLSID"
  "t < 24 \<Longrightarrow> odd ((VT_ARRAY + t) div VT_ARRAY)" "VT_BSTR < 24" "VT_VARIANT < 24"
  by (auto simp: scalar_width_def elem_width_def vt_defs array_bit split: if_splits)

lemma body_array:
  "t < 24 \<Longrightarrow> Pop_VARIANT_body C ndebug pop (VT_ARRAY + t) q position =
     bindr (pop_at q 4 position) (\<lambda>(bs, q).
     bindr (pop_array C ndebug pop (VT_ARRAY + t) (le_value bs) q position) (\<lambda>(v, t, q). Inr (v, 4 + t, q)))"
  using vt_numbers(6-9) [of t] by (simp add: Pop_VARIANT_body_def)

lemma pop_array_plain:
  "reader_mode w q \<Longrightarrow> \<not> (w \<and> t = VT_I1) \<Longrightarrow> pop_array C ndebug pop (VT_ARRAY + t) n q position =
     (if t = VT_VARIANT
      then bindr (SafeArrayCreate 24 n) (\<lambda>blk.
           bindr (pop_variants pop (length blk) 0 n q) (\<lambda>(vs, total, q). Inr (Variant_array vs, total, q)))
      else if t = VT_BSTR
      then bindr (SafeArrayCreate 8 n) (\<lambda>blk.
           bindr (pop_bstrs ndebug position (length blk) 0 n q) (\<lambda>(ss, total, q). Inr (Bstr_array ss, total, q)))
      else case elem_width t of
             None \<Rightarrow> Inl MB_BAD_DESERIALIZATION
           | Some k \<Rightarrow> pop_fixed t k n q position)"
  by (auto simp: pop_array_def reader_mode_def)

text \<open>A text of bytes that is handed out as a string.\<close>

lemma pop_array_text:
  "reads_as True (\<lambda>q. pop_array C ndebug pop (VT_ARRAY + VT_I1) (length d) q 0) (Vt_bstr (Some (of_utf8 C d))) d"
  unfolding reads_as_def
proof (intro allI impI)
  fix q rest assume q: "uq_inv q" "reader_mode True q" "content q = d @ rest"
  note front = take_front_ok [OF q(1,3)]
  from front(2) obtain k q' where "Pop_discard q (length d) 0 = Inr (k, q')" "uq_inv q'" "same_settings q q'"
    "content q' = rest" by blast
  with front(1) q(2) show "\<exists>q'. pop_array C ndebug pop (VT_ARRAY + VT_I1) (length d) q 0 =
      Inr (Vt_bstr (Some (of_utf8 C d)), length d, q') \<and> uq_inv q' \<and> same_settings q q' \<and> content q' = rest"
    by (simp add: pop_array_def reader_mode_def)
qed

lemma reads_array:
  assumes "t < 24" "n < 4294967296"
    and "reads_as w (\<lambda>q. pop_array C True pop (VT_ARRAY + t) n q 0) v cs"
  shows "reads_as w (\<lambda>q. Pop_VARIANT_body C True pop (VT_ARRAY + t) q 0) v (le_bytes 4 n @ cs)"
proof -
  have "le_value (le_bytes 4 n) = n" using assms(2) by (intro le_value_at) simp
  then have "reads_as w (\<lambda>q. pop_array C True pop (VT_ARRAY + t) (le_value (le_bytes 4 n)) q 0) v cs"
    using assms(3) by simp
  from reads_as_prefix [where get = "\<lambda>bs q. pop_array C True pop (VT_ARRAY + t) (le_value bs) q 0", OF this, of 4]
  show ?thesis using assms(1) by (simp add: body_array)
qed

lemma Pop_VARIANT_body_ok:
  assumes "variant_ok v" "\<And>vs u. v = Variant_array vs \<Longrightarrow> u \<in> set vs \<Longrightarrow> reads_as w pop (loaded C w u) (variant_wire u)"
  shows "reads_as w (\<lambda>q. Pop_VARIANT_body C True pop (variant_type v) q 0) (loaded C w v) (variant_data v)"
proof (cases v)
  case (Scalar vt bs)
  then have w: "scalar_width vt = Some (length bs)" using assms(1) by simp
  show ?thesis
  proof (cases "bs = []")
    case True
    with Scalar w show ?thesis by (auto simp: Pop_VARIANT_body_def reads_as_def)
  next
    case False
    with Scalar w reads_pop_at [of bs "length bs" w "Scalar vt"] show ?thesis by (simp add: Pop_VARIANT_body_def)
  qed
next
  case (Vt_bstr s)
  with assms(1) have "reads_as w (\<lambda>q. pop_bstr True q 0) s (bstr_wire s)" by (simp add: pop_bstr_ok)
  from reads_as_map [OF this, of Vt_bstr] Vt_bstr show ?thesis
    by (auto elim!: reads_as_cong simp: Pop_VARIANT_body_def vt_numbers reader_mode_def)
next
  case (Fixed_array t n d)
  then obtain k where k: "elem_width t = Some k" "length d = n * k" "block_ok (n * k)"
    using assms(1) by (auto split: option.splits)
  have t: "t < 24" "t \<noteq> VT_VARIANT" "t \<noteq> VT_BSTR" using vt_numbers(2) [OF k(1)] k(1) vt_numbers(3,4) by auto
  have "n \<le> n * k" using elem_width_bound [OF k(1)] by (cases k) auto
  then have n: "n < 4294967296" using k(3) unfolding block_ok_def by linarith
  have "reads_as w (\<lambda>q. pop_array C True pop (VT_ARRAY + t) n q 0) (loaded C w v) d"
  proof (cases "w \<and> t = VT_I1")
    case True
    then have "n = length d" using k(1,2) by (simp add: elem_width_def)
    with True pop_array_text [of C True pop d] Fixed_array show ?thesis by simp
  next
    case False
    then have "loaded C w v = Fixed_array t n d" using Fixed_array by auto
    moreover have "reads_as w (\<lambda>q. pop_array C True pop (VT_ARRAY + t) n q 0) (Fixed_array t n d) d"
      using False by (intro reads_as_cong [OF pop_fixed_ok [OF k(2,3)]]) (simp add: pop_array_plain t k(1))
    ultimately show ?thesis by simp
  qed
  from reads_array [OF t(1) n this] Fixed_array show ?thesis by simp
next
  case (Bstr_array ss)
  then have ss: "list_all bstr_ok ss" "block_ok (8 * length ss)" using assms(1) by simp_all
  obtain blk where blk: "SafeArrayCreate 8 (length ss) = Inr blk" "length blk = 8 * length ss + 1"
    using SafeArrayCreate_ok [OF ss(2)] by blast
  have "reads_as w (pop_bstrs True 0 (length blk) 0 (length ss)) ss (concat (map bstr_wire ss))"
    using ss(1) blk(2) by (intro pop_bstrs_ok) simp_all
  from reads_as_map [OF this, of Bstr_array]
  have "reads_as w (\<lambda>q. pop_array C True pop (VT_ARRAY + VT_BSTR) (length ss) q 0) (loaded C w v) (concat (map bstr_wire ss))"
    unfolding Bstr_array loaded.simps
    by (elim reads_as_cong) (subst pop_array_plain, assumption, simp_all add: blk(1), simp_all add: vt_defs)
  from reads_array [OF vt_numbers(10) _ this] ss(2) Bstr_array show ?thesis by (simp add: block_ok_def)
next
  case (Variant_array vs)
  then have vs: "block_ok (24 * length vs)" using assms(1) by simp
  obtain blk where blk: "SafeArrayCreate 24 (length vs) = Inr blk" "length blk = 24 * length vs + 1"
    using SafeArrayCreate_ok [OF vs] by blast
  have "reads_as w (pop_variants pop (length blk) 0 (length vs)) (map (loaded C w) vs) (concat (map variant_wire vs))"
    using assms(2) [OF Variant_array] blk(2) by (intro pop_variants_ok) auto
  from reads_as_map [OF this, of Variant_array]
  have "reads_as w (\<lambda>q. pop_array C True pop (VT_ARRAY + VT_VARIANT) (length vs) q 0) (loaded C w v) (concat (map variant_wire vs))"
    unfolding Variant_array loaded.simps
    by (elim reads_as_cong) (subst pop_array_plain, assumption, simp_all add: blk(1), simp_all add: vt_defs)
  from reads_array [OF vt_numbers(11) _ this] vs Variant_array show ?thesis
    by (simp add: block_ok_def variant_wire_def [abs_def])
qed

lemma variant_type_bound: "variant_ok v \<Longrightarrow> variant_type v < 65536"
  using vt_numbers(1,2) by (cases v) (fastforce simp: vt_defs split: option.splits)+

lemma length_variant_wire_elem:
  "u \<in> set vs \<Longrightarrow> length (variant_wire u) + 6 \<le> length (variant_wire (Variant_array vs))"
proof -
  assume "u \<in> set vs"
  then have "length (variant_wire u) \<le> length (concat (map variant_wire vs))"
    by (induction vs) auto
  then show ?thesis by (simp add: variant_wire_def [abs_def])
qed

lemma Pop_VARIANT_ok:
  "variant_ok v \<Longrightarrow> length (variant_wire v) < fuel \<Longrightarrow>
   reads_as w (\<lambda>q. Pop_VARIANT C True fuel q 0) (loaded C w v) (variant_wire v)"
proof (induction "length (variant_wire v)" arbitrary: v fuel rule: less_induct)
  case less
  note ok = less.prems
  from ok(2) obtain f where f: "fuel = Suc f" by (cases fuel) auto
  let ?pop = "\<lambda>q. Pop_VARIANT C True f q 0" and ?t = "le_bytes 2 (variant_type v)"
  have "le_value ?t = variant_type v" using variant_type_bound [OF ok(1)] by (intro le_value_at) simp
  moreover have "reads_as w (\<lambda>q. Pop_VARIANT_body C True ?pop (variant_type v) q 0) (loaded C w v) (variant_data v)"
  proof (rule Pop_VARIANT_body_ok [OF ok(1)])
    fix vs u assume u: "v = Variant_array vs" "u \<in> set vs"
    then have "length (variant_wire u) < length (variant_wire v)" "length (variant_wire u) < f"
      using ok(2) f length_variant_wire_elem [OF u(2)] by simp_all
    moreover have "variant_ok u" using ok(1) u by (simp add: list_all_iff)
    ultimately show "reads_as w ?pop (loaded C w u) (variant_wire u)" using less.hyps by blast
  qed
  ultimately have "reads_as w (\<lambda>q. Pop_VARIANT_body C True ?pop (le_value ?t) q 0) (loaded C w v) (variant_data v)" by simp
  from reads_as_prefix [where get = "\<lambda>bs q. Pop_VARIANT_body C True ?pop (le_value bs) q 0", OF this, of 2]
  show ?case by (simp add: f Pop_VARIANT_step_def variant_wire_def)
qed

section \<open>Any bytes\<close>

definition sane :: "uqueue \<Rightarrow> fault + ('v \<times> nat \<times> uqueue) \<Rightarrow> bool" where
  "sane q r \<longleftrightarrow>
     (case r of
        Inl e \<Rightarrow> e \<noteq> Out_Of_Fuel
      | Inr (_, _, q') \<Rightarrow> uq_inv q' \<and> same_settings q q' \<and> (\<exists>used. content q = used @ content q'))"

lemma sane_simps [simp]:
  "sane q (Inl e) \<longleftrightarrow> e \<noteq> Out_Of_Fuel"
  "uq_inv q \<Longrightarrow> sane q (Inr (v, t, q))"
  by (simp_all add: sane_def)

lemma sane_trans:
  assumes "same_settings q q1" "content q = used @ content q1" "sane q1 r"
  shows "sane q r"
proof -
  { fix q' used' assume "same_settings q1 q'" "content q1 = used' @ content q'"
    then have "same_settings q q' \<and> content q = (used @ used') @ content q'"
      using assms same_settings_trans by auto
    then have "same_settings q q' \<and> (\<exists>used. content q = used @ content q')" by blast }
  with assms(3) show ?thesis by (auto simp: sane_def split: sum.splits)
qed

lemma sane_bindr:
  assumes "uq_inv q" "sane q r" "\<And>v t q'. uq_inv q' \<Longrightarrow> m_nSize q' \<le> m_nSize q \<Longrightarrow> sane q' (f v t q')"
  shows "sane q (bindr r (\<lambda>(v, t, q). f v t q))"
proof (cases r)
  case (Inl e)
  with assms(2) show ?thesis by simp
next
  case (Inr x)
  then obtain v t q' used where x: "x = (v, t, q')" "uq_inv q'" "same_settings q q'" "content q = used @ content q'"
    using assms(2) by (cases x) (auto simp: sane_def)
  then have "m_nSize q' \<le> m_nSize q" using uq_invD(1) [OF assms(1)] uq_invD(1) [OF x(2)] by simp
  with x Inr show ?thesis using sane_trans [OF x(3,4) assms(3) [OF x(2)]] by simp
qed

lemma sane_pop_at:
  assumes "uq_inv q" "n \<le> max32"
    and "\<And>bs q'. uq_inv q' \<Longrightarrow> m_nSize q' + n = m_nSize q \<Longrightarrow> length bs = n \<Longrightarrow> sane q' (f bs q')"
  shows "sane q (bindr (pop_at q n 0) (\<lambda>(bs, q). f bs q))"
  using pop_bytes_cases [OF assms(1,2)]
proof (elim disjE exE conjE)
  fix bs q' assume c: "pop_bytes q n = Inr (bs, q')" "length bs = n" "uq_inv q'" "same_settings q q'"
    "content q = bs @ content q'"
  then have "m_nSize q' + n = m_nSize q" using uq_invD(1) [OF assms(1)] uq_invD(1) [OF c(3)] by simp
  from sane_trans [OF c(4,5) assms(3) [OF c(3) this c(2)]] c(1) show ?thesis by (simp add: pop_at_0)
qed (simp add: pop_at_0)

lemma no_fuel_simps:
  "mem_read m i n \<noteq> Inl Out_Of_Fuel" "cells cs \<noteq> Inl Out_Of_Fuel" "require b \<noteq> Inl Out_Of_Fuel"
  "mem_write m i xs \<noteq> Inl Out_Of_Fuel" "SafeArrayCreate k n \<noteq> Inl Out_Of_Fuel"
  by (auto simp: mem_read_def require_def mem_write_def SafeArrayCreate_def Let_def cells_def)

lemma sane_bind0: "r \<noteq> Inl Out_Of_Fuel \<Longrightarrow> (\<And>x. sane q (f x)) \<Longrightarrow> sane q (bindr r f)"
  by (cases r) auto

lemma sane_discard:
  assumes "uq_inv q" "\<And>k q'. uq_inv q' \<Longrightarrow> sane q' (f k q')"
  shows "sane q (bindr (Pop_discard q n 0) (\<lambda>(k, q). f k q))"
proof -
  let ?n = "min n (m_nSize q)"
  obtain k q' where q': "Pop_discard q n 0 = Inr (k, q')" "uq_inv q'" "same_settings q q'"
    "content q' = drop n (content q)"
    using Pop_discard_ok [OF assms(1), of n 0] by auto
  then have "content q = take n (content q) @ content q'" by simp
  from sane_trans [OF q'(3) this assms(2) [OF q'(2)]] q'(1) show ?thesis by simp
qed

lemma GetLen16_no_fuel: "GetLen16 m off \<noteq> Inl Out_Of_Fuel"
proof (induction m off rule: GetLen16.induct)
  case (1 m off)
  show ?case
  proof
    assume "GetLen16 m off = Inl Out_Of_Fuel"
    then show False
      by (subst (asm) GetLen16.simps)
        (use 1 in \<open>auto simp: bindr_Inl_iff no_fuel_simps split: if_splits\<close>)
  qed
qed

lemma SysAllocStringLen_no_fuel: "SysAllocStringLen ndebug m off n \<noteq> Inl Out_Of_Fuel"
  by (auto simp: SysAllocStringLen_def bindr_Inl_iff no_fuel_simps GetLen16_no_fuel split: if_splits)

lemma sane_pop_bstr: "uq_inv q \<Longrightarrow> sane q (pop_bstr ndebug q 0)"
  unfolding pop_bstr_def Let_def
  by (rule sane_pop_at) (auto simp: max32_def intro!: sane_bind0 sane_discard SysAllocStringLen_no_fuel)

lemma sane_pop_bstr_utf8: "uq_inv q \<Longrightarrow> sane q (pop_bstr_utf8 C q 0)"
  unfolding pop_bstr_utf8_def Let_def
  by (rule sane_pop_at) (auto simp: max32_def no_fuel_simps intro!: sane_bind0 sane_discard)

lemma sane_pop_bstrs: "uq_inv q \<Longrightarrow> sane q (pop_bstrs ndebug 0 blk i n q)"
proof (induction n arbitrary: i q)
  case (Suc n)
  show ?case
    unfolding pop_bstrs.simps
    by (rule sane_bindr [OF Suc.prems sane_pop_bstr [OF Suc.prems]]) (auto intro!: sane_bindr [OF _ Suc.IH])
qed simp

lemma sane_pop_variants:
  assumes "\<And>q. uq_inv q \<Longrightarrow> m_nSize q \<le> m \<Longrightarrow> sane q (pop q)"
  shows "uq_inv q \<Longrightarrow> m_nSize q \<le> m \<Longrightarrow> sane q (pop_variants pop blk i n q)"
proof (induction n arbitrary: i q)
  case (Suc n)
  show ?case
  proof (cases "blk < 24 * (i + 1)")
    case False
    have "sane q (bindr (pop q) (\<lambda>(v, t, q). bindr (pop_variants pop blk (i + 1) n q)
        (\<lambda>(vs, t', q). Inr (v # vs, t + t', q))))"
    proof (rule sane_bindr [OF Suc.prems(1) assms [OF Suc.prems]])
      fix v t q' assume "uq_inv q'" "m_nSize q' \<le> m_nSize q"
      then show "sane q' (bindr (pop_variants pop blk (i + 1) n q') (\<lambda>(vs, t', q). Inr (v # vs, t + t', q)))"
        using Suc.prems(2) Suc.IH by (intro sane_bindr) auto
    qed
    with False show ?thesis by simp
  qed simp
qed simp

lemma mul32_bound: "mul32 a b \<le> max32"
proof -
  have "a * b mod 4294967296 < 4294967296" by (rule mod_less_divisor) simp
  then show ?thesis by (simp add: mul32_def max32_def)
qed

lemma sane_pop_fixed: "uq_inv q \<Longrightarrow> sane q (pop_fixed t k n q 0)"
  unfolding pop_fixed_def
  by (intro sane_bind0 sane_pop_at) (auto simp: no_fuel_simps mul32_bound)

lemma sane_pop_array:
  assumes "uq_inv q" "\<And>q'. uq_inv q' \<Longrightarrow> m_nSize q' \<le> m_nSize q \<Longrightarrow> sane q' (pop q')"
  shows "sane q (pop_array C ndebug pop vt n q 0)"
proof -
  have pv: "sane q (pop_variants pop blk 0 n q)" for blk using sane_pop_variants [of "m_nSize q"] assms by blast
  have "sane q (bindr (SafeArrayCreate 24 n) (\<lambda>blk.
      bindr (pop_variants pop (length blk) 0 n q) (\<lambda>(vs, total, q). Inr (Variant_array vs, total, q))))"
    by (rule sane_bind0 [OF no_fuel_simps(5)], rule sane_bindr [OF assms(1) pv]) simp
  moreover have "sane q (bindr (SafeArrayCreate 8 n) (\<lambda>blk.
      bindr (pop_bstrs ndebug 0 (length blk) 0 n q) (\<lambda>(ss, total, q). Inr (Bstr_array ss, total, q))))"
    by (rule sane_bind0 [OF no_fuel_simps(5)], rule sane_bindr [OF assms(1) sane_pop_bstrs [OF assms(1)]]) simp
  moreover have "sane q (bindr (mem_read (m_pBuffer q) (GetBuffer q 0) n) (\<lambda>cs. bindr (cells cs) (\<lambda>utf8.
      bindr (Pop_discard q n 0) (\<lambda>(_, q). Inr (Vt_bstr (Some (of_utf8 C utf8)), n, q)))))"
    by (rule sane_bind0 [OF no_fuel_simps(1)], rule sane_bind0 [OF no_fuel_simps(2)], rule sane_discard [OF assms(1)]) simp
  ultimately show ?thesis
    using assms(1) unfolding pop_array_def Let_def by (auto simp: sane_pop_fixed split: option.split)
qed

lemma sane_body:
  assumes "uq_inv q" "\<And>q'. uq_inv q' \<Longrightarrow> m_nSize q' \<le> m_nSize q \<Longrightarrow> sane q' (pop q')"
  shows "sane q (Pop_VARIANT_body C ndebug pop vt q 0)"
proof -
  have w: "w \<le> max32" if "scalar_width vt = Some w" for w
    using that by (auto simp: scalar_width_def max32_def split: if_splits)
  have "sane q (bindr (pop_at q 4 0) (\<lambda>(bs, q).
      bindr (pop_array C ndebug pop vt (le_value bs) q 0) (\<lambda>(v, t, q). Inr (v, 4 + t, q))))"
  proof (rule sane_pop_at [OF assms(1)])
    fix bs q' assume q': "uq_inv q'" "m_nSize q' + 4 = m_nSize q"
    have "sane q' (pop_array C ndebug pop vt (le_value bs) q' 0)"
      using assms(2) q' by (intro sane_pop_array) auto
    with q'(1) show "sane q' (bindr (pop_array C ndebug pop vt (le_value bs) q' 0) (\<lambda>(v, t, q). Inr (v, 4 + t, q)))"
      by (rule sane_bindr) simp
  qed (simp add: max32_def)
  moreover have "sane q (bindr (SafeArrayCreate 1 16) (\<lambda>_. bindr (pop_at q 16 0) (\<lambda>(bs, q).
      Inr (Fixed_array VT_UI1 16 bs, 16, q))))"
    using assms(1) by (intro sane_bind0 sane_pop_at) (auto simp: no_fuel_simps max32_def)
  moreover have "sane q (bindr (pop_bstr ndebug q 0) (\<lambda>(s, t, q). Inr (Vt_bstr s, t, q)))"
    by (rule sane_bindr [OF assms(1) sane_pop_bstr [OF assms(1)]]) simp
  ultimately show ?thesis
    using assms(1) w
    by (auto simp: Pop_VARIANT_body_def sane_pop_bstr_utf8 split: option.split intro!: sane_pop_at)
qed

lemma Pop_VARIANT_sane: "uq_inv q \<Longrightarrow> m_nSize q < fuel \<Longrightarrow> sane q (Pop_VARIANT C ndebug fuel q 0)"
proof (induction fuel arbitrary: q)
  case (Suc f)
  let ?pop = "\<lambda>q. Pop_VARIANT C ndebug f q 0"
  show ?case
    unfolding Pop_VARIANT.simps Pop_VARIANT_step_def
  proof (rule sane_pop_at [OF Suc.prems(1)])
    fix bs q' assume q': "uq_inv q'" "m_nSize q' + 2 = m_nSize q"
    have "sane q' (Pop_VARIANT_body C ndebug ?pop (le_value bs) q' 0)"
      using Suc.IH Suc.prems(2) q' by (intro sane_body) auto
    with q'(1) show "sane q' (bindr (Pop_VARIANT_body C ndebug ?pop (le_value bs) q' 0) (\<lambda>(v, t, q). Inr (v, 2 + t, q)))"
      by (rule sane_bindr) simp
  qed (simp add: max32_def)
qed simp

section \<open>Memory safety on any bytes\<close>

text \<open>
  The arrays that make the reader leave a block: the tag of an array and a count with which the size of
  the data block, 24 bytes for each element at most, does not fit into 32 bits; and in the mode \<open>m_8ToW\<close>,
  in which arrays of characters are read as texts, such an array with more characters than are left in the buffer.
\<close>

definition huge_count :: "nat \<Rightarrow> bool" where
  "huge_count n \<longleftrightarrow> 4294967296 \<le> 24 * n + 33"

definition bad_array :: "bool \<Rightarrow> nat \<Rightarrow> nat \<Rightarrow> nat \<Rightarrow> bool" where
  "bad_array w vt n left \<longleftrightarrow> odd (vt div VT_ARRAY) \<and> (huge_count n \<or> w \<and> vt = VT_ARRAY + VT_I1 \<and> left < n)"

definition bad_array_at :: "bool \<Rightarrow> byte list \<Rightarrow> nat \<Rightarrow> bool" where
  "bad_array_at w bs i \<longleftrightarrow> i + 6 \<le> length bs \<and>
     bad_array w (le_value (take 2 (drop i bs))) (le_value (take 4 (drop (i + 2) bs))) (length bs - (i + 6))"

definition bad_arrays :: "bool \<Rightarrow> byte list \<Rightarrow> bool" where
  "bad_arrays w bs \<longleftrightarrow> list_ex (bad_array_at w bs) [0 ..< length bs]"

lemma bad_arrays_suffix: "bad_arrays w bs \<Longrightarrow> bad_arrays w (pre @ bs)"
proof -
  assume "bad_arrays w bs"
  then obtain i where "i < length bs" "bad_array_at w bs i" by (auto simp: bad_arrays_def list_ex_iff)
  then have "length pre + i < length (pre @ bs)" "bad_array_at w (pre @ bs) (length pre + i)"
    by (simp_all add: bad_array_at_def)
  then show ?thesis unfolding bad_arrays_def list_ex_iff by (intro bexI [of _ "length pre + i"]) simp_all
qed

lemma bad_arrays_start:
  assumes "length t = 2" "length cnt = 4" "bad_array w (le_value t) (le_value cnt) (length rest)"
  shows "bad_arrays w (t @ cnt @ rest)"
proof -
  have "bad_array_at w (t @ cnt @ rest) 0" using assms by (simp add: bad_array_at_def)
  then show ?thesis using assms(1) unfolding bad_arrays_def list_ex_iff by (intro bexI [of _ 0]) simp_all
qed

text \<open>
  A buffer that is read; \<open>B\<close> says whether leaving a block is admitted. Texts of 16-bit units become at most
  three bytes of UTF-8 for each unit.
\<close>

definition ready :: "text_conv \<Rightarrow> bool \<Rightarrow> uqueue \<Rightarrow> bool" where
  "ready C B q \<longleftrightarrow> uq_inv q \<and> (bad_arrays (m_8ToW q) (content q) \<longrightarrow> B) \<and>
     (m_ToUtf8 q \<longrightarrow> m_nSize q \<le> 2147483648 \<and> (\<forall>u. length (to_utf8 C u) \<le> 3 * length u))"

definition read_fault :: "bool \<Rightarrow> uqueue \<Rightarrow> fault \<Rightarrow> bool" where
  "read_fault B q e \<longleftrightarrow> e = MB_BAD_DESERIALIZATION \<or> e = Assertion \<and> m_ToUtf8 q \<or> e \<in> {Out_Of_Bounds, Uninitialised_Read} \<and> B"

definition safe :: "bool \<Rightarrow> nat \<Rightarrow> uqueue \<Rightarrow> fault + ('v \<times> nat \<times> uqueue) \<Rightarrow> bool" where
  "safe B k q r \<longleftrightarrow>
     (case r of
        Inl e \<Rightarrow> read_fault B q e
      | Inr (_, t, q') \<Rightarrow> uq_inv q' \<and> same_settings q q' \<and>
          (\<exists>used. content q = used @ content q' \<and> k + length used \<le> t \<and> (m_8ToW q \<or> t = k + length used)))"

lemma safe_simps [simp]:
  "safe B k q (Inl e) \<longleftrightarrow> read_fault B q e"
  "uq_inv q \<Longrightarrow> safe B k q (Inr (v, k, q))"
  "read_fault B q MB_BAD_DESERIALIZATION" "read_fault True q Out_Of_Bounds" "read_fault True q Uninitialised_Read"
  by (simp_all add: safe_def read_fault_def)

lemma ready_inv: "ready C B q \<Longrightarrow> uq_inv q"
  by (simp add: ready_def)

lemma ready_after:
  assumes "ready C B q" "uq_inv q'" "same_settings q q'" "content q = used @ content q'"
  shows "ready C B q'" "m_nSize q' + length used = m_nSize q" "m_8ToW q' = m_8ToW q" "m_ToUtf8 q' = m_ToUtf8 q"
proof -
  show s: "m_nSize q' + length used = m_nSize q"
    using uq_invD(1) [OF ready_inv [OF assms(1)]] uq_invD(1) [OF assms(2)] assms(4) by simp
  show m: "m_8ToW q' = m_8ToW q" "m_ToUtf8 q' = m_ToUtf8 q" using assms(3) by (simp_all add: same_settings_def)
  show "ready C B q'" using assms(1,2,4) s m bad_arrays_suffix [of _ "content q'" used] by (auto simp: ready_def)
qed

lemma safe_trans:
  assumes "same_settings q q1" "content q = used @ content q1" "safe B (k + n) q1 r"
    and "length used \<le> n" "m_8ToW q \<or> n = length used"
  shows "safe B k q r"
proof (cases r)
  case (Inl e)
  with assms(1,3) show ?thesis by (simp add: read_fault_def same_settings_def)
next
  case (Inr x)
  then obtain v t q' used' where x: "r = Inr (v, t, q')" "uq_inv q'" "same_settings q1 q'" "content q1 = used' @ content q'"
    "k + n + length used' \<le> t" "m_8ToW q1 \<or> t = k + n + length used'"
    using assms(3) by (cases x) (auto simp: safe_def)
  have "content q = (used @ used') @ content q'" "k + length (used @ used') \<le> t" "m_8ToW q \<or> t = k + length (used @ used')"
    using assms(1,2,4,5) x(4-6) by (auto simp: same_settings_def)
  then show ?thesis unfolding safe_def x(1) using x(2) same_settings_trans [OF assms(1) x(3)] by auto
qed

lemma safe_bindr:
  assumes "ready C B q" "safe B 0 q r"
    and "\<And>v t q'. ready C B q' \<Longrightarrow> m_nSize q' \<le> m_nSize q \<Longrightarrow> safe B (k + t) q' (f v t q')"
  shows "safe B k q (bindr r (\<lambda>(v, t, q). f v t q))"
proof (cases r)
  case (Inl e)
  with assms(2) show ?thesis by simp
next
  case (Inr x)
  then obtain v t q' used where x: "x = (v, t, q')" "uq_inv q'" "same_settings q q'" "content q = used @ content q'"
    "length used \<le> t" "m_8ToW q \<or> t = length used"
    using assms(2) by (cases x) (auto simp: safe_def)
  note a = ready_after [OF assms(1) x(2-4)]
  have "safe B (k + t) q' (f v t q')" using a(1,2) by (intro assms(3)) simp_all
  from safe_trans [OF x(3,4) this x(5,6)] x(1) Inr show ?thesis by simp
qed

lemma safe_pop_at:
  assumes "ready C B q" "n \<le> max32"
    and "\<And>bs q'. ready C B q' \<Longrightarrow> m_nSize q' + n = m_nSize q \<Longrightarrow> m_8ToW q' = m_8ToW q \<Longrightarrow> m_ToUtf8 q' = m_ToUtf8 q \<Longrightarrow>
      length bs = n \<Longrightarrow> content q = bs @ content q' \<Longrightarrow> safe B (k + n) q' (f bs q')"
  shows "safe B k q (bindr (pop_at q n 0) (\<lambda>(bs, q). f bs q))"
  using pop_bytes_cases [OF ready_inv [OF assms(1)] assms(2)]
proof (elim disjE exE conjE)
  fix bs q' assume c: "pop_bytes q n = Inr (bs, q')" "length bs = n" "uq_inv q'" "same_settings q q'"
    "content q = bs @ content q'"
  note a = ready_after [OF assms(1) c(3-5)]
  have "safe B (k + n) q' (f bs q')" using a c(2,5) by (intro assms(3)) simp_all
  from safe_trans [OF c(4,5) this] c(1,2) show ?thesis by (simp add: pop_at_0)
qed (simp add: pop_at_0)

text \<open>Bytes that are read at the front and then discarded.\<close>

lemma safe_discard:
  assumes "ready C B q" "n \<le> m_nSize q \<or> m_8ToW q"
    and "\<And>x q'. uq_inv q' \<Longrightarrow> safe B (k + n) q' (f x q')"
  shows "safe B k q (bindr (Pop_discard q n 0) (\<lambda>(x, q). f x q))"
proof -
  let ?n = "min n (m_nSize q)"
  note inv = ready_inv [OF assms(1)]
  obtain x q' where q': "Pop_discard q n 0 = Inr (x, q')" "uq_inv q'" "same_settings q q'"
    "content q' = drop n (content q)"
    using Pop_discard_ok [OF inv, of n 0] by auto
  then have "content q = take n (content q) @ content q'" by simp
  moreover have "length (take n (content q)) \<le> n" "m_8ToW q \<or> n = length (take n (content q))"
    using uq_invD(1) [OF inv] assms(2) by auto
  ultimately show ?thesis using safe_trans [OF q'(3) _ assms(3) [OF q'(2)]] q'(1) by simp
qed

lemma front_bytes:
  assumes "uq_inv q" "n \<le> m_nSize q"
  shows "\<exists>bs. mem_read (m_pBuffer q) (GetBuffer q 0) n = Inr (map Some bs) \<and> length bs = n"
proof -
  obtain bs where "content q = bs @ drop n (content q)" "length bs = n" using split_content [OF assms] .
  with take_front_ok(1) [OF assms(1)] show ?thesis by metis
qed

lemma safe_pop_bstr:
  assumes "ready C B q"
  shows "safe B 0 q (pop_bstr True q 0)"
  unfolding pop_bstr_def Let_def
proof (rule safe_pop_at [OF assms])
  fix bs :: "byte list" and q' assume q': "ready C B q'" "m_nSize q' + 4 = m_nSize q" "length bs = 4"
  note inv = ready_inv [OF q'(1)]
  let ?len = "le_value bs"
  show "safe B (0 + 4) q' (if ?len = 4294967295 then Inr (None, m_nSize q - m_nSize q', q')
      else if m_nSize q' < add32 ?len 0 then Inl MB_BAD_DESERIALIZATION
      else bindr (SysAllocStringLen True (m_pBuffer q') (GetBuffer q' 0) (?len div 2)) (\<lambda>s.
           bindr (Pop_discard q' ?len 0) (\<lambda>(_, q''). Inr (Some s, m_nSize q - m_nSize q'', q''))))"
  proof (cases "?len = 4294967295 \<or> m_nSize q' < add32 ?len 0")
    case True
    have "m_nSize q - m_nSize q' = 0 + 4" using q'(2) by simp
    then show ?thesis using True inv safe_simps(2) [OF inv, of B 4] by auto
  next
    case False
    have "?len < 4294967296" using le_value_bound [of bs] q'(3) by simp
    then have l: "?len \<le> m_nSize q'" using False by (simp add: add32_def)
    then have "2 * (?len div 2) \<le> m_nSize q'" by linarith
    from front_bytes [OF inv this] obtain s where "SysAllocStringLen True (m_pBuffer q') (GetBuffer q' 0) (?len div 2) = Inr s"
      by (auto simp: SysAllocStringLen_def)
    moreover obtain x q2 where q2: "Pop_discard q' ?len 0 = Inr (x, q2)" "uq_inv q2" "same_settings q' q2"
      "content q2 = drop ?len (content q')"
      using Pop_discard_ok [OF inv, of ?len 0] by auto
    moreover have u: "content q' = take ?len (content q') @ content q2" using q2(4) by simp
    moreover have "m_nSize q2 + ?len = m_nSize q'"
      using ready_after(2) [OF q'(1) q2(2,3) u] l uq_invD(1) [OF inv] by simp
    then have t: "m_nSize q - m_nSize q2 = 0 + 4 + ?len" using q'(2) by linarith
    have "safe B (0 + 4 + ?len) q2 (Inr (Some s, m_nSize q - m_nSize q2, q2))"
      unfolding t by (rule safe_simps(2) [OF q2(2)])
    ultimately show ?thesis
      using False l uq_invD(1) [OF inv] safe_trans [OF q2(3) u, of B "0 + 4" ?len] by simp
  qed
qed (simp add: max32_def)

text \<open>A new data block is large enough unless the count is huge.\<close>

lemma safe_create:
  assumes "huge_count n \<longrightarrow> B" "w \<le> 24" "\<And>blk. length blk < w * n + 1 \<longrightarrow> B \<Longrightarrow> safe B k q (f blk)"
  shows "safe B k q (bindr (SafeArrayCreate w n) f)"
proof (cases B)
  case True
  then show ?thesis using assms(3) by (auto simp: SafeArrayCreate_def Let_def)
next
  case False
  then have "24 * n + 33 < 4294967296" using assms(1) by (simp add: huge_count_def)
  moreover have "w * n \<le> 24 * n" using assms(2) by simp
  ultimately have l: "w * n + 33 < 4294967296" by linarith
  then have "SafeArrayCreate w n = Inr (replicate (w * n + 1) (Some 0))" by (simp add: SafeArrayCreate_def mul32_def)
  then show ?thesis using assms(3) by simp
qed

lemma safe_write:
  assumes "length xs \<le> length m \<or> B" "\<And>m. safe B k q (f m)"
  shows "safe B k q (bindr (mem_write m 0 xs) f)"
  using assms by (auto simp: mem_write_def)

lemma safe_pop_bstr_utf8:
  assumes "ready C B q" "m_ToUtf8 q"
  shows "safe B 0 q (pop_bstr_utf8 C q 0)"
  unfolding pop_bstr_utf8_def Let_def
proof (rule safe_pop_at [OF assms(1)])
  fix bs :: "byte list" and q' assume q': "ready C B q'" "m_nSize q' + 4 = m_nSize q" "m_ToUtf8 q' = m_ToUtf8 q" "length bs = 4"
  note inv = ready_inv [OF q'(1)]
  let ?len = "le_value bs"
  have utf8: "m_nSize q' \<le> 2147483648" "\<And>u. length (to_utf8 C u) \<le> 3 * length u"
    using q'(1,3) assms(2) by (simp_all add: ready_def)
  let ?rest = "bindr (mem_read (m_pBuffer q') (GetBuffer q' 0) ?len) (\<lambda>cs. bindr (cells cs) (\<lambda>bs.
               bindr (Pop_discard q' ?len 0) (\<lambda>(_, q).
               bindr (SafeArrayCreate 1 (length (to_utf8 C (vec_elems 2 (?len div 2) bs)))) (\<lambda>blk.
               bindr (mem_write blk 0 (map Some (to_utf8 C (vec_elems 2 (?len div 2) bs)))) (\<lambda>_.
               Inr (Fixed_array VT_I1 (length (to_utf8 C (vec_elems 2 (?len div 2) bs))) (to_utf8 C (vec_elems 2 (?len div 2) bs)), 4 + ?len, q))))))"
  have rest: "safe B (0 + 4) q' ?rest" if l: "?len \<le> m_nSize q'"
  proof -
    obtain xs where xs: "mem_read (m_pBuffer q') (GetBuffer q' 0) ?len = Inr (map Some xs)" "length xs = ?len"
      using front_bytes [OF inv l] by blast
    let ?sb = "to_utf8 C (vec_elems 2 (?len div 2) xs)"
    have "length ?sb \<le> 3 * (?len div 2)" using utf8(2) [of "vec_elems 2 (?len div 2) xs"] by simp
    then have "length ?sb + 33 < 4294967296" using utf8(1) l by linarith
    then have "SafeArrayCreate 1 (length ?sb) = Inr (replicate (length ?sb + 1) (Some 0))"
      by (simp add: SafeArrayCreate_def mul32_def)
    then show ?thesis
      using xs(1) l by (auto simp: mem_write_def intro!: safe_discard [OF q'(1)])
  qed
  show "safe B (0 + 4) q' (if ?len = UQUEUE_NULL_LENGTH then Inr (Scalar VT_NULL [], 4, q')
      else bindr (require (?len mod 2 = 0)) (\<lambda>_. if m_nSize q' < add32 ?len 0 then Inl MB_BAD_DESERIALIZATION else ?rest))"
  proof (cases "?len mod 2 = 0 \<and> add32 ?len 0 \<le> m_nSize q'")
    case True
    moreover have "?len < 4294967296" using le_value_bound [of bs] q'(4) by simp
    ultimately have "safe B (0 + 4) q' ?rest" by (intro rest) (simp add: add32_def)
    with True inv show ?thesis by (simp add: require_def)
  next
    case False
    with inv q'(3) assms(2) show ?thesis by (auto simp: require_def read_fault_def)
  qed
qed (simp add: max32_def)

lemma safe_pop_bstrs:
  "ready C B q \<Longrightarrow> blk < 8 * (i + n) \<longrightarrow> B \<Longrightarrow> safe B 0 q (pop_bstrs True 0 blk i n q)"
proof (induction n arbitrary: i q)
  case (Suc n)
  show ?case
    unfolding pop_bstrs.simps
  proof (rule safe_bindr [OF Suc.prems(1) safe_pop_bstr [OF Suc.prems(1)]])
    fix s t q' assume q': "ready C B q'"
    have "safe B (0 + t) q' (bindr (pop_bstrs True 0 blk (i + 1) n q') (\<lambda>(ss, t', q). Inr (s # ss, t + t', q)))"
      using Suc.prems(2) by (intro safe_bindr [OF q' Suc.IH [OF q']]) (auto dest: ready_inv)
    moreover have "B" if "blk < 8 * (i + 1)" using Suc.prems(2) that by simp
    ultimately show "safe B (0 + t) q' (if blk < 8 * (i + 1) then Inl Out_Of_Bounds
        else bindr (pop_bstrs True 0 blk (i + 1) n q') (\<lambda>(ss, t', q). Inr (s # ss, t + t', q)))" by auto
  qed
qed (simp add: ready_inv)

lemma safe_pop_variants:
  assumes "\<And>q. ready C B q \<Longrightarrow> m_nSize q \<le> m \<Longrightarrow> safe B 0 q (pop q)"
  shows "ready C B q \<Longrightarrow> m_nSize q \<le> m \<Longrightarrow> blk < 24 * (i + n) \<longrightarrow> B \<Longrightarrow> safe B 0 q (pop_variants pop blk i n q)"
proof (induction n arbitrary: i q)
  case (Suc n)
  have "safe B 0 q (bindr (pop q) (\<lambda>(v, t, q). bindr (pop_variants pop blk (i + 1) n q)
        (\<lambda>(vs, t', q). Inr (v # vs, t + t', q))))"
  proof (rule safe_bindr [OF Suc.prems(1) assms [OF Suc.prems(1,2)]])
    fix v t q' assume q': "ready C B q'" "m_nSize q' \<le> m_nSize q"
    then have "m_nSize q' \<le> m" using Suc.prems(2) by simp
    then show "safe B (0 + t) q' (bindr (pop_variants pop blk (i + 1) n q') (\<lambda>(vs, t', q). Inr (v # vs, t + t', q)))"
      using Suc.prems(3) by (intro safe_bindr [OF q'(1) Suc.IH [OF q'(1)]]) (auto dest: ready_inv)
  qed
  moreover have "B" if "blk < 24 * (i + 1)" using Suc.prems(3) that by simp
  ultimately show ?case by auto
qed (simp add: ready_inv)

lemma safe_pop_fixed:
  assumes "ready C B q" "huge_count n \<longrightarrow> B" "w \<le> 24"
  shows "safe B 0 q (pop_fixed t w n q 0)"
  unfolding pop_fixed_def
proof (rule safe_create [OF assms(2,3)])
  fix blk :: "byte mem" assume blk: "length blk < w * n + 1 \<longrightarrow> B"
  show "safe B 0 q (bindr (pop_at q (mul32 n w) 0) (\<lambda>(bs, q).
      bindr (mem_write blk 0 (map Some bs)) (\<lambda>_. Inr (Fixed_array t n bs, length bs, q))))"
  proof (rule safe_pop_at [OF assms(1) mul32_bound])
    fix bs :: "byte list" and q' assume q': "ready C B q'" "length bs = mul32 n w"
    have "mul32 n w \<le> w * n" by (simp add: mul32_def mult.commute)
    then have "length (map Some bs) \<le> length blk \<or> B" using blk q'(2) by auto
    then show "safe B (0 + mul32 n w) q' (bindr (mem_write blk 0 (map Some bs)) (\<lambda>_. Inr (Fixed_array t n bs, length bs, q')))"
      using q' by (intro safe_write) (simp_all add: ready_inv)
  qed
qed

lemma elem_width_small: "elem_width t = Some w \<Longrightarrow> w \<le> 24"
  by (auto simp: elem_width_def split: if_splits)

lemma safe_text_array:
  assumes "ready C B q" "m_8ToW q" "m_nSize q < n \<longrightarrow> B"
  shows "safe B 0 q (bindr (mem_read (m_pBuffer q) (GetBuffer q 0) n) (\<lambda>cs. bindr (cells cs) (\<lambda>utf8.
      bindr (Pop_discard q n 0) (\<lambda>(_, q). Inr (Vt_bstr (Some (of_utf8 C utf8)), n, q)))))"
proof -
  have d: "safe B 0 q (bindr (Pop_discard q n 0) (\<lambda>(_, q). Inr (Vt_bstr (Some (of_utf8 C utf8)), n, q)))" for utf8
    using assms(2) by (intro safe_discard [OF assms(1)]) simp_all
  show ?thesis
  proof (cases B)
    case True
    with d show ?thesis by (auto simp: mem_read_def cells_def)
  next
    case False
    with assms(3) have "n \<le> m_nSize q" by simp
    from front_bytes [OF ready_inv [OF assms(1)] this] d show ?thesis by auto
  qed
qed

lemma safe_pop_array:
  assumes "ready C B q" "\<And>q'. ready C B q' \<Longrightarrow> m_nSize q' \<le> m_nSize q \<Longrightarrow> safe B 0 q' (pop q')"
    and "odd (vt div VT_ARRAY)" "bad_array (m_8ToW q) vt n (m_nSize q) \<longrightarrow> B"
  shows "safe B 0 q (pop_array C True pop vt n q 0)"
proof -
  have h: "huge_count n \<longrightarrow> B" using assms(3,4) by (simp add: bad_array_def)
  have v: "safe B 0 q (bindr (pop_variants pop (length blk) 0 n q) (\<lambda>(vs, total, q). Inr (Variant_array vs, total, q)))"
    if "length blk < 24 * n + 1 \<longrightarrow> B" for blk :: "byte mem"
    using safe_pop_variants [OF assms(2) assms(1), of "m_nSize q" "length blk" 0 n] that
    by (intro safe_bindr [OF assms(1)]) (auto dest: ready_inv)
  have b: "safe B 0 q (bindr (pop_bstrs True 0 (length blk) 0 n q) (\<lambda>(ss, total, q). Inr (Bstr_array ss, total, q)))"
    if "length blk < 8 * n + 1 \<longrightarrow> B" for blk :: "byte mem"
    using safe_pop_bstrs [OF assms(1), of "length blk" 0 n] that
    by (intro safe_bindr [OF assms(1)]) (auto dest: ready_inv)
  have "m_nSize q < n \<longrightarrow> B" if "vt = VT_ARRAY + VT_I1" "m_8ToW q" using that assms(3,4) by (simp add: bad_array_def)
  then show ?thesis
    unfolding pop_array_def Let_def
    by (auto intro!: safe_text_array [OF assms(1)] safe_create [OF h] v b safe_pop_fixed [OF assms(1) h]
        simp: elem_width_small split: option.split)
qed

lemma safe_body:
  assumes "ready C B q" "\<And>q'. ready C B q' \<Longrightarrow> m_nSize q' \<le> m_nSize q \<Longrightarrow> safe B 0 q' (pop q')"
    and "\<And>cnt rest. content q = cnt @ rest \<Longrightarrow> length cnt = 4 \<Longrightarrow> bad_array (m_8ToW q) vt (le_value cnt) (length rest) \<longrightarrow> B"
  shows "safe B 0 q (Pop_VARIANT_body C True pop vt q 0)"
proof -
  have w: "w \<le> max32" if "scalar_width vt = Some w" for w
    using that by (auto simp: scalar_width_def max32_def split: if_splits)
  have "safe B 0 q (bindr (pop_at q w 0) (\<lambda>(bs, q). Inr (Scalar vt bs, w, q)))" if "scalar_width vt = Some w" for w
    using w [OF that] by (intro safe_pop_at [OF assms(1)]) (auto dest: ready_inv)
  moreover have "safe B 0 q (bindr (pop_at q 4 0) (\<lambda>(bs, q).
      bindr (pop_array C True pop vt (le_value bs) q 0) (\<lambda>(v, t, q). Inr (v, 4 + t, q))))" if odd: "odd (vt div VT_ARRAY)"
  proof (rule safe_pop_at [OF assms(1)])
    fix bs q' assume q': "ready C B q'" "m_nSize q' + 4 = m_nSize q" "m_8ToW q' = m_8ToW q" "length bs = 4" "content q = bs @ content q'"
    have "bad_array (m_8ToW q') vt (le_value bs) (m_nSize q') \<longrightarrow> B"
      using assms(3) [OF q'(5,4)] q'(3) uq_invD(1) [OF ready_inv [OF q'(1)]] by simp
    then have "safe B 0 q' (pop_array C True pop vt (le_value bs) q' 0)"
      using assms(2) q'(2) by (intro safe_pop_array [OF q'(1) _ odd]) auto
    then show "safe B (0 + 4) q' (bindr (pop_array C True pop vt (le_value bs) q' 0) (\<lambda>(v, t, q). Inr (v, 4 + t, q)))"
      by (intro safe_bindr [OF q'(1)]) (auto dest: ready_inv)
  qed (simp add: max32_def)
  moreover have "safe B 0 q (bindr (SafeArrayCreate 1 16) (\<lambda>_. bindr (pop_at q 16 0) (\<lambda>(bs, q).
      Inr (Fixed_array VT_UI1 16 bs, 16, q))))"
    by (intro safe_create safe_pop_at [OF assms(1)]) (auto simp: huge_count_def max32_def dest: ready_inv)
  moreover have "safe B 0 q (bindr (pop_bstr True q 0) (\<lambda>(s, t, q). Inr (Vt_bstr s, t, q)))"
    by (rule safe_bindr [OF assms(1) safe_pop_bstr [OF assms(1)]]) (auto dest: ready_inv)
  ultimately show ?thesis
    using ready_inv [OF assms(1)]
    by (auto simp: Pop_VARIANT_body_def split: option.split intro!: safe_pop_bstr_utf8 [OF assms(1)])
qed

lemma Pop_VARIANT_safe: "ready C B q \<Longrightarrow> m_nSize q < fuel \<Longrightarrow> safe B 0 q (Pop_VARIANT C True fuel q 0)"
proof (induction fuel arbitrary: q)
  case (Suc f)
  let ?pop = "\<lambda>q. Pop_VARIANT C True f q 0"
  show ?case
    unfolding Pop_VARIANT.simps Pop_VARIANT_step_def
  proof (rule safe_pop_at [OF Suc.prems(1)])
    fix bs q' assume q': "ready C B q'" "m_nSize q' + 2 = m_nSize q" "m_8ToW q' = m_8ToW q" "length bs = 2" "content q = bs @ content q'"
    have "safe B 0 q' (Pop_VARIANT_body C True ?pop (le_value bs) q' 0)"
    proof (rule safe_body [OF q'(1)])
      fix cnt rest assume "content q' = cnt @ rest" "length cnt = 4"
      then show "bad_array (m_8ToW q') (le_value bs) (le_value cnt) (length rest) \<longrightarrow> B"
        using bad_arrays_start [OF q'(4)] Suc.prems(1) q'(3,5) by (auto simp: ready_def)
    qed (use Suc.IH Suc.prems(2) q'(2) in auto)
    then show "safe B (0 + 2) q' (bindr (Pop_VARIANT_body C True ?pop (le_value bs) q' 0) (\<lambda>(v, t, q). Inr (v, 2 + t, q)))"
      by (intro safe_bindr [OF q'(1)]) (auto dest: ready_inv)
  qed (simp add: max32_def)
qed simp

section \<open>The contract, and what breaks it\<close>

text \<open>The reader of a variant in either mode.\<close>

lemma get_VARIANT_loaded:
  assumes "uq_inv q" "reader_mode w q" "variant_ok v" "content q = variant_wire v @ rest"
  shows "\<exists>q'. get_VARIANT C True q = Inr (loaded C w v, q') \<and> uq_inv q' \<and> same_settings q q' \<and> content q' = rest"
proof -
  have "length (variant_wire v) < m_nSize q + 1" using uq_invD(1) [OF assms(1)] assms(4) by simp
  from reads_asD [OF Pop_VARIANT_ok [OF assms(3) this, where C = C] assms(1,2,4)] obtain q' where
    "Pop_VARIANT C True (m_nSize q + 1) q 0 = Inr (loaded C w v, length (variant_wire v), q')" "uq_inv q'"
    "same_settings q q'" "content q' = rest" by metis
  then show ?thesis unfolding get_VARIANT_def by simp
qed

interpretation variant: wire_format put_VARIANT "get_VARIANT C True" variant_wire variant_ok plain_mode for C
proof (unfold_locales, goal_cases)
  case (1 q v)
  then show ?case using put_VARIANT_ok by (auto simp: appended_def)
next
  case (2 q v rest)
  then show ?case using get_VARIANT_loaded [of q False v rest C] by (simp add: plain_mode_reader)
next
  case (3 q v q')
  then obtain t where "Pop_VARIANT C True (m_nSize q + 1) q 0 = Inr (v, t, q')"
    by (auto simp: get_VARIANT_def bindr_Inr_iff)
  with Pop_VARIANT_sane [OF 3(1), of "m_nSize q + 1" C True] show ?case by (simp add: sane_def)
next
  case (4 q q')
  then show ?case by (rule plain_mode_settings)
qed

text \<open>
  C22: A well-formed variant of any serialisable type - scalar, string, or an array of scalars,
  strings or again variants, nested to any depth - that is appended to an empty buffer is what
  \<^verbatim>\<open>Pop\<close> reads from it, and nothing is left over.
\<close>

theorem variant_roundtrip:
  assumes "uq_inv q" "plain_mode q" "variant_ok v" "content q = []" "room q (length (variant_wire v))"
  shows "\<exists>q' q''. put_VARIANT q v = Inr q' \<and> content q' = variant_wire v \<and>
    get_VARIANT C True q' = Inr (v, q'') \<and> uq_inv q'' \<and> content q'' = []"
proof -
  obtain q' where q': "put_VARIANT q v = Inr q'" "uq_inv q'" "same_settings q q'" "content q' = variant_wire v"
    using variant.put_ok [OF assms(1,3,5)] assms(4) by auto
  from variant.get_ok [OF q'(2) plain_mode_settings [OF q'(3) assms(2)] assms(3), of "[]"] q'(1,4)
  show ?thesis by auto
qed

definition no_conv :: text_conv where
  "no_conv = \<lparr>to_utf8 = map word_of_nat, of_utf8 = map unat\<rparr>"

definition small_queue :: uqueue where
  "small_queue = CUQueue_new 64 16 osUnix False"

lemma small_queue_ok: "uq_inv small_queue" "plain_mode small_queue" "content small_queue = []"
  "n \<le> 1000 \<Longrightarrow> room small_queue n"
  by (simp_all add: small_queue_def CUQueue_new_def uq_inv_def plain_mode_def content_def room_def mem_alloc_def max32_def)

definition sample_variant :: VARIANT where
  "sample_variant = Variant_array [Scalar VT_I4 (le_bytes 4 7), Vt_bstr (Some [104, 105]), Vt_bstr None,
     Variant_array [Fixed_array VT_I2 3 (vec_bytes 2 [1, 2, 3]), Bstr_array [Some [120], None]]]"

lemma sample_variant_ok: "variant_ok sample_variant" "length (variant_wire sample_variant) \<le> 1000"
  by (simp_all add: sample_variant_def variant_wire_def bstr_wire_def bstr_ok_def block_ok_def scalar_width_def
    elem_width_def vt_defs lwire_def UQUEUE_NULL_LENGTH_def max32_def)

theorem variant_roundtrip_witness:
  "\<exists>q' q''. put_VARIANT small_queue sample_variant = Inr q' \<and> content q' = variant_wire sample_variant \<and>
     get_VARIANT no_conv True q' = Inr (sample_variant, q'') \<and> uq_inv q'' \<and> content q'' = []"
  by (rule variant_roundtrip [OF small_queue_ok(1,2) sample_variant_ok(1) small_queue_ok(3)
      small_queue_ok(4) [OF sample_variant_ok(2)]])


text \<open>An array that claims two elements; the first is a text that claims 200 bytes, of which two are there.\<close>

definition hostile_queue :: uqueue where
  "hostile_queue = small_queue\<lparr>m_nSize := 14,
     m_pBuffer := map Some [12, 32, 2, 0, 0, 0, 8, 0, 200, 0, 0, 0, 65, 0] @ replicate 50 None\<rparr>"

lemma hostile_queue_ok: "uq_inv hostile_queue" "content hostile_queue = [12, 32, 2, 0, 0, 0, 8, 0, 200, 0, 0, 0, 65, 0]"
  "\<not> m_ToUtf8 hostile_queue" "\<not> m_8ToW hostile_queue" "m_nSize hostile_queue = 14"
  by (simp_all add: hostile_queue_def small_queue_def CUQueue_new_def uq_inv_def content_def max32_def)

lemma hostile_queue_arrays: "\<not> bad_arrays False (content hostile_queue)"
  by (simp add: hostile_queue_ok bad_arrays_def bad_array_at_def bad_array_def huge_count_def upt_rec VT_ARRAY_def)


text \<open>
  The block of an array of variants is allocated with a size computed in 32 bits: a message of
  six bytes with a count for which 24 times the count wraps around to a small number makes
  \<^verbatim>\<open>Pop\<close> write outside the block with the very first element.
\<close>

theorem variant_count_wraps:
  assumes "uq_inv q" "content q = le_bytes 2 (VT_ARRAY + VT_VARIANT) @ le_bytes 4 n @ rest"
    and "0 < n" "n < 2 ^ 32" "(24 * n) mod 2 ^ 32 < 23"
  shows "Pop_VARIANT C ndebug (Suc fuel) q 0 = Inl Out_Of_Bounds"
proof -
  let ?t = "VT_ARRAY + VT_VARIANT"
  obtain q1 where q1: "pop_bytes q 2 = Inr (le_bytes 2 ?t, q1)" "uq_inv q1" "content q1 = le_bytes 4 n @ rest"
    using pop_bytes_ok [OF assms(1,2)] by auto
  obtain q2 where q2: "pop_bytes q1 4 = Inr (le_bytes 4 n, q2)"
    using pop_bytes_ok [OF q1(2,3)] by auto
  have v: "le_value (le_bytes 2 ?t) = ?t" "le_value (le_bytes 4 n) = n"
    using assms(4) by (simp_all add: le_value_at vt_defs)
  let ?b = "(24 * n) mod 4294967296"
  have b: "?b < 23" using assms(5) by simp
  then have "(32 + ?b + 1) mod 4294967296 = 33 + ?b" by simp
  then have blk: "SafeArrayCreate 24 n = Inr (replicate (?b + 1) (Some 0))"
    by (simp add: SafeArrayCreate_def mul32_def)
  obtain m where m: "n = Suc m" using assms(3) by (cases n) auto
  have "pop_variants pop (?b + 1) 0 n q' = Inl Out_Of_Bounds" for pop q'
    using b unfolding m by simp
  moreover have "pop_array C ndebug pop ?t n q' 0 =
      bindr (SafeArrayCreate 24 n) (\<lambda>blk.
      bindr (pop_variants pop (length blk) 0 n q') (\<lambda>(vs, t, q). Inr (Variant_array vs, t, q)))" for pop q'
    by (simp add: pop_array_def vt_defs)
  ultimately have a: "pop_array C ndebug pop ?t n q' 0 = Inl Out_Of_Bounds" for pop q'
    by (simp add: blk)
  show ?thesis
    by (simp add: Pop_VARIANT_step_def pop_at_0 q1 v body_array vt_numbers q2 a)
qed

definition wrap_message :: "byte list" where
  "wrap_message = le_bytes 2 (VT_ARRAY + VT_VARIANT) @ le_bytes 4 178956971"

definition wrap_queue :: uqueue where
  "wrap_queue = small_queue\<lparr>m_nSize := 6, m_pBuffer := map Some wrap_message @ replicate 58 None\<rparr>"

lemma wrap_queue_ok: "uq_inv wrap_queue" "content wrap_queue = wrap_message"
  by (simp_all add: wrap_queue_def wrap_message_def small_queue_def CUQueue_new_def uq_inv_def content_def max32_def)

theorem variant_count_wraps_witness:
  "Pop_VARIANT no_conv True 7 wrap_queue 0 = Inl Out_Of_Bounds"
  using variant_count_wraps [OF wrap_queue_ok(1), of 178956971 "[]" no_conv True 6] wrap_queue_ok(2)
  by (simp add: wrap_message_def)

text \<open>
  \<^verbatim>\<open>Insert\<close> of a string variant in front of a buffer puts only its type there: the string
  itself is appended at the end.
\<close>

lemma Insert_bstr_ignores_position:
  assumes "uq_inv q" "bstr_ok s" "room q (length (variant_wire (Vt_bstr s)))"
  shows "\<exists>q'. Insert_VARIANT q (Vt_bstr s) 0 = Inr q' \<and> content q' = le_bytes 2 VT_BSTR @ content q @ bstr_wire s"
proof -
  have "room q (length (le_bytes 2 VT_BSTR))" using assms(3) by (rule room_mono) (simp add: variant_wire_def)
  from Insert_ok [OF assms(1) this, of 0] obtain q1 where q1: "Insert_bytes q (le_bytes 2 VT_BSTR) 0 = Inr q1"
    "uq_inv q1" "same_settings q q1" "content q1 = le_bytes 2 VT_BSTR @ content q"
    by (auto simp: Insert_bytes_def)
  have "room q (2 + length (bstr_wire s))" using assms(3) by (simp add: variant_wire_def)
  then have "room q1 (length (bstr_wire s))"
    by (rule room_after [OF _ assms(1) q1(2,3)]) (use q1(4) in simp)
  from put_bstr_ok [OF q1(2) assms(2) this] q1 show ?thesis
    by (auto simp: Insert_VARIANT_step_def Insert_VARIANT_body_def appended_def)
qed

end
