(* ===== verification/Varconvert.thy ===== *)
theory Varconvert
  imports Variant Datetime
begin

text \<open>
  Copies and conversions of variants: \<^verbatim>\<open>VariantCopy\<close> of \<^verbatim>\<open>include/linux_win.h\<close>
  and \<^verbatim>\<open>VariantChangeType\<close> of \<^verbatim>\<open>include/membuffer.cpp\<close> (Linux, without the
  large integers of boost).

  \<^item> Floating point is the parameter \<open>fpu\<close>, which extends the operations of \<open>Datetime\<close> with the bytes
    of \<^verbatim>\<open>float\<close> and \<^verbatim>\<open>double\<close>, comparisons, the conversions to and from integers
    and the formats \<^verbatim>\<open>%f\<close> and \<^verbatim>\<open>%lf\<close>. A number that does not fit into the integer
    type it is converted to is the fault \<open>Undefined_Conversion\<close>.
  \<^item> \<^verbatim>\<open>swscanf\<close> has three results: a value, a mismatch (0), or the end of the text before
    anything was read (-1), which the code takes for a value. The formats for integers saturate, as
    the C library does.
  \<^item> Each target type has its own definition, as it has its own case in the code.
\<close>

section \<open>Floating point and numbers in bytes\<close>

datatype 'a scan = Scan_eof | Scan_none | Scan 'a

record 'd fpu = "'d dbl" +
  d_of_r4 :: "byte list \<Rightarrow> 'd"
  d_of_r8 :: "byte list \<Rightarrow> 'd"
  r4_of_d :: "'d \<Rightarrow> byte list"
  r8_of_d :: "'d \<Rightarrow> byte list"
  r4_of_int :: "int \<Rightarrow> byte list"
  d_of_integer :: "int \<Rightarrow> 'd"
  d_trunc :: "'d \<Rightarrow> int option"
  d_is_zero :: "'d \<Rightarrow> bool"
  d_less :: "'d \<Rightarrow> 'd \<Rightarrow> bool"
  d_less_eq :: "'d \<Rightarrow> 'd \<Rightarrow> bool"
  d_equal :: "'d \<Rightarrow> 'd \<Rightarrow> bool"
  d_printf :: "'d \<Rightarrow> string"
  d_scanf :: "nat list \<Rightarrow> 'd scan"
  r4_scanf :: "nat list \<Rightarrow> byte list scan"

definition unsigned_of :: "byte list \<Rightarrow> int" where
  "unsigned_of bs = int (le_value bs)"

definition signed_of :: "nat \<Rightarrow> byte list \<Rightarrow> int" where
  "signed_of w bs = signed_take_bit (8 * w - 1) (int (le_value bs))"

text \<open>A conversion to an integer type of \<open>w\<close> bytes.\<close>

definition cast_int :: "nat \<Rightarrow> int \<Rightarrow> byte list" where
  "cast_int w v = le_bytes w (nat (v mod 256 ^ w))"

definition cast_double :: "'d fpu \<Rightarrow> nat \<Rightarrow> bool \<Rightarrow> 'd \<Rightarrow> fault + byte list" where
  "cast_double F w sg d =
     (case d_trunc F d of
        None \<Rightarrow> Inl Undefined_Conversion
      | Some v \<Rightarrow>
          if (if sg then - (256 ^ w div 2) \<le> v \<and> v < 256 ^ w div 2 else 0 \<le> v \<and> v < 256 ^ w)
          then Inr (cast_int w v) else Inl Undefined_Conversion)"

text \<open>The 16 bytes of a \<^verbatim>\<open>DECIMAL\<close>: two reserved bytes, scale, sign, the upper 32 and the lower 64 bits.\<close>

definition dec_of :: "byte list \<Rightarrow> DECIMAL" where
  "dec_of bs =
     \<lparr>dec_scale = le_value (take 1 (drop 2 bs)), dec_sign = le_value (take 1 (drop 3 bs)),
      dec_Hi32 = word_of_nat (le_value (take 4 (drop 4 bs))), dec_Lo64 = word_of_nat (le_value (take 8 (drop 8 bs)))\<rparr>"

definition dec_bytes :: "DECIMAL \<Rightarrow> byte list" where
  "dec_bytes d =
     le_bytes 2 0 @ le_bytes 1 (dec_scale d) @ le_bytes 1 (dec_sign d) @ le_bytes 4 (unat (dec_Hi32 d)) @ le_bytes 8 (unat (dec_Lo64 d))"

definition ToDouble :: "'d fpu \<Rightarrow> DECIMAL \<Rightarrow> 'd" where
  "ToDouble F dec =
     (let d = d_of_u64 F (dec_Lo64 dec); temp = times10 (dec_scale dec) 1; d = d_div F d (d_of_u64 F temp) in
      if dec_sign dec \<noteq> 0 then d_neg F d else d)"

section \<open>Copies\<close>

datatype HRESULT = S_OK | E_OUTOFMEMORY | E_UNEXPECTED | DISP_E_TYPEMISMATCH | DISP_E_BADVARTYPE

definition c_units :: "nat list \<Rightarrow> nat list" where
  "c_units s = takeWhile (\<lambda>c. c \<noteq> 0) s"

definition SysAllocString :: "nat list option \<Rightarrow> nat list option" where
  "SysAllocString sz = map_option c_units sz"

definition SafeArrayCopy_bstrs :: "nat list option list \<Rightarrow> nat list option list" where
  "SafeArrayCopy_bstrs ss = map SysAllocString ss"

fun VariantCopy :: "VARIANT \<Rightarrow> HRESULT \<times> VARIANT" where
  "VariantCopy (Vt_bstr s) =
     (case SysAllocString s of None \<Rightarrow> (E_OUTOFMEMORY, Scalar VT_EMPTY []) | Some b \<Rightarrow> (S_OK, Vt_bstr (Some b)))"
| "VariantCopy (Bstr_array ss) = (S_OK, Bstr_array (SafeArrayCopy_bstrs ss))"
| "VariantCopy (Variant_array vs) = (S_OK, Variant_array (map (\<lambda>v. snd (VariantCopy v)) vs))"
| "VariantCopy v = (S_OK, v)"

section \<open>Scanning\<close>

definition white_unit :: "nat \<Rightarrow> bool" where
  "white_unit c \<longleftrightarrow> c = 32 \<or> 9 \<le> c \<and> c \<le> 13"

definition is_unit_digit :: "nat \<Rightarrow> bool" where
  "is_unit_digit c \<longleftrightarrow> 48 \<le> c \<and> c \<le> 57"

definition units_value :: "nat list \<Rightarrow> nat" where
  "units_value ds = foldl (\<lambda>x c. x * 10 + (c - 48)) 0 ds"

definition scan_integer :: "nat list \<Rightarrow> (bool \<times> nat) scan" where
  "scan_integer s =
     (let s = dropWhile white_unit s in
      if s = [] then Scan_eof
      else let neg = (hd s = 45); s = (if hd s = 45 \<or> hd s = 43 then tl s else s); ds = takeWhile is_unit_digit s in
           if ds = [] then Scan_none else Scan (neg, units_value ds))"

text \<open>The text of a variant; a null pointer reads as the empty text.\<close>

definition bstr_units :: "nat list option \<Rightarrow> nat list" where
  "bstr_units s = (case s of None \<Rightarrow> [] | Some s \<Rightarrow> c_units s)"

definition clamp :: "int \<Rightarrow> int \<Rightarrow> int \<Rightarrow> int" where
  "clamp lo hi v = (if v < lo then lo else if hi < v then hi else v)"

definition scan_map :: "('a \<Rightarrow> 'b) \<Rightarrow> 'a scan \<Rightarrow> 'b scan" where
  "scan_map f r = (case r of Scan_eof \<Rightarrow> Scan_eof | Scan_none \<Rightarrow> Scan_none | Scan x \<Rightarrow> Scan (f x))"

text \<open>\<^verbatim>\<open>%lld\<close> and \<^verbatim>\<open>%llu\<close> (which negates in 64 bits); the values of \<^verbatim>\<open>INT64\<close> and \<^verbatim>\<open>UINT64\<close>.\<close>

definition scan_lld :: "nat list option \<Rightarrow> int scan" where
  "scan_lld s = scan_map (\<lambda>(neg, n). clamp (- 9223372036854775808) 9223372036854775807 (if neg then - int n else int n)) (scan_integer (bstr_units s))"

definition scan_llu :: "nat list option \<Rightarrow> int scan" where
  "scan_llu s = scan_map (\<lambda>(neg, n). if n > 18446744073709551615 then 18446744073709551615
     else if neg then (- int n) mod 18446744073709551616 else int n) (scan_integer (bstr_units s))"

definition scan_lf :: "'d fpu \<Rightarrow> nat list option \<Rightarrow> 'd scan" where
  "scan_lf F s = d_scanf F (bstr_units s)"

text \<open>What the code does with the result: only 0 is a failure, and at the end of the text there is no value.\<close>

definition scanned :: "'a scan \<Rightarrow> HRESULT \<Rightarrow> ('a \<Rightarrow> fault + (HRESULT \<times> VARIANT)) \<Rightarrow> fault + (HRESULT \<times> VARIANT)" where
  "scanned r e f =
     (case r of Scan_eof \<Rightarrow> Inl Uninitialised_Read | Scan_none \<Rightarrow> Inr (e, Scalar VT_EMPTY []) | Scan x \<Rightarrow> f x)"

definition mismatch :: "fault + (HRESULT \<times> VARIANT)" where
  "mismatch = Inr (DISP_E_TYPEMISMATCH, Scalar VT_EMPTY [])"

section \<open>Integer targets\<close>

text \<open>The member that a source of an integer type or \<^verbatim>\<open>VT_BOOL\<close> is read from.\<close>

definition integer_member :: "nat \<Rightarrow> byte list \<Rightarrow> int option" where
  "integer_member t bs =
     (if t = VT_I1 then Some (signed_of 1 bs)
      else if t = VT_I2 \<or> t = VT_BOOL then Some (signed_of 2 bs)
      else if t = VT_INT \<or> t = VT_I4 then Some (signed_of 4 bs)
      else if t = VT_I8 then Some (signed_of 8 bs)
      else if t = VT_UI1 \<or> t = VT_UI2 \<or> t = VT_UINT \<or> t = VT_UI4 \<or> t = VT_UI8 then Some (unsigned_of bs)
      else None)"

text \<open>The floating-point number of a source, for the types that are converted through one.\<close>

definition double_member :: "'d fpu \<Rightarrow> nat \<Rightarrow> byte list \<Rightarrow> 'd option" where
  "double_member F t bs =
     (if t = VT_R4 then Some (d_of_r4 F bs)
      else if t = VT_R8 then Some (d_of_r8 F bs)
      else if t = VT_DECIMAL then Some (ToDouble F (dec_of bs))
      else None)"

text \<open>The cases that all integer targets of \<open>w\<close> bytes have: integers, floating-point numbers and decimals.\<close>

definition to_integer :: "'d fpu \<Rightarrow> nat \<Rightarrow> nat \<Rightarrow> bool \<Rightarrow> nat \<Rightarrow> byte list \<Rightarrow> fault + (HRESULT \<times> VARIANT)" where
  "to_integer F vt w sg t bs =
     (case integer_member t bs of
        Some v \<Rightarrow> Inr (S_OK, Scalar vt (cast_int w v))
      | None \<Rightarrow>
          case double_member F t bs of
            Some d \<Rightarrow> bindr (cast_double F w sg d) (\<lambda>b. Inr (S_OK, Scalar vt b))
          | None \<Rightarrow> mismatch)"

fun to_I1 :: "'d fpu \<Rightarrow> VARIANT \<Rightarrow> fault + (HRESULT \<times> VARIANT)" where
  "to_I1 F (Scalar t bs) = to_integer F VT_I1 1 True t bs"
| "to_I1 F (Vt_bstr s) = scanned (scan_lld s) DISP_E_TYPEMISMATCH (\<lambda>data. Inr (S_OK, Scalar VT_I1 (cast_int 1 data)))"
| "to_I1 F v = mismatch"

text \<open>A source that cannot be converted leaves the type \<^verbatim>\<open>VT_I2\<close> and the old bytes in the destination.\<close>

definition old_union :: "nat \<Rightarrow> VARIANT \<Rightarrow> byte list" where
  "old_union k v = (case v of Scalar t bs \<Rightarrow> take k (bs @ replicate k 0) | _ \<Rightarrow> replicate k 0)"

fun to_I2 :: "'d fpu \<Rightarrow> VARIANT \<Rightarrow> VARIANT \<Rightarrow> fault + (HRESULT \<times> VARIANT)" where
  "to_I2 F dest (Scalar t bs) =
     (if integer_member t bs = None \<and> double_member F t bs = None
      then Inr (DISP_E_TYPEMISMATCH, Scalar VT_I2 (old_union 2 dest))
      else to_integer F VT_I2 2 True t bs)"
| "to_I2 F dest (Vt_bstr s) = scanned (scan_lld s) DISP_E_TYPEMISMATCH (\<lambda>data. Inr (S_OK, Scalar VT_I2 (cast_int 2 data)))"
| "to_I2 F dest v = Inr (DISP_E_TYPEMISMATCH, Scalar VT_I2 (old_union 2 dest))"

fun to_I4 :: "'d fpu \<Rightarrow> nat \<Rightarrow> VARIANT \<Rightarrow> fault + (HRESULT \<times> VARIANT)" where
  "to_I4 F vt (Scalar t bs) = to_integer F vt 4 True t bs"
| "to_I4 F vt (Vt_bstr s) = scanned (scan_lld s) DISP_E_TYPEMISMATCH (\<lambda>data. Inr (S_OK, Scalar vt (cast_int 4 data)))"
| "to_I4 F vt v = mismatch"

text \<open>\<^verbatim>\<open>llVal = (char) data\<close>.\<close>

fun to_I8 :: "'d fpu \<Rightarrow> VARIANT \<Rightarrow> fault + (HRESULT \<times> VARIANT)" where
  "to_I8 F (Scalar t bs) = to_integer F VT_I8 8 True t bs"
| "to_I8 F (Vt_bstr s) = scanned (scan_lld s) DISP_E_TYPEMISMATCH (\<lambda>data. Inr (S_OK, Scalar VT_I8 (cast_int 8 (signed_of 1 (cast_int 1 data)))))"
| "to_I8 F v = mismatch"

fun to_UI1 :: "'d fpu \<Rightarrow> VARIANT \<Rightarrow> fault + (HRESULT \<times> VARIANT)" where
  "to_UI1 F (Scalar t bs) = to_integer F VT_UI1 1 False t bs"
| "to_UI1 F (Vt_bstr s) = scanned (scan_llu s) E_UNEXPECTED (\<lambda>data. Inr (S_OK, Scalar VT_UI1 (cast_int 1 (signed_of 1 (cast_int 1 data)))))"
| "to_UI1 F v = mismatch"

fun to_UI2 :: "'d fpu \<Rightarrow> VARIANT \<Rightarrow> fault + (HRESULT \<times> VARIANT)" where
  "to_UI2 F (Scalar t bs) = to_integer F VT_UI2 2 False t bs"
| "to_UI2 F (Vt_bstr s) = scanned (scan_llu s) E_UNEXPECTED (\<lambda>data. Inr (S_OK, Scalar VT_UI2 (cast_int 2 data)))"
| "to_UI2 F v = mismatch"

fun to_UI4 :: "'d fpu \<Rightarrow> nat \<Rightarrow> VARIANT \<Rightarrow> fault + (HRESULT \<times> VARIANT)" where
  "to_UI4 F vt (Scalar t bs) = to_integer F vt 4 False t bs"
| "to_UI4 F vt (Vt_bstr s) = scanned (scan_lld s) DISP_E_TYPEMISMATCH (\<lambda>data. Inr (S_OK, Scalar vt (cast_int 4 data)))"
| "to_UI4 F vt v = mismatch"

fun to_UI8 :: "'d fpu \<Rightarrow> VARIANT \<Rightarrow> fault + (HRESULT \<times> VARIANT)" where
  "to_UI8 F (Scalar t bs) = to_integer F VT_UI8 8 False t bs"
| "to_UI8 F (Vt_bstr s) = scanned (scan_llu s) DISP_E_TYPEMISMATCH (\<lambda>data. Inr (S_OK, Scalar VT_UI8 (cast_int 8 data)))"
| "to_UI8 F v = mismatch"

section \<open>Other targets\<close>

fun to_R4 :: "'d fpu \<Rightarrow> VARIANT \<Rightarrow> fault + (HRESULT \<times> VARIANT)" where
  "to_R4 F (Scalar t bs) =
     (case integer_member t bs of
        Some v \<Rightarrow> Inr (S_OK, Scalar VT_R4 (r4_of_int F v))
      | None \<Rightarrow>
          if t = VT_R4 then Inr (S_OK, Scalar VT_R4 bs)
          else case double_member F t bs of
                 Some d \<Rightarrow> Inr (S_OK, Scalar VT_R4 (r4_of_d F d))
               | None \<Rightarrow> mismatch)"
| "to_R4 F (Vt_bstr s) = scanned (r4_scanf F (bstr_units s)) DISP_E_TYPEMISMATCH (\<lambda>data. Inr (S_OK, Scalar VT_R4 data))"
| "to_R4 F v = mismatch"

fun to_R8 :: "'d fpu \<Rightarrow> VARIANT \<Rightarrow> fault + (HRESULT \<times> VARIANT)" where
  "to_R8 F (Scalar t bs) =
     (case integer_member t bs of
        Some v \<Rightarrow> Inr (S_OK, Scalar VT_R8 (r8_of_d F (d_of_integer F v)))
      | None \<Rightarrow>
          if t = VT_R8 then Inr (S_OK, Scalar VT_R8 bs)
          else case double_member F t bs of
                 Some d \<Rightarrow> Inr (S_OK, Scalar VT_R8 (r8_of_d F d))
               | None \<Rightarrow> mismatch)"
| "to_R8 F (Vt_bstr s) = scanned (scan_lf F s) DISP_E_TYPEMISMATCH (\<lambda>data. Inr (S_OK, Scalar VT_R8 (r8_of_d F data)))"
| "to_R8 F v = mismatch"

definition ascii_units :: "string \<Rightarrow> nat list" where
  "ascii_units s = map of_char s"

definition of_ascii :: "byte list \<Rightarrow> string" where
  "of_ascii bs = map (\<lambda>b. char_of (unat b)) (takeWhile (\<lambda>b. b \<noteq> 0) bs)"

text \<open>
  \<^verbatim>\<open>swprintf\<close> into 64 wide characters, the rest is cut off. \<^verbatim>\<open>VT_I8\<close> prints
  \<^verbatim>\<open>cVal\<close>, the lowest byte.
\<close>

definition print_scalar :: "'d fpu \<Rightarrow> nat \<Rightarrow> byte list \<Rightarrow> string option" where
  "print_scalar F t bs =
     (if t = VT_I1 \<or> t = VT_I8 then Some (int_text (signed_of 1 (take 1 bs)))
      else if t = VT_I2 \<or> t = VT_INT \<or> t = VT_I4 \<or> t = VT_UI1 \<or> t = VT_UI2 \<or> t = VT_UINT \<or> t = VT_UI4 \<or> t = VT_UI8 \<or> t = VT_BOOL
      then map_option int_text (integer_member t bs)
      else if t = VT_R4 then Some (d_printf F (d_of_r4 F bs))
      else if t = VT_R8 then Some (d_printf F (d_of_r8 F bs))
      else None)"

fun to_BSTR :: "'d fpu \<Rightarrow> text_conv \<Rightarrow> VARIANT \<Rightarrow> fault + (HRESULT \<times> VARIANT)" where
  "to_BSTR F C (Vt_bstr s) = Inr (S_OK, Vt_bstr (SysAllocString s))"
| "to_BSTR F C (Scalar t bs) =
     (if t = VT_DECIMAL
      then Inr (S_OK, Vt_bstr (Some (of_utf8 C (map of_char (ToString_DECIMAL (dec_of bs))))))
      else case print_scalar F t bs of
             Some s \<Rightarrow> Inr (S_OK, Vt_bstr (Some (ascii_units (take 63 s))))
           | None \<Rightarrow> mismatch)"
| "to_BSTR F C v = mismatch"

definition variant_bool :: "bool \<Rightarrow> VARIANT" where
  "variant_bool b = Scalar VT_BOOL (if b then [255, 255] else [0, 0])"

fun to_BOOL :: "'d fpu \<Rightarrow> VARIANT \<Rightarrow> fault + (HRESULT \<times> VARIANT)" where
  "to_BOOL F (Scalar t bs) =
     (if t = VT_BOOL then Inr (S_OK, Scalar VT_BOOL bs)
      else case integer_member t bs of
        Some v \<Rightarrow> Inr (S_OK, variant_bool (v \<noteq> 0))
      | None \<Rightarrow>
          if t = VT_R4 then Inr (S_OK, variant_bool (\<not> d_is_zero F (d_of_r4 F bs)))
          else if t = VT_R8 then Inr (S_OK, variant_bool (\<not> d_is_zero F (d_of_r8 F bs)))
          else if t = VT_DECIMAL then Inr (S_OK, variant_bool (dec_Lo64 (dec_of bs) \<noteq> 0 \<or> dec_Hi32 (dec_of bs) \<noteq> 0))
          else mismatch)"
| "to_BOOL F (Vt_bstr s) = scanned (scan_lf F s) DISP_E_TYPEMISMATCH (\<lambda>data. Inr (S_OK, variant_bool (\<not> d_is_zero F data)))"
| "to_BOOL F v = mismatch"

fun to_DATE :: "'d fpu \<Rightarrow> text_conv \<Rightarrow> VARIANT \<Rightarrow> fault + (HRESULT \<times> VARIANT)" where
  "to_DATE F C (Scalar t bs) = (if t = VT_DATE then Inr (S_OK, Scalar VT_DATE bs) else mismatch)"
| "to_DATE F C (Vt_bstr s) =
     bindr (ParseFromDBString (dbl.truncate F) (of_ascii (to_utf8 C (bstr_units s)))) (\<lambda>dt.
     Inr (S_OK, Scalar VT_DATE (le_bytes 8 (UDateTime_Value dt))))"
| "to_DATE F C v = mismatch"

text \<open>
  Signed integers go through their text, floating-point numbers through a text in a buffer of 64
  characters; a source of any other type leaves the number zero and is no error.
\<close>

definition no_decimal :: DECIMAL where
  "no_decimal = \<lparr>dec_scale = 0, dec_sign = 0, dec_Hi32 = 0, dec_Lo64 = 0\<rparr>"

definition scalar_decimal :: "'d fpu \<Rightarrow> nat \<Rightarrow> byte list \<Rightarrow> fault + DECIMAL" where
  "scalar_decimal F t bs =
     (if t = VT_BOOL then Inr (if signed_of 2 bs \<noteq> 0 then no_decimal\<lparr>dec_Lo64 := 1, dec_sign := 0x80\<rparr> else no_decimal)
      else if t = VT_UI1 \<or> t = VT_UI2 \<or> t = VT_UINT \<or> t = VT_UI4 \<or> t = VT_UI8
      then Inr (no_decimal\<lparr>dec_Lo64 := word_of_int (unsigned_of bs)\<rparr>)
      else if t = VT_I1 \<or> t = VT_I2 \<or> t = VT_I4 \<or> t = VT_INT \<or> t = VT_I8
      then (case integer_member t bs of Some v \<Rightarrow> ParseDec (int_text v) | None \<Rightarrow> Inr no_decimal)
      else if t = VT_R4 \<or> t = VT_R8
      then let str = d_printf F (if t = VT_R4 then d_of_r4 F bs else d_of_r8 F bs) in
           if length str < 64 then ParseDec str else Inl Out_Of_Bounds
      else Inr no_decimal)"

fun to_DECIMAL :: "'d fpu \<Rightarrow> text_conv \<Rightarrow> VARIANT \<Rightarrow> fault + (HRESULT \<times> VARIANT)" where
  "to_DECIMAL F C (Scalar t bs) =
     (if t = VT_DECIMAL then Inr (S_OK, Scalar VT_DECIMAL bs)
      else bindr (scalar_decimal F t bs) (\<lambda>d. Inr (S_OK, Scalar VT_DECIMAL (dec_bytes d))))"
| "to_DECIMAL F C (Vt_bstr s) =
     bindr (ParseDec (of_ascii (to_utf8 C (bstr_units s)))) (\<lambda>d. Inr (S_OK, Scalar VT_DECIMAL (dec_bytes d)))"
| "to_DECIMAL F C v = Inr (S_OK, Scalar VT_DECIMAL (dec_bytes no_decimal))"

section \<open>The conversion\<close>

definition bad_targets :: "nat list" where
  "bad_targets = [72, 27, 26, 25, 0x8000, 24]"

definition VariantChangeType :: "'d fpu \<Rightarrow> text_conv \<Rightarrow> VARIANT \<Rightarrow> VARIANT \<Rightarrow> nat \<Rightarrow> fault + (HRESULT \<times> VARIANT)" where
  "VariantChangeType F C dest src vt =
     (if (variant_type src = VT_NULL \<or> variant_type src = VT_EMPTY) \<and> (vt = VT_NULL \<or> vt = VT_EMPTY)
      then Inr (S_OK, Scalar (variant_type src) [])
      else if vt = VT_I1 then to_I1 F src
      else if vt = VT_I2 then to_I2 F dest src
      else if vt = VT_INT \<or> vt = VT_I4 then to_I4 F vt src
      else if vt = VT_I8 then to_I8 F src
      else if vt = VT_R4 then to_R4 F src
      else if vt = VT_R8 then to_R8 F src
      else if vt = VT_UI1 then to_UI1 F src
      else if vt = VT_UI2 then to_UI2 F src
      else if vt = VT_UINT \<or> vt = VT_UI4 then to_UI4 F vt src
      else if vt = VT_UI8 then to_UI8 F src
      else if vt = VT_BSTR then to_BSTR F C src
      else if vt = VT_BOOL then to_BOOL F src
      else if vt = VT_DATE then to_DATE F C src
      else if vt = VT_DECIMAL then to_DECIMAL F C src
      else if vt = VT_NULL \<or> vt = VT_EMPTY then Inr (S_OK, Scalar vt [])
      else if vt \<in> set bad_targets then Inr (DISP_E_BADVARTYPE, Scalar VT_EMPTY [])
      else mismatch)"

section \<open>Types of results\<close>

lemma scanned_S_OK: "scanned r e f = Inr (S_OK, v) \<Longrightarrow> e \<noteq> S_OK \<Longrightarrow> \<exists>x. f x = Inr (S_OK, v)"
  by (auto simp: scanned_def split: scan.splits)

lemma mismatch_not_ok [simp]: "mismatch = Inr (S_OK, v) \<longleftrightarrow> False"
  by (simp add: mismatch_def)

lemma to_integer_type: "to_integer F vt w sg t bs = Inr (S_OK, v) \<Longrightarrow> variant_type v = vt"
  by (auto simp: to_integer_def bindr_Inr_iff split: option.splits)

lemma integer_targets_type:
  "to_I1 F src = Inr (S_OK, v) \<Longrightarrow> variant_type v = VT_I1"
  "to_I2 F dest src = Inr (S_OK, v) \<Longrightarrow> variant_type v = VT_I2"
  "to_I4 F vt src = Inr (S_OK, v) \<Longrightarrow> variant_type v = vt"
  "to_I8 F src = Inr (S_OK, v) \<Longrightarrow> variant_type v = VT_I8"
  "to_UI1 F src = Inr (S_OK, v) \<Longrightarrow> variant_type v = VT_UI1"
  "to_UI2 F src = Inr (S_OK, v) \<Longrightarrow> variant_type v = VT_UI2"
  "to_UI4 F vt src = Inr (S_OK, v) \<Longrightarrow> variant_type v = vt"
  "to_UI8 F src = Inr (S_OK, v) \<Longrightarrow> variant_type v = VT_UI8"
  by (cases src; auto dest!: to_integer_type scanned_S_OK split: if_splits)+

lemma other_targets_type:
  "to_R4 F src = Inr (S_OK, v) \<Longrightarrow> variant_type v = VT_R4"
  "to_R8 F src = Inr (S_OK, v) \<Longrightarrow> variant_type v = VT_R8"
  "to_BSTR F C src = Inr (S_OK, v) \<Longrightarrow> variant_type v = VT_BSTR"
  "to_BOOL F src = Inr (S_OK, v) \<Longrightarrow> variant_type v = VT_BOOL"
  "to_DATE F C src = Inr (S_OK, v) \<Longrightarrow> variant_type v = VT_DATE"
  "to_DECIMAL F C src = Inr (S_OK, v) \<Longrightarrow> variant_type v = VT_DECIMAL"
  by (cases src; auto dest!: scanned_S_OK simp: variant_bool_def bindr_Inr_iff split: if_splits option.splits)+

lemma change_type_result:
  assumes "VariantChangeType F C dest src vt = Inr (S_OK, v)"
  shows "variant_type v = vt \<or> variant_type v \<in> {VT_NULL, VT_EMPTY} \<and> vt \<in> {VT_NULL, VT_EMPTY}"
proof (cases "(variant_type src = VT_NULL \<or> variant_type src = VT_EMPTY) \<and> (vt = VT_NULL \<or> vt = VT_EMPTY)")
  case True
  then show ?thesis using assms by (auto simp: VariantChangeType_def)
next
  case False
  then show ?thesis
    using assms unfolding VariantChangeType_def
    by (auto split: if_splits dest: integer_targets_type other_targets_type)
qed

lemma no_array_targets: "VT_ARRAY \<le> vt \<Longrightarrow> vt \<noteq> 0x8000 \<Longrightarrow> VariantChangeType F C dest src vt = mismatch"
  by (simp add: VariantChangeType_def vt_defs bad_targets_def)

section \<open>Integers\<close>

text \<open>The width in bytes and the signedness of the integer types.\<close>

definition integer_type :: "nat \<Rightarrow> (nat \<times> bool) option" where
  "integer_type t =
     (if t = VT_I1 then Some (1, True) else if t = VT_I2 then Some (2, True)
      else if t = VT_I4 \<or> t = VT_INT then Some (4, True) else if t = VT_I8 then Some (8, True)
      else if t = VT_UI1 then Some (1, False) else if t = VT_UI2 then Some (2, False)
      else if t = VT_UI4 \<or> t = VT_UINT then Some (4, False) else if t = VT_UI8 then Some (8, False) else None)"

lemma integer_typeE:
  assumes "integer_type t = Some (w, sg)"
  obtains "t = VT_I1" "w = 1" "sg" | "t = VT_I2" "w = 2" "sg" | "t = VT_I4" "w = 4" "sg" | "t = VT_INT" "w = 4" "sg" | "t = VT_I8" "w = 8" "sg"
    | "t = VT_UI1" "w = 1" "\<not> sg" | "t = VT_UI2" "w = 2" "\<not> sg" | "t = VT_UI4" "w = 4" "\<not> sg" | "t = VT_UINT" "w = 4" "\<not> sg" | "t = VT_UI8" "w = 8" "\<not> sg"
  using assms by (auto simp: integer_type_def split: if_splits)

lemma integer_member_type:
  assumes "integer_type t = Some (w, sg)"
  shows "integer_member t bs = Some (if sg then signed_of w bs else unsigned_of bs)"
  using assms by (cases rule: integer_typeE) (simp_all add: integer_member_def vt_defs)

lemma VariantChangeType_integer:
  assumes "integer_type t' = Some (w, sg)" "integer_member t bs = Some v"
  shows "VariantChangeType F C dest (Scalar t bs) t' = Inr (S_OK, Scalar t' (cast_int w v))"
  using assms by (cases rule: integer_typeE)
    (simp_all add: VariantChangeType_def to_integer_def vt_defs)

text \<open>A value as an integer type of \<open>w\<close> bytes has it.\<close>

definition wrapped :: "nat \<Rightarrow> bool \<Rightarrow> int \<Rightarrow> int" where
  "wrapped w sg v = (if sg then signed_take_bit (8 * w - 1) v else v mod 256 ^ w)"

lemma le_value_cast: "int (le_value (cast_int w v)) = v mod 256 ^ w"
proof -
  have "nat (v mod 256 ^ w) < 256 ^ w"
    using pos_mod_bound [of "256 ^ w" v] by (simp add: nat_less_iff)
  then show ?thesis by (simp add: cast_int_def le_value_le_bytes)
qed

lemma power_256: "(256 :: int) ^ w = 2 ^ (8 * w)"
  by (simp add: power_mult)

lemma members_cast:
  assumes "0 < w"
  shows "signed_of w (cast_int w v) = signed_take_bit (8 * w - 1) v" "unsigned_of (cast_int w v) = v mod 256 ^ w"
proof -
  have "signed_take_bit (8 * w - 1) (take_bit (8 * w) v) = signed_take_bit (8 * w - 1) v"
  proof -
    have "\<not> 8 * w \<le> 8 * w - 1" using assms by simp
    then show ?thesis by (simp add: signed_take_bit_take_bit)
  qed
  then show "signed_of w (cast_int w v) = signed_take_bit (8 * w - 1) v"
    by (simp add: signed_of_def le_value_cast power_256 take_bit_eq_mod)
  show "unsigned_of (cast_int w v) = v mod 256 ^ w" by (simp add: unsigned_of_def le_value_cast)
qed

lemma wrapped_exact:
  assumes "0 < w" "if sg then - (2 ^ (8 * w - 1)) \<le> v \<and> v < 2 ^ (8 * w - 1) else 0 \<le> v \<and> v < 256 ^ w"
  shows "wrapped w sg v = v"
  using assms by (auto simp: wrapped_def intro: signed_take_bit_int_eq_self)

lemma integer_type_width: "integer_type t = Some (w, sg) \<Longrightarrow> 0 < w"
  by (auto elim: integer_typeE)

lemma integer_member_cast:
  assumes "integer_type t = Some (w, sg)"
  shows "integer_member t (cast_int w v) = Some (wrapped w sg v)"
  unfolding integer_member_type [OF assms] using members_cast [OF integer_type_width [OF assms]] by (simp add: wrapped_def)

section \<open>Texts of integers\<close>

lemma digit_units:
  "is_digit c \<Longrightarrow> is_unit_digit (of_char c) \<and> of_char c - 48 = digit_val c \<and> \<not> white_unit (of_char c) \<and> of_char c \<noteq> (45 :: nat) \<and> of_char c \<noteq> (43 :: nat)"
  by (auto simp: is_digit_def is_unit_digit_def digit_val_def white_unit_def)

lemma units_value_digits: "list_all is_digit ds \<Longrightarrow> units_value (ascii_units ds) = dec_value 0 ds"
proof -
  have "list_all is_digit ds \<Longrightarrow> foldl (\<lambda>x c. x * 10 + (c - 48)) n (map of_char ds) = dec_value n ds" for n
    by (induction ds arbitrary: n) (simp_all add: digit_units)
  then show "list_all is_digit ds \<Longrightarrow> units_value (ascii_units ds) = dec_value 0 ds"
    by (simp add: units_value_def ascii_units_def)
qed

lemma takeWhile_digits: "list_all is_digit ds \<Longrightarrow> takeWhile is_unit_digit (ascii_units ds) = ascii_units ds"
  by (simp add: ascii_units_def takeWhile_eq_all_conv list_all_iff digit_units)

lemma scan_digits:
  assumes "list_all is_digit ds" "ds \<noteq> []"
  shows "scan_integer (ascii_units ds) = Scan (False, dec_value 0 ds)"
    and "scan_integer (45 # ascii_units ds) = Scan (True, dec_value 0 ds)"
proof -
  obtain c cs where ds: "ds = c # cs" using assms(2) by (cases ds) auto
  have c: "\<not> white_unit (of_char c)" "of_char c \<noteq> (45 :: nat)" "of_char c \<noteq> (43 :: nat)"
    using assms(1) digit_units by (simp_all add: ds)
  have "hd (ascii_units ds) = of_char c" "ascii_units ds \<noteq> []" "dropWhile white_unit (ascii_units ds) = ascii_units ds"
    using c(1) by (simp_all add: ds ascii_units_def)
  with c(2,3) show "scan_integer (ascii_units ds) = Scan (False, dec_value 0 ds)"
    by (simp add: scan_integer_def Let_def takeWhile_digits [OF assms(1)] units_value_digits [OF assms(1)])
  have "\<not> white_unit 45" by (simp add: white_unit_def)
  with \<open>ascii_units ds \<noteq> []\<close> show "scan_integer (45 # ascii_units ds) = Scan (True, dec_value 0 ds)"
    by (simp add: scan_integer_def Let_def takeWhile_digits [OF assms(1)] units_value_digits [OF assms(1)])
qed

lemma ascii_nonzero: "list_all is_digit ds \<Longrightarrow> c_units (ascii_units ds) = ascii_units ds" "list_all is_digit ds \<Longrightarrow> c_units (45 # ascii_units ds) = 45 # ascii_units ds"
  by (simp_all add: c_units_def takeWhile_eq_all_conv ascii_units_def list_all_iff is_digit_def) force+

lemma scan_lld_int_text:
  assumes "- 9223372036854775808 \<le> n" "n \<le> 9223372036854775807"
  shows "scan_lld (Some (ascii_units (int_text n))) = Scan n"
proof (cases "n < 0")
  case True
  then have "ascii_units (int_text n) = 45 # ascii_units (dec_text (nat (- n)))"
    by (simp add: int_text_def ascii_units_def)
  moreover have "\<not> 9223372036854775808 < nat (- n)" using True assms by linarith
  ultimately show ?thesis
    using True scan_digits(2) [OF dec_text_digits dec_text_not_Nil, of "nat (- n)"] ascii_nonzero(2) [OF dec_text_digits, of "nat (- n)"]
    by (simp add: scan_lld_def bstr_units_def scan_map_def dec_text_value clamp_def)
next
  case False
  then have "ascii_units (int_text n) = ascii_units (dec_text (nat n))" by (simp add: int_text_def)
  moreover have "\<not> 9223372036854775807 < nat n" using False assms by linarith
  ultimately show ?thesis
    using False
    using scan_digits(1) [OF dec_text_digits dec_text_not_Nil, of "nat n"] ascii_nonzero(1) [OF dec_text_digits, of "nat n"]
    by (simp add: scan_lld_def bstr_units_def scan_map_def dec_text_value clamp_def)
qed

lemma scan_llu_dec_text:
  assumes "n \<le> 18446744073709551615"
  shows "scan_llu (Some (ascii_units (dec_text n))) = Scan (int n)"
  using assms scan_digits(1) [OF dec_text_digits dec_text_not_Nil, of n] ascii_nonzero(1) [OF dec_text_digits, of n]
  by (simp add: scan_llu_def bstr_units_def scan_map_def dec_text_value)

lemma cast_unsigned: "length bs = w \<Longrightarrow> cast_int w (unsigned_of bs) = bs"
  using le_value_bound [of bs] by (auto simp: cast_int_def unsigned_of_def nat_mod_distrib le_bytes_le_value)

lemma cast_signed: 
  assumes "length bs = w" "0 < w"
  shows "cast_int w (signed_of w bs) = bs"
proof -
  have "signed_of w bs mod 256 ^ w = unsigned_of bs mod 256 ^ w"
    using assms(2) by (simp add: signed_of_def unsigned_of_def power_256 take_bit_signed_take_bit flip: take_bit_eq_mod)
  then have "cast_int w (signed_of w bs) = cast_int w (unsigned_of bs)" by (simp add: cast_int_def)
  with cast_unsigned [OF assms(1)] show ?thesis by simp
qed

lemma unsigned_of_bounds: "length bs = w \<Longrightarrow> 0 \<le> unsigned_of bs \<and> unsigned_of bs < 256 ^ w"
  using le_value_bound [of bs] by (auto simp: unsigned_of_def)

lemma signed_of_bounds: "0 < w \<Longrightarrow> - (2 ^ (8 * w - 1)) \<le> signed_of w bs \<and> signed_of w bs < 2 ^ (8 * w - 1)"
  by (simp add: signed_of_def signed_take_bit_int_greater_eq_minus_exp signed_take_bit_int_less_exp)

lemma length_int_text:
  assumes "- (10 ^ 20) < n" "n < 10 ^ 20"
  shows "length (int_text n) \<le> 21"
proof -
  have "nat \<bar>n\<bar> < 10 ^ 20" using assms by simp
  then have "length (dec_text (nat \<bar>n\<bar>)) \<le> 20" by (intro length_dec_text) simp_all
  then show ?thesis by (auto simp: int_text_def)
qed

lemma take_le_bytes: "k \<le> w \<Longrightarrow> take k (le_bytes w v) = le_bytes k (v mod 256 ^ k)"
proof (induction k arbitrary: w v)
  case (Suc k)
  obtain w' where w: "w = Suc w'" "k \<le> w'" using Suc.prems by (cases w) auto
  have "v mod 256 ^ Suc k = v mod 256 + 256 * (v div 256 mod 256 ^ k)"
    by (simp add: mod_mult2_eq)
  then have "(v mod 256 ^ Suc k) div 256 = v div 256 mod 256 ^ k" "(v mod 256 ^ Suc k) mod 256 = v mod 256" by simp_all
  moreover from this(2) have "(word_of_nat (v mod 256 ^ Suc k) :: byte) = word_of_nat v"
    by (metis unat_byte_of_nat word_unat_eq_iff)
  ultimately show ?case using Suc.IH [OF w(2)] w by simp
qed simp

lemma take_cast: "k \<le> w \<Longrightarrow> take k (cast_int w v) = cast_int k v"
proof -
  assume "k \<le> w"
  then have "int (nat (v mod 256 ^ w) mod 256 ^ k) = v mod 256 ^ k"
    by (simp add: zmod_int mod_mod_cancel le_imp_power_dvd)
  then have "nat (v mod 256 ^ w) mod 256 ^ k = nat (v mod 256 ^ k)" by (metis nat_int)
  with \<open>k \<le> w\<close> show ?thesis by (simp add: cast_int_def take_le_bytes)
qed

lemma print_integer:
  assumes "integer_type t = Some (w, sg)" "t \<noteq> VT_I8" "length bs = w" "integer_member t bs = Some v"
  shows "print_scalar F t bs = Some (int_text v)"
  using assms by (cases rule: integer_typeE) (auto simp: print_scalar_def integer_member_def vt_defs)

lemma integer_member_bounds:
  assumes "integer_type t = Some (w, sg)" "length bs = w" "integer_member t bs = Some v"
  shows "cast_int w v = bs" "- (2 ^ 63) \<le> v" "v < 2 ^ 64" "t \<noteq> VT_UI8 \<Longrightarrow> v < 2 ^ 63" "\<not> sg \<Longrightarrow> 0 \<le> v"
proof -
  have v: "v = (if sg then signed_of w bs else unsigned_of bs)" using assms(1,3) integer_member_type by simp
  show "cast_int w v = bs" using v cast_signed [OF assms(2)] cast_unsigned [OF assms(2)] integer_type_width [OF assms(1)] by simp
  show "- (2 ^ 63) \<le> v" "v < 2 ^ 64" "t \<noteq> VT_UI8 \<Longrightarrow> v < 2 ^ 63" "\<not> sg \<Longrightarrow> 0 \<le> v"
    using assms(1) signed_of_bounds [of w bs] unsigned_of_bounds [OF assms(2)] integer_type_width [OF assms(1)]
    by (cases rule: integer_typeE; simp add: v)+
qed

lemma ParseDec_dec_text:
  assumes "n \<le> 18446744073709551615"
  shows "ParseDec (dec_text n) = Inr (no_decimal\<lparr>dec_Lo64 := word_of_nat n\<rparr>)"
  using assms ParseDec_ToString [of "no_decimal\<lparr>dec_Lo64 := word_of_nat n\<rparr>"]
  by (simp add: no_decimal_def ToString_DECIMAL_padded unat_of_nat padded_def zero_pad_def)

lemma scalar_decimal_integer:
  assumes "integer_type t = Some (w, sg)" "length bs = w" "integer_member t bs = Some v"
  shows "scalar_decimal F t bs = Inr (if v < 0 then no_decimal\<lparr>dec_sign := 0x80\<rparr> else no_decimal\<lparr>dec_Lo64 := word_of_int v\<rparr>)"
proof -
  have "ParseDec (int_text v) = Inr (if v < 0 then no_decimal\<lparr>dec_sign := 0x80\<rparr> else no_decimal\<lparr>dec_Lo64 := word_of_int v\<rparr>)"
  proof (cases "v < 0")
    case True
    then show ?thesis by (simp add: int_text_def ParseDec_negative no_decimal_def)
  next
    case False
    then show ?thesis
      using ParseDec_dec_text [of "nat v"] integer_member_bounds(3) [OF assms] by (simp add: int_text_def)
  qed
  moreover have "scalar_decimal F t bs = ParseDec (int_text v)" if sg
    using assms(1,3) that unfolding scalar_decimal_def by (cases rule: integer_typeE) (simp_all add: vt_defs)
  moreover have "scalar_decimal F t bs = Inr (no_decimal\<lparr>dec_Lo64 := word_of_int v\<rparr>)" if "\<not> sg"
    using assms(1,3) that unfolding scalar_decimal_def integer_member_def by (cases rule: integer_typeE) (simp_all add: vt_defs)
  ultimately show ?thesis using integer_member_bounds(5) [OF assms] by (cases sg) auto
qed

text \<open>Real numbers in place of the machine's; numbers are stored in bytes as integers.\<close>

definition fpu_real :: "real fpu" where
  "fpu_real = dbl.extend dbl_real
     \<lparr>d_of_r4 = \<lambda>bs. real_of_int (signed_of 4 bs), d_of_r8 = \<lambda>bs. real_of_int (signed_of 8 bs),
      r4_of_d = \<lambda>d. cast_int 4 \<lfloor>d\<rfloor>, r8_of_d = \<lambda>d. cast_int 8 \<lfloor>d\<rfloor>,
      r4_of_int = cast_int 4, d_of_integer = real_of_int, d_trunc = \<lambda>d. Some \<lfloor>d\<rfloor>,
      d_is_zero = \<lambda>d. d = 0, d_less = (<), d_less_eq = (\<le>), d_equal = (=),
      d_printf = \<lambda>d. int_text \<lfloor>d\<rfloor> @ ''.000000'',
      d_scanf = \<lambda>s. scan_map (\<lambda>(neg, n). if neg then - real n else real n) (scan_integer s),
      r4_scanf = \<lambda>s. scan_map (\<lambda>(neg, n). cast_int 4 (if neg then - int n else int n)) (scan_integer s)\<rparr>"

section \<open>Properties of conversions\<close>

text \<open>
  A conversion that reports success gives a variant of the type that was asked for, or of one of
  the two types without a value.
\<close>

theorem change_type_sound:
  assumes "VariantChangeType F C dest src vt = Inr (S_OK, v)"
  shows "variant_type v = vt \<or> variant_type v \<in> {VT_NULL, VT_EMPTY} \<and> vt \<in> {VT_NULL, VT_EMPTY}"
  by (rule change_type_result [OF assms])

theorem change_type_sound_witness:
  "VariantChangeType fpu_real no_conv (Scalar VT_EMPTY []) (Scalar VT_I4 (cast_int 4 300)) VT_UI1 = Inr (S_OK, Scalar VT_UI1 (cast_int 1 300)) \<and>
   variant_type (Scalar VT_UI1 (cast_int 1 300)) = VT_UI1"
proof -
  have "VariantChangeType fpu_real no_conv (Scalar VT_EMPTY []) (Scalar VT_I4 (cast_int 4 300)) VT_UI1 = Inr (S_OK, Scalar VT_UI1 (cast_int 1 300))"
    by (rule VariantChangeType_integer [of _ 1 False]) (simp_all add: integer_type_def integer_member_def vt_defs members_cast)
  from this change_type_sound [OF this] show ?thesis by (simp add: vt_defs)
qed

text \<open>
  Between any two integer types a conversion succeeds, wraps the value around, and is exact for a
  value that the target type has.
\<close>

theorem integer_conversion_wraps:
  assumes "integer_type t = Some (w, sg)" "integer_type t' = Some (w', sg')" "integer_member t bs = Some v"
  shows "\<exists>bs'. VariantChangeType F C dest (Scalar t bs) t' = Inr (S_OK, Scalar t' bs') \<and>
    integer_member t' bs' = Some (wrapped w' sg' v) \<and>
    ((if sg' then - (2 ^ (8 * w' - 1)) \<le> v \<and> v < 2 ^ (8 * w' - 1) else 0 \<le> v \<and> v < 256 ^ w') \<longrightarrow> wrapped w' sg' v = v)"
  using VariantChangeType_integer [OF assms(2,3)] integer_member_cast [OF assms(2)] wrapped_exact [OF integer_type_width [OF assms(2)]] by blast

theorem integer_conversion_wraps_witness:
  "\<exists>bs. VariantChangeType fpu_real no_conv (Scalar VT_EMPTY []) (Scalar VT_UI2 [44, 1]) VT_I1 = Inr (S_OK, Scalar VT_I1 bs) \<and>
    integer_member VT_I1 bs = Some 44"
proof -
  have "integer_type VT_UI2 = Some (2, False)" "integer_type VT_I1 = Some (1, True)" "integer_member VT_UI2 [44, 1] = Some 300"
    by (simp_all add: integer_type_def integer_member_def unsigned_of_def vt_defs)
  from integer_conversion_wraps [OF this, of fpu_real no_conv "Scalar VT_EMPTY []"]
  show ?thesis by (auto simp: wrapped_def signed_take_bit_eq_take_bit_shift take_bit_eq_mod)
qed

text \<open>
  The text of a 64-bit integer is converted to \<^verbatim>\<open>VT_I8\<close> with the lowest byte alone, and
  a variant of type \<^verbatim>\<open>VT_I8\<close> is printed with its lowest byte alone: the two conversions
  of the type do not invert each other unless the number fits into a byte.
\<close>

theorem text_I8_keeps_low_byte:
  assumes "- (2 ^ 63) \<le> n" "n < 2 ^ 63"
  shows "VariantChangeType F C dest (Vt_bstr (Some (ascii_units (int_text n)))) VT_I8 =
      Inr (S_OK, Scalar VT_I8 (cast_int 8 (signed_take_bit 7 n))) \<and>
    VariantChangeType F C dest (Scalar VT_I8 (cast_int 8 n)) VT_BSTR =
      Inr (S_OK, Vt_bstr (Some (ascii_units (int_text (signed_take_bit 7 n)))))"
proof -
  have low: "signed_of 1 (cast_int 1 n) = signed_take_bit 7 n"
    using members_cast(1) [of 1 n] by simp
  have "take 1 (cast_int 8 n) = cast_int 1 n" by (rule take_cast) simp
  moreover have "take 63 (int_text (signed_take_bit 7 n)) = int_text (signed_take_bit 7 n)"
    using length_int_text [of "signed_take_bit 7 n"]
      signed_take_bit_int_greater_eq_minus_exp [of 7 n] signed_take_bit_int_less_exp [of 7 n] by simp
  ultimately show ?thesis
    using assms low scan_lld_int_text [of n] by (simp add: VariantChangeType_def vt_defs scanned_def print_scalar_def)
qed

theorem text_I8_keeps_low_byte_witness:
  "VariantChangeType fpu_real no_conv (Scalar VT_EMPTY []) (Vt_bstr (Some (ascii_units (int_text 256)))) VT_I8 =
     Inr (S_OK, Scalar VT_I8 (cast_int 8 0))"
  using text_I8_keeps_low_byte [of 256 fpu_real no_conv "Scalar VT_EMPTY []"]
  by (simp add: signed_take_bit_eq_take_bit_shift take_bit_eq_mod)

text \<open>
  C32: Every integer type other than \<^verbatim>\<open>VT_I8\<close> is converted to a text and back without loss.
\<close>

theorem variant_integer_roundtrip:
  assumes "integer_type t = Some (w, sg)" "t \<noteq> VT_I8" "length bs = w"
  shows "\<exists>s. VariantChangeType F C dest (Scalar t bs) VT_BSTR = Inr (S_OK, Vt_bstr (Some s)) \<and>
    VariantChangeType F C dest' (Vt_bstr (Some s)) t = Inr (S_OK, Scalar t bs)"
proof -
  obtain v where v: "integer_member t bs = Some v" using integer_member_type [OF assms(1)] by blast
  note b = integer_member_bounds [OF assms(1,3) v]
  let ?s = "ascii_units (int_text v)"
  have "take 63 (int_text v) = int_text v" using length_int_text [of v] b(2,3) by simp
  then have "VariantChangeType F C dest (Scalar t bs) VT_BSTR = Inr (S_OK, Vt_bstr (Some ?s))"
    using print_integer [OF assms v, of F] assms(1) by (auto simp: VariantChangeType_def integer_type_def vt_defs split: if_splits)
  moreover have "VariantChangeType F C dest' (Vt_bstr (Some ?s)) t = Inr (S_OK, Scalar t bs)"
    using assms(1)
    using b scan_lld_int_text [of v] scan_llu_dec_text [of "nat v"] assms(2,3) cast_signed [of "cast_int 1 v" 1]
    by (cases rule: integer_typeE) (simp_all add: VariantChangeType_def vt_defs scanned_def int_text_def)
  ultimately show ?thesis by blast
qed

theorem variant_integer_roundtrip_witness:
  "\<exists>s. VariantChangeType fpu_real no_conv (Scalar VT_EMPTY []) (Scalar VT_I2 [254, 255]) VT_BSTR = Inr (S_OK, Vt_bstr (Some s)) \<and>
     VariantChangeType fpu_real no_conv (Scalar VT_EMPTY []) (Vt_bstr (Some s)) VT_I2 = Inr (S_OK, Scalar VT_I2 [254, 255])"
  by (rule variant_integer_roundtrip [of VT_I2 2 True]) (simp_all add: integer_type_def vt_defs)

text \<open>
  An integer that is not negative is converted to the decimal number of the same value; a
  negative integer of every type becomes zero with a minus sign, and the conversion reports success.
\<close>

theorem integer_to_decimal:
  assumes "integer_type t = Some (w, sg)" "length bs = w" "integer_member t bs = Some v"
  shows "VariantChangeType F C dest (Scalar t bs) VT_DECIMAL =
    Inr (S_OK, Scalar VT_DECIMAL (dec_bytes
      (if v < 0 then no_decimal\<lparr>dec_sign := 0x80\<rparr> else no_decimal\<lparr>dec_Lo64 := word_of_int v\<rparr>)))"
  using assms(1) scalar_decimal_integer [OF assms, of F]
  by (cases rule: integer_typeE) (simp_all add: VariantChangeType_def vt_defs)

theorem integer_to_decimal_witness:
  "VariantChangeType fpu_real no_conv (Scalar VT_EMPTY []) (Scalar VT_I2 [254, 255]) VT_DECIMAL =
     Inr (S_OK, Scalar VT_DECIMAL (dec_bytes (no_decimal\<lparr>dec_sign := 0x80\<rparr>)))"
proof -
  have "integer_type VT_I2 = Some (2, True)" "integer_member VT_I2 [254, 255] = Some (- 2)"
    by (simp_all add: integer_type_def integer_member_def signed_of_def vt_defs signed_take_bit_eq_take_bit_shift take_bit_eq_mod)
  then show ?thesis using integer_to_decimal [of VT_I2 2 True "[254, 255]" "- 2"] by simp
qed

text \<open>
  A floating-point number whose text has 64 characters or more is printed past the end of the
  buffer when it is converted to a decimal.
\<close>

theorem long_number_overruns:
  assumes "64 \<le> length (d_printf F (d_of_r8 F bs))"
  shows "VariantChangeType F C dest (Scalar VT_R8 bs) VT_DECIMAL = Inl Out_Of_Bounds"
  using assms by (simp add: VariantChangeType_def vt_defs scalar_decimal_def)

theorem long_number_overruns_witness:
  "VariantChangeType (fpu_real\<lparr>d_printf := \<lambda>d. replicate 100 CHR ''1''\<rparr>) no_conv (Scalar VT_EMPTY []) (Scalar VT_R8 [0, 0, 0, 0, 0, 0, 89, 127]) VT_DECIMAL =
     Inl Out_Of_Bounds"
  by (rule long_number_overruns) simp

end
