(* ===== verification/Tablecache.thy ===== *)
theory Tablecache
  imports Varconvert "HOL-Library.Multiset" "HOL-Library.Option_ord"
begin

text \<open>
  Tables of the real-time cache: \<^verbatim>\<open>CTable\<close> of \<^verbatim>\<open>include/tablecache.cpp\<close> and
  \<^verbatim>\<open>CDBColumnInfo\<close> of \<^verbatim>\<open>include/udatabase.h\<close>.

  \<^item> A row is shared between tables (\<^verbatim>\<open>shared_ptr\<close>). The rows live in a store, a list of rows that
    only grows; a table holds their positions in it. An operation takes the store and returns it.
  \<^item> \<^verbatim>\<open>vector::at\<close> outside a row is the fault \<open>Out_Of_Bounds\<close>, a failed assertion
    the fault \<open>Assertion\<close>.
  \<^item> A query writes its result into another table than the one that is searched; it returns that
    table with the number that the code returns.
  \<^item> \<^verbatim>\<open>tolower\<close> is that of the C library in its default locale, \<^verbatim>\<open>std::sort\<close> is
    a parameter of \<open>Sort\<close>.
\<close>

section \<open>Columns and tables\<close>

record CDBColumnInfo =
  DBPath :: "nat list"
  TablePath :: "nat list"
  DisplayName :: "nat list"
  OriginalName :: "nat list"
  DeclaredType :: "nat list"
  Collation :: "nat list"
  ColumnSize :: "32 word"
  Flags :: "32 word"
  DataType :: nat
  Precision :: byte
  Scale :: byte

definition FLAG_PRIMARY_KEY :: "32 word" where "FLAG_PRIMARY_KEY = 0x4"
definition FLAG_AUTOINCREMENT :: "32 word" where "FLAG_AUTOINCREMENT = 0x8"

type_synonym rowstore = "VARIANT list list"

record CTable =
  first_meta :: "CDBColumnInfo list"
  second_rows :: "nat list"
  m_bFieldNameCaseSensitive :: bool
  m_bDataCaseSensitive :: bool

datatype Operator = Op_equal | Op_great | Op_less | Op_great_equal | Op_less_equal | Op_not_equal | Op_is_null

definition BAD_ORDINAL :: int where "BAD_ORDINAL = -1"
definition BAD_DATA_TYPE :: int where "BAD_DATA_TYPE = -2"
definition OPERATION_NOT_SUPPORTED :: int where "OPERATION_NOT_SUPPORTED = -3"
definition COMPARISON_NOT_SUPPORTED :: int where "COMPARISON_NOT_SUPPORTED = -4"
definition NO_TABLE_NAME_GIVEN :: int where "NO_TABLE_NAME_GIVEN = -5"
definition NO_TABLE_FOUND :: int where "NO_TABLE_FOUND = -6"
definition INVALID_ORDINAL :: nat where "INVALID_ORDINAL = 4294967295"

lemmas table_codes = BAD_ORDINAL_def BAD_DATA_TYPE_def OPERATION_NOT_SUPPORTED_def COMPARISON_NOT_SUPPORTED_def
  NO_TABLE_NAME_GIVEN_def NO_TABLE_FOUND_def

definition CTable_new :: "CDBColumnInfo list \<Rightarrow> bool \<Rightarrow> bool \<Rightarrow> CTable" where
  "CTable_new meta bFieldNameCaseSensitive bDataCaseSensitive =
     \<lparr>first_meta = meta, second_rows = [], m_bFieldNameCaseSensitive = bFieldNameCaseSensitive, m_bDataCaseSensitive = bDataCaseSensitive\<rparr>"

definition key_column :: "CDBColumnInfo \<Rightarrow> bool" where
  "key_column m \<longleftrightarrow> and (Flags m) (or FLAG_PRIMARY_KEY FLAG_AUTOINCREMENT) \<noteq> 0"

fun tbl_GetKeys_loop :: "nat \<Rightarrow> CDBColumnInfo list \<Rightarrow> (nat \<times> CDBColumnInfo) list" where
  "tbl_GetKeys_loop col [] = []"
| "tbl_GetKeys_loop col (m # ms) = (if key_column m then (col, m) # tbl_GetKeys_loop (col + 1) ms else tbl_GetKeys_loop (col + 1) ms)"

definition tbl_GetKeys :: "CTable \<Rightarrow> (nat \<times> CDBColumnInfo) list" where
  "tbl_GetKeys t = tbl_GetKeys_loop 0 (first_meta t)"

section \<open>Comparing texts and names\<close>

definition tolower :: "int \<Rightarrow> int" where
  "tolower c = (if 65 \<le> c \<and> c \<le> 90 then c + 32 else c)"

definition UCompareNoCase :: "int list option \<Rightarrow> int list option \<Rightarrow> int" where
  "UCompareNoCase s1 s2 =
     (case s1 of
        None \<Rightarrow> (case s2 of None \<Rightarrow> 0 | Some _ \<Rightarrow> -1)
      | Some a \<Rightarrow> (case s2 of None \<Rightarrow> 1 | Some b \<Rightarrow> UCompare_loop (map tolower a) (map tolower b)))"

lemma UCompare_loop_same: "UCompare_loop s s = 0"
  by (induction s) (subst UCompare_loop.simps, simp add: unit_at_def)+

lemma UCompareNoCase_same: "UCompareNoCase s s = 0"
  by (cases s) (simp_all add: UCompareNoCase_def UCompare_loop_same)

text \<open>A text of 16-bit units up to its first null, as the comparisons read it.\<close>

definition text_of :: "nat list option \<Rightarrow> int list option" where
  "text_of s = map_option (\<lambda>s. map int (c_units s)) s"

definition compare_texts :: "bool \<Rightarrow> nat list option \<Rightarrow> nat list option \<Rightarrow> int" where
  "compare_texts case_sensitive s0 s1 =
     (if case_sensitive then UCompare (text_of s0) (text_of s1) else UCompareNoCase (text_of s0) (text_of s1))"

definition IsEqual_names :: "nat list option \<Rightarrow> nat list option \<Rightarrow> bool \<Rightarrow> bool" where
  "IsEqual_names s0 s1 case_sensitive \<longleftrightarrow> 0 = compare_texts case_sensitive s0 s1"

fun FindOrdinal_loop :: "bool \<Rightarrow> nat list option \<Rightarrow> nat \<Rightarrow> CDBColumnInfo list \<Rightarrow> nat" where
  "FindOrdinal_loop cs str ordinal [] = INVALID_ORDINAL"
| "FindOrdinal_loop cs str ordinal (m # ms) =
     (if IsEqual_names (Some (OriginalName m)) str cs then ordinal else FindOrdinal_loop cs str (ordinal + 1) ms)"

definition FindOrdinal :: "CTable \<Rightarrow> nat list option \<Rightarrow> nat" where
  "FindOrdinal t str =
     (if str = None then INVALID_ORDINAL else FindOrdinal_loop (m_bFieldNameCaseSensitive t) str 0 (first_meta t))"

section \<open>Comparing values\<close>

text \<open>The six comparisons differ in what they do with a pair of values of the same type.\<close>

record 'd comparison =
  on_int :: "int \<Rightarrow> int \<Rightarrow> bool"
  on_double :: "'d \<Rightarrow> 'd \<Rightarrow> bool"
  on_decimal :: "byte list \<Rightarrow> byte list \<Rightarrow> bool"
  on_bool :: "int \<Rightarrow> int \<Rightarrow> bool"

definition as_int :: "bool \<Rightarrow> int" where
  "as_int b = (if b then 1 else 0)"

definition sizeof_UUID :: nat where "sizeof_UUID = 16"

fun memcmp :: "byte list \<Rightarrow> byte list \<Rightarrow> int" where
  "memcmp (x # xs) (y # ys) = (if x = y then memcmp xs ys else uint x - uint y)"
| "memcmp _ _ = 0"

definition compare_scalars :: "'d fpu \<Rightarrow> 'd comparison \<Rightarrow> nat \<Rightarrow> byte list \<Rightarrow> byte list \<Rightarrow> int" where
  "compare_scalars F R t b0 b1 =
     (if t = VT_BOOL then as_int (on_bool R (signed_of 2 b0) (signed_of 2 b1))
      else if t = VT_DATE then as_int (on_int R (unsigned_of b0) (unsigned_of b1))
      else if t = VT_DECIMAL then as_int (on_decimal R b0 b1)
      else case (integer_member t b0, integer_member t b1) of
             (Some i, Some j) \<Rightarrow> as_int (on_int R i j)
           | _ \<Rightarrow>
               if t = VT_R4 then as_int (on_double R (d_of_r4 F b0) (d_of_r4 F b1))
               else if t = VT_R8 then as_int (on_double R (d_of_r8 F b0) (d_of_r8 F b1))
               else COMPARISON_NOT_SUPPORTED)"

definition compare_values :: "'d fpu \<Rightarrow> bool \<Rightarrow> 'd comparison \<Rightarrow> VARIANT \<Rightarrow> VARIANT \<Rightarrow> fault + int" where
  "compare_values F cs R vt0 vt1 =
     (if variant_type vt0 \<le> VT_NULL then Inr 0
      else bindr (require (variant_type vt0 = variant_type vt1)) (\<lambda>_.
        case (vt0, vt1) of
          (Scalar t b0, Scalar _ b1) \<Rightarrow> Inr (compare_scalars F R t b0 b1)
        | (Vt_bstr s0, Vt_bstr s1) \<Rightarrow> Inr (as_int (on_int R (compare_texts cs s0 s1) 0))
        | (Fixed_array t n0 b0, Fixed_array _ n1 b1) \<Rightarrow>
            if t = VT_UI1 \<and> n0 = n1 \<and> n0 = sizeof_UUID
            then bindr (mem_read b0 0 sizeof_UUID) (\<lambda>s0. bindr (mem_read b1 0 sizeof_UUID) (\<lambda>s1.
                 Inr (as_int (on_int R (memcmp s0 s1) 0))))
            else Inr COMPARISON_NOT_SUPPORTED
        | _ \<Rightarrow> Inr COMPARISON_NOT_SUPPORTED))"

text \<open>
  \<^verbatim>\<open>VARIANT_TRUE\<close> is -1, so the order of booleans is turned around. Decimals are ordered by
  their floating-point values and equal when their bytes are; only \<open>eq\<close> takes every number but 0 for true.
\<close>

definition value_of :: "'d fpu \<Rightarrow> byte list \<Rightarrow> 'd" where
  "value_of F b = ToDouble F (dec_of b)"

definition gt :: "'d fpu \<Rightarrow> bool \<Rightarrow> VARIANT \<Rightarrow> VARIANT \<Rightarrow> fault + int" where
  "gt F cs = compare_values F cs \<lparr>on_int = (>), on_double = (\<lambda>a b. d_less F b a),
     on_decimal = (\<lambda>a b. d_less F (value_of F b) (value_of F a)), on_bool = (<)\<rparr>"

definition ge :: "'d fpu \<Rightarrow> bool \<Rightarrow> VARIANT \<Rightarrow> VARIANT \<Rightarrow> fault + int" where
  "ge F cs = compare_values F cs \<lparr>on_int = (\<ge>), on_double = (\<lambda>a b. d_less_eq F b a),
     on_decimal = (\<lambda>a b. d_less_eq F (value_of F b) (value_of F a)), on_bool = (\<le>)\<rparr>"

definition lt :: "'d fpu \<Rightarrow> bool \<Rightarrow> VARIANT \<Rightarrow> VARIANT \<Rightarrow> fault + int" where
  "lt F cs = compare_values F cs \<lparr>on_int = (<), on_double = (\<lambda>a b. d_less F a b),
     on_decimal = (\<lambda>a b. d_less F (value_of F a) (value_of F b)), on_bool = (>)\<rparr>"

definition le :: "'d fpu \<Rightarrow> bool \<Rightarrow> VARIANT \<Rightarrow> VARIANT \<Rightarrow> fault + int" where
  "le F cs = compare_values F cs \<lparr>on_int = (\<le>), on_double = (\<lambda>a b. d_less_eq F a b),
     on_decimal = (\<lambda>a b. d_less_eq F (value_of F a) (value_of F b)), on_bool = (\<ge>)\<rparr>"

definition eq :: "'d fpu \<Rightarrow> bool \<Rightarrow> VARIANT \<Rightarrow> VARIANT \<Rightarrow> fault + int" where
  "eq F cs = compare_values F cs \<lparr>on_int = (=), on_double = (\<lambda>a b. d_equal F a b),
     on_decimal = (=), on_bool = (\<lambda>a b. (a \<noteq> 0) = (b \<noteq> 0))\<rparr>"

definition neq :: "'d fpu \<Rightarrow> bool \<Rightarrow> VARIANT \<Rightarrow> VARIANT \<Rightarrow> fault + int" where
  "neq F cs = compare_values F cs \<lparr>on_int = (\<noteq>), on_double = (\<lambda>a b. \<not> d_equal F a b),
     on_decimal = (\<noteq>), on_bool = (\<noteq>)\<rparr>"

section \<open>Queries\<close>

definition ChangeType :: "'d fpu \<Rightarrow> text_conv \<Rightarrow> VARIANT \<Rightarrow> nat \<Rightarrow> fault + (int \<times> VARIANT)" where
  "ChangeType F C vtSrc vtTarget =
     (let change = bindr (VariantChangeType F C (Scalar VT_EMPTY []) vtSrc vtTarget)
                     (\<lambda>(hr, v). Inr (if hr = S_OK then 0 else BAD_DATA_TYPE, v)) in
      case vtSrc of
        Fixed_array t n bs \<Rightarrow>
          if t = VT_I1 \<and> vtTarget = VT_BSTR
          then bindr (mem_read bs 0 n) (\<lambda>s. Inr (0, Vt_bstr (Some (of_utf8 C s))))
          else change
      | _ \<Rightarrow> change)"

fun ChangeTypes :: "'d fpu \<Rightarrow> text_conv \<Rightarrow> VARIANT list \<Rightarrow> nat \<Rightarrow> VARIANT list \<Rightarrow> fault + (int \<times> VARIANT list)" where
  "ChangeTypes F C [] type v = Inr (0, v)"
| "ChangeTypes F C (x # xs) type v =
     bindr (ChangeType F C x type) (\<lambda>(hr, vt). if hr \<noteq> 0 then Inr (hr, v) else ChangeTypes F C xs type (v @ [vt]))"

text \<open>The type of the cells of a column: texts are kept as strings of 16-bit units.\<close>

definition cell_type :: "nat \<Rightarrow> nat" where
  "cell_type t = (if t = VT_ARRAY + VT_I1 then VT_BSTR else t)"

definition cell_at :: "rowstore \<Rightarrow> nat \<Rightarrow> nat \<Rightarrow> fault + VARIANT" where
  "cell_at h r n = (if r < length h \<and> n < length (h ! r) then Inr (h ! r ! n) else Inl Out_Of_Bounds)"

definition copy_variant :: "VARIANT \<Rightarrow> VARIANT" where
  "copy_variant v = snd (VariantCopy v)"

definition copy_row :: "nat \<Rightarrow> rowstore \<Rightarrow> nat \<Rightarrow> fault + (rowstore \<times> nat)" where
  "copy_row cols h r =
     (if r < length h \<and> cols \<le> length (h ! r) then Inr (h @ [map copy_variant (take cols (h ! r))], length h) else Inl Out_Of_Bounds)"

text \<open>
  The loop that all queries have: \<open>test\<close> is what is done with the cell of a row. A negative
  result ends the query with the rows found so far.
\<close>

fun query_loop :: "(VARIANT \<Rightarrow> fault + int) \<Rightarrow> nat \<Rightarrow> nat \<Rightarrow> bool \<Rightarrow> rowstore \<Rightarrow> nat list \<Rightarrow> nat list \<Rightarrow> fault + (rowstore \<times> nat list \<times> int)" where
  "query_loop test ordinal cols copyData h [] out = Inr (h, out, 1)"
| "query_loop test ordinal cols copyData h (r # rs) out =
     bindr (cell_at h r ordinal) (\<lambda>v0. bindr (test v0) (\<lambda>res.
     if res < 0 then Inr (h, out, res)
     else if res = 0 then query_loop test ordinal cols copyData h rs out
     else if copyData then bindr (copy_row cols h r) (\<lambda>(h, p). query_loop test ordinal cols copyData h rs (out @ [p]))
     else query_loop test ordinal cols copyData h rs (out @ [r])))"

definition run_query :: "CTable \<Rightarrow> (VARIANT \<Rightarrow> fault + int) \<Rightarrow> nat \<Rightarrow> bool \<Rightarrow> rowstore \<Rightarrow> fault + (rowstore \<times> CTable \<times> int)" where
  "run_query t test ordinal copyData h =
     bindr (query_loop test ordinal (length (first_meta t)) copyData h (second_rows t) []) (\<lambda>(h, out, res).
     Inr (h, t\<lparr>second_rows := out\<rparr>, res))"

text \<open>The result of a query that stops before the rows are searched: the columns and no rows.\<close>

definition no_rows :: "CTable \<Rightarrow> rowstore \<Rightarrow> int \<Rightarrow> fault + (rowstore \<times> CTable \<times> int)" where
  "no_rows t h res = Inr (h, t\<lparr>second_rows := []\<rparr>, res)"

definition compare_op :: "'d fpu \<Rightarrow> bool \<Rightarrow> Operator \<Rightarrow> VARIANT \<Rightarrow> VARIANT \<Rightarrow> fault + int" where
  "compare_op F cs op v0 v =
     (case op of
        Op_equal \<Rightarrow> eq F cs v0 v
      | Op_not_equal \<Rightarrow> neq F cs v0 v
      | Op_great \<Rightarrow> gt F cs v0 v
      | Op_great_equal \<Rightarrow> ge F cs v0 v
      | Op_less \<Rightarrow> lt F cs v0 v
      | Op_less_equal \<Rightarrow> le F cs v0 v
      | Op_is_null \<Rightarrow> Inr (as_int (variant_type v0 = VT_NULL \<or> variant_type v0 = VT_EMPTY)))"

definition tbl_Find :: "'d fpu \<Rightarrow> text_conv \<Rightarrow> rowstore \<Rightarrow> CTable \<Rightarrow> nat \<Rightarrow> Operator \<Rightarrow> VARIANT \<Rightarrow> bool \<Rightarrow> fault + (rowstore \<times> CTable \<times> int)" where
  "tbl_Find F C h t ordinal op vt copyData =
     (if ordinal \<ge> length (first_meta t) then no_rows t h BAD_ORDINAL
      else if variant_type vt \<le> VT_NULL \<and> op \<noteq> Op_is_null then no_rows t h COMPARISON_NOT_SUPPORTED
      else if op = Op_is_null
      then run_query t (\<lambda>v0. compare_op F (m_bDataCaseSensitive t) op v0 vt) ordinal copyData h
      else bindr (ChangeType F C vt (cell_type (DataType (first_meta t ! ordinal)))) (\<lambda>(hr, v).
        if hr \<noteq> 0 then no_rows t h hr
        else run_query t (\<lambda>v0. compare_op F (m_bDataCaseSensitive t) op v0 v) ordinal copyData h))"

definition FindNull :: "'d fpu \<Rightarrow> text_conv \<Rightarrow> rowstore \<Rightarrow> CTable \<Rightarrow> nat \<Rightarrow> bool \<Rightarrow> fault + (rowstore \<times> CTable \<times> int)" where
  "FindNull F C h t ordinal copyData = tbl_Find F C h t ordinal Op_is_null (Scalar VT_EMPTY []) copyData"

fun any_equal :: "(VARIANT \<Rightarrow> fault + int) \<Rightarrow> VARIANT list \<Rightarrow> fault + bool" where
  "any_equal f [] = Inr False"
| "any_equal f (x # xs) = bindr (f x) (\<lambda>r. if r > 0 then Inr True else any_equal f xs)"

definition In_values :: "'d fpu \<Rightarrow> bool \<Rightarrow> VARIANT list \<Rightarrow> VARIANT \<Rightarrow> fault + bool" where
  "In_values F cs v v0 = any_equal (\<lambda>v1. eq F cs v1 v0) v"

definition In :: "'d fpu \<Rightarrow> text_conv \<Rightarrow> rowstore \<Rightarrow> CTable \<Rightarrow> nat \<Rightarrow> VARIANT list \<Rightarrow> bool \<Rightarrow> fault + (rowstore \<times> CTable \<times> int)" where
  "In F C h t ordinal vArray copyData =
     (if vArray = [] then no_rows t h 1
      else if ordinal \<ge> length (first_meta t) then no_rows t h BAD_ORDINAL
      else bindr (ChangeTypes F C vArray (cell_type (DataType (first_meta t ! ordinal))) []) (\<lambda>(hr, v).
        if hr \<noteq> 0 then no_rows t h hr
        else run_query t (\<lambda>v0. bindr (any_equal (\<lambda>v1. eq F (m_bDataCaseSensitive t) v0 v1) v) (\<lambda>ok. Inr (as_int ok))) ordinal copyData h))"

definition NotIn :: "'d fpu \<Rightarrow> text_conv \<Rightarrow> rowstore \<Rightarrow> CTable \<Rightarrow> nat \<Rightarrow> VARIANT list \<Rightarrow> bool \<Rightarrow> fault + (rowstore \<times> CTable \<times> int)" where
  "NotIn F C h t ordinal vArray copyData =
     (if ordinal \<ge> length (first_meta t) then no_rows t h BAD_ORDINAL
      else bindr (ChangeTypes F C vArray (cell_type (DataType (first_meta t ! ordinal))) []) (\<lambda>(hr, v).
        if hr \<noteq> 0 then no_rows t h hr
        else run_query t (\<lambda>v0. if variant_type v0 > VT_NULL
               then bindr (In_values F (m_bDataCaseSensitive t) v v0) (\<lambda>ok. Inr (as_int (\<not> ok)))
               else Inr 0) ordinal copyData h))"

definition Between :: "'d fpu \<Rightarrow> text_conv \<Rightarrow> rowstore \<Rightarrow> CTable \<Rightarrow> nat \<Rightarrow> VARIANT \<Rightarrow> VARIANT \<Rightarrow> bool \<Rightarrow> fault + (rowstore \<times> CTable \<times> int)" where
  "Between F C h t ordinal vt0 vt1 copyData =
     (let cs = m_bDataCaseSensitive t in
      if ordinal \<ge> length (first_meta t) then no_rows t h BAD_ORDINAL
      else if variant_type vt0 \<le> VT_NULL \<or> variant_type vt1 \<le> VT_NULL then no_rows t h COMPARISON_NOT_SUPPORTED
      else let type = cell_type (DataType (first_meta t ! ordinal)) in
        bindr (ChangeType F C vt0 type) (\<lambda>(hr, v0).
        if hr \<noteq> 0 then no_rows t h hr
        else bindr (ChangeType F C vt1 type) (\<lambda>(hr, v1).
        if hr \<noteq> 0 then no_rows t h BAD_DATA_TYPE
        else bindr (gt F cs v0 v1) (\<lambda>res.
        if res < 0 then no_rows t h res
        else let (small_vt, large_vt) = (if res \<noteq> 0 then (v1, v0) else (v0, v1)) in
          run_query t (\<lambda>vt. bindr (ge F cs vt small_vt) (\<lambda>res. if res \<le> 0 then Inr res else le F cs vt large_vt)) ordinal copyData h))))"

section \<open>Sorting and appending\<close>

text \<open>
  The order of rows that \<open>Sort\<close> gives to \<^verbatim>\<open>std::sort\<close>. The parameter
  \<open>sort_by\<close> stands for that function; a pair of rows that cannot be compared makes the model of the call a fault,
  although the library need not compare every pair.
\<close>

definition row_before :: "'d fpu \<Rightarrow> bool \<Rightarrow> bool \<Rightarrow> VARIANT \<Rightarrow> VARIANT \<Rightarrow> fault + bool" where
  "row_before F cs desc va vb =
     (if variant_type vb \<le> VT_NULL \<and> variant_type va \<le> VT_NULL then Inr False
      else if desc then
        if variant_type vb \<le> VT_NULL then Inr True
        else if variant_type va \<le> VT_NULL then Inr False
        else bindr (gt F cs va vb) (\<lambda>r. Inr (r > 0))
      else if variant_type va \<le> VT_NULL then Inr True
      else if variant_type vb \<le> VT_NULL then Inr False
      else bindr (lt F cs va vb) (\<lambda>r. Inr (r > 0)))"

definition rows_before :: "'d fpu \<Rightarrow> bool \<Rightarrow> bool \<Rightarrow> rowstore \<Rightarrow> nat \<Rightarrow> nat \<Rightarrow> nat \<Rightarrow> fault + bool" where
  "rows_before F cs desc h ordinal a b =
     bindr (cell_at h a ordinal) (\<lambda>va. bindr (cell_at h b ordinal) (\<lambda>vb. row_before F cs desc va vb))"

fun first_fault :: "(fault + 'a) list \<Rightarrow> fault + unit" where
  "first_fault [] = Inr ()"
| "first_fault (r # rs) = bindr r (\<lambda>_. first_fault rs)"

definition Sort :: "((nat \<Rightarrow> nat \<Rightarrow> bool) \<Rightarrow> nat list \<Rightarrow> nat list) \<Rightarrow> 'd fpu \<Rightarrow> rowstore \<Rightarrow> CTable \<Rightarrow> nat \<Rightarrow> bool \<Rightarrow> fault + (CTable \<times> int)" where
  "Sort sort_by F h t ordinal desc =
     (if ordinal \<ge> length (first_meta t) then Inr (t, BAD_ORDINAL)
      else let before = rows_before F (m_bDataCaseSensitive t) desc h ordinal; rows = second_rows t in
        bindr (first_fault (concat (map (\<lambda>a. map (before a) rows) rows))) (\<lambda>_.
        Inr (t\<lparr>second_rows := sort_by (\<lambda>a b. before a b = Inr True) rows\<rparr>, 1)))"

definition Append :: "CTable \<Rightarrow> CTable \<Rightarrow> CTable \<times> int" where
  "Append t tbl =
     (if length (first_meta t) \<noteq> length (first_meta tbl) then (t, OPERATION_NOT_SUPPORTED)
      else if first_meta t \<noteq> first_meta tbl then (t, OPERATION_NOT_SUPPORTED)
      else (t\<lparr>second_rows := second_rows t @ second_rows tbl\<rparr>, 1))"

section \<open>Comparisons that are defined\<close>

text \<open>
  A cell is null or of the type of its column, an argument that was converted to the type of the
  column is null only in a column of nulls.
\<close>

definition sized_array :: "VARIANT \<Rightarrow> bool" where
  "sized_array v = (case v of Fixed_array t n bs \<Rightarrow> t = VT_UI1 \<or> t = VT_I1 \<longrightarrow> n \<le> length bs | _ \<Rightarrow> True)"

definition good_cell :: "nat \<Rightarrow> VARIANT \<Rightarrow> bool" where
  "good_cell t v \<longleftrightarrow> variant_type v \<le> VT_NULL \<or> variant_type v = cell_type t \<and> sized_array v"

definition good_argument :: "nat \<Rightarrow> VARIANT \<Rightarrow> bool" where
  "good_argument t v \<longleftrightarrow> good_cell t v \<and> (variant_type v \<le> VT_NULL \<longrightarrow> cell_type t \<le> VT_NULL)"

lemma compare_values_total:
  assumes "variant_type v0 \<le> VT_NULL \<or> variant_type v0 = variant_type v1 \<and> sized_array v0 \<and> sized_array v1"
  shows "\<exists>k. compare_values F cs R v0 v1 = Inr k"
  using assms
  by (cases v0; cases v1) (auto simp: compare_values_def sized_array_def mem_read_def sizeof_UUID_def)

lemmas comparison_defs = gt_def ge_def lt_def le_def eq_def neq_def

lemma good_pair:
  assumes "good_cell t v0" "good_argument t v1"
  shows "variant_type v0 \<le> VT_NULL \<or> variant_type v0 = variant_type v1 \<and> sized_array v0 \<and> sized_array v1"
    and "variant_type v1 \<le> VT_NULL \<or> variant_type v0 \<le> VT_NULL \<or> variant_type v1 = variant_type v0 \<and> sized_array v0 \<and> sized_array v1"
  using assms by (auto simp: good_cell_def good_argument_def)

lemma good_argument_self:
  "good_argument t v0 \<Longrightarrow> good_argument t v1 \<Longrightarrow> variant_type v0 \<le> VT_NULL \<or> variant_type v0 = variant_type v1 \<and> sized_array v0 \<and> sized_array v1"
  by (auto simp: good_cell_def good_argument_def)

lemma comparisons_total:
  assumes "good_cell t v0" "good_argument t v1"
  shows "\<exists>k. gt F cs v0 v1 = Inr k" "\<exists>k. ge F cs v0 v1 = Inr k" "\<exists>k. lt F cs v0 v1 = Inr k" "\<exists>k. le F cs v0 v1 = Inr k"
    "\<exists>k. eq F cs v0 v1 = Inr k" "\<exists>k. neq F cs v0 v1 = Inr k"
  unfolding comparison_defs by (rule compare_values_total [OF good_pair(1) [OF assms]])+

lemma compare_op_total:
  assumes "good_cell t v0" "op \<noteq> Op_is_null \<longrightarrow> good_argument t v1"
  shows "\<exists>k. compare_op F cs op v0 v1 = Inr k"
  using assms comparisons_total [OF assms(1), of v1 F cs] by (cases op) (simp_all add: compare_op_def)

lemma VariantChangeType_no_array:
  assumes "VariantChangeType F C dest src vt = Inr (S_OK, v)"
  shows "variant_type v < VT_ARRAY"
proof -
  have "variant_type v = vt \<or> variant_type v \<in> {VT_NULL, VT_EMPTY}"
    using change_type_result [OF assms] by blast
  moreover have "vt < VT_ARRAY \<or> vt = 0x8000"
    using no_array_targets [of vt F C dest src] assms mismatch_not_ok [of v] by (metis not_less)
  moreover have "vt \<noteq> 0x8000"
    using assms by (auto simp: VariantChangeType_def vt_defs bad_targets_def)
  ultimately show ?thesis by (auto simp: vt_defs)
qed

lemma small_type_sized: "variant_type v < VT_ARRAY \<Longrightarrow> sized_array v"
  by (cases v) (auto simp: sized_array_def)

lemma ChangeType_good:
  assumes "ChangeType F C src (cell_type t) = Inr (0, v)"
  shows "good_argument t v"
proof -
  have change: "good_argument t v" if "bindr (VariantChangeType F C (Scalar VT_EMPTY []) src (cell_type t))
      (\<lambda>(hr, v). Inr (if hr = S_OK then 0 else BAD_DATA_TYPE, v)) = Inr (0, v)"
  proof -
    have *: "VariantChangeType F C (Scalar VT_EMPTY []) src (cell_type t) = Inr (S_OK, v)"
      using that by (auto simp: bindr_Inr_iff table_codes split: if_splits)
    then show ?thesis
      using change_type_result VariantChangeType_no_array small_type_sized
      by (fastforce simp: good_argument_def good_cell_def vt_defs)
  qed
  show ?thesis
  proof (cases src)
    case (Fixed_array s n bs)
    with assms change show ?thesis
      by (auto simp: ChangeType_def Let_def bindr_Inr_iff good_argument_def good_cell_def sized_array_def vt_defs split: if_splits)
  qed (use assms change in \<open>simp_all add: ChangeType_def\<close>)
qed

lemma ChangeTypes_good:
  "ChangeTypes F C xs (cell_type t) acc = Inr (0, v) \<Longrightarrow> list_all (good_argument t) acc \<Longrightarrow> list_all (good_argument t) v"
  by (induction xs arbitrary: acc) (auto simp: bindr_Inr_iff split: if_splits dest: ChangeType_good)

lemma any_equal_total: "\<forall>x \<in> set xs. \<exists>k. f x = Inr k \<Longrightarrow> \<exists>b. any_equal f xs = Inr b"
  by (induction xs) auto

section \<open>Queries that are defined\<close>

definition good_row :: "CDBColumnInfo list \<Rightarrow> VARIANT list \<Rightarrow> bool" where
  "good_row meta row \<longleftrightarrow> list_all2 (\<lambda>m v. good_cell (DataType m) v) meta row"

definition table_ok :: "rowstore \<Rightarrow> CTable \<Rightarrow> bool" where
  "table_ok h t \<longleftrightarrow> (\<forall>r \<in> set (second_rows t). r < length h \<and> good_row (first_meta t) (h ! r))"

lemma good_row_cell: "good_row meta row \<Longrightarrow> n < length meta \<Longrightarrow> n < length row \<and> good_cell (DataType (meta ! n)) (row ! n)"
  by (auto simp: good_row_def list_all2_conv_all_nth)

lemma good_row_length: "good_row meta row \<Longrightarrow> length row = length meta"
  by (auto simp: good_row_def list_all2_conv_all_nth)

lemma good_cell_copy: "good_cell t v \<Longrightarrow> good_cell t (copy_variant v)"
  by (cases v rule: VariantCopy.cases) (auto simp: good_cell_def copy_variant_def sized_array_def SysAllocString_def vt_defs split: option.splits)

lemma good_row_copy: "good_row meta row \<Longrightarrow> good_row meta (map copy_variant (take (length meta) row))"
  by (auto simp: good_row_def list_all2_conv_all_nth good_cell_copy)

text \<open>A test of cells that is defined on the column makes the query defined; it only adds rows to the store.\<close>

lemma query_loop_total:
  assumes "\<forall>r \<in> set rs. r < length h \<and> ordinal < length (h ! r) \<and> cols \<le> length (h ! r) \<and> (\<exists>k. test (h ! r ! ordinal) = Inr k)"
  shows "\<exists>new out' k. query_loop test ordinal cols copyData h rs out = Inr (h @ new, out', k)"
  using assms
proof (induction rs arbitrary: h out)
  case (Cons r rs)
  then obtain k where r: "cell_at h r ordinal = Inr (h ! r ! ordinal)" "test (h ! r ! ordinal) = Inr k"
    by (auto simp: cell_at_def)
  have rest: "\<forall>r \<in> set rs. r < length (h @ g) \<and> ordinal < length ((h @ g) ! r) \<and> cols \<le> length ((h @ g) ! r) \<and> (\<exists>k. test ((h @ g) ! r ! ordinal) = Inr k)" for g
    using Cons.prems by (auto simp: nth_append)
  have "\<exists>new out' k. query_loop test ordinal cols copyData (h @ g) rs out = Inr (h @ new, out', k)" for out g
    using Cons.IH [OF rest, of g out] by auto
  from this [of "[]"] this [of "[x]" for x] r show ?case
    using Cons.prems by (cases copyData) (simp_all add: copy_row_def)
qed auto

lemma query_loop_store:
  "query_loop test ordinal cols copyData h rs out = Inr (h', out', k) \<Longrightarrow>
   \<exists>new. h' = h @ new \<and> (copyData \<longrightarrow> set out' \<subseteq> set out \<union> {length h ..< length h'}) \<and> (\<not> copyData \<longrightarrow> new = [] \<and> set out' \<subseteq> set out \<union> set rs)"
proof (induction rs arbitrary: h out)
  case (Cons r rs)
  then obtain v0 res where v: "cell_at h r ordinal = Inr v0" "test v0 = Inr res" by (auto simp: bindr_Inr_iff)
  consider "res < 0" | "res = 0" | "0 < res" copyData | "0 < res" "\<not> copyData" by linarith
  then show ?case
  proof cases
    case 3
    with Cons.prems v obtain row where c: "copy_row cols h r = Inr (h @ [row], length h)"
      "query_loop test ordinal cols copyData (h @ [row]) rs (out @ [length h]) = Inr (h', out', k)"
      by (auto simp: copy_row_def split: if_splits)
    from Cons.IH [OF c(2)] 3 show ?thesis by fastforce
  next
    case 4
    with Cons.prems v have "query_loop test ordinal cols copyData h rs (out @ [r]) = Inr (h', out', k)" by simp
    from Cons.IH [OF this] 4 show ?thesis by auto
  next
    case 2
    with Cons.prems v have "query_loop test ordinal cols copyData h rs out = Inr (h', out', k)" by simp
    from Cons.IH [OF this] show ?thesis by auto
  qed (use Cons.prems v in auto)
qed auto

text \<open>A query that copies: the cells of the rows that pass the test, in their order.\<close>

lemma query_loop_copies:
  assumes "\<forall>r \<in> set rs. r < length h \<and> ordinal < length (h ! r) \<and> cols \<le> length (h ! r) \<and> test (h ! r ! ordinal) = Inr (as_int (P (h ! r ! ordinal)))"
  shows "query_loop test ordinal cols True h rs out =
    (let found = filter (\<lambda>r. P (h ! r ! ordinal)) rs in
     Inr (h @ map (\<lambda>r. map copy_variant (take cols (h ! r))) found, out @ [length h ..< length h + length found], 1))"
  using assms
proof (induction rs arbitrary: h out)
  case (Cons r rs)
  then have r: "cell_at h r ordinal = Inr (h ! r ! ordinal)" "test (h ! r ! ordinal) = Inr (as_int (P (h ! r ! ordinal)))"
    by (auto simp: cell_at_def)
  show ?case
  proof (cases "P (h ! r ! ordinal)")
    case False
    with Cons r show ?thesis by (simp add: as_int_def)
  next
    case True
    define x where "x = map copy_variant (take cols (h ! r))"
    have rest: "\<forall>r \<in> set rs. (h @ [x]) ! r = h ! r" using Cons.prems by (auto simp: nth_append)
    then have f: "filter (\<lambda>r. P ((h @ [x]) ! r ! ordinal)) rs = filter (\<lambda>r. P (h ! r ! ordinal)) rs"
      by (intro filter_cong) auto
    have m: "map (\<lambda>r. map copy_variant (take cols ((h @ [x]) ! r))) (filter (\<lambda>r. P (h ! r ! ordinal)) rs) =
        map (\<lambda>r. map copy_variant (take cols (h ! r))) (filter (\<lambda>r. P (h ! r ! ordinal)) rs)"
      using rest by (intro map_cong) auto
    have "copy_row cols h r = Inr (h @ [x], length h)" using Cons.prems by (simp add: copy_row_def x_def)
    moreover have "\<forall>r \<in> set rs. r < length (h @ [x]) \<and> ordinal < length ((h @ [x]) ! r) \<and> cols \<le> length ((h @ [x]) ! r) \<and>
        test ((h @ [x]) ! r ! ordinal) = Inr (as_int (P ((h @ [x]) ! r ! ordinal)))"
      using Cons.prems rest by auto
    note Cons.IH [OF this, of "out @ [length h]"]
    moreover have "[length h ..< length h + Suc n] = length h # [Suc (length h) ..< Suc (length h) + n]" for n
      by (simp add: upt_conv_Cons)
    ultimately show ?thesis using r True f m by (simp add: Let_def as_int_def x_def)
  qed
qed auto

lemma query_loop_good:
  "query_loop test ordinal (length meta) copyData h rs out = Inr (h', out', k) \<Longrightarrow>
   \<forall>r \<in> set rs \<union> set out. r < length h \<and> good_row meta (h ! r) \<Longrightarrow> \<forall>r \<in> set out'. r < length h' \<and> good_row meta (h' ! r)"
proof (induction rs arbitrary: h out)
  case (Cons r rs)
  then obtain v0 res where v: "cell_at h r ordinal = Inr v0" "test v0 = Inr res" by (auto simp: bindr_Inr_iff)
  consider "res < 0" | "res = 0" | "0 < res" copyData | "0 < res" "\<not> copyData" by linarith
  then show ?case
  proof cases
    case 3
    let ?row = "map copy_variant (take (length meta) (h ! r))"
    from 3 Cons.prems v have q: "query_loop test ordinal (length meta) copyData (h @ [?row]) rs (out @ [length h]) = Inr (h', out', k)"
      by (auto simp: copy_row_def split: if_splits)
    have "good_row meta ?row" using Cons.prems(2) good_row_copy by auto
    then have "\<forall>r \<in> set rs \<union> set (out @ [length h]). r < length (h @ [?row]) \<and> good_row meta ((h @ [?row]) ! r)"
      using Cons.prems(2) by (auto simp: nth_append intro: less_SucI)
    from Cons.IH [OF q this] show ?thesis .
  next
    case 4
    with Cons.prems(1) v have "query_loop test ordinal (length meta) copyData h rs (out @ [r]) = Inr (h', out', k)" by simp
    from Cons.IH [OF this] Cons.prems(2) show ?thesis by auto
  next
    case 2
    with Cons.prems(1) v have "query_loop test ordinal (length meta) copyData h rs out = Inr (h', out', k)" by simp
    from Cons.IH [OF this] Cons.prems(2) show ?thesis by auto
  qed (use Cons.prems v in auto)
qed auto

text \<open>The result of a query that did not fault, and a query that does not.\<close>

definition query_result :: "rowstore \<Rightarrow> CTable \<Rightarrow> bool \<Rightarrow> rowstore \<times> CTable \<times> int \<Rightarrow> bool" where
  "query_result h t copyData x =
     (case x of (h', t', k) \<Rightarrow>
        (\<exists>new. h' = h @ new) \<and> (\<exists>out. t' = t\<lparr>second_rows := out\<rparr>) \<and> (table_ok h t \<longrightarrow> table_ok h' t') \<and>
        (copyData \<longrightarrow> set (second_rows t') \<subseteq> {length h ..< length h'}) \<and> (\<not> copyData \<longrightarrow> set (second_rows t') \<subseteq> set (second_rows t)))"

lemma no_rows_result: "no_rows t h k = Inr x \<Longrightarrow> query_result h t copyData x"
  by (auto simp: no_rows_def query_result_def table_ok_def)

lemma run_query_result:
  assumes "run_query t test ordinal copyData h = Inr x"
  shows "query_result h t copyData x"
proof -
  obtain h' out k where q: "query_loop test ordinal (length (first_meta t)) copyData h (second_rows t) [] = Inr (h', out, k)"
    and x: "x = (h', t\<lparr>second_rows := out\<rparr>, k)"
    using assms by (auto simp: run_query_def bindr_Inr_iff)
  from query_loop_store [OF q] obtain new where "h' = h @ new" "copyData \<longrightarrow> set out \<subseteq> {length h ..< length h'}" "\<not> copyData \<longrightarrow> set out \<subseteq> set (second_rows t)"
    by auto
  moreover have "table_ok h' (t\<lparr>second_rows := out\<rparr>)" if "table_ok h t"
    using query_loop_good [OF q] that by (auto simp: table_ok_def)
  ultimately show ?thesis by (auto simp: query_result_def x)
qed

lemma queries_result:
  "tbl_Find F C h t ordinal op vt copyData = Inr x \<Longrightarrow> query_result h t copyData x"
  "In F C h t ordinal vs copyData = Inr x \<Longrightarrow> query_result h t copyData x"
  "NotIn F C h t ordinal vs copyData = Inr x \<Longrightarrow> query_result h t copyData x"
  "Between F C h t ordinal vt0 vt1 copyData = Inr x \<Longrightarrow> query_result h t copyData x"
  unfolding tbl_Find_def In_def NotIn_def Between_def Let_def
  by (auto simp: bindr_Inr_iff split: if_splits prod.splits dest: no_rows_result run_query_result)

lemma run_query_total:
  assumes "table_ok h t" "ordinal < length (first_meta t)"
    "\<And>v. good_cell (DataType (first_meta t ! ordinal)) v \<Longrightarrow> \<exists>k. test v = Inr k"
  shows "\<exists>x. run_query t test ordinal copyData h = Inr x"
proof -
  have "\<forall>r \<in> set (second_rows t). r < length h \<and> ordinal < length (h ! r) \<and> length (first_meta t) \<le> length (h ! r) \<and> (\<exists>k. test (h ! r ! ordinal) = Inr k)"
  proof
    fix r assume "r \<in> set (second_rows t)"
    then have r: "r < length h" "good_row (first_meta t) (h ! r)" using assms(1) by (simp_all add: table_ok_def)
    from good_row_cell [OF r(2) assms(2)] assms(3) good_row_length [OF r(2)] r(1)
    show "r < length h \<and> ordinal < length (h ! r) \<and> length (first_meta t) \<le> length (h ! r) \<and> (\<exists>k. test (h ! r ! ordinal) = Inr k)"
      by simp
  qed
  from query_loop_total [OF this, of copyData "[]"] show ?thesis by (auto simp: run_query_def)
qed

text \<open>An argument that can be converted without a fault.\<close>

definition convertible :: "'d fpu \<Rightarrow> text_conv \<Rightarrow> CTable \<Rightarrow> nat \<Rightarrow> VARIANT \<Rightarrow> bool" where
  "convertible F C t ordinal v \<longleftrightarrow> (\<exists>x. ChangeType F C v (cell_type (DataType (first_meta t ! ordinal))) = Inr x)"

lemma ChangeTypes_total:
  "list_all (\<lambda>v. \<exists>x. ChangeType F C v type = Inr x) vs \<Longrightarrow> \<exists>x. ChangeTypes F C vs type acc = Inr x"
proof (induction vs arbitrary: acc)
  case (Cons v vs)
  then obtain hr w where "ChangeType F C v type = Inr (hr, w)" by fastforce
  with Cons show ?case by auto
qed simp

lemma tbl_Find_total:
  assumes "table_ok h t" "convertible F C t ordinal vt"
  shows "\<exists>x. tbl_Find F C h t ordinal op vt copyData = Inr x"
proof -
  obtain hr v where c: "ChangeType F C vt (cell_type (DataType (first_meta t ! ordinal))) = Inr (hr, v)"
    using assms(2) by (auto simp: convertible_def)
  have q: "\<exists>x. run_query t (\<lambda>v0. compare_op F (m_bDataCaseSensitive t) op v0 w) ordinal copyData h = Inr x"
    if "ordinal < length (first_meta t)" "op \<noteq> Op_is_null \<longrightarrow> good_argument (DataType (first_meta t ! ordinal)) w" for w
    by (rule run_query_total [OF assms(1) that(1)]) (rule compare_op_total [OF _ that(2)])
  show ?thesis
  proof (cases "ordinal < length (first_meta t) \<and> op \<noteq> Op_is_null \<and> variant_type vt > VT_NULL")
    case True
    show ?thesis
    proof (cases "hr = 0")
      case hr: True
      with c ChangeType_good [of F C vt "DataType (first_meta t ! ordinal)" v]
      have "good_argument (DataType (first_meta t ! ordinal)) v" by simp
      with True c hr q [of v] show ?thesis by (simp add: tbl_Find_def)
    qed (use c True in \<open>simp add: tbl_Find_def no_rows_def\<close>)
  next
    case False
    with q [of vt] show ?thesis by (auto simp: tbl_Find_def no_rows_def)
  qed
qed

lemma In_total:
  assumes "table_ok h t" "list_all (convertible F C t ordinal) vs"
  shows "\<exists>x. In F C h t ordinal vs copyData = Inr x" "\<exists>x. NotIn F C h t ordinal vs copyData = Inr x"
proof -
  let ?t = "DataType (first_meta t ! ordinal)"
  let ?cs = "m_bDataCaseSensitive t"
  obtain hr v where c: "ChangeTypes F C vs (cell_type ?t) [] = Inr (hr, v)"
    using ChangeTypes_total [of F C "cell_type ?t" vs "[]"] assms(2) by (auto simp: convertible_def [abs_def])
  have good: "list_all (good_argument ?t) v" if "hr = 0"
    using ChangeTypes_good [of F C vs ?t "[]" v] c that by simp
  have "\<exists>b. any_equal (\<lambda>v1. eq F ?cs v0 v1) v = Inr b" if "good_cell ?t v0" "hr = 0" for v0
    using good [OF that(2)] comparisons_total(5) [OF that(1), of _ F ?cs] by (intro any_equal_total) (simp add: list_all_iff)
  then have d: "\<exists>k. bindr (any_equal (\<lambda>v1. eq F ?cs v0 v1) v) (\<lambda>ok. Inr (as_int ok)) = Inr k" if "good_cell ?t v0" "hr = 0" for v0
    using that by fastforce
  have "\<exists>x. run_query t (\<lambda>v0. bindr (any_equal (\<lambda>v1. eq F ?cs v0 v1) v) (\<lambda>ok. Inr (as_int ok))) ordinal copyData h = Inr x"
    if "hr = 0" "ordinal < length (first_meta t)"
    by (rule run_query_total [OF assms(1) that(2)]) (rule d [OF _ that(1)])
  with c show "\<exists>x. In F C h t ordinal vs copyData = Inr x" by (auto simp: In_def no_rows_def)
  have "\<exists>b. In_values F ?cs v v0 = Inr b" if "good_cell ?t v0" "variant_type v0 > VT_NULL" "hr = 0" for v0
    unfolding In_values_def
  proof (rule any_equal_total, rule ballI)
    fix v1 assume "v1 \<in> set v"
    then have "good_argument ?t v1" using good [OF that(3)] by (simp add: list_all_iff)
    from good_pair(2) [OF that(1) this] that(2) show "\<exists>k. eq F ?cs v1 v0 = Inr k"
      unfolding eq_def by (intro compare_values_total) auto
  qed
  then have e: "\<exists>k. (if variant_type v0 > VT_NULL then bindr (In_values F ?cs v v0) (\<lambda>ok. Inr (as_int (\<not> ok))) else Inr 0) = Inr k"
    if "good_cell ?t v0" "hr = 0" for v0
    using that by (cases "variant_type v0 > VT_NULL") (simp_all, metis bindr_simps(2))
  have "\<exists>x. run_query t (\<lambda>v0. if variant_type v0 > VT_NULL then bindr (In_values F ?cs v v0) (\<lambda>ok. Inr (as_int (\<not> ok))) else Inr 0) ordinal copyData h = Inr x"
    if "hr = 0" "ordinal < length (first_meta t)"
    by (rule run_query_total [OF assms(1) that(2)]) (rule e [OF _ that(1)])
  with c show "\<exists>x. NotIn F C h t ordinal vs copyData = Inr x" by (auto simp: NotIn_def no_rows_def)
qed

lemma Between_total:
  assumes "table_ok h t" "convertible F C t ordinal vt0" "convertible F C t ordinal vt1"
  shows "\<exists>x. Between F C h t ordinal vt0 vt1 copyData = Inr x"
proof (cases "ordinal < length (first_meta t) \<and> \<not> (variant_type vt0 \<le> VT_NULL \<or> variant_type vt1 \<le> VT_NULL)")
  case False
  then show ?thesis by (auto simp: Between_def Let_def no_rows_def)
next
  case o: True
  let ?t = "DataType (first_meta t ! ordinal)"
  let ?cs = "m_bDataCaseSensitive t"
  obtain hr0 v0 hr1 v1 where c: "ChangeType F C vt0 (cell_type ?t) = Inr (hr0, v0)" "ChangeType F C vt1 (cell_type ?t) = Inr (hr1, v1)"
    using assms(2,3) by (auto simp: convertible_def)
  show ?thesis
  proof (cases "hr0 = 0 \<and> hr1 = 0")
    case False
    with o c show ?thesis by (auto simp: Between_def Let_def no_rows_def)
  next
    case True
    with c ChangeType_good have g: "good_argument ?t v0" "good_argument ?t v1" by metis+
    then obtain res where gt: "gt F ?cs v0 v1 = Inr res"
      using compare_values_total [OF good_argument_self] unfolding gt_def by blast
    have test: "\<exists>k. bindr (ge F ?cs vt a) (\<lambda>res. if res \<le> 0 then Inr res else le F ?cs vt b) = Inr k"
      if "good_cell ?t vt" "good_argument ?t a" "good_argument ?t b" for vt a b
    proof -
      have "\<exists>k. ge F ?cs vt a = Inr k" using comparisons_total(2) [OF that(1,2)] by blast
      with comparisons_total(4) [OF that(1,3), of F ?cs] show ?thesis by auto
    qed
    have "\<exists>x. run_query t (\<lambda>vt. bindr (ge F ?cs vt a) (\<lambda>res. if res \<le> 0 then Inr res else le F ?cs vt b)) ordinal copyData h = Inr x"
      if "good_argument ?t a" "good_argument ?t b" for a b
      using o by (intro run_query_total [OF assms(1)] test that) simp
    from this [OF g] this [OF g(2,1)] o c True gt show ?thesis
      by (auto simp: Between_def Let_def no_rows_def)
  qed
qed

section \<open>Columns of integers\<close>

definition op_holds :: "Operator \<Rightarrow> int \<Rightarrow> int \<Rightarrow> bool" where
  "op_holds op i j =
     (case op of Op_equal \<Rightarrow> i = j | Op_great \<Rightarrow> i > j | Op_less \<Rightarrow> i < j | Op_great_equal \<Rightarrow> i \<ge> j
      | Op_less_equal \<Rightarrow> i \<le> j | Op_not_equal \<Rightarrow> i \<noteq> j | Op_is_null \<Rightarrow> False)"

definition int_cell :: "nat \<Rightarrow> VARIANT \<Rightarrow> int option" where
  "int_cell t v = (case v of Scalar t' bs \<Rightarrow> if t' = t then integer_member t bs else None | _ \<Rightarrow> None)"

definition selected :: "nat \<Rightarrow> Operator \<Rightarrow> int \<Rightarrow> VARIANT \<Rightarrow> bool" where
  "selected t op j v = (case int_cell t v of Some i \<Rightarrow> op_holds op i j | None \<Rightarrow> False)"

lemma integer_type_small: "integer_type t = Some (w, sg) \<Longrightarrow> VT_NULL < t \<and> t < VT_ARRAY \<and> t \<noteq> VT_BSTR \<and> t \<noteq> VT_BOOL \<and> t \<noteq> VT_DATE \<and> t \<noteq> VT_DECIMAL"
  by (auto simp: vt_defs elim: integer_typeE)

lemma compare_integers:
  assumes "integer_type t = Some (w, sg)" "integer_member t b0 = Some i" "integer_member t b1 = Some j"
  shows "compare_values F cs R (Scalar t b0) (Scalar t b1) = Inr (as_int (on_int R i j))"
  using assms integer_type_small [OF assms(1)] by (simp add: compare_values_def compare_scalars_def)

lemma integer_column_test:
  assumes "integer_type t = Some (w, sg)" "good_cell t v0" "integer_member t b1 = Some j" "op \<noteq> Op_is_null"
  shows "compare_op F cs op v0 (Scalar t b1) = Inr (as_int (selected t op j v0))"
proof (cases "variant_type v0 \<le> VT_NULL")
  case True
  moreover have "int_cell t v0 = None"
    using True integer_type_small [OF assms(1)] by (cases v0) (auto simp: int_cell_def)
  ultimately show ?thesis
    using assms(4) by (cases op) (simp_all add: compare_op_def comparison_defs compare_values_def selected_def as_int_def)
next
  case False
  with assms(1,2) have "variant_type v0 = t" using integer_type_small [OF assms(1)]
    by (auto simp: good_cell_def cell_type_def split: if_splits)
  then obtain b0 where v0: "v0 = Scalar t b0"
    using integer_type_small [OF assms(1)] by (cases v0) auto
  obtain i where i: "integer_member t b0 = Some i" using integer_member_type [OF assms(1)] by blast
  note compare_integers [OF assms(1) i assms(3), of F]
  then show ?thesis
    using assms(4) by (cases op) (simp_all add: v0 compare_op_def comparison_defs selected_def int_cell_def i op_holds_def)
qed

text \<open>A table with one column of integers, which is its key.\<close>

definition id_column :: CDBColumnInfo where
  "id_column = \<lparr>DBPath = [], TablePath = [116], DisplayName = [105], OriginalName = [105], DeclaredType = [], Collation = [],
     ColumnSize = 0, Flags = 4, DataType = VT_I4, Precision = 0, Scale = 0\<rparr>"

definition id_value :: "byte \<Rightarrow> VARIANT" where
  "id_value b = Scalar VT_I4 [b, 0, 0, 0]"

definition id_table :: CTable where
  "id_table = (CTable_new [id_column] False False)\<lparr>second_rows := [0, 1]\<rparr>"

definition id_store :: rowstore where
  "id_store = [[id_value 2], [id_value 1]]"

lemma id_table_ok: "table_ok id_store id_table"
  by (simp add: table_ok_def id_table_def id_store_def CTable_new_def good_row_def good_cell_def id_value_def id_column_def cell_type_def sized_array_def vt_defs)

lemma id_integer: "integer_type (DataType (first_meta id_table ! 0)) = Some (4, True)" "0 < length (first_meta id_table)"
  by (simp_all add: id_table_def CTable_new_def id_column_def integer_type_def vt_defs)

lemma id_cells: "int_cell VT_I4 (id_value 1) = Some 1" "int_cell VT_I4 (id_value 2) = Some 2"
  by (simp_all add: id_value_def int_cell_def integer_member_def signed_of_def signed_take_bit_eq_take_bit_shift take_bit_eq_mod vt_defs)

section \<open>Properties of queries\<close>

text \<open>
  Searching a column of integers for an integer gives copies of exactly the rows whose cell is
  not null and compares as the operator says with the argument, in their order. The argument is first wrapped to the
  width of the column, so a number that the column cannot hold matches others.
\<close>

theorem find_integer_column:
  assumes "table_ok h t" "ordinal < length (first_meta t)" "integer_type (DataType (first_meta t ! ordinal)) = Some (w, sg)"
    "integer_member s bs = Some u" "op \<noteq> Op_is_null"
  shows "tbl_Find F C h t ordinal op (Scalar s bs) True =
    (let found = filter (\<lambda>r. selected (DataType (first_meta t ! ordinal)) op (wrapped w sg u) (h ! r ! ordinal)) (second_rows t) in
     Inr (h @ map (\<lambda>r. map copy_variant (h ! r)) found, t\<lparr>second_rows := [length h ..< length h + length found]\<rparr>, 1))"
proof -
  let ?t = "DataType (first_meta t ! ordinal)"
  let ?v = "Scalar ?t (cast_int w u)"
  have "VT_NULL < s" using assms(4) by (auto simp: integer_member_def vt_defs split: if_splits)
  moreover have "cell_type ?t = ?t" using integer_type_small [OF assms(3)] by (simp add: cell_type_def vt_defs)
  moreover have "VariantChangeType F C (Scalar VT_EMPTY []) (Scalar s bs) ?t = Inr (S_OK, ?v)"
    by (rule VariantChangeType_integer [OF assms(3,4)])
  ultimately have "tbl_Find F C h t ordinal op (Scalar s bs) True =
      run_query t (\<lambda>v0. compare_op F (m_bDataCaseSensitive t) op v0 ?v) ordinal True h"
    using assms(2,5) by (simp add: tbl_Find_def ChangeType_def)
  moreover have rows: "r < length h \<and> ordinal < length (h ! r) \<and> length (first_meta t) = length (h ! r) \<and> good_cell ?t (h ! r ! ordinal)"
    if "r \<in> set (second_rows t)" for r
    using that assms(1) good_row_cell [OF _ assms(2)] good_row_length by (auto simp: table_ok_def)
  have "query_loop (\<lambda>v0. compare_op F (m_bDataCaseSensitive t) op v0 ?v) ordinal (length (first_meta t)) True h (second_rows t) [] =
      (let found = filter (\<lambda>r. selected ?t op (wrapped w sg u) (h ! r ! ordinal)) (second_rows t) in
       Inr (h @ map (\<lambda>r. map copy_variant (take (length (first_meta t)) (h ! r))) found, [] @ [length h ..< length h + length found], 1))"
    by (rule query_loop_copies) (use rows integer_column_test [OF assms(3) _ integer_member_cast [OF assms(3)] assms(5), of _ F] in auto)
  moreover have "map (\<lambda>r. map copy_variant (take (length (first_meta t)) (h ! r))) (filter P (second_rows t)) =
      map (\<lambda>r. map copy_variant (h ! r)) (filter P (second_rows t))" for P
    using rows by (intro map_cong) auto
  ultimately show ?thesis by (simp add: run_query_def Let_def)
qed

theorem find_integer_column_witness:
  "tbl_Find fpu_real no_conv id_store id_table 0 Op_great (id_value 1) True =
     Inr (id_store @ [[id_value 2]], id_table\<lparr>second_rows := [2]\<rparr>, 1)"
proof -
  have "integer_member VT_I4 [1, 0, 0, 0] = Some 1"
    by (simp add: integer_member_def signed_of_def signed_take_bit_eq_take_bit_shift take_bit_eq_mod vt_defs)
  moreover have "DataType (first_meta id_table ! 0) = VT_I4" by (simp add: id_table_def CTable_new_def id_column_def)
  moreover have "wrapped 4 True 1 = 1" by (simp add: wrapped_def signed_take_bit_eq_take_bit_shift take_bit_eq_mod)
  ultimately show ?thesis
    using find_integer_column [OF id_table_ok id_integer(2,1), of VT_I4 "[1, 0, 0, 0]" 1 Op_great fpu_real no_conv]
    by (simp add: id_value_def [symmetric] selected_def id_cells op_holds_def id_store_def copy_variant_def id_table_def CTable_new_def)
      (simp add: id_value_def)
qed

text \<open>
  Queries of a well-typed table never fail an assertion and never read outside of a row: if the
  arguments can be converted to the type of the column, or are refused, every query returns, and its
  result is a well-typed table with the columns of the one that was searched.
\<close>

lemma queries_are_well_typed:
  assumes "table_ok h t" "list_all (convertible F C t ordinal) (vt0 # vt1 # vs)"
  shows "(\<exists>x. tbl_Find F C h t ordinal op vt0 copyData = Inr x \<and> query_result h t copyData x) \<and>
    (\<exists>x. In F C h t ordinal vs copyData = Inr x \<and> query_result h t copyData x) \<and>
    (\<exists>x. NotIn F C h t ordinal vs copyData = Inr x \<and> query_result h t copyData x) \<and>
    (\<exists>x. Between F C h t ordinal vt0 vt1 copyData = Inr x \<and> query_result h t copyData x)"
proof -
  have c: "convertible F C t ordinal vt0" "convertible F C t ordinal vt1" "list_all (convertible F C t ordinal) vs" using assms(2) by simp_all
  show ?thesis
    using tbl_Find_total [OF assms(1) c(1)] In_total [OF assms(1) c(3)] Between_total [OF assms(1) c(1,2)] queries_result by metis
qed

section \<open>Sorting columns of integers\<close>

text \<open>
  What is assumed of \<^verbatim>\<open>std::sort\<close>: for a strict weak order it gives a permutation in which no
  element comes before one that precedes it.
\<close>

definition strict_weak_on :: "'a set \<Rightarrow> ('a \<Rightarrow> 'a \<Rightarrow> bool) \<Rightarrow> bool" where
  "strict_weak_on A R \<longleftrightarrow> (\<forall>a \<in> A. \<not> R a a) \<and> (\<forall>a \<in> A. \<forall>b \<in> A. \<forall>c \<in> A. R a b \<and> R b c \<longrightarrow> R a c) \<and>
     (\<forall>a \<in> A. \<forall>b \<in> A. \<forall>c \<in> A. \<not> R a b \<and> \<not> R b c \<longrightarrow> \<not> R a c)"

definition std_sort :: "((nat \<Rightarrow> nat \<Rightarrow> bool) \<Rightarrow> nat list \<Rightarrow> nat list) \<Rightarrow> bool" where
  "std_sort sort_by \<longleftrightarrow> (\<forall>R xs. strict_weak_on (set xs) R \<longrightarrow> mset (sort_by R xs) = mset xs \<and> sorted_wrt (\<lambda>a b. \<not> R b a) (sort_by R xs))"

fun insert_by :: "('a \<Rightarrow> 'a \<Rightarrow> bool) \<Rightarrow> 'a \<Rightarrow> 'a list \<Rightarrow> 'a list" where
  "insert_by R x [] = [x]"
| "insert_by R x (y # ys) = (if R y x then y # insert_by R x ys else x # y # ys)"

definition insertion_sort_by :: "('a \<Rightarrow> 'a \<Rightarrow> bool) \<Rightarrow> 'a list \<Rightarrow> 'a list" where
  "insertion_sort_by R xs = foldr (insert_by R) xs []"

lemma mset_insert_by [simp]: "mset (insert_by R x ys) = add_mset x (mset ys)"
  by (induction ys) auto

lemma set_insert_by [simp]: "set (insert_by R x ys) = insert x (set ys)"
  by (induction ys) auto

lemma sorted_insert_by:
  assumes "strict_weak_on A R" "insert x (set ys) \<subseteq> A" "sorted_wrt (\<lambda>a b. \<not> R b a) ys"
  shows "sorted_wrt (\<lambda>a b. \<not> R b a) (insert_by R x ys)"
  using assms(2,3)
proof (induction ys)
  case (Cons y ys)
  have "\<not> R x y" if "R y x"
  proof
    assume "R x y"
    moreover have "x \<in> A" "y \<in> A" using Cons.prems(1) by simp_all
    ultimately show False using assms(1) that unfolding strict_weak_on_def by blast
  qed
  moreover have "\<not> R z x" if "\<not> R y x" "z \<in> set ys" for z
  proof -
    have "x \<in> A" "y \<in> A" "z \<in> A" "\<not> R z y" using Cons.prems that(2) by auto
    with assms(1) that(1) show ?thesis unfolding strict_weak_on_def by blast
  qed
  ultimately show ?case using Cons by auto
qed simp

lemma std_sort_insertion: "std_sort insertion_sort_by"
proof -
  have "mset (insertion_sort_by R ys) = mset ys \<and> sorted_wrt (\<lambda>a b. \<not> R b a) (insertion_sort_by R ys)"
    if "strict_weak_on (set xs) R" "set ys \<subseteq> set xs" for R :: "nat \<Rightarrow> nat \<Rightarrow> bool" and xs ys
    using that(2)
  proof (induction ys)
    case (Cons y ys)
    then have "insert y (set (insertion_sort_by R ys)) \<subseteq> set xs" by (metis insert_subset list.simps(15) set_mset_mset)
    from sorted_insert_by [OF that(1) this] Cons show ?case by (simp add: insertion_sort_by_def)
  qed (simp add: insertion_sort_by_def)
  then show ?thesis by (auto simp: std_sort_def)
qed

text \<open>The key of a cell; null is below all numbers.\<close>

lemma row_before_integers:
  assumes "integer_type t = Some (w, sg)" "good_cell t va" "good_cell t vb"
  shows "row_before F cs desc va vb = Inr (if desc then int_cell t vb < int_cell t va else int_cell t va < int_cell t vb)"
proof -
  have null: "int_cell t v = None \<longleftrightarrow> variant_type v \<le> VT_NULL" if "good_cell t v" for v
    using that integer_type_small [OF assms(1)] integer_member_type [OF assms(1)]
    by (cases v) (auto simp: int_cell_def good_cell_def cell_type_def split: if_splits)
  have num: "\<exists>b. v = Scalar t b" if "good_cell t v" "\<not> variant_type v \<le> VT_NULL" for v
    using that integer_type_small [OF assms(1)] by (cases v) (auto simp: good_cell_def cell_type_def split: if_splits)
  show ?thesis
  proof (cases "variant_type va \<le> VT_NULL \<or> variant_type vb \<le> VT_NULL")
    case True
    with null [OF assms(2)] null [OF assms(3)] show ?thesis
      by (cases "int_cell t va"; cases "int_cell t vb") (auto simp: row_before_def)
  next
    case False
    with num [OF assms(2)] num [OF assms(3)] obtain a b where ab: "va = Scalar t a" "vb = Scalar t b" by blast
    obtain i j where ij: "integer_member t a = Some i" "integer_member t b = Some j"
      using integer_member_type [OF assms(1)] by blast
    with False ab show ?thesis
      using compare_integers [OF assms(1) ij, of F cs] by (auto simp: row_before_def gt_def lt_def int_cell_def as_int_def)
  qed
qed

lemma first_fault_none: "\<forall>r \<in> set rs. \<exists>x. r = Inr x \<Longrightarrow> first_fault rs = Inr ()"
  by (induction rs) auto

text \<open>
  C40: Sorting a table by a column of integers permutes its rows so that the numbers ascend with the nulls
  first, or descend with the nulls last; the function given to \<^verbatim>\<open>std::sort\<close> is a strict weak order.
\<close>

theorem sort_integer_column:
  assumes "table_ok h t" "ordinal < length (first_meta t)" "integer_type (DataType (first_meta t ! ordinal)) = Some (w, sg)" "std_sort sort_by"
  shows "\<exists>rows. Sort sort_by F h t ordinal desc = Inr (t\<lparr>second_rows := rows\<rparr>, 1) \<and> mset rows = mset (second_rows t) \<and>
    (let keys = map (\<lambda>r. int_cell (DataType (first_meta t ! ordinal)) (h ! r ! ordinal)) rows in if desc then sorted (rev keys) else sorted keys)"
proof -
  let ?t = "DataType (first_meta t ! ordinal)"
  let ?key = "\<lambda>r. int_cell ?t (h ! r ! ordinal)"
  let ?before = "rows_before F (m_bDataCaseSensitive t) desc h ordinal"
  let ?R = "\<lambda>a b. ?before a b = Inr True"
  have b: "?before x y = Inr (if desc then ?key y < ?key x else ?key x < ?key y)" if "x \<in> set (second_rows t)" "y \<in> set (second_rows t)" for x y
    using that assms(1) good_row_cell [OF _ assms(2)] row_before_integers [OF assms(3), of "h ! x ! ordinal" "h ! y ! ordinal" F]
    by (auto simp: table_ok_def rows_before_def cell_at_def)
  have "first_fault (concat (map (\<lambda>a. map (?before a) (second_rows t)) (second_rows t))) = Inr ()"
    by (rule first_fault_none) (use b in auto)
  then have s: "Sort sort_by F h t ordinal desc = Inr (t\<lparr>second_rows := sort_by ?R (second_rows t)\<rparr>, 1)"
    using assms(2) by (simp add: Sort_def Let_def)
  have "strict_weak_on (set (second_rows t)) ?R"
    unfolding strict_weak_on_def by (auto simp: b split: if_splits)
  with assms(4) have p: "mset (sort_by ?R (second_rows t)) = mset (second_rows t)"
    and o: "sorted_wrt (\<lambda>a b. \<not> ?R b a) (sort_by ?R (second_rows t))"
    by (simp_all add: std_sort_def)
  have "sorted_wrt (\<lambda>a b. if desc then ?key b \<le> ?key a else ?key a \<le> ?key b) (sort_by ?R (second_rows t))"
    using o by (rule sorted_wrt_mono_rel [rotated]) (use b mset_eq_setD [OF p] in \<open>auto simp: not_less\<close>)
  then have "let keys = map ?key (sort_by ?R (second_rows t)) in if desc then sorted (rev keys) else sorted keys"
    by (cases desc) (simp_all add: sorted_wrt_map sorted_wrt_rev flip: rev_map)
  with s p show ?thesis by blast
qed

theorem sort_integer_column_witness:
  "\<exists>rows. Sort insertion_sort_by fpu_real id_store id_table 0 False = Inr (id_table\<lparr>second_rows := rows\<rparr>, 1) \<and> mset rows = {#0, 1#} \<and>
    sorted (map (\<lambda>r. int_cell VT_I4 (id_store ! r ! 0)) rows)"
proof -
  have "DataType (first_meta id_table ! 0) = VT_I4" "second_rows id_table = [0, 1]" by (simp_all add: id_table_def CTable_new_def id_column_def)
  with sort_integer_column [OF id_table_ok id_integer(2,1) std_sort_insertion, of fpu_real False] show ?thesis by (simp add: Let_def)
qed

end
