(* ===== verification/Dataset.thy ===== *)
theory Dataset
  imports Tablecache
begin

text \<open>
  The real-time cache of tables: \<^verbatim>\<open>CDataSet\<close> of \<^verbatim>\<open>include/tablecache.cpp\<close>.

  \<^item> The state is a list of tables and the settings of the cache; the rows are in the store of
    \<open>Tablecache\<close>. Every operation runs under the lock of the cache and is one step here; \<open>Swap\<close> takes
    the lock of one of its two caches only.
  \<^item> An operation looks for the first table with the names it is given. A null pointer for an array
    of values is the empty array, a null pointer for a name is \<open>None\<close>.
  \<^item> Numbers of the type \<^verbatim>\<open>size_t\<close> are natural numbers; a negative code becomes the
    number that it is converted to.
\<close>

section \<open>The cache\<close>

datatype tagManagementSystem = msUnknown | msSqlite | msMysql | msODBC | msMsSQL | msOracle | msDB2 | msPostgreSQL | msMongoDB

record CDataSet =
  m_ds :: "CTable list"
  m_strIp :: string
  m_strHostName :: "nat list"
  m_strUpdater :: "nat list"
  m_ms :: tagManagementSystem
  m_bDBNameCaseSensitive :: bool
  m_bTableNameCaseSensitive :: bool
  ds_bFieldNameCaseSensitive :: bool
  ds_bDataCaseSensitive :: bool

definition CDataSet_new :: CDataSet where
  "CDataSet_new = \<lparr>m_ds = [], m_strIp = [], m_strHostName = [], m_strUpdater = [], m_ms = msUnknown,
     m_bDBNameCaseSensitive = False, m_bTableNameCaseSensitive = False, ds_bFieldNameCaseSensitive = False, ds_bDataCaseSensitive = False\<rparr>"

definition size_of_code :: "int \<Rightarrow> nat" where
  "size_of_code c = nat (c mod 18446744073709551616)"

definition INVALID_VALUE :: nat where "INVALID_VALUE = 18446744073709551615"

definition Swap_sets :: "CDataSet \<Rightarrow> CDataSet \<Rightarrow> CDataSet \<times> CDataSet" where
  "Swap_sets D tc =
     (D\<lparr>m_ds := m_ds tc, m_strIp := m_strIp tc, m_strHostName := m_strHostName tc, m_strUpdater := m_strUpdater tc, m_ms := m_ms tc\<rparr>,
      tc\<lparr>m_ds := m_ds D, m_strIp := m_strIp D, m_strHostName := m_strHostName D, m_strUpdater := m_strUpdater D, m_ms := m_ms D\<rparr>)"

definition AddEmptyRowset :: "CDataSet \<Rightarrow> CDBColumnInfo list \<Rightarrow> CDataSet" where
  "AddEmptyRowset D meta =
     (if meta = [] then D
      else D\<lparr>m_ds := m_ds D @ [CTable_new meta (ds_bFieldNameCaseSensitive D) (ds_bDataCaseSensitive D)]\<rparr>)"

definition SetDBNameCaseSensitive :: "CDataSet \<Rightarrow> bool \<Rightarrow> CDataSet" where
  "SetDBNameCaseSensitive D b = D\<lparr>m_bDBNameCaseSensitive := b\<rparr>"

definition SetTableNameCaseSensitive :: "CDataSet \<Rightarrow> bool \<Rightarrow> CDataSet" where
  "SetTableNameCaseSensitive D b = D\<lparr>m_bTableNameCaseSensitive := b\<rparr>"

definition SetFieldNameCaseSensitive :: "CDataSet \<Rightarrow> bool \<Rightarrow> CDataSet" where
  "SetFieldNameCaseSensitive D b = D\<lparr>ds_bFieldNameCaseSensitive := b\<rparr>"

definition SetDataCaseSensitive :: "CDataSet \<Rightarrow> bool \<Rightarrow> CDataSet" where
  "SetDataCaseSensitive D b = D\<lparr>ds_bDataCaseSensitive := b\<rparr>"

definition Set_server :: "CDataSet \<Rightarrow> string option \<Rightarrow> tagManagementSystem \<Rightarrow> CDataSet" where
  "Set_server D strIp ms = D\<lparr>m_strIp := (case strIp of None \<Rightarrow> [] | Some s \<Rightarrow> s), m_ms := ms\<rparr>"

definition SetDBServerName :: "CDataSet \<Rightarrow> nat list option \<Rightarrow> CDataSet" where
  "SetDBServerName D s = D\<lparr>m_strHostName := (case s of None \<Rightarrow> [] | Some s \<Rightarrow> s)\<rparr>"

definition SetUpdater :: "CDataSet \<Rightarrow> nat list option \<Rightarrow> CDataSet" where
  "SetUpdater D s = D\<lparr>m_strUpdater := (case s of None \<Rightarrow> [] | Some s \<Rightarrow> s)\<rparr>"

definition Empty_set :: "CDataSet \<Rightarrow> CDataSet" where
  "Empty_set D = D\<lparr>m_ds := []\<rparr>"

definition IsEmpty_set :: "CDataSet \<Rightarrow> bool" where
  "IsEmpty_set D \<longleftrightarrow> length (m_ds D) = 0"

section \<open>Finding a table\<close>

definition Is_table :: "CDataSet \<Rightarrow> CTable \<Rightarrow> nat list option \<Rightarrow> nat list option \<Rightarrow> fault + bool" where
  "Is_table D tbl dbName tblName =
     (case first_meta tbl of
        [] \<Rightarrow> Inl Out_Of_Bounds
      | m # _ \<Rightarrow>
          if \<not> IsEqual_names (Some (DBPath m)) dbName (m_bDBNameCaseSensitive D) then Inr False
          else Inr (IsEqual_names (Some (TablePath m)) tblName (m_bTableNameCaseSensitive D)))"

fun find_table :: "CDataSet \<Rightarrow> nat list option \<Rightarrow> nat list option \<Rightarrow> nat \<Rightarrow> CTable list \<Rightarrow> fault + nat option" where
  "find_table D dbName tblName i [] = Inr None"
| "find_table D dbName tblName i (t # ts) =
     bindr (Is_table D t dbName tblName) (\<lambda>b. if b then Inr (Some i) else find_table D dbName tblName (i + 1) ts)"

text \<open>The loop over the tables that the operations share: what they return without a table, and what they do with the first one.\<close>

definition with_table :: "CDataSet \<Rightarrow> nat list option \<Rightarrow> nat list option \<Rightarrow> 'a \<Rightarrow> (nat \<Rightarrow> CTable \<Rightarrow> fault + 'a) \<Rightarrow> fault + 'a" where
  "with_table D dbName tblName none f =
     bindr (find_table D dbName tblName 0 (m_ds D)) (\<lambda>i. case i of None \<Rightarrow> Inr none | Some i \<Rightarrow> f i (m_ds D ! i))"

definition FindKeys :: "CDataSet \<Rightarrow> nat list option \<Rightarrow> nat list option \<Rightarrow> fault + (nat \<times> CDBColumnInfo) list" where
  "FindKeys D dbName tblName = with_table D dbName tblName [] (\<lambda>_ t. Inr (tbl_GetKeys t))"

definition GetColumMeta :: "CDataSet \<Rightarrow> nat list option \<Rightarrow> nat list option \<Rightarrow> fault + CDBColumnInfo list" where
  "GetColumMeta D dbName tblName = with_table D dbName tblName [] (\<lambda>_ t. Inr (first_meta t))"

definition GetColumnCount :: "CDataSet \<Rightarrow> nat list option \<Rightarrow> nat list option \<Rightarrow> fault + nat" where
  "GetColumnCount D dbName tblName = with_table D dbName tblName (size_of_code NO_TABLE_FOUND) (\<lambda>_ t. Inr (length (first_meta t)))"

definition GetRowCount :: "CDataSet \<Rightarrow> nat list option \<Rightarrow> nat list option \<Rightarrow> fault + nat" where
  "GetRowCount D dbName tblName = with_table D dbName tblName (size_of_code NO_TABLE_FOUND) (\<lambda>_ t. Inr (length (second_rows t)))"

definition ds_FindOrdinal :: "CDataSet \<Rightarrow> nat list option \<Rightarrow> nat list option \<Rightarrow> nat list option \<Rightarrow> fault + nat" where
  "ds_FindOrdinal D dbName tblName str =
     (if tblName = None \<or> str = None then Inr INVALID_ORDINAL
      else with_table D (case dbName of None \<Rightarrow> Some [] | _ \<Rightarrow> dbName) tblName (nat (NO_TABLE_FOUND mod 4294967296)) (\<lambda>_ t. Inr (FindOrdinal t str)))"

fun GetDBTablePair :: "CTable list \<Rightarrow> fault + (nat list \<times> nat list) list" where
  "GetDBTablePair [] = Inr []"
| "GetDBTablePair (t # ts) =
     (case first_meta t of
        [] \<Rightarrow> Inl Out_Of_Bounds
      | col # _ \<Rightarrow> bindr (GetDBTablePair ts) (\<lambda>v. Inr ((DBPath col, TablePath col) # v)))"

definition ToDate :: "VARIANT \<Rightarrow> fault + string" where
  "ToDate vtDate =
     (case vtDate of
        Scalar t bs \<Rightarrow> bindr (require (t = VT_DATE)) (\<lambda>_. ToDBString_str (UDateTime_of (le_value bs)))
      | _ \<Rightarrow> Inl Assertion)"

section \<open>Queries of the cache\<close>

text \<open>The queries copy the rows they find; \<open>t\<close> is the table that receives the result.\<close>

definition query_table :: "rowstore \<Rightarrow> CDataSet \<Rightarrow> nat list option \<Rightarrow> nat list option \<Rightarrow> CTable \<Rightarrow> (CTable \<Rightarrow> fault + (rowstore \<times> CTable \<times> int)) \<Rightarrow> fault + (rowstore \<times> CTable \<times> int)" where
  "query_table h D dbName tblName t query =
     (let dbName = (case dbName of None \<Rightarrow> Some [] | _ \<Rightarrow> dbName) in
      if tblName = None \<or> c_units (the tblName) = [] then Inr (h, t, NO_TABLE_NAME_GIVEN)
      else with_table D dbName tblName (h, t, NO_TABLE_FOUND) (\<lambda>_ tbl. query tbl))"

definition ds_In :: "'d fpu \<Rightarrow> text_conv \<Rightarrow> rowstore \<Rightarrow> CDataSet \<Rightarrow> nat list option \<Rightarrow> nat list option \<Rightarrow> nat \<Rightarrow> VARIANT list \<Rightarrow> CTable \<Rightarrow> fault + (rowstore \<times> CTable \<times> int)" where
  "ds_In F C h D dbName tblName ordinal v t = query_table h D dbName tblName t (\<lambda>tbl. In F C h tbl ordinal v True)"

definition ds_NotIn :: "'d fpu \<Rightarrow> text_conv \<Rightarrow> rowstore \<Rightarrow> CDataSet \<Rightarrow> nat list option \<Rightarrow> nat list option \<Rightarrow> nat \<Rightarrow> VARIANT list \<Rightarrow> CTable \<Rightarrow> fault + (rowstore \<times> CTable \<times> int)" where
  "ds_NotIn F C h D dbName tblName ordinal v t = query_table h D dbName tblName t (\<lambda>tbl. NotIn F C h tbl ordinal v True)"

definition ds_Find :: "'d fpu \<Rightarrow> text_conv \<Rightarrow> rowstore \<Rightarrow> CDataSet \<Rightarrow> nat list option \<Rightarrow> nat list option \<Rightarrow> nat \<Rightarrow> Operator \<Rightarrow> VARIANT \<Rightarrow> CTable \<Rightarrow> fault + (rowstore \<times> CTable \<times> int)" where
  "ds_Find F C h D dbName tblName ordinal op vt t = query_table h D dbName tblName t (\<lambda>tbl. tbl_Find F C h tbl ordinal op vt True)"

definition ds_FindNull :: "'d fpu \<Rightarrow> text_conv \<Rightarrow> rowstore \<Rightarrow> CDataSet \<Rightarrow> nat list option \<Rightarrow> nat list option \<Rightarrow> nat \<Rightarrow> CTable \<Rightarrow> fault + (rowstore \<times> CTable \<times> int)" where
  "ds_FindNull F C h D dbName tblName ordinal t = ds_Find F C h D dbName tblName ordinal Op_is_null (Scalar VT_EMPTY []) t"

definition ds_Between :: "'d fpu \<Rightarrow> text_conv \<Rightarrow> rowstore \<Rightarrow> CDataSet \<Rightarrow> nat list option \<Rightarrow> nat list option \<Rightarrow> nat \<Rightarrow> VARIANT \<Rightarrow> VARIANT \<Rightarrow> CTable \<Rightarrow> fault + (rowstore \<times> CTable \<times> int)" where
  "ds_Between F C h D dbName tblName ordinal vt0 vt1 t = query_table h D dbName tblName t (\<lambda>tbl. Between F C h tbl ordinal vt0 vt1 True)"

section \<open>Values for the cache\<close>

definition Convert :: "'d fpu \<Rightarrow> text_conv \<Rightarrow> VARIANT \<Rightarrow> nat \<Rightarrow> fault + VARIANT" where
  "Convert F C data vtTarget =
     bindr (require (vtTarget \<noteq> VT_ARRAY + VT_I1)) (\<lambda>_.
     if variant_type data = vtTarget then Inr (copy_variant data)
     else if variant_type data = VT_NULL \<or> variant_type data = VT_EMPTY then Inr (Scalar VT_NULL [])
     else
       let change = bindr (VariantChangeType F C (Scalar VT_NULL []) data vtTarget) (\<lambda>(hr, vt). bindr (require (hr = S_OK)) (\<lambda>_. Inr vt)) in
       case data of
         Fixed_array t n bs \<Rightarrow> if vtTarget = VT_ARRAY + VT_UI1 \<and> t = VT_I1 then Inr (Fixed_array VT_UI1 n bs) else change
       | Vt_bstr s \<Rightarrow>
           if vtTarget = VT_DATE
           then bindr (ParseFromDBString (dbl.truncate F) (of_ascii (to_utf8 C (bstr_units s)))) (\<lambda>dt. Inr (Scalar VT_DATE (le_bytes 8 (UDateTime_Value dt))))
           else change
       | _ \<Rightarrow> change)"

text \<open>
  A value that comes from the server: an array of characters becomes a string, and only then is
  the type of a column of texts replaced.
\<close>

definition Convert_input :: "'d fpu \<Rightarrow> text_conv \<Rightarrow> VARIANT \<Rightarrow> nat \<Rightarrow> fault + VARIANT" where
  "Convert_input F C vt vtTarget =
     (case vt of
        Fixed_array t n bs \<Rightarrow>
          if t = VT_I1
          then bindr (mem_read bs 0 n) (\<lambda>s. Convert F C (Vt_bstr (Some (of_utf8 C s))) (cell_type vtTarget))
          else Convert F C vt vtTarget
      | _ \<Rightarrow> Convert F C vt vtTarget)"

definition Convert_array_input :: "'d fpu \<Rightarrow> text_conv \<Rightarrow> VARIANT \<Rightarrow> nat \<Rightarrow> fault + VARIANT" where
  "Convert_array_input F C vt vtTarget = Convert F C vt (cell_type vtTarget)"

section \<open>Changing rows\<close>

text \<open>
  The loop of \<open>AddRows\<close>: at each multiple of the number of columns a new row is made and added to
  the table, then the value is converted and added to the last row.
\<close>

fun AddRows_loop :: "(VARIANT \<Rightarrow> nat \<Rightarrow> fault + VARIANT) \<Rightarrow> CDBColumnInfo list \<Rightarrow> nat \<Rightarrow> rowstore \<Rightarrow> nat list \<Rightarrow> VARIANT list \<Rightarrow> fault + (rowstore \<times> nat list)" where
  "AddRows_loop conv meta n h vRow [] = Inr (h, vRow)"
| "AddRows_loop conv meta n h vRow (vt # vts) =
     (let (h, vRow) = (if n mod length meta = 0 then (h @ [[]], vRow @ [length h]) else (h, vRow)); prow = last vRow in
      bindr (conv vt (DataType (meta ! (n mod length meta)))) (\<lambda>c.
      AddRows_loop conv meta (n + 1) (h[prow := h ! prow @ [c]]) vRow vts))"

definition AddRows_with :: "(VARIANT \<Rightarrow> nat \<Rightarrow> fault + VARIANT) \<Rightarrow> rowstore \<Rightarrow> CDataSet \<Rightarrow> nat list option \<Rightarrow> nat list option \<Rightarrow> VARIANT list \<Rightarrow> fault + (rowstore \<times> CDataSet \<times> nat)" where
  "AddRows_with conv h D dbName tblName vts =
     (if vts = [] then Inr (h, D, 0)
      else if dbName = None \<or> tblName = None then Inr (h, D, INVALID_VALUE)
      else with_table D dbName tblName (h, D, 0) (\<lambda>i t.
        let col_count = length (first_meta t) in
        if length vts mod col_count \<noteq> 0 then Inr (h, D, size_of_code BAD_ORDINAL)
        else bindr (AddRows_loop conv (first_meta t) 0 h (second_rows t) vts) (\<lambda>(h, vRow).
             Inr (h, D\<lparr>m_ds := (m_ds D)[i := t\<lparr>second_rows := vRow\<rparr>]\<rparr>, length vts div col_count))))"

definition AddRows :: "'d fpu \<Rightarrow> text_conv \<Rightarrow> rowstore \<Rightarrow> CDataSet \<Rightarrow> nat list option \<Rightarrow> nat list option \<Rightarrow> VARIANT list \<Rightarrow> fault + (rowstore \<times> CDataSet \<times> nat)" where
  "AddRows F C h D dbName tblName pvt = AddRows_with (Convert_input F C) h D dbName tblName pvt"

definition AddRows_array :: "'d fpu \<Rightarrow> text_conv \<Rightarrow> rowstore \<Rightarrow> CDataSet \<Rightarrow> nat list option \<Rightarrow> nat list option \<Rightarrow> VARIANT list \<Rightarrow> fault + (rowstore \<times> CDataSet \<times> nat)" where
  "AddRows_array F C h D dbName tblName vData = AddRows_with (Convert_array_input F C) h D dbName tblName vData"

text \<open>The rows whose cells are equal to the given key cells, and the first of them.\<close>

fun row_matches :: "'d fpu \<Rightarrow> bool \<Rightarrow> rowstore \<Rightarrow> nat \<Rightarrow> (nat \<times> VARIANT) list \<Rightarrow> fault + bool" where
  "row_matches F cs h r [] = Inr True"
| "row_matches F cs h r ((f, key) # ks) =
     bindr (cell_at h r f) (\<lambda>vtKey. bindr (eq F cs vtKey key) (\<lambda>res. if res > 0 then row_matches F cs h r ks else Inr False))"

fun first_match :: "'d fpu \<Rightarrow> bool \<Rightarrow> rowstore \<Rightarrow> (nat \<times> VARIANT) list \<Rightarrow> nat list \<Rightarrow> nat \<Rightarrow> fault + nat option" where
  "first_match F cs h ks [] i = Inr None"
| "first_match F cs h ks (r # rs) i =
     bindr (row_matches F cs h r ks) (\<lambda>b. if b then Inr (Some i) else first_match F cs h ks rs (i + 1))"

definition FindARowInternal :: "'d fpu \<Rightarrow> rowstore \<Rightarrow> CTable \<Rightarrow> nat \<Rightarrow> VARIANT \<Rightarrow> fault + nat option" where
  "FindARowInternal F h tbl f key =
     bindr (first_match F (m_bDataCaseSensitive tbl) h [(f, key)] (second_rows tbl) 0) (\<lambda>i. Inr (map_option (\<lambda>i. second_rows tbl ! i) i))"

text \<open>With two keys both cells are read before they are compared.\<close>

fun first_match2 :: "'d fpu \<Rightarrow> bool \<Rightarrow> rowstore \<Rightarrow> nat \<Rightarrow> nat \<Rightarrow> VARIANT \<Rightarrow> VARIANT \<Rightarrow> nat list \<Rightarrow> fault + nat option" where
  "first_match2 F cs h f0 f1 key0 key1 [] = Inr None"
| "first_match2 F cs h f0 f1 key0 key1 (r # rs) =
     bindr (cell_at h r f0) (\<lambda>vtKey. bindr (cell_at h r f1) (\<lambda>vtKey1.
     bindr (row_matches F cs h r [(f0, key0), (f1, key1)]) (\<lambda>b. if b then Inr (Some r) else first_match2 F cs h f0 f1 key0 key1 rs)))"

definition FindARowInternal2 :: "'d fpu \<Rightarrow> rowstore \<Rightarrow> CTable \<Rightarrow> nat \<Rightarrow> nat \<Rightarrow> VARIANT \<Rightarrow> VARIANT \<Rightarrow> fault + nat option" where
  "FindARowInternal2 F h tbl f0 f1 key0 key1 = first_match2 F (m_bDataCaseSensitive tbl) h f0 f1 key0 key1 (second_rows tbl)"

fun FindKeyColIndex :: "CDBColumnInfo list \<Rightarrow> nat \<Rightarrow> nat option" where
  "FindKeyColIndex [] index = None"
| "FindKeyColIndex (m # ms) index = (if key_column m then Some index else FindKeyColIndex ms (index + 1))"

definition FindKeyColIndex2 :: "CDBColumnInfo list \<Rightarrow> nat option \<times> nat option" where
  "FindKeyColIndex2 meta =
     (case FindKeyColIndex meta 0 of
        None \<Rightarrow> (None, None)
      | Some key \<Rightarrow> (Some key, FindKeyColIndex (drop (key + 1) meta) (key + 1)))"

definition erase_at :: "nat \<Rightarrow> 'a list \<Rightarrow> 'a list" where
  "erase_at i xs = take i xs @ drop (i + 1) xs"

definition erase_match :: "rowstore \<Rightarrow> CDataSet \<Rightarrow> nat \<Rightarrow> CTable \<Rightarrow> nat option \<Rightarrow> fault + (rowstore \<times> CDataSet \<times> nat)" where
  "erase_match h D i t r =
     (case r of
        None \<Rightarrow> Inr (h, D, 0)
      | Some r \<Rightarrow> Inr (h, D\<lparr>m_ds := (m_ds D)[i := t\<lparr>second_rows := erase_at r (second_rows t)\<rparr>]\<rparr>, 1))"

definition DeleteARow :: "'d fpu \<Rightarrow> text_conv \<Rightarrow> rowstore \<Rightarrow> CDataSet \<Rightarrow> nat list option \<Rightarrow> nat list option \<Rightarrow> VARIANT \<Rightarrow> fault + (rowstore \<times> CDataSet \<times> nat)" where
  "DeleteARow F C h D dbName tblName vtKey =
     (if dbName = None \<or> tblName = None then Inr (h, D, INVALID_VALUE)
      else with_table D dbName tblName (h, D, 0) (\<lambda>i t.
        case FindKeyColIndex (first_meta t) 0 of
          None \<Rightarrow> Inr (h, D, size_of_code BAD_ORDINAL)
        | Some key \<Rightarrow>
            bindr (Convert F C vtKey (cell_type (DataType (first_meta t ! key)))) (\<lambda>vt.
            bindr (first_match F (m_bDataCaseSensitive t) h [(key, vt)] (second_rows t) 0) (\<lambda>r. erase_match h D i t r))))"

text \<open>An element of an array that the caller passes.\<close>

definition array_at :: "VARIANT list \<Rightarrow> nat \<Rightarrow> fault + VARIANT" where
  "array_at p n = (if n < length p then Inr (p ! n) else Inl Out_Of_Bounds)"

definition DeleteARow_row :: "'d fpu \<Rightarrow> text_conv \<Rightarrow> rowstore \<Rightarrow> CDataSet \<Rightarrow> nat list option \<Rightarrow> nat list option \<Rightarrow> VARIANT list \<Rightarrow> fault + (rowstore \<times> CDataSet \<times> nat)" where
  "DeleteARow_row F C h D dbName tblName pRow =
     (if dbName = None \<or> tblName = None then Inr (h, D, INVALID_VALUE)
      else with_table D dbName tblName (h, D, 0) (\<lambda>i t.
        case FindKeyColIndex2 (first_meta t) of
          (None, _) \<Rightarrow> Inr (h, D, size_of_code BAD_ORDINAL)
        | (Some key, key1) \<Rightarrow>
            bindr (array_at pRow key) (\<lambda>v. bindr (Convert F C v (cell_type (DataType (first_meta t ! key)))) (\<lambda>vt0.
            bindr (case key1 of
                     None \<Rightarrow> Inr []
                   | Some key1 \<Rightarrow>
                       bindr (array_at pRow (if length pRow = 2 then 1 else key1)) (\<lambda>v.
                       bindr (Convert F C v (cell_type (DataType (first_meta t ! key1)))) (\<lambda>vt1. Inr [(key1, vt1)]))) (\<lambda>second.
            bindr (first_match F (m_bDataCaseSensitive t) h ((key, vt0) # second) (second_rows t) 0) (\<lambda>r. erase_match h D i t r))))))"

text \<open>The loop of \<open>UpdateARow\<close> that replaces the cells of a row with every second value.\<close>

fun update_cells :: "(VARIANT \<Rightarrow> nat \<Rightarrow> fault + VARIANT) \<Rightarrow> CDBColumnInfo list \<Rightarrow> VARIANT list \<Rightarrow> nat \<Rightarrow> nat \<Rightarrow> rowstore \<Rightarrow> fault + rowstore" where
  "update_cells conv [] pvt n row h = Inr h"
| "update_cells conv (m # ms) pvt n row h =
     bindr (conv (pvt ! (2 * n + 1)) (DataType m)) (\<lambda>c. bindr (cell_at h row n) (\<lambda>_.
     update_cells conv ms pvt (n + 1) row (h[row := (h ! row)[n := c]])))"

definition UpdateARow :: "'d fpu \<Rightarrow> text_conv \<Rightarrow> rowstore \<Rightarrow> CDataSet \<Rightarrow> nat list option \<Rightarrow> nat list option \<Rightarrow> VARIANT list \<Rightarrow> fault + (rowstore \<times> CDataSet \<times> nat)" where
  "UpdateARow F C h D dbName tblName pvt =
     (if dbName = None \<or> tblName = None then Inr (h, D, INVALID_VALUE)
      else if pvt = [] \<or> length pvt mod 2 \<noteq> 0 then Inr (h, D, INVALID_VALUE)
      else with_table D dbName tblName (h, D, 0) (\<lambda>i t.
        let meta = first_meta t; col_count = length meta; key_type = (\<lambda>k. cell_type (DataType (meta ! k))) in
        if length pvt mod col_count \<noteq> 0 \<or> 2 * col_count \<noteq> length pvt then Inr (h, D, size_of_code BAD_ORDINAL)
        else case FindKeyColIndex2 meta of
          (None, _) \<Rightarrow> Inr (h, D, size_of_code BAD_ORDINAL)
        | (Some key0, k1) \<Rightarrow>
            bindr (Convert F C (pvt ! (key0 * 2)) (key_type key0)) (\<lambda>vt0.
            bindr (case k1 of
                     None \<Rightarrow> FindARowInternal F h t key0 vt0
                   | Some key1 \<Rightarrow> bindr (Convert F C (pvt ! (key1 * 2)) (key_type key1)) (\<lambda>vt1. FindARowInternal2 F h t key0 key1 vt0 vt1)) (\<lambda>row.
            case row of
              None \<Rightarrow> Inr (h, D, 0)
            | Some row \<Rightarrow> bindr (update_cells (Convert_input F C) meta pvt 0 row h) (\<lambda>h. Inr (h, D, 1))))))"

section \<open>What the loops do\<close>

fun convs :: "(VARIANT \<Rightarrow> nat \<Rightarrow> fault + VARIANT) \<Rightarrow> CDBColumnInfo list \<Rightarrow> VARIANT list \<Rightarrow> fault + VARIANT list" where
  "convs conv (m # ms) (v # vs) = bindr (conv v (DataType m)) (\<lambda>c. bindr (convs conv ms vs) (\<lambda>cs. Inr (c # cs)))"
| "convs conv _ _ = Inr []"

fun convert_rows :: "(VARIANT \<Rightarrow> nat \<Rightarrow> fault + VARIANT) \<Rightarrow> CDBColumnInfo list \<Rightarrow> nat \<Rightarrow> VARIANT list \<Rightarrow> fault + VARIANT list list" where
  "convert_rows conv meta 0 vts = Inr []"
| "convert_rows conv meta (Suc k) vts =
     bindr (convs conv meta (take (length meta) vts)) (\<lambda>row.
     bindr (convert_rows conv meta k (drop (length meta) vts)) (\<lambda>rows. Inr (row # rows)))"

lemma fill_row:
  "0 < n mod length meta \<Longrightarrow> n mod length meta = length row \<Longrightarrow> length row + length as \<le> length meta \<Longrightarrow>
   AddRows_loop conv meta n (h @ [row]) (vRow @ [length h]) (as @ bs) =
     bindr (convs conv (drop (length row) meta) as) (\<lambda>cs. AddRows_loop conv meta (n + length as) (h @ [row @ cs]) (vRow @ [length h]) bs)"
proof (induction as arbitrary: n row)
  case Nil
  then show ?case by simp
next
  case (Cons a as)
  have lt: "length row < length meta" using Cons.prems(3) by simp
  then have d: "drop (length row) meta = meta ! length row # drop (Suc (length row)) meta" by (simp add: Cons_nth_drop_Suc)
  have step: "AddRows_loop conv meta n (h @ [row]) (vRow @ [length h]) ((a # as) @ bs) =
      bindr (conv a (DataType (meta ! length row))) (\<lambda>c. AddRows_loop conv meta (n + 1) (h @ [row @ [c]]) (vRow @ [length h]) (as @ bs))"
    using Cons.prems(1,2) by simp
  show ?case
  proof (cases as)
    case Nil
    then show ?thesis unfolding step d by (simp add: bindr_assoc)
  next
    case (Cons a' as')
    then have "length row + 1 < length meta" using Cons.prems(3) by simp
    then have "(n + 1) mod length meta = length row + 1"
      using \<open>n mod length meta = length row\<close> by (simp add: mod_Suc)
    then have "AddRows_loop conv meta (n + 1) (h @ [row @ [c]]) (vRow @ [length h]) (as @ bs) =
        bindr (convs conv (drop (Suc (length row)) meta) as) (\<lambda>cs. AddRows_loop conv meta (n + 1 + length as) (h @ [row @ c # cs]) (vRow @ [length h]) bs)" for c
      using Cons.IH [of "n + 1" "row @ [c]"] Cons.prems(3) by simp
    then show ?thesis unfolding step d by (simp add: bindr_assoc)
  qed
qed

lemma new_row:
  assumes "n mod length meta = 0" "length meta \<le> length vts" "meta \<noteq> []"
  shows "AddRows_loop conv meta n h vRow vts =
    bindr (convs conv meta (take (length meta) vts)) (\<lambda>row. AddRows_loop conv meta (n + length meta) (h @ [row]) (vRow @ [length h]) (drop (length meta) vts))"
proof -
  obtain m ms v rest where s: "meta = m # ms" "vts = v # rest" using assms by (cases meta; cases vts) auto
  have step: "AddRows_loop conv meta n h vRow vts =
      bindr (conv v (DataType m)) (\<lambda>c. AddRows_loop conv meta (n + 1) (h @ [[c]]) (vRow @ [length h]) rest)"
    using assms(1) by (simp add: s)
  show ?thesis
  proof (cases ms)
    case Nil
    then show ?thesis unfolding step by (simp add: s bindr_assoc)
  next
    case (Cons m' ms')
    then have "(n + 1) mod length meta = 1" using assms(1) by (simp add: s mod_Suc)
    then have "AddRows_loop conv meta (n + 1) (h @ [[c]]) (vRow @ [length h]) (take (length ms) rest @ drop (length ms) rest) =
        bindr (convs conv ms (take (length ms) rest)) (\<lambda>cs. AddRows_loop conv meta (n + 1 + length ms) (h @ [[c] @ cs]) (vRow @ [length h]) (drop (length ms) rest))" for c
      using fill_row [of "n + 1" meta "[c]" "take (length ms) rest" conv h vRow "drop (length ms) rest"] assms(2) by (simp add: s)
    then show ?thesis unfolding step by (simp add: s bindr_assoc)
  qed
qed

lemma AddRows_loop_rows:
  assumes "n mod length meta = 0" "length vts = k * length meta" "meta \<noteq> []"
  shows "AddRows_loop conv meta n h vRow vts =
    bindr (convert_rows conv meta k vts) (\<lambda>rows. Inr (h @ rows, vRow @ [length h ..< length h + length rows]))"
  using assms(1,2)
proof (induction k arbitrary: n h vRow vts)
  case (Suc k)
  have len: "length meta \<le> length vts" "length (drop (length meta) vts) = k * length meta" using Suc.prems(2) by simp_all
  have mod: "(n + length meta) mod length meta = 0" using Suc.prems(1) by simp
  have up: "[length h ..< Suc (length h + l)] = length h # [Suc (length h) ..< Suc (length h + l)]" for l
    by (simp add: upt_conv_Cons)
  show ?case
    unfolding new_row [OF Suc.prems(1) len(1) assms(3)] Suc.IH [OF mod len(2)]
    by (simp add: bindr_assoc up del: upt_Suc)
qed simp

lemma convs_good:
  assumes "\<And>t v c. conv v t = Inr c \<Longrightarrow> sized_array v \<Longrightarrow> good_cell t c"
  shows "convs conv ms vs = Inr cs \<Longrightarrow> list_all sized_array vs \<Longrightarrow> length vs = length ms \<Longrightarrow> good_row ms cs"
proof (induction ms arbitrary: vs cs)
  case (Cons m ms)
  then obtain v vs' where "vs = v # vs'" by (cases vs) auto
  with Cons show ?case using assms by (auto simp: good_row_def bindr_Inr_iff)
qed (simp add: good_row_def)

lemma convert_rows_good:
  assumes "\<And>t v c. conv v t = Inr c \<Longrightarrow> sized_array v \<Longrightarrow> good_cell t c"
  shows "convert_rows conv meta k vts = Inr rows \<Longrightarrow> list_all sized_array vts \<Longrightarrow> length vts = k * length meta \<Longrightarrow> length rows = k \<and> list_all (good_row meta) rows"
proof (induction k arbitrary: vts rows)
  case (Suc k)
  then obtain row rest where r: "convs conv meta (take (length meta) vts) = Inr row" "convert_rows conv meta k (drop (length meta) vts) = Inr rest" "rows = row # rest"
    by (auto simp: bindr_Inr_iff)
  have "good_row meta row"
    by (rule convs_good [OF _ r(1)]) (use assms Suc.prems in \<open>auto simp: list_all_iff dest: in_set_takeD\<close>)
  moreover have "length rest = k \<and> list_all (good_row meta) rest"
    by (rule Suc.IH [OF r(2)]) (use Suc.prems in \<open>auto simp: list_all_iff dest: in_set_dropD\<close>)
  ultimately show ?case by (simp add: r(3))
qed simp

lemma copy_sized: "sized_array v \<Longrightarrow> sized_array (copy_variant v)"
  by (cases v rule: VariantCopy.cases) (auto simp: copy_variant_def sized_array_def split: option.splits)

lemma copy_type: "variant_type (copy_variant v) = variant_type v \<or> variant_type (copy_variant v) = VT_EMPTY"
  by (cases v rule: VariantCopy.cases) (auto simp: copy_variant_def split: option.splits)

lemma change_good:
  assumes "bindr (VariantChangeType F C dest data t) (\<lambda>(hr, vt). bindr (require (hr = S_OK)) (\<lambda>_. Inr vt)) = Inr c"
  shows "variant_type c = t \<or> variant_type c \<le> VT_NULL" "sized_array c"
proof -
  have *: "VariantChangeType F C dest data t = Inr (S_OK, c)"
    using assms by (auto simp: bindr_Inr_iff require_def split: if_splits)
  from change_type_result [OF *] show "variant_type c = t \<or> variant_type c \<le> VT_NULL" by (auto simp: vt_defs)
  from VariantChangeType_no_array [OF *] show "sized_array c" by (rule small_type_sized)
qed

lemma Convert_good:
  assumes "Convert F C data t = Inr c" "sized_array data"
  shows "good_cell t c"
proof -
  have t: "t \<noteq> VT_ARRAY + VT_I1" using assms(1) by (auto simp: Convert_def require_def)
  then have ct: "cell_type t = t" by (simp add: cell_type_def)
  let ?change = "bindr (VariantChangeType F C (Scalar VT_NULL []) data t) (\<lambda>(hr, vt). bindr (require (hr = S_OK)) (\<lambda>_. Inr vt))"
  have change: "good_cell t c" if "?change = Inr c"
    using change_good [OF that] ct by (auto simp: good_cell_def)
  show ?thesis
  proof (cases "variant_type data = t \<or> variant_type data \<le> VT_NULL")
    case True
    then show ?thesis
      using assms t copy_type [of data] copy_sized [OF assms(2)] ct
      by (auto simp: Convert_def good_cell_def vt_defs split: if_splits)
  next
    case False
    then have d: "\<not> (variant_type data = VT_NULL \<or> variant_type data = VT_EMPTY)" by (auto simp: vt_defs)
    show ?thesis
    proof (cases data)
      case (Vt_bstr s)
      show ?thesis
      proof (cases "t = VT_DATE")
        case True
        with assms(1) False d Vt_bstr t obtain b where "c = Scalar VT_DATE b"
          by (auto simp: Convert_def bindr_Inr_iff)
        with True ct show ?thesis by (simp add: good_cell_def sized_array_def)
      qed (use assms(1) False d Vt_bstr t change in \<open>simp add: Convert_def Let_def\<close>)
    next
      case (Fixed_array s n bs)
      show ?thesis
      proof (cases "t = VT_ARRAY + VT_UI1 \<and> s = VT_I1")
        case True
        with assms(1) False d Fixed_array t have "c = Fixed_array VT_UI1 n bs"
          by (simp add: Convert_def)
        with True ct Fixed_array assms(2) show ?thesis by (simp add: good_cell_def sized_array_def)
      qed (use assms(1) False d Fixed_array t change in \<open>auto simp: Convert_def Let_def split: if_splits\<close>)
    qed (use assms(1) False d t change in \<open>simp_all add: Convert_def Let_def\<close>)
  qed
qed

lemma good_cell_type: "good_cell (cell_type t) c \<Longrightarrow> good_cell t c"
  by (auto simp: good_cell_def cell_type_def vt_defs split: if_splits)

lemma input_good:
  assumes "sized_array v"
  shows "Convert_input F C v t = Inr c \<Longrightarrow> good_cell t c" "Convert_array_input F C v t = Inr c \<Longrightarrow> good_cell t c"
proof -
  have str: "sized_array (Vt_bstr s)" for s by (simp add: sized_array_def)
  show "Convert_input F C v t = Inr c \<Longrightarrow> good_cell t c"
    using Convert_good [of F C, OF _ str] Convert_good [of F C, OF _ assms] good_cell_type
    by (cases v) (auto simp: Convert_input_def bindr_Inr_iff split: if_splits)
  show "Convert_array_input F C v t = Inr c \<Longrightarrow> good_cell t c"
    using Convert_good [of F C, OF _ assms] good_cell_type by (auto simp: Convert_array_input_def)
qed

section \<open>The invariant of the cache\<close>

text \<open>Every table has columns and well-typed rows, and no row is in two places of the cache.\<close>

definition rows_apart :: "nat list list \<Rightarrow> bool" where
  "rows_apart rss \<longleftrightarrow> (\<forall>i < length rss. distinct (rss ! i)) \<and>
     (\<forall>i < length rss. \<forall>j < length rss. i \<noteq> j \<longrightarrow> set (rss ! i) \<inter> set (rss ! j) = {})"

definition cache_rows :: "CDataSet \<Rightarrow> nat set" where
  "cache_rows D = (\<Union>t \<in> set (m_ds D). set (second_rows t))"

definition cache_ok :: "rowstore \<Rightarrow> CDataSet \<Rightarrow> bool" where
  "cache_ok h D \<longleftrightarrow> (\<forall>t \<in> set (m_ds D). first_meta t \<noteq> [] \<and> table_ok h t) \<and> rows_apart (map second_rows (m_ds D))"

text \<open>A change of the cache keeps the invariant and does not touch rows that the cache does not hold.\<close>

definition keeps :: "rowstore \<Rightarrow> CDataSet \<Rightarrow> rowstore \<Rightarrow> CDataSet \<Rightarrow> bool" where
  "keeps h D h' D' \<longleftrightarrow> cache_ok h' D' \<and> length h \<le> length h' \<and>
     (\<forall>r < length h. r \<notin> cache_rows D \<longrightarrow> h' ! r = h ! r \<and> r \<notin> cache_rows D')"

lemma keeps_refl: "cache_ok h D \<Longrightarrow> keeps h D h D"
  by (simp add: keeps_def)

lemma keeps_trans: "keeps h D h' D' \<Longrightarrow> keeps h' D' h'' D'' \<Longrightarrow> keeps h D h'' D''"
  by (simp add: keeps_def)

lemma find_table_range: "find_table D db tb i ts = Inr (Some j) \<Longrightarrow> i \<le> j \<and> j < i + length ts"
  by (induction ts arbitrary: i) (fastforce simp: bindr_Inr_iff split: if_splits)+

lemma find_table_total: "\<forall>t \<in> set ts. first_meta t \<noteq> [] \<Longrightarrow> \<exists>r. find_table D db tb i ts = Inr r"
proof (induction ts arbitrary: i)
  case (Cons t ts)
  have "\<exists>b. Is_table D t db tb = Inr b" using Cons.prems by (cases "first_meta t") (auto simp: Is_table_def)
  with Cons show ?case by auto
qed simp

lemma with_tableE:
  assumes "with_table D db tb none f = Inr x"
  obtains "x = none" | i where "i < length (m_ds D)" "f i (m_ds D ! i) = Inr x"
  using assms find_table_range [of D db tb 0 "m_ds D"] by (fastforce simp: with_table_def bindr_Inr_iff split: option.splits)

lemma replace_table:
  assumes "cache_ok h D" "i < length (m_ds D)" "first_meta t' = first_meta (m_ds D ! i)" "table_ok h' t'" "length h \<le> length h'"
    "distinct (second_rows t')" "set (second_rows t') \<subseteq> set (second_rows (m_ds D ! i)) \<union> {length h ..< length h'}"
    "\<And>r. r < length h \<Longrightarrow> r \<notin> set (second_rows (m_ds D ! i)) \<Longrightarrow> h' ! r = h ! r"
  shows "keeps h D h' (D\<lparr>m_ds := (m_ds D)[i := t']\<rparr>)"
proof -
  have other: "table_ok h' (m_ds D ! j) \<and> set (second_rows (m_ds D ! j)) \<inter> set (second_rows t') = {} \<and> set (second_rows (m_ds D ! j)) \<subseteq> {..< length h}"
    if "j < length (m_ds D)" "j \<noteq> i" for j
  proof -
    have "table_ok h (m_ds D ! j)" "set (second_rows (m_ds D ! j)) \<inter> set (second_rows (m_ds D ! i)) = {}"
      using assms(1,2) that by (auto simp: cache_ok_def rows_apart_def)
    then show ?thesis using assms(5,7,8) unfolding table_ok_def by fastforce
  qed
  have "\<forall>t \<in> set ((m_ds D)[i := t']). first_meta t \<noteq> [] \<and> table_ok h' t"
  proof
    fix t assume "t \<in> set ((m_ds D)[i := t'])"
    then obtain j where j: "j < length (m_ds D)" "t = (m_ds D)[i := t'] ! j" by (metis in_set_conv_nth length_list_update)
    then show "first_meta t \<noteq> [] \<and> table_ok h' t"
      using assms(1-4) other by (cases "j = i") (auto simp: cache_ok_def)
  qed
  moreover have "rows_apart (map second_rows ((m_ds D)[i := t']))"
    unfolding rows_apart_def
  proof (intro conjI allI impI)
    fix j assume "j < length (map second_rows ((m_ds D)[i := t']))"
    then show "distinct (map second_rows ((m_ds D)[i := t']) ! j)"
      using assms(1,6) by (cases "j = i") (auto simp: cache_ok_def rows_apart_def)
  next
    fix j k assume "j < length (map second_rows ((m_ds D)[i := t']))" "k < length (map second_rows ((m_ds D)[i := t']))" "j \<noteq> k"
    then show "set (map second_rows ((m_ds D)[i := t']) ! j) \<inter> set (map second_rows ((m_ds D)[i := t']) ! k) = {}"
      using assms(1) other by (cases "j = i"; cases "k = i") (auto simp: cache_ok_def rows_apart_def)
  qed
  moreover have "h' ! r = h ! r \<and> r \<notin> cache_rows (D\<lparr>m_ds := (m_ds D)[i := t']\<rparr>)" if "r < length h" "r \<notin> cache_rows D" for r
  proof -
    have n: "r \<notin> set (second_rows t)" if "t \<in> set (m_ds D)" for t using that \<open>r \<notin> cache_rows D\<close> by (auto simp: cache_rows_def)
    then have "r \<notin> set (second_rows t')" using assms(2,7) that(1) by fastforce
    moreover have "set ((m_ds D)[i := t']) \<subseteq> insert t' (set (m_ds D))" by (rule set_update_subset_insert)
    ultimately have "r \<notin> cache_rows (D\<lparr>m_ds := (m_ds D)[i := t']\<rparr>)" using n by (auto simp: cache_rows_def)
    with assms(2,8) n that(1) show ?thesis by simp
  qed
  ultimately show ?thesis using assms(5) by (simp add: keeps_def cache_ok_def)
qed

section \<open>Every operation keeps the invariant\<close>

lemma AddEmptyRowset_keeps: "cache_ok h D \<Longrightarrow> keeps h D h (AddEmptyRowset D meta)"
  by (auto simp: keeps_def cache_ok_def AddEmptyRowset_def CTable_new_def table_ok_def rows_apart_def cache_rows_def nth_append)

lemma convert_rows_length: "convert_rows conv meta k vts = Inr rows \<Longrightarrow> length rows = k"
  by (induction k arbitrary: vts rows) (auto simp: bindr_Inr_iff)

lemma AddRows_with_keeps:
  assumes "AddRows_with conv h D db tb vts = Inr (h', D', n)" "cache_ok h D" "list_all sized_array vts"
    "\<And>t v c. conv v t = Inr c \<Longrightarrow> sized_array v \<Longrightarrow> good_cell t c"
  shows "keeps h D h' D'"
proof -
  consider "h' = h" "D' = D" | "with_table D db tb (h, D, 0) (\<lambda>i t.
        let col_count = length (first_meta t) in
        if length vts mod col_count \<noteq> 0 then Inr (h, D, size_of_code BAD_ORDINAL)
        else bindr (AddRows_loop conv (first_meta t) 0 h (second_rows t) vts) (\<lambda>(h, vRow).
             Inr (h, D\<lparr>m_ds := (m_ds D)[i := t\<lparr>second_rows := vRow\<rparr>]\<rparr>, length vts div col_count))) = Inr (h', D', n)"
    using assms(1) by (auto simp: AddRows_with_def split: if_splits)
  then show ?thesis
  proof cases
    case 1
    with assms(2) show ?thesis by (simp add: keeps_refl)
  next
    case 2
    then show ?thesis
    proof (rule with_tableE)
      assume "(h', D', n) = (h, D, 0)"
      with assms(2) show ?thesis by (simp add: keeps_refl)
    next
      fix i assume i: "i < length (m_ds D)"
      let ?t = "m_ds D ! i"
      assume *: "(let col_count = length (first_meta ?t) in
        if length vts mod col_count \<noteq> 0 then Inr (h, D, size_of_code BAD_ORDINAL)
        else bindr (AddRows_loop conv (first_meta ?t) 0 h (second_rows ?t) vts) (\<lambda>(h, vRow).
             Inr (h, D\<lparr>m_ds := (m_ds D)[i := ?t\<lparr>second_rows := vRow\<rparr>]\<rparr>, length vts div col_count))) = Inr (h', D', n)"
      have t: "first_meta ?t \<noteq> []" "table_ok h ?t" "distinct (second_rows ?t)"
        using assms(2) i by (auto simp: cache_ok_def rows_apart_def)
      show ?thesis
      proof (cases "length vts mod length (first_meta ?t) = 0")
        case False
        with * assms(2) show ?thesis by (simp add: keeps_refl)
      next
        case True
        then have len: "length vts = length vts div length (first_meta ?t) * length (first_meta ?t)" by auto
        from * True AddRows_loop_rows [OF _ len t(1), of 0 conv h "second_rows ?t"]
        obtain rows where r: "convert_rows conv (first_meta ?t) (length vts div length (first_meta ?t)) vts = Inr rows"
          "h' = h @ rows" "D' = D\<lparr>m_ds := (m_ds D)[i := ?t\<lparr>second_rows := second_rows ?t @ [length h ..< length h + length rows]\<rparr>]\<rparr>"
          by (auto simp: bindr_Inr_iff Let_def)
        have g: "list_all (good_row (first_meta ?t)) rows"
          using convert_rows_good [OF _ r(1) assms(3) len] assms(4) by blast
        have old: "r < length h \<and> good_row (first_meta ?t) (h ! r)" if "r \<in> set (second_rows ?t)" for r
          using t(2) that by (simp add: table_ok_def)
        show ?thesis
          unfolding r(2,3)
        proof (rule replace_table [OF assms(2) i])
          show "table_ok (h @ rows) (?t\<lparr>second_rows := second_rows ?t @ [length h ..< length h + length rows]\<rparr>)"
            using old g by (auto simp: table_ok_def nth_append list_all_length)
          show "distinct (second_rows (?t\<lparr>second_rows := second_rows ?t @ [length h ..< length h + length rows]\<rparr>))"
            using old t(3) by fastforce
        qed (auto simp: nth_append)
      qed
    qed
  qed
qed

lemma set_erase_at: "set (erase_at i xs) \<subseteq> set xs"
  by (auto simp: erase_at_def dest: in_set_takeD in_set_dropD)

lemma distinct_erase_at: "distinct xs \<Longrightarrow> distinct (erase_at i xs)"
  unfolding erase_at_def by (metis append_take_drop_id distinct_append distinct_take distinct_drop set_take_disj_set_drop_if_distinct le_add1)

lemma erase_match_keeps:
  assumes "erase_match h D i (m_ds D ! i) r = Inr (h', D', n)" "cache_ok h D" "i < length (m_ds D)"
  shows "keeps h D h' D'"
proof (cases r)
  case None
  with assms show ?thesis by (simp add: erase_match_def keeps_refl)
next
  case (Some k)
  let ?t = "m_ds D ! i"
  have t: "table_ok h ?t" "distinct (second_rows ?t)" using assms(2,3) by (auto simp: cache_ok_def rows_apart_def)
  have "keeps h D h (D\<lparr>m_ds := (m_ds D)[i := ?t\<lparr>second_rows := erase_at k (second_rows ?t)\<rparr>]\<rparr>)"
  proof (rule replace_table [OF assms(2,3)])
    show "table_ok h (?t\<lparr>second_rows := erase_at k (second_rows ?t)\<rparr>)"
      using t(1) set_erase_at [of k "second_rows ?t"] by (auto simp: table_ok_def)
    show "distinct (second_rows (?t\<lparr>second_rows := erase_at k (second_rows ?t)\<rparr>))"
      using distinct_erase_at [OF t(2)] by simp
    show "set (second_rows (?t\<lparr>second_rows := erase_at k (second_rows ?t)\<rparr>)) \<subseteq> set (second_rows ?t) \<union> {length h ..< length h}"
      using set_erase_at [of k "second_rows ?t"] by simp
  qed simp_all
  with Some assms(1) show ?thesis by (simp add: erase_match_def)
qed

lemma with_table_keeps:
  assumes "with_table D db tb (h, D, 0) f = Inr (h', D', n)" "cache_ok h D"
    "\<And>i. i < length (m_ds D) \<Longrightarrow> f i (m_ds D ! i) = Inr (h', D', n) \<Longrightarrow> keeps h D h' D'"
  shows "keeps h D h' D'"
  using assms(1)
proof (rule with_tableE)
  assume "(h', D', n) = (h, D, 0)"
  with assms(2) show ?thesis by (simp add: keeps_refl)
qed (rule assms(3))

lemma DeleteARow_keeps:
  assumes "DeleteARow F C h D db tb key = Inr (h', D', n)" "cache_ok h D"
  shows "keeps h D h' D'"
proof (cases "db = None \<or> tb = None")
  case True
  with assms show ?thesis by (auto simp: DeleteARow_def keeps_refl)
next
  case False
  from assms(1) show ?thesis
    unfolding DeleteARow_def if_not_P [OF False]
  proof (rule with_table_keeps [OF _ assms(2)])
  qed (use assms(2) in \<open>auto simp: bindr_Inr_iff keeps_refl split: option.splits intro: erase_match_keeps\<close>)
qed

lemma DeleteARow_row_keeps:
  assumes "DeleteARow_row F C h D db tb pRow = Inr (h', D', n)" "cache_ok h D"
  shows "keeps h D h' D'"
proof (cases "db = None \<or> tb = None")
  case True
  with assms show ?thesis by (auto simp: DeleteARow_row_def keeps_refl)
next
  case False
  from assms(1) show ?thesis
    unfolding DeleteARow_row_def if_not_P [OF False]
  proof (rule with_table_keeps [OF _ assms(2)])
  qed (use assms(2) in \<open>auto simp: bindr_Inr_iff keeps_refl split: option.splits prod.splits intro: erase_match_keeps\<close>)
qed

lemma update_cells_convs:
  assumes "row < length h" "n + length ms = length (h ! row)"
  shows "update_cells conv ms pvt n row h =
    bindr (convs conv ms (map (\<lambda>i. pvt ! (2 * i + 1)) [n ..< n + length ms])) (\<lambda>cs. Inr (h[row := take n (h ! row) @ cs]))"
  using assms
proof (induction ms arbitrary: n h)
  case (Cons m ms)
  have up: "[n ..< n + length (m # ms)] = n # [Suc n ..< Suc n + length ms]" by (simp add: upt_conv_Cons del: upt_Suc)
  have n: "n < length (h ! row)" using Cons.prems(2) by simp
  let ?h = "\<lambda>c. h[row := (h ! row)[n := c]]"
  have "update_cells conv ms pvt (Suc n) row (?h c) =
      bindr (convs conv ms (map (\<lambda>i. pvt ! (2 * i + 1)) [Suc n ..< Suc n + length ms])) (\<lambda>cs. Inr ((?h c)[row := take (Suc n) (?h c ! row) @ cs]))" for c
    using Cons.prems by (intro Cons.IH) simp_all
  moreover have "take (Suc n) (?h c ! row) = take n (h ! row) @ [c]" for c
    using n Cons.prems(1) by (simp add: take_Suc_conv_app_nth)
  ultimately show ?case
    unfolding up using n Cons.prems(1) by (simp add: bindr_assoc cell_at_def del: upt_Suc)
qed simp

lemma first_match_range: "first_match F cs h ks rs i = Inr (Some j) \<Longrightarrow> i \<le> j \<and> j < i + length rs \<and> row_matches F cs h (rs ! (j - i)) ks = Inr True"
proof (induction rs arbitrary: i)
  case (Cons r rs)
  then consider "row_matches F cs h r ks = Inr True" "j = i" | "first_match F cs h ks rs (i + 1) = Inr (Some j)"
    by (auto simp: bindr_Inr_iff split: if_splits)
  then show ?case
    by cases (use Cons.IH [of "i + 1"] in \<open>auto simp: nth_Cons'\<close>)
qed simp

lemma first_match2_row: "first_match2 F cs h f0 f1 k0 k1 rs = Inr (Some r) \<Longrightarrow> r \<in> set rs \<and> row_matches F cs h r [(f0, k0), (f1, k1)] = Inr True"
  by (induction rs) (auto simp: bindr_Inr_iff split: if_splits)

lemma FindARow_row:
  "FindARowInternal F h t f key = Inr (Some r) \<Longrightarrow> r \<in> set (second_rows t)"
  "FindARowInternal2 F h t f0 f1 k0 k1 = Inr (Some r) \<Longrightarrow> r \<in> set (second_rows t)"
  by (auto simp: FindARowInternal_def FindARowInternal2_def bindr_Inr_iff dest!: first_match_range first_match2_row)

lemma update_row_keeps:
  assumes "update_cells conv (first_meta t) pvt 0 row h = Inr h'" "cache_ok h D" "i < length (m_ds D)" "t = m_ds D ! i" "row \<in> set (second_rows t)"
    "list_all sized_array pvt" "length pvt = 2 * length (first_meta t)"
    "\<And>t v c. conv v t = Inr c \<Longrightarrow> sized_array v \<Longrightarrow> good_cell t c"
  shows "keeps h D h' D"
proof -
  have t: "table_ok h t" "distinct (second_rows t)" using assms(2-4) by (auto simp: cache_ok_def rows_apart_def)
  then have row: "row < length h" "good_row (first_meta t) (h ! row)" using assms(5) by (simp_all add: table_ok_def)
  have len: "0 + length (first_meta t) = length (h ! row)" using good_row_length [OF row(2)] by simp
  obtain cs where c: "convs conv (first_meta t) (map (\<lambda>i. pvt ! (2 * i + 1)) [0 ..< 0 + length (first_meta t)]) = Inr cs" "h' = h[row := cs]"
    using assms(1) unfolding update_cells_convs [OF row(1) len] by (auto simp: bindr_Inr_iff)
  have "good_row (first_meta t) cs"
    by (rule convs_good [OF assms(8) c(1)]) (use assms(6,7) in \<open>auto simp: list_all_iff\<close>)
  with t(1) row(1) have "table_ok h' t" by (auto simp: table_ok_def c(2) nth_list_update)
  moreover have "h' ! r = h ! r" if "r \<notin> set (second_rows t)" for r
    using that assms(5) by (cases "r = row") (auto simp: c(2))
  ultimately have "keeps h D h' (D\<lparr>m_ds := (m_ds D)[i := t]\<rparr>)"
    using t(2) assms(4,5) by (intro replace_table [OF assms(2,3)]) (auto simp: c(2))
  then show ?thesis by (simp add: assms(4))
qed

lemma UpdateARow_keeps:
  assumes "UpdateARow F C h D db tb pvt = Inr (h', D', n)" "cache_ok h D" "list_all sized_array pvt"
  shows "keeps h D h' D'"
proof (cases "db = None \<or> tb = None \<or> pvt = [] \<or> length pvt mod 2 \<noteq> 0")
  case True
  with assms show ?thesis by (auto simp: UpdateARow_def keeps_refl split: if_splits)
next
  case False
  then have F1: "\<not> (db = None \<or> tb = None)" and F2: "\<not> (pvt = [] \<or> length pvt mod 2 \<noteq> 0)" by auto
  from assms(1) show ?thesis
    unfolding UpdateARow_def if_not_P [OF F1] if_not_P [OF F2]
  proof (rule with_table_keeps [OF _ assms(2)])
    fix i
    let ?t = "m_ds D ! i"
    assume i: "i < length (m_ds D)" and *: "(let meta = first_meta ?t; col_count = length meta; key_type = (\<lambda>k. cell_type (DataType (meta ! k))) in
        if length pvt mod col_count \<noteq> 0 \<or> 2 * col_count \<noteq> length pvt then Inr (h, D, size_of_code BAD_ORDINAL)
        else case FindKeyColIndex2 meta of
          (None, _) \<Rightarrow> Inr (h, D, size_of_code BAD_ORDINAL)
        | (Some key0, k1) \<Rightarrow>
            bindr (Convert F C (pvt ! (key0 * 2)) (key_type key0)) (\<lambda>vt0.
            bindr (case k1 of
                     None \<Rightarrow> FindARowInternal F h ?t key0 vt0
                   | Some key1 \<Rightarrow> bindr (Convert F C (pvt ! (key1 * 2)) (key_type key1)) (\<lambda>vt1. FindARowInternal2 F h ?t key0 key1 vt0 vt1)) (\<lambda>row.
            case row of
              None \<Rightarrow> Inr (h, D, 0)
            | Some row \<Rightarrow> bindr (update_cells (Convert_input F C) meta pvt 0 row h) (\<lambda>h. Inr (h, D, 1))))) = Inr (h', D', n)"
    let ?meta = "first_meta ?t"
    let ?search = "\<lambda>key0 k1 vt0. (case k1 of
                     None \<Rightarrow> FindARowInternal F h ?t key0 vt0
                   | Some key1 \<Rightarrow> bindr (Convert F C (pvt ! (key1 * 2)) (cell_type (DataType (?meta ! key1)))) (\<lambda>vt1. FindARowInternal2 F h ?t key0 key1 vt0 vt1))"
    have found: "row \<in> set (second_rows ?t)" if "?search key0 k1 vt0 = Inr (Some row)" for key0 k1 vt0 row
      using that FindARow_row by (cases k1) (fastforce simp: bindr_Inr_iff)+
    consider "h' = h" "D' = D"
      | row where "row \<in> set (second_rows ?t)" "update_cells (Convert_input F C) ?meta pvt 0 row h = Inr h'" "D' = D" "length pvt = 2 * length ?meta"
    proof (cases "length pvt mod length ?meta \<noteq> 0 \<or> 2 * length ?meta \<noteq> length pvt \<or> fst (FindKeyColIndex2 ?meta) = None")
      case True
      with * have "h' = h" "D' = D" by (auto simp: Let_def split: if_splits prod.splits)
      then show thesis by (rule that(1))
    next
      case False
      then obtain key0 k1 where k: "FindKeyColIndex2 ?meta = (Some key0, k1)" and len: "length pvt = 2 * length ?meta"
        by (cases "FindKeyColIndex2 ?meta") auto
      from * False k obtain vt0 r where r: "?search key0 k1 vt0 = Inr r"
        "(case r of None \<Rightarrow> Inr (h, D, 0) | Some row \<Rightarrow> bindr (update_cells (Convert_input F C) ?meta pvt 0 row h) (\<lambda>h. Inr (h, D, Suc 0))) = Inr (h', D', n)"
        by (auto simp: Let_def bindr_Inr_iff)
      show thesis
      proof (cases r)
        case None
        with r(2) show thesis by (intro that(1)) simp_all
      next
        case (Some row)
        with r(2) have "update_cells (Convert_input F C) ?meta pvt 0 row h = Inr h'" "D' = D" by (auto simp: bindr_Inr_iff)
        moreover have "row \<in> set (second_rows ?t)" by (rule found) (use r(1) Some in simp)
        ultimately show thesis using len by (intro that(2))
      qed
    qed
    then show "keeps h D h' D'"
    proof cases
      case 1
      with assms(2) show ?thesis by (simp add: keeps_refl)
    next
      case 2
      from update_row_keeps [OF 2(2) assms(2) i refl 2(1) assms(3) 2(4)] input_good(1) 2(3) show ?thesis by blast
    qed
  qed
qed

section \<open>A table with an integer key is a map\<close>

lemma map_of_erase:
  assumes "distinct (map fst kvs)" "j < length kvs"
  shows "map_of (erase_at j kvs) = (map_of kvs)(fst (kvs ! j) := None)"
  using assms
proof (induction kvs arbitrary: j)
  case (Cons p kvs)
  show ?case
  proof (cases j)
    case 0
    have "map_of kvs (fst p) = None" using Cons.prems(1) by (simp add: map_of_eq_None_iff)
    then show ?thesis using 0 by (auto simp: erase_at_def fun_eq_iff)
  next
    case (Suc i)
    have "fst p \<noteq> fst (kvs ! i)" using Cons.prems Suc by (metis distinct.simps(2) length_Cons list.simps(9) not_less_eq nth_map nth_mem length_map)
    then show ?thesis using Cons.IH [of i] Cons.prems Suc by (auto simp: erase_at_def fun_eq_iff)
  qed
qed simp

lemma map_of_replace:
  assumes "distinct (map fst kvs)" "j < length kvs" "u = fst (kvs ! j) \<or> u \<notin> fst ` set kvs"
  shows "map_of (kvs[j := (u, v)]) = (map_of kvs)(fst (kvs ! j) := None, u \<mapsto> v)" "distinct (map fst (kvs[j := (u, v)]))"
  using assms
proof (induction kvs arbitrary: j)
  case (Cons p kvs)
  {
    case 1
    show ?case
    proof (cases j)
      case 0
      have "map_of kvs (fst p) = None" using 1(1) by (simp add: map_of_eq_None_iff)
      then show ?thesis using 0 by (auto simp: fun_eq_iff)
    next
      case (Suc i)
      have "kvs ! i \<in> set kvs" using 1(2) Suc by simp
      then have "fst p \<noteq> fst (kvs ! i)" "u \<noteq> fst p" using 1 Suc by (auto simp: image_iff)
      then show ?thesis using Cons.IH(1) [of i] 1 Suc by (auto simp: fun_eq_iff)
    qed
  next
    case 2
    show ?case
    proof (cases j)
      case 0
      then show ?thesis using 2 by (fastforce simp: image_iff)
    next
      case (Suc i)
      have "kvs ! i \<in> set kvs" using 2(2) Suc by simp
      then have "u \<noteq> fst p" using 2 Suc by (auto simp: image_iff)
      moreover have "set (map fst (kvs[i := (u, v)])) \<subseteq> insert u (fst ` set kvs)"
        using set_update_subset_insert [of kvs i "(u, v)"] by auto
      ultimately show ?thesis using Cons.IH(2) [of i] 2 Suc by auto
    qed
  }
qed simp_all

text \<open>Keys and rows of a table whose key is column \<open>k\<close> of type \<open>ty\<close>.\<close>

definition keyed_rows :: "rowstore \<Rightarrow> nat \<Rightarrow> nat \<Rightarrow> nat list \<Rightarrow> (int \<times> VARIANT list) list" where
  "keyed_rows h k ty rs = map (\<lambda>r. (the (int_cell ty (h ! r ! k)), h ! r)) rs"

definition has_keys :: "rowstore \<Rightarrow> nat \<Rightarrow> nat \<Rightarrow> nat list \<Rightarrow> bool" where
  "has_keys h k ty rs \<longleftrightarrow> (\<forall>r \<in> set rs. int_cell ty (h ! r ! k) \<noteq> None) \<and> distinct (map fst (keyed_rows h k ty rs))"

lemma eq_integer_cell:
  assumes "integer_type ty = Some (w, sg)" "int_cell ty v = Some i" "integer_member ty b = Some u"
  shows "eq F cs v (Scalar ty b) = Inr (as_int (i = u))"
proof -
  obtain b0 where "v = Scalar ty b0" "integer_member ty b0 = Some i" using assms(2) by (cases v) (auto simp: int_cell_def split: if_splits)
  then show ?thesis using compare_integers [OF assms(1) _ assms(3), of b0 i F cs] by (simp add: eq_def)
qed

lemma first_match_key:
  assumes "integer_type ty = Some (w, sg)" "integer_member ty b = Some u"
    "\<forall>r \<in> set rs. r < length h \<and> k < length (h ! r) \<and> int_cell ty (h ! r ! k) \<noteq> None"
  shows "first_match F cs h [(k, Scalar ty b)] rs i = Inr None \<and> u \<notin> fst ` set (keyed_rows h k ty rs) \<or>
    (\<exists>j < length rs. first_match F cs h [(k, Scalar ty b)] rs i = Inr (Some (i + j)) \<and> fst (keyed_rows h k ty rs ! j) = u)"
  using assms(3)
proof (induction rs arbitrary: i)
  case (Cons r rs)
  then obtain key where key: "int_cell ty (h ! r ! k) = Some key" by auto
  have m: "row_matches F cs h r [(k, Scalar ty b)] = Inr (key = u)"
    using Cons.prems eq_integer_cell [OF assms(1) key assms(2), of F cs] by (simp add: cell_at_def as_int_def)
  show ?case
  proof (cases "key = u")
    case True
    with m key have "first_match F cs h [(k, Scalar ty b)] (r # rs) i = Inr (Some (i + 0))" "fst (keyed_rows h k ty (r # rs) ! 0) = u"
      by (simp_all add: keyed_rows_def)
    then show ?thesis by blast
  next
    case False
    have "first_match F cs h [(k, Scalar ty b)] (r # rs) i = first_match F cs h [(k, Scalar ty b)] rs (i + 1)"
      using m False by simp
    moreover have "fst ` set (keyed_rows h k ty (r # rs)) = insert key (fst ` set (keyed_rows h k ty rs))"
      "keyed_rows h k ty (r # rs) ! Suc j = keyed_rows h k ty rs ! j" for j
      using key by (simp_all add: keyed_rows_def)
    moreover have "first_match F cs h [(k, Scalar ty b)] rs (i + 1) = Inr None \<and> u \<notin> fst ` set (keyed_rows h k ty rs) \<or>
        (\<exists>j < length rs. first_match F cs h [(k, Scalar ty b)] rs (i + 1) = Inr (Some (i + Suc j)) \<and> fst (keyed_rows h k ty rs ! j) = u)"
      using Cons.IH [of "i + 1"] Cons.prems by simp
    ultimately show ?thesis using False by (metis Suc_less_eq insertE length_Cons)
  qed
qed (simp add: keyed_rows_def)

definition integer_key :: "CDBColumnInfo list \<Rightarrow> nat \<Rightarrow> nat \<Rightarrow> bool" where
  "integer_key meta k ty \<longleftrightarrow> FindKeyColIndex2 meta = (Some k, None) \<and> k < length meta \<and> DataType (meta ! k) = ty \<and> integer_type ty \<noteq> None"

text \<open>The table with these names is the map \<open>m\<close> from keys to rows.\<close>

definition represents :: "rowstore \<Rightarrow> CDataSet \<Rightarrow> nat list \<Rightarrow> nat list \<Rightarrow> CDBColumnInfo list \<Rightarrow> nat \<Rightarrow> nat \<Rightarrow> (int \<rightharpoonup> VARIANT list) \<Rightarrow> bool" where
  "represents h D db tb meta k ty m \<longleftrightarrow> cache_ok h D \<and> integer_key meta k ty \<and>
     (\<exists>i. find_table D (Some db) (Some tb) 0 (m_ds D) = Inr (Some i) \<and> first_meta (m_ds D ! i) = meta \<and>
        has_keys h k ty (second_rows (m_ds D ! i)) \<and> m = map_of (keyed_rows h k ty (second_rows (m_ds D ! i))))"

lemma find_table_cong:
  assumes "map first_meta ts = map first_meta ts'" "m_bDBNameCaseSensitive D = m_bDBNameCaseSensitive D'" "m_bTableNameCaseSensitive D = m_bTableNameCaseSensitive D'"
  shows "find_table D db tb i ts = find_table D' db tb i ts'"
  using assms(1)
proof (induction ts arbitrary: i ts')
  case (Cons t ts)
  then obtain t' ts'' where t: "ts' = t' # ts''" "first_meta t = first_meta t'" "map first_meta ts = map first_meta ts''" by (cases ts') auto
  then have "Is_table D t db tb = Is_table D' t' db tb" using assms(2,3) by (simp add: Is_table_def split: list.split)
  with Cons.IH [OF t(3)] t(1) show ?case by (simp cong: if_cong)
qed simp

lemma find_table_same:
  assumes "i < length (m_ds D)" "first_meta t' = first_meta (m_ds D ! i)"
  shows "find_table (D\<lparr>m_ds := (m_ds D)[i := t']\<rparr>) db tb j ((m_ds D)[i := t']) = find_table D db tb j (m_ds D)"
  using assms by (intro find_table_cong) (simp_all add: list_eq_iff_nth_eq nth_list_update)

text \<open>What is known of the table that represents a map.\<close>

lemma representsE:
  assumes "represents h D db tb meta k ty m"
  obtains i w sg where "cache_ok h D" "find_table D (Some db) (Some tb) 0 (m_ds D) = Inr (Some i)" "i < length (m_ds D)"
    "first_meta (m_ds D ! i) = meta" "has_keys h k ty (second_rows (m_ds D ! i))" "m = map_of (keyed_rows h k ty (second_rows (m_ds D ! i)))"
    "integer_type ty = Some (w, sg)" "FindKeyColIndex2 meta = (Some k, None)" "k < length meta" "DataType (meta ! k) = ty" "meta \<noteq> []"
    "\<forall>r \<in> set (second_rows (m_ds D ! i)). r < length h \<and> length (h ! r) = length meta \<and> int_cell ty (h ! r ! k) \<noteq> None"
proof -
  obtain i where i: "find_table D (Some db) (Some tb) 0 (m_ds D) = Inr (Some i)" "first_meta (m_ds D ! i) = meta"
      "has_keys h k ty (second_rows (m_ds D ! i))" "m = map_of (keyed_rows h k ty (second_rows (m_ds D ! i)))" and ok: "cache_ok h D" and key: "integer_key meta k ty"
    using assms by (auto simp: represents_def)
  have l: "i < length (m_ds D)" using find_table_range [OF i(1)] by simp
  then have "table_ok h (m_ds D ! i)" using ok by (simp add: cache_ok_def)
  then have "\<forall>r \<in> set (second_rows (m_ds D ! i)). r < length h \<and> length (h ! r) = length meta \<and> int_cell ty (h ! r ! k) \<noteq> None"
    using i(2,3) good_row_length by (fastforce simp: table_ok_def has_keys_def)
  moreover have "meta \<noteq> []" using key by (auto simp: integer_key_def)
  ultimately show thesis using that [OF ok i(1) l i(2,3,4)] key by (auto simp: integer_key_def)
qed

lemma FindKeyColIndex2_first: "FindKeyColIndex2 meta = (Some k, x) \<Longrightarrow> FindKeyColIndex meta 0 = Some k"
  by (auto simp: FindKeyColIndex2_def split: option.splits)

lemma integer_key_cell:
  assumes "integer_type ty = Some (w, sg)"
  shows "cell_type ty = ty \<and> Convert F C (Scalar ty b) ty = Inr (Scalar ty b)"
  using integer_type_small [OF assms] by (auto simp: cell_type_def vt_defs Convert_def copy_variant_def)

lemma keyed_rows_erase: "keyed_rows h k ty (erase_at j rs) = erase_at j (keyed_rows h k ty rs)"
  by (simp add: keyed_rows_def erase_at_def take_map drop_map)

lemma map_erase_at: "map f (erase_at j xs) = erase_at j (map f xs)"
  by (simp add: erase_at_def take_map drop_map)

lemma has_keys_erase:
  assumes "has_keys h k ty rs"
  shows "has_keys h k ty (erase_at j rs)"
  using assms set_erase_at [of j rs] distinct_erase_at [of "map fst (keyed_rows h k ty rs)" j]
  by (auto simp: has_keys_def keyed_rows_erase map_erase_at)

lemma delete_represents:
  assumes rep: "represents h D db tb meta k ty m" and u: "integer_member ty b = Some u"
  shows "\<exists>D'. DeleteARow F C h D (Some db) (Some tb) (Scalar ty b) = Inr (h, D', if u \<in> dom m then 1 else 0) \<and> represents h D' db tb meta k ty (m(u := None))"
proof -
  obtain i w sg where i: "cache_ok h D" "find_table D (Some db) (Some tb) 0 (m_ds D) = Inr (Some i)" "i < length (m_ds D)"
    "first_meta (m_ds D ! i) = meta" "has_keys h k ty (second_rows (m_ds D ! i))" "m = map_of (keyed_rows h k ty (second_rows (m_ds D ! i)))"
    "integer_type ty = Some (w, sg)" "FindKeyColIndex2 meta = (Some k, None)" "k < length meta" "DataType (meta ! k) = ty" "meta \<noteq> []"
    "\<forall>r \<in> set (second_rows (m_ds D ! i)). r < length h \<and> length (h ! r) = length meta \<and> int_cell ty (h ! r ! k) \<noteq> None"
    using representsE [OF rep] by metis
  let ?t = "m_ds D ! i" and ?rs = "second_rows (m_ds D ! i)"
  let ?kvs = "keyed_rows h k ty ?rs"
  note key = integer_key_cell [OF i(7), of F C b]
  have del: "DeleteARow F C h D (Some db) (Some tb) (Scalar ty b) =
      bindr (first_match F (m_bDataCaseSensitive ?t) h [(k, Scalar ty b)] ?rs 0) (\<lambda>r. erase_match h D i ?t r)"
    using i(2,4,10) FindKeyColIndex2_first [OF i(8)] key by (simp add: DeleteARow_def with_table_def)
  have "\<forall>r \<in> set ?rs. r < length h \<and> k < length (h ! r) \<and> int_cell ty (h ! r ! k) \<noteq> None" using i(9,12) by simp
  from first_match_key [OF i(7) u this, of F "m_bDataCaseSensitive ?t" 0]
  consider "first_match F (m_bDataCaseSensitive ?t) h [(k, Scalar ty b)] ?rs 0 = Inr None" "u \<notin> fst ` set ?kvs"
    | j where "j < length ?rs" "first_match F (m_bDataCaseSensitive ?t) h [(k, Scalar ty b)] ?rs 0 = Inr (Some j)" "fst (?kvs ! j) = u"
    by auto
  then show ?thesis
  proof cases
    case 1
    then have "u \<notin> dom m" by (simp add: i(6) dom_map_of_conv_image_fst)
    moreover from this have "m(u := None) = m" by (auto simp: fun_eq_iff domIff)
    ultimately show ?thesis using del 1(1) rep by (simp add: erase_match_def)
  next
    case 2
    let ?D = "D\<lparr>m_ds := (m_ds D)[i := ?t\<lparr>second_rows := erase_at j ?rs\<rparr>]\<rparr>"
    have d: "distinct (map fst ?kvs)" using i(5) by (simp add: has_keys_def)
    have len: "j < length ?kvs" using 2(1) by (simp add: keyed_rows_def)
    then have "u \<in> dom m" using 2(3) by (metis i(6) dom_map_of_conv_image_fst image_eqI nth_mem)
    moreover have e: "erase_match h D i ?t (Some j) = Inr (h, ?D, 1)" by (simp add: erase_match_def)
    moreover have "represents h ?D db tb meta k ty (m(u := None))"
      unfolding represents_def
    proof (intro conjI exI [of _ i])
      show "cache_ok h ?D" using erase_match_keeps [OF e i(1,3)] by (simp add: keeps_def)
      show "integer_key meta k ty" using i(7-10) by (simp add: integer_key_def)
      show "find_table ?D (Some db) (Some tb) 0 (m_ds ?D) = Inr (Some i)"
        using find_table_same [OF i(3), of "?t\<lparr>second_rows := erase_at j ?rs\<rparr>" "Some db" "Some tb" 0] i(2) by simp
      show "has_keys h k ty (second_rows (m_ds ?D ! i))"
        using i(3) has_keys_erase [OF i(5)] by simp
      show "m(u := None) = map_of (keyed_rows h k ty (second_rows (m_ds ?D ! i)))"
        using map_of_erase [OF d len] 2(3) i(3,6) by (simp add: keyed_rows_erase)
    qed (use i(3,4) in simp)
    ultimately show ?thesis using del 2(2) by simp
  qed
qed

lemma convs_length: "convs conv ms vs = Inr cs \<Longrightarrow> length vs = length ms \<Longrightarrow> length cs = length ms"
proof (induction ms arbitrary: vs cs)
  case (Cons m ms)
  then obtain v vs' where "vs = v # vs'" by (cases vs) auto
  with Cons show ?case by (auto simp: bindr_Inr_iff)
qed simp

lemma add_represents:
  assumes rep: "represents h D db tb meta k ty m" and sized: "list_all sized_array vts" "length vts = length meta"
    and row: "convs (Convert_input F C) meta vts = Inr row" "int_cell ty (row ! k) = Some u" "u \<notin> dom m"
  shows "\<exists>h' D'. AddRows F C h D (Some db) (Some tb) vts = Inr (h', D', 1) \<and> represents h' D' db tb meta k ty (m(u \<mapsto> row))"
proof -
  obtain i w sg where i: "cache_ok h D" "find_table D (Some db) (Some tb) 0 (m_ds D) = Inr (Some i)" "i < length (m_ds D)"
    "first_meta (m_ds D ! i) = meta" "has_keys h k ty (second_rows (m_ds D ! i))" "m = map_of (keyed_rows h k ty (second_rows (m_ds D ! i)))"
    "integer_type ty = Some (w, sg)" "FindKeyColIndex2 meta = (Some k, None)" "k < length meta" "DataType (meta ! k) = ty" "meta \<noteq> []"
    "\<forall>r \<in> set (second_rows (m_ds D ! i)). r < length h \<and> length (h ! r) = length meta \<and> int_cell ty (h ! r ! k) \<noteq> None"
    using representsE [OF rep] by metis
  let ?t = "m_ds D ! i" and ?rs = "second_rows (m_ds D ! i)"
  let ?t' = "?t\<lparr>second_rows := ?rs @ [length h]\<rparr>"
  let ?D = "D\<lparr>m_ds := (m_ds D)[i := ?t']\<rparr>"
  have "vts \<noteq> []" using sized(2) i(11) by auto
  have "AddRows_loop (Convert_input F C) meta 0 h ?rs vts = Inr (h @ [row], ?rs @ [length h])"
    using AddRows_loop_rows [of 0 meta vts 1 "Convert_input F C" h ?rs] sized(2) i(11) row(1) by simp
  then have add: "AddRows F C h D (Some db) (Some tb) vts = Inr (h @ [row], ?D, 1)"
    using \<open>vts \<noteq> []\<close> i(2,4,11) sized(2) by (simp add: AddRows_def AddRows_with_def with_table_def Let_def)
  have keeps: "keeps h D (h @ [row]) ?D"
    using AddRows_with_keeps [OF add [unfolded AddRows_def] i(1) sized(1)] input_good(1) by blast
  have old: "keyed_rows (h @ [row]) k ty ?rs = keyed_rows h k ty ?rs"
    using i(12) by (simp add: keyed_rows_def nth_append)
  have kv: "keyed_rows (h @ [row]) k ty (?rs @ [length h]) = keyed_rows h k ty ?rs @ [(u, row)]"
    using old row(2) by (simp add: keyed_rows_def)
  have fresh: "u \<notin> fst ` set (keyed_rows h k ty ?rs)" using row(3) by (simp add: i(6) dom_map_of_conv_image_fst)
  have "represents (h @ [row]) ?D db tb meta k ty (m(u \<mapsto> row))"
    unfolding represents_def
  proof (intro conjI exI [of _ i])
    show "cache_ok (h @ [row]) ?D" using keeps by (simp add: keeps_def)
    show "integer_key meta k ty" using i(7-10) by (simp add: integer_key_def)
    show "find_table ?D (Some db) (Some tb) 0 (m_ds ?D) = Inr (Some i)"
      using find_table_same [OF i(3), of ?t' "Some db" "Some tb" 0] i(2) by simp
    have "\<forall>r \<in> set (?rs @ [length h]). int_cell ty ((h @ [row]) ! r ! k) \<noteq> None"
      using i(12) row(2) by (auto simp: nth_append)
    moreover have "distinct (map fst (keyed_rows (h @ [row]) k ty (?rs @ [length h])))"
      using i(5) fresh unfolding kv by (simp add: has_keys_def)
    ultimately show "has_keys (h @ [row]) k ty (second_rows (m_ds ?D ! i))"
      using i(3) by (simp add: has_keys_def)
    have "map_of (keyed_rows h k ty ?rs @ [(u, row)]) = m(u \<mapsto> row)"
      using fresh row(3) by (auto simp: i(6) fun_eq_iff map_add_def domIff split: option.splits)
    then show "m(u \<mapsto> row) = map_of (keyed_rows (h @ [row]) k ty (second_rows (m_ds ?D ! i)))"
      using i(3) kv by simp
  qed (use i(3,4) in simp)
  with add show ?thesis by blast
qed

text \<open>The old and the new values of a row alternate.\<close>

definition new_values :: "nat \<Rightarrow> VARIANT list \<Rightarrow> VARIANT list" where
  "new_values n pvt = map (\<lambda>i. pvt ! (2 * i + 1)) [0 ..< n]"

lemma update_represents:
  assumes rep: "represents h D db tb meta k ty m" and sized: "list_all sized_array pvt" "length pvt = 2 * length meta"
    and u: "pvt ! (k * 2) = Scalar ty b" "integer_member ty b = Some u"
    and row: "convs (Convert_input F C) meta (new_values (length meta) pvt) = Inr row" "int_cell ty (row ! k) = Some u'" "u' = u \<or> u' \<notin> dom m"
  shows "\<exists>h'. UpdateARow F C h D (Some db) (Some tb) pvt = Inr (h', D, if u \<in> dom m then 1 else 0) \<and>
    represents h' D db tb meta k ty (if u \<in> dom m then m(u := None, u' \<mapsto> row) else m)"
proof -
  obtain i w sg where i: "cache_ok h D" "find_table D (Some db) (Some tb) 0 (m_ds D) = Inr (Some i)" "i < length (m_ds D)"
    "first_meta (m_ds D ! i) = meta" "has_keys h k ty (second_rows (m_ds D ! i))" "m = map_of (keyed_rows h k ty (second_rows (m_ds D ! i)))"
    "integer_type ty = Some (w, sg)" "FindKeyColIndex2 meta = (Some k, None)" "k < length meta" "DataType (meta ! k) = ty" "meta \<noteq> []"
    "\<forall>r \<in> set (second_rows (m_ds D ! i)). r < length h \<and> length (h ! r) = length meta \<and> int_cell ty (h ! r ! k) \<noteq> None"
    using representsE [OF rep] by metis
  let ?t = "m_ds D ! i" and ?rs = "second_rows (m_ds D ! i)"
  let ?kvs = "keyed_rows h k ty ?rs"
  note key = integer_key_cell [OF i(7), of F C b]
  have "pvt \<noteq> []" "length pvt mod 2 = 0" using sized(2) i(11) by auto
  then have upd: "UpdateARow F C h D (Some db) (Some tb) pvt =
      bindr (FindARowInternal F h ?t k (Scalar ty b)) (\<lambda>row. case row of None \<Rightarrow> Inr (h, D, 0)
        | Some row \<Rightarrow> bindr (update_cells (Convert_input F C) meta pvt 0 row h) (\<lambda>h. Inr (h, D, 1)))"
    using i(2,4,8,10,11) sized(2) key u(1) by (simp add: UpdateARow_def with_table_def Let_def)
  have "\<forall>r \<in> set ?rs. r < length h \<and> k < length (h ! r) \<and> int_cell ty (h ! r ! k) \<noteq> None" using i(9,12) by simp
  from first_match_key [OF i(7) u(2) this, of F "m_bDataCaseSensitive ?t" 0]
  consider "FindARowInternal F h ?t k (Scalar ty b) = Inr None" "u \<notin> fst ` set ?kvs"
    | j where "j < length ?rs" "FindARowInternal F h ?t k (Scalar ty b) = Inr (Some (?rs ! j))" "fst (?kvs ! j) = u"
    by (auto simp: FindARowInternal_def)
  then show ?thesis
  proof cases
    case 1
    then have "u \<notin> dom m" by (simp add: i(6) dom_map_of_conv_image_fst)
    then show ?thesis using upd 1(1) rep by simp
  next
    case 2
    let ?r = "?rs ! j"
    let ?h = "h[?r := row]"
    have d: "distinct (map fst ?kvs)" "distinct ?rs" using i(1,3,5) by (auto simp: has_keys_def cache_ok_def rows_apart_def)
    have len: "j < length ?kvs" using 2(1) by (simp add: keyed_rows_def)
    then have dom: "u \<in> dom m" using 2(3) by (metis i(6) dom_map_of_conv_image_fst image_eqI nth_mem)
    have r: "?r \<in> set ?rs" "?r < length h" "0 + length meta = length (h ! ?r)" using i(12) 2(1) nth_mem by fastforce+
    have cells: "update_cells (Convert_input F C) (first_meta ?t) pvt 0 ?r h = Inr ?h"
      using update_cells_convs [OF r(2,3), of "Convert_input F C" pvt] row(1) i(4) by (simp add: new_values_def)
    have keeps: "keeps h D ?h D"
      using update_row_keeps [OF cells i(1,3) refl r(1) sized(1)] sized(2) i(4) input_good(1) by blast
    have kv: "keyed_rows ?h k ty ?rs = ?kvs[j := (u', row)]"
    proof (rule nth_equalityI)
      fix l assume "l < length (keyed_rows ?h k ty ?rs)"
      then have l: "l < length ?rs" by (simp add: keyed_rows_def)
      with d(2) 2(1) have "?rs ! l = ?r \<longleftrightarrow> l = j" by (simp add: nth_eq_iff_index_eq)
      with l r(2) row(2) show "keyed_rows ?h k ty ?rs ! l = ?kvs[j := (u', row)] ! l"
        by (auto simp: keyed_rows_def nth_list_update)
    qed (simp add: keyed_rows_def)
    have fresh: "u' = fst (?kvs ! j) \<or> u' \<notin> fst ` set ?kvs"
      using row(3) 2(3) by (auto simp: i(6) dom_map_of_conv_image_fst)
    have "represents ?h D db tb meta k ty (m(u := None, u' \<mapsto> row))"
      unfolding represents_def
    proof (intro conjI exI [of _ i])
      show "cache_ok ?h D" using keeps by (simp add: keeps_def)
      show "integer_key meta k ty" using i(7-10) by (simp add: integer_key_def)
      have "\<forall>s \<in> set ?rs. int_cell ty (?h ! s ! k) \<noteq> None"
        using i(12) row(2) r(2) by (auto simp: nth_list_update)
      then show "has_keys ?h k ty ?rs" using map_of_replace(2) [OF d(1) len fresh] kv by (simp add: has_keys_def)
      show "m(u := None, u' \<mapsto> row) = map_of (keyed_rows ?h k ty ?rs)"
        using map_of_replace(1) [OF d(1) len fresh, of row] kv 2(3) by (simp add: i(6))
    qed (use i(2,4) in simp_all)
    then show ?thesis using upd 2(2) cells dom i(4) by simp
  qed
qed

section \<open>Sequences of operations\<close>

datatype row_op = Insert_row "VARIANT list" | Delete_key VARIANT | Update_row "VARIANT list"

fun row_step :: "'d fpu \<Rightarrow> text_conv \<Rightarrow> nat list \<Rightarrow> nat list \<Rightarrow> rowstore \<Rightarrow> CDataSet \<Rightarrow> row_op \<Rightarrow> fault + (rowstore \<times> CDataSet \<times> nat)" where
  "row_step F C db tb h D (Insert_row vts) = AddRows F C h D (Some db) (Some tb) vts"
| "row_step F C db tb h D (Delete_key v) = DeleteARow F C h D (Some db) (Some tb) v"
| "row_step F C db tb h D (Update_row pvt) = UpdateARow F C h D (Some db) (Some tb) pvt"

fun row_run :: "'d fpu \<Rightarrow> text_conv \<Rightarrow> nat list \<Rightarrow> nat list \<Rightarrow> rowstore \<Rightarrow> CDataSet \<Rightarrow> row_op list \<Rightarrow> fault + (rowstore \<times> CDataSet \<times> nat list)" where
  "row_run F C db tb h D [] = Inr (h, D, [])"
| "row_run F C db tb h D (op # ops) =
     bindr (row_step F C db tb h D op) (\<lambda>(h, D, n). bindr (row_run F C db tb h D ops) (\<lambda>(h, D, ns). Inr (h, D, n # ns)))"

text \<open>
  The same on a map from keys to rows. \<open>None\<close> is an operation with values that cannot be converted
  or with a key that is taken, which the cache does not look for.
\<close>

definition converted :: "'d fpu \<Rightarrow> text_conv \<Rightarrow> CDBColumnInfo list \<Rightarrow> nat \<Rightarrow> nat \<Rightarrow> VARIANT list \<Rightarrow> (int \<times> VARIANT list) option" where
  "converted F C meta k ty vts =
     (case convs (Convert_input F C) meta vts of
        Inl _ \<Rightarrow> None
      | Inr row \<Rightarrow> map_option (\<lambda>u. (u, row)) (int_cell ty (row ! k)))"

fun map_step :: "'d fpu \<Rightarrow> text_conv \<Rightarrow> CDBColumnInfo list \<Rightarrow> nat \<Rightarrow> nat \<Rightarrow> (int \<rightharpoonup> VARIANT list) \<Rightarrow> row_op \<Rightarrow> ((int \<rightharpoonup> VARIANT list) \<times> nat) option" where
  "map_step F C meta k ty m (Insert_row vts) =
     (if list_all sized_array vts \<and> length vts = length meta
      then case converted F C meta k ty vts of
             Some (u, row) \<Rightarrow> if m u = None then Some (m(u \<mapsto> row), 1) else None
           | None \<Rightarrow> None
      else None)"
| "map_step F C meta k ty m (Delete_key v) = map_option (\<lambda>u. (m(u := None), if m u = None then 0 else 1)) (int_cell ty v)"
| "map_step F C meta k ty m (Update_row pvt) =
     (if list_all sized_array pvt \<and> length pvt = 2 * length meta
      then case (int_cell ty (pvt ! (k * 2)), converted F C meta k ty (new_values (length meta) pvt)) of
             (Some u, Some (u', row)) \<Rightarrow>
               if u' = u \<or> m u' = None then Some (if m u = None then (m, 0) else (m(u := None, u' \<mapsto> row), 1)) else None
           | _ \<Rightarrow> None
      else None)"

fun map_run :: "'d fpu \<Rightarrow> text_conv \<Rightarrow> CDBColumnInfo list \<Rightarrow> nat \<Rightarrow> nat \<Rightarrow> (int \<rightharpoonup> VARIANT list) \<Rightarrow> row_op list \<Rightarrow> ((int \<rightharpoonup> VARIANT list) \<times> nat list) option" where
  "map_run F C meta k ty m [] = Some (m, [])"
| "map_run F C meta k ty m (op # ops) =
     (case map_step F C meta k ty m op of
        None \<Rightarrow> None
      | Some (m, n) \<Rightarrow> map_option (\<lambda>(m, ns). (m, n # ns)) (map_run F C meta k ty m ops))"

lemma int_cellE:
  assumes "int_cell ty v = Some u"
  obtains b where "v = Scalar ty b" "integer_member ty b = Some u"
  using assms by (cases v) (auto simp: int_cell_def split: if_splits)

lemma converted_Some: "converted F C meta k ty vts = Some (u, row) \<longleftrightarrow> convs (Convert_input F C) meta vts = Inr row \<and> int_cell ty (row ! k) = Some u"
  by (auto simp: converted_def split: sum.splits)

lemma row_step_refines:
  assumes "represents h D db tb meta k ty m" "map_step F C meta k ty m op = Some (m', n)"
  shows "\<exists>h' D'. row_step F C db tb h D op = Inr (h', D', n) \<and> represents h' D' db tb meta k ty m'"
proof (cases op)
  case (Insert_row vts)
  with assms(2) obtain u row where a: "list_all sized_array vts" "length vts = length meta"
    "convs (Convert_input F C) meta vts = Inr row" "int_cell ty (row ! k) = Some u" "u \<notin> dom m" "m' = m(u \<mapsto> row)" "n = 1"
    by (fastforce simp: converted_Some domIff split: if_splits option.splits)
  from add_represents [OF assms(1) a(1-5)] Insert_row a(6,7) show ?thesis by simp
next
  case (Delete_key v)
  with assms(2) obtain u where u: "int_cell ty v = Some u" "m' = m(u := None)" "n = (if m u = None then 0 else 1)" by auto
  from u(1) obtain b where b: "v = Scalar ty b" "integer_member ty b = Some u" by (rule int_cellE)
  from delete_represents [OF assms(1) b(2), of F C] Delete_key u(2,3) b(1) show ?thesis by (auto simp: dom_def)
next
  case (Update_row pvt)
  with assms(2) obtain u u' row where a: "list_all sized_array pvt" "length pvt = 2 * length meta" "int_cell ty (pvt ! (k * 2)) = Some u"
    "convs (Convert_input F C) meta (new_values (length meta) pvt) = Inr row" "int_cell ty (row ! k) = Some u'" "u' = u \<or> u' \<notin> dom m"
    "(m', n) = (if m u = None then (m, 0) else (m(u := None, u' \<mapsto> row), 1))"
    by (auto simp: converted_Some dom_def split: if_splits option.splits)
  from a(3) obtain b where b: "pvt ! (k * 2) = Scalar ty b" "integer_member ty b = Some u" by (rule int_cellE)
  from update_represents [OF assms(1) a(1,2) b a(4-6)] a(7) Update_row show ?thesis
    by (cases "m u = None") (auto simp: dom_def)
qed

datatype cache_op =
    Cache_meta "CDBColumnInfo list"
  | Cache_add "nat list option" "nat list option" "VARIANT list"
  | Cache_add_array "nat list option" "nat list option" "VARIANT list"
  | Cache_delete "nat list option" "nat list option" VARIANT
  | Cache_delete_row "nat list option" "nat list option" "VARIANT list"
  | Cache_update "nat list option" "nat list option" "VARIANT list"

fun cache_step :: "'d fpu \<Rightarrow> text_conv \<Rightarrow> rowstore \<Rightarrow> CDataSet \<Rightarrow> cache_op \<Rightarrow> fault + (rowstore \<times> CDataSet \<times> nat)" where
  "cache_step F C h D (Cache_meta meta) = Inr (h, AddEmptyRowset D meta, 0)"
| "cache_step F C h D (Cache_add db tb vts) = AddRows F C h D db tb vts"
| "cache_step F C h D (Cache_add_array db tb vts) = AddRows_array F C h D db tb vts"
| "cache_step F C h D (Cache_delete db tb v) = DeleteARow F C h D db tb v"
| "cache_step F C h D (Cache_delete_row db tb vts) = DeleteARow_row F C h D db tb vts"
| "cache_step F C h D (Cache_update db tb vts) = UpdateARow F C h D db tb vts"

fun cache_run :: "'d fpu \<Rightarrow> text_conv \<Rightarrow> rowstore \<Rightarrow> CDataSet \<Rightarrow> cache_op list \<Rightarrow> fault + (rowstore \<times> CDataSet)" where
  "cache_run F C h D [] = Inr (h, D)"
| "cache_run F C h D (op # ops) = bindr (cache_step F C h D op) (\<lambda>(h, D, n). cache_run F C h D ops)"

text \<open>The arrays among the values have the elements that they claim.\<close>

fun sized_op :: "cache_op \<Rightarrow> bool" where
  "sized_op (Cache_add db tb vts) = list_all sized_array vts"
| "sized_op (Cache_add_array db tb vts) = list_all sized_array vts"
| "sized_op (Cache_update db tb vts) = list_all sized_array vts"
| "sized_op _ = True"

lemma cache_step_keeps:
  assumes "cache_step F C h D op = Inr (h', D', n)" "cache_ok h D" "sized_op op"
  shows "keeps h D h' D'"
proof (cases op)
  case (Cache_meta meta)
  with assms AddEmptyRowset_keeps [OF assms(2)] show ?thesis by auto
next
  case (Cache_add db tb vts)
  with assms have "AddRows_with (Convert_input F C) h D db tb vts = Inr (h', D', n)" "list_all sized_array vts"
    by (simp_all add: AddRows_def)
  from AddRows_with_keeps [OF this(1) assms(2) this(2)] input_good(1) show ?thesis by blast
next
  case (Cache_add_array db tb vts)
  with assms have "AddRows_with (Convert_array_input F C) h D db tb vts = Inr (h', D', n)" "list_all sized_array vts"
    by (simp_all add: AddRows_array_def)
  from AddRows_with_keeps [OF this(1) assms(2) this(2)] input_good(2) show ?thesis by blast
next
  case (Cache_delete db tb v)
  with assms show ?thesis by (auto intro: DeleteARow_keeps)
next
  case (Cache_delete_row db tb vts)
  with assms show ?thesis by (auto intro: DeleteARow_row_keeps)
next
  case (Cache_update db tb vts)
  with assms show ?thesis by (auto intro: UpdateARow_keeps)
qed

lemma cache_run_keeps: "cache_run F C h D ops = Inr (h', D') \<Longrightarrow> cache_ok h D \<Longrightarrow> list_all sized_op ops \<Longrightarrow> keeps h D h' D'"
proof (induction ops arbitrary: h D)
  case Nil
  then show ?case by (simp add: keeps_refl)
next
  case (Cons op ops)
  then obtain h1 D1 n where s: "cache_step F C h D op = Inr (h1, D1, n)" "cache_run F C h1 D1 ops = Inr (h', D')"
    by (auto simp: bindr_Inr_iff)
  have k: "keeps h D h1 D1" using cache_step_keeps [OF s(1) Cons.prems(2)] Cons.prems(3) by simp
  then have "keeps h1 D1 h' D'" using Cons.IH [OF s(2)] Cons.prems(3) by (simp add: keeps_def)
  with k show ?case by (rule keeps_trans)
qed

section \<open>Properties of the cache\<close>

lemma cache_ok_append: "cache_ok h D \<Longrightarrow> cache_ok (h @ new) D"
  by (fastforce simp: cache_ok_def table_ok_def nth_append)

lemma cache_rows_bound: "cache_ok h D \<Longrightarrow> r \<in> cache_rows D \<Longrightarrow> r < length h"
  by (auto simp: cache_ok_def cache_rows_def table_ok_def)

lemma query_table_result:
  assumes "query_table h D db tb t query = Inr (h', t', 1)"
  shows "\<exists>tbl \<in> set (m_ds D). query tbl = Inr (h', t', 1)"
proof -
  have "with_table D (case db of None \<Rightarrow> Some [] | _ \<Rightarrow> db) tb (h, t, NO_TABLE_FOUND) (\<lambda>_ tbl. query tbl) = Inr (h', t', 1)"
    using assms by (auto simp: query_table_def Let_def table_codes split: if_splits)
  then show ?thesis
  proof (rule with_tableE)
    assume "(h', t', 1) = (h, t, NO_TABLE_FOUND)"
    then show ?thesis by (simp add: table_codes)
  next
    fix i assume "i < length (m_ds D)" "query (m_ds D ! i) = Inr (h', t', 1)"
    then show ?thesis by (metis nth_mem)
  qed
qed

definition id_cache :: CDataSet where
  "id_cache = AddEmptyRowset CDataSet_new [id_column]"

lemma id_find: "find_table id_cache (Some []) (Some [116]) 0 (m_ds id_cache) = Inr (Some 0)"
  by (simp add: id_cache_def AddEmptyRowset_def CDataSet_new_def CTable_new_def Is_table_def id_column_def IsEqual_names_def
      compare_texts_def UCompareNoCase_def text_of_def c_units_def tolower_def unit_at_def)

lemma id_ok: "cache_ok [] id_cache"
  by (simp add: cache_ok_def id_cache_def AddEmptyRowset_def CDataSet_new_def CTable_new_def table_ok_def rows_apart_def)

lemma id_key: "integer_key [id_column] 0 VT_I4"
  by (simp add: integer_key_def FindKeyColIndex2_def key_column_def id_column_def FLAG_PRIMARY_KEY_def FLAG_AUTOINCREMENT_def integer_type_def vt_defs)

lemma id_represents: "represents [] id_cache [] [116] [id_column] 0 VT_I4 Map.empty"
  unfolding represents_def
proof (intro conjI exI [of _ 0])
  show "find_table id_cache (Some []) (Some [116]) 0 (m_ds id_cache) = Inr (Some 0)" by (rule id_find)
qed (use id_ok id_key in \<open>simp_all add: id_cache_def AddEmptyRowset_def CDataSet_new_def CTable_new_def has_keys_def keyed_rows_def\<close>)

lemma id_converted: "converted fpu_real no_conv [id_column] 0 VT_I4 [id_value b] = Some (signed_of 4 [b, 0, 0, 0], [id_value b])"
  by (simp add: converted_Some id_column_def id_value_def Convert_input_def Convert_def copy_variant_def int_cell_def integer_member_def vt_defs)

text \<open>
  C5: A table of the cache whose key is a column of integers is a map from keys to rows: any sequence
  of insertions, deletions and updates that the map admits runs without a fault, reports as many rows as change in
  the map, and leaves the map in the cache, whatever else the cache holds.
\<close>

theorem cache_refines_map:
  assumes "represents h D db tb meta k ty m" "map_run F C meta k ty m ops = Some (m', ns)"
  shows "\<exists>h' D'. row_run F C db tb h D ops = Inr (h', D', ns) \<and> represents h' D' db tb meta k ty m'"
  using assms
proof (induction ops arbitrary: h D m ns)
  case (Cons op ops)
  then obtain m1 n ns1 where s: "map_step F C meta k ty m op = Some (m1, n)" "map_run F C meta k ty m1 ops = Some (m', ns1)" "ns = n # ns1"
    by (auto split: option.splits)
  from row_step_refines [OF Cons.prems(1) s(1)] obtain h1 D1 where r: "row_step F C db tb h D op = Inr (h1, D1, n)" "represents h1 D1 db tb meta k ty m1"
    by blast
  from Cons.IH [OF r(2) s(2)] r(1) s(3) show ?case by auto
qed simp

theorem cache_refines_map_witness:
  "\<exists>h' D'. row_run fpu_real no_conv [] [116] [] id_cache [Insert_row [id_value 1], Update_row [id_value 1, id_value 2], Delete_key (id_value 1)] =
     Inr (h', D', [1, 1, 0]) \<and> represents h' D' [] [116] [id_column] 0 VT_I4 [2 \<mapsto> [id_value 2]]"
proof (rule cache_refines_map [OF id_represents])
  have v: "signed_of 4 [1, 0, 0, 0] = 1" "signed_of 4 [2, 0, 0, 0] = 2"
    by (simp_all add: signed_of_def signed_take_bit_eq_take_bit_shift take_bit_eq_mod)
  have c: "int_cell VT_I4 (id_value b) = Some (signed_of 4 [b, 0, 0, 0])" for b
    by (simp add: id_value_def int_cell_def integer_member_def vt_defs)
  have "new_values 1 [id_value 1, id_value 2] = [id_value 2]" by (simp add: new_values_def)
  moreover have "sized_array (id_value b)" for b by (simp add: id_value_def sized_array_def)
  ultimately show "map_run fpu_real no_conv [id_column] 0 VT_I4 Map.empty [Insert_row [id_value 1], Update_row [id_value 1, id_value 2], Delete_key (id_value 1)] =
      Some ([2 \<mapsto> [id_value 2]], [1, 1, 0])"
    by (simp add: id_converted c v)
qed

text \<open>
  C13: Whatever the operations are that change a cache, every row of every table has a cell for each
  column, null or of the type of the column, and so no query of any table fails an assertion or
  reads outside of a row once its arguments are converted or refused.
\<close>

theorem cache_is_well_typed:
  assumes "cache_run F C [] CDataSet_new ops = Inr (h, D)" "list_all sized_op ops" "t \<in> set (m_ds D)"
    "list_all (convertible F C t ordinal) (vt0 # vt1 # vs)"
  shows "cache_ok h D \<and> (\<forall>r \<in> set (second_rows t). good_row (first_meta t) (h ! r)) \<and>
    (\<exists>x. tbl_Find F C h t ordinal op vt0 True = Inr x) \<and> (\<exists>x. In F C h t ordinal vs True = Inr x) \<and>
    (\<exists>x. NotIn F C h t ordinal vs True = Inr x) \<and> (\<exists>x. Between F C h t ordinal vt0 vt1 True = Inr x)"
proof -
  have "cache_ok [] CDataSet_new" by (simp add: cache_ok_def CDataSet_new_def rows_apart_def)
  from cache_run_keeps [OF assms(1) this assms(2)] have ok: "cache_ok h D" by (simp add: keeps_def)
  then have t: "table_ok h t" using assms(3) by (simp add: cache_ok_def)
  have c: "convertible F C t ordinal vt0" "convertible F C t ordinal vt1" "list_all (convertible F C t ordinal) vs" using assms(4) by simp_all
  show ?thesis
    using ok t tbl_Find_total [OF t c(1)] In_total [OF t c(3)] Between_total [OF t c(1,2)] by (auto simp: table_ok_def)
qed

text \<open>A table that was filled by the operations themselves.\<close>

lemma id_filled:
  "\<exists>h D. cache_run fpu_real no_conv [] CDataSet_new [Cache_meta [id_column], Cache_add (Some []) (Some [116]) [id_value 1]] = Inr (h, D) \<and>
     represents h D [] [116] [id_column] 0 VT_I4 [signed_of 4 [1, 0, 0, 0] \<mapsto> [id_value 1]]"
proof -
  have "map_step fpu_real no_conv [id_column] 0 VT_I4 Map.empty (Insert_row [id_value 1]) = Some ([signed_of 4 [1, 0, 0, 0] \<mapsto> [id_value 1]], 1)"
    by (simp add: id_converted) (simp add: id_value_def sized_array_def)
  from row_step_refines [OF id_represents this] show ?thesis by (auto simp: id_cache_def)
qed

theorem cache_is_well_typed_witness:
  "\<exists>h D t. cache_run fpu_real no_conv [] CDataSet_new [Cache_meta [id_column], Cache_add (Some []) (Some [116]) [id_value 1]] = Inr (h, D) \<and>
     t \<in> set (m_ds D) \<and> second_rows t \<noteq> [] \<and> (\<forall>r \<in> set (second_rows t). good_row [id_column] (h ! r)) \<and>
     (\<exists>x. tbl_Find fpu_real no_conv h t 0 Op_great (id_value 1) True = Inr x)"
proof -
  let ?ops = "[Cache_meta [id_column], Cache_add (Some []) (Some [116]) [id_value 1]]"
  obtain h D where r: "cache_run fpu_real no_conv [] CDataSet_new ?ops = Inr (h, D)"
    "represents h D [] [116] [id_column] 0 VT_I4 [signed_of 4 [1, 0, 0, 0] \<mapsto> [id_value 1]]" using id_filled by blast
  then obtain i where i: "i < length (m_ds D)" "first_meta (m_ds D ! i) = [id_column]"
    "[signed_of 4 [1, 0, 0, 0] \<mapsto> [id_value 1]] = map_of (keyed_rows h 0 VT_I4 (second_rows (m_ds D ! i)))"
    using representsE [OF r(2)] by metis
  let ?t = "m_ds D ! i"
  have "second_rows ?t \<noteq> []"
  proof
    assume "second_rows ?t = []"
    with i(3) have "[signed_of 4 [1, 0, 0, 0] \<mapsto> [id_value 1]] = Map.empty" by (simp add: keyed_rows_def)
    then show False by simp
  qed
  moreover have "integer_type VT_I4 = Some (4, True)" "\<exists>v. integer_member VT_I4 [1, 0, 0, 0] = Some v"
    by (simp_all add: integer_type_def integer_member_def vt_defs)
  then have "convertible fpu_real no_conv ?t 0 (id_value 1)"
    using VariantChangeType_integer [of VT_I4 4 True VT_I4 "[1, 0, 0, 0]" _ fpu_real no_conv "Scalar VT_EMPTY []"] i(2)
    by (auto simp: convertible_def ChangeType_def id_value_def id_column_def cell_type_def vt_defs)
  moreover have "list_all sized_op ?ops" by (simp add: id_value_def sized_array_def)
  ultimately show ?thesis
    using cache_is_well_typed [OF r(1), of ?t 0 "id_value 1" "id_value 1" "[]" Op_great] r(1) i(1,2)
    by (intro exI [of _ h] exI [of _ D] exI [of _ ?t]) simp
qed

text \<open>
  C17: The rows that a query of the cache returned are the caller's own: whatever operations add, update or delete
  rows of the cache later (which is what the events of the server do), each of the returned rows keeps every cell.
\<close>

theorem query_results_are_private:
  assumes "cache_ok h D"
    "Inr (h1, t, 1) \<in> {ds_Find F C h D db tb ordinal op vt0 t0, ds_In F C h D db tb ordinal vs t0,
       ds_NotIn F C h D db tb ordinal vs t0, ds_Between F C h D db tb ordinal vt0 vt1 t0}"
    "cache_run F' C' h1 D ops = Inr (h2, D2)" "list_all sized_op ops"
  shows "cache_ok h1 D \<and> (\<forall>r \<in> set (second_rows t). r < length h1 \<and> h2 ! r = h1 ! r)"
proof -
  have "\<exists>tbl \<in> set (m_ds D). query_result h tbl True (h1, t, 1)"
    using assms(2) unfolding ds_Find_def ds_In_def ds_NotIn_def ds_Between_def
    by (auto dest!: query_table_result [OF sym] dest: queries_result)
  then obtain new where n: "h1 = h @ new" "set (second_rows t) \<subseteq> {length h ..< length h1}"
    by (auto simp: query_result_def)
  have ok: "cache_ok h1 D" using cache_ok_append [OF assms(1)] n(1) by simp
  from cache_run_keeps [OF assms(3) ok assms(4)] have k: "keeps h1 D h2 D2" .
  have "r < length h1 \<and> h2 ! r = h1 ! r" if "r \<in> set (second_rows t)" for r
  proof -
    have "length h \<le> r" "r < length h1" using n(2) that by auto
    then have "r \<notin> cache_rows D" using cache_rows_bound [OF assms(1)] by fastforce
    with k \<open>r < length h1\<close> show ?thesis by (simp add: keeps_def)
  qed
  with ok show ?thesis by blast
qed

text \<open>
  A cache with the rows 2 and 1. A query for the keys above 1 returns a copy of the first of them; then
  that row is updated to 3 and the other one is deleted.
\<close>

definition full_cache :: CDataSet where
  "full_cache = id_cache\<lparr>m_ds := [id_table]\<rparr>"

lemma full_find: "find_table full_cache (Some []) (Some [116]) 0 (m_ds full_cache) = Inr (Some 0)"
  by (simp add: full_cache_def id_table_def id_cache_def AddEmptyRowset_def CDataSet_new_def CTable_new_def Is_table_def id_column_def IsEqual_names_def
      compare_texts_def UCompareNoCase_def text_of_def c_units_def tolower_def unit_at_def)

lemma full_ok: "cache_ok id_store full_cache"
  using id_table_ok
  by (auto simp: cache_ok_def full_cache_def rows_apart_def nth_Cons split: nat.splits) (simp_all add: id_table_def CTable_new_def)

lemma full_represents:
  "represents (id_store @ [[id_value 2]]) full_cache [] [116] [id_column] 0 VT_I4 [1 \<mapsto> [id_value 1], 2 \<mapsto> [id_value 2]]"
  unfolding represents_def
proof (intro conjI exI [of _ 0])
  show "cache_ok (id_store @ [[id_value 2]]) full_cache" using full_ok by (rule cache_ok_append)
qed (use full_find id_key in \<open>simp_all add: full_cache_def id_table_def id_store_def CTable_new_def has_keys_def keyed_rows_def id_cells\<close>)

lemma full_changes:
  "\<exists>h2 D2. cache_run fpu_real no_conv (id_store @ [[id_value 2]]) full_cache
     [Cache_update (Some []) (Some [116]) [id_value 2, id_value 3], Cache_delete (Some []) (Some [116]) (id_value 1)] = Inr (h2, D2) \<and>
     represents h2 D2 [] [116] [id_column] 0 VT_I4 [3 \<mapsto> [id_value 3]]"
proof -
  let ?m = "[1 \<mapsto> [id_value 1], 2 \<mapsto> [id_value 2]]"
  have v: "signed_of 4 [3, 0, 0, 0] = 3"
    by (simp add: signed_of_def signed_take_bit_eq_take_bit_shift take_bit_eq_mod)
  have n: "new_values 1 [id_value 2, id_value 3] = [id_value 3]" by (simp add: new_values_def)
  moreover have "sized_array (id_value b)" for b by (simp add: id_value_def sized_array_def)
  ultimately have "map_step fpu_real no_conv [id_column] 0 VT_I4 ?m (Update_row [id_value 2, id_value 3]) =
      Some (?m(2 := None, 3 \<mapsto> [id_value 3]), 1)"
    by (simp add: id_converted id_cells v)
  from row_step_refines [OF full_represents this] obtain h1 D1 where
    1: "UpdateARow fpu_real no_conv (id_store @ [[id_value 2]]) full_cache (Some []) (Some [116]) [id_value 2, id_value 3] = Inr (h1, D1, 1)"
    "represents h1 D1 [] [116] [id_column] 0 VT_I4 (?m(2 := None, 3 \<mapsto> [id_value 3]))" by auto
  have "map_step fpu_real no_conv [id_column] 0 VT_I4 (?m(2 := None, 3 \<mapsto> [id_value 3])) (Delete_key (id_value 1)) =
      Some ([3 \<mapsto> [id_value 3]], 1)" by (auto simp: id_cells)
  from row_step_refines [OF 1(2) this] 1(1) show ?thesis by auto
qed

theorem query_results_are_private_witness:
  "\<exists>h1 t h2 D2. ds_Find fpu_real no_conv id_store full_cache (Some []) (Some [116]) 0 Op_great (id_value 1) (CTable_new [] False False) = Inr (h1, t, 1) \<and>
     second_rows t = [2] \<and> h1 ! 2 = [id_value 2] \<and>
     cache_run fpu_real no_conv h1 full_cache
       [Cache_update (Some []) (Some [116]) [id_value 2, id_value 3], Cache_delete (Some []) (Some [116]) (id_value 1)] = Inr (h2, D2) \<and>
     represents h2 D2 [] [116] [id_column] 0 VT_I4 [3 \<mapsto> [id_value 3]] \<and> h2 ! 2 = [id_value 2]"
proof -
  let ?h = "id_store @ [[id_value 2]]" and ?t = "id_table\<lparr>second_rows := [2]\<rparr>"
  have "ds_Find fpu_real no_conv id_store full_cache (Some []) (Some [116]) 0 Op_great (id_value 1) (CTable_new [] False False) = Inr (?h, ?t, 1)"
    using full_find find_integer_column_witness
    by (simp add: ds_Find_def query_table_def with_table_def c_units_def full_cache_def)
  moreover obtain h2 D2 where c: "cache_run fpu_real no_conv ?h full_cache
       [Cache_update (Some []) (Some [116]) [id_value 2, id_value 3], Cache_delete (Some []) (Some [116]) (id_value 1)] = Inr (h2, D2)"
    "represents h2 D2 [] [116] [id_column] 0 VT_I4 [3 \<mapsto> [id_value 3]]" using full_changes by blast
  moreover have "h2 ! 2 = ?h ! 2"
    using query_results_are_private [OF full_ok _ c(1), of ?t fpu_real no_conv "Some []" "Some [116]" 0 Op_great "id_value 1" "CTable_new [] False False"] calculation
    by (simp add: id_value_def sized_array_def)
  ultimately show ?thesis by (auto simp: id_store_def)
qed

text \<open>
  A null, and a string of 16-bit units, cannot be added to or written into a column of texts of 8-bit units when it comes
  from the server: the type of the column is only replaced for an array of characters, and the
  conversion asserts that it was.
\<close>

theorem null_text_asserts:
  assumes "DataType (meta ! n) = VT_ARRAY + VT_I1" "variant_type v \<le> VT_NULL \<or> variant_type v = VT_BSTR"
  shows "Convert_input F C v (DataType (meta ! n)) = Inl Assertion \<and>
    (variant_type v \<le> VT_NULL \<longrightarrow> Convert_array_input F C v (DataType (meta ! n)) = Inr (Scalar VT_NULL []))"
  using assms by (cases v) (auto simp: Convert_input_def Convert_array_input_def Convert_def cell_type_def require_def vt_defs)

theorem null_text_asserts_witness:
  "Convert_input fpu_real no_conv (Scalar VT_NULL []) (DataType ([id_column\<lparr>DataType := VT_ARRAY + VT_I1\<rparr>] ! 0)) = Inl Assertion"
  using null_text_asserts [of "[id_column\<lparr>DataType := VT_ARRAY + VT_I1\<rparr>]" 0 "Scalar VT_NULL []" fpu_real no_conv] by simp

text \<open>
  Deleting with the values of two key columns reads the first of them at the position that its
  column has in the table: behind the two values when both keys are further right, and for keys in the
  second and third column the second value is taken for both.
\<close>

theorem delete_reads_wrong_key:
  assumes "find_table D (Some db) (Some tb) 0 (m_ds D) = Inr (Some i)" "FindKeyColIndex2 (first_meta (m_ds D ! i)) = (Some key, Some key1)"
  shows "(2 \<le> key \<longrightarrow> DeleteARow_row F C h D (Some db) (Some tb) [v0, v1] = Inl Out_Of_Bounds) \<and>
    (key = 1 \<longrightarrow> DeleteARow_row F C h D (Some db) (Some tb) [v0, v1] = DeleteARow_row F C h D (Some db) (Some tb) [v1, v1])"
  using assms by (auto simp: DeleteARow_row_def with_table_def array_at_def)

theorem delete_reads_wrong_key_witness:
  "DeleteARow_row fpu_real no_conv [] (AddEmptyRowset CDataSet_new [id_column\<lparr>Flags := 0\<rparr>, id_column\<lparr>Flags := 0\<rparr>, id_column, id_column])
     (Some []) (Some [116]) [id_value 1, id_value 2] = Inl Out_Of_Bounds"
proof -
  let ?D = "AddEmptyRowset CDataSet_new [id_column\<lparr>Flags := 0\<rparr>, id_column\<lparr>Flags := 0\<rparr>, id_column, id_column]"
  have "find_table ?D (Some []) (Some [116]) 0 (m_ds ?D) = Inr (Some 0)"
    by (simp add: AddEmptyRowset_def CDataSet_new_def CTable_new_def Is_table_def id_column_def IsEqual_names_def
        compare_texts_def UCompareNoCase_def text_of_def c_units_def tolower_def unit_at_def)
  moreover have "FindKeyColIndex2 (first_meta (m_ds ?D ! 0)) = (Some 2, Some 3)"
    by (simp add: AddEmptyRowset_def CDataSet_new_def CTable_new_def FindKeyColIndex2_def key_column_def id_column_def FLAG_PRIMARY_KEY_def FLAG_AUTOINCREMENT_def)
  ultimately show ?thesis using delete_reads_wrong_key [of ?D "[]" "[116]" 0 2 3 fpu_real no_conv "[]" "id_value 1" "id_value 2"] by simp
qed

end
