(* ===== verification/Mastercache.thy ===== *)
theory Mastercache
  imports Dataset
begin

text \<open>
  How a pool keeps the cache of tables up to date: \<^verbatim>\<open>CMasterPool\<close> of
  \<^verbatim>\<open>include/masterpool.h\<close> and \<^verbatim>\<open>CMasterSlaveBase\<close> of
  \<^verbatim>\<open>include/masterslavebase.h\<close>.

  \<^item> The pool has the cache that the program reads and a second one, \<open>m_cache\<close>, into which all tables
    are loaded; when the server has sent the last row the two are swapped.
  \<^item> After that the server publishes an event for every row that is inserted, updated or deleted. An
    event is an array of variants: its kind, the host, the user, the names of the database and the
    table, and values.
  \<^item> \<open>W\<close> stands for the conversion of 16-bit units to \<^verbatim>\<open>wchar_t\<close> by the C library. The
    messages that a middle tier passes on to its own clients are the list \<open>published\<close>.
\<close>

section \<open>The two caches\<close>

record master =
  Cache :: CDataSet
  m_cache :: CDataSet
  m_meta :: "CDBColumnInfo list"
  published :: "(VARIANT \<times> nat) list"

definition STREAMING_SQL_CHAT_GROUP_ID :: nat where "STREAMING_SQL_CHAT_GROUP_ID = 0x1fffffff"
definition CACHE_UPDATE_CHAT_GROUP_ID :: nat where "CACHE_UPDATE_CHAT_GROUP_ID = STREAMING_SQL_CHAT_GROUP_ID + 1"

definition master_new :: master where
  "master_new = \<lparr>Cache = CDataSet_new, m_cache = CDataSet_new, m_meta = [], published = []\<rparr>"

definition publish :: "bool \<Rightarrow> master \<Rightarrow> VARIANT \<Rightarrow> nat \<Rightarrow> master" where
  "publish midTier M msg gid = (if midTier then M\<lparr>published := published M @ [(msg, gid)]\<rparr> else M)"

text \<open>The callbacks of \<open>GetCachedTables\<close>: the columns of a table, a batch of its values, and the end.\<close>

definition on_rowset_header :: "master \<Rightarrow> CDBColumnInfo list \<Rightarrow> master" where
  "on_rowset_header M meta = M\<lparr>m_cache := AddEmptyRowset (m_cache M) meta, m_meta := meta\<rparr>"

definition on_rows :: "'d fpu \<Rightarrow> text_conv \<Rightarrow> rowstore \<Rightarrow> master \<Rightarrow> VARIANT list \<Rightarrow> fault + (rowstore \<times> master)" where
  "on_rows F C h M vData =
     (case m_meta M of
        [] \<Rightarrow> Inl Out_Of_Bounds
      | front # _ \<Rightarrow> bindr (AddRows_array F C h (m_cache M) (Some (c_units (DBPath front))) (Some (c_units (TablePath front))) vData)
                      (\<lambda>(h, D, _). Inr (h, M\<lparr>m_cache := D\<rparr>)))"

definition on_cached :: "master \<Rightarrow> string \<Rightarrow> tagManagementSystem \<Rightarrow> nat list \<Rightarrow> int \<Rightarrow> master" where
  "on_cached M ip ms host res =
     (let D = SetDBServerName (Set_server (m_cache M) (Some ip) ms) (Some host) in
      if res = 0 then (let (c, d) = Swap_sets (Cache M) D in M\<lparr>Cache := c, m_cache := Set_server d (Some ip) ms\<rparr>)
      else M\<lparr>m_cache := D\<rparr>)"

text \<open>The first session of the pool is connected: the second cache is emptied before it is loaded.\<close>

definition on_connected :: "bool \<Rightarrow> master \<Rightarrow> master" where
  "on_connected midTier M =
     (let M = publish midTier M (Scalar VT_EMPTY []) CACHE_UPDATE_CHAT_GROUP_ID in
      M\<lparr>m_cache := Empty_set (SetUpdater (m_cache M) None)\<rparr>)"

text \<open>What the server sends for \<open>GetCachedTables\<close>: each table with its columns and its values in batches.\<close>

fun load_batches :: "'d fpu \<Rightarrow> text_conv \<Rightarrow> rowstore \<Rightarrow> master \<Rightarrow> VARIANT list list \<Rightarrow> fault + (rowstore \<times> master)" where
  "load_batches F C h M [] = Inr (h, M)"
| "load_batches F C h M (b # bs) = bindr (on_rows F C h M b) (\<lambda>(h, M). load_batches F C h M bs)"

fun load_tables :: "'d fpu \<Rightarrow> text_conv \<Rightarrow> rowstore \<Rightarrow> master \<Rightarrow> (CDBColumnInfo list \<times> VARIANT list list) list \<Rightarrow> fault + (rowstore \<times> master)" where
  "load_tables F C h M [] = Inr (h, M)"
| "load_tables F C h M ((meta, bs) # ts) =
     bindr (load_batches F C h (on_rowset_header M meta) bs) (\<lambda>(h, M). load_tables F C h M ts)"

definition SetInitialCache :: "'d fpu \<Rightarrow> text_conv \<Rightarrow> rowstore \<Rightarrow> master \<Rightarrow> string \<Rightarrow> tagManagementSystem \<Rightarrow> nat list \<Rightarrow> (CDBColumnInfo list \<times> VARIANT list list) list \<Rightarrow> int \<Rightarrow> fault + (rowstore \<times> master)" where
  "SetInitialCache F C h M ip ms host tables res =
     bindr (load_tables F C h M tables) (\<lambda>(h, M). Inr (h, on_cached M ip ms host res))"

section \<open>Events\<close>

definition ToUTF16_variant :: "text_conv \<Rightarrow> VARIANT \<Rightarrow> fault + nat list" where
  "ToUTF16_variant C data =
     (case data of
        Vt_bstr (Some s) \<Rightarrow> Inr (c_units s)
      | Vt_bstr None \<Rightarrow> Inl Out_Of_Bounds
      | Fixed_array t n bs \<Rightarrow> if t = VT_I1 then bindr (mem_read bs 0 n) (\<lambda>s. Inr (of_utf8 C s)) else Inl Assertion
      | _ \<Rightarrow> Inl Assertion)"

definition ToWide_variant :: "text_conv \<Rightarrow> (nat list \<Rightarrow> nat list) \<Rightarrow> VARIANT \<Rightarrow> fault + nat list" where
  "ToWide_variant C W data =
     (case data of
        Vt_bstr s \<Rightarrow> Inr (W (bstr_units s))
      | Fixed_array t n bs \<Rightarrow> if t = VT_I1 then bindr (mem_read bs 0 n) (\<lambda>s. Inr (W (of_utf8 C s))) else Inl Assertion
      | _ \<Rightarrow> Inl Assertion)"

definition is_text :: "VARIANT \<Rightarrow> bool" where
  "is_text v \<longleftrightarrow> variant_type v = VT_ARRAY + VT_I1 \<or> variant_type v = VT_BSTR"

definition int_val :: "VARIANT \<Rightarrow> fault + int" where
  "int_val v = (case v of Scalar t bs \<Rightarrow> if 4 \<le> length bs then Inr (signed_of 4 (take 4 bs)) else Inl Uninitialised_Read | _ \<Rightarrow> Inl Uninitialised_Read)"

definition note_server :: "text_conv \<Rightarrow> (nat list \<Rightarrow> nat list) \<Rightarrow> CDataSet \<Rightarrow> VARIANT \<Rightarrow> VARIANT \<Rightarrow> fault + CDataSet" where
  "note_server C W D host user =
     bindr (if m_strHostName D = []
            then if is_text host then bindr (ToWide_variant C W host) (\<lambda>s. Inr (SetDBServerName D (Some s))) else Inr (SetDBServerName D (Some []))
            else Inr D) (\<lambda>D.
     if is_text user then bindr (ToWide_variant C W user) (\<lambda>s. Inr (SetUpdater D (Some s))) else Inr (SetUpdater D (Some [])))"

definition table_event :: "'d fpu \<Rightarrow> text_conv \<Rightarrow> (nat list \<Rightarrow> nat list) \<Rightarrow> rowstore \<Rightarrow> CDataSet \<Rightarrow> VARIANT list \<Rightarrow> fault + (rowstore \<times> CDataSet \<times> nat)" where
  "table_event F C W h D vData =
     (case vData of
        kind # host # user # db # tbl # values \<Rightarrow>
          bindr (int_val kind) (\<lambda>eventType.
          bindr (note_server C W D host user) (\<lambda>D.
          bindr (ToUTF16_variant C db) (\<lambda>dbName. bindr (ToUTF16_variant C tbl) (\<lambda>tblName.
          bindr (if eventType = 0 then AddRows F C h D (Some dbName) (Some tblName) values
                 else if eventType = 1 then UpdateARow F C h D (Some dbName) (Some tblName) values
                 else if eventType = 2 then
                   (if length values = 1 then DeleteARow F C h D (Some dbName) (Some tblName) (hd values)
                    else DeleteARow_row F C h D (Some dbName) (Some tblName) values)
                 else Inl Assertion) (\<lambda>(h, D, res).
          bindr (require (res \<noteq> INVALID_VALUE)) (\<lambda>_. Inr (h, D, res)))))))
      | _ \<Rightarrow> Inl Out_Of_Bounds)"

text \<open>A published message; the result says whether all tables have to be loaded again.\<close>

definition OnPublish :: "'d fpu \<Rightarrow> text_conv \<Rightarrow> (nat list \<Rightarrow> nat list) \<Rightarrow> bool \<Rightarrow> rowstore \<Rightarrow> master \<Rightarrow> nat list \<Rightarrow> VARIANT \<Rightarrow> fault + (rowstore \<times> master \<times> bool)" where
  "OnPublish F C W midTier h M groups vtMsg =
     bindr (require (length groups = 1)) (\<lambda>_.
     let g = hd groups in
     bindr (require (g = STREAMING_SQL_CHAT_GROUP_ID \<or> g = CACHE_UPDATE_CHAT_GROUP_ID)) (\<lambda>_.
     if g = CACHE_UPDATE_CHAT_GROUP_ID
     then Inr (h, publish midTier M (Scalar VT_EMPTY []) CACHE_UPDATE_CHAT_GROUP_ID, True)
     else let M = publish midTier M vtMsg STREAMING_SQL_CHAT_GROUP_ID in
          case vtMsg of
            Variant_array vData \<Rightarrow> bindr (table_event F C W h (Cache M) vData) (\<lambda>(h, D, _). Inr (h, M\<lparr>Cache := D\<rparr>, False))
          | _ \<Rightarrow> Inl Out_Of_Bounds))"

section \<open>Events on maps\<close>

definition same_tables :: "CDataSet \<Rightarrow> CDataSet \<Rightarrow> bool" where
  "same_tables D D' \<longleftrightarrow> m_ds D = m_ds D' \<and> m_bDBNameCaseSensitive D = m_bDBNameCaseSensitive D' \<and> m_bTableNameCaseSensitive D = m_bTableNameCaseSensitive D'"

lemma represents_same:
  assumes "same_tables D D'" "represents h D db tb meta k ty m"
  shows "represents h D' db tb meta k ty m"
proof -
  have "find_table D (Some db) (Some tb) 0 (m_ds D) = find_table D' (Some db) (Some tb) 0 (m_ds D')"
    using assms(1) by (intro find_table_cong) (simp_all add: same_tables_def)
  with assms show ?thesis by (simp add: represents_def same_tables_def cache_ok_def)
qed

lemma note_server_same: "note_server C W D host user = Inr D' \<Longrightarrow> same_tables D D'"
  by (auto simp: note_server_def SetDBServerName_def SetUpdater_def same_tables_def bindr_Inr_iff split: if_splits)

text \<open>The event that the server sends for an operation on a row.\<close>

fun event_kind :: "row_op \<Rightarrow> nat \<times> VARIANT list" where
  "event_kind (Insert_row vts) = (0, vts)"
| "event_kind (Update_row pvt) = (1, pvt)"
| "event_kind (Delete_key v) = (2, [v])"

definition event_of :: "row_op \<Rightarrow> VARIANT \<Rightarrow> VARIANT \<Rightarrow> nat list \<Rightarrow> nat list \<Rightarrow> VARIANT list" where
  "event_of op host user db tb =
     (case event_kind op of (kind, values) \<Rightarrow>
        Scalar VT_I4 (le_bytes 4 kind) # host # user # Vt_bstr (Some db) # Vt_bstr (Some tb) # values)"

lemma int_val_kind: "k < 3 \<Longrightarrow> int_val (Scalar VT_I4 (le_bytes 4 k)) = Inr (int k)"
  by (simp add: int_val_def signed_of_def le_value_le_bytes signed_take_bit_eq_take_bit_shift take_bit_eq_mod)

lemma map_step_count: "map_step F C meta k ty m op = Some (m', n) \<Longrightarrow> n \<le> 1"
  by (cases op) (auto split: if_splits option.splits prod.splits)

text \<open>
  C15: An event of the server changes the cached table as it changed the table in the database: the
  cache, taken as a map from keys to rows, takes the same step, and no assertion fails.
\<close>

theorem events_refine_map:
  assumes "represents h D db tb meta k ty m" "map_step F C meta k ty m op = Some (m', n)"
    "c_units db = db" "c_units tb = tb" "note_server C W D host user = Inr D0"
  shows "\<exists>h' D'. table_event F C W h D (event_of op host user db tb) = Inr (h', D', n) \<and> represents h' D' db tb meta k ty m'"
proof -
  have r: "represents h D0 db tb meta k ty m" by (rule represents_same [OF note_server_same [OF assms(5)] assms(1)])
  from row_step_refines [OF r assms(2)] obtain h' D' where s: "row_step F C db tb h D0 op = Inr (h', D', n)" "represents h' D' db tb meta k ty m'"
    by blast
  have n: "n \<noteq> INVALID_VALUE" using map_step_count [OF assms(2)] by (simp add: INVALID_VALUE_def)
  have e: "event_kind op = (kd, vs) \<Longrightarrow> kd < 3" for kd vs by (cases op) auto
  have "table_event F C W h D (event_of op host user db tb) = bindr (row_step F C db tb h D0 op) (\<lambda>(h, D, res). bindr (require (res \<noteq> INVALID_VALUE)) (\<lambda>_. Inr (h, D, res)))"
    using assms(3-5) by (cases op) (simp_all add: table_event_def event_of_def int_val_kind ToUTF16_variant_def)
  with s n show ?thesis by simp
qed

theorem events_refine_map_witness:
  "\<exists>h' D'. table_event fpu_real no_conv id [] id_cache (event_of (Insert_row [id_value 1]) (Vt_bstr (Some [104])) (Scalar VT_NULL []) [] [116]) = Inr (h', D', 1) \<and>
     represents h' D' [] [116] [id_column] 0 VT_I4 [1 \<mapsto> [id_value 1]]"
proof -
  have "sized_array (id_value 1)" "signed_of 4 [1, 0, 0, 0] = 1"
    by (simp_all add: id_value_def sized_array_def signed_of_def signed_take_bit_eq_take_bit_shift take_bit_eq_mod)
  then have step: "map_step fpu_real no_conv [id_column] 0 VT_I4 Map.empty (Insert_row [id_value 1]) = Some ([1 \<mapsto> [id_value 1]], 1)"
    by (simp add: id_converted)
  have "m_strHostName id_cache = []" by (simp add: id_cache_def AddEmptyRowset_def CDataSet_new_def)
  then have "note_server no_conv id id_cache (Vt_bstr (Some [104])) (Scalar VT_NULL []) = Inr (SetUpdater (SetDBServerName id_cache (Some [104])) (Some []))"
    by (simp add: note_server_def is_text_def ToWide_variant_def bstr_units_def c_units_def vt_defs)
  from events_refine_map [OF id_represents step _ _ this] show ?thesis by (simp add: c_units_def)
qed

section \<open>Loading the cache again\<close>

lemma c_units_idem [simp]: "c_units (c_units s) = c_units s"
  by (simp add: c_units_def takeWhile_idem)

lemma IsEqual_names_same: "IsEqual_names (Some s) (Some (c_units s)) cs"
  by (simp add: IsEqual_names_def compare_texts_def text_of_def UCompare_def UCompareNoCase_def UCompare_loop_same)

text \<open>The rows of all tables of a cache.\<close>

definition contents :: "rowstore \<Rightarrow> CDataSet \<Rightarrow> VARIANT list list list" where
  "contents h D = map (\<lambda>t. map (\<lambda>r. h ! r) (second_rows t)) (m_ds D)"

definition batch_of :: "'d fpu \<Rightarrow> text_conv \<Rightarrow> CDBColumnInfo list \<Rightarrow> VARIANT list \<Rightarrow> VARIANT list list \<Rightarrow> bool" where
  "batch_of F C meta vts rows \<longleftrightarrow> vts \<noteq> [] \<and> meta \<noteq> [] \<and>
     (\<exists>k. length vts = k * length meta \<and> convert_rows (Convert_array_input F C) meta k vts = Inr rows)"

text \<open>A batch goes into the first table with the same columns, whatever follows it.\<close>

lemma load_first:
  assumes "batch_of F C meta vts rows" "m_ds (AddEmptyRowset (m_cache M) meta) = t # ts" "first_meta t = meta"
  shows "load_tables F C h M [(meta, [vts])] =
    Inr (h @ rows, M\<lparr>m_cache := (m_cache M)\<lparr>m_ds := t\<lparr>second_rows := second_rows t @ [length h ..< length h + length rows]\<rparr> # ts\<rparr>, m_meta := meta\<rparr>)"
proof -
  let ?D = "AddEmptyRowset (m_cache M) meta"
  obtain k where k: "length vts = k * length meta" "convert_rows (Convert_array_input F C) meta k vts = Inr rows" and ne: "vts \<noteq> []" "meta \<noteq> []"
    using assms(1) by (auto simp: batch_of_def)
  obtain m ms where m: "meta = m # ms" using ne(2) by (cases meta) auto
  have "find_table ?D (Some (c_units (DBPath m))) (Some (c_units (TablePath m))) 0 (t # ts) = Inr (Some 0)"
    using assms(3) by (simp add: Is_table_def m IsEqual_names_same)
  moreover have "AddRows_loop (Convert_array_input F C) meta 0 h (second_rows t) vts = Inr (h @ rows, second_rows t @ [length h ..< length h + length rows])"
    using AddRows_loop_rows [of 0 meta vts k "Convert_array_input F C" h "second_rows t"] k ne(2) by simp
  moreover have "?D\<lparr>m_ds := X\<rparr> = (m_cache M)\<lparr>m_ds := X\<rparr>" for X
    using ne(2) by (simp add: AddEmptyRowset_def)
  ultimately have "AddRows_array F C h ?D (Some (c_units (DBPath m))) (Some (c_units (TablePath m))) vts =
      Inr (h @ rows, (m_cache M)\<lparr>m_ds := t\<lparr>second_rows := second_rows t @ [length h ..< length h + length rows]\<rparr> # ts\<rparr>, length vts div length meta)"
    using assms(2,3) k(1) ne by (simp add: AddRows_array_def AddRows_with_def with_table_def Let_def)
  then show ?thesis by (simp add: on_rowset_header_def on_rows_def m)
qed

lemma on_cached_swaps: "m_ds (Cache (on_cached M ip ms host 0)) = m_ds (m_cache M)" "m_ds (m_cache (on_cached M ip ms host 0)) = m_ds (Cache M)"
  by (simp_all add: on_cached_def Swap_sets_def Set_server_def SetDBServerName_def Let_def)

lemma SetInitialCache_first:
  assumes "batch_of F C meta vts rows" "m_ds (AddEmptyRowset (m_cache M) meta) = t # ts" "first_meta t = meta"
  shows "\<exists>M'. SetInitialCache F C h M ip ms host [(meta, [vts])] 0 = Inr (h @ rows, M') \<and>
    m_ds (Cache M') = t\<lparr>second_rows := second_rows t @ [length h ..< length h + length rows]\<rparr> # ts \<and> m_ds (m_cache M') = m_ds (Cache M)"
  using load_first [OF assms] on_cached_swaps by (auto simp: SetInitialCache_def)

lemma map_nth_upt: "map ((!) (h @ rows)) [length h ..< length h + length rows] = rows"
  by (rule nth_equalityI) simp_all

text \<open>
  C16: After the pool is connected the cache is what the server sends. When the server asks for the
  tables to be loaded again, the cache that is loaded is not emptied first: it still holds the tables of the time before
  last, so from the second such request on old rows stay in the table, in front of the new ones, and the new table is empty.
\<close>

theorem reload_keeps_old_rows:
  assumes "m_ds (Cache M) = []" "batch_of F C meta v1 rows1" "batch_of F C meta v2 rows2" "batch_of F C meta v3 rows3"
  shows "\<exists>h1 M1 h2 M2 h3 M3.
    SetInitialCache F C h (on_connected midTier M) ip ms host [(meta, [v1])] 0 = Inr (h1, M1) \<and> contents h1 (Cache M1) = [rows1] \<and>
    SetInitialCache F C h1 M1 ip ms host [(meta, [v2])] 0 = Inr (h2, M2) \<and> contents h2 (Cache M2) = [rows2] \<and>
    SetInitialCache F C h2 M2 ip ms host [(meta, [v3])] 0 = Inr (h3, M3) \<and> contents h3 (Cache M3) = [rows1 @ rows3, []]"
proof -
  let ?M = "on_connected midTier M"
  have ne: "meta \<noteq> []" using assms(2) by (simp add: batch_of_def)
  have new: "m_ds (AddEmptyRowset D meta) = m_ds D @ [CTable_new meta (ds_bFieldNameCaseSensitive D) (ds_bDataCaseSensitive D)]" for D
    using ne by (simp add: AddEmptyRowset_def)
  have "m_ds (m_cache ?M) = []" "m_ds (Cache ?M) = []"
    using assms(1) by (simp_all add: on_connected_def publish_def Empty_set_def Let_def)
  from SetInitialCache_first [OF assms(2), of ?M "CTable_new meta (ds_bFieldNameCaseSensitive (m_cache ?M)) (ds_bDataCaseSensitive (m_cache ?M))" "[]" h ip ms host]
    new [of "m_cache ?M"] this
  obtain t1 M1 where 1: "SetInitialCache F C h ?M ip ms host [(meta, [v1])] 0 = Inr (h @ rows1, M1)"
    "m_ds (Cache M1) = [t1]" "second_rows t1 = [length h ..< length h + length rows1]" "first_meta t1 = meta" "m_ds (m_cache M1) = []"
    by (auto simp: CTable_new_def)
  let ?h1 = "h @ rows1"
  from SetInitialCache_first [OF assms(3), of M1 "CTable_new meta (ds_bFieldNameCaseSensitive (m_cache M1)) (ds_bDataCaseSensitive (m_cache M1))" "[]" ?h1 ip ms host]
    new [of "m_cache M1"] 1
  obtain t2 M2 where 2: "SetInitialCache F C ?h1 M1 ip ms host [(meta, [v2])] 0 = Inr (?h1 @ rows2, M2)"
    "m_ds (Cache M2) = [t2]" "second_rows t2 = [length ?h1 ..< length ?h1 + length rows2]" "m_ds (m_cache M2) = [t1]"
    by (auto simp: CTable_new_def)
  let ?h2 = "?h1 @ rows2"
  from SetInitialCache_first [OF assms(4), of M2 t1 "[CTable_new meta (ds_bFieldNameCaseSensitive (m_cache M2)) (ds_bDataCaseSensitive (m_cache M2))]" ?h2 ip ms host]
    new [of "m_cache M2"] 1(4) 2(4)
  obtain t3 t4 M3 where 3: "SetInitialCache F C ?h2 M2 ip ms host [(meta, [v3])] 0 = Inr (?h2 @ rows3, M3)"
    "m_ds (Cache M3) = [t3, t4]" "second_rows t3 = second_rows t1 @ [length ?h2 ..< length ?h2 + length rows3]" "second_rows t4 = []"
    by (auto simp: CTable_new_def)
  have c1: "contents ?h1 (Cache M1) = [rows1]" using map_nth_upt [of h rows1] 1(2,3) by (simp add: contents_def)
  have c2: "contents ?h2 (Cache M2) = [rows2]" using map_nth_upt [of ?h1 rows2] 2(2,3) by (simp add: contents_def)
  have "map ((!) (?h2 @ rows3)) [length h ..< length h + length rows1] = rows1"
    by (rule nth_equalityI) (simp_all add: nth_append)
  then have c3: "contents (?h2 @ rows3) (Cache M3) = [rows1 @ rows3, []]"
    using map_nth_upt [of ?h2 rows3] 1(3) 3(2-4) by (simp add: contents_def)
  from 1(1) c1 2(1) c2 3(1) c3 show ?thesis by blast
qed

theorem reload_keeps_old_rows_witness:
  "\<exists>h1 M1 h2 M2 h3 M3.
    SetInitialCache fpu_real no_conv [] (on_connected False master_new) [] msSqlite [] [([id_column], [[id_value 1]])] 0 = Inr (h1, M1) \<and>
    SetInitialCache fpu_real no_conv h1 M1 [] msSqlite [] [([id_column], [[id_value 1]])] 0 = Inr (h2, M2) \<and>
    SetInitialCache fpu_real no_conv h2 M2 [] msSqlite [] [([id_column], [[id_value 2]])] 0 = Inr (h3, M3) \<and>
    contents h3 (Cache M3) = [[[id_value 1], [id_value 2]], []]"
proof -
  have b: "batch_of fpu_real no_conv [id_column] [id_value x] [[id_value x]]" for x
  proof -
    have "Convert_array_input fpu_real no_conv (id_value x) (DataType id_column) = Inr (id_value x)"
      by (simp add: Convert_array_input_def Convert_def cell_type_def id_column_def id_value_def copy_variant_def vt_defs)
    then have "convert_rows (Convert_array_input fpu_real no_conv) [id_column] 1 [id_value x] = Inr [[id_value x]]" by simp
    then show ?thesis unfolding batch_of_def by (intro conjI exI [of _ 1]) simp_all
  qed
  have "m_ds (Cache master_new) = []" by (simp add: master_new_def CDataSet_new_def)
  from reload_keeps_old_rows [OF this b [of 1] b [of 1] b [of 2], of "[]" False "[]" msSqlite "[]"] show ?thesis by fastforce
qed

text \<open>
  An update of a table without a key column fails the assertion of the event handler: the code for
  a missing key, converted to \<^verbatim>\<open>size_t\<close>, is the value that the handler excludes.
\<close>

theorem update_without_key_asserts:
  assumes "find_table D0 (Some (c_units db)) (Some (c_units tb)) 0 (m_ds D0) = Inr (Some i)"
    "FindKeyColIndex (first_meta (m_ds D0 ! i)) 0 = None" "first_meta (m_ds D0 ! i) \<noteq> []" "length pvt = 2 * length (first_meta (m_ds D0 ! i))"
    "note_server C W D host user = Inr D0"
  shows "table_event F C W h D (event_of (Update_row pvt) host user db tb) = Inl Assertion"
proof -
  have "FindKeyColIndex2 (first_meta (m_ds D0 ! i)) = (None, None)" using assms(2) by (simp add: FindKeyColIndex2_def)
  then have "UpdateARow F C h D0 (Some (c_units db)) (Some (c_units tb)) pvt = Inr (h, D0, INVALID_VALUE)"
    using assms(1,3,4) by (auto simp: UpdateARow_def with_table_def Let_def size_of_code_def BAD_ORDINAL_def INVALID_VALUE_def)
  then show ?thesis
    using assms(5) by (simp add: table_event_def event_of_def int_val_kind ToUTF16_variant_def require_def)
qed

theorem update_without_key_asserts_witness:
  "table_event fpu_real no_conv id [] (AddEmptyRowset CDataSet_new [id_column\<lparr>Flags := 0\<rparr>])
     (event_of (Update_row [id_value 1, id_value 2]) (Scalar VT_NULL []) (Scalar VT_NULL []) [] [116]) = Inl Assertion"
proof -
  let ?D = "AddEmptyRowset CDataSet_new [id_column\<lparr>Flags := 0\<rparr>]"
  let ?E = "SetUpdater (SetDBServerName ?D (Some [])) (Some [])"
  have "m_strHostName ?D = []" by (simp add: AddEmptyRowset_def CDataSet_new_def)
  then have "note_server no_conv id ?D (Scalar VT_NULL []) (Scalar VT_NULL []) = Inr ?E"
    by (simp add: note_server_def is_text_def vt_defs)
  moreover have ds: "m_ds ?E = [CTable_new [id_column\<lparr>Flags := 0\<rparr>] False False]"
    by (simp add: AddEmptyRowset_def CDataSet_new_def SetUpdater_def SetDBServerName_def)
  moreover have "find_table ?E (Some (c_units [])) (Some (c_units [116])) 0 (m_ds ?E) = Inr (Some 0)"
    unfolding ds by (simp add: Is_table_def CTable_new_def AddEmptyRowset_def CDataSet_new_def SetUpdater_def SetDBServerName_def id_column_def IsEqual_names_def
        compare_texts_def UCompareNoCase_def text_of_def c_units_def tolower_def unit_at_def)
  moreover have "FindKeyColIndex (first_meta (m_ds ?E ! 0)) 0 = None" "first_meta (m_ds ?E ! 0) \<noteq> []" "length (first_meta (m_ds ?E ! 0)) = 1"
    unfolding ds by (simp_all add: CTable_new_def key_column_def)
  ultimately show ?thesis by (intro update_without_key_asserts [of ?E _ _ 0]) simp_all
qed

end
