(* ===== verification/Dbwire.thy ===== *)
theory Dbwire
  imports Tablecache Queueserver
begin

text \<open>
  What databases and their clients exchange, \<^verbatim>\<open>include/udatabase.h\<close>: the serialisation of
  \<^verbatim>\<open>CDBColumnInfo\<close>, \<^verbatim>\<open>CParameterInfo\<close> and \<^verbatim>\<open>CDBVariant\<close> and of arrays of
  them, and the comparison of two values.

  \<^item> A \<^verbatim>\<open>CDBVariant\<close> is a variant with a mark that tells a GUID from other 16 bytes; the mark
    travels as the type \<^verbatim>\<open>VT_CLSID\<close>.
  \<^item> Arrays: the contract \<open>wire_format\<close> of an element gives the contract of the array, once for
    all three (\<open>wire_format_array\<close>).
  \<^item> Values can come back changed: a text of bytes is handed out as a string when the buffer is in the
    mode \<^verbatim>\<open>Utf8ToW\<close> (\<open>arrives_as\<close>).
\<close>

section \<open>Columns, parameters and values\<close>

datatype tagVTExt = vteNormal | vteGuid

record CDBVariant =
  vt_data :: VARIANT
  VtExt :: tagVTExt

record CParameterInfo =
  p_Direction :: "32 word"
  p_DataType :: nat
  p_ColumnSize :: "32 word"
  p_Precision :: byte
  p_Scale :: byte
  ParameterName :: "nat list"

definition db_value :: "VARIANT \<Rightarrow> CDBVariant" where
  "db_value v = \<lparr>vt_data = v, VtExt = vteNormal\<rparr>"

definition db_guid :: "byte list \<Rightarrow> CDBVariant" where
  "db_guid uuid = \<lparr>vt_data = Fixed_array VT_UI1 16 uuid, VtExt = vteGuid\<rparr>"

definition CDBVariant_new :: CDBVariant where
  "CDBVariant_new = db_value (Scalar VT_NULL [])"

text \<open>The bytes of a GUID, if the value is one and is marked as one.\<close>

definition guid_bytes :: "CDBVariant \<Rightarrow> byte list option" where
  "guid_bytes v =
     (case vt_data v of
        Fixed_array t n d \<Rightarrow> if VtExt v = vteGuid \<and> t = VT_UI1 \<and> n = sizeof_UUID then Some d else None
      | _ \<Rightarrow> None)"

definition put_CDBVariant :: "uqueue \<Rightarrow> CDBVariant \<Rightarrow> fault + uqueue" where
  "put_CDBVariant q v =
     (case guid_bytes v of
        Some d \<Rightarrow> bindr (put_pod 2 q VT_CLSID) (\<lambda>q.
                  bindr (mem_read (map Some d) 0 sizeof_UUID) (\<lambda>buffer. Push q (Some buffer)))
      | None \<Rightarrow> put_VARIANT q (vt_data v))"

definition get_CDBVariant :: "text_conv \<Rightarrow> bool \<Rightarrow> uqueue \<Rightarrow> fault + (CDBVariant \<times> uqueue)" where
  "get_CDBVariant C ndebug q =
     bindr (if m_nSize q \<ge> 2 + sizeof_UUID
            then bindr (read_front q 2) (\<lambda>pvt. Inr (if le_value pvt = VT_CLSID then vteGuid else vteNormal))
            else Inr vteNormal) (\<lambda>vte.
     bindr (get_VARIANT C ndebug q) (\<lambda>(v, q). Inr (\<lparr>vt_data = v, VtExt = vte\<rparr>, q)))"

definition put_column :: "uqueue \<Rightarrow> CDBColumnInfo \<Rightarrow> fault + uqueue" where
  "put_column q dbinfo =
     Save_all q
       [V_u16string (DBPath dbinfo), V_u16string (TablePath dbinfo), V_u16string (DisplayName dbinfo),
        V_u16string (OriginalName dbinfo), V_u16string (DeclaredType dbinfo), V_u16string (Collation dbinfo),
        V_pod 4 (unat (ColumnSize dbinfo)), V_pod 4 (unat (Flags dbinfo)), V_pod 2 (DataType dbinfo),
        V_pod 1 (unat (Precision dbinfo)), V_pod 1 (unat (Scale dbinfo))]"

definition get_column :: "uqueue \<Rightarrow> fault + (CDBColumnInfo \<times> uqueue)" where
  "get_column q =
     bindr (get_u16string q) (\<lambda>(db, q). bindr (get_u16string q) (\<lambda>(table, q).
     bindr (get_u16string q) (\<lambda>(display, q). bindr (get_u16string q) (\<lambda>(original, q).
     bindr (get_u16string q) (\<lambda>(declared, q). bindr (get_u16string q) (\<lambda>(collation, q).
     bindr (get_pod 4 q) (\<lambda>(column_size, q). bindr (get_pod 4 q) (\<lambda>(flags, q).
     bindr (get_pod 2 q) (\<lambda>(data_type, q). bindr (get_pod 1 q) (\<lambda>(precision, q).
     bindr (get_pod 1 q) (\<lambda>(scale, q).
     Inr (\<lparr>DBPath = db, TablePath = table, DisplayName = display, OriginalName = original,
           DeclaredType = declared, Collation = collation, ColumnSize = word_of_nat column_size,
           Flags = word_of_nat flags, DataType = data_type, Precision = word_of_nat precision,
           Scale = word_of_nat scale\<rparr>, q))))))))))))"

definition put_parameter :: "uqueue \<Rightarrow> CParameterInfo \<Rightarrow> fault + uqueue" where
  "put_parameter q info =
     Save_all q
       [V_pod 4 (unat (p_Direction info)), V_pod 2 (p_DataType info), V_pod 4 (unat (p_ColumnSize info)),
        V_pod 1 (unat (p_Precision info)), V_pod 1 (unat (p_Scale info)), V_u16string (ParameterName info)]"

definition get_parameter :: "uqueue \<Rightarrow> fault + (CParameterInfo \<times> uqueue)" where
  "get_parameter q =
     bindr (get_pod 4 q) (\<lambda>(direction, q). bindr (get_pod 2 q) (\<lambda>(data_type, q).
     bindr (get_pod 4 q) (\<lambda>(column_size, q). bindr (get_pod 1 q) (\<lambda>(precision, q).
     bindr (get_pod 1 q) (\<lambda>(scale, q). bindr (get_u16string q) (\<lambda>(name, q).
     Inr (\<lparr>p_Direction = word_of_nat direction, p_DataType = data_type, p_ColumnSize = word_of_nat column_size,
           p_Precision = word_of_nat precision, p_Scale = word_of_nat scale, ParameterName = name\<rparr>, q)))))))"

section \<open>Arrays\<close>

fun put_items :: "(uqueue \<Rightarrow> 'v \<Rightarrow> fault + uqueue) \<Rightarrow> uqueue \<Rightarrow> 'v list \<Rightarrow> fault + uqueue" where
  "put_items put q [] = Inr q"
| "put_items put q (x # xs) = bindr (put q x) (\<lambda>q. put_items put q xs)"

fun get_items :: "(uqueue \<Rightarrow> fault + ('v \<times> uqueue)) \<Rightarrow> nat \<Rightarrow> uqueue \<Rightarrow> fault + ('v list \<times> uqueue)" where
  "get_items get 0 q = Inr ([], q)"
| "get_items get (Suc n) q =
     bindr (get q) (\<lambda>(x, q). bindr (get_items get n q) (\<lambda>(xs, q). Inr (x # xs, q)))"

definition put_array :: "(uqueue \<Rightarrow> 'v \<Rightarrow> fault + uqueue) \<Rightarrow> uqueue \<Rightarrow> 'v list \<Rightarrow> fault + uqueue" where
  "put_array put q arr =
     (let n = length arr mod 4294967296 in
      bindr (put_pod 4 q n) (\<lambda>q. put_items put q (take n arr)))"

definition get_array :: "(uqueue \<Rightarrow> fault + ('v \<times> uqueue)) \<Rightarrow> uqueue \<Rightarrow> fault + ('v list \<times> uqueue)" where
  "get_array get q = bindr (get_pod 4 q) (\<lambda>(n, q). get_items get n q)"

definition put_columns :: "uqueue \<Rightarrow> CDBColumnInfo list \<Rightarrow> fault + uqueue" where
  "put_columns = put_array put_column"

definition get_columns :: "uqueue \<Rightarrow> fault + (CDBColumnInfo list \<times> uqueue)" where
  "get_columns = get_array get_column"

definition put_values :: "uqueue \<Rightarrow> CDBVariant list \<Rightarrow> fault + uqueue" where
  "put_values = put_array put_CDBVariant"

definition get_values :: "text_conv \<Rightarrow> bool \<Rightarrow> uqueue \<Rightarrow> fault + (CDBVariant list \<times> uqueue)" where
  "get_values C ndebug = get_array (get_CDBVariant C ndebug)"

definition put_parameters :: "uqueue \<Rightarrow> CParameterInfo list \<Rightarrow> fault + uqueue" where
  "put_parameters = put_array put_parameter"

definition get_parameters :: "uqueue \<Rightarrow> fault + (CParameterInfo list \<times> uqueue)" where
  "get_parameters = get_array get_parameter"

section \<open>Comparing values\<close>

text \<open>
  \<^verbatim>\<open>CDBVariant::operator==\<close>. The comparison of a string with a text of bytes converts the bytes
  and drops the result; what it compares with is the memory of a buffer of the pool, \<open>stale\<close>.
\<close>

fun strncasecmp :: "byte list \<Rightarrow> byte list \<Rightarrow> nat \<Rightarrow> int" where
  "strncasecmp (x # xs) (y # ys) (Suc n) =
     (let d = tolower (uint x) - tolower (uint y) in
      if d \<noteq> 0 \<or> x = 0 then d else strncasecmp xs ys n)"
| "strncasecmp _ _ _ = 0"

definition equality_number :: "VARIANT \<Rightarrow> int option" where
  "equality_number v =
     (case v of
        Scalar t bs \<Rightarrow>
          if t = VT_BOOL then Some (as_int (signed_of 2 bs \<noteq> 0))
          else if t = VT_DATE then Some (unsigned_of bs)
          else map_option (\<lambda>i. i mod 18446744073709551616) (integer_member t bs)
      | _ \<Rightarrow> None)"

definition CDBVariant_eq :: "text_conv \<Rightarrow> nat list \<Rightarrow> VARIANT \<Rightarrow> VARIANT \<Rightarrow> bool" where
  "CDBVariant_eq C stale v data =
     (if variant_type v \<le> VT_NULL \<and> variant_type data \<le> VT_NULL then True
      else case v of
        Vt_bstr s \<Rightarrow>
          (case data of
             Vt_bstr s' \<Rightarrow> (UCompareNoCase (text_of s) (text_of s') = 0)
           | Fixed_array t n d \<Rightarrow> (t = VT_I1 \<and> UCompareNoCase (text_of (Some stale)) (text_of s) = 0)
           | _ \<Rightarrow> False)
      | Fixed_array t n d \<Rightarrow>
          if t = VT_I1
          then (case data of
                  Fixed_array t' n' d' \<Rightarrow>
                    if t' = VT_I1 then (n = n' \<and> strncasecmp d' d n = 0) else False
                | Vt_bstr s \<Rightarrow>
                    let sb = (case s of None \<Rightarrow> [] | Some u \<Rightarrow> to_utf8 C (c_units u)) in
                    (length sb = n \<and> strncasecmp sb d n = 0)
                | _ \<Rightarrow> False)
          else if t = VT_UI1
          then (case data of
                  Fixed_array t' n' d' \<Rightarrow> (t' = VT_UI1 \<and> n = n' \<and> memcmp (take n d) (take n d') = 0)
                | _ \<Rightarrow> False)
          else False
      | _ \<Rightarrow>
          if variant_type v = VT_DECIMAL \<and> variant_type data = VT_DECIMAL
          then (case (v, data) of (Scalar _ b, Scalar _ b') \<Rightarrow> (drop 2 b = drop 2 b') | _ \<Rightarrow> False)
          else case (equality_number v, equality_number data) of
                 (Some d, Some d0) \<Rightarrow> (d = d0)
               | _ \<Rightarrow> False)"

section \<open>The contracts of the operators\<close>

definition array_wire :: "('v \<Rightarrow> byte list) \<Rightarrow> 'v list \<Rightarrow> byte list" where
  "array_wire wire xs = le_bytes 4 (length xs) @ concat (map wire xs)"

definition array_valid :: "('v \<Rightarrow> bool) \<Rightarrow> 'v list \<Rightarrow> bool" where
  "array_valid valid xs \<longleftrightarrow> list_all valid xs \<and> length xs < 4294967296"

lemma get_items_reads:
  assumes step: "\<And>q v rest. uq_inv q \<Longrightarrow> m q \<Longrightarrow> v \<in> set vs \<Longrightarrow> content q = wire v @ rest \<Longrightarrow>
      \<exists>q'. get q = Inr (f v, q') \<and> uq_inv q' \<and> same_settings q q' \<and> content q' = rest"
    and mode: "\<And>q q'. same_settings q q' \<Longrightarrow> m q \<Longrightarrow> m q'"
  shows "uq_inv q \<Longrightarrow> m q \<Longrightarrow> content q = concat (map wire vs) @ rest \<Longrightarrow>
    \<exists>q'. get_items get (length vs) q = Inr (map f vs, q') \<and> uq_inv q' \<and> same_settings q q' \<and> content q' = rest"
  using step
proof (induction vs arbitrary: q)
  case Nil
  then show ?case by simp
next
  case (Cons v vs)
  from Cons.prems(4) [of q v "concat (map wire vs) @ rest"] Cons.prems(1-3) obtain q1 where
    q1: "get q = Inr (f v, q1)" "uq_inv q1" "same_settings q q1" "content q1 = concat (map wire vs) @ rest"
    by auto
  with Cons.IH [OF q1(2) mode [OF q1(3) Cons.prems(2)] q1(4)] Cons.prems(4) show ?case
    by (auto intro: same_settings_trans)
qed

context wire_format
begin

lemma put_items_ok:
  "uq_inv q \<Longrightarrow> list_all valid xs \<Longrightarrow> room q (length (concat (map wire xs))) \<Longrightarrow>
   \<exists>q'. put_items put q xs = Inr q' \<and> uq_inv q' \<and> same_settings q q' \<and> content q' = content q @ concat (map wire xs)"
proof (induction xs arbitrary: q)
  case Nil
  then show ?case by simp
next
  case (Cons x xs)
  then have r: "room q (length (wire x) + length (concat (map wire xs)))" by simp
  then obtain q1 where q1: "put q x = Inr q1" "uq_inv q1" "same_settings q q1" "content q1 = content q @ wire x"
    using put_ok [OF Cons.prems(1), of x] room_mono [OF r, of "length (wire x)"] Cons.prems(2) by auto
  then have "room q1 (length (concat (map wire xs)))"
    using room_after [OF r Cons.prems(1) q1(2,3)] by simp
  from Cons.IH [OF q1(2) _ this] q1 Cons.prems(2) show ?case by (auto intro: same_settings_trans)
qed

lemma get_items_inv:
  "uq_inv q \<Longrightarrow> get_items get n q = Inr (xs, q') \<Longrightarrow>
   uq_inv q' \<and> same_settings q q' \<and> (\<exists>used. content q = used @ content q')"
proof (induction n arbitrary: q xs)
  case 0
  then show ?case by simp
next
  case (Suc n)
  then obtain x ys q1 where g: "get q = Inr (x, q1)" "get_items get n q1 = Inr (ys, q')"
    by (auto simp: bindr_Inr_iff)
  from get_inv [OF Suc.prems(1) g(1)] obtain us where
    "uq_inv q1" "same_settings q q1" "content q = us @ content q1" by auto
  moreover from Suc.IH [OF this(1) g(2)] obtain vs where
    "uq_inv q'" "same_settings q1 q'" "content q1 = vs @ content q'" by auto
  ultimately show ?case using same_settings_trans append_assoc by metis
qed

lemma wire_format_array:
  "wire_format (put_array put) (get_array get) (array_wire wire) (array_valid valid) mode"
proof (unfold_locales, goal_cases)
  case (1 q xs)
  then have n: "length xs mod 4294967296 = length xs" by (simp add: array_valid_def)
  from 1(3) have r: "room q (4 + length (concat (map wire xs)))" by (simp add: array_wire_def)
  obtain q1 where q1: "put_pod 4 q (length xs) = Inr q1" "uq_inv q1" "same_settings q q1"
    "content q1 = content q @ le_bytes 4 (length xs)"
    using put_pod_ok [OF 1(1) room_mono [OF r, of 4], of "length xs"] by auto
  then have "room q1 (length (concat (map wire xs)))" using room_after [OF r 1(1) q1(2,3)] by simp
  from put_items_ok [OF q1(2) _ this] q1 1(2) n show ?case
    by (auto simp: put_array_def array_valid_def array_wire_def intro: same_settings_trans)
next
  case (2 q xs rest)
  then have "length xs < 256 ^ 4" "content q = le_bytes 4 (length xs) @ (concat (map wire xs) @ rest)"
    by (simp_all add: array_valid_def array_wire_def)
  from get_pod_ok [OF 2(1) this] obtain q1 where
    q1: "get_pod 4 q = Inr (length xs, q1)" "uq_inv q1" "same_settings q q1" "content q1 = concat (map wire xs) @ rest"
    by auto
  have "\<exists>q'. get_items get (length xs) q1 = Inr (map (\<lambda>x. x) xs, q') \<and> uq_inv q' \<and> same_settings q1 q' \<and> content q' = rest"
    using 2(3) get_ok mode_settings q1(2,4) mode_settings [OF q1(3) 2(2)]
    by (intro get_items_reads [where m = mode and wire = wire]) (auto simp: array_valid_def list_all_iff)
  with q1 show ?case by (auto simp: get_array_def intro: same_settings_trans)
next
  case (3 q xs q')
  then obtain n q1 where g: "get_pod 4 q = Inr (n, q1)" "get_items get n q1 = Inr (xs, q')"
    by (auto simp: get_array_def bindr_Inr_iff)
  from pod4.get_inv [OF 3(1) g(1)] obtain us where
    "uq_inv q1" "same_settings q q1" "content q = us @ content q1" by auto
  moreover from get_items_inv [OF this(1) g(2)] obtain vs where
    "uq_inv q'" "same_settings q1 q'" "content q1 = vs @ content q'" by auto
  ultimately show ?case using same_settings_trans append_assoc by metis
next
  case (4 q q')
  then show ?case by (rule mode_settings)
qed

lemma wire_format_map:
  assumes "\<And>x. ok x \<Longrightarrow> dec (enc x) = x"
  shows "wire_format (\<lambda>q x. put q (enc x)) (\<lambda>q. bindr (get q) (\<lambda>(y, q). Inr (dec y, q)))
    (\<lambda>x. wire (enc x)) (\<lambda>x. ok x \<and> valid (enc x)) mode"
proof (unfold_locales, goal_cases)
  case (1 q x)
  then show ?case using put_ok by auto
next
  case (2 q x rest)
  then show ?case using get_ok [of q "enc x" rest] assms by auto
next
  case (3 q x q')
  then show ?case using get_inv by (auto simp: bindr_Inr_iff)
next
  case (4 q q')
  then show ?case by (rule mode_settings)
qed

end

text \<open>A record whose fields are written one after another.\<close>

lemma Load_all_inv:
  "uq_inv q \<Longrightarrow> list_all type_ok ts \<Longrightarrow> Load_all ts q = Inr (vs, q') \<Longrightarrow>
   uq_inv q' \<and> same_settings q q' \<and> (\<exists>used. content q = used @ content q')"
proof (induction ts arbitrary: q vs)
  case Nil
  then show ?case by simp
next
  case (Cons t ts)
  then obtain v ws q1 where g: "Load t q = Inr (v, q1)" "Load_all ts q1 = Inr (ws, q')"
    by (auto simp: bindr_Inr_iff)
  have "uq_inv q1 \<and> same_settings q q1 \<and> (\<exists>used. content q = used @ content q1)"
  proof (cases t)
    case (T_pod n)
    with g(1) Cons.prems(2) get_pod_cases [OF Cons.prems(1), of n] show ?thesis
      by (auto simp: bindr_Inr_iff type_ok_def)
  next
    case T_string
    with g(1) str.get_inv [OF Cons.prems(1)] show ?thesis by (auto simp: bindr_Inr_iff)
  next
    case T_u16string
    with g(1) u16str.get_inv [OF Cons.prems(1)] show ?thesis by (auto simp: bindr_Inr_iff)
  next
    case (T_vector k)
    with g(1) vec.get_inv [OF Cons.prems(1)] show ?thesis by (auto simp: bindr_Inr_iff)
  qed
  then obtain us where q1: "uq_inv q1" "same_settings q q1" "content q = us @ content q1" by auto
  from Cons.IH [OF q1(1) _ g(2)] Cons.prems(2) obtain ws' where
    "uq_inv q'" "same_settings q1 q'" "content q1 = ws' @ content q'" by auto
  with q1 show ?case using same_settings_trans append_assoc by metis
qed

lemma Load_all_reads:
  "uq_inv q \<Longrightarrow> list_all value_ok vs \<Longrightarrow> list_all type_ok (map type_of vs) \<Longrightarrow>
   content q = concat (map wire_of vs) @ rest \<Longrightarrow>
   \<exists>q'. Load_all (map type_of vs) q = Inr (vs, q') \<and> uq_inv q' \<and> same_settings q q' \<and> content q' = rest"
  using Load_all_ok Load_all_inv by metis

lemma wire_format_fields:
  assumes "list_all type_ok ts"
  shows "wire_format Save_all (Load_all ts) (\<lambda>vs. concat (map wire_of vs))
    (\<lambda>vs. list_all value_ok vs \<and> map type_of vs = ts) (\<lambda>_. True)"
proof (unfold_locales, goal_cases)
  case (1 q vs)
  then show ?case by (intro Save_all_ok) auto
next
  case (2 q vs rest)
  then show ?case using Load_all_reads [of q vs rest] assms by auto
next
  case (3 q vs q')
  then show ?case using Load_all_inv [OF _ assms] by auto
qed auto

definition column_fields :: "CDBColumnInfo \<Rightarrow> wire_value list" where
  "column_fields c =
     [V_u16string (DBPath c), V_u16string (TablePath c), V_u16string (DisplayName c),
      V_u16string (OriginalName c), V_u16string (DeclaredType c), V_u16string (Collation c),
      V_pod 4 (unat (ColumnSize c)), V_pod 4 (unat (Flags c)), V_pod 2 (DataType c),
      V_pod 1 (unat (Precision c)), V_pod 1 (unat (Scale c))]"

definition column_types :: "wire_type list" where
  "column_types =
     [T_u16string, T_u16string, T_u16string, T_u16string, T_u16string, T_u16string,
      T_pod 4, T_pod 4, T_pod 2, T_pod 1, T_pod 1]"

definition parameter_fields :: "CParameterInfo \<Rightarrow> wire_value list" where
  "parameter_fields p =
     [V_pod 4 (unat (p_Direction p)), V_pod 2 (p_DataType p), V_pod 4 (unat (p_ColumnSize p)),
      V_pod 1 (unat (p_Precision p)), V_pod 1 (unat (p_Scale p)), V_u16string (ParameterName p)]"

definition parameter_types :: "wire_type list" where
  "parameter_types = [T_pod 4, T_pod 2, T_pod 4, T_pod 1, T_pod 1, T_u16string]"

text \<open>The values of the fields that were read, and the records they make.\<close>

fun u16_field :: "wire_value \<Rightarrow> nat list" where
  "u16_field (V_u16string s) = s"
| "u16_field _ = []"

fun pod_field :: "wire_value \<Rightarrow> nat" where
  "pod_field (V_pod n v) = v"
| "pod_field _ = 0"

fun column_of :: "wire_value list \<Rightarrow> CDBColumnInfo" where
  "column_of [db, tbl, display, original, declared, coll, colsize, flags, datatype, prec, scale] =
     \<lparr>DBPath = u16_field db, TablePath = u16_field tbl, DisplayName = u16_field display,
      OriginalName = u16_field original, DeclaredType = u16_field declared, Collation = u16_field coll,
      ColumnSize = word_of_nat (pod_field colsize), Flags = word_of_nat (pod_field flags),
      DataType = pod_field datatype, Precision = word_of_nat (pod_field prec), Scale = word_of_nat (pod_field scale)\<rparr>"
| "column_of _ = undefined"

fun parameter_of :: "wire_value list \<Rightarrow> CParameterInfo" where
  "parameter_of [direction, datatype, colsize, prec, scale, pname] =
     \<lparr>p_Direction = word_of_nat (pod_field direction), p_DataType = pod_field datatype,
      p_ColumnSize = word_of_nat (pod_field colsize), p_Precision = word_of_nat (pod_field prec),
      p_Scale = word_of_nat (pod_field scale), ParameterName = u16_field pname\<rparr>"
| "parameter_of _ = undefined"

lemma column_of_fields: "column_of (column_fields c) = c"
  by (simp add: column_fields_def)

lemma parameter_of_fields: "parameter_of (parameter_fields p) = p"
  by (simp add: parameter_fields_def)

lemma get_column_Load: "get_column q = bindr (Load_all column_types q) (\<lambda>(vs, q). Inr (column_of vs, q))"
  by (simp add: get_column_def column_types_def bindr_assoc split_def)

lemma get_parameter_Load: "get_parameter q = bindr (Load_all parameter_types q) (\<lambda>(vs, q). Inr (parameter_of vs, q))"
  by (simp add: get_parameter_def parameter_types_def bindr_assoc split_def)

definition fields_wire :: "wire_value list \<Rightarrow> byte list" where
  "fields_wire vs = concat (map wire_of vs)"

definition column_ok :: "CDBColumnInfo \<Rightarrow> bool" where
  "column_ok c \<longleftrightarrow> list_all value_ok (column_fields c)"

definition parameter_ok :: "CParameterInfo \<Rightarrow> bool" where
  "parameter_ok p \<longleftrightarrow> list_all value_ok (parameter_fields p)"

lemma record_types: "map type_of (column_fields c) = column_types" "map type_of (parameter_fields p) = parameter_types"
  "list_all type_ok column_types" "list_all type_ok parameter_types"
  by (simp_all add: column_fields_def column_types_def parameter_fields_def parameter_types_def type_ok_def
      max32_def)

lemma put_column_Save: "put_column q c = Save_all q (column_fields c)"
  by (simp only: put_column_def column_fields_def)

lemma put_parameter_Save: "put_parameter q p = Save_all q (parameter_fields p)"
  by (simp only: put_parameter_def parameter_fields_def)

interpretation column: wire_format put_column get_column "\<lambda>c. fields_wire (column_fields c)" column_ok "\<lambda>_. True"
  using wire_format.wire_format_map [OF wire_format_fields [OF record_types(3)], of "\<lambda>_. True" column_of column_fields]
  by (simp add: column_of_fields get_column_Load [abs_def] column_ok_def [abs_def] record_types fields_wire_def
      put_column_Save [abs_def])

interpretation parameter: wire_format put_parameter get_parameter "\<lambda>p. fields_wire (parameter_fields p)" parameter_ok "\<lambda>_. True"
  using wire_format.wire_format_map [OF wire_format_fields [OF record_types(4)], of "\<lambda>_. True" parameter_of parameter_fields]
  by (simp add: parameter_of_fields get_parameter_Load [abs_def] parameter_ok_def [abs_def] record_types fields_wire_def
      put_parameter_Save [abs_def])

definition columns_wire :: "CDBColumnInfo list \<Rightarrow> byte list" where
  "columns_wire = array_wire (\<lambda>c. fields_wire (column_fields c))"

interpretation columns: wire_format put_columns get_columns columns_wire "array_valid column_ok" "\<lambda>_. True"
  unfolding put_columns_def get_columns_def columns_wire_def by (rule column.wire_format_array)

definition parameters_wire :: "CParameterInfo list \<Rightarrow> byte list" where
  "parameters_wire = array_wire (\<lambda>p. fields_wire (parameter_fields p))"

interpretation parameters: wire_format put_parameters get_parameters parameters_wire "array_valid parameter_ok" "\<lambda>_. True"
  unfolding put_parameters_def get_parameters_def parameters_wire_def by (rule parameter.wire_format_array)

section \<open>Values\<close>

definition value_wire :: "CDBVariant \<Rightarrow> byte list" where
  "value_wire v = (case guid_bytes v of Some d \<Rightarrow> le_bytes 2 VT_CLSID @ d | None \<Rightarrow> variant_wire (vt_data v))"

definition value_valid :: "CDBVariant \<Rightarrow> bool" where
  "value_valid v \<longleftrightarrow> variant_ok (vt_data v)"

text \<open>What the reader hands out for a value that was written; the mark survives on a GUID only.\<close>

definition arrives_as :: "text_conv \<Rightarrow> bool \<Rightarrow> CDBVariant \<Rightarrow> CDBVariant" where
  "arrives_as C w v = (if guid_bytes v \<noteq> None then v else db_value (loaded C w (vt_data v)))"

lemma guid_bytesD:
  "guid_bytes v = Some d \<Longrightarrow> vt_data v = Fixed_array VT_UI1 sizeof_UUID d \<and> VtExt v = vteGuid"
  by (auto simp: guid_bytes_def split: VARIANT.splits if_splits)

lemma guid_length: "guid_bytes v = Some d \<Longrightarrow> value_valid v \<Longrightarrow> length d = sizeof_UUID"
  using guid_bytesD [of v d] by (auto simp: value_valid_def elem_width_def vt_defs sizeof_UUID_def)

lemma put_CDBVariant_ok:
  assumes "uq_inv q" "value_valid v" "room q (length (value_wire v))"
  shows "\<exists>q'. put_CDBVariant q v = Inr q' \<and> appended q (value_wire v) q'"
proof (cases "guid_bytes v")
  case None
  with assms put_VARIANT_ok [of "vt_data v" q] show ?thesis
    by (simp add: put_CDBVariant_def value_wire_def value_valid_def)
next
  case (Some d)
  note d = guid_length [OF Some assms(2)]
  have r: "room q (2 + length d)" using assms(3) Some by (simp add: value_wire_def)
  obtain q1 where q1: "put_pod 2 q VT_CLSID = Inr q1" "uq_inv q1" "same_settings q q1"
    "content q1 = content q @ le_bytes 2 VT_CLSID"
    using put_pod_ok [OF assms(1) room_mono [OF r, of 2]] by auto
  then have "room q1 (length d)" using room_after [OF r assms(1) q1(2,3)] by simp
  from Push_ok [OF q1(2) this] q1 Some d show ?thesis
    by (auto simp: put_CDBVariant_def value_wire_def appended_def mem_read_all intro: same_settings_trans)
qed

text \<open>The type of a value that is no GUID is another one than that of a GUID.\<close>

lemma variant_type_not_CLSID: "variant_ok v \<Longrightarrow> variant_type v \<noteq> VT_CLSID"
  using vt_numbers(1,2) by (cases v) (fastforce simp: vt_defs split: option.splits)+

lemma get_VARIANT_guid:
  assumes "uq_inv q" "reader_mode w q" "length d = sizeof_UUID" "content q = (le_bytes 2 VT_CLSID @ d) @ rest"
  shows "\<exists>q'. get_VARIANT C True q = Inr (Fixed_array VT_UI1 sizeof_UUID d, q') \<and> uq_inv q' \<and> same_settings q q' \<and>
    content q' = rest"
proof -
  have d: "length d = 16" using assms(3) by (simp add: sizeof_UUID_def)
  obtain blk where blk: "SafeArrayCreate 1 16 = Inr blk" using SafeArrayCreate_ok [of 1 16] by (auto simp: block_ok_def)
  have v: "le_value (le_bytes 2 VT_CLSID) = VT_CLSID" by (intro le_value_at) (simp add: vt_defs)
  have "reads_as w (\<lambda>q. Pop_VARIANT_step C True pop q 0) (Fixed_array VT_UI1 16 d) (le_bytes 2 VT_CLSID @ d)" for pop
  proof -
    have "reads_as w (\<lambda>q. Pop_VARIANT_body C True pop (le_value (le_bytes 2 VT_CLSID)) q 0) (Fixed_array VT_UI1 16 d) d"
      unfolding v using reads_pop_at [OF d, of w "Fixed_array VT_UI1 16"]
      by (simp add: Pop_VARIANT_body_def blk [unfolded One_nat_def] scalar_width_def vt_defs)
    from reads_as_prefix [where get = "\<lambda>bs q. Pop_VARIANT_body C True pop (le_value bs) q 0", OF this, of 2]
    show ?thesis by (simp add: Pop_VARIANT_step_def)
  qed
  then have "reads_as w (\<lambda>q. Pop_VARIANT C True (Suc n) q 0) (Fixed_array VT_UI1 16 d) (le_bytes 2 VT_CLSID @ d)" for n
    by simp
  from reads_asD [OF this [of "m_nSize q"] assms(1,2,4)] obtain q' where
    "Pop_VARIANT C True (Suc (m_nSize q)) q 0 = Inr (Fixed_array VT_UI1 16 d, length (le_bytes 2 VT_CLSID @ d), q')"
    "uq_inv q'" "same_settings q q'" "content q' = rest" by metis
  then show ?thesis by (simp add: get_VARIANT_def sizeof_UUID_def)
qed

lemma get_CDBVariant_ok:
  assumes "uq_inv q" "reader_mode w q" "value_valid v" "content q = value_wire v @ rest"
  shows "\<exists>q'. get_CDBVariant C True q = Inr (arrives_as C w v, q') \<and> uq_inv q' \<and> same_settings q q' \<and> content q' = rest"
proof -
  have le: "le_value (le_bytes 2 n) = n" if "n < 65536" for n using that by (intro le_value_at) simp
  show ?thesis
  proof (cases "guid_bytes v")
    case None
    then have c: "content q = variant_wire (vt_data v) @ rest" using assms(4) by (simp add: value_wire_def)
    then have "content q = le_bytes 2 (variant_type (vt_data v)) @ (variant_data (vt_data v) @ rest)"
      by (simp add: variant_wire_def)
    from read_front_ok [OF assms(1) this] have "read_front q 2 = Inr (le_bytes 2 (variant_type (vt_data v)))" by simp
    with None get_VARIANT_loaded [OF assms(1,2) _ c, of C] assms(3) variant_type_not_CLSID variant_type_bound le
    show ?thesis by (auto simp: get_CDBVariant_def arrives_as_def db_value_def value_valid_def)
  next
    case (Some d)
    then have c: "content q = (le_bytes 2 VT_CLSID @ d) @ rest" using assms(4) by (simp add: value_wire_def)
    note d = guid_length [OF Some assms(3)]
    have "m_nSize q \<ge> 2 + sizeof_UUID" using uq_invD(1) [OF assms(1)] c d by simp
    moreover have "read_front q 2 = Inr (le_bytes 2 VT_CLSID)"
      using read_front_ok [OF assms(1), of "le_bytes 2 VT_CLSID" "d @ rest"] c by simp
    moreover have "v = \<lparr>vt_data = Fixed_array VT_UI1 sizeof_UUID d, VtExt = vteGuid\<rparr>"
      using guid_bytesD [OF Some] by (cases v) simp
    ultimately show ?thesis
      using get_VARIANT_guid [OF assms(1,2) d c, of C] le [of VT_CLSID] Some
      by (auto simp: get_CDBVariant_def arrives_as_def vt_defs)
  qed
qed

lemma get_values_ok:
  assumes "uq_inv q" "reader_mode w q" "list_all value_valid vs" "length vs < 4294967296"
    and "content q = array_wire value_wire vs @ rest"
  shows "\<exists>q'. get_values C True q = Inr (map (arrives_as C w) vs, q') \<and> uq_inv q' \<and> same_settings q q' \<and> content q' = rest"
proof -
  have "length vs < 256 ^ 4" "content q = le_bytes 4 (length vs) @ (concat (map value_wire vs) @ rest)"
    using assms(4,5) by (simp_all add: array_wire_def)
  from get_pod_ok [OF assms(1) this] obtain q1 where q1: "get_pod 4 q = Inr (length vs, q1)" "uq_inv q1"
    "same_settings q q1" "content q1 = concat (map value_wire vs) @ rest" by auto
  have "\<exists>q'. get_items (get_CDBVariant C True) (length vs) q1 = Inr (map (arrives_as C w) vs, q') \<and> uq_inv q' \<and>
      same_settings q1 q' \<and> content q' = rest"
    using assms(3) get_CDBVariant_ok reader_mode_settings q1(2,4) reader_mode_settings [OF q1(3) assms(2)]
    by (intro get_items_reads [where m = "reader_mode w" and wire = value_wire]) (auto simp: list_all_iff)
  with q1 show ?thesis by (auto simp: get_values_def get_array_def intro: same_settings_trans)
qed

text \<open>Values that come back as they were, when texts of bytes are left alone.\<close>

definition value_marked :: "CDBVariant \<Rightarrow> bool" where
  "value_marked v \<longleftrightarrow> value_valid v \<and> (VtExt v = vteGuid \<longrightarrow> guid_bytes v \<noteq> None)"

lemma arrives_plain: "value_marked v \<Longrightarrow> arrives_as C False v = v"
  by (cases v; cases "VtExt v") (auto simp: arrives_as_def db_value_def value_marked_def)

lemma get_CDBVariant_inv:
  assumes "uq_inv q" "get_CDBVariant C True q = Inr (v, q')"
  shows "uq_inv q' \<and> same_settings q q' \<and> (\<exists>used. content q = used @ content q')"
proof -
  from assms(2) obtain u where "get_VARIANT C True q = Inr (u, q')"
    by (auto simp: get_CDBVariant_def bindr_Inr_iff)
  then show ?thesis using variant.get_inv [OF assms(1)] by blast
qed

interpretation cell: wire_format put_CDBVariant "get_CDBVariant C True" value_wire value_marked plain_mode for C
proof (unfold_locales, goal_cases)
  case (1 q v)
  then show ?case using put_CDBVariant_ok [of q v] by (auto simp: value_marked_def appended_def)
next
  case (2 q v rest)
  then have "arrives_as C False v = v" by (intro arrives_plain) simp
  with get_CDBVariant_ok [of q False v rest C] 2 show ?case by (simp add: value_marked_def plain_mode_reader)
next
  case (3 q v q')
  then show ?case by (rule get_CDBVariant_inv)
next
  case (4 q q')
  then show ?case by (rule plain_mode_settings)
qed

interpretation cells: wire_format put_values "get_values C True" "array_wire value_wire" "array_valid value_marked" plain_mode for C
  unfolding put_values_def get_values_def by (rule cell.wire_format_array)

section \<open>Values that equal themselves\<close>

lemma strncasecmp_same: "strncasecmp xs xs n = 0"
proof (induction xs arbitrary: n)
  case (Cons x xs)
  then show ?case by (cases n) (auto simp: Let_def)
qed simp

lemma memcmp_same: "memcmp xs xs = 0"
  by (induction xs) auto

definition equals_itself :: "VARIANT \<Rightarrow> bool" where
  "equals_itself v \<longleftrightarrow>
     (case v of
        Scalar t bs \<Rightarrow> t \<notin> {VT_R4, VT_R8, VT_CY}
      | Vt_bstr s \<Rightarrow> True
      | Fixed_array t n d \<Rightarrow> t \<in> {VT_I1, VT_UI1}
      | _ \<Rightarrow> False)"

text \<open>
  C28: A value equals itself under \<^verbatim>\<open>CDBVariant::operator==\<close> exactly when it is no
  floating-point number, no currency and no array but one of bytes or characters: a column of doubles never has an
  equal value in it, not even the value that was read from it.
\<close>

theorem equality_is_partial:
  assumes "variant_ok v"
  shows "CDBVariant_eq C stale v v \<longleftrightarrow> equals_itself v"
proof (cases v)
  case (Scalar t bs)
  then have "scalar_width t \<noteq> None" using assms by simp
  then have t: "t \<in> {VT_NULL, VT_EMPTY, VT_I1, VT_UI1, VT_I2, VT_UI2, VT_BOOL, VT_I4, VT_UI4, VT_R4, VT_INT,
      VT_UINT, VT_R8, VT_CY, VT_DATE, VT_I8, VT_UI8, VT_DECIMAL}"
    by (auto simp: scalar_width_def split: if_splits)
  show ?thesis unfolding Scalar CDBVariant_eq_def equals_itself_def
    using t by (auto simp: equality_number_def integer_member_def vt_defs)
next
  case (Vt_bstr s)
  then show ?thesis by (simp add: CDBVariant_eq_def equals_itself_def UCompareNoCase_same vt_defs)
next
  case (Fixed_array t n d)
  then show ?thesis
    by (simp add: CDBVariant_eq_def equals_itself_def strncasecmp_same memcmp_same equality_number_def vt_defs)
qed (simp_all add: CDBVariant_eq_def equals_itself_def equality_number_def vt_defs)

theorem equality_is_partial_witness:
  "\<not> CDBVariant_eq no_conv [] (Scalar VT_R8 (le_bytes 8 0)) (Scalar VT_R8 (le_bytes 8 0)) \<and>
   CDBVariant_eq no_conv [] (Scalar VT_I4 (le_bytes 4 7)) (Scalar VT_I4 (le_bytes 4 7))"
  using equality_is_partial [of "Scalar VT_R8 (le_bytes 8 0)" no_conv "[]"]
    equality_is_partial [of "Scalar VT_I4 (le_bytes 4 7)" no_conv "[]"]
  by (simp add: equals_itself_def scalar_width_def vt_defs)

end
