(* ===== verification/Rowset.thy ===== *)
theory Rowset
  imports Dbwire
begin

text \<open>
  Rows of values from a server to its clients: \<^verbatim>\<open>CCacheBasePeer\<close> of
  \<^verbatim>\<open>include/gencachepeer.h\<close> and \<^verbatim>\<open>CCachedBaseHandler\<close> of
  \<^verbatim>\<open>include/generalcache.h\<close>, and the identifiers of the requests of the database services.

  \<^item> The core library is a parameter: \<open>core_ret\<close> is what sending a result returns, \<open>core_batched\<close> the
    number of bytes in the batch, both given the calls that the peer has made so far. A sender returns its
    calls; \<open>results\<close> are the messages in them.
  \<^item> The buffers that an operation takes from the pool are arguments; \<open>sb\<close> is an empty one.
  \<^item> The handler of the client keeps the rows that have arrived in \<open>m_vData\<close>, and the bytes of a large value
    in \<open>m_Blob\<close>. Callbacks are numbers; an operation returns the calls of them as events.
  \<^item> The map of the rowsets is read with \<^verbatim>\<open>operator[]\<close>, which enters a pair of empty callbacks
    for an unknown index.
  \<^item> Texts are given as their UTF-16 units, which is what is on the wire; the conversions of
    \<^verbatim>\<open>wchar_t\<close> texts to them call the C library.
  \<^item> The loop that reads the values of a message has fuel for the size of the message, which is enough
    (\<open>read_rows_ends\<close>): every value takes two bytes.
\<close>

section \<open>Requests and results\<close>

definition idOpen_db :: "16 word" where "idOpen_db = 0x7E7F"
definition idClose_db :: "16 word" where "idClose_db = idOpen_db + 1"
definition idBeginTrans :: "16 word" where "idBeginTrans = idClose_db + 1"
definition idEndTrans_db :: "16 word" where "idEndTrans_db = idBeginTrans + 1"
definition idExecute :: "16 word" where "idExecute = idEndTrans_db + 1"
definition idPrepare :: "16 word" where "idPrepare = idExecute + 1"
definition idExecuteParameters :: "16 word" where "idExecuteParameters = idPrepare + 1"
definition idDBUpdate :: "16 word" where "idDBUpdate = idExecuteParameters + 1"
definition idRowsetHeader :: "16 word" where "idRowsetHeader = idDBUpdate + 1"
definition idOutputParameter :: "16 word" where "idOutputParameter = idRowsetHeader + 1"
definition idBeginRows :: "16 word" where "idBeginRows = idOutputParameter + 1"
definition idTransferring :: "16 word" where "idTransferring = idBeginRows + 1"
definition idStartBLOB :: "16 word" where "idStartBLOB = idTransferring + 1"
definition idChunk :: "16 word" where "idChunk = idStartBLOB + 1"
definition idEndBLOB :: "16 word" where "idEndBLOB = idChunk + 1"
definition idEndRows :: "16 word" where "idEndRows = idEndBLOB + 1"
definition idCallReturn :: "16 word" where "idCallReturn = idEndRows + 1"
definition idGetCachedTables :: "16 word" where "idGetCachedTables = idCallReturn + 1"
definition idSqlBatchHeader :: "16 word" where "idSqlBatchHeader = idGetCachedTables + 1"
definition idExecuteBatch :: "16 word" where "idExecuteBatch = idSqlBatchHeader + 1"
definition idParameterPosition :: "16 word" where "idParameterPosition = idExecuteBatch + 1"
definition idExecuteEx :: "16 word" where "idExecuteEx = idParameterPosition + 1"

lemmas id_defs =
  idOpen_db_def idClose_db_def idBeginTrans_def idEndTrans_db_def idExecute_def idPrepare_def
  idExecuteParameters_def idDBUpdate_def idRowsetHeader_def idOutputParameter_def idBeginRows_def
  idTransferring_def idStartBLOB_def idChunk_def idEndBLOB_def idEndRows_def idCallReturn_def
  idGetCachedTables_def idSqlBatchHeader_def idExecuteBatch_def idParameterPosition_def idExecuteEx_def

definition DEFAULT_BIG_FIELD_CHUNK_SIZE :: nat where "DEFAULT_BIG_FIELD_CHUNK_SIZE = 16 * 1024"
definition DEFAULT_RECORD_BATCH_SIZE :: nat where "DEFAULT_RECORD_BATCH_SIZE = 16 * 1024"
definition ONE_MEGA_BYTES :: nat where "ONE_MEGA_BYTES = 0x100000"
definition BLOB_LENGTH_NOT_AVAILABLE :: nat where "BLOB_LENGTH_NOT_AVAILABLE = 0xffffffe0"

section \<open>The peer\<close>

datatype peer_call =
    Send_result "16 word" "byte list"
  | Commit_batching
  | Start_batching

record peer_env =
  core_ret :: "peer_call list \<Rightarrow> nat"
  core_batched :: "peer_call list \<Rightarrow> nat"

definition SOCKET_NOT_FOUND :: nat where "SOCKET_NOT_FOUND = 0xFFFFFFFF"
definition REQUEST_CANCELED :: nat where "REQUEST_CANCELED = 0xFFFFFFFE"

definition result_sent :: "nat \<Rightarrow> bool" where
  "result_sent ret \<longleftrightarrow> ret \<noteq> REQUEST_CANCELED \<and> ret \<noteq> SOCKET_NOT_FOUND"

text \<open>\<^verbatim>\<open>SendResult(reqId, pResult, size)\<close> and \<^verbatim>\<open>SendResult(reqId, sb)\<close>.\<close>

definition SendResult :: "peer_env \<Rightarrow> 16 word \<Rightarrow> byte list \<Rightarrow> peer_call list \<Rightarrow> nat \<times> peer_call list" where
  "SendResult E reqId bs calls =
     (let calls = calls @ [Send_result reqId bs] in (core_ret E calls, calls))"

definition SendResult_buffer ::
  "peer_env \<Rightarrow> 16 word \<Rightarrow> uqueue \<Rightarrow> peer_call list \<Rightarrow> fault + (nat \<times> peer_call list)"
where
  "SendResult_buffer E reqId sb calls =
     bindr (read_front sb (m_nSize sb)) (\<lambda>bs. Inr (SendResult E reqId bs calls))"

definition SendMeta ::
  "peer_env \<Rightarrow> uqueue \<Rightarrow> CDBColumnInfo list \<Rightarrow> nat \<Rightarrow> peer_call list \<Rightarrow> fault + (bool \<times> peer_call list)"
where
  "SendMeta E sb meta index calls =
     bindr (put_columns sb meta) (\<lambda>sb. bindr (put_pod 8 sb index) (\<lambda>sb.
     bindr (SendResult_buffer E idRowsetHeader sb calls) (\<lambda>(ret, calls). Inr (result_sent ret, calls))))"

definition SendRows_buffer ::
  "peer_env \<Rightarrow> uqueue \<Rightarrow> bool \<Rightarrow> peer_call list \<Rightarrow> fault + (bool \<times> uqueue \<times> peer_call list)"
where
  "SendRows_buffer E sb transferring calls =
     (let batching = (core_batched E calls \<ge> DEFAULT_RECORD_BATCH_SIZE);
          calls = (if batching then calls @ [Commit_batching] else calls) in
      bindr (SendResult_buffer E (if transferring then idTransferring else idEndRows) sb calls) (\<lambda>(ret, calls).
      bindr (SetSize sb 0 True) (\<lambda>sb.
      Inr (result_sent ret, sb, if batching then calls @ [Start_batching] else calls))))"

function SendBlob_loop :: "peer_env \<Rightarrow> byte list \<Rightarrow> peer_call list \<Rightarrow> fault + (bool \<times> byte list \<times> peer_call list)" where
  "SendBlob_loop E buffer calls =
     (if length buffer > DEFAULT_BIG_FIELD_CHUNK_SIZE
      then let (ret, calls) = SendResult E idChunk (take DEFAULT_BIG_FIELD_CHUNK_SIZE buffer) calls in
           if \<not> result_sent ret then Inr (False, buffer, calls)
           else bindr (require (ret = DEFAULT_BIG_FIELD_CHUNK_SIZE)) (\<lambda>_.
                SendBlob_loop E (drop DEFAULT_BIG_FIELD_CHUNK_SIZE buffer) calls)
      else Inr (True, buffer, calls))"
  by auto
termination by (relation "measure (\<lambda>(E, buffer, calls). length buffer)") (auto simp: DEFAULT_BIG_FIELD_CHUNK_SIZE_def)

declare SendBlob_loop.simps [simp del]

definition SendBlob ::
  "peer_env \<Rightarrow> uqueue \<Rightarrow> nat \<Rightarrow> byte list \<Rightarrow> peer_call list \<Rightarrow> fault + (bool \<times> peer_call list)"
where
  "SendBlob E sb data_type buffer calls =
     (let bytes = length buffer mod 4294967296 in
      bindr (put_pod 4 sb (add32 bytes 10)) (\<lambda>sb. bindr (put_pod 2 sb data_type) (\<lambda>sb.
      bindr (put_pod 4 sb bytes) (\<lambda>sb.
      bindr (SendResult_buffer E idStartBLOB sb calls) (\<lambda>(ret, calls).
      if \<not> result_sent ret then Inr (False, calls)
      else bindr (SendBlob_loop E buffer calls) (\<lambda>(ok, buffer, calls).
           if \<not> ok then Inr (False, calls)
           else let (ret, calls) = SendResult E idEndBLOB buffer calls in Inr (result_sent ret, calls)))))))"

text \<open>
  A string is large above 16 K units, bytes above 32 K. The type and the bytes of a large string are those of
  the string as it is serialised into \<open>sb\<close>.
\<close>

definition large_string :: "uqueue \<Rightarrow> CDBVariant \<Rightarrow> fault + byte list" where
  "large_string sb v =
     bindr (put_CDBVariant sb v) (\<lambda>temp.
     bindr (mem_read (m_pBuffer temp) (GetBuffer temp 2) 4) (\<lambda>cs. bindr (cells cs) (\<lambda>bytes.
     bindr (mem_read (m_pBuffer temp) (GetBuffer temp 6) (le_value bytes)) cells)))"

definition is_large :: "CDBVariant \<Rightarrow> bool" where
  "is_large v \<longleftrightarrow>
     (case vt_data v of
        Vt_bstr s \<Rightarrow> (case s of None \<Rightarrow> 0 | Some u \<Rightarrow> length u) > DEFAULT_BIG_FIELD_CHUNK_SIZE
      | Fixed_array t n d \<Rightarrow> (t = VT_I1 \<or> t = VT_UI1) \<and> n > 2 * DEFAULT_BIG_FIELD_CHUNK_SIZE
      | _ \<Rightarrow> False)"

definition large_bytes :: "uqueue \<Rightarrow> CDBVariant \<Rightarrow> fault + byte list" where
  "large_bytes sb v = (case vt_data v of Fixed_array t n d \<Rightarrow> mem_read d 0 n | _ \<Rightarrow> large_string sb v)"

fun SendRows_loop ::
  "peer_env \<Rightarrow> uqueue \<Rightarrow> uqueue \<Rightarrow> CDBVariant list \<Rightarrow> peer_call list \<Rightarrow> fault + (bool \<times> uqueue \<times> peer_call list)"
where
  "SendRows_loop E new sb [] calls = Inr (True, sb, calls)"
| "SendRows_loop E new sb (v # vs) calls =
     (if is_large v
      then bindr (if m_nSize sb > 0 then SendRows_buffer E sb True calls else Inr (True, sb, calls)) (\<lambda>(ok, sb, calls).
           if \<not> ok then Inr (False, sb, calls)
           else bindr (large_bytes new v) (\<lambda>buffer.
                bindr (SendBlob E new (variant_type (vt_data v)) buffer calls) (\<lambda>(ok, calls).
                if \<not> ok then Inr (False, sb, calls) else SendRows_loop E new sb vs calls)))
      else bindr (put_CDBVariant sb v) (\<lambda>sb. SendRows_loop E new sb vs calls))"

definition SendRows ::
  "peer_env \<Rightarrow> uqueue \<Rightarrow> CDBVariant list \<Rightarrow> peer_call list \<Rightarrow> fault + (bool \<times> peer_call list)"
where
  "SendRows E new vData calls =
     bindr (SendRows_loop E new new vData calls) (\<lambda>(ok, sb, calls).
     if \<not> ok then Inr (False, calls)
     else bindr (SendResult_buffer E idEndRows sb calls) (\<lambda>(ret, calls). Inr (result_sent ret, calls)))"

section \<open>The handler\<close>

record row_reader =
  m_mapRowset :: "nat \<Rightarrow> (nat option \<times> nat option) option"
  m_vData :: "CDBVariant list"
  m_Blob :: uqueue
  m_indexRowset :: nat

record cached_client = row_reader +
  ch_ms :: "32 word"

datatype db_event =
    Ev_header nat "CDBColumnInfo list"
  | Ev_rows nat "CDBVariant list"
  | Ev_result nat "32 word" "nat list"

text \<open>A new handler; \<open>blob\<close> is the new buffer in it.\<close>

definition CCachedBaseHandler_new :: "uqueue \<Rightarrow> cached_client" where
  "CCachedBaseHandler_new blob =
     \<lparr>m_mapRowset = (\<lambda>_. None), m_vData = [], m_Blob = blob\<lparr>m_8ToW := True\<rparr>, m_indexRowset = 0, ch_ms = -1\<rparr>"

definition ch_GetDBManagementSystem :: "cached_client \<Rightarrow> 32 word" where
  "ch_GetDBManagementSystem c = ch_ms c"

definition ch_CleanCallbacks :: "cached_client \<Rightarrow> cached_client" where
  "ch_CleanCallbacks c = c\<lparr>m_mapRowset := (\<lambda>_. None)\<rparr>"

definition ch_OnMergeTo :: "cached_client \<Rightarrow> cached_client \<Rightarrow> cached_client \<times> cached_client" where
  "ch_OnMergeTo c to =
     (c\<lparr>m_mapRowset := (\<lambda>_. None)\<rparr>, to\<lparr>m_mapRowset := m_mapRowset to ++ m_mapRowset c\<rparr>)"

text \<open>
  \<^verbatim>\<open>GetCachedTables\<close>: the callbacks are entered under the index of the call before the request is
  sent, and taken out again when it is not, or when its result has come. The result is \<open>(sent, request)\<close>.
\<close>

definition GetCachedTables ::
  "bool \<Rightarrow> uqueue \<Rightarrow> nat \<Rightarrow> nat list option \<Rightarrow> nat option \<Rightarrow> nat option \<Rightarrow> nat \<Rightarrow> cached_client \<Rightarrow>
   fault + (bool \<times> byte list \<times> cached_client)"
where
  "GetCachedTables sent sb index defaultDb row rh flags c =
     (let c = c\<lparr>m_mapRowset := (m_mapRowset c)(index \<mapsto> (rh, row))\<rparr> in
      bindr (put_bstr sb defaultDb) (\<lambda>sb. bindr (put_pod 4 sb flags) (\<lambda>sb. bindr (put_pod 8 sb index) (\<lambda>sb.
      bindr (read_front sb (m_nSize sb)) (\<lambda>bs.
      Inr (sent, bs, if sent then c else c\<lparr>m_mapRowset := (m_mapRowset c)(index := None)\<rparr>))))))"

definition GetCachedTables_result ::
  "nat \<Rightarrow> nat option \<Rightarrow> uqueue \<Rightarrow> cached_client \<Rightarrow> fault + (db_event list \<times> uqueue \<times> cached_client)"
where
  "GetCachedTables_result index handler ar c =
     bindr (get_pod 4 ar) (\<lambda>(dbMS, ar). bindr (get_pod 4 ar) (\<lambda>(res, ar). bindr (get_u16string ar) (\<lambda>(errMsg, ar).
     Inr (case handler of None \<Rightarrow> [] | Some h \<Rightarrow> [Ev_result h (word_of_nat res) errMsg], ar,
          c\<lparr>ch_ms := word_of_nat dbMS, m_mapRowset := (m_mapRowset c)(index := None)\<rparr>))))"

section \<open>What arrives\<close>

text \<open>The loop over the values of a message, and the change of the mode around it.\<close>

fun read_values_loop :: "text_conv \<Rightarrow> bool \<Rightarrow> nat \<Rightarrow> uqueue \<Rightarrow> fault + (CDBVariant list \<times> uqueue)" where
  "read_values_loop C ndebug 0 mc = Inl Out_Of_Fuel"
| "read_values_loop C ndebug (Suc fuel) mc =
     (if m_nSize mc = 0 then Inr ([], mc)
      else bindr (get_CDBVariant C ndebug mc) (\<lambda>(v, mc).
           bindr (read_values_loop C ndebug fuel mc) (\<lambda>(vs, mc). Inr (v # vs, mc))))"

definition read_rows :: "text_conv \<Rightarrow> bool \<Rightarrow> bool \<Rightarrow> uqueue \<Rightarrow> fault + (CDBVariant list \<times> uqueue)" where
  "read_rows C ndebug utf8 mc =
     (let mc = (if utf8 then mc\<lparr>m_8ToW := True\<rparr> else mc) in
      bindr (read_values_loop C ndebug (m_nSize mc + 1) mc) (\<lambda>(vs, mc).
      bindr (require (m_nSize mc = 0)) (\<lambda>_.
      Inr (vs, if utf8 then mc\<lparr>m_8ToW := False\<rparr> else mc))))"

definition clear_rows :: "'a row_reader_scheme \<Rightarrow> fault + 'a row_reader_scheme" where
  "clear_rows c = bindr (SetSize (m_Blob c) 0 True) (\<lambda>blob. Inr (c\<lparr>m_Blob := blob, m_vData := []\<rparr>))"

definition shrink_blob :: "'a row_reader_scheme \<Rightarrow> fault + 'a row_reader_scheme" where
  "shrink_blob c =
     bindr (SetSize (m_Blob c) 0 True) (\<lambda>blob.
     bindr (if m_nMaxBuffer blob > ONE_MEGA_BYTES then ReallocBuffer blob ONE_MEGA_BYTES else Inr blob) (\<lambda>blob.
     Inr (c\<lparr>m_Blob := blob\<rparr>)))"

definition push_all :: "uqueue \<Rightarrow> uqueue \<Rightarrow> fault + (uqueue \<times> uqueue)" where
  "push_all blob mc =
     bindr (mem_read (m_pBuffer mc) (GetBuffer mc 0) (m_nSize mc)) (\<lambda>cs.
     bindr (Push blob (Some cs)) (\<lambda>blob. bindr (SetSize mc 0 True) (\<lambda>mc. Inr (blob, mc))))"

definition on_transferring ::
  "text_conv \<Rightarrow> bool \<Rightarrow> uqueue \<Rightarrow> 'a row_reader_scheme \<Rightarrow> fault + (uqueue \<times> 'a row_reader_scheme)"
where
  "on_transferring C ndebug mc c =
     (if m_nSize mc = 0 then Inr (mc, c)
      else bindr (read_rows C ndebug (m_8ToW (m_Blob c)) mc) (\<lambda>(vs, mc). Inr (mc, c\<lparr>m_vData := m_vData c @ vs\<rparr>)))"

definition on_start_blob :: "uqueue \<Rightarrow> 'a row_reader_scheme \<Rightarrow> fault + (uqueue \<times> 'a row_reader_scheme)" where
  "on_start_blob mc c =
     bindr (SetSize (m_Blob c) 0 True) (\<lambda>blob. bindr (get_pod 4 mc) (\<lambda>(len, mc).
     bindr (if len \<noteq> UQUEUE_END_POSTION \<and> len > m_nMaxBuffer blob then ReallocBuffer blob len else Inr blob) (\<lambda>blob.
     bindr (push_all blob mc) (\<lambda>(blob, mc). Inr (mc, c\<lparr>m_Blob := blob\<rparr>)))))"

definition on_chunk :: "uqueue \<Rightarrow> 'a row_reader_scheme \<Rightarrow> fault + (uqueue \<times> 'a row_reader_scheme)" where
  "on_chunk mc c = bindr (push_all (m_Blob c) mc) (\<lambda>(blob, mc). Inr (mc, c\<lparr>m_Blob := blob\<rparr>))"

text \<open>A length that the sender did not know is set when the value is complete.\<close>

definition fix_blob_length :: "uqueue \<Rightarrow> fault + uqueue" where
  "fix_blob_length blob =
     bindr (mem_read (m_pBuffer blob) (GetBuffer blob 2) 4) (\<lambda>cs. bindr (cells cs) (\<lambda>len.
     if le_value len \<ge> BLOB_LENGTH_NOT_AVAILABLE
     then bindr (mem_write (m_pBuffer blob) (GetBuffer blob 2) (map Some (le_bytes 4 (sub32 (m_nSize blob) 6)))) (\<lambda>p.
          Inr (blob\<lparr>m_pBuffer := p\<rparr>))
     else Inr blob))"

definition on_end_blob ::
  "text_conv \<Rightarrow> bool \<Rightarrow> uqueue \<Rightarrow> 'a row_reader_scheme \<Rightarrow> fault + (uqueue \<times> 'a row_reader_scheme)"
where
  "on_end_blob C ndebug mc c =
     (if m_nSize mc = 0 \<and> m_nSize (m_Blob c) = 0 then Inr (mc, c)
      else bindr (push_all (m_Blob c) mc) (\<lambda>(blob, mc). bindr (fix_blob_length blob) (\<lambda>blob.
           bindr (get_CDBVariant C ndebug blob) (\<lambda>(vt, blob).
           bindr (require (m_nSize blob = 0)) (\<lambda>_.
           Inr (mc, c\<lparr>m_Blob := blob, m_vData := m_vData c @ [vt]\<rparr>))))))"

text \<open>\<^verbatim>\<open>m_mapRowset[m_indexRowset]\<close>: an unknown index is entered with empty callbacks.\<close>

definition rowset_entry :: "'a row_reader_scheme \<Rightarrow> (nat option \<times> nat option) \<times> 'a row_reader_scheme" where
  "rowset_entry c =
     (let p = (case m_mapRowset c (m_indexRowset c) of None \<Rightarrow> (None, None) | Some p \<Rightarrow> p) in
      (p, c\<lparr>m_mapRowset := (m_mapRowset c)(m_indexRowset c \<mapsto> p)\<rparr>))"

definition ch_on_header ::
  "uqueue \<Rightarrow> cached_client \<Rightarrow> fault + (db_event list \<times> uqueue \<times> cached_client)"
where
  "ch_on_header mc c =
     bindr (shrink_blob c) (\<lambda>c.
     bindr (get_columns mc) (\<lambda>(vColInfo, mc). bindr (get_pod 8 mc) (\<lambda>(index, mc).
     let (p, c) = rowset_entry (c\<lparr>m_indexRowset := index, m_vData := []\<rparr>) in
     Inr (case fst p of None \<Rightarrow> [] | Some rh \<Rightarrow> [Ev_header rh vColInfo], mc, c))))"

definition ch_on_end_rows ::
  "text_conv \<Rightarrow> bool \<Rightarrow> uqueue \<Rightarrow> cached_client \<Rightarrow> fault + (db_event list \<times> uqueue \<times> cached_client)"
where
  "ch_on_end_rows C ndebug mc c =
     bindr (if m_nSize mc = 0 \<and> m_vData c = [] then Inr ([], mc, c)
            else bindr (read_rows C ndebug (m_8ToW (m_Blob c)) mc) (\<lambda>(vs, mc).
                 let (p, c) = rowset_entry (c\<lparr>m_vData := m_vData c @ vs\<rparr>) in
                 Inr (case snd p of None \<Rightarrow> [] | Some row \<Rightarrow> [Ev_rows row (m_vData c)], mc, c))) (\<lambda>(evs, mc, c).
     Inr (evs, mc, c\<lparr>m_vData := []\<rparr>))"

definition ch_OnResultReturned ::
  "text_conv \<Rightarrow> bool \<Rightarrow> 16 word \<Rightarrow> uqueue \<Rightarrow> cached_client \<Rightarrow> fault + (db_event list \<times> uqueue \<times> cached_client)"
where
  "ch_OnResultReturned C ndebug reqId mc c =
     (if reqId = idRowsetHeader
      then bindr (ch_on_header mc c) (\<lambda>(evs, mc, c). bindr (clear_rows c) (\<lambda>c. Inr (evs, mc, c)))
      else if reqId = idBeginRows then bindr (clear_rows c) (\<lambda>c. Inr ([], mc, c))
      else if reqId = idTransferring then bindr (on_transferring C ndebug mc c) (\<lambda>(mc, c). Inr ([], mc, c))
      else if reqId = idEndRows then ch_on_end_rows C ndebug mc c
      else if reqId = idStartBLOB then bindr (on_start_blob mc c) (\<lambda>(mc, c). Inr ([], mc, c))
      else if reqId = idChunk then bindr (on_chunk mc c) (\<lambda>(mc, c). Inr ([], mc, c))
      else if reqId = idEndBLOB then bindr (on_end_blob C ndebug mc c) (\<lambda>(mc, c). Inr ([], mc, c))
      else Inr ([], mc, c))"

section \<open>The messages of a peer whose core sends everything\<close>

fun results :: "peer_call list \<Rightarrow> (16 word \<times> byte list) list" where
  "results [] = []"
| "results (Send_result reqId bs # calls) = (reqId, bs) # results calls"
| "results (_ # calls) = results calls"

lemma results_append [simp]: "results (a @ b) = results a @ results b"
  by (induction a rule: results.induct) simp_all

definition reliable :: "peer_env \<Rightarrow> bool" where
  "reliable E \<longleftrightarrow> (\<forall>calls reqId bs. core_ret E (calls @ [Send_result reqId bs]) = length bs)"

lemma SendResult_reliable: "reliable E \<Longrightarrow> SendResult E reqId bs calls = (length bs, calls @ [Send_result reqId bs])"
  by (simp add: SendResult_def reliable_def)

definition fits :: "uqueue \<Rightarrow> nat \<Rightarrow> bool" where
  "fits q n \<longleftrightarrow> 2 * n + m_nBlockSize q \<le> max32"

lemma fits_sent: "fits q n \<Longrightarrow> m \<le> n \<Longrightarrow> result_sent m"
  by (simp add: fits_def result_sent_def REQUEST_CANCELED_def SOCKET_NOT_FOUND_def max32_def)

lemma fits_room:
  assumes "fits q n" "uq_inv q'" "same_settings q q'" "length (content q') + m \<le> n"
  shows "room q' m"
proof -
  have "length (content q') = m_nSize q'" using uq_invD(1) [OF assms(2)] by simp
  then show ?thesis using assms by (simp add: fits_def room_def same_settings_def)
qed

lemma fits_settings: "same_settings q q' \<Longrightarrow> fits q' n = fits q n"
  by (simp add: fits_def same_settings_def)

lemma fits_mono: "fits q n \<Longrightarrow> m \<le> n \<Longrightarrow> fits q m"
  by (simp add: fits_def)

lemma SendResult_buffer_reliable:
  assumes "reliable E" "uq_inv sb"
  shows "SendResult_buffer E reqId sb calls =
    Inr (length (content sb), calls @ [Send_result reqId (content sb)])"
  using read_front_ok [OF assms(2), of "content sb" "[]"] uq_invD(1) [OF assms(2)] assms(1)
  by (simp add: SendResult_buffer_def SendResult_reliable)

lemma SendRows_buffer_reliable:
  assumes "reliable E" "uq_inv sb" "fits sb (length (content sb))"
  shows "\<exists>sb' calls'. SendRows_buffer E sb transferring calls = Inr (True, sb', calls') \<and> uq_inv sb' \<and>
    same_settings sb sb' \<and> content sb' = [] \<and>
    results calls' = results calls @ [(if transferring then idTransferring else idEndRows, content sb)]"
proof -
  obtain sb' where "SetSize sb 0 True = Inr sb'" "uq_inv sb'" "same_settings sb sb'" "content sb' = []"
    using SetSize_ok [OF assms(2), of 0 True] by auto
  then show ?thesis
    using SendResult_buffer_reliable [OF assms(1,2)] fits_sent [OF assms(3)] by (auto simp: SendRows_buffer_def Let_def)
qed

text \<open>The chunks of a large value, and the rest that ends it.\<close>

function split_chunks :: "byte list \<Rightarrow> byte list list \<times> byte list" where
  "split_chunks bs =
     (if length bs > DEFAULT_BIG_FIELD_CHUNK_SIZE
      then let (cs, l) = split_chunks (drop DEFAULT_BIG_FIELD_CHUNK_SIZE bs)
           in (take DEFAULT_BIG_FIELD_CHUNK_SIZE bs # cs, l)
      else ([], bs))"
  by auto
termination by (relation "measure length") (auto simp: DEFAULT_BIG_FIELD_CHUNK_SIZE_def)

declare split_chunks.simps [simp del]

lemma split_chunks_concat: "split_chunks bs = (cs, l) \<Longrightarrow> concat cs @ l = bs"
proof (induction bs arbitrary: cs l rule: split_chunks.induct)
  case (1 bs)
  then show ?case
    by (cases "length bs > DEFAULT_BIG_FIELD_CHUNK_SIZE")
      (auto simp: split_chunks.simps [of bs] split: prod.splits)
qed

lemma SendBlob_loop_reliable:
  assumes "reliable E" "split_chunks buffer = (cs, l)"
  shows "\<exists>calls'. SendBlob_loop E buffer calls = Inr (True, l, calls') \<and>
    results calls' = results calls @ map (Pair idChunk) cs"
  using assms(2)
proof (induction buffer arbitrary: cs l calls rule: split_chunks.induct)
  case (1 buffer)
  show ?case
  proof (cases "length buffer > DEFAULT_BIG_FIELD_CHUNK_SIZE")
    case False
    with 1(2) have "l = buffer" "cs = []" by (auto simp: split_chunks.simps [of buffer])
    with False show ?thesis by (simp add: SendBlob_loop.simps [of E buffer])
  next
    case True
    then obtain ds where ds: "cs = take DEFAULT_BIG_FIELD_CHUNK_SIZE buffer # ds"
      "split_chunks (drop DEFAULT_BIG_FIELD_CHUNK_SIZE buffer) = (ds, l)"
      using 1(2) by (auto simp: split_chunks.simps [of buffer] split: prod.splits)
    have "result_sent DEFAULT_BIG_FIELD_CHUNK_SIZE"
      by (simp add: result_sent_def DEFAULT_BIG_FIELD_CHUNK_SIZE_def REQUEST_CANCELED_def SOCKET_NOT_FOUND_def)
    with True ds(1) 1(1) [OF True ds(2), of "calls @ [Send_result idChunk (take DEFAULT_BIG_FIELD_CHUNK_SIZE buffer)]"]
    show ?thesis
      by (auto simp: SendBlob_loop.simps [of E buffer] SendResult_reliable [OF assms(1)])
  qed
qed

definition blob_messages :: "nat \<Rightarrow> byte list \<Rightarrow> (16 word \<times> byte list) list" where
  "blob_messages t buffer =
     (let n = length buffer; (cs, l) = split_chunks buffer in
      (idStartBLOB, le_bytes 4 (n + 10) @ le_bytes 2 t @ le_bytes 4 n) # map (Pair idChunk) cs @ [(idEndBLOB, l)])"

lemma SendBlob_reliable:
  assumes "reliable E" "uq_inv sb" "content sb = []" "fits sb (length buffer + 10)"
  shows "\<exists>calls'. SendBlob E sb t buffer calls = Inr (True, calls') \<and>
    results calls' = results calls @ blob_messages t buffer"
proof -
  obtain cs l where cl: "split_chunks buffer = (cs, l)" by fastforce
  have n: "length buffer + 10 \<le> max32" using assms(4) by (simp add: fits_def)
  then have m: "length buffer mod 4294967296 = length buffer" "add32 (length buffer) 10 = length buffer + 10"
    by (simp_all add: max32_def add32_exact)
  have r: "room q' k" if "uq_inv q'" "same_settings sb q'" "length (content q') + k \<le> 10" for q' k
    using fits_room [OF assms(4) that(1,2)] that(3) by simp
  obtain q1 where q1: "put_pod 4 sb (length buffer + 10) = Inr q1" "uq_inv q1" "same_settings sb q1"
    "content q1 = le_bytes 4 (length buffer + 10)"
    using put_pod_ok [OF assms(2) r [OF assms(2)], of 4 "length buffer + 10"] assms(3) by auto
  obtain q2 where q2: "put_pod 2 q1 t = Inr q2" "uq_inv q2" "same_settings sb q2"
    "content q2 = le_bytes 4 (length buffer + 10) @ le_bytes 2 t"
    using put_pod_ok [OF q1(2) r [OF q1(2,3)], of 2 t] q1 same_settings_trans by auto
  obtain q3 where q3: "put_pod 4 q2 (length buffer) = Inr q3" "uq_inv q3"
    "content q3 = le_bytes 4 (length buffer + 10) @ le_bytes 2 t @ le_bytes 4 (length buffer)"
    using put_pod_ok [OF q2(2) r [OF q2(2,3)], of 4 "length buffer"] q2 by auto
  have l: "length l \<le> length buffer" using split_chunks_concat [OF cl] by auto
  let ?calls = "calls @ [Send_result idStartBLOB (content q3)]"
  obtain calls' where c: "SendBlob_loop E buffer ?calls = Inr (True, l, calls')"
    "results calls' = results ?calls @ map (Pair idChunk) cs"
    using SendBlob_loop_reliable [OF assms(1) cl] by blast
  have "result_sent (length (content q3))" "result_sent (length l)"
    using fits_sent [OF assms(4)] q3(3) l by auto
  then show ?thesis
    using q1(1) q2(1) q3 c cl m SendResult_buffer_reliable [OF assms(1) q3(2)] assms(1)
    by (auto simp: SendBlob_def SendResult_reliable blob_messages_def Let_def)
qed

text \<open>
  What a run of rows is on the wire: messages of small values, and large values one by one. The last values may
  wait in the buffer.
\<close>

datatype segment = Small "CDBVariant list" | Large CDBVariant

fun seg_values :: "segment \<Rightarrow> CDBVariant list" where
  "seg_values (Small vs) = vs"
| "seg_values (Large v) = [v]"

text \<open>The bytes of a large value behind its type and its length.\<close>

definition large_part :: "CDBVariant \<Rightarrow> byte list" where
  "large_part v = drop 6 (value_wire v)"

fun seg_messages :: "segment \<Rightarrow> (16 word \<times> byte list) list" where
  "seg_messages (Small vs) = [(idTransferring, concat (map value_wire vs))]"
| "seg_messages (Large v) = blob_messages (variant_type (vt_data v)) (large_part v)"

lemma value_wire_length: "2 \<le> length (value_wire v)"
  by (simp add: value_wire_def variant_wire_def split: option.splits)

lemma is_large_wire:
  assumes "is_large v" "value_valid v"
  shows "guid_bytes v = None \<and> DEFAULT_BIG_FIELD_CHUNK_SIZE < length (large_part v) \<and>
    value_wire v = le_bytes 2 (variant_type (vt_data v)) @ le_bytes 4 (length (large_part v)) @ large_part v \<and>
    (\<forall>t n d. vt_data v = Fixed_array t n d \<longrightarrow> length d = n \<and> large_part v = d)"
proof (cases "vt_data v")
  case (Vt_bstr s)
  then obtain u where u: "s = Some u" "DEFAULT_BIG_FIELD_CHUNK_SIZE < length u"
    using assms(1) by (auto simp: is_large_def split: option.splits)
  have g: "guid_bytes v = None" using Vt_bstr by (simp add: guid_bytes_def)
  then have w: "value_wire v = le_bytes 2 VT_BSTR @ le_bytes 4 (length (vec_bytes 2 u)) @ vec_bytes 2 u"
    using Vt_bstr u by (simp add: value_wire_def variant_wire_def bstr_wire_def lwire_def)
  then have "large_part v = vec_bytes 2 u" by (simp add: large_part_def)
  with w g u Vt_bstr show ?thesis by simp
next
  case (Fixed_array t n d)
  then have t: "t = VT_I1 \<or> t = VT_UI1" "n > 2 * DEFAULT_BIG_FIELD_CHUNK_SIZE"
    using assms(1) by (auto simp: is_large_def)
  then have d: "length d = n" using assms(2) Fixed_array by (auto simp: value_valid_def elem_width_def)
  have g: "guid_bytes v = None"
    using Fixed_array t(2) by (auto simp: guid_bytes_def sizeof_UUID_def DEFAULT_BIG_FIELD_CHUNK_SIZE_def)
  then have w: "value_wire v = le_bytes 2 (VT_ARRAY + t) @ le_bytes 4 n @ d"
    using Fixed_array by (simp add: value_wire_def variant_wire_def)
  then have "large_part v = d" by (simp add: large_part_def)
  with w g t d Fixed_array show ?thesis by simp
qed (use assms(1) in \<open>simp_all add: is_large_def\<close>)

lemma large_bytes_ok:
  assumes "is_large v" "value_valid v" "uq_inv sb" "content sb = []" "fits sb (length (value_wire v))"
  shows "large_bytes sb v = Inr (large_part v)"
proof -
  note w = is_large_wire [OF assms(1,2)]
  have r: "room sb (length (value_wire v))" using fits_room [OF assms(5,3)] assms(4) by simp
  obtain temp where temp: "put_CDBVariant sb v = Inr temp" "uq_inv temp" "content temp = value_wire v"
    using put_CDBVariant_ok [OF assms(3,2) r] assms(4) by (auto simp: appended_def)
  have s: "large_string sb v = Inr (large_part v)"
  proof -
    let ?h = "le_bytes 2 (variant_type (vt_data v))" and ?n = "length (large_part v)"
    have c: "content temp = ?h @ le_bytes 4 ?n @ large_part v" using temp(3) w by auto
    obtain pre where "uq_rep temp pre (content temp)" using uq_inv_rep [OF temp(2)] by blast
    then have h: "holds (m_pBuffer temp) (m_nHeadPos temp) (?h @ le_bytes 4 ?n @ large_part v)"
      using uq_repD(10) c by metis
    moreover have "6 \<le> m_nSize temp" using uq_invD(1) [OF temp(2)] c by simp
    ultimately have "holds (m_pBuffer temp) (GetBuffer temp 2) (le_bytes 4 ?n)"
      "holds (m_pBuffer temp) (GetBuffer temp 6) (large_part v)"
      by (auto simp: holds_append GetBuffer_def add.commute)
    then have "mem_read (m_pBuffer temp) (GetBuffer temp 2) 4 = Inr (map Some (le_bytes 4 ?n))"
      "mem_read (m_pBuffer temp) (GetBuffer temp 6) ?n = Inr (map Some (large_part v))"
      by (auto intro!: holds_read)
    moreover have "?n < 256 ^ 4"
      using assms(5) by (simp add: fits_def large_part_def max32_def)
    then have "le_value (le_bytes 4 ?n) = ?n" by (rule le_value_le_bytes)
    ultimately show ?thesis
      using temp(1) by (simp add: large_string_def)
  qed
  show ?thesis
  proof (cases "vt_data v")
    case (Fixed_array t n d)
    with w have "length d = n" "large_part v = d" by simp_all
    with Fixed_array show ?thesis by (simp add: large_bytes_def mem_read_def)
  qed (use s in \<open>simp_all add: large_bytes_def\<close>)
qed

definition seg_ok :: "nat \<Rightarrow> segment \<Rightarrow> bool" where
  "seg_ok n seg \<longleftrightarrow>
     list_all value_valid (seg_values seg) \<and> length (concat (map value_wire (seg_values seg))) \<le> n \<and>
     (case seg of Large v \<Rightarrow> is_large v | _ \<Rightarrow> True)"

lemma SendRows_loop_reliable:
  assumes E: "reliable E" and new: "uq_inv new" "content new = []"
  shows "uq_inv sb \<Longrightarrow> same_settings new sb \<Longrightarrow> content sb = concat (map value_wire pend) \<Longrightarrow>
    list_all value_valid (pend @ vs) \<Longrightarrow> fits new (length (concat (map value_wire (pend @ vs))) + 10) \<Longrightarrow>
    \<exists>segs pend' sb' calls'. SendRows_loop E new sb vs calls = Inr (True, sb', calls') \<and>
      results calls' = results calls @ concat (map seg_messages segs) \<and>
      pend @ vs = concat (map seg_values segs) @ pend' \<and>
      list_all (seg_ok (length (concat (map value_wire (pend @ vs))))) segs \<and>
      uq_inv sb' \<and> content sb' = concat (map value_wire pend')"
proof (induction vs arbitrary: sb pend calls)
  case Nil
  then show ?case by (intro exI [of _ "[]"] exI [of _ pend]) auto
next
  case (Cons v vs)
  let ?N = "length (concat (map value_wire (pend @ v # vs)))"
  have v: "value_valid v" and f: "fits new (length (value_wire v))" "fits new (length (content sb) + length (value_wire v))"
    using Cons.prems(3,4) by (simp_all add: fits_mono [OF Cons.prems(5)])
  show ?case
  proof (cases "is_large v")
    case False
    have "room sb (length (value_wire v))"
      by (rule fits_room [OF f(2) Cons.prems(1,2)]) simp
    then obtain sb1 where sb1: "put_CDBVariant sb v = Inr sb1" "uq_inv sb1" "same_settings sb sb1"
      "content sb1 = concat (map value_wire (pend @ [v]))"
      using put_CDBVariant_ok [OF Cons.prems(1) v] Cons.prems(3) by (auto simp: appended_def)
    have "\<exists>segs pend' sb' calls'. SendRows_loop E new sb1 vs calls = Inr (True, sb', calls') \<and>
      results calls' = results calls @ concat (map seg_messages segs) \<and>
      (pend @ [v]) @ vs = concat (map seg_values segs) @ pend' \<and>
      list_all (seg_ok (length (concat (map value_wire ((pend @ [v]) @ vs))))) segs \<and>
      uq_inv sb' \<and> content sb' = concat (map value_wire pend')"
      using Cons.prems same_settings_trans [OF Cons.prems(2) sb1(3)]
      by (intro Cons.IH sb1) auto
    with False sb1(1) show ?thesis by simp
  next
    case True
    note w = is_large_wire [OF True v]
    let ?t = "variant_type (vt_data v)"
    have lb: "large_bytes new v = Inr (large_part v)"
      by (rule large_bytes_ok [OF True v new f(1)])
    have bl: "\<exists>calls'. SendBlob E new ?t (large_part v) calls = Inr (True, calls') \<and>
        results calls' = results calls @ seg_messages (Large v)" for calls
    proof -
      have "fits new (length (large_part v) + 10)"
        by (rule fits_mono [OF Cons.prems(5)]) (simp add: large_part_def)
      from SendBlob_reliable [OF E new this] show ?thesis by simp
    qed
    have rest: "\<exists>segs pend' sb' calls'. SendRows_loop E new sb1 vs calls1 = Inr (True, sb', calls') \<and>
      results calls' = results calls1 @ concat (map seg_messages segs) \<and>
      vs = concat (map seg_values segs) @ pend' \<and> list_all (seg_ok ?N) segs \<and>
      uq_inv sb' \<and> content sb' = concat (map value_wire pend')"
      if "uq_inv sb1" "same_settings new sb1" "content sb1 = []" for sb1 calls1
    proof -
      note sb1 = that
      have mono: "list_all (seg_ok (length (concat (map value_wire vs)))) segs \<Longrightarrow> list_all (seg_ok ?N) segs" for segs
        by (auto simp: list_all_iff seg_ok_def intro: order_trans)
      have "fits new (length (concat (map value_wire ([] @ vs))) + 10)"
        by (rule fits_mono [OF Cons.prems(5)]) simp
      then obtain segs pend' sb' calls' where "SendRows_loop E new sb1 vs calls1 = Inr (True, sb', calls')"
        "results calls' = results calls1 @ concat (map seg_messages segs)" "vs = concat (map seg_values segs) @ pend'"
        "list_all (seg_ok (length (concat (map value_wire vs)))) segs" "uq_inv sb'" "content sb' = concat (map value_wire pend')"
        using Cons.IH [of sb1 "[]" calls1] sb1 Cons.prems(4) by auto
      with mono show ?thesis by blast
    qed
    show ?thesis
    proof (cases "m_nSize sb > 0")
      case False
      then have p: "content sb = []" using uq_invD(1) [OF Cons.prems(1)] by simp
      then have pe: "concat (map value_wire pend) = []" using Cons.prems(3) by simp
      obtain calls1 where c1: "SendBlob E new ?t (large_part v) calls = Inr (True, calls1)"
        "results calls1 = results calls @ seg_messages (Large v)" using bl by blast
      have "pend = []"
      proof (cases pend)
        case (Cons x xs)
        with pe have "value_wire x = []" by simp
        with value_wire_length [of x] show ?thesis by simp
      qed
      moreover have "seg_ok ?N (Large v)" using v True by (simp add: seg_ok_def)
      moreover obtain segs pend' sb' calls' where "SendRows_loop E new sb vs calls1 = Inr (True, sb', calls')"
        "results calls' = results calls1 @ concat (map seg_messages segs)"
        "vs = concat (map seg_values segs) @ pend'" "list_all (seg_ok ?N) segs"
        "uq_inv sb'" "content sb' = concat (map value_wire pend')"
        using rest [OF Cons.prems(1,2) p, of calls1] by blast
      ultimately show ?thesis using False True lb c1
        by (intro exI [of _ "Large v # segs"] exI [of _ pend'] exI [of _ sb'] exI [of _ calls']) simp
    next
      case nz: True
      have fs: "fits sb (length (content sb))"
        unfolding fits_settings [OF Cons.prems(2)] by (rule fits_mono [OF f(2)]) simp
      obtain sb1 calls1 where s1: "SendRows_buffer E sb True calls = Inr (True, sb1, calls1)" "uq_inv sb1"
        "same_settings sb sb1" "content sb1 = []" "results calls1 = results calls @ seg_messages (Small pend)"
        using SendRows_buffer_reliable [OF E Cons.prems(1) fs, of True calls] Cons.prems(3) by auto
      obtain calls2 where c2: "SendBlob E new ?t (large_part v) calls1 = Inr (True, calls2)"
        "results calls2 = results calls1 @ seg_messages (Large v)" using bl by blast
      obtain segs pend' sb' calls' where "SendRows_loop E new sb1 vs calls2 = Inr (True, sb', calls')"
        "results calls' = results calls2 @ concat (map seg_messages segs)"
        "vs = concat (map seg_values segs) @ pend'" "list_all (seg_ok ?N) segs"
        "uq_inv sb'" "content sb' = concat (map value_wire pend')"
        using rest [OF s1(2) same_settings_trans [OF Cons.prems(2) s1(3)] s1(4), of calls2] by blast
      moreover have "seg_ok ?N (Small pend)" "seg_ok ?N (Large v)"
        using v True Cons.prems(4) by (simp_all add: seg_ok_def)
      ultimately show ?thesis using nz True lb s1 c2
        by (intro exI [of _ "Small pend # Large v # segs"] exI [of _ pend'] exI [of _ sb'] exI [of _ calls']) simp
    qed
  qed
qed

section \<open>A receiver of rows\<close>

text \<open>The messages are taken one after another.\<close>

fun receive ::
  "(16 word \<Rightarrow> byte list \<Rightarrow> 'c \<Rightarrow> fault + ('e list \<times> 'c)) \<Rightarrow> (16 word \<times> byte list) list \<Rightarrow> 'c \<Rightarrow>
   fault + ('e list \<times> 'c)"
where
  "receive take_result [] c = Inr ([], c)"
| "receive take_result ((reqId, bs) # ms) c =
     bindr (take_result reqId bs c) (\<lambda>(evs, c).
     bindr (receive take_result ms c) (\<lambda>(evs', c). Inr (evs @ evs', c)))"

lemma receive_append:
  "receive take_result ms c = Inr (evs, c1) \<Longrightarrow>
   receive take_result (ms @ ns) c = bindr (receive take_result ns c1) (\<lambda>(evs', c). Inr (evs @ evs', c))"
proof (induction ms arbitrary: c evs)
  case Nil
  then show ?case by (cases "receive take_result ns c1") auto
next
  case (Cons m ms)
  obtain reqId bs where m: "m = (reqId, bs)" by (cases m)
  with Cons.prems obtain evs0 c0 evs1 where s: "take_result reqId bs c = Inr (evs0, c0)"
    "receive take_result ms c0 = Inr (evs1, c1)" "evs = evs0 @ evs1"
    by (auto simp: bindr_Inr_iff)
  with Cons.IH [OF s(2)] m show ?case by (cases "receive take_result ns c1") auto
qed

text \<open>
  What a handler does with the messages of a run of rows, for both handlers that understand them. \<open>rows\<close> are
  the values that have arrived, \<open>part\<close> the bytes of a large value so far, \<open>ready n\<close> says that the handler can
  take values of \<open>n\<close> bytes, \<open>dest\<close> is where the rows will go.
\<close>

locale row_receiver =
  fixes take_result :: "16 word \<Rightarrow> byte list \<Rightarrow> 'c \<Rightarrow> fault + ('e list \<times> 'c)"
    and rows :: "'c \<Rightarrow> CDBVariant list"
    and part :: "'c \<Rightarrow> byte list"
    and ready :: "nat \<Rightarrow> 'c \<Rightarrow> bool"
    and dest :: "'c \<Rightarrow> 'd"
    and shown :: "CDBVariant \<Rightarrow> CDBVariant"
  assumes transferring: "ready n c \<Longrightarrow> list_all value_valid vs \<Longrightarrow> length (concat (map value_wire vs)) \<le> n \<Longrightarrow>
      \<exists>c'. take_result idTransferring (concat (map value_wire vs)) c = Inr ([], c') \<and> ready n c' \<and>
        rows c' = rows c @ map shown vs \<and> dest c' = dest c"
    and start_blob: "ready n c \<Longrightarrow> length bs \<le> n \<Longrightarrow> k < 4294967296 \<Longrightarrow>
      \<exists>c'. take_result idStartBLOB (le_bytes 4 k @ bs) c = Inr ([], c') \<and> ready n c' \<and>
        rows c' = rows c \<and> part c' = bs \<and> dest c' = dest c"
    and chunk: "ready n c \<Longrightarrow> length (part c) + length bs \<le> n \<Longrightarrow>
      \<exists>c'. take_result idChunk bs c = Inr ([], c') \<and> ready n c' \<and>
        rows c' = rows c \<and> part c' = part c @ bs \<and> dest c' = dest c"
    and end_blob: "ready n c \<Longrightarrow> value_valid v \<Longrightarrow> is_large v \<Longrightarrow> part c @ bs = value_wire v \<Longrightarrow>
      length (value_wire v) \<le> n \<Longrightarrow>
      \<exists>c'. take_result idEndBLOB bs c = Inr ([], c') \<and> ready n c' \<and>
        rows c' = rows c @ [shown v] \<and> dest c' = dest c"
begin

lemma chunks_arrive:
  "ready n c \<Longrightarrow> length (part c) + length (concat cs) \<le> n \<Longrightarrow>
   \<exists>c'. receive take_result (map (Pair idChunk) cs) c = Inr ([], c') \<and> ready n c' \<and> rows c' = rows c \<and>
     part c' = part c @ concat cs \<and> dest c' = dest c"
proof (induction cs arbitrary: c)
  case Nil
  then show ?case by simp
next
  case (Cons bs cs)
  then obtain c1 where "take_result idChunk bs c = Inr ([], c1)" "ready n c1" "rows c1 = rows c"
    "part c1 = part c @ bs" "dest c1 = dest c"
    using chunk [OF Cons.prems(1), of bs] by auto
  with Cons.IH [of c1] Cons.prems(2) show ?case by auto
qed

lemma large_arrives:
  assumes "ready n c" "value_valid v" "is_large v" "length (value_wire v) \<le> n" "length (value_wire v) < 4294967292"
  shows "\<exists>c'. receive take_result (seg_messages (Large v)) c = Inr ([], c') \<and> ready n c' \<and> rows c' = rows c @ [shown v] \<and>
    dest c' = dest c"
proof -
  let ?t = "variant_type (vt_data v)" and ?d = "large_part v"
  have w: "value_wire v = le_bytes 2 ?t @ le_bytes 4 (length ?d) @ ?d"
    using is_large_wire [OF assms(3,2)] by blast
  obtain cs l where cl: "split_chunks ?d = (cs, l)" by fastforce
  then have d: "?d = concat cs @ l" by (simp add: split_chunks_concat)
  have n: "length ?d + 6 \<le> n" "length ?d + 10 < 4294967296" using assms(4,5) arg_cong [OF w, of length] by simp_all
  let ?h = "le_bytes 2 ?t @ le_bytes 4 (length ?d)"
  obtain c1 where c1: "take_result idStartBLOB (le_bytes 4 (length ?d + 10) @ ?h) c = Inr ([], c1)" "ready n c1"
    "rows c1 = rows c" "part c1 = ?h" "dest c1 = dest c"
    using start_blob [OF assms(1), of ?h "length ?d + 10"] n by auto
  obtain c2 where c2: "receive take_result (map (Pair idChunk) cs) c1 = Inr ([], c2)" "ready n c2" "rows c2 = rows c"
    "part c2 = ?h @ concat cs" "dest c2 = dest c"
    using chunks_arrive [OF c1(2), of cs] c1 n d by auto
  have "part c2 @ l = value_wire v" using c2(4) w d by simp
  from end_blob [OF c2(2) assms(2,3) this assms(4)] c1 c2 cl show ?thesis
    by (auto simp: blob_messages_def receive_append Let_def)
qed

lemma segments_arrive:
  "ready n c \<Longrightarrow> list_all (seg_ok n) segs \<Longrightarrow> n < 4294967292 \<Longrightarrow>
   \<exists>c'. receive take_result (concat (map seg_messages segs)) c = Inr ([], c') \<and> ready n c' \<and>
     rows c' = rows c @ map shown (concat (map seg_values segs)) \<and> dest c' = dest c"
proof (induction segs arbitrary: c)
  case Nil
  then show ?case by simp
next
  case (Cons seg segs)
  have ok: "seg_ok n seg" using Cons.prems(2) by simp
  have "\<exists>c'. receive take_result (seg_messages seg) c = Inr ([], c') \<and> ready n c' \<and>
      rows c' = rows c @ map shown (seg_values seg) \<and> dest c' = dest c"
  proof (cases seg)
    case (Small vs)
    with ok transferring [OF Cons.prems(1), of vs] show ?thesis by (auto simp: seg_ok_def)
  next
    case (Large v)
    with ok large_arrives [OF Cons.prems(1), of v] Cons.prems(3) show ?thesis by (auto simp: seg_ok_def)
  qed
  then obtain c1 where c1: "receive take_result (seg_messages seg) c = Inr ([], c1)" "ready n c1"
    "rows c1 = rows c @ map shown (seg_values seg)" "dest c1 = dest c" by blast
  with Cons.IH [OF c1(2)] Cons.prems(2,3) show ?case by (auto simp: receive_append)
qed

end

text \<open>A server sends the description of the columns and then the rows, as often as it likes.\<close>

fun send_batches ::
  "peer_env \<Rightarrow> uqueue \<Rightarrow> CDBVariant list list \<Rightarrow> peer_call list \<Rightarrow> fault + (bool \<times> peer_call list)"
where
  "send_batches E new [] calls = Inr (True, calls)"
| "send_batches E new (vs # vss) calls =
     bindr (SendRows E new vs calls) (\<lambda>(ok, calls). if ok then send_batches E new vss calls else Inr (False, calls))"

text \<open>
  A receiver that also ends the run: \<open>told d vs\<close> are the calls that rows for \<open>d\<close> lead to, \<open>known d\<close> says that
  \<open>d\<close> is a request the receiver knows of.
\<close>

locale rowset_receiver = row_receiver take_result rows part ready dest shown
  for take_result :: "16 word \<Rightarrow> byte list \<Rightarrow> 'c \<Rightarrow> fault + ('e list \<times> 'c)"
    and rows :: "'c \<Rightarrow> CDBVariant list"
    and part :: "'c \<Rightarrow> byte list"
    and ready :: "nat \<Rightarrow> 'c \<Rightarrow> bool"
    and dest :: "'c \<Rightarrow> 'd"
    and shown :: "CDBVariant \<Rightarrow> CDBVariant" +
  fixes told :: "'d \<Rightarrow> CDBVariant list \<Rightarrow> 'e list"
    and known :: "'d \<Rightarrow> bool"
  assumes rows_end: "ready n c \<Longrightarrow> known (dest c) \<Longrightarrow> list_all value_valid vs \<Longrightarrow> length (concat (map value_wire vs)) \<le> n \<Longrightarrow>
      \<exists>c'. take_result idEndRows (concat (map value_wire vs)) c = Inr (told (dest c) (rows c @ map shown vs), c') \<and>
        ready n c' \<and> rows c' = [] \<and> dest c' = dest c"
begin

lemma rows_arrive:
  assumes E: "reliable E" and new: "uq_inv new" "content new = []" "fits new (n + 10)"
    and c: "ready n c" "rows c = []" "known (dest c)"
    and vs: "list_all value_valid vs" "length (concat (map value_wire vs)) \<le> n"
  shows "\<exists>calls' ms c'. SendRows E new vs calls = Inr (True, calls') \<and> results calls' = results calls @ ms \<and>
    receive take_result ms c = Inr (told (dest c) (map shown vs), c') \<and>
    ready n c' \<and> rows c' = [] \<and> dest c' = dest c"
proof -
  let ?N = "length (concat (map value_wire vs))"
  have f: "fits new (?N + 10)" by (rule fits_mono [OF new(3)]) (use vs(2) in simp)
  obtain segs pend sb calls1 where s: "SendRows_loop E new new vs calls = Inr (True, sb, calls1)"
    "results calls1 = results calls @ concat (map seg_messages segs)" "vs = concat (map seg_values segs) @ pend"
    "list_all (seg_ok ?N) segs" "uq_inv sb" "content sb = concat (map value_wire pend)"
    using SendRows_loop_reliable [OF E new(1,2,1), of "[]" vs calls] new(2) vs(1) f by auto
  have so: "list_all (seg_ok n) segs" using s(4) vs(2) by (auto simp: list_all_iff seg_ok_def)
  have p: "list_all value_valid pend" "length (concat (map value_wire pend)) \<le> n"
    using vs unfolding s(3) by simp_all
  have "n < 4294967292" using new(3) by (simp add: fits_def max32_def)
  from segments_arrive [OF c(1) so this] obtain c1 where
    c1: "receive take_result (concat (map seg_messages segs)) c = Inr ([], c1)" "ready n c1"
    "rows c1 = map shown (concat (map seg_values segs))" "dest c1 = dest c" using c(2) by auto
  from rows_end [OF c1(2) _ p] c1(3,4) c(3) s(3) obtain c2 where
    c2: "take_result idEndRows (concat (map value_wire pend)) c1 = Inr (told (dest c) (map shown vs), c2)"
    "ready n c2" "rows c2 = []" "dest c2 = dest c"
    by auto
  have "result_sent (length (content sb))" using fits_sent [OF new(3)] p(2) s(6) by simp
  then have "SendRows E new vs calls = Inr (True, calls1 @ [Send_result idEndRows (content sb)])"
    using s(1) SendResult_buffer_reliable [OF E s(5)] by (simp add: SendRows_def)
  moreover have "results (calls1 @ [Send_result idEndRows (content sb)]) =
      results calls @ concat (map seg_messages segs) @ [(idEndRows, concat (map value_wire pend))]"
    using s(2,6) by simp
  moreover have "receive take_result (concat (map seg_messages segs) @ [(idEndRows, concat (map value_wire pend))]) c =
      Inr (told (dest c) (map shown vs), c2)"
    using receive_append [OF c1(1)] c2(1) by simp
  ultimately show ?thesis using c2(2-4) by blast
qed

lemma batches_arrive:
  assumes E: "reliable E" and new: "uq_inv new" "content new = []" "fits new (n + 10)"
  shows "ready n c \<Longrightarrow> rows c = [] \<Longrightarrow> known (dest c) \<Longrightarrow>
    list_all (\<lambda>vs. list_all value_valid vs \<and> length (concat (map value_wire vs)) \<le> n) vss \<Longrightarrow>
    \<exists>calls' ms c'. send_batches E new vss calls = Inr (True, calls') \<and> results calls' = results calls @ ms \<and>
      receive take_result ms c = Inr (concat (map (\<lambda>vs. told (dest c) (map shown vs)) vss), c') \<and>
      ready n c' \<and> rows c' = [] \<and> dest c' = dest c"
proof (induction vss arbitrary: c calls)
  case Nil
  then show ?case by (intro exI [of _ calls] exI [of _ "[]"]) auto
next
  case (Cons vs vss)
  then obtain calls1 ms1 c1 where s: "SendRows E new vs calls = Inr (True, calls1)" "results calls1 = results calls @ ms1"
    "receive take_result ms1 c = Inr (told (dest c) (map shown vs), c1)" "ready n c1"
    "rows c1 = []" "dest c1 = dest c"
    using rows_arrive [OF E new Cons.prems(1-3), of vs calls] by auto
  obtain calls2 ms2 c2 where t: "send_batches E new vss calls1 = Inr (True, calls2)" "results calls2 = results calls1 @ ms2"
    "receive take_result ms2 c1 = Inr (concat (map (\<lambda>vs. told (dest c) (map shown vs)) vss), c2)"
    "ready n c2" "rows c2 = []" "dest c2 = dest c"
    using Cons.IH [OF s(4,5), of calls1] s(6) Cons.prems(3,4) by auto
  then show ?case using s receive_append [OF s(3), of ms2]
    by (intro exI [of _ calls2] exI [of _ "ms1 @ ms2"] exI [of _ c2]) simp
qed

end

text \<open>The handler of a cache, for messages that arrive in the empty buffer \<open>mc\<close>.\<close>

definition ch_take ::
  "text_conv \<Rightarrow> uqueue \<Rightarrow> 16 word \<Rightarrow> byte list \<Rightarrow> cached_client \<Rightarrow> fault + (db_event list \<times> cached_client)"
where
  "ch_take C mc reqId bs c =
     bindr (push_bytes mc bs) (\<lambda>mc. bindr (ch_OnResultReturned C True reqId mc c) (\<lambda>(evs, _, c). Inr (evs, c)))"

text \<open>An empty buffer for messages, and a handler that can take values of \<open>n\<close> bytes.\<close>

definition message_buffer :: "uqueue \<Rightarrow> nat \<Rightarrow> bool" where
  "message_buffer mc n \<longleftrightarrow> uq_inv mc \<and> plain_mode mc \<and> content mc = [] \<and> fits mc n"

definition blob_ready :: "bool \<Rightarrow> uqueue \<Rightarrow> nat \<Rightarrow> 'a row_reader_scheme \<Rightarrow> bool" where
  "blob_ready w mc n c \<longleftrightarrow>
     message_buffer mc (n + 4) \<and> uq_inv (m_Blob c) \<and> reader_mode w (m_Blob c) \<and> fits (m_Blob c) n"

lemma message_arrives:
  assumes "message_buffer mc n" "length bs \<le> n"
  obtains mc' where "push_bytes mc bs = Inr mc'" "uq_inv mc'" "reader_mode False mc'" "content mc' = bs"
proof -
  have "room mc (length bs)"
    using assms by (intro fits_room [of mc n mc]) (auto simp: message_buffer_def)
  from Push_ok [OF _ this] assms(1) obtain mc' where "Push mc (Some (map Some bs)) = Inr mc'" "uq_inv mc'"
    "same_settings mc mc'" "content mc' = bs" by (auto simp: message_buffer_def)
  with that [of mc'] reader_mode_settings [of mc mc' False] assms(1) show thesis
    by (simp add: push_bytes_def message_buffer_def plain_mode_reader)
qed

lemma mode_update [simp]: "uq_inv (q\<lparr>m_8ToW := b\<rparr>) = uq_inv q" "content (q\<lparr>m_8ToW := b\<rparr>) = content q"
  by (simp_all add: uq_inv_def content_def)

lemma length_wires: "2 * length vs \<le> length (concat (map value_wire vs))"
proof (induction vs)
  case (Cons v vs)
  with value_wire_length [of v] show ?case by simp
qed simp

lemma read_values_loop_ok:
  "uq_inv q \<Longrightarrow> reader_mode w q \<Longrightarrow> list_all value_valid vs \<Longrightarrow> content q = concat (map value_wire vs) \<Longrightarrow>
   length vs < fuel \<Longrightarrow>
   \<exists>q'. read_values_loop C True fuel q = Inr (map (arrives_as C w) vs, q') \<and> uq_inv q' \<and> m_nSize q' = 0"
proof (induction vs arbitrary: q fuel)
  case Nil
  then obtain f where "fuel = Suc f" by (cases fuel) auto
  with Nil uq_invD(1) [OF Nil.prems(1)] show ?case by simp
next
  case (Cons v vs)
  then obtain f where f: "fuel = Suc f" "length vs < f" by (cases fuel) auto
  have "content q = value_wire v @ concat (map value_wire vs)" using Cons.prems(4) by simp
  from get_CDBVariant_ok [OF Cons.prems(1,2) _ this, of C] Cons.prems(3) obtain q1 where
    q1: "get_CDBVariant C True q = Inr (arrives_as C w v, q1)" "uq_inv q1" "same_settings q q1"
    "content q1 = concat (map value_wire vs)" by auto
  have "m_nSize q \<noteq> 0"
    using uq_invD(1) [OF Cons.prems(1)] Cons.prems(4) value_wire_length [of v] by auto
  with Cons.IH [OF q1(2) reader_mode_settings [OF q1(3) Cons.prems(2)] _ q1(4) f(2)] Cons.prems(3) q1(1) f(1)
  show ?case by auto
qed

lemma read_rows_ok:
  assumes "uq_inv mc" "reader_mode False mc" "list_all value_valid vs" "content mc = concat (map value_wire vs)"
  shows "\<exists>mc'. read_rows C True w mc = Inr (map (arrives_as C w) vs, mc')"
proof -
  let ?mc = "if w then mc\<lparr>m_8ToW := True\<rparr> else mc"
  have mc: "uq_inv ?mc" "reader_mode w ?mc" "content ?mc = concat (map value_wire vs)"
    using assms by (auto simp: reader_mode_def)
  have "length vs < m_nSize ?mc + 1" using uq_invD(1) [OF mc(1)] mc(3) length_wires [of vs] by simp
  from read_values_loop_ok [OF mc(1,2) assms(3) mc(3) this, of C] show ?thesis
    by (auto simp: read_rows_def Let_def)
qed

lemma on_transferring_ok:
  fixes c :: "'a row_reader_scheme"
  assumes "uq_inv mc" "reader_mode False mc" "list_all value_valid vs" "content mc = concat (map value_wire vs)"
    and "reader_mode w (m_Blob c)"
  shows "\<exists>mc'. on_transferring C True mc c = Inr (mc', c\<lparr>m_vData := m_vData c @ map (arrives_as C w) vs\<rparr>)"
proof (cases "m_nSize mc = 0")
  case True
  then have "length (concat (map value_wire vs)) = 0"
    using uq_invD(1) [OF assms(1)] unfolding assms(4) by simp
  with length_wires [of vs] have "length vs = 0" by linarith
  then have "vs = []" by simp
  with True show ?thesis by (simp add: on_transferring_def)
next
  case False
  have "m_8ToW (m_Blob c) = w" using assms(5) by (simp add: reader_mode_def)
  with read_rows_ok [OF assms(1-4), of C w] False show ?thesis by (auto simp: on_transferring_def)
qed

lemma push_all_ok:
  assumes "uq_inv blob" "uq_inv mc" "fits blob n" "length (content blob) + length (content mc) \<le> n"
  shows "\<exists>blob' mc'. push_all blob mc = Inr (blob', mc') \<and> uq_inv blob' \<and> same_settings blob blob' \<and>
    content blob' = content blob @ content mc"
proof -
  have "mem_read (m_pBuffer mc) (GetBuffer mc 0) (m_nSize mc) = Inr (map Some (content mc))"
    using take_front_ok(1) [OF assms(2), of "content mc" "[]"] uq_invD(1) [OF assms(2)] by simp
  moreover have "room blob (length (content mc))" by (rule fits_room [OF assms(3,1) _ assms(4)]) simp
  ultimately show ?thesis
    using Push_ok [OF assms(1), of "content mc"] SetSize_ok [OF assms(2), of 0 True] by (auto simp: push_all_def)
qed

lemma on_start_blob_ok:
  fixes c :: "'a row_reader_scheme"
  assumes "uq_inv mc" "content mc = le_bytes 4 k @ bs" "k < 4294967296" "uq_inv (m_Blob c)" "fits (m_Blob c) n"
    and "length bs \<le> n"
  shows "\<exists>mc' blob. on_start_blob mc c = Inr (mc', c\<lparr>m_Blob := blob\<rparr>) \<and> uq_inv blob \<and>
    same_settings (m_Blob c) blob \<and> content blob = bs"
proof -
  obtain b0 where b0: "SetSize (m_Blob c) 0 True = Inr b0" "uq_inv b0" "same_settings (m_Blob c) b0" "content b0 = []"
    using SetSize_ok [OF assms(4), of 0 True] by auto
  have "k < 256 ^ 4" using assms(3) by simp
  from get_pod_ok [OF assms(1) this assms(2)] obtain mc1 where mc1: "get_pod 4 mc = Inr (k, mc1)" "uq_inv mc1"
    "content mc1 = bs" by auto
  have "k \<le> max32" using assms(3) by (simp add: max32_def)
  with ReallocBuffer_ok [OF b0(2)] obtain br where "ReallocBuffer b0 k = Inr br" "uq_inv br" "same_settings b0 br"
    "content br = []" using b0(4) by fastforce
  with b0 same_settings_trans obtain b1 where b1: "(if k \<noteq> UQUEUE_END_POSTION \<and> k > m_nMaxBuffer b0 then ReallocBuffer b0 k else Inr b0) = Inr b1"
    "uq_inv b1" "same_settings (m_Blob c) b1" "content b1 = []"
    by (metis (full_types))
  have "fits b1 n" using assms(5) fits_settings [OF b1(3)] by simp
  from push_all_ok [OF b1(2) mc1(2) this] b1 mc1 assms(6) obtain b2 mc2 where
    "push_all b1 mc1 = Inr (b2, mc2)" "uq_inv b2" "same_settings b1 b2" "content b2 = bs" by auto
  then show ?thesis
    using b0(1) mc1(1) b1(1) same_settings_trans [OF b1(3)] by (auto simp: on_start_blob_def)
qed

lemma on_chunk_ok:
  fixes c :: "'a row_reader_scheme"
  assumes "uq_inv mc" "uq_inv (m_Blob c)" "fits (m_Blob c) n" "length (content (m_Blob c)) + length (content mc) \<le> n"
  shows "\<exists>mc' blob. on_chunk mc c = Inr (mc', c\<lparr>m_Blob := blob\<rparr>) \<and> uq_inv blob \<and>
    same_settings (m_Blob c) blob \<and> content blob = content (m_Blob c) @ content mc"
  using push_all_ok [OF assms(2,1,3,4)] by (auto simp: on_chunk_def)

lemma on_end_blob_ok:
  fixes c :: "'a row_reader_scheme"
  assumes "uq_inv mc" "uq_inv (m_Blob c)" "fits (m_Blob c) n" "reader_mode w (m_Blob c)"
    and v: "value_valid v" "is_large v" "content (m_Blob c) @ content mc = value_wire v" "length (value_wire v) \<le> n"
  shows "\<exists>mc' blob. on_end_blob C True mc c = Inr (mc', c\<lparr>m_Blob := blob, m_vData := m_vData c @ [arrives_as C w v]\<rparr>) \<and>
    uq_inv blob \<and> same_settings (m_Blob c) blob"
proof -
  have l: "length (content (m_Blob c)) + length (content mc) = length (value_wire v)"
    using arg_cong [OF v(3), of length] by simp
  then obtain b1 mc1 where b1: "push_all (m_Blob c) mc = Inr (b1, mc1)" "uq_inv b1" "same_settings (m_Blob c) b1"
    "content b1 = value_wire v"
    using push_all_ok [OF assms(2,1,3)] v by auto
  let ?h = "le_bytes 2 (variant_type (vt_data v))" and ?k = "length (large_part v)"
  have w: "value_wire v = ?h @ le_bytes 4 ?k @ large_part v" using is_large_wire [OF v(2,1)] by blast
  have "fix_blob_length b1 = Inr b1"
  proof -
    obtain pre where "uq_rep b1 pre (content b1)" using uq_inv_rep [OF b1(2)] by blast
    then have "holds (m_pBuffer b1) (m_nHeadPos b1) (?h @ le_bytes 4 ?k @ large_part v)"
      using uq_repD(10) b1(4) w by metis
    moreover have "6 \<le> m_nSize b1" using uq_invD(1) [OF b1(2)] b1(4) arg_cong [OF w, of length] by simp
    ultimately have "holds (m_pBuffer b1) (GetBuffer b1 2) (le_bytes 4 ?k)"
      by (auto simp: holds_append GetBuffer_def add.commute)
    then have "mem_read (m_pBuffer b1) (GetBuffer b1 2) 4 = Inr (map Some (le_bytes 4 ?k))"
      by (auto intro!: holds_read)
    moreover have k: "?k < BLOB_LENGTH_NOT_AVAILABLE" "?k < 256 ^ 4"
      using assms(3) v(4) arg_cong [OF w, of length] by (auto simp: fits_def max32_def BLOB_LENGTH_NOT_AVAILABLE_def)
    moreover have "le_value (le_bytes 4 ?k) = ?k" using k(2) by (rule le_value_le_bytes)
    ultimately show ?thesis by (simp add: fix_blob_length_def)
  qed
  moreover obtain b2 where b2: "get_CDBVariant C True b1 = Inr (arrives_as C w v, b2)" "uq_inv b2" "same_settings b1 b2"
    "content b2 = []"
    using get_CDBVariant_ok [OF b1(2) reader_mode_settings [OF b1(3) assms(4)] v(1), of "[]" C] b1(4) by auto
  moreover have "m_nSize b2 = 0" using uq_invD(1) [OF b2(2)] b2(4) by simp
  moreover have "\<not> (m_nSize mc = 0 \<and> m_nSize (m_Blob c) = 0)"
    using uq_invD(1) [OF assms(1)] uq_invD(1) [OF assms(2)] l value_wire_length [of v] by auto
  ultimately show ?thesis
    using b1(1) same_settings_trans [OF b1(3)] by (auto simp: on_end_blob_def)
qed

lemma blob_ready_update:
  assumes "blob_ready w mc n c" "uq_inv b" "same_settings (m_Blob c) b"
  shows "blob_ready w mc n (c\<lparr>m_Blob := b, m_vData := vs\<rparr>)" "blob_ready w mc n (c\<lparr>m_Blob := b\<rparr>)"
    "blob_ready w mc n (c\<lparr>m_vData := vs\<rparr>)"
  using assms reader_mode_settings [OF assms(3), of w] fits_settings [OF assms(3), of n] by (simp_all add: blob_ready_def)

lemma blob_readyD:
  assumes "blob_ready w mc n c"
  shows "uq_inv (m_Blob c)" "fits (m_Blob c) n" "reader_mode w (m_Blob c)" "message_buffer mc (n + 4)"
  using assms by (simp_all add: blob_ready_def)

lemma ids_differ [simp]:
  "idTransferring \<noteq> idRowsetHeader" "idTransferring \<noteq> idBeginRows" "idStartBLOB \<noteq> idRowsetHeader"
  "idStartBLOB \<noteq> idBeginRows" "idStartBLOB \<noteq> idTransferring" "idStartBLOB \<noteq> idEndRows"
  "idChunk \<noteq> idRowsetHeader" "idChunk \<noteq> idBeginRows" "idChunk \<noteq> idTransferring" "idChunk \<noteq> idEndRows"
  "idChunk \<noteq> idStartBLOB" "idEndBLOB \<noteq> idRowsetHeader" "idEndBLOB \<noteq> idBeginRows" "idEndBLOB \<noteq> idTransferring"
  "idEndBLOB \<noteq> idEndRows" "idEndBLOB \<noteq> idStartBLOB" "idEndBLOB \<noteq> idChunk" "idEndRows \<noteq> idRowsetHeader"
  "idEndRows \<noteq> idBeginRows" "idEndRows \<noteq> idTransferring" "idBeginRows \<noteq> idRowsetHeader"
  by (simp_all add: id_defs)

lemma ch_on_transferring:
  "ch_OnResultReturned C nd idTransferring mc c = bindr (on_transferring C nd mc c) (\<lambda>(mc, c). Inr ([], mc, c))"
  "ch_OnResultReturned C nd idStartBLOB mc c = bindr (on_start_blob mc c) (\<lambda>(mc, c). Inr ([], mc, c))"
  "ch_OnResultReturned C nd idChunk mc c = bindr (on_chunk mc c) (\<lambda>(mc, c). Inr ([], mc, c))"
  "ch_OnResultReturned C nd idEndBLOB mc c = bindr (on_end_blob C nd mc c) (\<lambda>(mc, c). Inr ([], mc, c))"
  by (simp_all add: ch_OnResultReturned_def)

interpretation cached_rows: row_receiver "ch_take C mc" m_vData "\<lambda>c. content (m_Blob c)" "blob_ready w mc"
  "\<lambda>c. (m_indexRowset c, m_mapRowset c)" "arrives_as C w" for C mc w
proof (unfold_locales, goal_cases)
  case (1 n c vs)
  note r = blob_readyD [OF 1(1)]
  have "length (concat (map value_wire vs)) \<le> n + 4" using 1(3) by simp
  from message_arrives [OF r(4) this] obtain mc1 where mc1: "push_bytes mc (concat (map value_wire vs)) = Inr mc1"
    "uq_inv mc1" "reader_mode False mc1" "content mc1 = concat (map value_wire vs)" .
  from on_transferring_ok [OF mc1(2,3) 1(2) mc1(4) r(3), of C] mc1(1) blob_ready_update(3) [OF 1(1) r(1)]
  show ?case by (auto simp: ch_take_def ch_on_transferring)
next
  case (2 n c bs k)
  note r = blob_readyD [OF 2(1)]
  have "length (le_bytes 4 k @ bs) \<le> n + 4" using 2(2) by simp
  from message_arrives [OF r(4) this] obtain mc1 where mc1: "push_bytes mc (le_bytes 4 k @ bs) = Inr mc1"
    "uq_inv mc1" "reader_mode False mc1" "content mc1 = le_bytes 4 k @ bs" .
  from on_start_blob_ok [OF mc1(2,4) 2(3) r(1,2) 2(2)] mc1(1) blob_ready_update(2) [OF 2(1)]
  show ?case by (auto simp: ch_take_def ch_on_transferring)
next
  case (3 n c bs)
  note r = blob_readyD [OF 3(1)]
  have "length bs \<le> n + 4" using 3(2) by simp
  from message_arrives [OF r(4) this] obtain mc1 where mc1: "push_bytes mc bs = Inr mc1"
    "uq_inv mc1" "reader_mode False mc1" "content mc1 = bs" .
  from on_chunk_ok [OF mc1(2) r(1,2)] 3(2) mc1(1,4) blob_ready_update(2) [OF 3(1)]
  show ?case by (auto simp: ch_take_def ch_on_transferring)
next
  case (4 n c v bs)
  note r = blob_readyD [OF 4(1)]
  have "length (content (m_Blob c)) + length bs = length (value_wire v)"
    using arg_cong [OF 4(4), of length] by simp
  then have "length bs \<le> n + 4" using 4(5) by linarith
  from message_arrives [OF r(4) this] obtain mc1 where mc1: "push_bytes mc bs = Inr mc1"
    "uq_inv mc1" "reader_mode False mc1" "content mc1 = bs" .
  from on_end_blob_ok [OF mc1(2) r(1-3) 4(2,3) _ 4(5), of C] 4(4) mc1(1,4) blob_ready_update(1) [OF 4(1)]
  show ?case by (auto simp: ch_take_def ch_on_transferring)
qed

text \<open>The header, and the end of a run of rows.\<close>

definition header_wire :: "CDBColumnInfo list \<Rightarrow> nat \<Rightarrow> byte list" where
  "header_wire meta index = columns_wire meta @ le_bytes 8 index"

definition header_event :: "(nat option \<times> nat option) option \<Rightarrow> CDBColumnInfo list \<Rightarrow> db_event list" where
  "header_event p meta = (case p of Some (Some rh, _) \<Rightarrow> [Ev_header rh meta] | _ \<Rightarrow> [])"

definition rows_event :: "(nat option \<times> nat option) option \<Rightarrow> CDBVariant list \<Rightarrow> db_event list" where
  "rows_event p vs = (case p of Some (_, Some row) \<Rightarrow> if vs = [] then [] else [Ev_rows row vs] | _ \<Rightarrow> [])"

lemma SendMeta_reliable:
  assumes "reliable E" "uq_inv sb" "content sb = []" "array_valid column_ok meta" "fits sb (length (header_wire meta index))"
  shows "\<exists>calls'. SendMeta E sb meta index calls = Inr (True, calls') \<and>
    results calls' = results calls @ [(idRowsetHeader, header_wire meta index)]"
proof -
  have r: "room sb (length (columns_wire meta))"
    by (rule fits_room [OF assms(5,2)]) (simp_all add: assms(3) header_wire_def)
  obtain q1 where q1: "put_columns sb meta = Inr q1" "uq_inv q1" "same_settings sb q1" "content q1 = columns_wire meta"
    using columns.put_ok [OF assms(2,4) r] assms(3) by auto
  have "room q1 8" by (rule fits_room [OF assms(5) q1(2,3)]) (simp add: q1(4) header_wire_def)
  from put_pod_ok [OF q1(2) this, of index] q1 obtain q2 where q2: "put_pod 8 q1 index = Inr q2" "uq_inv q2"
    "content q2 = header_wire meta index" by (auto simp: header_wire_def)
  have "result_sent (length (header_wire meta index))" using fits_sent [OF assms(5)] by simp
  with q1(1) q2 SendResult_buffer_reliable [OF assms(1) q2(2)] show ?thesis by (auto simp: SendMeta_def)
qed

lemma clear_rows_ok:
  fixes c :: "'a row_reader_scheme"
  assumes "uq_inv (m_Blob c)"
  shows "\<exists>b. clear_rows c = Inr (c\<lparr>m_Blob := b, m_vData := []\<rparr>) \<and> uq_inv b \<and> same_settings (m_Blob c) b"
  using SetSize_ok [OF assms, of 0 True] by (auto simp: clear_rows_def)

lemma shrink_blob_ok:
  fixes c :: "'a row_reader_scheme"
  assumes "uq_inv (m_Blob c)"
  shows "\<exists>b. shrink_blob c = Inr (c\<lparr>m_Blob := b\<rparr>) \<and> uq_inv b \<and> same_settings (m_Blob c) b"
proof -
  obtain b0 where b0: "SetSize (m_Blob c) 0 True = Inr b0" "uq_inv b0" "same_settings (m_Blob c) b0"
    using SetSize_ok [OF assms, of 0 True] by auto
  obtain b1 where "ReallocBuffer b0 ONE_MEGA_BYTES = Inr b1" "uq_inv b1" "same_settings b0 b1"
    using ReallocBuffer_ok [OF b0(2), of ONE_MEGA_BYTES] by (auto simp: ONE_MEGA_BYTES_def max32_def)
  with b0 same_settings_trans show ?thesis by (auto simp: shrink_blob_def)
qed

lemma header_read:
  assumes "uq_inv mc" "content mc = header_wire meta index @ rest" "array_valid column_ok meta" "index < 256 ^ 8"
  shows "\<exists>mc1 mc2. get_columns mc = Inr (meta, mc1) \<and> get_pod 8 mc1 = Inr (index, mc2) \<and> uq_inv mc2 \<and> content mc2 = rest"
proof -
  have "content mc = columns_wire meta @ (le_bytes 8 index @ rest)" using assms(2) by (simp add: header_wire_def)
  from columns.get_ok [OF assms(1) _ assms(3) this] obtain mc1 where
    "get_columns mc = Inr (meta, mc1)" "uq_inv mc1" "content mc1 = le_bytes 8 index @ rest" by auto
  with get_pod_ok [OF this(2) assms(4)] show ?thesis by auto
qed

lemma ch_header_arrives:
  assumes "blob_ready w mc n c" "length (header_wire meta index) \<le> n" "array_valid column_ok meta" "index < 256 ^ 8"
  shows "\<exists>c'. ch_take C mc idRowsetHeader (header_wire meta index) c = Inr (header_event (m_mapRowset c index) meta, c') \<and>
    blob_ready w mc n c' \<and> m_vData c' = [] \<and> m_indexRowset c' = index \<and>
    m_mapRowset c' = (m_mapRowset c)(index \<mapsto> (case m_mapRowset c index of None \<Rightarrow> (None, None) | Some p \<Rightarrow> p))"
proof -
  note r = blob_readyD [OF assms(1)]
  have "length (header_wire meta index) \<le> n + 4" using assms(2) by simp
  from message_arrives [OF r(4) this] obtain mc1 where mc1: "push_bytes mc (header_wire meta index) = Inr mc1"
    "uq_inv mc1" "reader_mode False mc1" "content mc1 = header_wire meta index" .
  then have "content mc1 = header_wire meta index @ []" by simp
  from header_read [OF mc1(2) this assms(3,4)] obtain mc2 mc3 where
    g: "get_columns mc1 = Inr (meta, mc2)" "get_pod 8 mc2 = Inr (index, mc3)" by blast
  obtain b where b: "shrink_blob c = Inr (c\<lparr>m_Blob := b\<rparr>)" "uq_inv b" "same_settings (m_Blob c) b"
    using shrink_blob_ok [OF r(1)] by blast
  define p where "p = (case m_mapRowset c index of None \<Rightarrow> (None, None) | Some p \<Rightarrow> p)"
  define c1 where "c1 = c\<lparr>m_Blob := b, m_vData := [], m_indexRowset := index, m_mapRowset := (m_mapRowset c)(index \<mapsto> p)\<rparr>"
  have h: "ch_on_header mc1 c = Inr (header_event (m_mapRowset c index) meta, mc3, c1)"
    using b(1) g by (auto simp: ch_on_header_def rowset_entry_def header_event_def p_def c1_def Let_def split: option.splits)
  obtain b2 where b2: "clear_rows c1 = Inr (c1\<lparr>m_Blob := b2, m_vData := []\<rparr>)" "uq_inv b2" "same_settings (m_Blob c1) b2"
    using clear_rows_ok [of c1] b(2) by (auto simp: c1_def)
  have "blob_ready w mc n c1" using blob_ready_update(1) [OF assms(1) b(2,3), of "[]"] by (simp add: blob_ready_def c1_def)
  from blob_ready_update(1) [OF this b2(2,3), of "[]"] mc1(1) h b2(1) show ?thesis
    by (auto simp: ch_take_def ch_OnResultReturned_def c1_def p_def)
qed

lemma ch_rows_end:
  assumes "blob_ready w mc n c" "list_all value_valid vs" "length (concat (map value_wire vs)) \<le> n"
  shows "\<exists>c'. ch_take C mc idEndRows (concat (map value_wire vs)) c =
      Inr (rows_event (m_mapRowset c (m_indexRowset c)) (m_vData c @ map (arrives_as C w) vs), c') \<and>
    blob_ready w mc n c' \<and> m_vData c' = [] \<and> m_indexRowset c' = m_indexRowset c \<and>
    (m_mapRowset c (m_indexRowset c) \<noteq> None \<longrightarrow> m_mapRowset c' = m_mapRowset c)"
proof -
  note r = blob_readyD [OF assms(1)]
  have "length (concat (map value_wire vs)) \<le> n + 4" using assms(3) by simp
  from message_arrives [OF r(4) this] obtain mc1 where mc1: "push_bytes mc (concat (map value_wire vs)) = Inr mc1"
    "uq_inv mc1" "reader_mode False mc1" "content mc1 = concat (map value_wire vs)" .
  have w: "m_8ToW (m_Blob c) = w" using r(3) by (simp add: reader_mode_def)
  obtain mc2 where mc2: "read_rows C True w mc1 = Inr (map (arrives_as C w) vs, mc2)"
    using read_rows_ok [OF mc1(2,3) assms(2) mc1(4)] by blast
  have nz: "m_nSize mc1 = 0 \<longleftrightarrow> vs = []"
  proof -
    have "m_nSize mc1 = length (concat (map value_wire vs))" using uq_invD(1) [OF mc1(2)] mc1(4) by simp
    then have "2 * length vs \<le> m_nSize mc1" "vs = [] \<Longrightarrow> m_nSize mc1 = 0"
      using length_wires [of vs] by (simp_all only:) simp_all
    then show ?thesis by (cases vs) auto
  qed
  have f: "(m_mapRowset c)(m_indexRowset c \<mapsto> p) = m_mapRowset c" if "m_mapRowset c (m_indexRowset c) = Some p" for p
    using that by auto
  show ?thesis
    using mc1(1) mc2 nz w blob_ready_update(3) [OF assms(1) r(1), of "[]"] assms(1)
    by (auto simp: ch_take_def ch_OnResultReturned_def ch_on_end_rows_def rowset_entry_def rows_event_def
        blob_ready_def f Let_def split: option.splits)
qed

interpretation cached: rowset_receiver "ch_take C mc" m_vData "\<lambda>c. content (m_Blob c)" "blob_ready w mc"
  "\<lambda>c. (m_indexRowset c, m_mapRowset c)" "arrives_as C w" "\<lambda>(i, m) vs. rows_event (m i) vs" "\<lambda>(i, m). m i \<noteq> None" for C mc w
proof (unfold_locales, goal_cases)
  case (1 n c vs)
  then show ?case using ch_rows_end [OF 1(1,3,4), of C] by auto
qed

section \<open>From the rows of a server to the callbacks of a client\<close>

text \<open>
  C14: A rowset that a server sends - the description of its columns, then rows in any number of calls, with
  strings and bytes of any size that go in chunks, over any pattern of batching - reaches the two callbacks of
  the request it belongs to: the columns once as they were, then the values of each call in their order, where
  texts of bytes have become strings if the client wants that.
\<close>

theorem rowset_reaches_callbacks:
  assumes "reliable E" "uq_inv new" "content new = []" "fits new (n + 10)"
    and "blob_ready w mc n c" "m_mapRowset c index = Some p" "index < 256 ^ 8"
    and "array_valid column_ok meta" "length (header_wire meta index) \<le> n"
    and "list_all (\<lambda>vs. list_all value_valid vs \<and> length (concat (map value_wire vs)) \<le> n) vss"
  shows "\<exists>calls1 calls2 ms c'. SendMeta E new meta index calls = Inr (True, calls1) \<and>
    send_batches E new vss calls1 = Inr (True, calls2) \<and> results calls2 = results calls @ ms \<and>
    receive (ch_take C mc) ms c =
      Inr (header_event (Some p) meta @ concat (map (\<lambda>vs. rows_event (Some p) (map (arrives_as C w) vs)) vss), c') \<and>
    m_vData c' = []"
proof -
  have f: "fits new (length (header_wire meta index))" by (rule fits_mono [OF assms(4)]) (use assms(9) in simp)
  obtain calls1 where m: "SendMeta E new meta index calls = Inr (True, calls1)"
    "results calls1 = results calls @ [(idRowsetHeader, header_wire meta index)]"
    using SendMeta_reliable [OF assms(1-3,8) f] by blast
  obtain c1 where c1: "ch_take C mc idRowsetHeader (header_wire meta index) c = Inr (header_event (Some p) meta, c1)"
    "blob_ready w mc n c1" "m_vData c1 = []" "m_mapRowset c1 (m_indexRowset c1) = Some p"
    using ch_header_arrives [OF assms(5,9,8,7), of C] assms(6) by auto
  obtain calls2 ms c2 where b: "send_batches E new vss calls1 = Inr (True, calls2)" "results calls2 = results calls1 @ ms"
    "receive (ch_take C mc) ms c1 = Inr (concat (map (\<lambda>vs. rows_event (Some p) (map (arrives_as C w) vs)) vss), c2)"
    "m_vData c2 = []"
    using cached.batches_arrive [OF assms(1-4) c1(2,3) _ assms(10), of calls1 C] c1(4) by auto
  show ?thesis
    using m b c1(1) by (intro exI [of _ calls1] exI [of _ calls2]
        exI [of _ "(idRowsetHeader, header_wire meta index) # ms"] exI [of _ c2]) simp
qed

text \<open>A core that sends everything and always has a batch; a table with a large text in it.\<close>

definition good_peer :: peer_env where
  "good_peer = \<lparr>core_ret = (\<lambda>calls. case last calls of Send_result _ bs \<Rightarrow> length bs | _ \<Rightarrow> 0), core_batched = (\<lambda>_. 20000)\<rparr>"

definition sample_reader :: cached_client where
  "sample_reader = (CCachedBaseHandler_new small_queue)\<lparr>m_mapRowset := [5 \<mapsto> (Some 1, Some 2)]\<rparr>"

definition sample_column :: CDBColumnInfo where
  "sample_column = \<lparr>DBPath = [100], TablePath = [116], DisplayName = [105], OriginalName = [105], DeclaredType = [],
     Collation = [], ColumnSize = 4, Flags = 4, DataType = VT_I4, Precision = 0, Scale = 0\<rparr>"

definition sample_rows :: "CDBVariant list list" where
  "sample_rows = [[db_value (Scalar VT_I4 (le_bytes 4 7)), db_value (Fixed_array VT_UI1 40000 (replicate 40000 1))],
     [db_value (Fixed_array VT_I1 2 [104, 105]), db_guid (replicate 16 3)]]"

lemma small_queue_fits: "fits small_queue 100000"
  by (simp add: fits_def small_queue_def CUQueue_new_def max32_def)

lemma sample_reader_ready: "blob_ready True small_queue 90000 sample_reader"
  using small_queue_ok(1-3) small_queue_fits
  by (simp add: blob_ready_def sample_reader_def CCachedBaseHandler_new_def message_buffer_def reader_mode_def
      plain_mode_def fits_def)

lemma sample_rows_ok:
  "list_all (\<lambda>vs. list_all value_valid vs \<and> length (concat (map value_wire vs)) \<le> 90000) sample_rows"
  by (simp add: sample_rows_def db_value_def db_guid_def value_valid_def value_wire_def guid_bytes_def variant_wire_def
      scalar_width_def elem_width_def block_ok_def vt_defs sizeof_UUID_def)

lemma sample_column_ok: "array_valid column_ok [sample_column]" "length (header_wire [sample_column] 5) \<le> 90000"
  by (simp_all add: array_valid_def column_ok_def column_fields_def sample_column_def vt_defs UQUEUE_NULL_LENGTH_def
      max32_def header_wire_def columns_wire_def array_wire_def fields_wire_def)

lemma good_peer_reliable: "reliable good_peer"
  by (simp add: reliable_def good_peer_def)

theorem rowset_reaches_callbacks_witness:
  "\<exists>calls1 calls2 ms c'. SendMeta good_peer small_queue [sample_column] 5 [] = Inr (True, calls1) \<and>
    send_batches good_peer small_queue sample_rows calls1 = Inr (True, calls2) \<and> results calls2 = results [] @ ms \<and>
    receive (ch_take no_conv small_queue) ms sample_reader =
      Inr (header_event (Some (Some 1, Some 2)) [sample_column] @
        concat (map (\<lambda>vs. rows_event (Some (Some 1, Some 2)) (map (arrives_as no_conv True) vs)) sample_rows), c') \<and>
    m_vData c' = []"
proof (rule rowset_reaches_callbacks [OF good_peer_reliable small_queue_ok(1,3) _ sample_reader_ready _ _
      sample_column_ok sample_rows_ok])
  show "fits small_queue (90000 + 10)" by (rule fits_mono [OF small_queue_fits]) simp
qed (simp_all add: sample_reader_def)

section \<open>Any message\<close>

lemma pop_at_takes:
  assumes "uq_inv q" "n \<le> max32" "pop_at q n 0 = Inr (bs, q')"
  shows "uq_inv q' \<and> m_nSize q' + n = m_nSize q"
  using pop_bytes_cases [OF assms(1,2)]
proof (elim disjE exE conjE)
  fix bs' q1 assume c: "pop_bytes q n = Inr (bs', q1)" "length bs' = n" "uq_inv q1" "content q = bs' @ content q1"
  then show ?thesis
    using assms(3) uq_invD(1) [OF assms(1)] uq_invD(1) [OF c(3)] by (auto simp: pop_at_0)
qed (use assms(3) in \<open>simp add: pop_at_0\<close>)

lemma Pop_VARIANT_takes:
  assumes "uq_inv q" "m_nSize q < fuel" "Pop_VARIANT C nd fuel q 0 = Inr (v, t, q')"
  shows "uq_inv q' \<and> m_nSize q' < m_nSize q"
proof -
  from assms(2) obtain f where f: "fuel = Suc f" by (cases fuel) auto
  let ?pop = "\<lambda>q. Pop_VARIANT C nd f q 0"
  from assms(3) obtain bs q1 u k where q1: "pop_at q 2 0 = Inr (bs, q1)"
    and b: "Pop_VARIANT_body C nd ?pop (le_value bs) q1 0 = Inr (u, k, q')"
    unfolding f Pop_VARIANT.simps Pop_VARIANT_step_def by (auto simp: bindr_Inr_iff)
  have i: "uq_inv q1" "m_nSize q1 + 2 = m_nSize q" using pop_at_takes [OF assms(1) _ q1] by (auto simp: max32_def)
  have "sane q1 (Pop_VARIANT_body C nd ?pop (le_value bs) q1 0)"
    using assms(2) i unfolding f by (intro sane_body Pop_VARIANT_sane) auto
  with b have "uq_inv q'" "\<exists>used. content q1 = used @ content q'" by (auto simp: sane_def)
  then have "uq_inv q'" "m_nSize q' \<le> m_nSize q1" using uq_invD(1) [OF i(1)] uq_invD(1) by auto
  with i(2) show ?thesis by simp
qed

lemma get_CDBVariant_takes:
  assumes "uq_inv q"
  shows "get_CDBVariant C nd q \<noteq> Inl Out_Of_Fuel"
    and "get_CDBVariant C nd q = Inr (v, q') \<Longrightarrow> uq_inv q' \<and> m_nSize q' < m_nSize q"
proof -
  have s: "Pop_VARIANT C nd (m_nSize q + 1) q 0 \<noteq> Inl Out_Of_Fuel"
    using Pop_VARIANT_sane [OF assms, of "m_nSize q + 1" C nd] by auto
  have f: "read_front q 2 \<noteq> Inl Out_Of_Fuel"
    by (auto simp: read_front_def bindr_Inl_iff no_fuel_simps)
  show "get_CDBVariant C nd q \<noteq> Inl Out_Of_Fuel"
    using s f by (auto simp: get_CDBVariant_def get_VARIANT_def bindr_Inl_iff)
  show "uq_inv q' \<and> m_nSize q' < m_nSize q" if v: "get_CDBVariant C nd q = Inr (v, q')"
  proof -
    from v obtain u t where "Pop_VARIANT C nd (m_nSize q + 1) q 0 = Inr (u, t, q')"
      by (auto simp: get_CDBVariant_def get_VARIANT_def bindr_Inr_iff)
    from Pop_VARIANT_takes [OF assms _ this] show ?thesis by simp
  qed
qed

lemma read_values_loop_ends:
  "uq_inv q \<Longrightarrow> m_nSize q < fuel \<Longrightarrow>
   (case read_values_loop C nd fuel q of
      Inl e \<Rightarrow> e \<noteq> Out_Of_Fuel
    | Inr (vs, q') \<Rightarrow> uq_inv q' \<and> m_nSize q' = 0 \<and> length vs \<le> m_nSize q)"
proof (induction fuel arbitrary: q)
  case (Suc f)
  show ?case
  proof (cases "m_nSize q = 0")
    case False
    show ?thesis
    proof (cases "get_CDBVariant C nd q")
      case (Inl e)
      then show ?thesis using False get_CDBVariant_takes(1) [OF Suc.prems(1), of C nd] by auto
    next
      case (Inr x)
      then obtain v q1 where x: "get_CDBVariant C nd q = Inr (v, q1)" by (cases x) auto
      note t = get_CDBVariant_takes(2) [OF Suc.prems(1) x]
      have "m_nSize q1 < f" using t Suc.prems(2) by simp
      from Suc.IH [OF _ this] t False show ?thesis
        by (cases "read_values_loop C nd f q1") (auto simp: x split: sum.splits)
    qed
  qed (use Suc.prems in simp)
qed simp

text \<open>
  Reading the rows of a message ends for any bytes the message holds, a hostile sender's included: the
  bound of the loop is never met, and when the reader accepts the message it has consumed every byte of it
  and there are at most as many values as the message has bytes.
\<close>

theorem read_rows_ends:
  assumes "uq_inv q"
  shows "case read_rows C nd utf8 q of
           Inl e \<Rightarrow> e \<noteq> Out_Of_Fuel
         | Inr (vs, q') \<Rightarrow> uq_inv q' \<and> m_nSize q' = 0 \<and> length vs \<le> m_nSize q"
proof -
  let ?q = "if utf8 then q\<lparr>m_8ToW := True\<rparr> else q"
  have i: "uq_inv ?q" "m_nSize ?q = m_nSize q" using assms by (auto simp: uq_inv_def)
  from read_values_loop_ends [OF i(1), of "m_nSize q + 1" C nd] i(2) show ?thesis
    by (cases "read_values_loop C nd (m_nSize q + 1) ?q")
       (auto simp: read_rows_def Let_def require_def uq_inv_def split: sum.splits if_splits)
qed

theorem read_rows_ends_witness:
  "\<exists>q. content q = [12, 32, 255, 255, 255, 127] \<and>
     (case read_rows no_conv False True q of
        Inl e \<Rightarrow> e \<noteq> Out_Of_Fuel
      | Inr (vs, q') \<Rightarrow> uq_inv q' \<and> m_nSize q' = 0 \<and> length vs \<le> m_nSize q)"
proof -
  obtain q where "appended small_queue [12, 32, 255, 255, 255, 127] q"
    using Push_appends [OF small_queue_ok(1,4), of "[12, 32, 255, 255, 255, 127]"] by auto
  then have "uq_inv q" "content q = [12, 32, 255, 255, 255, 127]" by (auto simp: appended_def small_queue_ok)
  with read_rows_ends [OF this(1), of no_conv False True] show ?thesis by blast
qed

end
