(* ===== verification/Dbclient.thy ===== *)
theory Dbclient
  imports Rowset
begin

text \<open>
  The client of the database services: \<^verbatim>\<open>CAsyncDBHandler\<close> of \<^verbatim>\<open>include/udb_client.h\<close>, in
  the build where output parameters are written back (\<^verbatim>\<open>NO_OUTPUT_BINDING\<close> is not defined).

  \<^item> The reader of rows of \<open>Rowset\<close> is extended by the state of the session. \<open>m_mapRowset\<close>, \<open>m_mapHandler\<close> and
    \<open>m_mapParameterCall\<close> hold the callbacks and the parameter array of every request that is under way. The
    arrays are objects of the application that the handler refers to by address: \<open>app_arrays\<close>.
  \<^item> \<^verbatim>\<open>SendRequest\<close>, the state of the client queue and the start of a job are answered by
    \<open>db_env\<close>, given the calls that were made so far. A closure that is registered for a result is a value of
    \<open>db_reply\<close>, and \<open>db_on_reply\<close> is its body. The callbacks for cancelled requests and for exceptions are
    passed on to \<^verbatim>\<open>SendRequest\<close>, which \<open>Client\<close> models.
  \<^item> The overloads for texts of 16-bit units are modelled. Operations are atomic: those that send are
    serialised by \<^verbatim>\<open>m_csOneSending\<close> in the code, results are processed by one thread.
\<close>

section \<open>The state\<close>

record db_client = row_reader +
  m_vColInfo :: "CDBColumnInfo list"
  m_affected :: "64 word"
  m_dbErrCode :: "32 word"
  m_dbErrMsg :: "nat list"
  m_lastReqId :: "16 word"
  m_strConnection :: "nat list"
  m_mapParameterCall :: "nat \<Rightarrow> nat option"
  m_indexProc :: "32 word"
  db_ms :: "32 word"
  m_flags :: "32 word"
  m_parameters :: "32 word"
  m_outputs :: "32 word"
  m_bCallReturn :: bool
  m_queueOk :: bool
  m_mapHandler :: "nat \<Rightarrow> nat option option"
  m_nParamPos :: "32 word"
  app_arrays :: "nat \<Rightarrow> CDBVariant list option"

datatype db_reply =
    Re_open "nat option"
  | Re_prepare "nat option"
  | Re_close "nat option"
  | Re_begin "nat option"
  | Re_end "nat option"
  | Re_process "nat option" "16 word" nat

datatype db_call =
    Db_send "16 word" "byte list" "db_reply option"
  | Db_StartJob
  | Db_EndJob

record db_env =
  db_sent :: "db_call list \<Rightarrow> bool"
  queue_started :: "db_call list \<Rightarrow> bool"
  job_started :: "db_call list \<Rightarrow> bool"

text \<open>A callback of the application with what it is given.\<close>

datatype dbc_event =
    Cb_header nat "CDBColumnInfo list"
  | Cb_rows nat "CDBVariant list"
  | Cb_batch nat
  | Cb_result nat "32 word" "nat list"
  | Cb_execute nat "32 word" "nat list" "64 word" nat CDBVariant

text \<open>A new handler; \<open>blob\<close> is the new buffer in it.\<close>

definition CAsyncDBHandler_new :: "uqueue \<Rightarrow> db_client" where
  "CAsyncDBHandler_new blob =
     \<lparr>m_mapRowset = (\<lambda>_. None), m_vData = [], m_Blob = blob\<lparr>m_8ToW := True\<rparr>, m_indexRowset = 0,
      m_vColInfo = [], m_affected = -1, m_dbErrCode = 0, m_dbErrMsg = [], m_lastReqId = 0, m_strConnection = [],
      m_mapParameterCall = (\<lambda>_. None), m_indexProc = 0, db_ms = -1, m_flags = 0, m_parameters = 0, m_outputs = 0,
      m_bCallReturn = False, m_queueOk = False, m_mapHandler = (\<lambda>_. None), m_nParamPos = 0, app_arrays = (\<lambda>_. None)\<rparr>"

definition IsOpened :: "db_client \<Rightarrow> bool" where
  "IsOpened c \<longleftrightarrow> length (m_strConnection c) > 0"

definition db_Utf8ToW :: "db_client \<Rightarrow> bool" where
  "db_Utf8ToW c = m_8ToW (m_Blob c)"

definition db_set_Utf8ToW :: "bool \<Rightarrow> db_client \<Rightarrow> db_client" where
  "db_set_Utf8ToW b c = c\<lparr>m_Blob := (m_Blob c)\<lparr>m_8ToW := b\<rparr>\<rparr>"

definition trim_blob :: "db_client \<Rightarrow> fault + db_client" where
  "trim_blob c =
     bindr (SetSize (m_Blob c) 0 True) (\<lambda>blob.
     bindr (if m_nMaxBuffer blob > DEFAULT_BIG_FIELD_CHUNK_SIZE then ReallocBuffer blob DEFAULT_BIG_FIELD_CHUNK_SIZE
            else Inr blob) (\<lambda>blob. Inr (c\<lparr>m_Blob := blob\<rparr>)))"

definition Clean :: "db_client \<Rightarrow> fault + db_client" where
  "Clean c =
     bindr (trim_blob c) (\<lambda>c.
     Inr (c\<lparr>m_mapRowset := (\<lambda>_. None), m_mapParameterCall := (\<lambda>_. None), m_mapHandler := (\<lambda>_. None),
            m_vColInfo := [], m_lastReqId := 0, m_vData := []\<rparr>))"

definition db_CleanCallbacks :: "db_client \<Rightarrow> fault + db_client" where
  "db_CleanCallbacks c = Clean c"

definition db_OnAllProcessed :: "db_client \<Rightarrow> fault + db_client" where
  "db_OnAllProcessed c = trim_blob (c\<lparr>m_vData := []\<rparr>)"

definition db_OnMergeTo :: "db_client \<Rightarrow> db_client \<Rightarrow> db_client \<times> db_client" where
  "db_OnMergeTo c to =
     (c\<lparr>m_mapRowset := (\<lambda>_. None), m_mapParameterCall := (\<lambda>_. None), m_mapHandler := (\<lambda>_. None)\<rparr>,
      to\<lparr>m_mapRowset := m_mapRowset to ++ m_mapRowset c, m_mapParameterCall := m_mapParameterCall to ++ m_mapParameterCall c,
         m_mapHandler := m_mapHandler to ++ m_mapHandler c\<rparr>)"

section \<open>Parameters\<close>

text \<open>\<^verbatim>\<open>SendRequest(reqId, buffer, size, ...)\<close>, and the start of a job of the client queue.\<close>

definition db_send :: "db_env \<Rightarrow> 16 word \<Rightarrow> byte list \<Rightarrow> db_reply option \<Rightarrow> db_call list \<Rightarrow> bool \<times> db_call list" where
  "db_send E reqId bs rh calls = (let calls = calls @ [Db_send reqId bs rh] in (db_sent E calls, calls))"

definition db_send_buffer ::
  "db_env \<Rightarrow> 16 word \<Rightarrow> uqueue \<Rightarrow> db_reply option \<Rightarrow> db_call list \<Rightarrow> fault + (bool \<times> db_call list)"
where
  "db_send_buffer E reqId sb rh calls =
     bindr (read_front sb (m_nSize sb)) (\<lambda>bs. Inr (db_send E reqId bs rh calls))"

definition start_job :: "db_env \<Rightarrow> db_call list \<Rightarrow> bool \<times> db_call list" where
  "start_job E calls =
     (if queue_started E calls then let calls = calls @ [Db_StartJob] in (job_started E calls, calls) else (False, calls))"

definition end_job :: "bool \<Rightarrow> db_call list \<Rightarrow> db_call list" where
  "end_job queueOk calls = (if queueOk then calls @ [Db_EndJob] else calls)"

text \<open>\<^verbatim>\<open>Send\<close>: what has been collected, as the first message of the parameters or as a later one.\<close>

definition Send_rows :: "db_env \<Rightarrow> uqueue \<Rightarrow> bool \<Rightarrow> db_call list \<Rightarrow> fault + (bool \<times> uqueue \<times> db_call list)" where
  "Send_rows E sb firstRow calls =
     (if m_nSize sb > 0
      then bindr (db_send_buffer E (if firstRow then idBeginRows else idTransferring) sb None calls) (\<lambda>(ok, calls).
           if \<not> ok then Inr (False, sb, calls)
           else bindr (SetSize sb 0 True) (\<lambda>sb. Inr (True, sb, calls)))
      else if firstRow then let (ok, calls) = db_send E idBeginRows [] None calls in Inr (ok, sb, calls)
      else Inr (True, sb, calls))"

text \<open>The loop over the chunks: one turn for every \<open>DEFAULT_BIG_FIELD_CHUNK_SIZE\<close> bytes.\<close>

fun Send_chunks :: "db_env \<Rightarrow> nat \<Rightarrow> bool \<Rightarrow> uqueue \<Rightarrow> db_call list \<Rightarrow> fault + (bool \<times> uqueue \<times> db_call list)" where
  "Send_chunks E 0 start sb calls = Inl Out_Of_Fuel"
| "Send_chunks E (Suc fuel) start sb calls =
     (if m_nSize sb = 0 then Inr (True, sb, calls)
      else let send = (if m_nSize sb \<ge> DEFAULT_BIG_FIELD_CHUNK_SIZE then DEFAULT_BIG_FIELD_CHUNK_SIZE else m_nSize sb) in
           bindr (read_front sb send) (\<lambda>bs.
           let (ok, calls) = db_send E (if start then idStartBLOB else idChunk) bs None calls in
           if \<not> ok then Inr (False, sb, calls)
           else bindr (Pop_discard sb send 0) (\<lambda>(_, sb).
                if m_nSize sb < DEFAULT_BIG_FIELD_CHUNK_SIZE then Inr (True, sb, calls)
                else Send_chunks E fuel False sb calls)))"

definition Send_blob :: "db_env \<Rightarrow> uqueue \<Rightarrow> db_call list \<Rightarrow> fault + (bool \<times> uqueue \<times> db_call list)" where
  "Send_blob E sb calls =
     (if m_nSize sb = 0 then Inr (True, sb, calls)
      else bindr (Send_chunks E (m_nSize sb + 1) True sb calls) (\<lambda>(ok, sb, calls).
           if \<not> ok then Inr (False, sb, calls)
           else bindr (db_send_buffer E idEndBLOB sb None calls) (\<lambda>(ok, calls).
                if \<not> ok then Inr (False, sb, calls)
                else bindr (SetSize sb 0 True) (\<lambda>sb. Inr (True, sb, calls)))))"

text \<open>Strings from 16 K units and bytes from 32 K on are large; other arrays are not supported.\<close>

definition large_parameter :: "CDBVariant \<Rightarrow> fault + bool" where
  "large_parameter v =
     (case vt_data v of
        Scalar _ _ \<Rightarrow> Inr False
      | Vt_bstr s \<Rightarrow> Inr ((case s of None \<Rightarrow> 0 | Some u \<Rightarrow> length u) \<ge> DEFAULT_BIG_FIELD_CHUNK_SIZE)
      | Fixed_array t n d \<Rightarrow>
          bindr (require (t = VT_UI1 \<or> t = VT_I1)) (\<lambda>_. Inr (n \<ge> 2 * DEFAULT_BIG_FIELD_CHUNK_SIZE))
      | _ \<Rightarrow> Inl Assertion)"

text \<open>A large value goes behind its length, which is known when the value has been written.\<close>

definition Send_large ::
  "db_env \<Rightarrow> uqueue \<Rightarrow> bool \<Rightarrow> CDBVariant \<Rightarrow> db_call list \<Rightarrow> fault + (bool \<times> uqueue \<times> db_call list)"
where
  "Send_large E sb firstRow vt calls =
     bindr (Send_rows E sb firstRow calls) (\<lambda>(ok, sb, calls).
     if \<not> ok then Inr (False, sb, calls)
     else bindr (require (m_nSize sb = 0)) (\<lambda>_.
          bindr (put_pod 4 sb 0) (\<lambda>sb. bindr (put_CDBVariant sb vt) (\<lambda>sb.
          let len = sub32 (m_nSize sb) 4 in
          bindr (Replace sb 0 4 (Some (map Some (le_bytes 4 len)))) (\<lambda>sb. Send_blob E sb calls)))))"

fun SendParameters_loop ::
  "db_env \<Rightarrow> uqueue \<Rightarrow> bool \<Rightarrow> CDBVariant list \<Rightarrow> db_call list \<Rightarrow> fault + (bool \<times> uqueue \<times> db_call list)"
where
  "SendParameters_loop E sb firstRow [] calls = Send_rows E sb firstRow calls"
| "SendParameters_loop E sb firstRow (vt # vParam) calls =
     bindr (large_parameter vt) (\<lambda>large.
     bindr (if large then Send_large E sb firstRow vt calls
            else bindr (put_CDBVariant sb vt) (\<lambda>sb. Inr (True, sb, calls))) (\<lambda>(ok, sb, calls).
     if \<not> ok then Inr (False, sb, calls)
     else let firstRow = (firstRow \<and> \<not> large) in
          if m_nSize sb \<ge> DEFAULT_RECORD_BATCH_SIZE
          then bindr (Send_rows E sb firstRow calls) (\<lambda>(ok, sb, calls).
               if \<not> ok then Inr (False, sb, calls) else SendParameters_loop E sb False vParam calls)
          else SendParameters_loop E sb firstRow vParam calls))"

definition SendParametersData ::
  "db_env \<Rightarrow> uqueue \<Rightarrow> CDBVariant list \<Rightarrow> db_call list \<Rightarrow> fault + (bool \<times> uqueue \<times> db_call list)"
where
  "SendParametersData E sb vParam calls =
     (if vParam = [] then Inr (True, sb, calls)
      else bindr (require (m_nSize sb = 0)) (\<lambda>_. SendParameters_loop E sb True vParam calls))"

section \<open>The requests\<close>

definition put_bool :: "uqueue \<Rightarrow> bool \<Rightarrow> fault + uqueue" where
  "put_bool q b = put_pod 1 q (if b then 1 else 0)"

text \<open>\<^verbatim>\<open>emplace\<close> keeps an entry that is there.\<close>

definition emplace :: "('k \<Rightarrow> 'v option) \<Rightarrow> 'k \<Rightarrow> 'v \<Rightarrow> 'k \<Rightarrow> 'v option" where
  "emplace m k v = (case m k of None \<Rightarrow> m(k \<mapsto> v) | Some _ \<Rightarrow> m)"

text \<open>
  The callbacks for rows are entered when there is one for rows, or one for the header and the caller wants
  the header; they are taken out again when the request cannot be sent.
\<close>

definition expect_rows :: "nat \<Rightarrow> nat option \<Rightarrow> nat option \<Rightarrow> bool \<Rightarrow> db_client \<Rightarrow> db_client" where
  "expect_rows index rh row meta c =
     (if row \<noteq> None \<or> meta \<and> rh \<noteq> None then c\<lparr>m_mapRowset := emplace (m_mapRowset c) index (rh, row)\<rparr> else c)"

definition forget_rows :: "nat \<Rightarrow> nat option \<Rightarrow> nat option \<Rightarrow> bool \<Rightarrow> db_client \<Rightarrow> db_client" where
  "forget_rows index rh row meta c =
     (if row \<noteq> None \<or> meta \<and> rh \<noteq> None then c\<lparr>m_mapRowset := (m_mapRowset c)(index := None)\<rparr> else c)"

definition Execute_sql ::
  "db_env \<Rightarrow> uqueue \<Rightarrow> nat \<Rightarrow> nat list option \<Rightarrow> nat option \<Rightarrow> nat option \<Rightarrow> nat option \<Rightarrow> bool \<Rightarrow> bool \<Rightarrow>
   db_client \<Rightarrow> db_call list \<Rightarrow> fault + (bool \<times> db_client \<times> db_call list)"
where
  "Execute_sql E sb index sql handler row rh meta lastInsertId c calls =
     bindr (put_bstr sb sql) (\<lambda>sb. bindr (put_bool sb (row \<noteq> None)) (\<lambda>sb.
     bindr (put_bool sb (meta \<and> rh \<noteq> None)) (\<lambda>sb. bindr (put_bool sb lastInsertId) (\<lambda>sb.
     let c = expect_rows index rh row meta c in
     bindr (put_pod 8 sb index) (\<lambda>sb.
     bindr (db_send_buffer E idExecute sb (Some (Re_process handler idExecute index)) calls) (\<lambda>(ok, calls).
     Inr (ok, if ok then c else forget_rows index rh row meta c, calls)))))))"

definition Execute_ex ::
  "db_env \<Rightarrow> uqueue \<Rightarrow> nat \<Rightarrow> nat list option \<Rightarrow> CDBVariant list \<Rightarrow> nat option \<Rightarrow> nat option \<Rightarrow> nat option \<Rightarrow>
   nat list option \<Rightarrow> bool \<Rightarrow> bool \<Rightarrow> db_client \<Rightarrow> db_call list \<Rightarrow> fault + (bool \<times> db_client \<times> db_call list)"
where
  "Execute_ex E sb index sql vParam handler row rh delimiter meta lastInsertId c calls =
     bindr (put_bstr sb sql) (\<lambda>sb. bindr (put_values sb vParam) (\<lambda>sb. bindr (put_bool sb (row \<noteq> None)) (\<lambda>sb.
     bindr (put_bstr sb delimiter) (\<lambda>sb.
     bindr (put_bool sb (meta \<and> rh \<noteq> None)) (\<lambda>sb. bindr (put_bool sb lastInsertId) (\<lambda>sb.
     let c = expect_rows index rh row meta c in
     bindr (put_pod 8 sb index) (\<lambda>sb.
     bindr (db_send_buffer E idExecuteEx sb (Some (Re_process handler idExecuteEx index)) calls) (\<lambda>(ok, calls).
     Inr (ok, if ok then c else forget_rows index rh row meta c, calls)))))))))"

text \<open>The parameters that an address refers to.\<close>

definition parameters_at :: "db_client \<Rightarrow> nat \<Rightarrow> fault + CDBVariant list" where
  "parameters_at c a = (case app_arrays c a of None \<Rightarrow> Inl Out_Of_Bounds | Some vParam \<Rightarrow> Inr vParam)"

text \<open>
  The start of a job and the parameters before a request. The buffer is empty afterwards; no buffer is
  left when the parameters were not sent, and the handler has been cleaned then.
\<close>

definition send_parameters ::
  "db_env \<Rightarrow> uqueue \<Rightarrow> CDBVariant list \<Rightarrow> db_client \<Rightarrow> db_call list \<Rightarrow>
   fault + ((bool \<times> uqueue) option \<times> db_client \<times> db_call list)"
where
  "send_parameters E sb vParam c calls =
     (if vParam = [] then Inr (Some (False, sb), c, calls)
      else let (queueOk, calls) = start_job E calls in
           bindr (SendParametersData E sb vParam calls) (\<lambda>(ok, sb, calls).
           if ok then bindr (SetSize sb 0 True) (\<lambda>sb. Inr (Some (queueOk, sb), c, calls))
           else bindr (Clean c) (\<lambda>c. Inr (None, c, calls))))"

definition Execute_parameters ::
  "db_env \<Rightarrow> uqueue \<Rightarrow> nat \<Rightarrow> nat \<Rightarrow> nat option \<Rightarrow> nat option \<Rightarrow> nat option \<Rightarrow> bool \<Rightarrow> bool \<Rightarrow>
   db_client \<Rightarrow> db_call list \<Rightarrow> fault + (bool \<times> db_client \<times> db_call list)"
where
  "Execute_parameters E sb index a handler row rh meta lastInsertId c calls =
     bindr (parameters_at c a) (\<lambda>vParam.
     bindr (send_parameters E sb vParam c calls) (\<lambda>(sent, c, calls).
     case sent of
       None \<Rightarrow> Inr (False, c, calls)
     | Some (queueOk, sb) \<Rightarrow>
         bindr (put_bool sb (row \<noteq> None)) (\<lambda>sb. bindr (put_bool sb (meta \<and> rh \<noteq> None)) (\<lambda>sb.
         bindr (put_bool sb lastInsertId) (\<lambda>sb.
         let c = expect_rows index rh row meta c;
             c = c\<lparr>m_mapParameterCall := (m_mapParameterCall c)(index \<mapsto> a)\<rparr> in
         bindr (put_pod 8 sb index) (\<lambda>sb.
         bindr (db_send_buffer E idExecuteParameters sb (Some (Re_process handler idExecuteParameters index)) calls) (\<lambda>(ok, calls).
         if ok then Inr (True, c, end_job queueOk calls)
         else Inr (False, forget_rows index rh row meta (c\<lparr>m_mapParameterCall := (m_mapParameterCall c)(index := None)\<rparr>), calls))))))))"

definition ExecuteBatch ::
  "db_env \<Rightarrow> uqueue \<Rightarrow> nat \<Rightarrow> 32 word \<Rightarrow> nat list option \<Rightarrow> nat \<Rightarrow> nat option \<Rightarrow> nat option \<Rightarrow> nat option \<Rightarrow>
   nat list option \<Rightarrow> nat option \<Rightarrow> bool \<Rightarrow> 32 word \<Rightarrow> CParameterInfo list \<Rightarrow> bool \<Rightarrow>
   db_client \<Rightarrow> db_call list \<Rightarrow> fault + (bool \<times> db_client \<times> db_call list)"
where
  "ExecuteBatch E sb index isolation sql a handler row rh delimiter batchHeader meta plan vPInfo lastInsertId c calls =
     bindr (parameters_at c a) (\<lambda>vParam.
     bindr (send_parameters E sb vParam c calls) (\<lambda>(sent, c, calls).
     case sent of
       None \<Rightarrow> Inr (False, c, calls)
     | Some (queueOk, sb) \<Rightarrow>
         bindr (put_bstr sb sql) (\<lambda>sb. bindr (put_bstr sb delimiter) (\<lambda>sb.
         bindr (put_pod 4 sb (unat isolation)) (\<lambda>sb. bindr (put_pod 4 sb (unat plan)) (\<lambda>sb.
         bindr (put_bool sb (row \<noteq> None)) (\<lambda>sb. bindr (put_bool sb (meta \<and> rh \<noteq> None)) (\<lambda>sb.
         bindr (put_bool sb lastInsertId) (\<lambda>sb.
         let c = expect_rows index rh row meta c;
             c = c\<lparr>m_mapParameterCall := (m_mapParameterCall c)(index \<mapsto> a),
                   m_mapHandler := emplace (m_mapHandler c) index batchHeader\<rparr> in
         bindr (put_u16string sb (m_strConnection c)) (\<lambda>sb. bindr (put_pod 4 sb (unat (m_flags c))) (\<lambda>sb.
         bindr (put_pod 8 sb index) (\<lambda>sb. bindr (put_parameters sb vPInfo) (\<lambda>sb.
         bindr (db_send_buffer E idExecuteBatch sb (Some (Re_process handler idExecuteBatch index)) calls) (\<lambda>(ok, calls).
         if ok then Inr (True, c, end_job queueOk calls)
         else Inr (False, (forget_rows index rh row meta (c\<lparr>m_mapParameterCall := (m_mapParameterCall c)(index := None)\<rparr>))
                            \<lparr>m_mapHandler := (m_mapHandler c)(index := None)\<rparr>, calls)))))))))))))))"

definition Prepare ::
  "db_env \<Rightarrow> uqueue \<Rightarrow> nat list option \<Rightarrow> nat option \<Rightarrow> CParameterInfo list \<Rightarrow> db_client \<Rightarrow> db_call list \<Rightarrow>
   fault + (bool \<times> db_client \<times> db_call list)"
where
  "Prepare E sb sql handler vParameterInfo c calls =
     bindr (put_bstr sb sql) (\<lambda>sb. bindr (put_parameters sb vParameterInfo) (\<lambda>sb.
     bindr (db_send_buffer E idPrepare sb (Some (Re_prepare handler)) calls) (\<lambda>(ok, calls). Inr (ok, c, calls))))"

definition Open ::
  "db_env \<Rightarrow> uqueue \<Rightarrow> nat list option \<Rightarrow> nat option \<Rightarrow> 32 word \<Rightarrow> db_client \<Rightarrow> db_call list \<Rightarrow>
   fault + (bool \<times> db_client \<times> db_call list)"
where
  "Open E sb strConnection handler flags c calls =
     (let s = m_strConnection c;
          c = c\<lparr>m_flags := flags, m_strConnection := (case strConnection of None \<Rightarrow> s | Some u \<Rightarrow> c_units u)\<rparr> in
      bindr (put_bstr sb strConnection) (\<lambda>sb. bindr (put_pod 4 sb (unat flags)) (\<lambda>sb.
      bindr (db_send_buffer E idOpen_db sb (Some (Re_open handler)) calls) (\<lambda>(ok, calls).
      if ok then Inr (True, c, calls)
      else Inr (False, c\<lparr>m_strConnection := s\<rparr>, calls)))))"

definition db_Close ::
  "db_env \<Rightarrow> nat option \<Rightarrow> db_client \<Rightarrow> db_call list \<Rightarrow> fault + (bool \<times> db_client \<times> db_call list)"
where
  "db_Close E handler c calls =
     (let (ok, calls) = db_send E idClose_db [] (Some (Re_close handler)) calls in Inr (ok, c, calls))"

definition BeginTrans ::
  "db_env \<Rightarrow> uqueue \<Rightarrow> 32 word \<Rightarrow> nat option \<Rightarrow> db_client \<Rightarrow> db_call list \<Rightarrow>
   fault + (bool \<times> db_client \<times> db_call list)"
where
  "BeginTrans E sb isolation handler c calls =
     bindr (put_pod 4 sb (unat isolation)) (\<lambda>sb. bindr (put_u16string sb (m_strConnection c)) (\<lambda>sb.
     bindr (put_pod 4 sb (unat (m_flags c))) (\<lambda>sb.
     let (queueOk, calls) = start_job E calls in
     bindr (db_send_buffer E idBeginTrans sb (Some (Re_begin handler)) calls) (\<lambda>(ok, calls).
     Inr (ok, c\<lparr>m_queueOk := queueOk\<rparr>, calls)))))"

definition db_EndTrans ::
  "db_env \<Rightarrow> 32 word \<Rightarrow> nat option \<Rightarrow> db_client \<Rightarrow> db_call list \<Rightarrow> fault + (bool \<times> db_client \<times> db_call list)"
where
  "db_EndTrans E plan handler c calls =
     (let (ok, calls) = db_send E idEndTrans_db (le_bytes 4 (unat plan)) (Some (Re_end handler)) calls in
      Inr (if ok then (True, c\<lparr>m_queueOk := False\<rparr>, end_job (m_queueOk c) calls) else (False, c, calls)))"

section \<open>The results of requests\<close>

definition tell_result :: "nat option \<Rightarrow> 32 word \<Rightarrow> nat list \<Rightarrow> dbc_event list" where
  "tell_result handler res errMsg = (case handler of None \<Rightarrow> [] | Some h \<Rightarrow> [Cb_result h res errMsg])"

definition get_int :: "uqueue \<Rightarrow> fault + (32 word \<times> uqueue)" where
  "get_int q = bindr (get_pod 4 q) (\<lambda>(n, q). Inr (word_of_nat n, q))"

definition reply_open :: "nat option \<Rightarrow> uqueue \<Rightarrow> db_client \<Rightarrow> fault + (dbc_event list \<times> uqueue \<times> db_client)" where
  "reply_open handler ar c =
     bindr (get_int ar) (\<lambda>(res, ar). bindr (get_u16string ar) (\<lambda>(errMsg, ar). bindr (get_int ar) (\<lambda>(ms, ar).
     let msg = (if res = 0 then [] else errMsg);
         c = c\<lparr>m_dbErrCode := res, m_lastReqId := idOpen_db, m_strConnection := (if res = 0 then errMsg else []),
               m_dbErrMsg := msg, db_ms := ms, m_parameters := 0, m_outputs := 0\<rparr> in
     Inr (tell_result handler res msg, ar, c))))"

definition reply_prepare :: "nat option \<Rightarrow> uqueue \<Rightarrow> db_client \<Rightarrow> fault + (dbc_event list \<times> uqueue \<times> db_client)" where
  "reply_prepare handler ar c =
     bindr (get_int ar) (\<lambda>(res, ar). bindr (get_u16string ar) (\<lambda>(errMsg, ar). bindr (get_int ar) (\<lambda>(parameters, ar).
     let c = c\<lparr>m_bCallReturn := False, m_lastReqId := idPrepare, m_dbErrCode := res, m_dbErrMsg := errMsg,
               m_parameters := and parameters 0xffff, m_outputs := drop_bit 16 parameters\<rparr> in
     Inr (tell_result handler res errMsg, ar, c))))"

definition reply_close :: "nat option \<Rightarrow> uqueue \<Rightarrow> db_client \<Rightarrow> fault + (dbc_event list \<times> uqueue \<times> db_client)" where
  "reply_close handler ar c =
     bindr (get_int ar) (\<lambda>(res, ar). bindr (get_u16string ar) (\<lambda>(errMsg, ar).
     let c = c\<lparr>m_lastReqId := idClose_db, m_strConnection := [], m_dbErrCode := res, m_dbErrMsg := errMsg\<rparr> in
     Inr (tell_result handler res errMsg, ar, c)))"

definition reply_begin :: "nat option \<Rightarrow> uqueue \<Rightarrow> db_client \<Rightarrow> fault + (dbc_event list \<times> uqueue \<times> db_client)" where
  "reply_begin handler ar c =
     bindr (get_int ar) (\<lambda>(res, ar). bindr (get_u16string ar) (\<lambda>(errMsg, ar). bindr (get_int ar) (\<lambda>(ms, ar).
     let msg = (if res = 0 then [] else errMsg);
         c = c\<lparr>m_strConnection := (if res = 0 then errMsg else m_strConnection c), m_lastReqId := idBeginTrans,
               m_dbErrCode := res, m_dbErrMsg := msg, db_ms := ms\<rparr> in
     Inr (tell_result handler res msg, ar, c))))"

definition reply_end :: "nat option \<Rightarrow> uqueue \<Rightarrow> db_client \<Rightarrow> fault + (dbc_event list \<times> uqueue \<times> db_client)" where
  "reply_end handler ar c =
     bindr (get_int ar) (\<lambda>(res, ar). bindr (get_u16string ar) (\<lambda>(errMsg, ar).
     let c = c\<lparr>m_lastReqId := idEndTrans_db, m_dbErrCode := res, m_dbErrMsg := errMsg\<rparr> in
     Inr (tell_result handler res errMsg, ar, c)))"

text \<open>\<^verbatim>\<open>Process\<close>: the end of an execution takes its callbacks and its array out of the maps.\<close>

definition Process ::
  "text_conv \<Rightarrow> bool \<Rightarrow> nat option \<Rightarrow> 16 word \<Rightarrow> nat \<Rightarrow> uqueue \<Rightarrow> db_client \<Rightarrow>
   fault + (dbc_event list \<times> uqueue \<times> db_client)"
where
  "Process C ndebug handler reqId index ar c =
     bindr (get_pod 8 ar) (\<lambda>(affected, ar). bindr (get_int ar) (\<lambda>(res, ar). bindr (get_u16string ar) (\<lambda>(errMsg, ar).
     bindr (get_CDBVariant C ndebug ar) (\<lambda>(vtId, ar). bindr (get_pod 8 ar) (\<lambda>(fail_ok, ar).
     let c = c\<lparr>m_lastReqId := reqId, m_affected := word_of_nat affected, m_dbErrCode := res, m_dbErrMsg := errMsg,
               m_indexProc := 0, m_mapRowset := (m_mapRowset c)(index := None),
               m_mapParameterCall := (m_mapParameterCall c)(index := None),
               m_mapHandler := (m_mapHandler c)(index := None)\<rparr> in
     Inr (case handler of None \<Rightarrow> [] | Some h \<Rightarrow> [Cb_execute h res errMsg (word_of_nat affected) fail_ok vtId], ar, c))))))"

fun db_on_reply ::
  "text_conv \<Rightarrow> bool \<Rightarrow> db_reply \<Rightarrow> uqueue \<Rightarrow> db_client \<Rightarrow> fault + (dbc_event list \<times> uqueue \<times> db_client)"
where
  "db_on_reply C ndebug (Re_open handler) ar c = reply_open handler ar c"
| "db_on_reply C ndebug (Re_prepare handler) ar c = reply_prepare handler ar c"
| "db_on_reply C ndebug (Re_close handler) ar c = reply_close handler ar c"
| "db_on_reply C ndebug (Re_begin handler) ar c = reply_begin handler ar c"
| "db_on_reply C ndebug (Re_end handler) ar c = reply_end handler ar c"
| "db_on_reply C ndebug (Re_process handler reqId index) ar c = Process C ndebug handler reqId index ar c"

section \<open>What arrives\<close>

definition on_parameter_position :: "uqueue \<Rightarrow> db_client \<Rightarrow> fault + (uqueue \<times> db_client)" where
  "on_parameter_position mc c =
     bindr (get_int mc) (\<lambda>(pos, mc). Inr (mc, c\<lparr>m_nParamPos := pos, m_bCallReturn := False, m_indexProc := 0\<rparr>))"

definition on_batch_header :: "uqueue \<Rightarrow> db_client \<Rightarrow> fault + (dbc_event list \<times> uqueue \<times> db_client)" where
  "on_batch_header mc c =
     bindr (get_int mc) (\<lambda>(res, mc). bindr (get_u16string mc) (\<lambda>(errMsg, mc). bindr (get_int mc) (\<lambda>(ms, mc).
     bindr (get_int mc) (\<lambda>(params, mc). bindr (get_pod 8 mc) (\<lambda>(callIndex, mc).
     let c = c\<lparr>m_vColInfo := [], m_lastReqId := idSqlBatchHeader, m_parameters := and params 0xffff, m_outputs := 0,
               m_strConnection := (if res = 0 then errMsg else m_strConnection c), m_dbErrCode := res,
               m_dbErrMsg := (if res = 0 then [] else errMsg), db_ms := ms\<rparr> in
     Inr (case m_mapHandler c callIndex of Some (Some cb) \<Rightarrow> [Cb_batch cb] | _ \<Rightarrow> [], mc, c))))))"

definition db_on_header :: "uqueue \<Rightarrow> db_client \<Rightarrow> fault + (dbc_event list \<times> uqueue \<times> db_client)" where
  "db_on_header mc c =
     bindr (shrink_blob c) (\<lambda>c.
     bindr (get_columns mc) (\<lambda>(vColInfo, mc). bindr (get_pod 8 mc) (\<lambda>(index, mc).
     bindr (if m_nSize mc > 0 then get_int mc else Inr (0, mc)) (\<lambda>(outputs, mc).
     let c = c\<lparr>m_vData := [], m_vColInfo := vColInfo, m_indexRowset := index\<rparr> in
     Inr (if outputs = 0 \<and> vColInfo \<noteq> []
          then case m_mapRowset c index of Some (Some rh, _) \<Rightarrow> [Cb_header rh vColInfo] | _ \<Rightarrow> []
          else [], mc, c)))))"

text \<open>Writing through the reference to an array of the application, from \<open>pos\<close> on.\<close>

fun store_values :: "CDBVariant list \<Rightarrow> nat \<Rightarrow> CDBVariant list \<Rightarrow> fault + CDBVariant list" where
  "store_values arr pos [] = Inr arr"
| "store_values arr pos (v # vs) =
     (if pos < length arr then store_values (arr[pos := v]) (pos + 1) vs else Inl Out_Of_Bounds)"

definition write_back :: "nat \<Rightarrow> 32 word \<Rightarrow> CDBVariant list \<Rightarrow> db_client \<Rightarrow> fault + db_client" where
  "write_back a pos vs c =
     bindr (parameters_at c a) (\<lambda>vParam. bindr (store_values vParam (unat pos) vs) (\<lambda>vParam.
     Inr (c\<lparr>app_arrays := (app_arrays c)(a \<mapsto> vParam)\<rparr>)))"

definition on_call_return ::
  "text_conv \<Rightarrow> bool \<Rightarrow> uqueue \<Rightarrow> db_client \<Rightarrow> fault + (uqueue \<times> db_client)"
where
  "on_call_return C ndebug mc c =
     bindr (get_CDBVariant C ndebug mc) (\<lambda>(vt, mc).
     bindr (case m_mapParameterCall c (m_indexRowset c) of
              None \<Rightarrow> Inr c
            | Some a \<Rightarrow> write_back a (m_parameters c * m_indexProc c + drop_bit 16 (m_nParamPos c)) [vt] c) (\<lambda>c.
     Inr (mc, c\<lparr>m_bCallReturn := True\<rparr>)))"

text \<open>
  Output parameters: their number becomes known with the first of them, and they go to the end of the
  parameters of the call, in arithmetic modulo \<open>2 ^ 32\<close>.
\<close>

definition count_outputs :: "db_client \<Rightarrow> db_client" where
  "count_outputs c =
     (let outs = word_of_nat (length (m_vData c)) + (if m_bCallReturn c then 1 else 0) in
      if m_lastReqId c = idSqlBatchHeader
      then if m_indexProc c = 0 then c\<lparr>m_outputs := m_outputs c + outs\<rparr> else c
      else if m_outputs c = 0 then c\<lparr>m_outputs := outs\<rparr> else c)"

definition output_position :: "db_client \<Rightarrow> 32 word" where
  "output_position c =
     (if m_lastReqId c = idSqlBatchHeader
      then m_parameters c * m_indexProc c + and (m_nParamPos c) 0xffff + drop_bit 16 (m_nParamPos c) - word_of_nat (length (m_vData c))
      else m_parameters c * m_indexProc c + m_parameters c - word_of_nat (length (m_vData c)))"

definition on_output :: "db_client \<Rightarrow> fault + db_client" where
  "on_output c =
     (let c = count_outputs c in
      bindr (case m_mapParameterCall c (m_indexRowset c) of
               None \<Rightarrow> Inr c
             | Some a \<Rightarrow> write_back a (output_position c) (m_vData c) c) (\<lambda>c.
      Inr (c\<lparr>m_indexProc := m_indexProc c + 1\<rparr>)))"

definition db_on_end_rows ::
  "text_conv \<Rightarrow> bool \<Rightarrow> 16 word \<Rightarrow> uqueue \<Rightarrow> db_client \<Rightarrow> fault + (dbc_event list \<times> uqueue \<times> db_client)"
where
  "db_on_end_rows C ndebug reqId mc c =
     bindr (if m_nSize mc = 0 \<and> m_vData c = [] then Inr ([], mc, c)
            else bindr (read_rows C ndebug (m_8ToW (m_Blob c)) mc) (\<lambda>(vs, mc).
                 let c = c\<lparr>m_vData := m_vData c @ vs\<rparr> in
                 if reqId = idOutputParameter then bindr (on_output c) (\<lambda>c. Inr ([], mc, c))
                 else Inr (case m_mapRowset c (m_indexRowset c) of Some (_, Some row) \<Rightarrow> [Cb_rows row (m_vData c)] | _ \<Rightarrow> [],
                           mc, c))) (\<lambda>(evs, mc, c).
     Inr (evs, mc, c\<lparr>m_vData := []\<rparr>))"

definition db_on_begin_rows :: "uqueue \<Rightarrow> db_client \<Rightarrow> fault + (uqueue \<times> db_client)" where
  "db_on_begin_rows mc c =
     bindr (clear_rows c) (\<lambda>c.
     if m_nSize mc > 0 then bindr (get_pod 8 mc) (\<lambda>(index, mc). Inr (mc, c\<lparr>m_indexRowset := index\<rparr>)) else Inr (mc, c))"

definition unless_empty ::
  "uqueue \<Rightarrow> db_client \<Rightarrow> (uqueue \<Rightarrow> db_client \<Rightarrow> fault + (uqueue \<times> db_client)) \<Rightarrow> fault + (uqueue \<times> db_client)"
where
  "unless_empty mc c f = (if m_nSize mc = 0 then Inr (mc, c) else f mc c)"

definition silent :: "fault + (uqueue \<times> db_client) \<Rightarrow> fault + (dbc_event list \<times> uqueue \<times> db_client)" where
  "silent r = bindr r (\<lambda>(mc, c). Inr ([], mc, c))"

definition db_OnResultReturned ::
  "text_conv \<Rightarrow> bool \<Rightarrow> 16 word \<Rightarrow> uqueue \<Rightarrow> db_client \<Rightarrow> fault + (dbc_event list \<times> uqueue \<times> db_client)"
where
  "db_OnResultReturned C ndebug reqId mc c =
     (if reqId = idParameterPosition then silent (on_parameter_position mc c)
      else if reqId = idSqlBatchHeader then on_batch_header mc c
      else if reqId = idRowsetHeader then db_on_header mc c
      else if reqId = idCallReturn then silent (on_call_return C ndebug mc c)
      else if reqId = idBeginRows then silent (db_on_begin_rows mc c)
      else if reqId = idTransferring then silent (on_transferring C ndebug mc c)
      else if reqId = idOutputParameter \<or> reqId = idEndRows then db_on_end_rows C ndebug reqId mc c
      else if reqId = idStartBLOB then silent (unless_empty mc c on_start_blob)
      else if reqId = idChunk then silent (unless_empty mc c on_chunk)
      else if reqId = idEndBLOB then silent (on_end_blob C ndebug mc c)
      else Inr ([], mc, c))"

section \<open>The parameters on the wire\<close>

text \<open>The requests that were sent, without their handlers.\<close>

fun db_requests :: "db_call list \<Rightarrow> (16 word \<times> byte list) list" where
  "db_requests [] = []"
| "db_requests (Db_send reqId bs _ # calls) = (reqId, bs) # db_requests calls"
| "db_requests (_ # calls) = db_requests calls"

lemma db_requests_append [simp]: "db_requests (a @ b) = db_requests a @ db_requests b"
  by (induction a rule: db_requests.induct) simp_all

definition db_reliable :: "db_env \<Rightarrow> bool" where
  "db_reliable E \<longleftrightarrow> (\<forall>calls reqId bs rh. db_sent E (calls @ [Db_send reqId bs rh]))"

lemma db_send_reliable: "db_reliable E \<Longrightarrow> db_send E reqId bs rh calls = (True, calls @ [Db_send reqId bs rh])"
  by (simp add: db_send_def db_reliable_def)

lemma read_front_all: "uq_inv q \<Longrightarrow> n \<le> m_nSize q \<Longrightarrow> read_front q n = Inr (take n (content q))"
  using read_front_ok [of q "take n (content q)" "drop n (content q)"] uq_invD(1) [of q] by simp

lemma db_send_buffer_reliable:
  "db_reliable E \<Longrightarrow> uq_inv sb \<Longrightarrow>
   db_send_buffer E reqId sb rh calls = Inr (True, calls @ [Db_send reqId (content sb) rh])"
  using uq_invD(1) [of sb] by (simp add: db_send_buffer_def read_front_all db_send_reliable)

text \<open>
  The bytes of the values in the messages, the messages that begin the parameters, and the frames of large
  values: a length, then as many bytes, in messages of at most \<open>DEFAULT_BIG_FIELD_CHUNK_SIZE\<close> bytes.
\<close>

definition param_bytes :: "(16 word \<times> byte list) list \<Rightarrow> byte list" where
  "param_bytes ms = concat (map (\<lambda>(reqId, bs). if reqId = idStartBLOB then drop 4 bs else bs) ms)"

fun begins :: "bool \<Rightarrow> 16 word list \<Rightarrow> bool" where
  "begins True (reqId # ids) \<longleftrightarrow> reqId = idBeginRows \<and> idBeginRows \<notin> set ids"
| "begins True [] \<longleftrightarrow> False"
| "begins False ids \<longleftrightarrow> idBeginRows \<notin> set ids"

fun well_framed :: "nat option \<Rightarrow> (16 word \<times> byte list) list \<Rightarrow> bool" where
  "well_framed None [] \<longleftrightarrow> True"
| "well_framed (Some _) [] \<longleftrightarrow> False"
| "well_framed None ((reqId, bs) # ms) \<longleftrightarrow>
     (if reqId = idStartBLOB
      then let k = le_value (take 4 bs) in
           4 \<le> length bs \<and> length bs \<le> DEFAULT_BIG_FIELD_CHUNK_SIZE \<and> length bs \<le> k + 4 \<and>
           well_framed (Some (k + 4 - length bs)) ms
      else reqId \<in> {idBeginRows, idTransferring} \<and> well_framed None ms)"
| "well_framed (Some k) ((reqId, bs) # ms) \<longleftrightarrow>
     length bs \<le> DEFAULT_BIG_FIELD_CHUNK_SIZE \<and>
     (if reqId = idChunk then length bs \<le> k \<and> well_framed (Some (k - length bs)) ms
      else reqId = idEndBLOB \<and> length bs = k \<and> well_framed None ms)"

definition carries :: "bool \<Rightarrow> (16 word \<times> byte list) list \<Rightarrow> CDBVariant list \<Rightarrow> bool" where
  "carries first ms vs \<longleftrightarrow>
     param_bytes ms = concat (map value_wire vs) \<and> well_framed None ms \<and> begins first (map fst ms)"

lemma well_framed_append: "well_framed k ms \<Longrightarrow> well_framed k (ms @ ns) = well_framed None ns"
  by (induction k ms rule: well_framed.induct) (auto simp: Let_def split: if_splits)

lemma begins_append: "begins b xs \<Longrightarrow> idBeginRows \<notin> set ys \<Longrightarrow> begins b (xs @ ys)"
  by (induction b xs rule: begins.induct) auto

lemma carries_append:
  "carries b ms vs \<Longrightarrow> carries False ns us \<Longrightarrow> carries b (ms @ ns) (vs @ us)"
  by (simp add: carries_def param_bytes_def well_framed_append begins_append)

lemma carries_Nil [simp]: "carries False [] []"
  by (simp add: carries_def param_bytes_def)

lemma begins_ids [simp]:
  "begins b [if b then idBeginRows else idTransferring]" "idBeginRows \<noteq> idStartBLOB" "idBeginRows \<noteq> idChunk"
  "idBeginRows \<noteq> idEndBLOB" "idTransferring \<noteq> idStartBLOB"
  by (cases b) (simp_all add: id_defs)

lemma Send_rows_ok:
  assumes "db_reliable E" "uq_inv sb" "content sb = concat (map value_wire pend)"
  shows "\<exists>sb' ms calls'. Send_rows E sb first calls = Inr (True, sb', calls') \<and> uq_inv sb' \<and> same_settings sb sb' \<and>
    content sb' = [] \<and> db_requests calls' = db_requests calls @ ms \<and> carries first ms pend"
proof (cases "m_nSize sb > 0")
  case True
  obtain sb' where "SetSize sb 0 True = Inr sb'" "uq_inv sb'" "same_settings sb sb'" "content sb' = []"
    using SetSize_ok [OF assms(2), of 0 True] by auto
  with True assms show ?thesis
    by (auto simp: Send_rows_def db_send_buffer_reliable carries_def param_bytes_def)
next
  case False
  then have c: "content sb = []" using uq_invD(1) [OF assms(2)] by simp
  then have "length (concat (map value_wire pend)) = 0" unfolding assms(3) [symmetric] by simp
  with length_wires [of pend] have "length pend = 0" by linarith
  with c show ?thesis using False assms(1,2)
    by (cases first) (auto simp: Send_rows_def db_send_reliable carries_def param_bytes_def intro!: exI [of _ sb])
qed

lemma Send_chunks_ok:
  assumes E: "db_reliable E"
  shows "uq_inv sb \<Longrightarrow> content sb \<noteq> [] \<Longrightarrow> length (content sb) < fuel \<Longrightarrow>
    \<exists>sb' calls' m ms. Send_chunks E fuel start sb calls = Inr (True, sb', calls') \<and> uq_inv sb' \<and> same_settings sb sb' \<and>
      db_requests calls' = db_requests calls @ (if start then idStartBLOB else idChunk, m) # map (Pair idChunk) ms \<and>
      content sb = m @ concat ms @ content sb' \<and> length (content sb') \<le> DEFAULT_BIG_FIELD_CHUNK_SIZE \<and>
      m = take DEFAULT_BIG_FIELD_CHUNK_SIZE (content sb) \<and> list_all (\<lambda>x. length x \<le> DEFAULT_BIG_FIELD_CHUNK_SIZE) ms"
proof (induction fuel arbitrary: sb start calls)
  case (Suc f)
  let ?K = DEFAULT_BIG_FIELD_CHUNK_SIZE
  have n: "m_nSize sb = length (content sb)" using uq_invD(1) [OF Suc.prems(1)] by simp
  then have nz: "m_nSize sb \<noteq> 0" using Suc.prems(2) by simp
  define k where "k = (if m_nSize sb \<ge> ?K then ?K else m_nSize sb)"
  define calls1 where "calls1 = calls @ [Db_send (if start then idStartBLOB else idChunk) (take k (content sb)) None]"
  have k: "k \<le> m_nSize sb" "take k (content sb) = take ?K (content sb)" "0 < k"
    using nz n by (auto simp: k_def DEFAULT_BIG_FIELD_CHUNK_SIZE_def)
  obtain j sb1 where sb1: "Pop_discard sb k 0 = Inr (j, sb1)" "uq_inv sb1" "same_settings sb sb1"
    "content sb1 = drop k (content sb)"
    using Pop_discard_ok [OF Suc.prems(1), of k 0] by auto
  have n1: "m_nSize sb1 = length (content sb1)" using uq_invD(1) [OF sb1(2)] by simp
  have step: "Send_chunks E (Suc f) start sb calls =
      (if m_nSize sb1 < ?K then Inr (True, sb1, calls1) else Send_chunks E f False sb1 calls1)"
    using nz sb1(1) read_front_all [OF Suc.prems(1) k(1)]
    by (simp add: k_def [symmetric] db_send_reliable [OF E] calls1_def Let_def)
  have c: "content sb = take ?K (content sb) @ content sb1" unfolding sb1(4) k(2) [symmetric] by simp
  have r: "db_requests calls1 = db_requests calls @ [(if start then idStartBLOB else idChunk, take ?K (content sb))]"
    by (simp add: calls1_def k(2))
  show ?case
  proof (cases "m_nSize sb1 < ?K")
    case True
    show ?thesis unfolding step
    proof (intro exI conjI)
      show "content sb = take ?K (content sb) @ concat [] @ content sb1" using c by simp
      show "length (content sb1) \<le> ?K" using True n1 by simp
      show "db_requests calls1 = db_requests calls @ (if start then idStartBLOB else idChunk, take ?K (content sb)) # map (Pair idChunk) []"
        using r by simp
    qed (use True sb1(2,3) in simp_all)
  next
    case False
    have "content sb1 \<noteq> []" using False n1 by (auto simp: DEFAULT_BIG_FIELD_CHUNK_SIZE_def)
    moreover have "length (content sb1) < f"
      unfolding sb1(4) length_drop using Suc.prems(3) k(3) n nz by linarith
    ultimately have ih: "content sb1 \<noteq> []" "length (content sb1) < f" by simp_all
    obtain sb2 calls2 m ms where s: "Send_chunks E f False sb1 calls1 = Inr (True, sb2, calls2)" "uq_inv sb2"
      "same_settings sb1 sb2" "db_requests calls2 = db_requests calls1 @ (idChunk, m) # map (Pair idChunk) ms"
      "content sb1 = m @ concat ms @ content sb2" "length (content sb2) \<le> ?K" "m = take ?K (content sb1)"
      "list_all (\<lambda>x. length x \<le> ?K) ms"
      using Suc.IH [OF sb1(2) ih, of False calls1] unfolding if_False by (elim exE conjE) rule
    have "length m \<le> ?K" unfolding s(7) by simp
    show ?thesis unfolding step
    proof (intro exI conjI)
      show "content sb = take ?K (content sb) @ concat (m # ms) @ content sb2" using c s(5) by simp
      show "db_requests calls2 = db_requests calls @ (if start then idStartBLOB else idChunk, take ?K (content sb)) # map (Pair idChunk) (m # ms)"
        using r s(4) by simp
      show "same_settings sb sb2" by (rule same_settings_trans [OF sb1(3) s(3)])
      show "list_all (\<lambda>x. length x \<le> ?K) (m # ms)" using s(8) \<open>length m \<le> ?K\<close> by simp
    qed (use False s(1,2,6) in simp_all)
  qed
qed simp

lemma framed_chunks:
  "list_all (\<lambda>x. length x \<le> DEFAULT_BIG_FIELD_CHUNK_SIZE) (l # cs) \<Longrightarrow>
   well_framed (Some (length (concat cs) + length l)) (map (Pair idChunk) cs @ [(idEndBLOB, l)])"
proof (induction cs)
  case (Cons c cs)
  then show ?case by (simp add: add.assoc)
qed simp

lemma Send_blob_ok:
  assumes E: "db_reliable E" and sb: "uq_inv sb" "content sb = le_bytes 4 (length bs) @ bs" "length bs < 4294967296"
  shows "\<exists>sb' ms calls'. Send_blob E sb calls = Inr (True, sb', calls') \<and> uq_inv sb' \<and> same_settings sb sb' \<and>
    content sb' = [] \<and> db_requests calls' = db_requests calls @ ms \<and> param_bytes ms = bs \<and> well_framed None ms \<and>
    idBeginRows \<notin> set (map fst ms)"
proof -
  let ?K = DEFAULT_BIG_FIELD_CHUNK_SIZE
  have n: "m_nSize sb = length (content sb)" using uq_invD(1) [OF sb(1)] by simp
  have ne: "content sb \<noteq> []" using sb(2) by (metis append_is_Nil_conv length_le_bytes list.size(3) zero_neq_numeral)
  have lt: "length (content sb) < m_nSize sb + 1" using n by simp
  obtain sb1 calls1 m cs where s: "Send_chunks E (m_nSize sb + 1) True sb calls = Inr (True, sb1, calls1)" "uq_inv sb1"
    "same_settings sb sb1" "db_requests calls1 = db_requests calls @ (idStartBLOB, m) # map (Pair idChunk) cs"
    "content sb = m @ concat cs @ content sb1" "length (content sb1) \<le> ?K" "m = take ?K (content sb)"
    "list_all (\<lambda>x. length x \<le> ?K) cs"
    using Send_chunks_ok [OF E sb(1) ne lt, of True calls] unfolding if_True by (elim exE conjE) rule
  obtain sb2 where sb2: "SetSize sb1 0 True = Inr sb2" "uq_inv sb2" "same_settings sb1 sb2" "content sb2 = []"
    using SetSize_ok [OF s(2), of 0 True] by auto
  let ?ms = "(idStartBLOB, m) # map (Pair idChunk) cs @ [(idEndBLOB, content sb1)]"
  have b: "Send_blob E sb calls = Inr (True, sb2, calls1 @ [Db_send idEndBLOB (content sb1) None])"
    using ne n s(1) sb2(1) by (simp add: Send_blob_def db_send_buffer_reliable [OF E s(2)])
  have m: "take 4 m = le_bytes 4 (length bs)" "4 \<le> length m" "length m \<le> ?K"
    using s(7) sb(2) by (simp_all add: DEFAULT_BIG_FIELD_CHUNK_SIZE_def)
  have l: "le_value (take 4 m) = length bs" unfolding m(1) by (rule le_value_le_bytes) (use sb(3) in simp)
  have t: "length bs + 4 = length m + length (concat cs) + length (content sb1)"
    using arg_cong [OF s(5), of length] sb(2) by simp
  have "well_framed (Some (length (concat cs) + length (content sb1))) (map (Pair idChunk) cs @ [(idEndBLOB, content sb1)])"
    using s(6,8) by (intro framed_chunks) simp
  moreover have "length bs + 4 - length m = length (concat cs) + length (content sb1)" using t by simp
  ultimately have w: "well_framed None ?ms" using m l t by (simp add: Let_def)
  have "map (\<lambda>(reqId, bs). if reqId = idStartBLOB then drop 4 bs else bs) (map (Pair idChunk) cs) = cs"
    by (induction cs) simp_all
  then have "param_bytes ?ms = drop 4 m @ concat cs @ content sb1" by (simp add: param_bytes_def)
  also have "\<dots> = drop 4 (content sb)" unfolding s(5) using m(2) by simp
  also have "\<dots> = bs" using sb(2) by simp
  finally have p: "param_bytes ?ms = bs" .
  show ?thesis
    using b sb2 same_settings_trans [OF s(3) sb2(3)] s(4) w p
    by (intro exI [of _ sb2] exI [of _ ?ms] exI [of _ "calls1 @ [Db_send idEndBLOB (content sb1) None]"]) auto
qed

text \<open>The values that the client can send as parameters.\<close>

definition supported_parameter :: "CDBVariant \<Rightarrow> bool" where
  "supported_parameter v \<longleftrightarrow>
     (case vt_data v of
        Scalar _ _ \<Rightarrow> True
      | Vt_bstr _ \<Rightarrow> True
      | Fixed_array t _ _ \<Rightarrow> t = VT_UI1 \<or> t = VT_I1
      | _ \<Rightarrow> False)"

lemma large_parameter_ok: "supported_parameter v \<Longrightarrow> \<exists>large. large_parameter v = Inr large"
  by (auto simp: supported_parameter_def large_parameter_def split: VARIANT.splits)

lemma appended_content: "appended q bs q' \<Longrightarrow> uq_inv q' \<and> same_settings q q' \<and> content q' = content q @ bs"
  by (simp add: appended_def)

lemma Send_large_ok:
  assumes E: "db_reliable E" and sb: "uq_inv sb" "content sb = concat (map value_wire pend)"
    and v: "value_valid v" and f: "fits sb (length (value_wire v) + 8)"
  shows "\<exists>sb' ms calls'. Send_large E sb first v calls = Inr (True, sb', calls') \<and> uq_inv sb' \<and> same_settings sb sb' \<and>
    content sb' = [] \<and> db_requests calls' = db_requests calls @ ms \<and> carries first ms (pend @ [v])"
proof -
  let ?w = "value_wire v"
  have r: "room q k" if "uq_inv q" "same_settings sb q" "length (content q) + k \<le> length ?w + 8" for q k
    using fits_room [OF f that] .
  obtain sb1 ms1 calls1 where s1: "Send_rows E sb first calls = Inr (True, sb1, calls1)" "uq_inv sb1" "same_settings sb sb1"
    "content sb1 = []" "db_requests calls1 = db_requests calls @ ms1" "carries first ms1 pend"
    using Send_rows_ok [OF E sb, of first calls] by blast
  have z: "m_nSize sb1 = 0" using uq_invD(1) [OF s1(2)] s1(4) by simp
  obtain sb2 where s2: "put_pod 4 sb1 0 = Inr sb2" "uq_inv sb2" "same_settings sb sb2" "content sb2 = le_bytes 4 0"
    using put_pod_ok [OF s1(2) r [OF s1(2,3)], of 4 0] s1(3,4) same_settings_trans by auto
  obtain sb3 where s3: "put_CDBVariant sb2 v = Inr sb3" "uq_inv sb3" "same_settings sb sb3" "content sb3 = le_bytes 4 0 @ ?w"
    using put_CDBVariant_ok [OF s2(2) v r [OF s2(2,3)]] s2(3,4) same_settings_trans by (auto simp: appended_def)
  have n3: "m_nSize sb3 = length ?w + 4" using uq_invD(1) [OF s3(2)] s3(4) by simp
  have b: "length ?w + 4 \<le> max32" using f by (simp add: fits_def)
  have len: "sub32 (m_nSize sb3) 4 = length ?w" using n3 b by (simp add: sub32_exact)
  obtain sb4 where s4: "Replace sb3 0 4 (Some (map Some (le_bytes 4 (length ?w)))) = Inr sb4" "uq_inv sb4"
    "same_settings sb3 sb4" "content sb4 = le_bytes 4 (length ?w) @ ?w"
    using Replace_ok [OF s3(2), of 0 4 "le_bytes 4 (length ?w)"] n3 r [OF s3(2,3), of 4] s3(4) by auto
  have "length ?w < 4294967296" using b by (simp add: max32_def)
  from Send_blob_ok [OF E s4(2,4) this, of calls1] obtain sb5 ms2 calls2 where
    s5: "Send_blob E sb4 calls1 = Inr (True, sb5, calls2)" "uq_inv sb5" "same_settings sb4 sb5" "content sb5 = []"
    "db_requests calls2 = db_requests calls1 @ ms2" "param_bytes ms2 = ?w" "well_framed None ms2"
    "idBeginRows \<notin> set (map fst ms2)" by blast
  have c: "carries False ms2 [v]" using s5(6-8) by (simp add: carries_def)
  show ?thesis
  proof (intro exI conjI)
    show "Send_large E sb first v calls = Inr (True, sb5, calls2)"
      using s1(1) z s2(1) s3(1) s4(1) s5(1) by (simp add: Send_large_def len Let_def)
    show "same_settings sb sb5" using s3(3) s4(3) s5(3) same_settings_trans by blast
    show "db_requests calls2 = db_requests calls @ ms1 @ ms2" using s1(5) s5(5) by simp
    show "carries first (ms1 @ ms2) (pend @ [v])" by (rule carries_append [OF s1(6) c])
  qed (use s5 in simp_all)
qed

lemma SendParameters_loop_ok:
  assumes E: "db_reliable E"
  shows "uq_inv sb \<Longrightarrow> content sb = concat (map value_wire pend) \<Longrightarrow>
    list_all (\<lambda>v. value_valid v \<and> supported_parameter v) vs \<Longrightarrow>
    fits sb (length (concat (map value_wire (pend @ vs))) + 8) \<Longrightarrow>
    \<exists>sb' ms calls'. SendParameters_loop E sb first vs calls = Inr (True, sb', calls') \<and> uq_inv sb' \<and>
      same_settings sb sb' \<and> content sb' = [] \<and> db_requests calls' = db_requests calls @ ms \<and> carries first ms (pend @ vs)"
proof (induction vs arbitrary: sb pend first calls)
  case Nil
  then show ?case using Send_rows_ok [OF E Nil.prems(1,2), of first calls] by simp
next
  case (Cons v vs)
  have v: "value_valid v" and vs: "list_all (\<lambda>v. value_valid v \<and> supported_parameter v) vs" using Cons.prems(3) by simp_all
  obtain large where large: "large_parameter v = Inr large" using Cons.prems(3) large_parameter_ok by auto
  have fv: "fits sb (length (value_wire v) + 8)" "fits sb (length (content sb) + length (value_wire v))"
    unfolding Cons.prems(2) by (rule fits_mono [OF Cons.prems(4)], simp)+
  define rest where "rest = (if large then [] else pend @ [v])"
  obtain sb1 ms1 calls1 where s1: "(if large then Send_large E sb first v calls
      else bindr (put_CDBVariant sb v) (\<lambda>sb. Inr (True, sb, calls))) = Inr (True, sb1, calls1)" "uq_inv sb1"
    "same_settings sb sb1" "content sb1 = concat (map value_wire rest)" "db_requests calls1 = db_requests calls @ ms1"
    "if large then carries first ms1 (pend @ [v]) else ms1 = []"
  proof (cases large)
    case True
    from Send_large_ok [OF E Cons.prems(1,2) v fv(1), of first calls] True show ?thesis
      using that by (auto simp: rest_def)
  next
    case False
    have "room sb (length (value_wire v))" by (rule fits_room [OF fv(2) Cons.prems(1)]) simp_all
    from put_CDBVariant_ok [OF Cons.prems(1) v this] False Cons.prems(2) show ?thesis
      using that [of _ calls "[]"] by (auto simp: appended_def rest_def)
  qed
  let ?first = "first \<and> \<not> large"
  have f1: "fits sb1 (length (concat (map value_wire (rest @ vs))) + 8)" if "same_settings sb sb1" for sb1
    unfolding fits_settings [OF that]
    by (rule fits_mono [OF Cons.prems(4)]) (simp add: rest_def)
  have glue: "carries first (ms1 @ ms) (pend @ v # vs)" if "carries ?first ms (rest @ vs)" for ms
  proof (cases large)
    case True
    with s1(6) that carries_append [of first ms1 "pend @ [v]" ms vs] show ?thesis by (simp add: rest_def)
  qed (use s1(6) that in \<open>simp add: rest_def\<close>)
  show ?case
  proof (cases "m_nSize sb1 \<ge> DEFAULT_RECORD_BATCH_SIZE")
    case True
    obtain sb2 ms2 calls2 where s2: "Send_rows E sb1 ?first calls1 = Inr (True, sb2, calls2)" "uq_inv sb2"
      "same_settings sb1 sb2" "content sb2 = []" "db_requests calls2 = db_requests calls1 @ ms2" "carries ?first ms2 rest"
      using Send_rows_ok [OF E s1(2,4), of ?first calls1] by blast
    note ss = same_settings_trans [OF s1(3) s2(3)]
    have "fits sb2 (length (concat (map value_wire ([] @ vs))) + 8)" by (rule fits_mono [OF f1 [OF ss]]) simp
    from Cons.IH [OF s2(2) _ vs this, of False calls2] s2(4) obtain sb3 ms3 calls3 where
      s3: "SendParameters_loop E sb2 False vs calls2 = Inr (True, sb3, calls3)" "uq_inv sb3" "same_settings sb2 sb3"
      "content sb3 = []" "db_requests calls3 = db_requests calls2 @ ms3" "carries False ms3 vs" by auto
    show ?thesis
    proof (intro exI conjI)
      show "SendParameters_loop E sb first (v # vs) calls = Inr (True, sb3, calls3)"
        using large s1(1) True s2(1) s3(1) by (simp add: Let_def)
      show "same_settings sb sb3" by (rule same_settings_trans [OF ss s3(3)])
      show "db_requests calls3 = db_requests calls @ ms1 @ ms2 @ ms3" using s1(5) s2(5) s3(5) by simp
      show "carries first (ms1 @ ms2 @ ms3) (pend @ v # vs)" by (rule glue [OF carries_append [OF s2(6) s3(6)]])
    qed (use s3 in simp_all)
  next
    case False
    from Cons.IH [OF s1(2,4) vs f1 [OF s1(3)], of ?first calls1] obtain sb3 ms3 calls3 where
      s3: "SendParameters_loop E sb1 ?first vs calls1 = Inr (True, sb3, calls3)" "uq_inv sb3" "same_settings sb1 sb3"
      "content sb3 = []" "db_requests calls3 = db_requests calls1 @ ms3" "carries ?first ms3 (rest @ vs)" by blast
    show ?thesis
    proof (intro exI conjI)
      show "SendParameters_loop E sb first (v # vs) calls = Inr (True, sb3, calls3)"
        using large s1(1) False s3(1) by (simp add: Let_def)
      show "same_settings sb sb3" by (rule same_settings_trans [OF s1(3) s3(3)])
      show "db_requests calls3 = db_requests calls @ ms1 @ ms3" using s1(5) s3(5) by simp
      show "carries first (ms1 @ ms3) (pend @ v # vs)" by (rule glue [OF s3(6)])
    qed (use s3 in simp_all)
  qed
qed

text \<open>
  C8: The parameters of a request arrive as they were given: \<^verbatim>\<open>SendParametersData\<close> sends one message
  that begins them and then messages of values; each value of 16 K units or 32 K bytes and more goes in a frame
  of its own, whose first message announces exactly the bytes that follow, in messages of 16 K bytes at most. The
  bytes of the messages one after another are read back as the values, by the reader of rows.
\<close>

theorem parameters_on_the_wire:
  assumes "db_reliable E" "uq_inv sb" "content sb = []" "vs \<noteq> []"
    and "list_all (\<lambda>v. value_valid v \<and> supported_parameter v) vs"
    and "fits sb (length (concat (map value_wire vs)) + 8)"
  shows "\<exists>sb' calls' ms. SendParametersData E sb vs calls = Inr (True, sb', calls') \<and> content sb' = [] \<and>
    db_requests calls' = db_requests calls @ ms \<and> begins True (map fst ms) \<and> well_framed None ms \<and>
    (\<forall>q w. uq_inv q \<longrightarrow> reader_mode False q \<longrightarrow> content q = param_bytes ms \<longrightarrow>
       (\<exists>q'. read_rows C True w q = Inr (map (arrives_as C w) vs, q')))"
proof -
  have "m_nSize sb = 0" using uq_invD(1) [OF assms(2)] assms(3) by simp
  moreover obtain sb' ms calls' where s: "SendParameters_loop E sb True vs calls = Inr (True, sb', calls')" "content sb' = []"
    "db_requests calls' = db_requests calls @ ms" "carries True ms vs"
    using SendParameters_loop_ok [OF assms(1,2) _ assms(5), of "[]" True calls] assms(3,6) by auto
  moreover have "list_all value_valid vs" using assms(5) by (auto simp: list_all_iff)
  ultimately have "SendParametersData E sb vs calls = Inr (True, sb', calls')"
    "\<forall>q w. uq_inv q \<longrightarrow> reader_mode False q \<longrightarrow> content q = param_bytes ms \<longrightarrow>
       (\<exists>q'. read_rows C True w q = Inr (map (arrives_as C w) vs, q'))"
    using assms(4) read_rows_ok [of _ vs C] by (simp_all add: SendParametersData_def carries_def)
  with s(2-4) show ?thesis unfolding carries_def by blast
qed

text \<open>A core that sends everything; a large text between small values.\<close>

definition good_db_env :: db_env where
  "good_db_env = \<lparr>db_sent = (\<lambda>_. True), queue_started = (\<lambda>_. True), job_started = (\<lambda>_. True)\<rparr>"

definition sample_params :: "CDBVariant list" where
  "sample_params = [db_value (Scalar VT_I4 (le_bytes 4 7)), db_value (Fixed_array VT_I1 40000 (replicate 40000 104)),
     db_value (Vt_bstr (Some [104, 105]))]"

lemma good_db_env_reliable: "db_reliable good_db_env"
  by (simp add: db_reliable_def good_db_env_def)

lemma sample_params_ok:
  "list_all (\<lambda>v. value_valid v \<and> supported_parameter v) sample_params"
  "length (concat (map value_wire sample_params)) + 8 \<le> 100000"
  by (simp_all add: sample_params_def supported_parameter_def db_value_def value_valid_def value_wire_def guid_bytes_def
      variant_wire_def scalar_width_def elem_width_def block_ok_def vt_defs bstr_ok_def UQUEUE_NULL_LENGTH_def bstr_wire_def
      lwire_def max32_def)

theorem parameters_on_the_wire_witness:
  "\<exists>sb' calls' ms. SendParametersData good_db_env small_queue sample_params [] = Inr (True, sb', calls') \<and> content sb' = [] \<and>
    db_requests calls' = db_requests [] @ ms \<and> begins True (map fst ms) \<and> well_framed None ms \<and>
    (\<forall>q w. uq_inv q \<longrightarrow> reader_mode False q \<longrightarrow> content q = param_bytes ms \<longrightarrow>
       (\<exists>q'. read_rows no_conv True w q = Inr (map (arrives_as no_conv w) sample_params, q')))"
proof (rule parameters_on_the_wire [OF good_db_env_reliable small_queue_ok(1,3) _ sample_params_ok(1)])
  show "fits small_queue (length (concat (map value_wire sample_params)) + 8)"
    by (rule fits_mono [OF small_queue_fits sample_params_ok(2)])
qed (simp add: sample_params_def)

section \<open>Rows of a query\<close>

text \<open>The handler takes a message that arrives in the empty buffer \<open>mc\<close>.\<close>

definition db_take ::
  "text_conv \<Rightarrow> uqueue \<Rightarrow> 16 word \<Rightarrow> byte list \<Rightarrow> db_client \<Rightarrow> fault + (dbc_event list \<times> db_client)"
where
  "db_take C mc reqId bs c =
     bindr (push_bytes mc bs) (\<lambda>mc. bindr (db_OnResultReturned C True reqId mc c) (\<lambda>(evs, _, c). Inr (evs, c)))"

definition dbc_header_event :: "(nat option \<times> nat option) option \<Rightarrow> CDBColumnInfo list \<Rightarrow> dbc_event list" where
  "dbc_header_event p meta = (case p of Some (Some rh, _) \<Rightarrow> [Cb_header rh meta] | _ \<Rightarrow> [])"

definition dbc_rows_event :: "(nat option \<times> nat option) option \<Rightarrow> CDBVariant list \<Rightarrow> dbc_event list" where
  "dbc_rows_event p vs = (case p of Some (_, Some row) \<Rightarrow> if vs = [] then [] else [Cb_rows row vs] | _ \<Rightarrow> [])"

lemma db_ids [simp]:
  "idRowsetHeader \<noteq> idParameterPosition" "idRowsetHeader \<noteq> idSqlBatchHeader"
  "idTransferring \<noteq> idParameterPosition" "idTransferring \<noteq> idSqlBatchHeader" "idTransferring \<noteq> idCallReturn"
  "idEndRows \<noteq> idParameterPosition" "idEndRows \<noteq> idSqlBatchHeader" "idEndRows \<noteq> idCallReturn" "idEndRows \<noteq> idTransferring"
  "idEndRows \<noteq> idOutputParameter"
  "idStartBLOB \<noteq> idParameterPosition" "idStartBLOB \<noteq> idSqlBatchHeader" "idStartBLOB \<noteq> idCallReturn" "idStartBLOB \<noteq> idOutputParameter"
  "idChunk \<noteq> idParameterPosition" "idChunk \<noteq> idSqlBatchHeader" "idChunk \<noteq> idCallReturn" "idChunk \<noteq> idOutputParameter"
  "idEndBLOB \<noteq> idParameterPosition" "idEndBLOB \<noteq> idSqlBatchHeader" "idEndBLOB \<noteq> idCallReturn" "idEndBLOB \<noteq> idOutputParameter"
  by (simp_all add: id_defs)

lemma db_on_rows:
  "db_OnResultReturned C nd idTransferring mc c = silent (on_transferring C nd mc c)"
  "db_OnResultReturned C nd idStartBLOB mc c = silent (unless_empty mc c on_start_blob)"
  "db_OnResultReturned C nd idChunk mc c = silent (unless_empty mc c on_chunk)"
  "db_OnResultReturned C nd idEndBLOB mc c = silent (on_end_blob C nd mc c)"
  "db_OnResultReturned C nd idEndRows mc c = db_on_end_rows C nd idEndRows mc c"
  "db_OnResultReturned C nd idRowsetHeader mc c = db_on_header mc c"
  by (simp_all add: db_OnResultReturned_def)

interpretation db_reader: row_receiver "db_take C mc" m_vData "\<lambda>c. content (m_Blob c)" "blob_ready w mc"
  "\<lambda>c. (m_indexRowset c, m_mapRowset c)" "arrives_as C w" for C mc w
proof (unfold_locales, goal_cases)
  case (1 n c vs)
  note r = blob_readyD [OF 1(1)]
  have "length (concat (map value_wire vs)) \<le> n + 4" using 1(3) by simp
  from message_arrives [OF r(4) this] obtain mc1 where mc1: "push_bytes mc (concat (map value_wire vs)) = Inr mc1"
    "uq_inv mc1" "reader_mode False mc1" "content mc1 = concat (map value_wire vs)" .
  from on_transferring_ok [OF mc1(2,3) 1(2) mc1(4) r(3), of C] mc1(1) blob_ready_update(3) [OF 1(1) r(1)]
  show ?case by (auto simp: db_take_def db_on_rows silent_def)
next
  case (2 n c bs k)
  note r = blob_readyD [OF 2(1)]
  have "length (le_bytes 4 k @ bs) \<le> n + 4" using 2(2) by simp
  from message_arrives [OF r(4) this] obtain mc1 where mc1: "push_bytes mc (le_bytes 4 k @ bs) = Inr mc1"
    "uq_inv mc1" "reader_mode False mc1" "content mc1 = le_bytes 4 k @ bs" .
  have "m_nSize mc1 \<noteq> 0" using uq_invD(1) [OF mc1(2)] mc1(4) by simp
  with on_start_blob_ok [OF mc1(2,4) 2(3) r(1,2) 2(2)] mc1(1) blob_ready_update(2) [OF 2(1)]
  show ?case by (auto simp: db_take_def db_on_rows silent_def unless_empty_def)
next
  case (3 n c bs)
  note r = blob_readyD [OF 3(1)]
  have "length bs \<le> n + 4" using 3(2) by simp
  from message_arrives [OF r(4) this] obtain mc1 where mc1: "push_bytes mc bs = Inr mc1"
    "uq_inv mc1" "reader_mode False mc1" "content mc1 = bs" .
  show ?case
  proof (cases "m_nSize mc1 = 0")
    case True
    then have "bs = []" using uq_invD(1) [OF mc1(2)] mc1(4) by simp
    with True mc1(1) 3(1) show ?thesis by (simp add: db_take_def db_on_rows silent_def unless_empty_def)
  next
    case False
    with on_chunk_ok [OF mc1(2) r(1,2)] 3(2) mc1(1,4) blob_ready_update(2) [OF 3(1)]
    show ?thesis by (auto simp: db_take_def db_on_rows silent_def unless_empty_def)
  qed
next
  case (4 n c v bs)
  note r = blob_readyD [OF 4(1)]
  have "length (content (m_Blob c)) + length bs = length (value_wire v)"
    using arg_cong [OF 4(4), of length] by simp
  then have "length bs \<le> n + 4" using 4(5) by linarith
  from message_arrives [OF r(4) this] obtain mc1 where mc1: "push_bytes mc bs = Inr mc1"
    "uq_inv mc1" "reader_mode False mc1" "content mc1 = bs" .
  from on_end_blob_ok [OF mc1(2) r(1-3) 4(2,3) _ 4(5), of C] 4(4) mc1(1,4) blob_ready_update(1) [OF 4(1)]
  show ?case by (auto simp: db_take_def db_on_rows silent_def)
qed

lemma db_header_arrives:
  assumes "blob_ready w mc n c" "length (header_wire meta index) \<le> n" "array_valid column_ok meta" "index < 256 ^ 8"
    and "meta \<noteq> []"
  shows "\<exists>c'. db_take C mc idRowsetHeader (header_wire meta index) c = Inr (dbc_header_event (m_mapRowset c index) meta, c') \<and>
    blob_ready w mc n c' \<and> m_vData c' = [] \<and> m_indexRowset c' = index \<and> m_mapRowset c' = m_mapRowset c"
proof -
  note r = blob_readyD [OF assms(1)]
  have "length (header_wire meta index) \<le> n + 4" using assms(2) by simp
  from message_arrives [OF r(4) this] obtain mc1 where mc1: "push_bytes mc (header_wire meta index) = Inr mc1"
    "uq_inv mc1" "reader_mode False mc1" "content mc1 = header_wire meta index" .
  then have "content mc1 = header_wire meta index @ []" by simp
  from header_read [OF mc1(2) this assms(3,4)] obtain mc2 mc3 where
    g: "get_columns mc1 = Inr (meta, mc2)" "get_pod 8 mc2 = Inr (index, mc3)" "uq_inv mc3" "content mc3 = []" by blast
  have z: "m_nSize mc3 = 0" using uq_invD(1) [OF g(3)] g(4) by simp
  obtain b where b: "shrink_blob c = Inr (c\<lparr>m_Blob := b\<rparr>)" "uq_inv b" "same_settings (m_Blob c) b"
    using shrink_blob_ok [OF r(1)] by blast
  define c1 where "c1 = c\<lparr>m_Blob := b, m_vData := [], m_vColInfo := meta, m_indexRowset := index\<rparr>"
  have "db_on_header mc1 c = Inr (dbc_header_event (m_mapRowset c index) meta, mc3, c1)"
    using b(1) g(1,2) z assms(5) by (auto simp: db_on_header_def dbc_header_event_def c1_def Let_def split: option.splits)
  moreover have "blob_ready w mc n c1"
    using blob_ready_update(1) [OF assms(1) b(2,3), of "[]"] by (simp add: blob_ready_def c1_def)
  ultimately show ?thesis using mc1(1) by (auto simp: db_take_def db_on_rows c1_def)
qed

lemma db_rows_end:
  assumes "blob_ready w mc n c" "list_all value_valid vs" "length (concat (map value_wire vs)) \<le> n"
  shows "\<exists>c'. db_take C mc idEndRows (concat (map value_wire vs)) c =
      Inr (dbc_rows_event (m_mapRowset c (m_indexRowset c)) (m_vData c @ map (arrives_as C w) vs), c') \<and>
    blob_ready w mc n c' \<and> m_vData c' = [] \<and> m_indexRowset c' = m_indexRowset c \<and> m_mapRowset c' = m_mapRowset c"
proof -
  note r = blob_readyD [OF assms(1)]
  have "length (concat (map value_wire vs)) \<le> n + 4" using assms(3) by simp
  from message_arrives [OF r(4) this] obtain mc1 where mc1: "push_bytes mc (concat (map value_wire vs)) = Inr mc1"
    "uq_inv mc1" "reader_mode False mc1" "content mc1 = concat (map value_wire vs)" .
  have w: "m_8ToW (m_Blob c) = w" using r(3) by (simp add: reader_mode_def)
  obtain mc2 where mc2: "read_rows C True w mc1 = Inr (map (arrives_as C w) vs, mc2)"
    using read_rows_ok [OF mc1(2,3) assms(2) mc1(4)] by blast
  have nz: "m_nSize mc1 = 0 \<longleftrightarrow> vs = []"
  proof -
    have "m_nSize mc1 = length (concat (map value_wire vs))" using uq_invD(1) [OF mc1(2)] mc1(4) by simp
    then have "2 * length vs \<le> m_nSize mc1" "vs = [] \<Longrightarrow> m_nSize mc1 = 0"
      using length_wires [of vs] by (simp_all only:) simp_all
    then show ?thesis by (cases vs) auto
  qed
  show ?thesis
    using mc1(1) mc2 nz w blob_ready_update(3) [OF assms(1) r(1), of "[]"] assms(1)
    by (auto simp: db_take_def db_on_rows db_on_end_rows_def dbc_rows_event_def Let_def split: option.splits)
qed

interpretation query: rowset_receiver "db_take C mc" m_vData "\<lambda>c. content (m_Blob c)" "blob_ready w mc"
  "\<lambda>c. (m_indexRowset c, m_mapRowset c)" "arrives_as C w" "\<lambda>(i, m) vs. dbc_rows_event (m i) vs" "\<lambda>_. True" for C mc w
proof (unfold_locales, goal_cases)
  case (1 n c vs)
  then show ?case using db_rows_end [OF 1(1,3,4), of C] by auto
qed

section \<open>From a query to its result\<close>

text \<open>The bytes of the result of an execution, and the result as it arrives in the empty buffer \<open>ar\<close>.\<close>

definition result_wire :: "64 word \<Rightarrow> 32 word \<Rightarrow> nat list \<Rightarrow> CDBVariant \<Rightarrow> nat \<Rightarrow> byte list" where
  "result_wire affected res errMsg vtId fail_ok =
     le_bytes 8 (unat affected) @ le_bytes 4 (unat res) @ lwire (vec_bytes 2 errMsg) @ value_wire vtId @ le_bytes 8 fail_ok"

definition db_answer ::
  "text_conv \<Rightarrow> uqueue \<Rightarrow> db_reply \<Rightarrow> byte list \<Rightarrow> db_client \<Rightarrow> fault + (dbc_event list \<times> db_client)"
where
  "db_answer C ar r bs c =
     bindr (push_bytes ar bs) (\<lambda>ar. bindr (db_on_reply C True r ar c) (\<lambda>(evs, _, c). Inr (evs, c)))"

lemma get_int_ok:
  assumes "uq_inv q" "content q = le_bytes 4 (unat v) @ rest"
  shows "\<exists>q'. get_int q = Inr (v, q') \<and> uq_inv q' \<and> same_settings q q' \<and> content q' = rest"
proof -
  have "unat v < 256 ^ 4" using unsigned_less [of v] by simp
  from get_pod_ok [OF assms(1) this assms(2)] show ?thesis by (auto simp: get_int_def)
qed

lemma Process_ok:
  assumes "message_buffer ar n" "length (result_wire affected res errMsg vtId fail_ok) \<le> n"
    and "list_all (\<lambda>u. u < 65536) errMsg" "2 * length errMsg < UQUEUE_NULL_LENGTH" "value_marked vtId" "fail_ok < 256 ^ 8"
  shows "\<exists>c'. db_answer C ar (Re_process handler reqId index) (result_wire affected res errMsg vtId fail_ok) c =
      Inr (case handler of None \<Rightarrow> [] | Some h \<Rightarrow> [Cb_execute h res errMsg affected fail_ok vtId], c') \<and>
    m_mapRowset c' = (m_mapRowset c)(index := None) \<and> m_mapParameterCall c' = (m_mapParameterCall c)(index := None) \<and>
    m_mapHandler c' = (m_mapHandler c)(index := None) \<and> m_affected c' = affected \<and> m_dbErrCode c' = res \<and> m_dbErrMsg c' = errMsg"
proof -
  from message_arrives [OF assms(1,2)] obtain q0 where q0: "push_bytes ar (result_wire affected res errMsg vtId fail_ok) = Inr q0"
    "uq_inv q0" "reader_mode False q0"
    "content q0 = le_bytes 8 (unat affected) @ le_bytes 4 (unat res) @ lwire (vec_bytes 2 errMsg) @ value_wire vtId @ le_bytes 8 fail_ok"
    unfolding result_wire_def .
  have a: "unat affected < 256 ^ 8" using unsigned_less [of affected] by simp
  obtain q1 where q1: "get_pod 8 q0 = Inr (unat affected, q1)" "uq_inv q1" "same_settings q0 q1"
    "content q1 = le_bytes 4 (unat res) @ lwire (vec_bytes 2 errMsg) @ value_wire vtId @ le_bytes 8 fail_ok"
    using get_pod_ok [OF q0(2) a q0(4)] by blast
  obtain q2 where q2: "get_int q1 = Inr (res, q2)" "uq_inv q2" "same_settings q1 q2"
    "content q2 = lwire (vec_bytes 2 errMsg) @ value_wire vtId @ le_bytes 8 fail_ok"
    using get_int_ok [OF q1(2,4)] by blast
  have e: "list_all (\<lambda>u. u < 256 ^ 2) errMsg \<and> 2 * length errMsg < UQUEUE_NULL_LENGTH" using assms(3,4) by simp
  obtain q3 where q3: "get_u16string q2 = Inr (errMsg, q3)" "uq_inv q3" "same_settings q2 q3"
    "content q3 = value_wire vtId @ le_bytes 8 fail_ok"
    using get_u16string_ok [OF q2(2) e q2(4)] by blast
  have s: "same_settings q0 q3" using q1(3) q2(3) q3(3) same_settings_trans by blast
  have v: "value_valid vtId" using assms(5) by (simp add: value_marked_def)
  obtain q4 where q4: "get_CDBVariant C True q3 = Inr (vtId, q4)" "uq_inv q4" "content q4 = le_bytes 8 fail_ok @ []"
    using get_CDBVariant_ok [OF q3(2) reader_mode_settings [OF s q0(3)] v q3(4), of C] arrives_plain [OF assms(5)] by auto
  obtain q5 where "get_pod 8 q4 = Inr (fail_ok, q5)" using get_pod_ok [OF q4(2) assms(6) q4(3)] by blast
  with q0(1) q1(1) q2(1) q3(1) q4(1) show ?thesis
    by (auto simp: db_answer_def Process_def Let_def split: option.split)
qed

lemma put_bool_ok:
  "uq_inv q \<Longrightarrow> room q 1 \<Longrightarrow>
   \<exists>q'. put_bool q b = Inr q' \<and> uq_inv q' \<and> same_settings q q' \<and> content q' = content q @ le_bytes 1 (if b then 1 else 0)"
  unfolding put_bool_def by (rule put_pod_ok)

lemma Execute_sql_ok:
  assumes E: "db_reliable E" and sb: "uq_inv sb" "content sb = []" "bstr_ok sql" "fits sb (length (bstr_wire sql) + 11)"
  shows "\<exists>bs. Execute_sql E sb index sql handler row rh meta lastInsertId c calls =
    Inr (True, expect_rows index rh row meta c,
         calls @ [Db_send idExecute (bs @ le_bytes 8 index) (Some (Re_process handler idExecute index))])"
proof -
  have r: "room q k" if "uq_inv q" "same_settings sb q" "length (content q) + k \<le> length (bstr_wire sql) + 11" for q k
    using fits_room [OF sb(4) that] .
  have "room sb (length (bstr_wire sql))" using r [OF sb(1)] sb(2) by simp
  from put_bstr_ok [OF sb(1,3) this] sb(2) obtain q1 where q1: "put_bstr sb sql = Inr q1" "uq_inv q1" "same_settings sb q1"
    "content q1 = bstr_wire sql" by (auto simp: appended_def)
  have b: "\<exists>q'. put_bool q b = Inr q' \<and> uq_inv q' \<and> same_settings sb q' \<and> length (content q') = length (content q) + 1"
    if "uq_inv q" "same_settings sb q" "length (content q) \<le> length (bstr_wire sql) + 10" for q b
    using put_bool_ok [OF that(1) r [OF that(1,2)], of b] that same_settings_trans [OF that(2)] by auto
  obtain q2 where q2: "put_bool q1 (row \<noteq> None) = Inr q2" "uq_inv q2" "same_settings sb q2"
    "length (content q2) = length (bstr_wire sql) + 1"
    using b [OF q1(2,3), of "row \<noteq> None"] q1(4) by auto
  obtain q3 where q3: "put_bool q2 (meta \<and> rh \<noteq> None) = Inr q3" "uq_inv q3" "same_settings sb q3"
    "length (content q3) = length (bstr_wire sql) + 2"
    using b [OF q2(2,3), of "meta \<and> rh \<noteq> None"] q2(4) by auto
  obtain q4 where q4: "put_bool q3 lastInsertId = Inr q4" "uq_inv q4" "same_settings sb q4"
    "length (content q4) = length (bstr_wire sql) + 3"
    using b [OF q3(2,3), of lastInsertId] q3(4) by auto
  obtain q5 where q5: "put_pod 8 q4 index = Inr q5" "uq_inv q5" "content q5 = content q4 @ le_bytes 8 index"
    using put_pod_ok [OF q4(2) r [OF q4(2,3)], of 8 index] q4(4) by auto
  show ?thesis
    using q1(1) q2(1) q3(1) q4(1) q5 by (auto simp: Execute_sql_def Let_def db_send_buffer_reliable [OF E])
qed

lemma blob_ready_expect:
  "blob_ready w mc n (expect_rows index rh row meta c) = blob_ready w mc n c"
  "m_vData (expect_rows index rh row meta c) = m_vData c"
  by (simp_all add: expect_rows_def blob_ready_def)

text \<open>
  C7: A query that the client sends is answered to the application: the rowset that a server sends for the index
  the request ends with, in any number of batches and with values of any size, reaches the callbacks that were
  given for the header and for the rows, the result reaches the callback for results with every field of it, and
  the callbacks are forgotten afterwards, while those of other requests stay.
\<close>

theorem query_reaches_application:
  assumes "db_reliable E" "uq_inv sb" "content sb = []" "bstr_ok sql" "fits sb (length (bstr_wire sql) + 11)"
    and "blob_ready w mc n c" "m_vData c = []" "m_mapRowset c index = None" "index < 256 ^ 8"
    and "reliable S" "uq_inv new" "content new = []" "fits new (n + 10)"
    and "array_valid column_ok meta" "meta \<noteq> []" "length (header_wire meta index) \<le> n"
    and "list_all (\<lambda>vs. list_all value_valid vs \<and> length (concat (map value_wire vs)) \<le> n) vss"
    and "message_buffer ar n" "length (result_wire affected res errMsg vtId fail_ok) \<le> n"
    and "list_all (\<lambda>u. u < 65536) errMsg" "2 * length errMsg < UQUEUE_NULL_LENGTH" "value_marked vtId" "fail_ok < 256 ^ 8"
  shows "\<exists>bs c1 calls1 calls2 ms c2 c3.
    Execute_sql E sb index sql handler (Some row) (Some rh) True lastInsertId c calls =
      Inr (True, c1, calls @ [Db_send idExecute (bs @ le_bytes 8 index) (Some (Re_process handler idExecute index))]) \<and>
    SendMeta S new meta index sent = Inr (True, calls1) \<and> send_batches S new vss calls1 = Inr (True, calls2) \<and>
    results calls2 = results sent @ ms \<and>
    receive (db_take C mc) ms c1 =
      Inr (Cb_header rh meta # concat (map (\<lambda>vs. if vs = [] then [] else [Cb_rows row (map (arrives_as C w) vs)]) vss), c2) \<and>
    db_answer C ar (Re_process handler idExecute index) (result_wire affected res errMsg vtId fail_ok) c2 =
      Inr (case handler of None \<Rightarrow> [] | Some h \<Rightarrow> [Cb_execute h res errMsg affected fail_ok vtId], c3) \<and>
    m_mapRowset c3 = m_mapRowset c"
proof -
  let ?c1 = "expect_rows index (Some rh) (Some row) True c"
  obtain bs where e: "Execute_sql E sb index sql handler (Some row) (Some rh) True lastInsertId c calls =
      Inr (True, ?c1, calls @ [Db_send idExecute (bs @ le_bytes 8 index) (Some (Re_process handler idExecute index))])"
    using Execute_sql_ok [OF assms(1-5)] by blast
  have m1: "m_mapRowset ?c1 = (m_mapRowset c)(index \<mapsto> (Some rh, Some row))"
    using assms(8) by (simp add: expect_rows_def emplace_def)
  have r1: "blob_ready w mc n ?c1" using assms(6) by (simp add: blob_ready_expect)
  have f: "fits new (length (header_wire meta index))" by (rule fits_mono [OF assms(13)]) (use assms(16) in simp)
  obtain calls1 where m: "SendMeta S new meta index sent = Inr (True, calls1)"
    "results calls1 = results sent @ [(idRowsetHeader, header_wire meta index)]"
    using SendMeta_reliable [OF assms(10-12,14) f] by blast
  obtain ch where ch: "db_take C mc idRowsetHeader (header_wire meta index) ?c1 = Inr ([Cb_header rh meta], ch)"
    "blob_ready w mc n ch" "m_vData ch = []" "m_indexRowset ch = index" "m_mapRowset ch = m_mapRowset ?c1"
    using db_header_arrives [OF r1 assms(16,14,9,15), of C] m1 by (auto simp: dbc_header_event_def)
  obtain calls2 ms c2 where b: "send_batches S new vss calls1 = Inr (True, calls2)" "results calls2 = results calls1 @ ms"
    "receive (db_take C mc) ms ch =
      Inr (concat (map (\<lambda>vs. if vs = [] then [] else [Cb_rows row (map (arrives_as C w) vs)]) vss), c2)"
    "m_mapRowset c2 = m_mapRowset ?c1"
    using query.batches_arrive [OF assms(10-13) ch(2,3) TrueI assms(17), of calls1 C] ch(4,5) m1
    by (auto simp: dbc_rows_event_def cong: if_cong)
  obtain c3 where c3: "db_answer C ar (Re_process handler idExecute index) (result_wire affected res errMsg vtId fail_ok) c2 =
      Inr (case handler of None \<Rightarrow> [] | Some h \<Rightarrow> [Cb_execute h res errMsg affected fail_ok vtId], c3)"
    "m_mapRowset c3 = (m_mapRowset c2)(index := None)"
    using Process_ok [OF assms(18-23)] by blast
  have "m_mapRowset c3 = m_mapRowset c" unfolding c3(2) b(4) m1 using assms(8) by auto
  moreover have "receive (db_take C mc) ((idRowsetHeader, header_wire meta index) # ms) ?c1 =
      Inr (Cb_header rh meta # concat (map (\<lambda>vs. if vs = [] then [] else [Cb_rows row (map (arrives_as C w) vs)]) vss), c2)"
    using ch(1) b(3) by simp
  moreover have "results calls2 = results sent @ (idRowsetHeader, header_wire meta index) # ms" using m(2) b(2) by simp
  ultimately show ?thesis using e m(1) b(1) c3(1) by blast
qed

text \<open>A handler with another request under way.\<close>

definition sample_client :: db_client where
  "sample_client = (CAsyncDBHandler_new small_queue)\<lparr>m_mapRowset := [3 \<mapsto> (None, Some 9)]\<rparr>"

lemma sample_client_ready: "blob_ready True small_queue 90000 sample_client"
  using small_queue_ok(1-3) small_queue_fits
  by (simp add: blob_ready_def sample_client_def CAsyncDBHandler_new_def message_buffer_def reader_mode_def
      plain_mode_def fits_def)

theorem query_reaches_application_witness:
  "\<exists>bs c1 calls1 calls2 ms c2 c3.
    Execute_sql good_db_env small_queue 5 (Some [115]) (Some 7) (Some 2) (Some 1) True True sample_client [] =
      Inr (True, c1, [] @ [Db_send idExecute (bs @ le_bytes 8 5) (Some (Re_process (Some 7) idExecute 5))]) \<and>
    SendMeta good_peer small_queue [sample_column] 5 [] = Inr (True, calls1) \<and>
    send_batches good_peer small_queue sample_rows calls1 = Inr (True, calls2) \<and> results calls2 = results [] @ ms \<and>
    receive (db_take no_conv small_queue) ms c1 =
      Inr (Cb_header 1 [sample_column] #
        concat (map (\<lambda>vs. if vs = [] then [] else [Cb_rows 2 (map (arrives_as no_conv True) vs)]) sample_rows), c2) \<and>
    db_answer no_conv small_queue (Re_process (Some 7) idExecute 5)
      (result_wire 2 0 [111, 107] (db_value (Scalar VT_NULL [])) 1) c2 =
      Inr (case Some 7 of None \<Rightarrow> [] | Some h \<Rightarrow> [Cb_execute h 0 [111, 107] 2 1 (db_value (Scalar VT_NULL []))], c3) \<and>
    m_mapRowset c3 = m_mapRowset sample_client"
proof (rule query_reaches_application [OF good_db_env_reliable small_queue_ok(1,3) _ _ sample_client_ready _ _ _
      good_peer_reliable small_queue_ok(1,3) _ sample_column_ok(1) _ sample_column_ok(2) sample_rows_ok])
  show "bstr_ok (Some [115])" by (simp add: bstr_ok_def UQUEUE_NULL_LENGTH_def max32_def)
  show "fits small_queue (length (bstr_wire (Some [115])) + 11)"
    by (rule fits_mono [OF small_queue_fits]) (simp add: bstr_wire_def lwire_def)
  show "fits small_queue (90000 + 10)" by (rule fits_mono [OF small_queue_fits]) simp
  show "message_buffer small_queue 90000"
    using small_queue_ok(1-3) fits_mono [OF small_queue_fits, of 90000] by (simp add: message_buffer_def)
qed (simp_all add: sample_client_def CAsyncDBHandler_new_def result_wire_def lwire_def value_wire_def guid_bytes_def
      variant_wire_def db_value_def value_marked_def value_valid_def scalar_width_def vt_defs UQUEUE_NULL_LENGTH_def max32_def)

section \<open>Output parameters\<close>

lemma db_output_step:
  assumes r: "blob_ready w mc n c" "m_vData c = []"
    and vs: "vs \<noteq> []" "list_all value_valid vs" "length (concat (map value_wire vs)) \<le> n"
  shows "db_take C mc idOutputParameter (concat (map value_wire vs)) c =
    bindr (on_output (c\<lparr>m_vData := map (arrives_as C w) vs\<rparr>)) (\<lambda>c. Inr ([], c\<lparr>m_vData := []\<rparr>))"
proof -
  note b = blob_readyD [OF r(1)]
  have "length (concat (map value_wire vs)) \<le> n + 4" using vs(3) by simp
  from message_arrives [OF b(4) this] obtain mc1 where mc1: "push_bytes mc (concat (map value_wire vs)) = Inr mc1"
    "uq_inv mc1" "reader_mode False mc1" "content mc1 = concat (map value_wire vs)" .
  obtain mc2 where mc2: "read_rows C True w mc1 = Inr (map (arrives_as C w) vs, mc2)"
    using read_rows_ok [OF mc1(2,3) vs(2) mc1(4)] by blast
  have w: "m_8ToW (m_Blob c) = w" using b(3) by (simp add: reader_mode_def)
  have "0 < length vs" using vs(1) by simp
  moreover have "m_nSize mc1 = length (concat (map value_wire vs))" using uq_invD(1) [OF mc1(2)] mc1(4) by simp
  ultimately have nz: "m_nSize mc1 \<noteq> 0" using length_wires [of vs] by linarith
  have i: "db_OnResultReturned C True idOutputParameter mc1 c = db_on_end_rows C True idOutputParameter mc1 c"
    by (simp add: db_OnResultReturned_def id_defs)
  show ?thesis
    by (cases "on_output (c\<lparr>m_vData := map (arrives_as C w) vs\<rparr>)")
       (simp_all add: db_take_def mc1(1) i db_on_end_rows_def nz w mc2 r(2) Let_def)
qed

lemma store_values_ok:
  "pos + length vs \<le> length arr \<Longrightarrow>
   store_values arr pos vs = Inr (take pos arr @ vs @ drop (pos + length vs) arr)"
proof (induction vs arbitrary: arr pos)
  case (Cons v vs)
  then have p: "pos < length arr" "pos + 1 + length vs \<le> length (arr[pos := v])" by simp_all
  have "take (pos + 1) (arr[pos := v]) = take pos arr @ [v]" using p(1) by (simp add: take_Suc_conv_app_nth)
  moreover have "drop (pos + 1 + length vs) (arr[pos := v]) = drop (pos + length (v # vs)) arr" by simp
  ultimately show ?case using Cons.IH [OF p(2)] p(1) by simp
qed simp

text \<open>
  A handler that awaits the outputs of the call \<open>k\<close> of a prepared statement with \<open>P\<close> parameters, to be stored
  in the array \<open>arr\<close> at the address \<open>a\<close>.
\<close>

definition awaits_outputs :: "nat \<Rightarrow> nat \<Rightarrow> nat \<Rightarrow> CDBVariant list \<Rightarrow> db_client \<Rightarrow> bool" where
  "awaits_outputs a P k arr c \<longleftrightarrow>
     m_vData c = [] \<and> m_mapParameterCall c (m_indexRowset c) = Some a \<and> app_arrays c a = Some arr \<and>
     m_parameters c = word_of_nat P \<and> m_indexProc c = word_of_nat k \<and> m_lastReqId c \<noteq> idSqlBatchHeader"

text \<open>Where they belong: at the end of the \<open>P\<close> values of each call.\<close>

fun place_outputs :: "nat \<Rightarrow> CDBVariant list \<Rightarrow> CDBVariant list list \<Rightarrow> CDBVariant list" where
  "place_outputs P arr [] = arr"
| "place_outputs P arr (outs # outss) =
     take (P - length outs) arr @ outs @ place_outputs P (drop P arr) outss"

definition output_messages :: "CDBVariant list list \<Rightarrow> (16 word \<times> byte list) list" where
  "output_messages outss = map (\<lambda>vs. (idOutputParameter, concat (map value_wire vs))) outss"

lemma output_position_ok:
  assumes "m_lastReqId c \<noteq> idSqlBatchHeader" "m_parameters c = word_of_nat P" "m_indexProc c = word_of_nat k"
    and "length (m_vData c) \<le> P * k + P" "P * k + P < 4294967296"
  shows "unat (output_position c) = P * k + P - length (m_vData c)"
proof -
  have "output_position c = word_of_nat (P * k + P - length (m_vData c))"
    using assms(1-4) by (simp add: output_position_def)
  moreover have "P * k + P - length (m_vData c) < 2 ^ LENGTH(32)" using assms(5) by simp
  ultimately show ?thesis by (simp add: unsigned_of_nat take_bit_nat_eq_self)
qed

lemma output_arrives:
  assumes r: "blob_ready w mc n c" and c: "awaits_outputs a P k arr c"
    and vs: "vs \<noteq> []" "list_all value_valid vs" "length (concat (map value_wire vs)) \<le> n"
    and P: "length vs \<le> P * k + P" "P * k + P \<le> length arr" "P * k + P < 4294967296"
  shows "\<exists>c'. db_take C mc idOutputParameter (concat (map value_wire vs)) c = Inr ([], c') \<and> blob_ready w mc n c' \<and>
    awaits_outputs a P (k + 1) (take (P * k + P - length vs) arr @ map (arrives_as C w) vs @ drop (P * k + P) arr) c'"
proof -
  let ?outs = "map (arrives_as C w) vs"
  note a = c [unfolded awaits_outputs_def]
  define c1 where "c1 = count_outputs (c\<lparr>m_vData := ?outs\<rparr>)"
  have c1: "m_vData c1 = ?outs" "m_mapParameterCall c1 (m_indexRowset c1) = Some a" "app_arrays c1 a = Some arr"
    "m_parameters c1 = word_of_nat P" "m_indexProc c1 = word_of_nat k" "m_lastReqId c1 \<noteq> idSqlBatchHeader" "m_Blob c1 = m_Blob c"
    using a by (simp_all add: c1_def count_outputs_def Let_def)
  have p: "unat (output_position c1) = P * k + P - length vs"
    using output_position_ok [OF c1(6,4,5) _ P(3)] P(1) c1(1) by simp
  have "store_values arr (P * k + P - length vs) ?outs =
      Inr (take (P * k + P - length vs) arr @ ?outs @ drop (P * k + P) arr)"
    using store_values_ok [of "P * k + P - length vs" ?outs arr] P(1,2) by simp
  then have "on_output (c\<lparr>m_vData := ?outs\<rparr>) =
      Inr (c1\<lparr>app_arrays := (app_arrays c1)(a \<mapsto> take (P * k + P - length vs) arr @ ?outs @ drop (P * k + P) arr),
              m_indexProc := word_of_nat (k + 1)\<rparr>)"
    using c1(1,2,3,5) p
    by (simp add: on_output_def write_back_def parameters_at_def c1_def [symmetric] Let_def add.commute)
  with db_output_step [OF r _ vs, of C] a c1 r show ?thesis
    by (simp add: awaits_outputs_def blob_ready_def)
qed

text \<open>More outputs than all parameters up to this call: the position wraps around.\<close>

lemma on_output_far:
  assumes "awaits_outputs a P k arr c" "length outs = P * k + P + d" "0 < d" "d \<le> 65536"
    and "store_values arr (4294967296 - d) outs = Inl e"
  shows "on_output (c\<lparr>m_vData := outs\<rparr>) = Inl e"
proof -
  note a = assms(1) [unfolded awaits_outputs_def]
  define c1 where "c1 = count_outputs (c\<lparr>m_vData := outs\<rparr>)"
  have c1: "m_vData c1 = outs" "m_mapParameterCall c1 (m_indexRowset c1) = Some a" "app_arrays c1 a = Some arr"
    "m_parameters c1 = word_of_nat P" "m_indexProc c1 = word_of_nat k" "m_lastReqId c1 \<noteq> idSqlBatchHeader"
    using a by (simp_all add: c1_def count_outputs_def Let_def)
  have "output_position c1 = - word_of_nat d" using c1 assms(2) by (simp add: output_position_def)
  moreover have "(- word_of_nat d :: 32 word) = word_of_nat (4294967296 - d)" using assms(4) by (simp add: of_nat_diff)
  moreover have "unat (word_of_nat (4294967296 - d) :: 32 word) = 4294967296 - d"
    using assms(3) by (simp add: unsigned_of_nat take_bit_nat_eq_self)
  ultimately have "unat (output_position c1) = 4294967296 - d" by simp
  then show ?thesis
    using c1(1-3) assms(5) by (simp add: on_output_def write_back_def parameters_at_def c1_def [symmetric] Let_def)
qed

lemma outputs_arrive:
  "blob_ready w mc n c \<Longrightarrow> awaits_outputs a P k arr c \<Longrightarrow>
   list_all (\<lambda>vs. vs \<noteq> [] \<and> list_all value_valid vs \<and> length (concat (map value_wire vs)) \<le> n \<and> length vs \<le> P) outss \<Longrightarrow>
   P * (k + length outss) \<le> length arr \<Longrightarrow> P * (k + length outss) < 4294967296 \<Longrightarrow>
   \<exists>c'. receive (db_take C mc) (output_messages outss) c = Inr ([], c') \<and>
     app_arrays c' a = Some (take (P * k) arr @ place_outputs P (drop (P * k) arr) (map (map (arrives_as C w)) outss)) \<and>
     m_indexProc c' = word_of_nat (k + length outss)"
proof (induction outss arbitrary: c k arr)
  case Nil
  then show ?case by (simp add: output_messages_def awaits_outputs_def)
next
  case (Cons vs outss)
  have vs: "vs \<noteq> []" "list_all value_valid vs" "length (concat (map value_wire vs)) \<le> n" "length vs \<le> P"
    using Cons.prems(3) by simp_all
  have l: "P * k + P \<le> length arr" "P * k + P < 4294967296"
    using Cons.prems(4,5) by (simp_all add: algebra_simps)
  let ?arr = "take (P * k + P - length vs) arr @ map (arrives_as C w) vs @ drop (P * k + P) arr"
  obtain c1 where c1: "db_take C mc idOutputParameter (concat (map value_wire vs)) c = Inr ([], c1)" "blob_ready w mc n c1"
    "awaits_outputs a P (k + 1) ?arr c1"
    using output_arrives [OF Cons.prems(1,2) vs(1-3) _ l, of C] vs(4) by fastforce
  have s: "P * k + P - length vs = P * k + (P - length vs)" using vs(4) by simp
  have la: "length ?arr = length arr" using vs(4) l(1) by simp
  have h: "take (P * (k + 1)) ?arr = take (P * k) arr @ take (P - length vs) (drop (P * k) arr) @ map (arrives_as C w) vs"
    using vs(4) l(1) unfolding s take_add by simp
  have t: "drop (P * (k + 1)) ?arr = drop P (drop (P * k) arr)"
    using vs(4) l(1) by (simp add: add.commute)
  have "P * (k + 1 + length outss) \<le> length ?arr" "P * (k + 1 + length outss) < 4294967296"
    unfolding la using Cons.prems(4,5) by simp_all
  from Cons.IH [OF c1(2,3) _ this] Cons.prems(3) obtain c2 where
    c2: "receive (db_take C mc) (output_messages outss) c1 = Inr ([], c2)"
    "app_arrays c2 a = Some (take (P * (k + 1)) ?arr @ place_outputs P (drop (P * (k + 1)) ?arr) (map (map (arrives_as C w)) outss))"
    "m_indexProc c2 = word_of_nat (k + 1 + length outss)" by auto
  have "app_arrays c2 a = Some (take (P * k) arr @ place_outputs P (drop (P * k) arr) (map (map (arrives_as C w)) (vs # outss)))"
    unfolding c2(2) h t by simp
  with c1(1) c2(1,3) show ?case by (simp add: output_messages_def)
qed

text \<open>
  C25: The output parameters of a prepared statement that is executed for several sets of parameters at once are
  stored in the array that the application gave: those of each call at the end of the parameters of that
  call, in order; no other value of the array is changed.
\<close>

theorem output_parameters_placed:
  assumes "blob_ready w mc n c" "awaits_outputs a P 0 arr c"
    and "list_all (\<lambda>vs. vs \<noteq> [] \<and> list_all value_valid vs \<and> length (concat (map value_wire vs)) \<le> n \<and> length vs \<le> P) outss"
    and "P * length outss \<le> length arr" "P * length outss < 4294967296"
  shows "\<exists>c'. receive (db_take C mc) (output_messages outss) c = Inr ([], c') \<and>
     app_arrays c' a = Some (place_outputs P arr (map (map (arrives_as C w)) outss))"
  using outputs_arrive [OF assms(1-3), of C] assms(4,5) by auto

text \<open>Two calls of a statement with three parameters, the last of which is an output.\<close>

definition sample_outputs :: db_client where
  "sample_outputs = sample_client
     \<lparr>m_indexRowset := 5, m_mapParameterCall := [5 \<mapsto> 1], app_arrays := [1 \<mapsto> replicate 6 CDBVariant_new],
      m_parameters := 3, m_lastReqId := idPrepare\<rparr>"

lemma sample_outputs_ready: "blob_ready True small_queue 90000 sample_outputs"
  using sample_client_ready by (simp add: sample_outputs_def blob_ready_def)

lemma int_value_wire: "length (value_wire (db_value (Scalar VT_I4 (le_bytes 4 k)))) = 6"
  "value_valid (db_value (Scalar VT_I4 (le_bytes 4 k)))"
  by (simp_all add: value_wire_def value_valid_def db_value_def guid_bytes_def variant_wire_def scalar_width_def vt_defs)

theorem output_parameters_placed_witness:
  "\<exists>c'. receive (db_take no_conv small_queue)
      (output_messages [[db_value (Scalar VT_I4 (le_bytes 4 7))], [db_value (Scalar VT_I4 (le_bytes 4 8))]]) sample_outputs = Inr ([], c') \<and>
    app_arrays c' 1 = Some (place_outputs 3 (replicate 6 CDBVariant_new)
      (map (map (arrives_as no_conv True)) [[db_value (Scalar VT_I4 (le_bytes 4 7))], [db_value (Scalar VT_I4 (le_bytes 4 8))]]))"
proof (rule output_parameters_placed [OF sample_outputs_ready])
  show "awaits_outputs 1 3 0 (replicate 6 CDBVariant_new) sample_outputs"
    by (simp add: awaits_outputs_def sample_outputs_def sample_client_def CAsyncDBHandler_new_def id_defs)
qed (simp_all add: int_value_wire)

text \<open>
  C27: A server that sends more output parameters for a call than the statement has parameters makes the client write
  where it should not: the position is computed modulo \<open>2 ^ 32\<close> from the number of values that arrived and
  compared with nothing. If there are more values than the parameters of this call and of all calls before it,
  the position wraps around and the client writes outside of the array; otherwise the values overwrite
  parameters of earlier calls, up to the end of the values of this call.
\<close>

theorem surplus_outputs_overrun:
  assumes "blob_ready w mc n c" "awaits_outputs a P k arr c"
    and "list_all value_valid vs" "length (concat (map value_wire vs)) \<le> n"
    and "P < length vs" "length vs \<le> 65536" "P * (k + 1) \<le> length arr" "length arr \<le> 4294901760"
  shows "if P * (k + 1) < length vs
    then db_take C mc idOutputParameter (concat (map value_wire vs)) c = Inl Out_Of_Bounds
    else \<exists>c'. db_take C mc idOutputParameter (concat (map value_wire vs)) c = Inr ([], c') \<and> P * (k + 1) - length vs < P * k \<and>
      app_arrays c' a = Some (take (P * (k + 1) - length vs) arr @ map (arrives_as C w) vs @ drop (P * (k + 1)) arr)"
proof (cases "P * (k + 1) < length vs")
  case True
  have ne: "vs \<noteq> []" using assms(5) by auto
  define d where "d = length vs - P * (k + 1)"
  have d: "0 < d" "d \<le> 65536" "length vs = P * k + P + d" using True assms(6) by (simp_all add: d_def)
  have "store_values arr (4294967296 - d) (map (arrives_as C w) vs) = Inl Out_Of_Bounds"
    using ne d(2) assms(8) by (cases vs) auto
  then have "on_output (c\<lparr>m_vData := map (arrives_as C w) vs\<rparr>) = Inl Out_Of_Bounds"
    using on_output_far [OF assms(2) _ d(1,2), of "map (arrives_as C w) vs"] d(3) by simp
  with db_output_step [OF assms(1) _ ne assms(3,4), of C] assms(2) True show ?thesis by (simp add: awaits_outputs_def)
next
  case False
  have ne: "vs \<noteq> []" using assms(5) by auto
  have "length vs \<le> P * k + P" "P * k + P \<le> length arr" "P * k + P < 4294967296" using False assms(7,8) by simp_all
  from output_arrives [OF assms(1,2) ne assms(3,4) this, of C] assms(5) False show ?thesis
    by (auto simp: awaits_outputs_def add.commute)
qed

text \<open>
  Four outputs of a statement with three parameters: in the first call they are written outside of the array, in the
  second one the first of them replaces the last value of the first call.
\<close>

theorem surplus_outputs_overrun_witness:
  "let vs = replicate 4 (db_value (Scalar VT_I4 (le_bytes 4 7))) in
    db_take no_conv small_queue idOutputParameter (concat (map value_wire vs)) sample_outputs = Inl Out_Of_Bounds \<and>
    (\<exists>c'. db_take no_conv small_queue idOutputParameter (concat (map value_wire vs)) (sample_outputs\<lparr>m_indexProc := 1\<rparr>) = Inr ([], c') \<and>
       app_arrays c' 1 = Some (replicate 2 CDBVariant_new @ map (arrives_as no_conv True) vs))"
proof -
  let ?vs = "replicate 4 (db_value (Scalar VT_I4 (le_bytes 4 7)))"
  have vs: "list_all value_valid ?vs" "length (concat (map value_wire ?vs)) \<le> 90000" "3 < length ?vs" "length ?vs \<le> 65536"
    by (simp_all add: int_value_wire list_all_iff length_concat sum_list_replicate)
  have "awaits_outputs 1 3 0 (replicate 6 CDBVariant_new) sample_outputs"
    "awaits_outputs 1 3 1 (replicate 6 CDBVariant_new) (sample_outputs\<lparr>m_indexProc := 1\<rparr>)"
    by (simp_all add: awaits_outputs_def sample_outputs_def sample_client_def CAsyncDBHandler_new_def id_defs)
  moreover have "blob_ready True small_queue 90000 (sample_outputs\<lparr>m_indexProc := 1\<rparr>)"
    using sample_outputs_ready by (simp add: blob_ready_def)
  ultimately show ?thesis
    using surplus_outputs_overrun [OF sample_outputs_ready _ vs, of 1 0 "replicate 6 CDBVariant_new" no_conv]
      surplus_outputs_overrun [OF _ _ vs, of True small_queue "sample_outputs\<lparr>m_indexProc := 1\<rparr>" 1 1 "replicate 6 CDBVariant_new" no_conv]
    by (auto simp: Let_def)
qed

section \<open>Parameters that are not sent\<close>

definition db_mute :: "db_env \<Rightarrow> bool" where
  "db_mute E \<longleftrightarrow> (\<forall>calls reqId bs rh. \<not> db_sent E (calls @ [Db_send reqId bs rh]))"

lemma Send_rows_mute:
  assumes "db_mute E" "uq_inv sb"
  shows "\<exists>bs. Send_rows E sb True calls = Inr (False, sb, calls @ [Db_send idBeginRows bs None])"
  using read_front_all [OF assms(2) order.refl] assms(1)
  by (auto simp: Send_rows_def db_send_buffer_def db_send_def db_mute_def Let_def)

lemma SendParameters_loop_mute:
  assumes E: "db_mute E"
  shows "uq_inv sb \<Longrightarrow> list_all (\<lambda>v. value_valid v \<and> supported_parameter v) vs \<Longrightarrow>
    fits sb (length (content sb) + length (concat (map value_wire vs))) \<Longrightarrow>
    \<exists>bs sb'. SendParameters_loop E sb True vs calls = Inr (False, sb', calls @ [Db_send idBeginRows bs None])"
proof (induction vs arbitrary: sb)
  case Nil
  then show ?case using Send_rows_mute [OF E Nil.prems(1), of calls] by auto
next
  case (Cons v vs)
  obtain large where large: "large_parameter v = Inr large" using Cons.prems(2) large_parameter_ok by auto
  show ?case
  proof (cases large)
    case True
    with large Send_rows_mute [OF E Cons.prems(1), of calls] show ?thesis by (auto simp: Send_large_def)
  next
    case False
    have "room sb (length (value_wire v))"
      by (rule fits_room [OF Cons.prems(3,1)]) simp_all
    then obtain sb1 where sb1: "put_CDBVariant sb v = Inr sb1" "uq_inv sb1" "same_settings sb sb1"
      "content sb1 = content sb @ value_wire v"
      using put_CDBVariant_ok [OF Cons.prems(1)] Cons.prems(2) by (auto simp: appended_def)
    have "fits sb1 (length (content sb1) + length (concat (map value_wire vs)))"
      unfolding fits_settings [OF sb1(3)] by (rule fits_mono [OF Cons.prems(3)]) (simp add: sb1(4))
    from Cons.IH [OF sb1(2) _ this] Cons.prems(2) Send_rows_mute [OF E sb1(2), of calls] large False sb1(1)
    show ?thesis by (auto simp: Let_def)
  qed
qed

lemma trim_blob_ok:
  fixes c :: db_client
  assumes "uq_inv (m_Blob c)"
  shows "\<exists>b. trim_blob c = Inr (c\<lparr>m_Blob := b\<rparr>) \<and> uq_inv b \<and> same_settings (m_Blob c) b"
proof -
  obtain b0 where b0: "SetSize (m_Blob c) 0 True = Inr b0" "uq_inv b0" "same_settings (m_Blob c) b0"
    using SetSize_ok [OF assms, of 0 True] by auto
  obtain b1 where "ReallocBuffer b0 DEFAULT_BIG_FIELD_CHUNK_SIZE = Inr b1" "uq_inv b1" "same_settings b0 b1"
    using ReallocBuffer_ok [OF b0(2), of DEFAULT_BIG_FIELD_CHUNK_SIZE]
    by (auto simp: DEFAULT_BIG_FIELD_CHUNK_SIZE_def max32_def)
  with b0 same_settings_trans show ?thesis by (auto simp: trim_blob_def)
qed

text \<open>
  C26: An execution whose parameters cannot be sent fails, and takes more with it than its own request: the
  callbacks and parameter arrays of every other request that is under way are dropped, so that their rows
  and output parameters are lost when they arrive, and the job that was started in the client queue is left open.
\<close>

theorem failed_parameters_drop_callbacks:
  assumes "db_mute E" "queue_started E calls" "uq_inv sb" "content sb = []" "uq_inv (m_Blob c)"
    and "app_arrays c a = Some vs" "vs \<noteq> []" "list_all (\<lambda>v. value_valid v \<and> supported_parameter v) vs"
    and "fits sb (length (concat (map value_wire vs)))"
  shows "\<exists>c' bs. Execute_parameters E sb index a handler row rh meta lastInsertId c calls =
      Inr (False, c', calls @ [Db_StartJob, Db_send idBeginRows bs None]) \<and>
    m_mapRowset c' = (\<lambda>_. None) \<and> m_mapParameterCall c' = (\<lambda>_. None) \<and> m_mapHandler c' = (\<lambda>_. None)"
proof -
  have z: "m_nSize sb = 0" using uq_invD(1) [OF assms(3)] assms(4) by simp
  have "fits sb (length (content sb) + length (concat (map value_wire vs)))" using assms(4,9) by simp
  from SendParameters_loop_mute [OF assms(1,3,8) this, of "calls @ [Db_StartJob]"] obtain bs sb' where
    s: "SendParametersData E sb vs (calls @ [Db_StartJob]) = Inr (False, sb', calls @ [Db_StartJob, Db_send idBeginRows bs None])"
    using assms(7) z by (auto simp: SendParametersData_def)
  obtain b where "trim_blob c = Inr (c\<lparr>m_Blob := b\<rparr>)" using trim_blob_ok [OF assms(5)] by blast
  with s assms(2,6,7) show ?thesis
    by (simp add: Execute_parameters_def parameters_at_def send_parameters_def start_job_def Clean_def Let_def)
qed

text \<open>The request 3 of \<open>sample_client\<close> loses its callback for rows to the failing request 5.\<close>

definition mute_db_env :: db_env where
  "mute_db_env = \<lparr>db_sent = (\<lambda>_. False), queue_started = (\<lambda>_. True), job_started = (\<lambda>_. True)\<rparr>"

theorem failed_parameters_drop_callbacks_witness:
  "m_mapRowset sample_client 3 = Some (None, Some 9) \<and>
   (\<exists>c' bs. Execute_parameters mute_db_env small_queue 5 1 (Some 7) None None True True
      (sample_client\<lparr>app_arrays := [1 \<mapsto> sample_params]\<rparr>) [] = Inr (False, c', [] @ [Db_StartJob, Db_send idBeginRows bs None]) \<and>
    m_mapRowset c' = (\<lambda>_. None) \<and> m_mapParameterCall c' = (\<lambda>_. None) \<and> m_mapHandler c' = (\<lambda>_. None))"
proof (rule conjI)
  show "m_mapRowset sample_client 3 = Some (None, Some 9)" by (simp add: sample_client_def)
  show "\<exists>c' bs. Execute_parameters mute_db_env small_queue 5 1 (Some 7) None None True True
      (sample_client\<lparr>app_arrays := [1 \<mapsto> sample_params]\<rparr>) [] = Inr (False, c', [] @ [Db_StartJob, Db_send idBeginRows bs None]) \<and>
    m_mapRowset c' = (\<lambda>_. None) \<and> m_mapParameterCall c' = (\<lambda>_. None) \<and> m_mapHandler c' = (\<lambda>_. None)"
  proof (rule failed_parameters_drop_callbacks [OF _ _ small_queue_ok(1,3) _ _ _ sample_params_ok(1)])
    show "fits small_queue (length (concat (map value_wire sample_params)))"
      by (rule fits_mono [OF small_queue_fits]) (use sample_params_ok(2) in linarith)
    show "uq_inv (m_Blob (sample_client\<lparr>app_arrays := [1 \<mapsto> sample_params]\<rparr>))"
      using sample_client_ready by (simp add: blob_ready_def)
  qed (simp_all add: db_mute_def mute_db_env_def sample_params_def)
qed

end
