(* ===== verification/Socketpool.thy ===== *)
theory Socketpool
  imports Client Numtext
begin

text \<open>
  The pools of client sockets: \<^verbatim>\<open>CSocketPool\<close> of \<^verbatim>\<open>include/aclientw.h\<close>.

  \<^item> The client core is loaded at run time and is a parameter, the record \<open>pool_core\<close>: its answers are functions
    of the calls made so far, which are kept in \<open>pool_calls\<close>, and of a socket. \<open>co_events\<close> are the events that it
    delivers, through \<^verbatim>\<open>SPE\<close>, before a call returns.
  \<^item> The pools are objects at addresses, registered in the vector \<open>m_vPool\<close>. A pool maps sockets to handlers; the
    map is a list in the order of iteration, and \<open>co_slot\<close> is where the hash table puts a new entry. The callback
    queues of a handler are those of \<open>Client\<close>.
  \<^item> The handlers and sockets of a pool are objects that live as long as they are referenced; \<open>handler_at\<close> keeps
    them. \<^verbatim>\<open>AnyData\<close> of a connection context, which the pool only copies, is left out.
  \<^item> \<open>pools_inv\<close> is the invariant of all pools; \<open>sim\<close> relates them to the specification \<open>event_spec\<close> of the events,
    whose order \<open>legal\<close> describes. The locale \<open>simulation\<close> lifts it to sequences of events.
  \<^item> A null handle is 0. Dereferencing a null pointer is \<open>Out_Of_Bounds\<close>.
  \<^item> Operations are atomic, as \<^verbatim>\<open>m_cs\<close> makes them; where \<^verbatim>\<open>PostProcess\<close> gives the lock up, the
    events of the two calls that it makes there are handled before it goes on.
\<close>

section \<open>The state\<close>

record conn_context =
  Host :: string
  Port :: nat
  UserId :: "nat list"
  Password :: "nat list"
  EncrytionMethod :: nat
  V6 :: bool
  Zip :: bool

record pool_socket =
  s_handle :: nat
  m_cc :: conn_context

record pool_handler =
  p_addr :: nat
  p_SvsId :: nat

type_synonym pool_entry = "pool_socket \<times> pool_handler"

record socket_pool =
  m_nPoolId :: nat
  m_autoConn :: bool
  m_recvTimeout :: nat
  m_connTimeout :: nat
  p_nServiceId :: nat
  m_mapSocketHandler :: "pool_entry list"
  m_pHFrom :: "pool_handler option"
  m_qName :: string

datatype tagSocketPoolEvent =
    speUnknown | speStarted | speCreatingThread | speThreadCreated | speConnecting | speConnected | speKillingThread
  | speShutdown | speUSocketCreated | speHandShakeCompleted | speLocked | speUnlocked | speThreadKilled
  | speClosingSocket | speSocketClosed | speUSocketKilled | speTimer | speQueueMergedFrom | speQueueMergedTo

datatype pool_call =
    C_CreateSocketPool nat nat bool
  | C_DestroySocketPool nat
  | C_SetRecvTimeout nat nat
  | C_SetConnTimeout nat nat
  | C_SetAutoConn nat bool
  | C_SetSockOpt nat
  | C_SetSockOptAtSvr nat
  | C_SetUserID nat "nat list"
  | C_SetEncryptionMethod nat nat
  | C_SetPassword nat "nat list"
  | C_Connect nat string nat bool bool
  | C_WaitAll nat
  | C_StartBatching nat
  | C_SwitchTo nat nat
  | C_TurnOnZipAtSvr nat bool
  | C_CommitBatching nat
  | C_StartQueue nat string bool
  | C_StopQueue nat
  | C_LockASocket nat nat nat
  | C_UnlockASocket nat nat
  | C_DestroyUQueuePool
  | C_Told nat tagSocketPoolEvent "pool_handler option"

record pool_core =
  co_state :: "pool_call list \<Rightarrow> nat \<Rightarrow> nat"
  co_opened :: "pool_call list \<Rightarrow> nat \<Rightarrow> bool"
  co_available :: "pool_call list \<Rightarrow> nat \<Rightarrow> bool"
  co_messages :: "pool_call list \<Rightarrow> nat \<Rightarrow> nat"
  co_requests :: "pool_call list \<Rightarrow> nat \<Rightarrow> nat"
  co_bytes_sent :: "pool_call list \<Rightarrow> nat \<Rightarrow> nat"
  co_job_size :: "pool_call list \<Rightarrow> nat \<Rightarrow> nat"
  co_connected :: "pool_call list \<Rightarrow> nat \<Rightarrow> bool"
  co_secure :: "pool_call list \<Rightarrow> nat \<Rightarrow> bool"
  co_queue_file :: "pool_call list \<Rightarrow> nat \<Rightarrow> string"
  co_app_name :: string
  co_encryption :: "pool_call list \<Rightarrow> nat \<Rightarrow> nat"
  co_ok :: "pool_call list \<Rightarrow> bool"
  co_per_thread :: "pool_call list \<Rightarrow> nat \<Rightarrow> nat"
  co_threads :: "pool_call list \<Rightarrow> nat \<Rightarrow> nat"
  co_connections :: "pool_call list \<Rightarrow> nat \<Rightarrow> nat"
  co_new_pool :: "pool_call list \<Rightarrow> nat"
  co_locked :: "pool_call list \<Rightarrow> nat"
  co_timeout :: "pool_call list \<Rightarrow> nat \<Rightarrow> nat"
  co_events :: "pool_call list \<Rightarrow> (nat \<times> tagSocketPoolEvent \<times> nat) list"
  co_slot :: "pool_entry list \<Rightarrow> pool_entry \<Rightarrow> pool_entry list"
  co_memory :: "pool_call list \<Rightarrow> nat"
  co_clean_size :: nat
  app_service :: nat
  app_authenticates :: "nat \<Rightarrow> (nat \<Rightarrow> bool) option"

record pool_world =
  m_vPool :: "nat list"
  pool_at :: "nat \<Rightarrow> socket_pool option"
  handler_at :: "nat \<Rightarrow> CAsyncServiceHandler option"
  next_handler :: nat
  pool_calls :: "pool_call list"

definition csConnected :: nat where "csConnected = 4"
definition csSwitched :: nat where "csSwitched = 5"
definition NoEncryption :: nat where "NoEncryption = 0"
definition TLSv1 :: nat where "TLSv1 = 1"

definition CConnectionContext_new :: conn_context where
  "CConnectionContext_new =
     \<lparr>Host = '''', Port = 0, UserId = [], Password = [], EncrytionMethod = NoEncryption, V6 = False, Zip = False\<rparr>"

definition call :: "pool_call \<Rightarrow> pool_world \<Rightarrow> pool_world" where
  "call x w = w\<lparr>pool_calls := pool_calls w @ [x]\<rparr>"

definition the_pool :: "pool_world \<Rightarrow> nat \<Rightarrow> fault + socket_pool" where
  "the_pool w p = (case pool_at w p of None \<Rightarrow> Inl Out_Of_Bounds | Some sp \<Rightarrow> Inr sp)"

definition set_pool :: "nat \<Rightarrow> socket_pool \<Rightarrow> pool_world \<Rightarrow> pool_world" where
  "set_pool p sp w = w\<lparr>pool_at := (pool_at w)(p \<mapsto> sp)\<rparr>"

text \<open>A new pool at the free address \<open>p\<close>.\<close>

definition CSocketPool_new :: "nat \<Rightarrow> bool \<Rightarrow> nat \<Rightarrow> nat \<Rightarrow> nat \<Rightarrow> pool_world \<Rightarrow> pool_world" where
  "CSocketPool_new p autoConn recvTimeout connTimeout nServiceId w =
     (set_pool p \<lparr>m_nPoolId = 0, m_autoConn = autoConn, m_recvTimeout = recvTimeout, m_connTimeout = connTimeout,
                  p_nServiceId = nServiceId, m_mapSocketHandler = [], m_pHFrom = None, m_qName = ''''\<rparr> w)
     \<lparr>m_vPool := m_vPool w @ [p]\<rparr>"

section \<open>Looking for a handler\<close>

text \<open>\<^verbatim>\<open>Seek\<close>: of the switched sockets the one with the fewest requests, the later one of equals.\<close>

definition request_count :: "pool_core \<Rightarrow> pool_call list \<Rightarrow> pool_entry \<Rightarrow> nat" where
  "request_count K calls e =
     (let h = s_handle (fst e) in if co_available K calls h then co_messages K calls h else co_requests K calls h)"

definition Seek_step :: "pool_core \<Rightarrow> pool_call list \<Rightarrow> pool_entry option \<Rightarrow> pool_entry \<Rightarrow> pool_entry option" where
  "Seek_step K calls h e =
     (if co_state K calls (s_handle (fst e)) < csSwitched then h
      else case h of
             None \<Rightarrow> Some e
           | Some h0 \<Rightarrow>
               let count0 = request_count K calls h0; count1 = request_count K calls e in
               if count0 > count1 then Some e
               else if count0 = count1 \<and>
                       co_bytes_sent K calls (s_handle (fst h0)) \<ge> co_bytes_sent K calls (s_handle (fst e))
               then Some e
               else Some h0)"

definition Seek :: "pool_core \<Rightarrow> pool_call list \<Rightarrow> socket_pool \<Rightarrow> pool_handler option" where
  "Seek K calls sp = map_option snd (foldl (Seek_step K calls) None (m_mapSocketHandler sp))"

text \<open>\<^verbatim>\<open>SeekByQueue()\<close>: among the sockets whose queue is not in a job.\<close>

definition SeekByQueue_step :: "pool_core \<Rightarrow> pool_call list \<Rightarrow> pool_entry option \<Rightarrow> pool_entry \<Rightarrow> pool_entry option" where
  "SeekByQueue_step K calls h e =
     (let s = s_handle (fst e) in
      if \<not> co_available K calls s \<or> co_job_size K calls s \<noteq> 0 then h
      else case h of
             None \<Rightarrow> Some e
           | Some h0 \<Rightarrow>
               let s0 = s_handle (fst h0) in
               if co_messages K calls s0 > co_messages K calls s \<or> co_connected K calls s \<and> \<not> co_connected K calls s0
               then Some e
               else Some h0)"

definition SeekByQueue :: "pool_core \<Rightarrow> pool_call list \<Rightarrow> socket_pool \<Rightarrow> pool_handler option" where
  "SeekByQueue K calls sp = map_option snd (foldl (SeekByQueue_step K calls) None (m_mapSocketHandler sp))"

text \<open>\<^verbatim>\<open>std::string::rfind\<close>, from the position \<open>n\<close> down.\<close>

fun rfind_from :: "string \<Rightarrow> string \<Rightarrow> nat \<Rightarrow> nat option" where
  "rfind_from s sub 0 = (if take (length sub) s = sub then Some 0 else None)"
| "rfind_from s sub (Suc n) = (if take (length sub) (drop (Suc n) s) = sub then Some (Suc n) else rfind_from s sub n)"

definition raw_queue_name :: "pool_core \<Rightarrow> pool_call list \<Rightarrow> string \<Rightarrow> nat \<Rightarrow> string" where
  "raw_queue_name K calls qn h = qn @ ''_'' @ co_app_name K @ (if co_secure K calls h then ''_1.mqc'' else ''_0.mqc'')"

fun SeekByQueue_name_loop :: "pool_core \<Rightarrow> pool_call list \<Rightarrow> string \<Rightarrow> pool_entry list \<Rightarrow> pool_handler option" where
  "SeekByQueue_name_loop K calls qn [] = None"
| "SeekByQueue_name_loop K calls qn (e # es) =
     (let h = s_handle (fst e); raw = raw_queue_name K calls qn h; file = co_queue_file K calls h in
      if \<not> co_available K calls h \<or> length raw > length file then SeekByQueue_name_loop K calls qn es
      else case rfind_from file raw (length file - length raw) of
             None \<Rightarrow> SeekByQueue_name_loop K calls qn es
           | Some pos \<Rightarrow>
               if pos = 0 \<or> pos + length raw = length file then Some (snd e) else SeekByQueue_name_loop K calls qn es)"

definition SeekByQueue_name :: "pool_core \<Rightarrow> pool_call list \<Rightarrow> string \<Rightarrow> socket_pool \<Rightarrow> pool_handler option" where
  "SeekByQueue_name K calls queueName sp =
     (if queueName = '''' then None else SeekByQueue_name_loop K calls queueName (m_mapSocketHandler sp))"

definition GetQueues :: "pool_core \<Rightarrow> pool_call list \<Rightarrow> socket_pool \<Rightarrow> nat" where
  "GetQueues K calls sp = length (filter (\<lambda>e. co_available K calls (s_handle (fst e))) (m_mapSocketHandler sp))"

definition MapToHandler :: "nat \<Rightarrow> socket_pool \<Rightarrow> pool_handler option" where
  "MapToHandler h sp = map_option snd (find (\<lambda>e. s_handle (fst e) = h) (m_mapSocketHandler sp))"

fun MapToSocket_loop :: "nat \<Rightarrow> nat \<Rightarrow> pool_entry list \<Rightarrow> pool_socket option \<times> nat" where
  "MapToSocket_loop h index [] = (None, index)"
| "MapToSocket_loop h index (e # es) =
     (if s_handle (fst e) = h then (Some (fst e), index) else MapToSocket_loop h (index + 1) es)"

definition MapToSocket :: "nat \<Rightarrow> socket_pool \<Rightarrow> pool_socket option \<times> nat" where
  "MapToSocket h sp = MapToSocket_loop h 0 (m_mapSocketHandler sp)"

text \<open>\<^verbatim>\<open>FindClosedOne\<close>: \<open>unique a\<close> says that the pool is the only owner of the handler at \<open>a\<close>.\<close>

definition FindClosedOne :: "pool_core \<Rightarrow> pool_call list \<Rightarrow> (nat \<Rightarrow> bool) \<Rightarrow> socket_pool \<Rightarrow> pool_handler option" where
  "FindClosedOne K calls unique sp =
     map_option snd (find (\<lambda>e. \<not> co_connected K calls (s_handle (fst e)) \<and> unique (p_addr (snd e))) (m_mapSocketHandler sp))"

section \<open>Names of queues\<close>

definition is_blank :: "char \<Rightarrow> bool" where
  "is_blank c \<longleftrightarrow> of_char c = (32 :: nat) \<or> 9 \<le> (of_char c :: nat) \<and> (of_char c :: nat) \<le> 13"

definition Trim :: "string \<Rightarrow> string" where
  "Trim s = dropWhile is_blank (rev (dropWhile is_blank (rev s)))"

definition start_queue :: "pool_core \<Rightarrow> string \<Rightarrow> nat \<Rightarrow> pool_socket \<Rightarrow> pool_world \<Rightarrow> bool \<times> pool_world" where
  "start_queue K qname index s w =
     (let w = call (C_StartQueue (s_handle s) (qname @ dec_text index)
                      (co_encryption K (pool_calls w) (s_handle s) \<noteq> NoEncryption)) w in (co_ok K (pool_calls w), w))"

fun StopPoolQueue :: "pool_core \<Rightarrow> pool_entry list \<Rightarrow> pool_world \<Rightarrow> pool_world" where
  "StopPoolQueue K [] w = w"
| "StopPoolQueue K (e # es) w =
     StopPoolQueue K es (if co_available K (pool_calls w) (s_handle (fst e)) then call (C_StopQueue (s_handle (fst e))) w else w)"

fun StartPoolQueue :: "pool_core \<Rightarrow> string \<Rightarrow> nat \<Rightarrow> pool_entry list \<Rightarrow> pool_world \<Rightarrow> fault + pool_world" where
  "StartPoolQueue K qname index [] w = Inr w"
| "StartPoolQueue K qname index (e # es) w =
     (let (ok, w) = start_queue K qname index (fst e) w in
      bindr (require ok) (\<lambda>_. StartPoolQueue K qname (index + 1) es w))"

definition SetQueueName :: "pool_core \<Rightarrow> nat \<Rightarrow> string option \<Rightarrow> pool_world \<Rightarrow> fault + pool_world" where
  "SetQueueName K p qName w =
     (let s = Trim (case qName of None \<Rightarrow> '''' | Some s \<Rightarrow> s) in
      bindr (the_pool w p) (\<lambda>sp.
      if m_qName sp = s then Inr w
      else let w = set_pool p (sp\<lparr>m_qName := s\<rparr>) (StopPoolQueue K (m_mapSocketHandler sp) w) in
           if s \<noteq> '''' then StartPoolQueue K s 0 (m_mapSocketHandler sp) w else Inr w))"

definition SetQueue :: "pool_core \<Rightarrow> nat \<Rightarrow> pool_socket option \<Rightarrow> nat \<Rightarrow> pool_world \<Rightarrow> fault + pool_world" where
  "SetQueue K p socket pos w =
     (case socket of
        None \<Rightarrow> Inl Out_Of_Bounds
      | Some s \<Rightarrow>
          bindr (the_pool w p) (\<lambda>sp.
          Inr (if m_qName sp \<noteq> '''' \<and> \<not> co_available K (pool_calls w) (s_handle s)
               then snd (start_queue K (m_qName sp) pos s w) else w)))"

section \<open>The events of the core\<close>

text \<open>\<^verbatim>\<open>Seek(poolId)\<close>: the first registered pool with an id; and the last one that has none.\<close>

definition has_id :: "pool_world \<Rightarrow> nat \<Rightarrow> nat \<Rightarrow> bool" where
  "has_id w poolId p = (case pool_at w p of None \<Rightarrow> False | Some sp \<Rightarrow> m_nPoolId sp = poolId)"

definition Seek_pool :: "pool_world \<Rightarrow> nat \<Rightarrow> nat option" where
  "Seek_pool w poolId = find (has_id w poolId) (m_vPool w)"

definition last_idle :: "pool_world \<Rightarrow> nat option" where
  "last_idle w = find (has_id w 0) (rev (m_vPool w))"

definition on_speShutdown :: "nat option \<Rightarrow> pool_world \<Rightarrow> fault + pool_world" where
  "on_speShutdown p w =
     (case p of
        None \<Rightarrow> Inr w
      | Some p \<Rightarrow> bindr (the_pool w p) (\<lambda>sp. Inr (set_pool p (sp\<lparr>m_mapSocketHandler := [], m_nPoolId := 0\<rparr>) w)))"

definition on_speStarted :: "nat \<Rightarrow> nat option \<Rightarrow> pool_world \<Rightarrow> fault + (nat \<times> pool_world)" where
  "on_speStarted poolId p w =
     (case (case last_idle w of None \<Rightarrow> p | Some p \<Rightarrow> Some p) of
        None \<Rightarrow> Inl Out_Of_Bounds
      | Some p \<Rightarrow> bindr (the_pool w p) (\<lambda>sp. Inr (p, set_pool p (sp\<lparr>m_nPoolId := poolId\<rparr>) w)))"

text \<open>A new socket and a new handler for it; a handler without a service gets the one of the pool.\<close>

definition on_speUSocketCreated :: "pool_core \<Rightarrow> nat \<Rightarrow> nat option \<Rightarrow> pool_world \<Rightarrow> fault + pool_world" where
  "on_speUSocketCreated K h p w =
     (case p of
        None \<Rightarrow> Inr w
      | Some p \<Rightarrow>
          bindr (the_pool w p) (\<lambda>sp.
          let a = next_handler w;
              s = \<lparr>s_handle = h, m_cc = CConnectionContext_new\<rparr>;
              hn = \<lparr>p_addr = a, p_SvsId = (if app_service K = 0 then p_nServiceId sp else app_service K)\<rparr>;
              w = call (C_SetAutoConn h (m_autoConn sp)) (call (C_SetConnTimeout h (m_connTimeout sp))
                    (call (C_SetRecvTimeout h (m_recvTimeout sp)) w)) in
          Inr (set_pool p (sp\<lparr>m_mapSocketHandler := co_slot K (m_mapSocketHandler sp) (s, hn)\<rparr>)
                (w\<lparr>handler_at := (handler_at w)(a \<mapsto> \<lparr>m_vCallback = [], m_vBatching = [], IsRandom = False\<rparr>),
                   next_handler := a + 1\<rparr>))))"

fun erase_socket :: "nat \<Rightarrow> pool_entry list \<Rightarrow> pool_entry list" where
  "erase_socket h [] = []"
| "erase_socket h (e # es) = (if s_handle (fst e) = h then es else e # erase_socket h es)"

definition on_speUSocketKilled :: "nat \<Rightarrow> nat option \<Rightarrow> pool_world \<Rightarrow> fault + pool_world" where
  "on_speUSocketKilled h p w =
     (case p of
        None \<Rightarrow> Inr w
      | Some p \<Rightarrow> bindr (the_pool w p) (\<lambda>sp.
          Inr (set_pool p (sp\<lparr>m_mapSocketHandler := erase_socket h (m_mapSocketHandler sp)\<rparr>) w)))"


text \<open>
  A connected socket is switched to the service of its handler. \<open>on_speConnected\<close> says whether the event goes on to
  the delegates, and gives the socket with its position, if it was looked up.
\<close>

definition switch_socket :: "nat \<Rightarrow> nat \<Rightarrow> pool_socket option \<Rightarrow> pool_world \<Rightarrow> fault + pool_world" where
  "switch_socket p h pcs w =
     (case pcs of
        None \<Rightarrow> Inl Out_Of_Bounds
      | Some s \<Rightarrow>
          bindr (the_pool w p) (\<lambda>sp.
          case MapToHandler h sp of
            None \<Rightarrow> Inl Out_Of_Bounds
          | Some hn \<Rightarrow>
              Inr (call (C_CommitBatching h) (call (C_SetSockOptAtSvr h) (call (C_SetSockOptAtSvr h)
                    (call (C_TurnOnZipAtSvr h (Zip (m_cc s))) (call (C_SwitchTo h (p_SvsId hn))
                      (call (C_StartBatching h) (call (C_SetPassword h (Password (m_cc s))) w)))))))))"

definition refused :: "pool_core \<Rightarrow> nat \<Rightarrow> nat \<Rightarrow> pool_world \<Rightarrow> bool" where
  "refused K p h w \<longleftrightarrow>
     (case app_authenticates K p of
        None \<Rightarrow> False
      | Some ok \<Rightarrow> co_encryption K (pool_calls w) h = TLSv1 \<and> \<not> ok h)"

definition on_speConnected ::
  "pool_core \<Rightarrow> nat \<Rightarrow> nat option \<Rightarrow> pool_world \<Rightarrow> fault + (bool \<times> (pool_socket option \<times> nat) \<times> pool_world)"
where
  "on_speConnected K h p w =
     (case p of
        None \<Rightarrow> Inr (True, (None, 0), w)
      | Some p \<Rightarrow>
          if \<not> co_opened K (pool_calls w) h then Inr (True, (None, 0), w)
          else bindr (the_pool w p) (\<lambda>sp.
               let w = call (C_SetSockOpt h) (call (C_SetSockOpt h) w); (pcs, index) = MapToSocket h sp in
               if refused K p h w then Inr (False, (pcs, index), w)
               else bindr (switch_socket p h pcs w) (\<lambda>w. Inr (True, (pcs, index), w))))"

text \<open>The queue of a handler is merged into that of another one: the callbacks follow the requests.\<close>

definition on_speQueueMergedFrom :: "nat \<Rightarrow> nat option \<Rightarrow> pool_world \<Rightarrow> fault + pool_world" where
  "on_speQueueMergedFrom h p w =
     (case p of
        None \<Rightarrow> Inl Assertion
      | Some p \<Rightarrow> bindr (the_pool w p) (\<lambda>sp. Inr (set_pool p (sp\<lparr>m_pHFrom := MapToHandler h sp\<rparr>) w)))"

definition the_handler :: "pool_world \<Rightarrow> pool_handler option \<Rightarrow> fault + (nat \<times> CAsyncServiceHandler)" where
  "the_handler w hn =
     (case hn of
        None \<Rightarrow> Inl Out_Of_Bounds
      | Some hn \<Rightarrow> (case handler_at w (p_addr hn) of None \<Rightarrow> Inl Out_Of_Bounds | Some x \<Rightarrow> Inr (p_addr hn, x)))"

definition on_speQueueMergedTo :: "nat \<Rightarrow> nat option \<Rightarrow> pool_world \<Rightarrow> fault + pool_world" where
  "on_speQueueMergedTo h p w =
     (case p of
        None \<Rightarrow> Inl Assertion
      | Some p \<Rightarrow>
          bindr (the_pool w p) (\<lambda>sp.
          bindr (the_handler w (m_pHFrom sp)) (\<lambda>(a, x).
          bindr (the_handler w (MapToHandler h sp)) (\<lambda>(b, y).
          let (x, y) = AppendTo x y in
          Inr (set_pool p (sp\<lparr>m_pHFrom := None\<rparr>) (w\<lparr>handler_at := (handler_at w)(b \<mapsto> y, a \<mapsto> x)\<rparr>))))))"

definition on_speTimer :: "pool_core \<Rightarrow> pool_world \<Rightarrow> pool_world" where
  "on_speTimer K w = (if co_memory K (pool_calls w) div 1024 > co_clean_size K then call C_DestroyUQueuePool w else w)"

text \<open>What \<^verbatim>\<open>SPE\<close> does for all events with a pool: the delegates, and the queue of a connected socket.\<close>

definition tell ::
  "pool_core \<Rightarrow> tagSocketPoolEvent \<Rightarrow> nat \<Rightarrow> pool_socket option \<times> nat \<Rightarrow> nat option \<Rightarrow> pool_world \<Rightarrow> fault + pool_world"
where
  "tell K spe h found p w =
     (case p of
        None \<Rightarrow> Inr w
      | Some p \<Rightarrow>
          bindr (the_pool w p) (\<lambda>sp.
          let w = call (C_Told p spe (MapToHandler h sp)) w in
          if spe = speConnected \<and> co_opened K (pool_calls w) h then SetQueue K p (fst found) (snd found) w
          else Inr w))"

definition SPE :: "pool_core \<Rightarrow> nat \<Rightarrow> tagSocketPoolEvent \<Rightarrow> nat \<Rightarrow> pool_world \<Rightarrow> fault + pool_world" where
  "SPE K poolId spe h w =
     (let p = Seek_pool w poolId; tell_p = tell K spe h (None, 0) p in
      case spe of
        speTimer \<Rightarrow> tell_p (on_speTimer K w)
      | speShutdown \<Rightarrow> bindr (on_speShutdown p w) tell_p
      | speStarted \<Rightarrow> bindr (on_speStarted poolId p w) (\<lambda>(p, w). tell K spe h (None, 0) (Some p) w)
      | speUSocketCreated \<Rightarrow> bindr (on_speUSocketCreated K h p w) tell_p
      | speUSocketKilled \<Rightarrow> bindr (on_speUSocketKilled h p w) tell_p
      | speConnected \<Rightarrow>
          bindr (on_speConnected K h p w) (\<lambda>(go, found, w). if go then tell K spe h found p w else Inr w)
      | speQueueMergedFrom \<Rightarrow> bindr (on_speQueueMergedFrom h p w) tell_p
      | speQueueMergedTo \<Rightarrow> bindr (on_speQueueMergedTo h p w) tell_p
      | _ \<Rightarrow> tell_p w)"

fun run_events :: "pool_core \<Rightarrow> (nat \<times> tagSocketPoolEvent \<times> nat) list \<Rightarrow> pool_world \<Rightarrow> fault + pool_world" where
  "run_events K [] w = Inr w"
| "run_events K ((poolId, spe, h) # es) w = bindr (SPE K poolId spe h w) (run_events K es)"

definition call_ev :: "pool_core \<Rightarrow> pool_call \<Rightarrow> pool_world \<Rightarrow> fault + pool_world" where
  "call_ev K x w = (let w = call x w in run_events K (co_events K (pool_calls w)) w)"

section \<open>Starting, locking and closing a pool\<close>

definition context_at :: "conn_context list list \<Rightarrow> nat \<Rightarrow> nat \<Rightarrow> fault + conn_context" where
  "context_at ccs per pos =
     (if per \<noteq> 0 \<and> pos div per < length ccs \<and> pos mod per < length (ccs ! (pos div per))
      then Inr (ccs ! (pos div per) ! (pos mod per)) else Inl Out_Of_Bounds)"

definition set_cc :: "nat \<Rightarrow> conn_context \<Rightarrow> socket_pool \<Rightarrow> socket_pool" where
  "set_cc i cc sp =
     sp\<lparr>m_mapSocketHandler := (m_mapSocketHandler sp)
          [i := map_prod (\<lambda>s. s\<lparr>m_cc := cc\<rparr>) id (m_mapSocketHandler sp ! i)]\<rparr>"

text \<open>The first connection is awaited, without the lock.\<close>

definition connect_first ::
  "pool_core \<Rightarrow> nat \<Rightarrow> conn_context \<Rightarrow> pool_world \<Rightarrow> fault + (bool \<times> pool_world)"
where
  "connect_first K h cc w =
     bindr (call_ev K (C_Connect h (Host cc) (Port cc) True (V6 cc)) w) (\<lambda>w1.
     if \<not> co_ok K (pool_calls (call (C_Connect h (Host cc) (Port cc) True (V6 cc)) w)) then Inr (False, w1)
     else bindr (call_ev K (C_WaitAll h) w1) (\<lambda>w2.
          Inr (co_ok K (pool_calls (call (C_WaitAll h) w1)) \<and> co_state K (pool_calls w2) h > csConnected, w2)))"

text \<open>
  The loop goes on with an iterator at the socket that it waited for. Here the iterator is an index: while the lock was
  released other threads may have replaced sockets and left their number as it was, and if the socket is no longer where it was, the iterator
  may dangle, which counts as a fault.
\<close>

fun PostProcess_loop ::
  "pool_core \<Rightarrow> nat \<Rightarrow> conn_context list list \<Rightarrow> nat \<Rightarrow> nat \<Rightarrow> nat \<Rightarrow> nat list \<Rightarrow> nat \<Rightarrow> bool \<Rightarrow> pool_world \<Rightarrow>
   fault + pool_world"
where
  "PostProcess_loop K p ccs poolId n per [] pos first w = Inr w"
| "PostProcess_loop K p ccs poolId n per (i # is) pos first w =
     bindr (the_pool w p) (\<lambda>sp.
     if i \<ge> length (m_mapSocketHandler sp) then Inl Out_Of_Bounds
     else
       let h = s_handle (fst (m_mapSocketHandler sp ! i)) in
       if co_opened K (pool_calls w) h then PostProcess_loop K p ccs poolId n per is pos False w
       else
         bindr (context_at ccs per pos) (\<lambda>cc.
         let w = call (C_SetEncryptionMethod h (EncrytionMethod cc))
                   (call (C_SetUserID h (UserId cc)) (set_pool p (set_cc i cc sp) w)) in
         if first
         then bindr (connect_first K h cc w) (\<lambda>(ok, w).
              bindr (the_pool w p) (\<lambda>sp.
              if poolId \<noteq> m_nPoolId sp \<or> n \<noteq> length (m_mapSocketHandler sp) then Inr w
              else if s_handle (fst (m_mapSocketHandler sp ! i)) \<noteq> h then Inl Out_Of_Bounds
              else PostProcess_loop K p ccs poolId n per is (pos + 1) (\<not> ok) w))
         else PostProcess_loop K p ccs poolId n per is (pos + 1) False
                (call (C_Connect h (Host cc) (Port cc) False (V6 cc)) w)))"

definition PostProcess_pool :: "pool_core \<Rightarrow> nat \<Rightarrow> conn_context list list \<Rightarrow> pool_world \<Rightarrow> fault + (bool \<times> pool_world)" where
  "PostProcess_pool K p ccs w =
     bindr (the_pool w p) (\<lambda>sp.
     let poolId = m_nPoolId sp; n = length (m_mapSocketHandler sp) in
     bindr (PostProcess_loop K p ccs poolId n (co_per_thread K (pool_calls w) poolId) [0..<n] 0 True w) (\<lambda>w.
     Inr (co_connections K (pool_calls w) poolId > 0, w)))"

definition IsStarted :: "pool_core \<Rightarrow> pool_call list \<Rightarrow> socket_pool \<Rightarrow> bool" where
  "IsStarted K calls sp \<longleftrightarrow> co_threads K calls (m_nPoolId sp) > 0"

definition StartSocketPool_core :: "pool_core \<Rightarrow> nat \<Rightarrow> nat \<Rightarrow> nat \<Rightarrow> bool \<Rightarrow> pool_world \<Rightarrow> fault + pool_world" where
  "StartSocketPool_core K p per threads avg w =
     bindr (the_pool w p) (\<lambda>sp.
     if IsStarted K (pool_calls w) sp then Inr w
     else bindr (call_ev K (C_CreateSocketPool per threads avg) w) (\<lambda>w1.
          bindr (the_pool w1 p) (\<lambda>sp.
          Inr (set_pool p
                 (sp\<lparr>m_nPoolId := co_new_pool K (pool_calls (call (C_CreateSocketPool per threads avg) w))\<rparr>) w1))))"

definition as_asked :: "pool_core \<Rightarrow> nat \<Rightarrow> nat \<Rightarrow> pool_world \<Rightarrow> nat \<Rightarrow> bool" where
  "as_asked K per threads w poolId \<longleftrightarrow>
     threads = co_threads K (pool_calls w) poolId \<and> per = co_per_thread K (pool_calls w) poolId"

definition StartSocketPool_ccs ::
  "pool_core \<Rightarrow> nat \<Rightarrow> conn_context list list \<Rightarrow> nat \<Rightarrow> nat \<Rightarrow> bool \<Rightarrow> pool_world \<Rightarrow> fault + (bool \<times> pool_world)"
where
  "StartSocketPool_ccs K p ccs per threads avg w =
     bindr (require (per \<noteq> 0 \<and> threads \<noteq> 0)) (\<lambda>_.
     bindr (StartSocketPool_core K p per threads avg w) (\<lambda>w.
     bindr (the_pool w p) (\<lambda>sp.
     bindr (require (as_asked K per threads w (m_nPoolId sp))) (\<lambda>_. PostProcess_pool K p ccs w))))"

definition StartSocketPool ::
  "pool_core \<Rightarrow> nat \<Rightarrow> conn_context \<Rightarrow> nat \<Rightarrow> nat \<Rightarrow> bool \<Rightarrow> pool_world \<Rightarrow> fault + (bool \<times> pool_world)"
where
  "StartSocketPool K p cc per threads avg w =
     bindr (require (per > 0)) (\<lambda>_.
     bindr (StartSocketPool_core K p per threads avg w) (\<lambda>w.
     bindr (the_pool w p) (\<lambda>sp.
     let threads = (if threads = 0 then co_threads K (pool_calls w) (m_nPoolId sp) else threads) in
     bindr (require (as_asked K per threads w (m_nPoolId sp))) (\<lambda>_.
     PostProcess_pool K p (replicate threads (replicate per cc)) w))))"

definition Lock_handler ::
  "pool_core \<Rightarrow> nat \<Rightarrow> nat \<Rightarrow> nat \<Rightarrow> pool_world \<Rightarrow> fault + (pool_handler option \<times> pool_world)"
where
  "Lock_handler K p timeout hSameThread w =
     bindr (the_pool w p) (\<lambda>sp.
     bindr (call_ev K (C_LockASocket (m_nPoolId sp) timeout hSameThread) w) (\<lambda>w1.
     let h = co_locked K (pool_calls (call (C_LockASocket (m_nPoolId sp) timeout hSameThread) w)) in
     if h = 0 then Inr (None, w1)
     else bindr (the_pool w1 p) (\<lambda>sp. Inr (MapToHandler h sp, w1))))"

definition Unlock_handler :: "pool_core \<Rightarrow> nat \<Rightarrow> nat \<Rightarrow> pool_world \<Rightarrow> fault + pool_world" where
  "Unlock_handler K p h w = bindr (the_pool w p) (\<lambda>sp. call_ev K (C_UnlockASocket (m_nPoolId sp) h) w)"

definition ShutdownPool :: "pool_core \<Rightarrow> nat \<Rightarrow> pool_world \<Rightarrow> fault + pool_world" where
  "ShutdownPool K p w =
     bindr (the_pool w p) (\<lambda>sp.
     bindr (call_ev K (C_DestroySocketPool (m_nPoolId sp)) w) (\<lambda>w.
     bindr (the_pool w p) (\<lambda>sp. Inr (set_pool p (sp\<lparr>m_nPoolId := 0\<rparr>) w))))"

definition CSocketPool_delete :: "pool_core \<Rightarrow> nat \<Rightarrow> pool_world \<Rightarrow> fault + pool_world" where
  "CSocketPool_delete K p w =
     bindr (ShutdownPool K p w) (\<lambda>w. Inr (w\<lparr>m_vPool := remove1 p (m_vPool w), pool_at := (pool_at w)(p := None)\<rparr>))"

definition SetAutoConn :: "nat \<Rightarrow> bool \<Rightarrow> pool_world \<Rightarrow> fault + pool_world" where
  "SetAutoConn p autoConn w =
     bindr (the_pool w p) (\<lambda>sp.
     Inr (foldl (\<lambda>w e. call (C_SetAutoConn (s_handle (fst e)) autoConn) w)
            (set_pool p (sp\<lparr>m_autoConn := autoConn\<rparr>) w) (m_mapSocketHandler sp)))"

text \<open>The timeout of a pool with sockets is what the first socket says when it has been set.\<close>

definition SetRecvTimeout :: "pool_core \<Rightarrow> nat \<Rightarrow> nat \<Rightarrow> pool_world \<Rightarrow> fault + pool_world" where
  "SetRecvTimeout K p recvTimeout w =
     bindr (the_pool w p) (\<lambda>sp.
     case m_mapSocketHandler sp of
       [] \<Rightarrow> Inr (set_pool p (sp\<lparr>m_recvTimeout := max 1000 recvTimeout\<rparr>) w)
     | e # es \<Rightarrow>
         let h = s_handle (fst e); w = call (C_SetRecvTimeout h recvTimeout) w;
             w = set_pool p (sp\<lparr>m_recvTimeout := co_timeout K (pool_calls w) h\<rparr>) w in
         Inr (foldl (\<lambda>w e. call (C_SetRecvTimeout (s_handle (fst e)) recvTimeout) w) w es))"

definition SetConnTimeout :: "pool_core \<Rightarrow> nat \<Rightarrow> nat \<Rightarrow> pool_world \<Rightarrow> fault + pool_world" where
  "SetConnTimeout K p connTimeout w =
     bindr (the_pool w p) (\<lambda>sp.
     case m_mapSocketHandler sp of
       [] \<Rightarrow> Inr (set_pool p (sp\<lparr>m_connTimeout := max 1000 connTimeout\<rparr>) w)
     | e # es \<Rightarrow>
         let h = s_handle (fst e); w = call (C_SetConnTimeout h connTimeout) w;
             w = set_pool p (sp\<lparr>m_connTimeout := co_timeout K (pool_calls w) h\<rparr>) w in
         Inr (foldl (\<lambda>w e. call (C_SetConnTimeout (s_handle (fst e)) connTimeout) w) w es))"

definition GetAsyncHandlers :: "socket_pool \<Rightarrow> pool_handler list" where
  "GetAsyncHandlers sp = map snd (m_mapSocketHandler sp)"

definition GetSockets :: "socket_pool \<Rightarrow> pool_socket list" where
  "GetSockets sp = map fst (m_mapSocketHandler sp)"

section \<open>Choosing the least loaded handler\<close>

definition is_switched :: "pool_core \<Rightarrow> pool_call list \<Rightarrow> pool_entry \<Rightarrow> bool" where
  "is_switched K calls e \<longleftrightarrow> co_state K calls (s_handle (fst e)) \<ge> csSwitched"

text \<open>\<open>lighter\<close>: fewer requests, or as many and fewer bytes sent.\<close>

definition lighter :: "pool_core \<Rightarrow> pool_call list \<Rightarrow> pool_entry \<Rightarrow> pool_entry \<Rightarrow> bool" where
  "lighter K calls e e' \<longleftrightarrow>
     request_count K calls e < request_count K calls e' \<or>
     request_count K calls e = request_count K calls e' \<and>
     co_bytes_sent K calls (s_handle (fst e)) < co_bytes_sent K calls (s_handle (fst e'))"

text \<open>What a search that goes through \<open>es\<close> has to find: the lightest of the switched ones, the last of equals.\<close>

definition lightest :: "pool_core \<Rightarrow> pool_call list \<Rightarrow> pool_entry list \<Rightarrow> pool_entry option \<Rightarrow> bool" where
  "lightest K calls es found \<longleftrightarrow>
     (case found of
        None \<Rightarrow> filter (is_switched K calls) es = []
      | Some e \<Rightarrow>
          \<exists>before after.
            filter (is_switched K calls) es = before @ e # after \<and>
            list_all (\<lambda>e'. \<not> lighter K calls e' e) before \<and> list_all (lighter K calls e) after)"

lemma lighter_trans: "\<lbrakk>lighter K calls a b; lighter K calls b c\<rbrakk> \<Longrightarrow> lighter K calls a c"
  and lighter_cases: "\<lbrakk>\<not> lighter K calls b a; \<not> lighter K calls c b\<rbrakk> \<Longrightarrow> \<not> lighter K calls c a"
  and lighter_through: "\<lbrakk>\<not> lighter K calls a b; lighter K calls a c\<rbrakk> \<Longrightarrow> lighter K calls b c"
  by (auto simp: lighter_def)

lemma Seek_step_switched:
  "is_switched K calls e \<Longrightarrow>
   Seek_step K calls (Some h0) e = (if lighter K calls h0 e then Some h0 else Some e)"
  by (auto simp: Seek_step_def is_switched_def lighter_def Let_def)

lemma lightest_step:
  assumes "lightest K calls es found"
  shows "lightest K calls (es @ [e]) (Seek_step K calls found e)"
proof (cases "is_switched K calls e")
  case False
  then have eq: "Seek_step K calls found e = found"
    "filter (is_switched K calls) (es @ [e]) = filter (is_switched K calls) es"
    by (simp_all add: Seek_step_def is_switched_def)
  show ?thesis using assms unfolding lightest_def eq .
next
  case sw: True
  show ?thesis
  proof (cases found)
    case None
    then show ?thesis
      using assms sw by (auto simp: lightest_def Seek_step_def is_switched_def intro!: exI [of _ "[]"])
  next
    case (Some h0)
    then obtain before after where f: "filter (is_switched K calls) es = before @ h0 # after"
      and b: "list_all (\<lambda>e'. \<not> lighter K calls e' h0) before" and a: "list_all (lighter K calls h0) after"
      using assms by (auto simp: lightest_def)
    show ?thesis
    proof (cases "lighter K calls h0 e")
      case True
      then show ?thesis
        using f b a sw Some
        by (simp add: lightest_def Seek_step_switched) (rule exI [of _ before], rule exI [of _ "after @ [e]"], simp)
    next
      case False
      have "list_all (\<lambda>e'. \<not> lighter K calls e' e) (before @ h0 # after)"
        using b a False by (auto simp: list_all_iff dest: lighter_cases lighter_trans)
      then show ?thesis
        using f sw Some False
        by (simp add: lightest_def Seek_step_switched) (rule exI [of _ "before @ h0 # after"], rule exI [of _ "[]"], simp)
    qed
  qed
qed

lemma Seek_lightest: "lightest K calls es (foldl (Seek_step K calls) None es)"
proof (induction es rule: rev_induct)
  case Nil
  then show ?case by (simp add: lightest_def)
next
  case (snoc e es)
  then show ?case by (simp add: lightest_step)
qed

text \<open>
  C19: Seek gives the handler of the switched socket that has the fewest requests waiting, of those the one that has
  sent the fewest bytes, and of those the last; and none exactly if no socket is switched.
\<close>

theorem seek_least_loaded:
  "\<exists>found. Seek K calls sp = map_option snd found \<and> lightest K calls (m_mapSocketHandler sp) found"
  by (simp add: Seek_def Seek_lightest exI [where x = "foldl (Seek_step K calls) None (m_mapSocketHandler sp)"])

section \<open>What the events amount to\<close>

text \<open>The registered pools by their id, each with its sockets, and whether a merge has begun.\<close>

definition handles :: "socket_pool \<Rightarrow> nat list" where
  "handles sp = map (\<lambda>e. s_handle (fst e)) (m_mapSocketHandler sp)"

definition addrs :: "socket_pool \<Rightarrow> nat list" where
  "addrs sp = map (\<lambda>e. p_addr (snd e)) (m_mapSocketHandler sp)"

definition pool_of :: "pool_world \<Rightarrow> nat \<Rightarrow> nat \<Rightarrow> socket_pool \<Rightarrow> bool" where
  "pool_of w poolId p sp \<longleftrightarrow> p \<in> set (m_vPool w) \<and> pool_at w p = Some sp \<and> m_nPoolId sp = poolId"

definition pool_ok :: "pool_world \<Rightarrow> socket_pool \<Rightarrow> bool" where
  "pool_ok w sp \<longleftrightarrow>
     (m_nPoolId sp = 0 \<longrightarrow> m_mapSocketHandler sp = []) \<and> distinct (handles sp) \<and> distinct (addrs sp) \<and>
     (\<forall>a \<in> set (addrs sp). handler_at w a \<noteq> None) \<and>
     (\<forall>hn. m_pHFrom sp = Some hn \<longrightarrow> handler_at w (p_addr hn) \<noteq> None)"

definition apart :: "socket_pool \<Rightarrow> socket_pool \<Rightarrow> bool" where
  "apart sp sq \<longleftrightarrow> (m_nPoolId sp = m_nPoolId sq \<longrightarrow> m_nPoolId sp = 0) \<and> set (addrs sp) \<inter> set (addrs sq) = {}"

definition pools_inv :: "pool_world \<Rightarrow> bool" where
  "pools_inv w \<longleftrightarrow>
     distinct (m_vPool w) \<and> (\<forall>a. handler_at w a \<noteq> None \<longrightarrow> a < next_handler w) \<and>
     (\<forall>p \<in> set (m_vPool w). \<exists>sp. pool_at w p = Some sp \<and> pool_ok w sp) \<and>
     (\<forall>p \<in> set (m_vPool w). \<forall>q \<in> set (m_vPool w). \<forall>sp sq.
        p \<noteq> q \<longrightarrow> pool_at w p = Some sp \<longrightarrow> pool_at w q = Some sq \<longrightarrow> apart sp sq)"

lemma apart_sym: "apart sp sq \<Longrightarrow> apart sq sp"
  by (auto simp: apart_def)

lemma pools_invD:
  assumes "pools_inv w"
  shows "distinct (m_vPool w)" "handler_at w a \<noteq> None \<Longrightarrow> a < next_handler w"
    "p \<in> set (m_vPool w) \<Longrightarrow> \<exists>sp. pool_at w p = Some sp \<and> pool_ok w sp"
    "\<lbrakk>p \<in> set (m_vPool w); q \<in> set (m_vPool w); p \<noteq> q; pool_at w p = Some sp; pool_at w q = Some sq\<rbrakk> \<Longrightarrow> apart sp sq"
  using assms unfolding pools_inv_def by blast+

lemma pool_of_D: "pool_of w n p sp \<Longrightarrow> p \<in> set (m_vPool w) \<and> pool_at w p = Some sp \<and> m_nPoolId sp = n \<and> the_pool w p = Inr sp"
  by (simp add: pool_of_def the_pool_def)

lemma pool_of_ok: "\<lbrakk>pools_inv w; pool_of w n p sp\<rbrakk> \<Longrightarrow> pool_ok w sp"
  using pools_invD(3) by (fastforce simp: pool_of_def)

lemma pool_of_unique: "\<lbrakk>pools_inv w; n \<noteq> 0; pool_of w n p sp; pool_of w n q sq\<rbrakk> \<Longrightarrow> p = q \<and> sp = sq"
  using pools_invD(4) [of w p q sp sq] by (cases "p = q") (auto simp: pool_of_def apart_def)

lemma Seek_pool_None: "Seek_pool w n = None \<longleftrightarrow> (\<forall>p sp. \<not> pool_of w n p sp)"
  by (auto simp: Seek_pool_def find_None_iff has_id_def pool_of_def split: option.splits)

lemma Seek_pool_Some: "Seek_pool w n = Some p \<Longrightarrow> \<exists>sp. pool_of w n p sp"
  by (auto simp: Seek_pool_def find_Some_iff has_id_def pool_of_def split: option.splits)

lemma Seek_pool_of: "\<lbrakk>pools_inv w; n \<noteq> 0; pool_of w n p sp\<rbrakk> \<Longrightarrow> Seek_pool w n = Some p"
  using Seek_pool_None [of w n] Seek_pool_Some [of w n] pool_of_unique [of w n] by (cases "Seek_pool w n") blast+

lemma last_idle_Some: "last_idle w = Some p \<Longrightarrow> \<exists>sp. pool_of w 0 p sp"
  by (auto simp: last_idle_def find_Some_iff has_id_def pool_of_def rev_nth split: option.splits)

lemma last_idle_None: "last_idle w = None \<longleftrightarrow> (\<forall>p sp. \<not> pool_of w 0 p sp)"
  by (auto simp: last_idle_def find_None_iff has_id_def pool_of_def split: option.splits)

text \<open>An operation that replaces one pool and adds handlers keeps the invariant.\<close>

lemma pool_ok_mono:
  "\<lbrakk>pool_ok w sp; \<forall>a. handler_at w a \<noteq> None \<longrightarrow> handler_at w' a \<noteq> None\<rbrakk> \<Longrightarrow> pool_ok w' sp"
  unfolding pool_ok_def by blast

lemma pools_inv_update:
  assumes inv: "pools_inv w" and p: "p \<in> set (m_vPool w)"
    and w': "m_vPool w' = m_vPool w" "pool_at w' = (pool_at w)(p \<mapsto> sp')"
    and h: "\<forall>a. handler_at w a \<noteq> None \<longrightarrow> handler_at w' a \<noteq> None" "\<forall>a. handler_at w' a \<noteq> None \<longrightarrow> a < next_handler w'"
    and ok: "pool_ok w' sp'"
    and apart: "\<And>q sq. \<lbrakk>q \<in> set (m_vPool w); q \<noteq> p; pool_at w q = Some sq\<rbrakk> \<Longrightarrow> apart sp' sq"
  shows "pools_inv w'"
proof -
  have same: "pool_at w' q = pool_at w q" if "q \<noteq> p" for q
    using w'(2) that by simp
  have "\<exists>sq. pool_at w' q = Some sq \<and> pool_ok w' sq" if q: "q \<in> set (m_vPool w)" for q
  proof (cases "q = p")
    case True
    then show ?thesis using ok w'(2) by simp
  next
    case False
    then show ?thesis using pools_invD(3) [OF inv q] pool_ok_mono [OF _ h(1)] same by auto
  qed
  moreover have "apart sq sr"
    if q: "q \<in> set (m_vPool w)" and r: "r \<in> set (m_vPool w)" and "q \<noteq> r"
      and sq: "pool_at w' q = Some sq" and sr: "pool_at w' r = Some sr" for q r sq sr
  proof -
    consider "q = p" | "r = p" | "q \<noteq> p" "r \<noteq> p" by blast
    then show ?thesis
    proof cases
      case 1
      then show ?thesis using apart [OF r] sq sr same [of r] \<open>q \<noteq> r\<close> w'(2) by simp
    next
      case 2
      then show ?thesis using apart_sym [OF apart [OF q]] sq sr same [of q] \<open>q \<noteq> r\<close> w'(2) by simp
    next
      case 3
      then show ?thesis using pools_invD(4) [OF inv q r \<open>q \<noteq> r\<close>] sq sr same by simp
    qed
  qed
  ultimately show ?thesis
    unfolding pools_inv_def w'(1) using pools_invD(1) [OF inv] h(2) by blast
qed

section \<open>Calls that change nothing but the core\<close>

definition connect_of :: "pool_call \<Rightarrow> (nat \<times> string \<times> nat \<times> bool) option" where
  "connect_of c = (case c of C_Connect h host port sync v6 \<Rightarrow> Some (h, host, port, v6) | _ \<Rightarrow> None)"

definition connects :: "pool_call list \<Rightarrow> (nat \<times> string \<times> nat \<times> bool) list" where
  "connects cs = List.map_filter connect_of cs"

lemma connects_simps [simp]:
  "connects [] = []" "connects (cs @ ds) = connects cs @ connects ds"
  "connects (c # cs) = (case connect_of c of None \<Rightarrow> connects cs | Some x \<Rightarrow> x # connects cs)"
  by (simp_all add: connects_def map_filter_simps split: option.split) (simp add: List.map_filter_def)

definition more_calls :: "pool_world \<Rightarrow> pool_world \<Rightarrow> bool" where
  "more_calls w w' \<longleftrightarrow> (\<exists>x. w' = w\<lparr>pool_calls := pool_calls w @ x\<rparr> \<and> connects x = [])"

lemma more_calls_refl [simp]: "more_calls w w"
  unfolding more_calls_def by (rule exI [of _ "[]"]) simp

lemma more_calls_trans: "\<lbrakk>more_calls w w1; more_calls w1 w2\<rbrakk> \<Longrightarrow> more_calls w w2"
  unfolding more_calls_def by force

lemma more_calls_call [intro]: "\<lbrakk>more_calls w w1; connect_of c = None\<rbrakk> \<Longrightarrow> more_calls w (call c w1)"
  by (rule more_calls_trans) (auto simp: more_calls_def call_def)

lemma call_fields [simp]:
  "m_vPool (call c w) = m_vPool w" "pool_at (call c w) = pool_at w" "handler_at (call c w) = handler_at w"
  "next_handler (call c w) = next_handler w" "pool_calls (call c w) = pool_calls w @ [c]"
  by (simp_all add: call_def)

lemma set_pool_fields [simp]:
  "m_vPool (set_pool p sp w) = m_vPool w" "pool_at (set_pool p sp w) = (pool_at w)(p \<mapsto> sp)"
  "handler_at (set_pool p sp w) = handler_at w" "next_handler (set_pool p sp w) = next_handler w"
  "pool_calls (set_pool p sp w) = pool_calls w"
  by (simp_all add: set_pool_def)

lemma more_calls_fields:
  assumes "more_calls w w'"
  shows "m_vPool w' = m_vPool w" "pool_at w' = pool_at w" "handler_at w' = handler_at w" "next_handler w' = next_handler w"
  using assms by (auto simp: more_calls_def)

lemma more_calls_pool_of: "more_calls w w' \<Longrightarrow> pool_of w' n p sp = pool_of w n p sp"
  by (simp add: pool_of_def more_calls_fields)

lemma more_calls_ok: "more_calls w w' \<Longrightarrow> pool_ok w' sp = pool_ok w sp"
  unfolding pool_ok_def by (simp only: more_calls_fields)

lemma more_calls_inv: "more_calls w w' \<Longrightarrow> pools_inv w' = pools_inv w"
  unfolding pools_inv_def by (simp only: more_calls_fields more_calls_ok)

lemma MapToHandler_Some: "h \<in> set (handles sp) \<Longrightarrow> \<exists>hn. MapToHandler h sp = Some hn \<and> p_addr hn \<in> set (addrs sp)"
proof -
  assume "h \<in> set (handles sp)"
  then have "find (\<lambda>e. s_handle (fst e) = h) (m_mapSocketHandler sp) \<noteq> None"
    by (auto simp: find_None_iff handles_def)
  then obtain e where e: "find (\<lambda>e. s_handle (fst e) = h) (m_mapSocketHandler sp) = Some e" by blast
  then have "e \<in> set (m_mapSocketHandler sp)" by (auto simp: find_Some_iff)
  then show ?thesis using e by (auto simp: MapToHandler_def addrs_def)
qed

lemma MapToSocket_loop_Some: "h \<in> (\<lambda>e. s_handle (fst e)) ` set es \<Longrightarrow> \<exists>s j. MapToSocket_loop h i es = (Some s, j)"
  by (induction es arbitrary: i) auto

lemma MapToSocket_Some: "h \<in> set (handles sp) \<Longrightarrow> \<exists>s j. MapToSocket h sp = (Some s, j)"
  by (simp add: MapToSocket_def handles_def MapToSocket_loop_Some)

lemma SetQueue_more: "the_pool w p = Inr sp \<Longrightarrow> \<exists>w'. SetQueue K p (Some s) pos w = Inr w' \<and> more_calls w w'"
  by (auto simp: SetQueue_def start_queue_def Let_def connect_of_def)

lemma the_pool_more: "more_calls w w' \<Longrightarrow> the_pool w' p = the_pool w p"
  by (simp add: the_pool_def more_calls_fields)

lemma tell_more:
  assumes "the_pool w p = Inr sp"
    and "spe = speConnected \<Longrightarrow> co_opened K (pool_calls w @ [C_Told p spe (MapToHandler h sp)]) h \<Longrightarrow> fst found \<noteq> None"
  shows "\<exists>w'. tell K spe h found (Some p) w = Inr w' \<and> more_calls w w'"
proof (cases "spe = speConnected \<and> co_opened K (pool_calls w @ [C_Told p spe (MapToHandler h sp)]) h")
  case True
  then obtain s where s: "fst found = Some s" using assms(2) by blast
  let ?w = "call (C_Told p spe (MapToHandler h sp)) w"
  have m: "more_calls w ?w" by (auto simp: connect_of_def)
  obtain w' where "SetQueue K p (Some s) (snd found) ?w = Inr w'" "more_calls ?w w'"
    using SetQueue_more [of ?w p sp K s] assms(1) by (auto simp: the_pool_more [OF m])
  then show ?thesis using assms(1) s True more_calls_trans [OF m] by (auto simp: tell_def Let_def)
next
  case False
  then show ?thesis using assms(1) by (auto simp: tell_def Let_def connect_of_def)
qed

text \<open>
  What is known of the core and of the hash table: a new key is added to the others in some place, and telling the
  delegates of a connection does not open it.
\<close>

definition core_laws :: "pool_core \<Rightarrow> bool" where
  "core_laws K \<longleftrightarrow>
     (\<forall>es e. mset (co_slot K es e) = add_mset e (mset es)) \<and>
     (\<forall>calls p x h. co_opened K (calls @ [C_Told p speConnected x]) h \<longrightarrow> co_opened K calls h)"

lemma switch_socket_more:
  assumes "the_pool w p = Inr sp" "h \<in> set (handles sp)"
  shows "\<exists>w'. switch_socket p h (Some s) w = Inr w' \<and> more_calls w w'"
proof -
  obtain hn where "MapToHandler h sp = Some hn" using MapToHandler_Some [OF assms(2)] by blast
  then show ?thesis
    using assms(1) by (auto simp: switch_socket_def connect_of_def intro!: more_calls_call)
qed

lemma connected_more:
  assumes laws: "core_laws K" and p: "the_pool w p = Inr sp" and h: "h \<in> set (handles sp)"
  shows "\<exists>w'. bindr (on_speConnected K h (Some p) w)
                (\<lambda>(go, found, w). if go then tell K speConnected h found (Some p) w else Inr w) = Inr w' \<and> more_calls w w'"
proof (cases "co_opened K (pool_calls w) h")
  case False
  then have "\<not> co_opened K (pool_calls w @ [C_Told p speConnected (MapToHandler h sp)]) h"
    using laws by (auto simp: core_laws_def)
  then show ?thesis using False tell_more [OF p, of speConnected K h "(None, 0)"] by (simp add: on_speConnected_def)
next
  case op: True
  obtain s j where s: "MapToSocket h sp = (Some s, j)" using MapToSocket_Some [OF h] by blast
  let ?w = "call (C_SetSockOpt h) (call (C_SetSockOpt h) w)"
  have m: "more_calls w ?w" by (auto simp: connect_of_def intro!: more_calls_call)
  show ?thesis
  proof (cases "refused K p h ?w")
    case True
    then show ?thesis using op p s m by (auto simp: on_speConnected_def Let_def)
  next
    case False
    obtain w1 where w1: "switch_socket p h (Some s) ?w = Inr w1" "more_calls ?w w1"
      using switch_socket_more [of ?w p sp h s] p h by (auto simp: the_pool_more [OF m])
    have m1: "more_calls w w1" using more_calls_trans [OF m w1(2)] .
    obtain w2 where "tell K speConnected h (Some s, j) (Some p) w1 = Inr w2" "more_calls w1 w2"
      using tell_more [of w1 p sp speConnected K h "(Some s, j)"] p by (auto simp: the_pool_more [OF m1])
    then show ?thesis
      using op p s False w1(1) more_calls_trans [OF m1] by (auto simp: on_speConnected_def Let_def)
  qed
qed

definition view :: "pool_world \<Rightarrow> nat \<Rightarrow> nat set option" where
  "view w n =
     (if n = 0 then None
      else case Seek_pool w n of None \<Rightarrow> None | Some p \<Rightarrow> map_option (\<lambda>sp. set (handles sp)) (pool_at w p))"

definition idle_set :: "pool_world \<Rightarrow> nat set" where
  "idle_set w = {p \<in> set (m_vPool w). has_id w 0 p}"

record pools_spec =
  up :: "nat \<Rightarrow> nat set option"
  idle :: nat
  merging :: "nat set"

definition sim :: "pool_world \<Rightarrow> pools_spec \<Rightarrow> bool" where
  "sim w a \<longleftrightarrow>
     pools_inv w \<and> view w = up a \<and> card (idle_set w) = idle a \<and>
     (\<forall>n \<in> merging a. n \<noteq> 0 \<and> (\<exists>p sp. pool_of w n p sp \<and> m_pHFrom sp \<noteq> None))"

text \<open>The order in which the core reports: what each event needs, and what it makes of the pools.\<close>

fun legal :: "pools_spec \<Rightarrow> nat \<times> tagSocketPoolEvent \<times> nat \<Rightarrow> bool" where
  "legal a (n, spe, h) \<longleftrightarrow>
     n \<noteq> 0 \<and>
     (case spe of
        speStarted \<Rightarrow> up a n = None \<and> idle a > 0
      | speUSocketCreated \<Rightarrow> (case up a n of None \<Rightarrow> True | Some S \<Rightarrow> h \<notin> S)
      | speConnected \<Rightarrow> (case up a n of None \<Rightarrow> True | Some S \<Rightarrow> h \<in> S)
      | speQueueMergedFrom \<Rightarrow> (case up a n of None \<Rightarrow> False | Some S \<Rightarrow> h \<in> S)
      | speQueueMergedTo \<Rightarrow> n \<in> merging a \<and> (case up a n of None \<Rightarrow> False | Some S \<Rightarrow> h \<in> S)
      | _ \<Rightarrow> True)"

fun event_spec :: "pools_spec \<Rightarrow> nat \<times> tagSocketPoolEvent \<times> nat \<Rightarrow> pools_spec" where
  "event_spec a (n, spe, h) =
     (case spe of
        speStarted \<Rightarrow> a\<lparr>up := (up a)(n \<mapsto> {}), idle := idle a - 1\<rparr>
      | speShutdown \<Rightarrow>
          (if up a n = None then a
           else a\<lparr>up := (up a)(n := None), idle := idle a + 1, merging := merging a - {n}\<rparr>)
      | speUSocketCreated \<Rightarrow> a\<lparr>up := (up a)(n := map_option (insert h) (up a n))\<rparr>
      | speUSocketKilled \<Rightarrow> a\<lparr>up := (up a)(n := map_option (\<lambda>S. S - {h}) (up a n))\<rparr>
      | speQueueMergedFrom \<Rightarrow> a\<lparr>merging := insert n (merging a)\<rparr>
      | speQueueMergedTo \<Rightarrow> a\<lparr>merging := merging a - {n}\<rparr>
      | _ \<Rightarrow> a)"

lemma simD: "sim w a \<Longrightarrow> pools_inv w" "sim w a \<Longrightarrow> up a = view w" "sim w a \<Longrightarrow> idle a = card (idle_set w)"
  "\<lbrakk>sim w a; n \<in> merging a\<rbrakk> \<Longrightarrow> n \<noteq> 0 \<and> (\<exists>p sp. pool_of w n p sp \<and> m_pHFrom sp \<noteq> None)"
  by (simp_all add: sim_def)

lemma view_Some: "\<lbrakk>pools_inv w; n \<noteq> 0; pool_of w n p sp\<rbrakk> \<Longrightarrow> view w n = Some (set (handles sp))"
  by (simp add: view_def Seek_pool_of pool_of_D)

lemma view_None: "n \<noteq> 0 \<Longrightarrow> Seek_pool w n = None \<Longrightarrow> view w n = None"
  by (simp add: view_def)

lemma view_cases:
  assumes "pools_inv w" "n \<noteq> 0"
  obtains "Seek_pool w n = None" "view w n = None"
  | p sp where "Seek_pool w n = Some p" "pool_of w n p sp" "view w n = Some (set (handles sp))"
proof (cases "Seek_pool w n")
  case None
  then show thesis by (rule that(1)) (rule view_None [OF assms(2) None])
next
  case (Some p)
  then obtain sp where "pool_of w n p sp" using Seek_pool_Some by blast
  then show thesis using that(2) [OF Some] view_Some [OF assms] by simp
qed

lemma has_id_pool_of: "p \<in> set (m_vPool w) \<Longrightarrow> has_id w n p \<longleftrightarrow> (\<exists>sp. pool_of w n p sp)"
  by (auto simp: has_id_def pool_of_def split: option.splits)

lemma idle_set_pool_of: "idle_set w = {p. \<exists>sp. pool_of w 0 p sp}"
  by (auto simp: idle_set_def has_id_def pool_of_def split: option.splits)

lemma finite_idle [simp]: "finite (idle_set w)"
  by (simp add: idle_set_def)

lemma sim_more: "more_calls w w' \<Longrightarrow> sim w' a = sim w a"
proof -
  assume m: "more_calls w w'"
  have "has_id w' = has_id w" by (intro ext) (simp add: has_id_def more_calls_fields [OF m])
  then have "view w' = view w" by (intro ext) (simp add: view_def Seek_pool_def more_calls_fields [OF m] split: option.split)
  then show ?thesis by (simp add: sim_def more_calls_inv [OF m] idle_set_pool_of more_calls_pool_of [OF m])
qed

lemma pool_of_update:
  assumes "p \<in> set (m_vPool w)" "m_vPool w' = m_vPool w" "pool_at w' = (pool_at w)(p \<mapsto> sp')"
  shows "pool_of w' k q sq = (if q = p then sq = sp' \<and> k = m_nPoolId sp' else pool_of w k q sq)"
  using assms by (auto simp: pool_of_def)

text \<open>Replacing a pool by one with the id \<open>n\<close>, which is the old id, 0 or a new one.\<close>

lemma view_update:
  assumes inv: "pools_inv w" "pools_inv w'" and p: "pool_of w m p sp"
    and w': "m_vPool w' = m_vPool w" "pool_at w' = (pool_at w)(p \<mapsto> sp')"
    and n: "m_nPoolId sp' = n" "n = m \<or> n = 0 \<or> view w n = None"
  shows "view w' k = (if k = 0 then None else if k = n then Some (set (handles sp')) else if k = m then None else view w k)"
proof -
  have upd: "pool_of w' k q sq = (if q = p then sq = sp' \<and> k = m_nPoolId sp' else pool_of w k q sq)" for k q sq
    using p w' by (intro pool_of_update) (auto dest: pool_of_D)
  consider "k = 0" | "k \<noteq> 0" "k = n" | "k \<noteq> 0" "k \<noteq> n" "k = m" | "k \<noteq> 0" "k \<noteq> n" "k \<noteq> m" by blast
  then show ?thesis
  proof cases
    case 1
    then show ?thesis by (simp add: view_def)
  next
    case 2
    then show ?thesis using view_Some [OF inv(2), of n p sp'] upd n(1) by simp
  next
    case 3
    then have "\<not> pool_of w' k q sq" for q sq
      using upd n(1) p pool_of_unique [OF inv(1), of m p sp q sq] by auto
    then show ?thesis using 3 view_None [of k w'] by (simp add: Seek_pool_None)
  next
    case 4
    have q: "pool_of w' k q sq \<longleftrightarrow> pool_of w k q sq" for q sq
      using upd [of k q sq] 4 n(1) p by (auto simp: pool_of_def)
    show ?thesis
      by (rule view_cases [OF inv(1) \<open>k \<noteq> 0\<close>])
        (use 4 q view_Some [OF inv(2) \<open>k \<noteq> 0\<close>] in \<open>auto simp: view_None Seek_pool_None\<close>)
  qed
qed

text \<open>An event that changes the pool with the id \<open>n\<close> but not the id.\<close>

lemma sim_update:
  assumes sim: "sim w a" and n: "n \<noteq> 0" and p: "pool_of w n p sp" and inv: "pools_inv w'"
    and w': "m_vPool w' = m_vPool w" "pool_at w' = (pool_at w)(p \<mapsto> sp')" and sp': "m_nPoolId sp' = n"
    and M: "M \<subseteq> insert n (merging a)" "n \<in> M \<longrightarrow> m_pHFrom sp' \<noteq> None"
  shows "sim w' (a\<lparr>up := (up a)(n \<mapsto> set (handles sp')), merging := M\<rparr>)"
proof -
  have upd: "pool_of w' k q sq = (if q = p then sq = sp' \<and> k = n else pool_of w k q sq)" for k q sq
    using p sp' pool_of_update [OF _ w'] by (auto dest: pool_of_D)
  have "view w' = (up a)(n \<mapsto> set (handles sp'))"
    using view_update [OF simD(1) [OF sim] inv p w' sp'] n by (intro ext) (simp add: simD(2) [OF sim] view_def)
  moreover have "idle_set w' = idle_set w"
    using p n by (auto simp: idle_set_pool_of upd) (auto simp: pool_of_def)
  moreover have "\<exists>q sq. pool_of w' k q sq \<and> m_pHFrom sq \<noteq> None" if "k \<in> M" for k
  proof (cases "k = n")
    case True
    then show ?thesis using M(2) that by (intro exI [of _ p] exI [of _ sp']) (simp add: upd)
  next
    case False
    have "k \<in> merging a" using that False M(1) by blast
    then obtain q sq where q: "pool_of w k q sq" "m_pHFrom sq \<noteq> None" using simD(4) [OF sim, of k] by blast
    then have "q \<noteq> p" using p False by (auto simp: pool_of_def)
    then show ?thesis using upd [of k q sq] q by auto
  qed
  moreover have "k \<noteq> 0" if "k \<in> M" for k
    using simD(4) [OF sim, of k] that M(1) n by blast
  ultimately show ?thesis
    using inv simD(3) [OF sim] by (simp add: sim_def)
qed

lemma sim_pool:
  assumes "sim w a" "n \<noteq> 0"
  obtains "Seek_pool w n = None" "up a n = None"
  | p sp where "Seek_pool w n = Some p" "pool_of w n p sp" "up a n = Some (set (handles sp))" "pool_ok w sp"
      "the_pool w p = Inr sp" "p \<in> set (m_vPool w)" "pool_at w p = Some sp"
proof (rule view_cases [OF simD(1) [OF assms(1)] assms(2)])
  assume "Seek_pool w n = None" "view w n = None"
  then show thesis using that(1) by (simp add: simD(2) [OF assms(1)])
next
  fix p sp assume p: "Seek_pool w n = Some p" "pool_of w n p sp" "view w n = Some (set (handles sp))"
  show thesis
    by (rule that(2) [OF p(1,2)])
      (use p pool_of_ok [OF simD(1) [OF assms(1)] p(2)] pool_of_D [OF p(2)] in \<open>simp_all add: simD(2) [OF assms(1)]\<close>)
qed

lemma tell_sim:
  assumes "sim w a" "p \<in> set (m_vPool w)" "spe \<noteq> speConnected"
  shows "\<exists>w'. tell K spe h found (Some p) w = Inr w' \<and> sim w' a"
proof -
  obtain sp where "the_pool w p = Inr sp"
    using pools_invD(3) [OF simD(1) [OF assms(1)] assms(2)] by (auto simp: the_pool_def)
  then show ?thesis using tell_more [of w p sp spe] assms sim_more by blast
qed

lemma apart_others:
  assumes "pools_inv w" "p \<in> set (m_vPool w)" "pool_at w p = Some sp" "m_nPoolId sp' = m_nPoolId sp" "set (addrs sp') \<subseteq> set (addrs sp)"
  shows "\<lbrakk>q \<in> set (m_vPool w); q \<noteq> p; pool_at w q = Some sq\<rbrakk> \<Longrightarrow> apart sp' sq"
  using pools_invD(4) [OF assms(1,2), of q sp sq] assms(3-) by (auto simp: apart_def)

lemma erase_socket_handles: "distinct (map (\<lambda>e. s_handle (fst e)) es) \<Longrightarrow>
    (\<lambda>e. s_handle (fst e)) ` set (erase_socket h es) = (\<lambda>e. s_handle (fst e)) ` set es - {h}"
  by (induction es) (auto, force+)

lemma erase_socket_subset: "set (erase_socket h es) \<subseteq> set es"
  by (induction es) auto

lemma erase_socket_distinct: "distinct (map f es) \<Longrightarrow> distinct (map f (erase_socket h es))"
proof (induction es)
  case (Cons e es)
  then show ?case using erase_socket_subset [of h es] by auto
qed simp

lemma killed_sim:
  assumes sim: "sim w a" and n: "n \<noteq> 0"
  shows "\<exists>w'. SPE K n speUSocketKilled h w = Inr w' \<and> sim w' (event_spec a (n, speUSocketKilled, h))"
  using sim n
proof (cases rule: sim_pool)
  case 1
  then have "(up a)(n := None) = up a" by (intro ext) simp
  then show ?thesis using 1 sim by (auto simp: SPE_def Let_def on_speUSocketKilled_def tell_def)
next
  case (2 p sp)
  let ?sp = "sp\<lparr>m_mapSocketHandler := erase_socket h (m_mapSocketHandler sp)\<rparr>"
  have ok: "pool_ok w ?sp" and sub: "set (addrs ?sp) \<subseteq> set (addrs sp)"
    using 2(4) erase_socket_subset [of h "m_mapSocketHandler sp"]
    by (auto simp: pool_ok_def handles_def addrs_def erase_socket_distinct image_subset_iff subset_iff)
  have inv: "pools_inv (set_pool p ?sp w)"
    by (rule pools_inv_update [OF simD(1) [OF sim] 2(6)])
      (use ok sub pools_invD(2) [OF simD(1) [OF sim]] apart_others [OF simD(1) [OF sim] 2(6,7), of ?sp]
        in \<open>auto intro: pool_ok_mono\<close>)
  have hs: "set (handles ?sp) = set (handles sp) - {h}"
    using 2(4) by (simp add: handles_def pool_ok_def erase_socket_handles)
  have M: "n \<in> merging a \<longrightarrow> m_pHFrom sp \<noteq> None"
    using simD(4) [OF sim, of n] pool_of_unique [OF simD(1) [OF sim] n 2(2)] by blast
  have "sim (set_pool p ?sp w) (event_spec a (n, speUSocketKilled, h))"
    using sim_update [OF sim n 2(2) inv, of ?sp "merging a"] 2(2,3) hs M by (auto simp: pool_of_def)
  then show ?thesis
    using 2 tell_sim [of "set_pool p ?sp w" _ p speUSocketKilled K h "(None, 0)"]
    by (auto simp: SPE_def Let_def on_speUSocketKilled_def)
qed

lemma merging_from: "\<lbrakk>sim w a; n \<noteq> 0; pool_of w n p sp; n \<in> merging a\<rbrakk> \<Longrightarrow> m_pHFrom sp \<noteq> None"
  using simD(4) [of w a n] pool_of_unique [of w n p sp] simD(1) by blast

lemma slot_handles:
  assumes "core_laws K"
  shows "mset (handles (sp\<lparr>m_mapSocketHandler := co_slot K (m_mapSocketHandler sp) e\<rparr>)) = add_mset (s_handle (fst e)) (mset (handles sp))"
    and "mset (addrs (sp\<lparr>m_mapSocketHandler := co_slot K (m_mapSocketHandler sp) e\<rparr>)) = add_mset (p_addr (snd e)) (mset (addrs sp))"
proof -
  have "mset (co_slot K (m_mapSocketHandler sp) e) = add_mset e (mset (m_mapSocketHandler sp))"
    using assms unfolding core_laws_def by blast
  then show "mset (handles (sp\<lparr>m_mapSocketHandler := co_slot K (m_mapSocketHandler sp) e\<rparr>)) = add_mset (s_handle (fst e)) (mset (handles sp))"
    and "mset (addrs (sp\<lparr>m_mapSocketHandler := co_slot K (m_mapSocketHandler sp) e\<rparr>)) = add_mset (p_addr (snd e)) (mset (addrs sp))"
    by (simp_all add: handles_def addrs_def)
qed

lemma set_distinct_of_mset:
  assumes "mset xs = add_mset x (mset ys)"
  shows "set xs = insert x (set ys)" "distinct xs = (x \<notin> set ys \<and> distinct ys)"
proof -
  have m: "mset xs = mset (x # ys)" using assms by simp
  show "set xs = insert x (set ys)" using mset_eq_setD [OF m] by simp
  show "distinct xs = (x \<notin> set ys \<and> distinct ys)" using mset_eq_imp_distinct_iff [OF m] by simp
qed

lemma created_sim:
  assumes laws: "core_laws K" and sim: "sim w a" and leg: "legal a (n, speUSocketCreated, h)"
  shows "\<exists>w'. SPE K n speUSocketCreated h w = Inr w' \<and> sim w' (event_spec a (n, speUSocketCreated, h))"
proof -
  have n: "n \<noteq> 0" using leg by simp
  show ?thesis using sim n
  proof (cases rule: sim_pool)
    case 1
    then have "(up a)(n := None) = up a" by (intro ext) simp
    then show ?thesis using 1 sim by (auto simp: SPE_def Let_def on_speUSocketCreated_def tell_def)
  next
    case (2 p sp)
    have h: "h \<notin> set (handles sp)" using leg 2(3) by simp
    let ?a = "next_handler w"
    let ?e = "(\<lparr>s_handle = h, m_cc = CConnectionContext_new\<rparr>,
               \<lparr>p_addr = ?a, p_SvsId = (if app_service K = 0 then p_nServiceId sp else app_service K)\<rparr>)"
    let ?sp = "sp\<lparr>m_mapSocketHandler := co_slot K (m_mapSocketHandler sp) ?e\<rparr>"
    let ?w = "call (C_SetAutoConn h (m_autoConn sp)) (call (C_SetConnTimeout h (m_connTimeout sp))
                (call (C_SetRecvTimeout h (m_recvTimeout sp)) w))"
    let ?w' = "set_pool p ?sp (?w\<lparr>handler_at := (handler_at ?w)(?a \<mapsto> \<lparr>m_vCallback = [], m_vBatching = [], IsRandom = False\<rparr>),
                                   next_handler := ?a + 1\<rparr>)"
    note hs = set_distinct_of_mset [OF slot_handles(1) [OF laws, of sp ?e]]
      and as = set_distinct_of_mset [OF slot_handles(2) [OF laws, of sp ?e]]
    have inv0: "pools_inv w" using simD(1) [OF sim] .
    have old: "b < ?a" if "q \<in> set (m_vPool w)" "pool_at w q = Some sq" "b \<in> set (addrs sq)" for b q sq
      using pools_invD(3) [OF inv0 that(1)] that pools_invD(2) [OF inv0, of b] by (auto simp: pool_ok_def)
    have sp0: "m_nPoolId sp = n" using 2(2) by (simp add: pool_of_def)
    have ok: "pool_ok ?w' ?sp"
      using 2(4) hs as h sp0 n old [OF 2(6,7)] by (auto simp: pool_ok_def)
    have inv: "pools_inv ?w'"
    proof (rule pools_inv_update [OF inv0 2(6) _ _ _ _ ok])
      show "\<forall>b. handler_at ?w' b \<noteq> None \<longrightarrow> b < next_handler ?w'"
        using pools_invD(2) [OF inv0] by (auto simp: less_Suc_eq)
      fix q sq assume q: "q \<in> set (m_vPool w)" "q \<noteq> p" "pool_at w q = Some sq"
      then have "apart sp sq" using pools_invD(4) [OF inv0 2(6) q(1) _ 2(7)] by simp
      then show "apart ?sp sq" using as(1) old [OF q(1,3)] by (auto simp: apart_def)
    qed auto
    have "sim ?w' (a\<lparr>up := (up a)(n \<mapsto> set (handles ?sp)), merging := merging a\<rparr>)"
      by (rule sim_update [OF sim n 2(2) inv]) (use merging_from [OF sim n 2(2)] sp0 in simp_all, blast)
    moreover have "a\<lparr>up := (up a)(n \<mapsto> set (handles ?sp)), merging := merging a\<rparr> = event_spec a (n, speUSocketCreated, h)"
      unfolding hs(1) by (simp add: 2(3))
    ultimately have "sim ?w' (event_spec a (n, speUSocketCreated, h))" by (simp only:)
    then show ?thesis
      using 2 tell_sim [of ?w' _ p speUSocketCreated K h "(None, 0)"]
      by (auto simp: SPE_def Let_def on_speUSocketCreated_def)
  qed
qed

text \<open>An event that replaces the pool by \<open>sp'\<close> with the same sockets and handlers.\<close>

lemma same_sockets:
  assumes sim: "sim w a" and n: "n \<noteq> 0" and p: "pool_of w n p sp"
    and w': "m_vPool w' = m_vPool w" "pool_at w' = (pool_at w)(p \<mapsto> sp')" "next_handler w' = next_handler w"
      "\<forall>b. (handler_at w' b \<noteq> None) = (handler_at w b \<noteq> None)"
    and sp': "m_nPoolId sp' = n" "handles sp' = handles sp" "addrs sp' = addrs sp"
      "\<forall>hn. m_pHFrom sp' = Some hn \<longrightarrow> handler_at w (p_addr hn) \<noteq> None"
    and M: "M \<subseteq> insert n (merging a)" "n \<in> M \<longrightarrow> m_pHFrom sp' \<noteq> None"
  shows "sim w' (a\<lparr>merging := M\<rparr>)"
proof -
  have inv0: "pools_inv w" using simD(1) [OF sim] .
  note D = pool_of_D [OF p]
  have ok: "pool_ok w' sp'"
    using pool_of_ok [OF inv0 p] sp' w'(4) n D by (simp add: pool_ok_def)
  have inv: "pools_inv w'"
    by (rule pools_inv_update [OF inv0 _ w'(1,2) _ _ ok])
      (use D w'(3,4) pools_invD(2) [OF inv0] apart_others [OF inv0, of p sp sp'] sp' in auto)
  have "up a = (up a)(n \<mapsto> set (handles sp'))"
    using view_Some [OF inv0 n p] sp'(2) simD(2) [OF sim] by (intro ext) simp
  then have "a\<lparr>up := (up a)(n \<mapsto> set (handles sp')), merging := M\<rparr> = a\<lparr>merging := M\<rparr>" by simp
  then show ?thesis using sim_update [OF sim n p inv w'(1,2) sp'(1) M] by simp
qed

lemma mergedFrom_sim:
  assumes sim: "sim w a" and leg: "legal a (n, speQueueMergedFrom, h)"
  shows "\<exists>w'. SPE K n speQueueMergedFrom h w = Inr w' \<and> sim w' (event_spec a (n, speQueueMergedFrom, h))"
proof -
  have n: "n \<noteq> 0" using leg by simp
  show ?thesis using sim n
  proof (cases rule: sim_pool)
    case 1
    then show ?thesis using leg by simp
  next
    case (2 p sp)
    obtain hn where hn: "MapToHandler h sp = Some hn" "p_addr hn \<in> set (addrs sp)"
      using MapToHandler_Some leg 2(3) by fastforce
    let ?sp = "sp\<lparr>m_pHFrom := Some hn\<rparr>"
    have "sim (set_pool p ?sp w) (a\<lparr>merging := insert n (merging a)\<rparr>)"
      by (rule same_sockets [OF sim n 2(2), where sp' = ?sp]) (use 2(2,4) hn(2) in \<open>auto simp: pool_of_def pool_ok_def handles_def addrs_def\<close>)
    then show ?thesis
      using 2 hn(1) tell_sim [of "set_pool p ?sp w" _ p speQueueMergedFrom K h "(None, 0)"]
      by (auto simp: SPE_def Let_def on_speQueueMergedFrom_def)
  qed
qed

lemma mergedTo_sim:
  assumes sim: "sim w a" and leg: "legal a (n, speQueueMergedTo, h)"
  shows "\<exists>w'. SPE K n speQueueMergedTo h w = Inr w' \<and> sim w' (event_spec a (n, speQueueMergedTo, h))"
proof -
  have n: "n \<noteq> 0" using leg by simp
  show ?thesis using sim n
  proof (cases rule: sim_pool)
    case 1
    then show ?thesis using leg by simp
  next
    case (2 p sp)
    obtain hn where hn: "MapToHandler h sp = Some hn" "p_addr hn \<in> set (addrs sp)"
      using MapToHandler_Some leg 2(3) by fastforce
    then obtain y where y: "handler_at w (p_addr hn) = Some y" using 2(4) by (auto simp: pool_ok_def)
    obtain fr where fr: "m_pHFrom sp = Some fr" using merging_from [OF sim n 2(2)] leg by auto
    then obtain x where x: "handler_at w (p_addr fr) = Some x" using 2(4) by (auto simp: pool_ok_def)
    obtain x' y' where xy: "AppendTo x y = (x', y')" by fastforce
    let ?sp = "sp\<lparr>m_pHFrom := None\<rparr>"
    let ?w = "set_pool p ?sp (w\<lparr>handler_at := (handler_at w)(p_addr hn \<mapsto> y', p_addr fr \<mapsto> x')\<rparr>)"
    have "sim ?w (a\<lparr>merging := merging a - {n}\<rparr>)"
      by (rule same_sockets [OF sim n 2(2), where sp' = ?sp]) (use 2(2) x y in \<open>auto simp: pool_of_def handles_def addrs_def\<close>)
    then show ?thesis
      using 2 hn(1) x y fr xy tell_sim [of ?w _ p speQueueMergedTo K h "(None, 0)"]
      by (auto simp: SPE_def Let_def on_speQueueMergedTo_def the_handler_def)
  qed
qed

lemma connected_sim:
  assumes laws: "core_laws K" and sim: "sim w a" and leg: "legal a (n, speConnected, h)"
  shows "\<exists>w'. SPE K n speConnected h w = Inr w' \<and> more_calls w w'"
proof -
  have n: "n \<noteq> 0" using leg by simp
  show ?thesis using sim n
  proof (cases rule: sim_pool)
    case 1
    then show ?thesis by (auto simp: SPE_def Let_def on_speConnected_def tell_def)
  next
    case (2 p sp)
    then have "h \<in> set (handles sp)" using leg by simp
    then show ?thesis using connected_more [OF laws 2(5)] 2(1) by (auto simp: SPE_def Let_def)
  qed
qed

lemma idle_update:
  assumes "p \<in> set (m_vPool w)" "m_vPool w' = m_vPool w" "pool_at w' = (pool_at w)(p \<mapsto> sp')"
  shows "idle_set w' = (if m_nPoolId sp' = 0 then insert p (idle_set w) else idle_set w - {p})"
  using pool_of_update [OF assms] by (auto simp: idle_set_pool_of)

lemma shutdown_sim:
  assumes sim: "sim w a" and n: "n \<noteq> 0"
  shows "\<exists>w'. SPE K n speShutdown h w = Inr w' \<and> sim w' (event_spec a (n, speShutdown, h))"
  using sim n
proof (cases rule: sim_pool)
  case 1
  then show ?thesis using sim by (auto simp: SPE_def Let_def on_speShutdown_def tell_def)
next
  case (2 p sp)
  have inv0: "pools_inv w" using simD(1) [OF sim] .
  let ?sp = "sp\<lparr>m_mapSocketHandler := [], m_nPoolId := 0\<rparr>"
  let ?w = "set_pool p ?sp w"
  let ?a = "a\<lparr>up := (up a)(n := None), idle := idle a + 1, merging := merging a - {n}\<rparr>"
  have ok: "pool_ok ?w ?sp" using 2(4) by (simp add: pool_ok_def handles_def addrs_def)
  have inv: "pools_inv ?w"
  proof (rule pools_inv_update [OF inv0 2(6) _ _ _ _ ok])
    fix q sq assume "q \<in> set (m_vPool w)" "q \<noteq> p" "pool_at w q = Some sq"
    show "apart ?sp sq" by (simp add: apart_def addrs_def)
  qed (use pools_invD(2) [OF inv0] in auto)
  have "view ?w k = ((up a)(n := None)) k" for k
    using view_update [OF inv0 inv 2(2), of ?sp 0 k] simD(2) [OF sim] by (simp add: view_def)
  moreover have "p \<notin> idle_set w" using 2(2) n by (auto simp: idle_set_pool_of pool_of_def)
  then have "card (idle_set ?w) = idle a + 1"
    using idle_update [OF 2(6), of ?w ?sp] simD(3) [OF sim] by simp
  moreover have "\<exists>q sq. pool_of ?w k q sq \<and> m_pHFrom sq \<noteq> None" if k: "k \<in> merging a - {n}" for k
  proof -
    obtain q sq where q: "pool_of w k q sq" "m_pHFrom sq \<noteq> None" using simD(4) [OF sim, of k] k by blast
    then have "q \<noteq> p" using 2(2) k by (auto simp: pool_of_def)
    then show ?thesis using q pool_of_update [OF 2(6), of ?w ?sp k q sq] by auto
  qed
  ultimately have "sim ?w ?a"
    using inv simD(4) [OF sim] by (auto simp: sim_def)
  then show ?thesis
    using 2 tell_sim [of ?w _ p speShutdown K h "(None, 0)"] by (auto simp: SPE_def Let_def on_speShutdown_def)
qed

lemma started_sim:
  assumes sim: "sim w a" and leg: "legal a (n, speStarted, h)"
  shows "\<exists>w'. SPE K n speStarted h w = Inr w' \<and> sim w' (event_spec a (n, speStarted, h))"
proof -
  have inv0: "pools_inv w" using simD(1) [OF sim] .
  have n: "n \<noteq> 0" and fresh: "view w n = None" and idle: "card (idle_set w) > 0"
    using leg simD(2,3) [OF sim] by auto
  have "idle_set w \<noteq> {}" using idle by (metis card.empty less_irrefl)
  then have "last_idle w \<noteq> None" by (auto simp: last_idle_None idle_set_pool_of)
  then obtain p where p: "last_idle w = Some p" by blast
  then obtain sp where sp: "pool_of w 0 p sp" using last_idle_Some by blast
  note D = pool_of_D [OF sp]
  let ?sp = "sp\<lparr>m_nPoolId := n\<rparr>"
  let ?w = "set_pool p ?sp w"
  let ?a = "a\<lparr>up := (up a)(n \<mapsto> {}), idle := idle a - 1\<rparr>"
  have empty: "m_mapSocketHandler sp = []" using pool_of_ok [OF inv0 sp] D by (simp add: pool_ok_def)
  have ok: "pool_ok ?w ?sp" using pool_of_ok [OF inv0 sp] n by (simp add: pool_ok_def handles_def addrs_def)
  have no: "\<not> pool_of w n q sq" for q sq using fresh view_Some [OF inv0 n] by force
  have inv: "pools_inv ?w"
  proof (rule pools_inv_update [OF inv0 _ _ _ _ _ ok])
    fix q sq assume "q \<in> set (m_vPool w)" "q \<noteq> p" "pool_at w q = Some sq"
    then show "apart ?sp sq" using no [of q sq] empty by (auto simp: apart_def addrs_def pool_of_def)
  qed (use D pools_invD(2) [OF inv0] in auto)
  have "view ?w k = ((up a)(n \<mapsto> {})) k" for k
    using view_update [OF inv0 inv sp, of ?sp n k] simD(2) [OF sim] n fresh empty by (simp add: view_def handles_def)
  moreover have "p \<in> idle_set w" using sp by (auto simp: idle_set_pool_of)
  then have "card (idle_set ?w) = idle a - 1"
    using idle_update [of p w ?w ?sp] D n simD(3) [OF sim] by simp
  moreover have "\<exists>q sq. pool_of ?w k q sq \<and> m_pHFrom sq \<noteq> None" if k: "k \<in> merging a" for k
  proof -
    obtain q sq where q: "pool_of w k q sq" "m_pHFrom sq \<noteq> None" "k \<noteq> 0" using simD(4) [OF sim k] by blast
    then have "q \<noteq> p" using sp by (auto simp: pool_of_def)
    then show ?thesis using q pool_of_update [of p w ?w ?sp k q sq] D by auto
  qed
  ultimately have sim': "sim ?w ?a"
    using inv simD(4) [OF sim] by (auto simp: sim_def)
  have "\<exists>w'. tell K speStarted h (None, 0) (Some p) ?w = Inr w' \<and> sim w' ?a"
    by (rule tell_sim [OF sim']) (use D in simp_all)
  then show ?thesis using p D by (auto simp: SPE_def Let_def on_speStarted_def)
qed

lemma plain_sim:
  assumes sim: "sim w a" and n: "n \<noteq> 0"
    and ev: "SPE K n spe h w = tell K spe h (None, 0) (Seek_pool w n) w" "spe \<noteq> speConnected"
  shows "\<exists>w'. SPE K n spe h w = Inr w' \<and> more_calls w w'"
  using sim n
proof (cases rule: sim_pool)
  case 1
  then show ?thesis by (simp add: ev(1) tell_def)
next
  case (2 p sp)
  then show ?thesis using tell_more [OF 2(5), of spe K h] ev by simp
qed

lemma timer_more:
  assumes sim: "sim w a" and n: "n \<noteq> 0"
  shows "\<exists>w'. SPE K n speTimer h w = Inr w' \<and> more_calls w w'"
proof -
  let ?w = "on_speTimer K w"
  have m: "more_calls w ?w" by (auto simp: on_speTimer_def connect_of_def)
  have sim': "sim ?w a" using sim sim_more [OF m] by simp
  show ?thesis using sim n
  proof (cases rule: sim_pool)
    case 1
    then show ?thesis using m by (simp add: SPE_def Let_def tell_def)
  next
    case (2 p sp)
    obtain w' where "tell K speTimer h (None, 0) (Some p) ?w = Inr w'" "more_calls ?w w'"
      using tell_more [of ?w p sp speTimer K h] 2(5) by (auto simp: the_pool_more [OF m])
    then show ?thesis using 2(1) more_calls_trans [OF m] by (auto simp: SPE_def Let_def)
  qed
qed

text \<open>Events that start, close or merge nothing change nothing but the calls.\<close>

definition calm :: "tagSocketPoolEvent \<Rightarrow> bool" where
  "calm spe \<longleftrightarrow>
     spe \<notin> {speStarted, speShutdown, speUSocketCreated, speUSocketKilled, speQueueMergedFrom, speQueueMergedTo}"

lemma calm_more:
  assumes "core_laws K" "sim w a" "legal a (n, spe, h)" "calm spe"
  shows "\<exists>w'. SPE K n spe h w = Inr w' \<and> more_calls w w'"
proof -
  have n: "n \<noteq> 0" using assms(3) by simp
  consider "spe = speConnected" | "spe = speTimer" | "SPE K n spe h w = tell K spe h (None, 0) (Seek_pool w n) w" "spe \<noteq> speConnected"
    using assms(4) by (cases spe) (simp_all add: SPE_def Let_def calm_def)
  then show ?thesis
  proof cases
    case 1
    then show ?thesis using connected_sim [OF assms(1,2)] assms(3) by blast
  next
    case 2
    then show ?thesis using timer_more [OF assms(2) n] by blast
  next
    case 3
    then show ?thesis by (rule plain_sim [OF assms(2) n])
  qed
qed

lemma event_sim:
  assumes "core_laws K" "sim w a" "legal a (n, spe, h)"
  shows "\<exists>w'. SPE K n spe h w = Inr w' \<and> sim w' (event_spec a (n, spe, h))"
proof (cases "calm spe")
  case True
  then obtain w' where w': "SPE K n spe h w = Inr w'" "more_calls w w'" using calm_more [OF assms] by blast
  have "event_spec a (n, spe, h) = a" using True by (cases spe) (simp_all add: calm_def)
  then show ?thesis using w' sim_more assms(2) by metis
next
  case False
  have n: "n \<noteq> 0" using assms(3) by simp
  consider "spe = speStarted" | "spe = speShutdown" | "spe = speUSocketCreated" | "spe = speUSocketKilled"
    | "spe = speQueueMergedFrom" | "spe = speQueueMergedTo"
    using False by (auto simp: calm_def)
  then show ?thesis
  proof cases
    case 1
    then show ?thesis using started_sim [OF assms(2)] assms(3) by blast
  next
    case 2
    then show ?thesis using shutdown_sim [OF assms(2) n] by blast
  next
    case 3
    then show ?thesis using created_sim [OF assms(1,2)] assms(3) by blast
  next
    case 4
    then show ?thesis using killed_sim [OF assms(2) n] by blast
  next
    case 5
    then show ?thesis using mergedFrom_sim [OF assms(2)] assms(3) by blast
  next
    case 6
    then show ?thesis using mergedTo_sim [OF assms(2)] assms(3) by blast
  qed
qed

declare legal.simps [simp del] event_spec.simps [simp del]

text \<open>A simulation of single events is one of sequences of them.\<close>

fun run_steps :: "('e \<Rightarrow> 's \<Rightarrow> 'f + 's) \<Rightarrow> 'e list \<Rightarrow> 's \<Rightarrow> 'f + 's" where
  "run_steps step [] s = Inr s"
| "run_steps step (e # es) s = bindr (step e s) (run_steps step es)"

fun legal_steps :: "('a \<Rightarrow> 'e \<Rightarrow> bool) \<Rightarrow> ('a \<Rightarrow> 'e \<Rightarrow> 'a) \<Rightarrow> 'a \<Rightarrow> 'e list \<Rightarrow> bool" where
  "legal_steps ok spec a [] = True"
| "legal_steps ok spec a (e # es) = (ok a e \<and> legal_steps ok spec (spec a e) es)"

locale simulation =
  fixes step :: "'e \<Rightarrow> 's \<Rightarrow> 'f + 's"
    and ok :: "'a \<Rightarrow> 'e \<Rightarrow> bool"
    and spec :: "'a \<Rightarrow> 'e \<Rightarrow> 'a"
    and rel :: "'s \<Rightarrow> 'a \<Rightarrow> bool"
  assumes step_rel: "\<lbrakk>rel s a; ok a e\<rbrakk> \<Longrightarrow> \<exists>s'. step e s = Inr s' \<and> rel s' (spec a e)"
begin

lemma run_rel: "\<lbrakk>rel s a; legal_steps ok spec a es\<rbrakk> \<Longrightarrow> \<exists>s'. run_steps step es s = Inr s' \<and> rel s' (foldl spec a es)"
proof (induction es arbitrary: s a)
  case (Cons e es)
  then obtain s1 where "step e s = Inr s1" "rel s1 (spec a e)" using step_rel by force
  then show ?case using Cons by simp
qed simp

lemma run_never_faults: "\<lbrakk>rel s a; legal_steps ok spec a es\<rbrakk> \<Longrightarrow> run_steps step es s \<noteq> Inl f"
  using run_rel by fastforce

end

interpretation pool_events: simulation "\<lambda>(n, spe, h). SPE K n spe h" legal event_spec "\<lambda>w a. core_laws K \<and> sim w a" for K
  by unfold_locales (use event_sim in \<open>auto split: prod.splits\<close>)

lemma run_events_steps: "run_events K evs w = run_steps (\<lambda>(n, spe, h). SPE K n spe h) evs w"
proof (induction evs arbitrary: w)
  case (Cons ev evs)
  then have "run_events K evs = run_steps (\<lambda>(n, spe, h). SPE K n spe h) evs" by blast
  then show ?case by (cases ev) simp
qed simp

abbreviation legal_run :: "pools_spec \<Rightarrow> (nat \<times> tagSocketPoolEvent \<times> nat) list \<Rightarrow> bool" where
  "legal_run \<equiv> legal_steps legal event_spec"

text \<open>
  C11: events that the core reports in order are handled without a fault, and make of the registered pools what the
  specification says: a started id gets an idle pool, a new socket a new handler in the pool with its id, a killed one
  is taken out, a pool that is shut down is idle again. No two pools share an id or a handler.
\<close>

theorem pool_events_refine:
  assumes "core_laws K" "sim w a" "legal_run a evs"
  shows "\<exists>w'. run_events K evs w = Inr w' \<and> sim w' (foldl event_spec a evs)"
  using pool_events.run_rel [of K w a evs] assms by (auto simp: run_events_steps)

text \<open>A core with sockets that are open and idle, and a pool that has been created and not started.\<close>

definition small_core :: pool_core where
  "small_core =
     \<lparr>co_state = \<lambda>_ _. csSwitched, co_opened = \<lambda>_ _. True, co_available = \<lambda>_ _. False, co_messages = \<lambda>_ _. 0,
      co_requests = \<lambda>_ _. 0, co_bytes_sent = \<lambda>_ _. 0, co_job_size = \<lambda>_ _. 0, co_connected = \<lambda>_ _. True,
      co_secure = \<lambda>_ _. False, co_queue_file = \<lambda>_ _. '''', co_app_name = ''app'', co_encryption = \<lambda>_ _. NoEncryption,
      co_ok = \<lambda>_. True, co_per_thread = \<lambda>_ _. 2, co_threads = \<lambda>_ n. if n = 1 then 1 else 0, co_connections = \<lambda>_ _. 2,
      co_new_pool = \<lambda>_. 1, co_locked = \<lambda>_. 0, co_timeout = \<lambda>_ _. 30000, co_events = \<lambda>_. [],
      co_slot = \<lambda>es e. es @ [e], co_memory = \<lambda>_. 0, co_clean_size = 32768, app_service = 0,
      app_authenticates = \<lambda>_. None\<rparr>"

definition no_pools :: pool_world where
  "no_pools = \<lparr>m_vPool = [], pool_at = Map.empty, handler_at = Map.empty, next_handler = 0, pool_calls = []\<rparr>"

definition one_pool :: pool_world where
  "one_pool = CSocketPool_new 7 True 30000 30000 1 no_pools"

lemma small_laws: "core_laws small_core"
  by (simp add: core_laws_def small_core_def)

lemma one_pool_sim: "sim one_pool \<lparr>up = Map.empty, idle = 1, merging = {}\<rparr>"
proof -
  have i: "idle_set one_pool = {7}"
    by (auto simp: idle_set_def one_pool_def CSocketPool_new_def no_pools_def has_id_def)
  have "view one_pool = Map.empty"
    by (intro ext) (simp add: view_def Seek_pool_def has_id_def one_pool_def CSocketPool_new_def no_pools_def)
  moreover have "pools_inv one_pool"
    by (simp add: pools_inv_def pool_ok_def handles_def addrs_def one_pool_def CSocketPool_new_def no_pools_def)
  ultimately show ?thesis using i by (simp add: sim_def)
qed

theorem pool_events_refine_witness:
  "\<exists>w'. run_events small_core
          [(1, speStarted, 0), (1, speUSocketCreated, 11), (1, speUSocketCreated, 12), (1, speConnected, 11),
           (1, speQueueMergedFrom, 11), (1, speQueueMergedTo, 12), (1, speUSocketKilled, 11)] one_pool = Inr w' \<and>
        sim w' \<lparr>up = [1 \<mapsto> {12}], idle = 0, merging = {}\<rparr>"
proof -
  have "[Suc 0 \<mapsto> insert 11 {12} - {11}] = [Suc 0 \<mapsto> {12::nat}]" by auto
  then show ?thesis
    using pool_events_refine [OF small_laws one_pool_sim,
      of "[(1, speStarted, 0), (1, speUSocketCreated, 11), (1, speUSocketCreated, 12), (1, speConnected, 11),
           (1, speQueueMergedFrom, 11), (1, speQueueMergedTo, 12), (1, speUSocketKilled, 11)]"]
    by (simp add: legal.simps event_spec.simps insert_commute)
qed

section \<open>Merged queues\<close>

definition queue_of :: "pool_world \<Rightarrow> nat \<Rightarrow> nat \<Rightarrow> nat list option" where
  "queue_of w n h =
     Option.bind (Seek_pool w n) (\<lambda>p. Option.bind (pool_at w p) (\<lambda>sp.
     Option.bind (MapToHandler h sp) (\<lambda>hn. map_option m_vCallback (handler_at w (p_addr hn)))))"

lemma MapToHandler_entry: "MapToHandler h sp = Some hn \<Longrightarrow> \<exists>e \<in> set (m_mapSocketHandler sp). s_handle (fst e) = h \<and> snd e = hn"
  by (auto simp: MapToHandler_def find_Some_iff intro!: nth_mem bexI) (metis fst_conv nth_mem snd_conv)

lemma addr_of_handle:
  assumes "distinct (addrs sp)" "MapToHandler h sp = Some x" "MapToHandler k sp = Some y" "p_addr x = p_addr y"
  shows "h = k"
proof -
  obtain e f where e: "e \<in> set (m_mapSocketHandler sp)" "s_handle (fst e) = h" "snd e = x"
    and f: "f \<in> set (m_mapSocketHandler sp)" "s_handle (fst f) = k" "snd f = y"
    using MapToHandler_entry assms(2,3) by blast
  have "inj_on (\<lambda>e. p_addr (snd e)) (set (m_mapSocketHandler sp))"
    using assms(1) by (simp add: addrs_def distinct_map)
  then have "e = f" using e f assms(4) by (auto dest: inj_onD)
  then show ?thesis using e f by simp
qed

lemma queue_of_pool:
  assumes "pools_inv w" "n \<noteq> 0" "pool_of w n p sp"
  shows "queue_of w n h = Option.bind (MapToHandler h sp) (\<lambda>hn. map_option m_vCallback (handler_at w (p_addr hn)))"
  using Seek_pool_of [OF assms] pool_of_D [OF assms(3)] by (simp add: queue_of_def)

lemma queue_of_more: "more_calls w w' \<Longrightarrow> queue_of w' n h = queue_of w n h"
proof -
  assume m: "more_calls w w'"
  have "has_id w' = has_id w" by (intro ext) (simp add: has_id_def more_calls_fields [OF m])
  then show ?thesis by (simp add: queue_of_def Seek_pool_def more_calls_fields [OF m] cong: bind_option_cong)
qed

text \<open>Where the queues are after the handlers at some addresses have changed, and \<open>m_pHFrom\<close> of a pool.\<close>

lemma queue_of_handlers:
  assumes p: "pool_of w n p sp"
    and w': "m_vPool w' = m_vPool w" "pool_at w' = (pool_at w)(p \<mapsto> sp\<lparr>m_pHFrom := f\<rparr>)"
  shows "queue_of w' m k =
    Option.bind (Seek_pool w m) (\<lambda>p. Option.bind (pool_at w p) (\<lambda>sp.
    Option.bind (MapToHandler k sp) (\<lambda>hn. map_option m_vCallback (handler_at w' (p_addr hn)))))"
proof -
  have "has_id w' j = has_id w j" for j
    using pool_of_D [OF p] w' by (intro ext) (auto simp: has_id_def)
  moreover have "MapToHandler k (sp\<lparr>m_pHFrom := f\<rparr>) = MapToHandler k sp" by (simp add: MapToHandler_def)
  ultimately have seek: "Seek_pool w' m = Seek_pool w m" and same: "MapToHandler k (sp\<lparr>m_pHFrom := f\<rparr>) = MapToHandler k sp"
    using w'(1) by (simp_all add: Seek_pool_def)
  have "pool_at w p = Some sp" using pool_of_D [OF p] by simp
  then show ?thesis
    by (cases "Seek_pool w m = Some p") (auto simp: queue_of_def seek same w'(2) intro!: bind_option_cong)
qed

lemma merge_run:
  assumes inv: "pools_inv w" "n \<noteq> 0" and p: "pool_of w n p sp"
    and h: "MapToHandler h sp = Some x" "MapToHandler k sp = Some y"
    and q: "handler_at w (p_addr x) = Some hx" "handler_at w (p_addr y) = Some hy"
  shows "\<exists>w'. run_events K [(n, speQueueMergedFrom, h), (n, speQueueMergedTo, k)] w = Inr w' \<and>
              m_vPool w' = m_vPool w \<and> pool_at w' = (pool_at w)(p \<mapsto> sp\<lparr>m_pHFrom := None\<rparr>) \<and>
              handler_at w' = (handler_at w)(p_addr y \<mapsto> hy\<lparr>m_vCallback := m_vCallback hy @ m_vCallback hx\<rparr>,
                                             p_addr x \<mapsto> hx\<lparr>m_vCallback := []\<rparr>)"
proof -
  let ?sp = "sp\<lparr>m_pHFrom := Some x\<rparr>"
  let ?w = "set_pool p ?sp w"
  let ?w1 = "call (C_Told p speQueueMergedFrom (Some x)) ?w"
  note D = pool_of_D [OF p]
  have map: "MapToHandler j (sp\<lparr>m_pHFrom := f\<rparr>) = MapToHandler j sp" for j f by (simp add: MapToHandler_def)
  have seek: "Seek_pool w n = Some p" by (rule Seek_pool_of [OF inv p])
  have "has_id ?w1 j = has_id w j" for j using D by (intro ext) (auto simp: has_id_def)
  then have seek1: "Seek_pool ?w1 n = Some p" using seek by (simp add: Seek_pool_def)
  have 1: "SPE K n speQueueMergedFrom h w = Inr ?w1"
    using D h by (simp add: SPE_def Let_def seek on_speQueueMergedFrom_def tell_def the_pool_def map)
  have 2: "the_pool ?w1 p = Inr ?sp" by (simp add: the_pool_def)
  have "\<exists>w'. SPE K n speQueueMergedTo k ?w1 = Inr w' \<and>
              m_vPool w' = m_vPool w \<and> pool_at w' = (pool_at w)(p \<mapsto> sp\<lparr>m_pHFrom := None\<rparr>) \<and>
              handler_at w' = (handler_at w)(p_addr y \<mapsto> hy\<lparr>m_vCallback := m_vCallback hy @ m_vCallback hx\<rparr>,
                                             p_addr x \<mapsto> hx\<lparr>m_vCallback := []\<rparr>)"
    using D h q by (simp add: SPE_def Let_def seek1 on_speQueueMergedTo_def 2 map the_handler_def AppendTo_def tell_def the_pool_def)
  then show ?thesis using 1 by auto
qed

text \<open>
  C18: when the core merges the queue of one socket into that of another one of the same pool, the callbacks that wait
  in the handler of the first one follow those of the second one, in their order; no other queue changes.
\<close>

theorem merge_moves_callbacks:
  assumes "pools_inv w" "n \<noteq> 0" "Seek_pool w n = Some p" "pool_at w p = Some sp"
    and "h \<in> set (handles sp)" "k \<in> set (handles sp)" "h \<noteq> k"
  shows "\<exists>w' qh qk.
    run_events K [(n, speQueueMergedFrom, h), (n, speQueueMergedTo, k)] w = Inr w' \<and>
    queue_of w n h = Some qh \<and> queue_of w n k = Some qk \<and>
    queue_of w' n h = Some [] \<and> queue_of w' n k = Some (qk @ qh) \<and>
    (\<forall>m j. m \<noteq> 0 \<and> (m, j) \<notin> {(n, h), (n, k)} \<longrightarrow> queue_of w' m j = queue_of w m j)"
proof -
  have p: "pool_of w n p sp" using Seek_pool_Some [OF assms(3)] assms(4) by (auto simp: pool_of_def)
  have ok: "pool_ok w sp" by (rule pool_of_ok [OF assms(1) p])
  obtain x where x: "MapToHandler h sp = Some x" "p_addr x \<in> set (addrs sp)" using MapToHandler_Some assms(5) by blast
  obtain y where y: "MapToHandler k sp = Some y" "p_addr y \<in> set (addrs sp)" using MapToHandler_Some assms(6) by blast
  obtain hx hy where q: "handler_at w (p_addr x) = Some hx" "handler_at w (p_addr y) = Some hy"
    using ok x(2) y(2) unfolding pool_ok_def by blast
  have xy: "p_addr x \<noteq> p_addr y" using addr_of_handle [OF _ x(1) y(1)] ok assms(7) by (auto simp: pool_ok_def)
  obtain w' where w': "run_events K [(n, speQueueMergedFrom, h), (n, speQueueMergedTo, k)] w = Inr w'"
    "m_vPool w' = m_vPool w" "pool_at w' = (pool_at w)(p \<mapsto> sp\<lparr>m_pHFrom := None\<rparr>)"
    and at: "handler_at w' = (handler_at w)(p_addr y \<mapsto> hy\<lparr>m_vCallback := m_vCallback hy @ m_vCallback hx\<rparr>,
                                            p_addr x \<mapsto> hx\<lparr>m_vCallback := []\<rparr>)"
    using merge_run [OF assms(1,2) p x(1) y(1) q] by blast
  note after = queue_of_handlers [OF p w'(2,3)]
  have "queue_of w' m j = queue_of w m j" if mj: "m \<noteq> 0" "(m, j) \<notin> {(n, h), (n, k)}" for m j
  proof (cases "Seek_pool w m")
    case None
    then show ?thesis by (simp add: after) (simp add: queue_of_def)
  next
    case (Some r)
    then obtain sr where r: "pool_of w m r sr" using Seek_pool_Some by blast
    have far: "p_addr z \<noteq> p_addr x \<and> p_addr z \<noteq> p_addr y" if z: "MapToHandler j sr = Some z" for z
    proof (cases "r = p")
      case True
      then have mn: "m = n" and "sr = sp" using p r by (auto simp: pool_of_def)
      then have z': "MapToHandler j sp = Some z" using z by simp
      have d: "distinct (addrs sp)" using ok by (simp add: pool_ok_def)
      show ?thesis using addr_of_handle [OF d z' x(1)] addr_of_handle [OF d z' y(1)] mj(2) mn by blast
    next
      case False
      have "p_addr z \<in> set (addrs sr)" using MapToHandler_entry [OF z] by (auto simp: addrs_def)
      moreover have "apart sr sp" using pools_invD(4) [OF assms(1) _ _ False] p r by (simp add: pool_of_def)
      ultimately show ?thesis using x(2) y(2) by (auto simp: apart_def)
    qed
    have "handler_at w' (p_addr z) = handler_at w (p_addr z)" if z: "MapToHandler j sr = Some z" for z
      unfolding at using far [OF z] by simp
    then show ?thesis
      using Some pool_of_D [OF r] by (cases "MapToHandler j sr") (simp_all add: after, simp_all add: queue_of_def)
  qed
  moreover have "queue_of w n h = Some (m_vCallback hx)" "queue_of w n k = Some (m_vCallback hy)"
    using assms(3,4) x(1) y(1) q by (simp_all add: queue_of_def)
  moreover have "queue_of w' n h = Some []" "queue_of w' n k = Some (m_vCallback hy @ m_vCallback hx)"
    using assms(3,4) x(1) y(1) xy by (simp_all add: after at)
  ultimately show ?thesis using w'(1) by blast
qed

text \<open>A pool with two sockets.\<close>

definition two_sockets :: socket_pool where
  "two_sockets =
     \<lparr>m_nPoolId = 1, m_autoConn = True, m_recvTimeout = 30000, m_connTimeout = 30000, p_nServiceId = 1,
      m_mapSocketHandler = [(\<lparr>s_handle = 11, m_cc = CConnectionContext_new\<rparr>, \<lparr>p_addr = 0, p_SvsId = 1\<rparr>),
                            (\<lparr>s_handle = 12, m_cc = CConnectionContext_new\<rparr>, \<lparr>p_addr = 1, p_SvsId = 1\<rparr>)],
      m_pHFrom = None, m_qName = ''''\<rparr>"

definition running :: pool_world where
  "running = one_pool\<lparr>pool_at := [7 \<mapsto> two_sockets],
     handler_at := [0 \<mapsto> \<lparr>m_vCallback = [3], m_vBatching = [], IsRandom = False\<rparr>,
                    1 \<mapsto> \<lparr>m_vCallback = [4, 5], m_vBatching = [], IsRandom = False\<rparr>], next_handler := 2\<rparr>"

lemma running_facts:
  "pools_inv running" "Seek_pool running 1 = Some 7" "pool_at running 7 = Some two_sockets" "m_vPool running = [7]"
  "pool_calls running = []" "handles two_sockets = [11, 12]"
  by (simp_all add: pools_inv_def pool_ok_def handles_def addrs_def one_pool_def CSocketPool_new_def no_pools_def
      Seek_pool_def has_id_def running_def two_sockets_def)

theorem merge_moves_callbacks_witness:
  "\<exists>w'. run_events small_core [(1, speQueueMergedFrom, 11), (1, speQueueMergedTo, 12)] running = Inr w' \<and>
        queue_of w' 1 11 = Some [] \<and> queue_of w' 1 12 = Some [4, 5, 3]"
proof -
  have "queue_of running 1 11 = Some [3]" "queue_of running 1 12 = Some [4, 5]"
    using running_facts(2) by (simp_all add: queue_of_def MapToHandler_def) (simp_all add: running_def two_sockets_def)
  then show ?thesis
    using merge_moves_callbacks [OF running_facts(1) _ running_facts(2,3), of 11 12 small_core] running_facts(6) by auto
qed

section \<open>Connecting the sockets\<close>

text \<open>Each socket that is not open takes the next of the contexts.\<close>

fun give :: "(nat \<Rightarrow> bool) \<Rightarrow> conn_context list \<Rightarrow> pool_entry list \<Rightarrow> pool_entry list" where
  "give opened ccs [] = []"
| "give opened ccs (e # es) =
     (if opened (s_handle (fst e)) then e # give opened ccs es
      else case ccs of
             [] \<Rightarrow> e # es
           | cc # ccs \<Rightarrow> map_prod (\<lambda>s. s\<lparr>m_cc := cc\<rparr>) id e # give opened ccs es)"

definition target :: "nat \<Rightarrow> conn_context \<Rightarrow> nat \<times> string \<times> nat \<times> bool" where
  "target h cc = (h, Host cc, Port cc, V6 cc)"

definition targets :: "(nat \<Rightarrow> bool) \<Rightarrow> pool_entry list \<Rightarrow> (nat \<times> string \<times> nat \<times> bool) list" where
  "targets opened es =
     map (\<lambda>e. target (s_handle (fst e)) (m_cc (fst e))) (filter (\<lambda>e. \<not> opened (s_handle (fst e))) es)"

lemma give_handles: "map (\<lambda>e. s_handle (fst e)) (give opened ccs es) = map (\<lambda>e. s_handle (fst e)) es"
  by (induction opened ccs es rule: give.induct) (auto split: list.split)

lemma give_addrs: "map (\<lambda>e. p_addr (snd e)) (give opened ccs es) = map (\<lambda>e. p_addr (snd e)) es"
  by (induction opened ccs es rule: give.induct) (auto split: list.split)

definition calls_made :: "pool_world \<Rightarrow> pool_world \<Rightarrow> (nat \<times> string \<times> nat \<times> bool) list \<Rightarrow> bool" where
  "calls_made w w' ts \<longleftrightarrow> (\<exists>x. w' = w\<lparr>pool_calls := pool_calls w @ x\<rparr> \<and> connects x = ts)"

lemma calls_made_more: "more_calls w w' \<Longrightarrow> calls_made w w' []"
  by (simp add: more_calls_def calls_made_def)

lemma calls_made_trans: "\<lbrakk>calls_made w w1 ts; calls_made w1 w2 us\<rbrakk> \<Longrightarrow> calls_made w w2 (ts @ us)"
  unfolding calls_made_def by force

lemma calls_made_connect: "calls_made w (call (C_Connect h ho po sy v6) w) [(h, ho, po, v6)]"
  unfolding calls_made_def by (rule exI [of _ "[C_Connect h ho po sy v6]"]) (simp add: call_def connect_of_def)

definition calm_core :: "pool_core \<Rightarrow> pools_spec \<Rightarrow> pool_call list \<Rightarrow> bool" where
  "calm_core K a calls \<longleftrightarrow>
     (\<forall>x. x \<noteq> [] \<longrightarrow> list_all (\<lambda>ev. legal a ev \<and> calm (fst (snd ev))) (co_events K (calls @ x)))"

lemma calm_core_append: "calm_core K a calls \<Longrightarrow> calm_core K a (calls @ x)"
  by (simp add: calm_core_def)

lemma calm_run:
  assumes "core_laws K" "sim w a" "list_all (\<lambda>ev. legal a ev \<and> calm (fst (snd ev))) evs"
  shows "\<exists>w'. run_events K evs w = Inr w' \<and> more_calls w w'"
  using assms(2,3)
proof (induction evs arbitrary: w)
  case (Cons ev evs)
  obtain n spe h where ev: "ev = (n, spe, h)" by (cases ev)
  obtain w1 where w1: "SPE K n spe h w = Inr w1" "more_calls w w1"
    using calm_more [OF assms(1) Cons.prems(1), of n spe h] Cons.prems(2) ev by auto
  have "sim w1 a" using sim_more [OF w1(2)] Cons.prems(1) by simp
  then obtain w2 where "run_events K evs w1 = Inr w2" "more_calls w1 w2"
    using Cons.IH [of w1] Cons.prems(2) by auto
  then show ?case using w1 ev more_calls_trans by auto
qed simp

lemma calls_made_sim: "calls_made w w' ts \<Longrightarrow> sim w' a = sim w a"
proof -
  assume "calls_made w w' ts"
  then obtain x where w': "w' = w\<lparr>pool_calls := pool_calls w @ x\<rparr>" unfolding calls_made_def by blast
  have i: "has_id w' = has_id w" by (intro ext) (simp add: has_id_def w')
  then have v: "view w' = view w" by (intro ext) (simp add: view_def Seek_pool_def w' split: option.split)
  have "pool_ok w' = pool_ok w" "pool_of w' = pool_of w" by (intro ext, simp add: pool_ok_def pool_of_def w')+
  then show ?thesis using v i by (simp add: sim_def pools_inv_def idle_set_def) (simp add: w')
qed

lemma call_ev_calm:
  assumes "core_laws K" "sim w a" "calm_core K a (pool_calls w)"
  shows "\<exists>w'. call_ev K x w = Inr w' \<and> calls_made w w' (connects [x])"
proof -
  have c: "calls_made w (call x w) (connects [x])"
    unfolding calls_made_def by (rule exI [of _ "[x]"]) (simp add: call_def)
  have "list_all (\<lambda>ev. legal a ev \<and> calm (fst (snd ev))) (co_events K (pool_calls w @ [x]))"
    using assms(3) unfolding calm_core_def by blast
  then obtain w' where "run_events K (co_events K (pool_calls w @ [x])) (call x w) = Inr w'" "more_calls (call x w) w'"
    using calm_run [OF assms(1), of "call x w" a] calls_made_sim [OF c] assms(2) by auto
  then show ?thesis using calls_made_trans [OF c calls_made_more] by (auto simp: call_ev_def Let_def)
qed

lemma calls_made_fields:
  assumes "calls_made w w' ts"
  shows "m_vPool w' = m_vPool w" "pool_at w' = pool_at w" "handler_at w' = handler_at w" "next_handler w' = next_handler w"
    "\<exists>x. pool_calls w' = pool_calls w @ x \<and> connects x = ts"
  using assms by (auto simp: calls_made_def)

lemma connect_first_calm:
  assumes "core_laws K" "sim w a" "calm_core K a (pool_calls w)"
  shows "\<exists>ok w'. connect_first K h cc w = Inr (ok, w') \<and> calls_made w w' [target h cc]"
proof -
  obtain w1 where w1: "call_ev K (C_Connect h (Host cc) (Port cc) True (V6 cc)) w = Inr w1" "calls_made w w1 [target h cc]"
    using call_ev_calm [OF assms, of "C_Connect h (Host cc) (Port cc) True (V6 cc)"]
    by (auto simp: connect_of_def target_def)
  have "sim w1 a" "calm_core K a (pool_calls w1)"
    using calls_made_sim [OF w1(2)] calls_made_fields(5) [OF w1(2)] assms(2,3) calm_core_append by auto
  then obtain w2 where w2: "call_ev K (C_WaitAll h) w1 = Inr w2" "calls_made w1 w2 []"
    using call_ev_calm [OF assms(1), of w1 a "C_WaitAll h"] by (auto simp: connect_of_def)
  show ?thesis
    using w1 w2 calls_made_trans [OF w1(2) w2(2)] by (auto simp: connect_first_def)
qed

lemma context_at_concat:
  "\<lbrakk>list_all (\<lambda>r. length r = per) ccs; per \<noteq> 0; pos < length (concat ccs)\<rbrakk> \<Longrightarrow>
   context_at ccs per pos = Inr (concat ccs ! pos)"
proof (induction ccs arbitrary: pos)
  case (Cons r ccs)
  show ?case
  proof (cases "pos < per")
    case True
    then show ?thesis using Cons.prems by (simp add: context_at_def nth_append)
  next
    case False
    then have "context_at ccs per (pos - per) = Inr (concat ccs ! (pos - per))" using Cons by simp
    then show ?thesis
      using False Cons.prems by (auto simp: context_at_def nth_append le_div_geq le_mod_geq split: if_splits)
  qed
qed simp

lemma set_cc_sim:
  assumes sim: "sim w a" and n: "n \<noteq> 0" and p: "pool_of w n p sp" and i: "i < length (m_mapSocketHandler sp)"
  shows "sim (set_pool p (set_cc i cc sp) w) a" "pool_of (set_pool p (set_cc i cc sp) w) n p (set_cc i cc sp)"
proof -
  have hs: "handles (set_cc i cc sp) = handles sp" "addrs (set_cc i cc sp) = addrs sp"
    using i by (simp_all add: set_cc_def handles_def addrs_def map_update list_update_same_conv)
  have "sim (set_pool p (set_cc i cc sp) w) (a\<lparr>merging := merging a\<rparr>)"
    by (rule same_sockets [OF sim n p, where sp' = "set_cc i cc sp"])
      (use p hs merging_from [OF sim n p] pool_of_ok [OF simD(1) [OF sim] p] in \<open>auto simp: set_cc_def pool_of_def pool_ok_def\<close>)
  then show "sim (set_pool p (set_cc i cc sp) w) a" by simp
  show "pool_of (set_pool p (set_cc i cc sp) w) n p (set_cc i cc sp)"
    using p by (simp add: pool_of_def set_cc_def)
qed

text \<open>One round of the loop for a socket that is not open.\<close>

lemma PostProcess_round:
  assumes laws: "core_laws K" and n: "n \<noteq> 0" and sim: "sim w a" and p: "pool_of w n p sp" and calm: "calm_core K a (pool_calls w)"
    and sp: "m_mapSocketHandler sp = don @ e # rest" and N: "N = length (m_mapSocketHandler sp)"
    and closed: "\<not> co_opened K (pool_calls w) (s_handle (fst e))" and cc: "context_at ccs per pos = Inr cc"
  shows "\<exists>w' f. PostProcess_loop K p ccs n N per (length don # is) pos first w = PostProcess_loop K p ccs n N per is (pos + 1) f w' \<and>
                sim w' a \<and>
                pool_of w' n p (sp\<lparr>m_mapSocketHandler := don @ map_prod (\<lambda>s. s\<lparr>m_cc := cc\<rparr>) id e # rest\<rparr>) \<and>
                (\<exists>y. pool_calls w' = pool_calls w @ y \<and> connects y = [target (s_handle (fst e)) cc])"
proof -
  let ?h = "s_handle (fst e)"
  let ?sp = "set_cc (length don) cc sp"
  let ?w0 = "set_pool p ?sp w"
  let ?w1 = "call (C_SetEncryptionMethod ?h (EncrytionMethod cc)) (call (C_SetUserID ?h (UserId cc)) ?w0)"
  have sp': "?sp = sp\<lparr>m_mapSocketHandler := don @ map_prod (\<lambda>s. s\<lparr>m_cc := cc\<rparr>) id e # rest\<rparr>"
    using sp by (simp add: set_cc_def)
  have s0: "sim ?w0 a" "pool_of ?w0 n p ?sp" using set_cc_sim [OF sim n p] sp by simp_all
  have m1: "more_calls ?w0 ?w1" by (auto simp: connect_of_def intro!: more_calls_call)
  have s1: "sim ?w1 a" "pool_of ?w1 n p ?sp" using s0 sim_more [OF m1] more_calls_pool_of [OF m1] by simp_all
  have calm1: "calm_core K a (pool_calls ?w1)" using calm_core_append [OF calm] by simp
  have len: "N = length (m_mapSocketHandler ?sp)" using N sp by (simp add: set_cc_def)
  have same: "s_handle (fst (m_mapSocketHandler ?sp ! length don)) = ?h" using sp by (simp add: set_cc_def)
  have the: "the_pool w p = Inr sp" using pool_of_D [OF p] by simp
  have go: "PostProcess_loop K p ccs n N per (length don # is) pos first w =
      (if first
       then bindr (connect_first K ?h cc ?w1) (\<lambda>(ok, w).
              bindr (the_pool w p) (\<lambda>sp.
              if n \<noteq> m_nPoolId sp \<or> N \<noteq> length (m_mapSocketHandler sp) then Inr w
              else if s_handle (fst (m_mapSocketHandler sp ! length don)) \<noteq> ?h then Inl Out_Of_Bounds
              else PostProcess_loop K p ccs n N per is (pos + 1) (\<not> ok) w))
       else PostProcess_loop K p ccs n N per is (pos + 1) False (call (C_Connect ?h (Host cc) (Port cc) False (V6 cc)) ?w1))"
    using the sp closed cc by (simp add: Let_def)
  have "\<exists>w' f. PostProcess_loop K p ccs n N per (length don # is) pos first w = PostProcess_loop K p ccs n N per is (pos + 1) f w' \<and>
      calls_made ?w1 w' [target ?h cc]"
  proof (cases first)
    case True
    obtain ok w2 where w2: "connect_first K ?h cc ?w1 = Inr (ok, w2)" "calls_made ?w1 w2 [target ?h cc]"
      using connect_first_calm [OF laws s1(1) calm1] by blast
    have "pool_of w2 n p ?sp" using s1(2) calls_made_fields(1,2) [OF w2(2)] by (simp add: pool_of_def)
    then show ?thesis using go True w2 len same pool_of_D by (intro exI [of _ w2] exI [of _ "\<not> ok"]) fastforce
  next
    case False
    then show ?thesis unfolding go using calls_made_connect [of ?w1] by (auto simp: target_def)
  qed
  then obtain w' f where w': "PostProcess_loop K p ccs n N per (length don # is) pos first w = PostProcess_loop K p ccs n N per is (pos + 1) f w'"
    "calls_made ?w1 w' [target ?h cc]" by blast
  have "pool_of w' n p ?sp" using s1(2) calls_made_fields(1,2) [OF w'(2)] by (simp add: pool_of_def)
  moreover have "\<exists>y. pool_calls w' = pool_calls w @ y \<and> connects y = [target ?h cc]"
    using calls_made_fields(5) [OF w'(2)] by (auto simp: connect_of_def)
  ultimately show ?thesis using w'(1) s1(1) calls_made_sim [OF w'(2)] unfolding sp' by blast
qed

lemma PostProcess_loop_gives:
  assumes laws: "core_laws K" and n: "n \<noteq> 0" and rect: "list_all (\<lambda>r. length r = per) ccs" "per \<noteq> 0"
    and opened: "\<And>x h. \<lbrakk>h \<in> H; h \<notin> fst ` set (connects x)\<rbrakk> \<Longrightarrow> co_opened K (c0 @ x) h = opened h"
    and calm: "calm_core K a c0"
  shows "\<lbrakk>sim w a; pool_of w n p sp; m_mapSocketHandler sp = don @ rest; N = length (m_mapSocketHandler sp);
      pool_calls w = c0 @ x; fst ` set (connects x) \<inter> (\<lambda>e. s_handle (fst e)) ` set rest = {};
      distinct (map (\<lambda>e. s_handle (fst e)) rest); (\<lambda>e. s_handle (fst e)) ` set rest \<subseteq> H;
      length (filter (\<lambda>e. \<not> opened (s_handle (fst e))) rest) + pos \<le> length (concat ccs)\<rbrakk> \<Longrightarrow>
    \<exists>w' y. PostProcess_loop K p ccs n N per [length don..<N] pos first w = Inr w' \<and> sim w' a \<and>
      pool_of w' n p (sp\<lparr>m_mapSocketHandler := don @ give opened (drop pos (concat ccs)) rest\<rparr>) \<and>
      pool_calls w' = pool_calls w @ y \<and> connects y = targets opened (give opened (drop pos (concat ccs)) rest)"
proof (induction rest arbitrary: don pos first w x sp)
  case Nil
  then have "sp\<lparr>m_mapSocketHandler := don\<rparr> = sp" by simp
  then show ?case using Nil.prems by (auto simp: targets_def intro!: exI [of _ w] exI [of _ "[]"])
next
  case (Cons e rest)
  let ?h = "s_handle (fst e)"
  have upt: "[length don..<N] = length don # [length (don @ [d])..<N]" for d
    using upt_conv_Cons [of "length don" N] Cons.prems(3,4) by simp
  have op: "co_opened K (pool_calls w) ?h = opened ?h"
    using opened [of ?h x] Cons.prems(5,6,8) by auto
  have the: "the_pool w p = Inr sp" using pool_of_D [OF Cons.prems(2)] by simp
  show ?case
  proof (cases "opened ?h")
    case True
    have "PostProcess_loop K p ccs n N per [length don..<N] pos first w =
        PostProcess_loop K p ccs n N per [length (don @ [e])..<N] pos False w"
      unfolding upt [of e] using the op True Cons.prems(3,4) by (simp add: Let_def)
    moreover have "\<exists>w' y. PostProcess_loop K p ccs n N per [length (don @ [e])..<N] pos False w = Inr w' \<and> sim w' a \<and>
        pool_of w' n p (sp\<lparr>m_mapSocketHandler := (don @ [e]) @ give opened (drop pos (concat ccs)) rest\<rparr>) \<and>
        pool_calls w' = pool_calls w @ y \<and> connects y = targets opened (give opened (drop pos (concat ccs)) rest)"
      by (rule Cons.IH [OF Cons.prems(1,2) _ Cons.prems(4,5)]) (use Cons.prems True in auto)
    ultimately show ?thesis using True by (simp add: targets_def)
  next
    case False
    have pos: "pos < length (concat ccs)" using Cons.prems(9) False by simp
    let ?cc = "concat ccs ! pos"
    let ?e = "map_prod (\<lambda>s. s\<lparr>m_cc := ?cc\<rparr>) id e"
    have drop: "drop pos (concat ccs) = ?cc # drop (pos + 1) (concat ccs)" using pos by (simp add: Cons_nth_drop_Suc)
    have calm_w: "calm_core K a (pool_calls w)" using calm_core_append [OF calm] Cons.prems(5) by simp
    obtain w1 f y1 where w1: "PostProcess_loop K p ccs n N per (length don # [length (don @ [?e])..<N]) pos first w =
          PostProcess_loop K p ccs n N per [length (don @ [?e])..<N] (pos + 1) f w1"
      "sim w1 a" "pool_of w1 n p (sp\<lparr>m_mapSocketHandler := don @ ?e # rest\<rparr>)"
      "pool_calls w1 = pool_calls w @ y1" "connects y1 = [target ?h ?cc]"
      using PostProcess_round [OF laws n Cons.prems(1,2) calm_w Cons.prems(3,4) _ context_at_concat [OF rect pos]] op False
      by metis
    have "\<exists>w' y. PostProcess_loop K p ccs n N per [length (don @ [?e])..<N] (pos + 1) f w1 = Inr w' \<and> sim w' a \<and>
        pool_of w' n p (sp\<lparr>m_mapSocketHandler := don @ ?e # rest\<rparr>
          \<lparr>m_mapSocketHandler := (don @ [?e]) @ give opened (drop (pos + 1) (concat ccs)) rest\<rparr>) \<and>
        pool_calls w' = pool_calls w1 @ y \<and> connects y = targets opened (give opened (drop (pos + 1) (concat ccs)) rest)"
      by (rule Cons.IH [OF w1(2,3), where x = "x @ y1"])
        (use Cons.prems False w1(4,5) in \<open>auto simp: target_def\<close>)
    then obtain w' y where w': "PostProcess_loop K p ccs n N per [length (don @ [?e])..<N] (pos + 1) f w1 = Inr w'" "sim w' a"
      "pool_of w' n p (sp\<lparr>m_mapSocketHandler := don @ ?e # give opened (drop (pos + 1) (concat ccs)) rest\<rparr>)"
      "pool_calls w' = pool_calls w1 @ y" "connects y = targets opened (give opened (drop (pos + 1) (concat ccs)) rest)"
      by auto
    show ?thesis
      by (intro exI [of _ w'] exI [of _ "y1 @ y"])
        (use w' w1 False in \<open>simp add: upt [of ?e] drop targets_def\<close>)
  qed
qed

lemma PostProcess_gives:
  assumes "core_laws K" "sim w a" "calm_core K a (pool_calls w)"
    and "p \<in> set (m_vPool w)" "pool_at w p = Some sp" "m_nPoolId sp \<noteq> 0"
    and "per = co_per_thread K (pool_calls w) (m_nPoolId sp)" "per \<noteq> 0" "\<forall>r \<in> set ccs. length r = per"
    and "\<forall>x. \<forall>h \<in> set (handles sp) - fst ` set (connects x). co_opened K (pool_calls w @ x) h = opened h"
    and "length (filter (\<lambda>h. \<not> opened h) (handles sp)) \<le> length (concat ccs)"
  shows "\<exists>b w' y sockets.
    PostProcess_pool K p ccs w = Inr (b, w') \<and> sockets = give opened (concat ccs) (m_mapSocketHandler sp) \<and>
    pool_at w' p = Some (sp\<lparr>m_mapSocketHandler := sockets\<rparr>) \<and>
    pool_calls w' = pool_calls w @ y \<and> connects y = targets opened sockets \<and> sim w' a"
proof -
  let ?n = "m_nPoolId sp" and ?N = "length (m_mapSocketHandler sp)"
  have p: "pool_of w ?n p sp" using assms(4,5) by (simp add: pool_of_def)
  have rect: "list_all (\<lambda>r. length r = per) ccs" using assms(9) by (simp add: list_all_iff)
  have opened: "co_opened K (pool_calls w @ x) h = opened h" if "h \<in> set (handles sp)" "h \<notin> fst ` set (connects x)" for x h
    using assms(10) that by blast
  have distinct: "distinct (map (\<lambda>e. s_handle (fst e)) (m_mapSocketHandler sp))"
    using pool_of_ok [OF simD(1) [OF assms(2)] p] by (simp add: pool_ok_def handles_def)
  have len: "length (filter (\<lambda>e. \<not> opened (s_handle (fst e))) (m_mapSocketHandler sp)) + 0 \<le> length (concat ccs)"
    using assms(11) by (simp add: handles_def filter_map comp_def)
  obtain w' y where w': "PostProcess_loop K p ccs ?n ?N per [0..<?N] 0 True w = Inr w'" "sim w' a"
    "pool_of w' ?n p (sp\<lparr>m_mapSocketHandler := give opened (concat ccs) (m_mapSocketHandler sp)\<rparr>)"
    "pool_calls w' = pool_calls w @ y" "connects y = targets opened (give opened (concat ccs) (m_mapSocketHandler sp))"
    using PostProcess_loop_gives [where H = "set (handles sp)" and opened = opened and don = "[]" and N = ?N and x = "[]"
        and rest = "m_mapSocketHandler sp", OF assms(1,6) rect assms(8) opened assms(3) assms(2) p, of 0 True] distinct len
    by (auto simp: handles_def)
  have "the_pool w p = Inr sp" using assms(5) by (simp add: the_pool_def)
  then show ?thesis using w' assms(7) pool_of_D [OF w'(3)] by (auto simp: PostProcess_pool_def Let_def)
qed

text \<open>
  C20: \<^verbatim>\<open>PostProcess\<close> connects the sockets of a pool that are not open, in the order of the map, and gives
  them the contexts from the first one on; it leaves the open ones and their contexts alone. (So a pool that is started
  again while some sockets are open gives the others contexts that were meant for different sockets.)
\<close>

theorem connect_in_order:
  assumes "core_laws K" "sim w a" "calm_core K a (pool_calls w)"
    and "p \<in> set (m_vPool w)" "pool_at w p = Some sp" "m_nPoolId sp \<noteq> 0"
    and "per = co_per_thread K (pool_calls w) (m_nPoolId sp)" "per \<noteq> 0" "\<forall>r \<in> set ccs. length r = per"
    and "\<forall>x. \<forall>h \<in> set (handles sp) - fst ` set (connects x). co_opened K (pool_calls w @ x) h = opened h"
    and "length (filter (\<lambda>h. \<not> opened h) (handles sp)) \<le> length (concat ccs)"
  shows "\<exists>b w' y sockets.
    PostProcess_pool K p ccs w = Inr (b, w') \<and> sockets = give opened (concat ccs) (m_mapSocketHandler sp) \<and>
    pool_at w' p = Some (sp\<lparr>m_mapSocketHandler := sockets\<rparr>) \<and>
    pool_calls w' = pool_calls w @ y \<and> connects y = targets opened sockets \<and> sim w' a"
  by (rule PostProcess_gives [OF assms])

text \<open>Of the two sockets one is open: the other one gets the context of the first position.\<close>

theorem connect_in_order_witness:
  "\<exists>K b w' cc. PostProcess_pool K 7 [[cc, CConnectionContext_new]] running = Inr (b, w') \<and>
     Port cc = 20901 \<and> map_option (\<lambda>sp. map (\<lambda>e. (s_handle (fst e), Port (m_cc (fst e)))) (m_mapSocketHandler sp)) (pool_at w' 7) =
     Some [(11, 0), (12, 20901)]"
proof -
  let ?K = "small_core\<lparr>co_opened := \<lambda>calls h. h = 11 \<or> h \<in> fst ` set (connects calls)\<rparr>"
  let ?cc = "CConnectionContext_new\<lparr>Port := 20901\<rparr>"
  let ?a = "\<lparr>up = view running, idle = card (idle_set running), merging = {}\<rparr>"
  have laws: "core_laws ?K" by (simp add: core_laws_def small_core_def connect_of_def)
  have sim: "sim running ?a" by (simp add: sim_def running_facts(1))
  have calm: "calm_core ?K ?a (pool_calls running)" by (simp add: calm_core_def small_core_def)
  have "give (\<lambda>h. h = 11) [?cc, CConnectionContext_new] (m_mapSocketHandler two_sockets) =
      [(\<lparr>s_handle = 11, m_cc = CConnectionContext_new\<rparr>, \<lparr>p_addr = 0, p_SvsId = 1\<rparr>),
       (\<lparr>s_handle = 12, m_cc = ?cc\<rparr>, \<lparr>p_addr = 1, p_SvsId = 1\<rparr>)]"
    by (simp add: two_sockets_def)
  then have "\<exists>b w'. PostProcess_pool ?K 7 [[?cc, CConnectionContext_new]] running = Inr (b, w') \<and>
      pool_at w' 7 = Some (two_sockets\<lparr>m_mapSocketHandler :=
        [(\<lparr>s_handle = 11, m_cc = CConnectionContext_new\<rparr>, \<lparr>p_addr = 0, p_SvsId = 1\<rparr>),
         (\<lparr>s_handle = 12, m_cc = ?cc\<rparr>, \<lparr>p_addr = 1, p_SvsId = 1\<rparr>)]\<rparr>)"
    using connect_in_order [OF laws sim calm, of 7 two_sockets 2 "[[?cc, CConnectionContext_new]]" "\<lambda>h. h = 11"] running_facts
    by (auto simp: small_core_def two_sockets_def)
  then show ?thesis by (intro exI [of _ ?K]) (fastforce simp: CConnectionContext_new_def)
qed

section \<open>Starting a pool\<close>

text \<open>What the events of a new pool leave as it was: \<open>q\<close> is the pool that they are about.\<close>

definition others_kept :: "nat \<Rightarrow> pool_world \<Rightarrow> pool_world \<Rightarrow> bool" where
  "others_kept q w w' \<longleftrightarrow>
     m_vPool w' = m_vPool w \<and> (\<forall>r. r \<noteq> q \<longrightarrow> pool_at w' r = pool_at w r) \<and>
     (\<exists>x. pool_calls w' = pool_calls w @ x \<and> connects x = [])"

lemma others_kept_trans: "\<lbrakk>others_kept q w w1; others_kept q w1 w2\<rbrakk> \<Longrightarrow> others_kept q w w2"
  unfolding others_kept_def by (simp, elim conjE exE) (rule exI, rule conjI, simp, simp)

lemma others_kept_refl: "others_kept q w w"
  unfolding others_kept_def by simp

lemma created_keeps:
  assumes "sim w a" "n \<noteq> 0" "pool_of w n q sq" "SPE K n speUSocketCreated h w = Inr w'"
  shows "others_kept q w w' \<and> (\<exists>sq'. pool_of w' n q sq')"
proof -
  have "Seek_pool w n = Some q" using Seek_pool_of [OF simD(1) [OF assms(1)] assms(2,3)] .
  then show ?thesis
    using assms(4) pool_of_D [OF assms(3)]
    by (auto simp: SPE_def Let_def on_speUSocketCreated_def tell_def the_pool_def others_kept_def pool_of_def connect_of_def)
qed

lemma created_run:
  "\<lbrakk>core_laws K; sim w a; n \<noteq> 0; pool_of w n q sq; up a n = Some S; distinct hs; set hs \<inter> S = {}\<rbrakk> \<Longrightarrow>
   \<exists>w' sq'. run_events K (map (\<lambda>h. (n, speUSocketCreated, h)) hs) w = Inr w' \<and>
      sim w' (a\<lparr>up := (up a)(n \<mapsto> S \<union> set hs)\<rparr>) \<and> pool_of w' n q sq' \<and> others_kept q w w'"
proof (induction hs arbitrary: w a sq S)
  case Nil
  then have "sim w (a\<lparr>up := (up a)(n \<mapsto> S \<union> set [])\<rparr>)" by (simp add: fun_upd_idem)
  then show ?case using Nil.prems(4) others_kept_refl by (intro exI conjI) (assumption | simp)+
next
  case (Cons h hs)
  let ?a = "a\<lparr>up := (up a)(n \<mapsto> insert h S)\<rparr>"
  have "legal a (n, speUSocketCreated, h)" using Cons.prems by (simp add: legal.simps)
  then obtain w1 where w1: "SPE K n speUSocketCreated h w = Inr w1" "sim w1 ?a"
    using event_sim [OF Cons.prems(1,2), of n speUSocketCreated h] Cons.prems(5) by (auto simp: event_spec.simps)
  obtain sq1 where sq1: "others_kept q w w1" "pool_of w1 n q sq1"
    using created_keeps [OF Cons.prems(2-4) w1(1)] by blast
  have eq: "?a\<lparr>up := (up ?a)(n \<mapsto> X)\<rparr> = a\<lparr>up := (up a)(n \<mapsto> X)\<rparr>" for X by simp
  have new: "up ?a n = Some (insert h S)" "distinct hs" "set hs \<inter> insert h S = {}" using Cons.prems(6,7) by auto
  obtain w2 sq2 where w2: "run_events K (map (\<lambda>h. (n, speUSocketCreated, h)) hs) w1 = Inr w2"
    "sim w2 (a\<lparr>up := (up a)(n \<mapsto> insert h S \<union> set hs)\<rparr>)" "pool_of w2 n q sq2" "others_kept q w1 w2"
    using Cons.IH [OF Cons.prems(1) w1(2) Cons.prems(3) sq1(2) new] unfolding eq by blast
  moreover have "insert h S \<union> set hs = S \<union> set (h # hs)" by auto
  ultimately show ?case using w1(1) others_kept_trans [OF sq1(1) w2(4)] by (intro exI conjI) (simp_all only: list.map run_events.simps bindr_simps)
qed

definition starting :: "nat \<Rightarrow> nat list \<Rightarrow> (nat \<times> tagSocketPoolEvent \<times> nat) list" where
  "starting n hs = (n, speStarted, 0) # map (\<lambda>h. (n, speUSocketCreated, h)) hs"

definition after_start :: "nat \<Rightarrow> nat list \<Rightarrow> pools_spec \<Rightarrow> pools_spec" where
  "after_start n hs a = a\<lparr>idle := idle a - 1, up := (up a)(n \<mapsto> set hs)\<rparr>"

lemma start_events_run:
  assumes laws: "core_laws K" and sim: "sim w a" and n: "n \<noteq> 0" "up a n = None" and q: "last_idle w = Some q" and hs: "distinct hs"
  shows "\<exists>w' sq. run_events K (starting n hs) w = Inr w' \<and> sim w' (after_start n hs a) \<and> pool_of w' n q sq \<and> others_kept q w w'"
proof -
  obtain sq where sq: "pool_of w 0 q sq" using last_idle_Some [OF q] by blast
  note D = pool_of_D [OF sq]
  have "q \<in> idle_set w" using sq by (auto simp: idle_set_pool_of)
  then have "idle a > 0" using simD(3) [OF sim] by (auto simp: card_gt_0_iff)
  then have "legal a (n, speStarted, 0)" using n by (simp add: legal.simps)
  then obtain w1 where w1: "SPE K n speStarted 0 w = Inr w1" "sim w1 (a\<lparr>up := (up a)(n \<mapsto> {}), idle := idle a - 1\<rparr>)"
    using event_sim [OF laws sim, of n speStarted 0] by (auto simp: event_spec.simps)
  have kept: "others_kept q w w1" "pool_of w1 n q (sq\<lparr>m_nPoolId := n\<rparr>)"
    using w1(1) D q by (auto simp: SPE_def Let_def on_speStarted_def tell_def the_pool_def others_kept_def pool_of_def connect_of_def)
  obtain w2 sq2 where "run_events K (map (\<lambda>h. (n, speUSocketCreated, h)) hs) w1 = Inr w2"
    "sim w2 (after_start n hs a)" "pool_of w2 n q sq2" "others_kept q w1 w2"
    using created_run [OF laws w1(2) n(1) kept(2) _ hs] by (auto simp: after_start_def)
  then show ?thesis using w1(1) others_kept_trans [OF kept(1)] by (auto simp: starting_def)
qed

lemma give_all:
  "\<lbrakk>\<forall>e \<in> set es. \<not> opened (s_handle (fst e)); length es \<le> k\<rbrakk> \<Longrightarrow>
   give opened (replicate k cc) es = map (map_prod (\<lambda>s. s\<lparr>m_cc := cc\<rparr>) id) es"
proof (induction es arbitrary: k)
  case (Cons e es)
  then show ?case by (cases k) (auto simp: id_def)
qed simp

lemma concat_replicate_replicate: "concat (replicate m (replicate k x)) = replicate (m * k) x"
  by (induction m) (simp_all add: replicate_add)

lemma set_pool_same: "pool_at w p = Some sp \<Longrightarrow> set_pool p sp w = w"
  by (simp add: set_pool_def fun_upd_idem)

text \<open>The part of starting that all overloads share, for the pool that takes the events.\<close>

lemma core_started:
  assumes laws: "core_laws K" and sim: "sim w a" and p: "last_idle w = Some p"
    and idle: "co_threads K (pool_calls w) 0 = 0"
    and c1: "c1 = pool_calls w @ [C_CreateSocketPool per threads avg]"
    and new: "co_new_pool K c1 = n" "n \<noteq> 0" "up a n = None" "co_events K c1 = starting n hs" "distinct hs"
  shows "\<exists>w' sp x. StartSocketPool_core K p per threads avg w = Inr w' \<and> sim w' (after_start n hs a) \<and>
      pool_of w' n p sp \<and> set (handles sp) = set hs \<and> pool_calls w' = c1 @ x \<and> connects x = []"
proof -
  let ?w = "call (C_CreateSocketPool per threads avg) w"
  obtain sp where sp: "pool_of w 0 p sp" using last_idle_Some [OF p] by blast
  note D = pool_of_D [OF sp]
  have m: "more_calls w ?w" by (auto simp: connect_of_def)
  have simw: "sim ?w a" using sim sim_more [OF m] by simp
  have "has_id ?w 0 = has_id w 0" by (intro ext) (simp add: has_id_def)
  then have idle': "last_idle ?w = Some p" using p by (simp add: last_idle_def)
  obtain w2 sq where w2: "run_events K (starting n hs) ?w = Inr w2" "sim w2 (after_start n hs a)" "pool_of w2 n p sq" "others_kept p ?w w2"
    using start_events_run [OF laws simw new(2,3) idle' new(5)] by blast
  have "Some (set (handles sq)) = Some (set hs)"
    using view_Some [OF simD(1) [OF w2(2)] new(2) w2(3)] fun_cong [OF simD(2) [OF w2(2)], of n] by (simp add: after_start_def)
  moreover have "StartSocketPool_core K p per threads avg w = Inr w2"
    using D idle c1 new w2(1) pool_of_D [OF w2(3)]
    by (simp add: StartSocketPool_core_def IsStarted_def call_ev_def Let_def set_pool_same)
  moreover obtain y where y: "pool_calls w2 = c1 @ y" "connects y = []"
    using w2(4) c1 by (auto simp: others_kept_def)
  ultimately show ?thesis using w2(2,3) by auto
qed

text \<open>
  C12: starting a pool when it is the last idle one creates its sockets and sends each of them to the host of the given
  context, in the order of the map; the pool then has the id of the core and no other pool is changed.
\<close>

theorem start_connects_all:
  assumes "core_laws K" "sim w a" "last_idle w = Some p" "0 < per" "0 < threads"
    and "co_threads K (pool_calls w) 0 = 0" "c1 = pool_calls w @ [C_CreateSocketPool per threads avg]"
    and "co_new_pool K c1 = n" "n \<noteq> 0" "up a n = None" "co_events K c1 = starting n hs" "distinct hs" "length hs = per * threads"
    and "\<forall>x. co_threads K (c1 @ x) n = threads \<and> co_per_thread K (c1 @ x) n = per"
    and "\<forall>x. \<forall>h \<in> set hs - fst ` set (connects x). \<not> co_opened K (c1 @ x) h"
    and "calm_core K (after_start n hs a) c1"
  shows "\<exists>b w' sp y.
    StartSocketPool K p cc per threads avg w = Inr (b, w') \<and> sim w' (after_start n hs a) \<and>
    pool_at w' p = Some sp \<and> m_nPoolId sp = n \<and> distinct (handles sp) \<and> set (handles sp) = set hs \<and>
    list_all (\<lambda>e. m_cc (fst e) = cc) (m_mapSocketHandler sp) \<and>
    pool_calls w' = c1 @ y \<and> connects y = map (\<lambda>h. target h cc) (handles sp)"
proof -
  obtain w2 sq x where w2: "StartSocketPool_core K p per threads avg w = Inr w2" "sim w2 (after_start n hs a)"
    "pool_of w2 n p sq" "set (handles sq) = set hs" "pool_calls w2 = c1 @ x" "connects x = []"
    using core_started [OF assms(1-3,6-12)] by blast
  note D = pool_of_D [OF w2(3)]
  let ?ccs = "replicate threads (replicate per cc)"
  let ?closed = "\<lambda>_::nat. False"
  let ?es = "map (map_prod (\<lambda>s. s\<lparr>m_cc := cc\<rparr>) id) (m_mapSocketHandler sq)"
  have dist: "distinct (handles sq)" using pool_of_ok [OF simD(1) [OF w2(2)] w2(3)] by (simp add: pool_ok_def)
  have len: "length (handles sq) = threads * per"
    using distinct_card [OF dist] distinct_card [OF assms(12)] w2(4) assms(13) by (simp add: mult.commute)
  have opened: "\<forall>z. \<forall>h \<in> set (handles sq) - fst ` set (connects z). co_opened K (pool_calls w2 @ z) h = ?closed h"
  proof (intro allI ballI)
    fix z h assume "h \<in> set (handles sq) - fst ` set (connects z)"
    then show "co_opened K (pool_calls w2 @ z) h = ?closed h"
      using assms(15) [rule_format, of h "x @ z"] w2(4,5,6) by simp
  qed
  have id0: "m_nPoolId sq \<noteq> 0" "per = co_per_thread K (pool_calls w2) (m_nPoolId sq)" "per \<noteq> 0"
    using D assms(4,9,14) w2(5) by simp_all
  have give: "give ?closed (concat ?ccs) (m_mapSocketHandler sq) = ?es"
    unfolding concat_replicate_replicate using len by (intro give_all) (simp_all add: handles_def)
  obtain b w3 y where w3: "PostProcess_pool K p ?ccs w2 = Inr (b, w3)"
    "pool_at w3 p = Some (sq\<lparr>m_mapSocketHandler := ?es\<rparr>)"
    "pool_calls w3 = pool_calls w2 @ y" "connects y = targets ?closed ?es" "sim w3 (after_start n hs a)"
    using PostProcess_gives [where ccs = ?ccs and p = p, OF assms(1) w2(2) _ _ _ id0 _ opened] D len assms(16) w2(5)
    unfolding give by (auto simp: calm_core_append concat_replicate_replicate)
  have asked: "as_asked K per threads w2 (m_nPoolId sq)" using assms(14) D w2(5) by (simp add: as_asked_def)
  let ?sp = "sq\<lparr>m_mapSocketHandler := ?es\<rparr>"
  have hs: "handles ?sp = handles sq" by (simp add: handles_def)
  have "StartSocketPool K p cc per threads avg w = Inr (b, w3)"
    using assms(4,5) w2(1) D asked w3(1) by (simp add: StartSocketPool_def Let_def)
  moreover have "connects y = map (\<lambda>h. target h cc) (handles ?sp)"
    using w3(4) by (simp add: targets_def handles_def)
  moreover have "list_all (\<lambda>e. m_cc (fst e) = cc) (m_mapSocketHandler ?sp)" by (simp add: list_all_iff)
  ultimately show ?thesis
    using w3(2,3,5) D dist w2(4,5,6) unfolding hs [symmetric]
    by (intro exI [of _ b] exI [of _ w3] exI [of _ ?sp] exI [of _ "x @ y"]) (simp add: hs)
qed

text \<open>A core that starts a pool of one thread with two sockets, which are open once they are asked to connect.\<close>

definition starting_core :: pool_core where
  "starting_core = small_core
     \<lparr>co_opened := \<lambda>calls h. h \<in> fst ` set (connects calls),
      co_events := \<lambda>calls. if calls = [C_CreateSocketPool 2 1 True] then starting 1 [11, 12] else []\<rparr>"

lemma starting_laws: "core_laws starting_core"
  by (simp add: core_laws_def starting_core_def small_core_def connect_of_def)

theorem start_connects_all_witness:
  "\<exists>b w' sp. StartSocketPool starting_core 7 CConnectionContext_new 2 1 True one_pool = Inr (b, w') \<and>
     pool_at w' 7 = Some sp \<and> m_nPoolId sp = 1 \<and> set (handles sp) = {11, 12}"
proof -
  let ?a = "\<lparr>up = Map.empty, idle = 1, merging = {}\<rparr>"
  have idle: "last_idle one_pool = Some 7"
    by (simp add: last_idle_def has_id_def one_pool_def CSocketPool_new_def no_pools_def)
  have calls: "pool_calls one_pool = []" by (simp add: one_pool_def CSocketPool_new_def no_pools_def)
  have calm: "calm_core starting_core (after_start 1 [11, 12] ?a) [C_CreateSocketPool 2 1 True]"
    by (simp add: calm_core_def starting_core_def)
  show ?thesis
    using start_connects_all [OF starting_laws one_pool_sim idle, of 2 1 "[C_CreateSocketPool 2 1 True]" True 1 "[11, 12]"
        CConnectionContext_new] calls calm
    by (fastforce simp: starting_core_def small_core_def connect_of_def)
qed

text \<open>
  C21: the core gives a new pool to the last registered pool that is idle, whichever pool asked for it. If another idle
  pool is started, that one gets the id only, and the other one the id and the sockets: then two pools share the id,
  which breaks the invariant that all other events rely on.
\<close>

theorem start_wakes_last_idle:
  assumes "core_laws K" "sim w a" "last_idle w = Some q"
    and "p \<in> set (m_vPool w)" "p \<noteq> q" "pool_at w p = Some sp" "m_nPoolId sp = 0"
    and "co_threads K (pool_calls w) 0 = 0" "c1 = pool_calls w @ [C_CreateSocketPool per threads avg]"
    and "co_new_pool K c1 = n" "n \<noteq> 0" "up a n = None" "co_events K c1 = starting n hs" "distinct hs"
  shows "\<exists>w' sq. StartSocketPool_core K p per threads avg w = Inr w' \<and>
    pool_at w' p = Some (sp\<lparr>m_nPoolId := n\<rparr>) \<and> m_mapSocketHandler sp = [] \<and>
    pool_at w' q = Some sq \<and> m_nPoolId sq = n \<and> set (handles sq) = set hs \<and> \<not> pools_inv w'"
proof -
  let ?w = "call (C_CreateSocketPool per threads avg) w"
  have m: "more_calls w ?w" by (auto simp: connect_of_def)
  have simw: "sim ?w a" using assms(2) sim_more [OF m] by simp
  have "has_id ?w 0 = has_id w 0" by (intro ext) (simp add: has_id_def)
  then have idle': "last_idle ?w = Some q" using assms(3) by (simp add: last_idle_def)
  obtain w2 sq where w2: "run_events K (starting n hs) ?w = Inr w2" "sim w2 (after_start n hs a)" "pool_of w2 n q sq" "others_kept q ?w w2"
    using start_events_run [OF assms(1) simw assms(11,12) idle' assms(14)] by blast
  note D = pool_of_D [OF w2(3)]
  have p2: "pool_at w2 p = Some sp" "m_vPool w2 = m_vPool w" using w2(4) assms(5,6) by (auto simp: others_kept_def)
  have hs: "set (handles sq) = set hs"
    using view_Some [OF simD(1) [OF w2(2)] assms(11) w2(3)] fun_cong [OF simD(2) [OF w2(2)], of n] by (simp add: after_start_def)
  let ?w' = "set_pool p (sp\<lparr>m_nPoolId := n\<rparr>) w2"
  have "StartSocketPool_core K p per threads avg w = Inr ?w'"
    using assms(6-10,13) w2(1) p2
    by (simp add: StartSocketPool_core_def IsStarted_def call_ev_def Let_def the_pool_def)
  moreover have "\<not> pools_inv ?w'"
  proof
    assume "pools_inv ?w'"
    then have "apart (sp\<lparr>m_nPoolId := n\<rparr>) sq"
      using pools_invD(4) [of ?w' p q "sp\<lparr>m_nPoolId := n\<rparr>" sq] assms(4,5) p2 D by simp
    then show False using D assms(11) by (simp add: apart_def)
  qed
  moreover have "m_mapSocketHandler sp = []"
    using pool_of_ok [OF simD(1) [OF assms(2)], of 0 p sp] assms(4,6,7) by (simp add: pool_of_def pool_ok_def)
  ultimately show ?thesis using hs D assms(5) by (intro exI [of _ ?w'] exI [of _ sq]) simp
qed

theorem start_wakes_last_idle_witness:
  "\<exists>w' sp sq. StartSocketPool_core starting_core 7 2 1 True (CSocketPool_new 8 True 30000 30000 1 one_pool) = Inr w' \<and>
     pool_at w' 7 = Some sp \<and> m_nPoolId sp = 1 \<and> pool_at w' 8 = Some sq \<and> m_nPoolId sq = 1 \<and> set (handles sq) = {11, 12}"
proof -
  let ?w = "CSocketPool_new 8 True 30000 30000 1 one_pool"
  note defs = CSocketPool_new_def one_pool_def no_pools_def
  have "idle_set ?w = {7, 8}" by (auto simp: idle_set_def has_id_def defs)
  moreover have "view ?w = Map.empty" by (intro ext) (simp add: view_def Seek_pool_def has_id_def defs)
  moreover have "pools_inv ?w" by (simp add: pools_inv_def pool_ok_def handles_def addrs_def apart_def defs)
  ultimately have sim: "sim ?w \<lparr>up = Map.empty, idle = 2, merging = {}\<rparr>" by (simp add: sim_def)
  have idle: "last_idle ?w = Some 8" by (simp add: last_idle_def has_id_def defs)
  obtain sp where sp: "pool_at ?w 7 = Some sp" "m_nPoolId sp = 0" by (simp add: defs)
  show ?thesis
    using start_wakes_last_idle [OF starting_laws sim idle _ _ sp, of "[C_CreateSocketPool 2 1 True]" 2 1 True 1 "[11, 12]"]
    by (fastforce simp: starting_core_def small_core_def defs)
qed

end
